(* ===== verification/Prelude.thy ===== *)
theory Prelude
  imports Main "HOL-Library.Word" "HOL-Library.AList" "HOL-Library.Multiset"
begin

text \<open>
  Shared vocabulary of the development: the kernel error codes, the C integer
  conversions, the association-list form of the kernel's id-to-pointer tables, the view of
  the calling task, and the generic lemmas on lists and bits the component theories use.
\<close>

unbundle bit_operations_syntax

named_theorems frame_simps \<open>fields an operation leaves alone\<close>

section \<open>Error codes and results\<close>

text \<open>
  A C function that returns a negative errno or a value is a function into a sum:
  \<open>Inl e\<close> stands for the return of \<open>-e\<close>, \<open>Inr v\<close> for the value.
\<close>

datatype errno =
    EPERM | ENOENT | EINTR | EIO | E2BIG | EAGAIN | ENOMEM | EACCES | EFAULT | EBUSY | EEXIST
  | ENODEV | EINVAL | ENOSPC | ERANGE | ENOSYS | ENODATA | EIDRM | ENOMSG | EOPNOTSUPP | EFBIG
  | ERESTARTNOHAND | EOTHER int

type_synonym 'a result = "errno + 'a"

section \<open>C integers\<close>

text \<open>The conversion of a mathematical value to a 32 bit int.\<close>

definition c_int :: "int \<Rightarrow> int" where
  "c_int x = signed_take_bit 31 x"

lemma c_int_id: "\<lbrakk>- (2 ^ 31) \<le> x; x < 2 ^ 31\<rbrakk> \<Longrightarrow> c_int x = x"
  unfolding c_int_def by (rule signed_take_bit_int_eq_self) simp_all

text \<open>Base-two logarithm of the kernel (\<open>ilog2\<close>), for arguments at least one.\<close>

fun ilog2 :: "nat \<Rightarrow> nat" where
  "ilog2 n = (if n < 2 then 0 else Suc (ilog2 (n div 2)))"

declare ilog2.simps [simp del]

lemma ilog2_upper: "n < 2 ^ Suc (ilog2 n)"
proof (induction n rule: ilog2.induct)
  case (1 n)
  show ?case
  proof (cases "n < 2")
    case True
    then show ?thesis by (subst ilog2.simps) simp
  next
    case False
    with "1.IH" have "n div 2 < 2 ^ Suc (ilog2 (n div 2))" by simp
    then have "n < 2 * 2 ^ Suc (ilog2 (n div 2))" by simp
    with False show ?thesis by (subst ilog2.simps) simp
  qed
qed

lemma or_push_bit_one:
  fixes r :: int
  assumes "2 ^ Suc i dvd r"
  shows "r OR push_bit i 1 = r + 2 ^ i"
proof -
  from assms obtain q where r: "r = push_bit (Suc i) q"
    by (auto simp: push_bit_eq_mult mult.commute elim: dvdE)
  have "r AND push_bit i 1 = 0"
    by (rule bit_eqI) (auto simp only: r bit_simps, simp_all)
  then have "r OR push_bit i 1 = r + push_bit i 1"
    using plus_and_or [of r "push_bit i 1"] by simp
  then show ?thesis by (simp add: push_bit_eq_mult)
qed

section \<open>Id tables\<close>

text \<open>
  An \<open>idr\<close> of the kernel as an association list from indices to object pointers;
  \<open>idr_get_next\<close> returns the lowest used index that is at least the one given.
\<close>

type_synonym ptr = nat
type_synonym idr = "(int \<times> ptr) list"

definition idr_find :: "idr \<Rightarrow> int \<Rightarrow> ptr option" where
  "idr_find t i = map_of t i"

definition idr_replace :: "idr \<Rightarrow> int \<Rightarrow> ptr \<Rightarrow> idr" where
  "idr_replace t i p = AList.update i p t"

definition idr_remove :: "idr \<Rightarrow> int \<Rightarrow> idr" where
  "idr_remove t i = AList.delete i t"

definition idr_get_next :: "idr \<Rightarrow> int \<Rightarrow> int option" where
  "idr_get_next t i =
     (case filter (\<lambda>k. i \<le> k) (map fst t) of [] \<Rightarrow> None | ks \<Rightarrow> Some (min_list ks))"

lemma idr_get_next_None: "idr_get_next t i = None \<longleftrightarrow> (\<forall>k \<in> fst ` set t. k < i)"
proof -
  have "idr_get_next t i = None \<longleftrightarrow> filter (\<lambda>k. i \<le> k) (map fst t) = []"
    by (auto simp: idr_get_next_def split: list.splits)
  also have "\<dots> \<longleftrightarrow> (\<forall>k \<in> fst ` set t. k < i)"
    by (auto simp: filter_empty_conv not_le)
  finally show ?thesis .
qed

lemma idr_get_next_Some:
  "idr_get_next t i = Some k \<Longrightarrow> k \<in> fst ` set t \<and> i \<le> k \<and> (\<forall>j \<in> fst ` set t. i \<le> j \<longrightarrow> k \<le> j)"
proof -
  assume a: "idr_get_next t i = Some k"
  let ?ks = "filter (\<lambda>k. i \<le> k) (map fst t)"
  have ne: "?ks \<noteq> []" and k: "k = min_list ?ks"
    using a by (auto simp: idr_get_next_def split: list.splits)
  have k_min: "k = Min (set ?ks)"
    using k min_list_Min [OF ne] by simp
  have "finite (set ?ks)" and "set ?ks \<noteq> {}" using ne by (simp, metis set_empty)
  then have "k \<in> set ?ks" and "\<forall>j \<in> set ?ks. k \<le> j"
    using Min_in [of "set ?ks"] Min_le [of "set ?ks"] unfolding k_min by blast+
  then show ?thesis by auto
qed

lemma map_of_idr_remove: "map_of (AList.delete i t) = (map_of t)(i := None)"
  by (rule delete_conv')

text \<open>
  \<^verbatim>\<open>kmalloc\<close>: given the addresses in use it returns a new one, or fails; its documented contract.
\<close>

type_synonym kmalloc = "(ptr \<Rightarrow> bool) \<Rightarrow> ptr option"

definition kmalloc_ok :: "kmalloc \<Rightarrow> bool" where
  "kmalloc_ok f \<longleftrightarrow> (\<forall>used p. f used = Some p \<longrightarrow> \<not> used p)"

section \<open>Lists\<close>

lemma sum_list_map_filter_split:
  "sum_list (map f xs) = sum_list (map f (filter P xs)) + (sum_list (map f (filter (Not \<circ> P) xs)) :: nat)"
  by (induction xs) auto

lemma in_fst_set_iff: "i \<in> fst ` set t \<longleftrightarrow> (\<exists>p. map_of t i = Some p)"
  by (metis domIff dom_map_of_conv_image_fst not_Some_eq)

section \<open>The calling task\<close>

text \<open>
  What a system call reads from its caller and from the rest of the kernel: credentials,
  capabilities in the namespace's owner, the wall clock, its task and thread-group
  identity and whether a signal is pending.
\<close>

datatype capability = CAP_IPC_OWNER | CAP_SYS_ADMIN | CAP_SYS_RESOURCE | CAP_IPC_LOCK

record task_env =
  cur_task :: nat
  cur_tgid :: nat
  cur_euid :: nat
  cur_egid :: nat
  cur_in_group :: "nat \<Rightarrow> bool"
  cur_ns_capable :: "capability \<Rightarrow> bool"
  cur_signal_pending :: bool
  clock_seconds :: int

definition plain_env :: "nat \<Rightarrow> nat \<Rightarrow> task_env" where
  "plain_env t u = \<lparr>cur_task = t, cur_tgid = t, cur_euid = u, cur_egid = u,
     cur_in_group = (\<lambda>g. g = u), cur_ns_capable = (\<lambda>_. False),
     cur_signal_pending = False, clock_seconds = 1000\<rparr>"

end
