(* ===== verification/IpcUtil.thy ===== *)
theory IpcUtil
  imports Prelude
begin

text \<open>
  The id tables shared by message queues, semaphore sets and shared memory
  (\<^verbatim>\<open>src/src/main/ipcns/ipc_util.c\<close> and \<^verbatim>\<open>ipc_util.h\<close>): the permission record every
  IPC object starts with, the table of one class (index tree, key hash table, sequence
  number, cached maximum index), its operations, the permission checks and the
  get-or-create logic of \<^verbatim>\<open>msgget\<close>, \<^verbatim>\<open>semget\<close> and \<^verbatim>\<open>shmget\<close>.

  Object memory is the field \<open>objs\<close>: a pointer is a number, an object is a record that
  extends \<open>kern_ipc_perm\<close>, so the C \<^verbatim>\<open>container_of\<close> is the identity here. The index an
  \<open>idr\<close> hands out and the failure of a hash table insertion belong to the kernel's
  containers: they are the arguments \<open>alloc\<close> and \<open>kht_err\<close>.
\<close>

unbundle bit_operations_syntax

section \<open>Identifiers\<close>

definition IPCMNI_SHIFT :: nat where "IPCMNI_SHIFT = 15"
definition ipc_mni :: int where "ipc_mni = 32768"
definition ipc_min_cycle :: int where "ipc_min_cycle = 64"
definition IPCMNI_IDX_MASK :: int where "IPCMNI_IDX_MASK = 32767"
definition INT_MAX :: int where "INT_MAX = 2147483647"

definition ipcid_to_idx :: "int \<Rightarrow> int" where
  "ipcid_to_idx i = i AND IPCMNI_IDX_MASK"

definition ipcid_to_seqx :: "int \<Rightarrow> int" where
  "ipcid_to_seqx i = drop_bit IPCMNI_SHIFT i"

definition ipcid_seq_max :: int where
  "ipcid_seq_max = drop_bit IPCMNI_SHIFT INT_MAX"

definition ipcid_make :: "int \<Rightarrow> int \<Rightarrow> int" where
  "ipcid_make s idx = c_int (push_bit IPCMNI_SHIFT s + idx)"

lemmas ipcid_defs = ipcid_to_idx_def ipcid_to_seqx_def ipcid_make_def IPCMNI_SHIFT_def
  IPCMNI_IDX_MASK_def ipc_mni_def

lemma ipcid_seq_max_val [simp]: "ipcid_seq_max = 65535"
  by (simp add: ipcid_seq_max_def INT_MAX_def IPCMNI_SHIFT_def)

lemma idx_mod: "ipcid_to_idx i = i mod 32768"
  using take_bit_eq_mask [of 15 i]
  by (simp add: ipcid_to_idx_def IPCMNI_IDX_MASK_def mask_eq_exp_minus_1 take_bit_eq_mod)

lemma seqx_div: "ipcid_to_seqx i = i div 32768"
  by (simp add: ipcid_to_seqx_def IPCMNI_SHIFT_def drop_bit_eq_div)

lemma ipcid_make_val:
  assumes "0 \<le> s" "s < 65536" "0 \<le> i" "i < ipc_mni"
  shows "ipcid_make s i = s * 32768 + i"
  using assms by (simp add: ipcid_make_def IPCMNI_SHIFT_def push_bit_eq_mult ipc_mni_def c_int_id)

lemma ipcid_make_split:
  assumes "0 \<le> s" "s < 65536" "0 \<le> i" "i < ipc_mni"
  shows "ipcid_to_idx (ipcid_make s i) = i" "ipcid_to_seqx (ipcid_make s i) = s"
  using assms by (simp_all add: ipcid_make_val idx_mod seqx_div ipc_mni_def)

section \<open>Objects and tables\<close>

record kern_ipc_perm =
  perm_deleted :: bool
  perm_id :: int
  perm_key :: int
  perm_uid :: nat
  perm_gid :: nat
  perm_cuid :: nat
  perm_cgid :: nat
  perm_mode :: int
  perm_seq :: int
  perm_refcount :: nat

record 'o ipc_ids =
  in_use :: int
  ids_seq :: "16 word"
  ipcs_idr :: idr
  key_ht :: "int \<rightharpoonup> ptr"
  max_idx :: int
  last_idx :: int
  objs :: "ptr \<rightharpoonup> 'o"

type_synonym idr_alloc = "idr \<Rightarrow> int \<Rightarrow> int \<Rightarrow> int result"

text \<open>The documented contract of \<^verbatim>\<open>idr_alloc_cyclic\<close>: an index it returns lies in the range and was free.\<close>

definition idr_alloc_ok :: "idr_alloc \<Rightarrow> bool" where
  "idr_alloc_ok alloc \<longleftrightarrow>
     (\<forall>t lo hi i. alloc t lo hi = Inr i \<longrightarrow> lo \<le> i \<and> i < hi \<and> map_of t i = None)"

definition IPC_PRIVATE :: int where "IPC_PRIVATE = 0"
definition IPC_CREAT :: int where "IPC_CREAT = 512"
definition IPC_EXCL :: int where "IPC_EXCL = 1024"
definition IPC_NOWAIT :: int where "IPC_NOWAIT = 2048"
definition IPC_RMID :: int where "IPC_RMID = 0"
definition IPC_SET :: int where "IPC_SET = 1"
definition IPC_STAT :: int where "IPC_STAT = 2"
definition IPC_INFO :: int where "IPC_INFO = 3"
definition IPC_OLD :: int where "IPC_OLD = 0"
definition IPC_64 :: int where "IPC_64 = 256"
definition S_IRWXUGO :: int where "S_IRWXUGO = 511"
definition S_IRUGO :: int where "S_IRUGO = 292"
definition S_IWUGO :: int where "S_IWUGO = 146"

lemmas ipc_consts = IPC_PRIVATE_def IPC_CREAT_def IPC_EXCL_def IPC_NOWAIT_def IPC_RMID_def
  IPC_SET_def IPC_STAT_def IPC_INFO_def IPC_OLD_def IPC_64_def

text \<open>
  Writing through a pointer; a dangling pointer has no object to write. A field that is
  updated from its own value is written with the record's update function, as in
  \<open>in_use_update (\<lambda>n. n + 1)\<close>.
\<close>

definition upd_obj :: "ptr \<Rightarrow> ('o \<Rightarrow> 'o) \<Rightarrow> 'o ipc_ids \<Rightarrow> 'o ipc_ids" where
  "upd_obj p f = objs_update (\<lambda>h. h(p := map_option f (h p)))"

definition ipc_init_ids :: "'o ipc_ids" where
  "ipc_init_ids = \<lparr>in_use = 0, ids_seq = 0, ipcs_idr = [], key_ht = Map.empty,
     max_idx = -1, last_idx = -1, objs = Map.empty\<rparr>"

definition ipc_get_maxidx :: "'o ipc_ids \<Rightarrow> int" where
  "ipc_get_maxidx ids =
     (if in_use ids = 0 then -1
      else if in_use ids = ipc_mni then ipc_mni - 1
      else max_idx ids)"

definition ipc_findkey :: "'o ipc_ids \<Rightarrow> int \<Rightarrow> ptr option" where
  "ipc_findkey ids k = key_ht ids k"

section \<open>Adding an object\<close>

definition next_seq :: "'o ipc_ids \<Rightarrow> int \<Rightarrow> 16 word" where
  "next_seq ids idx =
     (if idx \<le> last_idx ids
      then (let s = ids_seq ids + 1 in if ipcid_seq_max \<le> uint s then 0 else s)
      else ids_seq ids)"

definition ipc_idr_alloc ::
    "idr_alloc \<Rightarrow> ('a kern_ipc_perm_scheme) ipc_ids \<Rightarrow> ptr
       \<Rightarrow> ('a kern_ipc_perm_scheme) ipc_ids \<times> int result" where
  "ipc_idr_alloc alloc ids p =
     (let m = max (in_use ids * 3 div 2) ipc_min_cycle;
          m = min m ipc_mni
      in case alloc (ipcs_idr ids) 0 m of
           Inl e \<Rightarrow> (ids, Inl e)
         | Inr idx \<Rightarrow>
             (let s = next_seq ids idx;
                  ids = ipcs_idr_update (\<lambda>t. idr_replace t idx p) (ids\<lparr>ids_seq := s, last_idx := idx\<rparr>)
              in (upd_obj p (\<lambda>q. q\<lparr>perm_seq := uint s, perm_id := ipcid_make (uint s) idx\<rparr>) ids,
                  Inr idx)))"

definition ipc_addid ::
    "task_env \<Rightarrow> idr_alloc \<Rightarrow> errno option \<Rightarrow> ('a kern_ipc_perm_scheme) ipc_ids \<Rightarrow> ptr \<Rightarrow> int
       \<Rightarrow> ('a kern_ipc_perm_scheme) ipc_ids \<times> int result" where
  "ipc_addid env alloc kht_err ids p limit =
     (let ids = upd_obj p (\<lambda>q. q\<lparr>perm_refcount := 1\<rparr>) ids;
          limit = (if limit > ipc_mni then ipc_mni else limit)
      in if in_use ids \<ge> limit then (ids, Inl ENOSPC)
         else
           (let ids = upd_obj p (\<lambda>q. q\<lparr>perm_cuid := cur_euid env, perm_uid := cur_euid env,
                         perm_gid := cur_egid env, perm_cgid := cur_egid env,
                         perm_deleted := False\<rparr>) ids
            in case ipc_idr_alloc alloc ids p of
                 (ids, Inl e) \<Rightarrow> (upd_obj p (\<lambda>q. q\<lparr>perm_deleted := True\<rparr>) ids, Inl e)
               | (ids, Inr idx) \<Rightarrow>
                   (let k = (case objs ids p of Some q \<Rightarrow> perm_key q | None \<Rightarrow> IPC_PRIVATE)
                    in if k \<noteq> IPC_PRIVATE \<and> kht_err \<noteq> None
                       then (upd_obj p (\<lambda>q. q\<lparr>perm_deleted := True\<rparr>)
                               (ipcs_idr_update (\<lambda>t. idr_remove t idx) ids),
                             Inl (the kht_err))
                       else
                         (let ids = (if k \<noteq> IPC_PRIVATE
                                     then key_ht_update (\<lambda>h. h(k \<mapsto> p)) ids else ids);
                              ids = in_use_update (\<lambda>n. n + 1) ids
                          in (max_idx_update (\<lambda>m. if idx > m then idx else m) ids,
                              Inr idx)))))"

section \<open>Removing an object\<close>

definition ipc_kht_remove :: "('a kern_ipc_perm_scheme) ipc_ids \<Rightarrow> ptr \<Rightarrow> ('a kern_ipc_perm_scheme) ipc_ids" where
  "ipc_kht_remove ids p =
     (case objs ids p of
        Some q \<Rightarrow> (if perm_key q \<noteq> IPC_PRIVATE then key_ht_update (\<lambda>h. h(perm_key q := None)) ids else ids)
      | None \<Rightarrow> ids)"

fun ipc_search_loop :: "idr \<Rightarrow> nat \<Rightarrow> int \<Rightarrow> int" where
  "ipc_search_loop t i retval =
     (let tmpidx = (retval OR push_bit i 1) - 1;
          retval = (if idr_get_next t tmpidx \<noteq> None then retval OR push_bit i 1 else retval)
      in case i of 0 \<Rightarrow> retval | Suc j \<Rightarrow> ipc_search_loop t j retval)"

definition ipc_search_maxidx :: "'o ipc_ids \<Rightarrow> int \<Rightarrow> int" where
  "ipc_search_maxidx ids limit = ipc_search_loop (ipcs_idr ids) (ilog2 (nat (limit + 1))) 0 - 1"

definition ipc_rmid :: "('a kern_ipc_perm_scheme) ipc_ids \<Rightarrow> ptr \<Rightarrow> ('a kern_ipc_perm_scheme) ipc_ids" where
  "ipc_rmid ids p =
     (let idx = ipcid_to_idx (case objs ids p of Some q \<Rightarrow> perm_id q | None \<Rightarrow> 0);
          ids = ipcs_idr_update (\<lambda>t. idr_remove t idx) ids;
          ids = ipc_kht_remove ids p;
          ids = in_use_update (\<lambda>n. n - 1) ids;
          ids = upd_obj p (\<lambda>q. q\<lparr>perm_deleted := True\<rparr>) ids
      in if idx = max_idx ids
         then (let idx = max_idx ids - 1;
                   idx = (if idx \<ge> 0 then ipc_search_maxidx ids idx else idx)
               in ids\<lparr>max_idx := idx\<rparr>)
         else ids)"

definition ipc_set_key_private :: "('a kern_ipc_perm_scheme) ipc_ids \<Rightarrow> ptr \<Rightarrow> ('a kern_ipc_perm_scheme) ipc_ids" where
  "ipc_set_key_private ids p = upd_obj p (\<lambda>q. q\<lparr>perm_key := IPC_PRIVATE\<rparr>) (ipc_kht_remove ids p)"

definition ipc_rcu_getref :: "('a kern_ipc_perm_scheme) ipc_ids \<Rightarrow> ptr \<Rightarrow> ('a kern_ipc_perm_scheme) ipc_ids \<times> bool" where
  "ipc_rcu_getref ids p =
     (case objs ids p of
        Some q \<Rightarrow> (if perm_refcount q = 0 then (ids, False)
                   else (upd_obj p (\<lambda>q. q\<lparr>perm_refcount := perm_refcount q + 1\<rparr>) ids, True))
      | None \<Rightarrow> (ids, False))"

text \<open>The put that reaches zero schedules the RCU free; the object is gone afterwards.\<close>

definition ipc_rcu_putref :: "('a kern_ipc_perm_scheme) ipc_ids \<Rightarrow> ptr \<Rightarrow> ('a kern_ipc_perm_scheme) ipc_ids" where
  "ipc_rcu_putref ids p =
     (case objs ids p of
        Some q \<Rightarrow> (if perm_refcount q = 1 then objs_update (\<lambda>h. h(p := None)) ids
                   else upd_obj p (\<lambda>q. q\<lparr>perm_refcount := perm_refcount q - 1\<rparr>) ids)
      | None \<Rightarrow> ids)"

section \<open>Permissions and lookups\<close>

text \<open>
  \<open>lsm\<close> is the security module's answer for an object and a mode, \<open>None\<close> for zero.
\<close>

type_synonym lsm_hook = "kern_ipc_perm \<Rightarrow> int \<Rightarrow> errno option"

definition ipcperms ::
    "task_env \<Rightarrow> lsm_hook \<Rightarrow> 'a kern_ipc_perm_scheme \<Rightarrow> int \<Rightarrow> errno option" where
  "ipcperms env lsm q flag =
     (let requested_mode = drop_bit 6 flag OR drop_bit 3 flag OR flag;
          granted_mode = perm_mode q;
          granted_mode =
            (if cur_euid env = perm_cuid q \<or> cur_euid env = perm_uid q then drop_bit 6 granted_mode
             else if cur_in_group env (perm_cgid q) \<or> cur_in_group env (perm_gid q)
             then drop_bit 3 granted_mode
             else granted_mode)
      in if requested_mode AND NOT granted_mode AND 7 \<noteq> 0 \<and> \<not> cur_ns_capable env CAP_IPC_OWNER
         then Some EPERM
         else lsm (kern_ipc_perm.truncate q) flag)"

text \<open>The user-visible permission structures and the conversions between them.\<close>

record ipc64_perm =
  out_key :: int
  out_uid :: int
  out_gid :: int
  out_cuid :: int
  out_cgid :: int
  out_mode :: int
  out_seq :: int

definition kernel_to_ipc64_perm ::
    "(nat \<Rightarrow> int) \<Rightarrow> (nat \<Rightarrow> int) \<Rightarrow> 'a kern_ipc_perm_scheme \<Rightarrow> ipc64_perm" where
  "kernel_to_ipc64_perm from_kuid from_kgid q =
     \<lparr>out_key = perm_key q, out_uid = from_kuid (perm_uid q), out_gid = from_kgid (perm_gid q),
      out_cuid = from_kuid (perm_cuid q), out_cgid = from_kgid (perm_cgid q),
      out_mode = perm_mode q, out_seq = perm_seq q\<rparr>"

text \<open>
  The old structure has 16 bit ids: \<^verbatim>\<open>SET_UID\<close> and \<^verbatim>\<open>SET_GID\<close> of the kernel replace an
  id that does not fit by the overflow id; \<open>high2low\<close> is that function.
\<close>

definition ipc64_perm_to_ipc_perm :: "(int \<Rightarrow> int) \<Rightarrow> (int \<Rightarrow> int) \<Rightarrow> ipc64_perm \<Rightarrow> ipc64_perm" where
  "ipc64_perm_to_ipc_perm set_uid set_gid i =
     \<lparr>out_key = out_key i, out_uid = set_uid (out_uid i), out_gid = set_gid (out_gid i),
      out_cuid = set_uid (out_cuid i), out_cgid = set_gid (out_cgid i),
      out_mode = out_mode i, out_seq = out_seq i\<rparr>"

definition ipc_obtain_object_idr :: "'o ipc_ids \<Rightarrow> int \<Rightarrow> ptr result" where
  "ipc_obtain_object_idr ids i =
     (case idr_find (ipcs_idr ids) (ipcid_to_idx i) of None \<Rightarrow> Inl EINVAL | Some p \<Rightarrow> Inr p)"

definition ipc_checkid :: "'a kern_ipc_perm_scheme \<Rightarrow> int \<Rightarrow> bool" where
  "ipc_checkid q i \<longleftrightarrow> ipcid_to_seqx i \<noteq> perm_seq q"

definition ipc_obtain_object_check :: "('a kern_ipc_perm_scheme) ipc_ids \<Rightarrow> int \<Rightarrow> ptr result" where
  "ipc_obtain_object_check ids i =
     (case ipc_obtain_object_idr ids i of
        Inl e \<Rightarrow> Inl e
      | Inr p \<Rightarrow> (case objs ids p of
                    None \<Rightarrow> Inl EINVAL
                  | Some q \<Rightarrow> if ipc_checkid q i then Inl EINVAL else Inr p))"

definition ipc_valid_object :: "('a kern_ipc_perm_scheme) ipc_ids \<Rightarrow> ptr \<Rightarrow> bool" where
  "ipc_valid_object ids p = (case objs ids p of Some q \<Rightarrow> \<not> perm_deleted q | None \<Rightarrow> False)"

text \<open>\<open>make_kuid\<close> and \<open>make_kgid\<close> are the caller's id maps, \<open>None\<close> for an unmapped id.\<close>

definition ipc_update_perm ::
    "(int \<Rightarrow> nat option) \<Rightarrow> (int \<Rightarrow> nat option) \<Rightarrow> ipc64_perm \<Rightarrow> 'a kern_ipc_perm_scheme
       \<Rightarrow> ('a kern_ipc_perm_scheme) result" where
  "ipc_update_perm make_kuid make_kgid i q =
     (case (make_kuid (out_uid i), make_kgid (out_gid i)) of
        (Some u, Some g) \<Rightarrow>
          Inr (q\<lparr>perm_uid := u, perm_gid := g,
                 perm_mode := (perm_mode q AND NOT S_IRWXUGO) OR (out_mode i AND S_IRWXUGO)\<rparr>)
      | _ \<Rightarrow> Inl EINVAL)"

definition ipcctl_obtain_check ::
    "task_env \<Rightarrow> ('a kern_ipc_perm_scheme) ipc_ids \<Rightarrow> int \<Rightarrow> ptr result" where
  "ipcctl_obtain_check env ids i =
     (case ipc_obtain_object_check ids i of
        Inl e \<Rightarrow> Inl e
      | Inr p \<Rightarrow>
          (case objs ids p of
             None \<Rightarrow> Inl EINVAL
           | Some q \<Rightarrow>
               if cur_euid env = perm_cuid q \<or> cur_euid env = perm_uid q
                  \<or> cur_ns_capable env CAP_SYS_ADMIN
               then Inr p else Inl EPERM))"

text \<open>The command without the version bit, and the version.\<close>

definition ipc_parse_version :: "int \<Rightarrow> int \<times> int" where
  "ipc_parse_version cmd =
     (if cmd AND IPC_64 \<noteq> 0 then (cmd XOR IPC_64, IPC_64) else (cmd, IPC_OLD))"

definition sem_check_semmni :: "int \<Rightarrow> errno option" where
  "sem_check_semmni semmni = (if semmni < 0 \<or> semmni > ipc_mni then Some ERANGE else None)"

section \<open>Get or create\<close>

record ipc_params =
  par_key :: int
  par_flg :: int
  par_nsems :: int  \<comment> \<open>the union of the size and the number of semaphores\<close>

record 's ipc_ops =
  getnew :: "ipc_params \<Rightarrow> 's \<Rightarrow> 's \<times> int result"
  associate :: lsm_hook
  more_checks :: "('s \<Rightarrow> ptr \<Rightarrow> ipc_params \<Rightarrow> errno option) option"

definition ipcget_new :: "'s ipc_ops \<Rightarrow> ipc_params \<Rightarrow> 's \<Rightarrow> 's \<times> int result" where
  "ipcget_new ops params s = getnew ops params s"

definition ipc_check_perms ::
    "task_env \<Rightarrow> lsm_hook \<Rightarrow> 's ipc_ops \<Rightarrow> ipc_params \<Rightarrow> 'a kern_ipc_perm_scheme \<Rightarrow> int result" where
  "ipc_check_perms env lsm ops params q =
     (if ipcperms env lsm q (par_flg params) \<noteq> None then Inl EACCES
      else case associate ops (kern_ipc_perm.truncate q) (par_flg params) of
             Some e \<Rightarrow> Inl e
           | None \<Rightarrow> Inr (perm_id q))"

definition ipcget_public ::
    "task_env \<Rightarrow> lsm_hook \<Rightarrow> ('s \<Rightarrow> ('a kern_ipc_perm_scheme) ipc_ids) \<Rightarrow> 's ipc_ops \<Rightarrow> ipc_params
       \<Rightarrow> 's \<Rightarrow> 's \<times> int result" where
  "ipcget_public env lsm get_ids ops params s =
     (case ipc_findkey (get_ids s) (par_key params) of
        None \<Rightarrow>
          if par_flg params AND IPC_CREAT = 0 then (s, Inl ENOENT) else getnew ops params s
      | Some p \<Rightarrow>
          if par_flg params AND IPC_CREAT \<noteq> 0 \<and> par_flg params AND IPC_EXCL \<noteq> 0
          then (s, Inl EEXIST)
          else (case (case more_checks ops of None \<Rightarrow> None | Some chk \<Rightarrow> chk s p params) of
                  Some e \<Rightarrow> (s, Inl e)
                | None \<Rightarrow>
                    (s, case objs (get_ids s) p of
                          None \<Rightarrow> Inl EINVAL
                        | Some q \<Rightarrow> ipc_check_perms env lsm ops params q)))"

definition ipcget ::
    "task_env \<Rightarrow> lsm_hook \<Rightarrow> ('s \<Rightarrow> ('a kern_ipc_perm_scheme) ipc_ids) \<Rightarrow> 's ipc_ops \<Rightarrow> ipc_params
       \<Rightarrow> 's \<Rightarrow> 's \<times> int result" where
  "ipcget env lsm get_ids ops params s =
     (if par_key params = IPC_PRIVATE then ipcget_new ops params s
      else ipcget_public env lsm get_ids ops params s)"

section \<open>Iteration\<close>

text \<open>
  \<^verbatim>\<open>/proc/sysvipc\<close>: position 0 is the header, position \<open>n\<close> the object at index \<open>n - 1\<close>
  or the next one after it.
\<close>

datatype seq_item = SEQ_START_TOKEN | SEQ_OBJECT ptr | SEQ_EOF

definition sysvipc_find_ipc :: "'o ipc_ids \<Rightarrow> int \<Rightarrow> seq_item \<times> int" where
  "sysvipc_find_ipc ids pos =
     (case idr_get_next (ipcs_idr ids) (pos - 1) of
        None \<Rightarrow> (SEQ_EOF, pos)
      | Some idx \<Rightarrow>
          (case idr_find (ipcs_idr ids) idx of
             None \<Rightarrow> (SEQ_EOF, pos) | Some p \<Rightarrow> (SEQ_OBJECT p, idx + 1)))"

definition sysvipc_proc_next :: "'o ipc_ids \<Rightarrow> int \<Rightarrow> seq_item \<times> int" where
  "sysvipc_proc_next ids pos = sysvipc_find_ipc ids (pos + 1)"

definition sysvipc_proc_start :: "'o ipc_ids \<Rightarrow> int \<Rightarrow> seq_item \<times> int" where
  "sysvipc_proc_start ids pos =
     (if pos < 0 then (SEQ_EOF, pos)
      else if pos = 0 then (SEQ_START_TOKEN, pos)
      else sysvipc_find_ipc ids pos)"

text \<open>
  The loop that frees every object of a class. It stops when as many objects were freed as
  the table counted at the start, so it runs for ever on a table whose count is too high;
  running out of fuel is the value \<open>None\<close>.
\<close>

fun ds_free_loop ::
    "nat \<Rightarrow> ('s \<Rightarrow> 'o ipc_ids) \<Rightarrow> ('s \<Rightarrow> ptr \<Rightarrow> 's) \<Rightarrow> 's \<Rightarrow> int \<Rightarrow> int \<Rightarrow> int \<Rightarrow> 's option" where
  "ds_free_loop fuel get_ids free s cnt used next_id =
     (if cnt < used then
        (case fuel of
           0 \<Rightarrow> None
         | Suc n \<Rightarrow>
             (case idr_find (ipcs_idr (get_ids s)) next_id of
                None \<Rightarrow> ds_free_loop n get_ids free s cnt used (next_id + 1)
              | Some p \<Rightarrow> ds_free_loop n get_ids free (free s p) (cnt + 1) used (next_id + 1)))
      else Some s)"

declare ds_free_loop.simps [simp del]

definition ds_free_ipcs :: "nat \<Rightarrow> ('s \<Rightarrow> 'o ipc_ids) \<Rightarrow> ('s \<Rightarrow> ptr \<Rightarrow> 's) \<Rightarrow> 's \<Rightarrow> 's option" where
  "ds_free_ipcs fuel get_ids free s = ds_free_loop fuel get_ids free s 0 (in_use (get_ids s)) 0"

section \<open>The table invariant\<close>

text \<open>The part of an object the table depends on.\<close>

datatype core = Core (core_deleted: bool) (core_id: int) (core_key: int) (core_seq: int) (core_live: bool)

definition perm_core :: "'a kern_ipc_perm_scheme \<Rightarrow> core" where
  "perm_core q = Core (perm_deleted q) (perm_id q) (perm_key q) (perm_seq q) (0 < perm_refcount q)"

text \<open>
  An entry is live, carries the id made of its index and its sequence number, and is
  referenced.
\<close>

definition entry_ok :: "core \<Rightarrow> int \<Rightarrow> bool" where
  "entry_ok c i \<longleftrightarrow>
     \<not> core_deleted c \<and> core_id c = core_seq c * 32768 + i \<and> 0 \<le> core_seq c \<and> core_seq c < 65535
     \<and> core_live c"

definition core_at :: "('a kern_ipc_perm_scheme) ipc_ids \<Rightarrow> ptr \<Rightarrow> core option" where
  "core_at ids p = map_option perm_core (objs ids p)"

definition ids_wf :: "('a kern_ipc_perm_scheme) ipc_ids \<Rightarrow> bool" where
  "ids_wf ids \<longleftrightarrow>
     distinct (map fst (ipcs_idr ids)) \<and> distinct (map snd (ipcs_idr ids))
     \<and> in_use ids = int (length (ipcs_idr ids))
     \<and> (\<forall>(i, p) \<in> set (ipcs_idr ids). 0 \<le> i \<and> i < ipc_mni \<and> (\<exists>c. core_at ids p = Some c \<and> entry_ok c i))
     \<and> (\<forall>k p. key_ht ids k = Some p \<longleftrightarrow>
            k \<noteq> IPC_PRIVATE \<and> p \<in> snd ` set (ipcs_idr ids) \<and> (\<exists>c. core_at ids p = Some c \<and> core_key c = k))
     \<and> max_idx ids = Max (insert (-1) (fst ` set (ipcs_idr ids)))
     \<and> uint (ids_seq ids) < 65535 \<and> -1 \<le> last_idx ids \<and> last_idx ids < ipc_mni"

lemma core_simps [simp]:
  "core_key (perm_core q) = perm_key q"
  "entry_ok (perm_core q) i \<longleftrightarrow>
     \<not> perm_deleted q \<and> perm_id q = perm_seq q * 32768 + i \<and> 0 \<le> perm_seq q \<and> perm_seq q < 65535
     \<and> 0 < perm_refcount q"
  by (simp_all add: perm_core_def entry_ok_def)

lemma upd_obj_fields [simp]:
  "in_use (upd_obj p f ids) = in_use ids" "ids_seq (upd_obj p f ids) = ids_seq ids"
  "ipcs_idr (upd_obj p f ids) = ipcs_idr ids" "key_ht (upd_obj p f ids) = key_ht ids"
  "max_idx (upd_obj p f ids) = max_idx ids" "last_idx (upd_obj p f ids) = last_idx ids"
  by (simp_all add: upd_obj_def)

lemma objs_upd_obj [simp]:
  "objs (upd_obj p f ids) = (objs ids)(p := map_option f (objs ids p))"
  by (simp add: upd_obj_def)

lemma upd_obj_upd_obj [simp]: "upd_obj p f (upd_obj p g ids) = upd_obj p (f \<circ> g) ids"
  by (simp add: upd_obj_def option.map_comp fun_upd_idem_iff o_def)

lemma upd_obj_commute:
  "in_use_update g1 (upd_obj p f ids) = upd_obj p f (in_use_update g1 ids)"
  "ids_seq_update g2 (upd_obj p f ids) = upd_obj p f (ids_seq_update g2 ids)"
  "ipcs_idr_update g3 (upd_obj p f ids) = upd_obj p f (ipcs_idr_update g3 ids)"
  "key_ht_update g4 (upd_obj p f ids) = upd_obj p f (key_ht_update g4 ids)"
  "max_idx_update g1 (upd_obj p f ids) = upd_obj p f (max_idx_update g1 ids)"
  "last_idx_update g1 (upd_obj p f ids) = upd_obj p f (last_idx_update g1 ids)"
  by (simp_all add: upd_obj_def)

lemma core_at_upd_obj:
  "core_at (upd_obj p f ids) = (core_at ids)(p := map_option (perm_core \<circ> f) (objs ids p))"
  by (auto simp: core_at_def option.map_comp fun_eq_iff)

text \<open>The invariant sees objects through their core only.\<close>

lemma ids_wf_cong:
  assumes "ids_wf ids"
    and "ipcs_idr ids' = ipcs_idr ids" "in_use ids' = in_use ids" "key_ht ids' = key_ht ids"
    and "max_idx ids' = max_idx ids" "ids_seq ids' = ids_seq ids" "last_idx ids' = last_idx ids"
    and "\<And>p. p \<in> snd ` set (ipcs_idr ids) \<Longrightarrow> core_at ids' p = core_at ids p"
  shows "ids_wf ids'"
proof -
  have *: "(p \<in> snd ` set (ipcs_idr ids) \<and> (\<exists>c. core_at ids' p = Some c \<and> core_key c = k)) =
        (p \<in> snd ` set (ipcs_idr ids) \<and> (\<exists>c. core_at ids p = Some c \<and> core_key c = k))" for k p
    using assms(8) by metis
  have **: "(\<forall>(i, p) \<in> set (ipcs_idr ids). 0 \<le> i \<and> i < ipc_mni \<and> (\<exists>c. core_at ids' p = Some c \<and> entry_ok c i)) =
        (\<forall>(i, p) \<in> set (ipcs_idr ids). 0 \<le> i \<and> i < ipc_mni \<and> (\<exists>c. core_at ids p = Some c \<and> entry_ok c i))"
    by (rule ball_cong [OF refl]) (use assms(8) in force)
  show ?thesis
    using assms(1) unfolding ids_wf_def assms(2-7) * ** by blast
qed

lemma ids_wf_upd_obj:
  assumes "ids_wf ids" and "\<And>q. objs ids p = Some q \<Longrightarrow> perm_core (f q) = perm_core q"
  shows "ids_wf (upd_obj p f ids)"
  using assms(1)
  by (rule ids_wf_cong) (simp_all, cases "objs ids p", auto simp: core_at_upd_obj core_at_def assms(2))

lemma ids_wf_upd_unlinked:
  assumes "ids_wf ids" and "p \<notin> snd ` set (ipcs_idr ids)"
  shows "ids_wf (ids\<lparr>objs := (objs ids)(p := v)\<rparr>)"
  using assms(1) by (rule ids_wf_cong) (use assms(2) in \<open>auto simp: core_at_def\<close>)

lemma ids_wf_entry:
  assumes "ids_wf ids" and "map_of (ipcs_idr ids) i = Some p"
  obtains q where "objs ids p = Some q" "\<not> perm_deleted q" "perm_id q = perm_seq q * 32768 + i"
    "0 \<le> perm_seq q" "perm_seq q < 65535" "0 < perm_refcount q" "0 \<le> i" "i < ipc_mni"
proof -
  from assms(2) have "(i, p) \<in> set (ipcs_idr ids)" by (rule map_of_SomeD)
  with assms(1) have "0 \<le> i \<and> i < ipc_mni \<and> (\<exists>c. core_at ids p = Some c \<and> entry_ok c i)"
    unfolding ids_wf_def by fast
  then show ?thesis using that by (auto simp: core_at_def)
qed

lemma ids_wf_init: "ids_wf (ipc_init_ids :: ('a kern_ipc_perm_scheme) ipc_ids)"
  by (simp add: ids_wf_def ipc_init_ids_def ipc_mni_def)

lemma ids_wf_distinct:
  "ids_wf ids \<Longrightarrow> distinct (map fst (ipcs_idr ids))" "ids_wf ids \<Longrightarrow> distinct (map snd (ipcs_idr ids))"
  by (simp_all add: ids_wf_def)

lemma ids_wf_max: "ids_wf ids \<Longrightarrow> max_idx ids = Max (insert (-1) (fst ` set (ipcs_idr ids)))"
  by (simp add: ids_wf_def)

lemma ids_wf_index_le_max:
  assumes "ids_wf ids" "map_of (ipcs_idr ids) i = Some p"
  shows "i \<le> max_idx ids"
proof -
  have "i \<in> insert (-1) (fst ` set (ipcs_idr ids))"
    using assms(2) by (force dest: map_of_SomeD)
  then show ?thesis unfolding ids_wf_max [OF assms(1)] by (intro Max_ge) simp
qed

lemma ids_wf_key:
  "ids_wf ids \<Longrightarrow> key_ht ids k = Some p \<longleftrightarrow>
     k \<noteq> IPC_PRIVATE \<and> p \<in> snd ` set (ipcs_idr ids) \<and> (\<exists>q. objs ids p = Some q \<and> perm_key q = k)"
  by (auto simp: ids_wf_def core_at_def)

section \<open>The maximum-index search\<close>

text \<open>
  The search sets the bits of the highest index plus one from the top down, probing with
  \<^verbatim>\<open>idr_get_next\<close>. Before bit \<open>i\<close> is probed, \<open>retval\<close> is that number with its low
  \<open>i + 1\<close> bits cleared.
\<close>

lemma mult_le_iff_le_div:
  assumes "0 < (b::int)"
  shows "x * b \<le> M \<longleftrightarrow> x \<le> M div b"
proof
  assume "x * b \<le> M"
  then have "x * b div b \<le> M div b" using assms by (rule zdiv_mono1)
  with assms show "x \<le> M div b" by simp
next
  assume "x \<le> M div b"
  then have "x * b \<le> M div b * b" using assms by (simp add: mult_right_mono)
  also have "\<dots> = M - M mod b" by (simp add: minus_mod_eq_div_mult)
  also have "\<dots> \<le> M" using assms by simp
  finally show "x * b \<le> M" .
qed

lemma search_bit:
  fixes M retval :: int
  assumes "retval = M div 2 ^ Suc i * 2 ^ Suc i"
  shows "(if retval + 2 ^ i \<le> M then retval + 2 ^ i else retval) = M div 2 ^ i * 2 ^ i"
proof -
  let ?b = "2 ^ i :: int"
  have "M div (?b * 2) = M div ?b div 2" by (rule zdiv_zmult2_eq) simp
  then have ret: "retval = 2 * (M div ?b div 2) * ?b"
    using assms by (simp add: mult.commute)
  have up: "retval + ?b = (2 * (M div ?b div 2) + 1) * ?b"
    unfolding ret by (simp add: algebra_simps)
  then have c: "retval + ?b \<le> M \<longleftrightarrow> 2 * (M div ?b div 2) + 1 \<le> M div ?b"
    by (simp only: mult_le_iff_le_div zero_less_power zero_less_numeral)
  show ?thesis
  proof (cases "even (M div ?b)")
    case True
    then have "2 * (M div ?b div 2) = M div ?b" by simp
    with c ret show ?thesis by simp
  next
    case False
    then have "2 * (M div ?b div 2) + 1 = M div ?b" by (rule odd_two_times_div_two_succ)
    with c up show ?thesis by simp
  qed
qed

lemma search_probe:
  fixes M retval :: int
  assumes probe: "\<And>j. 0 \<le> j \<Longrightarrow> idr_get_next t j \<noteq> None \<longleftrightarrow> j < M" and "0 \<le> M"
    and ret: "retval = M div 2 ^ Suc i * 2 ^ Suc i"
  shows "(if idr_get_next t ((retval OR push_bit i 1) - 1) \<noteq> None then retval OR push_bit i 1 else retval)
         = M div 2 ^ i * 2 ^ i"
proof -
  have r: "retval OR push_bit i 1 = retval + 2 ^ i"
    by (rule or_push_bit_one) (simp add: ret)
  have "0 \<le> retval" using ret \<open>0 \<le> M\<close> by (simp add: pos_imp_zdiv_nonneg_iff)
  moreover have "(1::int) \<le> 2 ^ i" by simp
  ultimately have "idr_get_next t (retval + 2 ^ i - 1) \<noteq> None \<longleftrightarrow> retval + 2 ^ i \<le> M"
    using probe [of "retval + 2 ^ i - 1"] by linarith
  then show ?thesis unfolding r using search_bit [OF ret] by simp
qed

lemma search_loop_correct:
  fixes M :: int
  assumes "\<And>j. 0 \<le> j \<Longrightarrow> idr_get_next t j \<noteq> None \<longleftrightarrow> j < M" and "0 \<le> M"
  shows "retval = M div 2 ^ Suc i * 2 ^ Suc i \<Longrightarrow> ipc_search_loop t i retval = M"
proof (induction i arbitrary: retval)
  case 0
  then show ?case
    using search_probe [OF assms "0"] by (subst ipc_search_loop.simps) (simp only: Let_def nat.case, simp)
next
  case (Suc i)
  show ?case
    using Suc.IH [OF search_probe [OF assms Suc.prems]]
    by (subst ipc_search_loop.simps) (simp only: Let_def nat.case)
qed

declare ipc_search_loop.simps [simp del]

text \<open>The search returns the highest index in use, \<open>-1\<close> for an empty table.\<close>

lemma search_maxidx_correct:
  assumes bound: "\<forall>k \<in> fst ` set (ipcs_idr ids). 0 \<le> k \<and> k \<le> limit" and "0 \<le> limit"
  shows "ipc_search_maxidx ids limit = Max (insert (-1) (fst ` set (ipcs_idr ids)))"
proof -
  let ?t = "ipcs_idr ids"
  let ?S = "insert (-1) (fst ` set ?t)"
  let ?M = "Max ?S + 1"
  have le: "k \<le> Max ?S" if "k \<in> ?S" for k using that by (intro Max_ge) simp_all
  have "Max ?S \<in> ?S" by (rule Max_in) simp_all
  then have in_t: "Max ?S \<in> fst ` set ?t" if "0 \<le> Max ?S" using that by auto
  have probe: "idr_get_next ?t j \<noteq> None \<longleftrightarrow> j < ?M" if "0 \<le> j" for j
    unfolding idr_get_next_None using in_t le that
    by (smt (verit) insert_iff)
  have M0: "0 \<le> ?M" using le [OF insertI1] by linarith
  have "?M \<le> limit + 1" using \<open>Max ?S \<in> ?S\<close> bound \<open>0 \<le> limit\<close> by auto
  moreover have "limit + 1 < 2 ^ Suc (ilog2 (nat (limit + 1)))"
    using ilog2_upper [of "nat (limit + 1)"] \<open>0 \<le> limit\<close>
    by (metis nat_less_numeral_power_cancel_iff)
  ultimately have "?M div 2 ^ Suc (ilog2 (nat (limit + 1))) = 0"
    using M0 by (intro div_pos_pos_trivial) linarith+
  then show ?thesis
    using search_loop_correct [OF probe M0, of 0] by (simp add: ipc_search_maxidx_def)
qed

section \<open>Adding and removing keep the invariant\<close>

lemma update_new_key: "map_of t i = None \<Longrightarrow> AList.update i p t = t @ [(i, p)]"
  by (induction t) (auto split: if_splits)

lemma next_seq_bound: "uint (ids_seq ids) < 65535 \<Longrightarrow> uint (next_seq ids idx) < 65535"
  by (auto simp: next_seq_def Let_def)

lemma next_seq_upd_obj [simp]: "next_seq (upd_obj p f ids) idx = next_seq ids idx"
  by (simp add: next_seq_def)

text \<open>The object as the table stores it.\<close>

definition added_perm :: "task_env \<Rightarrow> 16 word \<Rightarrow> int \<Rightarrow> 'a kern_ipc_perm_scheme \<Rightarrow> 'a kern_ipc_perm_scheme" where
  "added_perm env s idx q = q\<lparr>perm_refcount := 1, perm_cuid := cur_euid env, perm_uid := cur_euid env,
     perm_gid := cur_egid env, perm_cgid := cur_egid env, perm_deleted := False,
     perm_seq := uint s, perm_id := ipcid_make (uint s) idx\<rparr>"

lemma added_perm_comp:
  "((\<lambda>q. q\<lparr>perm_seq := uint s, perm_id := ipcid_make (uint s) idx\<rparr>) \<circ>
    ((\<lambda>q. q\<lparr>perm_cuid := cur_euid env, perm_uid := cur_euid env,
                         perm_gid := cur_egid env, perm_cgid := cur_egid env,
                         perm_deleted := False\<rparr>) \<circ> (\<lambda>q. q\<lparr>perm_refcount := 1\<rparr>)))
   = added_perm env s idx"
  by (simp add: added_perm_def fun_eq_iff)

text \<open>The table after a successful insertion, as nested updates of the old one.\<close>

definition added_ids :: "task_env \<Rightarrow> int \<Rightarrow> ptr \<Rightarrow> int \<Rightarrow> ('a kern_ipc_perm_scheme) ipc_ids \<Rightarrow> ('a kern_ipc_perm_scheme) ipc_ids" where
  "added_ids env idx p k ids =
     upd_obj p (added_perm env (next_seq ids idx) idx)
       (max_idx_update (\<lambda>m. if idx > m then idx else m) (in_use_update (\<lambda>n. n + 1)
         (key_ht_update (\<lambda>h. if k \<noteq> IPC_PRIVATE then h(k \<mapsto> p) else h)
           (ipcs_idr_update (\<lambda>t. idr_replace t idx p)
             (ids\<lparr>ids_seq := next_seq ids idx, last_idx := idx\<rparr>)))))"

lemma key_ht_update_id: "key_ht_update (\<lambda>h. h) ids = ids"
  by simp

lemma ipc_addid_cases:
  assumes "objs ids p = Some q" and "in_use ids < (if limit > ipc_mni then ipc_mni else limit)"
    and "alloc (ipcs_idr ids) 0 (min (max (in_use ids * 3 div 2) ipc_min_cycle) ipc_mni) = Inr idx"
  shows "ipc_addid env alloc ke ids p limit =
     (if perm_key q \<noteq> IPC_PRIVATE \<and> ke \<noteq> None
      then (upd_obj p ((\<lambda>q. q\<lparr>perm_deleted := True\<rparr>) \<circ> added_perm env (next_seq ids idx) idx)
             (ipcs_idr_update ((\<lambda>t. idr_remove t idx) \<circ> (\<lambda>t. idr_replace t idx p))
               (ids\<lparr>ids_seq := next_seq ids idx, last_idx := idx\<rparr>)), Inl (the ke))
      else (added_ids env idx p (perm_key q) ids, Inr idx))"
  unfolding ipc_addid_def ipc_idr_alloc_def Let_def added_ids_def using assms
  by (simp add: upd_obj_commute added_perm_comp o_def added_perm_def key_ht_update_id not_le)

lemma ipc_addid_full:
  assumes "\<not> in_use ids < (if limit > ipc_mni then ipc_mni else limit)"
  shows "ipc_addid env alloc ke ids p limit = (upd_obj p (\<lambda>q. q\<lparr>perm_refcount := 1\<rparr>) ids, Inl ENOSPC)"
  using assms by (simp add: ipc_addid_def Let_def not_less)

lemma ipc_addid_no_index:
  assumes "in_use ids < (if limit > ipc_mni then ipc_mni else limit)"
    and "alloc (ipcs_idr ids) 0 (min (max (in_use ids * 3 div 2) ipc_min_cycle) ipc_mni) = Inl e"
  shows "\<exists>f. ipc_addid env alloc ke ids p limit = (upd_obj p f ids, Inl e) \<and> (\<forall>q. perm_refcount (f q) = 1)"
  using assms by (simp add: ipc_addid_def ipc_idr_alloc_def Let_def not_le) (rule exI, rule conjI, rule refl, simp)

lemma ipc_addid_Inr:
  assumes "ipc_addid env alloc ke ids p limit = (ids', Inr idx)"
    and "objs ids p = Some q" and "idr_alloc_ok alloc"
  shows "map_of (ipcs_idr ids) idx = None" "0 \<le> idx" "idx < ipc_mni"
    "in_use ids < limit" "in_use ids < ipc_mni" "ids' = added_ids env idx p (perm_key q) ids"
proof -
  let ?m = "min (max (in_use ids * 3 div 2) ipc_min_cycle) ipc_mni"
  show lim: "in_use ids < limit" "in_use ids < ipc_mni"
    using assms(1) by (simp_all add: ipc_addid_def Let_def split: if_split_asm)
  have "\<exists>i. alloc (ipcs_idr ids) 0 ?m = Inr i"
    using assms(1) lim by (cases "alloc (ipcs_idr ids) 0 ?m") (simp_all add: ipc_addid_def ipc_idr_alloc_def Let_def split: if_split_asm)
  then obtain i where a: "alloc (ipcs_idr ids) 0 ?m = Inr i" ..
  have e: "i = idx" "ids' = added_ids env idx p (perm_key q) ids"
    using assms(1) lim by (simp_all add: ipc_addid_cases [where limit = limit and alloc = alloc, OF assms(2) _ a] split: if_split_asm) auto
  show "ids' = added_ids env idx p (perm_key q) ids" by (rule e)
  show "map_of (ipcs_idr ids) idx = None" "0 \<le> idx" "idx < ipc_mni"
    using assms(3) a [unfolded e(1)] unfolding idr_alloc_ok_def by fastforce+
qed

lemma added_ids_fields:
  "in_use (added_ids env idx p k ids) = in_use ids + 1"
  "ids_seq (added_ids env idx p k ids) = next_seq ids idx"
  "last_idx (added_ids env idx p k ids) = idx"
  "max_idx (added_ids env idx p k ids) = max (max_idx ids) idx"
  "key_ht (added_ids env idx p k ids) = (if k \<noteq> IPC_PRIVATE then (key_ht ids)(k \<mapsto> p) else key_ht ids)"
  "objs (added_ids env idx p k ids) = (objs ids)(p := map_option (added_perm env (next_seq ids idx) idx) (objs ids p))"
  "map_of (ipcs_idr ids) idx = None \<Longrightarrow> ipcs_idr (added_ids env idx p k ids) = ipcs_idr ids @ [(idx, p)]"
  by (simp_all add: added_ids_def idr_replace_def update_new_key max_def)

lemma ids_wf_addid_ok:
  assumes wf: "ids_wf ids" and add: "ipc_addid env alloc ke ids p limit = (ids', Inr idx)"
    and q: "objs ids p = Some q" and ok: "idr_alloc_ok alloc"
    and new: "p \<notin> snd ` set (ipcs_idr ids)"
    and key: "perm_key q = IPC_PRIVATE \<or> key_ht ids (perm_key q) = None"
  shows "ids_wf ids'"
proof -
  note A = ipc_addid_Inr [OF add q ok]
  let ?s = "next_seq ids idx"
  have s: "uint ?s < 65535" using wf next_seq_bound by (auto simp: ids_wf_def)
  have ident: "ipcid_make (uint ?s) idx = uint ?s * 32768 + idx"
    using s A(2,3) by (intro ipcid_make_val) auto
  have core: "core_at ids' r = (if r = p then Some (Core False (uint ?s * 32768 + idx) (perm_key q) (uint ?s) True)
      else core_at ids r)" for r
    by (simp add: A(6) core_at_def added_ids_fields q perm_core_def added_perm_def ident)
  have fresh: "idx \<notin> fst ` set (ipcs_idr ids)" using A(1) by (simp add: map_of_eq_None_iff)
  have mx: "Max (insert (-1) (fst ` set (ipcs_idr ids @ [(idx, p)]))) = max (max_idx ids) idx"
    using Max_insert [of "insert (-1) (fst ` set (ipcs_idr ids))" idx]
    by (simp add: ids_wf_max [OF wf] insert_commute max.commute)
  have F: "in_use ids' = in_use ids + 1" "ids_seq ids' = ?s" "ipcs_idr ids' = ipcs_idr ids @ [(idx, p)]"
      "key_ht ids' = (if perm_key q \<noteq> IPC_PRIVATE then (key_ht ids)(perm_key q \<mapsto> p) else key_ht ids)"
      "max_idx ids' = max (max_idx ids) idx" "last_idx ids' = idx"
    by (simp_all add: A(6) added_ids_fields A(1))
  have old: "key_ht ids k = Some r \<longleftrightarrow>
        k \<noteq> IPC_PRIVATE \<and> r \<in> snd ` set (ipcs_idr ids) \<and> (\<exists>c. core_at ids r = Some c \<and> core_key c = k)" for k r
    using wf by (simp add: ids_wf_def)
  have none: "core_key c \<noteq> perm_key q"
    if "perm_key q \<noteq> IPC_PRIVATE" "(i, r) \<in> set (ipcs_idr ids)" "core_at ids r = Some c" for i r c
    using key old [of "perm_key q" r] that by force
  have kt: "key_ht ids' k = Some r \<longleftrightarrow>
      k \<noteq> IPC_PRIVATE \<and> r \<in> snd ` set (ipcs_idr ids')
      \<and> (\<exists>c. core_at ids' r = Some c \<and> core_key c = k)" for k r
    using new none by (cases "r = p") (auto simp: core F(3,4) old)
  have ent: "\<forall>(i, r) \<in> set (ipcs_idr ids'). 0 \<le> i \<and> i < ipc_mni \<and> (\<exists>c. core_at ids' r = Some c \<and> entry_ok c i)"
  proof -
    have "\<forall>(i, r) \<in> set (ipcs_idr ids). 0 \<le> i \<and> i < ipc_mni \<and> (\<exists>c. core_at ids r = Some c \<and> entry_ok c i)"
      using wf by (simp add: ids_wf_def)
    then have "\<forall>(i, r) \<in> set (ipcs_idr ids). 0 \<le> i \<and> i < ipc_mni \<and> (\<exists>c. core_at ids' r = Some c \<and> entry_ok c i)"
      using new by (force simp: core)
    then show ?thesis using A(2,3) s by (simp add: F(3) core entry_ok_def)
  qed
  show ?thesis
    unfolding ids_wf_def
    using kt ent wf s fresh new A(2,3) mx
    by (simp add: F ids_wf_def [of ids])
qed

text \<open>A failed insertion leaves the table as it was; only the sequence counters may move.\<close>

lemma ipc_addid_Inl:
  assumes "ipc_addid env alloc ke ids p limit = (ids', Inl e)" and "idr_alloc_ok alloc"
    and q: "objs ids p = Some q"
  shows "ipcs_idr ids' = ipcs_idr ids" "in_use ids' = in_use ids" "key_ht ids' = key_ht ids"
    "max_idx ids' = max_idx ids" "\<And>r. r \<noteq> p \<Longrightarrow> objs ids' r = objs ids r"
    "\<exists>q'. objs ids' p = Some q' \<and> perm_refcount q' = 1"
    "ids_wf ids \<Longrightarrow> uint (ids_seq ids') < 65535 \<and> -1 \<le> last_idx ids' \<and> last_idx ids' < ipc_mni"
proof -
  let ?m = "min (max (in_use ids * 3 div 2) ipc_min_cycle) ipc_mni"
  have free: "map_of (ipcs_idr ids) idx = None \<and> 0 \<le> idx \<and> idx < ipc_mni"
    if "alloc (ipcs_idr ids) 0 ?m = Inr idx" for idx
    using that assms(2) unfolding idr_alloc_ok_def by fastforce
  have del: "AList.delete idx (ipcs_idr ids @ [(idx, p)]) = ipcs_idr ids"
    if "map_of (ipcs_idr ids) idx = None" for idx
    using that by (simp add: map_of_eq_None_iff AList.delete_eq filter_id_conv) force
  have *: "ipcs_idr ids' = ipcs_idr ids \<and> in_use ids' = in_use ids \<and> key_ht ids' = key_ht ids
      \<and> max_idx ids' = max_idx ids \<and> (\<forall>r. r \<noteq> p \<longrightarrow> objs ids' r = objs ids r)
      \<and> (\<exists>q'. objs ids' p = Some q' \<and> perm_refcount q' = 1)
      \<and> (ids_seq ids' = ids_seq ids \<and> last_idx ids' = last_idx ids
         \<or> (\<exists>idx. alloc (ipcs_idr ids) 0 ?m = Inr idx \<and> ids_seq ids' = next_seq ids idx \<and> last_idx ids' = idx))"
  proof (cases "in_use ids < (if limit > ipc_mni then ipc_mni else limit)")
    case lim: True
    show ?thesis
    proof (cases "alloc (ipcs_idr ids) 0 ?m")
      case (Inl e')
      from ipc_addid_no_index [where alloc = alloc, OF lim Inl, of env ke p] assms(1) q show ?thesis by auto
    next
      case (Inr idx)
      note fr = free [OF Inr, THEN conjunct1]
      note eq = ipc_addid_cases [where alloc = alloc, OF q lim Inr, of env ke]
      have F: "ids' = upd_obj p ((\<lambda>q. q\<lparr>perm_deleted := True\<rparr>) \<circ> added_perm env (next_seq ids idx) idx)
             (ipcs_idr_update ((\<lambda>t. idr_remove t idx) \<circ> (\<lambda>t. idr_replace t idx p))
               (ids\<lparr>ids_seq := next_seq ids idx, last_idx := idx\<rparr>))"
        using assms(1) unfolding eq by (simp split: if_split_asm)
      show ?thesis
        using Inr q unfolding F
        by (simp add: idr_replace_def idr_remove_def update_new_key [OF fr] del [OF fr] added_perm_def)
    qed
  next
    case False
    from assms(1) q show ?thesis unfolding ipc_addid_full [OF False] by auto
  qed
  then show "ipcs_idr ids' = ipcs_idr ids" "in_use ids' = in_use ids" "key_ht ids' = key_ht ids"
    "max_idx ids' = max_idx ids" "\<And>r. r \<noteq> p \<Longrightarrow> objs ids' r = objs ids r"
    "\<exists>q'. objs ids' p = Some q' \<and> perm_refcount q' = 1"
    by blast+
  show "uint (ids_seq ids') < 65535 \<and> -1 \<le> last_idx ids' \<and> last_idx ids' < ipc_mni" if wf: "ids_wf ids"
  proof -
    consider (same) "ids_seq ids' = ids_seq ids" "last_idx ids' = last_idx ids"
      | (moved) idx where "alloc (ipcs_idr ids) 0 ?m = Inr idx" "ids_seq ids' = next_seq ids idx" "last_idx ids' = idx"
      using * by blast
    then show ?thesis
    proof cases
      case same
      then show ?thesis using wf by (simp add: ids_wf_def)
    next
      case (moved idx)
      then show ?thesis using free [OF moved(1)] wf next_seq_bound [of ids idx] by (simp add: ids_wf_def)
    qed
  qed
qed

lemma length_delete_key:
  "distinct (map fst t) \<Longrightarrow> map_of t i = Some p \<Longrightarrow> Suc (length (AList.delete i t)) = length t"
  by (induction t) (auto split: if_splits)

lemma entry_idx:
  assumes "ids_wf ids" "map_of (ipcs_idr ids) i = Some p" "objs ids p = Some q"
  shows "ipcid_to_idx (perm_id q) = i" "ipcid_to_seqx (perm_id q) = perm_seq q" "0 \<le> perm_id q" "perm_id q \<le> INT_MAX"
proof -
  obtain q' where "objs ids p = Some q'" "perm_id q' = perm_seq q' * 32768 + i"
    "0 \<le> perm_seq q'" "perm_seq q' < 65535" "0 \<le> i" "i < ipc_mni"
    by (rule ids_wf_entry [OF assms(1,2)])
  with assms(3) have q: "perm_id q = perm_seq q * 32768 + i" "0 \<le> perm_seq q" "perm_seq q < 65535" "0 \<le> i" "i < ipc_mni"
    by auto
  then show "ipcid_to_idx (perm_id q) = i" "ipcid_to_seqx (perm_id q) = perm_seq q" "0 \<le> perm_id q" "perm_id q \<le> INT_MAX"
    by (simp_all add: idx_mod seqx_div ipc_mni_def INT_MAX_def)
qed

lemma kht_remove_fields:
  assumes "objs ids p = Some q"
  shows "ipc_kht_remove ids p =
    key_ht_update (\<lambda>h. if perm_key q \<noteq> IPC_PRIVATE then h(perm_key q := None) else h) ids"
  using assms by (simp add: ipc_kht_remove_def key_ht_update_id)

lemma ipc_rmid_fields:
  assumes wf: "ids_wf ids" and m: "map_of (ipcs_idr ids) i = Some p" and q: "objs ids p = Some q"
  shows "ipcs_idr (ipc_rmid ids p) = AList.delete i (ipcs_idr ids)"
    "in_use (ipc_rmid ids p) = in_use ids - 1"
    "key_ht (ipc_rmid ids p) = (if perm_key q \<noteq> IPC_PRIVATE then (key_ht ids)(perm_key q := None) else key_ht ids)"
    "objs (ipc_rmid ids p) = (objs ids)(p \<mapsto> q\<lparr>perm_deleted := True\<rparr>)"
    "ids_seq (ipc_rmid ids p) = ids_seq ids" "last_idx (ipc_rmid ids p) = last_idx ids"
    "max_idx (ipc_rmid ids p) = Max (insert (-1) (fst ` set (AList.delete i (ipcs_idr ids))))"
proof -
  define ids1 where "ids1 = upd_obj p (\<lambda>q. q\<lparr>perm_deleted := True\<rparr>) (in_use_update (\<lambda>n. n - 1)
      (ipc_kht_remove (ipcs_idr_update (\<lambda>t. idr_remove t i) ids) p))"
  note K = kht_remove_fields [of "ipcs_idr_update (\<lambda>t. idr_remove t i) ids", simplified, OF q]
  have unf: "ipc_rmid ids p = (if i = max_idx ids1
      then ids1\<lparr>max_idx := (if max_idx ids1 - 1 \<ge> 0 then ipc_search_maxidx ids1 (max_idx ids1 - 1) else max_idx ids1 - 1)\<rparr>
      else ids1)"
    using q entry_idx(1) [OF wf m q] by (simp add: ipc_rmid_def Let_def ids1_def)
  have I: "ipcs_idr ids1 = AList.delete i (ipcs_idr ids)" and M: "max_idx ids1 = max_idx ids"
    and G: "in_use ids1 = in_use ids - 1" "ids_seq ids1 = ids_seq ids" "last_idx ids1 = last_idx ids"
      "key_ht ids1 = (if perm_key q \<noteq> IPC_PRIVATE then (key_ht ids)(perm_key q := None) else key_ht ids)"
      "objs ids1 = (objs ids)(p \<mapsto> q\<lparr>perm_deleted := True\<rparr>)"
    unfolding ids1_def K by (simp_all add: idr_remove_def q)
  show "ipcs_idr (ipc_rmid ids p) = AList.delete i (ipcs_idr ids)"
    "in_use (ipc_rmid ids p) = in_use ids - 1"
    "key_ht (ipc_rmid ids p) = (if perm_key q \<noteq> IPC_PRIVATE then (key_ht ids)(perm_key q := None) else key_ht ids)"
    "objs (ipc_rmid ids p) = (objs ids)(p \<mapsto> q\<lparr>perm_deleted := True\<rparr>)"
    "ids_seq (ipc_rmid ids p) = ids_seq ids" "last_idx (ipc_rmid ids p) = last_idx ids"
    unfolding unf by (simp_all add: I G)
  let ?S = "fst ` set (ipcs_idr ids)"
  have S': "fst ` set (AList.delete i (ipcs_idr ids)) = ?S - {i}" by (auto simp: AList.delete_eq)
  have mx: "max_idx ids = Max (insert (-1) ?S)" by (rule ids_wf_max [OF wf])
  have i_in: "i \<in> ?S" using m by (force dest: map_of_SomeD)
  have nn: "\<forall>k \<in> ?S. 0 \<le> k" using wf by (auto simp: ids_wf_def)
  show "max_idx (ipc_rmid ids p) = Max (insert (-1) (fst ` set (AList.delete i (ipcs_idr ids))))"
  proof (cases "i = max_idx ids")
    case True
    have le: "k \<le> i - 1" if "k \<in> ?S - {i}" for k
    proof -
      have "k \<in> insert (-1) ?S" using that by blast
      then have "k \<le> max_idx ids" unfolding mx by (intro Max_ge) simp_all
      moreover have "k \<noteq> i" using that by blast
      ultimately show ?thesis unfolding True by linarith
    qed
    show ?thesis
    proof (cases "0 \<le> i - 1")
      case i1: True
      have "ipc_search_maxidx ids1 (i - 1) = Max (insert (-1) (fst ` set (ipcs_idr ids1)))"
      proof (rule search_maxidx_correct)
        show "\<forall>k \<in> fst ` set (ipcs_idr ids1). 0 \<le> k \<and> k \<le> i - 1"
          unfolding I S' using le nn by blast
      qed (rule i1)
      then show ?thesis unfolding unf I using True i1 by (simp add: M)
    next
      case False
      have "i = 0" using False nn i_in by force
      have "?S - {i} = {}" using le nn \<open>i = 0\<close> by force
      then have "fst ` set (AList.delete i (ipcs_idr ids)) = {}" unfolding S' .
      then show ?thesis unfolding unf using True False \<open>i = 0\<close> by (simp add: M)
    qed
  next
    case False
    have "Max (insert (-1) ?S) \<in> insert (-1) ?S - {i}"
      using Max_in [of "insert (-1) ?S"] False mx by auto
    then have "Max (insert (-1) ?S) = Max (insert (-1) (?S - {i}))"
      by (intro Max_eqI [symmetric]) (auto intro: Max_ge)
    then show ?thesis unfolding unf using False by (simp add: M S' mx)
  qed
qed

lemma ids_wf_rmid:
  assumes wf: "ids_wf ids" and m: "map_of (ipcs_idr ids) i = Some p"
  shows "ids_wf (ipc_rmid ids p)"
proof -
  obtain q where q: "objs ids p = Some q" by (rule ids_wf_entry [OF wf m])
  note F = ipc_rmid_fields [OF wf m q]
  let ?t = "ipcs_idr ids"
  have in_t: "(i, p) \<in> set ?t" using m by (rule map_of_SomeD)
  have del_set: "set (AList.delete i ?t) = set ?t - {(i, p)}"
    using map_of_is_SomeI [OF ids_wf_distinct(1) [OF wf]] m by (auto simp: AList.delete_eq)
  have p_gone: "p \<notin> snd ` set (AList.delete i ?t)"
    using ids_wf_distinct(2) [OF wf] in_t by (fastforce simp: del_set distinct_map inj_on_def)
  have core: "core_at (ipc_rmid ids p) r = core_at ids r" if "r \<noteq> p" for r
    using that by (simp add: core_at_def F(4))
  have len: "in_use ids - 1 = int (length (AList.delete i ?t))"
  proof -
    have "Suc (length (AList.delete i ?t)) = length ?t"
      by (rule length_delete_key [OF ids_wf_distinct(1) [OF wf] m])
    then show ?thesis using wf by (simp add: ids_wf_def)
  qed
  have old: "key_ht ids k = Some r \<longleftrightarrow>
        k \<noteq> IPC_PRIVATE \<and> r \<in> snd ` set ?t \<and> (\<exists>c. core_at ids r = Some c \<and> core_key c = k)" for k r
    using wf by (simp add: ids_wf_def)
  have kt: "key_ht (ipc_rmid ids p) k = Some r \<longleftrightarrow>
      k \<noteq> IPC_PRIVATE \<and> r \<in> snd ` set (AList.delete i ?t)
      \<and> (\<exists>c. core_at (ipc_rmid ids p) r = Some c \<and> core_key c = k)" for k r
  proof (cases "r = p")
    case True
    have "key_ht ids k \<noteq> Some p \<or> k = perm_key q" using old [of k p] q by (auto simp: core_at_def)
    moreover have "perm_key q = IPC_PRIVATE \<Longrightarrow> key_ht ids k \<noteq> Some p"
      using old [of k p] q by (auto simp: core_at_def)
    ultimately show ?thesis using True p_gone by (auto simp: F(3))
  next
    case False
    have uniq: "key_ht ids (perm_key q) \<noteq> Some r" if "perm_key q \<noteq> IPC_PRIVATE"
    proof -
      have "key_ht ids (perm_key q) = Some p"
        using old [of "perm_key q" p] that in_t q by (force simp: core_at_def)
      then show ?thesis using False by simp
    qed
    have "r \<in> snd ` set (AList.delete i ?t) \<longleftrightarrow> r \<in> snd ` set ?t"
      using False by (force simp: del_set)
    then show ?thesis using uniq old [of k r] by (auto simp: F(3) core [OF False])
  qed
  have ent: "\<forall>(j, r) \<in> set (AList.delete i ?t). 0 \<le> j \<and> j < ipc_mni \<and>
      (\<exists>c. core_at (ipc_rmid ids p) r = Some c \<and> entry_ok c j)"
  proof (intro ballI, clarify)
    fix j r assume jr: "(j, r) \<in> set (AList.delete i ?t)"
    then have "r \<noteq> p" using p_gone by force
    moreover have "(j, r) \<in> set ?t" using jr del_set by blast
    ultimately show "0 \<le> j \<and> j < ipc_mni \<and> (\<exists>c. core_at (ipc_rmid ids p) r = Some c \<and> entry_ok c j)"
      using wf core unfolding ids_wf_def by force
  qed
  have "distinct (map snd (AList.delete i ?t))"
    using ids_wf_distinct(2) [OF wf] by (simp add: AList.delete_eq distinct_map_filter)
  then show ?thesis
    unfolding ids_wf_def using wf len kt ent
    by (simp add: F ids_wf_def [of ids] distinct_delete)
qed

lemma ids_wf_set_key_private:
  assumes wf: "ids_wf ids" and m: "map_of (ipcs_idr ids) i = Some p"
  shows "ids_wf (ipc_set_key_private ids p)"
proof -
  obtain q where q: "objs ids p = Some q" by (rule ids_wf_entry [OF wf m])
  define ids1 where "ids1 = ipc_set_key_private ids p"
  have F: "ipcs_idr ids1 = ipcs_idr ids" "in_use ids1 = in_use ids" "max_idx ids1 = max_idx ids"
      "ids_seq ids1 = ids_seq ids" "last_idx ids1 = last_idx ids"
      "key_ht ids1 = (if perm_key q \<noteq> IPC_PRIVATE then (key_ht ids)(perm_key q := None) else key_ht ids)"
      "objs ids1 = (objs ids)(p \<mapsto> q\<lparr>perm_key := IPC_PRIVATE\<rparr>)"
    unfolding ids1_def ipc_set_key_private_def kht_remove_fields [OF q] by (simp_all add: q)
  have core: "core_at ids1 r = (if r = p then Some (perm_core (q\<lparr>perm_key := IPC_PRIVATE\<rparr>)) else core_at ids r)" for r
    by (simp add: core_at_def F)
  have old: "key_ht ids k = Some r \<longleftrightarrow>
        k \<noteq> IPC_PRIVATE \<and> r \<in> snd ` set (ipcs_idr ids) \<and> (\<exists>c. core_at ids r = Some c \<and> core_key c = k)" for k r
    using wf by (simp add: ids_wf_def)
  have p_in: "p \<in> snd ` set (ipcs_idr ids)" using m by (force dest: map_of_SomeD)
  have cp: "core_at ids p = Some (perm_core q)" using q by (simp add: core_at_def)
  have kt: "key_ht ids1 k = Some r \<longleftrightarrow>
      k \<noteq> IPC_PRIVATE \<and> r \<in> snd ` set (ipcs_idr ids1) \<and> (\<exists>c. core_at ids1 r = Some c \<and> core_key c = k)" for k r
  proof (cases "r = p")
    case True
    then show ?thesis using old [of k p] cp by (auto simp: F core)
  next
    case False
    have "key_ht ids (perm_key q) \<noteq> Some r" if "perm_key q \<noteq> IPC_PRIVATE"
      using old [of "perm_key q" p] that p_in cp False by auto
    then show ?thesis using old [of k r] False by (auto simp: F core)
  qed
  have ent0: "\<forall>(j, r) \<in> set (ipcs_idr ids). 0 \<le> j \<and> j < ipc_mni \<and> (\<exists>c. core_at ids r = Some c \<and> entry_ok c j)"
    using wf by (simp add: ids_wf_def)
  have "\<forall>(j, r) \<in> set (ipcs_idr ids1). 0 \<le> j \<and> j < ipc_mni \<and> (\<exists>c. core_at ids1 r = Some c \<and> entry_ok c j)"
    unfolding F
  proof (intro ballI, clarify)
    fix j r assume jr: "(j, r) \<in> set (ipcs_idr ids)"
    with ent0 show "0 \<le> j \<and> j < ipc_mni \<and> (\<exists>c. core_at ids1 r = Some c \<and> entry_ok c j)"
      using cp by (cases "r = p") (auto simp: core)
  qed
  then have "ids_wf ids1"
    using kt wf unfolding ids_wf_def by (simp add: F)
  then show ?thesis by (simp add: ids1_def)
qed

section \<open>Lookup by id\<close>

lemma obtain_check_iff:
  "ipc_obtain_object_check ids i = Inr p \<longleftrightarrow>
     map_of (ipcs_idr ids) (ipcid_to_idx i) = Some p
     \<and> (\<exists>q. objs ids p = Some q \<and> perm_seq q = ipcid_to_seqx i)"
  by (auto simp: ipc_obtain_object_check_def ipc_obtain_object_idr_def idr_find_def ipc_checkid_def
      split: option.splits)

lemma obtain_check_Inl: "ipc_obtain_object_check ids i = Inl e \<Longrightarrow> e = EINVAL"
  by (auto simp: ipc_obtain_object_check_def ipc_obtain_object_idr_def split: option.splits if_splits)

lemma obtain_check_entry:
  assumes "ids_wf ids" "map_of (ipcs_idr ids) j = Some p" "objs ids p = Some q"
  shows "ipc_obtain_object_check ids (perm_id q) = Inr p"
  using assms entry_idx [OF assms] by (simp add: obtain_check_iff)

lemma obtain_check_perm_id:
  assumes wf: "ids_wf ids" and ob: "ipc_obtain_object_check ids i = Inr p"
  shows "\<exists>q. objs ids p = Some q \<and> perm_id q = i \<and> \<not> perm_deleted q"
proof -
  from ob obtain q where m: "map_of (ipcs_idr ids) (ipcid_to_idx i) = Some p"
    and q: "objs ids p = Some q" "perm_seq q = ipcid_to_seqx i"
    by (auto simp: obtain_check_iff)
  obtain q' where "objs ids p = Some q'" "\<not> perm_deleted q'" "perm_id q' = perm_seq q' * 32768 + ipcid_to_idx i"
    by (rule ids_wf_entry [OF wf m])
  then show ?thesis using q by (simp add: idx_mod seqx_div)
qed

text \<open>The table never resolves one object under two identifiers.\<close>

lemma obtain_check_inj:
  assumes "ids_wf ids" "ipc_obtain_object_check ids i = Inr p" "ipc_obtain_object_check ids j = Inr p"
  shows "i = j"
  using obtain_check_perm_id [OF assms(1,2)] obtain_check_perm_id [OF assms(1,3)] by auto

lemma idr_remove_lookup:
  "idr_find (idr_remove t i) j = (if j = i then None else idr_find t j)"
  by (simp add: idr_find_def idr_remove_def delete_conv)

section \<open>The two interfaces of a class\<close>

text \<open>
  What the release of a whole class relies on: the class's free function takes one object
  out of the table and keeps the class's invariant.
\<close>

locale ipc_class =
  fixes get_ids :: "'s \<Rightarrow> ('a kern_ipc_perm_scheme) ipc_ids"
    and free :: "'s \<Rightarrow> ptr \<Rightarrow> 's"
    and inv :: "'s \<Rightarrow> bool"
  assumes inv_wf: "inv s \<Longrightarrow> ids_wf (get_ids s)"
    and free_inv: "\<lbrakk>inv s; map_of (ipcs_idr (get_ids s)) i = Some p\<rbrakk> \<Longrightarrow> inv (free s p)"
    and free_idr: "\<lbrakk>inv s; map_of (ipcs_idr (get_ids s)) i = Some p\<rbrakk>
       \<Longrightarrow> ipcs_idr (get_ids (free s p)) = AList.delete i (ipcs_idr (get_ids s))"
begin

lemma free_loop:
  "\<lbrakk>inv s; cnt + int (length (ipcs_idr (get_ids s))) = used;
    \<forall>k \<in> fst ` set (ipcs_idr (get_ids s)). next_id \<le> k; ipc_mni - next_id \<le> int fuel\<rbrakk>
   \<Longrightarrow> \<exists>s'. ds_free_loop fuel get_ids free s cnt used next_id = Some s' \<and> inv s' \<and> ipcs_idr (get_ids s') = []"
proof (induction fuel arbitrary: s cnt next_id)
  case 0
  have "ipcs_idr (get_ids s) = []"
    using "0.prems" inv_wf [OF "0.prems"(1)] unfolding ids_wf_def by (cases "ipcs_idr (get_ids s)") fastforce+
  with "0.prems" show ?case by (simp add: ds_free_loop.simps)
next
  case (Suc fuel)
  let ?t = "ipcs_idr (get_ids s)"
  show ?case
  proof (cases "cnt < used")
    case False
    with Suc.prems(2) have "length ?t = 0" by linarith
    with False Suc.prems(1) show ?thesis by (simp add: ds_free_loop.simps [of "Suc fuel"])
  next
    case lt: True
    show ?thesis
    proof (cases "map_of ?t next_id")
      case None
      then have "\<forall>k \<in> fst ` set ?t. next_id + 1 \<le> k"
        using Suc.prems(3) by (metis map_of_eq_None_iff order_le_imp_less_or_eq zless_imp_add1_zle)
      then show ?thesis
        using Suc.IH [of s cnt "next_id + 1"] Suc.prems lt None
        by (simp add: ds_free_loop.simps [of "Suc fuel"] idr_find_def)
    next
      case (Some p)
      have d: "ipcs_idr (get_ids (free s p)) = AList.delete next_id ?t"
        by (rule free_idr [OF Suc.prems(1) Some])
      have len: "Suc (length (AList.delete next_id ?t)) = length ?t"
        by (rule length_delete_key [OF ids_wf_distinct(1) [OF inv_wf [OF Suc.prems(1)]] Some])
      have "\<forall>k \<in> fst ` set (AList.delete next_id ?t). next_id + 1 \<le> k"
        using Suc.prems(3) by (force simp: AList.delete_eq)
      then show ?thesis
        using Suc.IH [of "free s p" "cnt + 1" "next_id + 1"] Suc.prems lt Some free_inv [OF Suc.prems(1) Some] len
        by (simp add: ds_free_loop.simps [of "Suc fuel"] idr_find_def d)
    qed
  qed
qed

lemma free_all:
  assumes "inv s"
  shows "\<exists>s'. ds_free_ipcs (nat ipc_mni) get_ids free s = Some s' \<and> inv s' \<and> ipcs_idr (get_ids s') = []"
  unfolding ds_free_ipcs_def
  by (rule free_loop [OF assms]) (use inv_wf [OF assms] in \<open>auto simp: ids_wf_def ipc_mni_def\<close>)

end

text \<open>
  What \<^verbatim>\<open>ipcget\<close> relies on: the class's create routine, called for a key that is not in
  the table, answers with the id of an object that carries the requested key and mode.
\<close>

locale ipc_getter =
  fixes get_ids :: "'s \<Rightarrow> ('a kern_ipc_perm_scheme) ipc_ids"
    and create :: "ipc_params \<Rightarrow> 's \<Rightarrow> 's \<times> int result"
    and inv :: "'s \<Rightarrow> bool"
  assumes getter_wf: "inv s \<Longrightarrow> ids_wf (get_ids s)"
    and create_ok: "\<lbrakk>inv s; par_key params = IPC_PRIVATE \<or> key_ht (get_ids s) (par_key params) = None;
        create params s = (s', Inr i)\<rbrakk>
       \<Longrightarrow> inv s' \<and> (\<exists>p q. ipc_obtain_object_check (get_ids s') i = Inr p \<and> objs (get_ids s') p = Some q
             \<and> perm_key q = par_key params \<and> perm_mode q = par_flg params AND S_IRWXUGO)"
    and create_fail: "\<lbrakk>inv s; create params s = (s', Inl e)\<rbrakk> \<Longrightarrow> inv s'"
begin

lemma ipcget_ok:
  assumes "inv s" "getnew ops = create" "ipcget env lsm get_ids ops params s = (s', Inr i)"
  shows "inv s' \<and> (\<exists>p q. ipc_obtain_object_check (get_ids s') i = Inr p \<and> objs (get_ids s') p = Some q
      \<and> perm_key q = par_key params)"
proof (cases "par_key params = IPC_PRIVATE \<or> ipc_findkey (get_ids s) (par_key params) = None")
  case True
  then have "create params s = (s', Inr i)"
    using assms(2,3) by (auto simp: ipcget_def ipcget_new_def ipcget_public_def split: if_splits)
  then show ?thesis using create_ok [OF assms(1) True [unfolded ipc_findkey_def]] by blast
next
  case False
  then obtain p where k: "key_ht (get_ids s) (par_key params) = Some p" and k0: "par_key params \<noteq> IPC_PRIVATE"
    by (auto simp: ipc_findkey_def)
  have wf: "ids_wf (get_ids s)" by (rule getter_wf [OF assms(1)])
  then obtain q j where q: "objs (get_ids s) p = Some q" "perm_key q = par_key params"
    and j: "(j, p) \<in> set (ipcs_idr (get_ids s))"
    using k by (auto simp: ids_wf_key)
  have "s' = s \<and> i = perm_id q"
    using assms(3) k k0 q(1)
    by (auto simp: ipcget_def ipcget_public_def ipc_findkey_def ipc_check_perms_def split: if_splits option.splits)
  moreover have "map_of (ipcs_idr (get_ids s)) j = Some p"
    using j ids_wf_distinct(1) [OF wf] by (rule map_of_is_SomeI [rotated])
  ultimately show ?thesis using obtain_check_entry [OF wf _ q(1)] q assms(1) by auto
qed

lemma ipcget_inv:
  assumes "inv s" "getnew ops = create" "ipcget env lsm get_ids ops params s = (s', r)"
  shows "inv s'"
proof (cases r)
  case (Inl e)
  then show ?thesis
    using assms create_fail [OF assms(1)]
    by (auto simp: ipcget_def ipcget_new_def ipcget_public_def split: if_splits option.splits)
next
  case (Inr i)
  then show ?thesis using ipcget_ok assms by blast
qed

end

end
