(* ===== verification/IpcTable.thy ===== *)
theory IpcTable
  imports IpcUtil
begin

text \<open>
  Properties of the id tables of \<^verbatim>\<open>ipc_util.c\<close>: the round trip of an id, stale ids, the
  uniqueness of ids over a run, the cached maximum index, the permission check, the
  outcomes of the get-or-create logic and the \<^verbatim>\<open>/proc/sysvipc\<close> iteration.
\<close>

unbundle bit_operations_syntax

section \<open>Runs of a table\<close>

text \<open>
  A run creates and removes objects in any order. \<open>next_seq\<close> counts, modulo the number of
  sequence values, how often the index did not grow; with the index it numbers the
  creations in strictly increasing order. Every creation has a caller, a key table and an index
  allocator of its own: the kernel's allocator keeps a cursor that moves from call to call.
\<close>

datatype 'o ids_op = Create task_env idr_alloc "errno option" ptr 'o int | Remove ptr

fun ids_run :: "('a kern_ipc_perm_scheme) ipc_ids \<Rightarrow> (('a kern_ipc_perm_scheme) ids_op) list \<Rightarrow> int list" where
  "ids_run ids [] = []"
| "ids_run ids (Remove p # ops) = ids_run (ipc_rmid ids p) ops"
| "ids_run ids (Create env alloc ke p q limit # ops) =
     (case ipc_addid env alloc ke (objs_update (\<lambda>h. h(p \<mapsto> q)) ids) p limit of
        (ids', Inl e) \<Rightarrow> ids_run ids' ops
      | (ids', Inr idx) \<Rightarrow>
          (case objs ids' p of Some q' \<Rightarrow> perm_id q' | None \<Rightarrow> -1) # ids_run ids' ops)"

fun creates_ok :: "'o ids_op list \<Rightarrow> bool" where
  "creates_ok [] \<longleftrightarrow> True"
| "creates_ok (Remove p # ops) \<longleftrightarrow> creates_ok ops"
| "creates_ok (Create env alloc ke p q limit # ops) \<longleftrightarrow> idr_alloc_ok alloc \<and> creates_ok ops"

fun n_creates :: "'o ids_op list \<Rightarrow> int" where
  "n_creates [] = 0"
| "n_creates (Remove p # ops) = n_creates ops"
| "n_creates (Create env alloc ke p q limit # ops) = n_creates ops + 1"

lemma n_creates_nonneg [simp]: "0 \<le> n_creates ops"
  by (induction ops rule: n_creates.induct) simp_all

lemma rmid_counters [simp]: "ids_seq (ipc_rmid ids p) = ids_seq ids" "last_idx (ipc_rmid ids p) = last_idx ids"
  by (auto simp: ipc_rmid_def ipc_kht_remove_def Let_def split: option.splits)

lemma mod_succ: "(S + 1) mod 65535 = (if S mod 65535 + 1 = 65535 then 0 else S mod 65535 + 1)" for S :: int
proof -
  have "(S + 1) mod 65535 = (S mod 65535 + 1) mod 65535" by (simp add: mod_add_left_eq)
  moreover have "0 \<le> S mod 65535" "S mod 65535 < 65535" by simp_all
  ultimately show ?thesis by auto
qed

lemma next_seq_mod:
  assumes "uint (ids_seq ids) = S mod 65535"
  shows "uint (next_seq ids idx) = (if idx \<le> last_idx ids then S + 1 else S) mod 65535"
proof -
  have lt: "S mod 65535 < 65535" "0 \<le> S mod 65535" by simp_all
  then have "uint (ids_seq ids + 1) = S mod 65535 + 1"
    using assms by (simp add: uint_word_ariths)
  then show ?thesis using assms lt mod_succ [of S] by (auto simp: next_seq_def Let_def)
qed

text \<open>
  The counters after an attempt to add: either nothing moved, or an index was handed out
  and the pair of sequence number and index grew.
\<close>

lemma addid_counters:
  assumes "ipc_addid env alloc ke ids p limit = (ids', r)" "objs ids p = Some q" "idr_alloc_ok alloc"
  shows "(\<exists>e. r = Inl e) \<and> ids_seq ids' = ids_seq ids \<and> last_idx ids' = last_idx ids
    \<or> (\<exists>idx. 0 \<le> idx \<and> idx < ipc_mni \<and> ids_seq ids' = next_seq ids idx \<and> last_idx ids' = idx
         \<and> ((\<exists>e. r = Inl e) \<or> r = Inr idx)
         \<and> (r = Inr idx \<longrightarrow> (\<exists>q'. objs ids' p = Some q' \<and> perm_id q' = ipcid_make (uint (next_seq ids idx)) idx)))"
proof (cases r)
  case (Inr idx)
  note A = ipc_addid_Inr [OF assms(1) [unfolded Inr] assms(2,3)]
  have "objs ids' p = Some (added_perm env (next_seq ids idx) idx q)"
    using A(1) assms(2) by (simp add: A(6) added_ids_fields)
  then show ?thesis using A(1-3) Inr by (auto simp: A(6) added_ids_fields added_perm_def)
next
  case (Inl e)
  let ?m = "min (max (in_use ids * 3 div 2) ipc_min_cycle) ipc_mni"
  show ?thesis
  proof (cases "in_use ids < (if limit > ipc_mni then ipc_mni else limit)")
    case lim: True
    show ?thesis
    proof (cases "alloc (ipcs_idr ids) 0 ?m")
      case (Inl e')
      from ipc_addid_no_index [where alloc = alloc, OF lim Inl, of env ke p] assms(1) show ?thesis by auto
    next
      case (Inr idx)
      have "0 \<le> idx \<and> idx < ipc_mni" using Inr assms(3) unfolding idr_alloc_ok_def by fastforce
      then show ?thesis
        using ipc_addid_cases [where alloc = alloc, OF assms(2) lim Inr, of env ke] assms(1) Inl
        by (auto split: if_split_asm)
    qed
  next
    case False
    from assms(1) show ?thesis unfolding ipc_addid_full [OF False] by auto
  qed
qed

lemma less_extended:
  assumes "0 \<le> i" "i < 32768" "0 \<le> (S::int)"
  shows "(S * 32768 + i) div 32768 = S" "(S * 32768 + i) mod 32768 = i"
  using assms by simp_all

text \<open>The creations of a run carry strictly increasing extended numbers.\<close>

lemma ids_run_extended:
  "\<lbrakk>creates_ok ops; uint (ids_seq ids) = S mod 65535; -1 \<le> last_idx ids; last_idx ids < ipc_mni; 0 \<le> S\<rbrakk> \<Longrightarrow>
    \<exists>es. ids_run ids ops = map (\<lambda>e. e div 32768 mod 65535 * 32768 + e mod 32768) es
      \<and> sorted_wrt (<) es
      \<and> (\<forall>e \<in> set es. S * 32768 + last_idx ids < e \<and> S \<le> e div 32768 \<and> e div 32768 \<le> S + n_creates ops)"
proof (induction ops arbitrary: ids S)
  case Nil
  then show ?case by simp
next
  case (Cons x ops)
  show ?case
  proof (cases x)
    case (Remove p)
    then show ?thesis using Cons.IH [of "ipc_rmid ids p" S] Cons.prems by simp
  next
    case (Create env alloc ke p q limit)
    let ?ids = "objs_update (\<lambda>h. h(p \<mapsto> q)) ids"
    obtain ids' r where run: "ipc_addid env alloc ke ?ids p limit = (ids', r)" by fastforce
    have q: "objs ?ids p = Some q" by simp
    have ok: "idr_alloc_ok alloc" and rest: "creates_ok ops" using Cons.prems(1) by (simp_all add: Create)
    have ns: "next_seq ?ids idx = next_seq ids idx" for idx by (simp add: next_seq_def)
    from addid_counters [OF run q ok] consider
        (same) e where "r = Inl e" "ids_seq ids' = ids_seq ids" "last_idx ids' = last_idx ids"
      | (moved) idx where "0 \<le> idx" "idx < ipc_mni" "ids_seq ids' = next_seq ids idx" "last_idx ids' = idx"
          "r = Inr idx \<Longrightarrow> \<exists>q'. objs ids' p = Some q' \<and> perm_id q' = ipcid_make (uint (next_seq ids idx)) idx"
          "(\<exists>e. r = Inl e) \<or> r = Inr idx"
      unfolding ns by (cases r) auto
    then show ?thesis
    proof cases
      case same
      then show ?thesis using Cons.IH [OF rest, of ids' S] Cons.prems Create run by force
    next
      case (moved idx)
      define S' where "S' = (if idx \<le> last_idx ids then S + 1 else S)"
      have S': "uint (ids_seq ids') = S' mod 65535"
        using next_seq_mod [OF Cons.prems(2), of idx] by (simp add: moved S'_def)
      have grow: "S * 32768 + last_idx ids < S' * 32768 + idx"
        using Cons.prems moved(1,2) by (simp add: S'_def ipc_mni_def)
      have SS: "S \<le> S'" "S' \<le> S + 1" "0 \<le> S'" using Cons.prems(5) by (simp_all add: S'_def)
      obtain es where es: "ids_run ids' ops = map (\<lambda>e. e div 32768 mod 65535 * 32768 + e mod 32768) es"
          "sorted_wrt (<) es"
          "\<forall>e \<in> set es. S' * 32768 + idx < e \<and> S' \<le> e div 32768 \<and> e div 32768 \<le> S' + n_creates ops"
        using Cons.IH [OF rest S' _ _ SS(3)] moved(1,2,4) by auto
      have es': "\<forall>e \<in> set es. S * 32768 + last_idx ids < e \<and> S \<le> e div 32768 \<and> e div 32768 \<le> S + (n_creates ops + 1)"
        using es(3) SS grow n_creates_nonneg [of ops] by fastforce
      show ?thesis
      proof (cases r)
        case (Inl e)
        then show ?thesis using es(1,2) es' Create run by auto
      next
        case (Inr j)
        then have "j = idx" and r: "r = Inr idx" using moved(6) by auto
        obtain q' where q': "objs ids' p = Some q'" "perm_id q' = ipcid_make (S' mod 65535) idx"
          using moved(5) [OF r] S' moved(3) by auto
        let ?e = "S' * 32768 + idx"
        have i32: "0 \<le> idx" "idx < 32768" using moved(1,2) by (simp_all add: ipc_mni_def)
        have "perm_id q' = ?e div 32768 mod 65535 * 32768 + ?e mod 32768"
          unfolding less_extended [OF i32 SS(3)] q'(2) by (rule ipcid_make_val) (use moved(1,2) in auto)
        then have "ids_run ids (x # ops) = map (\<lambda>e. e div 32768 mod 65535 * 32768 + e mod 32768) (?e # es)"
          using es(1) Create run r q'(1) by simp
        moreover have "sorted_wrt (<) (?e # es)" using es(2,3) by simp
        moreover have "\<forall>e \<in> set (?e # es). S * 32768 + last_idx ids < e \<and> S \<le> e div 32768 \<and> e div 32768 \<le> S + n_creates (x # ops)"
        proof -
          have "S' \<le> S + n_creates (x # ops)" 
            unfolding Create n_creates.simps using SS n_creates_nonneg [of ops] by linarith
          then show ?thesis using es' grow SS less_extended(1) [OF i32 SS(3)] by (simp add: Create)
        qed
        ultimately show ?thesis by blast
      qed
    qed
  qed
qed

lemma extended_inj:
  fixes e f :: int
  assumes b: "S \<le> e div 32768" "e div 32768 \<le> S + n" "S \<le> f div 32768" "f div 32768 \<le> S + n" "n < 65535"
    and eq: "e div 32768 mod 65535 * 32768 + e mod 32768 = f div 32768 mod 65535 * 32768 + f mod 32768"
  shows "e = f"
proof -
  define x y where "x = e div 32768" and "y = f div 32768"
  define u v where "u = e mod 32768" and "v = f mod 32768"
  have uv: "0 \<le> u" "u < 32768" "0 \<le> v" "v < 32768" by (simp_all add: u_def v_def)
  have eq': "x mod 65535 * 32768 + u = y mod 65535 * 32768 + v"
    using eq unfolding x_def y_def u_def v_def .
  have "u = v" "x mod 65535 = y mod 65535"
  proof -
    define a c where "a = x mod 65535" and "c = y mod 65535"
    have ac: "a * 32768 + u = c * 32768 + v" using eq' by (simp only: a_def c_def)
    then have "(a * 32768 + u) mod 32768 = (c * 32768 + v) mod 32768" by (rule arg_cong)
    then show "u = v" using uv by (simp only: mod_mult_self3 mod_pos_pos_trivial)
    with ac have "a = c" by linarith
    then show "x mod 65535 = y mod 65535" by (simp only: a_def c_def)
  qed
  then obtain k where k: "x - y = 65535 * k" by (metis mod_eq_dvd_iff dvdE)
  have "k = 0"
  proof -
    have "x - y < 65535" "y - x < 65535" using b unfolding x_def [symmetric] y_def [symmetric] by linarith+
    then show ?thesis using k by linarith
  qed
  then have xy: "x = y" using k by linarith
  have e: "e = x * 32768 + u" "f = y * 32768 + v"
    unfolding x_def y_def u_def v_def by (simp_all only: div_mult_mod_eq)
  show ?thesis unfolding e xy \<open>u = v\<close> by (rule refl)
qed

section \<open>Properties\<close>

text \<open>C38. No identifier is handed out twice in a run of fewer than 65535 creations, whatever is
  created and removed in between, whoever creates, and however the kernel's index allocator chooses
  at each creation (its cursor moves from call to call).\<close>

theorem ids_never_repeat:
  assumes "creates_ok ops" and "ids_wf ids" and "n_creates ops < 65535"
  shows "distinct (ids_run ids ops)"
proof -
  let ?f = "\<lambda>e :: int. e div 32768 mod 65535 * 32768 + e mod 32768"
  let ?S = "uint (ids_seq ids)"
  have "?S = ?S mod 65535" using assms(2) by (simp add: ids_wf_def)
  then obtain es where es: "ids_run ids ops = map ?f es" "sorted_wrt (<) es"
      "\<forall>e \<in> set es. ?S \<le> e div 32768 \<and> e div 32768 \<le> ?S + n_creates ops"
    using ids_run_extended [OF assms(1), of ids ?S] assms(2) by (auto simp: ids_wf_def)
  have "inj_on ?f (set es)"
  proof (rule inj_onI)
    fix e f assume e: "e \<in> set es" "f \<in> set es" "?f e = ?f f"
    show "e = f"
      by (rule extended_inj [where S = ?S, OF _ _ _ _ assms(3) e(3)]) (use es(3) e(1,2) in blast)+
  qed
  moreover have "distinct es" using es(2) by (simp add: strict_sorted_iff)
  ultimately show ?thesis unfolding es(1) by (simp add: distinct_map)
qed

text \<open>A first-fit index allocator, and sample objects, to evaluate the table on.\<close>

definition first_free :: idr_alloc where
  "first_free t lo hi =
     (case filter (\<lambda>i. map_of t i = None) [lo..hi - 1] of [] \<Rightarrow> Inl ENOSPC | i # _ \<Rightarrow> Inr i)"

lemma first_free_ok: "idr_alloc_ok first_free"
  unfolding idr_alloc_ok_def
proof (intro allI impI)
  fix t lo hi i assume "first_free t lo hi = Inr i"
  then obtain js where "filter (\<lambda>i. map_of t i = None) [lo..hi - 1] = i # js"
    by (auto simp: first_free_def split: list.splits)
  then have "i \<in> set (filter (\<lambda>i. map_of t i = None) [lo..hi - 1])" by simp
  then show "lo \<le> i \<and> i < hi \<and> map_of t i = None" by auto
qed

definition sample_perm :: "int \<Rightarrow> int \<Rightarrow> kern_ipc_perm" where
  "sample_perm k m = \<lparr>perm_deleted = False, perm_id = 0, perm_key = k, perm_uid = 0, perm_gid = 0,
     perm_cuid = 0, perm_cgid = 0, perm_mode = m, perm_seq = 0, perm_refcount = 1\<rparr>"

text \<open>A table with one object under key 42, reached by the operations themselves.\<close>

definition sample_raw :: "kern_ipc_perm ipc_ids" where
  "sample_raw = objs_update (\<lambda>h. h(7 \<mapsto> sample_perm 42 384)) ipc_init_ids"

definition sample_ids :: "kern_ipc_perm ipc_ids" where
  "sample_ids = fst (ipc_addid (plain_env 1 1000) first_free None sample_raw 7 32000)"

lemma sample_raw_wf: "ids_wf sample_raw"
  unfolding sample_raw_def by (rule ids_wf_cong [OF ids_wf_init]) (simp_all add: ipc_init_ids_def)

lemma first_free_0: "first_free [] 0 64 = Inr 0"
  by (simp add: first_free_def upto_rec1)

lemma sample_add: "ipc_addid (plain_env 1 1000) first_free None sample_raw 7 32000 = (sample_ids, Inr 0)"
proof -
  have "first_free (ipcs_idr sample_raw) 0 (min (max (in_use sample_raw * 3 div 2) ipc_min_cycle) ipc_mni) = Inr 0"
    by (simp add: sample_raw_def ipc_init_ids_def ipc_min_cycle_def ipc_mni_def first_free_0)
  from ipc_addid_cases [where alloc = first_free, OF _ _ this, of 7 "sample_perm 42 384" 32000 "plain_env 1 1000" None]
  show ?thesis
    unfolding sample_ids_def
    by (simp add: sample_raw_def sample_perm_def ipc_init_ids_def ipc_mni_def)
qed

lemma sample_raw_obj: "objs sample_raw 7 = Some (sample_perm 42 384)" "7 \<notin> snd ` set (ipcs_idr sample_raw)"
    "key_ht sample_raw (perm_key (sample_perm 42 384)) = None"
  by (simp_all add: sample_raw_def ipc_init_ids_def)

lemma sample_ids_wf: "ids_wf sample_ids"
  by (rule ids_wf_addid_ok [OF sample_raw_wf sample_add sample_raw_obj(1) first_free_ok sample_raw_obj(2)])
    (simp add: sample_raw_obj)

lemma sample_ids_fields:
  "ipcs_idr sample_ids = [(0, 7)]"
  "objs sample_ids = [7 \<mapsto> added_perm (plain_env 1 1000) 0 0 (sample_perm 42 384)]"
  "key_ht sample_ids = [42 \<mapsto> 7]"
proof -
  note A = ipc_addid_Inr(6) [OF sample_add sample_raw_obj(1) first_free_ok]
  show "ipcs_idr sample_ids = [(0, 7)]"
    "objs sample_ids = [7 \<mapsto> added_perm (plain_env 1 1000) 0 0 (sample_perm 42 384)]"
    "key_ht sample_ids = [42 \<mapsto> 7]"
    unfolding A
    by (simp_all add: added_ids_fields sample_raw_def ipc_init_ids_def sample_perm_def ipc_consts next_seq_def)
qed

text \<open>An allocator that searches from a cursor on and then from the start, as the kernel's does.\<close>

definition free_from :: "int \<Rightarrow> idr_alloc" where
  "free_from cur t lo hi =
     (case filter (\<lambda>i. map_of t i = None) ([max lo cur..hi - 1] @ [lo..hi - 1]) of [] \<Rightarrow> Inl ENOSPC | i # _ \<Rightarrow> Inr i)"

lemma free_from_ok: "idr_alloc_ok (free_from cur)"
  unfolding idr_alloc_ok_def
proof (intro allI impI)
  fix t lo hi i assume "free_from cur t lo hi = Inr i"
  then obtain js where "filter (\<lambda>i. map_of t i = None) ([max lo cur..hi - 1] @ [lo..hi - 1]) = i # js"
    by (auto simp: free_from_def split: list.splits)
  then have "i \<in> set (filter (\<lambda>i. map_of t i = None) ([max lo cur..hi - 1] @ [lo..hi - 1]))" by simp
  then show "lo \<le> i \<and> i < hi \<and> map_of t i = None" by auto
qed

theorem ids_never_repeat_witness:
  "distinct (ids_run sample_ids
     [Remove 7, Create (plain_env 1 1000) (free_from 1) None 8 (sample_perm 0 384) 32000, Remove 8,
      Create (plain_env 2 1000) (free_from 2) None 9 (sample_perm 0 384) 32000, Create (plain_env 1 0) first_free None 10 (sample_perm 0 384) 32000])"
  by (rule ids_never_repeat [OF _ sample_ids_wf]) (simp_all add: free_from_ok first_free_ok)

text \<open>An insertion that succeeds keeps the table well formed and returns a usable id: it
  is a non-negative int with the index handed out, it resolves to the new object, the key
  finds the object, and every id that resolved before still resolves to the same object.\<close>

theorem addid_roundtrip:
  assumes "ids_wf ids" and "idr_alloc_ok alloc"
    and "ipc_addid env alloc ke ids p limit = (ids', Inr idx)"
    and "objs ids p = Some q" and "p \<notin> snd ` set (ipcs_idr ids)"
    and "perm_key q = IPC_PRIVATE \<or> key_ht ids (perm_key q) = None"
  shows "ids_wf ids' \<and> in_use ids' = in_use ids + 1 \<and> in_use ids' \<le> limit
    \<and> (\<exists>q'. objs ids' p = Some q' \<and> 0 \<le> perm_id q' \<and> perm_id q' \<le> INT_MAX
         \<and> ipcid_to_idx (perm_id q') = idx \<and> ipc_obtain_object_check ids' (perm_id q') = Inr p)
    \<and> (perm_key q \<noteq> IPC_PRIVATE \<longrightarrow> ipc_findkey ids' (perm_key q) = Some p)
    \<and> (\<forall>i r. ipc_obtain_object_check ids i = Inr r \<longrightarrow> ipc_obtain_object_check ids' i = Inr r)"
proof -
  have wf': "ids_wf ids'" by (rule ids_wf_addid_ok [OF assms(1,3,4,2,5,6)])
  note A = ipc_addid_Inr [OF assms(3,4,2)]
  have F: "ipcs_idr ids' = ipcs_idr ids @ [(idx, p)]" "in_use ids' = in_use ids + 1"
      "objs ids' = (objs ids)(p \<mapsto> added_perm env (next_seq ids idx) idx q)"
      "key_ht ids' = (if perm_key q \<noteq> IPC_PRIVATE then (key_ht ids)(perm_key q \<mapsto> p) else key_ht ids)"
    by (simp_all add: A(6) added_ids_fields A(1) assms(4))
  have m: "map_of (ipcs_idr ids') idx = Some p" using A(1) by (simp add: F map_add_def)
  obtain q' where q': "objs ids' p = Some q'" by (simp add: F)
  have old: "ipc_obtain_object_check ids' i = Inr r" if "ipc_obtain_object_check ids i = Inr r" for i r
  proof -
    from that have r: "map_of (ipcs_idr ids) (ipcid_to_idx i) = Some r" and "objs ids r \<noteq> None"
      by (auto simp: obtain_check_iff)
    then have "r \<noteq> p" using assms(5) by (force dest: map_of_SomeD)
    then show ?thesis using that r A(1) by (auto simp: obtain_check_iff F map_add_def)
  qed
  show ?thesis
    using wf' A(4) entry_idx [OF wf' m q'] obtain_check_entry [OF wf' m q'] q' old
    by (simp add: F(2,4) ipc_findkey_def)
qed

theorem addid_roundtrip_witness:
  "ids_wf sample_ids \<and> in_use sample_ids = in_use sample_raw + 1"
  using addid_roundtrip [OF sample_raw_wf first_free_ok sample_add sample_raw_obj(1,2)] sample_raw_obj(3) by blast

text \<open>C39. Removing an object keeps the table well formed, with the cached maximum index exact;
  the id of the removed object is refused with EINVAL from then on, its key no longer finds
  it, and every other id resolves as before.\<close>

theorem rmid_forgets:
  assumes "ids_wf ids" and "ipc_obtain_object_check ids i = Inr p" and "objs ids p = Some q"
  shows "ids_wf (ipc_rmid ids p) \<and> ipc_obtain_object_check (ipc_rmid ids p) i = Inl EINVAL
    \<and> ipc_findkey (ipc_rmid ids p) (perm_key q) = None
    \<and> max_idx (ipc_rmid ids p) = Max (insert (-1) (fst ` set (ipcs_idr ids) - {ipcid_to_idx i}))
    \<and> (\<forall>j. j \<noteq> i \<longrightarrow> ipc_obtain_object_check (ipc_rmid ids p) j = ipc_obtain_object_check ids j)"
proof -
  from assms(2,3) have m: "map_of (ipcs_idr ids) (ipcid_to_idx i) = Some p" and s: "perm_seq q = ipcid_to_seqx i"
    by (auto simp: obtain_check_iff)
  note F = ipc_rmid_fields [OF assms(1) m assms(3)]
  have wf': "ids_wf (ipc_rmid ids p)" by (rule ids_wf_rmid [OF assms(1) m])
  have gone: "ipc_obtain_object_check (ipc_rmid ids p) i = Inl EINVAL"
    by (simp add: ipc_obtain_object_check_def ipc_obtain_object_idr_def idr_find_def F(1) map_of_idr_remove)
  have k: "ipc_findkey (ipc_rmid ids p) (perm_key q) = None"
  proof (cases "perm_key q = IPC_PRIVATE")
    case True
    have "key_ht (ipc_rmid ids p) IPC_PRIVATE \<noteq> Some r" for r using ids_wf_key [OF wf'] by simp
    then have "key_ht (ipc_rmid ids p) IPC_PRIVATE = None" by (metis not_Some_eq)
    then show ?thesis using True by (simp add: ipc_findkey_def)
  next
    case False
    then show ?thesis by (simp add: ipc_findkey_def F(3))
  qed
  have mx: "max_idx (ipc_rmid ids p) = Max (insert (-1) (fst ` set (ipcs_idr ids) - {ipcid_to_idx i}))"
    unfolding F(7) by (rule arg_cong [where f = "\<lambda>s. Max (insert (-1) s)"]) (auto simp: AList.delete_eq)
  have other: "ipc_obtain_object_check (ipc_rmid ids p) j = ipc_obtain_object_check ids j" if "j \<noteq> i" for j
  proof (cases "ipcid_to_idx j = ipcid_to_idx i")
    case True
    have "ipcid_to_seqx j \<noteq> ipcid_to_seqx i"
      using that True by (metis div_mult_mod_eq idx_mod seqx_div)
    then show ?thesis using True m s assms(3)
      by (simp add: ipc_obtain_object_check_def ipc_obtain_object_idr_def idr_find_def F(1) map_of_idr_remove
          ipc_checkid_def)
  next
    case False
    have "objs (ipc_rmid ids p) r = objs ids r" if "map_of (ipcs_idr ids) (ipcid_to_idx j) = Some r" for r
    proof -
      have "r \<noteq> p"
      proof
        assume "r = p"
        with that m have "(ipcid_to_idx j, p) \<in> set (ipcs_idr ids)" "(ipcid_to_idx i, p) \<in> set (ipcs_idr ids)"
          by (auto dest: map_of_SomeD)
        then show False using ids_wf_distinct(2) [OF assms(1)] False by (force simp: distinct_map inj_on_def)
      qed
      then show ?thesis by (simp add: F(4))
    qed
    then show ?thesis using False
      by (simp add: ipc_obtain_object_check_def ipc_obtain_object_idr_def idr_find_def F(1) map_of_idr_remove
          split: option.splits)
  qed
  show ?thesis using wf' gone k mx other by blast
qed

lemma sample_lookup: "ipc_obtain_object_check sample_ids 0 = Inr 7"
  by (simp add: obtain_check_iff sample_ids_fields added_perm_def idx_mod seqx_div)

theorem rmid_forgets_witness: "ipc_obtain_object_check (ipc_rmid sample_ids 7) 0 = Inl EINVAL"
  using rmid_forgets [OF sample_ids_wf sample_lookup] by (simp add: sample_ids_fields)

text \<open>Access is granted exactly when every permission the request names (in any of the
  three octal digits) is granted to the caller's class - owner or creator, group, other - or
  the caller has CAP_IPC_OWNER, and the security module agrees.\<close>

theorem ipcperms_spec:
  "ipcperms env lsm q flag = None \<longleftrightarrow>
     (cur_ns_capable env CAP_IPC_OWNER
      \<or> (let shift = (if cur_euid env = perm_cuid q \<or> cur_euid env = perm_uid q then 6
                      else if cur_in_group env (perm_cgid q) \<or> cur_in_group env (perm_gid q) then 3 else 0)
         in \<forall>b \<in> {0, 1, 2}. bit flag b \<or> bit flag (b + 3) \<or> bit flag (b + 6) \<longrightarrow> bit (perm_mode q) (shift + b)))
     \<and> lsm (kern_ipc_perm.truncate q) flag = None"
proof -
  have seven: "bit (7::int) n \<longleftrightarrow> n \<in> {0, 1, 2}" for n
  proof -
    have "(7::int) = mask 3" by (simp add: mask_eq_exp_minus_1)
    then have "bit (7::int) n \<longleftrightarrow> n < 3" by (simp only: bit_mask_iff) simp
    then show ?thesis by auto
  qed
  have key: "(drop_bit 6 flag OR drop_bit 3 flag OR flag) AND NOT g AND 7 = 0 \<longleftrightarrow>
      (\<forall>b \<in> {0, 1, 2}. bit flag b \<or> bit flag (b + 3) \<or> bit flag (b + 6) \<longrightarrow> bit g b)" for g :: int
  proof -
    let ?l = "(drop_bit 6 flag OR drop_bit 3 flag OR flag) AND NOT g AND 7"
    have "bit ?l n \<longleftrightarrow> (bit flag (6 + n) \<or> bit flag (3 + n) \<or> bit flag n) \<and> \<not> bit g n \<and> n \<in> {0, 1, 2}" for n
      unfolding bit_and_iff bit_or_iff bit_drop_bit_eq bit_not_iff seven by simp
    then have "(\<forall>n. \<not> bit ?l n) \<longleftrightarrow>
        (\<forall>b \<in> {0, 1, 2}. bit flag (6 + b) \<or> bit flag (3 + b) \<or> bit flag b \<longrightarrow> bit g b)"
      by blast
    also have "\<dots> \<longleftrightarrow> (\<forall>b \<in> {0, 1, 2}. bit flag b \<or> bit flag (b + 3) \<or> bit flag (b + 6) \<longrightarrow> bit g b)"
      by (simp only: add.commute [of _ 6] add.commute [of _ 3]) blast
    finally have "(\<forall>n. \<not> bit ?l n) \<longleftrightarrow>
        (\<forall>b \<in> {0, 1, 2}. bit flag b \<or> bit flag (b + 3) \<or> bit flag (b + 6) \<longrightarrow> bit g b)" .
    moreover have "?l = 0 \<longleftrightarrow> (\<forall>n. \<not> bit ?l n)" by (simp only: bit_eq_iff bit_0_eq bot_apply bot_bool_def simp_thms possible_bit_int)
    ultimately show ?thesis by blast
  qed
  define shift where "shift = (if cur_euid env = perm_cuid q \<or> cur_euid env = perm_uid q then 6
      else if cur_in_group env (perm_cgid q) \<or> cur_in_group env (perm_gid q) then 3 else (0::nat))"
  have g: "(if cur_euid env = perm_cuid q \<or> cur_euid env = perm_uid q then drop_bit 6 (perm_mode q)
      else if cur_in_group env (perm_cgid q) \<or> cur_in_group env (perm_gid q) then drop_bit 3 (perm_mode q)
      else perm_mode q) = drop_bit shift (perm_mode q)"
    by (simp add: shift_def)
  show ?thesis
    unfolding ipcperms_def Let_def shift_def [symmetric] g key bit_drop_bit_eq o_def
    by (simp only: split: if_split) blast
qed

theorem ipcperms_spec_witness:
  "ipcperms (plain_env 1 1000) (\<lambda>_ _. None) (added_perm (plain_env 1 1000) 0 0 (sample_perm 42 384)) 256 = None"
  using ipcperms_spec [of "plain_env 1 1000" "\<lambda>_ _. None" "added_perm (plain_env 1 1000) 0 0 (sample_perm 42 384)" 256]
  by (simp add: plain_env_def added_perm_def sample_perm_def Let_def)

text \<open>
  Reading \<^verbatim>\<open>/proc/sysvipc\<close>: the \<^verbatim>\<open>seq_file\<close> layer starts at position 0 and asks for the next
  item until the end.
\<close>

fun proc_walk :: "nat \<Rightarrow> 'o ipc_ids \<Rightarrow> int \<Rightarrow> ptr list" where
  "proc_walk 0 ids pos = []"
| "proc_walk (Suc n) ids pos =
     (case sysvipc_proc_next ids pos of
        (SEQ_OBJECT p, pos') \<Rightarrow> p # proc_walk n ids pos'
      | _ \<Rightarrow> [])"

lemma sorted_filter_step:
  "\<lbrakk>sorted_wrt (<) (map fst L); filter (\<lambda>x. pos \<le> fst x) L = x # xs\<rbrakk>
     \<Longrightarrow> filter (\<lambda>y. fst x + 1 \<le> (fst y :: int)) L = xs"
proof (induction L)
  case (Cons a L)
  show ?case
  proof (cases "pos \<le> fst a")
    case True
    have all: "\<forall>y \<in> set L. fst a < fst y" using Cons.prems(1) by simp
    then have "filter (\<lambda>x. pos \<le> fst x) L = L" "filter (\<lambda>y. fst a + 1 \<le> fst y) L = L"
      using True by (auto simp: filter_id_conv)
    then show ?thesis using Cons.prems(2) True by auto
  next
    case False
    then have f: "filter (\<lambda>x. pos \<le> fst x) L = x # xs" using Cons.prems(2) by simp
    then have "x \<in> set (filter (\<lambda>x. pos \<le> fst x) L)" by simp
    then have "pos \<le> fst x" by simp
    then show ?thesis using Cons.IH [OF _ f] Cons.prems(1) False by simp
  qed
qed simp

lemma proc_walk_filter:
  assumes L: "sorted_wrt (<) (map fst L)" "set L = set (ipcs_idr ids)" and d: "distinct (map fst (ipcs_idr ids))"
  shows "length (filter (\<lambda>x. pos \<le> fst x) L) \<le> n \<Longrightarrow> proc_walk n ids pos = map snd (filter (\<lambda>x. pos \<le> fst x) L)"
proof (induction n arbitrary: pos)
  case (Suc n)
  show ?case
  proof (cases "filter (\<lambda>x. pos \<le> fst x) L")
    case Nil
    then have "idr_get_next (ipcs_idr ids) pos = None"
      using L(2) by (auto simp: idr_get_next_None filter_empty_conv not_le)
    then show ?thesis using Nil by (simp add: sysvipc_proc_next_def sysvipc_find_ipc_def)
  next
    case (Cons x xs)
    have x: "x \<in> set (filter (\<lambda>x. pos \<le> fst x) L)" using Cons by simp
    have next_x: "filter (\<lambda>y. fst x + 1 \<le> fst y) L = xs" by (rule sorted_filter_step [OF L(1) Cons])
    have "idr_get_next (ipcs_idr ids) pos \<noteq> None"
    proof -
      have "fst x \<in> fst ` set (ipcs_idr ids)" "\<not> fst x < pos" using x L(2) by auto
      then show ?thesis unfolding idr_get_next_None by blast
    qed
    then obtain k where k: "idr_get_next (ipcs_idr ids) pos = Some k" by blast
    have "k = fst x"
    proof (rule antisym)
      have xk: "fst x \<in> fst ` set (ipcs_idr ids)" "pos \<le> fst x" using x L(2) by auto
      then show "k \<le> fst x" using idr_get_next_Some [OF k] by blast
      obtain y where y: "y \<in> set L" "fst y = k" "pos \<le> k" using idr_get_next_Some [OF k] L(2) by auto
      have "fst x + 1 \<le> fst y \<or> y = x \<or> \<not> pos \<le> fst y"
      proof (cases "pos \<le> fst y")
        case True
        then have "y \<in> set (x # xs)" using y(1) unfolding Cons [symmetric] by simp
        then show ?thesis using next_x [symmetric] by auto
      qed simp
      then show "fst x \<le> k" using y by auto
    qed
    moreover have "idr_find (ipcs_idr ids) (fst x) = Some (snd x)"
      using x L(2) d by (simp add: idr_find_def)
    ultimately show ?thesis
      using Suc.IH [of "fst x + 1"] Suc.prems Cons next_x k
      by (simp add: sysvipc_proc_next_def sysvipc_find_ipc_def)
  qed
qed simp

text \<open>Reading the proc file lists every object of the table exactly once, in the order of
  the indices.\<close>

theorem proc_walk_all:
  assumes "ids_wf ids" and "in_use ids \<le> int n"
  shows "proc_walk n ids 0 = map snd (sort_key fst (ipcs_idr ids))"
proof -
  let ?L = "sort_key fst (ipcs_idr ids)"
  have d: "distinct (map fst (ipcs_idr ids))" by (rule ids_wf_distinct [OF assms(1)])
  have "distinct (map fst ?L)" using d by (simp add: distinct_map distinct_sort)
  then have srt: "sorted_wrt (<) (map fst ?L)" by (simp add: strict_sorted_iff)
  have all: "filter (\<lambda>x. 0 \<le> fst x) ?L = ?L"
    using assms(1) by (auto simp: ids_wf_def filter_id_conv)
  show ?thesis
    using proc_walk_filter [OF srt _ d, of 0 n] assms unfolding all by (simp add: ids_wf_def)
qed

theorem proc_walk_all_witness: "proc_walk 5 sample_ids 0 = [7]"
  using proc_walk_all [OF sample_ids_wf, of 5] sample_ids_wf by (simp add: ids_wf_def sample_ids_fields)

end
