(* ===== verification/Compat32.thy ===== *)
theory Compat32
  imports IpcUtil
begin

text \<open>
  The permission structures of 32 bit callers
  (\<^verbatim>\<open>src/src/main/ipcns/compat/ipc_compat32.c\<close>) and the record of the caller's id maps every
  \<^verbatim>\<open>*ctl\<close> call translates with. The compat structures have the fields of \<open>ipc64_perm\<close>; the old
  one narrows the ids with \<^verbatim>\<open>SET_UID\<close> and \<^verbatim>\<open>SET_GID\<close>. \<open>ok\<close> is the success of the user copy.
\<close>

text \<open>The maps of the caller's user and pid namespaces, kernel functions all of them.\<close>

record user_maps =
  from_kuid :: "nat \<Rightarrow> int"
  from_kgid :: "nat \<Rightarrow> int"
  make_kuid :: "int \<Rightarrow> nat option"
  make_kgid :: "int \<Rightarrow> nat option"
  set_uid :: "int \<Rightarrow> int"
  set_gid :: "int \<Rightarrow> int"
  pid_vnr :: "nat option \<Rightarrow> int"

definition get_compat_ipc64_perm :: "bool \<Rightarrow> ipc64_perm \<Rightarrow> ipc64_perm \<Rightarrow> ipc64_perm result" where
  "get_compat_ipc64_perm ok to64 v =
     (if \<not> ok then Inl EFAULT
      else Inr (to64\<lparr>out_uid := out_uid v, out_gid := out_gid v, out_mode := out_mode v\<rparr>))"

definition get_compat_ipc_perm :: "bool \<Rightarrow> ipc64_perm \<Rightarrow> ipc64_perm \<Rightarrow> ipc64_perm result" where
  "get_compat_ipc_perm ok to64 v =
     (if \<not> ok then Inl EFAULT
      else Inr (to64\<lparr>out_uid := out_uid v, out_gid := out_gid v, out_mode := out_mode v\<rparr>))"

definition to_compat_ipc64_perm :: "ipc64_perm \<Rightarrow> ipc64_perm" where
  "to_compat_ipc64_perm f =
     \<lparr>out_key = out_key f, out_uid = out_uid f, out_gid = out_gid f, out_cuid = out_cuid f,
      out_cgid = out_cgid f, out_mode = out_mode f, out_seq = out_seq f\<rparr>"

definition to_compat_ipc_perm :: "user_maps \<Rightarrow> ipc64_perm \<Rightarrow> ipc64_perm" where
  "to_compat_ipc_perm um f =
     \<lparr>out_key = out_key f, out_uid = set_uid um (out_uid f), out_gid = set_gid um (out_gid f),
      out_cuid = set_uid um (out_cuid f), out_cgid = set_gid um (out_cgid f),
      out_mode = out_mode f, out_seq = out_seq f\<rparr>"

text \<open>The version bit of a compat command.\<close>

definition compat_ipc_parse_version :: "int \<Rightarrow> int \<times> int" where
  "compat_ipc_parse_version cmd = (cmd AND NOT IPC_64, cmd AND IPC_64)"

text \<open>The halves of a 64 bit time.\<close>

definition lower_32_bits :: "int \<Rightarrow> 32 word" where "lower_32_bits t = of_int t"
definition upper_32_bits :: "int \<Rightarrow> 32 word" where "upper_32_bits t = of_int (drop_bit 32 t)"

text \<open>Maps of a namespace whose ids are the kernel's own.\<close>

definition plain_maps :: user_maps where
  "plain_maps = \<lparr>from_kuid = int, from_kgid = int, make_kuid = (\<lambda>i. if i < 0 then None else Some (nat i)),
     make_kgid = (\<lambda>i. if i < 0 then None else Some (nat i)),
     set_uid = (\<lambda>i. if i > 65535 then 65534 else i), set_gid = (\<lambda>i. if i > 65535 then 65534 else i),
     pid_vnr = (\<lambda>p. case p of None \<Rightarrow> 0 | Some n \<Rightarrow> int n)\<rparr>"

end
