(* ===== verification/MsgUtil.thy ===== *)
theory MsgUtil
  imports Prelude
begin

text \<open>
  Message bodies (\<^verbatim>\<open>src/src/main/ipcns/sysv/ipc_msgutil.c\<close>): a message is one page that
  holds the header and the first bytes, and a chain of further pages. \<open>load_msg\<close> copies a user
  buffer into a new message, \<open>store_msg\<close> copies a message back, \<open>copy_msg\<close> copies between two
  messages.

  Memory allocation and the copies from and to user space are arguments: \<open>mem k\<close> says whether
  the \<open>k\<close>-th allocation succeeds, \<open>ucopy off n\<close> is the \<open>n\<close> bytes at offset \<open>off\<close> of the user's
  buffer or \<open>None\<close> for a fault, \<open>uwrite off n\<close> whether the \<open>n\<close> bytes at \<open>off\<close> can be written.
  The sizes are those of 4096 byte pages and 64 bit pointers.
\<close>

type_synonym bytes = "8 word list"

record msg_msg =
  m_type :: int
  m_ts :: nat
  m_head :: bytes          \<comment> \<open>the bytes behind the header\<close>
  m_next :: "bytes list"   \<comment> \<open>the bytes of the segments\<close>

definition DATALEN_MSG :: nat where "DATALEN_MSG = 4096 - 48"
definition DATALEN_SEG :: nat where "DATALEN_SEG = 4096 - 8"

lemma datalen_pos [simp]: "0 < DATALEN_MSG" "0 < DATALEN_SEG"
  by (simp_all add: DATALEN_MSG_def DATALEN_SEG_def)

text \<open>The sizes of the segments for the bytes that do not fit the first page; \<open>k\<close> counts allocations.\<close>

function alloc_segs :: "(nat \<Rightarrow> bool) \<Rightarrow> nat \<Rightarrow> nat \<Rightarrow> bytes list option" where
  "alloc_segs mem k len =
     (if len = 0 then Some []
      else
        (let alen = min len DATALEN_SEG
         in if \<not> mem k then None
            else map_option (Cons (replicate alen 0)) (alloc_segs mem (k + 1) (len - alen))))"
  by auto
termination
  by (relation "measure (\<lambda>(_, _, len). len)") auto

declare alloc_segs.simps [simp del]

definition alloc_msg :: "(nat \<Rightarrow> bool) \<Rightarrow> nat \<Rightarrow> msg_msg option" where
  "alloc_msg mem len =
     (let alen = min len DATALEN_MSG
      in if \<not> mem 0 then None
         else map_option
           (\<lambda>segs. \<lparr>m_type = 0, m_ts = 0, m_head = replicate alen 0, m_next = segs\<rparr>)
           (alloc_segs mem 1 (len - alen)))"

text \<open>The copy loop over the segments; \<open>alen\<close> is the size of the part copied last.\<close>

fun load_segs :: "(nat \<Rightarrow> nat \<Rightarrow> bytes option) \<Rightarrow> bytes list \<Rightarrow> nat \<Rightarrow> nat \<Rightarrow> nat \<Rightarrow> bytes list option" where
  "load_segs ucopy [] src len alen = Some []"
| "load_segs ucopy (seg # segs) src len alen =
     (let len = len - alen;
          src = src + alen;
          alen = min len DATALEN_SEG
      in case ucopy src alen of
           None \<Rightarrow> None
         | Some d \<Rightarrow> map_option (Cons d) (load_segs ucopy segs src len alen))"

definition load_msg ::
    "(nat \<Rightarrow> bool) \<Rightarrow> (nat \<Rightarrow> nat \<Rightarrow> bytes option) \<Rightarrow> errno option \<Rightarrow> nat \<Rightarrow> msg_msg result" where
  "load_msg mem ucopy lsm len =
     (case alloc_msg mem len of
        None \<Rightarrow> Inl ENOMEM
      | Some msg \<Rightarrow>
          (let alen = min len DATALEN_MSG
           in case ucopy 0 alen of
                None \<Rightarrow> Inl EFAULT
              | Some d \<Rightarrow>
                  (case load_segs ucopy (m_next msg) 0 len alen of
                     None \<Rightarrow> Inl EFAULT
                   | Some segs \<Rightarrow>
                       (case lsm of
                          Some e \<Rightarrow> Inl e
                        | None \<Rightarrow> Inr (msg\<lparr>m_head := d, m_next := segs\<rparr>)))))"

fun copy_segs :: "bytes list \<Rightarrow> bytes list \<Rightarrow> nat \<Rightarrow> nat \<Rightarrow> bytes list" where
  "copy_segs ds [] len alen = ds"
| "copy_segs [] (s # ss) len alen = []"
| "copy_segs (d # ds) (s # ss) len alen =
     (let len = len - alen;
          alen = min len DATALEN_SEG
      in (take alen s @ drop alen d) # copy_segs ds ss len alen)"

text \<open>\<open>ckpt\<close> is \<^verbatim>\<open>CONFIG_CHECKPOINT_RESTORE\<close>.\<close>

definition copy_msg :: "bool \<Rightarrow> msg_msg \<Rightarrow> msg_msg \<Rightarrow> msg_msg result" where
  "copy_msg ckpt src dst =
     (if ckpt then
        (if m_ts src > m_ts dst then Inl EINVAL
         else
           (let len = m_ts src;
                alen = min len DATALEN_MSG
            in Inr \<lparr>m_type = m_type src, m_ts = m_ts src,
                    m_head = take alen (m_head src) @ drop alen (m_head dst),
                    m_next = copy_segs (m_next dst) (m_next src) len alen\<rparr>))
      else Inl ENOSYS)"

text \<open>The bytes written to the user from offset \<open>dest\<close> on.\<close>

fun store_segs :: "(nat \<Rightarrow> nat \<Rightarrow> bool) \<Rightarrow> bytes list \<Rightarrow> nat \<Rightarrow> nat \<Rightarrow> nat \<Rightarrow> bytes option" where
  "store_segs uwrite [] dest len alen = Some []"
| "store_segs uwrite (seg # segs) dest len alen =
     (let len = len - alen;
          dest = dest + alen;
          alen = min len DATALEN_SEG
      in if \<not> uwrite dest alen then None
         else map_option (\<lambda>d. take alen seg @ d) (store_segs uwrite segs dest len alen))"

definition store_msg :: "(nat \<Rightarrow> nat \<Rightarrow> bool) \<Rightarrow> msg_msg \<Rightarrow> nat \<Rightarrow> bytes option" where
  "store_msg uwrite msg len =
     (let alen = min len DATALEN_MSG
      in if \<not> uwrite 0 alen then None
         else map_option (\<lambda>d. take alen (m_head msg) @ d)
                (store_segs uwrite (m_next msg) 0 len alen))"

section \<open>Segmented bodies\<close>

text \<open>The bytes of a message, and the shape that belongs to a length.\<close>

definition msg_bytes :: "msg_msg \<Rightarrow> bytes" where
  "msg_bytes msg = m_head msg @ concat (m_next msg)"

fun segs_shape :: "bytes list \<Rightarrow> nat \<Rightarrow> bool" where
  "segs_shape [] len \<longleftrightarrow> len = 0"
| "segs_shape (s # ss) len \<longleftrightarrow> 0 < len \<and> length s = min len DATALEN_SEG \<and> segs_shape ss (len - length s)"

definition msg_shape :: "msg_msg \<Rightarrow> nat \<Rightarrow> bool" where
  "msg_shape msg len \<longleftrightarrow>
     length (m_head msg) = min len DATALEN_MSG \<and> segs_shape (m_next msg) (len - length (m_head msg))"

lemma segs_shape_concat: "segs_shape ss len \<Longrightarrow> length (concat ss) = len"
  by (induction ss len rule: segs_shape.induct) auto

lemma msg_shape_length: "msg_shape msg len \<Longrightarrow> length (msg_bytes msg) = len"
  by (auto simp: msg_shape_def msg_bytes_def dest: segs_shape_concat)

lemma alloc_segs_shape: "alloc_segs mem k len = Some ss \<Longrightarrow> segs_shape ss len"
proof (induction mem k len arbitrary: ss rule: alloc_segs.induct)
  case (1 mem k len)
  show ?case
  proof (cases "len = 0")
    case True
    then have "ss = []" using "1.prems" by (simp add: alloc_segs.simps [of mem k 0])
    then show ?thesis using True by simp
  next
    case False
    then obtain ss' where "mem k" "alloc_segs mem (k + 1) (len - min len DATALEN_SEG) = Some ss'"
      "ss = replicate (min len DATALEN_SEG) 0 # ss'"
      using "1.prems" by (auto simp: alloc_segs.simps [of mem k len] Let_def split: if_splits)
    then show ?thesis using "1.IH" [OF False refl, of ss'] False by simp
  qed
qed

lemma msg_shapeD:
  assumes "msg_shape msg len"
  shows "length (m_head msg) = min len DATALEN_MSG" "segs_shape (m_next msg) (len - min len DATALEN_MSG)"
  using assms unfolding msg_shape_def by metis+

lemma alloc_segs_total: "\<forall>j. mem j \<Longrightarrow> \<exists>ss. alloc_segs mem k len = Some ss"
proof (induction mem k len rule: alloc_segs.induct)
  case (1 mem k len)
  show ?case
  proof (cases "len = 0")
    case True
    then show ?thesis by (simp add: alloc_segs.simps [of mem k 0])
  next
    case False
    then obtain ss where "alloc_segs mem (k + 1) (len - min len DATALEN_SEG) = Some ss"
      using "1.IH" [OF False refl] "1.prems" by blast
    then show ?thesis using False spec [OF "1.prems", of k] by (subst alloc_segs.simps) (simp add: Let_def)
  qed
qed

lemma alloc_msg_shape: "alloc_msg mem len = Some msg \<Longrightarrow> msg_shape msg len"
  by (auto simp: alloc_msg_def Let_def msg_shape_def split: if_splits dest: alloc_segs_shape)

text \<open>A user buffer that can be read: \<open>n\<close> bytes at \<open>off\<close>.\<close>

definition user_buf :: "bytes \<Rightarrow> nat \<Rightarrow> nat \<Rightarrow> bytes option" where
  "user_buf buf off n = (if off + n \<le> length buf then Some (take n (drop off buf)) else None)"

lemma load_segs_user:
  "\<lbrakk>segs_shape ss (len - alen); src + len \<le> length buf; alen \<le> len\<rbrakk>
   \<Longrightarrow> \<exists>ds. load_segs (user_buf buf) ss src len alen = Some ds
       \<and> segs_shape ds (len - alen) \<and> concat ds = take (len - alen) (drop (src + alen) buf)"
proof (induction ss arbitrary: src len alen)
  case (Cons s ss)
  let ?len = "len - alen" and ?src = "src + alen" and ?alen = "min (len - alen) DATALEN_SEG"
  have "segs_shape ss (?len - ?alen)" "?src + ?len \<le> length buf" "?alen \<le> ?len" "0 < ?len"
    using Cons.prems by auto
  from Cons.IH [OF this(1-3)] obtain ds where
    ds: "load_segs (user_buf buf) ss ?src ?len ?alen = Some ds" "segs_shape ds (?len - ?alen)"
      "concat ds = take (?len - ?alen) (drop (?src + ?alen) buf)"
    by blast
  have u: "user_buf buf ?src ?alen = Some (take ?alen (drop ?src buf))"
    using Cons.prems by (auto simp: user_buf_def)
  have l: "length (take ?alen (drop ?src buf)) = ?alen" using Cons.prems by auto
  have "take ?alen (drop ?src buf) @ take (?len - ?alen) (drop (?src + ?alen) buf) = take ?len (drop ?src buf)"
  proof -
    have "?alen + (?len - ?alen) = ?len" by simp
    then show ?thesis
      using take_add [of ?alen "?len - ?alen" "drop ?src buf"] by (simp only: drop_drop add.commute [of ?alen ?src])
  qed
  then show ?case using ds u l \<open>0 < ?len\<close> by (simp add: Let_def)
qed simp

lemma load_msg_user:
  assumes "\<And>k. mem k" "len \<le> length buf"
  shows "\<exists>msg. load_msg mem (user_buf buf) None len = Inr msg \<and> msg_shape msg len \<and> msg_bytes msg = take len buf"
proof -
  let ?alen = "min len DATALEN_MSG"
  obtain ss where ss: "alloc_segs mem 1 (len - ?alen) = Some ss" using alloc_segs_total [of mem] assms(1) by blast
  obtain ds where ds: "load_segs (user_buf buf) ss 0 len ?alen = Some ds" "segs_shape ds (len - ?alen)"
      "concat ds = take (len - ?alen) (drop ?alen buf)"
    using load_segs_user [OF alloc_segs_shape [OF ss], of 0 buf] assms(2) by auto
  have "take ?alen buf @ take (len - ?alen) (drop ?alen buf) = take len buf"
    by (metis le_add_diff_inverse min.cobounded1 take_add)
  moreover have "user_buf buf 0 ?alen = Some (take ?alen buf)" "length (take ?alen buf) = ?alen"
    using assms(2) by (auto simp: user_buf_def)
  ultimately show ?thesis
    using ss ds assms(1) by (simp add: load_msg_def alloc_msg_def Let_def msg_shape_def msg_bytes_def)
qed

lemma store_segs_all:
  "\<lbrakk>segs_shape ss (tot - alen); len \<le> tot; alen \<le> len\<rbrakk>
   \<Longrightarrow> store_segs (\<lambda>_ _. True) ss dest len alen = Some (take (len - alen) (concat ss))"
proof (induction ss arbitrary: dest len alen tot)
  case (Cons s ss)
  let ?len = "len - alen" and ?alen = "min (len - alen) DATALEN_SEG"
  have s: "length s = min (tot - alen) DATALEN_SEG" "segs_shape ss (tot - alen - length s)" using Cons.prems(1) by auto
  have "?alen \<le> length s" using s(1) Cons.prems(2) by auto
  have tail: "store_segs (\<lambda>_ _. True) ss (dest + alen) ?len ?alen = Some (take (?len - ?alen) (concat ss))"
  proof (cases "?alen = length s")
    case True
    then show ?thesis
      using Cons.IH [of "tot - alen" ?alen ?len] Cons.prems s by (metis diff_le_mono min.cobounded1)
  next
    case False
    then have "?len = ?alen" using s(1) Cons.prems(2) by auto
    have "store_segs (\<lambda>_ _. True) ss d 0 0 = Some []" for d ss
      by (induction ss arbitrary: d) simp_all
    then have z: "store_segs (\<lambda>_ _. True) ss d n n = Some []" for d n ss
      by (cases ss) (simp_all add: Let_def)
    show ?thesis using z [of ss _ ?len] \<open>?len = ?alen\<close> by simp
  qed
  have "take ?alen s @ take (?len - ?alen) (concat ss) = take ?len (s @ concat ss)"
  proof (cases "?alen = length s")
    case True
    then show ?thesis by simp
  next
    case False
    then have "?len = ?alen" "?len \<le> length s" using s(1) Cons.prems(2) by auto
    then show ?thesis by simp
  qed
  then show ?case using tail by (simp add: Let_def)
qed simp

lemma store_msg_all:
  assumes "msg_shape msg tot" "len \<le> tot"
  shows "store_msg (\<lambda>_ _. True) msg len = Some (take len (msg_bytes msg))"
proof -
  let ?alen = "min len DATALEN_MSG"
  have h: "length (m_head msg) = min tot DATALEN_MSG" "segs_shape (m_next msg) (tot - min tot DATALEN_MSG)"
    by (rule msg_shapeD [OF assms(1)])+
  have tail: "store_segs (\<lambda>_ _. True) (m_next msg) 0 len ?alen = Some (take (len - ?alen) (concat (m_next msg)))"
  proof (cases "?alen = length (m_head msg)")
    case True
    then show ?thesis using store_segs_all [of "m_next msg" tot ?alen len] h assms(2) by auto
  next
    case False
    then have "?alen = len" using h assms(2) by auto
    have "store_segs (\<lambda>_ _. True) ss d 0 0 = Some []" for d ss
      by (induction ss arbitrary: d) simp_all
    then have z: "store_segs (\<lambda>_ _. True) ss d n n = Some []" for d n ss
      by (cases ss) (simp_all add: Let_def)
    show ?thesis using z [of _ _ len] \<open>?alen = len\<close> by simp
  qed
  have "take ?alen (m_head msg) @ take (len - ?alen) (concat (m_next msg)) = take len (m_head msg @ concat (m_next msg))"
    using h(1) assms(2) by (cases "len \<le> DATALEN_MSG") auto
  then show ?thesis using tail by (simp add: store_msg_def Let_def msg_bytes_def)
qed

section \<open>Properties\<close>

text \<open>A message read from a user buffer and written back gives the bytes of the buffer, cut
  to the length asked for, however many pages the message takes.\<close>

theorem load_store_roundtrip:
  assumes "\<And>k. mem k" and "\<And>off n. uwrite off n" and "len \<le> length buf" and "sz \<le> len"
  shows "\<exists>msg. load_msg mem (user_buf buf) None len = Inr msg \<and> store_msg uwrite msg sz = Some (take sz buf)"
proof -
  obtain msg where "load_msg mem (user_buf buf) None len = Inr msg" "msg_shape msg len" "msg_bytes msg = take len buf"
    using load_msg_user [of mem len buf] assms(1,3) by blast
  moreover have "uwrite = (\<lambda>_ _. True)" using assms(2) by blast
  ultimately show ?thesis using store_msg_all [of msg len sz] assms(4) by (simp add: min_absorb1)
qed

theorem load_store_roundtrip_witness:
  "\<exists>msg. load_msg (\<lambda>_. True) (user_buf (replicate 9000 7)) None 9000 = Inr msg
     \<and> store_msg (\<lambda>_ _. True) msg 8500 = Some (take 8500 (replicate 9000 7))"
  by (rule load_store_roundtrip) simp_all

lemma load_segs_shape:
  "\<lbrakk>load_segs ucopy ss src len alen = Some ds; segs_shape ss (len - alen); \<And>off n d. ucopy off n = Some d \<Longrightarrow> length d = n\<rbrakk>
   \<Longrightarrow> segs_shape ds (len - alen)"
proof (induction ss arbitrary: src len alen ds)
  case (Cons s ss)
  let ?len = "len - alen" and ?alen = "min (len - alen) DATALEN_SEG"
  obtain d ds' where d: "ucopy (src + alen) ?alen = Some d" "ds = d # ds'"
      "load_segs ucopy ss (src + alen) ?len ?alen = Some ds'"
    using Cons.prems(1) by (auto simp: Let_def split: option.splits)
  have "segs_shape ds' (?len - ?alen)"
    by (rule Cons.IH [OF d(3)]) (use Cons.prems in auto)
  then show ?case using d Cons.prems(2,3) by auto
qed simp

lemma load_segs_None: "load_segs ucopy ss src len alen = None \<Longrightarrow> \<exists>off n. ucopy off n = None"
  by (induction ss arbitrary: src len alen) (auto simp: Let_def split: option.splits)

lemma alloc_segs_None: "alloc_segs mem k len = None \<Longrightarrow> \<exists>j. \<not> mem j"
  using alloc_segs_total [of mem k len] by auto

text \<open>Loading a message fails only with ENOMEM when an allocation fails, EFAULT when the
  buffer cannot be read, or the security module's refusal; a message that is built has
  exactly the pages its length needs.\<close>

theorem load_msg_outcomes:
  assumes "\<And>off n d. ucopy off n = Some d \<Longrightarrow> length d = n"
  shows "case load_msg mem ucopy lsm len of
      Inl e \<Rightarrow> e = ENOMEM \<and> (\<exists>k. \<not> mem k) \<or> e = EFAULT \<and> (\<exists>off n. ucopy off n = None) \<or> lsm = Some e
    | Inr msg \<Rightarrow> msg_shape msg len \<and> length (msg_bytes msg) = len"
proof (cases "load_msg mem ucopy lsm len")
  case (Inl e)
  then show ?thesis
    by (auto simp: load_msg_def alloc_msg_def Let_def dest: load_segs_None alloc_segs_None
        split: option.splits if_splits)
next
  case (Inr msg)
  let ?alen = "min len DATALEN_MSG"
  obtain msg0 d ds where m: "alloc_msg mem len = Some msg0" "ucopy 0 ?alen = Some d"
      "load_segs ucopy (m_next msg0) 0 len ?alen = Some ds" "msg = msg0\<lparr>m_head := d, m_next := ds\<rparr>"
    using Inr by (auto simp: load_msg_def Let_def split: option.splits)
  have "segs_shape (m_next msg0) (len - ?alen)" by (rule msg_shapeD(2) [OF alloc_msg_shape [OF m(1)]])
  then have "msg_shape msg len"
    using load_segs_shape [OF m(3)] assms m(2,4) by (simp add: msg_shape_def)
  then show ?thesis using Inr by (simp add: msg_shape_length)
qed

theorem load_msg_outcomes_witness:
  "case load_msg (\<lambda>k. k < 2) (user_buf []) None 9000 of
     Inl e \<Rightarrow> e = ENOMEM \<and> (\<exists>k. \<not> k < (2::nat)) \<or> e = EFAULT \<and> (\<exists>off n. user_buf [] off n = None) \<or> None = Some e
   | Inr msg \<Rightarrow> msg_shape msg 9000 \<and> length (msg_bytes msg) = 9000"
  by (rule load_msg_outcomes) (auto simp: user_buf_def split: if_splits)

lemma copy_segs_bytes:
  "\<lbrakk>segs_shape ss n; segs_shape ds m; n \<le> m\<rbrakk> \<Longrightarrow> take n (concat (copy_segs ds ss (n + a) a)) = concat ss"
proof (induction ss arbitrary: ds n m a)
  case (Cons s ss)
  then obtain d ds' where ds: "ds = d # ds'" by (cases ds) auto
  have s: "0 < n" "length s = min n DATALEN_SEG" "segs_shape ss (n - length s)" using Cons.prems(1) by auto
  have d: "length d = min m DATALEN_SEG" "segs_shape ds' (m - length d)" using Cons.prems(2) ds by auto
  show ?case
  proof (cases "DATALEN_SEG \<le> n")
    case True
    then have l: "length s = DATALEN_SEG" "length d = DATALEN_SEG" using s d Cons.prems(3) by auto
    have "take (n - DATALEN_SEG) (concat (copy_segs ds' ss (n - DATALEN_SEG + DATALEN_SEG) DATALEN_SEG)) = concat ss"
      by (rule Cons.IH [of _ _ "m - DATALEN_SEG"]) (use s d l Cons.prems(3) in auto)
    then show ?thesis using True l by (simp add: ds Let_def)
  next
    case False
    then have "ss = []" "length s = n" using s by (cases ss; auto)+
    then show ?thesis using False by (simp add: ds Let_def)
  qed
qed simp

text \<open>With checkpoint support, a copy into a message at least as long carries the type, the
  size and exactly the bytes of the source; a shorter target is refused with EINVAL.\<close>

theorem copy_msg_bytes:
  assumes "msg_shape src (m_ts src)" and "msg_shape dst (m_ts dst)"
  shows "if m_ts src \<le> m_ts dst
    then \<exists>m. copy_msg True src dst = Inr m \<and> m_type m = m_type src \<and> m_ts m = m_ts src
           \<and> take (m_ts src) (msg_bytes m) = msg_bytes src
    else copy_msg True src dst = Inl EINVAL"
proof (cases "m_ts src \<le> m_ts dst")
  case True
  let ?a = "min (m_ts src) DATALEN_MSG"
  have h: "length (m_head src) = ?a" "segs_shape (m_next src) (m_ts src - ?a)"
      "length (m_head dst) = min (m_ts dst) DATALEN_MSG" "segs_shape (m_next dst) (m_ts dst - min (m_ts dst) DATALEN_MSG)"
    by (rule msg_shapeD [OF assms(1)] msg_shapeD [OF assms(2)])+
  show ?thesis
  proof (cases "DATALEN_MSG \<le> m_ts src")
    case long: True
    then have "length (m_head src) = DATALEN_MSG" "length (m_head dst) = DATALEN_MSG" "?a = DATALEN_MSG"
      using h True by auto
    moreover have "take (m_ts src - DATALEN_MSG) (concat (copy_segs (m_next dst) (m_next src) (m_ts src - DATALEN_MSG + DATALEN_MSG) DATALEN_MSG))
        = concat (m_next src)"
      by (rule copy_segs_bytes [of _ _ _ "m_ts dst - DATALEN_MSG"]) (use h True long in auto)
    ultimately show ?thesis using True long by (simp add: copy_msg_def Let_def msg_bytes_def)
  next
    case False
    then have "m_next src = []" using h(2) by (cases "m_next src") auto
    then show ?thesis using h False True by (simp add: copy_msg_def Let_def msg_bytes_def)
  qed
qed (simp add: copy_msg_def)

definition sample_msg :: "int \<Rightarrow> nat \<Rightarrow> msg_msg" where
  "sample_msg t n = \<lparr>m_type = t, m_ts = n, m_head = replicate n 1, m_next = []\<rparr>"

lemma sample_msg_shape: "n \<le> 4048 \<Longrightarrow> msg_shape (sample_msg t n) n"
  by (simp add: msg_shape_def sample_msg_def DATALEN_MSG_def)

theorem copy_msg_bytes_witness:
  "\<exists>m. copy_msg True (sample_msg 5 3) (sample_msg 1 8) = Inr m \<and> m_type m = 5 \<and> take 3 (msg_bytes m) = replicate 3 1"
proof -
  have ts: "m_ts (sample_msg t n) = n" "m_type (sample_msg t n) = t" "msg_bytes (sample_msg t n) = replicate n 1" for t n
    by (simp_all add: sample_msg_def msg_bytes_def)
  show ?thesis
    using copy_msg_bytes [of "sample_msg 5 3" "sample_msg 1 8"] sample_msg_shape [of 3 5] sample_msg_shape [of 8 1]
    unfolding ts by auto
qed

end
