(* ===== verification/MsgQueue.thy ===== *)
theory MsgQueue
  imports Compat32 MsgUtil
begin

text \<open>
  System V message queues (\<^verbatim>\<open>src/src/main/ipcns/sysv/ipc_msg.c\<close>): the per-namespace message
  accounting, the queue, and the system calls \<^verbatim>\<open>msgget\<close>, \<^verbatim>\<open>msgsnd\<close>, \<^verbatim>\<open>msgrcv\<close> and \<^verbatim>\<open>msgctl\<close> with
  their 32 bit variants, plus the set-up and release of a namespace's queues.

  A sleeping call ends the operation: \<^verbatim>\<open>do_msgsnd\<close> and \<^verbatim>\<open>do_msgrcv\<close> return \<open>Sleep\<close> and a resume
  operation runs the code after \<^verbatim>\<open>schedule()\<close>. The \<^verbatim>\<open>msg_receiver\<close> of a sleeping task lives on
  its stack: \<open>msg_stacks\<close> maps the task to it, and \<open>q_receivers\<close> lists the tasks. Every operation
  also returns the tasks it wakes, in order. Counters are 64 bit words.
\<close>

unbundle bit_operations_syntax

section \<open>Message accounting\<close>

record msg_acct =
  acct_ns :: nat
  acct_bytes :: "64 word"
  acct_hdrs :: "64 word"

definition msg_acct_get :: "msg_acct list \<Rightarrow> nat \<Rightarrow> msg_acct option" where
  "msg_acct_get l ns = find (\<lambda>a. acct_ns a = ns) l"

text \<open>\<open>mem\<close>: the allocation succeeds. The null namespace is 0.\<close>

definition msg_acct_init :: "bool \<Rightarrow> nat \<Rightarrow> msg_acct list \<Rightarrow> msg_acct list \<times> errno option" where
  "msg_acct_init mem ns l =
     (if ns = 0 then (l, Some EINVAL)
      else if \<not> mem then (l, Some ENOMEM)
      else if msg_acct_get l ns \<noteq> None then (l, None)
      else (\<lparr>acct_ns = ns, acct_bytes = 0, acct_hdrs = 0\<rparr> # l, None))"

definition msg_acct_exit :: "nat \<Rightarrow> msg_acct list \<Rightarrow> msg_acct list" where
  "msg_acct_exit ns l = (case msg_acct_get l ns of None \<Rightarrow> l | Some a \<Rightarrow> remove1 a l)"

fun msg_acct_add :: "nat \<Rightarrow> 64 word \<Rightarrow> 64 word \<Rightarrow> msg_acct list \<Rightarrow> msg_acct list" where
  "msg_acct_add ns bytes hdrs [] = []"
| "msg_acct_add ns bytes hdrs (a # l) =
     (if acct_ns a \<noteq> ns then a # msg_acct_add ns bytes hdrs l
      else a\<lparr>acct_bytes := acct_bytes a + bytes, acct_hdrs := acct_hdrs a + hdrs\<rparr> # l)"

definition msg_acct_bytes :: "nat \<Rightarrow> 64 word \<Rightarrow> msg_acct list \<Rightarrow> msg_acct list" where
  "msg_acct_bytes ns bytes = msg_acct_add ns bytes 0"

definition msg_acct_hdrs :: "nat \<Rightarrow> 64 word \<Rightarrow> msg_acct list \<Rightarrow> msg_acct list" where
  "msg_acct_hdrs ns hdrs = msg_acct_add ns 0 hdrs"

definition msg_acct_read :: "nat \<Rightarrow> bool \<Rightarrow> msg_acct list \<Rightarrow> int" where
  "msg_acct_read ns bytes l =
     (case msg_acct_get l ns of
        None \<Rightarrow> 0 | Some a \<Rightarrow> sint (if bytes then acct_bytes a else acct_hdrs a))"

section \<open>Queues, waiters and the namespace\<close>

record msg_queue = kern_ipc_perm +
  q_stime :: int
  q_rtime :: int
  q_ctime :: int
  q_cbytes :: "64 word"
  q_qnum :: "64 word"
  q_qbytes :: "64 word"
  q_lspid :: "nat option"
  q_lrpid :: "nat option"
  q_messages :: "msg_msg list"
  q_receivers :: "nat list"
  q_senders :: "(nat \<times> 64 word) list"  \<comment> \<open>\<^verbatim>\<open>struct msg_sender\<close>: task and size\<close>

datatype search_mode = SEARCH_ANY | SEARCH_EQUAL | SEARCH_NOTEQUAL | SEARCH_LESSEQUAL | SEARCH_NUMBER

record msg_receiver =
  r_mode :: search_mode
  r_msgtype :: int
  r_maxsize :: int
  r_msg :: "msg_msg result"

record msg_ns =
  ns_addr :: nat
  msg_ids :: "msg_queue ipc_ids"
  msg_ctlmax :: nat
  msg_ctlmnb :: nat
  msg_ctlmni :: nat
  msg_acct_list :: "msg_acct list"
  msg_stacks :: "nat \<rightharpoonup> msg_receiver"

text \<open>The security hooks of message queues, \<open>None\<close> for consent.\<close>

record msg_lsm =
  lsm_alloc :: "errno option"
  lsm_ipc :: lsm_hook
  lsm_associate :: lsm_hook
  lsm_msgctl :: "kern_ipc_perm option \<Rightarrow> int \<Rightarrow> errno option"
  lsm_msgsnd :: "kern_ipc_perm \<Rightarrow> msg_msg \<Rightarrow> int \<Rightarrow> errno option"
  lsm_msgrcv :: "kern_ipc_perm \<Rightarrow> msg_msg \<Rightarrow> nat \<Rightarrow> int \<Rightarrow> search_mode \<Rightarrow> errno option"

text \<open>What a call gets from the kernel: the caller, the hooks, the id maps and the containers.\<close>

record msg_env =
  me_task :: task_env
  me_lsm :: msg_lsm
  me_maps :: user_maps
  me_alloc :: idr_alloc
  me_kht :: "errno option"
  me_new :: kmalloc

definition MSG_NOERROR :: int where "MSG_NOERROR = 4096"
definition MSG_EXCEPT :: int where "MSG_EXCEPT = 8192"
definition MSG_COPY :: int where "MSG_COPY = 16384"
definition MSG_STAT :: int where "MSG_STAT = 11"
definition MSG_INFO :: int where "MSG_INFO = 12"
definition MSG_STAT_ANY :: int where "MSG_STAT_ANY = 13"
definition MSGMAX :: nat where "MSGMAX = 8192"
definition MSGMNB :: nat where "MSGMNB = 16384"
definition MSGMNI :: nat where "MSGMNI = 32000"
definition LONG_MIN :: int where "LONG_MIN = - (2 ^ 63)"
definition LONG_MAX :: int where "LONG_MAX = 2 ^ 63 - 1"

definition msq_obtain_object :: "msg_ns \<Rightarrow> int \<Rightarrow> ptr result" where
  "msq_obtain_object s i = ipc_obtain_object_idr (msg_ids s) i"

definition msq_obtain_object_check :: "msg_ns \<Rightarrow> int \<Rightarrow> ptr result" where
  "msq_obtain_object_check s i = ipc_obtain_object_check (msg_ids s) i"

text \<open>Writing through a queue pointer, and the accounting of the namespace.\<close>

definition upd_msq :: "ptr \<Rightarrow> (msg_queue \<Rightarrow> msg_queue) \<Rightarrow> msg_ns \<Rightarrow> msg_ns" where
  "upd_msq p f = msg_ids_update (upd_obj p f)"

definition ns_acct_bytes :: "64 word \<Rightarrow> msg_ns \<Rightarrow> msg_ns" where
  "ns_acct_bytes b s = msg_acct_list_update (msg_acct_bytes (ns_addr s) b) s"

definition ns_acct_hdrs :: "64 word \<Rightarrow> msg_ns \<Rightarrow> msg_ns" where
  "ns_acct_hdrs h s = msg_acct_list_update (msg_acct_hdrs (ns_addr s) h) s"

definition msg_rmid :: "msg_ns \<Rightarrow> ptr \<Rightarrow> msg_ns" where
  "msg_rmid s p = msg_ids_update (\<lambda>ids. ipc_rmid ids p) s"

section \<open>msgget\<close>

definition fresh_queue :: "msg_env \<Rightarrow> nat \<Rightarrow> ipc_params \<Rightarrow> msg_queue" where
  "fresh_queue e mnb params =
     \<lparr>perm_deleted = False, perm_id = 0, perm_key = par_key params, perm_uid = 0, perm_gid = 0,
      perm_cuid = 0, perm_cgid = 0, perm_mode = par_flg params AND S_IRWXUGO, perm_seq = 0,
      perm_refcount = 0,
      q_stime = 0, q_rtime = 0, q_ctime = clock_seconds (me_task e), q_cbytes = 0, q_qnum = 0,
      q_qbytes = of_nat mnb, q_lspid = None, q_lrpid = None,
      q_messages = [], q_receivers = [], q_senders = []\<rparr>"

definition newque :: "msg_env \<Rightarrow> ipc_params \<Rightarrow> msg_ns \<Rightarrow> msg_ns \<times> int result" where
  "newque e params s =
     (case me_new e (\<lambda>p. objs (msg_ids s) p \<noteq> None) of
        None \<Rightarrow> (s, Inl ENOMEM)
      | Some p \<Rightarrow>
          (case lsm_alloc (me_lsm e) of
             Some err \<Rightarrow> (s, Inl err)
           | None \<Rightarrow>
               (let ids = objs_update (\<lambda>h. h(p \<mapsto> fresh_queue e (msg_ctlmnb s) params)) (msg_ids s)
                in case ipc_addid (me_task e) (me_alloc e) (me_kht e) ids p (int (msg_ctlmni s)) of
                     (ids, Inl err) \<Rightarrow> (s\<lparr>msg_ids := ipc_rcu_putref ids p\<rparr>, Inl err)
                   | (ids, Inr idx) \<Rightarrow>
                       (s\<lparr>msg_ids := ids\<rparr>,
                        Inr (case objs ids p of Some q \<Rightarrow> perm_id q | None \<Rightarrow> 0)))))"

definition ksys_msgget :: "msg_env \<Rightarrow> int \<Rightarrow> int \<Rightarrow> msg_ns \<Rightarrow> msg_ns \<times> int result" where
  "ksys_msgget e k msgflg s =
     ipcget (me_task e) (lsm_ipc (me_lsm e)) msg_ids
       \<lparr>getnew = newque e, associate = lsm_associate (me_lsm e), more_checks = None\<rparr>
       \<lparr>par_key = k, par_flg = msgflg, par_nsems = 0\<rparr> s"

section \<open>Senders and receivers\<close>

definition msg_fits_inqueue :: "msg_queue \<Rightarrow> 64 word \<Rightarrow> bool" where
  "msg_fits_inqueue q msgsz \<longleftrightarrow> msgsz + q_cbytes q \<le> q_qbytes q \<and> 1 + q_qnum q \<le> q_qbytes q"

definition ss_add :: "nat \<Rightarrow> 64 word \<Rightarrow> msg_queue \<Rightarrow> msg_queue" where
  "ss_add cur msgsz = q_senders_update (\<lambda>l. l @ [(cur, msgsz)])"

definition ss_del :: "nat \<Rightarrow> msg_queue \<Rightarrow> msg_queue" where
  "ss_del cur = q_senders_update (filter (\<lambda>m. fst m \<noteq> cur))"

text \<open>
  The wake-up walk. \<open>front\<close> are the list elements behind the cursor, \<open>todo\<close> starts with the cursor;
  a sender that does not fit moves to the tail, and the walk stops at the first one it
  moved. When the cursor is the last element its successor, read before it moves, is the
  list head. Fuel that runs out is \<open>None\<close>.
\<close>

fun ss_walk ::
    "nat \<Rightarrow> msg_queue \<Rightarrow> nat option \<Rightarrow> (nat \<times> 64 word) list \<Rightarrow> (nat \<times> 64 word) list \<Rightarrow> nat list
       \<Rightarrow> ((nat \<times> 64 word) list \<times> nat list) option" where
  "ss_walk fuel q stop_tsk front [] wake = Some (front, wake)"
| "ss_walk 0 q stop_tsk front (m # todo) wake = None"
| "ss_walk (Suc fuel) q stop_tsk front (m # todo) wake =
     (if stop_tsk = Some (fst m) then Some (front @ m # todo, wake)
      else if \<not> msg_fits_inqueue q (snd m) then
        (let stop_tsk = (if stop_tsk = None then Some (fst m) else stop_tsk)
         in if todo = [] then Some (front @ [m], wake)
            else ss_walk fuel q stop_tsk front (todo @ [m]) wake)
      else ss_walk fuel q stop_tsk (front @ [m]) todo (wake @ [fst m]))"

text \<open>With \<open>kill\<close> every sender is unlinked and woken; the walk takes at most one step more than
  there are senders (\<open>ss_walk_enough\<close> below).\<close>

definition ss_wakeup :: "msg_queue \<Rightarrow> bool \<Rightarrow> msg_queue \<times> nat list" where
  "ss_wakeup q kill =
     (if kill then (q\<lparr>q_senders := []\<rparr>, map fst (q_senders q))
      else
        (case ss_walk (Suc (length (q_senders q))) q None [] (q_senders q) [] of
           Some (l, wake) \<Rightarrow> (q\<lparr>q_senders := l\<rparr>, wake)
         | None \<Rightarrow> (q, [])))"

fun expunge_loop :: "errno \<Rightarrow> nat list \<Rightarrow> (nat \<rightharpoonup> msg_receiver) \<Rightarrow> nat list \<Rightarrow> (nat \<rightharpoonup> msg_receiver) \<times> nat list" where
  "expunge_loop res [] st wake = (st, wake)"
| "expunge_loop res (t # ts) st wake =
     expunge_loop res ts (st(t := map_option (\<lambda>r. r\<lparr>r_msg := Inl res\<rparr>) (st t))) (wake @ [t])"

definition expunge_all :: "msg_queue \<Rightarrow> errno \<Rightarrow> (nat \<rightharpoonup> msg_receiver) \<Rightarrow> (nat \<rightharpoonup> msg_receiver) \<times> nat list" where
  "expunge_all q res st = expunge_loop res (q_receivers q) st []"

fun acct_drop_msgs :: "nat \<Rightarrow> msg_msg list \<Rightarrow> msg_acct list \<Rightarrow> msg_acct list" where
  "acct_drop_msgs ns [] l = l"
| "acct_drop_msgs ns (m # ms) l = acct_drop_msgs ns ms (msg_acct_hdrs ns (-1) l)"

definition freeque :: "msg_ns \<Rightarrow> ptr \<Rightarrow> msg_ns \<times> nat list" where
  "freeque s p =
     (case objs (msg_ids s) p of
        None \<Rightarrow> (s, [])
      | Some q \<Rightarrow>
          (let (st, wake1) = expunge_all q EIDRM (msg_stacks s);
               (q', wake2) = ss_wakeup q True;
               s = upd_msq p (\<lambda>_. q') (s\<lparr>msg_stacks := st\<rparr>);
               s = msg_rmid s p;
               s = msg_acct_list_update (acct_drop_msgs (ns_addr s) (q_messages q)) s;
               s = ns_acct_bytes (- q_cbytes q) s;
               s = upd_msq p (\<lambda>q. q\<lparr>q_messages := [], q_lspid := None, q_lrpid := None\<rparr>) s
           in (msg_ids_update (\<lambda>ids. ipc_rcu_putref ids p) s, wake1 @ wake2)))"

section \<open>msgctl\<close>

record msqid64_ds =
  ds_perm :: ipc64_perm
  ds_stime :: int
  ds_rtime :: int
  ds_ctime :: int
  ds_cbytes :: "64 word"
  ds_qnum :: "64 word"
  ds_qbytes :: "64 word"
  ds_lspid :: int
  ds_lrpid :: int

text \<open>The old structure of native callers.\<close>

record msqid_ds =
  old_perm :: ipc64_perm
  old_stime :: int
  old_rtime :: int
  old_ctime :: int
  old_lcbytes :: "64 word"
  old_lqbytes :: "64 word"
  old_cbytes :: "16 word"
  old_qnum :: "16 word"
  old_qbytes :: "16 word"
  old_lspid :: "16 word"
  old_lrpid :: "16 word"

text \<open>The structures of 32 bit callers.\<close>

record compat_msqid64_ds =
  c64_perm :: ipc64_perm
  c64_stime :: "32 word"
  c64_stime_high :: "32 word"
  c64_rtime :: "32 word"
  c64_rtime_high :: "32 word"
  c64_ctime :: "32 word"
  c64_ctime_high :: "32 word"
  c64_cbytes :: "32 word"
  c64_qnum :: "32 word"
  c64_qbytes :: "32 word"
  c64_lspid :: "32 word"
  c64_lrpid :: "32 word"

record compat_msqid_ds =
  c_perm :: ipc64_perm
  c_stime :: "32 word"
  c_rtime :: "32 word"
  c_ctime :: "32 word"
  c_cbytes :: "16 word"
  c_qnum :: "16 word"
  c_qbytes :: "16 word"
  c_lspid :: "16 word"
  c_lrpid :: "16 word"

record msginfo =
  mi_pool :: int
  mi_map :: int
  mi_max :: int
  mi_mnb :: int
  mi_mni :: int
  mi_ssz :: int
  mi_tql :: int
  mi_seg :: int

text \<open>What a call writes to the user buffer.\<close>

datatype ctl_out =
    NoOut | OutInfo msginfo | OutDs64 msqid64_ds | OutOld msqid_ds
  | OutCompat64 compat_msqid64_ds | OutCompat compat_msqid_ds

definition USHRT_MAX :: "64 word" where "USHRT_MAX = 65535"

definition zero_perm :: ipc64_perm where
  "zero_perm = \<lparr>out_key = 0, out_uid = 0, out_gid = 0, out_cuid = 0, out_cgid = 0, out_mode = 0, out_seq = 0\<rparr>"

definition zero_ds :: msqid64_ds where
  "zero_ds = \<lparr>ds_perm = zero_perm, ds_stime = 0, ds_rtime = 0, ds_ctime = 0, ds_cbytes = 0,
     ds_qnum = 0, ds_qbytes = 0, ds_lspid = 0, ds_lrpid = 0\<rparr>"

text \<open>\<open>None\<close>: the call returns a nonzero value, so the copy failed.\<close>

definition copy_msqid_to_user :: "user_maps \<Rightarrow> bool \<Rightarrow> msqid64_ds \<Rightarrow> int \<Rightarrow> ctl_out option" where
  "copy_msqid_to_user um ok i version =
     (if version = IPC_64 then (if ok then Some (OutDs64 i) else None)
      else if version = IPC_OLD then
        (let out = \<lparr>old_perm = ipc64_perm_to_ipc_perm (set_uid um) (set_gid um) (ds_perm i),
                    old_stime = ds_stime i, old_rtime = ds_rtime i, old_ctime = ds_ctime i,
                    old_lcbytes = ds_cbytes i, old_lqbytes = ds_qbytes i,
                    old_cbytes = (if ds_cbytes i > USHRT_MAX then ucast USHRT_MAX else ucast (ds_cbytes i)),
                    old_qnum = (if ds_qnum i > USHRT_MAX then ucast USHRT_MAX else ucast (ds_qnum i)),
                    old_qbytes = (if ds_qbytes i > USHRT_MAX then ucast USHRT_MAX else ucast (ds_qbytes i)),
                    old_lspid = of_int (ds_lspid i), old_lrpid = of_int (ds_lrpid i)\<rparr>
         in if ok then Some (OutOld out) else None)
      else None)"

text \<open>\<open>v64\<close> and \<open>old\<close> are the user's structure read as the one or the other layout.\<close>

definition copy_msqid_from_user ::
    "bool \<Rightarrow> msqid64_ds \<Rightarrow> msqid_ds \<Rightarrow> msqid64_ds \<Rightarrow> int \<Rightarrow> msqid64_ds result" where
  "copy_msqid_from_user ok v64 old out version =
     (if version = IPC_64 then (if ok then Inr v64 else Inl EFAULT)
      else if version = IPC_OLD then
        (if \<not> ok then Inl EFAULT
         else Inr (out\<lparr>ds_perm := (ds_perm out)\<lparr>out_uid := out_uid (old_perm old),
                                   out_gid := out_gid (old_perm old), out_mode := out_mode (old_perm old)\<rparr>,
                       ds_qbytes := (if old_qbytes old = 0 then old_lqbytes old else ucast (old_qbytes old))\<rparr>))
      else Inl EINVAL)"

definition msgctl_down ::
    "msg_env \<Rightarrow> msg_ns \<Rightarrow> int \<Rightarrow> int \<Rightarrow> ipc64_perm \<Rightarrow> int \<Rightarrow> msg_ns \<times> nat list \<times> int result" where
  "msgctl_down e s msqid cmd perm msg_qbytes =
     (case ipcctl_obtain_check (me_task e) (msg_ids s) msqid of
        Inl err \<Rightarrow> (s, [], Inl err)
      | Inr p \<Rightarrow>
          (case objs (msg_ids s) p of
             None \<Rightarrow> (s, [], Inl EINVAL)
           | Some q \<Rightarrow>
               (case lsm_msgctl (me_lsm e) (Some (kern_ipc_perm.truncate q)) cmd of
                  Some err \<Rightarrow> (s, [], Inl err)
                | None \<Rightarrow>
                    if cmd = IPC_RMID then (case freeque s p of (s, wake) \<Rightarrow> (s, wake, Inr 0))
                    else if cmd = IPC_SET then
                      if uint (of_int msg_qbytes :: 32 word) > int (msg_ctlmnb s)
                         \<and> \<not> cur_ns_capable (me_task e) CAP_SYS_RESOURCE
                      then (s, [], Inl EPERM)
                      else
                        (case ipc_update_perm (make_kuid (me_maps e)) (make_kgid (me_maps e)) perm q of
                           Inl err \<Rightarrow> (s, [], Inl err)
                         | Inr q \<Rightarrow>
                             (let q = q\<lparr>q_qbytes := of_int msg_qbytes, q_ctime := clock_seconds (me_task e)\<rparr>;
                                  (st, wake1) = expunge_all q EAGAIN (msg_stacks s);
                                  (q, wake2) = ss_wakeup q False
                              in (upd_msq p (\<lambda>_. q) (s\<lparr>msg_stacks := st\<rparr>), wake1 @ wake2, Inr 0)))
                    else (s, [], Inl EINVAL))))"

definition msgctl_info :: "msg_env \<Rightarrow> msg_ns \<Rightarrow> int \<Rightarrow> msginfo \<times> int result" where
  "msgctl_info e s cmd =
     (let zero = \<lparr>mi_pool = 0, mi_map = 0, mi_max = 0, mi_mnb = 0, mi_mni = 0, mi_ssz = 0, mi_tql = 0, mi_seg = 0\<rparr>
      in case lsm_msgctl (me_lsm e) None cmd of
           Some err \<Rightarrow> (zero, Inl err)
         | None \<Rightarrow>
             (let i = zero\<lparr>mi_mni := int (msg_ctlmni s), mi_max := int (msg_ctlmax s),
                           mi_mnb := int (msg_ctlmnb s), mi_ssz := 16, mi_seg := 65535\<rparr>;
                  i = (if cmd = MSG_INFO then i\<lparr>mi_pool := in_use (msg_ids s)\<rparr> else i);
                  mx = ipc_get_maxidx (msg_ids s);
                  i = (if cmd = MSG_INFO
                       then i\<lparr>mi_map := min (c_int (msg_acct_read (ns_addr s) False (msg_acct_list s))) INT_MAX,
                              mi_tql := min (c_int (msg_acct_read (ns_addr s) True (msg_acct_list s))) INT_MAX\<rparr>
                       else i\<lparr>mi_map := int MSGMNB, mi_pool := int (MSGMNI * MSGMNB div 1024), mi_tql := int MSGMNB\<rparr>)
              in (i, Inr (if mx < 0 then 0 else mx))))"

definition msgctl_stat :: "msg_env \<Rightarrow> msg_ns \<Rightarrow> int \<Rightarrow> int \<Rightarrow> msqid64_ds \<times> int result" where
  "msgctl_stat e s msqid cmd =
     (case (if cmd = MSG_STAT \<or> cmd = MSG_STAT_ANY then msq_obtain_object s msqid
            else msq_obtain_object_check s msqid) of
        Inl err \<Rightarrow> (zero_ds, Inl err)
      | Inr p \<Rightarrow>
          (case objs (msg_ids s) p of
             None \<Rightarrow> (zero_ds, Inl EINVAL)
           | Some q \<Rightarrow>
               if cmd \<noteq> MSG_STAT_ANY \<and> ipcperms (me_task e) (lsm_ipc (me_lsm e)) q S_IRUGO \<noteq> None
               then (zero_ds, Inl EACCES)
               else
                 (case lsm_msgctl (me_lsm e) (Some (kern_ipc_perm.truncate q)) cmd of
                    Some err \<Rightarrow> (zero_ds, Inl err)
                  | None \<Rightarrow>
                      if \<not> ipc_valid_object (msg_ids s) p then (zero_ds, Inl EIDRM)
                      else
                        (\<lparr>ds_perm = kernel_to_ipc64_perm (from_kuid (me_maps e)) (from_kgid (me_maps e)) q,
                          ds_stime = q_stime q, ds_rtime = q_rtime q, ds_ctime = q_ctime q,
                          ds_cbytes = q_cbytes q, ds_qnum = q_qnum q, ds_qbytes = q_qbytes q,
                          ds_lspid = pid_vnr (me_maps e) (q_lspid q),
                          ds_lrpid = pid_vnr (me_maps e) (q_lrpid q)\<rparr>,
                         Inr (if cmd = IPC_STAT then 0 else perm_id q)))))"

text \<open>
  The user's buffer is given as the structures it can be read as; \<open>ok\<close> says whether the
  copies from and to it succeed.
\<close>

definition ksys_msgctl ::
    "msg_env \<Rightarrow> msg_ns \<Rightarrow> int \<Rightarrow> int \<Rightarrow> bool \<Rightarrow> msqid64_ds \<Rightarrow> msqid_ds \<Rightarrow> int
       \<Rightarrow> msg_ns \<times> nat list \<times> ctl_out \<times> int result" where
  "ksys_msgctl e s msqid cmd ok v64 old version =
     (if msqid < 0 \<or> cmd < 0 then (s, [], NoOut, Inl EINVAL)
      else if cmd = IPC_INFO \<or> cmd = MSG_INFO then
        (case msgctl_info e s cmd of
           (i, Inl err) \<Rightarrow> (s, [], NoOut, Inl err)
         | (i, Inr v) \<Rightarrow> if ok then (s, [], OutInfo i, Inr v) else (s, [], NoOut, Inl EFAULT))
      else if cmd = MSG_STAT \<or> cmd = MSG_STAT_ANY \<or> cmd = IPC_STAT then
        (case msgctl_stat e s msqid cmd of
           (ds, Inl err) \<Rightarrow> (s, [], NoOut, Inl err)
         | (ds, Inr v) \<Rightarrow>
             (case copy_msqid_to_user (me_maps e) ok ds version of
                None \<Rightarrow> (s, [], NoOut, Inl EFAULT) | Some out \<Rightarrow> (s, [], out, Inr v)))
      else if cmd = IPC_SET then
        (case copy_msqid_from_user ok v64 old zero_ds version of
           Inl err \<Rightarrow> (s, [], NoOut, Inl EFAULT)
         | Inr ds \<Rightarrow>
             (case msgctl_down e s msqid cmd (ds_perm ds) (c_int (uint (ds_qbytes ds))) of
                (s, wake, r) \<Rightarrow> (s, wake, NoOut, r)))
      else if cmd = IPC_RMID then
        (case msgctl_down e s msqid cmd zero_perm 0 of (s, wake, r) \<Rightarrow> (s, wake, NoOut, r))
      else (s, [], NoOut, Inl EINVAL))"

text \<open>The variant that reads the version from the command.\<close>

definition ksys_old_msgctl ::
    "msg_env \<Rightarrow> msg_ns \<Rightarrow> int \<Rightarrow> int \<Rightarrow> bool \<Rightarrow> msqid64_ds \<Rightarrow> msqid_ds \<Rightarrow> msg_ns \<times> nat list \<times> ctl_out \<times> int result" where
  "ksys_old_msgctl e s msqid cmd ok v64 old =
     (case ipc_parse_version cmd of (cmd, version) \<Rightarrow> ksys_msgctl e s msqid cmd ok v64 old version)"

definition copy_compat_msqid_from_user ::
    "bool \<Rightarrow> compat_msqid64_ds \<Rightarrow> compat_msqid_ds \<Rightarrow> int \<Rightarrow> msqid64_ds result" where
  "copy_compat_msqid_from_user ok p64 p version =
     (if version = IPC_64 then
        (case get_compat_ipc64_perm ok (ds_perm zero_ds) (c64_perm p64) of
           Inl err \<Rightarrow> Inl EFAULT
         | Inr pm \<Rightarrow> if \<not> ok then Inl EFAULT
                     else Inr (zero_ds\<lparr>ds_perm := pm, ds_qbytes := ucast (c64_qbytes p64)\<rparr>))
      else
        (case get_compat_ipc_perm ok (ds_perm zero_ds) (c_perm p) of
           Inl err \<Rightarrow> Inl EFAULT
         | Inr pm \<Rightarrow> if \<not> ok then Inl EFAULT
                     else Inr (zero_ds\<lparr>ds_perm := pm, ds_qbytes := ucast (c_qbytes p)\<rparr>)))"

definition copy_compat_msqid_to_user :: "user_maps \<Rightarrow> bool \<Rightarrow> msqid64_ds \<Rightarrow> int \<Rightarrow> ctl_out option" where
  "copy_compat_msqid_to_user um ok i version =
     (if version = IPC_64 then
        (let v = \<lparr>c64_perm = to_compat_ipc64_perm (ds_perm i),
                  c64_stime = lower_32_bits (ds_stime i), c64_stime_high = upper_32_bits (ds_stime i),
                  c64_rtime = lower_32_bits (ds_rtime i), c64_rtime_high = upper_32_bits (ds_rtime i),
                  c64_ctime = lower_32_bits (ds_ctime i), c64_ctime_high = upper_32_bits (ds_ctime i),
                  c64_cbytes = ucast (ds_cbytes i), c64_qnum = ucast (ds_qnum i), c64_qbytes = ucast (ds_qbytes i),
                  c64_lspid = of_int (ds_lspid i), c64_lrpid = of_int (ds_lrpid i)\<rparr>
         in if ok then Some (OutCompat64 v) else None)
      else
        (let v = \<lparr>c_perm = to_compat_ipc_perm um (ds_perm i),
                  c_stime = of_int (ds_stime i), c_rtime = of_int (ds_rtime i), c_ctime = of_int (ds_ctime i),
                  c_cbytes = ucast (ds_cbytes i), c_qnum = ucast (ds_qnum i), c_qbytes = ucast (ds_qbytes i),
                  c_lspid = of_int (ds_lspid i), c_lrpid = of_int (ds_lrpid i)\<rparr>
         in if ok then Some (OutCompat v) else None))"

definition compat_ksys_msgctl ::
    "msg_env \<Rightarrow> msg_ns \<Rightarrow> int \<Rightarrow> int \<Rightarrow> bool \<Rightarrow> compat_msqid64_ds \<Rightarrow> compat_msqid_ds \<Rightarrow> int
       \<Rightarrow> msg_ns \<times> nat list \<times> ctl_out \<times> int result" where
  "compat_ksys_msgctl e s msqid cmd ok p64 p version =
     (if msqid < 0 \<or> cmd < 0 then (s, [], NoOut, Inl EINVAL)
      else
        (let sw = cmd AND NOT IPC_64
         in if sw = IPC_INFO \<or> sw = MSG_INFO then
              (case msgctl_info e s cmd of
                 (i, Inl err) \<Rightarrow> (s, [], NoOut, Inl err)
               | (i, Inr v) \<Rightarrow> if ok then (s, [], OutInfo i, Inr v) else (s, [], NoOut, Inl EFAULT))
            else if sw = IPC_STAT \<or> sw = MSG_STAT \<or> sw = MSG_STAT_ANY then
              (case msgctl_stat e s msqid cmd of
                 (ds, Inl err) \<Rightarrow> (s, [], NoOut, Inl err)
               | (ds, Inr v) \<Rightarrow>
                   (case copy_compat_msqid_to_user (me_maps e) ok ds version of
                      None \<Rightarrow> (s, [], NoOut, Inl EFAULT) | Some out \<Rightarrow> (s, [], out, Inr v)))
            else if sw = IPC_SET then
              (case copy_compat_msqid_from_user ok p64 p version of
                 Inl err \<Rightarrow> (s, [], NoOut, Inl EFAULT)
               | Inr ds \<Rightarrow>
                   (case msgctl_down e s msqid cmd (ds_perm ds) (c_int (uint (ds_qbytes ds))) of
                      (s, wake, r) \<Rightarrow> (s, wake, NoOut, r)))
            else if sw = IPC_RMID then
              (case msgctl_down e s msqid cmd zero_perm 0 of (s, wake, r) \<Rightarrow> (s, wake, NoOut, r))
            else (s, [], NoOut, Inl EINVAL)))"

definition compat_ksys_old_msgctl ::
    "msg_env \<Rightarrow> msg_ns \<Rightarrow> int \<Rightarrow> int \<Rightarrow> bool \<Rightarrow> compat_msqid64_ds \<Rightarrow> compat_msqid_ds
       \<Rightarrow> msg_ns \<times> nat list \<times> ctl_out \<times> int result" where
  "compat_ksys_old_msgctl e s msqid cmd ok p64 p =
     (case compat_ipc_parse_version cmd of (cmd, version) \<Rightarrow> compat_ksys_msgctl e s msqid cmd ok p64 p version)"

section \<open>msgsnd\<close>

definition testmsg :: "msg_msg \<Rightarrow> int \<Rightarrow> search_mode \<Rightarrow> bool" where
  "testmsg m type mode =
     (case mode of
        SEARCH_ANY \<Rightarrow> True
      | SEARCH_NUMBER \<Rightarrow> True
      | SEARCH_LESSEQUAL \<Rightarrow> m_type m \<le> type
      | SEARCH_EQUAL \<Rightarrow> m_type m = type
      | SEARCH_NOTEQUAL \<Rightarrow> m_type m \<noteq> type)"

text \<open>The walk over the waiting receivers; the last component is the return value.\<close>

fun pipelined_loop ::
    "msg_env \<Rightarrow> msg_msg \<Rightarrow> nat list \<Rightarrow> msg_queue \<Rightarrow> (nat \<rightharpoonup> msg_receiver) \<Rightarrow> nat list
       \<Rightarrow> msg_queue \<times> (nat \<rightharpoonup> msg_receiver) \<times> nat list \<times> bool" where
  "pipelined_loop e m [] q st wake = (q, st, wake, False)"
| "pipelined_loop e m (t # ts) q st wake =
     (case st t of
        None \<Rightarrow> pipelined_loop e m ts q st wake
      | Some r \<Rightarrow>
          if testmsg m (r_msgtype r) (r_mode r)
             \<and> lsm_msgrcv (me_lsm e) (kern_ipc_perm.truncate q) m t (r_msgtype r) (r_mode r) = None
          then
            (let q = q_receivers_update (remove1 t) q
             in if r_maxsize r < int (m_ts m)
                then pipelined_loop e m ts q (st(t \<mapsto> r\<lparr>r_msg := Inl E2BIG\<rparr>)) (wake @ [t])
                else (q\<lparr>q_lrpid := Some t, q_rtime := clock_seconds (me_task e)\<rparr>,
                      st(t \<mapsto> r\<lparr>r_msg := Inr m\<rparr>), wake @ [t], True))
          else pipelined_loop e m ts q st wake)"

definition pipelined_send ::
    "msg_env \<Rightarrow> msg_queue \<Rightarrow> msg_msg \<Rightarrow> (nat \<rightharpoonup> msg_receiver)
       \<Rightarrow> msg_queue \<times> (nat \<rightharpoonup> msg_receiver) \<times> nat list \<times> bool" where
  "pipelined_send e q m st = pipelined_loop e m (q_receivers q) q st []"

datatype 'v step = Return 'v | Sleep ptr

text \<open>The end of a send: hand over to a receiver, or queue.\<close>

definition msgsnd_commit :: "msg_env \<Rightarrow> msg_ns \<Rightarrow> ptr \<Rightarrow> msg_queue \<Rightarrow> msg_msg \<Rightarrow> nat \<Rightarrow> msg_ns \<times> nat list" where
  "msgsnd_commit e s p q m msgsz =
     (let q = q\<lparr>q_lspid := Some (cur_tgid (me_task e)), q_stime := clock_seconds (me_task e)\<rparr>
      in case pipelined_send e q m (msg_stacks s) of
           (q, st, wake, True) \<Rightarrow> (upd_msq p (\<lambda>_. q) (s\<lparr>msg_stacks := st\<rparr>), wake)
         | (q, st, wake, False) \<Rightarrow>
             (let q = q\<lparr>q_messages := q_messages q @ [m], q_cbytes := q_cbytes q + of_nat msgsz,
                        q_qnum := q_qnum q + 1\<rparr>;
                  s = upd_msq p (\<lambda>_. q) (s\<lparr>msg_stacks := st\<rparr>)
              in (ns_acct_hdrs 1 (ns_acct_bytes (of_nat msgsz) s), wake)))"

text \<open>One round of the loop of \<^verbatim>\<open>do_msgsnd\<close>, up to the sleep.\<close>

definition msgsnd_round ::
    "msg_env \<Rightarrow> msg_ns \<Rightarrow> ptr \<Rightarrow> msg_msg \<Rightarrow> nat \<Rightarrow> int \<Rightarrow> msg_ns \<times> nat list \<times> (errno option) step" where
  "msgsnd_round e s p m msgsz msgflg =
     (case objs (msg_ids s) p of
        None \<Rightarrow> (s, [], Return (Some EIDRM))
      | Some q \<Rightarrow>
          if ipcperms (me_task e) (lsm_ipc (me_lsm e)) q S_IWUGO \<noteq> None then (s, [], Return (Some EACCES))
          else if \<not> ipc_valid_object (msg_ids s) p then (s, [], Return (Some EIDRM))
          else
            (case lsm_msgsnd (me_lsm e) (kern_ipc_perm.truncate q) m msgflg of
               Some err \<Rightarrow> (s, [], Return (Some err))
             | None \<Rightarrow>
                 if msg_fits_inqueue q (of_nat msgsz) then
                   (case msgsnd_commit e s p q m msgsz of (s, wake) \<Rightarrow> (s, wake, Return None))
                 else if msgflg AND IPC_NOWAIT \<noteq> 0 then (s, [], Return (Some EAGAIN))
                 else
                   (let s = upd_msq p (ss_add (cur_task (me_task e)) (of_nat msgsz)) s
                    in case ipc_rcu_getref (msg_ids s) p of
                         (ids, False) \<Rightarrow> (s, [], Return (Some EIDRM))
                       | (ids, True) \<Rightarrow> (s\<lparr>msg_ids := ids\<rparr>, [], Sleep p))))"

text \<open>\<open>loaded\<close> is the result of \<^verbatim>\<open>load_msg\<close> on the user's text.\<close>

definition do_msgsnd ::
    "msg_env \<Rightarrow> msg_ns \<Rightarrow> int \<Rightarrow> int \<Rightarrow> msg_msg result \<Rightarrow> nat \<Rightarrow> int \<Rightarrow> msg_ns \<times> nat list \<times> (errno option) step" where
  "do_msgsnd e s msqid mtype loaded msgsz msgflg =
     (if msgsz > msg_ctlmax s \<or> msgsz \<ge> 2 ^ 63 \<or> msqid < 0 then (s, [], Return (Some EINVAL))
      else if mtype < 1 then (s, [], Return (Some EINVAL))
      else
        (case loaded of
           Inl err \<Rightarrow> (s, [], Return (Some err))
         | Inr m \<Rightarrow>
             (let m = m\<lparr>m_type := mtype, m_ts := msgsz\<rparr>
              in case msq_obtain_object_check s msqid of
                   Inl err \<Rightarrow> (s, [], Return (Some err))
                 | Inr p \<Rightarrow> msgsnd_round e s p m msgsz msgflg)))"

text \<open>After the sleep. The reference dropped may be the last one of a removed queue, whose
  memory then lasts until the grace period ends.\<close>

definition msgsnd_resume ::
    "msg_env \<Rightarrow> msg_ns \<Rightarrow> ptr \<Rightarrow> msg_msg \<Rightarrow> nat \<Rightarrow> int \<Rightarrow> msg_ns \<times> nat list \<times> (errno option) step" where
  "msgsnd_resume e s p m msgsz msgflg =
     (let valid = ipc_valid_object (msg_ids s) p;
          s = msg_ids_update (\<lambda>ids. ipc_rcu_putref ids p) s
      in if \<not> valid then (s, [], Return (Some EIDRM))
         else
           (let s = upd_msq p (ss_del (cur_task (me_task e))) s
            in if cur_signal_pending (me_task e) then (s, [], Return (Some ERESTARTNOHAND))
               else msgsnd_round e s p m msgsz msgflg))"

text \<open>\<open>mtype\<close> is \<open>None\<close> when the type cannot be read from the user's buffer; a 32 bit caller
  passes its size through \<^verbatim>\<open>compat_ssize_t\<close>.\<close>

definition ksys_msgsnd ::
    "msg_env \<Rightarrow> msg_ns \<Rightarrow> int \<Rightarrow> int option \<Rightarrow> msg_msg result \<Rightarrow> nat \<Rightarrow> int \<Rightarrow> msg_ns \<times> nat list \<times> (errno option) step" where
  "ksys_msgsnd e s msqid mtype loaded msgsz msgflg =
     (case mtype of
        None \<Rightarrow> (s, [], Return (Some EFAULT))
      | Some t \<Rightarrow> do_msgsnd e s msqid t loaded msgsz msgflg)"

definition compat_ksys_msgsnd ::
    "msg_env \<Rightarrow> msg_ns \<Rightarrow> int \<Rightarrow> 32 word option \<Rightarrow> msg_msg result \<Rightarrow> 32 word \<Rightarrow> int
       \<Rightarrow> msg_ns \<times> nat list \<times> (errno option) step" where
  "compat_ksys_msgsnd e s msqid mtype loaded msgsz msgflg =
     (case mtype of
        None \<Rightarrow> (s, [], Return (Some EFAULT))
      | Some t \<Rightarrow> do_msgsnd e s msqid (sint t) loaded (unat (scast msgsz :: 64 word)) msgflg)"

section \<open>msgrcv\<close>

text \<open>The mode, and the type the search uses.\<close>

definition convert_mode :: "int \<Rightarrow> int \<Rightarrow> search_mode \<times> int" where
  "convert_mode msgtyp msgflg =
     (if msgflg AND MSG_COPY \<noteq> 0 then (SEARCH_NUMBER, msgtyp)
      else if msgtyp = 0 then (SEARCH_ANY, msgtyp)
      else if msgtyp < 0 then (SEARCH_LESSEQUAL, if msgtyp = LONG_MIN then LONG_MAX else - msgtyp)
      else if msgflg AND MSG_EXCEPT \<noteq> 0 then (SEARCH_NOTEQUAL, msgtyp)
      else (SEARCH_EQUAL, msgtyp))"

text \<open>What the handler returns: the size, and the type and bytes it wrote.\<close>

definition do_msg_fill :: "bool \<Rightarrow> (nat \<Rightarrow> nat \<Rightarrow> bool) \<Rightarrow> msg_msg \<Rightarrow> nat \<Rightarrow> (nat \<times> int \<times> bytes) result" where
  "do_msg_fill put_ok uwrite m bufsz =
     (if \<not> put_ok then Inl EFAULT
      else
        (let msgsz = (if bufsz > m_ts m then m_ts m else bufsz)
         in case store_msg uwrite m msgsz of
              None \<Rightarrow> Inl EFAULT
            | Some d \<Rightarrow> Inr (msgsz, m_type m, d)))"

definition compat_do_msg_fill :: "bool \<Rightarrow> (nat \<Rightarrow> nat \<Rightarrow> bool) \<Rightarrow> msg_msg \<Rightarrow> nat \<Rightarrow> (nat \<times> int \<times> bytes) result" where
  "compat_do_msg_fill put_ok uwrite m bufsz =
     (if \<not> put_ok then Inl EFAULT
      else
        (let msgsz = (if bufsz > m_ts m then m_ts m else bufsz)
         in case store_msg uwrite m msgsz of
              None \<Rightarrow> Inl EFAULT
            | Some d \<Rightarrow> Inr (msgsz, c_int (m_type m), d)))"

text \<open>\<open>ckpt\<close> is \<^verbatim>\<open>CONFIG_CHECKPOINT_RESTORE\<close>; \<open>load\<close> is \<^verbatim>\<open>load_msg\<close> on the receiver's buffer.\<close>

definition prepare_copy :: "bool \<Rightarrow> (nat \<Rightarrow> msg_msg result) \<Rightarrow> nat \<Rightarrow> msg_msg result" where
  "prepare_copy ckpt load bufsz =
     (if ckpt then (case load bufsz of Inl e \<Rightarrow> Inl e | Inr m \<Rightarrow> Inr (m\<lparr>m_ts := bufsz\<rparr>))
      else Inl ENOSYS)"

text \<open>The search; a message is given by its position. \<open>cur\<close> is the receiving task.\<close>

fun find_loop ::
    "msg_env \<Rightarrow> msg_queue \<Rightarrow> nat \<Rightarrow> search_mode \<Rightarrow> msg_msg list \<Rightarrow> nat \<Rightarrow> int \<Rightarrow> nat option \<Rightarrow> int \<Rightarrow> nat option" where
  "find_loop e q cur mode [] pos msgtyp found cnt = found"
| "find_loop e q cur mode (m # ms) pos msgtyp found cnt =
     (if testmsg m msgtyp mode
         \<and> lsm_msgrcv (me_lsm e) (kern_ipc_perm.truncate q) m cur msgtyp mode = None
      then
        (if mode = SEARCH_LESSEQUAL \<and> m_type m \<noteq> 1
         then find_loop e q cur mode ms (Suc pos) (m_type m - 1) (Some pos) (cnt + 1)
         else if mode = SEARCH_NUMBER
         then (if msgtyp = cnt then Some pos
               else find_loop e q cur mode ms (Suc pos) msgtyp found (cnt + 1))
         else Some pos)
      else find_loop e q cur mode ms (Suc pos) msgtyp found cnt)"

definition find_msg :: "msg_env \<Rightarrow> msg_queue \<Rightarrow> int \<Rightarrow> search_mode \<Rightarrow> nat result" where
  "find_msg e q msgtyp mode =
     (case find_loop e q (cur_task (me_task e)) mode (q_messages q) 0 msgtyp None 0 of
        None \<Rightarrow> Inl EAGAIN | Some i \<Rightarrow> Inr i)"

text \<open>Taking the message at a position off the queue.\<close>

definition msgrcv_take :: "msg_env \<Rightarrow> msg_ns \<Rightarrow> ptr \<Rightarrow> msg_queue \<Rightarrow> nat \<Rightarrow> msg_ns \<times> nat list" where
  "msgrcv_take e s p q i =
     (let m = q_messages q ! i;
          q = q\<lparr>q_messages := take i (q_messages q) @ drop (Suc i) (q_messages q),
                q_qnum := q_qnum q - 1, q_rtime := clock_seconds (me_task e),
                q_lrpid := Some (cur_tgid (me_task e)), q_cbytes := q_cbytes q - of_nat (m_ts m)\<rparr>;
          s = ns_acct_hdrs (-1) (ns_acct_bytes (- of_nat (m_ts m)) s);
          (q, wake) = ss_wakeup q False
      in (upd_msq p (\<lambda>_. q) s, wake))"

text \<open>One round of the loop of \<^verbatim>\<open>do_msgrcv\<close>, up to the sleep.\<close>

definition msgrcv_round ::
    "bool \<Rightarrow> msg_env \<Rightarrow> msg_ns \<Rightarrow> ptr \<Rightarrow> nat \<Rightarrow> search_mode \<Rightarrow> int \<Rightarrow> int \<Rightarrow> msg_msg result
       \<Rightarrow> msg_ns \<times> nat list \<times> (msg_msg result) step" where
  "msgrcv_round ckpt e s p bufsz mode msgtyp msgflg copy =
     (case objs (msg_ids s) p of
        None \<Rightarrow> (s, [], Return (Inl EIDRM))
      | Some q \<Rightarrow>
          if ipcperms (me_task e) (lsm_ipc (me_lsm e)) q S_IRUGO \<noteq> None then (s, [], Return (Inl EACCES))
          else if \<not> ipc_valid_object (msg_ids s) p then (s, [], Return (Inl EIDRM))
          else
            (case find_msg e q msgtyp mode of
               Inr i \<Rightarrow>
                 (let m = q_messages q ! i
                  in if bufsz < m_ts m \<and> msgflg AND MSG_NOERROR = 0 then (s, [], Return (Inl E2BIG))
                     else if msgflg AND MSG_COPY \<noteq> 0
                     then (s, [], Return (case copy of Inl err \<Rightarrow> Inl err | Inr c \<Rightarrow> copy_msg ckpt m c))
                     else (case msgrcv_take e s p q i of (s, wake) \<Rightarrow> (s, wake, Return (Inr m))))
             | Inl _ \<Rightarrow>
                 if msgflg AND IPC_NOWAIT \<noteq> 0 then (s, [], Return (Inl ENOMSG))
                 else
                   (let cur = cur_task (me_task e);
                        r = \<lparr>r_mode = mode, r_msgtype = msgtyp,
                             r_maxsize = (if msgflg AND MSG_NOERROR \<noteq> 0 then INT_MAX else int bufsz),
                             r_msg = Inl EAGAIN\<rparr>;
                        s = upd_msq p (q_receivers_update (\<lambda>l. l @ [cur])) s
                    in (msg_stacks_update (\<lambda>st. st(cur \<mapsto> r)) s, [], Sleep p))))"

definition do_msgrcv ::
    "bool \<Rightarrow> msg_env \<Rightarrow> msg_ns \<Rightarrow> int \<Rightarrow> nat \<Rightarrow> int \<Rightarrow> int \<Rightarrow> (nat \<Rightarrow> msg_msg result)
       \<Rightarrow> msg_ns \<times> nat list \<times> (msg_msg result) step" where
  "do_msgrcv ckpt e s msqid bufsz msgtyp msgflg load =
     (if msqid < 0 \<or> bufsz \<ge> 2 ^ 63 then (s, [], Return (Inl EINVAL))
      else if msgflg AND MSG_COPY \<noteq> 0 \<and> (msgflg AND MSG_EXCEPT \<noteq> 0 \<or> msgflg AND IPC_NOWAIT = 0)
      then (s, [], Return (Inl EINVAL))
      else
        (let copy = prepare_copy ckpt load (min bufsz (msg_ctlmax s))
         in case (if msgflg AND MSG_COPY \<noteq> 0 then (case copy of Inl err \<Rightarrow> Some err | Inr _ \<Rightarrow> None) else None) of
              Some err \<Rightarrow> (s, [], Return (Inl err))
            | None \<Rightarrow>
                (case convert_mode msgtyp msgflg of
                   (mode, msgtyp) \<Rightarrow>
                     (case msq_obtain_object_check s msqid of
                        Inl err \<Rightarrow> (s, [], Return (Inl err))
                      | Inr p \<Rightarrow> msgrcv_round ckpt e s p bufsz mode msgtyp msgflg copy))))"

text \<open>After the sleep: a result in the receiver structure ends the call; otherwise the task
  leaves the list and searches again. A call with \<^verbatim>\<open>MSG_COPY\<close> never sleeps, so there is no copy here.\<close>

definition msgrcv_resume ::
    "bool \<Rightarrow> msg_env \<Rightarrow> msg_ns \<Rightarrow> ptr \<Rightarrow> nat \<Rightarrow> search_mode \<Rightarrow> int \<Rightarrow> int
       \<Rightarrow> msg_ns \<times> nat list \<times> (msg_msg result) step" where
  "msgrcv_resume ckpt e s p bufsz mode msgtyp msgflg =
     (let cur = cur_task (me_task e)
      in case msg_stacks s cur of
           None \<Rightarrow> (s, [], Return (Inl EAGAIN))
         | Some r \<Rightarrow>
             (let s = msg_stacks_update (\<lambda>st. st(cur := None)) s
              in if r_msg r \<noteq> Inl EAGAIN then (s, [], Return (r_msg r))
                 else
                   (let s = upd_msq p (q_receivers_update (remove1 cur)) s
                    in if cur_signal_pending (me_task e) then (s, [], Return (Inl ERESTARTNOHAND))
                       else msgrcv_round ckpt e s p bufsz mode msgtyp msgflg (Inl ENOSYS))))"

text \<open>The return of \<^verbatim>\<open>msgrcv\<close>: the handler writes the message, which is freed whatever it says.\<close>

definition msgrcv_finish ::
    "(msg_msg \<Rightarrow> nat \<Rightarrow> (nat \<times> int \<times> bytes) result) \<Rightarrow> nat \<Rightarrow> msg_msg result \<Rightarrow> (nat \<times> int \<times> bytes) result" where
  "msgrcv_finish msg_handler bufsz r = (case r of Inl err \<Rightarrow> Inl err | Inr m \<Rightarrow> msg_handler m bufsz)"

section \<open>Set-up and release\<close>

definition msg_init_ns :: "bool \<Rightarrow> msg_ns \<Rightarrow> msg_ns \<times> errno option" where
  "msg_init_ns mem s =
     (let s = s\<lparr>msg_ctlmax := MSGMAX, msg_ctlmnb := MSGMNB, msg_ctlmni := MSGMNI\<rparr>
      in case msg_acct_init mem (ns_addr s) (msg_acct_list s) of
           (l, Some err) \<Rightarrow> (s\<lparr>msg_acct_list := l\<rparr>, Some err)
         | (l, None) \<Rightarrow> (s\<lparr>msg_acct_list := l, msg_ids := ipc_init_ids\<rparr>, None))"

definition ds_msg_exit_ns :: "nat \<Rightarrow> msg_ns \<Rightarrow> msg_ns option" where
  "ds_msg_exit_ns fuel s = ds_free_ipcs fuel msg_ids (\<lambda>s p. fst (freeque s p)) s"

end
