(* ===== verification/MsgQueueLaws.thy ===== *)
theory MsgQueueLaws
  imports MsgQueue IpcTable
begin

text \<open>
  Properties of message queues: the search, the sender wake-up, the hand-over to receivers,
  the invariant of a namespace's queues (counters, references, accounting) under every
  operation, and the two interfaces of \<open>IpcUtil\<close> on the queues' own operations.
\<close>

unbundle bit_operations_syntax

section \<open>The sender wake-up walk\<close>

lemma ss_walk_mset: "ss_walk fuel q stp front todo wake = Some (l, w) \<Longrightarrow> mset l = mset front + mset todo"
  by (induction fuel q stp front todo wake rule: ss_walk.induct) (auto split: if_splits simp: Let_def)

lemma ss_walk_tail:
  assumes "moved \<noteq> []" "stp = Some (fst (hd moved))" "fst (hd moved) \<notin> fst ` set todo"
  shows "length todo < fuel \<Longrightarrow>
    ss_walk fuel q stp front (todo @ moved) wake =
      Some (front @ filter (\<lambda>m. msg_fits_inqueue q (snd m)) todo @ moved @ filter (\<lambda>m. \<not> msg_fits_inqueue q (snd m)) todo,
            wake @ map fst (filter (\<lambda>m. msg_fits_inqueue q (snd m)) todo))"
  using assms
proof (induction todo arbitrary: fuel front moved wake)
  case Nil
  then obtain fuel' m ms where "fuel = Suc fuel'" "moved = m # ms" by (cases fuel; cases moved) auto
  then show ?case using Nil.prems by simp
next
  case (Cons x todo)
  then obtain fuel' where f: "fuel = Suc fuel'" by (cases fuel) auto
  have ne: "stp \<noteq> Some (fst x)" using Cons.prems by auto
  show ?case
  proof (cases "msg_fits_inqueue q (snd x)")
    case True
    then show ?thesis
      using Cons.IH [of fuel' moved "front @ [x]" "wake @ [fst x]"] Cons.prems f ne by simp
  next
    case False
    then show ?thesis
      using Cons.IH [of fuel' "moved @ [x]" front wake] Cons.prems f ne by (simp add: Let_def)
  qed
qed

lemma ss_walk_start:
  "\<lbrakk>distinct (map fst todo); length todo < fuel\<rbrakk> \<Longrightarrow>
    ss_walk fuel q None front todo wake =
      Some (front @ filter (\<lambda>m. msg_fits_inqueue q (snd m)) todo @ filter (\<lambda>m. \<not> msg_fits_inqueue q (snd m)) todo,
            wake @ map fst (filter (\<lambda>m. msg_fits_inqueue q (snd m)) todo))"
proof (induction todo arbitrary: fuel front wake)
  case (Cons x todo)
  then obtain fuel' where f: "fuel = Suc fuel'" by (cases fuel) auto
  show ?case
  proof (cases "msg_fits_inqueue q (snd x)")
    case True
    then show ?thesis using Cons.IH [of fuel' "front @ [x]" "wake @ [fst x]"] Cons.prems f by simp
  next
    case False
    show ?thesis
    proof (cases "todo = []")
      case True
      then show ?thesis using False f by simp
    next
      case ne: False
      have "fst x \<notin> fst ` set todo" using Cons.prems(1) by simp
      then show ?thesis
        using ss_walk_tail [of "[x]" "Some (fst x)" todo fuel' q front wake] False ne f Cons.prems(2) by (simp add: Let_def)
    qed
  qed
qed simp

text \<open>Waking senders without killing them: with one task per sender the walk ends within one
  step more than there are senders, wakes exactly the senders whose message fits, in queue
  order, and leaves all of them queued with those that do not fit moved behind, in order.\<close>

theorem ss_wakeup_spec:
  assumes "distinct (map fst (q_senders q))"
  shows "ss_wakeup q False =
    (q\<lparr>q_senders := filter (\<lambda>m. msg_fits_inqueue q (snd m)) (q_senders q)
                    @ filter (\<lambda>m. \<not> msg_fits_inqueue q (snd m)) (q_senders q)\<rparr>,
     map fst (filter (\<lambda>m. msg_fits_inqueue q (snd m)) (q_senders q)))"
  using ss_walk_start [OF assms, of "Suc (length (q_senders q))" q "[]" "[]"] by (simp add: ss_wakeup_def)

lemma ss_wakeup_frame:
  "ss_wakeup q kill = (q', w) \<Longrightarrow> \<exists>l. q' = q\<lparr>q_senders := l\<rparr> \<and> (\<not> kill \<longrightarrow> mset l = mset (q_senders q))"
  by (auto simp: ss_wakeup_def split: if_splits option.splits dest!: ss_walk_mset) (rule exI [of _ "q_senders q"], simp)

section \<open>Finding a message\<close>

text \<open>The security module's answer for a message when the walk asks it with a type, which for a search
  by a bound is the bound as it stands by then.\<close>

definition takeable :: "msg_env \<Rightarrow> msg_queue \<Rightarrow> search_mode \<Rightarrow> int \<Rightarrow> msg_msg \<Rightarrow> bool" where
  "takeable e q mode ty m \<longleftrightarrow>
     lsm_msgrcv (me_lsm e) (kern_ipc_perm.truncate q) m (cur_task (me_task e)) ty mode = None"

text \<open>What a search below a bound may return: a message the security module lets pass, where every
  message of a smaller type, and every earlier one of the same type, was refused by the module when
  it was asked, with some bound not below the type.\<close>

definition least_at :: "(int \<Rightarrow> msg_msg \<Rightarrow> bool) \<Rightarrow> int \<Rightarrow> msg_msg list \<Rightarrow> nat \<Rightarrow> bool" where
  "least_at ok bound ms i \<longleftrightarrow>
     i < length ms \<and> (\<exists>c. m_type (ms ! i) \<le> c \<and> c \<le> bound \<and> ok c (ms ! i))
     \<and> (\<forall>j < length ms. m_type (ms ! j) < m_type (ms ! i) \<or> m_type (ms ! j) = m_type (ms ! i) \<and> j < i \<longrightarrow>
          (\<exists>c. m_type (ms ! j) \<le> c \<and> c \<le> bound \<and> \<not> ok c (ms ! j)))"

lemma least_atD:
  assumes "least_at ok b ms i"
  shows "i < length ms" "\<exists>c. m_type (ms ! i) \<le> c \<and> c \<le> b \<and> ok c (ms ! i)"
    "\<And>j. \<lbrakk>j < length ms; m_type (ms ! j) < m_type (ms ! i) \<or> m_type (ms ! j) = m_type (ms ! i) \<and> j < i\<rbrakk>
      \<Longrightarrow> \<exists>c. m_type (ms ! j) \<le> c \<and> c \<le> b \<and> \<not> ok c (ms ! j)"
  using assms unfolding least_at_def by blast+

lemma least_at_Cons:
  assumes "least_at ok c ms i" "c \<le> b"
    and "m_type m \<le> m_type (ms ! i) \<Longrightarrow> \<exists>d. m_type m \<le> d \<and> d \<le> b \<and> \<not> ok d m"
  shows "least_at ok b (m # ms) (Suc i)"
proof -
  have "\<exists>d. m_type ((m # ms) ! j) \<le> d \<and> d \<le> b \<and> \<not> ok d ((m # ms) ! j)"
    if j: "j < Suc (length ms)" "m_type ((m # ms) ! j) < m_type (ms ! i) \<or> m_type ((m # ms) ! j) = m_type (ms ! i) \<and> j < Suc i" for j
  proof (cases j)
    case 0
    then show ?thesis using assms(3) j(2) by auto
  next
    case (Suc k)
    then obtain d where "m_type (ms ! k) \<le> d" "d \<le> c" "\<not> ok d (ms ! k)" using least_atD(3) [OF assms(1), of k] j by auto
    then show ?thesis using Suc assms(2) by (intro exI [of _ d]) simp
  qed
  moreover obtain d where "m_type (ms ! i) \<le> d" "d \<le> c" "ok d (ms ! i)" using least_atD(2) [OF assms(1)] by blast
  ultimately show ?thesis using least_atD(1) [OF assms(1)] assms(2) unfolding least_at_def by (auto intro: order_trans)
qed

lemma least_at_head:
  assumes "ok b m" "m_type m \<le> b" "\<And>x. \<lbrakk>x \<in> set ms; m_type x < m_type m\<rbrakk> \<Longrightarrow> \<exists>d. m_type x \<le> d \<and> d \<le> b \<and> \<not> ok d x"
  shows "least_at ok b (m # ms) 0"
proof -
  have "\<exists>d. m_type ((m # ms) ! j) \<le> d \<and> d \<le> b \<and> \<not> ok d ((m # ms) ! j)"
    if "j < Suc (length ms)" "m_type ((m # ms) ! j) < m_type m" for j
    using that assms(3) [of "ms ! (j - 1)"] by (cases j) auto
  then show ?thesis using assms(1,2) unfolding least_at_def by auto
qed

lemma find_loop_lesseq:
  fixes e :: msg_env and q :: msg_queue
  defines "ok \<equiv> takeable e q SEARCH_LESSEQUAL"
  shows "\<forall>m \<in> set ms. 1 \<le> m_type m \<Longrightarrow>
    (\<exists>i. least_at ok b ms i \<and> find_loop e q (cur_task (me_task e)) SEARCH_LESSEQUAL ms pos b found cnt = Some (pos + i))
    \<or> (\<forall>m \<in> set ms. \<not> (ok b m \<and> m_type m \<le> b))
       \<and> find_loop e q (cur_task (me_task e)) SEARCH_LESSEQUAL ms pos b found cnt = found"
proof (induction ms arbitrary: pos b found cnt)
  case (Cons m ms)
  let ?f = "find_loop e q (cur_task (me_task e)) SEARCH_LESSEQUAL"
  have hit: "testmsg m b SEARCH_LESSEQUAL
      \<and> lsm_msgrcv (me_lsm e) (kern_ipc_perm.truncate q) m (cur_task (me_task e)) b SEARCH_LESSEQUAL = None
      \<longleftrightarrow> ok b m \<and> m_type m \<le> b"
    by (auto simp: ok_def takeable_def testmsg_def)
  have ge: "\<forall>m \<in> set ms. 1 \<le> m_type m" using Cons.prems by simp
  show ?case
  proof (cases "ok b m \<and> m_type m \<le> b")
    case False
    then have step: "?f (m # ms) pos b found cnt = ?f ms (Suc pos) b found cnt"
      unfolding find_loop.simps hit by (simp only: if_False)
    from Cons.IH [OF ge, of b "Suc pos" found cnt] show ?thesis
    proof
      assume "\<exists>i. least_at ok b ms i \<and> ?f ms (Suc pos) b found cnt = Some (Suc pos + i)"
      then obtain i where i: "least_at ok b ms i" "?f ms (Suc pos) b found cnt = Some (Suc pos + i)" by blast
      have "least_at ok b (m # ms) (Suc i)"
        by (rule least_at_Cons [OF i(1)]) (use False least_atD(2) [OF i(1)] in \<open>auto intro!: exI [of _ b]\<close>)
      then show ?thesis using i(2) step by (intro disjI1 exI [of _ "Suc i"]) simp
    qed (use False step in simp)
  next
    case True
    show ?thesis
    proof (cases "m_type m = 1")
      case one: True
      then have "?f (m # ms) pos b found cnt = Some pos" using True unfolding find_loop.simps hit by simp
      moreover have "least_at ok b (m # ms) 0" by (rule least_at_head) (use True one ge in force)+
      ultimately show ?thesis by auto
    next
      case False
      then have step: "?f (m # ms) pos b found cnt = ?f ms (Suc pos) (m_type m - 1) (Some pos) (cnt + 1)"
        using True unfolding find_loop.simps hit by simp
      from Cons.IH [OF ge, of "m_type m - 1" "Suc pos" "Some pos" "cnt + 1"] show ?thesis
      proof
        assume "\<exists>i. least_at ok (m_type m - 1) ms i \<and> ?f ms (Suc pos) (m_type m - 1) (Some pos) (cnt + 1) = Some (Suc pos + i)"
        then obtain i where i: "least_at ok (m_type m - 1) ms i"
            "?f ms (Suc pos) (m_type m - 1) (Some pos) (cnt + 1) = Some (Suc pos + i)" by blast
        have "m_type (ms ! i) < m_type m" using least_atD(2) [OF i(1)] by auto
        then have "least_at ok b (m # ms) (Suc i)" by (intro least_at_Cons [OF i(1)]) (use True in auto)
        then show ?thesis using i(2) step by (intro disjI1 exI [of _ "Suc i"]) simp
      next
        assume none: "(\<forall>x \<in> set ms. \<not> (ok (m_type m - 1) x \<and> m_type x \<le> m_type m - 1))
            \<and> ?f ms (Suc pos) (m_type m - 1) (Some pos) (cnt + 1) = Some pos"
        have "\<exists>d. m_type x \<le> d \<and> d \<le> b \<and> \<not> ok d x" if "x \<in> set ms" "m_type x < m_type m" for x
          using none that True by (intro exI [of _ "m_type m - 1"]) force
        then have "least_at ok b (m # ms) 0" using True by (intro least_at_head) auto
        then show ?thesis using none step by auto
      qed
    qed
  qed
qed simp

text \<open>The first message with a property, and the message with a number among those the
  receiver may take.\<close>

definition first_at :: "(msg_msg \<Rightarrow> bool) \<Rightarrow> msg_msg list \<Rightarrow> nat \<Rightarrow> bool" where
  "first_at P ms i \<longleftrightarrow> i < length ms \<and> P (ms ! i) \<and> (\<forall>j < i. \<not> P (ms ! j))"

lemma find_loop_first:
  fixes e :: msg_env and q :: msg_queue and b :: int
  assumes "mode \<noteq> SEARCH_LESSEQUAL" "mode \<noteq> SEARCH_NUMBER"
  defines "P \<equiv> \<lambda>m. takeable e q mode b m \<and> testmsg m b mode"
  shows "(\<exists>i. first_at P ms i \<and> find_loop e q (cur_task (me_task e)) mode ms pos b None cnt = Some (pos + i))
    \<or> (\<forall>m \<in> set ms. \<not> P m) \<and> find_loop e q (cur_task (me_task e)) mode ms pos b None cnt = None"
proof (induction ms arbitrary: pos)
  case (Cons m ms)
  let ?f = "find_loop e q (cur_task (me_task e)) mode"
  have hit: "testmsg m b mode
      \<and> lsm_msgrcv (me_lsm e) (kern_ipc_perm.truncate q) m (cur_task (me_task e)) b mode = None \<longleftrightarrow> P m"
    by (auto simp: P_def takeable_def)
  show ?case
  proof (cases "P m")
    case True
    then have "?f (m # ms) pos b None cnt = Some pos" using assms(1,2) unfolding find_loop.simps hit by simp
    then show ?thesis using True by (intro disjI1 exI [of _ 0]) (simp add: first_at_def)
  next
    case False
    then have step: "?f (m # ms) pos b None cnt = ?f ms (Suc pos) b None cnt" unfolding find_loop.simps hit by simp
    from Cons.IH [of "Suc pos"] show ?thesis
    proof
      assume "\<exists>i. first_at P ms i \<and> ?f ms (Suc pos) b None cnt = Some (Suc pos + i)"
      then obtain i where i: "first_at P ms i" "?f ms (Suc pos) b None cnt = Some (Suc pos + i)" by blast
      have "first_at P (m # ms) (Suc i)" using i(1) False by (auto simp: first_at_def nth_Cons')
      then show ?thesis using i(2) step by (intro disjI1 exI [of _ "Suc i"]) simp
    qed (use False step in simp)
  qed
qed simp

definition number_at :: "(msg_msg \<Rightarrow> bool) \<Rightarrow> int \<Rightarrow> msg_msg list \<Rightarrow> nat \<Rightarrow> bool" where
  "number_at P n ms i \<longleftrightarrow> i < length ms \<and> P (ms ! i) \<and> int (length (filter P (take i ms))) = n"

lemma find_loop_number:
  fixes e :: msg_env and q :: msg_queue and n :: int
  defines "P \<equiv> takeable e q SEARCH_NUMBER n"
  shows "(\<exists>i. number_at P (n - cnt) ms i \<and> find_loop e q (cur_task (me_task e)) SEARCH_NUMBER ms pos n None cnt = Some (pos + i))
    \<or> (n < cnt \<or> int (length (filter P ms)) \<le> n - cnt)
       \<and> find_loop e q (cur_task (me_task e)) SEARCH_NUMBER ms pos n None cnt = None"
proof (induction ms arbitrary: pos cnt)
  case (Cons m ms)
  let ?f = "find_loop e q (cur_task (me_task e)) SEARCH_NUMBER"
  have hit: "testmsg m n SEARCH_NUMBER
      \<and> lsm_msgrcv (me_lsm e) (kern_ipc_perm.truncate q) m (cur_task (me_task e)) n SEARCH_NUMBER = None \<longleftrightarrow> P m"
    by (auto simp: P_def takeable_def testmsg_def)
  define d :: int where "d = (if P m then 1 else 0)"
  show ?case
  proof (cases "P m \<and> n = cnt")
    case True
    then have "?f (m # ms) pos n None cnt = Some pos" unfolding find_loop.simps hit by simp
    then show ?thesis using True by (intro disjI1 exI [of _ 0]) (simp add: number_at_def)
  next
    case False
    then have step: "?f (m # ms) pos n None cnt = ?f ms (Suc pos) n None (cnt + d)"
      unfolding find_loop.simps hit by (simp add: d_def)
    from Cons.IH [of "cnt + d" "Suc pos"] show ?thesis
    proof
      assume "\<exists>i. number_at P (n - (cnt + d)) ms i \<and> ?f ms (Suc pos) n None (cnt + d) = Some (Suc pos + i)"
      then obtain i where i: "number_at P (n - (cnt + d)) ms i" "?f ms (Suc pos) n None (cnt + d) = Some (Suc pos + i)" by blast
      have "number_at P (n - cnt) (m # ms) (Suc i)" using i(1) by (auto simp: number_at_def d_def)
      then show ?thesis using i(2) step by (intro disjI1 exI [of _ "Suc i"]) simp
    next
      assume none: "(n < cnt + d \<or> int (length (filter P ms)) \<le> n - (cnt + d)) \<and> ?f ms (Suc pos) n None (cnt + d) = None"
      then show ?thesis using False step by (auto simp: d_def split: if_splits)
    qed
  qed
qed auto

text \<open>C34. The search returns a message the receiver may take: for a type bound the first message
  of the least type not above it, for a number the message with that number, otherwise the
  first message that passes the test; it fails, with EAGAIN, only when there is none. The security
  module may answer as it likes: passed over in a search below a bound is exactly what it refused
  when it was asked, with the bound or with a type found before it, less one.\<close>

theorem find_msg_spec:
  assumes "\<forall>m \<in> set (q_messages q). 1 \<le> m_type m"
  shows "case find_msg e q t mode of
      Inr i \<Rightarrow>
        if mode = SEARCH_LESSEQUAL then least_at (takeable e q mode) t (q_messages q) i
        else if mode = SEARCH_NUMBER then number_at (takeable e q mode t) t (q_messages q) i
        else first_at (\<lambda>m. takeable e q mode t m \<and> testmsg m t mode) (q_messages q) i
    | Inl err \<Rightarrow> err = EAGAIN \<and>
        (if mode = SEARCH_NUMBER then t < 0 \<or> int (length (filter (takeable e q mode t) (q_messages q))) \<le> t
         else \<forall>m \<in> set (q_messages q). \<not> (takeable e q mode t m \<and> testmsg m t mode))"
proof -
  consider "mode = SEARCH_LESSEQUAL" | "mode = SEARCH_NUMBER" | "mode \<noteq> SEARCH_LESSEQUAL" "mode \<noteq> SEARCH_NUMBER"
    by blast
  then show ?thesis
  proof cases
    case 1
    then show ?thesis
      using find_loop_lesseq [OF assms, where e = e and q = q and b = t and pos = 0 and found = None and cnt = 0] by (auto simp: find_msg_def testmsg_def)
  next
    case 2
    then show ?thesis
      using find_loop_number [where e = e and q = q and n = t and cnt = 0 and ms = "q_messages q" and pos = 0] by (auto simp: find_msg_def)
  next
    case 3
    then show ?thesis
      using find_loop_first [OF 3, of e q t "q_messages q" 0 0] by (auto simp: find_msg_def)
  qed
qed

text \<open>For a module that does not look at the type argument the message found is the first one of the least
  type among those it lets pass.\<close>

lemma least_at_blind:
  assumes "least_at ok b ms i" "\<And>c m. ok c m \<longleftrightarrow> ok 0 m"
  shows "ok 0 (ms ! i) \<and> m_type (ms ! i) \<le> b \<and> (\<forall>j < length ms. ok 0 (ms ! j) \<longrightarrow>
    m_type (ms ! i) < m_type (ms ! j) \<or> m_type (ms ! i) = m_type (ms ! j) \<and> i \<le> j)"
proof -
  have "m_type (ms ! i) < m_type (ms ! j) \<or> m_type (ms ! i) = m_type (ms ! j) \<and> i \<le> j" if "j < length ms" "ok 0 (ms ! j)" for j
    using least_atD(3) [OF assms(1) that(1)] that(2) assms(2) by (meson linorder_less_linear not_le)
  then show ?thesis using least_atD(2) [OF assms(1)] assms(2) by auto
qed

text \<open>A permissive kernel to evaluate on.\<close>

definition open_lsm :: msg_lsm where
  "open_lsm = \<lparr>lsm_alloc = None, lsm_ipc = (\<lambda>_ _. None), lsm_associate = (\<lambda>_ _. None),
     lsm_msgctl = (\<lambda>_ _. None), lsm_msgsnd = (\<lambda>_ _ _. None), lsm_msgrcv = (\<lambda>_ _ _ _ _. None)\<rparr>"

definition sample_env :: "nat \<Rightarrow> msg_env" where
  "sample_env t = \<lparr>me_task = plain_env t 1000, me_lsm = open_lsm, me_maps = plain_maps,
     me_alloc = first_free, me_kht = None, me_new = (\<lambda>used. if used 9 then None else Some 9)\<rparr>"

definition sample_queue :: "msg_msg list \<Rightarrow> (nat \<times> 64 word) list \<Rightarrow> msg_queue" where
  "sample_queue ms wait = (fresh_queue (sample_env 1) 100 \<lparr>par_key = 42, par_flg = 384, par_nsems = 0\<rparr>)
     \<lparr>q_messages := ms, q_senders := wait, q_cbytes := of_nat (sum_list (map m_ts ms)), q_qnum := of_nat (length ms)\<rparr>"

theorem find_msg_spec_witness:
  "find_msg (sample_env 1) (sample_queue [sample_msg 5 1, sample_msg 3 1, sample_msg 3 2, sample_msg 4 1] []) 4 SEARCH_LESSEQUAL = Inr 1"
proof -
  define q where "q = sample_queue [sample_msg 5 1, sample_msg 3 1, sample_msg 3 2, sample_msg 4 1] []"
  have len: "length (q_messages q) = 4" and
    ty: "m_type (q_messages q ! 0) = 5" "m_type (q_messages q ! 1) = 3" "m_type (q_messages q ! 2) = 3" "m_type (q_messages q ! 3) = 4"
    by (simp_all add: q_def sample_queue_def sample_msg_def)
  have split4: "j < 4 \<Longrightarrow> j = 0 \<or> j = 1 \<or> j = 2 \<or> j = 3" for j :: nat by linarith
  have "\<forall>m \<in> set (q_messages q). 1 \<le> m_type m"
    unfolding all_set_conv_all_nth len using ty split4 by force
  note sp = find_msg_spec [where e = "sample_env 1" and t = 4 and mode = SEARCH_LESSEQUAL, OF this]
  have tk: "takeable (sample_env 1) q SEARCH_LESSEQUAL c m" for c m
    by (simp add: takeable_def sample_env_def open_lsm_def)
  have in1: "q_messages q ! 1 \<in> set (q_messages q)" by (rule nth_mem) (simp add: len)
  have "find_msg (sample_env 1) q 4 SEARCH_LESSEQUAL = Inr 1"
  proof (cases "find_msg (sample_env 1) q 4 SEARCH_LESSEQUAL")
    case (Inl err)
    then have "\<not> m_type (q_messages q ! 1) \<le> 4" using sp tk in1 by (simp only: sum.case testmsg_def) simp
    then show ?thesis using ty by simp
  next
    case (Inr i)
    then have l: "least_at (takeable (sample_env 1) q SEARCH_LESSEQUAL) 4 (q_messages q) i" using sp by simp
    have "m_type (q_messages q ! i) < 3 \<or> m_type (q_messages q ! i) = 3 \<and> i \<le> 1"
      using conjunct2 [OF conjunct2 [OF least_at_blind [OF l]]] tk ty len by (metis (no_types) one_less_numeral_iff semiring_norm(76))
    moreover have "i < 4" using least_atD(1) [OF l] len by simp
    ultimately have "i = 1" using ty by (auto dest!: split4)
    then show ?thesis using Inr by simp
  qed
  then show ?thesis by (simp only: q_def)
qed

theorem ss_wakeup_spec_witness:
  "snd (ss_wakeup (sample_queue [] [(1, 200), (2, 50), (3, 10)]) False) = [2, 3]"
  using ss_wakeup_spec [of "sample_queue [] [(1, 200), (2, 50), (3, 10)]"]
  by (simp add: sample_queue_def fresh_queue_def msg_fits_inqueue_def)

end
