(* ===== verification/IpcClass.thy ===== *)
theory IpcClass
  imports IpcUtil
begin

text \<open>
  What the classes of objects share above the tables: sums over the objects of a table, the
  references to an object, and a new object with and without success.
\<close>

section \<open>Sums over a table\<close>

text \<open>A sum over the objects of the table.\<close>

definition table_sum :: "('o \<Rightarrow> 'b :: ab_group_add) \<Rightarrow> 'o ipc_ids \<Rightarrow> 'b" where
  "table_sum f ids = sum_list (map (\<lambda>x. case objs ids (snd x) of Some q \<Rightarrow> f q | None \<Rightarrow> 0) (ipcs_idr ids))"

lemma sum_list_split_key:
  fixes g :: "(int \<times> ptr) \<Rightarrow> 'b :: ab_group_add"
  shows "\<lbrakk>distinct (map fst t); map_of t i = Some p\<rbrakk> \<Longrightarrow>
    sum_list (map g t) = g (i, p) + sum_list (map g (AList.delete i t))"
proof (induction t)
  case (Cons x t)
  show ?case
  proof (cases "fst x = i")
    case True
    then have "x = (i, p)" using Cons.prems(2) by (cases x) simp
    moreover have "AList.delete i t = t"
    proof (rule delete_id)
      show "i \<notin> fst ` set t" using Cons.prems(1) True by (simp add: image_iff)
    qed
    ultimately show ?thesis by simp
  next
    case False
    then show ?thesis using Cons by (cases x) (auto simp: algebra_simps)
  qed
qed simp

lemma table_sum_cong:
  assumes "\<And>p. p \<in> snd ` set t \<Longrightarrow> objs ids p = objs ids' p"
  shows "sum_list (map (\<lambda>x. case objs ids (snd x) of Some q \<Rightarrow> f q | None \<Rightarrow> 0) t)
    = (sum_list (map (\<lambda>x. case objs ids' (snd x) of Some q \<Rightarrow> f q | None \<Rightarrow> 0) t) :: 'b :: ab_group_add)"
  using assms by (intro arg_cong [where f = sum_list] map_cong) auto

lemma linked_index:
  assumes "ids_wf ids" "p \<in> snd ` set (ipcs_idr ids)"
  obtains i where "map_of (ipcs_idr ids) i = Some p"
  using assms ids_wf_distinct(1) [OF assms(1)] by (metis imageE map_of_is_SomeI prod.collapse)

lemma not_in_delete:
  assumes "distinct (map snd t)" "map_of t i = Some p"
  shows "p \<notin> snd ` set (AList.delete i t)"
proof -
  have "(i, p) \<in> set t" using assms(2) by (rule map_of_SomeD)
  then show ?thesis using assms(1) by (fastforce simp: AList.delete_eq distinct_map inj_on_def)
qed

text \<open>Changing one object of the table changes a sum by the difference.\<close>

lemma table_sum_split:
  assumes wf: "ids_wf ids" and m: "map_of (ipcs_idr ids) i = Some p" and q: "objs ids p = Some q"
    and t: "ipcs_idr ids' = ipcs_idr ids" and o': "\<And>r. r \<noteq> p \<Longrightarrow> objs ids' r = objs ids r" and q': "objs ids' p = Some q'"
  shows "table_sum f ids' = table_sum f ids + (f q' - f q)"
proof -
  let ?t = "ipcs_idr ids"
  have "p \<notin> snd ` set (AList.delete i ?t)" by (rule not_in_delete [OF ids_wf_distinct(2) [OF wf] m])
  then have "\<And>r. r \<in> snd ` set (AList.delete i ?t) \<Longrightarrow> objs ids' r = objs ids r" using o' by metis
  note same = table_sum_cong [OF this, of "AList.delete i ?t" f]
  show ?thesis
    unfolding table_sum_def t sum_list_split_key [OF ids_wf_distinct(1) [OF wf] m]
    using same q q' by simp
qed

lemma table_sum_removed:
  assumes wf: "ids_wf ids" and m: "map_of (ipcs_idr ids) i = Some p" and q: "objs ids p = Some q"
    and t: "ipcs_idr ids' = AList.delete i (ipcs_idr ids)" and o': "\<And>r. r \<noteq> p \<Longrightarrow> objs ids' r = objs ids r"
  shows "table_sum f ids' = table_sum f ids - f q"
proof -
  let ?t = "ipcs_idr ids"
  have "p \<notin> snd ` set (AList.delete i ?t)" by (rule not_in_delete [OF ids_wf_distinct(2) [OF wf] m])
  then have "\<And>r. r \<in> snd ` set (AList.delete i ?t) \<Longrightarrow> objs ids' r = objs ids r" using o' by metis
  note same = table_sum_cong [OF this, of "AList.delete i ?t" f]
  have "table_sum f ids = f q + sum_list (map (\<lambda>x. case objs ids (snd x) of Some q \<Rightarrow> f q | None \<Rightarrow> 0) (AList.delete i ?t))"
    unfolding table_sum_def sum_list_split_key [OF ids_wf_distinct(1) [OF wf] m] using q by simp
  then show ?thesis unfolding table_sum_def [of f ids'] t using same by simp
qed

lemma table_sum_same:
  assumes "ipcs_idr ids' = ipcs_idr ids" "\<And>r. r \<in> snd ` set (ipcs_idr ids) \<Longrightarrow> objs ids' r = objs ids r"
  shows "table_sum f ids' = table_sum f ids"
  unfolding table_sum_def assms(1) by (rule table_sum_cong) (rule assms(2))

section \<open>References and new objects\<close>

lemma putref_frame [simp, frame_simps]:
  "ipcs_idr (ipc_rcu_putref ids p) = ipcs_idr ids" "in_use (ipc_rcu_putref ids p) = in_use ids"
  "key_ht (ipc_rcu_putref ids p) = key_ht ids" "max_idx (ipc_rcu_putref ids p) = max_idx ids"
  "ids_seq (ipc_rcu_putref ids p) = ids_seq ids" "last_idx (ipc_rcu_putref ids p) = last_idx ids"
  "r \<noteq> p \<Longrightarrow> objs (ipc_rcu_putref ids p) r = objs ids r"
  by (simp_all add: ipc_rcu_putref_def split: option.splits)

lemma putref_obj:
  "objs ids p = Some q \<Longrightarrow> objs (ipc_rcu_putref ids p) p =
     (if perm_refcount q = 1 then None else Some (q\<lparr>perm_refcount := perm_refcount q - 1\<rparr>))"
  by (simp add: ipc_rcu_putref_def)

lemma ids_wf_unlinked_cong:
  assumes "ids_wf ids" "p \<notin> snd ` set (ipcs_idr ids)"
    and "ipcs_idr ids' = ipcs_idr ids" "in_use ids' = in_use ids" "key_ht ids' = key_ht ids"
    and "max_idx ids' = max_idx ids" "ids_seq ids' = ids_seq ids" "last_idx ids' = last_idx ids"
    and "\<And>r. r \<noteq> p \<Longrightarrow> objs ids' r = objs ids r"
  shows "ids_wf ids'"
proof (rule ids_wf_cong [OF assms(1,3-8)])
  fix r assume "r \<in> snd ` set (ipcs_idr ids)"
  then have "r \<noteq> p" using assms(2) by blast
  then show "core_at ids' r = core_at ids r" by (simp add: core_at_def assms(9))
qed

lemma kmalloc_fresh: "\<lbrakk>kmalloc_ok f; f (\<lambda>p. h p \<noteq> None) = Some p\<rbrakk> \<Longrightarrow> h p = None"
  unfolding kmalloc_ok_def by blast

lemma fresh_unlinked:
  assumes "ids_wf ids" "objs ids p = None"
  shows "p \<notin> snd ` set (ipcs_idr ids)"
proof
  assume "p \<in> snd ` set (ipcs_idr ids)"
  then obtain i where "map_of (ipcs_idr ids) i = Some p" by (rule linked_index [OF assms(1)])
  then obtain q where "objs ids p = Some q" by (rule ids_wf_entry [OF assms(1)])
  with assms(2) show False by simp
qed

text \<open>A new object that the table refuses is freed again.\<close>

lemma addid_fail:
  assumes wf: "ids_wf ids" and fresh: "objs ids p = None" and ok: "idr_alloc_ok alloc"
    and a: "ipc_addid env alloc ke (objs_update (\<lambda>h. h(p \<mapsto> q0)) ids) p limit = (ids', Inl err)"
  shows "ids_wf (ipc_rcu_putref ids' p)" "ipcs_idr (ipc_rcu_putref ids' p) = ipcs_idr ids"
    "objs (ipc_rcu_putref ids' p) = objs ids"
proof -
  define ids0 where "ids0 = objs_update (\<lambda>h. h(p \<mapsto> q0)) ids"
  note nl = fresh_unlinked [OF wf fresh]
  have q0: "objs ids0 p = Some q0" by (simp add: ids0_def)
  note F = ipc_addid_Inl [OF a [folded ids0_def] ok q0]
  have wf0: "ids_wf ids0"
    by (rule ids_wf_unlinked_cong [OF wf nl]) (simp_all add: ids0_def)
  have same: "objs (ipc_rcu_putref ids' p) r = objs ids r" for r
  proof (cases "r = p")
    case True
    obtain q' where "objs ids' p = Some q'" "perm_refcount q' = 1" using F(6) by blast
    then show ?thesis using True fresh putref_obj by fastforce
  next
    case False
    then show ?thesis using F(5) [OF False] by (simp add: ids0_def)
  qed
  then show "objs (ipc_rcu_putref ids' p) = objs ids" ..
  show "ids_wf (ipc_rcu_putref ids' p)"
  proof -
    have "ids_wf (ids'\<lparr>objs := objs ids0\<rparr>)"
      using wf0 F(1-4) F(7) [OF wf0] unfolding ids_wf_def core_at_def by simp
    moreover have "p \<notin> snd ` set (ipcs_idr (ids'\<lparr>objs := objs ids0\<rparr>))" using nl F(1) by (simp add: ids0_def)
    ultimately show ?thesis
      by (rule ids_wf_unlinked_cong) (simp_all add: same ids0_def)
  qed
  show "ipcs_idr (ipc_rcu_putref ids' p) = ipcs_idr ids" using F(1) by (simp add: ids0_def)
qed

text \<open>A new object that the table takes.\<close>

lemma addid_new:
  assumes wf: "ids_wf ids" and fresh: "objs ids p = None" and ok: "idr_alloc_ok alloc"
    and a: "ipc_addid env alloc ke (objs_update (\<lambda>h. h(p \<mapsto> q0)) ids) p limit = (ids', Inr idx)"
    and key: "perm_key q0 = IPC_PRIVATE \<or> key_ht ids (perm_key q0) = None"
  obtains q1 sq where "q1 = added_perm env sq idx q0" "ids_wf ids'" "objs ids' = (objs ids)(p \<mapsto> q1)"
    "ipcs_idr ids' = ipcs_idr ids @ [(idx, p)]" "map_of (ipcs_idr ids') idx = Some p"
    "p \<notin> snd ` set (ipcs_idr ids)" "ipc_obtain_object_check ids' (perm_id q1) = Inr p"
proof -
  define ids0 where "ids0 = objs_update (\<lambda>h. h(p \<mapsto> q0)) ids"
  note nl = fresh_unlinked [OF wf fresh]
  have wf0: "ids_wf ids0"
    by (rule ids_wf_unlinked_cong [OF wf nl]) (simp_all add: ids0_def)
  have o0: "objs ids0 p = Some q0" by (simp add: ids0_def)
  note a0 = a [folded ids0_def]
  note A = ipc_addid_Inr [OF a0 o0 ok]
  have nl0: "p \<notin> snd ` set (ipcs_idr ids0)" using nl by (simp add: ids0_def)
  have wf': "ids_wf ids'"
    by (rule ids_wf_addid_ok [OF wf0 a0 o0 ok nl0]) (use key in \<open>simp add: ids0_def\<close>)
  define q1 where "q1 = added_perm env (next_seq ids0 idx) idx q0"
  have o1: "objs ids' = (objs ids)(p \<mapsto> q1)"
    by (simp add: A(6) added_ids_fields q1_def o0) (simp add: ids0_def)
  have t0: "ipcs_idr ids0 = ipcs_idr ids" by (simp add: ids0_def)
  have t1: "ipcs_idr ids' = ipcs_idr ids @ [(idx, p)]" by (simp add: A(6) added_ids_fields(7) [OF A(1)] t0)
  have m1: "map_of (ipcs_idr ids') idx = Some p" using A(1) by (simp add: t0 t1 map_add_def)
  have c1: "ipc_obtain_object_check ids' (perm_id q1) = Inr p"
    by (rule obtain_check_entry [OF wf' m1]) (simp add: o1)
  show ?thesis by (rule that [OF q1_def wf' o1 t1 m1 nl c1])
qed

lemma table_sum_added:
  assumes "p \<notin> snd ` set (ipcs_idr ids)" "ipcs_idr ids' = ipcs_idr ids @ [(idx, p)]" "objs ids' = (objs ids)(p \<mapsto> q)"
  shows "table_sum f ids' = table_sum f ids + f q"
proof -
  have "\<And>r. r \<in> snd ` set (ipcs_idr ids) \<Longrightarrow> objs ids' r = objs ids r" using assms(1,3) by auto
  from table_sum_cong [OF this, of "ipcs_idr ids" f] show ?thesis
    unfolding table_sum_def assms(2) by (simp add: assms(3))
qed

end
