(* ===== verification/MsgInvariant.thy ===== *)
theory MsgInvariant
  imports MsgQueueLaws IpcClass
begin

text \<open>
  The invariant of a namespace's message queues and its preservation: every queue in the
  table counts its messages and bytes, holds one reference for the table and one for each
  sleeping sender, and the namespace's accounting is the sum over its queues. On top of it
  stand the outcomes of a send, the release of a namespace and the two class interfaces.
\<close>

unbundle bit_operations_syntax

section \<open>Accounting\<close>

lemma acct_get_add:
  "msg_acct_get (msg_acct_add ns b h l) n =
     (if n = ns then map_option (\<lambda>a. a\<lparr>acct_bytes := acct_bytes a + b, acct_hdrs := acct_hdrs a + h\<rparr>) (msg_acct_get l n)
      else msg_acct_get l n)"
  by (induction l) (auto simp: msg_acct_get_def)

definition msg_bytes_of :: "msg_queue \<Rightarrow> nat" where "msg_bytes_of q = sum_list (map m_ts (q_messages q))"

definition queue_ok :: "msg_queue \<Rightarrow> bool" where
  "queue_ok q \<longleftrightarrow>
     q_cbytes q = of_nat (msg_bytes_of q) \<and> q_qnum q = of_nat (length (q_messages q))
     \<and> distinct (map fst (q_senders q)) \<and> distinct (q_receivers q)
     \<and> perm_refcount q = Suc (length (q_senders q))
     \<and> (\<forall>m \<in> set (q_messages q). 1 \<le> m_type m)"

definition msg_inv :: "msg_ns \<Rightarrow> bool" where
  "msg_inv s \<longleftrightarrow>
     ids_wf (msg_ids s)
     \<and> (\<forall>p \<in> snd ` set (ipcs_idr (msg_ids s)). \<exists>q. objs (msg_ids s) p = Some q \<and> queue_ok q)
     \<and> (\<exists>a. msg_acct_get (msg_acct_list s) (ns_addr s) = Some a
          \<and> acct_bytes a = table_sum q_cbytes (msg_ids s) \<and> acct_hdrs a = table_sum q_qnum (msg_ids s))"

lemma msg_inv_wf: "msg_inv s \<Longrightarrow> ids_wf (msg_ids s)"
  by (simp add: msg_inv_def)

lemma msg_inv_queue:
  "\<lbrakk>msg_inv s; p \<in> snd ` set (ipcs_idr (msg_ids s)); objs (msg_ids s) p = Some q\<rbrakk> \<Longrightarrow> queue_ok q"
  by (fastforce simp: msg_inv_def)

text \<open>The step every in-place operation on one queue takes.\<close>

lemma msg_inv_step:
  assumes inv: "msg_inv s" and link: "p \<in> snd ` set (ipcs_idr (msg_ids s))" and q: "objs (msg_ids s) p = Some q"
    and core: "perm_core q' = perm_core q" and ok: "queue_ok q'"
    and ids': "msg_ids s' = upd_obj p (\<lambda>_. q') (msg_ids s)" and ns: "ns_addr s' = ns_addr s"
    and acct: "msg_acct_get (msg_acct_list s') (ns_addr s) =
      map_option (\<lambda>a. a\<lparr>acct_bytes := acct_bytes a + (q_cbytes q' - q_cbytes q),
                       acct_hdrs := acct_hdrs a + (q_qnum q' - q_qnum q)\<rparr>) (msg_acct_get (msg_acct_list s) (ns_addr s))"
  shows "msg_inv s'"
proof -
  have wf: "ids_wf (msg_ids s)" by (rule msg_inv_wf [OF inv])
  obtain i where m: "map_of (ipcs_idr (msg_ids s)) i = Some p" by (rule linked_index [OF wf link])
  have wf': "ids_wf (msg_ids s')"
    unfolding ids' by (rule ids_wf_upd_obj [OF wf]) (use q core in simp)
  have sums: "table_sum f (msg_ids s') = table_sum f (msg_ids s) + (f q' - f q)" for f
    by (rule table_sum_split [OF wf m q]) (simp_all add: ids' q)
  obtain a where a: "msg_acct_get (msg_acct_list s) (ns_addr s) = Some a"
      "acct_bytes a = table_sum q_cbytes (msg_ids s)" "acct_hdrs a = table_sum q_qnum (msg_ids s)"
    using inv by (auto simp: msg_inv_def)
  have "\<forall>r \<in> snd ` set (ipcs_idr (msg_ids s')). \<exists>x. objs (msg_ids s') r = Some x \<and> queue_ok x"
    using inv ok q by (simp add: ids' msg_inv_def)
  then show ?thesis
    unfolding msg_inv_def sums using wf' acct a by (simp add: ns)
qed

lemma upd_msq_fields [simp, frame_simps]:
  "msg_ids (upd_msq p f s) = upd_obj p f (msg_ids s)" "ns_addr (upd_msq p f s) = ns_addr s"
  "msg_acct_list (upd_msq p f s) = msg_acct_list s" "msg_stacks (upd_msq p f s) = msg_stacks s"
  "msg_ctlmni (upd_msq p f s) = msg_ctlmni s"
  by (simp_all add: upd_msq_def)

lemma ns_acct_fields [simp, frame_simps]:
  "msg_ids (ns_acct_bytes b s) = msg_ids s" "ns_addr (ns_acct_bytes b s) = ns_addr s"
  "msg_stacks (ns_acct_bytes b s) = msg_stacks s"
  "msg_ids (ns_acct_hdrs b s) = msg_ids s" "ns_addr (ns_acct_hdrs b s) = ns_addr s"
  "msg_stacks (ns_acct_hdrs b s) = msg_stacks s"
  "msg_acct_list (ns_acct_bytes b s) = msg_acct_bytes (ns_addr s) b (msg_acct_list s)"
  "msg_acct_list (ns_acct_hdrs b s) = msg_acct_hdrs (ns_addr s) b (msg_acct_list s)"
  by (simp_all add: ns_acct_bytes_def ns_acct_hdrs_def)

lemma acct_get_bytes_hdrs:
  "msg_acct_get (msg_acct_hdrs n h (msg_acct_bytes n b l)) n =
     map_option (\<lambda>a. a\<lparr>acct_bytes := acct_bytes a + b, acct_hdrs := acct_hdrs a + h\<rparr>) (msg_acct_get l n)"
  by (cases "msg_acct_get l n") (simp_all add: msg_acct_hdrs_def msg_acct_bytes_def acct_get_add)

section \<open>Releasing a queue\<close>

lemma acct_drop_msgs:
  "msg_acct_get (acct_drop_msgs ns ms l) ns =
     map_option (\<lambda>a. a\<lparr>acct_hdrs := acct_hdrs a - of_nat (length ms)\<rparr>) (msg_acct_get l ns)"
proof (induction ms arbitrary: l)
  case Nil
  then show ?case by (simp add: option.map_ident_strong)
next
  case (Cons m ms)
  show ?case
    by (cases "msg_acct_get l ns") (simp_all add: Cons msg_acct_hdrs_def acct_get_add)
qed

lemma expunge_loop_stack:
  "distinct ts \<Longrightarrow> expunge_loop res ts st w =
     ((\<lambda>t. if t \<in> set ts then map_option (\<lambda>r. r\<lparr>r_msg := Inl res\<rparr>) (st t) else st t), w @ ts)"
  by (induction ts arbitrary: st w) (auto simp: fun_eq_iff)

lemma freeque_fields:
  assumes inv: "msg_inv s" and m: "map_of (ipcs_idr (msg_ids s)) i = Some p" and q: "objs (msg_ids s) p = Some q"
    and f: "freeque s p = (s', w)"
  shows "ids_wf (msg_ids s')" "ipcs_idr (msg_ids s') = AList.delete i (ipcs_idr (msg_ids s))"
    "\<And>r. r \<noteq> p \<Longrightarrow> objs (msg_ids s') r = objs (msg_ids s) r" "ns_addr s' = ns_addr s"
    "w = q_receivers q @ map fst (q_senders q)"
    "msg_acct_get (msg_acct_list s') (ns_addr s) =
       map_option (\<lambda>a. a\<lparr>acct_bytes := acct_bytes a - q_cbytes q, acct_hdrs := acct_hdrs a - q_qnum q\<rparr>)
         (msg_acct_get (msg_acct_list s) (ns_addr s))"
    "q_senders q = [] \<Longrightarrow> objs (msg_ids s') p = None"
    "q_senders q \<noteq> [] \<Longrightarrow> \<exists>q'. objs (msg_ids s') p = Some q' \<and> perm_deleted q'
       \<and> perm_refcount q' = length (q_senders q)"
    "\<And>t. t \<in> set (q_receivers q) \<Longrightarrow> msg_stacks s' t = map_option (\<lambda>r. r\<lparr>r_msg := Inl EIDRM\<rparr>) (msg_stacks s t)"
    "\<And>t. t \<notin> set (q_receivers q) \<Longrightarrow> msg_stacks s' t = msg_stacks s t"
proof -
  have link: "p \<in> snd ` set (ipcs_idr (msg_ids s))" using m by (force dest: map_of_SomeD)
  have ok: "queue_ok q" by (rule msg_inv_queue [OF inv link q])
  then have dr: "distinct (q_receivers q)" and rc: "perm_refcount q = Suc (length (q_senders q))"
    and qn: "q_qnum q = of_nat (length (q_messages q))" by (simp_all add: queue_ok_def)
  define q0 where "q0 = q\<lparr>q_senders := []\<rparr>"
  define ids0 where "ids0 = upd_obj p (\<lambda>_. q0) (msg_ids s)"
  define ids1 where "ids1 = ipc_rmid ids0 p"
  define ids2 where "ids2 = upd_obj p (\<lambda>q. q\<lparr>q_messages := [], q_lspid := None, q_lrpid := None\<rparr>) ids1"
  obtain st w1 where ex: "expunge_all q EIDRM (msg_stacks s) = (st, w1)" by fastforce
  have S: "msg_ids s' = ipc_rcu_putref ids2 p \<and> ns_addr s' = ns_addr s \<and> msg_stacks s' = st
      \<and> w = w1 @ map fst (q_senders q)
      \<and> msg_acct_list s' = msg_acct_bytes (ns_addr s) (- q_cbytes q) (acct_drop_msgs (ns_addr s) (q_messages q) (msg_acct_list s))"
    using f by (auto simp: freeque_def q Let_def ex ss_wakeup_def msg_rmid_def ids2_def ids1_def ids0_def q0_def upd_msq_def ns_acct_bytes_def)
  have q0: "objs ids0 p = Some q0" "perm_core q0 = perm_core q" by (simp_all add: ids0_def q q0_def perm_core_def)
  have wf0: "ids_wf ids0" unfolding ids0_def by (rule ids_wf_upd_obj [OF msg_inv_wf [OF inv]]) (use q q0(2) in simp)
  have m0: "map_of (ipcs_idr ids0) i = Some p" using m by (simp add: ids0_def)
  note R = ipc_rmid_fields [OF wf0 m0 q0(1)]
  have wf1: "ids_wf ids1" unfolding ids1_def by (rule ids_wf_rmid [OF wf0 m0])
  have nl: "p \<notin> snd ` set (ipcs_idr ids1)"
    unfolding ids1_def R(1) by (rule not_in_delete [OF ids_wf_distinct(2) [OF wf0] m0])
  show "ids_wf (msg_ids s')"
    by (rule ids_wf_unlinked_cong [OF wf1 nl]) (simp_all add: S ids2_def)
  show "ipcs_idr (msg_ids s') = AList.delete i (ipcs_idr (msg_ids s))"
    by (simp add: S ids2_def ids1_def R(1)) (simp add: ids0_def)
  show "objs (msg_ids s') r = objs (msg_ids s) r" if "r \<noteq> p" for r
    using that by (simp add: S ids2_def ids1_def R(4)) (simp add: ids0_def)
  show "ns_addr s' = ns_addr s" using S by simp
  have st: "w1 = q_receivers q \<and> st = (\<lambda>t. if t \<in> set (q_receivers q) then map_option (\<lambda>r. r\<lparr>r_msg := Inl EIDRM\<rparr>) (msg_stacks s t) else msg_stacks s t)"
    using ex unfolding expunge_all_def expunge_loop_stack [OF dr] prod.inject append_Nil by blast
  then show "w = q_receivers q @ map fst (q_senders q)" using S by simp
  show "msg_stacks s' t = map_option (\<lambda>r. r\<lparr>r_msg := Inl EIDRM\<rparr>) (msg_stacks s t)" if "t \<in> set (q_receivers q)" for t
    using S st that by simp
  show "msg_stacks s' t = msg_stacks s t" if "t \<notin> set (q_receivers q)" for t
    using S st that by simp
  show "msg_acct_get (msg_acct_list s') (ns_addr s) =
       map_option (\<lambda>a. a\<lparr>acct_bytes := acct_bytes a - q_cbytes q, acct_hdrs := acct_hdrs a - q_qnum q\<rparr>)
         (msg_acct_get (msg_acct_list s) (ns_addr s))"
    by (cases "msg_acct_get (msg_acct_list s) (ns_addr s)")
      (simp_all add: S msg_acct_bytes_def acct_get_add acct_drop_msgs qn)
  have o2: "objs ids2 p = Some (q0\<lparr>perm_deleted := True, q_messages := [], q_lspid := None, q_lrpid := None\<rparr>)"
    by (simp add: ids2_def ids1_def R(4))
  show "objs (msg_ids s') p = None" if "q_senders q = []"
    using S putref_obj [OF o2] rc that by (simp add: q0_def)
  show "\<exists>q'. objs (msg_ids s') p = Some q' \<and> perm_deleted q' \<and> perm_refcount q' = length (q_senders q)"
    if "q_senders q \<noteq> []"
    using S putref_obj [OF o2] rc that by (simp add: q0_def)
qed

lemma freeque_inv:
  assumes inv: "msg_inv s" and m: "map_of (ipcs_idr (msg_ids s)) i = Some p" and f: "freeque s p = (s', w)"
  shows "msg_inv s'"
proof -
  have wf: "ids_wf (msg_ids s)" by (rule msg_inv_wf [OF inv])
  obtain q where q: "objs (msg_ids s) p = Some q" by (rule ids_wf_entry [OF wf m])
  note F = freeque_fields [OF inv m q f]
  have sums: "table_sum g (msg_ids s') = table_sum g (msg_ids s) - g q" for g
    by (rule table_sum_removed [OF wf m q F(2,3)])
  have nl: "p \<notin> snd ` set (ipcs_idr (msg_ids s'))"
    unfolding F(2) by (rule not_in_delete [OF ids_wf_distinct(2) [OF wf] m])
  have "\<forall>r \<in> snd ` set (ipcs_idr (msg_ids s')). \<exists>x. objs (msg_ids s') r = Some x \<and> queue_ok x"
  proof
    fix r assume r: "r \<in> snd ` set (ipcs_idr (msg_ids s'))"
    then have "r \<noteq> p" "r \<in> snd ` set (ipcs_idr (msg_ids s))" using nl by (auto simp: F(2) AList.delete_eq)
    then show "\<exists>x. objs (msg_ids s') r = Some x \<and> queue_ok x" using inv F(3) unfolding msg_inv_def by metis
  qed
  moreover obtain a where "msg_acct_get (msg_acct_list s) (ns_addr s) = Some a"
      "acct_bytes a = table_sum q_cbytes (msg_ids s)" "acct_hdrs a = table_sum q_qnum (msg_ids s)"
    using inv by (auto simp: msg_inv_def)
  ultimately show ?thesis using F(1,6) by (simp add: msg_inv_def sums F(4))
qed

interpretation mq_class: ipc_class msg_ids "\<lambda>s p. fst (freeque s p)" msg_inv
proof unfold_locales
  fix s assume "msg_inv s" then show "ids_wf (msg_ids s)" by (rule msg_inv_wf)
next
  fix s i p assume a: "msg_inv s" "map_of (ipcs_idr (msg_ids s)) i = Some p"
  obtain s' w where f: "freeque s p = (s', w)" by fastforce
  show "msg_inv (fst (freeque s p))" using freeque_inv [OF a f] f by simp
  obtain q where "objs (msg_ids s) p = Some q" by (rule ids_wf_entry [OF msg_inv_wf [OF a(1)] a(2)])
  from freeque_fields(2) [OF a this f] f
  show "ipcs_idr (msg_ids (fst (freeque s p))) = AList.delete i (ipcs_idr (msg_ids s))" by simp
qed

end
