(* ===== verification/MsgSystem.thy ===== *)
theory MsgSystem
  imports MsgProps
begin

text \<open>
  The message queues of a namespace as a system: tasks make calls, sleep inside
  \<^verbatim>\<open>msgsnd\<close> and \<^verbatim>\<open>msgrcv\<close> and resume in any order. The system invariant says that queue
  memory lives exactly as long as the table or a sleeping sender refers to it, that the
  waiter lists hold exactly the sleeping tasks, and that a receiver that has its answer is
  off the list; every reachable state satisfies it.
\<close>

unbundle bit_operations_syntax

section \<open>Handing a message to a receiver\<close>

definition wants :: "msg_env \<Rightarrow> msg_queue \<Rightarrow> msg_msg \<Rightarrow> (nat \<rightharpoonup> msg_receiver) \<Rightarrow> nat \<Rightarrow> bool" where
  "wants e q m st t =
     (case st t of
        None \<Rightarrow> False
      | Some r \<Rightarrow> testmsg m (r_msgtype r) (r_mode r)
          \<and> lsm_msgrcv (me_lsm e) (kern_ipc_perm.truncate q) m t (r_msgtype r) (r_mode r) = None)"

definition too_small :: "msg_msg \<Rightarrow> (nat \<rightharpoonup> msg_receiver) \<Rightarrow> nat \<Rightarrow> bool" where
  "too_small m st t = (case st t of None \<Rightarrow> False | Some r \<Rightarrow> r_maxsize r < int (m_ts m))"

definition answer :: "msg_msg result \<Rightarrow> nat list \<Rightarrow> (nat \<rightharpoonup> msg_receiver) \<Rightarrow> (nat \<rightharpoonup> msg_receiver)" where
  "answer v ts st = (\<lambda>t. if t \<in> set ts then map_option (\<lambda>r. r\<lparr>r_msg := v\<rparr>) (st t) else st t)"

lemma truncate_receivers [simp]:
  "kern_ipc_perm.truncate (q_receivers_update f q) = kern_ipc_perm.truncate q"
  by (simp add: kern_ipc_perm.defs)

lemma receivers_update_val: "q_receivers_update f q = q\<lparr>q_receivers := f (q_receivers q)\<rparr>"
  by (cases q) simp

lemma pipelined_loop_spec:
  "distinct ts \<Longrightarrow> pipelined_loop e m ts q st wake =
    (let small = takeWhile (too_small m st) (filter (wants e q m st) ts)
     in case dropWhile (too_small m st) (filter (wants e q m st) ts) of
       [] \<Rightarrow> (q_receivers_update (fold remove1 small) q, answer (Inl E2BIG) small st, wake @ small, False)
     | t # _ \<Rightarrow> ((q_receivers_update (fold remove1 (small @ [t])) q)\<lparr>q_lrpid := Some t, q_rtime := clock_seconds (me_task e)\<rparr>,
                 answer (Inr m) [t] (answer (Inl E2BIG) small st), wake @ small @ [t], True))"
proof (induction ts arbitrary: q st wake)
  case Nil
  then show ?case by (simp add: answer_def)
next
  case (Cons t ts)
  show ?case
  proof (cases "wants e q m st t")
    case False
    then have "pipelined_loop e m (t # ts) q st wake = pipelined_loop e m ts q st wake"
      by (auto simp: wants_def split: option.splits)
    then show ?thesis using Cons.IH [of q st wake] Cons.prems False by simp
  next
    case True
    then obtain r where r: "st t = Some r" and take:
        "testmsg m (r_msgtype r) (r_mode r) \<and> lsm_msgrcv (me_lsm e) (kern_ipc_perm.truncate q) m t (r_msgtype r) (r_mode r) = None"
      by (auto simp: wants_def split: option.splits)
    show ?thesis
    proof (cases "too_small m st t")
      case small: True
      let ?q = "q_receivers_update (remove1 t) q" and ?st = "st(t \<mapsto> r\<lparr>r_msg := Inl E2BIG\<rparr>)"
      let ?W = "filter (wants e q m st) ts"
      have 1: "pipelined_loop e m (t # ts) q st wake = pipelined_loop e m ts ?q ?st (wake @ [t])"
        using r take small by (simp add: Let_def too_small_def)
      have 2: "filter (wants e ?q m ?st) ts = ?W"
        using Cons.prems by (intro filter_cong) (auto simp: wants_def split: option.splits)
      have "takeWhile (too_small m ?st) xs = takeWhile (too_small m st) xs \<and> dropWhile (too_small m ?st) xs = dropWhile (too_small m st) xs"
        if "t \<notin> set xs" for xs
        using that by (induction xs) (auto simp: too_small_def)
      then have 3: "takeWhile (too_small m ?st) ?W = takeWhile (too_small m st) ?W"
          "dropWhile (too_small m ?st) ?W = dropWhile (too_small m st) ?W" using Cons.prems by simp_all
      have 4: "answer (Inl E2BIG) xs ?st = answer (Inl E2BIG) (t # xs) st" for xs
        using r by (auto simp: answer_def fun_eq_iff)
      have 5: "takeWhile (too_small m st) (filter (wants e q m st) (t # ts)) = t # takeWhile (too_small m st) ?W"
          "dropWhile (too_small m st) (filter (wants e q m st) (t # ts)) = dropWhile (too_small m st) ?W"
        using True small by simp_all
      have d: "distinct ts" using Cons.prems by simp
      show ?thesis
        unfolding 1 Cons.IH [OF d] Let_def 2 3 4 5
        by (rule list.case_cong [OF refl]) (simp_all add: o_def)
    next
      case False
      then show ?thesis using r take True
        by (auto simp: Let_def too_small_def answer_def fun_eq_iff)
    qed
  qed
qed

lemma fold_remove1_filter: "distinct l \<Longrightarrow> fold remove1 xs l = filter (\<lambda>t. t \<notin> set xs) l"
proof (induction xs arbitrary: l)
  case (Cons x xs)
  then show ?case
    by (simp add: distinct_remove1_removeAll removeAll_filter_not_eq) (auto intro: filter_cong)
qed simp

text \<open>C35. A message offered to the waiting receivers goes to the first one that wants it and has
  room for it; the ones before it that want it but lack the room are taken off the list with
  E2BIG, everyone taken off is woken in list order, and nobody else is touched.\<close>

theorem pipelined_send_spec:
  assumes "distinct (q_receivers q)"
  shows "let takers = filter (wants e q m st) (q_receivers q);
             small = takeWhile (too_small m st) takers
         in pipelined_send e q m st =
           (case dropWhile (too_small m st) takers of
              [] \<Rightarrow> (q\<lparr>q_receivers := filter (\<lambda>t. t \<notin> set small) (q_receivers q)\<rparr>,
                     answer (Inl E2BIG) small st, small, False)
            | t # _ \<Rightarrow> (q\<lparr>q_receivers := filter (\<lambda>x. x \<notin> set (small @ [t])) (q_receivers q),
                          q_lrpid := Some t, q_rtime := clock_seconds (me_task e)\<rparr>,
                       answer (Inr m) [t] (answer (Inl E2BIG) small st), small @ [t], True))"
  unfolding Let_def pipelined_send_def pipelined_loop_spec [OF assms] receivers_update_val [of "fold remove1 xs" for xs]
    fold_remove1_filter [OF assms] append_Nil by (rule refl)

definition sample_rcv :: "search_mode \<Rightarrow> int \<Rightarrow> int \<Rightarrow> msg_receiver" where
  "sample_rcv mode ty mx = \<lparr>r_mode = mode, r_msgtype = ty, r_maxsize = mx, r_msg = Inl EAGAIN\<rparr>"

theorem pipelined_send_spec_witness:
  "snd (snd (pipelined_send (sample_env 1) ((sample_queue [] [])\<lparr>q_receivers := [4, 5, 6]\<rparr>) (sample_msg 3 7)
     [4 \<mapsto> sample_rcv SEARCH_EQUAL 9 100, 5 \<mapsto> sample_rcv SEARCH_ANY 0 2, 6 \<mapsto> sample_rcv SEARCH_LESSEQUAL 3 100])) = ([5, 6], True)"
  using pipelined_send_spec [of "(sample_queue [] [])\<lparr>q_receivers := [4, 5, 6]\<rparr>" "sample_env 1" "sample_msg 3 7"
     "[4 \<mapsto> sample_rcv SEARCH_EQUAL 9 100, 5 \<mapsto> sample_rcv SEARCH_ANY 0 2, 6 \<mapsto> sample_rcv SEARCH_LESSEQUAL 3 100]"]
  by (simp add: Let_def wants_def too_small_def sample_rcv_def sample_msg_def testmsg_def sample_env_def open_lsm_def)

end
