(* ===== verification/MsgReach.thy ===== *)
theory MsgReach
  imports MsgSystem
begin

text \<open>
  The step relation of the message queue system and the proof that its invariant holds in
  every reachable state.
\<close>

unbundle bit_operations_syntax

section \<open>Tasks and steps\<close>

text \<open>What a sleeping task is in: the arguments its call resumes with.\<close>

datatype waiting = WSend ptr msg_msg nat int | WRecv ptr nat search_mode int int

type_synonym msg_sys = "msg_ns \<times> (nat \<rightharpoonup> waiting)"

abbreviation cur :: "msg_env \<Rightarrow> nat" where "cur e \<equiv> cur_task (me_task e)"

text \<open>
  A task that does not sleep makes a call; a sleeping one resumes (woken, or by a signal). The
  environment of every step is its own, its containers behaving as documented.
\<close>

inductive msg_step :: "(msg_env \<Rightarrow> bool) \<Rightarrow> msg_sys \<Rightarrow> msg_sys \<Rightarrow> bool" for ok where
  get: "\<lbrakk>ok e; w (cur e) = None; ksys_msgget e k flg s = (s', r)\<rbrakk> \<Longrightarrow> msg_step ok (s, w) (s', w)"
| snd: "\<lbrakk>ok e; w (cur e) = None; do_msgsnd e s i ty loaded sz flg = (s', wk, Return r)\<rbrakk> \<Longrightarrow> msg_step ok (s, w) (s', w)"
| snd_sleep: "\<lbrakk>ok e; w (cur e) = None; do_msgsnd e s i ty (Inr m) sz flg = (s', wk, Sleep p)\<rbrakk>
    \<Longrightarrow> msg_step ok (s, w) (s', w(cur e \<mapsto> WSend p (m\<lparr>m_type := ty, m_ts := sz\<rparr>) sz flg))"
| snd_resume: "\<lbrakk>ok e; w (cur e) = Some (WSend p m sz flg); msgsnd_resume e s p m sz flg = (s', wk, Return r)\<rbrakk>
    \<Longrightarrow> msg_step ok (s, w) (s', w(cur e := None))"
| snd_again: "\<lbrakk>ok e; w (cur e) = Some (WSend p m sz flg); msgsnd_resume e s p m sz flg = (s', wk, Sleep p')\<rbrakk>
    \<Longrightarrow> msg_step ok (s, w) (s', w)"
| rcv: "\<lbrakk>ok e; w (cur e) = None; do_msgrcv ckpt e s i sz ty flg load = (s', wk, Return r)\<rbrakk> \<Longrightarrow> msg_step ok (s, w) (s', w)"
| rcv_sleep: "\<lbrakk>ok e; w (cur e) = None; do_msgrcv ckpt e s i sz ty flg load = (s', wk, Sleep p); convert_mode ty flg = (mode, ty')\<rbrakk>
    \<Longrightarrow> msg_step ok (s, w) (s', w(cur e \<mapsto> WRecv p sz mode ty' flg))"
| rcv_resume: "\<lbrakk>ok e; w (cur e) = Some (WRecv p sz mode ty flg); msgrcv_resume ckpt e s p sz mode ty flg = (s', wk, Return r)\<rbrakk>
    \<Longrightarrow> msg_step ok (s, w) (s', w(cur e := None))"
| rcv_again: "\<lbrakk>ok e; w (cur e) = Some (WRecv p sz mode ty flg); msgrcv_resume ckpt e s p sz mode ty flg = (s', wk, Sleep p')\<rbrakk>
    \<Longrightarrow> msg_step ok (s, w) (s', w)"
| ctl: "\<lbrakk>ok e; w (cur e) = None; ksys_msgctl e s i cmd cp v64 old version = (s', wk, out, r)\<rbrakk> \<Longrightarrow> msg_step ok (s, w) (s', w)"
| compat_ctl: "\<lbrakk>ok e; w (cur e) = None; compat_ksys_msgctl e s i cmd cp p64 p32 version = (s', wk, out, r)\<rbrakk>
    \<Longrightarrow> msg_step ok (s, w) (s', w)"

inductive msg_reachable :: "(msg_env \<Rightarrow> bool) \<Rightarrow> msg_sys \<Rightarrow> bool" for ok where
  init: "\<lbrakk>msg_acct_get (msg_acct_list s0) (ns_addr s0) = None; msg_init_ns mem s0 = (s, None)\<rbrakk>
    \<Longrightarrow> msg_reachable ok (s, Map.empty)"
| step: "\<lbrakk>msg_reachable ok x; msg_step ok x y\<rbrakk> \<Longrightarrow> msg_reachable ok y"

section \<open>The invariant\<close>

abbreviation linked :: "'o ipc_ids \<Rightarrow> ptr set" where "linked ids \<equiv> snd ` set (ipcs_idr ids)"

definition snd_waiters :: "(nat \<rightharpoonup> waiting) \<Rightarrow> ptr \<Rightarrow> nat set" where
  "snd_waiters w p = {t. \<exists>m sz fl. w t = Some (WSend p m sz fl)}"

text \<open>Senders: the list of a linked queue holds exactly the tasks sleeping on it; a queue that was
  removed is in memory exactly while tasks still sleep on it, one reference each.\<close>

definition snd_ok :: "msg_queue ipc_ids \<Rightarrow> (nat \<rightharpoonup> waiting) \<Rightarrow> bool" where
  "snd_ok ids w \<longleftrightarrow>
     (\<forall>p. if p \<in> linked ids then \<forall>q. objs ids p = Some q \<longrightarrow> fst ` set (q_senders q) = snd_waiters w p
          else case objs ids p of
                 None \<Rightarrow> snd_waiters w p = {}
               | Some q \<Rightarrow> perm_deleted q \<and> snd_waiters w p \<noteq> {} \<and> perm_refcount q = card (snd_waiters w p))"

definition rcv_waits :: "(nat \<rightharpoonup> waiting) \<Rightarrow> nat \<Rightarrow> ptr \<Rightarrow> bool" where
  "rcv_waits w t p \<longleftrightarrow> (\<exists>sz mode ty fl. w t = Some (WRecv p sz mode ty fl))"

text \<open>Receivers: a task on the list of a linked queue sleeps there without an answer, and a
  task that sleeps without an answer is on the list of its queue.\<close>

definition rcv_ok :: "msg_queue ipc_ids \<Rightarrow> (nat \<rightharpoonup> msg_receiver) \<Rightarrow> (nat \<rightharpoonup> waiting) \<Rightarrow> bool" where
  "rcv_ok ids st w \<longleftrightarrow>
     (\<forall>p \<in> linked ids. \<forall>q. objs ids p = Some q \<longrightarrow>
        (\<forall>t \<in> set (q_receivers q). rcv_waits w t p \<and> (\<exists>r. st t = Some r \<and> r_msg r = Inl EAGAIN)))
     \<and> (\<forall>t p. rcv_waits w t p \<longrightarrow>
          (\<exists>r. st t = Some r \<and> (r_msg r = Inl EAGAIN \<longrightarrow>
             p \<in> linked ids \<and> (\<exists>q. objs ids p = Some q \<and> t \<in> set (q_receivers q)))))"

definition wsend_ok :: "(nat \<rightharpoonup> waiting) \<Rightarrow> bool" where
  "wsend_ok w \<longleftrightarrow> (\<forall>t p m sz fl. w t = Some (WSend p m sz fl) \<longrightarrow> m_ts m = sz \<and> 1 \<le> m_type m)"

definition sys_inv :: "msg_sys \<Rightarrow> bool" where
  "sys_inv x \<longleftrightarrow> (case x of (s, w) \<Rightarrow>
     msg_inv s \<and> finite (dom w) \<and> wsend_ok w \<and> snd_ok (msg_ids s) w \<and> rcv_ok (msg_ids s) (msg_stacks s) w)"

lemma snd_ok_linked: "\<lbrakk>snd_ok ids w; p \<in> linked ids; objs ids p = Some q\<rbrakk> \<Longrightarrow> fst ` set (q_senders q) = snd_waiters w p"
  unfolding snd_ok_def by meson

lemma snd_ok_unlinked:
  assumes "snd_ok ids w" "p \<notin> linked ids"
  shows "case objs ids p of None \<Rightarrow> snd_waiters w p = {}
     | Some q \<Rightarrow> perm_deleted q \<and> snd_waiters w p \<noteq> {} \<and> perm_refcount q = card (snd_waiters w p)"
  using assms unfolding snd_ok_def by meson

lemma snd_ok_write:
  assumes "snd_ok ids w" "p \<in> linked ids" "ids' = upd_obj p (\<lambda>_. q') ids" "objs ids p = Some q"
    and "\<And>r. r \<noteq> p \<Longrightarrow> snd_waiters w' r = snd_waiters w r" "fst ` set (q_senders q') = snd_waiters w' p"
  shows "snd_ok ids' w'"
  unfolding snd_ok_def
proof
  fix r
  show "if r \<in> linked ids' then \<forall>q. objs ids' r = Some q \<longrightarrow> fst ` set (q_senders q) = snd_waiters w' r
        else case objs ids' r of None \<Rightarrow> snd_waiters w' r = {}
               | Some q \<Rightarrow> perm_deleted q \<and> snd_waiters w' r \<noteq> {} \<and> perm_refcount q = card (snd_waiters w' r)"
  proof (cases "r = p")
    case True
    then show ?thesis using assms by simp
  next
    case False
    then show ?thesis using assms(1,3,5) unfolding snd_ok_def by (simp cong: option.case_cong)
  qed
qed

lemma rcv_okD1: "\<lbrakk>rcv_ok ids st w; p \<in> linked ids; objs ids p = Some q; t \<in> set (q_receivers q)\<rbrakk>
   \<Longrightarrow> rcv_waits w t p \<and> (\<exists>r. st t = Some r \<and> r_msg r = Inl EAGAIN)"
  unfolding rcv_ok_def by blast

lemma rcv_okD2: "\<lbrakk>rcv_ok ids st w; rcv_waits w t p\<rbrakk> \<Longrightarrow> \<exists>r. st t = Some r \<and> (r_msg r = Inl EAGAIN \<longrightarrow>
             p \<in> linked ids \<and> (\<exists>q. objs ids p = Some q \<and> t \<in> set (q_receivers q)))"
  unfolding rcv_ok_def by blast

lemma rcv_waits_unique: "\<lbrakk>rcv_waits w t p; rcv_waits w t p'\<rbrakk> \<Longrightarrow> p = p'"
  by (auto simp: rcv_waits_def)

lemma rcv_ok_write:
  assumes ok: "rcv_ok ids st w" and p: "p \<in> linked ids" "objs ids p = Some q" and ids': "ids' = upd_obj p (\<lambda>_. q') ids"
    and on: "\<And>t. t \<in> set (q_receivers q') \<Longrightarrow> rcv_waits w' t p \<and> (\<exists>r. st' t = Some r \<and> r_msg r = Inl EAGAIN)"
    and other: "\<And>t r. \<lbrakk>rcv_waits w t r; r \<noteq> p\<rbrakk> \<Longrightarrow> rcv_waits w' t r \<and> st' t = st t"
    and off: "\<And>t r. \<lbrakk>rcv_waits w' t r; t \<notin> set (q_receivers q')\<rbrakk> \<Longrightarrow>
       (r \<noteq> p \<and> rcv_waits w t r \<and> st' t = st t) \<or> (\<exists>x. st' t = Some x \<and> r_msg x \<noteq> Inl EAGAIN)"
  shows "rcv_ok ids' st' w'"
  unfolding rcv_ok_def
proof (intro conjI ballI allI impI)
  fix r x t assume r: "r \<in> linked ids'" "objs ids' r = Some x" "t \<in> set (q_receivers x)"
  have "rcv_waits w' t r \<and> (\<exists>y. st' t = Some y \<and> r_msg y = Inl EAGAIN)"
  proof (cases "r = p")
    case True
    then show ?thesis using r on p(2) by (simp add: ids')
  next
    case False
    then have "r \<in> linked ids" "objs ids r = Some x" using r by (simp_all add: ids')
    from rcv_okD1 [OF ok this r(3)] show ?thesis using other [of t r] False by simp
  qed
  then show "rcv_waits w' t r" "\<exists>y. st' t = Some y \<and> r_msg y = Inl EAGAIN" by blast+
next
  fix t r assume r: "rcv_waits w' t r"
  show "\<exists>x. st' t = Some x \<and> (r_msg x = Inl EAGAIN \<longrightarrow> r \<in> linked ids' \<and> (\<exists>q. objs ids' r = Some q \<and> t \<in> set (q_receivers q)))"
  proof (cases "t \<in> set (q_receivers q')")
    case True
    with on have "rcv_waits w' t p" "\<exists>y. st' t = Some y \<and> r_msg y = Inl EAGAIN" by blast+
    moreover have "r = p" using rcv_waits_unique r calculation(1) by blast
    ultimately show ?thesis using True p by (auto simp: ids')
  next
    case False
    from off [OF r this] show ?thesis
    proof
      assume a: "r \<noteq> p \<and> rcv_waits w t r \<and> st' t = st t"
      with rcv_okD2 [OF ok, of t r] show ?thesis by (simp add: ids')
    qed auto
  qed
qed

section \<open>Writing to one queue\<close>

lemma sys_write:
  assumes inv: "sys_inv (s, w)" and p: "p \<in> linked (msg_ids s)" "objs (msg_ids s) p = Some q"
    and q': "perm_core q' = perm_core q" "queue_ok q'" and ids': "msg_ids s' = upd_obj p (\<lambda>_. q') (msg_ids s)"
    and ns: "ns_addr s' = ns_addr s"
    and acct: "msg_acct_get (msg_acct_list s') (ns_addr s) =
      map_option (\<lambda>a. a\<lparr>acct_bytes := acct_bytes a + (q_cbytes q' - q_cbytes q),
                       acct_hdrs := acct_hdrs a + (q_qnum q' - q_qnum q)\<rparr>) (msg_acct_get (msg_acct_list s) (ns_addr s))"
    and w': "finite (dom w')" "wsend_ok w'"
    and snd: "\<And>r. r \<noteq> p \<Longrightarrow> snd_waiters w' r = snd_waiters w r" "fst ` set (q_senders q') = snd_waiters w' p"
    and rcv: "rcv_ok (msg_ids s') (msg_stacks s') w'"
  shows "sys_inv (s', w')"
proof -
  have "msg_inv s'" by (rule msg_inv_step [OF _ p q' ids' ns acct]) (use inv in \<open>simp add: sys_inv_def\<close>)
  moreover have "snd_ok (msg_ids s') w'"
    by (rule snd_ok_write [OF _ p(1) ids' p(2) snd]) (use inv in \<open>simp add: sys_inv_def\<close>)
  ultimately show ?thesis using w' rcv by (simp add: sys_inv_def)
qed

lemma acct_same: "map_option (\<lambda>a. a\<lparr>acct_bytes := acct_bytes a + (b - b), acct_hdrs := acct_hdrs a + (h - h)\<rparr>) x = x"
  by (cases x) simp_all

lemma sys_inv_parts:
  assumes "sys_inv (s, w)"
  shows "msg_inv s" "finite (dom w)" "wsend_ok w" "snd_ok (msg_ids s) w" "rcv_ok (msg_ids s) (msg_stacks s) w" "ids_wf (msg_ids s)"
  using assms by (simp_all add: sys_inv_def msg_inv_wf)

text \<open>A write that answers some receivers and takes them off the list.\<close>

lemma rcv_ok_answered:
  assumes ok: "rcv_ok ids st w" and p: "p \<in> linked ids" "objs ids p = Some q" and ids': "ids' = upd_obj p (\<lambda>_. q') ids"
    and A: "set (q_receivers q') = set (q_receivers q) - A" "A \<subseteq> set (q_receivers q)"
    and st': "\<And>t. t \<notin> A \<Longrightarrow> st' t = st t"
       "\<And>t. t \<in> A \<Longrightarrow> \<exists>v. v \<noteq> Inl EAGAIN \<and> st' t = map_option (\<lambda>r. r\<lparr>r_msg := v\<rparr>) (st t)"
  shows "rcv_ok ids' st' w"
proof (rule rcv_ok_write [OF ok p ids'])
  fix t assume "t \<in> set (q_receivers q')"
  then have "t \<in> set (q_receivers q)" "t \<notin> A" using A by auto
  then show "rcv_waits w t p \<and> (\<exists>r. st' t = Some r \<and> r_msg r = Inl EAGAIN)"
    using rcv_okD1 [OF ok p] st'(1) by simp
next
  fix t r assume "rcv_waits w t r" "r \<noteq> p"
  then have "t \<notin> A" using rcv_okD1 [OF ok p] rcv_waits_unique A(2) by (metis subsetD)
  then show "rcv_waits w t r \<and> st' t = st t" using st'(1) \<open>rcv_waits w t r\<close> by simp
next
  fix t r assume a: "rcv_waits w t r" "t \<notin> set (q_receivers q')"
  show "(r \<noteq> p \<and> rcv_waits w t r \<and> st' t = st t) \<or> (\<exists>x. st' t = Some x \<and> r_msg x \<noteq> Inl EAGAIN)"
  proof (cases "t \<in> A")
    case True
    then obtain x where "st t = Some x" using rcv_okD1 [OF ok p] A(2) by blast
    then show ?thesis using st'(2) [OF True] by auto
  next
    case False
    then have "t \<notin> set (q_receivers q)" using a(2) A by auto
    then show ?thesis using rcv_okD2 [OF ok a(1)] st'(1) [OF False] a(1) p(2) by auto
  qed
qed

section \<open>Sending\<close>

lemma pipelined_frame:
  assumes "pipelined_send e q m st = (q', st', wk, b)" "distinct (q_receivers q)"
  shows "\<exists>rs lr rt. q' = q\<lparr>q_receivers := rs, q_lrpid := lr, q_rtime := rt\<rparr> \<and> distinct rs
      \<and> (\<exists>A. A \<subseteq> set (q_receivers q) \<and> set rs = set (q_receivers q) - A
          \<and> (\<forall>t. t \<notin> A \<longrightarrow> st' t = st t)
          \<and> (\<forall>t \<in> A. \<exists>v. v \<noteq> Inl EAGAIN \<and> st' t = map_option (\<lambda>r. r\<lparr>r_msg := v\<rparr>) (st t)))"
proof -
  define takers where "takers = filter (wants e q m st) (q_receivers q)"
  define small where "small = takeWhile (too_small m st) takers"
  have sub: "set small \<subseteq> set (q_receivers q)"
    unfolding small_def takers_def by (auto dest: set_takeWhileD)
  note spec = pipelined_send_spec [OF assms(2), of e m st, unfolded Let_def, folded takers_def, folded small_def]
  show ?thesis
  proof (cases "dropWhile (too_small m st) takers")
    case Nil
    then have eq: "q' = q\<lparr>q_receivers := filter (\<lambda>t. t \<notin> set small) (q_receivers q)\<rparr>" "st' = answer (Inl E2BIG) small st"
      using assms(1) unfolding spec Nil list.case prod.inject by blast+
    show ?thesis
      by (rule exI [of _ "filter (\<lambda>t. t \<notin> set small) (q_receivers q)"], rule exI [of _ "q_lrpid q"], rule exI [of _ "q_rtime q"],
          intro conjI exI [of _ "set small"]) (use assms(2) sub in \<open>auto simp: eq answer_def\<close>)
  next
    case (Cons t ts)
    let ?A = "set (small @ [t])"
    have eq: "q' = q\<lparr>q_receivers := filter (\<lambda>x. x \<notin> ?A) (q_receivers q), q_lrpid := Some t, q_rtime := clock_seconds (me_task e)\<rparr>"
        "st' = answer (Inr m) [t] (answer (Inl E2BIG) small st)"
      using assms(1) unfolding spec Cons list.case prod.inject by blast+
    have "t \<in> set (dropWhile (too_small m st) takers)" using Cons by simp
    then have "t \<in> set (q_receivers q)" by (auto simp: takers_def dest: set_dropWhileD)
    then have subA: "?A \<subseteq> set (q_receivers q)" using sub by simp
    have v: "\<exists>v. v \<noteq> Inl EAGAIN \<and> st' x = map_option (\<lambda>r. r\<lparr>r_msg := v\<rparr>) (st x)" if "x \<in> ?A" for x
    proof (cases "x = t")
      case True
      then have "st' x = map_option (\<lambda>r. r\<lparr>r_msg := Inr m\<rparr>) (st x)" by (cases "st x") (simp_all add: eq answer_def)
      then show ?thesis by (intro exI [of _ "Inr m"]) simp
    next
      case False
      then have "st' x = map_option (\<lambda>r. r\<lparr>r_msg := Inl E2BIG\<rparr>) (st x)" using that by (simp add: eq answer_def)
      then show ?thesis by (intro exI [of _ "Inl E2BIG"]) simp
    qed
    show ?thesis
      by (rule exI [of _ "filter (\<lambda>x. x \<notin> ?A) (q_receivers q)"], rule exI [of _ "Some t"], rule exI [of _ "clock_seconds (me_task e)"],
          intro conjI exI [of _ ?A]) (use assms(2) subA v in \<open>auto simp: eq answer_def\<close>)
  qed
qed

lemma sys_write_same:
  assumes inv: "sys_inv (s, w)" and p: "p \<in> linked (msg_ids s)" "objs (msg_ids s) p = Some q"
    and q': "perm_core q' = perm_core q" "queue_ok q'" "q_cbytes q' = q_cbytes q" "q_qnum q' = q_qnum q"
    and s': "s' = upd_msq p (\<lambda>_. q') (s\<lparr>msg_stacks := st'\<rparr>)"
    and w': "finite (dom w')" "wsend_ok w'"
    and snd: "\<And>r. r \<noteq> p \<Longrightarrow> snd_waiters w' r = snd_waiters w r" "fst ` set (q_senders q') = snd_waiters w' p"
    and rcv: "rcv_ok (upd_obj p (\<lambda>_. q') (msg_ids s)) st' w'"
  shows "sys_inv (s', w')"
  by (rule sys_write [OF inv p q'(1,2) _ _ _ w' snd])
    (use rcv in \<open>simp_all add: s' q'(3,4) option.map_ident_strong\<close>)

lemma queue_ok_enqueue:
  assumes "queue_ok q" "1 \<le> m_type m"
  shows "queue_ok (q\<lparr>q_messages := q_messages q @ [m], q_cbytes := q_cbytes q + of_nat (m_ts m), q_qnum := q_qnum q + 1\<rparr>)"
  using assms by (auto simp: queue_ok_def msg_bytes_of_def)

lemma msgsnd_commit_inv:
  assumes inv: "sys_inv (s, w)" and p: "p \<in> linked (msg_ids s)" "objs (msg_ids s) p = Some q"
    and m: "m_ts m = sz" "1 \<le> m_type m" and c: "msgsnd_commit e s p q m sz = (s', wk)"
  shows "sys_inv (s', w)"
proof -
  note P = sys_inv_parts [OF inv]
  have ok: "queue_ok q" by (rule msg_inv_queue [OF P(1) p])
  define q0 where "q0 = q\<lparr>q_lspid := Some (cur_tgid (me_task e)), q_stime := clock_seconds (me_task e)\<rparr>"
  obtain q1 st1 wk1 b where ps: "pipelined_send e q0 m (msg_stacks s) = (q1, st1, wk1, b)" by (metis prod_cases4)
  have "distinct (q_receivers q0)" using ok by (simp add: q0_def queue_ok_def)
  from pipelined_frame [OF ps this] obtain rs lr rt A where
    q1: "q1 = q0\<lparr>q_receivers := rs, q_lrpid := lr, q_rtime := rt\<rparr>" "distinct rs" and
    A: "A \<subseteq> set (q_receivers q)" "set rs = set (q_receivers q) - A" and
    st1: "\<forall>t. t \<notin> A \<longrightarrow> st1 t = msg_stacks s t"
      "\<forall>t \<in> A. \<exists>v. v \<noteq> Inl EAGAIN \<and> st1 t = map_option (\<lambda>r. r\<lparr>r_msg := v\<rparr>) (msg_stacks s t)"
    by (auto simp: q0_def)
  have ok1: "queue_ok q1" and core1: "perm_core q1 = perm_core q"
    using ok q1(2) by (simp_all add: q1(1) q0_def queue_ok_def msg_bytes_of_def perm_core_def)
  have snd1: "fst ` set (q_senders q1) = snd_waiters w p"
    using snd_ok_linked [OF P(4) p] by (simp add: q1 q0_def)
  have rcv: "rcv_ok (upd_obj p (\<lambda>_. q') (msg_ids s)) st1 w" if "q_receivers q' = rs" for q'
    by (rule rcv_ok_answered [OF P(5) p refl, where A = A]) (use that A st1 in auto)
  show ?thesis
  proof (cases b)
    case True
    then have s': "s' = upd_msq p (\<lambda>_. q1) (s\<lparr>msg_stacks := st1\<rparr>)"
      using c ps by (simp add: msgsnd_commit_def Let_def q0_def)
    show ?thesis
      by (rule sys_write_same [OF inv p core1 ok1 _ _ s' P(2,3) refl snd1])
        (use rcv [of q1] in \<open>simp_all add: q1 q0_def\<close>)
  next
    case False
    define q2 where "q2 = q1\<lparr>q_messages := q_messages q1 @ [m], q_cbytes := q_cbytes q1 + of_nat (m_ts m), q_qnum := q_qnum q1 + 1\<rparr>"
    have s': "s' = ns_acct_hdrs 1 (ns_acct_bytes (of_nat sz) (upd_msq p (\<lambda>_. q2) (s\<lparr>msg_stacks := st1\<rparr>)))"
      using c ps False by (simp add: msgsnd_commit_def Let_def q0_def q2_def m(1))
    show ?thesis
    proof (rule sys_write [OF inv p _ _ _ _ _ P(2,3)])
      show "perm_core q2 = perm_core q" using core1 by (simp add: q2_def perm_core_def)
      show "queue_ok q2" unfolding q2_def by (rule queue_ok_enqueue [OF ok1 m(2)])
      show "rcv_ok (msg_ids s') (msg_stacks s') w" using rcv [of q2] by (simp add: s' q2_def q1)
      show "fst ` set (q_senders q2) = snd_waiters w p" using snd1 by (simp add: q2_def)
      show "msg_acct_get (msg_acct_list s') (ns_addr s) = map_option (\<lambda>a. a\<lparr>acct_bytes := acct_bytes a + (q_cbytes q2 - q_cbytes q),
          acct_hdrs := acct_hdrs a + (q_qnum q2 - q_qnum q)\<rparr>) (msg_acct_get (msg_acct_list s) (ns_addr s))"
        by (simp add: s' acct_get_bytes_hdrs q2_def q1 q0_def m(1))
    qed (simp_all add: s')
  qed
qed

lemma snd_waiters_upd:
  "snd_waiters (w(t \<mapsto> WSend p m sz fl)) r = (if r = p then insert t (snd_waiters w p) else snd_waiters w r - {t})"
  by (auto simp: snd_waiters_def)

lemma snd_waiters_none: "w t = None \<Longrightarrow> t \<notin> snd_waiters w r"
  by (simp add: snd_waiters_def)

lemma rcv_waits_none: "w t = None \<Longrightarrow> \<not> rcv_waits w t r"
  by (simp add: rcv_waits_def)

lemma getref_val:
  "\<lbrakk>objs ids p = Some q; perm_refcount q \<noteq> 0\<rbrakk> \<Longrightarrow>
     ipc_rcu_getref ids p = (upd_obj p (\<lambda>q. q\<lparr>perm_refcount := perm_refcount q + 1\<rparr>) ids, True)"
  by (simp add: ipc_rcu_getref_def)

lemma rcv_ok_frame:
  assumes ok: "rcv_ok ids st w" and l: "linked ids' = linked ids" and o': "\<And>r. r \<in> linked ids \<Longrightarrow> objs ids' r = objs ids r"
  shows "rcv_ok ids' st w"
  unfolding rcv_ok_def l
proof (intro conjI ballI allI impI)
  fix p q t assume "p \<in> linked ids" "objs ids' p = Some q" "t \<in> set (q_receivers q)"
  then show "rcv_waits w t p" "\<exists>r. st t = Some r \<and> r_msg r = Inl EAGAIN"
    using rcv_okD1 [OF ok] o' by metis+
next
  fix t p assume "rcv_waits w t p"
  from rcv_okD2 [OF ok this] obtain r where r: "st t = Some r"
    "r_msg r = Inl EAGAIN \<longrightarrow> p \<in> linked ids \<and> (\<exists>q. objs ids p = Some q \<and> t \<in> set (q_receivers q))" by blast
  then show "\<exists>r. st t = Some r \<and> (r_msg r = Inl EAGAIN \<longrightarrow> p \<in> linked ids \<and> (\<exists>q. objs ids' p = Some q \<and> t \<in> set (q_receivers q)))"
    using o' [of p] by (intro exI [of _ r]) simp
qed

lemma rcv_ok_waits_cong: "(\<And>t r. rcv_waits w' t r = rcv_waits w t r) \<Longrightarrow> rcv_ok ids st w' = rcv_ok ids st w"
  by (simp add: rcv_ok_def)

lemma rcv_ok_same:
  assumes "rcv_ok ids st w" "p \<in> linked ids" "objs ids p = Some q" "set (q_receivers q') = set (q_receivers q)"
    "\<And>t r. rcv_waits w' t r = rcv_waits w t r"
  shows "rcv_ok (upd_obj p (\<lambda>_. q') ids) st w'"
  unfolding rcv_ok_waits_cong [OF assms(5)]
  by (rule rcv_ok_answered [OF assms(1-3) refl, where A = "{}"]) (use assms(4) in auto)

lemma valid_linked:
  assumes "snd_ok ids w" "ipc_valid_object ids p"
  obtains q where "p \<in> linked ids" "objs ids p = Some q"
proof -
  obtain q where q: "objs ids p = Some q" "\<not> perm_deleted q"
    using assms(2) by (auto simp: ipc_valid_object_def split: option.splits)
  have "p \<in> linked ids"
  proof (rule ccontr)
    assume "p \<notin> linked ids"
    from snd_ok_unlinked [OF assms(1) this] q show False by simp
  qed
  then show thesis using that q by blast
qed

lemma msgsnd_round_cases:
  assumes inv: "sys_inv (s, w)" and idle: "w (cur e) = None" and m: "m_ts m = sz" "1 \<le> m_type m"
    and run: "msgsnd_round e s p m sz flg = (s', wk, r)"
  shows "(\<exists>v. r = Return v \<and> sys_inv (s', w)) \<or> (r = Sleep p \<and> sys_inv (s', w(cur e \<mapsto> WSend p m sz flg)))"
proof -
  note P = sys_inv_parts [OF inv]
  show ?thesis
  proof (cases "objs (msg_ids s) p = None \<or> \<not> ipc_valid_object (msg_ids s) p")
    case True
    then have "s' = s \<and> (\<exists>v. r = Return v)"
      using run by (auto simp: msgsnd_round_def split: option.splits if_splits)
    then show ?thesis using inv by blast
  next
    case False
    then obtain q where p: "p \<in> linked (msg_ids s)" "objs (msg_ids s) p = Some q"
      using valid_linked [OF P(4)] by blast
    have ok: "queue_ok q" by (rule msg_inv_queue [OF P(1) p])
    consider (err) v where "s' = s" "r = Return v"
      | (commit) "msgsnd_commit e s p q m sz = (s', wk)" "r = Return None"
      | (sleep) "\<not> msg_fits_inqueue q (of_nat sz)" "(s', wk, r) =
          (let s = upd_msq p (ss_add (cur e) (of_nat sz)) s
           in case ipc_rcu_getref (msg_ids s) p of
                (ids, False) \<Rightarrow> (s, [], Return (Some EIDRM)) | (ids, True) \<Rightarrow> (s\<lparr>msg_ids := ids\<rparr>, [], Sleep p))"
    proof -
      assume *: "\<And>v. s' = s \<Longrightarrow> r = Return v \<Longrightarrow> thesis" "msgsnd_commit e s p q m sz = (s', wk) \<Longrightarrow> r = Return None \<Longrightarrow> thesis"
        "\<not> msg_fits_inqueue q (of_nat sz) \<Longrightarrow> (s', wk, r) =
          (let s = upd_msq p (ss_add (cur e) (of_nat sz)) s
           in case ipc_rcu_getref (msg_ids s) p of
                (ids, False) \<Rightarrow> (s, [], Return (Some EIDRM)) | (ids, True) \<Rightarrow> (s\<lparr>msg_ids := ids\<rparr>, [], Sleep p)) \<Longrightarrow> thesis"
      note run' = run [unfolded msgsnd_round_def p(2) option.case]
      show thesis
        by (cases "ipcperms (me_task e) (lsm_ipc (me_lsm e)) q S_IWUGO = None";
            cases "ipc_valid_object (msg_ids s) p"; cases "lsm_msgsnd (me_lsm e) (kern_ipc_perm.truncate q) m flg";
            cases "msg_fits_inqueue q (of_nat sz)"; cases "flg AND IPC_NOWAIT = 0"; cases "msgsnd_commit e s p q m sz")
          (use run' in \<open>auto intro: *\<close>)
    qed
    then show ?thesis
    proof cases
      case err
      then show ?thesis using inv by simp
    next
      case commit
      then show ?thesis using msgsnd_commit_inv [OF inv p m commit(1)] by simp
    next
      case sleep
      define q' where "q' = (ss_add (cur e) (of_nat sz) q)\<lparr>perm_refcount := perm_refcount q + 1\<rparr>"
      have s': "s' = upd_msq p (\<lambda>_. q') s \<and> r = Sleep p"
        using sleep(2) ok p(2)
        by (simp add: Let_def ipc_rcu_getref_def queue_ok_def ss_add_def q'_def upd_msq_def upd_obj_def fun_upd_idem_iff split: if_splits)
      have fresh: "cur e \<notin> fst ` set (q_senders q)"
        using snd_ok_linked [OF P(4) p] snd_waiters_none [of w "cur e", OF idle] by blast
      have rcv: "rcv_ok (upd_obj p (\<lambda>_. q') (msg_ids s)) (msg_stacks s) (w(cur e \<mapsto> WSend p m sz flg))"
        by (rule rcv_ok_same [OF P(5) p]) (use idle in \<open>auto simp: q'_def ss_add_def rcv_waits_def\<close>)
      have "sys_inv (upd_msq p (\<lambda>_. q') (s\<lparr>msg_stacks := msg_stacks s\<rparr>), w(cur e \<mapsto> WSend p m sz flg))"
      proof (rule sys_write_same [OF inv p _ _ _ _ refl])
        show "perm_core q' = perm_core q" "q_cbytes q' = q_cbytes q" "q_qnum q' = q_qnum q"
          using ok by (simp_all add: q'_def ss_add_def perm_core_def queue_ok_def)
        show "queue_ok q'" using ok fresh by (auto simp: q'_def ss_add_def queue_ok_def msg_bytes_of_def)
        show "finite (dom (w(cur e \<mapsto> WSend p m sz flg)))" using P(2) by simp
        show "wsend_ok (w(cur e \<mapsto> WSend p m sz flg))" using P(3) m by (simp add: wsend_ok_def)
        show "snd_waiters (w(cur e \<mapsto> WSend p m sz flg)) r = snd_waiters w r" if "r \<noteq> p" for r
          using that snd_waiters_none [of w "cur e" r, OF idle] by (simp add: snd_waiters_upd)
        show "fst ` set (q_senders q') = snd_waiters (w(cur e \<mapsto> WSend p m sz flg)) p"
          using snd_ok_linked [OF P(4) p] by (simp add: snd_waiters_upd q'_def ss_add_def)
      qed (rule rcv)
      moreover have "s\<lparr>msg_stacks := msg_stacks s\<rparr> = s" by simp
      ultimately show ?thesis using s' by simp
    qed
  qed
qed

lemma finite_snd_waiters: "finite (dom w) \<Longrightarrow> finite (snd_waiters w p)"
  by (rule finite_subset [of _ "dom w"]) (auto simp: snd_waiters_def)

lemma snd_waiters_del: "snd_waiters (w(t := None)) r = snd_waiters w r - {t}"
  by (auto simp: snd_waiters_def)

lemma wsend_ok_del: "wsend_ok w \<Longrightarrow> wsend_ok (w(t := None))"
  by (simp add: wsend_ok_def)

lemma upd_obj_val: "upd_obj p f ids = ids\<lparr>objs := (objs ids)(p := map_option f (objs ids p))\<rparr>"
  by (cases ids) (simp add: upd_obj_def)

lemma upd_obj_const: "objs ids p = Some q \<Longrightarrow> upd_obj p f ids = upd_obj p (\<lambda>_. f q) ids"
  by (simp add: upd_obj_val)

lemma upd_msq_val: "upd_msq p f s = s\<lparr>msg_ids := upd_obj p f (msg_ids s)\<rparr>"
  by (cases s) (simp add: upd_msq_def)

lemma ns_putref_val: "msg_ids_update (\<lambda>ids. ipc_rcu_putref ids p) s = s\<lparr>msg_ids := ipc_rcu_putref (msg_ids s) p\<rparr>"
  by (cases s) simp

lemma length_filter_key:
  "\<lbrakk>distinct (map fst l); c \<in> fst ` set l\<rbrakk> \<Longrightarrow> Suc (length (filter (\<lambda>x. fst x \<noteq> c) l)) = length l"
proof (induction l)
  case (Cons x l)
  show ?case
  proof (cases "fst x = c")
    case True
    then have "c \<notin> fst ` set l" using Cons.prems(1) by auto
    then have "\<forall>y \<in> set l. fst y \<noteq> c" by blast
    then have "filter (\<lambda>x. fst x \<noteq> c) l = l" by (simp add: filter_id_conv)
    then show ?thesis using True by simp
  next
    case False
    then show ?thesis using Cons by auto
  qed
qed simp

text \<open>The state a resumed sender works in: its reference dropped, itself off the list.\<close>

lemma snd_wake_linked:
  assumes inv: "sys_inv (s, w)" and w: "w (cur e) = Some (WSend p m sz flg)" and v: "ipc_valid_object (msg_ids s) p"
  shows "sys_inv (upd_msq p (ss_del (cur e)) (msg_ids_update (\<lambda>ids. ipc_rcu_putref ids p) s), w(cur e := None))"
proof -
  note P = sys_inv_parts [OF inv]
  obtain q where p: "p \<in> linked (msg_ids s)" "objs (msg_ids s) p = Some q" using valid_linked [OF P(4) v] .
  have ok: "queue_ok q" by (rule msg_inv_queue [OF P(1) p])
  have me: "cur e \<in> fst ` set (q_senders q)" using snd_ok_linked [OF P(4) p] w by (auto simp: snd_waiters_def)
  then have pos: "0 < length (q_senders q)" by (cases "q_senders q") auto
  define q' where "q' = (ss_del (cur e) q)\<lparr>perm_refcount := perm_refcount q - 1\<rparr>"
  have rc: "perm_refcount q \<noteq> 1" using ok pos by (simp add: queue_ok_def)
  have s': "upd_msq p (ss_del (cur e)) (msg_ids_update (\<lambda>ids. ipc_rcu_putref ids p) s) = upd_msq p (\<lambda>_. q') (s\<lparr>msg_stacks := msg_stacks s\<rparr>)"
  proof -
    have "ipc_rcu_putref (msg_ids s) p = upd_obj p (\<lambda>q. q\<lparr>perm_refcount := perm_refcount q - 1\<rparr>) (msg_ids s)"
      using p(2) rc by (simp add: ipc_rcu_putref_def)
    moreover have "upd_obj p (ss_del (cur e)) (upd_obj p (\<lambda>q. q\<lparr>perm_refcount := perm_refcount q - 1\<rparr>) (msg_ids s))
        = upd_obj p (\<lambda>_. q') (msg_ids s)"
    proof -
      have "ss_del (cur e) (q\<lparr>perm_refcount := perm_refcount q - 1\<rparr>) = q'"
        by (cases q) (simp add: q'_def ss_del_def)
      then show ?thesis
        unfolding upd_obj_upd_obj by (subst upd_obj_const [OF p(2)]) (simp add: o_def)
    qed
    ultimately show ?thesis unfolding upd_msq_val ns_putref_val by simp
  qed
  have d: "distinct (map fst (q_senders q))" using ok by (simp add: queue_ok_def)
  have len: "Suc (length (filter (\<lambda>x. fst x \<noteq> cur e) (q_senders q))) = length (q_senders q)"
    by (rule length_filter_key [OF d me])
  have set': "fst ` set (q_senders q') = snd_waiters (w(cur e := None)) p"
    using snd_ok_linked [OF P(4) p] by (auto simp: q'_def ss_del_def snd_waiters_del)
  show ?thesis
  proof (rule sys_write_same [OF inv p _ _ _ _ s'])
    show "perm_core q' = perm_core q" "q_cbytes q' = q_cbytes q" "q_qnum q' = q_qnum q"
      using ok pos by (simp_all add: q'_def ss_del_def perm_core_def queue_ok_def)
    show "queue_ok q'"
      using ok len d by (auto simp: q'_def ss_del_def queue_ok_def msg_bytes_of_def distinct_map_filter)
    show "snd_waiters (w(cur e := None)) r = snd_waiters w r" if "r \<noteq> p" for r
      using that w by (auto simp: snd_waiters_del) (auto simp: snd_waiters_def)
    show "rcv_ok (upd_obj p (\<lambda>_. q') (msg_ids s)) (msg_stacks s) (w(cur e := None))"
      by (rule rcv_ok_same [OF P(5) p]) (use w in \<open>auto simp: q'_def ss_del_def rcv_waits_def\<close>)
  qed (use P(2) set' wsend_ok_del [OF P(3)] in simp_all)
qed

lemma snd_wake_removed:
  assumes inv: "sys_inv (s, w)" and w: "w (cur e) = Some (WSend p m sz flg)" and v: "\<not> ipc_valid_object (msg_ids s) p"
  shows "sys_inv (msg_ids_update (\<lambda>ids. ipc_rcu_putref ids p) s, w(cur e := None))"
proof -
  note P = sys_inv_parts [OF inv]
  have me: "cur e \<in> snd_waiters w p" using w by (simp add: snd_waiters_def)
  have nl: "p \<notin> linked (msg_ids s)"
  proof
    assume "p \<in> linked (msg_ids s)"
    then obtain i where "map_of (ipcs_idr (msg_ids s)) i = Some p" by (rule linked_index [OF P(6)])
    then obtain q where "objs (msg_ids s) p = Some q" "\<not> perm_deleted q" by (rule ids_wf_entry [OF P(6)])
    then show False using v by (simp add: ipc_valid_object_def)
  qed
  obtain q where q: "objs (msg_ids s) p = Some q" "perm_deleted q" "perm_refcount q = card (snd_waiters w p)"
    using snd_ok_unlinked [OF P(4) nl] me by (auto split: option.splits)
  define ids' where "ids' = ipc_rcu_putref (msg_ids s) p"
  have fin: "finite (snd_waiters w p)" by (rule finite_snd_waiters [OF P(2)])
  have card: "card (snd_waiters w p - {cur e}) = card (snd_waiters w p) - 1" using me fin by simp
  have o': "objs ids' p = (if snd_waiters w p = {cur e} then None else Some (q\<lparr>perm_refcount := card (snd_waiters w p - {cur e})\<rparr>))"
  proof -
    have "card (snd_waiters w p) = 1 \<longleftrightarrow> snd_waiters w p = {cur e}" using me by (auto simp: card_1_singleton_iff)
    then show ?thesis unfolding ids'_def putref_obj [OF q(1)] q(3) card by simp
  qed
  have wf': "ids_wf ids'" by (rule ids_wf_unlinked_cong [OF P(6) nl]) (simp_all add: ids'_def)
  have "msg_inv (msg_ids_update (\<lambda>ids. ipc_rcu_putref ids p) s)"
  proof (rule msg_inv_cong [OF P(1)])
    fix r assume "r \<in> linked (msg_ids s)"
    then have "r \<noteq> p" using nl by blast
    then show "objs (msg_ids (msg_ids_update (\<lambda>ids. ipc_rcu_putref ids p) s)) r = objs (msg_ids s) r" by simp
  qed (use wf' in \<open>simp_all add: ids'_def\<close>)
  moreover have "snd_ok ids' (w(cur e := None))"
    unfolding snd_ok_def
  proof
    fix r
    show "if r \<in> linked ids' then \<forall>q. objs ids' r = Some q \<longrightarrow> fst ` set (q_senders q) = snd_waiters (w(cur e := None)) r
          else case objs ids' r of None \<Rightarrow> snd_waiters (w(cur e := None)) r = {}
               | Some q \<Rightarrow> perm_deleted q \<and> snd_waiters (w(cur e := None)) r \<noteq> {} \<and> perm_refcount q = card (snd_waiters (w(cur e := None)) r)"
    proof (cases "r = p")
      case True
      then show ?thesis using nl o' q me by (auto simp: ids'_def snd_waiters_del)
    next
      case False
      then have "snd_waiters (w(cur e := None)) r = snd_waiters w r"
        using w by (auto simp: snd_waiters_def)
      then show ?thesis using P(4) False unfolding snd_ok_def ids'_def by (simp cong: option.case_cong)
    qed
  qed
  moreover have "rcv_ok ids' (msg_stacks s) (w(cur e := None))"
  proof -
    have "rcv_waits (w(cur e := None)) t r = rcv_waits w t r" for t r using w by (auto simp: rcv_waits_def)
    note c = rcv_ok_waits_cong [of "w(cur e := None)" w, OF this]
    have same: "objs ids' r = objs (msg_ids s) r" if "r \<in> linked (msg_ids s)" for r
    proof -
      have "r \<noteq> p" using that nl by blast
      then show ?thesis by (simp add: ids'_def)
    qed
    have "linked ids' = linked (msg_ids s)" by (simp add: ids'_def)
    then show ?thesis unfolding c by (rule rcv_ok_frame [OF P(5) _ same])
  qed
  ultimately show ?thesis using P(2) wsend_ok_del [OF P(3)] by (simp add: sys_inv_def ids'_def)
qed

lemma msgsnd_resume_inv:
  assumes inv: "sys_inv (s, w)" and w: "w (cur e) = Some (WSend p m sz flg)"
    and run: "msgsnd_resume e s p m sz flg = (s', wk, r)"
  shows "(\<exists>v. r = Return v \<and> sys_inv (s', w(cur e := None))) \<or> (r = Sleep p \<and> sys_inv (s', w))"
proof (cases "ipc_valid_object (msg_ids s) p")
  case False
  then show ?thesis using snd_wake_removed [OF inv w] run by (auto simp: msgsnd_resume_def Let_def)
next
  case True
  have m: "m_ts m = sz" "1 \<le> m_type m" using sys_inv_parts(3) [OF inv] w unfolding wsend_ok_def by blast+
  note inv' = snd_wake_linked [OF inv w True]
  show ?thesis
  proof (cases "cur_signal_pending (me_task e)")
    case sig: True
    then show ?thesis using inv' True run by (auto simp: msgsnd_resume_def Let_def)
  next
    case False
    then have "msgsnd_round e (upd_msq p (ss_del (cur e)) (msg_ids_update (\<lambda>ids. ipc_rcu_putref ids p) s)) p m sz flg = (s', wk, r)"
      using True run by (simp add: msgsnd_resume_def Let_def)
    from msgsnd_round_cases [OF inv' _ m this] show ?thesis using w by (auto simp: fun_upd_idem)
  qed
qed

lemma do_msgsnd_inv:
  assumes inv: "sys_inv (s, w)" and idle: "w (cur e) = None"
    and run: "do_msgsnd e s i ty loaded sz flg = (s', wk, r)"
  shows "(\<exists>v. r = Return v \<and> sys_inv (s', w))
    \<or> (\<exists>m p. r = Sleep p \<and> loaded = Inr m \<and> sys_inv (s', w(cur e \<mapsto> WSend p (m\<lparr>m_type := ty, m_ts := sz\<rparr>) sz flg)))"
proof -
  consider (err) v where "s' = s" "r = Return v"
    | (go) m p where "loaded = Inr m" "1 \<le> ty" "msgsnd_round e s p (m\<lparr>m_type := ty, m_ts := sz\<rparr>) sz flg = (s', wk, r)"
    using run by (auto simp: do_msgsnd_def Let_def split: if_splits sum.splits)
  then show ?thesis
  proof cases
    case err
    then show ?thesis using inv by simp
  next
    case (go m p)
    from msgsnd_round_cases [OF inv idle _ _ go(3)] go(1,2) show ?thesis by auto
  qed
qed

section \<open>Receiving\<close>

lemma find_loop_bound:
  "find_loop e q c mode ms pos ty found cnt = Some i \<Longrightarrow> found = Some i \<or> pos \<le> i \<and> i < pos + length ms"
  by (induction ms arbitrary: pos ty found cnt) (fastforce split: if_splits)+

lemma find_msg_bound: "find_msg e q ty mode = Inr i \<Longrightarrow> i < length (q_messages q)"
  by (auto simp: find_msg_def split: option.splits dest!: find_loop_bound)

lemma sum_list_remove_nth:
  "i < length ms \<Longrightarrow> sum_list (map f ms) = (f (ms ! i) :: nat) + sum_list (map f (take i ms @ drop (Suc i) ms))"
  by (subst id_take_nth_drop [of i ms]) simp_all

lemma queue_ok_take:
  assumes ok: "queue_ok q" and i: "i < length (q_messages q)"
  shows "queue_ok (q\<lparr>q_messages := take i (q_messages q) @ drop (Suc i) (q_messages q), q_qnum := q_qnum q - 1,
      q_rtime := rt, q_lrpid := lr, q_cbytes := q_cbytes q - of_nat (m_ts (q_messages q ! i))\<rparr>)"
proof -
  have "length (q_messages q) = Suc (length (take i (q_messages q) @ drop (Suc i) (q_messages q)))" using i by simp
  then have "(of_nat (length (q_messages q)) :: 64 word) - 1 = of_nat (length (take i (q_messages q) @ drop (Suc i) (q_messages q)))"
    by simp
  moreover have "set (take i (q_messages q) @ drop (Suc i) (q_messages q)) \<subseteq> set (q_messages q)"
    using set_take_subset [of i "q_messages q"] set_drop_subset [of "Suc i" "q_messages q"] by auto
  ultimately show ?thesis
    using ok sum_list_remove_nth [OF i, of m_ts] by (auto simp: queue_ok_def msg_bytes_of_def)
qed

lemma queue_ok_senders:
  assumes "queue_ok q" "mset l = mset (q_senders q)"
  shows "queue_ok (q\<lparr>q_senders := l\<rparr>)" "set l = set (q_senders q)"
proof -
  have "mset (map fst l) = mset (map fst (q_senders q))" using assms(2) by simp
  then have "distinct (map fst l)" using assms(1) unfolding queue_ok_def by (metis mset_eq_imp_distinct_iff)
  moreover have "length l = length (q_senders q)" using assms(2) by (rule mset_eq_length)
  ultimately show "queue_ok (q\<lparr>q_senders := l\<rparr>)" using assms(1) by (simp add: queue_ok_def msg_bytes_of_def)
  show "set l = set (q_senders q)" using assms(2) by (rule mset_eq_setD)
qed

lemma msgrcv_take_inv:
  assumes inv: "sys_inv (s, w)" and p: "p \<in> linked (msg_ids s)" "objs (msg_ids s) p = Some q"
    and i: "i < length (q_messages q)" and run: "msgrcv_take e s p q i = (s', wk)"
  shows "sys_inv (s', w)"
proof -
  note P = sys_inv_parts [OF inv]
  have ok: "queue_ok q" by (rule msg_inv_queue [OF P(1) p])
  let ?n = "m_ts (q_messages q ! i)"
  define q1 where "q1 = q\<lparr>q_messages := take i (q_messages q) @ drop (Suc i) (q_messages q), q_qnum := q_qnum q - 1,
      q_rtime := clock_seconds (me_task e), q_lrpid := Some (cur_tgid (me_task e)), q_cbytes := q_cbytes q - of_nat ?n\<rparr>"
  have ok1: "queue_ok q1" unfolding q1_def by (rule queue_ok_take [OF ok i])
  obtain q2 wk2 where wake: "ss_wakeup q1 False = (q2, wk2)" by fastforce
  obtain l where q2: "q2 = q1\<lparr>q_senders := l\<rparr>" "mset l = mset (q_senders q1)"
    using ss_wakeup_frame [OF wake] by auto
  note ok2 = queue_ok_senders [OF ok1 q2(2)]
  have s': "s' = upd_msq p (\<lambda>_. q2) (ns_acct_hdrs (-1) (ns_acct_bytes (- of_nat ?n) s))"
    using run wake by (simp add: msgrcv_take_def Let_def q1_def)
  show ?thesis
  proof (rule sys_write [OF inv p _ _ _ _ _ P(2,3)])
    show "perm_core q2 = perm_core q" by (simp add: q2 q1_def perm_core_def)
    show "queue_ok q2" using ok2(1) by (simp add: q2)
    show "rcv_ok (msg_ids s') (msg_stacks s') w"
      using rcv_ok_same [OF P(5) p, of q2 w] by (simp add: s' q2 q1_def)
    show "fst ` set (q_senders q2) = snd_waiters w p"
      using snd_ok_linked [OF P(4) p] ok2(2) by (simp add: q2 q1_def)
    show "msg_acct_get (msg_acct_list s') (ns_addr s) = map_option (\<lambda>a. a\<lparr>acct_bytes := acct_bytes a + (q_cbytes q2 - q_cbytes q),
          acct_hdrs := acct_hdrs a + (q_qnum q2 - q_qnum q)\<rparr>) (msg_acct_get (msg_acct_list s) (ns_addr s))"
      by (simp add: s' acct_get_bytes_hdrs q2 q1_def)
  qed (simp_all add: s')
qed

lemma rcv_ok_enter:
  assumes ok: "rcv_ok ids st w" and p: "p \<in> linked ids" "objs ids p = Some q" and idle: "w t = None"
    and q': "set (q_receivers q') = insert t (set (q_receivers q))"
    and w': "w' = w(t \<mapsto> WRecv p sz mode ty fl)" and st': "st' = st(t \<mapsto> r)" "r_msg r = Inl EAGAIN"
  shows "rcv_ok (upd_obj p (\<lambda>_. q') ids) st' w'"
proof -
  have wt: "rcv_waits w' x r \<longleftrightarrow> (if x = t then r = p else rcv_waits w x r)" for x r
    by (auto simp: w' rcv_waits_def)
  have nt: "\<not> rcv_waits w t r" for r using idle by (simp add: rcv_waits_def)
  show ?thesis
  proof (rule rcv_ok_write [OF ok p refl])
    fix x assume "x \<in> set (q_receivers q')"
    then consider "x = t" | "x \<noteq> t" "x \<in> set (q_receivers q)" using q' by auto
    then show "rcv_waits w' x p \<and> (\<exists>r. st' x = Some r \<and> r_msg r = Inl EAGAIN)"
      by cases (use rcv_okD1 [OF ok p] st' in \<open>auto simp: wt\<close>)
  next
    fix x r assume "rcv_waits w x r" "r \<noteq> p"
    then show "rcv_waits w' x r \<and> st' x = st x" using nt by (auto simp: wt st'(1))
  next
    fix x r assume a: "rcv_waits w' x r" "x \<notin> set (q_receivers q')"
    then have x: "x \<noteq> t" "rcv_waits w x r" "x \<notin> set (q_receivers q)" using q' by (auto simp: wt)
    then show "(r \<noteq> p \<and> rcv_waits w x r \<and> st' x = st x) \<or> (\<exists>y. st' x = Some y \<and> r_msg y \<noteq> Inl EAGAIN)"
      using rcv_okD2 [OF ok x(2)] p(2) by (auto simp: st'(1))
  qed
qed

lemma msgrcv_round_cases:
  assumes inv: "sys_inv (s, w)" and idle: "w (cur e) = None"
    and run: "msgrcv_round ckpt e s p sz mode ty flg copy = (s', wk, r)"
  shows "(\<exists>v. r = Return v \<and> sys_inv (s', w)) \<or> (r = Sleep p \<and> sys_inv (s', w(cur e \<mapsto> WRecv p sz mode ty flg)))"
proof -
  note P = sys_inv_parts [OF inv]
  show ?thesis
  proof (cases "objs (msg_ids s) p = None \<or> \<not> ipc_valid_object (msg_ids s) p")
    case True
    then have "s' = s \<and> (\<exists>v. r = Return v)"
      using run by (auto simp: msgrcv_round_def split: option.splits if_splits)
    then show ?thesis using inv by blast
  next
    case False
    then obtain q where p: "p \<in> linked (msg_ids s)" "objs (msg_ids s) p = Some q"
      using valid_linked [OF P(4)] by blast
    have ok: "queue_ok q" by (rule msg_inv_queue [OF P(1) p])
    let ?r = "\<lparr>r_mode = mode, r_msgtype = ty, r_maxsize = (if flg AND MSG_NOERROR \<noteq> 0 then INT_MAX else int sz), r_msg = Inl EAGAIN\<rparr>"
    define q' where "q' = q_receivers_update (\<lambda>l. l @ [cur e]) q"
    have rd: "msg_stacks_update f (upd_msq p (q_receivers_update (\<lambda>l. l @ [cur e])) s) =
        upd_msq p (\<lambda>_. q') (s\<lparr>msg_stacks := f (msg_stacks s)\<rparr>)" for f
      unfolding upd_msq_val using upd_obj_const [OF p(2)] by (cases s) (simp add: q'_def)
    consider (err) v where "s' = s" "r = Return v"
      | (take) i v where "find_msg e q ty mode = Inr i" "msgrcv_take e s p q i = (s', wk)" "r = Return v"
      | (sleep) "s' = upd_msq p (\<lambda>_. q') (s\<lparr>msg_stacks := (msg_stacks s)(cur e \<mapsto> ?r)\<rparr>)" "r = Sleep p"
    proof -
      assume *: "\<And>v. s' = s \<Longrightarrow> r = Return v \<Longrightarrow> thesis"
        "\<And>i v. find_msg e q ty mode = Inr i \<Longrightarrow> msgrcv_take e s p q i = (s', wk) \<Longrightarrow> r = Return v \<Longrightarrow> thesis"
        "s' = upd_msq p (\<lambda>_. q') (s\<lparr>msg_stacks := (msg_stacks s)(cur e \<mapsto> ?r)\<rparr>) \<Longrightarrow> r = Sleep p \<Longrightarrow> thesis"
      note run' = run [unfolded msgrcv_round_def p(2) option.case Let_def rd]
      show thesis
      proof (cases "ipcperms (me_task e) (lsm_ipc (me_lsm e)) q S_IRUGO \<noteq> None \<or> \<not> ipc_valid_object (msg_ids s) p")
        case True
        show ?thesis
          by (cases "ipcperms (me_task e) (lsm_ipc (me_lsm e)) q S_IRUGO = None") (use run' True in \<open>auto intro: *(1)\<close>)
      next
        case False
        then have ok: "ipcperms (me_task e) (lsm_ipc (me_lsm e)) q S_IRUGO = None" "ipc_valid_object (msg_ids s) p" by auto
        show ?thesis
        proof (cases "find_msg e q ty mode")
          case (Inl err)
          show ?thesis
            by (cases "flg AND IPC_NOWAIT \<noteq> 0") (use run' ok Inl in \<open>auto intro: *(1,3)\<close>)
        next
          case (Inr i)
          obtain s1 wk1 where t: "msgrcv_take e s p q i = (s1, wk1)" by fastforce
          show ?thesis
            by (cases "sz < m_ts (q_messages q ! i) \<and> flg AND MSG_NOERROR = 0"; cases "flg AND MSG_COPY \<noteq> 0")
              (use run' ok Inr t in \<open>auto intro: *(1,2)\<close>)
        qed
      qed
    qed
    then show ?thesis
    proof cases
      case err
      then show ?thesis using inv by simp
    next
      case take
      then show ?thesis using msgrcv_take_inv [OF inv p find_msg_bound [OF take(1)] take(2)] by simp
    next
      case sleep
      have fresh: "cur e \<notin> set (q_receivers q)"
        using rcv_okD1 [OF P(5) p, of "cur e"] idle by (auto simp: rcv_waits_def)
      have "sys_inv (s', w(cur e \<mapsto> WRecv p sz mode ty flg))"
      proof (rule sys_write_same [OF inv p _ _ _ _ sleep(1)])
        show "perm_core q' = perm_core q" "q_cbytes q' = q_cbytes q" "q_qnum q' = q_qnum q"
          by (simp_all add: q'_def perm_core_def)
        show "queue_ok q'" using ok fresh by (simp add: q'_def queue_ok_def msg_bytes_of_def)
        show "wsend_ok (w(cur e \<mapsto> WRecv p sz mode ty flg))" using P(3) by (simp add: wsend_ok_def)
        show "snd_waiters (w(cur e \<mapsto> WRecv p sz mode ty flg)) r = snd_waiters w r" for r
          using idle by (auto simp: snd_waiters_def)
        then show "fst ` set (q_senders q') = snd_waiters (w(cur e \<mapsto> WRecv p sz mode ty flg)) p"
          using snd_ok_linked [OF P(4) p] by (simp add: q'_def)
        show "rcv_ok (upd_obj p (\<lambda>_. q') (msg_ids s)) ((msg_stacks s)(cur e \<mapsto> ?r)) (w(cur e \<mapsto> WRecv p sz mode ty flg))"
          by (rule rcv_ok_enter [OF P(5) p idle _ refl refl]) (simp_all add: q'_def)
      qed (use P(2) in simp)
      then show ?thesis using sleep(2) by blast
    qed
  qed
qed

lemma do_msgrcv_inv:
  assumes inv: "sys_inv (s, w)" and idle: "w (cur e) = None"
    and run: "do_msgrcv ckpt e s i sz ty flg load = (s', wk, r)"
  shows "(\<exists>v. r = Return v \<and> sys_inv (s', w))
    \<or> (\<exists>p. r = Sleep p \<and> (\<forall>mode ty'. convert_mode ty flg = (mode, ty') \<longrightarrow> sys_inv (s', w(cur e \<mapsto> WRecv p sz mode ty' flg))))"
proof -
  obtain mode ty' where c: "convert_mode ty flg = (mode, ty')" by fastforce
  consider (err) v where "s' = s" "r = Return v"
    | (go) p copy where "msgrcv_round ckpt e s p sz mode ty' flg copy = (s', wk, r)"
    using run unfolding do_msgrcv_def Let_def c prod.case by (auto split: if_splits sum.splits option.splits)
  then show ?thesis
  proof cases
    case err
    then show ?thesis using inv by simp
  next
    case (go p copy)
    from msgrcv_round_cases [OF inv idle go] c show ?thesis by auto
  qed
qed

lemma snd_ok_waiters_cong: "(\<And>r. snd_waiters w' r = snd_waiters w r) \<Longrightarrow> snd_ok ids w' = snd_ok ids w"
proof -
  assume "\<And>r. snd_waiters w' r = snd_waiters w r"
  then have eq: "snd_waiters w' = snd_waiters w" by blast
  show ?thesis unfolding snd_ok_def eq by (rule refl)
qed

text \<open>The state a resumed receiver works in.\<close>

lemma rcv_wake_answered:
  assumes inv: "sys_inv (s, w)" and w: "w (cur e) = Some (WRecv p sz mode ty flg)"
    and r: "msg_stacks s (cur e) = Some r" "r_msg r \<noteq> Inl EAGAIN"
  shows "sys_inv (s\<lparr>msg_stacks := (msg_stacks s)(cur e := None)\<rparr>, w(cur e := None))"
proof -
  note P = sys_inv_parts [OF inv]
  have "rcv_ok (msg_ids s) ((msg_stacks s)(cur e := None)) (w(cur e := None))"
    unfolding rcv_ok_def
  proof (intro conjI ballI allI impI)
    fix p' q t assume a: "p' \<in> linked (msg_ids s)" "objs (msg_ids s) p' = Some q" "t \<in> set (q_receivers q)"
    from rcv_okD1 [OF P(5) this] have "t \<noteq> cur e" using r by auto
    with rcv_okD1 [OF P(5) a] show "rcv_waits (w(cur e := None)) t p'" "\<exists>r. ((msg_stacks s)(cur e := None)) t = Some r \<and> r_msg r = Inl EAGAIN"
      by (auto simp: rcv_waits_def)
  next
    fix t p' assume "rcv_waits (w(cur e := None)) t p'"
    then have "t \<noteq> cur e" "rcv_waits w t p'" by (auto simp: rcv_waits_def split: if_splits)
    then show "\<exists>r. ((msg_stacks s)(cur e := None)) t = Some r \<and> (r_msg r = Inl EAGAIN \<longrightarrow>
        p' \<in> linked (msg_ids s) \<and> (\<exists>q. objs (msg_ids s) p' = Some q \<and> t \<in> set (q_receivers q)))"
      using rcv_okD2 [OF P(5)] by simp
  qed
  moreover have "snd_waiters (w(cur e := None)) r = snd_waiters w r" for r using w by (auto simp: snd_waiters_def)
  then have "snd_ok (msg_ids s) (w(cur e := None))" using P(4) snd_ok_waiters_cong by blast
  moreover have "msg_inv (s\<lparr>msg_stacks := (msg_stacks s)(cur e := None)\<rparr>)" using P(1) by (simp add: msg_inv_def)
  ultimately show ?thesis using P(2) wsend_ok_del [OF P(3)] by (simp add: sys_inv_def)
qed

lemma rcv_wake_waiting:
  assumes inv: "sys_inv (s, w)" and w: "w (cur e) = Some (WRecv p sz mode ty flg)"
    and r: "msg_stacks s (cur e) = Some r" "r_msg r = Inl EAGAIN"
  shows "sys_inv (upd_msq p (q_receivers_update (remove1 (cur e))) (s\<lparr>msg_stacks := (msg_stacks s)(cur e := None)\<rparr>), w(cur e := None))"
proof -
  note P = sys_inv_parts [OF inv]
  have me: "rcv_waits w (cur e) p" using w by (simp add: rcv_waits_def)
  then obtain q where p: "p \<in> linked (msg_ids s)" "objs (msg_ids s) p = Some q" and inq: "cur e \<in> set (q_receivers q)"
    using rcv_okD2 [OF P(5) me] r by auto
  have ok: "queue_ok q" by (rule msg_inv_queue [OF P(1) p])
  define q' where "q' = q_receivers_update (remove1 (cur e)) q"
  have s': "upd_msq p (q_receivers_update (remove1 (cur e))) (s\<lparr>msg_stacks := (msg_stacks s)(cur e := None)\<rparr>)
      = upd_msq p (\<lambda>_. q') (s\<lparr>msg_stacks := (msg_stacks s)(cur e := None)\<rparr>)"
    unfolding upd_msq_val using upd_obj_const [OF p(2)] by (simp add: q'_def)
  have wt: "rcv_waits (w(cur e := None)) x y \<longleftrightarrow> x \<noteq> cur e \<and> rcv_waits w x y" for x y by (auto simp: rcv_waits_def)
  have sw: "snd_waiters (w(cur e := None)) r = snd_waiters w r" for r using w by (auto simp: snd_waiters_def)
  have set': "set (q_receivers q') = set (q_receivers q) - {cur e}" using ok by (simp add: q'_def queue_ok_def)
  show ?thesis
  proof (rule sys_write_same [OF inv p _ _ _ _ s' _ wsend_ok_del [OF P(3)]])
    show "perm_core q' = perm_core q" "q_cbytes q' = q_cbytes q" "q_qnum q' = q_qnum q"
      by (simp_all add: q'_def perm_core_def)
    show "queue_ok q'" using ok by (simp add: q'_def queue_ok_def msg_bytes_of_def)
    show "fst ` set (q_senders q') = snd_waiters (w(cur e := None)) p"
      using snd_ok_linked [OF P(4) p] by (simp add: q'_def sw)
    show "rcv_ok (upd_obj p (\<lambda>_. q') (msg_ids s)) ((msg_stacks s)(cur e := None)) (w(cur e := None))"
    proof (rule rcv_ok_write [OF P(5) p refl])
      fix t assume "t \<in> set (q_receivers q')"
      then show "rcv_waits (w(cur e := None)) t p \<and> (\<exists>r. ((msg_stacks s)(cur e := None)) t = Some r \<and> r_msg r = Inl EAGAIN)"
        using set' rcv_okD1 [OF P(5) p, of t] by (simp add: wt)
    next
      fix t y assume "rcv_waits w t y" "y \<noteq> p"
      then show "rcv_waits (w(cur e := None)) t y \<and> ((msg_stacks s)(cur e := None)) t = msg_stacks s t"
        using me rcv_waits_unique by (auto simp: wt)
    next
      fix t y assume a: "rcv_waits (w(cur e := None)) t y" "t \<notin> set (q_receivers q')"
      then have "t \<noteq> cur e" "rcv_waits w t y" "t \<notin> set (q_receivers q)" using set' by (auto simp: wt)
      then show "(y \<noteq> p \<and> rcv_waits w t y \<and> ((msg_stacks s)(cur e := None)) t = msg_stacks s t)
          \<or> (\<exists>x. ((msg_stacks s)(cur e := None)) t = Some x \<and> r_msg x \<noteq> Inl EAGAIN)"
        using rcv_okD2 [OF P(5), of t y] p(2) by auto
    qed
  qed (use P(2) in \<open>simp_all add: sw\<close>)
qed

lemma msgrcv_resume_inv:
  assumes inv: "sys_inv (s, w)" and w: "w (cur e) = Some (WRecv p sz mode ty flg)"
    and run: "msgrcv_resume ckpt e s p sz mode ty flg = (s', wk, r)"
  shows "(\<exists>v. r = Return v \<and> sys_inv (s', w(cur e := None))) \<or> (r = Sleep p \<and> sys_inv (s', w))"
proof -
  note P = sys_inv_parts [OF inv]
  have "rcv_waits w (cur e) p" using w by (simp add: rcv_waits_def)
  then obtain x where x: "msg_stacks s (cur e) = Some x" using rcv_okD2 [OF P(5)] by blast
  have st: "msg_stacks_update (\<lambda>st. st(cur e := None)) s = s\<lparr>msg_stacks := (msg_stacks s)(cur e := None)\<rparr>" by (cases s) simp
  show ?thesis
  proof (cases "r_msg x = Inl EAGAIN")
    case False
    then show ?thesis using rcv_wake_answered [OF inv w x] run x by (simp add: msgrcv_resume_def Let_def st) blast
  next
    case True
    note inv' = rcv_wake_waiting [OF inv w x True]
    show ?thesis
    proof (cases "cur_signal_pending (me_task e)")
      case sig: True
      then show ?thesis using inv' True x run by (simp add: msgrcv_resume_def Let_def st) blast
    next
      case False
      then have "msgrcv_round ckpt e (upd_msq p (q_receivers_update (remove1 (cur e))) (s\<lparr>msg_stacks := (msg_stacks s)(cur e := None)\<rparr>))
          p sz mode ty flg (Inl ENOSYS) = (s', wk, r)"
        using True x run by (simp add: msgrcv_resume_def Let_def st)
      from msgrcv_round_cases [OF inv' _ this] show ?thesis using w by (auto simp: fun_upd_idem)
    qed
  qed
qed

section \<open>Control and creation\<close>

lemma freeque_sys:
  assumes inv: "sys_inv (s, w)" and p: "p \<in> linked (msg_ids s)" and run: "freeque s p = (s', wk)"
  shows "sys_inv (s', w)"
proof -
  note P = sys_inv_parts [OF inv]
  obtain i where m: "map_of (ipcs_idr (msg_ids s)) i = Some p" by (rule linked_index [OF P(6) p])
  obtain q where q: "objs (msg_ids s) p = Some q" by (rule ids_wf_entry [OF P(6) m])
  have ok: "queue_ok q" by (rule msg_inv_queue [OF P(1) p q])
  note F = freeque_fields [OF P(1) m q run]
  have nl: "p \<notin> linked (msg_ids s')"
    unfolding F(2) by (rule not_in_delete [OF ids_wf_distinct(2) [OF P(6)] m])
  have lk: "r \<in> linked (msg_ids s') \<longleftrightarrow> r \<in> linked (msg_ids s)" if "r \<noteq> p" for r
  proof -
    have "(i, p) \<in> set (ipcs_idr (msg_ids s))" using m by (rule map_of_SomeD)
    then have "j = i \<longrightarrow> r = p" if "(j, r) \<in> set (ipcs_idr (msg_ids s))" for j r
      using that m map_of_is_SomeI [OF ids_wf_distinct(1) [OF P(6)], of j r] by auto
    then show ?thesis using that unfolding F(2) AList.delete_eq by force
  qed
  have w: "fst ` set (q_senders q) = snd_waiters w p" by (rule snd_ok_linked [OF P(4) p q])
  have "snd_ok (msg_ids s') w"
    unfolding snd_ok_def
  proof
    fix r
    show "if r \<in> linked (msg_ids s') then \<forall>q. objs (msg_ids s') r = Some q \<longrightarrow> fst ` set (q_senders q) = snd_waiters w r
          else case objs (msg_ids s') r of None \<Rightarrow> snd_waiters w r = {}
               | Some q \<Rightarrow> perm_deleted q \<and> snd_waiters w r \<noteq> {} \<and> perm_refcount q = card (snd_waiters w r)"
    proof (cases "r = p")
      case True
      show ?thesis
      proof (cases "q_senders q = []")
        case none: True
        then show ?thesis using True nl F(7) w by simp
      next
        case False
        have "card (snd_waiters w p) = length (q_senders q)"
          using ok distinct_card [of "map fst (q_senders q)"] by (simp add: w [symmetric] queue_ok_def)
        moreover have "snd_waiters w p \<noteq> {}" using w False by auto
        ultimately show ?thesis using True nl F(8) [OF False] by auto
      qed
    next
      case False
      have "if r \<in> linked (msg_ids s) then \<forall>q. objs (msg_ids s) r = Some q \<longrightarrow> fst ` set (q_senders q) = snd_waiters w r
          else case objs (msg_ids s) r of None \<Rightarrow> snd_waiters w r = {}
               | Some q \<Rightarrow> perm_deleted q \<and> snd_waiters w r \<noteq> {} \<and> perm_refcount q = card (snd_waiters w r)"
        using P(4) unfolding snd_ok_def by blast
      then show ?thesis unfolding lk [OF False] F(3) [OF False] .
    qed
  qed
  moreover have "rcv_ok (msg_ids s') (msg_stacks s') w"
    unfolding rcv_ok_def
  proof (intro conjI ballI allI impI)
    fix r x t assume a: "r \<in> linked (msg_ids s')" "objs (msg_ids s') r = Some x" "t \<in> set (q_receivers x)"
    have r: "r \<noteq> p" using a(1) nl by blast
    then have r: "r \<noteq> p" "r \<in> linked (msg_ids s)" "objs (msg_ids s) r = Some x" using a lk F(3) by simp_all
    note D = rcv_okD1 [OF P(5) r(2,3) a(3)]
    moreover have "t \<notin> set (q_receivers q)" using rcv_okD1 [OF P(5) p q, of t] D rcv_waits_unique r(1) by blast
    ultimately show "rcv_waits w t r" "\<exists>r. msg_stacks s' t = Some r \<and> r_msg r = Inl EAGAIN" using F(10) by auto
  next
    fix t r assume a: "rcv_waits w t r"
    from rcv_okD2 [OF P(5) a] obtain x where x: "msg_stacks s t = Some x"
      "r_msg x = Inl EAGAIN \<longrightarrow> r \<in> linked (msg_ids s) \<and> (\<exists>q. objs (msg_ids s) r = Some q \<and> t \<in> set (q_receivers q))" by blast
    show "\<exists>x. msg_stacks s' t = Some x \<and> (r_msg x = Inl EAGAIN \<longrightarrow>
        r \<in> linked (msg_ids s') \<and> (\<exists>q. objs (msg_ids s') r = Some q \<and> t \<in> set (q_receivers q)))"
    proof (cases "t \<in> set (q_receivers q)")
      case True
      then show ?thesis using F(9) x(1) by simp
    next
      case False
      then have "r_msg x = Inl EAGAIN \<Longrightarrow> r \<noteq> p" using x(2) q by auto
      then show ?thesis using x F(3) lk F(10) [OF False] by auto
    qed
  qed
  moreover have "msg_inv s'" by (rule freeque_inv [OF P(1) m run])
  ultimately show ?thesis using P(2,3) by (simp add: sys_inv_def)
qed

lemma obtain_check_linked:
  "ipcctl_obtain_check en ids i = Inr p \<Longrightarrow> p \<in> linked ids"
  by (auto simp: ipcctl_obtain_check_def obtain_check_iff split: sum.splits option.splits if_splits)
    (force dest: map_of_SomeD)+

lemma update_perm_fields:
  assumes "ipc_update_perm mu mg perm q = Inr q'"
  shows "\<exists>u g md. q' = q\<lparr>perm_uid := u, perm_gid := g, perm_mode := md\<rparr>"
  using assms by (auto simp: ipc_update_perm_def split: option.splits)

lemma rcv_ok_retry:
  assumes ok: "rcv_ok ids st w" and p: "p \<in> linked ids" "objs ids p = Some q" and q': "q_receivers q' = q_receivers q"
  shows "rcv_ok (upd_obj p (\<lambda>_. q') ids) (\<lambda>t. if t \<in> set (q_receivers q) then map_option (\<lambda>r. r\<lparr>r_msg := Inl EAGAIN\<rparr>) (st t) else st t) w"
proof (rule rcv_ok_write [OF ok p refl])
  fix t assume "t \<in> set (q_receivers q')"
  then show "rcv_waits w t p \<and> (\<exists>r. (if t \<in> set (q_receivers q) then map_option (\<lambda>r. r\<lparr>r_msg := Inl EAGAIN\<rparr>) (st t) else st t) = Some r \<and> r_msg r = Inl EAGAIN)"
    using rcv_okD1 [OF ok p, of t] by (auto simp: q')
next
  fix t r assume "rcv_waits w t r" "r \<noteq> p"
  then have "t \<notin> set (q_receivers q)" using rcv_okD1 [OF ok p, of t] rcv_waits_unique by blast
  then show "rcv_waits w t r \<and> (if t \<in> set (q_receivers q) then map_option (\<lambda>r. r\<lparr>r_msg := Inl EAGAIN\<rparr>) (st t) else st t) = st t"
    using \<open>rcv_waits w t r\<close> by simp
next
  fix t r assume a: "rcv_waits w t r" "t \<notin> set (q_receivers q')"
  then show "(r \<noteq> p \<and> rcv_waits w t r \<and> (if t \<in> set (q_receivers q) then map_option (\<lambda>r. r\<lparr>r_msg := Inl EAGAIN\<rparr>) (st t) else st t) = st t)
    \<or> (\<exists>x. (if t \<in> set (q_receivers q) then map_option (\<lambda>r. r\<lparr>r_msg := Inl EAGAIN\<rparr>) (st t) else st t) = Some x \<and> r_msg x \<noteq> Inl EAGAIN)"
    using rcv_okD2 [OF ok a(1)] p(2) by (auto simp: q')
qed

lemma msgctl_down_inv:
  assumes inv: "sys_inv (s, w)" and run: "msgctl_down e s i cmd perm qb = (s', wk, r)"
  shows "sys_inv (s', w)"
proof (cases "s' = s")
  case True
  then show ?thesis using inv by simp
next
  case changed: False
  note P = sys_inv_parts [OF inv]
  obtain p where ob: "ipcctl_obtain_check (me_task e) (msg_ids s) i = Inr p"
    using run changed by (cases "ipcctl_obtain_check (me_task e) (msg_ids s) i") (auto simp: msgctl_down_def)
  have p: "p \<in> linked (msg_ids s)" by (rule obtain_check_linked [OF ob])
  obtain q where q: "objs (msg_ids s) p = Some q" and ok: "queue_ok q" using msg_inv_linked [OF P(1) p] by blast
  have lsm: "lsm_msgctl (me_lsm e) (Some (kern_ipc_perm.truncate q)) cmd = None"
    using run changed ob q by (auto simp: msgctl_down_def split: option.splits)
  note run' = run [unfolded msgctl_down_def ob q lsm sum.case option.case]
  show ?thesis
  proof (cases "cmd = IPC_RMID")
    case True
    then obtain wk' where "freeque s p = (s', wk')" using run' by (cases "freeque s p") auto
    then show ?thesis by (rule freeque_sys [OF inv p])
  next
    case False
    then have set: "cmd = IPC_SET" using run' changed by (auto split: if_splits)
    then obtain q0 where up: "ipc_update_perm (make_kuid (me_maps e)) (make_kgid (me_maps e)) perm q = Inr q0"
      using run' changed False by (auto split: if_splits sum.splits)
    obtain u g md where q0: "q0 = q\<lparr>perm_uid := u, perm_gid := g, perm_mode := md\<rparr>" using update_perm_fields [OF up] by blast
    define q1 where "q1 = q0\<lparr>q_qbytes := of_int qb, q_ctime := clock_seconds (me_task e)\<rparr>"
    have ok1: "queue_ok q1" using ok by (simp add: q1_def q0 queue_ok_def msg_bytes_of_def)
    obtain q2 wk2 where wake: "ss_wakeup q1 False = (q2, wk2)" by fastforce
    obtain l where q2: "q2 = q1\<lparr>q_senders := l\<rparr>" "mset l = mset (q_senders q1)"
      using ss_wakeup_frame [OF wake] by auto
    note ok2 = queue_ok_senders [OF ok1 q2(2)]
    let ?st = "\<lambda>t. if t \<in> set (q_receivers q) then map_option (\<lambda>r. r\<lparr>r_msg := Inl EAGAIN\<rparr>) (msg_stacks s t) else msg_stacks s t"
    have ex: "expunge_all q1 EAGAIN (msg_stacks s) = (?st, q_receivers q)"
      using ok unfolding expunge_all_def by (simp add: q1_def q0 queue_ok_def expunge_loop_stack)
    have s': "s' = upd_msq p (\<lambda>_. q2) (s\<lparr>msg_stacks := ?st\<rparr>)"
      using run' changed set False up unfolding q1_def [symmetric] Let_def
      by (auto simp: ex wake q1_def [symmetric] split: if_splits)
    show ?thesis
    proof (rule sys_write_same [OF inv p q _ _ _ _ s' P(2,3)])
      show "perm_core q2 = perm_core q" "q_cbytes q2 = q_cbytes q" "q_qnum q2 = q_qnum q"
        by (simp_all add: q2 q1_def q0 perm_core_def)
      show "queue_ok q2" using ok2(1) by (simp add: q2)
      show "fst ` set (q_senders q2) = snd_waiters w p"
        using snd_ok_linked [OF P(4) p q] ok2(2) by (simp add: q2 q1_def q0)
      show "rcv_ok (upd_obj p (\<lambda>_. q2) (msg_ids s)) ?st w"
        by (rule rcv_ok_retry [OF P(5) p q]) (simp add: q2 q1_def q0)
    qed simp
  qed
qed

lemma ksys_msgctl_state:
  "ksys_msgctl e s i cmd ok v64 old version = (s', wk, out, r) \<Longrightarrow>
     s' = s \<or> (\<exists>perm qb wk' r'. msgctl_down e s i cmd perm qb = (s', wk', r'))"
  unfolding ksys_msgctl_def by (auto split: if_splits sum.splits option.splits prod.splits)

lemma compat_ksys_msgctl_state:
  "compat_ksys_msgctl e s i cmd ok p64 p32 version = (s', wk, out, r) \<Longrightarrow>
     s' = s \<or> (\<exists>perm qb wk' r'. msgctl_down e s i cmd perm qb = (s', wk', r'))"
  unfolding compat_ksys_msgctl_def Let_def by (auto split: if_splits sum.splits option.splits prod.splits)

lemma newque_frame:
  assumes inv: "msg_inv s" and ok: "kernel_ok e" and new: "newque e params s = (s', r)"
  shows "msg_stacks s' = msg_stacks s
    \<and> (linked (msg_ids s') = linked (msg_ids s) \<and> objs (msg_ids s') = objs (msg_ids s)
       \<or> (\<exists>p q. objs (msg_ids s) p = None \<and> linked (msg_ids s') = insert p (linked (msg_ids s))
            \<and> objs (msg_ids s') = (objs (msg_ids s))(p \<mapsto> q) \<and> q_senders q = [] \<and> q_receivers q = []))"
  using new
proof (cases rule: newque_cases)
  case early
  then show ?thesis by simp
next
  case (tried p ids' res)
  define q0 where "q0 = fresh_queue e (msg_ctlmnb s) params"
  define ids0 where "ids0 = objs_update (\<lambda>h. h(p \<mapsto> q0)) (msg_ids s)"
  have fresh: "objs (msg_ids s) p = None"
    using ok tried(1) unfolding kernel_ok_def by (blast intro: kmalloc_fresh)
  have o0: "objs ids0 p = Some q0" by (simp add: ids0_def)
  have ok': "idr_alloc_ok (me_alloc e)" using ok by (simp add: kernel_ok_def)
  show ?thesis
  proof (cases res)
    case (Inl err)
    have a: "ipc_addid (me_task e) (me_alloc e) (me_kht e) ids0 p (int (msg_ctlmni s)) = (ids', Inl err)"
      using tried(2) by (simp add: ids0_def q0_def Inl)
    note F = ipc_addid_Inl [OF a ok' o0]
    have "objs (ipc_rcu_putref ids' p) x = objs (msg_ids s) x" for x
    proof (cases "x = p")
      case True
      obtain q' where "objs ids' p = Some q'" "perm_refcount q' = 1" using F(6) by blast
      then show ?thesis using True fresh putref_obj by fastforce
    next
      case False
      then show ?thesis using F(5) [OF False] by (simp add: ids0_def)
    qed
    then have "objs (ipc_rcu_putref ids' p) = objs (msg_ids s)" by blast
    then show ?thesis using F(1) by (simp add: tried(3) Inl ids0_def)
  next
    case (Inr idx)
    have a: "ipc_addid (me_task e) (me_alloc e) (me_kht e) ids0 p (int (msg_ctlmni s)) = (ids', Inr idx)"
      using tried(2) by (simp add: ids0_def q0_def Inr)
    note A = ipc_addid_Inr [OF a o0 ok']
    have "objs ids' = (objs (msg_ids s))(p \<mapsto> added_perm (me_task e) (next_seq ids0 idx) idx q0)"
      by (simp add: A(6) added_ids_fields o0) (simp add: ids0_def)
    moreover have "linked ids' = insert p (linked (msg_ids s))"
      using A(1) by (simp add: A(6) added_ids_fields) (simp add: ids0_def)
    ultimately show ?thesis using fresh
      by (simp add: tried(3) Inr) (intro disjI2 exI [of _ p], simp add: added_perm_def q0_def fresh_queue_def, rule exI, rule conjI, rule refl, simp)
  qed
qed

lemma ksys_msgget_cases:
  assumes "ksys_msgget e k flg s = (s', r)"
  shows "s' = s \<or> newque e \<lparr>par_key = k, par_flg = flg, par_nsems = 0\<rparr> s = (s', r)"
  using assms
  by (auto simp: ksys_msgget_def ipcget_def ipcget_new_def ipcget_public_def split: if_splits option.splits)

lemma ksys_msgget_sys:
  assumes inv: "sys_inv (s, w)" and ok: "kernel_ok e" and run: "ksys_msgget e k flg s = (s', r)"
  shows "sys_inv (s', w)"
proof -
  note P = sys_inv_parts [OF inv]
  from ksys_msgget_cases [OF run] consider "s' = s"
    | (new) "newque e \<lparr>par_key = k, par_flg = flg, par_nsems = 0\<rparr> s = (s', r)" by blast
  then show ?thesis
  proof cases
    case 1
    then show ?thesis using inv by simp
  next
    case new
    have mi: "msg_inv s'"
      using mq_getter.ipcget_inv [OF conjI [OF P(1) ok] _ run [unfolded ksys_msgget_def]] by simp
    note F = newque_frame [OF P(1) ok new]
    from F consider (same) "linked (msg_ids s') = linked (msg_ids s)" "objs (msg_ids s') = objs (msg_ids s)"
      | (fresh) p q where "objs (msg_ids s) p = None" "linked (msg_ids s') = insert p (linked (msg_ids s))"
          "objs (msg_ids s') = (objs (msg_ids s))(p \<mapsto> q)" "q_senders q = []" "q_receivers q = []" by blast
    then show ?thesis
    proof cases
      case same
      then have "snd_ok (msg_ids s') w" "rcv_ok (msg_ids s') (msg_stacks s') w"
        using P(4,5) F by (simp_all add: snd_ok_def rcv_ok_def)
      then show ?thesis using mi P(2,3) by (simp add: sys_inv_def)
    next
      case fresh
      have nl: "p \<notin> linked (msg_ids s)" by (rule fresh_unlinked [OF P(6) fresh(1)])
      have wp: "snd_waiters w p = {}" using snd_ok_unlinked [OF P(4) nl] fresh(1) by simp
      have "snd_ok (msg_ids s') w"
        unfolding snd_ok_def
      proof
        fix x
        have "if x \<in> linked (msg_ids s) then \<forall>q. objs (msg_ids s) x = Some q \<longrightarrow> fst ` set (q_senders q) = snd_waiters w x
          else case objs (msg_ids s) x of None \<Rightarrow> snd_waiters w x = {}
               | Some q \<Rightarrow> perm_deleted q \<and> snd_waiters w x \<noteq> {} \<and> perm_refcount q = card (snd_waiters w x)"
          using P(4) unfolding snd_ok_def by blast
        then show "if x \<in> linked (msg_ids s') then \<forall>q. objs (msg_ids s') x = Some q \<longrightarrow> fst ` set (q_senders q) = snd_waiters w x
          else case objs (msg_ids s') x of None \<Rightarrow> snd_waiters w x = {}
               | Some q \<Rightarrow> perm_deleted q \<and> snd_waiters w x \<noteq> {} \<and> perm_refcount q = card (snd_waiters w x)"
          unfolding fresh(2,3) by (cases "x = p") (simp_all add: wp fresh(4))
      qed
      moreover have "rcv_ok (msg_ids s') (msg_stacks s') w"
        unfolding rcv_ok_def fresh(2,3)
      proof (intro conjI ballI allI impI)
        fix x y t assume "x \<in> insert p (linked (msg_ids s))" "((objs (msg_ids s))(p \<mapsto> q)) x = Some y" "t \<in> set (q_receivers y)"
        then have "x \<in> linked (msg_ids s)" "objs (msg_ids s) x = Some y" "t \<in> set (q_receivers y)"
          using fresh(5) by (auto split: if_splits)
        from rcv_okD1 [OF P(5) this] show "rcv_waits w t x" "\<exists>r. msg_stacks s' t = Some r \<and> r_msg r = Inl EAGAIN"
          using F by auto
      next
        fix t x assume "rcv_waits w t x"
        from rcv_okD2 [OF P(5) this] obtain r where r: "msg_stacks s t = Some r"
          "r_msg r = Inl EAGAIN \<longrightarrow> x \<in> linked (msg_ids s) \<and> (\<exists>q. objs (msg_ids s) x = Some q \<and> t \<in> set (q_receivers q))" by blast
        then have "r_msg r = Inl EAGAIN \<longrightarrow> x \<noteq> p" using nl by blast
        then show "\<exists>r. msg_stacks s' t = Some r \<and> (r_msg r = Inl EAGAIN \<longrightarrow>
            x \<in> insert p (linked (msg_ids s)) \<and> (\<exists>qa. ((objs (msg_ids s))(p \<mapsto> q)) x = Some qa \<and> t \<in> set (q_receivers qa)))"
          using r F by (intro exI [of _ r]) auto
      qed
      ultimately show ?thesis using mi P(2,3) by (simp add: sys_inv_def)
    qed
  qed
qed

section \<open>Every reachable state\<close>

lemma msg_init_inv:
  assumes "msg_acct_get (msg_acct_list s0) (ns_addr s0) = None" "msg_init_ns mem s0 = (s, None)"
  shows "sys_inv (s, Map.empty)"
proof -
  have s: "msg_ids s = ipc_init_ids" "ns_addr s = ns_addr s0"
      "msg_acct_get (msg_acct_list s) (ns_addr s) = Some \<lparr>acct_ns = ns_addr s0, acct_bytes = 0, acct_hdrs = 0\<rparr>"
    using assms by (auto simp: msg_init_ns_def msg_acct_init_def Let_def msg_acct_get_def split: if_splits)
  have "ids_wf (ipc_init_ids :: msg_queue ipc_ids)" by (rule ids_wf_init)
  then show ?thesis
    using s(3) unfolding sys_inv_def
    by (simp add: msg_inv_def s(1) wsend_ok_def snd_ok_def rcv_ok_def rcv_waits_def)
      (simp add: ipc_init_ids_def table_sum_def snd_waiters_def)
qed

lemma msg_step_inv:
  assumes "msg_step ok x y" and inv: "sys_inv x" and ok: "\<forall>e. ok e \<longrightarrow> kernel_ok e"
  shows "sys_inv y"
  using assms(1)
proof cases
  case (get e w k flg s s' r)
  then show ?thesis using ksys_msgget_sys inv ok by blast
next
  case (snd e w s i ty loaded sz flg s' wk r)
  then show ?thesis using do_msgsnd_inv [of s w e i ty loaded sz flg s' wk "Return r"] inv by auto
next
  case (snd_sleep e w s i ty m sz flg s' wk p)
  then show ?thesis using do_msgsnd_inv [of s w e i ty "Inr m" sz flg s' wk "Sleep p"] inv by auto
next
  case (snd_resume e w p m sz flg s s' wk r)
  then show ?thesis using msgsnd_resume_inv [of s w e p m sz flg s' wk "Return r"] inv by auto
next
  case (snd_again e w p m sz flg s s' wk p')
  then show ?thesis using msgsnd_resume_inv [of s w e p m sz flg s' wk "Sleep p'"] inv by auto
next
  case (rcv e w ckpt s i sz ty flg load s' wk r)
  then show ?thesis using do_msgrcv_inv [of s w e ckpt i sz ty flg load s' wk "Return r"] inv by auto
next
  case (rcv_sleep e w ckpt s i sz ty flg load s' wk p mode ty')
  then show ?thesis using do_msgrcv_inv [of s w e ckpt i sz ty flg load s' wk "Sleep p"] inv by auto
next
  case (rcv_resume e w p sz mode ty flg ckpt s s' wk r)
  then show ?thesis using msgrcv_resume_inv [of s w e p sz mode ty flg ckpt s' wk "Return r"] inv by auto
next
  case (rcv_again e w p sz mode ty flg ckpt s s' wk p')
  then show ?thesis using msgrcv_resume_inv [of s w e p sz mode ty flg ckpt s' wk "Sleep p'"] inv by auto
next
  case (ctl e w s i cmd cp v64 old version s' wk out r)
  then show ?thesis using ksys_msgctl_state [OF ctl(5)] msgctl_down_inv [of s w e i cmd] inv by blast
next
  case (compat_ctl e w s i cmd cp p64 p32 version s' wk out r)
  then show ?thesis using compat_ksys_msgctl_state [OF compat_ctl(5)] msgctl_down_inv [of s w e i cmd] inv by blast
qed

lemma msg_reachable_inv:
  "\<lbrakk>msg_reachable ok x; \<forall>e. ok e \<longrightarrow> kernel_ok e\<rbrakk> \<Longrightarrow> sys_inv x"
proof (induction rule: msg_reachable.induct)
  case (init s0 mem s)
  then show ?case by (simp add: msg_init_inv)
next
  case (step x y)
  then show ?case using msg_step_inv by blast
qed

section \<open>Properties\<close>

text \<open>C4. However the calls of any number of tasks are interleaved, sleeps, wake-ups and
  signals included, every queue of the table counts exactly its messages and bytes, lists
  each sleeping sender once with one reference, and the namespace's accounting is the sum over
  its queues.\<close>

theorem msg_reachable_sound:
  assumes "msg_reachable ok (s, w)" and "\<forall>e. ok e \<longrightarrow> kernel_ok e"
  shows "msg_inv s"
  using msg_reachable_inv [OF assms] by (simp add: sys_inv_def)

definition blank_ns :: msg_ns where
  "blank_ns = \<lparr>ns_addr = 5, msg_ids = ipc_init_ids, msg_ctlmax = 0, msg_ctlmnb = 0, msg_ctlmni = 0,
     msg_acct_list = [], msg_stacks = Map.empty\<rparr>"

definition sample_ns :: msg_ns where "sample_ns = fst (msg_init_ns True blank_ns)"

lemma sample_reachable: "msg_reachable ok (sample_ns, Map.empty)"
proof (rule msg_reachable.init)
  show "msg_acct_get (msg_acct_list blank_ns) (ns_addr blank_ns) = None"
    by (simp add: blank_ns_def msg_acct_get_def)
  show "msg_init_ns True blank_ns = (sample_ns, None)"
    by (simp add: sample_ns_def blank_ns_def msg_init_ns_def msg_acct_init_def msg_acct_get_def)
qed

lemma sample_kernel_ok: "kernel_ok (sample_env t)"
  by (auto simp: kernel_ok_def sample_env_def first_free_ok kmalloc_ok_def split: if_splits)

theorem msg_reachable_sound_witness:
  "\<exists>s r. ksys_msgget (sample_env 1) 42 (512 + 384) sample_ns = (s, r) \<and> msg_inv s"
proof -
  obtain s r where run: "ksys_msgget (sample_env 1) 42 (512 + 384) sample_ns = (s, r)" by fastforce
  have "msg_step kernel_ok (sample_ns, Map.empty) (s, Map.empty)"
    by (rule msg_step.get [where e = "sample_env 1" and ok = kernel_ok and w = Map.empty, OF _ _ run]) (simp_all add: sample_kernel_ok)
  then have "msg_reachable kernel_ok (s, Map.empty)" by (rule msg_reachable.step [OF sample_reachable])
  then show ?thesis using msg_reachable_sound run by blast
qed

lemma sample_inv: "msg_inv sample_ns"
  using msg_reachable_inv [of kernel_ok "(sample_ns, Map.empty)", OF sample_reachable] by (simp add: sys_inv_def)

lemma sample_get: "\<exists>s'. ksys_msgget (sample_env 1) 42 950 sample_ns = (s', Inr 0)
    \<and> (\<exists>p q. msq_obtain_object_check s' 0 = Inr p \<and> objs (msg_ids s') p = Some q \<and> perm_mode q = 438 \<and> q_messages q = [])"
proof -
  let ?par = "\<lparr>par_key = 42, par_flg = 950, par_nsems = 0\<rparr>"
  let ?q = "fresh_queue (sample_env 1) 16384 ?par"
  define ids0 where "ids0 = objs_update (\<lambda>h. h(9 \<mapsto> ?q)) (ipc_init_ids :: msg_queue ipc_ids)"
  have ids: "msg_ids sample_ns = ipc_init_ids" "msg_ctlmnb sample_ns = 16384" "msg_ctlmni sample_ns = 32000"
    by (simp_all add: sample_ns_def blank_ns_def msg_init_ns_def msg_acct_init_def msg_acct_get_def Let_def MSGMNB_def MSGMNI_def)
  have o: "objs ids0 9 = Some ?q" by (simp add: ids0_def)
  have ff: "first_free (ipcs_idr ids0) 0 (min (max (in_use ids0 * 3 div 2) ipc_min_cycle) ipc_mni) = Inr 0"
    by (simp add: ids0_def ipc_init_ids_def ipc_min_cycle_def ipc_mni_def first_free_0)
  have lim: "in_use ids0 < (if int 32000 > ipc_mni then ipc_mni else int 32000)"
    by (simp add: ids0_def ipc_init_ids_def ipc_mni_def)
  have add: "ipc_addid (plain_env 1 1000) first_free None ids0 9 (int 32000) = (added_ids (plain_env 1 1000) 0 9 42 ids0, Inr 0)"
    unfolding ipc_addid_cases [where alloc = first_free, OF o lim ff] by (simp add: fresh_queue_def)
  have r: "ipcget (me_task (sample_env 1)) lsm msg_ids \<lparr>getnew = newque (sample_env 1), associate = a, more_checks = None\<rparr> ?par sample_ns
      = newque (sample_env 1) ?par sample_ns" for lsm a
    by (simp add: ipcget_def ipcget_public_def ipc_findkey_def ids(1) ipc_init_ids_def IPC_PRIVATE_def IPC_CREAT_def)
  have "(case objs (added_ids (plain_env 1 1000) 0 9 42 ids0) 9 of Some q \<Rightarrow> perm_id q | None \<Rightarrow> 0) = 0"
    by (simp add: added_ids_fields o added_perm_def next_seq_def ids0_def ipc_init_ids_def ipcid_make_def c_int_def)
  then have "\<exists>s'. newque (sample_env 1) ?par sample_ns = (s', Inr 0)"
    using add unfolding ids0_def
    by (simp add: newque_def Let_def ids sample_env_def open_lsm_def) (simp add: ipc_init_ids_def)
  then obtain s' where s': "newque (sample_env 1) ?par sample_ns = (s', Inr 0)" by blast
  have "key_ht (msg_ids sample_ns) (par_key ?par) = None" by (simp add: ids(1) ipc_init_ids_def)
  from newque_ok [OF sample_inv sample_kernel_ok disjI2 [OF this] s']
  show ?thesis using s' unfolding ksys_msgget_def r msq_obtain_object_check_def by (fastforce simp: S_IRWXUGO_def)
qed

text \<open>C1. Queue memory and waiters: a task asleep in \<^verbatim>\<open>msgsnd\<close> always finds its queue in memory when it
  resumes (never freed, never reused), a queue that was removed stays in memory only while
  such a task exists, and a task asleep in \<^verbatim>\<open>msgrcv\<close> without an answer is on the list of a queue
  that still exists.\<close>

theorem msg_waiters_safe:
  assumes "msg_reachable ok (s, w)" and "\<forall>e. ok e \<longrightarrow> kernel_ok e"
  shows "(\<forall>t p m sz fl. w t = Some (WSend p m sz fl) \<longrightarrow>
            (\<exists>q. objs (msg_ids s) p = Some q \<and> (perm_deleted q \<or> t \<in> fst ` set (q_senders q))))
    \<and> (\<forall>p q. objs (msg_ids s) p = Some q \<and> p \<notin> linked (msg_ids s) \<longrightarrow>
            perm_deleted q \<and> (\<exists>t m sz fl. w t = Some (WSend p m sz fl)))
    \<and> (\<forall>t p sz mode ty fl r. w t = Some (WRecv p sz mode ty fl) \<and> msg_stacks s t = Some r \<and> r_msg r = Inl EAGAIN \<longrightarrow>
            (\<exists>q. objs (msg_ids s) p = Some q \<and> \<not> perm_deleted q \<and> t \<in> set (q_receivers q)))"
proof -
  note P = sys_inv_parts [OF msg_reachable_inv [OF assms]]
  have live: "\<exists>q. objs (msg_ids s) p = Some q \<and> \<not> perm_deleted q" if l: "p \<in> linked (msg_ids s)" for p
  proof -
    obtain i where i: "map_of (ipcs_idr (msg_ids s)) i = Some p" using linked_index [OF P(6) l] .
    obtain q where "objs (msg_ids s) p = Some q" "\<not> perm_deleted q" using ids_wf_entry [OF P(6) i] .
    then show ?thesis by blast
  qed
  have 1: "\<exists>q. objs (msg_ids s) p = Some q \<and> (perm_deleted q \<or> t \<in> fst ` set (q_senders q))"
    if "w t = Some (WSend p m sz fl)" for t p m sz fl
  proof -
    have t: "t \<in> snd_waiters w p" using that by (simp add: snd_waiters_def)
    show ?thesis
    proof (cases "p \<in> linked (msg_ids s)")
      case True
      then show ?thesis using live [OF True] snd_ok_linked [OF P(4) True] t by blast
    next
      case False
      then show ?thesis using snd_ok_unlinked [OF P(4) False] t by (auto split: option.splits)
    qed
  qed
  have 2: "perm_deleted q \<and> (\<exists>t m sz fl. w t = Some (WSend p m sz fl))"
    if "objs (msg_ids s) p = Some q" "p \<notin> linked (msg_ids s)" for p q
    using snd_ok_unlinked [OF P(4) that(2)] that(1) by (auto simp: snd_waiters_def)
  have 3: "\<exists>q. objs (msg_ids s) p = Some q \<and> \<not> perm_deleted q \<and> t \<in> set (q_receivers q)"
    if "w t = Some (WRecv p sz mode ty fl)" "msg_stacks s t = Some r" "r_msg r = Inl EAGAIN" for t p sz mode ty fl r
  proof -
    have "rcv_waits w t p" using that(1) by (simp add: rcv_waits_def)
    from rcv_okD2 [OF P(5) this] that(2,3) have "p \<in> linked (msg_ids s)" "\<exists>q. objs (msg_ids s) p = Some q \<and> t \<in> set (q_receivers q)"
      by auto
    then show ?thesis using live by fastforce
  qed
  show ?thesis using 1 2 3 by blast
qed

theorem msg_waiters_safe_witness:
  "\<exists>s w p q. msg_reachable kernel_ok (s, w) \<and> w 2 = Some (WRecv p 100 SEARCH_ANY 0 0)
     \<and> objs (msg_ids s) p = Some q \<and> \<not> perm_deleted q \<and> 2 \<in> set (q_receivers q)"
proof -
  obtain s p q where get: "ksys_msgget (sample_env 1) 42 950 sample_ns = (s, Inr 0)" and
    q: "msq_obtain_object_check s 0 = Inr p" "objs (msg_ids s) p = Some q" "perm_mode q = 438" "q_messages q = []"
    using sample_get by blast
  have "msg_step kernel_ok (sample_ns, Map.empty) (s, Map.empty)"
    by (rule msg_step.get [where e = "sample_env 1" and ok = kernel_ok and w = Map.empty, OF _ _ get]) (simp_all add: sample_kernel_ok)
  with sample_reachable have reach: "msg_reachable kernel_ok (s, Map.empty)" by (rule msg_reachable.step)
  have "ids_wf (msg_ids s)" using msg_reachable_inv [OF reach] by (simp add: sys_inv_parts)
  then have live: "ipc_valid_object (msg_ids s) p"
    using obtain_check_perm_id q(1) by (fastforce simp: msq_obtain_object_check_def ipc_valid_object_def)
  have perm: "ipcperms (plain_env 2 1000) (\<lambda>_ _. None) q S_IRUGO = None"
    unfolding ipcperms_def Let_def by (simp add: q(3) S_IRUGO_def)
  define r where "r = \<lparr>r_mode = SEARCH_ANY, r_msgtype = 0, r_maxsize = 100, r_msg = Inl EAGAIN\<rparr>"
  define s2 where "s2 = msg_stacks_update (\<lambda>st. st(2 \<mapsto> r)) (upd_msq p (q_receivers_update (\<lambda>l. l @ [2])) s)"
  have rcv: "do_msgrcv False (sample_env 2) s 0 100 0 0 (\<lambda>_. Inl ENOMEM) = (s2, [], Sleep p)"
    using q live perm
    by (simp add: do_msgrcv_def Let_def convert_mode_def msgrcv_round_def find_msg_def sample_env_def open_lsm_def
        plain_env_def s2_def r_def)
  have "msg_step kernel_ok (s, Map.empty) (s2, Map.empty(cur (sample_env 2) \<mapsto> WRecv p 100 SEARCH_ANY 0 0))"
    by (rule msg_step.rcv_sleep [where e = "sample_env 2" and ok = kernel_ok, OF _ _ rcv]) (simp_all add: sample_kernel_ok convert_mode_def)
  then have reach2: "msg_reachable kernel_ok (s2, [2 \<mapsto> WRecv p 100 SEARCH_ANY 0 0])"
    using msg_reachable.step [OF reach] by (simp add: sample_env_def plain_env_def)
  have st: "msg_stacks s2 2 = Some r" "r_msg r = Inl EAGAIN" by (simp_all add: s2_def r_def)
  have "\<exists>q. objs (msg_ids s2) p = Some q \<and> \<not> perm_deleted q \<and> 2 \<in> set (q_receivers q)"
    using msg_waiters_safe [OF reach2] st by simp
  then show ?thesis using reach2 by (metis fun_upd_same)
qed
text \<open>The id \<^verbatim>\<open>msgget\<close> returns resolves to a queue with the requested key, and the call keeps the
  namespace's queues consistent whatever it returns.\<close>

theorem msgget_resolves:
  assumes "msg_inv s" and "kernel_ok e" and "ksys_msgget e k flg s = (s', Inr i)"
  shows "msg_inv s' \<and> (\<exists>p q. msq_obtain_object_check s' i = Inr p \<and> objs (msg_ids s') p = Some q \<and> perm_key q = k)"
  using mq_getter.ipcget_ok [OF conjI [OF assms(1,2)] _ assms(3) [unfolded ksys_msgget_def]]
  by (simp add: msq_obtain_object_check_def)

theorem msgget_resolves_witness:
  "\<exists>s' p q. ksys_msgget (sample_env 1) 42 950 sample_ns = (s', Inr 0) \<and> objs (msg_ids s') p = Some q \<and> perm_key q = 42"
proof -
  obtain s' where s': "ksys_msgget (sample_env 1) 42 950 sample_ns = (s', Inr 0)" using sample_get by blast
  then show ?thesis using msgget_resolves [OF sample_inv sample_kernel_ok s'] by blast
qed

text \<open>Releasing a namespace's queues terminates within one look at every index, empties the
  table, and leaves the namespace's accounted bytes and headers at zero; the accounting
  entry itself stays on the module's list.\<close>

theorem msg_exit_empties:
  assumes "msg_inv s"
  shows "\<exists>s'. ds_msg_exit_ns (nat ipc_mni) s = Some s' \<and> msg_inv s' \<and> ipcs_idr (msg_ids s') = []
    \<and> (\<exists>a. msg_acct_get (msg_acct_list s') (ns_addr s') = Some a \<and> acct_bytes a = 0 \<and> acct_hdrs a = 0)"
proof -
  obtain s' where s': "ds_msg_exit_ns (nat ipc_mni) s = Some s'" "msg_inv s'" "ipcs_idr (msg_ids s') = []"
    using mq_class.free_all [OF assms] by (auto simp: ds_msg_exit_ns_def)
  then show ?thesis by (auto simp: msg_inv_def table_sum_def)
qed

theorem msg_exit_empties_witness:
  "\<exists>s'. ds_msg_exit_ns (nat ipc_mni) sample_ns = Some s' \<and> ipcs_idr (msg_ids s') = []"
  using msg_exit_empties [OF sample_inv] by blast

end
