(* ===== verification/SemArray.thy ===== *)
theory SemArray
  imports IpcUtil
begin

text \<open>
  The engine of System V semaphores (first half of \<^verbatim>\<open>src/src/main/ipcns/sysv/ipc_sem.c\<close>): one
  semaphore array with its queues of sleeping operations, the switch between the per-semaphore
  and the global queues, the attempt to perform a list of operations, and the wake-up passes
  after a change.

  The \<^verbatim>\<open>sem_queue\<close> of a sleeping task lives on its stack: the queues of the array list tasks,
  and the field \<open>sw_stacks\<close> of the engine's state maps a task to its \<^verbatim>\<open>sem_queue\<close>. Undo
  structures are reached through \<open>sw_undos\<close>, and \<open>sw_wake\<close> is the \<^verbatim>\<open>wake_q\<close>, in order. The
  array is locked throughout, so an operation is one step here.
\<close>

unbundle bit_operations_syntax

section \<open>Data\<close>

definition SEMVMX :: int where "SEMVMX = 32767"
definition SEMAEM :: int where "SEMAEM = SEMVMX"
definition SEM_UNDO :: int where "SEM_UNDO = 4096"
definition USE_GLOBAL_LOCK_HYSTERESIS :: "32 word" where "USE_GLOBAL_LOCK_HYSTERESIS = 10"
definition SEM_GLOBAL_LOCK :: int where "SEM_GLOBAL_LOCK = -1"

record sem =
  semval :: int
  sempid :: "nat option"
  sem_alter :: "nat list"  \<comment> \<open>\<^verbatim>\<open>pending_alter\<close> of one semaphore\<close>
  sem_const :: "nat list"  \<comment> \<open>\<^verbatim>\<open>pending_const\<close> of one semaphore\<close>
  sem_otime :: int

record sem_array = kern_ipc_perm +
  sem_ctime :: int
  pending_alter :: "nat list"
  pending_const :: "nat list"
  list_id :: "ptr list"
  complex_count :: int
  use_global_lock :: "32 word"
  sems :: "sem list"

record sembuf =
  sem_num :: nat
  sem_op :: int
  sem_flg :: int

text \<open>\<open>status\<close>: \<open>None\<close> is 0, \<open>Some EINTR\<close> the value a sleeping operation carries.\<close>

record sem_queue =
  q_sleeper :: nat
  q_undo :: "ptr option"
  q_pid :: nat
  q_status :: "errno option"
  q_sops :: "sembuf list"
  q_blocking :: "sembuf option"
  q_alter :: bool
  q_dupsop :: bool

record sem_undo =
  un_ulp :: ptr
  un_semid :: int
  semadj :: "int list"

text \<open>The flexible array at the end of \<^verbatim>\<open>struct sem_array\<close> has \<^verbatim>\<open>sem_nsems\<close> elements.\<close>

abbreviation sem_nsems :: "'a sem_array_scheme \<Rightarrow> nat" where
  "sem_nsems a \<equiv> length (sems a)"

type_synonym undos = "ptr \<rightharpoonup> sem_undo"
type_synonym stacks = "nat \<rightharpoonup> sem_queue"

record sem_work =
  sw_sma :: sem_array
  sw_undos :: undos
  sw_stacks :: stacks
  sw_wake :: "nat list"

definition array_index_nospec :: "nat \<Rightarrow> nat \<Rightarrow> nat" where
  "array_index_nospec i n = (if i < n then i else 0)"

text \<open>Writing one semaphore; the callers have checked the index.\<close>

definition upd_sem :: "nat \<Rightarrow> (sem \<Rightarrow> sem) \<Rightarrow> sem list \<Rightarrow> sem list" where
  "upd_sem i f ss = ss[i := f (ss ! i)]"

text \<open>A \<^verbatim>\<open>short\<close> of the undo structure, read and written through a pointer that may be null.\<close>

definition c_short :: "int \<Rightarrow> int" where "c_short x = signed_take_bit 15 x"

definition semadj_at :: "undos \<Rightarrow> ptr option \<Rightarrow> nat \<Rightarrow> int" where
  "semadj_at us un i =
     (case un of None \<Rightarrow> 0
      | Some p \<Rightarrow> (case us p of None \<Rightarrow> 0 | Some u \<Rightarrow> if i < length (semadj u) then semadj u ! i else 0))"

definition semadj_set :: "ptr option \<Rightarrow> nat \<Rightarrow> int \<Rightarrow> undos \<Rightarrow> undos" where
  "semadj_set un i v us =
     (case un of None \<Rightarrow> us
      | Some p \<Rightarrow> us(p := map_option (\<lambda>u. u\<lparr>semadj := (semadj u)[i := c_short v]\<rparr>) (us p)))"

definition wants_undo :: "sembuf \<Rightarrow> bool" where
  "wants_undo sop \<longleftrightarrow> sem_flg sop AND SEM_UNDO \<noteq> 0"

section \<open>Queue modes\<close>

text \<open>
  The global queue holds alter operations only while a complex operation sleeps; afterwards
  each one goes back to the queue of the semaphore of its first operation.
\<close>

fun unmerge_loop :: "stacks \<Rightarrow> nat list \<Rightarrow> sem list \<Rightarrow> sem list" where
  "unmerge_loop st [] ss = ss"
| "unmerge_loop st (t # ts) ss =
     (case st t of
        Some q \<Rightarrow>
          unmerge_loop st ts
            (upd_sem (sem_num (hd (q_sops q))) (\<lambda>s. s\<lparr>sem_alter := sem_alter s @ [t]\<rparr>) ss)
      | None \<Rightarrow> unmerge_loop st ts ss)"

definition unmerge_queues :: "stacks \<Rightarrow> sem_array \<Rightarrow> sem_array" where
  "unmerge_queues st a =
     (if complex_count a \<noteq> 0 then a
      else a\<lparr>sems := unmerge_loop st (pending_alter a) (sems a), pending_alter := []\<rparr>)"

text \<open>
  \<^verbatim>\<open>list_splice_init\<close> puts the spliced list in front of the one it joins.
\<close>

fun merge_loop :: "sem list \<Rightarrow> nat list \<Rightarrow> sem list \<times> nat list" where
  "merge_loop [] l = ([], l)"
| "merge_loop (s # ss) l =
     (case merge_loop ss (sem_alter s @ l) of (ss, l) \<Rightarrow> (s\<lparr>sem_alter := []\<rparr> # ss, l))"

definition merge_queues :: "sem_array \<Rightarrow> sem_array" where
  "merge_queues a =
     (case merge_loop (sems a) (pending_alter a) of (ss, l) \<Rightarrow> a\<lparr>sems := ss, pending_alter := l\<rparr>)"

definition complexmode_enter :: "sem_array \<Rightarrow> sem_array" where
  "complexmode_enter a =
     (if use_global_lock a > 0 then a\<lparr>use_global_lock := USE_GLOBAL_LOCK_HYSTERESIS\<rparr>
      else a\<lparr>use_global_lock := USE_GLOBAL_LOCK_HYSTERESIS\<rparr>)"

definition complexmode_tryleave :: "sem_array \<Rightarrow> sem_array" where
  "complexmode_tryleave a =
     (if complex_count a \<noteq> 0 then a
      else if use_global_lock a = 1 then a\<lparr>use_global_lock := 0\<rparr>
      else a\<lparr>use_global_lock := use_global_lock a - 1\<rparr>)"

text \<open>
  The lock an operation takes: the number of a semaphore, or the global lock. The argument
  is \<open>None\<close> for the callers that pass a null operation list and the count -1.
\<close>

definition sem_lock :: "sembuf list option \<Rightarrow> sem_array \<Rightarrow> sem_array \<times> int" where
  "sem_lock sops a =
     (case sops of
        Some [sop] \<Rightarrow>
          if use_global_lock a = 0 then (a, int (sem_num sop)) else (a, SEM_GLOBAL_LOCK)
      | _ \<Rightarrow> (complexmode_enter a, SEM_GLOBAL_LOCK))"

definition sem_unlock :: "stacks \<Rightarrow> int \<Rightarrow> sem_array \<Rightarrow> sem_array" where
  "sem_unlock st locknum a =
     (if locknum = SEM_GLOBAL_LOCK then complexmode_tryleave (unmerge_queues st a) else a)"

section \<open>Performing operations\<close>

text \<open>The results 0, 1 and negative.\<close>

datatype sem_result = SemDone | SemSleep | SemErr errno

text \<open>How a scan over the operations ends.\<close>

datatype scan_end = ScanEnd | WouldBlock sembuf | OutOfRange

text \<open>
  The slow path changes the array as it goes. \<open>before\<close> lists the operations done so far,
  the last one first: the backward loops of the C code run over it.
\<close>

fun semop_slow_scan ::
    "ptr option \<Rightarrow> sembuf list \<Rightarrow> sembuf list \<Rightarrow> sem list \<Rightarrow> undos
       \<Rightarrow> sem list \<times> undos \<times> sembuf list \<times> scan_end" where
  "semop_slow_scan un before [] ss us = (ss, us, before, ScanEnd)"
| "semop_slow_scan un before (sop # rest) ss us =
     (let idx = array_index_nospec (sem_num sop) (length ss);
          result = semval (ss ! idx)
      in if sem_op sop = 0 \<and> result \<noteq> 0 then (ss, us, before, WouldBlock sop)
         else
           (let result = result + sem_op sop
            in if result < 0 then (ss, us, before, WouldBlock sop)
               else if result > SEMVMX then (ss, us, before, OutOfRange)
               else if wants_undo sop then
                 (let undo = semadj_at us un (sem_num sop) - sem_op sop
                  in if undo < - SEMAEM - 1 \<or> undo > SEMAEM then (ss, us, before, OutOfRange)
                     else semop_slow_scan un (sop # before) rest
                            (upd_sem idx (\<lambda>s. s\<lparr>semval := result\<rparr>) ss)
                            (semadj_set un (sem_num sop) undo us))
               else semop_slow_scan un (sop # before) rest
                      (upd_sem idx (\<lambda>s. s\<lparr>semval := result\<rparr>) ss) us))"

fun semop_set_pids :: "nat \<Rightarrow> sembuf list \<Rightarrow> sem list \<Rightarrow> sem list" where
  "semop_set_pids pid [] ss = ss"
| "semop_set_pids pid (sop # before) ss =
     semop_set_pids pid before (upd_sem (sem_num sop) (\<lambda>s. s\<lparr>sempid := Some pid\<rparr>) ss)"

fun semop_rollback :: "ptr option \<Rightarrow> sembuf list \<Rightarrow> sem list \<Rightarrow> undos \<Rightarrow> sem list \<times> undos" where
  "semop_rollback un [] ss us = (ss, us)"
| "semop_rollback un (sop # before) ss us =
     semop_rollback un before
       (upd_sem (sem_num sop) (\<lambda>s. s\<lparr>semval := semval s - sem_op sop\<rparr>) ss)
       (if wants_undo sop
        then semadj_set un (sem_num sop) (semadj_at us un (sem_num sop) + sem_op sop) us else us)"

definition block_result :: "sembuf \<Rightarrow> sem_result" where
  "block_result sop = (if sem_flg sop AND IPC_NOWAIT \<noteq> 0 then SemErr EAGAIN else SemSleep)"

definition perform_atomic_semop_slow ::
    "sem_array \<Rightarrow> undos \<Rightarrow> sem_queue \<Rightarrow> sem_array \<times> undos \<times> sem_queue \<times> sem_result" where
  "perform_atomic_semop_slow a us q =
     (case semop_slow_scan (q_undo q) [] (q_sops q) (sems a) us of
        (ss, us, before, ScanEnd) \<Rightarrow>
          (a\<lparr>sems := semop_set_pids (q_pid q) before ss\<rparr>, us, q, SemDone)
      | (ss, us, before, OutOfRange) \<Rightarrow>
          (case semop_rollback (q_undo q) before ss us of
             (ss, us) \<Rightarrow> (a\<lparr>sems := ss\<rparr>, us, q, SemErr ERANGE))
      | (ss, us, before, WouldBlock sop) \<Rightarrow>
          (case semop_rollback (q_undo q) before ss us of
             (ss, us) \<Rightarrow> (a\<lparr>sems := ss\<rparr>, us, q\<lparr>q_blocking := Some sop\<rparr>, block_result sop)))"

text \<open>The fast path scans without a change, and changes only when all operations can proceed.\<close>

fun semop_fast_scan :: "ptr option \<Rightarrow> sembuf list \<Rightarrow> sem list \<Rightarrow> undos \<Rightarrow> scan_end" where
  "semop_fast_scan un [] ss us = ScanEnd"
| "semop_fast_scan un (sop # rest) ss us =
     (let idx = array_index_nospec (sem_num sop) (length ss);
          result = semval (ss ! idx)
      in if sem_op sop = 0 \<and> result \<noteq> 0 then WouldBlock sop
         else
           (let result = result + sem_op sop
            in if result < 0 then WouldBlock sop
               else if result > SEMVMX then OutOfRange
               else if wants_undo sop then
                 (let undo = semadj_at us un (sem_num sop) - sem_op sop
                  in if undo < - SEMAEM - 1 \<or> undo > SEMAEM then OutOfRange
                     else semop_fast_scan un rest ss us)
               else semop_fast_scan un rest ss us))"

fun semop_fast_commit :: "ptr option \<Rightarrow> nat \<Rightarrow> sembuf list \<Rightarrow> sem list \<Rightarrow> undos \<Rightarrow> sem list \<times> undos" where
  "semop_fast_commit un pid [] ss us = (ss, us)"
| "semop_fast_commit un pid (sop # rest) ss us =
     semop_fast_commit un pid rest
       (upd_sem (sem_num sop) (\<lambda>s. s\<lparr>semval := semval s + sem_op sop, sempid := Some pid\<rparr>) ss)
       (if wants_undo sop
        then semadj_set un (sem_num sop) (semadj_at us un (sem_num sop) - sem_op sop) us else us)"

definition perform_atomic_semop ::
    "sem_array \<Rightarrow> undos \<Rightarrow> sem_queue \<Rightarrow> sem_array \<times> undos \<times> sem_queue \<times> sem_result" where
  "perform_atomic_semop a us q =
     (if q_dupsop q then perform_atomic_semop_slow a us q
      else
        (case semop_fast_scan (q_undo q) (q_sops q) (sems a) us of
           ScanEnd \<Rightarrow>
             (case semop_fast_commit (q_undo q) (q_pid q) (q_sops q) (sems a) us of
                (ss, us) \<Rightarrow> (a\<lparr>sems := ss\<rparr>, us, q, SemDone))
         | OutOfRange \<Rightarrow> (a, us, q, SemErr ERANGE)
         | WouldBlock sop \<Rightarrow> (a, us, q\<lparr>q_blocking := Some sop\<rparr>, block_result sop)))"

section \<open>Waking sleeping operations\<close>

text \<open>Performing the operation of a sleeping task.\<close>

definition try_sleeper :: "nat \<Rightarrow> sem_work \<Rightarrow> sem_work \<times> sem_result" where
  "try_sleeper t w =
     (case sw_stacks w t of
        None \<Rightarrow> (w, SemSleep)
      | Some q \<Rightarrow>
          (case perform_atomic_semop (sw_sma w) (sw_undos w) q of
             (a, us, q, r) \<Rightarrow> (w\<lparr>sw_sma := a, sw_undos := us, sw_stacks := (sw_stacks w)(t \<mapsto> q)\<rparr>, r)))"

definition wake_up_sem_queue_prepare :: "nat \<Rightarrow> errno option \<Rightarrow> sem_work \<Rightarrow> sem_work" where
  "wake_up_sem_queue_prepare t err w =
     w\<lparr>sw_stacks := (sw_stacks w)(t := map_option (\<lambda>q. q\<lparr>q_status := err\<rparr>) (sw_stacks w t)),
       sw_wake := sw_wake w @ [t]\<rparr>"

text \<open>\<^verbatim>\<open>list_del\<close> takes the task off the one list it is on.\<close>

definition del_task :: "nat \<Rightarrow> sem_array \<Rightarrow> sem_array" where
  "del_task t a =
     a\<lparr>pending_alter := removeAll t (pending_alter a), pending_const := removeAll t (pending_const a),
       sems := map (\<lambda>s. s\<lparr>sem_alter := removeAll t (sem_alter s), sem_const := removeAll t (sem_const s)\<rparr>)
                 (sems a)\<rparr>"

definition sops_of :: "stacks \<Rightarrow> nat \<Rightarrow> sembuf list" where
  "sops_of st t = (case st t of Some q \<Rightarrow> q_sops q | None \<Rightarrow> [])"

definition unlink_queue :: "stacks \<Rightarrow> nat \<Rightarrow> sem_array \<Rightarrow> sem_array" where
  "unlink_queue st t a =
     (let a = del_task t a
      in if length (sops_of st t) > 1 then a\<lparr>complex_count := complex_count a - 1\<rparr> else a)"

definition sw_unlink :: "nat \<Rightarrow> sem_work \<Rightarrow> sem_work" where
  "sw_unlink t w = w\<lparr>sw_sma := unlink_queue (sw_stacks w) t (sw_sma w)\<rparr>"

definition check_restart :: "sem_array \<Rightarrow> sembuf list \<Rightarrow> bool" where
  "check_restart a sops \<longleftrightarrow> pending_alter a \<noteq> [] \<or> length sops > 1"

text \<open>
  The walk over a list of waiters, which removes at most the entry it is at. The boolean is
  \<^verbatim>\<open>semop_completed\<close>.
\<close>

fun wake_const_loop :: "nat list \<Rightarrow> sem_work \<Rightarrow> bool \<Rightarrow> sem_work \<times> bool" where
  "wake_const_loop [] w fin = (w, fin)"
| "wake_const_loop (t # ts) w fin =
     (case try_sleeper t w of
        (w, SemSleep) \<Rightarrow> wake_const_loop ts w fin
      | (w, SemDone) \<Rightarrow>
          wake_const_loop ts (wake_up_sem_queue_prepare t None (sw_unlink t w)) True
      | (w, SemErr e) \<Rightarrow>
          wake_const_loop ts (wake_up_sem_queue_prepare t (Some e) (sw_unlink t w)) fin)"

text \<open>\<open>None\<close> stands for the semaphore number -1.\<close>

definition wake_const_ops :: "nat option \<Rightarrow> sem_work \<Rightarrow> sem_work \<times> bool" where
  "wake_const_ops semnum w =
     wake_const_loop
       (case semnum of None \<Rightarrow> pending_const (sw_sma w) | Some i \<Rightarrow> sem_const (sems (sw_sma w) ! i))
       w False"

text \<open>The two flags are \<^verbatim>\<open>got_zero\<close> and \<^verbatim>\<open>semop_completed\<close>.\<close>

fun wakeup_zero_loop :: "nat list \<Rightarrow> sem_work \<Rightarrow> bool \<Rightarrow> bool \<Rightarrow> sem_work \<times> bool \<times> bool" where
  "wakeup_zero_loop [] w got fin = (w, got, fin)"
| "wakeup_zero_loop (i # is) w got fin =
     (if semval (sems (sw_sma w) ! i) = 0
      then (case wake_const_ops (Some i) w of (w, c) \<Rightarrow> wakeup_zero_loop is w True (fin \<or> c))
      else wakeup_zero_loop is w got fin)"

definition do_smart_wakeup_zero :: "sembuf list option \<Rightarrow> sem_work \<Rightarrow> sem_work \<times> bool" where
  "do_smart_wakeup_zero sops w =
     (case wakeup_zero_loop
             (case sops of Some l \<Rightarrow> map sem_num l | None \<Rightarrow> [0..<sem_nsems (sw_sma w)]) w False False of
        (w, got, fin) \<Rightarrow>
          if got then (case wake_const_ops None w of (w, c) \<Rightarrow> (w, fin \<or> c)) else (w, fin))"

text \<open>
  One scan of \<^verbatim>\<open>update_queue\<close>. The last flag says that the scan stopped to start again.
\<close>

fun update_scan :: "nat option \<Rightarrow> nat list \<Rightarrow> sem_work \<Rightarrow> bool \<Rightarrow> sem_work \<times> bool \<times> bool" where
  "update_scan semnum [] w fin = (w, fin, False)"
| "update_scan semnum (t # ts) w fin =
     (if (case semnum of None \<Rightarrow> False | Some i \<Rightarrow> semval (sems (sw_sma w) ! i) = 0)
      then (w, fin, False)
      else
        (case try_sleeper t w of
           (w, SemSleep) \<Rightarrow> update_scan semnum ts w fin
         | (w, SemErr e) \<Rightarrow>
             update_scan semnum ts (wake_up_sem_queue_prepare t (Some e) (sw_unlink t w)) fin
         | (w, SemDone) \<Rightarrow>
             (let sops = sops_of (sw_stacks w) t;
                  w = fst (do_smart_wakeup_zero (Some sops) (sw_unlink t w));
                  restart = check_restart (sw_sma w) sops;
                  w = wake_up_sem_queue_prepare t None w
              in if restart then (w, True, True) else update_scan semnum ts w True)))"

definition pending_list :: "nat option \<Rightarrow> sem_work \<Rightarrow> nat list" where
  "pending_list semnum w =
     (case semnum of None \<Rightarrow> pending_alter (sw_sma w) | Some i \<Rightarrow> sem_alter (sems (sw_sma w) ! i))"

fun update_loop :: "nat \<Rightarrow> nat option \<Rightarrow> sem_work \<Rightarrow> bool \<Rightarrow> (sem_work \<times> bool) option" where
  "update_loop 0 semnum w fin = None"
| "update_loop (Suc n) semnum w fin =
     (case update_scan semnum (pending_list semnum w) w fin of
        (w, fin, again) \<Rightarrow> if again then update_loop n semnum w fin else Some (w, fin))"

text \<open>Each restart has removed an operation from the list, so one scan per operation and one more are enough.\<close>

definition update_queue :: "nat option \<Rightarrow> sem_work \<Rightarrow> sem_work \<times> bool" where
  "update_queue semnum w =
     (case update_loop (Suc (length (pending_list semnum w))) semnum w False of
        Some r \<Rightarrow> r | None \<Rightarrow> (w, False))"

definition set_semotime :: "int \<Rightarrow> sembuf list option \<Rightarrow> sem_work \<Rightarrow> sem_work" where
  "set_semotime now sops w =
     (let i = (case sops of None \<Rightarrow> 0 | Some l \<Rightarrow> sem_num (hd l))
      in w\<lparr>sw_sma := sems_update (upd_sem i (\<lambda>s. s\<lparr>sem_otime := now\<rparr>)) (sw_sma w)\<rparr>)"

fun update_each :: "nat list \<Rightarrow> sem_work \<Rightarrow> bool \<Rightarrow> sem_work \<times> bool" where
  "update_each [] w fin = (w, fin)"
| "update_each (i # is) w fin =
     (case update_queue (Some i) w of (w, c) \<Rightarrow> update_each is w (fin \<or> c))"

definition do_smart_update :: "int \<Rightarrow> sembuf list option \<Rightarrow> bool \<Rightarrow> sem_work \<Rightarrow> sem_work" where
  "do_smart_update now sops otime w =
     (case do_smart_wakeup_zero sops w of
        (w, c) \<Rightarrow>
          (let otime = (otime \<or> c);
               (w, otime) =
                 (if pending_alter (sw_sma w) \<noteq> []
                  then (case update_queue None w of (w, c) \<Rightarrow> (w, otime \<or> c))
                  else
                    (case sops of
                       None \<Rightarrow> update_each [0..<sem_nsems (sw_sma w)] w otime
                     | Some l \<Rightarrow> update_each (map sem_num (filter (\<lambda>sop. sem_op sop > 0) l)) w otime))
           in if otime then set_semotime now sops w else w))"

section \<open>Counting waiters\<close>

definition check_qop :: "nat \<Rightarrow> sem_queue \<Rightarrow> bool \<Rightarrow> int" where
  "check_qop semnum q count_zero =
     (case q_blocking q of
        None \<Rightarrow> 0
      | Some sop \<Rightarrow>
          if sem_num sop \<noteq> semnum then 0
          else if count_zero \<and> sem_op sop = 0 then 1
          else if \<not> count_zero \<and> sem_op sop < 0 then 1
          else 0)"

definition count_semcnt :: "stacks \<Rightarrow> sem_array \<Rightarrow> nat \<Rightarrow> bool \<Rightarrow> int" where
  "count_semcnt st a semnum count_zero =
     (let l = (if count_zero then sem_const (sems a ! semnum) else sem_alter (sems a ! semnum));
          chk = (\<lambda>t. case st t of Some q \<Rightarrow> check_qop semnum q count_zero | None \<Rightarrow> 0)
      in int (length l) + sum_list (map chk (pending_alter a))
         + (if count_zero then sum_list (map chk (pending_const a)) else 0))"

definition get_semotime :: "sem_array \<Rightarrow> int" where
  "get_semotime a = fold (\<lambda>s res. if sem_otime s > res then sem_otime s else res) (tl (sems a)) (sem_otime (hd (sems a)))"

section \<open>The flags of a list of operations\<close>

text \<open>
  \<^verbatim>\<open>max\<close>, \<^verbatim>\<open>undos\<close>, \<^verbatim>\<open>alter\<close>, \<^verbatim>\<open>dupsop\<close> and \<^verbatim>\<open>dup\<close>, as the loop at the start of \<^verbatim>\<open>__do_semtimedop\<close>
  computes them; \<^verbatim>\<open>dup\<close> has one bit for each residue of a semaphore number.
\<close>

record sops_flags =
  sf_max :: nat
  sf_undos :: bool
  sf_alter :: bool
  sf_dupsop :: bool
  sf_dup :: "64 word"

definition no_flags :: sops_flags where
  "no_flags = \<lparr>sf_max = 0, sf_undos = False, sf_alter = False, sf_dupsop = False, sf_dup = 0\<rparr>"

definition scan_sop :: "sembuf \<Rightarrow> sops_flags \<Rightarrow> sops_flags" where
  "scan_sop sop f =
     (let mask = push_bit (sem_num sop mod 64) (1 :: 64 word)
      in \<lparr>sf_max = (if sem_num sop \<ge> sf_max f then sem_num sop else sf_max f),
          sf_undos = (if wants_undo sop then True else sf_undos f),
          sf_alter = (if sem_op sop \<noteq> 0 then True else sf_alter f),
          sf_dupsop = (if sf_dup f AND mask \<noteq> 0 then True else sf_dupsop f),
          sf_dup = (if sem_op sop \<noteq> 0 then sf_dup f OR mask else sf_dup f)\<rparr>)"

definition scan_sops :: "sembuf list \<Rightarrow> sops_flags" where
  "scan_sops l = fold scan_sop l no_flags"

section \<open>Critical sections\<close>

text \<open>
  What the system calls do to one array between \<^verbatim>\<open>sem_lock\<close> and \<^verbatim>\<open>sem_unlock\<close>. \<open>now\<close> is the
  clock, \<open>tgid\<close> the caller's thread group.
\<close>

definition sw_lock :: "sembuf list option \<Rightarrow> sem_work \<Rightarrow> sem_work \<times> int" where
  "sw_lock sops w = (case sem_lock sops (sw_sma w) of (a, locknum) \<Rightarrow> (w\<lparr>sw_sma := a\<rparr>, locknum))"

definition sw_unlock :: "int \<Rightarrow> sem_work \<Rightarrow> sem_work" where
  "sw_unlock locknum w = w\<lparr>sw_sma := sem_unlock (sw_stacks w) locknum (sw_sma w)\<rparr>"

text \<open>Putting a sleeping operation on its queue.\<close>

definition enqueue_sop :: "nat \<Rightarrow> sembuf list \<Rightarrow> bool \<Rightarrow> sem_array \<Rightarrow> sem_array" where
  "enqueue_sop cur sops alter a =
     (if length sops = 1 then
        (let idx = array_index_nospec (sem_num (hd sops)) (sem_nsems a)
         in if alter then
              (if complex_count a \<noteq> 0 then pending_alter_update (\<lambda>l. l @ [cur]) a
               else sems_update (upd_sem idx (sem_alter_update (\<lambda>l. l @ [cur]))) a)
            else sems_update (upd_sem idx (sem_const_update (\<lambda>l. l @ [cur]))) a)
      else
        (let a = (if complex_count a = 0 then merge_queues a else a);
             a = (if alter then pending_alter_update (\<lambda>l. l @ [cur]) a
                  else pending_const_update (\<lambda>l. l @ [cur]) a)
         in complex_count_update (\<lambda>n. n + 1) a))"

text \<open>A call of \<^verbatim>\<open>semtimedop\<close>, up to its return or its sleep.\<close>

definition semop_section :: "int \<Rightarrow> nat \<Rightarrow> sem_queue \<Rightarrow> int \<Rightarrow> sem_work \<Rightarrow> sem_work \<times> sem_result" where
  "semop_section now cur q locknum w =
     (case perform_atomic_semop (sw_sma w) (sw_undos w) q of
        (a, us, q, SemDone) \<Rightarrow>
          (let w = w\<lparr>sw_sma := a, sw_undos := us\<rparr>;
               w = (if q_alter q then do_smart_update now (Some (q_sops q)) True w
                    else set_semotime now (Some (q_sops q)) w)
           in (sw_unlock locknum w, SemDone))
      | (a, us, q, SemErr err) \<Rightarrow> (sw_unlock locknum (w\<lparr>sw_sma := a, sw_undos := us\<rparr>), SemErr err)
      | (a, us, q, SemSleep) \<Rightarrow>
          (sw_unlock locknum
             (w\<lparr>sw_sma := enqueue_sop cur (q_sops q) (q_alter q) a, sw_undos := us,
                sw_stacks := (sw_stacks w)(cur \<mapsto> q\<lparr>q_status := Some EINTR, q_sleeper := cur\<rparr>)\<rparr>),
           SemSleep))"

text \<open>A sleeper that has not been served: it leaves, or sleeps on.\<close>

definition resume_section :: "bool \<Rightarrow> nat \<Rightarrow> int \<Rightarrow> sem_work \<Rightarrow> sem_work" where
  "resume_section leave cur locknum w = sw_unlock locknum (if leave then sw_unlink cur w else w)"

text \<open>Clearing adjustments of the undo structures of an array.\<close>

fun clear_adj :: "ptr list \<Rightarrow> nat \<Rightarrow> undos \<Rightarrow> undos" where
  "clear_adj [] i us = us"
| "clear_adj (un # uns) i us = clear_adj uns i (semadj_set (Some un) i 0 us)"

fun clear_adj_all :: "ptr list \<Rightarrow> nat \<Rightarrow> undos \<Rightarrow> undos" where
  "clear_adj_all uns 0 us = us"
| "clear_adj_all uns (Suc n) us = clear_adj uns n (clear_adj_all uns n us)"

definition setval_section :: "int \<Rightarrow> nat \<Rightarrow> nat \<Rightarrow> int \<Rightarrow> sem_work \<Rightarrow> sem_work" where
  "setval_section now tgid i val w =
     (let a = sw_sma w
      in sw_unlock (-1)
           (do_smart_update now None False
              (w\<lparr>sw_undos := clear_adj (list_id a) i (sw_undos w),
                 sw_sma := a\<lparr>sems := upd_sem i (\<lambda>x. x\<lparr>semval := val, sempid := Some tgid\<rparr>) (sems a),
                             sem_ctime := now\<rparr>\<rparr>)))"

definition setall_section :: "int \<Rightarrow> nat \<Rightarrow> (nat \<Rightarrow> 16 word) \<Rightarrow> sem_work \<Rightarrow> sem_work" where
  "setall_section now tgid io w =
     (let a = sw_sma w; nsems = sem_nsems a
      in sw_unlock (-1)
           (do_smart_update now None False
              (w\<lparr>sw_undos := clear_adj_all (list_id a) nsems (sw_undos w),
                 sw_sma := a\<lparr>sems := map (\<lambda>i. (sems a ! i)\<lparr>semval := uint (io i), sempid := Some tgid\<rparr>) [0..<nsems],
                             sem_ctime := now\<rparr>\<rparr>)))"

text \<open>The adjustments of one undo structure, clamped to the range of a value.\<close>

definition adj_sem :: "nat \<Rightarrow> int \<Rightarrow> sem \<Rightarrow> sem" where
  "adj_sem tgid adj x =
     (if adj = 0 then x
      else (let v = semval x + adj; v = (if v < 0 then 0 else v); v = (if v > SEMVMX then SEMVMX else v)
            in x\<lparr>semval := v, sempid := Some tgid\<rparr>))"

definition apply_undo :: "nat \<Rightarrow> int list \<Rightarrow> sem list \<Rightarrow> sem list" where
  "apply_undo tgid adj ss =
     map (\<lambda>i. adj_sem tgid (if i < length adj then adj ! i else 0) (ss ! i)) [0..<length ss]"

definition exit_section :: "int \<Rightarrow> nat \<Rightarrow> ptr \<Rightarrow> sem_work \<Rightarrow> sem_work" where
  "exit_section now tgid un w =
     (let adj = (case sw_undos w un of Some u \<Rightarrow> semadj u | None \<Rightarrow> [])
      in sw_unlock (-1)
           (do_smart_update now None True
              (w\<lparr>sw_sma := list_id_update (remove1 un) (sems_update (apply_undo tgid adj) (sw_sma w))\<rparr>)))"

end
