(* ===== verification/SemArrayLaws.thy ===== *)
theory SemArrayLaws
  imports SemArray
begin

text \<open>
  Laws of the semaphore engine: single operations and their rollback, the agreement of the
  fast and the slow path, and what a wake-up pass keeps.
\<close>

unbundle bit_operations_syntax

section \<open>Single fields\<close>

lemma length_upd_sem [simp]: "length (upd_sem i f ss) = length ss"
  by (simp add: upd_sem_def)

lemma nth_upd_sem:
  "j < length ss \<Longrightarrow> upd_sem i f ss ! j = (if j = i then f (ss ! i) else ss ! j)"
  by (simp add: upd_sem_def nth_list_update)

lemma upd_sem_upd_sem: "upd_sem i f (upd_sem i g ss) = upd_sem i (f \<circ> g) ss"
  by (cases "i < length ss") (simp_all add: upd_sem_def list_update_beyond not_less)

lemma upd_sem_commute: "i \<noteq> j \<Longrightarrow> upd_sem i f (upd_sem j g ss) = upd_sem j g (upd_sem i f ss)"
  by (simp add: upd_sem_def list_update_swap)

lemma upd_sem_id: "f (ss ! i) = ss ! i \<Longrightarrow> upd_sem i f ss = ss"
  by (simp add: upd_sem_def)

lemma array_index_nospec_id [simp]: "i < n \<Longrightarrow> array_index_nospec i n = i"
  by (simp add: array_index_nospec_def)

definition short_range :: "int \<Rightarrow> bool" where
  "short_range x \<longleftrightarrow> -32768 \<le> x \<and> x \<le> 32767"

lemma c_short_id: "short_range x \<Longrightarrow> c_short x = x"
  unfolding c_short_def short_range_def by (rule signed_take_bit_int_eq_self) simp_all

lemma c_short_range [simp]: "short_range (c_short x)"
  using signed_take_bit_int_greater_eq_minus_exp [of 15 x] signed_take_bit_int_less_exp [of 15 x]
  by (simp add: c_short_def short_range_def)

text \<open>Every adjustment is a \<^verbatim>\<open>short\<close>.\<close>

definition undos_ok :: "undos \<Rightarrow> bool" where
  "undos_ok us \<longleftrightarrow> (\<forall>p u. us p = Some u \<longrightarrow> (\<forall>x \<in> set (semadj u). short_range x))"

lemma undos_ok_set [simp]: "undos_ok us \<Longrightarrow> undos_ok (semadj_set un i v us)"
  unfolding undos_ok_def semadj_set_def
  by (auto split: option.splits if_splits dest!: set_update_subset_insert [THEN subsetD])

lemma undos_ok_at: "undos_ok us \<Longrightarrow> short_range (semadj_at us un i)"
  unfolding undos_ok_def semadj_at_def
  by (auto split: option.splits simp: short_range_def)

lemma semadj_at_set_other: "i \<noteq> j \<Longrightarrow> semadj_at (semadj_set un i v us) un j = semadj_at us un j"
  by (auto simp: semadj_at_def semadj_set_def split: option.splits)

lemma semadj_set_same:
  assumes "undos_ok us"
  shows "semadj_set un i (semadj_at us un i) us = us"
proof (cases un)
  case (Some p)
  show ?thesis
  proof (cases "us p")
    case (Some u)
    have "c_short (semadj_at us un i) = semadj_at us un i"
      by (rule c_short_id [OF undos_ok_at [OF assms]])
    with Some \<open>un = Some p\<close> show ?thesis
      by (cases "i < length (semadj u)")
        (auto simp: semadj_set_def semadj_at_def fun_upd_idem_iff list_update_beyond not_less)
  qed (use Some in \<open>simp add: semadj_set_def fun_upd_idem_iff\<close>)
qed (simp add: semadj_set_def)

lemma semadj_set_set: "semadj_set un i v (semadj_set un i w us) = semadj_set un i v us"
  by (auto simp: semadj_set_def option.map_comp o_def split: option.splits)

text \<open>Adding back what was taken off.\<close>

lemma semadj_set_back:
  assumes "undos_ok us" "short_range (semadj_at us un i - d)"
  shows "semadj_set un i (semadj_at (semadj_set un i (semadj_at us un i - d) us) un i + d)
           (semadj_set un i (semadj_at us un i - d) us) = us"
proof (cases "\<exists>p u. un = Some p \<and> us p = Some u \<and> i < length (semadj u)")
  case True
  then have "semadj_at (semadj_set un i v us) un i = c_short v" for v
    by (auto simp: semadj_at_def semadj_set_def)
  then show ?thesis
    using assms by (simp add: c_short_id semadj_set_set semadj_set_same)
next
  case False
  have "semadj_set un i v us = us" for v
  proof (cases un)
    case (Some p)
    with False show ?thesis
      by (cases "us p") (auto simp: semadj_set_def fun_upd_idem_iff list_update_beyond not_less)
  qed (simp add: semadj_set_def)
  then show ?thesis by simp
qed

section \<open>Performing operations\<close>

definition nums_in :: "nat \<Rightarrow> sembuf list \<Rightarrow> bool" where
  "nums_in n l \<longleftrightarrow> (\<forall>sop \<in> set l. sem_num sop < n)"

lemma nums_in_simps [simp]:
  "nums_in n []" "nums_in n (sop # l) \<longleftrightarrow> sem_num sop < n \<and> nums_in n l"
  by (simp_all add: nums_in_def)

lemma limits: "SEMVMX = 32767" "SEMAEM = 32767"
  by (simp_all add: SEMVMX_def SEMAEM_def)

text \<open>One operation of a scan: whether it can proceed, and its effect.\<close>

definition sop_check :: "ptr option \<Rightarrow> sembuf \<Rightarrow> sem list \<Rightarrow> undos \<Rightarrow> scan_end" where
  "sop_check un sop ss us =
     (let r = semval (ss ! sem_num sop); undo = semadj_at us un (sem_num sop) - sem_op sop
      in if sem_op sop = 0 \<and> r \<noteq> 0 \<or> r + sem_op sop < 0 then WouldBlock sop
         else if r + sem_op sop > SEMVMX \<or> wants_undo sop \<and> \<not> short_range undo then OutOfRange
         else ScanEnd)"

definition sop_ss :: "sembuf \<Rightarrow> sem list \<Rightarrow> sem list" where
  "sop_ss sop ss = upd_sem (sem_num sop) (\<lambda>s. s\<lparr>semval := semval s + sem_op sop\<rparr>) ss"

definition sop_us :: "ptr option \<Rightarrow> sembuf \<Rightarrow> undos \<Rightarrow> undos" where
  "sop_us un sop us =
     (if wants_undo sop then semadj_set un (sem_num sop) (semadj_at us un (sem_num sop) - sem_op sop) us
      else us)"

lemma length_sop_ss [simp]: "length (sop_ss sop ss) = length ss"
  by (simp add: sop_ss_def)

lemma undos_ok_sop_us [simp]: "undos_ok us \<Longrightarrow> undos_ok (sop_us un sop us)"
  by (simp add: sop_us_def)

lemma upd_sem_const: "upd_sem i (\<lambda>s. f (g (ss ! i)) s) ss = upd_sem i (\<lambda>s. f (g s) s) ss"
  by (simp add: upd_sem_def)

lemma slow_scan_Cons:
  assumes "sem_num sop < length ss"
  shows "semop_slow_scan un b (sop # rest) ss us =
     (if sop_check un sop ss us = ScanEnd
      then semop_slow_scan un (sop # b) rest (sop_ss sop ss) (sop_us un sop us)
      else (ss, us, b, sop_check un sop ss us))"
proof -
  have "upd_sem (sem_num sop) (\<lambda>s. s\<lparr>semval := semval (ss ! sem_num sop) + sem_op sop\<rparr>) ss = sop_ss sop ss"
    by (simp add: sop_ss_def upd_sem_def)
  with assms show ?thesis
    by (auto simp: sop_check_def sop_us_def Let_def short_range_def limits)
qed

lemma fast_scan_Cons:
  assumes "sem_num sop < length ss"
  shows "semop_fast_scan un (sop # rest) ss us =
     (if sop_check un sop ss us = ScanEnd then semop_fast_scan un rest ss us else sop_check un sop ss us)"
  using assms by (auto simp: sop_check_def Let_def short_range_def limits)

lemmas scan_Cons = slow_scan_Cons fast_scan_Cons
declare semop_slow_scan.simps(2) [simp del] semop_fast_scan.simps(2) [simp del]

text \<open>The rollback of a scan that stopped gives back what the scan started from.\<close>

lemma sop_rollback:
  assumes "undos_ok us" "sop_check un sop ss us = ScanEnd"
  shows "semop_rollback un (sop # b) (sop_ss sop ss) (sop_us un sop us) = semop_rollback un b ss us"
proof -
  let ?i = "sem_num sop"
  have "upd_sem ?i (\<lambda>s. s\<lparr>semval := semval s - sem_op sop\<rparr>) (sop_ss sop ss) = ss"
    by (simp add: sop_ss_def upd_sem_upd_sem o_def) (rule upd_sem_id, simp)
  moreover have "semadj_set un ?i (semadj_at (sop_us un sop us) un ?i + sem_op sop) (sop_us un sop us) = us"
    if "wants_undo sop"
    using semadj_set_back [OF assms(1), of un ?i "sem_op sop"] assms(2) that
    by (auto simp: sop_check_def sop_us_def Let_def split: if_splits)
  ultimately show ?thesis by (simp add: sop_us_def)
qed

lemma slow_scan_rollback:
  assumes "semop_slow_scan un before ops ss us = (ss', us', before', v)"
    and "undos_ok us" "nums_in (length ss) ops"
  shows "semop_rollback un before' ss' us' = semop_rollback un before ss us"
  using assms
proof (induction ops arbitrary: before ss us)
  case (Cons sop rest)
  show ?case
  proof (cases "sop_check un sop ss us = ScanEnd")
    case True
    then have "semop_slow_scan un (sop # before) rest (sop_ss sop ss) (sop_us un sop us) = (ss', us', before', v)"
      using Cons.prems by (simp add: scan_Cons)
    then have "semop_rollback un before' ss' us' =
        semop_rollback un (sop # before) (sop_ss sop ss) (sop_us un sop us)"
      using Cons.IH Cons.prems by simp
    then show ?thesis using sop_rollback [OF Cons.prems(2) True] by simp
  next
    case False
    with Cons.prems show ?thesis by (auto simp: scan_Cons)
  qed
qed simp

lemma perform_not_done:
  assumes "perform_atomic_semop a us q = (a', us', q', r)" "r \<noteq> SemDone"
    and "undos_ok us" "nums_in (sem_nsems a) (q_sops q)"
  shows "a' = a \<and> us' = us"
proof (cases "q_dupsop q")
  case False
  with assms(1,2) show ?thesis
    by (auto simp: perform_atomic_semop_def split: scan_end.splits prod.splits)
next
  case True
  obtain ss1 us1 b v where s: "semop_slow_scan (q_undo q) [] (q_sops q) (sems a) us = (ss1, us1, b, v)"
    by (metis prod_cases4)
  have "semop_rollback (q_undo q) b ss1 us1 = (sems a, us)"
    using slow_scan_rollback [OF s assms(3,4)] by simp
  with assms(1,2) True s show ?thesis
    by (auto simp: perform_atomic_semop_def perform_atomic_semop_slow_def split: scan_end.splits prod.splits)
qed

section \<open>The two paths agree\<close>

text \<open>
  An operation that alters a semaphore is not followed by another one on the same semaphore:
  this is what the duplicate test of the scan establishes.
\<close>

fun no_dup :: "sembuf list \<Rightarrow> bool" where
  "no_dup [] = True"
| "no_dup (sop # l) \<longleftrightarrow> (sem_op sop \<noteq> 0 \<longrightarrow> sem_num sop \<notin> sem_num ` set l) \<and> no_dup l"

lemma fast_scan_frame:
  assumes "nums_in (length ss) l" "length ss' = length ss"
    and "\<forall>sop \<in> set l. semval (ss' ! sem_num sop) = semval (ss ! sem_num sop)"
    and "\<forall>sop \<in> set l. semadj_at us' un (sem_num sop) = semadj_at us un (sem_num sop)"
  shows "semop_fast_scan un l ss' us' = semop_fast_scan un l ss us"
  using assms
proof (induction l)
  case (Cons sop l)
  then have "sop_check un sop ss' us' = sop_check un sop ss us"
    by (simp add: sop_check_def)
  with Cons show ?case by (simp add: scan_Cons)
qed simp

lemma sop_frame:
  assumes "undos_ok us" "sem_num sop < length ss" "sem_op sop \<noteq> 0 \<longrightarrow> j \<noteq> sem_num sop" "j < length ss"
  shows "semval (sop_ss sop ss ! j) = semval (ss ! j)"
    and "semadj_at (sop_us un sop us) un j = semadj_at us un j"
proof -
  show "semval (sop_ss sop ss ! j) = semval (ss ! j)"
    using assms by (auto simp: sop_ss_def nth_upd_sem)
  show "semadj_at (sop_us un sop us) un j = semadj_at us un j"
  proof (cases "sem_op sop = 0")
    case True
    then show ?thesis using assms(1) by (simp add: sop_us_def semadj_set_same)
  next
    case False
    then show ?thesis using assms(3) by (simp add: sop_us_def semadj_at_set_other)
  qed
qed

lemma slow_scan_verdict:
  assumes "no_dup l" "undos_ok us" "nums_in (length ss) l"
    and "semop_slow_scan un b l ss us = (ss', us', b', v)"
  shows "semop_fast_scan un l ss us = v"
  using assms
proof (induction l arbitrary: b ss us)
  case (Cons sop l)
  show ?case
  proof (cases "sop_check un sop ss us = ScanEnd")
    case False
    with Cons.prems show ?thesis by (auto simp: scan_Cons)
  next
    case True
    have l: "nums_in (length ss) l" and i: "sem_num sop < length ss"
      using Cons.prems by simp_all
    have fr: "sem_op sop \<noteq> 0 \<longrightarrow> sem_num x \<noteq> sem_num sop" if "x \<in> set l" for x
      using that Cons.prems(1) by (metis image_eqI no_dup.simps(2))
    have "semop_fast_scan un l (sop_ss sop ss) (sop_us un sop us) = semop_fast_scan un l ss us"
      using l sop_frame [OF Cons.prems(2) i fr]
      by (intro fast_scan_frame) (auto simp: nums_in_def)
    moreover have "semop_fast_scan un l (sop_ss sop ss) (sop_us un sop us) = v"
    proof (rule Cons.IH)
      show "semop_slow_scan un (sop # b) l (sop_ss sop ss) (sop_us un sop us) = (ss', us', b', v)"
        using Cons.prems(4) True i by (simp add: scan_Cons)
    qed (use Cons.prems l in simp_all)
    ultimately show ?thesis using True i by (simp add: scan_Cons)
  qed
qed simp

lemma set_pids_commute:
  assumes "\<And>s. f (s\<lparr>sempid := Some pid\<rparr>) = (f s)\<lparr>sempid := Some pid\<rparr>"
  shows "upd_sem i f (semop_set_pids pid b ss) = semop_set_pids pid b (upd_sem i f ss)"
proof (induction b arbitrary: ss)
  case (Cons sop b)
  have "upd_sem i f (upd_sem (sem_num sop) (\<lambda>s. s\<lparr>sempid := Some pid\<rparr>) ss) =
        upd_sem (sem_num sop) (\<lambda>s. s\<lparr>sempid := Some pid\<rparr>) (upd_sem i f ss)"
    by (cases "i = sem_num sop") (simp_all add: upd_sem_upd_sem o_def assms upd_sem_commute)
  with Cons show ?case by simp
qed simp

lemma slow_scan_commit:
  assumes "semop_slow_scan un b l ss us = (ss', us', b', ScanEnd)" "nums_in (length ss) l"
  shows "semop_fast_commit un pid l (semop_set_pids pid b ss) us = (semop_set_pids pid b' ss', us')"
  using assms
proof (induction l arbitrary: b ss us)
  case (Cons sop l)
  have i: "sem_num sop < length ss" using Cons.prems by simp
  have ok: "sop_check un sop ss us = ScanEnd"
    using Cons.prems i by (auto simp: scan_Cons split: if_splits)
  have IH: "semop_fast_commit un pid l (semop_set_pids pid (sop # b) (sop_ss sop ss)) (sop_us un sop us) =
        (semop_set_pids pid b' ss', us')"
    using Cons.prems ok i by (intro Cons.IH) (simp_all add: scan_Cons)
  have "upd_sem (sem_num sop) (\<lambda>s. s\<lparr>semval := semval s + sem_op sop, sempid := Some pid\<rparr>)
          (semop_set_pids pid b ss) = semop_set_pids pid (sop # b) (sop_ss sop ss)"
    by (subst set_pids_commute) (simp_all add: sop_ss_def upd_sem_upd_sem o_def)
  with IH show ?case by (simp add: sop_us_def)
qed simp

lemma fast_eq_slow:
  assumes "no_dup (q_sops q)" "undos_ok us" "nums_in (sem_nsems a) (q_sops q)" "\<not> q_dupsop q"
  shows "perform_atomic_semop a us q = perform_atomic_semop_slow a us q"
proof -
  obtain ss1 us1 b v where s: "semop_slow_scan (q_undo q) [] (q_sops q) (sems a) us = (ss1, us1, b, v)"
    by (metis prod_cases4)
  have v: "semop_fast_scan (q_undo q) (q_sops q) (sems a) us = v"
    by (rule slow_scan_verdict [OF assms(1-3) s])
  have rb: "semop_rollback (q_undo q) b ss1 us1 = (sems a, us)"
    using slow_scan_rollback [OF s assms(2,3)] by simp
  show ?thesis
  proof (cases v)
    case ScanEnd
    then show ?thesis
      using slow_scan_commit [of "q_undo q" "[]" "q_sops q" "sems a" us ss1 us1 b "q_pid q"] s v assms(3,4)
      by (simp add: perform_atomic_semop_def perform_atomic_semop_slow_def)
  qed (use s v rb assms(4) in \<open>simp_all add: perform_atomic_semop_def perform_atomic_semop_slow_def\<close>)
qed

section \<open>The duplicate test\<close>

lemma bit_or_mask: "bit (w OR (2 :: 64 word) ^ k) j \<longleftrightarrow> bit w j \<or> k < 64 \<and> j = k"
  by (auto simp: bit_or_iff bit_exp_iff)

lemma fold_dupsop: "sf_dupsop f \<Longrightarrow> sf_dupsop (fold scan_sop l f)"
  by (induction l arbitrary: f) (simp_all add: scan_sop_def Let_def)

lemma fold_dup_step:
  assumes "\<not> sf_dupsop (fold scan_sop l f)" "sop \<in> set l"
  shows "\<not> bit (sf_dup f) (sem_num sop mod 64)"
  using assms
proof (induction l arbitrary: f)
  case (Cons x l)
  show ?case
  proof (cases "sop = x")
    case True
    have "\<not> sf_dupsop (scan_sop x f)" using Cons.prems(1) fold_dupsop by auto
    with True show ?thesis by (auto simp: scan_sop_def Let_def and_exp_eq_0_iff_not_bit)
  next
    case False
    with Cons have "\<not> bit (sf_dup (scan_sop x f)) (sem_num sop mod 64)" by auto
    then show ?thesis by (auto simp: scan_sop_def Let_def bit_or_mask split: if_splits)
  qed
qed simp

lemma scan_no_dup:
  assumes "\<not> sf_dupsop (fold scan_sop l f)"
  shows "no_dup l"
  using assms
proof (induction l arbitrary: f)
  case (Cons x l)
  have "sem_num y \<noteq> sem_num x" if "sem_op x \<noteq> 0" "y \<in> set l" for y
  proof -
    have "\<not> bit (sf_dup (scan_sop x f)) (sem_num y mod 64)"
      using Cons.prems that(2) by (intro fold_dup_step [of l]) simp_all
    then show ?thesis
      using that(1) by (auto simp: scan_sop_def Let_def bit_or_mask)
  qed
  then have "sem_op x \<noteq> 0 \<longrightarrow> sem_num x \<notin> sem_num ` set l" by (metis imageE)
  with Cons show ?case by simp
qed simp

lemma fold_scan_flags:
  "sf_alter (fold scan_sop l f) \<longleftrightarrow> sf_alter f \<or> (\<exists>sop \<in> set l. sem_op sop \<noteq> 0)"
  "sf_undos (fold scan_sop l f) \<longleftrightarrow> sf_undos f \<or> (\<exists>sop \<in> set l. wants_undo sop)"
  "sf_max (fold scan_sop l f) < n \<longleftrightarrow> sf_max f < n \<and> nums_in n l"
  by (induction l arbitrary: f) (auto simp: scan_sop_def Let_def)

section \<open>What performing an operation keeps\<close>

definition vals_ok :: "sem list \<Rightarrow> bool" where
  "vals_ok ss \<longleftrightarrow> (\<forall>s \<in> set ss. 0 \<le> semval s \<and> semval s \<le> SEMVMX)"

definition sop_queue_ok :: "nat \<Rightarrow> sem_queue \<Rightarrow> bool" where
  "sop_queue_ok n q \<longleftrightarrow> nums_in n (q_sops q) \<and> (q_dupsop q \<or> no_dup (q_sops q))"

lemma perform_eq_slow:
  assumes "sop_queue_ok (sem_nsems a) q" "undos_ok us"
  shows "perform_atomic_semop a us q = perform_atomic_semop_slow a us q"
proof (cases "q_dupsop q")
  case True
  then show ?thesis by (simp add: perform_atomic_semop_def)
next
  case False
  with assms show ?thesis by (intro fast_eq_slow) (simp_all add: sop_queue_ok_def)
qed

text \<open>The queues of the semaphores.\<close>

definition sem_lists :: "sem list \<Rightarrow> (nat list \<times> nat list) list" where
  "sem_lists ss = map (\<lambda>s. (sem_alter s, sem_const s)) ss"

lemma map_upd_sem:
  assumes "\<And>s. g (f s) = g s"
  shows "map g (upd_sem i f ss) = map g ss"
  unfolding upd_sem_def
  by (cases "i < length ss") (simp_all add: map_update assms list_update_same_conv list_update_beyond not_less)

lemma sem_lists_upd [simp]:
  "(\<And>s. sem_alter (f s) = sem_alter s \<and> sem_const (f s) = sem_const s) \<Longrightarrow> sem_lists (upd_sem i f ss) = sem_lists ss"
  unfolding sem_lists_def by (rule map_upd_sem) simp

lemma sem_lists_set_pids [simp]: "sem_lists (semop_set_pids pid b ss) = sem_lists ss"
  by (induction b arbitrary: ss) simp_all

lemma semvals_set_pids [simp]: "map semval (semop_set_pids pid b ss) = map semval ss"
  by (induction b arbitrary: ss) (simp_all add: map_upd_sem)

lemma length_set_pids [simp]: "length (semop_set_pids pid b ss) = length ss"
  by (induction b arbitrary: ss) simp_all

lemma vals_ok_iff: "vals_ok ss \<longleftrightarrow> (\<forall>v \<in> set (map semval ss). 0 \<le> v \<and> v \<le> SEMVMX)"
  by (simp add: vals_ok_def)

lemma vals_ok_set_pids [simp]: "vals_ok (semop_set_pids pid b ss) = vals_ok ss"
  unfolding vals_ok_iff semvals_set_pids ..

lemma vals_ok_sop_ss:
  assumes "vals_ok ss" "sop_check un sop ss us = ScanEnd" "sem_num sop < length ss"
  shows "vals_ok (sop_ss sop ss)"
proof -
  have "0 \<le> semval (ss ! sem_num sop) + sem_op sop \<and> semval (ss ! sem_num sop) + sem_op sop \<le> SEMVMX"
    using assms(2) by (auto simp: sop_check_def Let_def split: if_splits)
  with assms(1) show ?thesis
    unfolding vals_ok_def sop_ss_def upd_sem_def
    by (auto dest!: set_update_subset_insert [THEN subsetD])
qed

text \<open>An undo table keeps its structures: owners, set ids and sizes.\<close>

definition undo_shape :: "undos \<Rightarrow> ptr \<Rightarrow> (ptr \<times> int \<times> nat) option" where
  "undo_shape us p = map_option (\<lambda>u. (un_ulp u, un_semid u, length (semadj u))) (us p)"

lemma undo_shape_set [simp]: "undo_shape (semadj_set un i v us) = undo_shape us"
  by (auto simp: undo_shape_def semadj_set_def option.map_comp o_def fun_eq_iff split: option.splits)

lemma undo_shape_sop_us [simp]: "undo_shape (sop_us un sop us) = undo_shape us"
  by (simp add: sop_us_def)

lemma slow_scan_keeps:
  assumes "semop_slow_scan un b l ss us = (ss', us', b', v)"
    and "vals_ok ss" "undos_ok us" "nums_in (length ss) l"
  shows "vals_ok ss' \<and> undos_ok us' \<and> sem_lists ss' = sem_lists ss \<and> length ss' = length ss
    \<and> undo_shape us' = undo_shape us"
  using assms
proof (induction l arbitrary: b ss us)
  case (Cons sop l)
  show ?case
  proof (cases "sop_check un sop ss us = ScanEnd")
    case True
    have ih: "vals_ok ss' \<and> undos_ok us' \<and> sem_lists ss' = sem_lists (sop_ss sop ss)
        \<and> length ss' = length (sop_ss sop ss) \<and> undo_shape us' = undo_shape (sop_us un sop us)"
      using Cons.prems True
      by (intro Cons.IH [of "sop # b"]) (simp_all add: scan_Cons vals_ok_sop_ss [where un = un and us = us])
    have "sem_lists (sop_ss sop ss) = sem_lists ss" by (simp add: sop_ss_def)
    with ih show ?thesis by simp
  next
    case False
    with Cons.prems show ?thesis by (auto simp: scan_Cons)
  qed
qed auto

text \<open>The effect on the values: each semaphore moves by the sum of the operations on it.\<close>

definition sops_delta :: "sembuf list \<Rightarrow> nat \<Rightarrow> int" where
  "sops_delta l i = sum_list (map sem_op (filter (\<lambda>sop. sem_num sop = i) l))"

lemma slow_scan_vals:
  assumes "semop_slow_scan un b l ss us = (ss', us', b', ScanEnd)" "nums_in (length ss) l" "i < length ss"
  shows "semval (ss' ! i) = semval (ss ! i) + sops_delta l i"
  using assms
proof (induction l arbitrary: b ss us)
  case (Cons sop l)
  have "sop_check un sop ss us = ScanEnd"
    using Cons.prems by (auto simp: scan_Cons split: if_splits)
  then have "semval (ss' ! i) = semval (sop_ss sop ss ! i) + sops_delta l i"
    using Cons.prems by (intro Cons.IH [of "sop # b"]) (simp_all add: scan_Cons)
  then show ?case
    using Cons.prems(3) by (simp add: sop_ss_def nth_upd_sem sops_delta_def)
qed (simp add: sops_delta_def)

lemma semval_set_pids: "i < length ss \<Longrightarrow> semval (semop_set_pids pid b ss ! i) = semval (ss ! i)"
  using nth_map [of i "semop_set_pids pid b ss" semval] nth_map [of i ss semval] by simp

lemma perform_keeps:
  assumes "perform_atomic_semop a us q = (a', us', q', r)"
    and "sop_queue_ok (sem_nsems a) q" "undos_ok us" "vals_ok (sems a)"
  shows "a' = a\<lparr>sems := sems a'\<rparr>" "vals_ok (sems a')" "undos_ok us'" "sem_lists (sems a') = sem_lists (sems a)"
    "sem_nsems a' = sem_nsems a" "undo_shape us' = undo_shape us" "q' = q\<lparr>q_blocking := q_blocking q'\<rparr>"
    and "r \<noteq> SemDone \<Longrightarrow> a' = a \<and> us' = us"
    and "\<lbrakk>r = SemDone; i < sem_nsems a\<rbrakk> \<Longrightarrow> semval (sems a' ! i) = semval (sems a ! i) + sops_delta (q_sops q) i"
    and "r = SemErr e \<Longrightarrow> e = EAGAIN \<or> e = ERANGE"
proof -
  have nums: "nums_in (sem_nsems a) (q_sops q)" using assms(2) by (simp add: sop_queue_ok_def)
  obtain ss1 us1 b v where s: "semop_slow_scan (q_undo q) [] (q_sops q) (sems a) us = (ss1, us1, b, v)"
    by (metis prod_cases4)
  have k: "vals_ok ss1 \<and> undos_ok us1 \<and> sem_lists ss1 = sem_lists (sems a) \<and> length ss1 = sem_nsems a
      \<and> undo_shape us1 = undo_shape us"
    using slow_scan_keeps [OF s] assms nums by blast
  have nd: "r \<noteq> SemDone \<Longrightarrow> a' = a \<and> us' = us"
    using perform_not_done [OF assms(1) _ assms(3) nums] .
  have slow: "perform_atomic_semop_slow a us q = (a', us', q', r)"
    using assms(1) perform_eq_slow [OF assms(2,3)] by simp
  have "r = SemDone \<longleftrightarrow> v = ScanEnd"
    using slow s by (cases v) (auto simp: perform_atomic_semop_slow_def block_result_def split: prod.splits if_splits)
  moreover have "v = ScanEnd \<Longrightarrow> a' = a\<lparr>sems := semop_set_pids (q_pid q) b ss1\<rparr> \<and> us' = us1 \<and> q' = q"
    using slow s by (auto simp: perform_atomic_semop_slow_def)
  ultimately have dn: "r = SemDone \<Longrightarrow>
      v = ScanEnd \<and> a' = a\<lparr>sems := semop_set_pids (q_pid q) b ss1\<rparr> \<and> us' = us1 \<and> q' = q" by blast
  show "r \<noteq> SemDone \<Longrightarrow> a' = a \<and> us' = us" by (rule nd)
  have qr: "(q' = q \<or> (\<exists>sop. q' = q\<lparr>q_blocking := Some sop\<rparr>))
      \<and> (r = SemDone \<or> r = SemErr ERANGE \<or> (\<exists>sop. r = block_result sop))"
    using slow s by (cases v) (auto simp: perform_atomic_semop_slow_def split: prod.splits)
  then have "q' = q \<or> (\<exists>sop. q' = q\<lparr>q_blocking := Some sop\<rparr>)" by (rule conjunct1)
  then show "q' = q\<lparr>q_blocking := q_blocking q'\<rparr>"
    by (elim disjE exE) simp_all
  show "r = SemErr e \<Longrightarrow> e = EAGAIN \<or> e = ERANGE"
    using conjunct2 [OF qr] by (auto simp: block_result_def split: if_splits)
  have two: "a' = a \<and> us' = us \<or> a' = a\<lparr>sems := semop_set_pids (q_pid q) b ss1\<rparr> \<and> us' = us1"
    using nd dn by blast
  show "a' = a\<lparr>sems := sems a'\<rparr>"
    using two by (elim disjE conjE) simp_all
  from two have sa: "sems a' = sems a \<and> us' = us \<or> sems a' = semop_set_pids (q_pid q) b ss1 \<and> us' = us1"
    by (elim disjE conjE) simp_all
  have "vals_ok (sems a') \<and> undos_ok us' \<and> sem_lists (sems a') = sem_lists (sems a)
      \<and> sem_nsems a' = sem_nsems a \<and> undo_shape us' = undo_shape us"
    using sa
  proof
    assume "sems a' = sems a \<and> us' = us"
    then show ?thesis using assms(3,4) by simp
  next
    assume "sems a' = semop_set_pids (q_pid q) b ss1 \<and> us' = us1"
    then show ?thesis using k by simp
  qed
  then show "vals_ok (sems a')" "undos_ok us'" "sem_lists (sems a') = sem_lists (sems a)"
    "sem_nsems a' = sem_nsems a" "undo_shape us' = undo_shape us" by blast+
  show "\<lbrakk>r = SemDone; i < sem_nsems a\<rbrakk> \<Longrightarrow> semval (sems a' ! i) = semval (sems a ! i) + sops_delta (q_sops q) i"
    using dn k slow_scan_vals [of "q_undo q" "[]" "q_sops q" "sems a" us ss1 us1 b i] s nums
    by (simp add: semval_set_pids)
qed

end
