(* ===== verification/SemWake.thy ===== *)
theory SemWake
  imports SemArrayLaws
begin

text \<open>
  The wake-up passes of the semaphore engine: an array in order, the relation between the states
  before and after a pass, and the proof that each pass (\<^verbatim>\<open>wake_const_ops\<close>, \<^verbatim>\<open>do_smart_wakeup_zero\<close>,
  \<^verbatim>\<open>update_queue\<close>, \<^verbatim>\<open>do_smart_update\<close>) stays within it.
\<close>

section \<open>The waiting tasks\<close>

definition alter_waiters :: "sem_array \<Rightarrow> nat list" where
  "alter_waiters a = pending_alter a @ concat (map sem_alter (sems a))"

definition const_waiters :: "sem_array \<Rightarrow> nat list" where
  "const_waiters a = pending_const a @ concat (map sem_const (sems a))"

definition waiters :: "sem_array \<Rightarrow> nat list" where
  "waiters a = alter_waiters a @ const_waiters a"

definition is_complex :: "stacks \<Rightarrow> nat \<Rightarrow> bool" where
  "is_complex st t \<longleftrightarrow> length (sops_of st t) > 1"

text \<open>
  The array is in order: values and adjustments in range, every waiter is on one queue and has
  a well-formed operation on its stack, and \<^verbatim>\<open>complex_count\<close> counts the waiters with more than one
  operation.
\<close>

definition work_ok :: "sem_work \<Rightarrow> bool" where
  "work_ok w \<longleftrightarrow>
     vals_ok (sems (sw_sma w)) \<and> undos_ok (sw_undos w) \<and> distinct (waiters (sw_sma w))
     \<and> (\<forall>t \<in> set (waiters (sw_sma w)). \<exists>q. sw_stacks w t = Some q \<and> sop_queue_ok (sem_nsems (sw_sma w)) q)
     \<and> complex_count (sw_sma w) = int (length (filter (is_complex (sw_stacks w)) (waiters (sw_sma w))))"

lemma work_okI:
  assumes "vals_ok (sems (sw_sma w))" "undos_ok (sw_undos w)" "distinct (waiters (sw_sma w))"
    and "\<And>t. t \<in> set (waiters (sw_sma w)) \<Longrightarrow> \<exists>q. sw_stacks w t = Some q \<and> sop_queue_ok (sem_nsems (sw_sma w)) q"
    and "complex_count (sw_sma w) = int (length (filter (is_complex (sw_stacks w)) (waiters (sw_sma w))))"
  shows "work_ok w"
  using assms unfolding work_ok_def by blast

lemma removeAll_concat: "concat (map (removeAll t) xss) = removeAll t (concat xss)"
  by (induction xss) simp_all

lemma waiters_del_task:
  "alter_waiters (del_task t a) = removeAll t (alter_waiters a)"
  "const_waiters (del_task t a) = removeAll t (const_waiters a)"
  "waiters (del_task t a) = removeAll t (waiters a)"
proof -
  have "map sem_alter (sems (del_task t a)) = map (removeAll t) (map sem_alter (sems a))"
    "map sem_const (sems (del_task t a)) = map (removeAll t) (map sem_const (sems a))"
    "pending_alter (del_task t a) = removeAll t (pending_alter a)"
    "pending_const (del_task t a) = removeAll t (pending_const a)"
    by (simp_all add: del_task_def)
  then show 1: "alter_waiters (del_task t a) = removeAll t (alter_waiters a)"
    and 2: "const_waiters (del_task t a) = removeAll t (const_waiters a)"
    unfolding alter_waiters_def const_waiters_def removeAll_append removeAll_concat [symmetric]
    by simp_all
  show "waiters (del_task t a) = removeAll t (waiters a)"
    by (simp add: waiters_def 1 2)
qed

lemma waiters_cong:
  assumes "pending_alter b = pending_alter a" "pending_const b = pending_const a"
    and "sem_lists (sems b) = sem_lists (sems a)"
  shows "alter_waiters b = alter_waiters a" "const_waiters b = const_waiters a" "waiters b = waiters a"
proof -
  have "map sem_alter (sems b) = map fst (sem_lists (sems b))" "map sem_const (sems b) = map snd (sem_lists (sems b))"
       "map sem_alter (sems a) = map fst (sem_lists (sems a))" "map sem_const (sems a) = map snd (sem_lists (sems a))"
    by (simp_all add: sem_lists_def)
  with assms show "alter_waiters b = alter_waiters a" "const_waiters b = const_waiters a" "waiters b = waiters a"
    by (simp_all add: waiters_def alter_waiters_def const_waiters_def)
qed

text \<open>The queues of alter operations.\<close>

definition alter_lists :: "sem_array \<Rightarrow> nat list \<times> nat list list" where
  "alter_lists a = (pending_alter a, map sem_alter (sems a))"

lemma alter_lists_waiters: "alter_waiters a = fst (alter_lists a) @ concat (snd (alter_lists a))"
  by (simp add: alter_waiters_def alter_lists_def)

lemma alter_lists_del_task:
  "alter_lists (del_task t a) = (removeAll t (pending_alter a), map (removeAll t) (map sem_alter (sems a)))"
  by (simp add: alter_lists_def del_task_def)

lemma alter_lists_del_other: "t \<notin> set (alter_waiters a) \<Longrightarrow> alter_lists (del_task t a) = alter_lists a"
  unfolding alter_lists_del_task by (auto simp: alter_lists_def alter_waiters_def intro!: map_idI)

text \<open>The part of a sleeping operation no wake-up changes.\<close>

definition q_base :: "sem_queue \<Rightarrow> sem_queue" where
  "q_base q = q\<lparr>q_status := None, q_blocking := None\<rparr>"

lemma q_base_simps [simp]:
  "q_base (q\<lparr>q_status := s\<rparr>) = q_base q" "q_base (q\<lparr>q_blocking := b\<rparr>) = q_base q"
  "q_sops (q_base q) = q_sops q" "q_dupsop (q_base q) = q_dupsop q" "q_undo (q_base q) = q_undo q"
  "q_alter (q_base q) = q_alter q"
  by (simp_all add: q_base_def)

lemma q_base_eq: "q_base q = q_base p \<Longrightarrow> q_sops q = q_sops p \<and> q_dupsop q = q_dupsop p \<and> q_undo q = q_undo p
    \<and> q_alter q = q_alter p"
  by (metis q_base_simps)

definition st_base :: "stacks \<Rightarrow> nat \<Rightarrow> sem_queue option" where
  "st_base st t = map_option q_base (st t)"

lemma st_base_sops: "st_base st' t = st_base st t \<Longrightarrow> sops_of st' t = sops_of st t"
  by (auto simp: st_base_def sops_of_def split: option.splits dest: q_base_eq)

definition q_status_of :: "stacks \<Rightarrow> nat \<Rightarrow> errno option" where
  "q_status_of st t = (case st t of Some q \<Rightarrow> q_status q | None \<Rightarrow> None)"

text \<open>Queues that only lost members.\<close>

definition lists_le :: "sem_array \<Rightarrow> sem_array \<Rightarrow> bool" where
  "lists_le a a' \<longleftrightarrow>
     set (pending_alter a') \<subseteq> set (pending_alter a) \<and> set (pending_const a') \<subseteq> set (pending_const a)
     \<and> sem_nsems a' = sem_nsems a
     \<and> (\<forall>i < sem_nsems a. set (sem_alter (sems a' ! i)) \<subseteq> set (sem_alter (sems a ! i))
                        \<and> set (sem_const (sems a' ! i)) \<subseteq> set (sem_const (sems a ! i)))"

lemma lists_le_refl [simp]: "lists_le a a"
  by (simp add: lists_le_def)

lemma lists_le_trans: "lists_le a b \<Longrightarrow> lists_le b c \<Longrightarrow> lists_le a c"
  unfolding lists_le_def by (metis subset_trans)

lemma lists_le_del_task: "lists_le a (del_task t a)"
  by (auto simp: lists_le_def del_task_def)

lemma lists_le_nth:
  assumes "lists_le a a'" "i < sem_nsems a"
  shows "set (sem_alter (sems a' ! i)) \<subseteq> set (sem_alter (sems a ! i))"
    "set (sem_const (sems a' ! i)) \<subseteq> set (sem_const (sems a ! i))"
  using assms unfolding lists_le_def by blast+

lemma lists_le_const_waiters:
  assumes "lists_le a a'"
  shows "set (const_waiters a') \<subseteq> set (const_waiters a)"
proof -
  have len: "sem_nsems a' = sem_nsems a"
    using assms by (simp add: lists_le_def)
  have "set (sem_const s) \<subseteq> set (const_waiters a)" if s: "s \<in> set (sems a')" for s
  proof -
    obtain i where i: "i < sem_nsems a" "s = sems a' ! i"
      using s len by (auto simp: in_set_conv_nth)
    have "set (sem_const (sems a ! i)) \<subseteq> set (const_waiters a)"
      using i(1) by (auto simp: const_waiters_def)
    with lists_le_nth(2) [OF assms i(1)] i(2) show ?thesis by blast
  qed
  moreover have "set (pending_const a') \<subseteq> set (const_waiters a)"
    using assms by (auto simp: lists_le_def const_waiters_def)
  ultimately show ?thesis by (auto simp: const_waiters_def [of a'])
qed

section \<open>What a wake-up pass does\<close>

text \<open>
  A pass from \<open>w\<close> to \<open>w'\<close> keeps the array in order and everything but the semaphores and the
  queues; the waiters it takes off are exactly those it wakes, with a final status, and every
  other sleeping operation keeps its status.
\<close>

definition work_rel :: "sem_work \<Rightarrow> sem_work \<Rightarrow> bool" where
  "work_rel w w' \<longleftrightarrow>
     work_ok w'
     \<and> sw_sma w' = (sw_sma w)\<lparr>pending_alter := pending_alter (sw_sma w'), pending_const := pending_const (sw_sma w'),
          complex_count := complex_count (sw_sma w'), sems := sems (sw_sma w')\<rparr>
     \<and> sem_nsems (sw_sma w') = sem_nsems (sw_sma w)
     \<and> undo_shape (sw_undos w') = undo_shape (sw_undos w)
     \<and> st_base (sw_stacks w') = st_base (sw_stacks w)
     \<and> set (waiters (sw_sma w')) \<subseteq> set (waiters (sw_sma w))
     \<and> lists_le (sw_sma w) (sw_sma w')
     \<and> (\<exists>x. sw_wake w' = sw_wake w @ x \<and> set x = set (waiters (sw_sma w)) - set (waiters (sw_sma w')))
     \<and> (\<forall>t. t \<notin> set (waiters (sw_sma w)) - set (waiters (sw_sma w'))
            \<longrightarrow> q_status_of (sw_stacks w') t = q_status_of (sw_stacks w) t)
     \<and> (\<forall>t. t \<notin> set (waiters (sw_sma w)) \<longrightarrow> sw_stacks w' t = sw_stacks w t)
     \<and> (\<forall>t \<in> set (waiters (sw_sma w)) - set (waiters (sw_sma w')). q_status_of (sw_stacks w') t \<noteq> Some EINTR)"

lemma work_rel_lists: "work_rel w w' \<Longrightarrow> lists_le (sw_sma w) (sw_sma w')"
  by (simp add: work_rel_def)

lemma work_rel_ok: "work_rel w w' \<Longrightarrow> work_ok w'"
  by (simp add: work_rel_def)

lemma work_rel_refl: "work_ok w \<Longrightarrow> work_rel w w"
  by (simp add: work_rel_def)

lemma work_rel_trans:
  assumes "work_rel u v" "work_rel v w"
  shows "work_rel u w"
proof -
  obtain x where x: "sw_wake v = sw_wake u @ x" "set x = set (waiters (sw_sma u)) - set (waiters (sw_sma v))"
    using assms(1) unfolding work_rel_def by blast
  obtain y where y: "sw_wake w = sw_wake v @ y" "set y = set (waiters (sw_sma v)) - set (waiters (sw_sma w))"
    using assms(2) unfolding work_rel_def by blast
  have sub: "set (waiters (sw_sma v)) \<subseteq> set (waiters (sw_sma u))"
    "set (waiters (sw_sma w)) \<subseteq> set (waiters (sw_sma v))"
    using assms unfolding work_rel_def by blast+
  have fr: "sw_sma w = (sw_sma u)\<lparr>pending_alter := pending_alter (sw_sma w), pending_const := pending_const (sw_sma w),
          complex_count := complex_count (sw_sma w), sems := sems (sw_sma w)\<rparr>"
  proof -
    have "sw_sma v = (sw_sma u)\<lparr>pending_alter := pending_alter (sw_sma v), pending_const := pending_const (sw_sma v),
          complex_count := complex_count (sw_sma v), sems := sems (sw_sma v)\<rparr>"
      using assms(1) unfolding work_rel_def by blast
    moreover have "sw_sma w = (sw_sma v)\<lparr>pending_alter := pending_alter (sw_sma w), pending_const := pending_const (sw_sma w),
          complex_count := complex_count (sw_sma w), sems := sems (sw_sma w)\<rparr>"
      using assms(2) unfolding work_rel_def by blast
    ultimately show ?thesis
      by (cases "sw_sma u", cases "sw_sma v", cases "sw_sma w") simp
  qed
  have wk: "\<exists>z. sw_wake w = sw_wake u @ z \<and> set z = set (waiters (sw_sma u)) - set (waiters (sw_sma w))"
    using x y sub by (intro exI [of _ "x @ y"]) auto
  have st: "\<forall>t \<in> set (waiters (sw_sma u)) - set (waiters (sw_sma w)). q_status_of (sw_stacks w) t \<noteq> Some EINTR"
  proof
    fix t assume t: "t \<in> set (waiters (sw_sma u)) - set (waiters (sw_sma w))"
    show "q_status_of (sw_stacks w) t \<noteq> Some EINTR"
    proof (cases "t \<in> set (waiters (sw_sma v))")
      case True
      with t assms(2) show ?thesis unfolding work_rel_def by blast
    next
      case False
      then have "q_status_of (sw_stacks w) t = q_status_of (sw_stacks v) t"
        using assms(2) unfolding work_rel_def by blast
      moreover have "q_status_of (sw_stacks v) t \<noteq> Some EINTR"
        using False t assms(1) unfolding work_rel_def by blast
      ultimately show ?thesis by simp
    qed
  qed
  have nst: "q_status_of (sw_stacks w) t = q_status_of (sw_stacks u) t"
    if "t \<notin> set (waiters (sw_sma u)) - set (waiters (sw_sma w))" for t
  proof -
    have "t \<notin> set (waiters (sw_sma u)) - set (waiters (sw_sma v))"
      "t \<notin> set (waiters (sw_sma v)) - set (waiters (sw_sma w))"
      using that sub by blast+
    then show ?thesis using assms unfolding work_rel_def by simp
  qed
  have nw: "sw_stacks w t = sw_stacks u t" if "t \<notin> set (waiters (sw_sma u))" for t
    using that sub assms unfolding work_rel_def by (metis subsetD)
  have "work_ok w \<and> sem_nsems (sw_sma w) = sem_nsems (sw_sma u)
      \<and> undo_shape (sw_undos w) = undo_shape (sw_undos u) \<and> st_base (sw_stacks w) = st_base (sw_stacks u)"
    using assms unfolding work_rel_def by (simp add: \<open>work_rel v w\<close>)
  moreover have "lists_le (sw_sma u) (sw_sma w)"
    using assms lists_le_trans unfolding work_rel_def by blast
  ultimately show ?thesis
    unfolding work_rel_def using fr sub wk st nst nw by (meson order_trans)
qed

section \<open>One waiter\<close>

text \<open>What trying a waiter does.\<close>

definition same_queues :: "sem_array \<Rightarrow> sem_array \<Rightarrow> bool" where
  "same_queues a b \<longleftrightarrow> b = a\<lparr>sems := sems b\<rparr> \<and> sem_lists (sems b) = sem_lists (sems a)"

lemma same_queues_waiters:
  assumes "same_queues a b"
  shows "alter_waiters b = alter_waiters a" "const_waiters b = const_waiters a" "waiters b = waiters a"
    "sem_nsems b = sem_nsems a" "complex_count b = complex_count a" "alter_lists b = alter_lists a"
proof -
  obtain x where b: "b = a\<lparr>sems := x\<rparr>" and l: "sem_lists (sems b) = sem_lists (sems a)"
    using assms unfolding same_queues_def by blast
  have p: "pending_alter b = pending_alter a" "pending_const b = pending_const a"
    "complex_count b = complex_count a"
    unfolding b by simp_all
  show "alter_waiters b = alter_waiters a" "const_waiters b = const_waiters a" "waiters b = waiters a"
    using waiters_cong [OF p(1,2) l] by simp_all
  show "sem_nsems b = sem_nsems a"
    using arg_cong [OF l, of length] by (simp add: sem_lists_def)
  show "complex_count b = complex_count a" by (rule p)
  have "map sem_alter (sems b) = map fst (sem_lists (sems b))" "map sem_alter (sems a) = map fst (sem_lists (sems a))"
    by (simp_all add: sem_lists_def)
  then show "alter_lists b = alter_lists a" by (simp add: alter_lists_def p l)
qed

lemma same_queues_lists: "same_queues a b \<Longrightarrow> lists_le a b"
proof -
  assume "same_queues a b"
  then obtain x where b: "b = a\<lparr>sems := x\<rparr>" and l: "sem_lists (sems b) = sem_lists (sems a)"
    unfolding same_queues_def by blast
  have p: "pending_alter b = pending_alter a" "pending_const b = pending_const a" unfolding b by simp_all
  have len: "sem_nsems b = sem_nsems a"
    using arg_cong [OF l, of length] by (simp add: sem_lists_def)
  have "sem_alter (sems b ! i) = sem_alter (sems a ! i) \<and> sem_const (sems b ! i) = sem_const (sems a ! i)"
    if "i < sem_nsems a" for i
    using arg_cong [OF l, of "\<lambda>l. l ! i"] that len by (simp add: sem_lists_def)
  with p len show "lists_le a b" by (simp add: lists_le_def)
qed

lemma try_sleeper_step:
  assumes "try_sleeper t w = (w', r)" "work_ok w" "t \<in> set (waiters (sw_sma w))"
  obtains q q' where "sw_stacks w t = Some q"
    "perform_atomic_semop (sw_sma w) (sw_undos w) q = (sw_sma w', sw_undos w', q', r)"
    "sw_stacks w' = (sw_stacks w)(t \<mapsto> q')" "sw_wake w' = sw_wake w"
    "q_base q' = q_base q" "q_status q' = q_status q"
    "same_queues (sw_sma w) (sw_sma w')" "vals_ok (sems (sw_sma w'))" "undos_ok (sw_undos w')"
    "undo_shape (sw_undos w') = undo_shape (sw_undos w)"
    "r \<noteq> SemDone \<Longrightarrow> sw_sma w' = sw_sma w \<and> sw_undos w' = sw_undos w"
    "\<And>e. r = SemErr e \<Longrightarrow> e \<noteq> EINTR"
proof -
  obtain q where q: "sw_stacks w t = Some q" and qok: "sop_queue_ok (sem_nsems (sw_sma w)) q"
    using assms(2,3) unfolding work_ok_def by blast
  obtain a us q' r' where p: "perform_atomic_semop (sw_sma w) (sw_undos w) q = (a, us, q', r')"
    by (metis prod_cases4)
  have uv: "undos_ok (sw_undos w)" "vals_ok (sems (sw_sma w))"
    using assms(2) unfolding work_ok_def by blast+
  note k = perform_keeps [OF p qok uv]
  have w': "w' = w\<lparr>sw_sma := a, sw_undos := us, sw_stacks := (sw_stacks w)(t \<mapsto> q')\<rparr>" and r: "r = r'"
    using assms(1) q p by (simp_all add: try_sleeper_def)
  have f: "sw_sma w' = a" "sw_undos w' = us" "sw_stacks w' = (sw_stacks w)(t \<mapsto> q')" "sw_wake w' = sw_wake w"
    unfolding w' by simp_all
  have q': "q_base q' = q_base q" "q_status q' = q_status q"
    using arg_cong [OF k(7), of q_base] arg_cong [OF k(7), of q_status] by simp_all
  show ?thesis
  proof (rule that [OF q _ f(3,4) q'])
    show "perform_atomic_semop (sw_sma w) (sw_undos w) q = (sw_sma w', sw_undos w', q', r)"
      using p f r by simp
    show "same_queues (sw_sma w) (sw_sma w')"
      unfolding same_queues_def f using k(1,4) by blast
    show "vals_ok (sems (sw_sma w'))" "undos_ok (sw_undos w')"
      "undo_shape (sw_undos w') = undo_shape (sw_undos w)"
      using k(2,3,6) f by simp_all
    show "r \<noteq> SemDone \<Longrightarrow> sw_sma w' = sw_sma w \<and> sw_undos w' = sw_undos w"
      unfolding f r by (rule k(8))
    show "\<And>e. r = SemErr e \<Longrightarrow> e \<noteq> EINTR"
      using k(10) r by auto
  qed
qed

lemma st_base_eqI: "(\<And>u. u \<noteq> t \<Longrightarrow> st' u = st u) \<Longrightarrow> st_base st' t = st_base st t \<Longrightarrow> st_base st' = st_base st"
  by (rule ext) (metis st_base_def)

lemma work_ok_same:
  assumes "work_ok w" "same_queues (sw_sma w) (sw_sma w')" "vals_ok (sems (sw_sma w'))" "undos_ok (sw_undos w')"
    and "st_base (sw_stacks w') = st_base (sw_stacks w)"
  shows "work_ok w'"
proof (rule work_okI)
  note s = same_queues_waiters [OF assms(2)]
  have sp: "sops_of (sw_stacks w') t = sops_of (sw_stacks w) t" for t
    by (rule st_base_sops) (simp add: assms(5))
  show "\<exists>q. sw_stacks w' t = Some q \<and> sop_queue_ok (sem_nsems (sw_sma w')) q"
    if t: "t \<in> set (waiters (sw_sma w'))" for t
  proof -
    obtain q where q: "sw_stacks w t = Some q" "sop_queue_ok (sem_nsems (sw_sma w)) q"
      using assms(1) t s unfolding work_ok_def by auto
    have "st_base (sw_stacks w') t = st_base (sw_stacks w) t" using assms(5) by simp
    then obtain q' where "sw_stacks w' t = Some q'" "q_base q' = q_base q"
      using q(1) by (auto simp: st_base_def)
    then show ?thesis
      using q(2) s(4) q_base_eq [of q' q] by (simp add: sop_queue_ok_def)
  qed
  show "complex_count (sw_sma w') = int (length (filter (is_complex (sw_stacks w')) (waiters (sw_sma w'))))"
    using assms(1) s sp unfolding work_ok_def is_complex_def by simp
qed (use assms same_queues_waiters [OF assms(2)] in \<open>simp_all add: work_ok_def\<close>)

lemma work_rel_same:
  assumes "work_ok w" "same_queues (sw_sma w) (sw_sma w')" "vals_ok (sems (sw_sma w'))" "undos_ok (sw_undos w')"
    and "undo_shape (sw_undos w') = undo_shape (sw_undos w)" "sw_wake w' = sw_wake w"
    and "st_base (sw_stacks w') = st_base (sw_stacks w)"
    and "\<And>t. q_status_of (sw_stacks w') t = q_status_of (sw_stacks w) t"
    and "\<And>t. t \<notin> set (waiters (sw_sma w)) \<Longrightarrow> sw_stacks w' t = sw_stacks w t"
  shows "work_rel w w'"
proof -
  have "sw_sma w' = (sw_sma w)\<lparr>sems := sems (sw_sma w')\<rparr>"
    using assms(2) unfolding same_queues_def by blast
  then have "sw_sma w' = (sw_sma w)\<lparr>pending_alter := pending_alter (sw_sma w'), pending_const := pending_const (sw_sma w'),
          complex_count := complex_count (sw_sma w'), sems := sems (sw_sma w')\<rparr>"
    by (cases "sw_sma w", cases "sw_sma w'") simp
  moreover have "lists_le (sw_sma w) (sw_sma w')"
    by (rule same_queues_lists [OF assms(2)])
  ultimately show ?thesis
    using assms same_queues_waiters [OF assms(2)] work_ok_same [OF assms(1-4,7)]
    unfolding work_rel_def by simp
qed

text \<open>A waiter that does not proceed.\<close>

lemma try_sleeper_rel:
  assumes "try_sleeper t w = (w', r)" "work_ok w" "t \<in> set (waiters (sw_sma w))"
  shows "work_rel w w'" "waiters (sw_sma w') = waiters (sw_sma w)"
    "alter_waiters (sw_sma w') = alter_waiters (sw_sma w)" "const_waiters (sw_sma w') = const_waiters (sw_sma w)"
    "alter_lists (sw_sma w') = alter_lists (sw_sma w)"
proof -
  obtain q q' where h: "sw_stacks w t = Some q" "sw_stacks w' = (sw_stacks w)(t \<mapsto> q')" "sw_wake w' = sw_wake w"
    "q_base q' = q_base q" "q_status q' = q_status q"
    "same_queues (sw_sma w) (sw_sma w')" "vals_ok (sems (sw_sma w'))" "undos_ok (sw_undos w')"
    "undo_shape (sw_undos w') = undo_shape (sw_undos w)"
    using try_sleeper_step [OF assms] by metis
  show "work_rel w w'"
  proof (rule work_rel_same [OF assms(2) h(6-9,3)])
    show "st_base (sw_stacks w') = st_base (sw_stacks w)"
      unfolding h(2) by (rule st_base_eqI [of t]) (simp_all add: st_base_def h)
    show "\<And>u. q_status_of (sw_stacks w') u = q_status_of (sw_stacks w) u"
      using h by (simp add: q_status_of_def)
    show "\<And>u. u \<notin> set (waiters (sw_sma w)) \<Longrightarrow> sw_stacks w' u = sw_stacks w u"
      using h assms(3) by auto
  qed
  show "waiters (sw_sma w') = waiters (sw_sma w)"
    "alter_waiters (sw_sma w') = alter_waiters (sw_sma w)" "const_waiters (sw_sma w') = const_waiters (sw_sma w)"
    "alter_lists (sw_sma w') = alter_lists (sw_sma w)"
    using same_queues_waiters [OF h(6)] by simp_all
qed

text \<open>Taking a waiter off and waking it.\<close>

definition finish :: "nat \<Rightarrow> errno option \<Rightarrow> sem_work \<Rightarrow> sem_work" where
  "finish t err w = wake_up_sem_queue_prepare t err (sw_unlink t w)"

lemma finish_fields [simp]:
  "sw_sma (finish t err w) = unlink_queue (sw_stacks w) t (sw_sma w)"
  "sw_undos (finish t err w) = sw_undos w" "sw_wake (finish t err w) = sw_wake w @ [t]"
  "sw_stacks (finish t err w) = (sw_stacks w)(t := map_option (\<lambda>q. q\<lparr>q_status := err\<rparr>) (sw_stacks w t))"
  by (simp_all add: finish_def wake_up_sem_queue_prepare_def sw_unlink_def)

lemma unlink_fields [simp]:
  "sem_nsems (unlink_queue st t a) = sem_nsems a"
  "map semval (sems (unlink_queue st t a)) = map semval (sems a)"
  "alter_lists (unlink_queue st t a) = (removeAll t (pending_alter a), map (removeAll t) (map sem_alter (sems a)))"
  by (simp_all add: unlink_queue_def del_task_def Let_def o_def alter_lists_def)

lemma unlink_other: "t \<notin> set (alter_waiters a) \<Longrightarrow> alter_lists (unlink_queue st t a) = alter_lists a"
  using alter_lists_del_other [of t a] by (simp add: alter_lists_del_task)

lemma unlink_waiters [simp]:
  "alter_waiters (unlink_queue st t a) = removeAll t (alter_waiters a)"
  "const_waiters (unlink_queue st t a) = removeAll t (const_waiters a)"
  "waiters (unlink_queue st t a) = removeAll t (waiters a)"
proof -
  have "alter_waiters (b\<lparr>complex_count := n\<rparr>) = alter_waiters b" "const_waiters (b\<lparr>complex_count := n\<rparr>) = const_waiters b"
    "waiters (b\<lparr>complex_count := n\<rparr>) = waiters b" for b n
    by (simp_all add: alter_waiters_def const_waiters_def waiters_def)
  then show "alter_waiters (unlink_queue st t a) = removeAll t (alter_waiters a)"
  "const_waiters (unlink_queue st t a) = removeAll t (const_waiters a)"
  "waiters (unlink_queue st t a) = removeAll t (waiters a)"
    by (simp_all add: unlink_queue_def Let_def waiters_del_task)
qed

lemma unlink_lists: "lists_le a (unlink_queue st t a)"
proof -
  have "lists_le a (b\<lparr>complex_count := n\<rparr>) = lists_le a b" for b n
    by (simp add: lists_le_def)
  then show ?thesis by (simp add: unlink_queue_def Let_def lists_le_del_task)
qed

lemma unlink_sw_fields [simp]:
  "sw_sma (sw_unlink t w) = unlink_queue (sw_stacks w) t (sw_sma w)"
  "sw_undos (sw_unlink t w) = sw_undos w" "sw_stacks (sw_unlink t w) = sw_stacks w"
  "sw_wake (sw_unlink t w) = sw_wake w"
  by (simp_all add: sw_unlink_def)

lemma unlink_ok:
  assumes "work_ok w" "t \<in> set (waiters (sw_sma w))"
  shows "work_ok (sw_unlink t w)"
proof -
  let ?W = "waiters (sw_sma w)" let ?w = "sw_unlink t w"
  have dist: "distinct ?W" and cc: "complex_count (sw_sma w) = int (length (filter (is_complex (sw_stacks w)) ?W))"
    using assms(1) unfolding work_ok_def by blast+
  have W: "waiters (sw_sma ?w) = removeAll t ?W" by simp
  have c: "complex_count (sw_sma ?w) = complex_count (sw_sma w) - (if is_complex (sw_stacks w) t then 1 else 0)"
    by (simp add: unlink_queue_def del_task_def Let_def is_complex_def)
  have len: "int (length (filter P (removeAll t ?W))) = int (length (filter P ?W)) - (if P t then 1 else 0)" for P
  proof -
    have "length (filter P (remove1 t ?W)) = length (remove1 t (filter P ?W))"
      by (simp add: filter_remove1)
    also have "\<dots> = (if t \<in> set (filter P ?W) then length (filter P ?W) - 1 else length (filter P ?W))"
      by (rule length_remove1)
    finally have l: "length (filter P (remove1 t ?W)) = length (filter P ?W) - (if P t then 1 else 0)"
      using assms(2) by auto
    have "P t \<Longrightarrow> 0 < length (filter P ?W)"
      using assms(2) by (auto simp: filter_empty_conv)
    with l show ?thesis using distinct_remove1_removeAll [OF dist, of t]
      by (cases "P t") (simp_all add: of_nat_diff Suc_leI del: length_greater_0_conv)
  qed
  show "work_ok ?w"
  proof (rule work_okI)
    show "vals_ok (sems (sw_sma ?w))" "undos_ok (sw_undos ?w)"
      using assms(1) unfolding work_ok_def vals_ok_iff by simp_all
    show "distinct (waiters (sw_sma ?w))" unfolding W using dist by (rule distinct_removeAll)
    show "complex_count (sw_sma ?w) = int (length (filter (is_complex (sw_stacks ?w)) (waiters (sw_sma ?w))))"
      unfolding W c cc len unlink_sw_fields(3) ..
    fix u assume "u \<in> set (waiters (sw_sma ?w))"
    then show "\<exists>q. sw_stacks ?w u = Some q \<and> sop_queue_ok (sem_nsems (sw_sma ?w)) q"
      using assms(1) unfolding work_ok_def by simp
  qed
qed

text \<open>The wake-up may come after a pass that started behind the unlinking.\<close>

lemma finish_late_rel:
  assumes "work_ok w" "t \<in> set (waiters (sw_sma w))" "err \<noteq> Some EINTR" "work_rel (sw_unlink t w) v"
  shows "work_rel w (wake_up_sem_queue_prepare t err v)"
proof -
  let ?w = "sw_unlink t w" and ?v = "wake_up_sem_queue_prepare t err v"
  obtain q where q: "sw_stacks w t = Some q" using assms(1,2) unfolding work_ok_def by blast
  have W: "waiters (sw_sma ?w) = removeAll t (waiters (sw_sma w))" by simp
  have nt: "t \<notin> set (waiters (sw_sma ?w))" unfolding W by simp
  have f: "sw_sma ?v = sw_sma v" "sw_undos ?v = sw_undos v" "sw_wake ?v = sw_wake v @ [t]"
    "sw_stacks ?v = (sw_stacks v)(t := map_option (\<lambda>q. q\<lparr>q_status := err\<rparr>) (sw_stacks v t))"
    by (simp_all add: wake_up_sem_queue_prepare_def)
  have vt: "sw_stacks v t = Some q"
    using assms(4) nt q unfolding work_rel_def by (metis unlink_sw_fields(3))
  have vok: "work_ok v" by (rule work_rel_ok [OF assms(4)])
  have sub: "set (waiters (sw_sma v)) \<subseteq> set (waiters (sw_sma w)) - {t}"
    using assms(4) unfolding work_rel_def W by auto
  have base: "st_base (sw_stacks ?v) = st_base (sw_stacks w)"
  proof -
    have "st_base (sw_stacks ?v) = st_base (sw_stacks v)"
      by (rule st_base_eqI [of t]) (simp_all add: st_base_def f vt)
    also have "\<dots> = st_base (sw_stacks w)" using assms(4) unfolding work_rel_def by simp
    finally show ?thesis .
  qed
  have "same_queues (sw_sma v) (sw_sma ?v)" "vals_ok (sems (sw_sma ?v))" "undos_ok (sw_undos ?v)"
    using vok unfolding same_queues_def f work_ok_def by simp_all
  moreover have "st_base (sw_stacks ?v) = st_base (sw_stacks v)"
    by (rule st_base_eqI [of t]) (simp_all add: st_base_def f vt)
  ultimately have ok: "work_ok ?v" by (rule work_ok_same [OF vok])
  have fr: "sw_sma ?v = (sw_sma w)\<lparr>pending_alter := pending_alter (sw_sma ?v), pending_const := pending_const (sw_sma ?v),
          complex_count := complex_count (sw_sma ?v), sems := sems (sw_sma ?v)\<rparr>"
  proof -
    have "sw_sma v = (sw_sma ?w)\<lparr>pending_alter := pending_alter (sw_sma v), pending_const := pending_const (sw_sma v),
          complex_count := complex_count (sw_sma v), sems := sems (sw_sma v)\<rparr>"
      using assms(4) unfolding work_rel_def by blast
    moreover have "sw_sma ?w = (sw_sma w)\<lparr>pending_alter := pending_alter (sw_sma ?w), pending_const := pending_const (sw_sma ?w),
          complex_count := complex_count (sw_sma ?w), sems := sems (sw_sma ?w)\<rparr>"
      by (simp add: unlink_queue_def del_task_def Let_def)
    ultimately show ?thesis
      unfolding f by (cases "sw_sma w", cases "sw_sma ?w", cases "sw_sma v") simp
  qed
  obtain x where x: "sw_wake v = sw_wake w @ x"
    "set x = set (waiters (sw_sma ?w)) - set (waiters (sw_sma v))"
    using assms(4) unfolding work_rel_def by auto
  have wk: "\<exists>x. sw_wake ?v = sw_wake w @ x \<and> set x = set (waiters (sw_sma w)) - set (waiters (sw_sma ?v))"
    using x sub assms(2) unfolding f W by (intro exI [of _ "x @ [t]"]) auto
  have stv: "q_status_of (sw_stacks ?v) u = (if u = t then err else q_status_of (sw_stacks v) u)" for u
    by (simp add: f q_status_of_def vt)
  have st1: "q_status_of (sw_stacks ?v) u = q_status_of (sw_stacks w) u"
    if "u \<notin> set (waiters (sw_sma w)) - set (waiters (sw_sma ?v))" for u
  proof -
    have "u \<noteq> t" using that sub assms(2) unfolding f by blast
    moreover have "u \<notin> set (waiters (sw_sma ?w)) - set (waiters (sw_sma v))" using that unfolding f W by auto
    ultimately show ?thesis using assms(4) unfolding stv work_rel_def by simp
  qed
  have st2: "q_status_of (sw_stacks ?v) u \<noteq> Some EINTR"
    if "u \<in> set (waiters (sw_sma w)) - set (waiters (sw_sma ?v))" for u
  proof (cases "u = t")
    case True
    then show ?thesis unfolding stv using assms(3) by simp
  next
    case False
    then have "u \<in> set (waiters (sw_sma ?w)) - set (waiters (sw_sma v))"
      using that unfolding f(1) W by simp
    then have "q_status_of (sw_stacks v) u \<noteq> Some EINTR" using assms(4) unfolding work_rel_def by blast
    then show ?thesis unfolding stv using False by simp
  qed
  have st3: "sw_stacks ?v u = sw_stacks w u" if "u \<notin> set (waiters (sw_sma w))" for u
    using assms(2,4) that unfolding f work_rel_def W by auto
  have n: "sem_nsems (sw_sma ?v) = sem_nsems (sw_sma w)" "undo_shape (sw_undos ?v) = undo_shape (sw_undos w)"
    using assms(4) unfolding f work_rel_def by simp_all
  have "lists_le (sw_sma w) (sw_sma v)"
    using lists_le_trans [OF unlink_lists] assms(4) unfolding work_rel_def unlink_sw_fields by blast
  then show ?thesis
    unfolding work_rel_def
    using ok fr n base sub [folded f(1)] wk st1 st2 st3 unfolding f(1) by blast
qed

lemma finish_rel:
  assumes "work_ok w" "t \<in> set (waiters (sw_sma w))" "err \<noteq> Some EINTR"
  shows "work_rel w (finish t err w)"
  unfolding finish_def
  by (rule finish_late_rel [OF assms work_rel_refl [OF unlink_ok [OF assms(1,2)]]])

section \<open>Wait-for-zero operations\<close>

lemma wake_const_loop_rel:
  assumes "work_ok w" "distinct ts" "set ts \<subseteq> set (const_waiters (sw_sma w))"
    and "wake_const_loop ts w fin = (w', c)"
  shows "work_rel w w' \<and> alter_lists (sw_sma w') = alter_lists (sw_sma w)"
  using assms
proof (induction ts arbitrary: w fin)
  case Nil
  then show ?case by (simp add: work_rel_refl)
next
  case (Cons t ts)
  have t: "t \<in> set (waiters (sw_sma w))" using Cons.prems(3) by (simp add: waiters_def)
  obtain v r where tr: "try_sleeper t w = (v, r)" by (metis surj_pair)
  note v = try_sleeper_rel [OF tr Cons.prems(1) t]
  have tv: "t \<in> set (waiters (sw_sma v))" using t v(2) by simp
  have na: "t \<notin> set (alter_waiters (sw_sma v))"
  proof -
    have "distinct (waiters (sw_sma v))" using work_rel_ok [OF v(1)] unfolding work_ok_def by blast
    moreover have "t \<in> set (const_waiters (sw_sma v))" using Cons.prems(3) v by simp
    ultimately show ?thesis unfolding waiters_def by auto
  qed
  have goal: ?case
    if err: "err \<noteq> Some EINTR" and run: "wake_const_loop ts (finish t err v) fin' = (w', c)" for err fin'
  proof -
    have rel: "work_rel v (finish t err v)" by (rule finish_rel [OF work_rel_ok [OF v(1)] tv err])
    have "work_rel (finish t err v) w' \<and> alter_lists (sw_sma w') = alter_lists (sw_sma (finish t err v))"
    proof (rule Cons.IH [OF work_rel_ok [OF rel] _ _ run])
      show "set ts \<subseteq> set (const_waiters (sw_sma (finish t err v)))"
        using Cons.prems(2,3) v by auto
    qed (use Cons.prems in simp)
    moreover have "alter_lists (sw_sma (finish t err v)) = alter_lists (sw_sma v)"
      unfolding finish_fields by (rule unlink_other [OF na])
    ultimately show ?thesis
      using v work_rel_trans [OF work_rel_trans [OF v(1) rel]] by simp
  qed
  show ?case
  proof (cases r)
    case SemDone
    then show ?thesis using goal [of None True] Cons.prems(4) tr by (simp add: finish_def)
  next
    case (SemErr e)
    then have "e \<noteq> EINTR" using try_sleeper_step [OF tr Cons.prems(1) t] by metis
    then show ?thesis using goal [of "Some e" fin] Cons.prems(4) tr SemErr by (simp add: finish_def)
  next
    case SemSleep
    have "work_rel v w' \<and> alter_lists (sw_sma w') = alter_lists (sw_sma v)"
    proof (rule Cons.IH [OF work_rel_ok [OF v(1)]])
      show "wake_const_loop ts v fin = (w', c)" using SemSleep tr Cons.prems(4) by simp
    qed (use Cons.prems v in auto)
    with v work_rel_trans [OF v(1)] show ?thesis by simp
  qed
qed

lemma const_sublists:
  "work_ok w \<Longrightarrow> distinct (pending_const (sw_sma w))"
  "work_ok w \<Longrightarrow> i < sem_nsems (sw_sma w) \<Longrightarrow> distinct (sem_const (sems (sw_sma w) ! i))"
  "set (pending_const a) \<subseteq> set (const_waiters a)"
  "i < sem_nsems a \<Longrightarrow> set (sem_const (sems a ! i)) \<subseteq> set (const_waiters a)"
  by (auto simp: work_ok_def waiters_def const_waiters_def distinct_concat_iff)

lemma alter_sublists:
  "work_ok w \<Longrightarrow> distinct (pending_alter (sw_sma w))"
  "work_ok w \<Longrightarrow> i < sem_nsems (sw_sma w) \<Longrightarrow> distinct (sem_alter (sems (sw_sma w) ! i))"
  "set (pending_alter a) \<subseteq> set (alter_waiters a)"
  "i < sem_nsems a \<Longrightarrow> set (sem_alter (sems a ! i)) \<subseteq> set (alter_waiters a)"
  by (auto simp: work_ok_def waiters_def alter_waiters_def distinct_concat_iff)

lemma wake_const_ops_rel:
  assumes "work_ok w" "\<And>i. semnum = Some i \<Longrightarrow> i < sem_nsems (sw_sma w)"
    and "wake_const_ops semnum w = (w', c)"
  shows "work_rel w w' \<and> alter_lists (sw_sma w') = alter_lists (sw_sma w)"
proof (cases semnum)
  case None
  with assms const_sublists(1) [of w] const_sublists(3) [of "sw_sma w"] show ?thesis
    by (intro wake_const_loop_rel [of w "pending_const (sw_sma w)"]) (simp_all add: wake_const_ops_def)
next
  case (Some i)
  with assms const_sublists(2) [of w i] const_sublists(4) [of i "sw_sma w"] show ?thesis
    by (intro wake_const_loop_rel [of w "sem_const (sems (sw_sma w) ! i)"]) (simp_all add: wake_const_ops_def)
qed

lemma work_rel_nsems: "work_rel w w' \<Longrightarrow> sem_nsems (sw_sma w') = sem_nsems (sw_sma w)"
  by (simp add: work_rel_def)

lemma wakeup_zero_loop_rel:
  assumes "work_ok w" "\<forall>i \<in> set is. i < sem_nsems (sw_sma w)"
    and "wakeup_zero_loop is w got fin = (w', got', c)"
  shows "work_rel w w' \<and> alter_lists (sw_sma w') = alter_lists (sw_sma w)"
  using assms
proof (induction "is" arbitrary: w got fin)
  case Nil
  then show ?case by (simp add: work_rel_refl)
next
  case (Cons i "is")
  show ?case
  proof (cases "semval (sems (sw_sma w) ! i) = 0")
    case False
    with Cons show ?thesis by simp
  next
    case True
    obtain v d where v: "wake_const_ops (Some i) w = (v, d)" by (metis surj_pair)
    have r: "work_rel w v \<and> alter_lists (sw_sma v) = alter_lists (sw_sma w)"
      using Cons.prems by (intro wake_const_ops_rel [OF _ _ v]) auto
    have "work_rel v w' \<and> alter_lists (sw_sma w') = alter_lists (sw_sma v)"
      using Cons.prems True v r work_rel_ok work_rel_nsems by (intro Cons.IH) auto
    with r work_rel_trans show ?thesis by metis
  qed
qed

definition sops_in :: "sembuf list option \<Rightarrow> sem_work \<Rightarrow> bool" where
  "sops_in sops w \<longleftrightarrow> (case sops of None \<Rightarrow> True | Some l \<Rightarrow> nums_in (sem_nsems (sw_sma w)) l)"

lemma do_smart_wakeup_zero_rel:
  assumes "work_ok w" "sops_in sops w" "do_smart_wakeup_zero sops w = (w', c)"
  shows "work_rel w w' \<and> alter_lists (sw_sma w') = alter_lists (sw_sma w)"
proof -
  let ?is = "case sops of Some l \<Rightarrow> map sem_num l | None \<Rightarrow> [0..<sem_nsems (sw_sma w)]"
  obtain v got d where v: "wakeup_zero_loop ?is w False False = (v, got, d)" by (metis prod_cases3)
  have i: "\<forall>i \<in> set ?is. i < sem_nsems (sw_sma w)"
    using assms(2) by (auto simp: sops_in_def nums_in_def split: option.splits)
  note r = wakeup_zero_loop_rel [OF assms(1) i v]
  show ?thesis
  proof (cases got)
    case False
    with assms(3) v r show ?thesis by (simp add: do_smart_wakeup_zero_def)
  next
    case True
    obtain u e where u: "wake_const_ops None v = (u, e)" by (metis surj_pair)
    with True assms(3) v have "w' = u" by (simp add: do_smart_wakeup_zero_def)
    with wake_const_ops_rel [OF work_rel_ok _ u] r work_rel_trans show ?thesis
      by (metis option.distinct(1))
  qed
qed

section \<open>Altering operations\<close>

lemma sops_of_in:
  assumes "work_ok w" "t \<in> set (waiters (sw_sma w))"
  shows "nums_in (sem_nsems (sw_sma w)) (sops_of (sw_stacks w) t)"
  using assms unfolding work_ok_def sops_of_def sop_queue_ok_def by fastforce

section \<open>Altering operations: the scan and its restarts\<close>

definition pick_list :: "nat option \<Rightarrow> nat list \<times> nat list list \<Rightarrow> nat list" where
  "pick_list semnum l = (case semnum of None \<Rightarrow> fst l | Some i \<Rightarrow> snd l ! i)"

definition num_in :: "nat option \<Rightarrow> sem_work \<Rightarrow> bool" where
  "num_in semnum w \<longleftrightarrow> (case semnum of None \<Rightarrow> True | Some i \<Rightarrow> i < sem_nsems (sw_sma w))"

lemma pending_list_pick: "num_in semnum w \<Longrightarrow> pending_list semnum w = pick_list semnum (alter_lists (sw_sma w))"
  by (simp add: pending_list_def pick_list_def alter_lists_def num_in_def split: option.splits)

lemma pending_list_sub:
  assumes "work_ok w" "num_in semnum w"
  shows "distinct (pending_list semnum w)" "set (pending_list semnum w) \<subseteq> set (alter_waiters (sw_sma w))"
proof -
  show "distinct (pending_list semnum w)"
    using assms(2) alter_sublists(1) [OF assms(1)] alter_sublists(2) [OF assms(1)]
    by (auto simp: pending_list_def num_in_def split: option.splits)
  show "set (pending_list semnum w) \<subseteq> set (alter_waiters (sw_sma w))"
    using assms(2) alter_sublists(3) [of "sw_sma w"] alter_sublists(4) [of _ "sw_sma w"]
    by (cases semnum) (auto simp: pending_list_def num_in_def)
qed

lemma num_in_rel: "work_rel w w' \<Longrightarrow> num_in semnum w' = num_in semnum w"
  by (simp add: num_in_def work_rel_nsems split: option.splits)

text \<open>A waiter that proceeds: unlinked, the waiters for zero looked after, then woken.\<close>

definition complete :: "nat \<Rightarrow> sem_work \<Rightarrow> sem_work" where
  "complete t w =
     wake_up_sem_queue_prepare t None
       (fst (do_smart_wakeup_zero (Some (sops_of (sw_stacks w) t)) (sw_unlink t w)))"

lemma wake_prepare_sma [simp]: "sw_sma (wake_up_sem_queue_prepare t e w) = sw_sma w"
  by (simp add: wake_up_sem_queue_prepare_def)

lemma complete_rel:
  assumes "work_ok w" "t \<in> set (waiters (sw_sma w))"
  shows "work_rel w (complete t w)"
    "alter_lists (sw_sma (complete t w)) =
       (removeAll t (pending_alter (sw_sma w)), map (removeAll t) (map sem_alter (sems (sw_sma w))))"
proof -
  let ?sops = "Some (sops_of (sw_stacks w) t)"
  obtain v c where v: "do_smart_wakeup_zero ?sops (sw_unlink t w) = (v, c)" by (metis surj_pair)
  have "sops_in ?sops (sw_unlink t w)"
    using sops_of_in [OF assms] by (simp add: sops_in_def)
  note r = do_smart_wakeup_zero_rel [OF unlink_ok [OF assms] this v]
  show "work_rel w (complete t w)"
    unfolding complete_def v fst_conv by (rule finish_late_rel [OF assms]) (use r in simp_all)
  show "alter_lists (sw_sma (complete t w)) =
       (removeAll t (pending_alter (sw_sma w)), map (removeAll t) (map sem_alter (sems (sw_sma w))))"
    unfolding complete_def v fst_conv wake_prepare_sma using r by simp
qed

lemma finish_lists:
  "alter_lists (sw_sma (finish t e w)) =
     (removeAll t (pending_alter (sw_sma w)), map (removeAll t) (map sem_alter (sems (sw_sma w))))"
  by simp

text \<open>One step of the scan, in terms of these.\<close>

lemma update_scan_step:
  assumes "\<not> (case semnum of None \<Rightarrow> False | Some i \<Rightarrow> semval (sems (sw_sma w) ! i) = 0)"
    and "try_sleeper t w = (v, r)"
  shows "update_scan semnum (t # ts) w fin =
     (case r of
        SemSleep \<Rightarrow> update_scan semnum ts v fin
      | SemErr e \<Rightarrow> update_scan semnum ts (finish t (Some e) v) fin
      | SemDone \<Rightarrow>
          if check_restart (sw_sma (complete t v)) (sops_of (sw_stacks v) t)
          then (complete t v, True, True) else update_scan semnum ts (complete t v) True)"
  using assms by (simp add: complete_def finish_def Let_def split: sem_result.splits)

declare update_scan.simps(2) [simp del]

lemma update_scan_zero:
  assumes "(case semnum of None \<Rightarrow> False | Some i \<Rightarrow> semval (sems (sw_sma w) ! i) = 0)"
  shows "update_scan semnum (t # ts) w fin = (w, fin, False)"
  using assms by (simp add: update_scan.simps(2))

lemma removed_rest:
  assumes "alter_lists b = (removeAll t (pending_alter a), map (removeAll t) (map sem_alter (sems a)))"
  shows "alter_waiters b = removeAll t (alter_waiters a)"
  unfolding alter_lists_waiters assms fst_conv snd_conv removeAll_concat
  by (simp add: alter_lists_def)

lemma removed_shorter:
  assumes "alter_lists b = (removeAll t (pending_alter a), map (removeAll t) (map sem_alter (sems a)))"
    and "\<And>i. semnum = Some i \<Longrightarrow> i < sem_nsems a"
  shows "pick_list semnum (alter_lists b) = removeAll t (pick_list semnum (alter_lists a))"
  unfolding pick_list_def assms(1)
  using assms(2) by (cases semnum) (simp_all add: alter_lists_def)

lemma update_scan_rel:
  assumes "work_ok w" "num_in semnum w" "distinct ts" "set ts \<subseteq> set (pending_list semnum w)"
    and "update_scan semnum ts w fin = (w', c, again)"
  shows "work_rel w w' \<and> length (pending_list semnum w') \<le> length (pending_list semnum w)
    \<and> (again \<longrightarrow> length (pending_list semnum w') < length (pending_list semnum w))
    \<and> set (pending_list semnum w') \<subseteq> set (pending_list semnum w)"
  using assms
proof (induction ts arbitrary: w fin)
  case Nil
  then show ?case by (simp add: work_rel_refl)
next
  case (Cons t ts)
  let ?z = "case semnum of None \<Rightarrow> False | Some i \<Rightarrow> semval (sems (sw_sma w) ! i) = 0"
  show ?case
  proof (cases ?z)
    case True
    then show ?thesis using Cons.prems update_scan_zero [OF True] by (simp add: work_rel_refl)
  next
    case False
    obtain v r where tr: "try_sleeper t w = (v, r)" by (metis surj_pair)
    have t: "t \<in> set (waiters (sw_sma w))"
      using Cons.prems(4) pending_list_sub(2) [OF Cons.prems(1,2)] by (auto simp: waiters_def)
    note v = try_sleeper_rel [OF tr Cons.prems(1) t]
    have vok: "work_ok v" by (rule work_rel_ok [OF v(1)])
    have vn: "num_in semnum v" using num_in_rel [OF v(1)] Cons.prems(2) by simp
    have pv: "pending_list semnum v = pending_list semnum w"
      using v(5) vn Cons.prems(2) by (simp add: pending_list_pick)
    have tv: "t \<in> set (waiters (sw_sma v))" using t v(2) by simp
    have rem: "num_in semnum u \<and> pending_list semnum u = removeAll t (pending_list semnum v)"
      if "work_rel v u" and "alter_lists (sw_sma u) =
          (removeAll t (pending_alter (sw_sma v)), map (removeAll t) (map sem_alter (sems (sw_sma v))))" for u
    proof -
      have u: "num_in semnum u" using num_in_rel [OF that(1)] vn by simp
      have "pick_list semnum (alter_lists (sw_sma u)) = removeAll t (pick_list semnum (alter_lists (sw_sma v)))"
        by (rule removed_shorter [OF that(2)]) (use vn in \<open>simp add: num_in_def\<close>)
      with u vn show ?thesis by (simp add: pending_list_pick)
    qed
    have short: "length (removeAll t (pending_list semnum v)) < length (pending_list semnum w)"
      using Cons.prems(4) unfolding pv by (intro length_removeAll_less) simp
    have cont: ?thesis
      if u: "work_rel v u" "alter_lists (sw_sma u) =
          (removeAll t (pending_alter (sw_sma v)), map (removeAll t) (map sem_alter (sems (sw_sma v))))"
        and run: "update_scan semnum ts u fin' = (w', c, again)" for u fin'
    proof -
      note ru = rem [OF u]
      have "work_rel u w' \<and> length (pending_list semnum w') \<le> length (pending_list semnum u)
        \<and> (again \<longrightarrow> length (pending_list semnum w') < length (pending_list semnum u))
        \<and> set (pending_list semnum w') \<subseteq> set (pending_list semnum u)"
      proof (rule Cons.IH [OF work_rel_ok [OF u(1)] _ _ _ run])
        show "set ts \<subseteq> set (pending_list semnum u)"
          using Cons.prems(3,4) ru pv by auto
      qed (use ru Cons.prems in simp_all)
      with ru short pv work_rel_trans [OF work_rel_trans [OF v(1) u(1)]] show ?thesis by auto
    qed
    show ?thesis
    proof (cases r)
      case SemSleep
      have "work_rel v w' \<and> length (pending_list semnum w') \<le> length (pending_list semnum v)
        \<and> (again \<longrightarrow> length (pending_list semnum w') < length (pending_list semnum v))
        \<and> set (pending_list semnum w') \<subseteq> set (pending_list semnum v)"
      proof (rule Cons.IH [OF vok vn])
        show "update_scan semnum ts v fin = (w', c, again)"
          using Cons.prems(5) update_scan_step [OF False tr] SemSleep by simp
      qed (use Cons.prems pv in auto)
      with work_rel_trans [OF v(1)] pv show ?thesis by simp
    next
      case (SemErr e)
      then have e: "e \<noteq> EINTR" using try_sleeper_step [OF tr Cons.prems(1) t] by metis
      show ?thesis
        by (rule cont [OF finish_rel [OF vok tv] finish_lists])
          (use Cons.prems(5) update_scan_step [OF False tr] SemErr e in simp_all)
    next
      case SemDone
      note cr = complete_rel [OF vok tv]
      show ?thesis
      proof (cases "check_restart (sw_sma (complete t v)) (sops_of (sw_stacks v) t)")
        case True
        then have "w' = complete t v \<and> again"
          using Cons.prems(5) update_scan_step [OF False tr] SemDone by simp
        with rem [OF cr] short pv work_rel_trans [OF v(1) cr(1)] show ?thesis by auto
      next
        case False
        show ?thesis
          by (rule cont [OF cr])
            (use Cons.prems(5) update_scan_step [OF \<open>\<not> ?z\<close> tr] SemDone False in simp)
      qed
    qed
  qed
qed

text \<open>Every restart shortens the list, so the loop comes to its end within its fuel.\<close>

lemma update_loop_rel:
  assumes "work_ok w" "num_in semnum w" "length (pending_list semnum w) < n"
  shows "\<exists>w' c. update_loop n semnum w fin = Some (w', c) \<and> work_rel w w'"
  using assms
proof (induction n arbitrary: w fin)
  case (Suc n)
  obtain v c again where v: "update_scan semnum (pending_list semnum w) w fin = (v, c, again)"
    by (metis prod_cases3)
  note r = update_scan_rel [OF Suc.prems(1,2) pending_list_sub(1) [OF Suc.prems(1,2)] subset_refl v]
  show ?case
  proof (cases again)
    case False
    with r v show ?thesis by simp
  next
    case True
    have "\<exists>w' d. update_loop n semnum v c = Some (w', d) \<and> work_rel v w'"
    proof (rule Suc.IH)
      show "work_ok v" using r work_rel_ok by blast
      show "num_in semnum v" using r num_in_rel Suc.prems(2) by blast
      show "length (pending_list semnum v) < n" using r True Suc.prems(3) by simp
    qed
    with True v r work_rel_trans show ?thesis by auto
  qed
qed simp

lemma update_queue_rel:
  assumes "work_ok w" "num_in semnum w" "update_queue semnum w = (w', c)"
  shows "work_rel w w'"
  using update_loop_rel [OF assms(1,2) lessI, of False] assms(3) by (auto simp: update_queue_def)

lemma update_each_rel:
  assumes "work_ok w" "\<forall>i \<in> set is. i < sem_nsems (sw_sma w)" "update_each is w fin = (w', c)"
  shows "work_rel w w'"
  using assms
proof (induction "is" arbitrary: w fin)
  case Nil
  then show ?case by (simp add: work_rel_refl)
next
  case (Cons i "is")
  obtain v d where v: "update_queue (Some i) w = (v, d)" by (metis surj_pair)
  have r: "work_rel w v"
    using Cons.prems by (intro update_queue_rel [OF _ _ v]) (simp_all add: num_in_def)
  have "work_rel v w'"
    using Cons.prems v r work_rel_ok work_rel_nsems by (intro Cons.IH) auto
  with r show ?case by (rule work_rel_trans)
qed

lemma set_semotime_rel:
  assumes "work_ok w"
  shows "work_rel w (set_semotime now sops w)"
proof (rule work_rel_same [OF assms])
  let ?w = "set_semotime now sops w"
  obtain i where w: "?w = w\<lparr>sw_sma := sems_update (upd_sem i (\<lambda>s. s\<lparr>sem_otime := now\<rparr>)) (sw_sma w)\<rparr>"
    unfolding set_semotime_def Let_def by blast
  show "same_queues (sw_sma w) (sw_sma ?w)"
    unfolding same_queues_def w by simp
  have "map semval (sems (sw_sma ?w)) = map semval (sems (sw_sma w))"
    unfolding w by (simp add: map_upd_sem)
  then show "vals_ok (sems (sw_sma ?w))" using assms unfolding work_ok_def vals_ok_iff by simp
  show "undos_ok (sw_undos ?w)" using assms unfolding work_ok_def w by simp
qed (simp_all add: set_semotime_def Let_def)

lemma do_smart_update_rel:
  assumes "work_ok w" "sops_in sops w"
  shows "work_rel w (do_smart_update now sops otime w)"
proof -
  obtain v c where v: "do_smart_wakeup_zero sops w = (v, c)" by (metis surj_pair)
  have rv: "work_rel w v" using do_smart_wakeup_zero_rel [OF assms v] by blast
  note vok = work_rel_ok [OF rv]
  let ?step = "if pending_alter (sw_sma v) \<noteq> []
      then (case update_queue None v of (w, d) \<Rightarrow> (w, (otime \<or> c) \<or> d))
      else (case sops of
              None \<Rightarrow> update_each [0..<sem_nsems (sw_sma v)] v (otime \<or> c)
            | Some l \<Rightarrow> update_each (map sem_num (filter (\<lambda>sop. sem_op sop > 0) l)) v (otime \<or> c))"
  obtain u d where u: "?step = (u, d)" by (metis surj_pair)
  have ru: "work_rel v u"
  proof (cases "pending_alter (sw_sma v) \<noteq> []")
    case True
    obtain x y where x: "update_queue None v = (x, y)" by (metis surj_pair)
    with True u have "u = x" by simp
    with update_queue_rel [OF vok _ x] show ?thesis by (simp add: num_in_def)
  next
    case False
    then obtain l where l: "update_each l v (otime \<or> c) = (u, d)"
        and "l = (case sops of None \<Rightarrow> [0..<sem_nsems (sw_sma v)]
                  | Some l \<Rightarrow> map sem_num (filter (\<lambda>sop. sem_op sop > 0) l))"
      using u by (cases sops) simp_all
    then have "\<forall>i \<in> set l. i < sem_nsems (sw_sma v)"
      using assms(2) work_rel_nsems [OF rv] by (auto simp: sops_in_def nums_in_def split: option.splits)
    then show ?thesis by (rule update_each_rel [OF vok _ l])
  qed
  have "do_smart_update now sops otime w = (if d then set_semotime now sops u else u)"
    unfolding do_smart_update_def v prod.case Let_def u ..
  moreover have "work_rel u (if d then set_semotime now sops u else u)"
    using set_semotime_rel [OF work_rel_ok [OF ru]] work_rel_refl [OF work_rel_ok [OF ru]] by simp
  ultimately show ?thesis using work_rel_trans [OF work_rel_trans [OF rv ru]] by simp
qed

end
