(* ===== verification/SemQuiet.thy ===== *)
theory SemQuiet
  imports SemWake
begin

text \<open>
  What a finished wake-up pass leaves: after \<^verbatim>\<open>update_queue\<close> every operation still on the queue it
  worked on blocks, for the queue of the array and, where it holds what the callers put there,
  for the queue of one semaphore.
\<close>

section \<open>When a waiter blocks\<close>

definition blocked :: "sem_work \<Rightarrow> nat \<Rightarrow> bool" where
  "blocked w t \<longleftrightarrow> snd (try_sleeper t w) = SemSleep"

lemma slow_scan_verdict_cong:
  assumes "map semval ss' = map semval ss" "nums_in (length ss) l"
  shows "snd (snd (snd (semop_slow_scan un b l ss' us))) = snd (snd (snd (semop_slow_scan un b l ss us)))"
  using assms
proof (induction l arbitrary: b ss ss' us)
  case (Cons sop l)
  have len: "length ss' = length ss" using arg_cong [OF Cons.prems(1), of length] by simp
  have nth: "semval (ss' ! i) = semval (ss ! i)" if "i < length ss" for i
    using arg_cong [OF Cons.prems(1), of "\<lambda>l. l ! i"] that len by simp
  have "sop_check un sop ss' us = sop_check un sop ss us"
    using Cons.prems(2) by (simp add: sop_check_def nth)
  moreover have "map semval (sop_ss sop ss') = map semval (sop_ss sop ss)"
    using len nth by (intro nth_equalityI) (auto simp: sop_ss_def nth_upd_sem)
  ultimately show ?case
    using Cons.prems len Cons.IH [of "sop_ss sop ss'" "sop_ss sop ss"] by (simp add: scan_Cons)
qed simp

lemma perform_slow_sleeps:
  "snd (snd (snd (perform_atomic_semop_slow a us q))) = SemSleep \<longleftrightarrow>
    (\<exists>sop. snd (snd (snd (semop_slow_scan (q_undo q) [] (q_sops q) (sems a) us))) = WouldBlock sop
           \<and> block_result sop = SemSleep)"
  by (auto simp: perform_atomic_semop_slow_def split: prod.splits scan_end.splits)

lemma blocked_iff:
  assumes "sw_stacks w t = Some q" "sop_queue_ok (sem_nsems (sw_sma w)) q" "undos_ok (sw_undos w)"
  shows "blocked w t \<longleftrightarrow>
    (\<exists>sop. snd (snd (snd (semop_slow_scan (q_undo q) [] (q_sops q) (sems (sw_sma w)) (sw_undos w)))) = WouldBlock sop
           \<and> block_result sop = SemSleep)"
proof -
  have "snd (try_sleeper t w) = snd (snd (snd (perform_atomic_semop (sw_sma w) (sw_undos w) q)))"
    by (simp add: try_sleeper_def assms(1) split: prod.splits)
  then show ?thesis
    unfolding blocked_def perform_eq_slow [OF assms(2,3)] by (simp add: perform_slow_sleeps)
qed

text \<open>Blocking depends on the values, the adjustments and the operations only.\<close>

lemma blocked_cong:
  assumes "work_ok w" "work_ok w'" "t \<in> set (waiters (sw_sma w))" "t \<in> set (waiters (sw_sma w'))"
    and "map semval (sems (sw_sma w')) = map semval (sems (sw_sma w))" "sw_undos w' = sw_undos w"
    and "st_base (sw_stacks w') t = st_base (sw_stacks w) t"
  shows "blocked w' t = blocked w t"
proof -
  obtain q where q: "sw_stacks w t = Some q" "sop_queue_ok (sem_nsems (sw_sma w)) q"
    using assms(1,3) unfolding work_ok_def by blast
  obtain q' where q': "sw_stacks w' t = Some q'" "sop_queue_ok (sem_nsems (sw_sma w')) q'"
    using assms(2,4) unfolding work_ok_def by blast
  have b: "q_base q' = q_base q" using assms(7) q q' by (simp add: st_base_def)
  have u: "undos_ok (sw_undos w)" "undos_ok (sw_undos w')" using assms(1,2) unfolding work_ok_def by blast+
  show ?thesis
    using slow_scan_verdict_cong [OF assms(5), of "q_sops q" "q_undo q" "[]" "sw_undos w"] q(2) assms(6)
      q_base_eq [OF b]
    unfolding blocked_iff [OF q u(1)] blocked_iff [OF q' u(2)] by (simp add: sop_queue_ok_def)
qed

text \<open>A single decrement blocks exactly when the value is too small.\<close>

lemma blocked_single:
  assumes "work_ok w" "t \<in> set (waiters (sw_sma w))" "sops_of (sw_stacks w) t = [sop]"
    and "sem_op sop < 0" "sem_flg sop AND IPC_NOWAIT = 0"
  shows "blocked w t \<longleftrightarrow> semval (sems (sw_sma w) ! sem_num sop) + sem_op sop < 0"
proof -
  obtain q where q: "sw_stacks w t = Some q" "sop_queue_ok (sem_nsems (sw_sma w)) q"
    using assms(1,2) unfolding work_ok_def by blast
  have u: "undos_ok (sw_undos w)" using assms(1) unfolding work_ok_def by blast
  have "q_sops q = [sop]" using assms(3) q(1) by (simp add: sops_of_def)
  then show ?thesis
    using q(2) assms(4,5) unfolding blocked_iff [OF q u]
    by (auto simp: scan_Cons sop_queue_ok_def sop_check_def block_result_def Let_def split: if_splits)
qed

section \<open>A finished pass leaves nobody who could proceed\<close>

lemma try_sleeper_pure:
  assumes "try_sleeper t w = (v, r)" "work_ok w" "t \<in> set (waiters (sw_sma w))" "r \<noteq> SemDone"
  shows "sw_sma v = sw_sma w" "sw_undos v = sw_undos w"
  using try_sleeper_step [OF assms(1-3)] assms(4) by metis+

lemma work_rel_base: "work_rel w v \<Longrightarrow> st_base (sw_stacks v) = st_base (sw_stacks w)"
  by (simp add: work_rel_def)

lemma blocked_finish:
  assumes "work_ok v" "t \<in> set (waiters (sw_sma v))" "e \<noteq> Some EINTR" "u \<in> set (waiters (sw_sma v))" "u \<noteq> t"
  shows "blocked (finish t e v) u = blocked v u"
proof (rule blocked_cong [OF assms(1)])
  note r = finish_rel [OF assms(1-3)]
  show "work_ok (finish t e v)" by (rule work_rel_ok [OF r])
  show "st_base (sw_stacks (finish t e v)) u = st_base (sw_stacks v) u"
    using work_rel_base [OF r] by simp
qed (use assms in simp_all)

lemma pending_finish:
  assumes "work_ok v" "num_in semnum v" "t \<in> set (waiters (sw_sma v))" "e \<noteq> Some EINTR"
  shows "pending_list semnum (finish t e v) = removeAll t (pending_list semnum v)"
proof -
  have "num_in semnum (finish t e v)"
    using num_in_rel [OF finish_rel [OF assms(1,3,4)]] assms(2) by simp
  moreover have "pick_list semnum (alter_lists (sw_sma (finish t e v))) = removeAll t (pick_list semnum (alter_lists (sw_sma v)))"
    by (rule removed_shorter [OF finish_lists]) (use assms(2) in \<open>simp add: num_in_def\<close>)
  ultimately show ?thesis using assms(2) by (simp add: pending_list_pick)
qed

lemma pending_complete:
  assumes "work_ok v" "num_in semnum v" "t \<in> set (waiters (sw_sma v))"
  shows "pending_list semnum (complete t v) = removeAll t (pending_list semnum v)"
proof -
  note cr = complete_rel [OF assms(1,3)]
  have "num_in semnum (complete t v)" using num_in_rel [OF cr(1)] assms(2) by simp
  moreover have "pick_list semnum (alter_lists (sw_sma (complete t v))) = removeAll t (pick_list semnum (alter_lists (sw_sma v)))"
    by (rule removed_shorter [OF cr(2)]) (use assms(2) in \<open>simp add: num_in_def\<close>)
  ultimately show ?thesis using assms(2) by (simp add: pending_list_pick)
qed

text \<open>Operations that wait for zero change no value.\<close>

definition const_zero :: "sem_work \<Rightarrow> bool" where
  "const_zero w \<longleftrightarrow>
     (\<forall>t \<in> set (const_waiters (sw_sma w)). \<forall>sop \<in> set (sops_of (sw_stacks w) t). sem_op sop = 0)"

lemma const_zero_rel: "\<lbrakk>work_rel w v; const_zero w\<rbrakk> \<Longrightarrow> const_zero v"
proof -
  assume r: "work_rel w v" and c: "const_zero w"
  have "sops_of (sw_stacks v) t = sops_of (sw_stacks w) t" for t
    by (rule st_base_sops) (simp add: work_rel_base [OF r])
  moreover have "set (const_waiters (sw_sma v)) \<subseteq> set (const_waiters (sw_sma w))"
    by (rule lists_le_const_waiters [OF work_rel_lists [OF r]])
  ultimately show "const_zero v" using c unfolding const_zero_def by auto
qed

lemma try_sleeper_vals:
  assumes "try_sleeper t w = (v, SemDone)" "work_ok w" "t \<in> set (waiters (sw_sma w))" "i < sem_nsems (sw_sma w)"
  shows "semval (sems (sw_sma v) ! i) = semval (sems (sw_sma w) ! i) + sops_delta (sops_of (sw_stacks w) t) i"
proof -
  obtain q q' where q: "sw_stacks w t = Some q"
    and p: "perform_atomic_semop (sw_sma w) (sw_undos w) q = (sw_sma v, sw_undos v, q', SemDone)"
    using try_sleeper_step [OF assms(1-3)] by metis
  have "sop_queue_ok (sem_nsems (sw_sma w)) q" "undos_ok (sw_undos w)" "vals_ok (sems (sw_sma w))"
    using assms(2,3) q unfolding work_ok_def by auto
  from perform_keeps(9) [OF p this refl assms(4)] q show ?thesis by (simp add: sops_of_def)
qed

lemma sops_delta_zero: "\<forall>sop \<in> set l. sem_op sop = 0 \<Longrightarrow> sops_delta l i = 0"
  by (induction l) (simp_all add: sops_delta_def)

lemma try_sleeper_const:
  assumes "try_sleeper t w = (v, r)" "work_ok w" "t \<in> set (const_waiters (sw_sma w))" "const_zero w"
  shows "map semval (sems (sw_sma v)) = map semval (sems (sw_sma w))"
proof -
  have t: "t \<in> set (waiters (sw_sma w))" using assms(3) by (simp add: waiters_def)
  show ?thesis
  proof (cases "r = SemDone")
    case True
    have "sops_delta (sops_of (sw_stacks w) t) i = 0" for i
      by (rule sops_delta_zero) (use assms(3,4) in \<open>simp add: const_zero_def\<close>)
    then show ?thesis
      using try_sleeper_vals [OF _ assms(2) t] assms(1) True work_rel_nsems [OF try_sleeper_rel(1) [OF assms(1,2) t]]
      by (intro nth_equalityI) auto
  next
    case False
    then show ?thesis using try_sleeper_pure [OF assms(1,2) t] by simp
  qed
qed

lemma wake_const_loop_vals:
  assumes "work_ok w" "distinct ts" "set ts \<subseteq> set (const_waiters (sw_sma w))" "const_zero w"
  shows "map semval (sems (sw_sma (fst (wake_const_loop ts w fin)))) = map semval (sems (sw_sma w))"
  using assms
proof (induction ts arbitrary: w fin)
  case (Cons t ts)
  have t: "t \<in> set (const_waiters (sw_sma w))" "t \<in> set (waiters (sw_sma w))"
    using Cons.prems(3) by (simp_all add: waiters_def)
  obtain v r where tr: "try_sleeper t w = (v, r)" by (metis surj_pair)
  note v = try_sleeper_rel [OF tr Cons.prems(1) t(2)]
  have vok: "work_ok v" by (rule work_rel_ok [OF v(1)])
  have tv: "t \<in> set (waiters (sw_sma v))" using t v(2) by simp
  have vals: "map semval (sems (sw_sma v)) = map semval (sems (sw_sma w))"
    by (rule try_sleeper_const [OF tr Cons.prems(1) t(1) Cons.prems(4)])
  have goal: "map semval (sems (sw_sma (fst (wake_const_loop ts (finish t err v) fin')))) = map semval (sems (sw_sma w))"
    if err: "err \<noteq> Some EINTR" for err fin'
  proof -
    note fr = finish_rel [OF vok tv err]
    have "map semval (sems (sw_sma (fst (wake_const_loop ts (finish t err v) fin')))) = map semval (sems (sw_sma (finish t err v)))"
    proof (rule Cons.IH [OF work_rel_ok [OF fr]])
      show "const_zero (finish t err v)"
        by (rule const_zero_rel [OF work_rel_trans [OF v(1) fr] Cons.prems(4)])
    qed (use Cons.prems(2,3) v in auto)
    with vals show ?thesis by simp
  qed
  show ?case
  proof (cases r)
    case SemDone
    then show ?thesis using goal [of None True] tr by (simp add: finish_def)
  next
    case (SemErr e)
    then have "e \<noteq> EINTR" using try_sleeper_step [OF tr Cons.prems(1) t(2)] by metis
    then show ?thesis using goal [of "Some e" fin] tr SemErr by (simp add: finish_def)
  next
    case SemSleep
    then show ?thesis
      using Cons.IH [OF vok, of fin] Cons.prems(2,3) v const_zero_rel [OF v(1) Cons.prems(4)] tr vals by simp
  qed
qed simp

lemma wake_const_ops_vals:
  assumes "work_ok w" "\<And>i. semnum = Some i \<Longrightarrow> i < sem_nsems (sw_sma w)" "const_zero w"
    and "wake_const_ops semnum w = (w', c)"
  shows "map semval (sems (sw_sma w')) = map semval (sems (sw_sma w))"
proof -
  let ?l = "case semnum of None \<Rightarrow> pending_const (sw_sma w) | Some i \<Rightarrow> sem_const (sems (sw_sma w) ! i)"
  have "distinct ?l \<and> set ?l \<subseteq> set (const_waiters (sw_sma w))"
    using assms(2) const_sublists(1) [OF assms(1)] const_sublists(2) [OF assms(1)]
      const_sublists(3) [of "sw_sma w"] const_sublists(4) [of _ "sw_sma w"]
    by (cases semnum) simp_all
  then show ?thesis
    using wake_const_loop_vals [OF assms(1) _ _ assms(3), of ?l False] assms(4)
    by (simp add: wake_const_ops_def)
qed

lemma wakeup_zero_loop_vals:
  assumes "work_ok w" "\<forall>i \<in> set is. i < sem_nsems (sw_sma w)" "const_zero w"
    and "wakeup_zero_loop is w got fin = (w', got', c)"
  shows "map semval (sems (sw_sma w')) = map semval (sems (sw_sma w))"
  using assms
proof (induction "is" arbitrary: w got fin)
  case (Cons i "is")
  show ?case
  proof (cases "semval (sems (sw_sma w) ! i) = 0")
    case True
    obtain v d where v: "wake_const_ops (Some i) w = (v, d)" by (metis surj_pair)
    have r: "work_rel w v"
      using wake_const_ops_rel [OF Cons.prems(1) _ v] Cons.prems(2) by auto
    have "map semval (sems (sw_sma v)) = map semval (sems (sw_sma w))"
      using wake_const_ops_vals [OF Cons.prems(1) _ Cons.prems(3) v] Cons.prems(2) by auto
    moreover have "map semval (sems (sw_sma w')) = map semval (sems (sw_sma v))"
      using Cons.prems True v work_rel_ok [OF r] work_rel_nsems [OF r] const_zero_rel [OF r]
      by (intro Cons.IH) auto
    ultimately show ?thesis by simp
  qed (use Cons in simp)
qed simp

lemma do_smart_wakeup_zero_vals:
  assumes "work_ok w" "sops_in sops w" "const_zero w"
  shows "map semval (sems (sw_sma (fst (do_smart_wakeup_zero sops w)))) = map semval (sems (sw_sma w))"
proof -
  let ?is = "case sops of Some l \<Rightarrow> map sem_num l | None \<Rightarrow> [0..<sem_nsems (sw_sma w)]"
  obtain v got d where v: "wakeup_zero_loop ?is w False False = (v, got, d)" by (metis prod_cases3)
  have i: "\<forall>i \<in> set ?is. i < sem_nsems (sw_sma w)"
    using assms(2) by (auto simp: sops_in_def nums_in_def split: option.splits)
  note r = conjunct1 [OF wakeup_zero_loop_rel [OF assms(1) i v]]
  note vals = wakeup_zero_loop_vals [OF assms(1) i assms(3) v]
  obtain u e where u: "wake_const_ops None v = (u, e)" by (metis surj_pair)
  have "map semval (sems (sw_sma u)) = map semval (sems (sw_sma v))"
    by (rule wake_const_ops_vals [OF work_rel_ok [OF r] _ const_zero_rel [OF r assms(3)] u]) simp
  with v u vals show ?thesis by (simp add: do_smart_wakeup_zero_def)
qed

lemma complete_vals:
  assumes "work_ok v" "t \<in> set (waiters (sw_sma v))" "const_zero v"
  shows "map semval (sems (sw_sma (complete t v))) = map semval (sems (sw_sma v))"
proof -
  have "const_zero (sw_unlink t v)"
    using assms(3) unfolding const_zero_def by auto
  moreover have "sops_in (Some (sops_of (sw_stacks v) t)) (sw_unlink t v)"
    using sops_of_in [OF assms(1,2)] by (simp add: sops_in_def)
  ultimately have "map semval (sems (sw_sma (complete t v))) = map semval (sems (sw_sma (sw_unlink t v)))"
    unfolding complete_def wake_prepare_sma
    by (intro do_smart_wakeup_zero_vals [OF unlink_ok [OF assms(1,2)]])
  then show ?thesis by simp
qed

text \<open>
  The queue of one semaphore holds single decrements of it that may sleep; the array's own
  queue may hold anything.
\<close>

definition simple_alter :: "nat \<Rightarrow> sem_work \<Rightarrow> bool" where
  "simple_alter i w \<longleftrightarrow> (\<forall>t \<in> set (sem_alter (sems (sw_sma w) ! i)). \<exists>sop.
     sops_of (sw_stacks w) t = [sop] \<and> sem_num sop = i \<and> sem_op sop < 0 \<and> sem_flg sop AND IPC_NOWAIT = 0)"

definition scan_pre :: "nat option \<Rightarrow> sem_work \<Rightarrow> bool" where
  "scan_pre semnum w \<longleftrightarrow> num_in semnum w \<and>
     (case semnum of None \<Rightarrow> True | Some i \<Rightarrow> simple_alter i w \<and> const_zero w)"

lemma scan_pre_rel:
  assumes "scan_pre semnum w" "work_rel w v" "set (pending_list semnum v) \<subseteq> set (pending_list semnum w)"
  shows "scan_pre semnum v"
proof -
  have sp: "sops_of (sw_stacks v) t = sops_of (sw_stacks w) t" for t
    by (rule st_base_sops) (simp add: work_rel_base [OF assms(2)])
  show ?thesis
  proof (cases semnum)
    case None
    then show ?thesis by (simp add: scan_pre_def num_in_def)
  next
    case (Some i)
    then show ?thesis
      using assms num_in_rel [OF assms(2), of semnum] const_zero_rel [OF assms(2)]
      unfolding scan_pre_def simple_alter_def sp by (auto simp: pending_list_def)
  qed
qed

text \<open>Of the tasks looked at, those still queued are blocked.\<close>

definition settled :: "nat option \<Rightarrow> nat set \<Rightarrow> sem_work \<Rightarrow> bool" where
  "settled semnum T w \<longleftrightarrow> (\<forall>t \<in> set (pending_list semnum w) \<inter> T. blocked w t)"

lemma pending_in_waiters:
  "\<lbrakk>work_ok w; num_in semnum w; t \<in> set (pending_list semnum w)\<rbrakk> \<Longrightarrow> t \<in> set (waiters (sw_sma w))"
  using pending_list_sub(2) by (auto simp: waiters_def)

lemma settled_sleep:
  assumes "try_sleeper t w = (v, SemSleep)" "work_ok w" "num_in semnum w" "t \<in> set (pending_list semnum w)"
    and "settled semnum T w"
  shows "settled semnum (insert t T) v"
proof -
  have tw: "t \<in> set (waiters (sw_sma w))" by (rule pending_in_waiters [OF assms(2-4)])
  note pure = try_sleeper_pure [OF assms(1,2) tw]
  note r = try_sleeper_rel [OF assms(1,2) tw]
  have pl: "pending_list semnum v = pending_list semnum w"
    using pure(1) by (cases semnum) (simp_all add: pending_list_def)
  have "blocked v u = blocked w u" if "u \<in> set (pending_list semnum w)" for u
    using pending_in_waiters [OF assms(2,3) that] pure r(2) work_rel_base [OF r(1)]
    by (intro blocked_cong [OF assms(2) work_rel_ok [OF r(1)]]) simp_all
  moreover have "blocked w t" using assms(1) by (simp add: blocked_def)
  ultimately show ?thesis using assms(5) unfolding settled_def pl by auto
qed

lemma settled_finish:
  assumes "try_sleeper t w = (v, SemErr e)" "work_ok w" "num_in semnum w" "t \<in> set (pending_list semnum w)"
    and "settled semnum T w"
  shows "settled semnum (insert t T) (finish t (Some e) v)"
proof -
  have tw: "t \<in> set (waiters (sw_sma w))" by (rule pending_in_waiters [OF assms(2-4)])
  note pure = try_sleeper_pure [OF assms(1,2) tw]
  note r = try_sleeper_rel [OF assms(1,2) tw]
  have e: "Some e \<noteq> Some EINTR" using try_sleeper_step [OF assms(1,2) tw] by (metis option.inject)
  note vok = work_rel_ok [OF r(1)]
  have vn: "num_in semnum v" using num_in_rel [OF r(1)] assms(3) by simp
  have tv: "t \<in> set (waiters (sw_sma v))" using tw r(2) by simp
  have pl: "pending_list semnum v = pending_list semnum w"
    using pure(1) by (cases semnum) (simp_all add: pending_list_def)
  have "blocked (finish t (Some e) v) u = blocked w u" if u: "u \<in> set (pending_list semnum w)" "u \<noteq> t" for u
  proof -
    have "u \<in> set (waiters (sw_sma v))" using pending_in_waiters [OF assms(2,3) u(1)] r(2) by simp
    then have "blocked (finish t (Some e) v) u = blocked v u"
      by (rule blocked_finish [OF vok tv e _ u(2)])
    also have "\<dots> = blocked w u"
      using pending_in_waiters [OF assms(2,3) u(1)] pure r(2) work_rel_base [OF r(1)]
      by (intro blocked_cong [OF assms(2) vok]) simp_all
    finally show ?thesis .
  qed
  then show ?thesis
    using assms(5) unfolding settled_def pending_finish [OF vok vn tv e] pl by auto
qed

lemma settled_complete:
  assumes "try_sleeper t w = (v, SemDone)" "work_ok w" "scan_pre semnum w" "t \<in> set (pending_list semnum w)"
    and "settled semnum T w" "\<not> check_restart (sw_sma (complete t v)) (sops_of (sw_stacks v) t)"
  shows "settled semnum (insert t T) (complete t v)"
proof (cases semnum)
  case None
  with assms(6) show ?thesis by (simp add: settled_def pending_list_def check_restart_def)
next
  case (Some i)
  have nw: "num_in semnum w" and i: "i < sem_nsems (sw_sma w)" and sa: "simple_alter i w" and cz: "const_zero w"
    using assms(3) Some by (simp_all add: scan_pre_def num_in_def)
  have tw: "t \<in> set (waiters (sw_sma w))" by (rule pending_in_waiters [OF assms(2) nw assms(4)])
  note r = try_sleeper_rel [OF assms(1,2) tw]
  note vok = work_rel_ok [OF r(1)]
  have tv: "t \<in> set (waiters (sw_sma v))" using tw r(2) by simp
  note cr = complete_rel [OF vok tv]
  have vn: "num_in semnum v" using num_in_rel [OF r(1)] nw by simp
  have pl: "pending_list semnum v = pending_list semnum w"
    using r(5) vn nw by (simp add: pending_list_pick)
  have sp: "sops_of (sw_stacks (complete t v)) u = sops_of (sw_stacks w) u" for u
    by (rule st_base_sops) (simp add: work_rel_base [OF cr(1)] work_rel_base [OF r(1)])
  obtain sop where sop: "sops_of (sw_stacks w) t = [sop]" "sem_num sop = i" "sem_op sop < 0"
    using sa assms(4) Some unfolding simple_alter_def by (auto simp: pending_list_def)
  have val: "semval (sems (sw_sma (complete t v)) ! i) \<le> semval (sems (sw_sma w) ! i)"
  proof -
    have "map semval (sems (sw_sma (complete t v))) = map semval (sems (sw_sma v))"
      by (rule complete_vals [OF vok tv const_zero_rel [OF r(1) cz]])
    then have "semval (sems (sw_sma (complete t v)) ! i) = semval (sems (sw_sma v) ! i)"
      using i work_rel_nsems [OF cr(1)] work_rel_nsems [OF r(1)] by (metis nth_map)
    also have "\<dots> = semval (sems (sw_sma w) ! i) + sops_delta [sop] i"
      using try_sleeper_vals [OF assms(1,2) tw i] sop(1) by simp
    finally show ?thesis using sop(2,3) by (simp add: sops_delta_def)
  qed
  show ?thesis
    unfolding settled_def pending_complete [OF vok vn tv] pl
  proof
    fix u assume "u \<in> set (removeAll t (pending_list semnum w)) \<inter> insert t T"
    then have u: "u \<in> set (pending_list semnum w)" "u \<noteq> t" "u \<in> T" by auto
    then obtain p where p: "sops_of (sw_stacks w) u = [p]" "sem_num p = i" "sem_op p < 0" "sem_flg p AND IPC_NOWAIT = 0"
      using sa Some unfolding simple_alter_def by (auto simp: pending_list_def)
    have uw: "u \<in> set (waiters (sw_sma w))" by (rule pending_in_waiters [OF assms(2) nw u(1)])
    have uc: "u \<in> set (waiters (sw_sma (complete t v)))"
      using pending_in_waiters [OF work_rel_ok [OF cr(1)], of semnum u] num_in_rel [OF cr(1), of semnum] vn u(1,2)
      by (simp add: pending_complete [OF vok vn tv] pl)
    have "blocked w u" using assms(5) u unfolding settled_def by blast
    then show "blocked (complete t v) u"
      using val blocked_single [OF assms(2) uw p(1,3,4)] p(2)
        blocked_single [OF work_rel_ok [OF cr(1)] uc _ p(3,4)] sp p(1) by simp
  qed
qed

lemma update_scan_settled:
  assumes "work_ok w" "scan_pre semnum w" "distinct ts" "set ts \<subseteq> set (pending_list semnum w)"
    and "update_scan semnum ts w fin = (w', c, False)" "settled semnum T w"
  shows "settled semnum (T \<union> set ts) w'"
  using assms
proof (induction ts arbitrary: w fin T)
  case Nil
  then show ?case by simp
next
  case (Cons t ts)
  let ?z = "case semnum of None \<Rightarrow> False | Some i \<Rightarrow> semval (sems (sw_sma w) ! i) = 0"
  have nw: "num_in semnum w" using Cons.prems(2) by (simp add: scan_pre_def)
  have tp: "t \<in> set (pending_list semnum w)" using Cons.prems(4) by simp
  have tw: "t \<in> set (waiters (sw_sma w))" by (rule pending_in_waiters [OF Cons.prems(1) nw tp])
  show ?case
  proof (cases ?z)
    case True
    then obtain i where i: "semnum = Some i" "semval (sems (sw_sma w) ! i) = 0" by (cases semnum) auto
    have w': "w' = w" using Cons.prems(5) update_scan_zero [OF True] by simp
    have "blocked w u" if u: "u \<in> set (pending_list semnum w)" for u
    proof -
      obtain p where p: "sops_of (sw_stacks w) u = [p]" "sem_num p = i" "sem_op p < 0" "sem_flg p AND IPC_NOWAIT = 0"
        using Cons.prems(2) u i(1) unfolding scan_pre_def simple_alter_def by (auto simp: pending_list_def)
      show ?thesis
        using blocked_single [OF Cons.prems(1) pending_in_waiters [OF Cons.prems(1) nw u] p(1,3,4)] p(2,3) i(2) by simp
    qed
    then show ?thesis unfolding w' settled_def by simp
  next
    case False
    obtain v r where tr: "try_sleeper t w = (v, r)" by (metis surj_pair)
    note v = try_sleeper_rel [OF tr Cons.prems(1) tw]
    note vok = work_rel_ok [OF v(1)]
    have vn: "num_in semnum v" using num_in_rel [OF v(1)] nw by simp
    have pv: "pending_list semnum v = pending_list semnum w"
      using v(5) vn nw by (simp add: pending_list_pick)
    have tv: "t \<in> set (waiters (sw_sma v))" using tw v(2) by simp
    have cont: ?thesis
      if rel: "work_rel w u" and pl: "pending_list semnum u = removeAll t (pending_list semnum w) \<or> pending_list semnum u = pending_list semnum w"
        and set: "settled semnum (insert t T) u" and run: "update_scan semnum ts u fin' = (w', c, False)" for u fin'
    proof -
      have sub: "set (pending_list semnum u) \<subseteq> set (pending_list semnum w)" using pl by auto
      have "settled semnum (insert t T \<union> set ts) w'"
        using Cons.prems(3,4) pl
        by (intro Cons.IH [OF work_rel_ok [OF rel] scan_pre_rel [OF Cons.prems(2) rel sub] _ _ run set]) auto
      then show ?thesis by simp
    qed
    show ?thesis
    proof (cases r)
      case SemSleep
      show ?thesis
        by (rule cont [OF v(1) disjI2 [OF pv] settled_sleep [OF tr [unfolded SemSleep] Cons.prems(1) nw tp Cons.prems(6)]])
          (use Cons.prems(5) update_scan_step [OF False tr] SemSleep in simp)
    next
      case (SemErr e)
      then have e: "Some e \<noteq> Some EINTR" using try_sleeper_step [OF tr Cons.prems(1) tw] by (metis option.inject)
      show ?thesis
        by (rule cont [OF work_rel_trans [OF v(1) finish_rel [OF vok tv e]] _
              settled_finish [OF tr [unfolded SemErr] Cons.prems(1) nw tp Cons.prems(6)]])
          (use Cons.prems(5) update_scan_step [OF False tr] SemErr pending_finish [OF vok vn tv e] pv in simp_all)
    next
      case SemDone
      have nr: "\<not> check_restart (sw_sma (complete t v)) (sops_of (sw_stacks v) t)"
        using Cons.prems(5) update_scan_step [OF False tr] SemDone by auto
      show ?thesis
        by (rule cont [OF work_rel_trans [OF v(1) complete_rel(1) [OF vok tv]] _
              settled_complete [OF tr [unfolded SemDone] Cons.prems(1,2) tp Cons.prems(6) nr]])
          (use Cons.prems(5) update_scan_step [OF False tr] SemDone nr pending_complete [OF vok vn tv] pv in simp_all)
    qed
  qed
qed

lemma update_loop_settled:
  assumes "work_ok w" "scan_pre semnum w" "update_loop n semnum w fin = Some (w', c)"
  shows "\<forall>t \<in> set (pending_list semnum w'). blocked w' t"
  using assms
proof (induction n arbitrary: w fin)
  case (Suc n)
  have nw: "num_in semnum w" using Suc.prems(2) by (simp add: scan_pre_def)
  obtain v d again where v: "update_scan semnum (pending_list semnum w) w fin = (v, d, again)"
    by (metis prod_cases3)
  note r = update_scan_rel [OF Suc.prems(1) nw pending_list_sub(1) [OF Suc.prems(1) nw] subset_refl v]
  show ?case
  proof (cases again)
    case True
    then show ?thesis
      using Suc.IH [of v d] Suc.prems r v work_rel_ok [of w v] scan_pre_rel [of semnum w v] by simp
  next
    case False
    then have "settled semnum ({} \<union> set (pending_list semnum w)) w'"
      using v Suc.prems
      by (intro update_scan_settled [OF Suc.prems(1,2) pending_list_sub(1) [OF Suc.prems(1) nw] subset_refl])
        (simp_all add: settled_def)
    with r v False Suc.prems(3) show ?thesis unfolding settled_def by auto
  qed
qed simp

lemma update_queue_settled:
  assumes "work_ok w" "scan_pre semnum w" "update_queue semnum w = (w', c)"
  shows "\<forall>t \<in> set (pending_list semnum w'). blocked w' t"
proof -
  have nw: "num_in semnum w" using assms(2) by (simp add: scan_pre_def)
  from update_loop_rel [OF assms(1) nw lessI, of False] assms(3)
  have "update_loop (Suc (length (pending_list semnum w))) semnum w False = Some (w', c)"
    by (auto simp: update_queue_def)
  then show ?thesis by (rule update_loop_settled [OF assms(1,2)])
qed

end
