(* ===== verification/SemSettle.thy ===== *)
theory SemSettle
  imports SemQuiet
begin

text \<open>
  What the queues of a semaphore array hold, and how the wake-up passes settle the operations that
  wait for zero: \<^verbatim>\<open>do_smart_wakeup_zero\<close> leaves none that could proceed, and \<^verbatim>\<open>update_queue\<close> keeps that.
\<close>

section \<open>What the queues hold\<close>

text \<open>A single decrement that may sleep.\<close>

definition may_wait :: "sembuf \<Rightarrow> bool" where
  "may_wait sop \<longleftrightarrow> sem_op sop < 0 \<and> sem_flg sop AND IPC_NOWAIT = 0"

definition queues_typed :: "sem_work \<Rightarrow> bool" where
  "queues_typed w \<longleftrightarrow>
     (\<forall>i < sem_nsems (sw_sma w). \<forall>t \<in> set (sem_alter (sems (sw_sma w) ! i)).
        \<exists>sop. sops_of (sw_stacks w) t = [sop] \<and> sem_num sop = i \<and> may_wait sop)
     \<and> (\<forall>i < sem_nsems (sw_sma w). \<forall>t \<in> set (sem_const (sems (sw_sma w) ! i)).
        \<exists>sop. sops_of (sw_stacks w) t = [sop] \<and> sem_num sop = i \<and> sem_op sop = 0)
     \<and> (\<forall>t \<in> set (pending_const (sw_sma w)). sops_of (sw_stacks w) t \<noteq> []
        \<and> (\<forall>sop \<in> set (sops_of (sw_stacks w) t). sem_op sop = 0))
     \<and> (\<forall>t \<in> set (pending_alter (sw_sma w)). sops_of (sw_stacks w) t \<noteq> []
        \<and> (\<forall>sop. sops_of (sw_stacks w) t = [sop] \<longrightarrow> may_wait sop))"

lemma typed_alter: "\<lbrakk>queues_typed w; i < sem_nsems (sw_sma w)\<rbrakk> \<Longrightarrow> simple_alter i w"
  unfolding queues_typed_def simple_alter_def may_wait_def by blast

lemma const_waitersE:
  assumes "t \<in> set (const_waiters a)"
  obtains "t \<in> set (pending_const a)" | i where "i < sem_nsems a" "t \<in> set (sem_const (sems a ! i))"
  using assms by (auto simp: const_waiters_def) (metis in_set_conv_nth)

lemma typed_const: "queues_typed w \<Longrightarrow> const_zero w"
  unfolding const_zero_def
proof
  fix t assume q: "queues_typed w" and "t \<in> set (const_waiters (sw_sma w))"
  then consider "t \<in> set (pending_const (sw_sma w))"
    | i where "i < sem_nsems (sw_sma w)" "t \<in> set (sem_const (sems (sw_sma w) ! i))"
    by (blast elim: const_waitersE)
  then show "\<forall>sop \<in> set (sops_of (sw_stacks w) t). sem_op sop = 0"
  proof cases
    case 1
    with q show ?thesis unfolding queues_typed_def by blast
  next
    case 2
    with q obtain sop where "sops_of (sw_stacks w) t = [sop]" "sem_op sop = 0"
      unfolding queues_typed_def by metis
    then show ?thesis by simp
  qed
qed

lemma typed_cong:
  assumes "queues_typed w" "lists_le (sw_sma w) (sw_sma v)"
    and "\<And>t. t \<in> set (waiters (sw_sma v)) \<Longrightarrow> sops_of (sw_stacks v) t = sops_of (sw_stacks w) t"
  shows "queues_typed v"
proof -
  have n: "sem_nsems (sw_sma v) = sem_nsems (sw_sma w)"
    and pa: "set (pending_alter (sw_sma v)) \<subseteq> set (pending_alter (sw_sma w))"
    and pc: "set (pending_const (sw_sma v)) \<subseteq> set (pending_const (sw_sma w))"
    using assms(2) by (auto simp: lists_le_def)
  have wa: "t \<in> set (waiters (sw_sma v))"
    if "i < sem_nsems (sw_sma v)" "t \<in> set (sem_alter (sems (sw_sma v) ! i)) \<or> t \<in> set (sem_const (sems (sw_sma v) ! i))" for i t
    using that alter_sublists(4) [of i "sw_sma v"] const_sublists(4) [of i "sw_sma v"] by (auto simp: waiters_def)
  have wp: "t \<in> set (waiters (sw_sma v))"
    if "t \<in> set (pending_alter (sw_sma v)) \<or> t \<in> set (pending_const (sw_sma v))" for t
    using that alter_sublists(3) [of "sw_sma v"] const_sublists(3) [of "sw_sma v"] by (auto simp: waiters_def)
  show ?thesis
    unfolding queues_typed_def
  proof (intro conjI allI impI ballI)
    fix i t assume i: "i < sem_nsems (sw_sma v)" and t: "t \<in> set (sem_alter (sems (sw_sma v) ! i))"
    then have "t \<in> set (sem_alter (sems (sw_sma w) ! i))" using lists_le_nth(1) [OF assms(2), of i] n by auto
    then show "\<exists>sop. sops_of (sw_stacks v) t = [sop] \<and> sem_num sop = i \<and> may_wait sop"
      using assms(1) i n assms(3) [OF wa [OF i disjI1 [OF t]]] unfolding queues_typed_def by metis
  next
    fix i t assume i: "i < sem_nsems (sw_sma v)" and t: "t \<in> set (sem_const (sems (sw_sma v) ! i))"
    then have "t \<in> set (sem_const (sems (sw_sma w) ! i))" using lists_le_nth(2) [OF assms(2), of i] n by auto
    then show "\<exists>sop. sops_of (sw_stacks v) t = [sop] \<and> sem_num sop = i \<and> sem_op sop = 0"
      using assms(1) i n assms(3) [OF wa [OF i disjI2 [OF t]]] unfolding queues_typed_def by metis
  next
    fix t assume t: "t \<in> set (pending_const (sw_sma v))"
    then have tw: "t \<in> set (pending_const (sw_sma w))" using pc by auto
    note eq = assms(3) [OF wp [OF disjI2 [OF t]]]
    show "sops_of (sw_stacks v) t \<noteq> []" using assms(1) tw eq unfolding queues_typed_def by auto
    fix sop assume "sop \<in> set (sops_of (sw_stacks v) t)"
    then show "sem_op sop = 0" using assms(1) tw eq unfolding queues_typed_def by auto
  next
    fix t assume t: "t \<in> set (pending_alter (sw_sma v))"
    then have "t \<in> set (pending_alter (sw_sma w))" using pa by auto
    note eq = assms(3) [OF wp [OF disjI1 [OF t]]]
    show "sops_of (sw_stacks v) t \<noteq> []"
      using assms(1) \<open>t \<in> set (pending_alter (sw_sma w))\<close> eq unfolding queues_typed_def by auto
    fix sop assume "sops_of (sw_stacks v) t = [sop]"
    then show "may_wait sop"
      using assms(1) \<open>t \<in> set (pending_alter (sw_sma w))\<close> eq unfolding queues_typed_def by auto
  qed
qed

lemma work_rel_sops: "work_rel w v \<Longrightarrow> sops_of (sw_stacks v) t = sops_of (sw_stacks w) t"
  by (rule st_base_sops) (simp add: work_rel_base)

lemma typed_rel: "\<lbrakk>work_rel w v; queues_typed w\<rbrakk> \<Longrightarrow> queues_typed v"
  using typed_cong work_rel_lists work_rel_sops by blast

section \<open>Waiters for zero\<close>

text \<open>Waiters for zero that have a semaphore in \<open>S\<close> to look after, and those that are settled.\<close>

definition const_held :: "sem_work \<Rightarrow> nat \<Rightarrow> bool" where
  "const_held w t \<longleftrightarrow> (\<exists>sop \<in> set (sops_of (sw_stacks w) t). semval (sems (sw_sma w) ! sem_num sop) \<noteq> 0)"

definition touches :: "nat set \<Rightarrow> sem_work \<Rightarrow> nat \<Rightarrow> bool" where
  "touches S w t \<longleftrightarrow> (\<exists>sop \<in> set (sops_of (sw_stacks w) t). sem_num sop \<in> S)"

definition const_quiet :: "sem_work \<Rightarrow> bool" where
  "const_quiet w \<longleftrightarrow> (\<forall>t \<in> set (const_waiters (sw_sma w)). const_held w t)"

definition const_pre :: "nat set \<Rightarrow> sem_work \<Rightarrow> bool" where
  "const_pre S w \<longleftrightarrow> (\<forall>t \<in> set (const_waiters (sw_sma w)). const_held w t \<or> touches S w t)"

lemma const_held_cong:
  assumes "work_ok w" "t \<in> set (waiters (sw_sma w))"
    and "map semval (sems (sw_sma v)) = map semval (sems (sw_sma w))"
    and "sops_of (sw_stacks v) t = sops_of (sw_stacks w) t"
  shows "const_held v t = const_held w t"
proof -
  have len: "sem_nsems (sw_sma v) = sem_nsems (sw_sma w)" using arg_cong [OF assms(3), of length] by simp
  have "semval (sems (sw_sma v) ! sem_num sop) = semval (sems (sw_sma w) ! sem_num sop)"
    if "sop \<in> set (sops_of (sw_stacks w) t)" for sop
  proof -
    have "sem_num sop < sem_nsems (sw_sma w)"
      using sops_of_in [OF assms(1,2)] that by (simp add: nums_in_def)
    then show ?thesis using arg_cong [OF assms(3), of "\<lambda>l. l ! sem_num sop"] len by simp
  qed
  then show ?thesis unfolding const_held_def assms(4) by auto
qed

lemma slow_scan_all_zero:
  assumes "snd (snd (snd (semop_slow_scan un b l ss us))) = ScanEnd" "\<forall>sop \<in> set l. sem_op sop = 0" "nums_in (length ss) l"
    and "sop \<in> set l"
  shows "semval (ss ! sem_num sop) = 0"
  using assms
proof (induction l arbitrary: b ss us)
  case (Cons p l)
  have ok: "sop_check un p ss us = ScanEnd"
    using Cons.prems by (auto simp: scan_Cons split: if_splits)
  show ?case
  proof (cases "sop = p")
    case True
    with ok Cons.prems(2) show ?thesis by (auto simp: sop_check_def Let_def split: if_splits)
  next
    case False
    have "semval (sop_ss p ss ! sem_num sop) = 0"
      using Cons.prems ok False by (intro Cons.IH [of "p # b" "sop_ss p ss" "sop_us un p us"]) (auto simp: scan_Cons)
    moreover have "sem_num sop < length ss" using Cons.prems(3,4) by (auto simp: nums_in_def)
    ultimately show ?thesis using Cons.prems(2) by (auto simp: sop_ss_def nth_upd_sem split: if_splits)
  qed
qed simp

lemma slow_scan_zero_done:
  assumes "\<forall>sop \<in> set l. sem_op sop = 0 \<and> semval (ss ! sem_num sop) = 0" "nums_in (length ss) l" "undos_ok us"
  shows "snd (snd (snd (semop_slow_scan un b l ss us))) = ScanEnd"
  using assms
proof (induction l arbitrary: b ss us)
  case (Cons p l)
  have ok: "sop_check un p ss us = ScanEnd"
    using Cons.prems undos_ok_at [OF Cons.prems(3), of un "sem_num p"] by (simp add: sop_check_def Let_def limits)
  have "semval (sop_ss p ss ! sem_num sop) = 0" if "sop \<in> set l" for sop
    using Cons.prems(1,2) that by (auto simp: sop_ss_def nth_upd_sem nums_in_def)
  then show ?case
    using Cons.prems ok Cons.IH [of "sop_ss p ss" "sop_us un p us" "p # b"] by (simp add: scan_Cons)
qed simp

lemma perform_slow_done:
  "snd (snd (snd (perform_atomic_semop_slow a us q))) = SemDone \<longleftrightarrow>
    snd (snd (snd (semop_slow_scan (q_undo q) [] (q_sops q) (sems a) us))) = ScanEnd"
  by (auto simp: perform_atomic_semop_slow_def block_result_def split: prod.splits scan_end.splits if_splits)

lemma done_iff:
  assumes "sw_stacks w t = Some q" "sop_queue_ok (sem_nsems (sw_sma w)) q" "undos_ok (sw_undos w)"
  shows "snd (try_sleeper t w) = SemDone \<longleftrightarrow>
    snd (snd (snd (semop_slow_scan (q_undo q) [] (q_sops q) (sems (sw_sma w)) (sw_undos w)))) = ScanEnd"
proof -
  have "snd (try_sleeper t w) = snd (snd (snd (perform_atomic_semop (sw_sma w) (sw_undos w) q)))"
    by (simp add: try_sleeper_def assms(1) split: prod.splits)
  then show ?thesis by (simp add: perform_eq_slow [OF assms(2,3)] perform_slow_done)
qed

text \<open>A waiter for zero proceeds exactly when all its semaphores are zero.\<close>

lemma const_done_iff:
  assumes "work_ok w" "t \<in> set (waiters (sw_sma w))" "\<forall>sop \<in> set (sops_of (sw_stacks w) t). sem_op sop = 0"
  shows "snd (try_sleeper t w) = SemDone \<longleftrightarrow> \<not> const_held w t"
proof -
  obtain q where q: "sw_stacks w t = Some q" "sop_queue_ok (sem_nsems (sw_sma w)) q"
    using assms(1,2) unfolding work_ok_def by blast
  have u: "undos_ok (sw_undos w)" using assms(1) unfolding work_ok_def by blast
  have s: "sops_of (sw_stacks w) t = q_sops q" using q(1) by (simp add: sops_of_def)
  have n: "nums_in (sem_nsems (sw_sma w)) (q_sops q)" using q(2) by (simp add: sop_queue_ok_def)
  show ?thesis
    unfolding done_iff [OF q u] const_held_def s
    using slow_scan_all_zero [of "q_undo q" "[]" "q_sops q" "sems (sw_sma w)" "sw_undos w"]
      slow_scan_zero_done [of "q_sops q" "sems (sw_sma w)" "sw_undos w" "q_undo q" "[]"] n u assms(3) s by auto
qed

lemma const_waiters_in: "t \<in> set (const_waiters a) \<Longrightarrow> t \<in> set (waiters a)"
  by (simp add: waiters_def)

lemma held_rel:
  assumes "work_rel w v" "work_ok w" "t \<in> set (waiters (sw_sma w))"
    and "map semval (sems (sw_sma v)) = map semval (sems (sw_sma w))"
  shows "const_held v t = const_held w t"
  by (rule const_held_cong [OF assms(2-4) work_rel_sops [OF assms(1)]])

lemma wake_const_loop_held:
  assumes "work_ok w" "distinct ts" "set ts \<subseteq> set (const_waiters (sw_sma w))" "const_zero w"
    and "wake_const_loop ts w fin = (w', c)" "t \<in> set ts" "t \<in> set (waiters (sw_sma w'))"
  shows "const_held w' t"
  using assms
proof (induction ts arbitrary: w fin)
  case (Cons u ts)
  have uc: "u \<in> set (const_waiters (sw_sma w))" and uw: "u \<in> set (waiters (sw_sma w))"
    using Cons.prems(3) by (simp_all add: waiters_def)
  obtain v r where tr: "try_sleeper u w = (v, r)" by (metis surj_pair)
  note v = try_sleeper_rel [OF tr Cons.prems(1) uw]
  have vok: "work_ok v" by (rule work_rel_ok [OF v(1)])
  have uv: "u \<in> set (waiters (sw_sma v))" using uw v(2) by simp
  have vals: "map semval (sems (sw_sma v)) = map semval (sems (sw_sma w))"
    by (rule try_sleeper_const [OF tr Cons.prems(1) uc Cons.prems(4)])
  have run: ?case
    if rel: "work_rel v x" and sub: "set ts \<subseteq> set (const_waiters (sw_sma x))"
      and wc: "wake_const_loop ts x f = (w', c)"
      and first: "t = u \<Longrightarrow> u \<in> set (waiters (sw_sma x)) \<Longrightarrow> const_held w' u" for x f
  proof (cases "t = u")
    case False
    then show ?thesis
      using Cons.IH [OF work_rel_ok [OF rel] _ sub _ wc] Cons.prems const_zero_rel [OF rel]
        const_zero_rel [OF v(1) Cons.prems(4)] by simp
  next
    case True
    have "set (waiters (sw_sma w')) \<subseteq> set (waiters (sw_sma x))"
    proof -
      have "work_rel x w'"
        using wake_const_loop_rel [OF work_rel_ok [OF rel] _ sub wc] Cons.prems(2) by simp
      then show ?thesis by (simp add: work_rel_def)
    qed
    with first True Cons.prems(7) show ?thesis by auto
  qed
  have gone: ?case if e: "err \<noteq> Some EINTR" and wc: "wake_const_loop ts (finish u err v) f = (w', c)" for err f
    using finish_rel [OF vok uv e]
  proof (rule run [OF _ _ wc])
    show "set ts \<subseteq> set (const_waiters (sw_sma (finish u err v)))" using Cons.prems(2,3) v by auto
  qed simp
  show ?case
  proof (cases r)
    case SemDone
    then show ?thesis using gone [of None True] tr Cons.prems(5) by (simp add: finish_def)
  next
    case (SemErr e)
    then have "e \<noteq> EINTR" using try_sleeper_step [OF tr Cons.prems(1) uw] by metis
    then show ?thesis using gone [of "Some e" fin] tr SemErr Cons.prems(5) by (simp add: finish_def)
  next
    case SemSleep
    have held: "const_held v u"
      using const_done_iff [OF Cons.prems(1) uw] Cons.prems(4) uc tr SemSleep
        held_rel [OF v(1) Cons.prems(1) uw vals] by (simp add: const_zero_def)
    have wc: "wake_const_loop ts v fin = (w', c)" using SemSleep tr Cons.prems(5) by simp
    have sub: "set ts \<subseteq> set (const_waiters (sw_sma v))" using Cons.prems(3) v by auto
    note cz = const_zero_rel [OF v(1) Cons.prems(4)]
    have d: "distinct ts" using Cons.prems(2) by simp
    have "work_rel v w'" using wake_const_loop_rel [OF vok d sub wc] by blast
    moreover have "map semval (sems (sw_sma w')) = map semval (sems (sw_sma v))"
      using wake_const_loop_vals [OF vok d sub cz, of fin] wc by simp
    ultimately have "const_held w' u" using held_rel [OF _ vok uv] held by blast
    then show ?thesis by (intro run [OF work_rel_refl [OF vok] sub wc])
  qed
qed simp

lemma wake_const_ops_held:
  assumes "work_ok w" "\<And>i. semnum = Some i \<Longrightarrow> i < sem_nsems (sw_sma w)" "const_zero w"
    and "wake_const_ops semnum w = (w', c)" "t \<in> set (waiters (sw_sma w'))"
    and "t \<in> set (case semnum of None \<Rightarrow> pending_const (sw_sma w) | Some i \<Rightarrow> sem_const (sems (sw_sma w) ! i))"
  shows "const_held w' t"
proof -
  let ?l = "case semnum of None \<Rightarrow> pending_const (sw_sma w) | Some i \<Rightarrow> sem_const (sems (sw_sma w) ! i)"
  have l: "distinct ?l" "set ?l \<subseteq> set (const_waiters (sw_sma w))"
    using assms(2) const_sublists(1) [OF assms(1)] const_sublists(2) [OF assms(1)]
      const_sublists(3) [of "sw_sma w"] const_sublists(4) [of _ "sw_sma w"]
    by (cases semnum; simp)+
  show ?thesis
    by (rule wake_const_loop_held [OF assms(1) l assms(3) _ assms(6,5)])
      (use assms(4) in \<open>simp add: wake_const_ops_def\<close>)
qed

lemma wakeup_zero_loop_held:
  assumes "work_ok w" "\<forall>i \<in> set is. i < sem_nsems (sw_sma w)" "const_zero w"
    and "wakeup_zero_loop is w got fin = (w', got', c)"
  shows "(got' \<longleftrightarrow> got \<or> (\<exists>i \<in> set is. semval (sems (sw_sma w) ! i) = 0)) \<and>
    (\<forall>i \<in> set is. semval (sems (sw_sma w) ! i) = 0 \<longrightarrow> (\<forall>t \<in> set (sem_const (sems (sw_sma w') ! i)). const_held w' t))"
  using assms
proof (induction "is" arbitrary: w got fin)
  case (Cons i "is")
  have i: "i < sem_nsems (sw_sma w)" using Cons.prems(2) by simp
  show ?case
  proof (cases "semval (sems (sw_sma w) ! i) = 0")
    case False
    then show ?thesis using Cons by simp
  next
    case True
    obtain v d where v: "wake_const_ops (Some i) w = (v, d)" by (metis surj_pair)
    have r: "work_rel w v" using wake_const_ops_rel [OF Cons.prems(1) _ v] i by auto
    note vok = work_rel_ok [OF r] and cz = const_zero_rel [OF r Cons.prems(3)]
    have vals: "map semval (sems (sw_sma v)) = map semval (sems (sw_sma w))"
      using wake_const_ops_vals [OF Cons.prems(1) _ Cons.prems(3) v] i by auto
    have isv: "\<forall>i \<in> set is. i < sem_nsems (sw_sma v)" using Cons.prems(2) work_rel_nsems [OF r] by simp
    have run: "wakeup_zero_loop is v True (fin \<or> d) = (w', got', c)" using Cons.prems(4) True v by simp
    have nth: "semval (sems (sw_sma v) ! j) = semval (sems (sw_sma w) ! j)" if "j < sem_nsems (sw_sma w)" for j
      using arg_cong [OF vals, of "\<lambda>l. l ! j"] that work_rel_nsems [OF r] by simp
    note ih = Cons.IH [OF vok isv cz run]
    have rv: "work_rel v w'" using wakeup_zero_loop_rel [OF vok isv run] by blast
    have "const_held w' t" if t: "t \<in> set (sem_const (sems (sw_sma w') ! i))" for t
    proof -
      have iv: "i < sem_nsems (sw_sma v)" using i work_rel_nsems [OF r] by simp
      have tv: "t \<in> set (sem_const (sems (sw_sma v) ! i))"
        using lists_le_nth(2) [OF work_rel_lists [OF rv] iv] t by auto
      then have tw: "t \<in> set (sem_const (sems (sw_sma w) ! i))"
        using lists_le_nth(2) [OF work_rel_lists [OF r] i] by auto
      have tva: "t \<in> set (waiters (sw_sma v))"
        using const_sublists(4) [OF iv] tv by (auto simp: waiters_def)
      have "const_held v t"
        by (rule wake_const_ops_held [OF Cons.prems(1) _ Cons.prems(3) v tva]) (use i tw in auto)
      moreover have "map semval (sems (sw_sma w')) = map semval (sems (sw_sma v))"
        by (rule wakeup_zero_loop_vals [OF vok isv cz run])
      ultimately show ?thesis using held_rel [OF rv vok tva] by blast
    qed
    with ih True nth Cons.prems(2) show ?thesis by auto
  qed
qed simp

definition zero_scope :: "sembuf list option \<Rightarrow> sem_work \<Rightarrow> nat set" where
  "zero_scope sops w = set (case sops of Some l \<Rightarrow> map sem_num l | None \<Rightarrow> [0..<sem_nsems (sw_sma w)])"

lemma do_smart_wakeup_zero_quiet:
  assumes "work_ok w" "sops_in sops w" "queues_typed w" "const_pre (zero_scope sops w) w"
    and "do_smart_wakeup_zero sops w = (w', c)"
  shows "const_quiet w'"
proof -
  let ?is = "case sops of Some l \<Rightarrow> map sem_num l | None \<Rightarrow> [0..<sem_nsems (sw_sma w)]"
  have S: "zero_scope sops w = set ?is" by (simp add: zero_scope_def)
  note cz = typed_const [OF assms(3)]
  obtain v got d where v: "wakeup_zero_loop ?is w False False = (v, got, d)" by (metis prod_cases3)
  have i: "\<forall>i \<in> set ?is. i < sem_nsems (sw_sma w)"
    using assms(2) by (auto simp: sops_in_def nums_in_def split: option.splits)
  note rv = conjunct1 [OF wakeup_zero_loop_rel [OF assms(1) i v]]
  note hv = wakeup_zero_loop_held [OF assms(1) i cz v]
  note valv = wakeup_zero_loop_vals [OF assms(1) i cz v]
  note vok = work_rel_ok [OF rv] and czv = const_zero_rel [OF rv cz]
  obtain u x where u: "wake_const_ops None v = (u, x)" by (metis surj_pair)
  have ru: "work_rel v u" using wake_const_ops_rel [OF vok _ u] by auto
  have valu: "map semval (sems (sw_sma u)) = map semval (sems (sw_sma v))"
    by (rule wake_const_ops_vals [OF vok _ czv u]) simp
  have w': "w' = (if got then u else v)" using assms(5) v u by (auto simp: do_smart_wakeup_zero_def)
  have rw: "work_rel w w'" using rv work_rel_trans [OF rv ru] w' by simp
  have valw: "map semval (sems (sw_sma w')) = map semval (sems (sw_sma w))" using valu valv w' by simp
  show ?thesis
    unfolding const_quiet_def
  proof
    fix t assume t: "t \<in> set (const_waiters (sw_sma w'))"
    have tc: "t \<in> set (const_waiters (sw_sma w))"
      using lists_le_const_waiters [OF work_rel_lists [OF rw]] t by auto
    note eq = held_rel [OF rw assms(1) const_waiters_in [OF tc] valw]
    show "const_held w' t"
    proof (cases "const_held w t")
      case True
      with eq show ?thesis by simp
    next
      case False
      then obtain sop where sop: "sop \<in> set (sops_of (sw_stacks w) t)" "sem_num sop \<in> set ?is"
        "semval (sems (sw_sma w) ! sem_num sop) = 0"
        using assms(4) tc S unfolding const_pre_def touches_def const_held_def by auto
      have g: got using hv sop(2,3) by blast
      have wu: "w' = u" using w' g by simp
      from t show ?thesis
      proof (cases rule: const_waitersE)
        case 1
        have "t \<in> set (pending_const (sw_sma v))"
          using work_rel_lists [OF ru] 1 wu by (auto simp: lists_le_def)
        moreover have "t \<in> set (waiters (sw_sma u))" using const_waiters_in t wu by simp
        ultimately show ?thesis unfolding wu
          using wake_const_ops_held [OF vok _ czv u, of t] by simp
      next
        case (2 j)
        have j: "j < sem_nsems (sw_sma v)" using 2(1) wu work_rel_nsems [OF ru] by simp
        have tv: "t \<in> set (sem_const (sems (sw_sma v) ! j))"
          using lists_le_nth(2) [OF work_rel_lists [OF ru] j] 2(2) wu by auto
        have "t \<in> set (sem_const (sems (sw_sma w) ! j))"
          using lists_le_nth(2) [OF work_rel_lists [OF rv], of j] tv j work_rel_nsems [OF rv] by auto
        then obtain p where "sops_of (sw_stacks w) t = [p]" "sem_num p = j"
          using assms(3) j work_rel_nsems [OF rv] unfolding queues_typed_def by metis
        then have "j \<in> set ?is \<and> semval (sems (sw_sma w) ! j) = 0" using sop by simp
        then have "const_held v t" using hv tv by blast
        moreover have "t \<in> set (waiters (sw_sma v))"
          using const_sublists(4) [OF j] tv by (auto simp: waiters_def)
        ultimately show ?thesis unfolding wu using held_rel [OF ru vok _ valu] by blast
      qed
    qed
  qed
qed

section \<open>Passes over the alter queues keep the waiters for zero settled\<close>

text \<open>An operation that was performed touches only its own semaphores.\<close>

lemma const_pre_done:
  assumes "work_ok w" "const_quiet w" "try_sleeper t w = (v, SemDone)" "t \<in> set (waiters (sw_sma w))"
  shows "const_pre (sem_num ` set (sops_of (sw_stacks w) t)) v"
  unfolding const_pre_def
proof
  fix u assume "u \<in> set (const_waiters (sw_sma v))"
  note r = try_sleeper_rel [OF assms(3,1,4)]
  have uw: "u \<in> set (const_waiters (sw_sma w))" using \<open>u \<in> _\<close> r(4) by simp
  have su: "sops_of (sw_stacks v) u = sops_of (sw_stacks w) u" by (rule work_rel_sops [OF r(1)])
  obtain sop where sop: "sop \<in> set (sops_of (sw_stacks w) u)" "semval (sems (sw_sma w) ! sem_num sop) \<noteq> 0"
    using assms(2) uw unfolding const_quiet_def const_held_def by blast
  have n: "sem_num sop < sem_nsems (sw_sma w)"
    using sops_of_in [OF assms(1) const_waiters_in [OF uw]] sop(1) by (simp add: nums_in_def)
  show "const_held v u \<or> touches (sem_num ` set (sops_of (sw_stacks w) t)) v u"
  proof (cases "sem_num sop \<in> sem_num ` set (sops_of (sw_stacks w) t)")
    case True
    then show ?thesis using sop(1) unfolding touches_def su by blast
  next
    case False
    then have "sops_delta (sops_of (sw_stacks w) t) (sem_num sop) = 0"
      by (simp add: sops_delta_def filter_empty_conv image_iff) (metis (mono_tags, lifting) filter_False list.simps(8) sum_list.Nil)
    then have "semval (sems (sw_sma v) ! sem_num sop) \<noteq> 0"
      using try_sleeper_vals [OF assms(3,1,4) n] sop(2) by simp
    then show ?thesis using sop(1) unfolding const_held_def su by blast
  qed
qed

lemma complete_quiet:
  assumes "work_ok w" "queues_typed w" "const_quiet w" "try_sleeper t w = (v, SemDone)" "t \<in> set (waiters (sw_sma w))"
    and "t \<in> set (alter_waiters (sw_sma w))"
  shows "const_quiet (complete t v)"
proof -
  note r = try_sleeper_rel [OF assms(4,1,5)]
  note vok = work_rel_ok [OF r(1)] and tyd = typed_rel [OF r(1) assms(2)]
  have tv: "t \<in> set (waiters (sw_sma v))" using assms(5) r(2) by simp
  let ?s = "Some (sops_of (sw_stacks v) t)" and ?u = "sw_unlink t v"
  have uok: "work_ok ?u" by (rule unlink_ok [OF vok tv])
  have ut: "queues_typed ?u"
  proof (rule typed_cong [OF tyd])
    show "lists_le (sw_sma v) (sw_sma (sw_unlink t v))" by (simp add: unlink_lists)
  qed simp
  have in_u: "sops_in ?s ?u" using sops_of_in [OF vok tv] by (simp add: sops_in_def)
  have pre: "const_pre (zero_scope ?s ?u) ?u"
  proof -
    have "zero_scope ?s ?u = sem_num ` set (sops_of (sw_stacks w) t)"
      by (simp add: zero_scope_def work_rel_sops [OF r(1)])
    moreover have "const_held ?u x = const_held v x" if "x \<in> set (waiters (sw_sma v))" for x
      by (rule const_held_cong [OF vok that]) simp_all
    moreover have "touches S ?u x = touches S v x" for S x by (simp add: touches_def)
    ultimately show ?thesis
      using const_pre_done [OF assms(1,3,4,5)] unfolding const_pre_def
      by (auto simp: const_waiters_in)
  qed
  obtain y c where y: "do_smart_wakeup_zero ?s ?u = (y, c)" by (metis surj_pair)
  note q = do_smart_wakeup_zero_quiet [OF uok in_u ut pre y]
  have f: "sw_sma (complete t v) = sw_sma y"
    "sops_of (sw_stacks (complete t v)) x = sops_of (sw_stacks y) x" for x
    unfolding complete_def y fst_conv
    by (auto simp: wake_up_sem_queue_prepare_def sops_of_def split: option.splits)
  show ?thesis using q unfolding const_quiet_def const_held_def f .
qed

lemma quiet_same:
  assumes "work_ok w" "const_quiet w" "work_rel w v" "map semval (sems (sw_sma v)) = map semval (sems (sw_sma w))"
  shows "const_quiet v"
  unfolding const_quiet_def
proof
  fix t assume "t \<in> set (const_waiters (sw_sma v))"
  then have t: "t \<in> set (const_waiters (sw_sma w))"
    using lists_le_const_waiters [OF work_rel_lists [OF assms(3)]] by auto
  show "const_held v t"
    using held_rel [OF assms(3,1) const_waiters_in [OF t] assms(4)] assms(2) t by (simp add: const_quiet_def)
qed

text \<open>What the passes keep: the waiters for zero, and the value of every semaphore but one.\<close>

definition only_changes :: "nat option \<Rightarrow> sem_work \<Rightarrow> sem_work \<Rightarrow> bool" where
  "only_changes semnum w v \<longleftrightarrow>
     (\<forall>i. semnum = Some i \<longrightarrow>
        (\<forall>j < sem_nsems (sw_sma w). j \<noteq> i \<longrightarrow> semval (sems (sw_sma v) ! j) = semval (sems (sw_sma w) ! j)))"

lemma only_changes_trans:
  "\<lbrakk>only_changes n u v; only_changes n v w; sem_nsems (sw_sma v) = sem_nsems (sw_sma u)\<rbrakk> \<Longrightarrow> only_changes n u w"
  unfolding only_changes_def by metis

lemma only_changes_same:
  "map semval (sems (sw_sma v)) = map semval (sems (sw_sma w)) \<Longrightarrow> only_changes n w v"
  unfolding only_changes_def by (metis length_map nth_map)

lemma only_changes_done:
  assumes "work_ok w" "queues_typed w" "num_in semnum w" "t \<in> set (pending_list semnum w)"
    and "try_sleeper t w = (v, SemDone)"
  shows "only_changes semnum w (complete t v)"
  unfolding only_changes_def
proof (intro allI impI)
  fix i j assume i: "semnum = Some i" and j: "j < sem_nsems (sw_sma w)" "j \<noteq> i"
  have tw: "t \<in> set (waiters (sw_sma w))" by (rule pending_in_waiters [OF assms(1,3,4)])
  note r = try_sleeper_rel [OF assms(5,1) tw]
  have "i < sem_nsems (sw_sma w)" using assms(3) i by (simp add: num_in_def)
  then obtain sop where sop: "sops_of (sw_stacks w) t = [sop]" "sem_num sop = i"
    using assms(2,4) i unfolding queues_typed_def by (auto simp: pending_list_def)
  have tv: "t \<in> set (waiters (sw_sma v))" using tw r(2) by simp
  have "map semval (sems (sw_sma (complete t v))) = map semval (sems (sw_sma v))"
    by (rule complete_vals [OF work_rel_ok [OF r(1)] tv typed_const [OF typed_rel [OF r(1) assms(2)]]])
  then have "semval (sems (sw_sma (complete t v)) ! j) = semval (sems (sw_sma v) ! j)"
    using j(1) work_rel_nsems [OF r(1)] by (metis length_map nth_map)
  also have "\<dots> = semval (sems (sw_sma w) ! j)"
    using try_sleeper_vals [OF assms(5,1) tw j(1)] sop j(2) by (simp add: sops_delta_def)
  finally show "semval (sems (sw_sma (complete t v)) ! j) = semval (sems (sw_sma w) ! j)" .
qed

lemma update_scan_quiet:
  assumes "work_ok w" "num_in semnum w" "queues_typed w" "const_quiet w" "distinct ts"
    and "set ts \<subseteq> set (pending_list semnum w)" "update_scan semnum ts w fin = (w', c, again)"
  shows "const_quiet w' \<and> only_changes semnum w w'"
  using assms
proof (induction ts arbitrary: w fin)
  case Nil
  then show ?case by (simp add: only_changes_same)
next
  case (Cons t ts)
  let ?z = "case semnum of None \<Rightarrow> False | Some i \<Rightarrow> semval (sems (sw_sma w) ! i) = 0"
  have tp: "t \<in> set (pending_list semnum w)" using Cons.prems(6) by simp
  have tw: "t \<in> set (waiters (sw_sma w))" by (rule pending_in_waiters [OF Cons.prems(1,2) tp])
  show ?case
  proof (cases ?z)
    case True
    then show ?thesis using Cons.prems update_scan_zero [OF True] by (simp add: only_changes_same)
  next
    case False
    obtain v r where tr: "try_sleeper t w = (v, r)" by (metis surj_pair)
    note v = try_sleeper_rel [OF tr Cons.prems(1) tw]
    note vok = work_rel_ok [OF v(1)]
    have vn: "num_in semnum v" using num_in_rel [OF v(1)] Cons.prems(2) by simp
    have pv: "pending_list semnum v = pending_list semnum w"
      using v(5) vn Cons.prems(2) by (simp add: pending_list_pick)
    have tv: "t \<in> set (waiters (sw_sma v))" using tw v(2) by simp
    have ta: "t \<in> set (alter_waiters (sw_sma w))" using pending_list_sub(2) [OF Cons.prems(1,2)] tp by auto
    have cont: ?thesis
      if rel: "work_rel w u" and sub: "set ts \<subseteq> set (pending_list semnum u)" and q: "const_quiet u"
        and oc: "only_changes semnum w u" and run: "update_scan semnum ts u f = (w', c, again)" for u f
    proof -
      have "const_quiet w' \<and> only_changes semnum u w'"
        using Cons.prems(5)
        by (intro Cons.IH [OF work_rel_ok [OF rel] _ typed_rel [OF rel Cons.prems(3)] q _ sub run])
          (simp_all add: num_in_rel [OF rel] Cons.prems(2))
      then show ?thesis using only_changes_trans [OF oc _ work_rel_nsems [OF rel]] by blast
    qed
    show ?thesis
    proof (cases r)
      case SemSleep
      have vals: "map semval (sems (sw_sma v)) = map semval (sems (sw_sma w))"
        using try_sleeper_pure(1) [OF tr Cons.prems(1) tw] SemSleep by simp
      show ?thesis
        by (rule cont [OF v(1) _ quiet_same [OF Cons.prems(1,4) v(1) vals] only_changes_same [OF vals]])
          (use Cons.prems(6,7) update_scan_step [OF False tr] SemSleep pv in simp_all)
    next
      case (SemErr e)
      then have e: "Some e \<noteq> Some EINTR" using try_sleeper_step [OF tr Cons.prems(1) tw] by (metis option.inject)
      note rel = work_rel_trans [OF v(1) finish_rel [OF vok tv e]]
      have vals: "map semval (sems (sw_sma (finish t (Some e) v))) = map semval (sems (sw_sma w))"
        using try_sleeper_pure(1) [OF tr Cons.prems(1) tw] SemErr by simp
      show ?thesis
        by (rule cont [OF rel _ quiet_same [OF Cons.prems(1,4) rel vals] only_changes_same [OF vals]])
          (use Cons.prems(5,6,7) update_scan_step [OF False tr] SemErr pending_finish [OF vok vn tv e] pv in auto)
    next
      case SemDone
      note rel = work_rel_trans [OF v(1) complete_rel(1) [OF vok tv]]
      have tr': "try_sleeper t w = (v, SemDone)" using tr SemDone by simp
      note q = complete_quiet [OF Cons.prems(1,3,4) tr' tw ta]
      note oc = only_changes_done [OF Cons.prems(1,3,2) tp tr']
      show ?thesis
      proof (cases "check_restart (sw_sma (complete t v)) (sops_of (sw_stacks v) t)")
        case True
        then show ?thesis using Cons.prems(7) update_scan_step [OF False tr] SemDone q oc by simp
      next
        case nr: False
        show ?thesis
          by (rule cont [OF rel _ q oc])
            (use Cons.prems(5,6,7) update_scan_step [OF False tr] SemDone nr pending_complete [OF vok vn tv] pv in auto)
      qed
    qed
  qed
qed

lemma update_loop_quiet:
  assumes "work_ok w" "num_in semnum w" "queues_typed w" "const_quiet w"
    and "update_loop n semnum w fin = Some (w', c)"
  shows "const_quiet w' \<and> only_changes semnum w w'"
  using assms
proof (induction n arbitrary: w fin)
  case (Suc n)
  obtain v d again where v: "update_scan semnum (pending_list semnum w) w fin = (v, d, again)"
    by (metis prod_cases3)
  note pl = pending_list_sub(1) [OF Suc.prems(1,2)]
  have r: "work_rel w v" using update_scan_rel [OF Suc.prems(1,2) pl subset_refl v] by blast
  have q: "const_quiet v \<and> only_changes semnum w v"
    by (rule update_scan_quiet [OF Suc.prems(1-4) pl subset_refl v])
  show ?case
  proof (cases again)
    case True
    have "const_quiet w' \<and> only_changes semnum v w'"
      by (rule Suc.IH [OF work_rel_ok [OF r] _ typed_rel [OF r Suc.prems(3)]])
        (use q v True Suc.prems(2,5) num_in_rel [OF r] in simp_all)
    then show ?thesis using q only_changes_trans [OF _ _ work_rel_nsems [OF r]] by blast
  next
    case False
    with v Suc.prems(5) q show ?thesis by simp
  qed
qed simp

lemma update_queue_quiet:
  assumes "work_ok w" "num_in semnum w" "queues_typed w" "const_quiet w" "update_queue semnum w = (w', c)"
  shows "const_quiet w' \<and> only_changes semnum w w'"
proof -
  from update_loop_rel [OF assms(1,2) lessI, of False] assms(5)
  have "update_loop (Suc (length (pending_list semnum w))) semnum w False = Some (w', c)"
    by (auto simp: update_queue_def)
  then show ?thesis by (rule update_loop_quiet [OF assms(1-4)])
qed

section \<open>Settling everything\<close>

definition dec_settled :: "sem_work \<Rightarrow> nat \<Rightarrow> bool" where
  "dec_settled w i \<longleftrightarrow> (\<forall>t \<in> set (sem_alter (sems (sw_sma w) ! i)). blocked w t)"

definition all_settled :: "sem_work \<Rightarrow> bool" where
  "all_settled w \<longleftrightarrow> const_quiet w \<and> (\<forall>i < sem_nsems (sw_sma w). dec_settled w i)
     \<and> (\<forall>t \<in> set (pending_alter (sw_sma w)). blocked w t)"

lemma alter_in_waiters:
  "i < sem_nsems a \<Longrightarrow> t \<in> set (sem_alter (sems a ! i)) \<Longrightarrow> t \<in> set (waiters a)"
  using alter_sublists(4) [of i a] by (auto simp: waiters_def)

lemma pending_alter_in_waiters: "t \<in> set (pending_alter a) \<Longrightarrow> t \<in> set (waiters a)"
  by (simp add: waiters_def alter_waiters_def)

text \<open>A queue of decrements stays settled when its semaphore does not grow.\<close>

lemma dec_settled_mono:
  assumes "work_ok w" "work_ok v" "queues_typed w" "i < sem_nsems (sw_sma w)" "dec_settled w i"
    and "set (sem_alter (sems (sw_sma v) ! i)) \<subseteq> set (sem_alter (sems (sw_sma w) ! i))"
    and "sem_nsems (sw_sma v) = sem_nsems (sw_sma w)"
    and "semval (sems (sw_sma v) ! i) \<le> semval (sems (sw_sma w) ! i)"
    and "\<And>t. t \<in> set (sem_alter (sems (sw_sma w) ! i)) \<Longrightarrow> sops_of (sw_stacks v) t = sops_of (sw_stacks w) t"
  shows "dec_settled v i"
  unfolding dec_settled_def
proof
  fix t assume t: "t \<in> set (sem_alter (sems (sw_sma v) ! i))"
  then have tw: "t \<in> set (sem_alter (sems (sw_sma w) ! i))" using assms(6) by auto
  then obtain sop where sop: "sops_of (sw_stacks w) t = [sop]" "sem_num sop = i" "sem_op sop < 0"
    "sem_flg sop AND IPC_NOWAIT = 0"
    using assms(3,4) unfolding queues_typed_def may_wait_def by metis
  have "blocked w t" using assms(5) tw unfolding dec_settled_def by blast
  then show "blocked v t"
    using blocked_single [OF assms(1) alter_in_waiters [OF assms(4) tw] sop(1,3,4)]
      blocked_single [OF assms(2) alter_in_waiters [OF _ t] _ sop(3,4)] assms(4,7,8) assms(9) [OF tw] sop by simp
qed

lemma dec_settled_rel:
  assumes "work_rel w v" "work_ok w" "queues_typed w" "i < sem_nsems (sw_sma w)" "dec_settled w i"
    and "semval (sems (sw_sma v) ! i) \<le> semval (sems (sw_sma w) ! i)"
  shows "dec_settled v i"
  using dec_settled_mono [OF assms(2) work_rel_ok [OF assms(1)] assms(3-5) lists_le_nth(1) [OF work_rel_lists [OF assms(1)] assms(4)]
      work_rel_nsems [OF assms(1)] assms(6) work_rel_sops [OF assms(1)]] .

lemma update_each_settles:
  assumes "work_ok w" "\<forall>i \<in> set is. i < sem_nsems (sw_sma w)" "queues_typed w" "const_quiet w"
    and "\<And>i. i < sem_nsems (sw_sma w) \<Longrightarrow> i \<notin> set is \<Longrightarrow> dec_settled w i"
    and "update_each is w fin = (w', c)"
  shows "const_quiet w' \<and> (\<forall>i < sem_nsems (sw_sma w'). dec_settled w' i)"
  using assms
proof (induction "is" arbitrary: w fin)
  case Nil
  then show ?case by simp
next
  case (Cons i "is")
  have i: "i < sem_nsems (sw_sma w)" using Cons.prems(2) by simp
  have ni: "num_in (Some i) w" using i by (simp add: num_in_def)
  have pre: "scan_pre (Some i) w"
    using ni typed_alter [OF Cons.prems(3) i] typed_const [OF Cons.prems(3)] by (simp add: scan_pre_def)
  obtain v d where v: "update_queue (Some i) w = (v, d)" by (metis surj_pair)
  note r = update_queue_rel [OF Cons.prems(1) ni v]
  note q = update_queue_quiet [OF Cons.prems(1) ni Cons.prems(3,4) v]
  have si: "dec_settled v i"
    using update_queue_settled [OF Cons.prems(1) pre v] by (simp add: dec_settled_def pending_list_def)
  have sj: "dec_settled v j" if j: "j < sem_nsems (sw_sma v)" "j \<notin> set is" for j
  proof (cases "j = i")
    case True
    with si show ?thesis by simp
  next
    case False
    have jw: "j < sem_nsems (sw_sma w)" using j(1) work_rel_nsems [OF r] by simp
    have "semval (sems (sw_sma v) ! j) = semval (sems (sw_sma w) ! j)"
      using q jw False unfolding only_changes_def by blast
    then show ?thesis
      using Cons.prems(5) [OF jw] False j(2) by (intro dec_settled_rel [OF r Cons.prems(1,3) jw]) simp_all
  qed
  show ?case
  proof (rule Cons.IH [OF work_rel_ok [OF r] _ typed_rel [OF r Cons.prems(3)] _ sj])
    show "\<forall>i \<in> set is. i < sem_nsems (sw_sma v)" using Cons.prems(2) work_rel_nsems [OF r] by simp
    show "const_quiet v" using q by blast
    show "update_each is v (fin \<or> d) = (w', c)" using Cons.prems(6) v by simp
  qed
qed

lemma set_semotime_settled:
  assumes "work_ok w" "all_settled w" "queues_typed w"
  shows "all_settled (set_semotime now sops w)"
proof -
  let ?v = "set_semotime now sops w"
  note r = set_semotime_rel [OF assms(1), of now sops]
  have vals: "map semval (sems (sw_sma ?v)) = map semval (sems (sw_sma w))"
    by (simp add: set_semotime_def Let_def map_upd_sem)
  have f: "sw_undos ?v = sw_undos w" "sw_stacks ?v = sw_stacks w"
    "pending_alter (sw_sma ?v) = pending_alter (sw_sma w)"
    by (simp_all add: set_semotime_def Let_def)
  have bl: "blocked ?v t = blocked w t" if "t \<in> set (waiters (sw_sma w))" "t \<in> set (waiters (sw_sma ?v))" for t
    by (rule blocked_cong [OF assms(1) work_rel_ok [OF r] that vals]) (simp_all add: f st_base_def)
  have "dec_settled ?v i" if i: "i < sem_nsems (sw_sma ?v)" for i
  proof -
    have iw: "i < sem_nsems (sw_sma w)" using i work_rel_nsems [OF r] by simp
    have "semval (sems (sw_sma ?v) ! i) = semval (sems (sw_sma w) ! i)"
      using arg_cong [OF vals, of "\<lambda>l. l ! i"] i iw by simp
    then show ?thesis
      using assms(2) iw unfolding all_settled_def by (intro dec_settled_rel [OF r assms(1,3) iw]) simp_all
  qed
  moreover have "const_quiet ?v"
    using assms(2) quiet_same [OF assms(1) _ r vals] unfolding all_settled_def by blast
  ultimately show ?thesis
    using assms(2) bl pending_alter_in_waiters f(3) unfolding all_settled_def by (metis (no_types, lifting))
qed

text \<open>The semaphores whose queues are looked after when the array has no queue of its own.\<close>

definition up_scope :: "sembuf list option \<Rightarrow> sem_work \<Rightarrow> nat set" where
  "up_scope sops w =
     set (case sops of None \<Rightarrow> [0..<sem_nsems (sw_sma w)] | Some l \<Rightarrow> map sem_num (filter (\<lambda>sop. sem_op sop > 0) l))"

text \<open>In complex mode the queues of the single semaphores are empty.\<close>

definition one_mode :: "sem_work \<Rightarrow> bool" where
  "one_mode w \<longleftrightarrow> (pending_alter (sw_sma w) \<noteq> [] \<longrightarrow> (\<forall>s \<in> set (sems (sw_sma w)). sem_alter s = []))"

lemma one_mode_nth: "one_mode w \<Longrightarrow> pending_alter (sw_sma w) \<noteq> [] \<Longrightarrow> i < sem_nsems (sw_sma w)
    \<Longrightarrow> sem_alter (sems (sw_sma w) ! i) = []"
  by (simp add: one_mode_def)

lemma do_smart_update_settles:
  assumes "work_ok w" "sops_in sops w" "queues_typed w" "one_mode w" "const_pre (zero_scope sops w) w"
    and "\<And>i. pending_alter (sw_sma w) = [] \<Longrightarrow> i < sem_nsems (sw_sma w) \<Longrightarrow> i \<notin> up_scope sops w \<Longrightarrow> dec_settled w i"
  shows "all_settled (do_smart_update now sops otime w)"
proof -
  obtain v c where v: "do_smart_wakeup_zero sops w = (v, c)" by (metis surj_pair)
  have rz: "work_rel w v \<and> alter_lists (sw_sma v) = alter_lists (sw_sma w)"
    by (rule do_smart_wakeup_zero_rel [OF assms(1,2) v])
  note rv = conjunct1 [OF rz]
  note vok = work_rel_ok [OF rv] and tyd = typed_rel [OF rv assms(3)]
  note qv = do_smart_wakeup_zero_quiet [OF assms(1,2,3,5) v]
  have n: "sem_nsems (sw_sma v) = sem_nsems (sw_sma w)" by (rule work_rel_nsems [OF rv])
  have vals: "map semval (sems (sw_sma v)) = map semval (sems (sw_sma w))"
    using do_smart_wakeup_zero_vals [OF assms(1,2) typed_const [OF assms(3)]] v by simp
  have pa: "pending_alter (sw_sma v) = pending_alter (sw_sma w)"
    and al: "map sem_alter (sems (sw_sma v)) = map sem_alter (sems (sw_sma w))"
    using rz by (simp_all add: alter_lists_def)
  let ?l = "case sops of None \<Rightarrow> [0..<sem_nsems (sw_sma v)] | Some l \<Rightarrow> map sem_num (filter (\<lambda>sop. sem_op sop > 0) l)"
  let ?step = "if pending_alter (sw_sma v) \<noteq> []
      then (case update_queue None v of (w, d) \<Rightarrow> (w, (otime \<or> c) \<or> d))
      else (case sops of
              None \<Rightarrow> update_each [0..<sem_nsems (sw_sma v)] v (otime \<or> c)
            | Some l \<Rightarrow> update_each (map sem_num (filter (\<lambda>sop. sem_op sop > 0) l)) v (otime \<or> c))"
  obtain u d where u: "?step = (u, d)" by (metis surj_pair)
  have main: "work_rel v u \<and> all_settled u"
  proof (cases "pending_alter (sw_sma v) = []")
    case False
    obtain x y where x: "update_queue None v = (x, y)" by (metis surj_pair)
    with False u have ux: "u = x" by simp
    have nn: "num_in None v" by (simp add: num_in_def)
    note r = update_queue_rel [OF vok nn x]
    have "const_quiet x" using update_queue_quiet [OF vok nn tyd qv x] by blast
    moreover have "\<forall>t \<in> set (pending_alter (sw_sma x)). blocked x t"
      using update_queue_settled [OF vok _ x] by (simp add: scan_pre_def nn pending_list_def)
    moreover have "dec_settled x i" if i: "i < sem_nsems (sw_sma x)" for i
    proof -
      have iw: "i < sem_nsems (sw_sma w)" using i work_rel_nsems [OF r] n by simp
      have "sem_alter (sems (sw_sma v) ! i) = sem_alter (sems (sw_sma w) ! i)"
        using arg_cong [OF al, of "\<lambda>l. l ! i"] iw n by simp
      moreover have "sem_alter (sems (sw_sma w) ! i) = []"
        using one_mode_nth [OF assms(4) _ iw] False pa by simp
      ultimately show ?thesis
        using lists_le_nth(1) [OF work_rel_lists [OF r], of i] iw n by (simp add: dec_settled_def)
    qed
    ultimately show ?thesis using r unfolding ux all_settled_def by blast
  next
    case True
    have run: "update_each ?l v (otime \<or> c) = (u, d)" using True u by (cases sops) simp_all
    have l: "\<forall>i \<in> set ?l. i < sem_nsems (sw_sma v)"
      using assms(2) n by (auto simp: sops_in_def nums_in_def split: option.splits)
    have ds: "dec_settled v i" if i: "i < sem_nsems (sw_sma v)" "i \<notin> set ?l" for i
    proof -
      have iw: "i < sem_nsems (sw_sma w)" using i n by simp
      have "i \<notin> up_scope sops w" using i(2) n by (cases sops) (simp_all add: up_scope_def)
      then have "dec_settled w i" using assms(6) True pa iw by simp
      moreover have "semval (sems (sw_sma v) ! i) = semval (sems (sw_sma w) ! i)"
        using arg_cong [OF vals, of "\<lambda>l. l ! i"] iw n by simp
      ultimately show ?thesis by (intro dec_settled_rel [OF rv assms(1,3) iw]) simp_all
    qed
    have "const_quiet u \<and> (\<forall>i < sem_nsems (sw_sma u). dec_settled u i)"
      by (rule update_each_settles [OF vok l tyd qv ds run])
    moreover have r: "work_rel v u" by (rule update_each_rel [OF vok l run])
    moreover have "pending_alter (sw_sma u) = []"
      using work_rel_lists [OF r] True by (simp add: lists_le_def)
    ultimately show ?thesis unfolding all_settled_def by simp
  qed
  have "do_smart_update now sops otime w = (if d then set_semotime now sops u else u)"
    unfolding do_smart_update_def v prod.case Let_def u ..
  moreover have "all_settled (set_semotime now sops u)"
    using main set_semotime_settled [OF work_rel_ok _ typed_rel [OF _ tyd]] by blast
  ultimately show ?thesis using main by simp
qed

end
