(* ===== verification/SemOrder.thy ===== *)
theory SemOrder
  imports SemSettle
begin

text \<open>
  An array in order under its lock: the switch between the queues of the semaphores and the
  queue of the array, taking and dropping the lock, and a change followed by a full pass.
\<close>

section \<open>Queues that move\<close>

text \<open>Two views of an array with the same operations waiting, possibly on other queues.\<close>

lemma work_ok_mset:
  assumes "work_ok w" "mset (waiters (sw_sma v)) = mset (waiters (sw_sma w))"
    and "map semval (sems (sw_sma v)) = map semval (sems (sw_sma w))" "sw_undos v = sw_undos w"
    and "sw_stacks v = sw_stacks w" "complex_count (sw_sma v) = complex_count (sw_sma w)"
  shows "work_ok v"
proof (rule work_okI)
  have n: "sem_nsems (sw_sma v) = sem_nsems (sw_sma w)" using arg_cong [OF assms(3), of length] by simp
  show "vals_ok (sems (sw_sma v))" using assms(1,3) unfolding work_ok_def vals_ok_iff by simp
  show "undos_ok (sw_undos v)" using assms(1,4) unfolding work_ok_def by simp
  show "distinct (waiters (sw_sma v))"
    using assms(1) mset_eq_imp_distinct_iff [OF assms(2)] unfolding work_ok_def by simp
  show "\<exists>q. sw_stacks v t = Some q \<and> sop_queue_ok (sem_nsems (sw_sma v)) q"
    if "t \<in> set (waiters (sw_sma v))" for t
    using assms(1,5) that mset_eq_setD [OF assms(2)] n unfolding work_ok_def by simp
  have "mset (filter (is_complex (sw_stacks v)) (waiters (sw_sma v))) = mset (filter (is_complex (sw_stacks w)) (waiters (sw_sma w)))"
    using assms(2,5) by simp
  then have "length (filter (is_complex (sw_stacks v)) (waiters (sw_sma v))) = length (filter (is_complex (sw_stacks w)) (waiters (sw_sma w)))"
    by (rule mset_eq_length)
  then show "complex_count (sw_sma v) = int (length (filter (is_complex (sw_stacks v)) (waiters (sw_sma v))))"
    using assms(1,6) unfolding work_ok_def by simp
qed

lemma blocked_same:
  assumes "work_ok w" "work_ok v" "t \<in> set (waiters (sw_sma w))" "t \<in> set (waiters (sw_sma v))"
    and "map semval (sems (sw_sma v)) = map semval (sems (sw_sma w))" "sw_undos v = sw_undos w"
    and "sw_stacks v t = sw_stacks w t"
  shows "blocked v t = blocked w t"
  by (rule blocked_cong [OF assms(1-6)]) (simp add: st_base_def assms(7))

text \<open>Only the lock mode, or other fields the engine does not read, differ.\<close>

definition same_view :: "sem_work \<Rightarrow> sem_work \<Rightarrow> bool" where
  "same_view w v \<longleftrightarrow>
     sems (sw_sma v) = sems (sw_sma w) \<and> pending_alter (sw_sma v) = pending_alter (sw_sma w)
     \<and> pending_const (sw_sma v) = pending_const (sw_sma w) \<and> complex_count (sw_sma v) = complex_count (sw_sma w)
     \<and> sw_undos v = sw_undos w \<and> sw_stacks v = sw_stacks w"

definition in_order :: "sem_work \<Rightarrow> bool" where
  "in_order w \<longleftrightarrow> work_ok w \<and> queues_typed w \<and> all_settled w"

lemma same_view_waiters: "same_view w v \<Longrightarrow> waiters (sw_sma v) = waiters (sw_sma w)
    \<and> const_waiters (sw_sma v) = const_waiters (sw_sma w)"
  by (simp add: same_view_def waiters_def alter_waiters_def const_waiters_def)

lemma same_view_ok: "\<lbrakk>same_view w v; work_ok w\<rbrakk> \<Longrightarrow> work_ok v"
  using same_view_waiters [of w v] by (intro work_ok_mset [of w v]) (simp_all add: same_view_def)

lemma same_view_order:
  assumes "same_view w v" "in_order w"
  shows "in_order v"
proof -
  have ok: "work_ok w" and ty: "queues_typed w" and se: "all_settled w"
    using assms(2) by (simp_all add: in_order_def)
  note W = same_view_waiters [OF assms(1)]
  have vok: "work_ok v" by (rule same_view_ok [OF assms(1) ok])
  have bl: "blocked v t = blocked w t" if "t \<in> set (waiters (sw_sma w))" for t
    using assms(1) that W by (intro blocked_same [OF ok vok]) (simp_all add: same_view_def)
  have "queues_typed v" using ty assms(1) unfolding queues_typed_def same_view_def by simp
  moreover have "all_settled v"
    using se assms(1) bl alter_in_waiters pending_alter_in_waiters W
    unfolding all_settled_def const_quiet_def const_held_def dec_settled_def same_view_def by simp
  ultimately show ?thesis using vok by (simp add: in_order_def)
qed

section \<open>Merging and unmerging\<close>

definition dest :: "stacks \<Rightarrow> nat \<Rightarrow> nat" where
  "dest st t = sem_num (hd (sops_of st t))"

lemma unmerge_loop_nth:
  assumes "\<forall>t \<in> set ts. (\<exists>q. st t = Some q) \<and> dest st t < length ss"
  shows "length (unmerge_loop st ts ss) = length ss \<and> (\<forall>i < length ss.
    unmerge_loop st ts ss ! i = (ss ! i)\<lparr>sem_alter := sem_alter (ss ! i) @ filter (\<lambda>t. dest st t = i) ts\<rparr>)"
  using assms
proof (induction ts arbitrary: ss)
  case (Cons t ts)
  obtain q where q: "st t = Some q" using Cons.prems by auto
  have d: "sem_num (hd (q_sops q)) = dest st t" using q by (simp add: dest_def sops_of_def)
  let ?ss = "upd_sem (dest st t) (\<lambda>s. s\<lparr>sem_alter := sem_alter s @ [t]\<rparr>) ss"
  have "length (unmerge_loop st ts ?ss) = length ?ss \<and> (\<forall>i < length ?ss.
    unmerge_loop st ts ?ss ! i = (?ss ! i)\<lparr>sem_alter := sem_alter (?ss ! i) @ filter (\<lambda>t. dest st t = i) ts\<rparr>)"
    using Cons.prems by (intro Cons.IH) simp
  then show ?case using q d by (auto simp: nth_upd_sem)
qed simp

lemma mset_append_at:
  "i < length ss \<Longrightarrow> mset (concat (map sem_alter (upd_sem i (\<lambda>s. s\<lparr>sem_alter := sem_alter s @ [t]\<rparr>) ss))) =
    add_mset t (mset (concat (map sem_alter ss)))"
  by (simp add: upd_sem_def upd_conv_take_nth_drop)
    (subst (3) id_take_nth_drop [of i ss], simp, simp add: mset_concat)

lemma unmerge_loop_mset:
  assumes "\<forall>t \<in> set ts. (\<exists>q. st t = Some q) \<and> dest st t < length ss"
  shows "mset (concat (map sem_alter (unmerge_loop st ts ss))) = mset ts + mset (concat (map sem_alter ss))"
  using assms
proof (induction ts arbitrary: ss)
  case (Cons t ts)
  obtain q where q: "st t = Some q" using Cons.prems by auto
  have d: "sem_num (hd (q_sops q)) = dest st t" using q by (simp add: dest_def sops_of_def)
  show ?case
    using Cons.prems q d Cons.IH [of "upd_sem (dest st t) (\<lambda>s. s\<lparr>sem_alter := sem_alter s @ [t]\<rparr>) ss"]
    by (simp add: mset_append_at)
qed simp

lemma merge_loop_eq:
  "merge_loop ss l = (map (\<lambda>s. s\<lparr>sem_alter := []\<rparr>) ss, concat (rev (map sem_alter ss)) @ l)"
  by (induction ss arbitrary: l) simp_all

lemma merge_queues_fields:
  "sems (merge_queues a) = map (\<lambda>s. s\<lparr>sem_alter := []\<rparr>) (sems a)"
  "pending_alter (merge_queues a) = concat (rev (map sem_alter (sems a))) @ pending_alter a"
  "pending_const (merge_queues a) = pending_const a" "complex_count (merge_queues a) = complex_count a"
  "use_global_lock (merge_queues a) = use_global_lock a"
  by (simp_all add: merge_queues_def merge_loop_eq)

lemma mset_concat_rev: "mset (concat (rev xss)) = mset (concat xss)"
  by (induction xss) (simp_all add: ac_simps)

lemma merge_queues_waiters:
  "mset (waiters (merge_queues a)) = mset (waiters a)" "map semval (sems (merge_queues a)) = map semval (sems a)"
  "const_waiters (merge_queues a) = const_waiters a"
proof -
  have "concat (map (sem_alter \<circ> (\<lambda>s. s\<lparr>sem_alter := []\<rparr>)) (sems a)) = []" by simp
  then show "mset (waiters (merge_queues a)) = mset (waiters a)"
    by (simp add: waiters_def alter_waiters_def const_waiters_def merge_queues_fields mset_concat_rev o_def)
  show "map semval (sems (merge_queues a)) = map semval (sems a)"
    "const_waiters (merge_queues a) = const_waiters a"
    by (simp_all add: const_waiters_def merge_queues_fields o_def)
qed

text \<open>Unmerging what was merged gives back every queue in its order.\<close>

lemma filter_dest_concat:
  assumes "\<forall>j < length xss. \<forall>t \<in> set (xss ! j). dest st t = j" "i < length xss"
  shows "filter (\<lambda>t. dest st t = i) (concat (rev xss)) = xss ! i"
  using assms
proof (induction xss arbitrary: i rule: rev_induct)
  case (snoc xs xss)
  have last: "\<forall>t \<in> set xs. dest st t = length xss" using snoc.prems(1) [rule_format, of "length xss"] by simp
  have init: "\<forall>j < length xss. \<forall>t \<in> set (xss ! j). dest st t = j"
    using snoc.prems(1) by (metis length_append_singleton less_SucI nth_append)
  show ?case
  proof (cases "i = length xss")
    case True
    have "dest st t \<noteq> length xss" if "t \<in> set (concat (rev xss))" for t
      using that init by (metis UN_E in_set_conv_nth less_irrefl set_concat set_rev)
    then have "filter (\<lambda>t. dest st t = length xss) (concat (rev xss)) = []"
      by (simp add: filter_empty_conv)
    moreover have "filter (\<lambda>t. dest st t = length xss) xs = xs" using last by (simp add: filter_id_conv)
    ultimately show ?thesis using True by simp
  next
    case False
    then have "filter (\<lambda>t. dest st t = i) xs = []" using last by (simp add: filter_empty_conv)
    moreover have "i < length xss" using False snoc.prems(2) by simp
    ultimately show ?thesis using snoc.IH [OF init] False by (simp add: nth_append)
  qed
qed simp

section \<open>Lock and unlock\<close>

text \<open>The mode of an array nobody has locked.\<close>

definition mode_ok :: "sem_work \<Rightarrow> bool" where
  "mode_ok w \<longleftrightarrow>
     (complex_count (sw_sma w) = 0 \<longrightarrow> pending_alter (sw_sma w) = [])
     \<and> (complex_count (sw_sma w) \<noteq> 0 \<longrightarrow>
          (\<forall>s \<in> set (sems (sw_sma w)). sem_alter s = []) \<and> use_global_lock (sw_sma w) \<noteq> 0)
     \<and> use_global_lock (sw_sma w) \<le> 10"

text \<open>The mode while the lock is held; the global lock excludes the simple mode.\<close>

definition mode_locked :: "int \<Rightarrow> sem_work \<Rightarrow> bool" where
  "mode_locked locknum w \<longleftrightarrow>
     one_mode w
     \<and> (complex_count (sw_sma w) \<noteq> 0 \<longrightarrow>
          (\<forall>s \<in> set (sems (sw_sma w)). sem_alter s = []) \<and> use_global_lock (sw_sma w) \<noteq> 0)
     \<and> (if locknum = SEM_GLOBAL_LOCK then use_global_lock (sw_sma w) \<noteq> 0
        else complex_count (sw_sma w) = 0 \<and> pending_alter (sw_sma w) = [])
     \<and> use_global_lock (sw_sma w) \<le> 10"

definition arr_inv :: "sem_work \<Rightarrow> bool" where
  "arr_inv w \<longleftrightarrow> in_order w \<and> mode_ok w"

lemma sw_lock_view: "same_view w (fst (sw_lock sops w))"
  by (auto simp: same_view_def sw_lock_def sem_lock_def complexmode_enter_def split: option.splits list.splits)

lemma sw_lock_mode:
  assumes "mode_ok w" "sw_lock sops w = (v, locknum)"
  shows "mode_locked locknum v"
proof -
  have view: "same_view w v" using sw_lock_view [of w sops] assms(2) by simp
  have "one_mode v"
    using assms(1) view unfolding one_mode_def mode_ok_def same_view_def by auto
  moreover have "(locknum = SEM_GLOBAL_LOCK \<and> use_global_lock (sw_sma v) \<noteq> 0
      \<or> locknum \<noteq> SEM_GLOBAL_LOCK \<and> use_global_lock (sw_sma w) = 0 \<and> use_global_lock (sw_sma v) = 0)
      \<and> (use_global_lock (sw_sma w) \<noteq> 0 \<longrightarrow> use_global_lock (sw_sma v) \<noteq> 0)
      \<and> use_global_lock (sw_sma v) \<le> 10"
    using assms
    by (auto simp: sw_lock_def sem_lock_def complexmode_enter_def SEM_GLOBAL_LOCK_def
        USE_GLOBAL_LOCK_HYSTERESIS_def mode_ok_def split: option.splits list.splits if_splits)
  ultimately show ?thesis
    using assms(1) view unfolding mode_locked_def mode_ok_def same_view_def by auto
qed

lemma word_dec_le: "x \<le> 10 \<Longrightarrow> x \<noteq> 0 \<Longrightarrow> x - 1 \<le> (10 :: 32 word)"
  by (simp add: word_le_nat_alt unat_minus_one)

lemma tryleave_view: "same_view (w\<lparr>sw_sma := a\<rparr>) (w\<lparr>sw_sma := complexmode_tryleave a\<rparr>)"
  by (simp add: same_view_def complexmode_tryleave_def)

lemma one_mode_rel:
  assumes "work_rel w v" "one_mode w"
  shows "one_mode v"
  unfolding one_mode_def
proof (intro impI ballI)
  fix s assume p: "pending_alter (sw_sma v) \<noteq> []" and "s \<in> set (sems (sw_sma v))"
  then obtain i where i: "i < sem_nsems (sw_sma v)" "s = sems (sw_sma v) ! i" by (auto simp: in_set_conv_nth)
  note l = work_rel_lists [OF assms(1)]
  have iw: "i < sem_nsems (sw_sma w)" using i(1) work_rel_nsems [OF assms(1)] by simp
  have "pending_alter (sw_sma w) \<noteq> []" using l p by (auto simp: lists_le_def)
  then have "sem_alter (sems (sw_sma w) ! i) = []" using one_mode_nth [OF assms(2) _ iw] by simp
  then show "sem_alter s = []" using lists_le_nth(1) [OF l iw] i(2) by simp
qed

lemma mode_locked_rel:
  assumes "work_rel w v" "mode_locked locknum w"
    and "complex_count (sw_sma v) \<noteq> 0 \<Longrightarrow> complex_count (sw_sma w) \<noteq> 0"
  shows "mode_locked locknum v"
proof -
  note l = work_rel_lists [OF assms(1)]
  have g: "use_global_lock (sw_sma v) = use_global_lock (sw_sma w)"
  proof -
    obtain x y z u where "sw_sma v = (sw_sma w)\<lparr>pending_alter := x, pending_const := y, complex_count := z, sems := u\<rparr>"
      using assms(1) unfolding work_rel_def by blast
    then show ?thesis by simp
  qed
  have e: "\<forall>s \<in> set (sems (sw_sma v)). sem_alter s = []"
    if "\<forall>s \<in> set (sems (sw_sma w)). sem_alter s = []"
  proof
    fix s assume "s \<in> set (sems (sw_sma v))"
    then obtain i where i: "i < sem_nsems (sw_sma v)" "s = sems (sw_sma v) ! i" by (auto simp: in_set_conv_nth)
    have iw: "i < sem_nsems (sw_sma w)" using i(1) work_rel_nsems [OF assms(1)] by simp
    show "sem_alter s = []" using lists_le_nth(1) [OF l iw] that iw i(2) by simp
  qed
  have "pending_alter (sw_sma w) = [] \<Longrightarrow> pending_alter (sw_sma v) = []"
    using l by (simp add: lists_le_def)
  moreover have "complex_count (sw_sma w) = 0 \<Longrightarrow> complex_count (sw_sma v) = 0"
    using assms(3) by blast
  ultimately show ?thesis
    using assms(2) assms(3) one_mode_rel [OF assms(1)] g e unfolding mode_locked_def by (auto split: if_splits)
qed

text \<open>The complex count follows from the waiters, so a pass can only lower it.\<close>

lemma complex_count_rel:
  assumes "work_rel w v" "work_ok w" "complex_count (sw_sma v) \<noteq> 0"
  shows "complex_count (sw_sma w) \<noteq> 0"
proof -
  have "complex_count (sw_sma v) = int (length (filter (is_complex (sw_stacks v)) (waiters (sw_sma v))))"
    using work_rel_ok [OF assms(1)] unfolding work_ok_def by blast
  with assms(3) obtain t where t: "t \<in> set (waiters (sw_sma v))" "is_complex (sw_stacks v) t"
    by (auto simp: filter_empty_conv)
  have "t \<in> set (waiters (sw_sma w))" using t(1) assms(1) unfolding work_rel_def by blast
  moreover have "is_complex (sw_stacks w) t"
    using t(2) work_rel_sops [OF assms(1), of t] by (simp add: is_complex_def)
  ultimately have "filter (is_complex (sw_stacks w)) (waiters (sw_sma w)) \<noteq> []"
    by (auto simp: filter_empty_conv)
  then show ?thesis using assms(2) unfolding work_ok_def by simp
qed

lemma unmerge_order:
  assumes "in_order w" "one_mode w"
  shows "in_order (w\<lparr>sw_sma := unmerge_queues (sw_stacks w) (sw_sma w)\<rparr>)" (is "in_order ?v")
    and "complex_count (sw_sma w) = 0 \<Longrightarrow> pending_alter (unmerge_queues (sw_stacks w) (sw_sma w)) = []"
proof -
  let ?a = "sw_sma w" and ?st = "sw_stacks w"
  show "complex_count ?a = 0 \<Longrightarrow> pending_alter (unmerge_queues ?st ?a) = []"
    by (simp add: unmerge_queues_def)
  have ok: "work_ok w" and ty: "queues_typed w" and se: "all_settled w"
    using assms(1) by (simp_all add: in_order_def)
  show "in_order ?v"
  proof (cases "complex_count ?a = 0 \<and> pending_alter ?a \<noteq> []")
    case False
    then have "unmerge_queues ?st ?a = ?a" by (auto simp: unmerge_queues_def)
    with assms(1) show ?thesis by simp
  next
    case True
    let ?ts = "pending_alter ?a"
    have simple: "\<exists>sop. sops_of ?st t = [sop] \<and> may_wait sop" if "t \<in> set ?ts" for t
    proof -
      have "filter (is_complex ?st) (waiters ?a) = []"
        using ok True unfolding work_ok_def by simp
      then have "\<not> is_complex ?st t" using pending_alter_in_waiters that by (auto simp: filter_empty_conv)
      moreover have "sops_of ?st t \<noteq> []" using ty that unfolding queues_typed_def by blast
      ultimately obtain sop where "sops_of ?st t = [sop]"
        unfolding is_complex_def by (cases "sops_of ?st t" rule: list.exhaust; cases "tl (sops_of ?st t)") auto
      then show ?thesis using ty that unfolding queues_typed_def by blast
    qed
    have ts: "\<forall>t \<in> set ?ts. (\<exists>q. ?st t = Some q) \<and> dest ?st t < length (sems ?a)"
    proof
      fix t assume t: "t \<in> set ?ts"
      have tw: "t \<in> set (waiters ?a)" using t by (rule pending_alter_in_waiters)
      obtain sop where "sops_of ?st t = [sop]" using simple [OF t] by blast
      then have "dest ?st t < length (sems ?a)" using sops_of_in [OF ok tw] by (simp add: dest_def)
      moreover have "\<exists>q. ?st t = Some q" using ok tw unfolding work_ok_def by blast
      ultimately show "(\<exists>q. ?st t = Some q) \<and> dest ?st t < length (sems ?a)" by blast
    qed
    let ?ss = "unmerge_loop ?st ?ts (sems ?a)"
    note u = unmerge_loop_nth [OF ts]
    define v where "v = ?v"
    have vf: "sems (sw_sma v) = ?ss" "pending_alter (sw_sma v) = []" "pending_const (sw_sma v) = pending_const ?a"
      "complex_count (sw_sma v) = complex_count ?a" "sw_undos v = sw_undos w" "sw_stacks v = ?st"
      unfolding v_def using True by (simp_all add: unmerge_queues_def)
    have vals: "map semval ?ss = map semval (sems ?a)" and con: "map sem_const ?ss = map sem_const (sems ?a)"
      using u by (auto intro!: nth_equalityI)
    have n: "sem_nsems (sw_sma v) = sem_nsems ?a" using u vf by simp
    have alt: "sem_alter (sems (sw_sma v) ! i) = filter (\<lambda>t. dest ?st t = i) ?ts" if "i < sem_nsems ?a" for i
      using u that one_mode_nth [OF assms(2) _ that] True unfolding vf by simp
    have W: "mset (waiters (sw_sma v)) = mset (waiters ?a)"
      using unmerge_loop_mset [OF ts] con
      by (simp add: waiters_def alter_waiters_def const_waiters_def vf)
    have cw: "const_waiters (sw_sma v) = const_waiters ?a"
      by (simp add: const_waiters_def vf con)
    have vok: "work_ok v"
      by (rule work_ok_mset [OF ok]) (use W vals vf in simp_all)
    have bl: "blocked v t = blocked w t" if "t \<in> set (waiters ?a)" for t
      using that mset_eq_setD [OF W] vals vf by (intro blocked_same [OF ok vok that]) simp_all
    have "queues_typed v"
      unfolding queues_typed_def n
    proof (intro conjI allI impI ballI)
      fix i t assume i: "i < sem_nsems ?a" and "t \<in> set (sem_alter (sems (sw_sma v) ! i))"
      then have t: "t \<in> set ?ts" "dest ?st t = i" using alt by simp_all
      obtain sop where "sops_of ?st t = [sop]" "may_wait sop" using simple [OF t(1)] by blast
      then show "\<exists>sop. sops_of (sw_stacks v) t = [sop] \<and> sem_num sop = i \<and> may_wait sop"
        using t(2) vf by (simp add: dest_def)
    next
      fix i t assume i: "i < sem_nsems ?a" and t: "t \<in> set (sem_const (sems (sw_sma v) ! i))"
      have "sem_const (sems (sw_sma v) ! i) = sem_const (sems ?a ! i)"
        using arg_cong [OF con, of "\<lambda>l. l ! i"] i u unfolding vf by simp
      then show "\<exists>sop. sops_of (sw_stacks v) t = [sop] \<and> sem_num sop = i \<and> sem_op sop = 0"
        using ty i t vf(6) unfolding queues_typed_def by simp
    qed (use ty vf in \<open>auto simp: queues_typed_def\<close>)
    moreover have "all_settled v"
      unfolding all_settled_def n
    proof (intro conjI allI impI ballI)
      show "const_quiet v"
        unfolding const_quiet_def cw
        using se const_held_cong [OF ok, of _ v] vals const_waiters_in
        unfolding all_settled_def const_quiet_def vf by simp
      fix i assume i: "i < sem_nsems ?a"
      show "dec_settled v i"
        using se alt [OF i] bl pending_alter_in_waiters unfolding dec_settled_def all_settled_def by auto
    qed (simp add: vf)
    ultimately show ?thesis unfolding v_def [symmetric] using vok by (simp add: in_order_def)
  qed
qed

lemma sw_unlock_inv:
  assumes "in_order w" "mode_locked locknum w"
  shows "arr_inv (sw_unlock locknum w)"
proof (cases "locknum = SEM_GLOBAL_LOCK")
  case False
  then have "sw_unlock locknum w = w" by (simp add: sw_unlock_def sem_unlock_def)
  with assms False show ?thesis by (auto simp: arr_inv_def mode_ok_def mode_locked_def)
next
  case True
  let ?a = "sw_sma w" let ?b = "unmerge_queues (sw_stacks w) ?a"
  have om: "one_mode w" using assms(2) by (simp add: mode_locked_def)
  note um = unmerge_order [OF assms(1) om]
  have eq: "sw_unlock locknum w = (w\<lparr>sw_sma := ?b\<rparr>)\<lparr>sw_sma := complexmode_tryleave ?b\<rparr>"
    using True by (simp add: sw_unlock_def sem_unlock_def)
  have "same_view (w\<lparr>sw_sma := ?b\<rparr>) (sw_unlock locknum w)"
    unfolding eq using tryleave_view [of ?b w] by simp
  then have "in_order (sw_unlock locknum w)" using um(1) by (rule same_view_order)
  moreover have "mode_ok (sw_unlock locknum w)"
  proof -
    have b: "complex_count ?b = complex_count ?a" "use_global_lock ?b = use_global_lock ?a"
      "complex_count ?a \<noteq> 0 \<Longrightarrow> ?b = ?a"
      by (simp_all add: unmerge_queues_def)
    have g: "use_global_lock ?a \<noteq> 0" "use_global_lock ?a \<le> 10"
      using assms(2) True by (simp_all add: mode_locked_def)
    show ?thesis
    proof (cases "complex_count ?a = 0")
      case True
      then show ?thesis
        using um(2) g b word_dec_le [OF g(2,1)] unfolding eq
        by (simp add: mode_ok_def complexmode_tryleave_def)
    next
      case False
      then show ?thesis
        using assms(2) b unfolding eq by (simp add: mode_ok_def complexmode_tryleave_def mode_locked_def)
    qed
  qed
  ultimately show ?thesis by (simp add: arr_inv_def)
qed

section \<open>The critical sections keep an array in order\<close>

text \<open>A change of values and adjustments, with everything looked at again.\<close>

lemma zero_scope_all: "const_zero w \<Longrightarrow> queues_typed w \<Longrightarrow> work_ok w \<Longrightarrow> const_pre (zero_scope None w) w"
  unfolding const_pre_def
proof
  fix t assume c: "queues_typed w" "work_ok w" and t: "t \<in> set (const_waiters (sw_sma w))"
  have "sops_of (sw_stacks w) t \<noteq> []"
    using t
  proof (cases rule: const_waitersE)
    case 1
    with c show ?thesis unfolding queues_typed_def by blast
  next
    case (2 i)
    with c obtain sop where "sops_of (sw_stacks w) t = [sop]" unfolding queues_typed_def by metis
    then show ?thesis by simp
  qed
  then obtain sop where "sop \<in> set (sops_of (sw_stacks w) t)" by (meson last_in_set)
  moreover have "sem_num sop < sem_nsems (sw_sma w)"
    using sops_of_in [OF c(2) const_waiters_in [OF t]] calculation by (simp add: nums_in_def)
  ultimately have "touches (zero_scope None w) w t" unfolding touches_def zero_scope_def by auto
  then show "const_held w t \<or> touches (zero_scope None w) w t" ..
qed

lemma rescan_order:
  assumes "work_ok w" "queues_typed w" "one_mode w"
    and "sw_sma v = (sw_sma w)\<lparr>sems := sems (sw_sma v), sem_ctime := sem_ctime (sw_sma v), list_id := list_id (sw_sma v)\<rparr>"
    and "sem_lists (sems (sw_sma v)) = sem_lists (sems (sw_sma w))" "vals_ok (sems (sw_sma v))"
    and "undos_ok (sw_undos v)" "sw_stacks v = sw_stacks w"
  shows "in_order (do_smart_update now None otime v)" "work_rel v (do_smart_update now None otime v)"
    and "one_mode (do_smart_update now None otime v)"
proof -
  obtain x c l where a: "sw_sma v = (sw_sma w)\<lparr>sems := x, sem_ctime := c, list_id := l\<rparr>" using assms(4) by blast
  have p: "pending_alter (sw_sma v) = pending_alter (sw_sma w)" "pending_const (sw_sma v) = pending_const (sw_sma w)"
    "complex_count (sw_sma v) = complex_count (sw_sma w)"
    unfolding a by simp_all
  note W = waiters_cong [OF p(1,2) assms(5)]
  have n: "sem_nsems (sw_sma v) = sem_nsems (sw_sma w)"
    using arg_cong [OF assms(5), of length] by (simp add: sem_lists_def)
  have li: "sem_alter (sems (sw_sma v) ! i) = sem_alter (sems (sw_sma w) ! i)
      \<and> sem_const (sems (sw_sma v) ! i) = sem_const (sems (sw_sma w) ! i)" if "i < sem_nsems (sw_sma w)" for i
    using arg_cong [OF assms(5), of "\<lambda>l. l ! i"] that n by (simp add: sem_lists_def)
  have vok: "work_ok v"
    by (rule work_okI) (use assms(1,6,7,8) W n p in \<open>simp_all add: work_ok_def\<close>)
  have vty: "queues_typed v"
    by (rule typed_cong [OF assms(2)]) (use p n li assms(8) in \<open>simp_all add: lists_le_def\<close>)
  have om: "one_mode v"
    using assms(3) p(1) n li unfolding one_mode_def by (metis in_set_conv_nth)
  have sin: "sops_in None v" by (simp add: sops_in_def)
  show r: "work_rel v (do_smart_update now None otime v)"
    by (rule do_smart_update_rel [OF vok sin])
  have "all_settled (do_smart_update now None otime v)"
    by (rule do_smart_update_settles [OF vok sin vty om zero_scope_all [OF typed_const [OF vty] vty vok]])
      (simp add: up_scope_def)
  then show "in_order (do_smart_update now None otime v)"
    using work_rel_ok [OF r] typed_rel [OF r vty] by (simp add: in_order_def)
  show "one_mode (do_smart_update now None otime v)"
    by (rule one_mode_rel [OF r om])
qed

end
