(* ===== verification/SemCall.thy ===== *)
theory SemCall
  imports SemOrder
begin

text \<open>
  The critical sections of the system calls on one array (\<^verbatim>\<open>__do_semtimedop\<close> up to its sleep and
  after it, \<^verbatim>\<open>SETVAL\<close>, \<^verbatim>\<open>SETALL\<close>, the exit of a task) and the proof that each one, between
  \<^verbatim>\<open>sem_lock\<close> and \<^verbatim>\<open>sem_unlock\<close>, hands back an array in order.
\<close>

section \<open>A call to semtimedop\<close>

text \<open>The operation of a call, with the flags the scan computed.\<close>

definition call_ok :: "nat \<Rightarrow> sem_queue \<Rightarrow> bool" where
  "call_ok n q \<longleftrightarrow> q_sops q \<noteq> [] \<and> nums_in n (q_sops q)
     \<and> q_alter q = sf_alter (scan_sops (q_sops q)) \<and> q_dupsop q = sf_dupsop (scan_sops (q_sops q))"

lemma call_queue_ok: "call_ok n q \<Longrightarrow> sop_queue_ok n q"
  using scan_no_dup [of "q_sops q" no_flags] by (auto simp: call_ok_def sop_queue_ok_def scan_sops_def)

lemma call_alter: "call_ok n q \<Longrightarrow> q_alter q \<longleftrightarrow> (\<exists>sop \<in> set (q_sops q). sem_op sop \<noteq> 0)"
  using fold_scan_flags(1) [of "q_sops q" no_flags] by (simp add: call_ok_def scan_sops_def no_flags_def)

lemma const_pre_delta:
  assumes "work_ok w" "const_quiet w" "set (const_waiters (sw_sma v)) \<subseteq> set (const_waiters (sw_sma w))"
    and "\<And>t. t \<in> set (const_waiters (sw_sma w)) \<Longrightarrow> sops_of (sw_stacks v) t = sops_of (sw_stacks w) t"
    and "\<And>j. j < sem_nsems (sw_sma w) \<Longrightarrow> semval (sems (sw_sma v) ! j) = semval (sems (sw_sma w) ! j) + sops_delta l j"
  shows "const_pre (sem_num ` set l) v"
  unfolding const_pre_def
proof
  fix u assume "u \<in> set (const_waiters (sw_sma v))"
  then have uw: "u \<in> set (const_waiters (sw_sma w))" using assms(3) by auto
  note su = assms(4) [OF uw]
  obtain sop where sop: "sop \<in> set (sops_of (sw_stacks w) u)" "semval (sems (sw_sma w) ! sem_num sop) \<noteq> 0"
    using assms(2) uw unfolding const_quiet_def const_held_def by blast
  have n: "sem_num sop < sem_nsems (sw_sma w)"
    using sops_of_in [OF assms(1) const_waiters_in [OF uw]] sop(1) by (simp add: nums_in_def)
  show "const_held v u \<or> touches (sem_num ` set l) v u"
  proof (cases "sem_num sop \<in> sem_num ` set l")
    case True
    then show ?thesis using sop(1) unfolding touches_def su by blast
  next
    case False
    then have "sops_delta l (sem_num sop) = 0"
      by (simp add: sops_delta_def filter_empty_conv image_iff) (metis (mono_tags, lifting) filter_False list.simps(8) sum_list.Nil)
    then have "semval (sems (sw_sma v) ! sem_num sop) \<noteq> 0" using assms(5) [OF n] sop(2) by simp
    then show ?thesis using sop(1) unfolding const_held_def su by blast
  qed
qed

text \<open>Fewer waiters over the same values are in order when the more were.\<close>

lemma settled_less:
  assumes "in_order w" "work_ok v" "lists_le (sw_sma w) (sw_sma v)"
    and "set (waiters (sw_sma v)) \<subseteq> set (waiters (sw_sma w))" "st_base (sw_stacks v) = st_base (sw_stacks w)"
    and "map semval (sems (sw_sma v)) = map semval (sems (sw_sma w))" "sw_undos v = sw_undos w"
  shows "in_order v"
proof -
  have ok: "work_ok w" and ty: "queues_typed w" and se: "all_settled w" using assms(1) by (simp_all add: in_order_def)
  have n: "sem_nsems (sw_sma v) = sem_nsems (sw_sma w)" using assms(3) by (simp add: lists_le_def)
  have so: "sops_of (sw_stacks v) t = sops_of (sw_stacks w) t" for t by (rule st_base_sops) (simp add: assms(5))
  have bl: "blocked v t = blocked w t" if "t \<in> set (waiters (sw_sma v))" for t
    using that assms(4,5) by (intro blocked_cong [OF ok assms(2) _ that assms(6,7)]) auto
  have "dec_settled v i" if i: "i < sem_nsems (sw_sma v)" for i
    using se i n lists_le_nth(1) [OF assms(3), of i] bl alter_in_waiters [OF i] unfolding dec_settled_def all_settled_def by auto
  moreover have "\<forall>t \<in> set (pending_alter (sw_sma v)). blocked v t"
    using se assms(3) bl pending_alter_in_waiters unfolding all_settled_def lists_le_def by blast
  moreover have "const_quiet v"
    using se lists_le_const_waiters [OF assms(3)] const_held_cong [OF ok const_waiters_in assms(6) so]
    unfolding const_quiet_def all_settled_def by blast
  ultimately have "all_settled v" unfolding all_settled_def by blast
  then show ?thesis using assms(2) typed_cong [OF ty assms(3) so] by (simp add: in_order_def)
qed

lemma settled_rel_same:
  assumes "work_rel w v" "in_order w" "map semval (sems (sw_sma v)) = map semval (sems (sw_sma w))"
    and "sw_undos v = sw_undos w"
  shows "in_order v"
  by (rule settled_less [OF assms(2) work_rel_ok [OF assms(1)] work_rel_lists [OF assms(1)] _ work_rel_base [OF assms(1)] assms(3,4)])
    (use assms(1) in \<open>simp add: work_rel_def\<close>)

text \<open>The state after the caller's operation was performed.\<close>

lemma perform_rel:
  assumes "work_ok w" "call_ok (sem_nsems (sw_sma w)) q"
    and "perform_atomic_semop (sw_sma w) (sw_undos w) q = (a, us, q', r)"
  shows "work_rel w (w\<lparr>sw_sma := a, sw_undos := us\<rparr>)" "same_queues (sw_sma w) a"
proof -
  have u: "undos_ok (sw_undos w)" "vals_ok (sems (sw_sma w))" using assms(1) unfolding work_ok_def by blast+
  note k = perform_keeps [OF assms(3) call_queue_ok [OF assms(2)] u]
  show sq: "same_queues (sw_sma w) a" unfolding same_queues_def using k(1,4) by blast
  show "work_rel w (w\<lparr>sw_sma := a, sw_undos := us\<rparr>)"
    by (rule work_rel_same [OF assms(1)]) (use sq k in simp_all)
qed

lemma slow_scan_const:
  assumes "\<forall>sop \<in> set l. sem_op sop = 0" "nums_in (length ss) l" "undos_ok us"
    and "semop_slow_scan un b l ss us = (ss', us', b', v)"
  shows "ss' = ss \<and> us' = us"
  using assms
proof (induction l arbitrary: b)
  case (Cons p l)
  have "sop_ss p ss = ss" using Cons.prems(1) by (simp add: sop_ss_def upd_sem_id)
  moreover have "sop_us un p us = us" using Cons.prems(1,3) by (simp add: sop_us_def semadj_set_same)
  ultimately show ?case
    using Cons.prems Cons.IH [of "p # b"] by (auto simp: scan_Cons split: if_splits)
qed simp

lemma perform_const:
  assumes "work_ok w" "call_ok (sem_nsems (sw_sma w)) q" "\<not> q_alter q"
    and "perform_atomic_semop (sw_sma w) (sw_undos w) q = (a, us, q', r)"
  shows "map semval (sems a) = map semval (sems (sw_sma w)) \<and> us = sw_undos w"
proof (cases "r = SemDone")
  case True
  have u: "undos_ok (sw_undos w)" using assms(1) unfolding work_ok_def by blast
  note qk = call_queue_ok [OF assms(2)]
  have zero: "\<forall>sop \<in> set (q_sops q). sem_op sop = 0" using call_alter [OF assms(2)] assms(3) by blast
  have n: "nums_in (sem_nsems (sw_sma w)) (q_sops q)" using qk by (simp add: sop_queue_ok_def)
  obtain ss us' b v where s: "semop_slow_scan (q_undo q) [] (q_sops q) (sems (sw_sma w)) (sw_undos w) = (ss, us', b, v)"
    by (metis prod_cases4)
  have eq: "ss = sems (sw_sma w) \<and> us' = sw_undos w" by (rule slow_scan_const [OF zero n u s])
  have "perform_atomic_semop_slow (sw_sma w) (sw_undos w) q = (a, us, q', SemDone)"
    using assms(4) perform_eq_slow [OF qk u] True by simp
  then have "v = ScanEnd \<and> a = (sw_sma w)\<lparr>sems := semop_set_pids (q_pid q) b ss\<rparr> \<and> us = us'"
    using s by (cases v) (auto simp: perform_atomic_semop_slow_def block_result_def split: prod.splits if_splits)
  then show ?thesis using eq by simp
next
  case False
  have u: "undos_ok (sw_undos w)" "vals_ok (sems (sw_sma w))" using assms(1) unfolding work_ok_def by blast+
  show ?thesis using perform_keeps(8) [OF assms(4) call_queue_ok [OF assms(2)] u False] by simp
qed

lemma sum_nonpos: "(\<And>x. x \<in> set l \<Longrightarrow> f x \<le> (0 :: int)) \<Longrightarrow> sum_list (map f l) \<le> 0"
  by (induction l) (simp_all add: add_nonpos_nonpos)

lemma semop_done:
  assumes "in_order w" "mode_locked locknum w" "call_ok (sem_nsems (sw_sma w)) q"
    and "perform_atomic_semop (sw_sma w) (sw_undos w) q = (a, us, q', SemDone)"
    and "v = (if q_alter q then do_smart_update now (Some (q_sops q)) True else set_semotime now (Some (q_sops q)))
          (w\<lparr>sw_sma := a, sw_undos := us\<rparr>)"
  shows "semop_section now cur q locknum w = (sw_unlock locknum v, SemDone)" "in_order v" "mode_locked locknum v"
proof -
  let ?v = "w\<lparr>sw_sma := a, sw_undos := us\<rparr>"
  have ok: "work_ok w" and ty: "queues_typed w" and se: "all_settled w"
    using assms(1) by (simp_all add: in_order_def)
  note pr = perform_rel [OF ok assms(3,4)]
  have u: "undos_ok (sw_undos w)" "vals_ok (sems (sw_sma w))" using ok unfolding work_ok_def by blast+
  note k = perform_keeps [OF assms(4) call_queue_ok [OF assms(3)] u]
  have q': "q_sops q' = q_sops q" "q_alter q' = q_alter q"
    using arg_cong [OF k(7), of q_sops] arg_cong [OF k(7), of q_alter] by simp_all
  have vok: "work_ok ?v" by (rule work_rel_ok [OF pr(1)])
  have vty: "queues_typed ?v" by (rule typed_rel [OF pr(1) ty])
  have n: "sem_nsems (sw_sma ?v) = sem_nsems (sw_sma w)" by (rule work_rel_nsems [OF pr(1)])
  let ?f = "if q_alter q then do_smart_update now (Some (q_sops q)) True else set_semotime now (Some (q_sops q))"
  have "work_rel ?v (?f ?v) \<and> in_order (?f ?v)"
  proof (cases "q_alter q")
    case False
    have "in_order ?v"
      by (rule settled_rel_same [OF pr(1) assms(1)]) (use perform_const [OF ok assms(3) False assms(4)] in simp_all)
    moreover have r: "work_rel ?v (set_semotime now (Some (q_sops q)) ?v)" by (rule set_semotime_rel [OF vok])
    moreover have "in_order (set_semotime now (Some (q_sops q)) ?v)"
      by (rule settled_rel_same [OF r \<open>in_order ?v\<close>]) (simp_all add: set_semotime_def Let_def map_upd_sem)
    ultimately show ?thesis using False by simp
  next
    case True
    let ?l = "Some (q_sops q)"
    have sin: "sops_in ?l ?v" using assms(3) n by (simp add: sops_in_def call_ok_def)
    have om: "one_mode ?v"
      by (rule one_mode_rel [OF pr(1)]) (use assms(2) in \<open>simp add: mode_locked_def\<close>)
    have vals: "semval (sems (sw_sma ?v) ! j) = semval (sems (sw_sma w) ! j) + sops_delta (q_sops q) j"
      if "j < sem_nsems (sw_sma w)" for j
      using k(9) [OF refl that] by simp
    have "const_pre (sem_num ` set (q_sops q)) ?v"
      by (rule const_pre_delta [OF ok _ lists_le_const_waiters [OF work_rel_lists [OF pr(1)]] _ vals])
        (use se in \<open>simp_all add: all_settled_def\<close>)
    then have pre: "const_pre (zero_scope ?l ?v) ?v" by (simp add: zero_scope_def)
    have ds: "dec_settled ?v i"
      if "pending_alter (sw_sma ?v) = []" "i < sem_nsems (sw_sma ?v)" "i \<notin> up_scope ?l ?v" for i
    proof -
      have iw: "i < sem_nsems (sw_sma w)" using that(2) n by simp
      have "sem_op sop \<le> 0" if "sop \<in> set (q_sops q)" "sem_num sop = i" for sop
        using \<open>i \<notin> up_scope ?l ?v\<close> that by (force simp: up_scope_def not_less)
      then have "sops_delta (q_sops q) i \<le> 0"
        unfolding sops_delta_def by (intro sum_nonpos) auto
      then show ?thesis
        using se iw vals [OF iw] unfolding all_settled_def by (intro dec_settled_rel [OF pr(1) ok ty iw]) simp_all
    qed
    have "all_settled (do_smart_update now ?l True ?v)"
      by (rule do_smart_update_settles [OF vok sin vty om pre ds])
    moreover have r: "work_rel ?v (do_smart_update now ?l True ?v)" by (rule do_smart_update_rel [OF vok sin])
    ultimately show ?thesis
      using True work_rel_ok [OF r] typed_rel [OF r vty] by (simp add: in_order_def)
  qed
  then have r: "work_rel w (?f ?v)" and o: "in_order (?f ?v)" using work_rel_trans [OF pr(1)] by blast+
  have v: "v = ?f ?v" using assms(5) by simp
  show "in_order v" unfolding v by (rule o)
  show "mode_locked locknum v"
    unfolding v by (rule mode_locked_rel [OF r assms(2)]) (rule complex_count_rel [OF r ok])
  show "semop_section now cur q locknum w = (sw_unlock locknum v, SemDone)"
    unfolding v using q' by (simp add: semop_section_def assms(4) Let_def)
qed

lemma semop_err:
  assumes "in_order w" "mode_locked locknum w" "call_ok (sem_nsems (sw_sma w)) q"
    and "perform_atomic_semop (sw_sma w) (sw_undos w) q = (a, us, q', SemErr e)"
  shows "fst (semop_section now cur q locknum w) = sw_unlock locknum w"
    "arr_inv (fst (semop_section now cur q locknum w))"
proof -
  have u: "undos_ok (sw_undos w)" "vals_ok (sems (sw_sma w))"
    using assms(1) unfolding in_order_def work_ok_def by blast+
  have "a = sw_sma w \<and> us = sw_undos w"
    using perform_keeps(8) [OF assms(4) call_queue_ok [OF assms(3)] u] by simp
  then show "fst (semop_section now cur q locknum w) = sw_unlock locknum w"
    using assms(4) by (simp add: semop_section_def)
  then show "arr_inv (fst (semop_section now cur q locknum w))"
    using sw_unlock_inv [OF assms(1,2)] by simp
qed

section \<open>An operation goes to sleep\<close>

lemma merge_order:
  assumes "in_order w" "complex_count (sw_sma w) = 0"
  shows "in_order (w\<lparr>sw_sma := merge_queues (sw_sma w)\<rparr>)" (is "in_order ?v")
proof -
  let ?a = "sw_sma w"
  have ok: "work_ok w" and ty: "queues_typed w" and se: "all_settled w"
    using assms(1) by (simp_all add: in_order_def)
  note m = merge_queues_fields [of ?a] and W = merge_queues_waiters [of ?a]
  have vok: "work_ok ?v" by (rule work_ok_mset [OF ok]) (simp_all add: m W)
  have bl: "blocked ?v t = blocked w t" if "t \<in> set (waiters ?a)" for t
    using that mset_eq_setD [OF W(1)] W(2) by (intro blocked_same [OF ok vok that]) simp_all
  have n: "sem_nsems (merge_queues ?a) = sem_nsems ?a" by (simp add: m)
  have pa: "\<exists>i < sem_nsems ?a. t \<in> set (sem_alter (sems ?a ! i))"
    if "t \<in> set (pending_alter (merge_queues ?a))" "t \<notin> set (pending_alter ?a)" for t
    using that by (auto simp: m) (metis in_set_conv_nth)
  have "queues_typed ?v"
    unfolding queues_typed_def
  proof (intro conjI allI impI ballI)
    fix t assume t: "t \<in> set (pending_alter (sw_sma ?v))"
    have "sops_of (sw_stacks w) t \<noteq> [] \<and> (\<forall>sop. sops_of (sw_stacks w) t = [sop] \<longrightarrow> may_wait sop)"
    proof (cases "t \<in> set (pending_alter ?a)")
      case True
      then show ?thesis using ty unfolding queues_typed_def by blast
    next
      case False
      then obtain i where "i < sem_nsems ?a" "t \<in> set (sem_alter (sems ?a ! i))" using pa t by auto
      then obtain sop where "sops_of (sw_stacks w) t = [sop]" "may_wait sop"
        using ty unfolding queues_typed_def by metis
      then show ?thesis by simp
    qed
    then show "sops_of (sw_stacks ?v) t \<noteq> []"
      and "\<And>sop. sops_of (sw_stacks ?v) t = [sop] \<Longrightarrow> may_wait sop" by simp_all
  qed (use ty n in \<open>auto simp: queues_typed_def m\<close>)
  moreover have "all_settled ?v"
    unfolding all_settled_def
  proof (intro conjI allI impI ballI)
    show "const_quiet ?v"
      unfolding const_quiet_def
      using se const_held_cong [OF ok, of _ ?v] W const_waiters_in
      unfolding all_settled_def const_quiet_def by simp
    fix t assume t: "t \<in> set (pending_alter (sw_sma ?v))"
    have "blocked w t"
    proof (cases "t \<in> set (pending_alter ?a)")
      case True
      then show ?thesis using se unfolding all_settled_def by blast
    next
      case False
      then show ?thesis using pa t se unfolding all_settled_def dec_settled_def by auto
    qed
    moreover have "t \<in> set (waiters ?a)"
      using pending_alter_in_waiters [OF t] mset_eq_setD [OF W(1)] by simp
    ultimately show "blocked ?v t" using bl by simp
  qed (simp add: dec_settled_def m)
  ultimately show ?thesis using vok by (simp add: in_order_def)
qed

text \<open>One more waiter, which cannot proceed, at the place its operations ask for.\<close>

definition joins :: "nat \<Rightarrow> sem_work \<Rightarrow> sem_work \<Rightarrow> sem_queue \<Rightarrow> bool" where
  "joins cur w v p \<longleftrightarrow>
     cur \<notin> set (waiters (sw_sma w)) \<and> mset (waiters (sw_sma v)) = add_mset cur (mset (waiters (sw_sma w)))
     \<and> map semval (sems (sw_sma v)) = map semval (sems (sw_sma w)) \<and> sw_undos v = sw_undos w
     \<and> sw_stacks v = (sw_stacks w)(cur \<mapsto> p)
     \<and> complex_count (sw_sma v) = complex_count (sw_sma w) + (if length (q_sops p) > 1 then 1 else 0)"

lemma joins_ok:
  assumes "work_ok w" "joins cur w v p" "sop_queue_ok (sem_nsems (sw_sma w)) p"
  shows "work_ok v" "sem_nsems (sw_sma v) = sem_nsems (sw_sma w)"
    "t \<in> set (waiters (sw_sma w)) \<Longrightarrow> blocked v t = blocked w t"
    "t \<in> set (waiters (sw_sma w)) \<Longrightarrow> sops_of (sw_stacks v) t = sops_of (sw_stacks w) t"
    "t \<in> set (waiters (sw_sma w)) \<Longrightarrow> const_held v t = const_held w t"
    "sops_of (sw_stacks v) cur = q_sops p" "cur \<in> set (waiters (sw_sma v))"
proof -
  have j: "cur \<notin> set (waiters (sw_sma w))" "mset (waiters (sw_sma v)) = add_mset cur (mset (waiters (sw_sma w)))"
    "map semval (sems (sw_sma v)) = map semval (sems (sw_sma w))" "sw_undos v = sw_undos w"
    "sw_stacks v = (sw_stacks w)(cur \<mapsto> p)"
    "complex_count (sw_sma v) = complex_count (sw_sma w) + (if length (q_sops p) > 1 then 1 else 0)"
    using assms(2) unfolding joins_def by blast+
  show n: "sem_nsems (sw_sma v) = sem_nsems (sw_sma w)" using arg_cong [OF j(3), of length] by simp
  have S: "set (waiters (sw_sma v)) = insert cur (set (waiters (sw_sma w)))"
    using mset_eq_setD [of "waiters (sw_sma v)" "cur # waiters (sw_sma w)"] j(2) by simp
  show cv: "cur \<in> set (waiters (sw_sma v))" using S by simp
  show sc: "sops_of (sw_stacks v) cur = q_sops p" by (simp add: j sops_of_def)
  show so: "sops_of (sw_stacks v) t = sops_of (sw_stacks w) t" if "t \<in> set (waiters (sw_sma w))" for t
    using that j(1,5) by (auto simp: sops_of_def)
  show vok: "work_ok v"
  proof (rule work_okI)
    show "vals_ok (sems (sw_sma v))" using assms(1) j(3) unfolding work_ok_def vals_ok_iff by simp
    show "undos_ok (sw_undos v)" using assms(1) j(4) unfolding work_ok_def by simp
    have "distinct (cur # waiters (sw_sma w))" using assms(1) j(1) unfolding work_ok_def by simp
    then show "distinct (waiters (sw_sma v))"
      using mset_eq_imp_distinct_iff [of "waiters (sw_sma v)" "cur # waiters (sw_sma w)"] j(2) by simp
    show "\<exists>q. sw_stacks v t = Some q \<and> sop_queue_ok (sem_nsems (sw_sma v)) q"
      if "t \<in> set (waiters (sw_sma v))" for t
      using assms(1,3) that S n j(5) unfolding work_ok_def by (cases "t = cur") simp_all
    have c: "is_complex (sw_stacks v) t = is_complex (sw_stacks w) t" if "t \<in> set (waiters (sw_sma w))" for t
      using so [OF that] by (simp add: is_complex_def)
    have "filter (is_complex (sw_stacks v)) (waiters (sw_sma w)) = filter (is_complex (sw_stacks w)) (waiters (sw_sma w))"
      using c by (rule filter_cong [OF refl])
    moreover have "length (filter (is_complex (sw_stacks v)) (waiters (sw_sma v))) =
        length (filter (is_complex (sw_stacks v)) (cur # waiters (sw_sma w)))"
      by (rule mset_eq_length) (simp add: j(2))
    ultimately show "complex_count (sw_sma v) = int (length (filter (is_complex (sw_stacks v)) (waiters (sw_sma v))))"
      using assms(1) j(6) sc unfolding work_ok_def by (simp add: is_complex_def)
  qed
  show "blocked v t = blocked w t" if t: "t \<in> set (waiters (sw_sma w))" for t
    using t j(1) S by (intro blocked_same [OF assms(1) vok t _ j(3,4)]) (auto simp: j(5))
  show "const_held v t = const_held w t" if t: "t \<in> set (waiters (sw_sma w))" for t
    by (rule const_held_cong [OF assms(1) t j(3) so [OF t]])
qed

text \<open>The place of the new waiter.\<close>

definition placed :: "nat \<Rightarrow> sembuf list \<Rightarrow> sem_work \<Rightarrow> sem_work \<Rightarrow> bool" where
  "placed cur l w v \<longleftrightarrow>
     (\<forall>t \<in> set (pending_alter (sw_sma v)). t \<in> set (pending_alter (sw_sma w))
        \<or> t = cur \<and> (\<forall>sop. l = [sop] \<longrightarrow> may_wait sop))
     \<and> (\<forall>t \<in> set (pending_const (sw_sma v)). t \<in> set (pending_const (sw_sma w))
        \<or> t = cur \<and> (\<forall>sop \<in> set l. sem_op sop = 0))
     \<and> (\<forall>i < sem_nsems (sw_sma w). \<forall>t \<in> set (sem_alter (sems (sw_sma v) ! i)). t \<in> set (sem_alter (sems (sw_sma w) ! i))
        \<or> t = cur \<and> (\<exists>sop. l = [sop] \<and> sem_num sop = i \<and> may_wait sop))
     \<and> (\<forall>i < sem_nsems (sw_sma w). \<forall>t \<in> set (sem_const (sems (sw_sma v) ! i)). t \<in> set (sem_const (sems (sw_sma w) ! i))
        \<or> t = cur \<and> (\<exists>sop. l = [sop] \<and> sem_num sop = i \<and> sem_op sop = 0))"

lemma join_order:
  assumes "in_order w" "joins cur w v p" "sop_queue_ok (sem_nsems (sw_sma w)) p" "q_sops p \<noteq> []"
    and "placed cur (q_sops p) w v" "blocked v cur"
  shows "in_order v"
proof -
  have ok: "work_ok w" and ty: "queues_typed w" and se: "all_settled w"
    using assms(1) by (simp_all add: in_order_def)
  note k = joins_ok [OF ok assms(2,3)]
  have pl: "t \<in> set (pending_alter (sw_sma v)) \<Longrightarrow> t \<in> set (pending_alter (sw_sma w))
        \<or> t = cur \<and> (\<forall>sop. q_sops p = [sop] \<longrightarrow> may_wait sop)"
    "t \<in> set (pending_const (sw_sma v)) \<Longrightarrow> t \<in> set (pending_const (sw_sma w))
        \<or> t = cur \<and> (\<forall>sop \<in> set (q_sops p). sem_op sop = 0)"
    "i < sem_nsems (sw_sma w) \<Longrightarrow> t \<in> set (sem_alter (sems (sw_sma v) ! i)) \<Longrightarrow> t \<in> set (sem_alter (sems (sw_sma w) ! i))
        \<or> t = cur \<and> (\<exists>sop. q_sops p = [sop] \<and> sem_num sop = i \<and> may_wait sop)"
    "i < sem_nsems (sw_sma w) \<Longrightarrow> t \<in> set (sem_const (sems (sw_sma v) ! i)) \<Longrightarrow> t \<in> set (sem_const (sems (sw_sma w) ! i))
        \<or> t = cur \<and> (\<exists>sop. q_sops p = [sop] \<and> sem_num sop = i \<and> sem_op sop = 0)" for t i
    using assms(5) unfolding placed_def by blast+
  have ct: "const_waiters (sw_sma v) = pending_const (sw_sma v) @ concat (map sem_const (sems (sw_sma v)))"
    by (simp add: const_waiters_def)
  have con: "t \<in> set (const_waiters (sw_sma w)) \<or> t = cur \<and> (\<forall>sop \<in> set (q_sops p). sem_op sop = 0)"
    if "t \<in> set (const_waiters (sw_sma v))" for t
    using that
  proof (cases rule: const_waitersE)
    case 1
    then show ?thesis using pl(2) by (auto simp: const_waiters_def)
  next
    case (2 i)
    then have i: "i < sem_nsems (sw_sma w)" using k(2) by simp
    show ?thesis using pl(4) [OF i 2(2)] i by (auto simp: const_waiters_def)
  qed
  have vty: "queues_typed v"
    unfolding queues_typed_def k(2)
  proof (intro conjI allI impI ballI)
    fix i t assume i: "i < sem_nsems (sw_sma w)" and t: "t \<in> set (sem_alter (sems (sw_sma v) ! i))"
    show "\<exists>sop. sops_of (sw_stacks v) t = [sop] \<and> sem_num sop = i \<and> may_wait sop"
      using pl(3) [OF i t] k(6) ty i k(4) [OF alter_in_waiters [OF i]] unfolding queues_typed_def by metis
  next
    fix i t assume i: "i < sem_nsems (sw_sma w)" and t: "t \<in> set (sem_const (sems (sw_sma v) ! i))"
    have "t \<in> set (sem_const (sems (sw_sma w) ! i)) \<Longrightarrow> t \<in> set (waiters (sw_sma w))"
      using i by (auto simp: waiters_def const_waiters_def)
    then show "\<exists>sop. sops_of (sw_stacks v) t = [sop] \<and> sem_num sop = i \<and> sem_op sop = 0"
      using pl(4) [OF i t] k(6) ty i k(4) [of t] unfolding queues_typed_def by metis
  next
    fix t assume t: "t \<in> set (pending_const (sw_sma v))"
    have "t \<in> set (pending_const (sw_sma w)) \<Longrightarrow> t \<in> set (waiters (sw_sma w))"
      by (simp add: waiters_def const_waiters_def)
    then have "sops_of (sw_stacks v) t \<noteq> [] \<and> (\<forall>sop \<in> set (sops_of (sw_stacks v) t). sem_op sop = 0)"
      using pl(2) [OF t] k(6) assms(4) ty k(4) [of t] unfolding queues_typed_def by metis
    then show "sops_of (sw_stacks v) t \<noteq> []"
      and "\<And>sop. sop \<in> set (sops_of (sw_stacks v) t) \<Longrightarrow> sem_op sop = 0" by blast+
  next
    fix t assume t: "t \<in> set (pending_alter (sw_sma v))"
    have "sops_of (sw_stacks v) t \<noteq> [] \<and> (\<forall>sop. sops_of (sw_stacks v) t = [sop] \<longrightarrow> may_wait sop)"
      using pl(1) [OF t] k(6) assms(4) ty k(4) [OF pending_alter_in_waiters] unfolding queues_typed_def by metis
    then show "sops_of (sw_stacks v) t \<noteq> []"
      and "\<And>sop. sops_of (sw_stacks v) t = [sop] \<Longrightarrow> may_wait sop" by blast+
  qed
  have "all_settled v"
    unfolding all_settled_def k(2) const_quiet_def dec_settled_def
  proof (intro conjI allI impI ballI)
    fix t assume t: "t \<in> set (const_waiters (sw_sma v))"
    show "const_held v t"
    proof (cases "t \<in> set (const_waiters (sw_sma w))")
      case True
      then show ?thesis using k(5) const_waiters_in se unfolding all_settled_def const_quiet_def by blast
    next
      case False
      then have c: "t = cur" "\<forall>sop \<in> set (q_sops p). sem_op sop = 0" using con [OF t] by blast+
      show ?thesis
        using const_done_iff [OF k(1,7)] k(6) c assms(6) unfolding blocked_def by simp
    qed
  next
    fix i t assume i: "i < sem_nsems (sw_sma w)" and t: "t \<in> set (sem_alter (sems (sw_sma v) ! i))"
    show "blocked v t"
      using pl(3) [OF i t] assms(6) k(3) [OF alter_in_waiters [OF i]] se i
      unfolding all_settled_def dec_settled_def by blast
  next
    fix t assume t: "t \<in> set (pending_alter (sw_sma v))"
    show "blocked v t"
      using pl(1) [OF t] assms(6) k(3) [OF pending_alter_in_waiters] se
      unfolding all_settled_def by blast
  qed
  with vty k(1) show ?thesis by (simp add: in_order_def)
qed

lemma mset_append_const:
  "i < length ss \<Longrightarrow> mset (concat (map sem_const (upd_sem i (sem_const_update (\<lambda>l. l @ [t])) ss))) =
    add_mset t (mset (concat (map sem_const ss)))"
  by (simp add: upd_sem_def upd_conv_take_nth_drop)
    (subst (3) id_take_nth_drop [of i ss], simp, simp add: mset_concat)

lemma mset_append_alter:
  "i < length ss \<Longrightarrow> mset (concat (map sem_alter (upd_sem i (sem_alter_update (\<lambda>l. l @ [t])) ss))) =
    add_mset t (mset (concat (map sem_alter ss)))"
  by (simp add: upd_sem_def upd_conv_take_nth_drop)
    (subst (3) id_take_nth_drop [of i ss], simp, simp add: mset_concat)

lemma waiters_append:
  "mset (waiters (pending_alter_update (\<lambda>l. l @ [t]) a)) = add_mset t (mset (waiters a))"
  "mset (waiters (pending_const_update (\<lambda>l. l @ [t]) a)) = add_mset t (mset (waiters a))"
  "i < sem_nsems a \<Longrightarrow> mset (waiters (sems_update (upd_sem i (sem_alter_update (\<lambda>l. l @ [t]))) a)) = add_mset t (mset (waiters a))"
  "i < sem_nsems a \<Longrightarrow> mset (waiters (sems_update (upd_sem i (sem_const_update (\<lambda>l. l @ [t]))) a)) = add_mset t (mset (waiters a))"
  "waiters (complex_count_update f a) = waiters a"
  by (simp_all add: waiters_def alter_waiters_def const_waiters_def mset_append_alter mset_append_const map_upd_sem)

definition enqueue_base :: "sembuf list \<Rightarrow> sem_array \<Rightarrow> sem_array" where
  "enqueue_base sops a = (if length sops \<noteq> 1 \<and> complex_count a = 0 then merge_queues a else a)"

lemma enqueue_cases:
  assumes "sops \<noteq> []" "nums_in (sem_nsems a) sops"
  shows "enqueue_sop cur sops alter a =
    (let b = enqueue_base sops a in
     if length sops = 1 then
       (if alter then
          (if complex_count b \<noteq> 0 then pending_alter_update (\<lambda>l. l @ [cur]) b
           else sems_update (upd_sem (sem_num (hd sops)) (sem_alter_update (\<lambda>l. l @ [cur]))) b)
        else sems_update (upd_sem (sem_num (hd sops)) (sem_const_update (\<lambda>l. l @ [cur]))) b)
     else complex_count_update (\<lambda>n. n + 1)
       (if alter then pending_alter_update (\<lambda>l. l @ [cur]) b else pending_const_update (\<lambda>l. l @ [cur]) b))"
proof -
  have "sem_num (hd sops) < sem_nsems a" using assms by (cases sops) simp_all
  then show ?thesis by (auto simp: enqueue_sop_def enqueue_base_def array_index_nospec_def Let_def)
qed

lemma enqueue_fields:
  assumes "sops \<noteq> []" "nums_in (sem_nsems a) sops"
  shows "mset (waiters (enqueue_sop cur sops alter a)) = add_mset cur (mset (waiters a))"
    "map semval (sems (enqueue_sop cur sops alter a)) = map semval (sems a)"
    "complex_count (enqueue_sop cur sops alter a) = complex_count a + (if length sops > 1 then 1 else 0)"
    "use_global_lock (enqueue_sop cur sops alter a) = use_global_lock a"
proof -
  let ?b = "enqueue_base sops a"
  have b: "mset (waiters ?b) = mset (waiters a)" "map semval (sems ?b) = map semval (sems a)"
    "complex_count ?b = complex_count a" "use_global_lock ?b = use_global_lock a"
    by (simp_all add: enqueue_base_def merge_queues_fields merge_queues_waiters)
  have n: "sem_nsems ?b = sem_nsems a" using arg_cong [OF b(2), of length] by simp
  have i: "sem_num (hd sops) < sem_nsems ?b" using assms n by (cases sops) simp_all
  have l: "length sops = 1 \<or> length sops > 1" using assms(1) by (cases sops) auto
  note e = enqueue_cases [OF assms, of cur alter]
  show "mset (waiters (enqueue_sop cur sops alter a)) = add_mset cur (mset (waiters a))"
    unfolding e Let_def using i b(1) by (simp add: waiters_append)
  show "map semval (sems (enqueue_sop cur sops alter a)) = map semval (sems a)"
    unfolding e Let_def using b(2) by (simp add: map_upd_sem)
  show "complex_count (enqueue_sop cur sops alter a) = complex_count a + (if length sops > 1 then 1 else 0)"
    unfolding e Let_def using b(3) l by auto
  show "use_global_lock (enqueue_sop cur sops alter a) = use_global_lock a"
    unfolding e Let_def using b(4) by simp
qed

lemma enqueue_placed:
  assumes "sops \<noteq> []" "nums_in (sem_nsems (sw_sma w)) sops"
    and "\<And>sop. alter \<Longrightarrow> sops = [sop] \<Longrightarrow> may_wait sop" "\<not> alter \<Longrightarrow> \<forall>sop \<in> set sops. sem_op sop = 0"
    and "sw_sma v = enqueue_sop cur sops alter (sw_sma w)"
  shows "placed cur sops (w\<lparr>sw_sma := enqueue_base sops (sw_sma w)\<rparr>) v"
proof -
  let ?b = "enqueue_base sops (sw_sma w)"
  have n: "sem_nsems ?b = sem_nsems (sw_sma w)" by (simp add: enqueue_base_def merge_queues_fields)
  note e = assms(5) [unfolded enqueue_cases [OF assms(1,2)] Let_def]
  consider sop where "sops = [sop]" | "length sops \<noteq> 1" by (metis One_nat_def length_0_conv length_Suc_conv)
  then show ?thesis
  proof cases
    case (1 sop)
    show ?thesis
      using assms(2,3,4) 1 unfolding placed_def e by (cases alter) (auto simp: nth_upd_sem n)
  next
    case 2
    then show ?thesis using assms(3,4) unfolding placed_def e by (cases alter) auto
  qed
qed

lemma enqueue_mode:
  assumes "sops \<noteq> []" "nums_in (sem_nsems a) sops" "0 \<le> complex_count a"
    and "complex_count a \<noteq> 0 \<Longrightarrow> \<forall>s \<in> set (sems a). sem_alter s = []"
  shows "complex_count (enqueue_sop cur sops alter a) \<noteq> 0 \<Longrightarrow>
      \<forall>s \<in> set (sems (enqueue_sop cur sops alter a)). sem_alter s = []"
    and "complex_count (enqueue_sop cur sops alter a) = 0 \<Longrightarrow>
      length sops = 1 \<and> complex_count a = 0 \<and> pending_alter (enqueue_sop cur sops alter a) = pending_alter a"
proof -
  have l: "length sops = 1 \<or> length sops > 1" using assms(1) by (cases sops) auto
  let ?b = "enqueue_base sops a"
  note e = enqueue_cases [OF assms(1,2), of cur alter, unfolded Let_def]
  have c: "complex_count ?b = complex_count a" by (simp add: enqueue_base_def merge_queues_fields)
  show "complex_count (enqueue_sop cur sops alter a) = 0 \<Longrightarrow>
      length sops = 1 \<and> complex_count a = 0 \<and> pending_alter (enqueue_sop cur sops alter a) = pending_alter a"
    using enqueue_fields(3) [OF assms(1,2), of cur alter] l assms(3) unfolding e
    by (auto simp: c enqueue_base_def split: if_splits)
  assume n: "complex_count (enqueue_sop cur sops alter a) \<noteq> 0"
  have eb: "\<forall>s \<in> set (sems ?b). sem_alter s = []" if "length sops \<noteq> 1 \<or> complex_count a \<noteq> 0"
    using assms(4) that by (auto simp: enqueue_base_def merge_queues_fields)
  have s: "length sops = 1 \<longrightarrow> complex_count a \<noteq> 0"
    using n enqueue_fields(3) [OF assms(1,2), of cur alter] by auto
  have "map sem_alter (sems (enqueue_sop cur sops alter a)) = map sem_alter (sems ?b)"
    unfolding e using s by (simp add: map_upd_sem c)
  then have "sem_alter ` set (sems (enqueue_sop cur sops alter a)) = sem_alter ` set (sems ?b)"
    by (metis set_map)
  then show "\<forall>s \<in> set (sems (enqueue_sop cur sops alter a)). sem_alter s = []" using eb s by auto
qed

text \<open>An operation that would sleep is blocked, and its last look tells why.\<close>

lemma perform_sleep:
  assumes "sop_queue_ok (sem_nsems (sw_sma w)) q" "undos_ok (sw_undos w)" "vals_ok (sems (sw_sma w))"
    and "perform_atomic_semop (sw_sma w) (sw_undos w) q = (a, us, q', SemSleep)"
  shows "a = sw_sma w" "us = sw_undos w" "q' = q\<lparr>q_blocking := q_blocking q'\<rparr>"
    "\<exists>sop. snd (snd (snd (semop_slow_scan (q_undo q) [] (q_sops q) (sems (sw_sma w)) (sw_undos w)))) = WouldBlock sop
           \<and> block_result sop = SemSleep"
    "q_sops q = [sop] \<Longrightarrow> sem_op sop \<noteq> 0 \<Longrightarrow> may_wait sop"
proof -
  note k = perform_keeps [OF assms(4,1,2,3)]
  show "a = sw_sma w" "us = sw_undos w" using k(8) by simp_all
  show "q' = q\<lparr>q_blocking := q_blocking q'\<rparr>" by (rule k(7))
  show ex: "\<exists>sop. snd (snd (snd (semop_slow_scan (q_undo q) [] (q_sops q) (sems (sw_sma w)) (sw_undos w)))) = WouldBlock sop
           \<and> block_result sop = SemSleep"
    using assms(4) perform_eq_slow [OF assms(1,2)] perform_slow_sleeps [of "sw_sma w" "sw_undos w" q] by simp
  assume one: "q_sops q = [sop]" "sem_op sop \<noteq> 0"
  have n: "sem_num sop < sem_nsems (sw_sma w)" using assms(1) one(1) by (simp add: sop_queue_ok_def)
  then have "0 \<le> semval (sems (sw_sma w) ! sem_num sop)" using assms(3) by (simp add: vals_ok_def)
  then show "may_wait sop"
    using ex one n
    by (auto simp: scan_Cons sop_check_def block_result_def may_wait_def Let_def split: if_splits)
qed

lemma semop_sleep:
  assumes "in_order w" "mode_ok w" "mode_locked locknum w" "call_ok (sem_nsems (sw_sma w)) q"
    and "cur \<notin> set (waiters (sw_sma w))" "length (q_sops q) > 1 \<Longrightarrow> locknum = SEM_GLOBAL_LOCK"
    and "perform_atomic_semop (sw_sma w) (sw_undos w) q = (a, us, q', SemSleep)"
    and "p = q'\<lparr>q_status := Some EINTR, q_sleeper := cur\<rparr>"
    and "v = w\<lparr>sw_sma := enqueue_sop cur (q_sops q) (q_alter q) (sw_sma w), sw_stacks := (sw_stacks w)(cur \<mapsto> p)\<rparr>"
  shows "semop_section now cur q locknum w = (sw_unlock locknum v, SemSleep)" "in_order v" "mode_locked locknum v"
proof -
  have ok: "work_ok w" using assms(1) by (simp add: in_order_def)
  have u: "undos_ok (sw_undos w)" "vals_ok (sems (sw_sma w))" using ok unfolding work_ok_def by blast+
  note qk = call_queue_ok [OF assms(4)]
  have ne: "q_sops q \<noteq> []" and nums: "nums_in (sem_nsems (sw_sma w)) (q_sops q)"
    using assms(4) by (simp_all add: call_ok_def)
  note ps = perform_sleep [OF qk u assms(7)]
  have q': "q_sops q' = q_sops q" "q_alter q' = q_alter q" "q_undo q' = q_undo q" "q_dupsop q' = q_dupsop q"
    using arg_cong [OF ps(3), of q_sops] arg_cong [OF ps(3), of q_alter] arg_cong [OF ps(3), of q_undo]
      arg_cong [OF ps(3), of q_dupsop] by simp_all
  have p: "q_sops p = q_sops q" "q_undo p = q_undo q" "q_dupsop p = q_dupsop q" by (simp_all add: assms(8) q')
  have vf: "sw_sma v = enqueue_sop cur (q_sops q) (q_alter q) (sw_sma w)" "sw_undos v = sw_undos w"
    "sw_stacks v = (sw_stacks w)(cur \<mapsto> p)"
    by (simp_all add: assms(9))
  note ef = enqueue_fields [OF ne nums, of cur "q_alter q"]
  define w0 where "w0 = w\<lparr>sw_sma := enqueue_base (q_sops q) (sw_sma w)\<rparr>"
  have b: "mset (waiters (sw_sma w0)) = mset (waiters (sw_sma w))" "map semval (sems (sw_sma w0)) = map semval (sems (sw_sma w))"
    "complex_count (sw_sma w0) = complex_count (sw_sma w)" "use_global_lock (sw_sma w0) = use_global_lock (sw_sma w)"
    "sw_undos w0 = sw_undos w" "sw_stacks w0 = sw_stacks w"
    by (simp_all add: w0_def enqueue_base_def merge_queues_fields merge_queues_waiters)
  have n0: "sem_nsems (sw_sma w0) = sem_nsems (sw_sma w)" using arg_cong [OF b(2), of length] by simp
  have o0: "in_order w0"
    using merge_order [OF assms(1)] assms(1) by (auto simp: w0_def enqueue_base_def)
  have j: "joins cur w0 v p"
    unfolding joins_def using assms(5) mset_eq_setD [OF b(1)] ef b vf p(1) by simp
  have pk: "sop_queue_ok (sem_nsems (sw_sma w0)) p" using qk p n0 by (simp add: sop_queue_ok_def)
  have pl: "placed cur (q_sops p) w0 v"
    unfolding p(1) w0_def using call_alter [OF assms(4)] ps(5) vf(1)
    by (intro enqueue_placed [OF ne nums]) auto
  have vs: "sw_stacks v cur = Some p" by (simp add: vf)
  have nv: "sem_nsems (sw_sma v) = sem_nsems (sw_sma w)" using arg_cong [OF ef(2), of length] vf by simp
  have bl: "blocked v cur"
    using ps(4) slow_scan_verdict_cong [of "sems (sw_sma v)" "sems (sw_sma w)" "q_sops q" "q_undo q" "[]" "sw_undos w"] nums ef(2)
      blocked_iff [OF vs] pk u p vf n0 nv by simp
  show "in_order v" by (rule join_order [OF o0 j pk _ pl bl]) (simp add: p ne)
  show "mode_locked locknum v"
  proof -
    have mo: "complex_count (sw_sma w) = 0 \<Longrightarrow> pending_alter (sw_sma w) = []"
      "complex_count (sw_sma w) \<noteq> 0 \<Longrightarrow> \<forall>s \<in> set (sems (sw_sma w)). sem_alter s = []"
      "complex_count (sw_sma w) \<noteq> 0 \<Longrightarrow> use_global_lock (sw_sma w) \<noteq> 0" "use_global_lock (sw_sma w) \<le> 10"
      using assms(2) unfolding mode_ok_def by blast+
    have ml: "if locknum = SEM_GLOBAL_LOCK then use_global_lock (sw_sma w) \<noteq> 0
        else complex_count (sw_sma w) = 0 \<and> pending_alter (sw_sma w) = []"
      using assms(3) unfolding mode_locked_def by blast
    have cc: "0 \<le> complex_count (sw_sma w)" using ok unfolding work_ok_def by simp
    note em = enqueue_mode [OF ne nums cc mo(2), of cur "q_alter q", folded vf(1)]
    have pa: "pending_alter (sw_sma v) = []" if "complex_count (sw_sma v) = 0"
      using em(2) [OF _ that] mo(1) by simp
    have g: "use_global_lock (sw_sma v) = use_global_lock (sw_sma w)" using ef(4) vf by simp
    have c1: "complex_count (sw_sma v) = 0" if "locknum \<noteq> SEM_GLOBAL_LOCK"
      using that ml assms(6) ef(3) vf by auto
    show ?thesis
      unfolding mode_locked_def one_mode_def
      using em(1) pa g c1 ml mo(3,4) by auto
  qed
  show "semop_section now cur q locknum w = (sw_unlock locknum v, SemSleep)"
    using ps(1,2) q' vf by (simp add: semop_section_def assms(7,8,9))
qed

section \<open>The other sections\<close>

lemma sw_lock_fields:
  assumes "sw_lock sops w = (v, locknum)"
  shows "sems (sw_sma v) = sems (sw_sma w)" "waiters (sw_sma v) = waiters (sw_sma w)" "sw_stacks v = sw_stacks w"
    "sw_undos v = sw_undos w"
  using sw_lock_view [of w sops] same_view_waiters [of w v] assms by (simp_all add: same_view_def)

lemma sw_lock_inv:
  assumes "arr_inv w" "sw_lock sops w = (v, locknum)"
  shows "in_order v" "mode_ok v" "mode_locked locknum v"
proof -
  show ml: "mode_locked locknum v" using sw_lock_mode [OF _ assms(2)] assms(1) by (simp add: arr_inv_def)
  show "in_order v"
    using same_view_order [OF sw_lock_view [of w sops]] assms by (simp add: arr_inv_def)
  have "pending_alter (sw_sma v) = pending_alter (sw_sma w)" "complex_count (sw_sma v) = complex_count (sw_sma w)"
    using sw_lock_view [of w sops] assms(2) by (simp_all add: same_view_def)
  then show "mode_ok v" using ml assms(1) by (simp add: mode_locked_def mode_ok_def arr_inv_def)
qed

lemma semop_inv:
  assumes "arr_inv w" "sw_lock (Some (q_sops q)) w = (v, locknum)" "call_ok (sem_nsems (sw_sma w)) q"
    and "cur \<notin> set (waiters (sw_sma w))"
  shows "arr_inv (fst (semop_section now cur q locknum v))"
proof -
  note l = sw_lock_inv [OF assms(1,2)] and f = sw_lock_fields [OF assms(2)]
  have c: "call_ok (sem_nsems (sw_sma v)) q" using assms(3) f(1) by simp
  have g: "length (q_sops q) > 1 \<Longrightarrow> locknum = SEM_GLOBAL_LOCK"
    using assms(2) by (auto simp: sw_lock_def sem_lock_def split: list.splits if_splits)
  obtain a us q' r where p: "perform_atomic_semop (sw_sma v) (sw_undos v) q = (a, us, q', r)" by (metis prod_cases4)
  show ?thesis
  proof (cases r)
    case SemDone
    note d = semop_done [OF l(1,3) c p [unfolded SemDone] refl]
    show ?thesis using sw_unlock_inv [OF d(2,3)] d(1) by simp
  next
    case SemSleep
    have "cur \<notin> set (waiters (sw_sma v))" using assms(4) f by simp
    note d = semop_sleep [OF l(1,2,3) c this g p [unfolded SemSleep] refl refl]
    show ?thesis using sw_unlock_inv [OF d(2,3)] d(1) by simp
  next
    case (SemErr e)
    show ?thesis by (rule semop_err(2) [OF l(1,3) c p [unfolded SemErr]])
  qed
qed

lemma unlink_order:
  assumes "in_order w" "t \<in> set (waiters (sw_sma w))"
  shows "in_order (sw_unlink t w)"
  by (rule settled_less [OF assms(1) unlink_ok]) (use assms in \<open>auto simp: in_order_def intro: unlink_lists\<close>)

lemma unlink_mode:
  assumes "mode_locked locknum w" "work_ok w" "t \<in> set (waiters (sw_sma w))"
  shows "mode_locked locknum (sw_unlink t w)"
proof -
  let ?b = "unlink_queue (sw_stacks w) t (sw_sma w)"
  have al: "alter_lists ?b = (removeAll t (pending_alter (sw_sma w)), map (removeAll t) (map sem_alter (sems (sw_sma w))))"
    by simp
  have e: "\<forall>s \<in> set (sems ?b). sem_alter s = []" if "\<forall>s \<in> set (sems (sw_sma w)). sem_alter s = []"
  proof -
    have "set (map sem_alter (sems ?b)) = set (map (removeAll t) (map sem_alter (sems (sw_sma w))))"
      using al by (simp add: alter_lists_def)
    with that show ?thesis by fastforce
  qed
  have p: "pending_alter ?b = removeAll t (pending_alter (sw_sma w))" using al by (simp add: alter_lists_def)
  have g: "use_global_lock ?b = use_global_lock (sw_sma w)"
    by (simp add: unlink_queue_def del_task_def Let_def)
  have "work_ok (sw_unlink t w)" by (rule unlink_ok [OF assms(2,3)])
  then have cb: "complex_count ?b = int (length (filter (is_complex (sw_stacks w)) (removeAll t (waiters (sw_sma w)))))"
    unfolding work_ok_def by simp
  have "complex_count (sw_sma w) = int (length (filter (is_complex (sw_stacks w)) (waiters (sw_sma w))))"
    using assms(2) unfolding work_ok_def by blast
  then have c: "complex_count (sw_sma w) = 0 \<Longrightarrow> complex_count ?b = 0"
    using cb by (auto simp: filter_empty_conv)
  show ?thesis
    using assms(1) e p g c unfolding mode_locked_def one_mode_def
    by (auto split: if_splits)
qed

lemma resume_inv:
  assumes "arr_inv w" "sw_lock sops w = (v, locknum)" "leave \<Longrightarrow> cur \<in> set (waiters (sw_sma w))"
  shows "arr_inv (resume_section leave cur locknum v)"
proof -
  note l = sw_lock_inv [OF assms(1,2)] and f = sw_lock_fields [OF assms(2)]
  have ok: "work_ok v" using l(1) by (simp add: in_order_def)
  show ?thesis
  proof (cases leave)
    case True
    then have t: "cur \<in> set (waiters (sw_sma v))" using assms(3) f by simp
    show ?thesis
      using sw_unlock_inv [OF unlink_order [OF l(1) t] unlink_mode [OF l(3) ok t]] True by (simp add: resume_section_def)
  next
    case False
    then show ?thesis using sw_unlock_inv [OF l(1,3)] by (simp add: resume_section_def)
  qed
qed

text \<open>A change of the values and the adjustments under the global lock, with a full pass.\<close>

lemma change_inv:
  assumes "in_order w" "mode_locked (-1) w"
    and "sw_sma v = (sw_sma w)\<lparr>sems := ss, sem_ctime := c, list_id := l\<rparr>"
    and "sem_lists ss = sem_lists (sems (sw_sma w))" "vals_ok ss" "undos_ok (sw_undos v)" "sw_stacks v = sw_stacks w"
  shows "arr_inv (sw_unlock (-1) (do_smart_update now None otime v))" "work_ok v"
    "in_order (do_smart_update now None otime v)"
proof -
  let ?u = "do_smart_update now None otime v"
  have w: "work_ok w" "queues_typed w" using assms(1) by (simp_all add: in_order_def)
  have om: "one_mode w" using assms(2) by (simp add: mode_locked_def)
  have eq: "sw_sma v = (sw_sma w)\<lparr>sems := sems (sw_sma v), sem_ctime := sem_ctime (sw_sma v), list_id := list_id (sw_sma v)\<rparr>"
    using assms(3) by simp
  have sl: "sem_lists (sems (sw_sma v)) = sem_lists (sems (sw_sma w))" and vo: "vals_ok (sems (sw_sma v))"
    using assms(3,4,5) by simp_all
  note r = rescan_order [OF w om eq sl vo assms(6,7)]
  have al: "map sem_alter (sems (sw_sma v)) = map sem_alter (sems (sw_sma w))"
    using arg_cong [OF sl, of "map fst"] by (simp add: sem_lists_def o_def)
  have e: "sem_alter ` set (sems (sw_sma v)) = sem_alter ` set (sems (sw_sma w))"
    using arg_cong [OF al, of set] by simp
  have f: "complex_count (sw_sma v) = complex_count (sw_sma w)" "use_global_lock (sw_sma v) = use_global_lock (sw_sma w)"
    "pending_alter (sw_sma v) = pending_alter (sw_sma w)"
    using assms(3) by simp_all
  have em: "(\<forall>s \<in> set (sems (sw_sma v)). sem_alter s = []) = (\<forall>s \<in> set (sems (sw_sma w)). sem_alter s = [])"
    using e by (metis (no_types, lifting) imageE imageI)
  have mv: "mode_locked (-1) v"
    using assms(2) unfolding mode_locked_def one_mode_def f em .
  show vok: "work_ok v"
  proof (rule work_okI)
    have W: "waiters (sw_sma v) = waiters (sw_sma w)"
      by (rule waiters_cong(3)) (use assms(3) sl in simp_all)
    have n: "sem_nsems (sw_sma v) = sem_nsems (sw_sma w)" using arg_cong [OF al, of length] by simp
    show "vals_ok (sems (sw_sma v))" "undos_ok (sw_undos v)" by (rule vo, rule assms(6))
    show "distinct (waiters (sw_sma v))"
      and "complex_count (sw_sma v) = int (length (filter (is_complex (sw_stacks v)) (waiters (sw_sma v))))"
      and "\<And>t. t \<in> set (waiters (sw_sma v)) \<Longrightarrow> \<exists>q. sw_stacks v t = Some q \<and> sop_queue_ok (sem_nsems (sw_sma v)) q"
      unfolding W n f(1) assms(7) using w(1) unfolding work_ok_def by blast+
  qed
  have "mode_locked (-1) ?u"
    by (rule mode_locked_rel [OF r(2) mv]) (rule complex_count_rel [OF r(2) vok])
  then show "arr_inv (sw_unlock (-1) ?u)" by (rule sw_unlock_inv [OF r(1)])
  show "in_order ?u" by (rule r(1))
qed

lemma clear_adj_ok [simp]: "undos_ok us \<Longrightarrow> undos_ok (clear_adj uns i us)"
  by (induction uns arbitrary: us) simp_all

lemma clear_adj_all_ok [simp]: "undos_ok us \<Longrightarrow> undos_ok (clear_adj_all uns n us)"
  by (induction n) simp_all

lemma sem_lists_eqI:
  assumes "length ss' = length ss"
    and "\<And>i. i < length ss \<Longrightarrow> sem_alter (ss' ! i) = sem_alter (ss ! i) \<and> sem_const (ss' ! i) = sem_const (ss ! i)"
  shows "sem_lists ss' = sem_lists ss"
  using assms by (auto simp: sem_lists_def intro!: nth_equalityI)

lemma vals_okI: "(\<And>i. i < length ss \<Longrightarrow> 0 \<le> semval (ss ! i) \<and> semval (ss ! i) \<le> SEMVMX) \<Longrightarrow> vals_ok ss"
  by (auto simp: vals_ok_def in_set_conv_nth)

lemma vals_ok_nth: "vals_ok ss \<Longrightarrow> i < length ss \<Longrightarrow> 0 \<le> semval (ss ! i) \<and> semval (ss ! i) \<le> SEMVMX"
  by (simp add: vals_ok_def)

lemma array_self: "(a :: sem_array) = a\<lparr>sems := sems a, sem_ctime := sem_ctime a, list_id := list_id a\<rparr>"
  by simp

lemma setval_inv:
  assumes "arr_inv w" "sw_lock None w = (v, locknum)" "i < sem_nsems (sw_sma w)" "0 \<le> val" "val \<le> SEMVMX"
  shows "arr_inv (setval_section now tgid i val v)"
proof -
  note l = sw_lock_inv [OF assms(1,2)] and f = sw_lock_fields [OF assms(2)]
  have g: "locknum = -1" using assms(2) by (auto simp: sw_lock_def sem_lock_def SEM_GLOBAL_LOCK_def)
  have u: "vals_ok (sems (sw_sma v))" "undos_ok (sw_undos v)"
    using l(1) unfolding in_order_def work_ok_def by blast+
  show ?thesis
    unfolding setval_section_def Let_def
  proof (rule change_inv(1) [OF l(1) l(3) [unfolded g], where l = "list_id (sw_sma v)"])
    let ?ss = "upd_sem i (\<lambda>x. x\<lparr>semval := val, sempid := Some tgid\<rparr>) (sems (sw_sma v))"
    show "sem_lists ?ss = sem_lists (sems (sw_sma v))"
      by (rule sem_lists_eqI) (simp_all add: nth_upd_sem)
    show "vals_ok ?ss"
      by (rule vals_okI) (use assms(4,5) vals_ok_nth [OF u(1)] in \<open>auto simp: nth_upd_sem\<close>)
  qed (use u in simp_all)
qed

lemma setall_inv:
  assumes "arr_inv w" "sw_lock None w = (v, locknum)" "\<And>i. i < sem_nsems (sw_sma w) \<Longrightarrow> uint (io i) \<le> SEMVMX"
  shows "arr_inv (setall_section now tgid io v)"
proof -
  note l = sw_lock_inv [OF assms(1,2)] and f = sw_lock_fields [OF assms(2)]
  have g: "locknum = -1" using assms(2) by (auto simp: sw_lock_def sem_lock_def SEM_GLOBAL_LOCK_def)
  have u: "undos_ok (sw_undos v)" using l(1) unfolding in_order_def work_ok_def by blast
  show ?thesis
    unfolding setall_section_def Let_def
  proof (rule change_inv(1) [OF l(1) l(3) [unfolded g], where l = "list_id (sw_sma v)"])
    let ?ss = "map (\<lambda>i. (sems (sw_sma v) ! i)\<lparr>semval := uint (io i), sempid := Some tgid\<rparr>) [0..<sem_nsems (sw_sma v)]"
    show "sem_lists ?ss = sem_lists (sems (sw_sma v))" by (rule sem_lists_eqI) simp_all
    show "vals_ok ?ss" by (rule vals_okI) (use assms(3) f(1) in simp)
  qed (use u in simp_all)
qed

lemma adj_sem_fields: "sem_alter (adj_sem tgid adj x) = sem_alter x" "sem_const (adj_sem tgid adj x) = sem_const x"
  by (simp_all add: adj_sem_def Let_def)

lemma adj_sem_range: "0 \<le> semval x \<and> semval x \<le> SEMVMX \<Longrightarrow> 0 \<le> semval (adj_sem tgid adj x) \<and> semval (adj_sem tgid adj x) \<le> SEMVMX"
  by (auto simp: adj_sem_def Let_def limits)

lemma apply_undo_ok:
  shows "sem_lists (apply_undo tgid adj ss) = sem_lists ss" "vals_ok ss \<Longrightarrow> vals_ok (apply_undo tgid adj ss)"
  by (rule sem_lists_eqI, simp_all add: apply_undo_def adj_sem_fields)
    (rule vals_okI, simp add: vals_ok_nth adj_sem_range)

lemma exit_inv:
  assumes "arr_inv w" "sw_lock None w = (v, locknum)"
  shows "arr_inv (exit_section now tgid un v)"
proof -
  note l = sw_lock_inv [OF assms(1,2)]
  have g: "locknum = -1" using assms(2) by (auto simp: sw_lock_def sem_lock_def SEM_GLOBAL_LOCK_def)
  have u: "vals_ok (sems (sw_sma v))" "undos_ok (sw_undos v)"
    using l(1) unfolding in_order_def work_ok_def by blast+
  let ?adj = "case sw_undos v un of Some u \<Rightarrow> semadj u | None \<Rightarrow> []"
  show ?thesis
    unfolding exit_section_def Let_def
    by (rule change_inv(1) [OF l(1) l(3) [unfolded g], where ss = "apply_undo tgid ?adj (sems (sw_sma v))"
          and c = "sem_ctime (sw_sma v)" and l = "remove1 un (list_id (sw_sma v))"])
      (use u apply_undo_ok in simp_all)
qed
end
