(* ===== verification/SemReach.thy ===== *)
theory SemReach
  imports SemCall
begin

text \<open>
  A semaphore array over time: the critical sections of the system calls as a step relation,
  and the proof that every reachable array is in order.
\<close>

section \<open>One array over time\<close>

text \<open>
  The critical sections on one array, one at a time, in any order. A task calls \<^verbatim>\<open>semtimedop\<close>
  only while it does not sleep, and leaves only a queue it is on.
\<close>

inductive arr_step :: "sem_work \<Rightarrow> sem_work \<Rightarrow> bool" where
  arr_call: "\<lbrakk>cur \<notin> set (waiters (sw_sma w)); call_ok (sem_nsems (sw_sma w)) q; sw_lock (Some (q_sops q)) w = (v, locknum)\<rbrakk>
    \<Longrightarrow> arr_step w (fst (semop_section now cur q locknum v))"
| arr_resume: "\<lbrakk>leave \<Longrightarrow> cur \<in> set (waiters (sw_sma w)); sw_lock sops w = (v, locknum)\<rbrakk>
    \<Longrightarrow> arr_step w (resume_section leave cur locknum v)"
| arr_setval: "\<lbrakk>i < sem_nsems (sw_sma w); 0 \<le> val; val \<le> SEMVMX; sw_lock None w = (v, locknum)\<rbrakk>
    \<Longrightarrow> arr_step w (setval_section now tgid i val v)"
| arr_setall: "\<lbrakk>\<forall>i < sem_nsems (sw_sma w). uint (io i) \<le> SEMVMX; sw_lock None w = (v, locknum)\<rbrakk>
    \<Longrightarrow> arr_step w (setall_section now tgid io v)"
| arr_exit: "sw_lock None w = (v, locknum) \<Longrightarrow> arr_step w (exit_section now tgid un v)"
| arr_awake: "arr_step w (w\<lparr>sw_wake := []\<rparr>)"
| arr_stack: "t \<notin> set (waiters (sw_sma w)) \<Longrightarrow> arr_step w (w\<lparr>sw_stacks := (sw_stacks w)(t := s)\<rparr>)"
| arr_undo: "\<lbrakk>undos_ok us; \<And>t q p. \<lbrakk>t \<in> set (waiters (sw_sma w)); sw_stacks w t = Some q; q_undo q = Some p\<rbrakk>
                \<Longrightarrow> us p = sw_undos w p\<rbrakk>
    \<Longrightarrow> arr_step w (w\<lparr>sw_undos := us\<rparr>)"

definition arr_start :: "sem_work \<Rightarrow> bool" where
  "arr_start w \<longleftrightarrow>
     (\<forall>s \<in> set (sems (sw_sma w)). semval s = 0 \<and> sem_alter s = [] \<and> sem_const s = [])
     \<and> pending_alter (sw_sma w) = [] \<and> pending_const (sw_sma w) = [] \<and> complex_count (sw_sma w) = 0
     \<and> use_global_lock (sw_sma w) = USE_GLOBAL_LOCK_HYSTERESIS \<and> undos_ok (sw_undos w)"

lemma start_waiters: "arr_start w \<Longrightarrow> waiters (sw_sma w) = []"
  by (auto simp: arr_start_def waiters_def alter_waiters_def const_waiters_def)

lemma start_inv:
  assumes "arr_start w"
  shows "arr_inv w"
proof -
  note W = start_waiters [OF assms]
  have e: "sem_alter (sems (sw_sma w) ! i) = []" "sem_const (sems (sw_sma w) ! i) = []"
    if "i < sem_nsems (sw_sma w)" for i
    using assms that by (simp_all add: arr_start_def)
  have "work_ok w"
    by (rule work_okI) (use assms W in \<open>auto simp: arr_start_def vals_ok_def limits\<close>)
  moreover have "queues_typed w" using e assms by (simp add: queues_typed_def arr_start_def)
  moreover have "all_settled w"
    using e assms W by (simp add: all_settled_def dec_settled_def const_quiet_def arr_start_def waiters_def)
  ultimately show ?thesis
    using assms by (simp add: arr_inv_def in_order_def mode_ok_def arr_start_def USE_GLOBAL_LOCK_HYSTERESIS_def)
qed

text \<open>The verdict on a waiter reads the adjustments of its own undo structure only.\<close>

lemma slow_scan_us_cong:
  assumes "\<And>p. un = Some p \<Longrightarrow> us' p = us p" "nums_in (length ss) l"
  shows "snd (snd (snd (semop_slow_scan un b l ss us'))) = snd (snd (snd (semop_slow_scan un b l ss us)))"
  using assms
proof (induction l arbitrary: b ss us us')
  case (Cons sop l)
  have at: "semadj_at us' un i = semadj_at us un i" for i
    using Cons.prems(1) by (auto simp: semadj_at_def split: option.splits)
  then have "sop_check un sop ss us' = sop_check un sop ss us" by (simp add: sop_check_def)
  moreover have "sop_us un sop us' p = sop_us un sop us p" if "un = Some p" for p
    using Cons.prems(1) [OF that] at that by (simp add: sop_us_def semadj_set_def)
  ultimately show ?case
    using Cons.prems(2) Cons.IH [of "sop_us un sop us'" "sop_us un sop us" "sop_ss sop ss"] by (simp add: scan_Cons)
qed simp

lemma undo_inv:
  assumes "arr_inv w" "undos_ok us"
    and "\<And>t q p. \<lbrakk>t \<in> set (waiters (sw_sma w)); sw_stacks w t = Some q; q_undo q = Some p\<rbrakk> \<Longrightarrow> us p = sw_undos w p"
  shows "arr_inv (w\<lparr>sw_undos := us\<rparr>)" (is "arr_inv ?v")
proof -
  have ok: "work_ok w" and ty: "queues_typed w" and se: "all_settled w" and mo: "mode_ok w"
    using assms(1) by (simp_all add: in_order_def arr_inv_def)
  have vok: "work_ok ?v" using ok assms(2) by (simp add: work_ok_def)
  have bl: "blocked ?v t = blocked w t" if t: "t \<in> set (waiters (sw_sma w))" for t
  proof -
    obtain q where q: "sw_stacks w t = Some q" "sop_queue_ok (sem_nsems (sw_sma w)) q"
      using ok t unfolding work_ok_def by blast
    have u: "undos_ok (sw_undos w)" using ok unfolding work_ok_def by blast
    show ?thesis
      using blocked_iff [OF q u] blocked_iff [of ?v t q] q assms(2)
        slow_scan_us_cong [of "q_undo q" us "sw_undos w" "sems (sw_sma w)" "q_sops q" "[]"] assms(3) [OF t q(1)]
      by (simp add: sop_queue_ok_def)
  qed
  have "queues_typed ?v" using ty by (simp add: queues_typed_def)
  moreover have "all_settled ?v"
    using se bl alter_in_waiters pending_alter_in_waiters
    by (simp add: all_settled_def dec_settled_def const_quiet_def const_held_def)
  ultimately show ?thesis using vok mo by (simp add: arr_inv_def in_order_def mode_ok_def)
qed

lemma stack_inv:
  assumes "arr_inv w" "t \<notin> set (waiters (sw_sma w))"
  shows "arr_inv (w\<lparr>sw_stacks := (sw_stacks w)(t := s)\<rparr>)" (is "arr_inv ?v")
proof -
  have ok: "work_ok w" and ty: "queues_typed w" and se: "all_settled w" and mo: "mode_ok w"
    using assms(1) by (simp_all add: in_order_def arr_inv_def)
  have st: "sw_stacks ?v u = sw_stacks w u" "sops_of (sw_stacks ?v) u = sops_of (sw_stacks w) u"
    if "u \<in> set (waiters (sw_sma w))" for u
    using that assms(2) by (auto simp: sops_of_def)
  have "filter (is_complex (sw_stacks ?v)) (waiters (sw_sma w)) = filter (is_complex (sw_stacks w)) (waiters (sw_sma w))"
    using st(2) by (intro filter_cong) (simp_all add: is_complex_def)
  then have vok: "work_ok ?v"
    using ok st(1) unfolding work_ok_def by simp
  have "blocked ?v u = blocked w u" if "u \<in> set (waiters (sw_sma w))" for u
    using that st(1) by (intro blocked_same [OF ok vok]) simp_all
  moreover have "queues_typed ?v"
    by (rule typed_cong [OF ty]) (use st(2) in simp_all)
  moreover have "const_held ?v u = const_held w u" if "u \<in> set (waiters (sw_sma w))" for u
    by (rule const_held_cong [OF ok that]) (use st(2) [OF that] in simp_all)
  moreover have "dec_settled ?v i" if "i < sem_nsems (sw_sma w)" for i
    using se that calculation(1) alter_in_waiters [OF that] by (simp add: all_settled_def dec_settled_def)
  ultimately show ?thesis
    using vok mo se const_waiters_in pending_alter_in_waiters
    by (simp add: arr_inv_def in_order_def mode_ok_def all_settled_def const_quiet_def)
qed

lemma arr_step_inv: "arr_step w v \<Longrightarrow> arr_inv w \<Longrightarrow> arr_inv v"
proof (induction rule: arr_step.induct)
  case (arr_awake w)
  have "same_view w (w\<lparr>sw_wake := []\<rparr>)" by (simp add: same_view_def)
  then show ?case using arr_awake same_view_order by (simp add: arr_inv_def mode_ok_def)
next
  case (arr_setall w io v locknum now tgid)
  then show ?case using setall_inv by blast
next
  case (arr_undo us w)
  then show ?case using undo_inv [of w us] by blast
qed (blast intro: semop_inv resume_inv setval_inv exit_inv stack_inv)+

lemma arr_reach_inv: "arr_step\<^sup>*\<^sup>* w v \<Longrightarrow> arr_start w \<Longrightarrow> arr_inv v"
  by (induction rule: rtranclp_induct) (auto intro: start_inv arr_step_inv)
end
