(* ===== verification/SemProps.thy ===== *)
theory SemProps
  imports SemReach
begin

text \<open>
  The properties of the semaphore engine, with a small array on which each is evaluated.
\<close>

unbundle bit_operations_syntax

section \<open>A small array\<close>

definition sample_work :: "int \<Rightarrow> sem_work" where
  "sample_work v =
     \<lparr>sw_sma =
        \<lparr>perm_deleted = False, perm_id = 0, perm_key = 42, perm_uid = 0, perm_gid = 0,
         perm_cuid = 0, perm_cgid = 0, perm_mode = 384, perm_seq = 0, perm_refcount = 1,
         sem_ctime = 0, pending_alter = [], pending_const = [], list_id = [], complex_count = 0,
         use_global_lock = USE_GLOBAL_LOCK_HYSTERESIS,
         sems = [\<lparr>semval = v, sempid = None, sem_alter = [], sem_const = [], sem_otime = 0\<rparr>]\<rparr>,
      sw_undos = Map.empty, sw_stacks = Map.empty, sw_wake = []\<rparr>"

definition sample_sop :: "int \<Rightarrow> sembuf" where
  "sample_sop d = \<lparr>sem_num = 0, sem_op = d, sem_flg = 0\<rparr>"

definition sample_op :: "int \<Rightarrow> sem_queue" where
  "sample_op d = \<lparr>q_sleeper = 0, q_undo = None, q_pid = 5, q_status = None, q_sops = [sample_sop d],
     q_blocking = None, q_alter = (d \<noteq> 0), q_dupsop = False\<rparr>"

text \<open>Task 7 waits for the semaphore to become positive.\<close>

definition waiting_work :: sem_work where
  "waiting_work = fst (semop_section 100 7 (sample_op (-1)) SEM_GLOBAL_LOCK (fst (sw_lock (Some [sample_sop (-1)]) (sample_work 0))))"

definition waiting_expected :: sem_work where
  "waiting_expected =
     \<lparr>sw_sma = (sw_sma (sample_work 0))\<lparr>use_global_lock := 9,
         sems := [\<lparr>semval = 0, sempid = None, sem_alter = [7], sem_const = [], sem_otime = 0\<rparr>]\<rparr>,
      sw_undos = Map.empty,
      sw_stacks = Map.empty(7 \<mapsto> (sample_op (-1))\<lparr>q_sleeper := 7, q_status := Some EINTR, q_blocking := Some (sample_sop (-1))\<rparr>),
      sw_wake = []\<rparr>"

lemmas sample_defs = sample_work_def sample_sop_def sample_op_def

lemma sample_start: "arr_start (sample_work 0)"
  by (simp add: arr_start_def sample_defs undos_ok_def)

lemma sample_call: "call_ok (sem_nsems (sw_sma (sample_work v))) (sample_op (-1))" "call_ok (sem_nsems (sw_sma (sample_work v))) (sample_op 1)"
  by (simp_all add: call_ok_def sample_defs scan_sops_def scan_sop_def no_flags_def wants_undo_def SEM_UNDO_def Let_def)

lemma waiting_eval: "waiting_work = waiting_expected"
  by (simp add: waiting_work_def waiting_expected_def semop_section_def sample_defs perform_atomic_semop_def
      semop_fast_scan.simps array_index_nospec_def block_result_def IPC_NOWAIT_def sw_unlock_def sem_unlock_def
      SEM_GLOBAL_LOCK_def unmerge_queues_def complexmode_tryleave_def enqueue_sop_def upd_sem_def sw_lock_def sem_lock_def
      complexmode_enter_def USE_GLOBAL_LOCK_HYSTERESIS_def)

lemma waiting_reach: "arr_step\<^sup>*\<^sup>* (sample_work 0) waiting_work"
proof -
  let ?w = "sample_work 0"
  obtain v l where v: "sw_lock (Some (q_sops (sample_op (-1)))) ?w = (v, l)" by (metis surj_pair)
  have "l = SEM_GLOBAL_LOCK" using v by (simp add: sw_lock_def sem_lock_def sample_defs USE_GLOBAL_LOCK_HYSTERESIS_def)
  then have "waiting_work = fst (semop_section 100 7 (sample_op (-1)) l v)"
    using v by (simp add: waiting_work_def sample_op_def)
  moreover have "arr_step ?w (fst (semop_section 100 7 (sample_op (-1)) l v))"
    by (rule arr_call [OF _ sample_call(1) v]) (simp add: start_waiters sample_start)
  ultimately show ?thesis by simp
qed

lemma waiting_task: "7 \<in> set (waiters (sw_sma waiting_work))"
  by (simp add: waiting_eval waiting_expected_def waiters_def alter_waiters_def const_waiters_def)

lemma waiting_stack: "sw_stacks waiting_work 7 \<noteq> None"
  by (simp add: waiting_eval waiting_expected_def)

section \<open>No wake-up is lost\<close>

lemma settled_not_done:
  assumes "in_order w" "t \<in> set (waiters (sw_sma w))"
  shows "snd (try_sleeper t w) \<noteq> SemDone" "t \<in> set (alter_waiters (sw_sma w)) \<Longrightarrow> snd (try_sleeper t w) = SemSleep"
proof -
  have ok: "work_ok w" and ty: "queues_typed w" and se: "all_settled w" using assms(1) by (simp_all add: in_order_def)
  show alt: "snd (try_sleeper t w) = SemSleep" if "t \<in> set (alter_waiters (sw_sma w))"
  proof (cases "t \<in> set (pending_alter (sw_sma w))")
    case True
    then show ?thesis using se by (simp add: all_settled_def blocked_def)
  next
    case False
    with that obtain s where "s \<in> set (sems (sw_sma w))" "t \<in> set (sem_alter s)"
      by (auto simp: alter_waiters_def)
    then obtain i where "i < sem_nsems (sw_sma w)" "t \<in> set (sem_alter (sems (sw_sma w) ! i))"
      by (metis in_set_conv_nth)
    then show ?thesis using se by (simp add: all_settled_def dec_settled_def blocked_def)
  qed
  show "snd (try_sleeper t w) \<noteq> SemDone"
  proof (cases "t \<in> set (alter_waiters (sw_sma w))")
    case True
    then show ?thesis using alt by simp
  next
    case False
    then have c: "t \<in> set (const_waiters (sw_sma w))" using assms(2) by (simp add: waiters_def)
    have "\<forall>sop \<in> set (sops_of (sw_stacks w) t). sem_op sop = 0"
      using typed_const [OF ty] c by (simp add: const_zero_def)
    then show ?thesis
      using const_done_iff [OF ok assms(2)] c se by (simp add: all_settled_def const_quiet_def)
  qed
qed

text \<open>C2. In every reachable state of an array, between the critical sections of the system calls,
  no task sleeps on it whose operations could proceed. A task that waits to change a value
  would only sleep again; one that waits for zero would at most find an error.
\<close>

theorem sem_no_lost_wakeup:
  assumes "arr_start w" "arr_step\<^sup>*\<^sup>* w v" "t \<in> set (waiters (sw_sma v))"
  shows "snd (try_sleeper t v) \<noteq> SemDone
    \<and> (t \<in> set (alter_waiters (sw_sma v)) \<longrightarrow> snd (try_sleeper t v) = SemSleep)"
  using arr_reach_inv [OF assms(2,1)] settled_not_done [OF _ assms(3)] by (simp add: arr_inv_def)

theorem sem_no_lost_wakeup_witness: "snd (try_sleeper 7 waiting_work) = SemSleep"
proof -
  have "7 \<in> set (alter_waiters (sw_sma waiting_work))"
    by (simp add: waiting_eval waiting_expected_def alter_waiters_def)
  then show ?thesis using sem_no_lost_wakeup [OF sample_start waiting_reach waiting_task] by blast
qed

text \<open>C5. In every reachable state of an array all values are between 0 and 32767, all adjustments
  fit in a short, no task is on two queues, \<^verbatim>\<open>complex_count\<close> is the number of sleeping tasks
  with several operations, the global lock is never given up while there is one, its counter
  stays at most 10, and alter operations wait either all on the queue of the array or all on
  the queues of their semaphores.
\<close>

theorem sem_reachable_sound:
  assumes "arr_start w" "arr_step\<^sup>*\<^sup>* w v"
  shows "(\<forall>i < sem_nsems (sw_sma v). 0 \<le> semval (sems (sw_sma v) ! i) \<and> semval (sems (sw_sma v) ! i) \<le> 32767)
    \<and> (\<forall>un i. - 32768 \<le> semadj_at (sw_undos v) un i \<and> semadj_at (sw_undos v) un i \<le> 32767)
    \<and> distinct (waiters (sw_sma v))
    \<and> complex_count (sw_sma v) = int (length (filter (\<lambda>t. length (sops_of (sw_stacks v) t) > 1) (waiters (sw_sma v))))
    \<and> use_global_lock (sw_sma v) \<le> 10
    \<and> (if complex_count (sw_sma v) = 0 then pending_alter (sw_sma v) = []
       else use_global_lock (sw_sma v) \<noteq> 0 \<and> (\<forall>s \<in> set (sems (sw_sma v)). sem_alter s = []))"
proof -
  have "in_order v" and mo: "mode_ok v" using arr_reach_inv [OF assms(2,1)] by (simp_all add: arr_inv_def)
  then have ok: "work_ok v" by (simp add: in_order_def)
  have "\<forall>i < sem_nsems (sw_sma v). 0 \<le> semval (sems (sw_sma v) ! i) \<and> semval (sems (sw_sma v) ! i) \<le> 32767"
    using ok vals_ok_nth by (simp add: work_ok_def limits)
  moreover have "\<forall>un i. - 32768 \<le> semadj_at (sw_undos v) un i \<and> semadj_at (sw_undos v) un i \<le> 32767"
    using ok undos_ok_at by (simp add: work_ok_def short_range_def)
  moreover have "complex_count (sw_sma v) = int (length (filter (\<lambda>t. length (sops_of (sw_stacks v) t) > 1) (waiters (sw_sma v))))"
    "distinct (waiters (sw_sma v))"
    using ok unfolding work_ok_def is_complex_def by blast+
  ultimately show ?thesis using mo by (simp add: mode_ok_def)
qed

theorem sem_reachable_sound_witness: "use_global_lock (sw_sma waiting_work) \<le> 10 \<and> distinct (waiters (sw_sma waiting_work))"
  using sem_reachable_sound [OF sample_start waiting_reach] by blast

section \<open>Performing operations\<close>

text \<open>C14. With the flags of the scan over the operations, the fast path and the slow path of
  \<^verbatim>\<open>perform_atomic_semop\<close> are the same function.
\<close>

theorem perform_fast_is_slow:
  assumes "nums_in (sem_nsems a) (q_sops q)" "undos_ok us"
    and "q_dupsop q = sf_dupsop (scan_sops (q_sops q))"
  shows "perform_atomic_semop a us q = perform_atomic_semop_slow a us q"
proof (rule perform_eq_slow [OF _ assms(2)])
  show "sop_queue_ok (sem_nsems a) q"
    using assms(1,3) scan_no_dup [of "q_sops q" no_flags] by (auto simp: sop_queue_ok_def scan_sops_def)
qed

theorem perform_fast_is_slow_witness:
  "perform_atomic_semop (sw_sma (sample_work 0)) Map.empty (sample_op 1) =
    perform_atomic_semop_slow (sw_sma (sample_work 0)) Map.empty (sample_op 1)"
  by (rule perform_fast_is_slow) (simp_all add: sample_defs undos_ok_def scan_sops_def scan_sop_def no_flags_def)

text \<open>
  An array as a function from numbers to values, together with the caller's adjustments, and
  what a list of operations promises: it is carried out in order, or not at all.
\<close>

fun sem_spec :: "(nat \<Rightarrow> int) \<times> (nat \<Rightarrow> int) \<Rightarrow> sembuf list \<Rightarrow> (nat \<Rightarrow> int) \<times> (nat \<Rightarrow> int) + sem_result" where
  "sem_spec (v, u) [] = Inl (v, u)"
| "sem_spec (v, u) (sop # l) =
     (let n = sem_num sop; d = sem_op sop
      in if d = 0 \<and> v n \<noteq> 0 \<or> v n + d < 0 then Inr (block_result sop)
         else if v n + d > 32767 \<or> wants_undo sop \<and> (u n - d < -32768 \<or> u n - d > 32767) then Inr (SemErr ERANGE)
         else sem_spec (v(n := v n + d), if wants_undo sop then u(n := u n - d) else u) l)"

definition sem_vals :: "sem list \<Rightarrow> nat \<Rightarrow> int" where
  "sem_vals ss i = (if i < length ss then semval (ss ! i) else 0)"

definition undo_fits :: "undos \<Rightarrow> ptr option \<Rightarrow> nat \<Rightarrow> bool" where
  "undo_fits us un n \<longleftrightarrow> (\<exists>p u. un = Some p \<and> us p = Some u \<and> length (semadj u) = n)"

lemma sem_vals_sop: "sem_num sop < length ss \<Longrightarrow>
    sem_vals (sop_ss sop ss) = (sem_vals ss)(sem_num sop := sem_vals ss (sem_num sop) + sem_op sop)"
  by (auto simp: sem_vals_def sop_ss_def nth_upd_sem fun_eq_iff)

lemma sem_vals_pids: "sem_vals (semop_set_pids pid b ss) = sem_vals ss"
  by (auto simp: sem_vals_def fun_eq_iff semval_set_pids)

lemma undo_fits_sop: "undo_fits us un n \<Longrightarrow> undo_fits (sop_us un sop us) un n"
  by (auto simp: undo_fits_def sop_us_def semadj_set_def)

lemma semadj_at_sop:
  assumes "undo_fits us un n" "sem_num sop < n" "wants_undo sop" "short_range (semadj_at us un (sem_num sop) - sem_op sop)"
  shows "semadj_at (sop_us un sop us) un = (semadj_at us un)(sem_num sop := semadj_at us un (sem_num sop) - sem_op sop)"
proof
  fix i
  obtain p u where p: "un = Some p" "us p = Some u" "length (semadj u) = n" using assms(1) by (auto simp: undo_fits_def)
  show "semadj_at (sop_us un sop us) un i =
      ((semadj_at us un)(sem_num sop := semadj_at us un (sem_num sop) - sem_op sop)) i"
    using assms(2-4) p by (simp add: sop_us_def semadj_set_def semadj_at_def c_short_id nth_list_update)
qed

lemma slow_scan_spec:
  assumes "nums_in (length ss) l" "\<And>sop. sop \<in> set l \<Longrightarrow> wants_undo sop \<Longrightarrow> undo_fits us un (length ss)"
    and "semop_slow_scan un b l ss us = (ss', us', b', w)"
  shows "sem_spec (sem_vals ss, semadj_at us un) l =
    (case w of ScanEnd \<Rightarrow> Inl (sem_vals ss', semadj_at us' un) | WouldBlock sop \<Rightarrow> Inr (block_result sop)
     | OutOfRange \<Rightarrow> Inr (SemErr ERANGE))"
  using assms
proof (induction l arbitrary: b ss us)
  case (Cons sop l)
  have n: "sem_num sop < length ss" using Cons.prems by simp
  have v: "sem_vals ss (sem_num sop) = semval (ss ! sem_num sop)" using n by (simp add: sem_vals_def)
  define c where "c = sop_check un sop ss us"
  have step: "sem_spec (sem_vals ss, semadj_at us un) (sop # l) =
      (case c of ScanEnd \<Rightarrow> sem_spec (sem_vals (sop_ss sop ss), semadj_at (sop_us un sop us) un) l
       | WouldBlock sop \<Rightarrow> Inr (block_result sop) | OutOfRange \<Rightarrow> Inr (SemErr ERANGE))"
  proof (cases "c = ScanEnd \<and> wants_undo sop")
    case True
    then have "short_range (semadj_at us un (sem_num sop) - sem_op sop)"
      by (auto simp: c_def sop_check_def Let_def split: if_splits)
    then have "semadj_at (sop_us un sop us) un = (semadj_at us un)(sem_num sop := semadj_at us un (sem_num sop) - sem_op sop)"
      using semadj_at_sop [OF Cons.prems(2) [of sop] n] True by simp
    then show ?thesis
      using True v by (auto simp: c_def sop_check_def Let_def sem_vals_sop [OF n] short_range_def limits split: if_splits)
  next
    case False
    then show ?thesis
      using v by (auto simp: c_def sop_check_def Let_def sem_vals_sop [OF n] short_range_def limits sop_us_def split: if_splits)
  qed
  show ?case
  proof (cases "c = ScanEnd")
    case True
    have "undo_fits (sop_us un sop us) un (length (sop_ss sop ss))" if "x \<in> set l" "wants_undo x" for x
      using that Cons.prems(2) [of x] undo_fits_sop by simp
    then show ?thesis
      using Cons.prems True n step Cons.IH [of "sop_ss sop ss" "sop_us un sop us" "sop # b"] by (simp add: scan_Cons flip: c_def)
  next
    case False
    then show ?thesis using Cons.prems(3) n step by (cases c) (auto simp: scan_Cons simp flip: c_def)
  qed
qed simp

text \<open>C13. \<^verbatim>\<open>perform_atomic_semop\<close> implements the abstract operation on values and adjustments: its
  result is that of the specification, and after a result other than success the array and
  all adjustments are untouched.
\<close>

theorem perform_refines_spec:
  assumes "sop_queue_ok (sem_nsems a) q" "undos_ok us"
    and "\<And>sop. sop \<in> set (q_sops q) \<Longrightarrow> wants_undo sop \<Longrightarrow> undo_fits us (q_undo q) (sem_nsems a)"
    and "perform_atomic_semop a us q = (a', us', q', r)"
  shows "case sem_spec (sem_vals (sems a), semadj_at us (q_undo q)) (q_sops q) of
            Inl vu \<Rightarrow> r = SemDone \<and> (sem_vals (sems a'), semadj_at us' (q_undo q)) = vu
          | Inr e \<Rightarrow> r = e \<and> a' = a \<and> us' = us"
proof -
  have n: "nums_in (sem_nsems a) (q_sops q)" using assms(1) by (simp add: sop_queue_ok_def)
  obtain ss us1 b v where s: "semop_slow_scan (q_undo q) [] (q_sops q) (sems a) us = (ss, us1, b, v)"
    by (metis prod_cases4)
  have slow: "perform_atomic_semop_slow a us q = (a', us', q', r)"
    using assms(4) perform_eq_slow [OF assms(1,2)] by simp
  note sp = slow_scan_spec [OF n assms(3) s]
  have nd: "r \<noteq> SemDone \<Longrightarrow> a' = a \<and> us' = us" using perform_not_done [OF assms(4) _ assms(2) n] .
  show ?thesis
  proof (cases v)
    case ScanEnd
    then have "r = SemDone \<and> us' = us1 \<and> sems a' = semop_set_pids (q_pid q) b ss"
      using slow s by (auto simp: perform_atomic_semop_slow_def)
    then show ?thesis using sp ScanEnd by (simp add: sem_vals_pids)
  next
    case (WouldBlock sop)
    then have "r = block_result sop" using slow s by (auto simp: perform_atomic_semop_slow_def split: prod.splits)
    moreover have "r \<noteq> SemDone" using calculation by (auto simp: block_result_def)
    ultimately show ?thesis using sp WouldBlock nd by simp
  next
    case OutOfRange
    then have "r = SemErr ERANGE" using slow s by (auto simp: perform_atomic_semop_slow_def split: prod.splits)
    then show ?thesis using sp OutOfRange nd by simp
  qed
qed

lemma sample_perform: "perform_atomic_semop (sw_sma (sample_work 0)) Map.empty (sample_op 1) =
    (sems_update (\<lambda>_. [\<lparr>semval = 1, sempid = Some 5, sem_alter = [], sem_const = [], sem_otime = 0\<rparr>]) (sw_sma (sample_work 0)),
     Map.empty, sample_op 1, SemDone)"
  by (simp add: perform_atomic_semop_def sample_defs semop_fast_scan.simps array_index_nospec_def SEMVMX_def
      wants_undo_def SEM_UNDO_def upd_sem_def)

theorem perform_refines_spec_witness:
  "sem_vals [\<lparr>semval = 1, sempid = Some 5, sem_alter = [], sem_const = [], sem_otime = 0\<rparr>] 0 = 1"
proof -
  have "sop_queue_ok (sem_nsems (sw_sma (sample_work 0))) (sample_op 1)" "undos_ok Map.empty"
    "\<And>sop. sop \<in> set (q_sops (sample_op 1)) \<Longrightarrow> wants_undo sop
       \<Longrightarrow> undo_fits Map.empty (q_undo (sample_op 1)) (sem_nsems (sw_sma (sample_work 0)))"
    using call_queue_ok [OF sample_call(2)] by (auto simp: undos_ok_def sample_defs wants_undo_def SEM_UNDO_def)
  from perform_refines_spec [OF this sample_perform]
  have "(sem_vals [\<lparr>semval = 1, sempid = Some 5, sem_alter = [], sem_const = [], sem_otime = 0\<rparr>], semadj_at Map.empty None)
      = ((sem_vals (sems (sw_sma (sample_work 0))))(0 := 1), semadj_at Map.empty None)"
    by (simp add: sample_defs wants_undo_def SEM_UNDO_def sem_vals_def Let_def)
  then show ?thesis by simp
qed

section \<open>The wake-up passes\<close>

lemma ready_ok: "work_ok (waiting_work\<lparr>sw_sma := sems_update (map (semval_update (\<lambda>_. 1))) (sw_sma waiting_work)\<rparr>)"
  by (rule work_okI)
    (auto simp: waiting_eval waiting_expected_def sample_defs vals_ok_def limits undos_ok_def waiters_def alter_waiters_def
      const_waiters_def is_complex_def sops_of_def sop_queue_ok_def)

text \<open>The array of the waiting task, with the value raised to 1.\<close>

definition ready_work :: sem_work where
  "ready_work = waiting_work\<lparr>sw_sma := sems_update (map (semval_update (\<lambda>_. 1))) (sw_sma waiting_work)\<rparr>"

lemma ready_fields: "waiters (sw_sma ready_work) = [7]" "sem_nsems (sw_sma ready_work) = 1" "sw_wake ready_work = []"
  "pending_list (Some 0) ready_work = [7]"
  by (simp_all add: ready_work_def waiting_eval waiting_expected_def waiters_def alter_waiters_def const_waiters_def
      pending_list_def sample_defs)

text \<open>A pass of \<^verbatim>\<open>do_smart_update\<close> wakes exactly the tasks it takes off the queues, each with a
  final status, and leaves the status of every other task alone; it puts nobody on a queue.
\<close>

theorem smart_update_wakes_removed:
  assumes "work_ok w" "sops_in sops w" "v = do_smart_update now sops otime w"
  shows "\<exists>woken. sw_wake v = sw_wake w @ woken \<and> set (waiters (sw_sma w)) = set (waiters (sw_sma v)) \<union> set woken
      \<and> set (waiters (sw_sma v)) \<inter> set woken = {}
      \<and> (\<forall>t. if t \<in> set woken then q_status_of (sw_stacks v) t \<noteq> Some EINTR
             else q_status_of (sw_stacks v) t = q_status_of (sw_stacks w) t)"
proof -
  have r: "work_rel w v" unfolding assms(3) by (rule do_smart_update_rel [OF assms(1,2)])
  then obtain x where x: "sw_wake v = sw_wake w @ x" "set x = set (waiters (sw_sma w)) - set (waiters (sw_sma v))"
    unfolding work_rel_def by blast
  moreover have "set (waiters (sw_sma v)) \<subseteq> set (waiters (sw_sma w))"
    "t \<in> set (waiters (sw_sma w)) - set (waiters (sw_sma v)) \<Longrightarrow> q_status_of (sw_stacks v) t \<noteq> Some EINTR"
    "t \<notin> set (waiters (sw_sma w)) - set (waiters (sw_sma v)) \<Longrightarrow> q_status_of (sw_stacks v) t = q_status_of (sw_stacks w) t" for t
    using r unfolding work_rel_def by blast+
  ultimately show ?thesis by (intro exI [of _ x]) auto
qed

theorem smart_update_wakes_removed_witness:
  "\<exists>woken. sw_wake (do_smart_update 9 None False ready_work) = woken \<and> set woken \<subseteq> {7}"
  using smart_update_wakes_removed [OF ready_ok [folded ready_work_def] _ refl, of None 9 False]
  by (auto simp: sops_in_def ready_fields)

text \<open>\<^verbatim>\<open>update_queue\<close> comes to an end: however often it starts its scan again, one scan more
  than there are operations on the queue is enough, and then no operation on it could proceed.
\<close>

theorem update_queue_terminates:
  assumes "work_ok w" "scan_pre semnum w"
  shows "\<exists>v c. update_loop (Suc (length (pending_list semnum w))) semnum w False = Some (v, c)
      \<and> (\<forall>t \<in> set (pending_list semnum v). snd (try_sleeper t v) = SemSleep)"
proof -
  have "num_in semnum w" using assms(2) by (simp add: scan_pre_def)
  from update_loop_rel [OF assms(1) this lessI, of False] obtain v c
    where v: "update_loop (Suc (length (pending_list semnum w))) semnum w False = Some (v, c)" by blast
  then show ?thesis using update_loop_settled [OF assms v] by (simp add: blocked_def)
qed

theorem update_queue_terminates_witness: "\<exists>r. update_loop 2 (Some 0) ready_work False = Some r"
proof -
  have "scan_pre (Some 0) ready_work"
    by (simp add: scan_pre_def num_in_def simple_alter_def const_zero_def ready_work_def waiting_eval waiting_expected_def
        sample_defs sops_of_def const_waiters_def IPC_NOWAIT_def)
  from update_queue_terminates [OF ready_ok [folded ready_work_def] this] show ?thesis
    by (auto simp: ready_fields numeral_2_eq_2)
qed

section \<open>The two queue modes\<close>

text \<open>Unmerging the queues of an array after merging them gives back every queue of a
  semaphore, in its order.
\<close>

theorem unmerge_merge:
  assumes "complex_count a = 0" "pending_alter a = []"
    and "\<And>i t. \<lbrakk>i < sem_nsems a; t \<in> set (sem_alter (sems a ! i))\<rbrakk> \<Longrightarrow> (\<exists>q. st t = Some q) \<and> dest st t = i"
  shows "unmerge_queues st (merge_queues a) = a"
proof -
  let ?ts = "concat (rev (map sem_alter (sems a)))" and ?ss = "map (\<lambda>s. s\<lparr>sem_alter := []\<rparr>) (sems a)"
  have ts: "\<forall>t \<in> set ?ts. (\<exists>q. st t = Some q) \<and> dest st t < length ?ss"
    using assms(3) by (auto simp: in_set_conv_nth [of _ "sems a"])
  note u = unmerge_loop_nth [OF ts]
  have "unmerge_loop st ?ts ?ss = sems a"
  proof (rule nth_equalityI)
    show "length (unmerge_loop st ?ts ?ss) = length (sems a)" using u by simp
    fix i assume "i < length (unmerge_loop st ?ts ?ss)"
    then have i: "i < sem_nsems a" using u by simp
    have "filter (\<lambda>t. dest st t = i) ?ts = map sem_alter (sems a) ! i"
      using assms(3) i by (intro filter_dest_concat) simp_all
    then show "unmerge_loop st ?ts ?ss ! i = sems a ! i" using u i by simp
  qed
  then show ?thesis
    using assms(1,2) by (simp add: unmerge_queues_def merge_queues_fields merge_queues_def merge_loop_eq)
qed

theorem unmerge_merge_witness:
  "unmerge_queues (sw_stacks waiting_work) (merge_queues (sw_sma waiting_work)) = sw_sma waiting_work"
  by (rule unmerge_merge)
    (simp_all add: waiting_eval waiting_expected_def sample_defs dest_def sops_of_def)

section \<open>Exit\<close>

text \<open>The exit of a task adds the adjustments of its undo structure to the values, stops at 0
  and at 32767, and leaves its pid at exactly the semaphores it had an adjustment for.
\<close>

theorem exit_clamps:
  assumes "length adj = length ss" "i < length ss"
  shows "semval (apply_undo tgid adj ss ! i) =
      (if adj ! i = 0 then semval (ss ! i) else max 0 (min 32767 (semval (ss ! i) + adj ! i)))
    \<and> sempid (apply_undo tgid adj ss ! i) = (if adj ! i = 0 then sempid (ss ! i) else Some tgid)
    \<and> length (apply_undo tgid adj ss) = length ss"
  using assms by (auto simp: apply_undo_def adj_sem_def Let_def limits)

theorem exit_clamps_witness: "semval (apply_undo 3 [-5] (sems (sw_sma (sample_work 2))) ! 0) = 0"
  using exit_clamps [of "[-5]" "sems (sw_sma (sample_work 2))" 0 3] by (simp add: sample_defs)
end
