(* ===== verification/SemSet.thy ===== *)
theory SemSet
  imports Compat32 SemArray
begin

text \<open>
  System V semaphore sets (second half of \<^verbatim>\<open>src/src/main/ipcns/sysv/ipc_sem.c\<close>): the sets of a
  namespace, the undo lists of the tasks, and the system calls \<^verbatim>\<open>semget\<close>, \<^verbatim>\<open>semctl\<close> and
  \<^verbatim>\<open>semtimedop\<close> with their 32 bit variants, \<^verbatim>\<open>copy_semundo\<close>, \<^verbatim>\<open>exit_sem\<close> and the release of a
  namespace's sets.

  A call that sleeps ends the operation with \<open>SemBlocked\<close>; \<open>semtimedop_resume\<close> runs the code
  behind the sleep. A freed structure is \<open>None\<close> in its map: the grace period of RCU, in which
  old readers may still see it, is not part of the state. Operations also return the tasks
  they wake, in order.
\<close>

unbundle bit_operations_syntax

section \<open>State\<close>

definition SEMMNI :: int where "SEMMNI = 32000"
definition SEMMSL :: int where "SEMMSL = 32000"
definition SEMMNS :: int where "SEMMNS = SEMMNI * SEMMSL"
definition SEMOPM :: int where "SEMOPM = 500"
definition SEMMNU :: int where "SEMMNU = SEMMNS"
definition SEMMAP :: int where "SEMMAP = SEMMNS"
definition SEMUME :: int where "SEMUME = SEMOPM"
definition SEMUSZ :: int where "SEMUSZ = 20"
definition SEMMSL_FAST :: nat where "SEMMSL_FAST = 256"
definition CLONE_SYSVSEM :: int where "CLONE_SYSVSEM = 262144"

definition GETPID :: int where "GETPID = 11"
definition GETVAL :: int where "GETVAL = 12"
definition GETALL :: int where "GETALL = 13"
definition GETNCNT :: int where "GETNCNT = 14"
definition GETZCNT :: int where "GETZCNT = 15"
definition SETVAL :: int where "SETVAL = 16"
definition SETALL :: int where "SETALL = 17"
definition SEM_STAT :: int where "SEM_STAT = 18"
definition SEM_INFO :: int where "SEM_INFO = 19"
definition SEM_STAT_ANY :: int where "SEM_STAT_ANY = 20"

lemmas sem_cmds = GETPID_def GETVAL_def GETALL_def GETNCNT_def GETZCNT_def SETVAL_def SETALL_def
  SEM_STAT_def SEM_INFO_def SEM_STAT_ANY_def

record sem_undo_list =
  ul_refcnt :: nat
  ul_list :: "ptr list"

text \<open>The namespace, with the stacks and undo lists of the tasks that use it.\<close>

record sem_ns =
  sem_ids :: "sem_array ipc_ids"
  sc_semmsl :: int
  sc_semmns :: int
  sc_semopm :: int
  sc_semmni :: int
  used_sems :: int
  sem_stacks :: stacks
  sem_undos :: undos
  sem_ulps :: "ptr \<rightharpoonup> sem_undo_list"
  task_ulp :: "nat \<rightharpoonup> ptr"

text \<open>The security hooks of semaphores, \<open>None\<close> for consent.\<close>

record sem_lsm =
  sl_alloc :: "errno option"
  sl_ipc :: lsm_hook
  sl_associate :: lsm_hook
  sl_semctl :: "kern_ipc_perm option \<Rightarrow> int \<Rightarrow> errno option"
  sl_semop :: "kern_ipc_perm \<Rightarrow> sembuf list \<Rightarrow> bool \<Rightarrow> errno option"

text \<open>
  What a call gets from the kernel. \<open>se_max\<close> is the number of semaphores whose array still fits
  in \<^verbatim>\<open>INT_MAX\<close> bytes, \<open>se_buf\<close> the success of allocating a buffer.
\<close>

record sem_env =
  se_task :: task_env
  se_lsm :: sem_lsm
  se_maps :: user_maps
  se_alloc :: idr_alloc
  se_kht :: "errno option"
  se_new :: kmalloc
  se_max :: int
  se_buf :: bool

definition sem_init_ns :: "sem_ns \<Rightarrow> sem_ns" where
  "sem_init_ns s = s\<lparr>sc_semmsl := SEMMSL, sc_semmns := SEMMNS, sc_semopm := SEMOPM, sc_semmni := SEMMNI,
     used_sems := 0, sem_ids := ipc_init_ids\<rparr>"

definition sem_obtain_object :: "sem_ns \<Rightarrow> int \<Rightarrow> ptr result" where
  "sem_obtain_object s i = ipc_obtain_object_idr (sem_ids s) i"

definition sem_obtain_object_check :: "sem_ns \<Rightarrow> int \<Rightarrow> ptr result" where
  "sem_obtain_object_check s i = ipc_obtain_object_check (sem_ids s) i"

text \<open>Writing through an array pointer, and the global lock of an array.\<close>

definition upd_sma :: "ptr \<Rightarrow> (sem_array \<Rightarrow> sem_array) \<Rightarrow> sem_ns \<Rightarrow> sem_ns" where
  "upd_sma p f = sem_ids_update (upd_obj p f)"

definition sma_lock :: "ptr \<Rightarrow> sem_ns \<Rightarrow> sem_ns" where
  "sma_lock p s = upd_sma p (\<lambda>a. fst (sem_lock None a)) s"

definition sma_unlock :: "ptr \<Rightarrow> int \<Rightarrow> sem_ns \<Rightarrow> sem_ns" where
  "sma_unlock p locknum s = upd_sma p (sem_unlock (sem_stacks s) locknum) s"

definition sem_lock_and_putref :: "ptr \<Rightarrow> sem_ns \<Rightarrow> sem_ns" where
  "sem_lock_and_putref p s = sem_ids_update (\<lambda>ids. ipc_rcu_putref ids p) (sma_lock p s)"

definition sem_rmid :: "sem_ns \<Rightarrow> ptr \<Rightarrow> sem_ns" where
  "sem_rmid s p = sem_ids_update (\<lambda>ids. ipc_rmid ids p) s"

text \<open>Running the engine on one array.\<close>

definition run_work :: "ptr \<Rightarrow> (sem_work \<Rightarrow> sem_work) \<Rightarrow> sem_ns \<Rightarrow> sem_ns \<times> nat list" where
  "run_work p f s =
     (case objs (sem_ids s) p of
        None \<Rightarrow> (s, [])
      | Some a \<Rightarrow>
          (let w = f \<lparr>sw_sma = a, sw_undos = sem_undos s, sw_stacks = sem_stacks s, sw_wake = []\<rparr>
           in (upd_sma p (\<lambda>_. sw_sma w) (s\<lparr>sem_undos := sw_undos w, sem_stacks := sw_stacks w\<rparr>), sw_wake w)))"

text \<open>The same for a part of a call with a result; \<open>d\<close> is only for a dangling pointer.\<close>

definition run_section :: "ptr \<Rightarrow> 'r \<Rightarrow> (sem_work \<Rightarrow> sem_work \<times> 'r) \<Rightarrow> sem_ns \<Rightarrow> sem_ns \<times> nat list \<times> 'r" where
  "run_section p d f s =
     (case objs (sem_ids s) p of
        None \<Rightarrow> (s, [], d)
      | Some a \<Rightarrow>
          (case f \<lparr>sw_sma = a, sw_undos = sem_undos s, sw_stacks = sem_stacks s, sw_wake = []\<rparr> of
             (w, r) \<Rightarrow>
               (upd_sma p (\<lambda>_. sw_sma w) (s\<lparr>sem_undos := sw_undos w, sem_stacks := sw_stacks w\<rparr>), sw_wake w, r)))"

section \<open>semget\<close>

definition sem_alloc :: "sem_env \<Rightarrow> sem_ns \<Rightarrow> int \<Rightarrow> ptr option" where
  "sem_alloc e s nsems =
     (if nsems > se_max e then None else se_new e (\<lambda>p. objs (sem_ids s) p \<noteq> None))"

definition fresh_array :: "sem_env \<Rightarrow> ipc_params \<Rightarrow> sem_array" where
  "fresh_array e params =
     \<lparr>perm_deleted = False, perm_id = 0, perm_key = par_key params, perm_uid = 0, perm_gid = 0,
      perm_cuid = 0, perm_cgid = 0, perm_mode = par_flg params AND S_IRWXUGO, perm_seq = 0,
      perm_refcount = 0,
      sem_ctime = clock_seconds (se_task e), pending_alter = [], pending_const = [], list_id = [],
      complex_count = 0, use_global_lock = USE_GLOBAL_LOCK_HYSTERESIS,
      sems = replicate (nat (par_nsems params))
        \<lparr>semval = 0, sempid = None, sem_alter = [], sem_const = [], sem_otime = 0\<rparr>\<rparr>"

definition newary :: "sem_env \<Rightarrow> ipc_params \<Rightarrow> sem_ns \<Rightarrow> sem_ns \<times> int result" where
  "newary e params s =
     (let nsems = par_nsems params
      in if nsems = 0 then (s, Inl EINVAL)
         else if c_int (used_sems s + nsems) > sc_semmns s then (s, Inl ENOSPC)
         else
           (case sem_alloc e s nsems of
              None \<Rightarrow> (s, Inl ENOMEM)
            | Some p \<Rightarrow>
                (case sl_alloc (se_lsm e) of
                   Some err \<Rightarrow> (s, Inl err)
                 | None \<Rightarrow>
                     (let ids = objs_update (\<lambda>h. h(p \<mapsto> fresh_array e params)) (sem_ids s)
                      in case ipc_addid (se_task e) (se_alloc e) (se_kht e) ids p (sc_semmni s) of
                           (ids, Inl err) \<Rightarrow> (s\<lparr>sem_ids := ipc_rcu_putref ids p\<rparr>, Inl err)
                         | (ids, Inr idx) \<Rightarrow>
                             (sma_unlock p (-1) (s\<lparr>sem_ids := ids, used_sems := used_sems s + nsems\<rparr>),
                              Inr (case objs ids p of Some a \<Rightarrow> perm_id a | None \<Rightarrow> 0))))))"

definition sem_more_checks :: "sem_ns \<Rightarrow> ptr \<Rightarrow> ipc_params \<Rightarrow> errno option" where
  "sem_more_checks s p params =
     (case objs (sem_ids s) p of
        None \<Rightarrow> None
      | Some a \<Rightarrow> if par_nsems params > int (sem_nsems a) then Some EINVAL else None)"

definition ksys_semget :: "sem_env \<Rightarrow> int \<Rightarrow> int \<Rightarrow> int \<Rightarrow> sem_ns \<Rightarrow> sem_ns \<times> int result" where
  "ksys_semget e k nsems semflg s =
     (if nsems < 0 \<or> nsems > sc_semmsl s then (s, Inl EINVAL)
      else
        ipcget (se_task e) (sl_ipc (se_lsm e)) sem_ids
          \<lparr>getnew = newary e, associate = sl_associate (se_lsm e), more_checks = Some sem_more_checks\<rparr>
          \<lparr>par_key = k, par_flg = semflg, par_nsems = nsems\<rparr> s)"

section \<open>Removal\<close>

text \<open>The undo structures of the array leave the lists of their owners and are freed.\<close>

fun free_undos :: "ptr list \<Rightarrow> sem_ns \<Rightarrow> sem_ns" where
  "free_undos [] s = s"
| "free_undos (un # uns) s =
     (case sem_undos s un of
        None \<Rightarrow> free_undos uns s
      | Some u \<Rightarrow>
          free_undos uns
            (s\<lparr>sem_ulps := (sem_ulps s)(un_ulp u := map_option (ul_list_update (remove1 un)) (sem_ulps s (un_ulp u))),
               sem_undos := (sem_undos s)(un := None)\<rparr>))"

fun wake_all :: "errno \<Rightarrow> nat list \<Rightarrow> sem_work \<Rightarrow> sem_work" where
  "wake_all err [] w = w"
| "wake_all err (t # ts) w = wake_all err ts (wake_up_sem_queue_prepare t (Some err) (sw_unlink t w))"

definition freeary_order :: "sem_array \<Rightarrow> nat list" where
  "freeary_order a = pending_const a @ pending_alter a @ concat (map (\<lambda>s. sem_const s @ sem_alter s) (sems a))"

definition freeary :: "sem_ns \<Rightarrow> ptr \<Rightarrow> sem_ns \<times> nat list" where
  "freeary s p =
     (case objs (sem_ids s) p of
        None \<Rightarrow> (s, [])
      | Some a \<Rightarrow>
          (let s = upd_sma p (\<lambda>a. a\<lparr>list_id := []\<rparr>) (free_undos (list_id a) s);
               (s, wake) = run_work p (wake_all EIDRM (freeary_order a)) s;
               s = upd_sma p (sems_update (map (\<lambda>x. x\<lparr>sempid := None\<rparr>))) s;
               s = sem_rmid s p;
               s = sma_unlock p (-1) s;
               s = used_sems_update (\<lambda>n. n - int (sem_nsems a)) s
           in (sem_ids_update (\<lambda>ids. ipc_rcu_putref ids p) s, wake)))"

definition ds_sem_exit_ns :: "nat \<Rightarrow> sem_ns \<Rightarrow> sem_ns option" where
  "ds_sem_exit_ns fuel s = ds_free_ipcs fuel sem_ids (\<lambda>s p. fst (freeary s p)) s"

section \<open>semctl\<close>

record semid64_ds =
  sd_perm :: ipc64_perm
  sd_otime :: int
  sd_ctime :: int
  sd_nsems :: nat

text \<open>The old structure of native callers, and the structures of 32 bit callers.\<close>

record semid_ds =
  so_perm :: ipc64_perm
  so_otime :: int
  so_ctime :: int
  so_nsems :: "16 word"

record compat_semid64_ds =
  sc_perm :: ipc64_perm
  sc_otime :: "32 word"
  sc_otime_high :: "32 word"
  sc_ctime :: "32 word"
  sc_ctime_high :: "32 word"
  sc_nsems :: "32 word"

record compat_semid_ds =
  sco_perm :: ipc64_perm
  sco_otime :: "32 word"
  sco_ctime :: "32 word"
  sco_nsems :: "16 word"

record seminfo =
  si_map :: int
  si_mni :: int
  si_mns :: int
  si_mnu :: int
  si_msl :: int
  si_opm :: int
  si_ume :: int
  si_usz :: int
  si_vmx :: int
  si_aem :: int

datatype sem_out =
    NoSemOut | OutSeminfo seminfo | OutSem64 semid64_ds | OutSemOld semid_ds
  | OutSemCompat64 compat_semid64_ds | OutSemCompat compat_semid_ds | OutVals "16 word list"

definition zero_sem_perm :: ipc64_perm where
  "zero_sem_perm = \<lparr>out_key = 0, out_uid = 0, out_gid = 0, out_cuid = 0, out_cgid = 0, out_mode = 0, out_seq = 0\<rparr>"

definition zero_semid :: semid64_ds where
  "zero_semid = \<lparr>sd_perm = zero_sem_perm, sd_otime = 0, sd_ctime = 0, sd_nsems = 0\<rparr>"

text \<open>\<open>None\<close>: the call returns a nonzero value, so the copy failed.\<close>

definition copy_semid_to_user :: "user_maps \<Rightarrow> bool \<Rightarrow> semid64_ds \<Rightarrow> int \<Rightarrow> sem_out option" where
  "copy_semid_to_user um ok i version =
     (if version = IPC_64 then (if ok then Some (OutSem64 i) else None)
      else if version = IPC_OLD then
        (let out = \<lparr>so_perm = ipc64_perm_to_ipc_perm (set_uid um) (set_gid um) (sd_perm i),
                    so_otime = sd_otime i, so_ctime = sd_ctime i, so_nsems = of_nat (sd_nsems i)\<rparr>
         in if ok then Some (OutSemOld out) else None)
      else None)"

definition copy_semid_from_user ::
    "bool \<Rightarrow> semid64_ds \<Rightarrow> semid_ds \<Rightarrow> semid64_ds \<Rightarrow> int \<Rightarrow> semid64_ds result" where
  "copy_semid_from_user ok v64 old out version =
     (if version = IPC_64 then (if ok then Inr v64 else Inl EFAULT)
      else if version = IPC_OLD then
        (if \<not> ok then Inl EFAULT
         else Inr (out\<lparr>sd_perm := (sd_perm out)\<lparr>out_uid := out_uid (so_perm old),
                                   out_gid := out_gid (so_perm old), out_mode := out_mode (so_perm old)\<rparr>\<rparr>))
      else Inl EINVAL)"

definition semctl_stat :: "sem_env \<Rightarrow> sem_ns \<Rightarrow> int \<Rightarrow> int \<Rightarrow> semid64_ds \<times> int result" where
  "semctl_stat e s semid cmd =
     (case (if cmd = SEM_STAT \<or> cmd = SEM_STAT_ANY then sem_obtain_object s semid
            else sem_obtain_object_check s semid) of
        Inl err \<Rightarrow> (zero_semid, Inl err)
      | Inr p \<Rightarrow>
          (case objs (sem_ids s) p of
             None \<Rightarrow> (zero_semid, Inl EINVAL)
           | Some a \<Rightarrow>
               if cmd \<noteq> SEM_STAT_ANY \<and> ipcperms (se_task e) (sl_ipc (se_lsm e)) a S_IRUGO \<noteq> None
               then (zero_semid, Inl EACCES)
               else
                 (case sl_semctl (se_lsm e) (Some (kern_ipc_perm.truncate a)) cmd of
                    Some err \<Rightarrow> (zero_semid, Inl err)
                  | None \<Rightarrow>
                      if \<not> ipc_valid_object (sem_ids s) p then (zero_semid, Inl EIDRM)
                      else
                        (\<lparr>sd_perm = kernel_to_ipc64_perm (from_kuid (se_maps e)) (from_kgid (se_maps e)) a,
                          sd_otime = get_semotime a, sd_ctime = sem_ctime a, sd_nsems = sem_nsems a\<rparr>,
                         Inr (if cmd = IPC_STAT then 0 else perm_id a)))))"

definition semctl_info :: "sem_env \<Rightarrow> bool \<Rightarrow> sem_ns \<Rightarrow> int \<Rightarrow> sem_out \<times> int result" where
  "semctl_info e ok s cmd =
     (case sl_semctl (se_lsm e) None cmd of
        Some err \<Rightarrow> (NoSemOut, Inl err)
      | None \<Rightarrow>
          (let i = \<lparr>si_map = SEMMAP, si_mni = sc_semmni s, si_mns = sc_semmns s, si_mnu = SEMMNU,
                    si_msl = sc_semmsl s, si_opm = sc_semopm s, si_ume = SEMUME, si_usz = 0,
                    si_vmx = SEMVMX, si_aem = 0\<rparr>;
               i = (if cmd = SEM_INFO then i\<lparr>si_usz := in_use (sem_ids s), si_aem := used_sems s\<rparr>
                    else i\<lparr>si_usz := SEMUSZ, si_aem := SEMAEM\<rparr>);
               mx = ipc_get_maxidx (sem_ids s)
           in if \<not> ok then (NoSemOut, Inl EFAULT)
              else (OutSeminfo i, Inr (if mx < 0 then 0 else mx))))"

definition semctl_setval :: "sem_env \<Rightarrow> sem_ns \<Rightarrow> int \<Rightarrow> int \<Rightarrow> int \<Rightarrow> sem_ns \<times> nat list \<times> int result" where
  "semctl_setval e s semid semnum val =
     (if val > SEMVMX \<or> val < 0 then (s, [], Inl ERANGE)
      else
        (case sem_obtain_object_check s semid of
           Inl err \<Rightarrow> (s, [], Inl err)
         | Inr p \<Rightarrow>
             (case objs (sem_ids s) p of
                None \<Rightarrow> (s, [], Inl EINVAL)
              | Some a \<Rightarrow>
                  if semnum < 0 \<or> semnum \<ge> int (sem_nsems a) then (s, [], Inl EINVAL)
                  else if ipcperms (se_task e) (sl_ipc (se_lsm e)) a S_IWUGO \<noteq> None then (s, [], Inl EACCES)
                  else if sl_semctl (se_lsm e) (Some (kern_ipc_perm.truncate a)) SETVAL \<noteq> None
                  then (s, [], Inl EACCES)
                  else
                    (let s = sma_lock p s
                     in if \<not> ipc_valid_object (sem_ids s) p then (sma_unlock p (-1) s, [], Inl EIDRM)
                        else
                          (let i = array_index_nospec (nat semnum) (sem_nsems a);
                               (s, wake) = run_work p (setval_section (clock_seconds (se_task e))
                                                         (cur_tgid (se_task e)) i val) s
                           in (s, wake, Inr 0))))))"

text \<open>Reading the values; with many semaphores the lock is dropped for the allocation.\<close>

definition semctl_getall :: "sem_env \<Rightarrow> bool \<Rightarrow> sem_ns \<Rightarrow> ptr \<Rightarrow> sem_array \<Rightarrow> sem_ns \<times> sem_out \<times> int result" where
  "semctl_getall e ok s p a =
     (let s = sma_lock p s;
          vals = OutVals (map (\<lambda>x. of_int (semval x)) (sems a));
          fin = (if ok then (vals, Inr 0) else (NoSemOut, Inl EFAULT))
      in if \<not> ipc_valid_object (sem_ids s) p then (sma_unlock p (-1) s, NoSemOut, Inl EIDRM)
         else if sem_nsems a > SEMMSL_FAST then
           (case ipc_rcu_getref (sem_ids s) p of
              (ids, False) \<Rightarrow> (sma_unlock p (-1) s, NoSemOut, Inl EIDRM)
            | (ids, True) \<Rightarrow>
                (let s = sma_unlock p (-1) (s\<lparr>sem_ids := ids\<rparr>)
                 in if \<not> se_buf e then (sem_ids_update (\<lambda>ids. ipc_rcu_putref ids p) s, NoSemOut, Inl ENOMEM)
                    else
                      (let s = sem_lock_and_putref p s
                       in if \<not> ipc_valid_object (sem_ids s) p then (sma_unlock p (-1) s, NoSemOut, Inl EIDRM)
                          else (sma_unlock p (-1) s, fin))))
         else (sma_unlock p (-1) s, fin))"

text \<open>\<open>uvals\<close> is the user's array, \<open>None\<close> when it cannot be read.\<close>

definition semctl_setall ::
    "sem_env \<Rightarrow> (nat \<Rightarrow> 16 word) option \<Rightarrow> sem_ns \<Rightarrow> ptr \<Rightarrow> sem_array \<Rightarrow> sem_ns \<times> nat list \<times> int result" where
  "semctl_setall e uvals s p a =
     (case ipc_rcu_getref (sem_ids s) p of
        (ids, False) \<Rightarrow> (s, [], Inl EIDRM)
      | (ids, True) \<Rightarrow>
          (let s = s\<lparr>sem_ids := ids\<rparr>; nsems = sem_nsems a;
               drop = sem_ids_update (\<lambda>ids. ipc_rcu_putref ids p) s
           in if nsems > SEMMSL_FAST \<and> \<not> se_buf e then (drop, [], Inl ENOMEM)
              else
                (case uvals of
                   None \<Rightarrow> (drop, [], Inl EFAULT)
                 | Some io \<Rightarrow>
                     if \<exists>i \<in> set [0..<nsems]. uint (io i) > SEMVMX then (drop, [], Inl ERANGE)
                     else
                       (let s = sem_lock_and_putref p s
                        in if \<not> ipc_valid_object (sem_ids s) p then (sma_unlock p (-1) s, [], Inl EIDRM)
                           else
                             (let (s, wake) = run_work p (setall_section (clock_seconds (se_task e))
                                                            (cur_tgid (se_task e)) io) s
                              in (s, wake, Inr 0))))))"

text \<open>The commands that read one number. \<^verbatim>\<open>EINVAL\<close> is what is left for any other command.\<close>

definition semctl_getone :: "sem_env \<Rightarrow> sem_ns \<Rightarrow> ptr \<Rightarrow> sem_array \<Rightarrow> int \<Rightarrow> int \<Rightarrow> sem_ns \<times> int result" where
  "semctl_getone e s p a semnum cmd =
     (if semnum < 0 \<or> semnum \<ge> int (sem_nsems a) then (s, Inl EINVAL)
      else
        (let s = sma_lock p s
         in if \<not> ipc_valid_object (sem_ids s) p then (sma_unlock p (-1) s, Inl EIDRM)
            else
              (let i = array_index_nospec (nat semnum) (sem_nsems a)
               in (sma_unlock p (-1) s,
                   if cmd = GETVAL then Inr (semval (sems a ! i))
                   else if cmd = GETPID then Inr (pid_vnr (se_maps e) (sempid (sems a ! i)))
                   else if cmd = GETNCNT then Inr (count_semcnt (sem_stacks s) a i False)
                   else if cmd = GETZCNT then Inr (count_semcnt (sem_stacks s) a i True)
                   else Inl EINVAL))))"

definition semctl_main ::
    "sem_env \<Rightarrow> sem_ns \<Rightarrow> int \<Rightarrow> int \<Rightarrow> int \<Rightarrow> bool \<Rightarrow> (nat \<Rightarrow> 16 word) option
       \<Rightarrow> sem_ns \<times> nat list \<times> sem_out \<times> int result" where
  "semctl_main e s semid semnum cmd ok uvals =
     (case sem_obtain_object_check s semid of
        Inl err \<Rightarrow> (s, [], NoSemOut, Inl err)
      | Inr p \<Rightarrow>
          (case objs (sem_ids s) p of
             None \<Rightarrow> (s, [], NoSemOut, Inl EINVAL)
           | Some a \<Rightarrow>
               if ipcperms (se_task e) (sl_ipc (se_lsm e)) a (if cmd = SETALL then S_IWUGO else S_IRUGO) \<noteq> None
               then (s, [], NoSemOut, Inl EACCES)
               else
                 (case sl_semctl (se_lsm e) (Some (kern_ipc_perm.truncate a)) cmd of
                    Some err \<Rightarrow> (s, [], NoSemOut, Inl err)
                  | None \<Rightarrow>
                      if cmd = GETALL then
                        (case semctl_getall e ok s p a of (s, out, r) \<Rightarrow> (s, [], out, r))
                      else if cmd = SETALL then
                        (case semctl_setall e uvals s p a of (s, wake, r) \<Rightarrow> (s, wake, NoSemOut, r))
                      else (case semctl_getone e s p a semnum cmd of (s, r) \<Rightarrow> (s, [], NoSemOut, r)))))"

definition semctl_down :: "sem_env \<Rightarrow> sem_ns \<Rightarrow> int \<Rightarrow> int \<Rightarrow> ipc64_perm \<Rightarrow> sem_ns \<times> nat list \<times> int result" where
  "semctl_down e s semid cmd perm =
     (case ipcctl_obtain_check (se_task e) (sem_ids s) semid of
        Inl err \<Rightarrow> (s, [], Inl err)
      | Inr p \<Rightarrow>
          (case objs (sem_ids s) p of
             None \<Rightarrow> (s, [], Inl EINVAL)
           | Some a \<Rightarrow>
               (case sl_semctl (se_lsm e) (Some (kern_ipc_perm.truncate a)) cmd of
                  Some err \<Rightarrow> (s, [], Inl err)
                | None \<Rightarrow>
                    if cmd = IPC_RMID then
                      (case freeary (sma_lock p s) p of (s, wake) \<Rightarrow> (s, wake, Inr 0))
                    else if cmd = IPC_SET then
                      (let s = sma_lock p s
                       in case ipc_update_perm (make_kuid (se_maps e)) (make_kgid (se_maps e)) perm
                                 (complexmode_enter a) of
                            Inl err \<Rightarrow> (sma_unlock p (-1) s, [], Inl err)
                          | Inr a \<Rightarrow>
                              (sma_unlock p (-1)
                                 (upd_sma p (\<lambda>_. a\<lparr>sem_ctime := clock_seconds (se_task e)\<rparr>) s), [], Inr 0))
                    else (s, [], Inl EINVAL))))"

text \<open>
  The user's argument is given in every form a command can read it: as a buffer
  (\<open>v64\<close>, \<open>old\<close>), as an array of values, or as the number \<open>arg\<close>.
\<close>

definition ksys_semctl ::
    "sem_env \<Rightarrow> sem_ns \<Rightarrow> int \<Rightarrow> int \<Rightarrow> int \<Rightarrow> bool \<Rightarrow> semid64_ds \<Rightarrow> semid_ds \<Rightarrow> (nat \<Rightarrow> 16 word) option \<Rightarrow> int \<Rightarrow> int
       \<Rightarrow> sem_ns \<times> nat list \<times> sem_out \<times> int result" where
  "ksys_semctl e s semid semnum cmd ok v64 old uvals arg version =
     (if semid < 0 then (s, [], NoSemOut, Inl EINVAL)
      else if cmd = IPC_INFO \<or> cmd = SEM_INFO then
        (case semctl_info e ok s cmd of (out, r) \<Rightarrow> (s, [], out, r))
      else if cmd = IPC_STAT \<or> cmd = SEM_STAT \<or> cmd = SEM_STAT_ANY then
        (case semctl_stat e s semid cmd of
           (ds, Inl err) \<Rightarrow> (s, [], NoSemOut, Inl err)
         | (ds, Inr v) \<Rightarrow>
             (case copy_semid_to_user (se_maps e) ok ds version of
                None \<Rightarrow> (s, [], NoSemOut, Inl EFAULT) | Some out \<Rightarrow> (s, [], out, Inr v)))
      else if cmd \<in> {GETALL, GETVAL, GETPID, GETNCNT, GETZCNT, SETALL} then
        semctl_main e s semid semnum cmd ok uvals
      else if cmd = SETVAL then
        (case semctl_setval e s semid semnum (c_int arg) of (s, wake, r) \<Rightarrow> (s, wake, NoSemOut, r))
      else if cmd = IPC_SET then
        (case copy_semid_from_user ok v64 old zero_semid version of
           Inl err \<Rightarrow> (s, [], NoSemOut, Inl EFAULT)
         | Inr ds \<Rightarrow> (case semctl_down e s semid cmd (sd_perm ds) of (s, wake, r) \<Rightarrow> (s, wake, NoSemOut, r)))
      else if cmd = IPC_RMID then
        (case semctl_down e s semid cmd zero_sem_perm of (s, wake, r) \<Rightarrow> (s, wake, NoSemOut, r))
      else (s, [], NoSemOut, Inl EINVAL))"

definition ksys_old_semctl ::
    "sem_env \<Rightarrow> sem_ns \<Rightarrow> int \<Rightarrow> int \<Rightarrow> int \<Rightarrow> bool \<Rightarrow> semid64_ds \<Rightarrow> semid_ds \<Rightarrow> (nat \<Rightarrow> 16 word) option \<Rightarrow> int
       \<Rightarrow> sem_ns \<times> nat list \<times> sem_out \<times> int result" where
  "ksys_old_semctl e s semid semnum cmd ok v64 old uvals arg =
     (case ipc_parse_version cmd of
        (cmd, version) \<Rightarrow> ksys_semctl e s semid semnum cmd ok v64 old uvals arg version)"

definition copy_compat_semid_from_user ::
    "bool \<Rightarrow> compat_semid64_ds \<Rightarrow> compat_semid_ds \<Rightarrow> int \<Rightarrow> semid64_ds result" where
  "copy_compat_semid_from_user ok p64 p version =
     (case (if version = IPC_64 then get_compat_ipc64_perm ok (sd_perm zero_semid) (sc_perm p64)
            else get_compat_ipc_perm ok (sd_perm zero_semid) (sco_perm p)) of
        Inl err \<Rightarrow> Inl err
      | Inr pm \<Rightarrow> Inr (zero_semid\<lparr>sd_perm := pm\<rparr>))"

definition copy_compat_semid_to_user :: "user_maps \<Rightarrow> bool \<Rightarrow> semid64_ds \<Rightarrow> int \<Rightarrow> sem_out option" where
  "copy_compat_semid_to_user um ok i version =
     (if version = IPC_64 then
        (let v = \<lparr>sc_perm = to_compat_ipc64_perm (sd_perm i),
                  sc_otime = lower_32_bits (sd_otime i), sc_otime_high = upper_32_bits (sd_otime i),
                  sc_ctime = lower_32_bits (sd_ctime i), sc_ctime_high = upper_32_bits (sd_ctime i),
                  sc_nsems = of_nat (sd_nsems i)\<rparr>
         in if ok then Some (OutSemCompat64 v) else None)
      else
        (let v = \<lparr>sco_perm = to_compat_ipc_perm um (sd_perm i),
                  sco_otime = of_int (sd_otime i), sco_ctime = of_int (sd_ctime i),
                  sco_nsems = of_nat (sd_nsems i)\<rparr>
         in if ok then Some (OutSemCompat v) else None))"

definition compat_ksys_semctl ::
    "sem_env \<Rightarrow> sem_ns \<Rightarrow> int \<Rightarrow> int \<Rightarrow> int \<Rightarrow> bool \<Rightarrow> compat_semid64_ds \<Rightarrow> compat_semid_ds
       \<Rightarrow> (nat \<Rightarrow> 16 word) option \<Rightarrow> int \<Rightarrow> int \<Rightarrow> sem_ns \<times> nat list \<times> sem_out \<times> int result" where
  "compat_ksys_semctl e s semid semnum cmd ok p64 p uvals arg version =
     (if semid < 0 then (s, [], NoSemOut, Inl EINVAL)
      else
        (let sw = cmd AND NOT IPC_64
         in if sw = IPC_INFO \<or> sw = SEM_INFO then
              (case semctl_info e ok s cmd of (out, r) \<Rightarrow> (s, [], out, r))
            else if sw = IPC_STAT \<or> sw = SEM_STAT \<or> sw = SEM_STAT_ANY then
              (case semctl_stat e s semid cmd of
                 (ds, Inl err) \<Rightarrow> (s, [], NoSemOut, Inl err)
               | (ds, Inr v) \<Rightarrow>
                   (case copy_compat_semid_to_user (se_maps e) ok ds version of
                      None \<Rightarrow> (s, [], NoSemOut, Inl EFAULT) | Some out \<Rightarrow> (s, [], out, Inr v)))
            else if sw \<in> {GETVAL, GETPID, GETNCNT, GETZCNT, GETALL, SETALL} then
              semctl_main e s semid semnum cmd ok uvals
            else if sw = SETVAL then
              (case semctl_setval e s semid semnum arg of (s, wake, r) \<Rightarrow> (s, wake, NoSemOut, r))
            else if sw = IPC_SET then
              (case copy_compat_semid_from_user ok p64 p version of
                 Inl err \<Rightarrow> (s, [], NoSemOut, Inl EFAULT)
               | Inr ds \<Rightarrow>
                   (case semctl_down e s semid cmd (sd_perm ds) of (s, wake, r) \<Rightarrow> (s, wake, NoSemOut, r)))
            else if sw = IPC_RMID then
              (case semctl_down e s semid cmd zero_sem_perm of (s, wake, r) \<Rightarrow> (s, wake, NoSemOut, r))
            else (s, [], NoSemOut, Inl EINVAL)))"

definition compat_ksys_old_semctl ::
    "sem_env \<Rightarrow> sem_ns \<Rightarrow> int \<Rightarrow> int \<Rightarrow> int \<Rightarrow> bool \<Rightarrow> compat_semid64_ds \<Rightarrow> compat_semid_ds
       \<Rightarrow> (nat \<Rightarrow> 16 word) option \<Rightarrow> int \<Rightarrow> sem_ns \<times> nat list \<times> sem_out \<times> int result" where
  "compat_ksys_old_semctl e s semid semnum cmd ok p64 p uvals arg =
     (case compat_ipc_parse_version cmd of
        (cmd, version) \<Rightarrow> compat_ksys_semctl e s semid semnum cmd ok p64 p uvals arg version)"

section \<open>Undo lists\<close>

text \<open>The undo list of the calling task, allocated at the first use.\<close>

definition get_undo_list :: "sem_env \<Rightarrow> sem_ns \<Rightarrow> sem_ns \<times> ptr result" where
  "get_undo_list e s =
     (case task_ulp s (cur_task (se_task e)) of
        Some l \<Rightarrow> (s, Inr l)
      | None \<Rightarrow>
          (case se_new e (\<lambda>l. sem_ulps s l \<noteq> None) of
             None \<Rightarrow> (s, Inl ENOMEM)
           | Some l \<Rightarrow>
               (s\<lparr>sem_ulps := (sem_ulps s)(l \<mapsto> \<lparr>ul_refcnt = 1, ul_list = []\<rparr>),
                  task_ulp := (task_ulp s)(cur_task (se_task e) \<mapsto> l)\<rparr>, Inr l)))"

definition undo_for :: "undos \<Rightarrow> int \<Rightarrow> ptr \<Rightarrow> bool" where
  "undo_for us semid un \<longleftrightarrow> (case us un of Some u \<Rightarrow> un_semid u = semid | None \<Rightarrow> False)"

definition lookup_undo_raw :: "sem_ns \<Rightarrow> ptr \<Rightarrow> int \<Rightarrow> ptr option" where
  "lookup_undo_raw s l semid =
     (case sem_ulps s l of None \<Rightarrow> None | Some ul \<Rightarrow> find (undo_for (sem_undos s) semid) (ul_list ul))"

text \<open>A structure that is found moves to the front of the list.\<close>

definition lookup_undo :: "sem_ns \<Rightarrow> ptr \<Rightarrow> int \<Rightarrow> sem_ns \<times> ptr option" where
  "lookup_undo s l semid =
     (case lookup_undo_raw s l semid of
        None \<Rightarrow> (s, None)
      | Some un \<Rightarrow>
          (s\<lparr>sem_ulps := (sem_ulps s)(l := map_option (ul_list_update (\<lambda>xs. un # remove1 un xs)) (sem_ulps s l))\<rparr>,
           Some un))"

definition link_undo :: "sem_ns \<Rightarrow> ptr \<Rightarrow> ptr \<Rightarrow> int \<Rightarrow> ptr \<Rightarrow> nat \<Rightarrow> sem_ns" where
  "link_undo s p l semid un nsems =
     upd_sma p (list_id_update (\<lambda>xs. un # xs))
       (s\<lparr>sem_undos := (sem_undos s)(un \<mapsto> \<lparr>un_ulp = l, un_semid = semid, semadj = replicate nsems 0\<rparr>),
          sem_ulps := (sem_ulps s)(l := map_option (ul_list_update (\<lambda>xs. un # xs)) (sem_ulps s l))\<rparr>)"

definition find_alloc_undo :: "sem_env \<Rightarrow> sem_ns \<Rightarrow> int \<Rightarrow> sem_ns \<times> ptr result" where
  "find_alloc_undo e s semid =
     (case get_undo_list e s of
        (s, Inl err) \<Rightarrow> (s, Inl err)
      | (s, Inr l) \<Rightarrow>
          (case lookup_undo s l semid of
             (s, Some un) \<Rightarrow> (s, Inr un)
           | (s, None) \<Rightarrow>
               (case sem_obtain_object_check s semid of
                  Inl err \<Rightarrow> (s, Inl err)
                | Inr p \<Rightarrow>
                    (let nsems = (case objs (sem_ids s) p of Some a \<Rightarrow> sem_nsems a | None \<Rightarrow> 0)
                     in case ipc_rcu_getref (sem_ids s) p of
                          (ids, False) \<Rightarrow> (s, Inl EIDRM)
                        | (ids, True) \<Rightarrow>
                            (let s = s\<lparr>sem_ids := ids\<rparr>
                             in case se_new e (\<lambda>un. sem_undos s un \<noteq> None) of
                                  None \<Rightarrow> (sem_ids_update (\<lambda>ids. ipc_rcu_putref ids p) s, Inl ENOMEM)
                                | Some new \<Rightarrow>
                                    (let s = sem_lock_and_putref p s
                                     in if \<not> ipc_valid_object (sem_ids s) p then (sma_unlock p (-1) s, Inl EIDRM)
                                        else
                                          (case lookup_undo s l semid of
                                             (s, Some un) \<Rightarrow> (sma_unlock p (-1) s, Inr un)
                                           | (s, None) \<Rightarrow>
                                               (sma_unlock p (-1) (link_undo s p l semid new nsems), Inr new)))))))
     )"

definition copy_semundo :: "sem_env \<Rightarrow> int \<Rightarrow> nat \<Rightarrow> sem_ns \<Rightarrow> sem_ns \<times> errno option" where
  "copy_semundo e clone_flags tsk s =
     (if clone_flags AND CLONE_SYSVSEM \<noteq> 0 then
        (case get_undo_list e s of
           (s, Inl err) \<Rightarrow> (s, Some err)
         | (s, Inr l) \<Rightarrow>
             (s\<lparr>sem_ulps := (sem_ulps s)(l := map_option (ul_refcnt_update Suc) (sem_ulps s l)),
                task_ulp := (task_ulp s)(tsk \<mapsto> l)\<rparr>, None))
      else (s\<lparr>task_ulp := (task_ulp s)(tsk := None)\<rparr>, None))"

section \<open>semtimedop\<close>

datatype sem_step = SemReturn "errno option" | SemBlocked ptr

definition semtimedop_perform ::
    "sem_env \<Rightarrow> sem_ns \<Rightarrow> ptr \<Rightarrow> int \<Rightarrow> sem_queue \<Rightarrow> sem_ns \<times> nat list \<times> sem_step" where
  "semtimedop_perform e s p locknum q =
     (case run_section p SemSleep
             (semop_section (clock_seconds (se_task e)) (cur_task (se_task e)) q locknum) s of
        (s, wake, SemDone) \<Rightarrow> (s, wake, SemReturn None)
      | (s, wake, SemErr err) \<Rightarrow> (s, wake, SemReturn (Some err))
      | (s, wake, SemSleep) \<Rightarrow> (s, wake, SemBlocked p))"

text \<open>\<open>time_ok\<close>: there is no timeout, or a valid one.\<close>

definition semtimedop_start ::
    "sem_env \<Rightarrow> sem_ns \<Rightarrow> int \<Rightarrow> sembuf list \<Rightarrow> bool \<Rightarrow> sem_ns \<times> nat list \<times> sem_step" where
  "semtimedop_start e s semid sops time_ok =
     (if length sops < 1 \<or> semid < 0 then (s, [], SemReturn (Some EINVAL))
      else if int (length sops) > sc_semopm s then (s, [], SemReturn (Some E2BIG))
      else if \<not> time_ok then (s, [], SemReturn (Some EINVAL))
      else
        (let f = scan_sops sops
         in case (if sf_undos f then (case find_alloc_undo e s semid of
                                        (s, Inl err) \<Rightarrow> (s, Inl err) | (s, Inr un) \<Rightarrow> (s, Inr (Some un)))
                  else (s, Inr None)) of
              (s, Inl err) \<Rightarrow> (s, [], SemReturn (Some err))
            | (s, Inr un) \<Rightarrow>
                (case sem_obtain_object_check s semid of
                   Inl err \<Rightarrow> (s, [], SemReturn (Some err))
                 | Inr p \<Rightarrow>
                     (case objs (sem_ids s) p of
                        None \<Rightarrow> (s, [], SemReturn (Some EINVAL))
                      | Some a \<Rightarrow>
                          if sf_max f \<ge> sem_nsems a then (s, [], SemReturn (Some EFBIG))
                          else if ipcperms (se_task e) (sl_ipc (se_lsm e)) a
                                    (if sf_alter f then S_IWUGO else S_IRUGO) \<noteq> None
                          then (s, [], SemReturn (Some EACCES))
                          else
                            (case sl_semop (se_lsm e) (kern_ipc_perm.truncate a) sops (sf_alter f) of
                               Some err \<Rightarrow> (s, [], SemReturn (Some err))
                             | None \<Rightarrow>
                                 (case sem_lock (Some sops) a of
                                    (a, locknum) \<Rightarrow>
                                      (let s = upd_sma p (\<lambda>_. a) s
                                       in if \<not> ipc_valid_object (sem_ids s) p
                                          then (sma_unlock p locknum s, [], SemReturn (Some EIDRM))
                                          else if (case un of None \<Rightarrow> False | Some u \<Rightarrow> undo_for (sem_undos s) (-1) u)
                                          then (sma_unlock p locknum s, [], SemReturn (Some EIDRM))
                                          else
                                            semtimedop_perform e s p locknum
                                              \<lparr>q_sleeper = cur_task (se_task e), q_undo = un,
                                               q_pid = cur_tgid (se_task e), q_status = Some EINTR,
                                               q_sops = sops, q_blocking = None,
                                               q_alter = sf_alter f, q_dupsop = sf_dupsop f\<rparr>)))))))"

text \<open>\<open>tsops\<close> is the user's array, \<open>None\<close> when it cannot be read; \<open>se_buf\<close> is the allocation.\<close>

definition SEMOPM_FAST :: nat where "SEMOPM_FAST = 64"

definition do_semtimedop ::
    "sem_env \<Rightarrow> sem_ns \<Rightarrow> int \<Rightarrow> nat \<Rightarrow> sembuf list option \<Rightarrow> bool \<Rightarrow> sem_ns \<times> nat list \<times> sem_step" where
  "do_semtimedop e s semid nsops tsops time_ok =
     (if int nsops > sc_semopm s then (s, [], SemReturn (Some E2BIG))
      else if nsops < 1 then (s, [], SemReturn (Some EINVAL))
      else if nsops > SEMOPM_FAST \<and> \<not> se_buf e then (s, [], SemReturn (Some ENOMEM))
      else
        (case tsops of
           None \<Rightarrow> (s, [], SemReturn (Some EFAULT))
         | Some sops \<Rightarrow> semtimedop_start e s semid (take nsops sops) time_ok))"

text \<open>\<open>timeout\<close>: \<open>None\<close> for no timeout, else the value read from the user and its validity.\<close>

definition ksys_semtimedop ::
    "sem_env \<Rightarrow> sem_ns \<Rightarrow> int \<Rightarrow> nat \<Rightarrow> sembuf list option \<Rightarrow> (bool option) option \<Rightarrow> sem_ns \<times> nat list \<times> sem_step" where
  "ksys_semtimedop e s semid nsops tsops timeout =
     (case timeout of
        None \<Rightarrow> do_semtimedop e s semid nsops tsops True
      | Some None \<Rightarrow> (s, [], SemReturn (Some EFAULT))
      | Some (Some valid) \<Rightarrow> do_semtimedop e s semid nsops tsops valid)"

definition compat_ksys_semtimedop ::
    "sem_env \<Rightarrow> sem_ns \<Rightarrow> int \<Rightarrow> nat \<Rightarrow> sembuf list option \<Rightarrow> (bool option) option \<Rightarrow> sem_ns \<times> nat list \<times> sem_step" where
  "compat_ksys_semtimedop e s semid nsops tsops timeout =
     (case timeout of
        None \<Rightarrow> do_semtimedop e s semid nsops tsops True
      | Some None \<Rightarrow> (s, [], SemReturn (Some EFAULT))
      | Some (Some valid) \<Rightarrow> do_semtimedop e s semid nsops tsops valid)"

text \<open>
  Behind the sleep. A final status ends the call without the array being touched: the waker
  has done all the work. Otherwise the task was interrupted, timed out or woken for nothing.
\<close>

definition semtimedop_resume :: "sem_env \<Rightarrow> sem_ns \<Rightarrow> ptr \<Rightarrow> bool \<Rightarrow> sem_ns \<times> sem_step" where
  "semtimedop_resume e s p timed_out =
     (let cur = cur_task (se_task e); leave = sem_stacks_update (\<lambda>st. st(cur := None))
      in case sem_stacks s cur of
           None \<Rightarrow> (s, SemReturn (Some EINTR))
         | Some q \<Rightarrow>
             if q_status q \<noteq> Some EINTR then (leave s, SemReturn (q_status q))
             else
               (case objs (sem_ids s) p of
                  None \<Rightarrow> (leave s, SemReturn (Some EINTR))
                | Some a \<Rightarrow>
                    (case sem_lock (Some (q_sops q)) a of
                       (a, locknum) \<Rightarrow>
                         (let s = upd_sma p (\<lambda>_. a) s
                          in if \<not> ipc_valid_object (sem_ids s) p
                             then (leave (sma_unlock p locknum s), SemReturn (Some EINTR))
                             else
                               (let out = (timed_out \<or> cur_signal_pending (se_task e));
                                    s = fst (run_work p (resume_section out cur locknum) s)
                                in if out
                                   then (leave s, SemReturn (Some (if timed_out then EAGAIN else EINTR)))
                                   else (s, SemBlocked p))))))"

section \<open>Exit of a task\<close>

text \<open>
  The loop over the undo structures of the last task that uses the list. Every
  \<^verbatim>\<open>continue\<close> of the code looks at the same structure again; running out of fuel is \<open>None\<close>.
\<close>

fun exit_sem_loop :: "nat \<Rightarrow> sem_env \<Rightarrow> ptr \<Rightarrow> sem_ns \<Rightarrow> nat list \<Rightarrow> (sem_ns \<times> nat list) option" where
  "exit_sem_loop 0 e l s wake = None"
| "exit_sem_loop (Suc n) e l s wake =
     (case (case sem_ulps s l of Some ul \<Rightarrow> ul_list ul | None \<Rightarrow> []) of
        [] \<Rightarrow> Some (s, wake)
      | un # _ \<Rightarrow>
          (let semid = (case sem_undos s un of Some u \<Rightarrow> un_semid u | None \<Rightarrow> -1)
           in if semid = -1 then exit_sem_loop n e l s wake
              else
                (case sem_obtain_object_check s semid of
                   Inl err \<Rightarrow> exit_sem_loop n e l s wake
                 | Inr p \<Rightarrow>
                     (let s = sma_lock p s
                      in if \<not> ipc_valid_object (sem_ids s) p then exit_sem_loop n e l (sma_unlock p (-1) s) wake
                         else
                           (case lookup_undo_raw s l semid of
                              None \<Rightarrow> exit_sem_loop n e l (sma_unlock p (-1) s) wake
                            | Some un \<Rightarrow>
                                (let s = s\<lparr>sem_ulps := (sem_ulps s)(l := map_option (ul_list_update (remove1 un)) (sem_ulps s l))\<rparr>;
                                     (s, w) = run_work p (exit_section (clock_seconds (se_task e))
                                                            (cur_tgid (se_task e)) un) s
                                 in exit_sem_loop n e l (s\<lparr>sem_undos := (sem_undos s)(un := None)\<rparr>) (wake @ w)))))))"

declare exit_sem_loop.simps(2) [simp del]

definition exit_sem_impl :: "nat \<Rightarrow> sem_env \<Rightarrow> nat \<Rightarrow> sem_ns \<Rightarrow> (sem_ns \<times> nat list) option" where
  "exit_sem_impl fuel e tsk s =
     (case task_ulp s tsk of
        None \<Rightarrow> Some (s, [])
      | Some l \<Rightarrow>
          (let s = s\<lparr>task_ulp := (task_ulp s)(tsk := None)\<rparr>
           in case sem_ulps s l of
                None \<Rightarrow> Some (s, [])
              | Some ul \<Rightarrow>
                  if ul_refcnt ul \<noteq> 1 then
                    Some (s\<lparr>sem_ulps := (sem_ulps s)(l \<mapsto> ul\<lparr>ul_refcnt := ul_refcnt ul - 1\<rparr>)\<rparr>, [])
                  else
                    (case exit_sem_loop fuel e l (s\<lparr>sem_ulps := (sem_ulps s)(l \<mapsto> ul\<lparr>ul_refcnt := 0\<rparr>)\<rparr>) [] of
                       None \<Rightarrow> None
                     | Some (s, wake) \<Rightarrow> Some (s\<lparr>sem_ulps := (sem_ulps s)(l := None)\<rparr>, wake))))"

section \<open>The proc line\<close>

record sem_proc_line =
  pl_key :: int
  pl_id :: int
  pl_mode :: int
  pl_nsems :: nat
  pl_owner :: "int \<times> int \<times> int \<times> int"
  pl_otime :: int
  pl_ctime :: int

text \<open>The fields of the line; the lock mode is entered and left around it.\<close>

definition sysvipc_sem_proc_show :: "user_maps \<Rightarrow> sem_ns \<Rightarrow> ptr \<Rightarrow> sem_ns \<times> sem_proc_line option" where
  "sysvipc_sem_proc_show um s p =
     (case objs (sem_ids s) p of
        None \<Rightarrow> (s, None)
      | Some a \<Rightarrow>
          (upd_sma p complexmode_tryleave (upd_sma p complexmode_enter s),
           Some \<lparr>pl_key = perm_key a, pl_id = perm_id a, pl_mode = perm_mode a, pl_nsems = sem_nsems a,
                 pl_owner = (from_kuid um (perm_uid a), from_kgid um (perm_gid a),
                             from_kuid um (perm_cuid a), from_kgid um (perm_cgid a)),
                 pl_otime = get_semotime a, pl_ctime = sem_ctime a\<rparr>))"

end
