(* ===== verification/SemFrame.thy ===== *)
theory SemFrame
  imports SemReach
begin

text \<open>
  The frame of the semaphore engine: what a wake-up pass and a critical section on one array
  leave alone. The other arrays of a namespace share the stacks and the undo structures with
  it, so their invariants rest on these lemmas.
\<close>

section \<open>What a pass may touch\<close>

text \<open>
  \<open>scoped T U n w\<close>: all waiters are in \<open>T\<close>, their operations are on the \<open>n\<close> semaphores of
  the array, and their undo structures are in \<open>U\<close>. A pass over such an array leaves all undo
  structures outside \<open>U\<close> alone.
\<close>

definition scoped :: "nat set \<Rightarrow> ptr set \<Rightarrow> nat \<Rightarrow> sem_work \<Rightarrow> bool" where
  "scoped T U n w \<longleftrightarrow> set (waiters (sw_sma w)) \<subseteq> T \<and> sem_nsems (sw_sma w) = n
     \<and> (\<forall>t \<in> T. \<forall>q. sw_stacks w t = Some q \<longrightarrow> nums_in n (q_sops q) \<and> (\<forall>p. q_undo q = Some p \<longrightarrow> p \<in> U))"

definition undo_same :: "ptr set \<Rightarrow> sem_work \<Rightarrow> sem_work \<Rightarrow> bool" where
  "undo_same U w v \<longleftrightarrow> (\<forall>p. p \<notin> U \<longrightarrow> sw_undos v p = sw_undos w p)"

lemma undo_same_refl [simp]: "undo_same U w w"
  by (simp add: undo_same_def)

lemma undo_same_trans: "undo_same U u v \<Longrightarrow> undo_same U v w \<Longrightarrow> undo_same U u w"
  by (simp add: undo_same_def)

lemma semadj_set_other: "un \<noteq> Some p \<Longrightarrow> semadj_set un i v us p = us p"
  by (auto simp: semadj_set_def split: option.splits)

lemma rollback_frame:
  "un \<noteq> Some p \<Longrightarrow> snd (semop_rollback un b ss us) p = us p"
  "sem_lists (fst (semop_rollback un b ss us)) = sem_lists ss"
  by (induction b arbitrary: ss us) (simp_all add: semadj_set_other)

lemma commit_frame:
  "un \<noteq> Some p \<Longrightarrow> snd (semop_fast_commit un pid l ss us) p = us p"
  "sem_lists (fst (semop_fast_commit un pid l ss us)) = sem_lists ss"
  by (induction l arbitrary: ss us) (simp_all add: semadj_set_other)

lemma slow_scan_frame:
  assumes "semop_slow_scan un b l ss us = (ss', us', b', v)" "nums_in (length ss) l"
  shows "un \<noteq> Some p \<Longrightarrow> us' p = us p" "sem_lists ss' = sem_lists ss"
proof -
  have "(un \<noteq> Some p \<longrightarrow> us' p = us p) \<and> sem_lists ss' = sem_lists ss"
    using assms
  proof (induction l arbitrary: b ss us)
    case (Cons sop l)
    then show ?case
      by (fastforce simp: scan_Cons sop_us_def sop_ss_def semadj_set_other split: if_splits)
  qed simp
  then show "un \<noteq> Some p \<Longrightarrow> us' p = us p" "sem_lists ss' = sem_lists ss" by blast+
qed

lemma perform_frame:
  assumes "perform_atomic_semop a us q = (a', us', q', r)" "nums_in (sem_nsems a) (q_sops q)"
  shows "q_undo q \<noteq> Some p \<Longrightarrow> us' p = us p" "sem_lists (sems a') = sem_lists (sems a)"
    "a' = a\<lparr>sems := sems a'\<rparr>" "q' = q\<lparr>q_blocking := q_blocking q'\<rparr>"
proof -
  let ?un = "q_undo q"
  have "(?un \<noteq> Some p \<longrightarrow> us' p = us p) \<and> sem_lists (sems a') = sem_lists (sems a)
      \<and> a' = a\<lparr>sems := sems a'\<rparr> \<and> q' = q\<lparr>q_blocking := q_blocking q'\<rparr>"
  proof (cases "q_dupsop q")
    case True
    obtain ss us1 b v where s: "semop_slow_scan ?un [] (q_sops q) (sems a) us = (ss, us1, b, v)" by (metis prod_cases4)
    obtain ss2 us2 where r: "semop_rollback ?un b ss us1 = (ss2, us2)" by (metis surj_pair)
    note f = slow_scan_frame [OF s assms(2)] and g = rollback_frame(1) [of ?un p b ss us1, unfolded r] rollback_frame(2) [of ?un b ss us1, unfolded r]
    from assms(1) True s r have e: "(a', us', q', r) = (case v of
        ScanEnd \<Rightarrow> (a\<lparr>sems := semop_set_pids (q_pid q) b ss\<rparr>, us1, q, SemDone)
      | OutOfRange \<Rightarrow> (a\<lparr>sems := ss2\<rparr>, us2, q, SemErr ERANGE)
      | WouldBlock sop \<Rightarrow> (a\<lparr>sems := ss2\<rparr>, us2, q\<lparr>q_blocking := Some sop\<rparr>, block_result sop))"
      by (simp add: perform_atomic_semop_def perform_atomic_semop_slow_def split: scan_end.splits)
    show ?thesis using e f g by (cases v) simp_all
  next
    case False
    obtain ss us1 where c: "semop_fast_commit ?un (q_pid q) (q_sops q) (sems a) us = (ss, us1)" by (metis surj_pair)
    note f = commit_frame(1) [of ?un p "q_pid q" "q_sops q" "sems a" us, unfolded c]
      commit_frame(2) [of ?un "q_pid q" "q_sops q" "sems a" us, unfolded c]
    from assms(1) False c have e: "(a', us', q', r) = (case semop_fast_scan ?un (q_sops q) (sems a) us of
        ScanEnd \<Rightarrow> (a\<lparr>sems := ss\<rparr>, us1, q, SemDone)
      | OutOfRange \<Rightarrow> (a, us, q, SemErr ERANGE)
      | WouldBlock sop \<Rightarrow> (a, us, q\<lparr>q_blocking := Some sop\<rparr>, block_result sop))"
      by (simp add: perform_atomic_semop_def split: scan_end.splits)
    show ?thesis using e f by (cases "semop_fast_scan ?un (q_sops q) (sems a) us") simp_all
  qed
  then show "q_undo q \<noteq> Some p \<Longrightarrow> us' p = us p" "sem_lists (sems a') = sem_lists (sems a)"
    "a' = a\<lparr>sems := sems a'\<rparr>" "q' = q\<lparr>q_blocking := q_blocking q'\<rparr>" by blast+
qed

definition stays :: "nat set \<Rightarrow> ptr set \<Rightarrow> nat \<Rightarrow> sem_work \<Rightarrow> sem_work \<Rightarrow> bool" where
  "stays T U n w v \<longleftrightarrow> scoped T U n v \<and> undo_same U w v"

lemma staysI: "scoped T U n w \<Longrightarrow> stays T U n w w"
  by (simp add: stays_def)

lemma stays_trans: "stays T U n u v \<Longrightarrow> stays T U n v w \<Longrightarrow> stays T U n u w"
  by (auto simp: stays_def intro: undo_same_trans)

lemma stays_scoped: "stays T U n w v \<Longrightarrow> scoped T U n v"
  by (simp add: stays_def)

lemma stays_try:
  assumes "scoped T U n w" "t \<in> T" "try_sleeper t w = (v, r)"
  shows "stays T U n w v"
proof (cases "sw_stacks w t")
  case None
  then show ?thesis using assms by (simp add: try_sleeper_def stays_def)
next
  case (Some q)
  obtain a us q' r' where p: "perform_atomic_semop (sw_sma w) (sw_undos w) q = (a, us, q', r')" by (metis prod_cases4)
  have v: "v = w\<lparr>sw_sma := a, sw_undos := us, sw_stacks := (sw_stacks w)(t \<mapsto> q')\<rparr>"
    using assms(3) Some p by (simp add: try_sleeper_def)
  have q: "nums_in n (q_sops q)" "\<And>p. q_undo q = Some p \<Longrightarrow> p \<in> U" and n: "sem_nsems (sw_sma w) = n"
    using assms(1,2) Some by (auto simp: scoped_def)
  note f = perform_frame [OF p, unfolded n, OF q(1)]
  have q': "q_sops q' = q_sops q" "q_undo q' = q_undo q"
    using arg_cong [OF f(4), of q_sops] arg_cong [OF f(4), of q_undo] by simp_all
  have fa: "pending_alter a = pending_alter (sw_sma w)" "pending_const a = pending_const (sw_sma w)"
    using arg_cong [OF f(3), of pending_alter] arg_cong [OF f(3), of pending_const] by simp_all
  have "waiters a = waiters (sw_sma w)" by (rule waiters_cong(3) [OF fa f(2)])
  moreover have "sem_nsems a = n" using arg_cong [OF f(2), of length] n by (simp add: sem_lists_def)
  moreover have "undo_same U w v" using q(2) f(1) by (auto simp: undo_same_def v)
  ultimately show ?thesis
    using assms(1,2) Some q q' by (auto simp: stays_def scoped_def v)
qed

lemma stays_unlink: "scoped T U n w \<Longrightarrow> stays T U n w (sw_unlink t w)"
  by (auto simp: stays_def scoped_def undo_same_def)

lemma stays_prepare: "scoped T U n w \<Longrightarrow> stays T U n w (wake_up_sem_queue_prepare t e w)"
  by (auto simp: stays_def scoped_def undo_same_def wake_up_sem_queue_prepare_def)

lemma stays_finish: "scoped T U n w \<Longrightarrow> stays T U n w (wake_up_sem_queue_prepare t e (sw_unlink t w))"
  using stays_trans stays_unlink stays_prepare stays_scoped by metis

lemma stays_wake_const_loop:
  "scoped T U n w \<Longrightarrow> set ts \<subseteq> T \<Longrightarrow> wake_const_loop ts w fin = (v, c) \<Longrightarrow> stays T U n w v"
proof (induction ts arbitrary: w fin)
  case (Cons t ts)
  obtain u r where tr: "try_sleeper t w = (u, r)" by (metis surj_pair)
  have s: "stays T U n w u" using Cons.prems(2) by (intro stays_try [OF Cons.prems(1) _ tr]) simp
  have f: "stays T U n w (wake_up_sem_queue_prepare t e (sw_unlink t u))" for e
    by (rule stays_trans [OF s stays_finish [OF stays_scoped [OF s]]])
  have "\<exists>x fin'. stays T U n w x \<and> wake_const_loop ts x fin' = (v, c)"
    using Cons.prems(3) tr s f by (cases r) auto
  then obtain x fin' where x: "stays T U n w x" "wake_const_loop ts x fin' = (v, c)" by blast
  show ?case
    by (rule stays_trans [OF x(1) Cons.IH [OF stays_scoped [OF x(1)] _ x(2)]]) (use Cons.prems(2) in simp)
qed (simp add: staysI)

lemma scoped_lists:
  assumes "scoped T U n w"
  shows "set (pending_const (sw_sma w)) \<subseteq> T" "set (pending_alter (sw_sma w)) \<subseteq> T"
    "i < n \<Longrightarrow> set (sem_const (sems (sw_sma w) ! i)) \<subseteq> T" "i < n \<Longrightarrow> set (sem_alter (sems (sw_sma w) ! i)) \<subseteq> T"
  using assms const_sublists(3) [of "sw_sma w"] alter_sublists(3) [of "sw_sma w"] const_sublists(4) [of i "sw_sma w"] alter_sublists(4) [of i "sw_sma w"]
  by (auto simp: scoped_def waiters_def)

lemma stays_wake_const_ops:
  assumes "scoped T U n w" "\<And>i. semnum = Some i \<Longrightarrow> i < n" "wake_const_ops semnum w = (v, c)"
  shows "stays T U n w v"
  using assms(3) scoped_lists(1,3) [OF assms(1)] assms(2)
  by (intro stays_wake_const_loop [OF assms(1)]) (auto simp: wake_const_ops_def split: option.splits)

lemma stays_zero_loop:
  "scoped T U n w \<Longrightarrow> \<forall>i \<in> set is. i < n \<Longrightarrow> wakeup_zero_loop is w got fin = (v, g, c) \<Longrightarrow> stays T U n w v"
proof (induction "is" arbitrary: w got fin)
  case (Cons i "is")
  show ?case
  proof (cases "semval (sems (sw_sma w) ! i) = 0")
    case True
    obtain u d where u: "wake_const_ops (Some i) w = (u, d)" by (metis surj_pair)
    have s: "stays T U n w u" by (rule stays_wake_const_ops [OF Cons.prems(1) _ u]) (use Cons.prems(2) in simp)
    show ?thesis
      by (rule stays_trans [OF s Cons.IH [OF stays_scoped [OF s]]]) (use Cons.prems True u in auto)
  next
    case False
    then show ?thesis using Cons by simp
  qed
qed (simp add: staysI)

lemma stays_smart_zero:
  assumes "scoped T U n w" "\<And>l. sops = Some l \<Longrightarrow> nums_in n l" "do_smart_wakeup_zero sops w = (v, c)"
  shows "stays T U n w v"
proof -
  let ?is = "case sops of Some l \<Rightarrow> map sem_num l | None \<Rightarrow> [0..<sem_nsems (sw_sma w)]"
  obtain u got d where u: "wakeup_zero_loop ?is w False False = (u, got, d)" by (metis prod_cases3)
  have "\<forall>i \<in> set ?is. i < n"
    using assms(1,2) by (auto simp: nums_in_def scoped_def split: option.splits)
  then have s: "stays T U n w u" by (rule stays_zero_loop [OF assms(1) _ u])
  obtain x e where x: "wake_const_ops None u = (x, e)" by (metis surj_pair)
  have "stays T U n u x" by (rule stays_wake_const_ops [OF stays_scoped [OF s] _ x]) simp
  then show ?thesis using assms(3) u x s stays_trans [OF s] by (auto simp: do_smart_wakeup_zero_def split: if_splits)
qed

lemma stays_complete:
  assumes "scoped T U n w" "t \<in> T" "sw_stacks w t \<noteq> None"
  shows "stays T U n w (complete t w)"
proof -
  let ?l = "sops_of (sw_stacks w) t"
  obtain v c where v: "do_smart_wakeup_zero (Some ?l) (sw_unlink t w) = (v, c)" by (metis surj_pair)
  note s = stays_unlink [OF assms(1), of t]
  have "nums_in n ?l" using assms by (auto simp: scoped_def sops_of_def)
  then have z: "stays T U n (sw_unlink t w) v" by (intro stays_smart_zero [OF stays_scoped [OF s] _ v]) simp
  note vz = stays_trans [OF s z]
  show ?thesis
    unfolding complete_def v fst_conv by (rule stays_trans [OF vz stays_prepare [OF stays_scoped [OF vz]]])
qed

lemma stays_update_scan:
  "scoped T U n w \<Longrightarrow> set ts \<subseteq> T \<Longrightarrow> update_scan semnum ts w fin = (v, c, again) \<Longrightarrow> stays T U n w v"
proof (induction ts arbitrary: w fin)
  case (Cons t ts)
  let ?z = "case semnum of None \<Rightarrow> False | Some i \<Rightarrow> semval (sems (sw_sma w) ! i) = 0"
  show ?case
  proof (cases ?z)
    case True
    then show ?thesis using Cons.prems update_scan_zero [OF True] by (simp add: staysI)
  next
    case False
    obtain u r where tr: "try_sleeper t w = (u, r)" by (metis surj_pair)
    have t: "t \<in> T" using Cons.prems(2) by simp
    have s: "stays T U n w u" by (rule stays_try [OF Cons.prems(1) t tr])
    have f: "stays T U n w (finish t e u)" for e
      unfolding finish_def by (rule stays_trans [OF s stays_finish [OF stays_scoped [OF s]]])
    have d: "stays T U n w (complete t u)" if "r = SemDone"
    proof -
      have "sw_stacks u t \<noteq> None"
        using tr that by (auto simp: try_sleeper_def split: option.splits prod.splits)
      then show ?thesis using stays_trans [OF s stays_complete [OF stays_scoped [OF s] t]] by blast
    qed
    note st = update_scan_step [OF False tr, of ts fin]
    have "\<exists>x. stays T U n w x \<and> (v = x \<or> (\<exists>fin'. update_scan semnum ts x fin' = (v, c, again)))"
      using Cons.prems(3) st s f d by (cases r) (auto split: if_splits)
    then obtain x where x: "stays T U n w x" "v = x \<or> (\<exists>fin'. update_scan semnum ts x fin' = (v, c, again))" by blast
    show ?thesis
      using x stays_trans [OF x(1) Cons.IH [OF stays_scoped [OF x(1)]]] Cons.prems(2) by auto
  qed
qed (simp add: staysI)

lemma stays_update_loop:
  "scoped T U n w \<Longrightarrow> (\<And>i. semnum = Some i \<Longrightarrow> i < n) \<Longrightarrow> update_loop k semnum w fin = Some (v, c) \<Longrightarrow> stays T U n w v"
proof (induction k arbitrary: w fin)
  case (Suc k)
  obtain u d again where u: "update_scan semnum (pending_list semnum w) w fin = (u, d, again)" by (metis prod_cases3)
  have "set (pending_list semnum w) \<subseteq> T"
    using scoped_lists(2,4) [OF Suc.prems(1)] Suc.prems(2) by (auto simp: pending_list_def split: option.splits)
  then have s: "stays T U n w u" by (rule stays_update_scan [OF Suc.prems(1) _ u])
  show ?case
    using Suc.prems(2,3) u s stays_trans [OF s Suc.IH [OF stays_scoped [OF s]]] by (auto split: if_splits)
qed simp

lemma stays_update_queue:
  assumes "scoped T U n w" "\<And>i. semnum = Some i \<Longrightarrow> i < n" "update_queue semnum w = (v, c)"
  shows "stays T U n w v"
proof (cases "update_loop (Suc (length (pending_list semnum w))) semnum w False")
  case None
  then show ?thesis using assms(1,3) by (simp add: update_queue_def staysI)
next
  case (Some r)
  then have "r = (v, c)" using assms(3) by (simp add: update_queue_def del: update_loop.simps)
  with Some stays_update_loop [OF assms(1,2)] show ?thesis by blast
qed

lemma stays_update_each:
  "scoped T U n w \<Longrightarrow> \<forall>i \<in> set is. i < n \<Longrightarrow> update_each is w fin = (v, c) \<Longrightarrow> stays T U n w v"
proof (induction "is" arbitrary: w fin)
  case (Cons i "is")
  obtain u d where u: "update_queue (Some i) w = (u, d)" by (metis surj_pair)
  have s: "stays T U n w u" by (rule stays_update_queue [OF Cons.prems(1) _ u]) (use Cons.prems(2) in simp)
  show ?case
    by (rule stays_trans [OF s Cons.IH [OF stays_scoped [OF s]]]) (use Cons.prems u in auto)
qed (simp add: staysI)

lemma stays_semotime: "scoped T U n w \<Longrightarrow> stays T U n w (set_semotime now sops w)"
proof -
  assume s: "scoped T U n w"
  have "waiters (sw_sma (set_semotime now sops w)) = waiters (sw_sma w)"
    by (rule waiters_cong(3)) (simp_all add: set_semotime_def Let_def)
  then show ?thesis
    using s by (auto simp: stays_def scoped_def undo_same_def set_semotime_def Let_def)
qed

lemma stays_smart_update:
  assumes "scoped T U n w" "\<And>l. sops = Some l \<Longrightarrow> nums_in n l"
  shows "stays T U n w (do_smart_update now sops otime w)"
proof -
  obtain v c where v: "do_smart_wakeup_zero sops w = (v, c)" by (metis surj_pair)
  have sv: "stays T U n w v" by (rule stays_smart_zero [OF assms v])
  let ?step = "if pending_alter (sw_sma v) \<noteq> []
      then (case update_queue None v of (w, d) \<Rightarrow> (w, (otime \<or> c) \<or> d))
      else (case sops of
              None \<Rightarrow> update_each [0..<sem_nsems (sw_sma v)] v (otime \<or> c)
            | Some l \<Rightarrow> update_each (map sem_num (filter (\<lambda>sop. sem_op sop > 0) l)) v (otime \<or> c))"
  obtain u d where u: "?step = (u, d)" by (metis surj_pair)
  have n: "sem_nsems (sw_sma v) = n" using sv by (simp add: stays_def scoped_def)
  have su: "stays T U n v u"
  proof (cases "pending_alter (sw_sma v) \<noteq> []")
    case True
    obtain x y where x: "update_queue None v = (x, y)" by (metis surj_pair)
    with True u have "u = x" by simp
    with stays_update_queue [OF stays_scoped [OF sv] _ x] show ?thesis by simp
  next
    case False
    then obtain l where l: "update_each l v (otime \<or> c) = (u, d)"
        and "l = (case sops of None \<Rightarrow> [0..<sem_nsems (sw_sma v)]
                  | Some l \<Rightarrow> map sem_num (filter (\<lambda>sop. sem_op sop > 0) l))"
      using u by (cases sops) simp_all
    then have "\<forall>i \<in> set l. i < n"
      using assms(2) n by (auto simp: nums_in_def split: option.splits)
    then show ?thesis by (rule stays_update_each [OF stays_scoped [OF sv] _ l])
  qed
  note s = stays_trans [OF sv su]
  have "do_smart_update now sops otime w = (if d then set_semotime now sops u else u)"
    unfolding do_smart_update_def v prod.case Let_def u ..
  then show ?thesis using s stays_trans [OF s stays_semotime [OF stays_scoped [OF s]]] by simp
qed

section \<open>What a critical section may touch\<close>

text \<open>
  From \<open>w\<close> to \<open>v\<close> the identity of the array, its list of undo structures, all undo structures
  outside \<open>U\<close> and the tasks that are not in \<open>C\<close> stay: such a task waits on only if it waited
  before, keeps its operations, and has a final status exactly when it was taken off.
\<close>

definition perm_header :: "sem_array \<Rightarrow> bool \<times> int \<times> int \<times> int \<times> nat" where
  "perm_header a = (perm_deleted a, perm_id a, perm_key a, perm_seq a, perm_refcount a)"

definition sec_rel :: "nat set \<Rightarrow> ptr set \<Rightarrow> sem_work \<Rightarrow> sem_work \<Rightarrow> bool" where
  "sec_rel C U w v \<longleftrightarrow>
     perm_header (sw_sma v) = perm_header (sw_sma w) \<and> sem_nsems (sw_sma v) = sem_nsems (sw_sma w)
     \<and> list_id (sw_sma v) = list_id (sw_sma w) \<and> undo_same U w v \<and> undo_shape (sw_undos v) = undo_shape (sw_undos w)
     \<and> set (waiters (sw_sma v)) - C \<subseteq> set (waiters (sw_sma w))
     \<and> (\<forall>t. t \<notin> C \<longrightarrow> st_base (sw_stacks v) t = st_base (sw_stacks w) t)
     \<and> (\<forall>t. t \<notin> C \<and> (t \<in> set (waiters (sw_sma w)) \<longrightarrow> t \<in> set (waiters (sw_sma v)))
            \<longrightarrow> q_status_of (sw_stacks v) t = q_status_of (sw_stacks w) t)
     \<and> (\<forall>t. t \<notin> C \<and> t \<in> set (waiters (sw_sma w)) \<and> t \<notin> set (waiters (sw_sma v))
            \<longrightarrow> q_status_of (sw_stacks v) t \<noteq> Some EINTR)"

lemma sec_rel_trans:
  assumes "sec_rel C U u v" "sec_rel C U v w"
  shows "sec_rel C U u w"
proof -
  have sub: "set (waiters (sw_sma v)) - C \<subseteq> set (waiters (sw_sma u))" "set (waiters (sw_sma w)) - C \<subseteq> set (waiters (sw_sma v))"
    and st: "\<And>t. t \<notin> C \<Longrightarrow> st_base (sw_stacks v) t = st_base (sw_stacks u) t" "\<And>t. t \<notin> C \<Longrightarrow> st_base (sw_stacks w) t = st_base (sw_stacks v) t"
    and k: "\<And>t. t \<notin> C \<Longrightarrow> (t \<in> set (waiters (sw_sma u)) \<longrightarrow> t \<in> set (waiters (sw_sma v))) \<Longrightarrow> q_status_of (sw_stacks v) t = q_status_of (sw_stacks u) t"
      "\<And>t. t \<notin> C \<Longrightarrow> (t \<in> set (waiters (sw_sma v)) \<longrightarrow> t \<in> set (waiters (sw_sma w))) \<Longrightarrow> q_status_of (sw_stacks w) t = q_status_of (sw_stacks v) t"
    and e: "\<And>t. t \<notin> C \<Longrightarrow> t \<in> set (waiters (sw_sma u)) \<Longrightarrow> t \<notin> set (waiters (sw_sma v)) \<Longrightarrow> q_status_of (sw_stacks v) t \<noteq> Some EINTR"
      "\<And>t. t \<notin> C \<Longrightarrow> t \<in> set (waiters (sw_sma v)) \<Longrightarrow> t \<notin> set (waiters (sw_sma w)) \<Longrightarrow> q_status_of (sw_stacks w) t \<noteq> Some EINTR"
    using assms unfolding sec_rel_def by blast+
  have 1: "q_status_of (sw_stacks w) t = q_status_of (sw_stacks u) t"
    if "t \<notin> C" "t \<in> set (waiters (sw_sma u)) \<longrightarrow> t \<in> set (waiters (sw_sma w))" for t
    using that k(1) [OF that(1)] k(2) [OF that(1)] sub by (metis DiffI subsetD)
  have 2: "q_status_of (sw_stacks w) t \<noteq> Some EINTR"
    if "t \<notin> C" "t \<in> set (waiters (sw_sma u))" "t \<notin> set (waiters (sw_sma w))" for t
    using that e(1) [OF that(1,2)] e(2) [OF that(1) _ that(3)] k(2) [OF that(1)] by metis
  show ?thesis
    unfolding sec_rel_def
  proof (intro conjI)
    show "undo_same U u w" using assms unfolding sec_rel_def by (blast intro: undo_same_trans)
    show "set (waiters (sw_sma w)) - C \<subseteq> set (waiters (sw_sma u))" using sub by blast
    show "\<forall>t. t \<notin> C \<longrightarrow> st_base (sw_stacks w) t = st_base (sw_stacks u) t" using st by simp
  qed (use assms 1 2 in \<open>auto simp: sec_rel_def\<close>)
qed

lemma sec_rel_mono: "sec_rel {} U w v \<Longrightarrow> sec_rel C U w v"
  unfolding sec_rel_def by blast

lemma sec_rel_refl [simp]: "sec_rel C U w w"
  by (auto simp: sec_rel_def)

text \<open>A step that changes neither the waiters nor the stacks.\<close>

lemma sec_rel_still:
  assumes "perm_header (sw_sma v) = perm_header (sw_sma w)" "sem_nsems (sw_sma v) = sem_nsems (sw_sma w)"
    and "list_id (sw_sma v) = list_id (sw_sma w)" "undo_same U w v" "undo_shape (sw_undos v) = undo_shape (sw_undos w)"
    and "set (waiters (sw_sma v)) = set (waiters (sw_sma w))" "sw_stacks v = sw_stacks w"
  shows "sec_rel {} U w v"
  using assms by (simp add: sec_rel_def)

lemma sec_rel_pass:
  assumes "work_rel w v" "stays T U n w v"
  shows "sec_rel {} U w v"
proof -
  obtain x y z u where a: "sw_sma v = (sw_sma w)\<lparr>pending_alter := x, pending_const := y, complex_count := z, sems := u\<rparr>"
    using assms(1) unfolding work_rel_def by blast
  have s: "\<And>t. t \<notin> set (waiters (sw_sma w)) - set (waiters (sw_sma v)) \<Longrightarrow> q_status_of (sw_stacks v) t = q_status_of (sw_stacks w) t"
    "\<And>t. t \<in> set (waiters (sw_sma w)) - set (waiters (sw_sma v)) \<Longrightarrow> q_status_of (sw_stacks v) t \<noteq> Some EINTR"
    using assms(1) unfolding work_rel_def by blast+
  have "perm_header (sw_sma v) = perm_header (sw_sma w)" "list_id (sw_sma v) = list_id (sw_sma w)"
    by (simp_all add: a perm_header_def)
  then show ?thesis
    using assms s by (auto simp: sec_rel_def work_rel_def stays_def)
qed

lemma unmerge_waiters:
  assumes "in_order w"
  shows "set (waiters (unmerge_queues (sw_stacks w) (sw_sma w))) = set (waiters (sw_sma w))"
    "sem_nsems (unmerge_queues (sw_stacks w) (sw_sma w)) = sem_nsems (sw_sma w)"
    "list_id (unmerge_queues (sw_stacks w) (sw_sma w)) = list_id (sw_sma w)"
    "perm_header (unmerge_queues (sw_stacks w) (sw_sma w)) = perm_header (sw_sma w)"
proof -
  let ?a = "sw_sma w" and ?st = "sw_stacks w"
  have ok: "work_ok w" and ty: "queues_typed w" using assms by (simp_all add: in_order_def)
  have ts: "\<forall>t \<in> set (pending_alter ?a). (\<exists>q. ?st t = Some q) \<and> dest ?st t < length (sems ?a)"
  proof
    fix t assume t: "t \<in> set (pending_alter ?a)"
    have tw: "t \<in> set (waiters ?a)" using t by (rule pending_alter_in_waiters)
    have "sops_of ?st t \<noteq> []" using ty t unfolding queues_typed_def by blast
    then have "dest ?st t < length (sems ?a)"
      using sops_of_in [OF ok tw] by (cases "sops_of ?st t") (simp_all add: dest_def)
    moreover have "\<exists>q. ?st t = Some q" using ok tw unfolding work_ok_def by blast
    ultimately show "(\<exists>q. ?st t = Some q) \<and> dest ?st t < length (sems ?a)" by blast
  qed
  note u = unmerge_loop_nth [OF ts]
  have con: "map sem_const (unmerge_loop ?st (pending_alter ?a) (sems ?a)) = map sem_const (sems ?a)"
    using u by (auto intro!: nth_equalityI)
  have "mset (waiters (unmerge_queues ?st ?a)) = mset (waiters ?a)"
    using unmerge_loop_mset [OF ts] con
    by (simp add: unmerge_queues_def waiters_def alter_waiters_def const_waiters_def)
  then show "set (waiters (unmerge_queues ?st ?a)) = set (waiters ?a)" by (rule mset_eq_setD)
  show "sem_nsems (unmerge_queues ?st ?a) = sem_nsems ?a" using u by (simp add: unmerge_queues_def)
  show "list_id (unmerge_queues ?st ?a) = list_id ?a"
    "perm_header (unmerge_queues ?st ?a) = perm_header ?a"
    by (simp_all add: unmerge_queues_def perm_header_def)
qed

lemma tryleave_fields [simp]:
  "waiters (complexmode_tryleave a) = waiters a" "list_id (complexmode_tryleave a) = list_id a"
  "sems (complexmode_tryleave a) = sems a" "perm_header (complexmode_tryleave a) = perm_header a"
  by (simp_all add: complexmode_tryleave_def perm_header_def waiters_def alter_waiters_def const_waiters_def)

lemma enter_fields [simp]:
  "waiters (complexmode_enter a) = waiters a" "list_id (complexmode_enter a) = list_id a"
  "sems (complexmode_enter a) = sems a" "perm_header (complexmode_enter a) = perm_header a"
  by (simp_all add: complexmode_enter_def perm_header_def waiters_def alter_waiters_def const_waiters_def)

lemma sec_rel_unlock: "in_order w \<Longrightarrow> sec_rel {} U w (sw_unlock locknum w)"
  by (rule sec_rel_still) (simp_all add: sw_unlock_def sem_unlock_def unmerge_waiters undo_same_def)

lemma sec_rel_lock: "sw_lock sops w = (v, locknum) \<Longrightarrow> sec_rel {} U w v"
  by (rule sec_rel_still) (auto simp: sw_lock_def sem_lock_def undo_same_def split: option.splits list.splits if_splits)

lemma unlock_waiters: "in_order w \<Longrightarrow> set (waiters (sw_sma (sw_unlock locknum w))) = set (waiters (sw_sma w))"
  by (simp add: sw_unlock_def sem_unlock_def unmerge_waiters)

text \<open>The waiters and the caller of an operation use undo structures of the array.\<close>

definition undos_of :: "nat set \<Rightarrow> ptr set \<Rightarrow> sem_work \<Rightarrow> bool" where
  "undos_of T U w \<longleftrightarrow> (\<forall>t \<in> T. \<forall>q p. sw_stacks w t = Some q \<longrightarrow> q_undo q = Some p \<longrightarrow> p \<in> U)"

lemma undos_of_scoped:
  assumes "work_ok w" "undos_of (set (waiters (sw_sma w))) U w"
  shows "scoped (set (waiters (sw_sma w))) U (sem_nsems (sw_sma w)) w"
  using assms unfolding scoped_def undos_of_def work_ok_def sop_queue_ok_def by fastforce

lemma perform_sec:
  assumes "work_ok w" "call_ok (sem_nsems (sw_sma w)) q" "\<And>p. q_undo q = Some p \<Longrightarrow> p \<in> U"
    and "perform_atomic_semop (sw_sma w) (sw_undos w) q = (a, us, q', r)"
  shows "sec_rel {} U w (w\<lparr>sw_sma := a, sw_undos := us\<rparr>)"
proof -
  have n: "nums_in (sem_nsems (sw_sma w)) (q_sops q)" using assms(2) by (simp add: call_ok_def)
  have u: "undos_ok (sw_undos w)" "vals_ok (sems (sw_sma w))" using assms(1) unfolding work_ok_def by blast+
  note f = perform_frame [OF assms(4) n] and k = perform_keeps [OF assms(4) call_queue_ok [OF assms(2)] u]
  obtain ss where a: "a = (sw_sma w)\<lparr>sems := ss\<rparr>" using f(3) by blast
  have "waiters a = waiters (sw_sma w)" by (rule waiters_cong(3)) (use f(2) in \<open>simp_all add: a\<close>)
  then show ?thesis
    using assms(3) f(1) k(5,6) by (intro sec_rel_still) (auto simp: a perm_header_def undo_same_def)
qed

lemma undos_of_rel: "sec_rel {} U w v \<Longrightarrow> undos_of T U w \<Longrightarrow> undos_of T U v"
  unfolding undos_of_def
proof (intro ballI allI impI)
  fix t q p assume r: "sec_rel {} U w v" and u: "\<forall>t \<in> T. \<forall>q p. sw_stacks w t = Some q \<longrightarrow> q_undo q = Some p \<longrightarrow> p \<in> U"
    and t: "t \<in> T" "sw_stacks v t = Some q" "q_undo q = Some p"
  have "st_base (sw_stacks v) t = st_base (sw_stacks w) t" using r by (simp add: sec_rel_def)
  then obtain q0 where "sw_stacks w t = Some q0" "q_base q0 = q_base q" using t(2) by (cases "sw_stacks w t") (auto simp: st_base_def)
  then show "p \<in> U" using u t(1,3) q_base_eq [of q0 q] by auto
qed

lemma smart_update_sec:
  assumes "work_ok w" "sops_in sops w" "undos_of (set (waiters (sw_sma w))) U w"
  shows "sec_rel {} U w (do_smart_update now sops otime w)"
  by (rule sec_rel_pass [OF do_smart_update_rel [OF assms(1,2)] stays_smart_update [OF undos_of_scoped [OF assms(1,3)]]])
    (use assms(2) in \<open>simp add: sops_in_def\<close>)

lemma semotime_sec: "work_ok w \<Longrightarrow> undos_of (set (waiters (sw_sma w))) U w \<Longrightarrow> sec_rel {} U w (set_semotime now sops w)"
  by (rule sec_rel_pass [OF set_semotime_rel stays_semotime [OF undos_of_scoped]])

text \<open>The sections. The caller of an operation is special only when it goes to sleep.\<close>

lemma sops_in_call: "call_ok n q \<Longrightarrow> sem_nsems (sw_sma w) = n \<Longrightarrow> sops_in (Some (q_sops q)) w"
  by (simp add: sops_in_def call_ok_def)

lemma sec_rel_ok:
  assumes "work_rel w v"
  shows "set (waiters (sw_sma v)) \<subseteq> set (waiters (sw_sma w))"
  using assms unfolding work_rel_def by blast

lemma undos_of_mono: "undos_of T U w \<Longrightarrow> S \<subseteq> T \<Longrightarrow> undos_of S U w"
  by (auto simp: undos_of_def)

lemma semop_sec:
  assumes "arr_inv w" "sw_lock (Some (q_sops q)) w = (v, locknum)" "call_ok (sem_nsems (sw_sma w)) q"
    and "cur \<notin> set (waiters (sw_sma w))" "undos_of (set (waiters (sw_sma w))) U w" "\<And>p. q_undo q = Some p \<Longrightarrow> p \<in> U"
    and "semop_section now cur q locknum v = (u, r)"
  shows "r \<noteq> SemSleep \<Longrightarrow> sec_rel {} U w u"
    and "r = SemSleep \<Longrightarrow> sec_rel {cur} U w u \<and> set (waiters (sw_sma u)) = insert cur (set (waiters (sw_sma w)))
        \<and> (\<exists>p. sw_stacks u cur = Some p \<and> q_status p = Some EINTR \<and> q_undo p = q_undo q)
        \<and> (\<forall>t. t \<noteq> cur \<longrightarrow> sw_stacks u t = sw_stacks w t)"
proof -
  note l = sw_lock_inv [OF assms(1,2)] and f = sw_lock_fields [OF assms(2)]
  have ok: "work_ok v" using l(1) by (simp add: in_order_def)
  have c: "call_ok (sem_nsems (sw_sma v)) q" using assms(3) f(1) by simp
  have lk: "sec_rel {} U w v" by (rule sec_rel_lock [OF assms(2)])
  have un: "undos_of (set (waiters (sw_sma v))) U v" using undos_of_rel [OF lk assms(5)] f by simp
  obtain a us q' r' where p: "perform_atomic_semop (sw_sma v) (sw_undos v) q = (a, us, q', r')" by (metis prod_cases4)
  define x where "x = v\<lparr>sw_sma := a, sw_undos := us\<rparr>"
  have px: "sec_rel {} U v x" unfolding x_def by (rule perform_sec [OF ok c assms(6) p])
  note pr = perform_rel [OF ok c p, folded x_def]
  have xok: "work_ok x" by (rule work_rel_ok [OF pr(1)])
  have xun: "undos_of (set (waiters (sw_sma x))) U x"
    by (rule undos_of_mono [OF undos_of_rel [OF px un] sec_rel_ok [OF pr(1)]])
  note k = perform_keeps [OF p call_queue_ok [OF c]]
  have uv: "undos_ok (sw_undos v)" "vals_ok (sems (sw_sma v))" using ok unfolding work_ok_def by blast+
  have q': "q_sops q' = q_sops q" "q_alter q' = q_alter q" "q_undo q' = q_undo q"
    using arg_cong [OF k(7) [OF uv], of q_sops] arg_cong [OF k(7) [OF uv], of q_alter] arg_cong [OF k(7) [OF uv], of q_undo] by simp_all
  have un_lock: "sec_rel {} U y (sw_unlock locknum y)" if "in_order y" for y
    using that by (rule sec_rel_unlock)
  show "sec_rel {} U w u" if "r \<noteq> SemSleep"
  proof (cases r')
    case SemDone
    define y where "y = (if q_alter q then do_smart_update now (Some (q_sops q)) True else set_semotime now (Some (q_sops q))) x"
    note d = semop_done [OF l(1,3) c p [unfolded SemDone], folded x_def, OF y_def]
    have "u = sw_unlock locknum y" using d(1) assms(7) by simp
    moreover have "sec_rel {} U x y"
      unfolding y_def
      using smart_update_sec [OF xok sops_in_call xun] semotime_sec [OF xok xun] c pr(1) work_rel_nsems [OF pr(1)] by simp
    ultimately show ?thesis
      using sec_rel_trans [OF sec_rel_trans [OF lk sec_rel_trans [OF px]] un_lock [OF d(2)]] by simp
  next
    case (SemErr e)
    have "u = sw_unlock locknum v"
      using semop_err(1) [OF l(1,3) c p [unfolded SemErr]] assms(7) by (metis fst_conv)
    then show ?thesis using sec_rel_trans [OF lk un_lock [OF l(1)]] by simp
  next
    case SemSleep
    then show ?thesis using assms(7) p that by (simp add: semop_section_def)
  qed
  assume r: "r = SemSleep"
  then have r': "r' = SemSleep"
    using assms(7) p by (cases r') (simp_all add: semop_section_def Let_def)
  have cv: "cur \<notin> set (waiters (sw_sma v))" using assms(4) f by simp
  have g: "length (q_sops q) > 1 \<Longrightarrow> locknum = SEM_GLOBAL_LOCK"
    using assms(2) by (auto simp: sw_lock_def sem_lock_def split: list.splits if_splits)
  define pq where "pq = q'\<lparr>q_status := Some EINTR, q_sleeper := cur\<rparr>"
  define y where "y = v\<lparr>sw_sma := enqueue_sop cur (q_sops q) (q_alter q) (sw_sma v), sw_stacks := (sw_stacks v)(cur \<mapsto> pq)\<rparr>"
  note d = semop_sleep [OF l(1,2,3) c cv g p [unfolded r'] pq_def y_def]
  have u: "u = sw_unlock locknum y" using d(1) assms(7) by simp
  have ne: "q_sops q \<noteq> []" and nums: "nums_in (sem_nsems (sw_sma v)) (q_sops q)"
    using c by (simp_all add: call_ok_def)
  note e = enqueue_fields [OF ne nums, of cur "q_alter q"]
  have yw: "set (waiters (sw_sma y)) = insert cur (set (waiters (sw_sma v)))"
    using mset_eq_setD [of "waiters (sw_sma y)" "cur # waiters (sw_sma v)"] e(1) by (simp add: y_def)
  have head: "perm_header (sw_sma y) = perm_header (sw_sma v)" "list_id (sw_sma y) = list_id (sw_sma v)"
    by (simp_all add: y_def enqueue_sop_def Let_def perm_header_def merge_queues_def split: prod.splits)
  have n: "sem_nsems (sw_sma y) = sem_nsems (sw_sma v)" using arg_cong [OF e(2), of length] by (simp add: y_def)
  have "sec_rel {cur} U v y"
    unfolding sec_rel_def yw using head n by (auto simp: y_def undo_same_def st_base_def q_status_of_def)
  then have s: "sec_rel {cur} U w u"
    unfolding u using sec_rel_trans [OF sec_rel_trans [OF sec_rel_mono [OF lk]] sec_rel_mono [OF un_lock [OF d(2)]]] by blast
  have "set (waiters (sw_sma u)) = set (waiters (sw_sma y))"
    unfolding u by (rule unlock_waiters [OF d(2)])
  moreover have "sw_stacks u = sw_stacks y" by (simp add: u sw_unlock_def)
  ultimately show "sec_rel {cur} U w u \<and> set (waiters (sw_sma u)) = insert cur (set (waiters (sw_sma w)))
        \<and> (\<exists>p. sw_stacks u cur = Some p \<and> q_status p = Some EINTR \<and> q_undo p = q_undo q)
        \<and> (\<forall>t. t \<noteq> cur \<longrightarrow> sw_stacks u t = sw_stacks w t)"
    using s yw f q' by (simp add: y_def pq_def)
qed

lemma resume_sec:
  assumes "arr_inv w" "sw_lock sops w = (v, locknum)" "leave \<Longrightarrow> cur \<in> set (waiters (sw_sma w))"
  defines "u \<equiv> resume_section leave cur locknum v"
  shows "sec_rel {cur} U w u" "sw_stacks u = sw_stacks w" "sw_undos u = sw_undos w"
    "set (waiters (sw_sma u)) = set (waiters (sw_sma w)) - (if leave then {cur} else {})"
proof -
  note l = sw_lock_inv [OF assms(1,2)] and f = sw_lock_fields [OF assms(2)]
  let ?y = "if leave then sw_unlink cur v else v"
  have u: "u = sw_unlock locknum ?y" by (simp add: u_def resume_section_def)
  have o: "in_order ?y" using l(1) unlink_order [OF l(1)] assms(3) f by simp
  have y: "set (waiters (sw_sma ?y)) = set (waiters (sw_sma v)) - (if leave then {cur} else {})" by auto
  have "perm_header (unlink_queue st t a) = perm_header a" "list_id (unlink_queue st t a) = list_id a" for st t a
    by (simp_all add: unlink_queue_def del_task_def Let_def perm_header_def)
  then have "sec_rel {cur} U v ?y"
    by (auto simp: sec_rel_def undo_same_def)
  then show "sec_rel {cur} U w u"
    unfolding u using sec_rel_trans [OF sec_rel_trans [OF sec_rel_mono [OF sec_rel_lock [OF assms(2)]]] sec_rel_mono [OF sec_rel_unlock [OF o]]] by blast
  show "sw_stacks u = sw_stacks w" "sw_undos u = sw_undos w" using f by (simp_all add: u sw_unlock_def)
  show "set (waiters (sw_sma u)) = set (waiters (sw_sma w)) - (if leave then {cur} else {})"
    unfolding u unlock_waiters [OF o] y by (simp add: f)
qed

text \<open>A change of values, adjustments and undo structures with a full pass.\<close>

lemma change_sec:
  assumes "in_order w" "mode_locked (-1) w"
    and "sw_sma v = (sw_sma w)\<lparr>sems := ss, sem_ctime := c, list_id := l\<rparr>"
    and "sem_lists ss = sem_lists (sems (sw_sma w))" "vals_ok ss" "undos_ok (sw_undos v)" "sw_stacks v = sw_stacks w"
    and "undos_of (set (waiters (sw_sma w))) U w"
  shows "sec_rel {} U v (sw_unlock (-1) (do_smart_update now None otime v))"
proof -
  note ci2 = change_inv(2) [OF assms(1-7)] and ci3 = change_inv(3) [OF assms(1-7), of now otime]
  have "waiters (sw_sma v) = waiters (sw_sma w)" by (rule waiters_cong(3)) (use assms(3,4) in simp_all)
  then have "undos_of (set (waiters (sw_sma v))) U v" using assms(7,8) by (simp add: undos_of_def)
  then have "sec_rel {} U v (do_smart_update now None otime v)"
    by (intro smart_update_sec [OF ci2]) (simp_all add: sops_in_def)
  then show ?thesis using sec_rel_trans sec_rel_unlock [OF ci3] by blast
qed

lemma clear_adj_frame:
  "p \<notin> set uns \<Longrightarrow> clear_adj uns i us p = us p" "undo_shape (clear_adj uns i us) = undo_shape us"
  by (induction uns arbitrary: us) (simp_all add: semadj_set_other)

lemma clear_adj_all_frame:
  "p \<notin> set uns \<Longrightarrow> clear_adj_all uns n us p = us p" "undo_shape (clear_adj_all uns n us) = undo_shape us"
  by (induction n) (simp_all add: clear_adj_frame)

lemma sec_rel_write:
  assumes "sw_sma v = (sw_sma w)\<lparr>sems := ss, sem_ctime := c\<rparr>" "sem_lists ss = sem_lists (sems (sw_sma w))"
    and "sw_stacks v = sw_stacks w" "undo_same U w v" "undo_shape (sw_undos v) = undo_shape (sw_undos w)"
  shows "sec_rel {} U w v"
proof (rule sec_rel_still)
  have "waiters (sw_sma v) = waiters (sw_sma w)" by (rule waiters_cong(3)) (use assms(1,2) in simp_all)
  then show "set (waiters (sw_sma v)) = set (waiters (sw_sma w))" by simp
  show "sem_nsems (sw_sma v) = sem_nsems (sw_sma w)"
    using arg_cong [OF assms(2), of length] assms(1) by (simp add: sem_lists_def)
qed (use assms in \<open>simp_all add: perm_header_def\<close>)

lemma lock_all:
  assumes "sw_lock None w = (v, locknum)"
  shows "locknum = -1"
  using assms by (auto simp: sw_lock_def sem_lock_def SEM_GLOBAL_LOCK_def)

lemma lock_list_id: "sw_lock sops w = (v, locknum) \<Longrightarrow> list_id (sw_sma v) = list_id (sw_sma w)"
  by (auto simp: sw_lock_def sem_lock_def split: option.splits list.splits if_splits)

lemma setval_sec:
  assumes "arr_inv w" "sw_lock None w = (v, locknum)" "i < sem_nsems (sw_sma w)" "0 \<le> val" "val \<le> SEMVMX"
    and "undos_of (set (waiters (sw_sma w))) (set (list_id (sw_sma w))) w"
  shows "sec_rel {} (set (list_id (sw_sma w))) w (setval_section now tgid i val v)"
proof -
  let ?U = "set (list_id (sw_sma w))"
  note l = sw_lock_inv [OF assms(1,2)] and f = sw_lock_fields [OF assms(2)] and g = lock_all [OF assms(2)]
  have u: "vals_ok (sems (sw_sma v))" "undos_ok (sw_undos v)"
    using l(1) unfolding in_order_def work_ok_def by blast+
  let ?ss = "upd_sem i (\<lambda>x. x\<lparr>semval := val, sempid := Some tgid\<rparr>) (sems (sw_sma v))"
  define y where "y = v\<lparr>sw_undos := clear_adj (list_id (sw_sma v)) i (sw_undos v),
      sw_sma := (sw_sma v)\<lparr>sems := ?ss, sem_ctime := now\<rparr>\<rparr>"
  have sl: "sem_lists ?ss = sem_lists (sems (sw_sma v))" by simp
  have vo: "vals_ok ?ss"
    by (rule vals_okI) (use assms(4,5) vals_ok_nth [OF u(1)] in \<open>auto simp: nth_upd_sem\<close>)
  have un: "undos_of (set (waiters (sw_sma v))) ?U v" using assms(6) f by (simp add: undos_of_def)
  have "setval_section now tgid i val v = sw_unlock (-1) (do_smart_update now None False y)"
    by (simp add: setval_section_def y_def Let_def)
  moreover have "sec_rel {} ?U y (sw_unlock (-1) (do_smart_update now None False y))"
    by (rule change_sec [OF l(1) l(3) [unfolded g], where ss = ?ss and c = now and l = "list_id (sw_sma v)", OF _ sl vo _ _ un])
      (use u in \<open>simp_all add: y_def\<close>)
  moreover have "sec_rel {} ?U v y"
    by (rule sec_rel_write [where ss = ?ss and c = now])
      (use lock_list_id [OF assms(2)] in \<open>simp_all add: y_def undo_same_def clear_adj_frame\<close>)
  ultimately show ?thesis
    using sec_rel_trans [OF sec_rel_lock [OF assms(2)]] sec_rel_trans by metis
qed

lemma setall_sec:
  assumes "arr_inv w" "sw_lock None w = (v, locknum)" "\<And>i. i < sem_nsems (sw_sma w) \<Longrightarrow> uint (io i) \<le> SEMVMX"
    and "undos_of (set (waiters (sw_sma w))) (set (list_id (sw_sma w))) w"
  shows "sec_rel {} (set (list_id (sw_sma w))) w (setall_section now tgid io v)"
proof -
  let ?U = "set (list_id (sw_sma w))"
  note l = sw_lock_inv [OF assms(1,2)] and f = sw_lock_fields [OF assms(2)] and g = lock_all [OF assms(2)]
  have u: "undos_ok (sw_undos v)" using l(1) unfolding in_order_def work_ok_def by blast
  let ?ss = "map (\<lambda>i. (sems (sw_sma v) ! i)\<lparr>semval := uint (io i), sempid := Some tgid\<rparr>) [0..<sem_nsems (sw_sma v)]"
  define y where "y = v\<lparr>sw_undos := clear_adj_all (list_id (sw_sma v)) (sem_nsems (sw_sma v)) (sw_undos v),
      sw_sma := (sw_sma v)\<lparr>sems := ?ss, sem_ctime := now\<rparr>\<rparr>"
  have sl: "sem_lists ?ss = sem_lists (sems (sw_sma v))" by (rule sem_lists_eqI) simp_all
  have vo: "vals_ok ?ss" by (rule vals_okI) (use assms(3) f(1) in simp)
  have un: "undos_of (set (waiters (sw_sma v))) ?U v" using assms(4) f by (simp add: undos_of_def)
  have "setall_section now tgid io v = sw_unlock (-1) (do_smart_update now None False y)"
    by (simp add: setall_section_def y_def Let_def)
  moreover have "sec_rel {} ?U y (sw_unlock (-1) (do_smart_update now None False y))"
    by (rule change_sec [OF l(1) l(3) [unfolded g], where ss = ?ss and c = now and l = "list_id (sw_sma v)", OF _ sl vo _ _ un])
      (use u in \<open>simp_all add: y_def\<close>)
  moreover have "sec_rel {} ?U v y"
    by (rule sec_rel_write [where ss = ?ss and c = now])
      (use lock_list_id [OF assms(2)] sl in \<open>simp_all add: y_def undo_same_def clear_adj_all_frame\<close>)
  ultimately show ?thesis
    using sec_rel_trans [OF sec_rel_lock [OF assms(2)]] sec_rel_trans by metis
qed

text \<open>The exiting task's structure leaves the list of the array first.\<close>

definition drop_undo :: "ptr \<Rightarrow> sem_work \<Rightarrow> sem_work" where
  "drop_undo un w = w\<lparr>sw_sma := list_id_update (remove1 un) (sw_sma w)\<rparr>"

lemma exit_sec:
  assumes "arr_inv w" "sw_lock None w = (v, locknum)" "undos_of (set (waiters (sw_sma w))) U w"
  shows "sec_rel {} U (drop_undo un w) (exit_section now tgid un v)"
proof -
  note l = sw_lock_inv [OF assms(1,2)] and f = sw_lock_fields [OF assms(2)] and g = lock_all [OF assms(2)]
  have u: "vals_ok (sems (sw_sma v))" "undos_ok (sw_undos v)"
    using l(1) unfolding in_order_def work_ok_def by blast+
  let ?adj = "case sw_undos v un of Some u \<Rightarrow> semadj u | None \<Rightarrow> []"
  let ?ss = "apply_undo tgid ?adj (sems (sw_sma v))"
  define y where "y = v\<lparr>sw_sma := list_id_update (remove1 un) (sems_update (apply_undo tgid ?adj) (sw_sma v))\<rparr>"
  have un: "undos_of (set (waiters (sw_sma v))) U v" using assms(3) f by (simp add: undos_of_def)
  have "exit_section now tgid un v = sw_unlock (-1) (do_smart_update now None True y)"
    by (simp add: exit_section_def y_def Let_def)
  moreover have "sec_rel {} U y (sw_unlock (-1) (do_smart_update now None True y))"
    by (rule change_sec [OF l(1) l(3) [unfolded g], where ss = ?ss and c = "sem_ctime (sw_sma v)" and l = "remove1 un (list_id (sw_sma v))", OF _ _ _ _ _ un])
      (use u apply_undo_ok in \<open>simp_all add: y_def\<close>)
  moreover have "sec_rel {} U (drop_undo un w) y"
  proof (rule sec_rel_still)
    have "waiters (sw_sma y) = waiters (sw_sma v)"
      by (rule waiters_cong(3)) (simp_all add: y_def apply_undo_ok)
    moreover have "waiters (sw_sma (drop_undo un w)) = waiters (sw_sma w)"
      by (rule waiters_cong(3)) (simp_all add: drop_undo_def)
    ultimately show "set (waiters (sw_sma y)) = set (waiters (sw_sma (drop_undo un w)))" using f by simp
    have "perm_header (sw_sma v) = perm_header (sw_sma w)"
      using sec_rel_lock [OF assms(2), of U] by (simp add: sec_rel_def)
    then show "perm_header (sw_sma y) = perm_header (sw_sma (drop_undo un w))"
      by (simp add: y_def drop_undo_def perm_header_def)
  qed (use f lock_list_id [OF assms(2)] in \<open>simp_all add: y_def drop_undo_def undo_same_def apply_undo_def\<close>)
  ultimately show ?thesis using sec_rel_trans by metis
qed
end
