(* ===== verification/SemInv.thy ===== *)
theory SemInv
  imports SemFrame SemSet IpcClass
begin

text \<open>
  The invariant of a namespace's semaphores: every array is in order, the queues hold exactly the
  tasks that sleep on them, the undo structures belong to live arrays and to the lists of their
  owners, and the count of semaphores is that of the arrays. A section on one array keeps it.
\<close>

section \<open>The invariant\<close>

definition view :: "sem_ns \<Rightarrow> sem_array \<Rightarrow> sem_work" where
  "view s a = \<lparr>sw_sma = a, sw_undos = sem_undos s, sw_stacks = sem_stacks s, sw_wake = []\<rparr>"

lemma view_fields [simp]:
  "sw_sma (view s a) = a" "sw_undos (view s a) = sem_undos s" "sw_stacks (view s a) = sem_stacks s" "sw_wake (view s a) = []"
  by (simp_all add: view_def)

text \<open>
  \<open>A\<close> says at which array a task is inside \<^verbatim>\<open>semtimedop\<close>. It waits while its status is the one
  it went to sleep with.
\<close>

definition waits :: "(nat \<rightharpoonup> ptr) \<Rightarrow> sem_ns \<Rightarrow> ptr \<Rightarrow> nat \<Rightarrow> bool" where
  "waits A s p t \<longleftrightarrow> A t = Some p \<and> q_status_of (sem_stacks s) t = Some EINTR"

text \<open>Undo structures: each one is on the list of a live array with its id and on the list of its owner.\<close>

definition undo_links :: "sem_ns \<Rightarrow> bool" where
  "undo_links s \<longleftrightarrow>
     (\<forall>un u. sem_undos s un = Some u \<longrightarrow>
        (\<exists>p a ul. objs (sem_ids s) p = Some a \<and> perm_id a = un_semid u \<and> un \<in> set (list_id a)
                \<and> length (semadj u) = sem_nsems a \<and> sem_ulps s (un_ulp u) = Some ul \<and> un \<in> set (ul_list ul)))
     \<and> (\<forall>p a. objs (sem_ids s) p = Some a \<longrightarrow> distinct (list_id a)
           \<and> (\<forall>un \<in> set (list_id a). \<exists>u. sem_undos s un = Some u \<and> un_semid u = perm_id a))
     \<and> (\<forall>l ul. sem_ulps s l = Some ul \<longrightarrow> distinct (ul_list ul)
           \<and> (\<forall>un \<in> set (ul_list ul). \<exists>u. sem_undos s un = Some u \<and> un_ulp u = l))"

definition undo_users :: "(nat \<rightharpoonup> ptr) \<Rightarrow> sem_ns \<Rightarrow> bool" where
  "undo_users A s \<longleftrightarrow>
     (\<forall>t l. task_ulp s t = Some l \<longrightarrow> sem_ulps s l \<noteq> None)
     \<and> (\<forall>l ul. sem_ulps s l = Some ul \<longrightarrow>
          finite {t. task_ulp s t = Some l} \<and> ul_refcnt ul = card {t. task_ulp s t = Some l})
     \<and> (\<forall>t p q un. waits A s p t \<and> sem_stacks s t = Some q \<and> q_undo q = Some un \<longrightarrow>
          (\<exists>u a. sem_undos s un = Some u \<and> task_ulp s t = Some (un_ulp u)
               \<and> objs (sem_ids s) p = Some a \<and> un \<in> set (list_id a)))"

definition sem_inv :: "(nat \<rightharpoonup> ptr) \<Rightarrow> sem_ns \<Rightarrow> bool" where
  "sem_inv A s \<longleftrightarrow>
     ids_wf (sem_ids s)
     \<and> (\<forall>p a. objs (sem_ids s) p = Some a \<longrightarrow>
          p \<in> snd ` set (ipcs_idr (sem_ids s)) \<and> perm_refcount a = 1 \<and> arr_inv (view s a)
          \<and> (\<forall>t. t \<in> set (waiters a) \<longleftrightarrow> waits A s p t))
     \<and> (\<forall>p t. waits A s p t \<longrightarrow> objs (sem_ids s) p \<noteq> None)
     \<and> (\<forall>t. sem_stacks s t = None \<longleftrightarrow> A t = None)
     \<and> undo_links s \<and> undo_users A s
     \<and> used_sems s = table_sum (\<lambda>a. int (sem_nsems a)) (sem_ids s)"

lemma inv_parts:
  assumes "sem_inv A s"
  shows "ids_wf (sem_ids s)" "undo_links s" "undo_users A s" "used_sems s = table_sum (\<lambda>a. int (sem_nsems a)) (sem_ids s)"
    "\<And>t. sem_stacks s t = None \<longleftrightarrow> A t = None" "\<And>p t. waits A s p t \<Longrightarrow> objs (sem_ids s) p \<noteq> None"
  using assms unfolding sem_inv_def by blast+

lemma inv_array:
  assumes "sem_inv A s" "objs (sem_ids s) p = Some a"
  shows "p \<in> snd ` set (ipcs_idr (sem_ids s))" "perm_refcount a = 1" "arr_inv (view s a)"
    "\<And>t. t \<in> set (waiters a) \<longleftrightarrow> waits A s p t"
  using assms unfolding sem_inv_def by blast+

text \<open>Two arrays have two ids.\<close>

lemma inv_perm_id_inj:
  assumes "sem_inv A s" "objs (sem_ids s) p = Some a" "objs (sem_ids s) p' = Some a'" "perm_id a = perm_id a'"
  shows "p = p'"
proof -
  have wf: "ids_wf (sem_ids s)" by (rule inv_parts(1) [OF assms(1)])
  obtain i where i: "map_of (ipcs_idr (sem_ids s)) i = Some p" by (rule linked_index [OF wf inv_array(1) [OF assms(1,2)]])
  obtain j where j: "map_of (ipcs_idr (sem_ids s)) j = Some p'" by (rule linked_index [OF wf inv_array(1) [OF assms(1,3)]])
  have "ipc_obtain_object_check (sem_ids s) (perm_id a) = Inr p" by (rule obtain_check_entry [OF wf i assms(2)])
  moreover have "ipc_obtain_object_check (sem_ids s) (perm_id a') = Inr p'" by (rule obtain_check_entry [OF wf j assms(3)])
  ultimately show ?thesis using assms(4) by simp
qed

text \<open>The waiters of an array use its undo structures, which no other array lists.\<close>

lemma inv_undos_of:
  assumes "sem_inv A s" "objs (sem_ids s) p = Some a"
  shows "undos_of (set (waiters a)) (set (list_id a)) (view s a)"
  unfolding undos_of_def
proof (intro ballI allI impI)
  fix t q un assume t: "t \<in> set (waiters a)" "sw_stacks (view s a) t = Some q" "q_undo q = Some un"
  then have "waits A s p t \<and> sem_stacks s t = Some q \<and> q_undo q = Some un"
    using inv_array(4) [OF assms] by simp
  then show "un \<in> set (list_id a)"
    using inv_parts(3) [OF assms(1)] assms(2) unfolding undo_users_def by fastforce
qed

lemma inv_list_disjoint:
  assumes "sem_inv A s" "objs (sem_ids s) p = Some a" "objs (sem_ids s) p' = Some a'" "un \<in> set (list_id a)" "un \<in> set (list_id a')"
  shows "p = p'"
proof -
  obtain u where "sem_undos s un = Some u" "un_semid u = perm_id a"
    using inv_parts(2) [OF assms(1)] assms(2,4) unfolding undo_links_def by blast
  moreover obtain u' where "sem_undos s un = Some u'" "un_semid u' = perm_id a'"
    using inv_parts(2) [OF assms(1)] assms(3,5) unfolding undo_links_def by blast
  ultimately show ?thesis using inv_perm_id_inj [OF assms(1-3)] by simp
qed

section \<open>A section on one array\<close>

lemma arr_inv_wake: "arr_inv w \<Longrightarrow> sw_sma v = sw_sma w \<Longrightarrow> sw_undos v = sw_undos w \<Longrightarrow> sw_stacks v = sw_stacks w \<Longrightarrow> arr_inv v"
proof -
  assume a: "arr_inv w" "sw_sma v = sw_sma w" "sw_undos v = sw_undos w" "sw_stacks v = sw_stacks w"
  then have "same_view w v" by (simp add: same_view_def)
  then show "arr_inv v" using a same_view_order by (simp add: arr_inv_def mode_ok_def)
qed

lemma stacks_inv:
  assumes "arr_inv w" "sw_sma v = sw_sma w" "sw_undos v = sw_undos w"
    and st: "\<And>t. t \<in> set (waiters (sw_sma w)) \<Longrightarrow> st_base (sw_stacks v) t = st_base (sw_stacks w) t"
  shows "arr_inv v"
proof -
  have ok: "work_ok w" and ty: "queues_typed w" and se: "all_settled w" and mo: "mode_ok w"
    using assms(1) by (simp_all add: in_order_def arr_inv_def)
  have sp: "sops_of (sw_stacks v) t = sops_of (sw_stacks w) t" if "t \<in> set (waiters (sw_sma w))" for t
    by (rule st_base_sops [OF st [OF that]])
  have fil: "filter (is_complex (sw_stacks v)) (waiters (sw_sma w)) = filter (is_complex (sw_stacks w)) (waiters (sw_sma w))"
    using sp by (intro filter_cong) (simp_all add: is_complex_def)
  have vok: "work_ok v"
  proof (rule work_okI)
    fix t assume "t \<in> set (waiters (sw_sma v))"
    then have t: "t \<in> set (waiters (sw_sma w))" using assms(2) by simp
    obtain q where q: "sw_stacks w t = Some q" "sop_queue_ok (sem_nsems (sw_sma w)) q"
      using ok t unfolding work_ok_def by blast
    then obtain q' where "sw_stacks v t = Some q'" "q_base q' = q_base q"
      using st [OF t] by (auto simp: st_base_def)
    then show "\<exists>q. sw_stacks v t = Some q \<and> sop_queue_ok (sem_nsems (sw_sma v)) q"
      using q(2) q_base_eq [of q' q] assms(2) by (simp add: sop_queue_ok_def)
  qed (use ok assms(2,3) fil in \<open>simp_all add: work_ok_def\<close>)
  have bl: "blocked v t = blocked w t" if "t \<in> set (waiters (sw_sma w))" for t
    by (rule blocked_cong [OF ok vok that]) (use that assms(2,3) st in simp_all)
  have "queues_typed v"
    by (rule typed_cong [OF ty]) (use sp assms(2) in simp_all)
  moreover have "const_held v t = const_held w t" if "t \<in> set (waiters (sw_sma w))" for t
    by (rule const_held_cong [OF ok that]) (use sp [OF that] assms(2) in simp_all)
  moreover have "dec_settled v i" if "i < sem_nsems (sw_sma w)" for i
    using se that bl alter_in_waiters [OF that] assms(2) by (simp add: all_settled_def dec_settled_def)
  ultimately show ?thesis
    using vok mo se const_waiters_in pending_alter_in_waiters bl assms(2)
    by (simp add: arr_inv_def in_order_def mode_ok_def all_settled_def const_quiet_def)
qed

lemma other_inv:
  assumes "arr_inv w" "sw_sma v = sw_sma w" "undos_ok (sw_undos v)"
    and "\<And>t. t \<in> set (waiters (sw_sma w)) \<Longrightarrow> st_base (sw_stacks v) t = st_base (sw_stacks w) t"
    and "\<And>t q p. \<lbrakk>t \<in> set (waiters (sw_sma w)); sw_stacks w t = Some q; q_undo q = Some p\<rbrakk> \<Longrightarrow> sw_undos v p = sw_undos w p"
  shows "arr_inv v"
proof -
  have "arr_inv (w\<lparr>sw_undos := sw_undos v\<rparr>)" by (rule undo_inv [OF assms(1,3)]) (rule assms(5))
  then show ?thesis by (rule stacks_inv) (use assms(2,4) in simp_all)
qed

text \<open>The state after a section on the array at \<open>p\<close>.\<close>

definition put_work :: "ptr \<Rightarrow> sem_work \<Rightarrow> sem_ns \<Rightarrow> sem_ns" where
  "put_work p w s = upd_sma p (\<lambda>_. sw_sma w) (s\<lparr>sem_undos := sw_undos w, sem_stacks := sw_stacks w\<rparr>)"

lemma upd_sma_fields [simp]:
  "sem_ids (upd_sma p f s) = upd_obj p f (sem_ids s)" "sem_undos (upd_sma p f s) = sem_undos s"
  "sem_stacks (upd_sma p f s) = sem_stacks s" "sem_ulps (upd_sma p f s) = sem_ulps s"
  "task_ulp (upd_sma p f s) = task_ulp s" "used_sems (upd_sma p f s) = used_sems s"
  "sc_semopm (upd_sma p f s) = sc_semopm s"
  by (simp_all add: upd_sma_def)

lemma put_work_fields [simp]:
  "sem_ids (put_work p w s) = upd_obj p (\<lambda>_. sw_sma w) (sem_ids s)" "sem_undos (put_work p w s) = sw_undos w"
  "sem_stacks (put_work p w s) = sw_stacks w" "sem_ulps (put_work p w s) = sem_ulps s"
  "task_ulp (put_work p w s) = task_ulp s" "used_sems (put_work p w s) = used_sems s"
  by (simp_all add: put_work_def)

lemma header_fields:
  assumes "perm_header b = perm_header a"
  shows "perm_core b = perm_core a" "perm_id b = perm_id a" "perm_refcount b = perm_refcount a"
  using assms by (simp_all add: perm_core_def perm_header_def)

lemma shape_undo:
  assumes "undo_shape us' = undo_shape us"
  shows "us p = Some u \<Longrightarrow> \<exists>u'. us' p = Some u' \<and> un_ulp u' = un_ulp u \<and> un_semid u' = un_semid u \<and> length (semadj u') = length (semadj u)"
  using arg_cong [OF assms, of "\<lambda>f. f p"] by (cases "us' p") (simp_all add: undo_shape_def)

lemma undo_links_put:
  assumes "undo_links s" "objs (sem_ids s) p = Some a" "undo_shape (sw_undos w) = undo_shape (sem_undos s)"
    and "perm_id (sw_sma w) = perm_id a" "list_id (sw_sma w) = list_id a" "sem_nsems (sw_sma w) = sem_nsems a"
  shows "undo_links (put_work p w s)"
proof -
  have L1: "\<And>un u. sem_undos s un = Some u \<Longrightarrow>
        \<exists>p a ul. objs (sem_ids s) p = Some a \<and> perm_id a = un_semid u \<and> un \<in> set (list_id a)
                \<and> length (semadj u) = sem_nsems a \<and> sem_ulps s (un_ulp u) = Some ul \<and> un \<in> set (ul_list ul)"
    and L2: "\<And>p a. objs (sem_ids s) p = Some a \<Longrightarrow> distinct (list_id a)
           \<and> (\<forall>un \<in> set (list_id a). \<exists>u. sem_undos s un = Some u \<and> un_semid u = perm_id a)"
    and L3: "\<And>l ul. sem_ulps s l = Some ul \<Longrightarrow> distinct (ul_list ul)
           \<and> (\<forall>un \<in> set (ul_list ul). \<exists>u. sem_undos s un = Some u \<and> un_ulp u = l)"
    using assms(1) unfolding undo_links_def by blast+
  note fwd = shape_undo [OF assms(3)] and bwd = shape_undo [OF assms(3) [symmetric]]
  have o: "objs (sem_ids (put_work p w s)) r = (if r = p then Some (sw_sma w) else objs (sem_ids s) r)" for r
    using assms(2) by simp
  show ?thesis
    unfolding undo_links_def put_work_fields(2,4)
  proof (intro conjI allI impI)
    fix un u assume "sw_undos w un = Some u"
    then obtain u0 where u0: "sem_undos s un = Some u0" "un_ulp u0 = un_ulp u" "un_semid u0 = un_semid u"
      "length (semadj u0) = length (semadj u)" using bwd by blast
    obtain r b ul where "objs (sem_ids s) r = Some b" "perm_id b = un_semid u0" "un \<in> set (list_id b)"
      "length (semadj u0) = sem_nsems b" "sem_ulps s (un_ulp u0) = Some ul" "un \<in> set (ul_list ul)" using L1 [OF u0(1)] by blast
    then show "\<exists>r b ul. objs (sem_ids (put_work p w s)) r = Some b \<and> perm_id b = un_semid u \<and> un \<in> set (list_id b)
        \<and> length (semadj u) = sem_nsems b \<and> sem_ulps s (un_ulp u) = Some ul \<and> un \<in> set (ul_list ul)"
      unfolding o using u0 assms(2,4-6) by (intro exI [of _ r] exI [of _ "if r = p then sw_sma w else b"] exI [of _ ul]) auto
  next
    fix r b assume "objs (sem_ids (put_work p w s)) r = Some b"
    then obtain b0 where b0: "objs (sem_ids s) r = Some b0" "list_id b = list_id b0" "perm_id b = perm_id b0"
      unfolding o using assms(2,4,5) by (auto split: if_splits)
    from L2 [OF b0(1)] fwd show "distinct (list_id b)"
      and "\<forall>un \<in> set (list_id b). \<exists>u. sw_undos w un = Some u \<and> un_semid u = perm_id b"
      unfolding b0(2,3) by (blast, metis)
  next
    fix l ul assume "sem_ulps s l = Some ul"
    from L3 [OF this] fwd show "distinct (ul_list ul)"
      and "\<forall>un \<in> set (ul_list ul). \<exists>u. sw_undos w un = Some u \<and> un_ulp u = l" by (blast, metis)
  qed
qed

lemma section_inv:
  assumes inv: "sem_inv A s" and p: "objs (sem_ids s) p = Some a"
    and r: "sec_rel C (set (list_id a)) (view s a) w" and arr: "arr_inv w"
    and A': "\<And>t. t \<notin> C \<Longrightarrow> A' t = A t" and C: "\<And>t. t \<in> C \<Longrightarrow> A t = None \<or> A t = Some p"
    and C': "\<And>t. t \<in> C \<Longrightarrow> A' t = None \<or> A' t = Some p"
    and Cw: "\<And>t. t \<in> C \<Longrightarrow> t \<in> set (waiters (sw_sma w)) \<longleftrightarrow> A' t = Some p \<and> q_status_of (sw_stacks w) t = Some EINTR"
    and Cs: "\<And>t. t \<in> C \<Longrightarrow> sw_stacks w t = None \<longleftrightarrow> A' t = None"
    and Cu: "\<And>t q un. \<lbrakk>t \<in> C; A' t = Some p; sw_stacks w t = Some q; q_undo q = Some un\<rbrakk> \<Longrightarrow>
        un \<in> set (list_id a) \<and> (\<exists>u. sem_undos s un = Some u \<and> task_ulp s t = Some (un_ulp u))"
  shows "sem_inv A' (put_work p w s)"
proof -
  let ?s = "put_work p w s"
  have R: "perm_header (sw_sma w) = perm_header a" "sem_nsems (sw_sma w) = sem_nsems a"
    "list_id (sw_sma w) = list_id a" "undo_same (set (list_id a)) (view s a) w" "undo_shape (sw_undos w) = undo_shape (sem_undos s)"
    "set (waiters (sw_sma w)) - C \<subseteq> set (waiters a)"
    "\<And>t. t \<notin> C \<Longrightarrow> st_base (sw_stacks w) t = st_base (sem_stacks s) t"
    "\<And>t. t \<notin> C \<Longrightarrow> (t \<in> set (waiters a) \<longrightarrow> t \<in> set (waiters (sw_sma w))) \<Longrightarrow> q_status_of (sw_stacks w) t = q_status_of (sem_stacks s) t"
    "\<And>t. t \<notin> C \<Longrightarrow> t \<in> set (waiters a) \<Longrightarrow> t \<notin> set (waiters (sw_sma w)) \<Longrightarrow> q_status_of (sw_stacks w) t \<noteq> Some EINTR"
    using r unfolding sec_rel_def view_fields by blast+
  note hd = header_fields [OF R(1)] and ia = inv_array [OF inv p] and ip = inv_parts [OF inv]
  have o: "objs (sem_ids ?s) r = (if r = p then Some (sw_sma w) else objs (sem_ids s) r)" for r
    using p by simp
  have uok: "undos_ok (sw_undos w)" using arr by (simp add: arr_inv_def in_order_def work_ok_def)
  have wp: "t \<in> set (waiters (sw_sma w)) \<longleftrightarrow> waits A' ?s p t" for t
  proof (cases "t \<in> C")
    case True
    then show ?thesis using Cw by (simp add: waits_def)
  next
    case False
    have m: "t \<in> set (waiters a) \<longleftrightarrow> A t = Some p \<and> q_status_of (sem_stacks s) t = Some EINTR"
      using ia(4) by (simp add: waits_def)
    show ?thesis
      using m R(6) R(8) [OF False] R(9) [OF False] A' [OF False] False by (auto simp: waits_def)
  qed
  have wo: "waits A' ?s r t \<longleftrightarrow> waits A s r t" if "r \<noteq> p" for r t
  proof (cases "t \<in> C")
    case True
    then show ?thesis using C C' that unfolding waits_def by (metis option.inject option.distinct(1))
  next
    case False
    have "A t = Some r \<Longrightarrow> t \<notin> set (waiters a)" using ia(4) [of t] that by (simp add: waits_def)
    then show ?thesis using R(8) [OF False] A' [OF False] by (auto simp: waits_def)
  qed
  have arrs: "arr_inv (view ?s b)" if b: "objs (sem_ids ?s) r = Some b" for r b
  proof (cases "r = p")
    case True
    then have "b = sw_sma w" using b by (simp add: p)
    then show ?thesis using arr_inv_wake [OF arr, of "view ?s b"] by simp
  next
    case False
    then have b0: "objs (sem_ids s) r = Some b" using b by (simp add: p)
    note ib = inv_array [OF inv b0]
    have nC: "t \<notin> C" if "t \<in> set (waiters b)" for t
      using that ib(4) [of t] C [of t] False by (auto simp: waits_def)
    show ?thesis
    proof (rule other_inv [OF ib(3)])
      show "undos_ok (sw_undos (view ?s b))" using uok by simp
      show "st_base (sw_stacks (view ?s b)) t = st_base (sw_stacks (view s b)) t" if "t \<in> set (waiters (sw_sma (view s b)))" for t
        using that nC R(7) by simp
      show "sw_undos (view ?s b) un = sw_undos (view s b) un"
        if "t \<in> set (waiters (sw_sma (view s b)))" "sw_stacks (view s b) t = Some q" "q_undo q = Some un" for t q un
      proof -
        have "un \<in> set (list_id b)"
          using inv_undos_of [OF inv b0] that unfolding undos_of_def by simp
        then have "un \<notin> set (list_id a)" using inv_list_disjoint [OF inv p b0] False by blast
        then show ?thesis using R(4) by (simp add: undo_same_def)
      qed
    qed simp
  qed
  have wf: "ids_wf (sem_ids ?s)"
    unfolding put_work_fields(1) by (rule ids_wf_upd_obj [OF ip(1)]) (use p hd(1) in simp)
  obtain i where i: "map_of (ipcs_idr (sem_ids s)) i = Some p" by (rule linked_index [OF ip(1) ia(1)])
  have sum: "table_sum (\<lambda>a. int (sem_nsems a)) (sem_ids ?s) = table_sum (\<lambda>a. int (sem_nsems a)) (sem_ids s)"
    using table_sum_split [OF ip(1) i p, of "sem_ids ?s" "sw_sma w" "\<lambda>a. int (sem_nsems a)"] R(2) p by simp
  have ul: "undo_links ?s"
    by (rule undo_links_put [OF ip(2) p R(5) hd(2) R(3) R(2)])
  have users: "undo_users A' ?s"
    unfolding undo_users_def put_work_fields(3,4,5)
  proof (intro conjI allI impI)
    fix t r q un assume h: "waits A' ?s r t \<and> sw_stacks w t = Some q \<and> q_undo q = Some un"
    have "\<exists>u b. sem_undos s un = Some u \<and> task_ulp s t = Some (un_ulp u) \<and> objs (sem_ids s) r = Some b \<and> un \<in> set (list_id b)"
    proof (cases "t \<in> C")
      case True
      then have "r = p" using h C' unfolding waits_def by (metis option.inject option.distinct(1))
      then show ?thesis using Cu [OF True] h p by (auto simp: waits_def)
    next
      case False
      obtain q0 where q0: "sem_stacks s t = Some q0" "q_base q0 = q_base q"
        using R(7) [OF False] h by (cases "sem_stacks s t") (auto simp: st_base_def)
      then have q0u: "q_undo q0 = Some un" using q_base_eq [OF q0(2)] h by simp
      have "waits A s r t"
      proof (cases "r = p")
        case True
        then have "t \<in> set (waiters (sw_sma w))" using wp h by simp
        then show ?thesis using R(6) False ia(4) True by blast
      qed (use wo h in simp)
      then show ?thesis using ip(3) q0(1) q0u unfolding undo_users_def by blast
    qed
    then obtain u b where ub: "sem_undos s un = Some u" "task_ulp s t = Some (un_ulp u)" "objs (sem_ids s) r = Some b" "un \<in> set (list_id b)"
      by blast
    obtain u' where "sw_undos w un = Some u'" "un_ulp u' = un_ulp u" using shape_undo [OF R(5) ub(1)] by blast
    then show "\<exists>u b. sem_undos ?s un = Some u \<and> task_ulp s t = Some (un_ulp u)
        \<and> objs (sem_ids ?s) r = Some b \<and> un \<in> set (list_id b)"
      unfolding o put_work_fields(2) using ub R(3) p
      by (intro exI [of _ u'] exI [of _ "if r = p then sw_sma w else b"]) auto
  qed (use ip(3) in \<open>auto simp: undo_users_def\<close>)
  have st: "sem_stacks ?s t = None \<longleftrightarrow> A' t = None" for t
  proof (cases "t \<in> C")
    case False
    then have "sw_stacks w t = None \<longleftrightarrow> sem_stacks s t = None"
      using R(7) [OF False] by (auto simp: st_base_def)
    then show ?thesis using ip(5) A' [OF False] by simp
  qed (use Cs in simp)
  show ?thesis
    unfolding sem_inv_def
  proof (intro conjI allI impI)
    fix r b assume b: "objs (sem_ids ?s) r = Some b"
    show "arr_inv (view ?s b)" by (rule arrs [OF b])
    show "r \<in> snd ` set (ipcs_idr (sem_ids ?s))" "perm_refcount b = 1"
      using b inv_array(1,2) [OF inv] ia(1,2) hd(3) unfolding o by (auto split: if_splits)
    show "\<And>t. t \<in> set (waiters b) \<longleftrightarrow> waits A' ?s r t"
      using b wp wo inv_array(4) [OF inv] unfolding o by (cases "r = p") auto
  next
    fix r t assume "waits A' ?s r t"
    then show "objs (sem_ids ?s) r \<noteq> None" unfolding o using wo ip(6) by (cases "r = p") auto
  next
    show "used_sems ?s = table_sum (\<lambda>a. int (sem_nsems a)) (sem_ids ?s)" unfolding sum using ip(4) by simp
  qed (use wf ul users st in \<open>auto simp del: put_work_fields\<close>)
qed

text \<open>A section without a special task.\<close>

lemma section_keeps:
  assumes "sem_inv A s" "objs (sem_ids s) p = Some a" "sec_rel {} (set (list_id a)) (view s a) w" "arr_inv w"
  shows "sem_inv A (put_work p w s)"
  by (rule section_inv [OF assms]) simp_all

lemma run_work_put: "objs (sem_ids s) p = Some a \<Longrightarrow> run_work p f s = (put_work p (f (view s a)) s, sw_wake (f (view s a)))"
  by (simp add: run_work_def put_work_def view_def Let_def)

lemma run_section_put:
  "objs (sem_ids s) p = Some a \<Longrightarrow> f (view s a) = (w, r) \<Longrightarrow> run_section p d f s = (put_work p w s, sw_wake w, r)"
  by (simp add: run_section_def put_work_def view_def)

end
