(* ===== verification/SemRemove.thy ===== *)
theory SemRemove
  imports SemInv
begin

text \<open>
  The removal of a semaphore array (\<^verbatim>\<open>freeary\<close>): its undo structures leave the lists of their
  owners, its waiters are told \<^verbatim>\<open>EIDRM\<close>, it leaves the table and the count of semaphores, and
  the rest of the namespace is untouched. The release of a namespace rests on it.
\<close>


section \<open>Removal\<close>

lemma free_undos_frame [simp]:
  "sem_ids (free_undos uns s) = sem_ids s" "sem_stacks (free_undos uns s) = sem_stacks s"
  "task_ulp (free_undos uns s) = task_ulp s" "used_sems (free_undos uns s) = used_sems s"
  by (induction uns arbitrary: s) (simp_all split: option.splits)

definition ulps_kept :: "ptr set \<Rightarrow> (ptr \<rightharpoonup> sem_undo_list) \<Rightarrow> (ptr \<rightharpoonup> sem_undo_list) \<Rightarrow> bool" where
  "ulps_kept U f g \<longleftrightarrow>
     (\<forall>l. case f l of None \<Rightarrow> g l = None
          | Some ul \<Rightarrow> \<exists>ul'. g l = Some ul' \<and> ul_refcnt ul' = ul_refcnt ul \<and> distinct (ul_list ul')
                        \<and> set (ul_list ul') = set (ul_list ul) - U)"

text \<open>The lists of the owners hold exactly their structures.\<close>

definition owner_lists :: "undos \<Rightarrow> (ptr \<rightharpoonup> sem_undo_list) \<Rightarrow> bool" where
  "owner_lists us f \<longleftrightarrow>
     (\<forall>l ul. f l = Some ul \<longrightarrow> distinct (ul_list ul) \<and> (\<forall>un \<in> set (ul_list ul). \<exists>u. us un = Some u \<and> un_ulp u = l))"

lemma owner_remove:
  assumes "owner_lists us f" "us un = Some u"
  shows "ulps_kept {un} f (f(un_ulp u := map_option (ul_list_update (remove1 un)) (f (un_ulp u))))"
    "owner_lists (us(un := None)) (f(un_ulp u := map_option (ul_list_update (remove1 un)) (f (un_ulp u))))"
proof -
  let ?l = "un_ulp u" let ?g = "f(?l := map_option (ul_list_update (remove1 un)) (f ?l))"
  have o: "\<And>l ul. f l = Some ul \<Longrightarrow> distinct (ul_list ul) \<and> (\<forall>un \<in> set (ul_list ul). \<exists>u. us un = Some u \<and> un_ulp u = l)"
    using assms(1) unfolding owner_lists_def by blast
  have no: "un \<notin> set (ul_list ul)" if "f l = Some ul" "l \<noteq> ?l" for l ul
    using o [OF that(1)] that(2) assms(2) by fastforce
  show "ulps_kept {un} f ?g"
    unfolding ulps_kept_def
  proof
    fix l
    show "case f l of None \<Rightarrow> ?g l = None
          | Some ul \<Rightarrow> \<exists>ul'. ?g l = Some ul' \<and> ul_refcnt ul' = ul_refcnt ul \<and> distinct (ul_list ul')
                        \<and> set (ul_list ul') = set (ul_list ul) - {un}"
      using o no by (cases "f l") auto
  qed
  show "owner_lists (us(un := None)) ?g"
    unfolding owner_lists_def
  proof (intro allI impI)
    fix l ul' assume g: "?g l = Some ul'"
    then obtain ul where ul: "f l = Some ul" "ul_list ul' = (if l = ?l then remove1 un (ul_list ul) else ul_list ul)"
      by (auto split: if_splits)
    have "un \<notin> set (ul_list ul')" using ul o [OF ul(1)] no [OF ul(1)] by auto
    then show "distinct (ul_list ul') \<and> (\<forall>x \<in> set (ul_list ul'). \<exists>u. (us(un := None)) x = Some u \<and> un_ulp u = l)"
      using ul o [OF ul(1)] by (auto dest: notin_set_remove1 split: if_splits)
  qed
qed

lemma ulps_kept_trans: "ulps_kept U f g \<Longrightarrow> ulps_kept V g h \<Longrightarrow> ulps_kept (U \<union> V) f h"
  unfolding ulps_kept_def
proof
  fix l
  assume a: "\<forall>l. case f l of None \<Rightarrow> g l = None
          | Some ul \<Rightarrow> \<exists>ul'. g l = Some ul' \<and> ul_refcnt ul' = ul_refcnt ul \<and> distinct (ul_list ul')
                        \<and> set (ul_list ul') = set (ul_list ul) - U"
    and b: "\<forall>l. case g l of None \<Rightarrow> h l = None
          | Some ul \<Rightarrow> \<exists>ul'. h l = Some ul' \<and> ul_refcnt ul' = ul_refcnt ul \<and> distinct (ul_list ul')
                        \<and> set (ul_list ul') = set (ul_list ul) - V"
  show "case f l of None \<Rightarrow> h l = None
          | Some ul \<Rightarrow> \<exists>ul'. h l = Some ul' \<and> ul_refcnt ul' = ul_refcnt ul \<and> distinct (ul_list ul')
                        \<and> set (ul_list ul') = set (ul_list ul) - (U \<union> V)"
    using spec [OF a, of l] spec [OF b, of l] by (auto split: option.splits)
qed

lemma free_undos_lists:
  assumes "owner_lists (sem_undos s) (sem_ulps s)" "\<forall>un \<in> set uns. sem_undos s un \<noteq> None" "distinct uns"
  shows "sem_undos (free_undos uns s) = (\<lambda>un. if un \<in> set uns then None else sem_undos s un)
    \<and> ulps_kept (set uns) (sem_ulps s) (sem_ulps (free_undos uns s))
    \<and> owner_lists (sem_undos (free_undos uns s)) (sem_ulps (free_undos uns s))"
  using assms
proof (induction uns arbitrary: s)
  case Nil
  then show ?case by (auto simp: ulps_kept_def owner_lists_def split: option.splits)
next
  case (Cons un uns)
  obtain u where u: "sem_undos s un = Some u" using Cons.prems(2) by auto
  let ?s = "s\<lparr>sem_ulps := (sem_ulps s)(un_ulp u := map_option (ul_list_update (remove1 un)) (sem_ulps s (un_ulp u))),
               sem_undos := (sem_undos s)(un := None)\<rparr>"
  note r = owner_remove [OF Cons.prems(1) u]
  define x where "x = free_undos uns ?s"
  have ih: "sem_undos x = (\<lambda>y. if y \<in> set uns then None else sem_undos ?s y)
    \<and> ulps_kept (set uns) (sem_ulps ?s) (sem_ulps x) \<and> owner_lists (sem_undos x) (sem_ulps x)"
    unfolding x_def
  proof (rule Cons.IH)
    show "owner_lists (sem_undos ?s) (sem_ulps ?s)" using r(2) by simp
  qed (use Cons.prems(2,3) in auto)
  have eq: "free_undos (un # uns) s = x" using u by (simp add: x_def)
  have "ulps_kept ({un} \<union> set uns) (sem_ulps s) (sem_ulps x)"
    by (rule ulps_kept_trans [OF r(1)]) (use ih in simp)
  then show ?case unfolding eq using ih by auto
qed

lemma wake_all_fields:
  "sw_undos (wake_all e ts w) = sw_undos w" "perm_header (sw_sma (wake_all e ts w)) = perm_header (sw_sma w)"
  "sem_nsems (sw_sma (wake_all e ts w)) = sem_nsems (sw_sma w)"
  "sw_stacks (wake_all e ts w) t = (if t \<in> set ts then map_option (\<lambda>q. q\<lparr>q_status := Some e\<rparr>) (sw_stacks w t) else sw_stacks w t)"
  by (induction ts arbitrary: w)
    (auto simp: wake_up_sem_queue_prepare_def perm_header_def unlink_queue_def del_task_def Let_def option.map_comp o_def)

lemma freeary_fields:
  assumes wf: "ids_wf (sem_ids s)" and m: "map_of (ipcs_idr (sem_ids s)) i = Some p"
    and a: "objs (sem_ids s) p = Some a" and rc: "perm_refcount a = 1" and call: "freeary s p = (s', wake)"
  shows "ids_wf (sem_ids s')" "ipcs_idr (sem_ids s') = AList.delete i (ipcs_idr (sem_ids s))"
    "r \<noteq> p \<Longrightarrow> objs (sem_ids s') r = objs (sem_ids s) r" "objs (sem_ids s') p = None"
    "sem_undos s' = sem_undos (free_undos (list_id a) s)" "sem_ulps s' = sem_ulps (free_undos (list_id a) s)"
    "task_ulp s' = task_ulp s" "used_sems s' = used_sems s - int (sem_nsems a)"
    "sem_stacks s' t = (if t \<in> set (waiters a) then map_option (\<lambda>q. q\<lparr>q_status := Some EIDRM\<rparr>) (sem_stacks s t) else sem_stacks s t)"
proof -
  define s1 where "s1 = upd_sma p (\<lambda>a. a\<lparr>list_id := []\<rparr>) (free_undos (list_id a) s)"
  have o1: "objs (sem_ids s1) p = Some (a\<lparr>list_id := []\<rparr>)" using a by (simp add: s1_def)
  define w where "w = wake_all EIDRM (freeary_order a) (view s1 (a\<lparr>list_id := []\<rparr>))"
  define ids2 where "ids2 = upd_obj p (\<lambda>_. sems_update (map (\<lambda>x. x\<lparr>sempid := None\<rparr>)) (sw_sma w)) (sem_ids s1)"
  define ids3 where "ids3 = ipc_rmid ids2 p"
  define ids4 where "ids4 = upd_obj p (sem_unlock (sw_stacks w) (-1)) ids3"
  have run: "run_work p (wake_all EIDRM (freeary_order a)) s1 = (put_work p w s1, sw_wake w)"
    using run_work_put [OF o1] by (simp add: w_def)
  have S: "sem_ids s' = ipc_rcu_putref ids4 p \<and> sem_undos s' = sw_undos w \<and> sem_stacks s' = sw_stacks w
      \<and> sem_ulps s' = sem_ulps s1 \<and> task_ulp s' = task_ulp s1 \<and> used_sems s' = used_sems s1 - int (sem_nsems a)"
  proof -
    have "s' = sem_ids_update (\<lambda>ids. ipc_rcu_putref ids p) (used_sems_update (\<lambda>n. n - int (sem_nsems a))
        (sma_unlock p (-1) (sem_rmid (upd_sma p (sems_update (map (\<lambda>x. x\<lparr>sempid := None\<rparr>))) (put_work p w s1)) p)))"
      using call unfolding freeary_def a Let_def option.case s1_def [symmetric] run prod.case by simp
    then show ?thesis
      by (simp add: sem_rmid_def sma_unlock_def ids4_def ids3_def ids2_def o_def)
  qed
  note W = wake_all_fields [of EIDRM "freeary_order a" "view s1 (a\<lparr>list_id := []\<rparr>)", folded w_def]
  have hd: "perm_header (sems_update (map (\<lambda>x. x\<lparr>sempid := None\<rparr>)) (sw_sma w)) = perm_header a"
    using W(2) by (simp add: perm_header_def)
  have t1: "ipcs_idr (sem_ids s1) = ipcs_idr (sem_ids s)" by (simp add: s1_def)
  define b where "b = sems_update (map (\<lambda>x. x\<lparr>sempid := None\<rparr>)) (sw_sma w)"
  have o2: "objs ids2 = (objs (sem_ids s))(p \<mapsto> b)" using a by (simp add: ids2_def s1_def b_def)
  have e2: "ids2 = upd_obj p (\<lambda>_. b) (sem_ids s)"
    by (simp add: ids2_def s1_def b_def upd_obj_upd_obj o_def)
  have hb: "perm_core b = perm_core a" "perm_refcount b = 1"
    using header_fields [OF hd] rc by (simp_all add: b_def)
  have wf2: "ids_wf ids2" unfolding e2 by (rule ids_wf_upd_obj [OF wf]) (use a hb in simp)
  have m2: "map_of (ipcs_idr ids2) i = Some p" using m by (simp add: e2)
  have b2: "objs ids2 p = Some b" by (simp add: o2)
  note R = ipc_rmid_fields [OF wf2 m2 b2]
  have wf3: "ids_wf ids3" unfolding ids3_def by (rule ids_wf_rmid [OF wf2 m2])
  have nl: "p \<notin> snd ` set (ipcs_idr ids3)"
    unfolding ids3_def R(1) by (rule not_in_delete [OF ids_wf_distinct(2) [OF wf2] m2])
  show "ids_wf (sem_ids s')"
    by (rule ids_wf_unlinked_cong [OF wf3 nl]) (simp_all add: S ids4_def)
  show "ipcs_idr (sem_ids s') = AList.delete i (ipcs_idr (sem_ids s))"
    by (simp add: S ids4_def ids3_def R(1)) (simp add: e2)
  show "objs (sem_ids s') r = objs (sem_ids s) r" if "r \<noteq> p"
    using that by (simp add: S ids4_def ids3_def R(4)) (simp add: e2)
  have o4: "objs ids4 p = Some (sem_unlock (sw_stacks w) (-1) (b\<lparr>perm_deleted := True\<rparr>))"
    by (simp add: ids4_def ids3_def R(4))
  have "perm_refcount (sem_unlock st l c) = perm_refcount c" for st l c
    by (simp add: sem_unlock_def unmerge_queues_def complexmode_tryleave_def)
  then show "objs (sem_ids s') p = None" using S putref_obj [OF o4] hb(2) by simp
  show "sem_undos s' = sem_undos (free_undos (list_id a) s)" using S W(1) by (simp add: s1_def view_def)
  show "sem_ulps s' = sem_ulps (free_undos (list_id a) s)" "task_ulp s' = task_ulp s"
    "used_sems s' = used_sems s - int (sem_nsems a)" using S by (simp_all add: s1_def)
  have "set (freeary_order a) = set (waiters a)"
    by (auto simp: freeary_order_def waiters_def alter_waiters_def const_waiters_def)
  then show "sem_stacks s' t = (if t \<in> set (waiters a) then map_option (\<lambda>q. q\<lparr>q_status := Some EIDRM\<rparr>) (sem_stacks s t) else sem_stacks s t)"
    using S W(4) [of t] by (simp add: s1_def view_def)
qed

lemma freeary_inv:
  assumes inv: "sem_inv A s0" and a0: "objs (sem_ids s0) p = Some a0" and s: "s = upd_sma p (\<lambda>_. a) s0"
    and a: "perm_header a = perm_header a0" "list_id a = list_id a0" "waiters a = waiters a0" "sem_nsems a = sem_nsems a0"
    and call: "freeary s p = (s', wake)"
  shows "sem_inv A s'"
proof -
  note ip = inv_parts [OF inv] and ia = inv_array [OF inv a0] and hd = header_fields [OF a(1)]
  obtain i where i: "map_of (ipcs_idr (sem_ids s0)) i = Some p" by (rule linked_index [OF ip(1) ia(1)])
  have oa: "objs (sem_ids s) p = Some a" using a0 by (simp add: s)
  have wf: "ids_wf (sem_ids s)" unfolding s upd_sma_fields by (rule ids_wf_upd_obj [OF ip(1)]) (use a0 hd in simp)
  have i': "map_of (ipcs_idr (sem_ids s)) i = Some p" using i by (simp add: s)
  have rc: "perm_refcount a = 1" using hd(3) ia(2) by simp
  note F = freeary_fields [OF wf i' oa rc call]
  have idr: "ipcs_idr (sem_ids s') = AList.delete i (ipcs_idr (sem_ids s0))" using F(2) by (simp add: s)
  have nl: "p \<notin> snd ` set (ipcs_idr (sem_ids s'))"
    unfolding idr by (rule not_in_delete [OF ids_wf_distinct(2) [OF ip(1)] i])
  have obj: "objs (sem_ids s') r = (if r = p then None else objs (sem_ids s0) r)" for r
    using F(3) [of r] F(4) by (simp add: s)
  have L1: "\<And>un u. sem_undos s0 un = Some u \<Longrightarrow>
        \<exists>p a ul. objs (sem_ids s0) p = Some a \<and> perm_id a = un_semid u \<and> un \<in> set (list_id a)
                \<and> length (semadj u) = sem_nsems a \<and> sem_ulps s0 (un_ulp u) = Some ul \<and> un \<in> set (ul_list ul)"
    and L2: "\<And>p a. objs (sem_ids s0) p = Some a \<Longrightarrow> distinct (list_id a)
           \<and> (\<forall>un \<in> set (list_id a). \<exists>u. sem_undos s0 un = Some u \<and> un_semid u = perm_id a)"
    and ow: "owner_lists (sem_undos s0) (sem_ulps s0)"
    using ip(2) unfolding undo_links_def owner_lists_def by blast+
  let ?U = "set (list_id a0)"
  have fu: "sem_undos s' = (\<lambda>un. if un \<in> ?U then None else sem_undos s0 un)" "ulps_kept ?U (sem_ulps s0) (sem_ulps s')"
    "owner_lists (sem_undos s') (sem_ulps s')"
  proof -
    have us: "sem_undos s = sem_undos s0" "sem_ulps s = sem_ulps s0" by (simp_all add: s)
    have "sem_undos (free_undos (list_id a) s) = (\<lambda>un. if un \<in> set (list_id a) then None else sem_undos s un)
      \<and> ulps_kept (set (list_id a)) (sem_ulps s) (sem_ulps (free_undos (list_id a) s))
      \<and> owner_lists (sem_undos (free_undos (list_id a) s)) (sem_ulps (free_undos (list_id a) s))"
      using ow L2 [OF a0] a(2) by (intro free_undos_lists) (auto simp: us)
    from this [folded F(5,6), unfolded us a(2)]
    show "sem_undos s' = (\<lambda>un. if un \<in> ?U then None else sem_undos s0 un)" "ulps_kept ?U (sem_ulps s0) (sem_ulps s')"
      "owner_lists (sem_undos s') (sem_ulps s')" by blast+
  qed
  have ukd: "\<exists>ul'. sem_ulps s' l = Some ul' \<and> ul_refcnt ul' = ul_refcnt ul \<and> set (ul_list ul') = set (ul_list ul) - ?U"
    if "sem_ulps s0 l = Some ul" for l ul
    using spec [OF fu(2) [unfolded ulps_kept_def], of l] that by auto
  have ukn: "sem_ulps s' l = None" if "sem_ulps s0 l = None" for l
    using spec [OF fu(2) [unfolded ulps_kept_def], of l] that by simp
  have st: "sem_stacks s' t = (if t \<in> set (waiters a0) then map_option (\<lambda>q. q\<lparr>q_status := Some EIDRM\<rparr>) (sem_stacks s0 t) else sem_stacks s0 t)" for t
    using F(9) [of t] a(3) by (simp add: s)
  have w: "waits A s' r t \<longleftrightarrow> r \<noteq> p \<and> waits A s0 r t" for r t
  proof (cases "t \<in> set (waiters a0)")
    case True
    then have "A t = Some p" using ia(4) by (simp add: waits_def)
    then show ?thesis using True st [of t] by (auto simp: waits_def q_status_of_def split: option.splits)
  next
    case False
    then have "\<not> waits A s0 p t" using ia(4) by simp
    then show ?thesis using False st [of t] by (auto simp: waits_def q_status_of_def)
  qed
  have stb: "sem_stacks s' t = sem_stacks s0 t" if "waits A s0 r t" "r \<noteq> p" for t r
    using that st [of t] ia(4) [of t] by (auto simp: waits_def)
  have lk: "p' = p" if "objs (sem_ids s0) p' = Some b" "un \<in> set (list_id b)" "un \<in> ?U" for p' b un
    using inv_list_disjoint [OF inv that(1) a0 that(2,3)] .
  have arrs: "arr_inv (view s' b)" if b: "objs (sem_ids s0) r = Some b" "r \<noteq> p" for r b
  proof (rule other_inv [OF inv_array(3) [OF inv b(1)]])
    show "undos_ok (sw_undos (view s' b))"
      using inv_array(3) [OF inv b(1)] fu(1) by (auto simp: arr_inv_def in_order_def work_ok_def undos_ok_def)
    show "st_base (sw_stacks (view s' b)) t = st_base (sw_stacks (view s0 b)) t" if "t \<in> set (waiters (sw_sma (view s0 b)))" for t
      using that stb [OF _ b(2), of t] inv_array(4) [OF inv b(1), of t] by (simp add: st_base_def)
    show "sw_undos (view s' b) un = sw_undos (view s0 b) un"
      if "t \<in> set (waiters (sw_sma (view s0 b)))" "sw_stacks (view s0 b) t = Some q" "q_undo q = Some un" for t q un
      using that inv_undos_of [OF inv b(1)] lk [OF b(1), of un] b(2) fu(1) by (auto simp: undos_of_def)
  qed simp
  have sum: "table_sum (\<lambda>a. int (sem_nsems a)) (sem_ids s') = table_sum (\<lambda>a. int (sem_nsems a)) (sem_ids s0) - int (sem_nsems a0)"
    using table_sum_removed [OF ip(1) i a0 idr, of "\<lambda>a. int (sem_nsems a)"] obj by simp
  have linked: "r \<in> snd ` set (ipcs_idr (sem_ids s'))" if rb: "objs (sem_ids s0) r = Some b" "r \<noteq> p" for r b
  proof -
    obtain j where j: "(j, r) \<in> set (ipcs_idr (sem_ids s0))" using inv_array(1) [OF inv rb(1)] by auto
    have "j \<noteq> i" using j i ids_wf_distinct(1) [OF ip(1)] rb(2) by (metis map_of_eq_Some_iff option.inject)
    then have "(j, r) \<in> set (ipcs_idr (sem_ids s'))" unfolding idr using j by (simp add: AList.delete_eq)
    then show ?thesis by force
  qed
  have "undo_links s'"
    unfolding undo_links_def
  proof (intro conjI allI impI)
    fix un u assume "sem_undos s' un = Some u"
    then have u: "sem_undos s0 un = Some u" "un \<notin> ?U" by (simp_all add: fu(1) split: if_splits)
    obtain r b ul where "objs (sem_ids s0) r = Some b" "perm_id b = un_semid u" "un \<in> set (list_id b)"
      "length (semadj u) = sem_nsems b" "sem_ulps s0 (un_ulp u) = Some ul" "un \<in> set (ul_list ul)" using L1 [OF u(1)] by blast
    moreover have "r \<noteq> p" using calculation(1,3) a0 u(2) by auto
    moreover obtain ul' where "sem_ulps s' (un_ulp u) = Some ul'" "set (ul_list ul') = set (ul_list ul) - ?U"
      using ukd calculation(5) by blast
    ultimately show "\<exists>r b ul. objs (sem_ids s') r = Some b \<and> perm_id b = un_semid u \<and> un \<in> set (list_id b)
        \<and> length (semadj u) = sem_nsems b \<and> sem_ulps s' (un_ulp u) = Some ul \<and> un \<in> set (ul_list ul)"
      using u(2) by (auto simp: obj)
  next
    fix r b assume "objs (sem_ids s') r = Some b"
    then have b: "objs (sem_ids s0) r = Some b" "r \<noteq> p" by (simp_all add: obj split: if_splits)
    show "distinct (list_id b)" and "\<forall>un \<in> set (list_id b). \<exists>u. sem_undos s' un = Some u \<and> un_semid u = perm_id b"
      using L2 [OF b(1)] lk [OF b(1)] b(2) by (auto simp: fu(1))
  next
    fix l ul assume "sem_ulps s' l = Some ul"
    then show "distinct (ul_list ul)" "\<forall>un \<in> set (ul_list ul). \<exists>u. sem_undos s' un = Some u \<and> un_ulp u = l"
      using fu(3) unfolding owner_lists_def by blast+
  qed
  moreover have "undo_users A s'"
    unfolding undo_users_def
  proof (intro conjI allI impI)
    fix t l assume "task_ulp s' t = Some l"
    then have "task_ulp s0 t = Some l" using F(7) by (simp add: s)
    then obtain ul where "sem_ulps s0 l = Some ul" using ip(3) unfolding undo_users_def by blast
    then show "sem_ulps s' l \<noteq> None" using ukd by fastforce
  next
    fix l ul' assume ul': "sem_ulps s' l = Some ul'"
    then obtain ul where ul: "sem_ulps s0 l = Some ul" using ukn by fastforce
    have "ul_refcnt ul' = ul_refcnt ul" using ukd [OF ul] ul' by auto
    moreover have "task_ulp s' = task_ulp s0" using F(7) by (simp add: s)
    ultimately show "finite {t. task_ulp s' t = Some l}" "ul_refcnt ul' = card {t. task_ulp s' t = Some l}"
      using ip(3) ul unfolding undo_users_def by auto
  next
    fix t r q un assume h: "waits A s' r t \<and> sem_stacks s' t = Some q \<and> q_undo q = Some un"
    then have r: "r \<noteq> p" "waits A s0 r t" using w by blast+
    then have "sem_stacks s0 t = Some q" using h stb [OF r(2,1)] by simp
    then obtain u b where u: "sem_undos s0 un = Some u" "task_ulp s0 t = Some (un_ulp u)" "objs (sem_ids s0) r = Some b" "un \<in> set (list_id b)"
      using ip(3) h r(2) unfolding undo_users_def by blast
    have "un \<notin> ?U" using lk [OF u(3,4)] r(1) by blast
    then show "\<exists>u a. sem_undos s' un = Some u \<and> task_ulp s' t = Some (un_ulp u) \<and> objs (sem_ids s') r = Some a \<and> un \<in> set (list_id a)"
      using u r(1) F(7) by (auto simp: fu(1) obj s)
  qed
  moreover have "sem_stacks s' t = None \<longleftrightarrow> A t = None" for t
    using ip(5) [of t] st [of t] by simp
  moreover have "used_sems s' = table_sum (\<lambda>a. int (sem_nsems a)) (sem_ids s')"
    using F(8) sum ip(4) a(4) by (simp add: s)
  moreover have "r \<in> snd ` set (ipcs_idr (sem_ids s')) \<and> perm_refcount b = 1 \<and> arr_inv (view s' b)
          \<and> (\<forall>t. t \<in> set (waiters b) \<longleftrightarrow> waits A s' r t)" if "objs (sem_ids s') r = Some b" for r b
  proof -
    have b: "objs (sem_ids s0) r = Some b" "r \<noteq> p" using that by (simp_all add: obj split: if_splits)
    show ?thesis using linked [OF b] arrs [OF b] inv_array(2,4) [OF inv b(1)] b(2) w by simp
  qed
  moreover have "objs (sem_ids s') r \<noteq> None" if "waits A s' r t" for r t
    using that w [of r t] ip(6) [of r t] by (simp add: obj)
  ultimately show ?thesis unfolding sem_inv_def using F(1) by blast
qed

section \<open>Release of a namespace\<close>

lemma upd_sma_id: "objs (sem_ids s) p = Some a \<Longrightarrow> upd_sma p (\<lambda>_. a) s = s"
  by (simp add: upd_sma_def upd_obj_def fun_upd_idem_iff)

lemma freeary_free:
  assumes "sem_inv A s" "map_of (ipcs_idr (sem_ids s)) i = Some p"
  shows "sem_inv A (fst (freeary s p))" "ipcs_idr (sem_ids (fst (freeary s p))) = AList.delete i (ipcs_idr (sem_ids s))"
proof -
  have wf: "ids_wf (sem_ids s)" by (rule inv_parts(1) [OF assms(1)])
  obtain a where a: "objs (sem_ids s) p = Some a" by (rule ids_wf_entry [OF wf assms(2)])
  obtain s' w where f: "freeary s p = (s', w)" by fastforce
  have "sem_inv A s'" by (rule freeary_inv [OF assms(1) a upd_sma_id [OF a, symmetric] refl refl refl refl f])
  then show "sem_inv A (fst (freeary s p))" using f by simp
  show "ipcs_idr (sem_ids (fst (freeary s p))) = AList.delete i (ipcs_idr (sem_ids s))"
    using freeary_fields(2) [OF wf assms(2) a inv_array(2) [OF assms(1) a] f] f by simp
qed

interpretation sem_class: ipc_class sem_ids "\<lambda>s p. fst (freeary s p)" "sem_inv A"
  by unfold_locales (use inv_parts(1) freeary_free in blast)+

text \<open>An empty table: nobody sleeps, and there is no undo structure.\<close>

lemma empty_ns:
  assumes "sem_inv A s" "ipcs_idr (sem_ids s) = []"
  shows "objs (sem_ids s) p = None" "used_sems s = 0" "sem_undos s un = None" "\<not> waits A s p t"
proof -
  show o: "objs (sem_ids s) p = None" for p
    using inv_array(1) [OF assms(1), of p] assms(2) by (cases "objs (sem_ids s) p") auto
  show "used_sems s = 0" using inv_parts(4) [OF assms(1)] assms(2) by (simp add: table_sum_def)
  show "sem_undos s un = None" using inv_parts(2) [OF assms(1)] o unfolding undo_links_def by (cases "sem_undos s un") auto
  show "\<not> waits A s p t" using inv_parts(6) [OF assms(1), of p t] o by auto
qed

end
