(* ===== verification/SemCtl.thy ===== *)
theory SemCtl
  imports SemRemove
begin

text \<open>
  \<^verbatim>\<open>semctl\<close> on a namespace: every command keeps the invariant. Reading the values takes and
  drops the lock; \<^verbatim>\<open>SETVAL\<close> and \<^verbatim>\<open>SETALL\<close> run a section that wakes who can go on, \<^verbatim>\<open>IPC_SET\<close>
  changes the owner, \<^verbatim>\<open>IPC_RMID\<close> removes the array.
\<close>


section \<open>Taking and dropping the lock of an array\<close>

lemma lock_view: "sw_lock sops (view s a) = (v, locknum) \<Longrightarrow> v = view s (fst (sem_lock sops a)) \<and> locknum = snd (sem_lock sops a)"
  by (auto simp: sw_lock_def view_def split: prod.splits)

lemma put_work_view:
  "objs (sem_ids s) p = Some a \<Longrightarrow> put_work p (view s b) s = upd_sma p (\<lambda>_. b) s"
  by (simp add: put_work_def)

lemma upd_sma_upd_sma: "upd_sma p f (upd_sma p g s) = upd_sma p (f \<circ> g) s"
  by (simp add: upd_sma_def o_def del: upd_obj_upd_obj) (simp add: upd_obj_upd_obj o_def)

lemma upd_sma_const: "objs (sem_ids s) p = Some a \<Longrightarrow> upd_sma p f s = upd_sma p (\<lambda>_. f a) s"
  by (simp add: upd_sma_def upd_obj_def) 

lemma view_upd_sma [simp]: "view (upd_sma p f s) a = view s a"
  by (simp add: view_def)

lemma view_sem_ids [simp]: "view (s\<lparr>sem_ids := x\<rparr>) a = view s a" "view (sem_ids_update f s) a = view s a"
  by (simp_all add: view_def)

lemma put_work_upd: "put_work p w (upd_sma p f s) = put_work p w s"
  by (simp add: put_work_def upd_sma_def upd_obj_upd_obj o_def)

text \<open>A section behind the lock is a section from the state before.\<close>

lemma run_work_lock:
  assumes "objs (sem_ids s) p = Some a"
  shows "run_work p f (sma_lock p s) =
    (put_work p (f (fst (sw_lock None (view s a)))) s, sw_wake (f (fst (sw_lock None (view s a)))))"
proof -
  have l: "fst (sw_lock None (view s a)) = view s (fst (sem_lock None a))"
    by (simp add: sw_lock_def view_def split: prod.splits)
  have "objs (sem_ids (sma_lock p s)) p = Some (fst (sem_lock None a))" using assms by (simp add: sma_lock_def)
  from run_work_put [OF this, of f] show ?thesis
    unfolding l sma_lock_def by (simp add: put_work_upd)
qed

lemma lock_unlock_keeps:
  assumes "sem_inv A s" "objs (sem_ids s) p = Some a" "sem_lock sops a = (b, locknum)"
  shows "sem_inv A (sma_unlock p locknum (upd_sma p (\<lambda>_. b) s))"
proof -
  let ?w = "view s a"
  have v: "sw_lock sops ?w = (view s b, locknum)" using assms(3) by (simp add: sw_lock_def view_def)
  note ai = inv_array(3) [OF assms(1,2)]
  note l = sw_lock_inv [OF ai v]
  let ?u = "sw_unlock locknum (view s b)"
  have u: "?u = view s (sem_unlock (sem_stacks s) locknum b)" by (simp add: sw_unlock_def view_def)
  have "sec_rel {} (set (list_id a)) ?w ?u"
    by (rule sec_rel_trans [OF sec_rel_lock [OF v] sec_rel_unlock [OF l(1)]])
  moreover have "arr_inv ?u" by (rule sw_unlock_inv [OF l(1,3)])
  ultimately have "sem_inv A (put_work p ?u s)" by (rule section_keeps [OF assms(1,2)])
  moreover have "sma_unlock p locknum (upd_sma p (\<lambda>_. b) s) = put_work p ?u s"
    unfolding u put_work_view [OF assms(2)] sma_unlock_def upd_sma_upd_sma by (simp add: o_def)
  ultimately show ?thesis by simp
qed

lemma sma_lock_const:
  assumes "objs (sem_ids s) p = Some a"
  shows "sma_lock p s = upd_sma p (\<lambda>_. fst (sem_lock None a)) s" "sem_lock None a = (complexmode_enter a, -1)"
  by (simp_all add: sma_lock_def sem_lock_def SEM_GLOBAL_LOCK_def) (rule upd_sma_const [OF assms, THEN trans], simp)

lemma sma_lock_unlock_keeps:
  assumes "sem_inv A s" "objs (sem_ids s) p = Some a"
  shows "sem_inv A (sma_unlock p (-1) (sma_lock p s))"
  unfolding sma_lock_const(1) [OF assms(2)] sma_lock_const(2) [OF assms(2)] fst_conv
  by (rule lock_unlock_keeps [OF assms sma_lock_const(2) [OF assms(2)]])

text \<open>A reference that is taken and dropped around the lock.\<close>

lemma getref_putref:
  assumes "objs (sem_ids s) p = Some a" "perm_refcount a = 1" "ipc_rcu_getref (sem_ids s) p = (ids, ok)"
  shows "ok" "sem_ids_update (\<lambda>ids. ipc_rcu_putref ids p) (s\<lparr>sem_ids := ids\<rparr>) = s"
    "sem_lock_and_putref p (s\<lparr>sem_ids := ids\<rparr>) = sma_lock p s"
proof -
  have g: "ok" "ids = upd_obj p (\<lambda>q. q\<lparr>perm_refcount := perm_refcount q + 1\<rparr>) (sem_ids s)"
    using assms by (simp_all add: ipc_rcu_getref_def)
  show "ok" by (rule g)
  have put: "ipc_rcu_putref (upd_obj p f (sem_ids s)) p = upd_obj p (\<lambda>_. (f a)\<lparr>perm_refcount := 1\<rparr>) (sem_ids s)"
    if "perm_refcount (f a) = 2" for f
    using assms(1) that by (simp add: ipc_rcu_putref_def upd_obj_def fun_upd_idem_iff)
  have id: "upd_obj p (\<lambda>_. a) (sem_ids s) = sem_ids s"
    using assms(1) by (simp add: upd_obj_def fun_upd_idem_iff)
  have aa: "a\<lparr>perm_refcount := 1\<rparr> = a" using assms(2) by simp
  have upd: "sem_ids_update f (s\<lparr>sem_ids := x\<rparr>) = s\<lparr>sem_ids := f x\<rparr>" for f x by simp
  show "sem_ids_update (\<lambda>ids. ipc_rcu_putref ids p) (s\<lparr>sem_ids := ids\<rparr>) = s"
  proof -
    have "ipc_rcu_putref (upd_obj p (\<lambda>q. q\<lparr>perm_refcount := perm_refcount q + 1\<rparr>) (sem_ids s)) p
        = upd_obj p (\<lambda>_. a\<lparr>perm_refcount := 1\<rparr>) (sem_ids s)"
      using put [of "\<lambda>q. q\<lparr>perm_refcount := perm_refcount q + 1\<rparr>"] assms(2) by simp
    then have "ipc_rcu_putref (upd_obj p (\<lambda>q. q\<lparr>perm_refcount := perm_refcount q + 1\<rparr>) (sem_ids s)) p = sem_ids s"
      unfolding aa id .
    then show ?thesis unfolding upd g(2) by simp
  qed
  have c: "(complexmode_enter (a\<lparr>perm_refcount := 2\<rparr>))\<lparr>perm_refcount := 1\<rparr> = complexmode_enter a"
    "perm_refcount (complexmode_enter (a\<lparr>perm_refcount := 2\<rparr>)) = 2"
    using assms(2) by (cases a, simp add: complexmode_enter_def)+
  have "sma_lock p (s\<lparr>sem_ids := ids\<rparr>) =
      s\<lparr>sem_ids := upd_obj p (\<lambda>q. complexmode_enter (q\<lparr>perm_refcount := perm_refcount q + 1\<rparr>)) (sem_ids s)\<rparr>"
    unfolding g(2) by (simp add: sma_lock_def upd_sma_def sem_lock_def o_def)
  moreover have "sma_lock p s = s\<lparr>sem_ids := upd_obj p (\<lambda>_. complexmode_enter a) (sem_ids s)\<rparr>"
    using upd_sma_const [OF assms(1), of complexmode_enter] by (simp add: sma_lock_def upd_sma_def sem_lock_def)
  ultimately show "sem_lock_and_putref p (s\<lparr>sem_ids := ids\<rparr>) = sma_lock p s"
    unfolding sem_lock_and_putref_def
    using put [of "\<lambda>q. complexmode_enter (q\<lparr>perm_refcount := perm_refcount q + 1\<rparr>)"] assms(2) c
    by (simp add: o_def numeral_2_eq_2)
qed

lemma inv_obtain:
  assumes "sem_inv A s" "sem_obtain_object_check s semid = Inr p"
  obtains a where "objs (sem_ids s) p = Some a" "perm_id a = semid"
proof -
  have wf: "ids_wf (sem_ids s)" by (rule inv_parts(1) [OF assms(1)])
  have "\<exists>a. objs (sem_ids s) p = Some a \<and> perm_id a = semid"
    using obtain_check_perm_id [OF wf] assms(2) unfolding sem_obtain_object_check_def by blast
  then show thesis using that by blast
qed

lemma inv_valid:
  assumes "sem_inv A s" "objs (sem_ids s) p = Some a"
  shows "ipc_valid_object (sem_ids s) p" "ipc_valid_object (sem_ids (sma_lock p s)) p"
proof -
  have wf: "ids_wf (sem_ids s)" by (rule inv_parts(1) [OF assms(1)])
  obtain i where i: "map_of (ipcs_idr (sem_ids s)) i = Some p" by (rule linked_index [OF wf inv_array(1) [OF assms]])
  have d: "\<not> perm_deleted a" using ids_wf_entry [OF wf i] assms(2) by (metis option.inject)
  then show "ipc_valid_object (sem_ids s) p" using assms(2) by (simp add: ipc_valid_object_def)
  show "ipc_valid_object (sem_ids (sma_lock p s)) p"
    using assms(2) d by (simp add: sma_lock_def ipc_valid_object_def sem_lock_def complexmode_enter_def)
qed

section \<open>semctl\<close>

lemma global_lock: "sw_lock None w = (fst (sw_lock None w), -1)"
  by (simp add: sw_lock_def sem_lock_def SEM_GLOBAL_LOCK_def)

lemma semctl_setval_inv:
  assumes inv: "sem_inv A s" and call: "semctl_setval e s semid semnum val = (s', wake, r)"
  shows "sem_inv A s'"
proof (cases "val > SEMVMX \<or> val < 0")
  case True
  then show ?thesis using call inv by (simp add: semctl_setval_def)
next
  case val: False
  show ?thesis
  proof (cases "sem_obtain_object_check s semid")
    case (Inl err)
    then show ?thesis using call inv val by (simp add: semctl_setval_def)
  next
    case (Inr p)
    obtain a where a: "objs (sem_ids s) p = Some a" by (rule inv_obtain [OF inv Inr])
    note ai = inv_array(3) [OF inv a]
    show ?thesis
    proof (cases "semnum < 0 \<or> semnum \<ge> int (sem_nsems a)")
      case True
      then show ?thesis using call inv val Inr a by (auto simp: semctl_setval_def split: if_splits)
    next
      case False
      then have i: "nat semnum < sem_nsems a" by (simp add: nat_less_iff)
      let ?f = "setval_section (clock_seconds (se_task e)) (cur_tgid (se_task e)) (nat semnum) val"
      let ?w = "?f (fst (sw_lock None (view s a)))"
      have "sem_inv A (put_work p ?w s)"
      proof (rule section_keeps [OF inv a])
        show "sec_rel {} (set (list_id a)) (view s a) ?w"
          using setval_sec [OF ai global_lock, of "nat semnum" val] inv_undos_of [OF inv a] i val by simp
        show "arr_inv ?w" by (rule setval_inv [OF ai global_lock]) (use i val in simp_all)
      qed
      moreover have "s' = s \<or> s' = put_work p ?w s"
        using call val Inr a False i inv_valid(2) [OF inv a] run_work_lock [OF a, of ?f]
        by (auto simp: semctl_setval_def Let_def split: if_splits prod.splits)
      ultimately show ?thesis using inv by auto
    qed
  qed
qed

lemma semctl_setall_inv:
  assumes inv: "sem_inv A s" and a: "objs (sem_ids s) p = Some a" and call: "semctl_setall e uvals s p a = (s', wake, r)"
  shows "sem_inv A s'"
proof -
  note ai = inv_array(3) [OF inv a] and rc = inv_array(2) [OF inv a]
  obtain ids ok where g: "ipc_rcu_getref (sem_ids s) p = (ids, ok)" by (metis surj_pair)
  note G = getref_putref [OF a rc g]
  show ?thesis
  proof (cases "(sem_nsems a > SEMMSL_FAST \<and> \<not> se_buf e) \<or> uvals = None
      \<or> (\<exists>io. uvals = Some io \<and> (\<exists>i \<in> set [0..<sem_nsems a]. uint (io i) > SEMVMX))")
    case True
    then have "s' = sem_ids_update (\<lambda>ids. ipc_rcu_putref ids p) (s\<lparr>sem_ids := ids\<rparr>)"
      using call g G(1) unfolding semctl_setall_def Let_def
      by (cases "sem_nsems a > SEMMSL_FAST \<and> \<not> se_buf e"; cases uvals)
        (simp_all del: set_upt split: if_splits)
    then show ?thesis using G(2) inv by simp
  next
    case False
    then obtain io where io: "uvals = Some io" "\<And>i. i < sem_nsems a \<Longrightarrow> uint (io i) \<le> SEMVMX"
      by (cases uvals) (auto simp: not_less)
    let ?f = "setall_section (clock_seconds (se_task e)) (cur_tgid (se_task e)) io"
    let ?w = "?f (fst (sw_lock None (view s a)))"
    have "\<not> (\<exists>i \<in> set [0..<sem_nsems a]. uint (io i) > SEMVMX)" using io(2) by (force simp: not_less)
    then have "s' = put_work p ?w s"
      using call g G(1,3) False io(1) inv_valid(2) [OF inv a] run_work_lock [OF a, of ?f]
      unfolding semctl_setall_def Let_def by (simp del: set_upt split: if_splits)
    moreover have "sem_inv A (put_work p ?w s)"
    proof (rule section_keeps [OF inv a])
      show "sec_rel {} (set (list_id a)) (view s a) ?w"
        using setall_sec [OF ai global_lock, of io] inv_undos_of [OF inv a] io(2) by simp
      show "arr_inv ?w" by (rule setall_inv [OF ai global_lock]) (use io(2) in simp)
    qed
    ultimately show ?thesis by simp
  qed
qed

text \<open>Taking a reference under the lock is taking it behind the unlock.\<close>

lemma unlock_refcount: "sem_unlock st l (a\<lparr>perm_refcount := n\<rparr>) = (sem_unlock st l a)\<lparr>perm_refcount := n\<rparr>"
  by (cases a) (simp add: sem_unlock_def unmerge_queues_def complexmode_tryleave_def)

lemma unlock_keeps_refcount: "perm_refcount (sem_unlock st l a) = perm_refcount a"
  by (simp add: sem_unlock_def unmerge_queues_def complexmode_tryleave_def)

lemma getref_unlock:
  assumes "objs (sem_ids s) p = Some a" "perm_refcount a = 1"
  shows "\<exists>ids. ipc_rcu_getref (sem_ids s) p = (ids, True)
    \<and> ipc_rcu_getref (sem_ids (sma_unlock p l s)) p = (sem_ids (sma_unlock p l (s\<lparr>sem_ids := ids\<rparr>)), True)
    \<and> sma_unlock p l (s\<lparr>sem_ids := ids\<rparr>) = (sma_unlock p l s)\<lparr>sem_ids := sem_ids (sma_unlock p l (s\<lparr>sem_ids := ids\<rparr>))\<rparr>"
proof (intro exI conjI)
  let ?ids = "upd_obj p (\<lambda>q. q\<lparr>perm_refcount := 2\<rparr>) (sem_ids s)"
  show "ipc_rcu_getref (sem_ids s) p = (?ids, True)"
    using assms by (simp add: ipc_rcu_getref_def upd_obj_def numeral_2_eq_2)
  show "ipc_rcu_getref (sem_ids (sma_unlock p l s)) p = (sem_ids (sma_unlock p l (s\<lparr>sem_ids := ?ids\<rparr>)), True)"
    using assms
    by (simp add: ipc_rcu_getref_def sma_unlock_def unlock_keeps_refcount upd_obj_def unlock_refcount numeral_2_eq_2)
  show "sma_unlock p l (s\<lparr>sem_ids := ?ids\<rparr>) = (sma_unlock p l s)\<lparr>sem_ids := sem_ids (sma_unlock p l (s\<lparr>sem_ids := ?ids\<rparr>))\<rparr>"
    by (simp add: sma_unlock_def upd_sma_def)
qed

lemma semctl_getall_inv:
  assumes inv: "sem_inv A s" and a: "objs (sem_ids s) p = Some a" and call: "semctl_getall e ok s p a = (s', out, r)"
  shows "sem_inv A s'"
proof -
  let ?l = "sma_lock p s"
  note kept = sma_lock_unlock_keeps [OF inv a]
  show ?thesis
  proof (cases "sem_nsems a > SEMMSL_FAST")
    case False
    then show ?thesis
      using call kept inv_valid(2) [OF inv a] by (auto simp: semctl_getall_def Let_def split: if_splits)
  next
    case True
    let ?l = "sma_lock p s" and ?u = "sma_unlock p (-1) (sma_lock p s)"
    have l: "objs (sem_ids ?l) p = Some (complexmode_enter a)" "perm_refcount (complexmode_enter a) = 1"
      using a inv_array(2) [OF inv a] by (simp_all add: sma_lock_def sem_lock_def complexmode_enter_def)
    have u: "objs (sem_ids ?u) p = Some (sem_unlock (sem_stacks s) (-1) (complexmode_enter a))"
      using a by (simp add: sma_unlock_def sma_lock_def sem_lock_def)
    obtain ids where g: "ipc_rcu_getref (sem_ids ?l) p = (ids, True)"
      "ipc_rcu_getref (sem_ids ?u) p = (sem_ids (sma_unlock p (-1) (?l\<lparr>sem_ids := ids\<rparr>)), True)"
      "sma_unlock p (-1) (?l\<lparr>sem_ids := ids\<rparr>) = ?u\<lparr>sem_ids := sem_ids (sma_unlock p (-1) (?l\<lparr>sem_ids := ids\<rparr>))\<rparr>"
      using getref_unlock [OF l] by blast
    note G = getref_putref [OF u inv_array(2) [OF kept u] g(2), folded g(3)]
    note k2 = sma_lock_unlock_keeps [OF kept u]
    show ?thesis
      using call True kept k2 G(2,3) g(1) inv_valid(2) [OF inv a] inv_valid(2) [OF kept u]
      by (auto simp: semctl_getall_def Let_def split: if_splits)
  qed
qed

lemma semctl_getone_inv:
  assumes inv: "sem_inv A s" and a: "objs (sem_ids s) p = Some a" and call: "semctl_getone e s p a semnum cmd = (s', r)"
  shows "sem_inv A s'"
  using call inv sma_lock_unlock_keeps [OF inv a] by (auto simp: semctl_getone_def Let_def split: if_splits)

text \<open>A change of owner and mode under the global lock.\<close>

lemma set_perm_keeps:
  assumes inv: "sem_inv A s" and a: "objs (sem_ids s) p = Some a"
    and b: "b = (complexmode_enter a)\<lparr>perm_uid := u, perm_gid := g, perm_mode := m, sem_ctime := c\<rparr>"
  shows "sem_inv A (sma_unlock p (-1) (upd_sma p (\<lambda>_. b) (sma_lock p s)))"
proof -
  note ai = inv_array(3) [OF inv a]
  let ?v = "view s (complexmode_enter a)" and ?y = "view s b"
  have v: "sw_lock None (view s a) = (?v, -1)"
    using sma_lock_const(2) [OF a] by (simp add: sw_lock_def view_def)
  note l = sw_lock_inv [OF ai v]
  have sv: "same_view ?v ?y" by (simp add: same_view_def b)
  have y: "in_order ?y" by (rule same_view_order [OF sv l(1)])
  have "mode_locked (-1) ?y" using l(3) by (simp add: mode_locked_def one_mode_def SEM_GLOBAL_LOCK_def b)
  then have arr: "arr_inv (sw_unlock (-1) ?y)" by (rule sw_unlock_inv [OF y])
  have w: "waiters b = waiters (complexmode_enter a)" using same_view_waiters [OF sv] by simp
  have "sec_rel {} (set (list_id a)) ?v ?y"
    by (rule sec_rel_still) (use w in \<open>simp_all add: undo_same_def perm_header_def b\<close>)
  then have "sec_rel {} (set (list_id a)) (view s a) (sw_unlock (-1) ?y)"
    by (rule sec_rel_trans [OF sec_rel_trans [OF sec_rel_lock [OF v]] sec_rel_unlock [OF y]])
  then have "sem_inv A (put_work p (sw_unlock (-1) ?y) s)" using arr by (rule section_keeps [OF inv a])
  moreover have "sma_unlock p (-1) (upd_sma p (\<lambda>_. b) (sma_lock p s)) = put_work p (sw_unlock (-1) ?y) s"
    using put_work_view [OF a, of "sem_unlock (sem_stacks s) (-1) b"]
    by (simp add: sma_unlock_def sma_lock_def upd_sma_upd_sma sw_unlock_def view_def o_def)
  ultimately show ?thesis by simp
qed

lemma semctl_down_inv:
  assumes inv: "sem_inv A s" and call: "semctl_down e s semid cmd perm = (s', wake, r)"
  shows "sem_inv A s'"
proof (cases "ipcctl_obtain_check (se_task e) (sem_ids s) semid")
  case (Inl err)
  then show ?thesis using call inv by (simp add: semctl_down_def)
next
  case (Inr p)
  then have "sem_obtain_object_check s semid = Inr p"
    by (auto simp: ipcctl_obtain_check_def sem_obtain_object_check_def split: sum.splits option.splits if_splits)
  then obtain a where a: "objs (sem_ids s) p = Some a" by (rule inv_obtain [OF inv])
  show ?thesis
  proof (cases "sl_semctl (se_lsm e) (Some (kern_ipc_perm.truncate a)) cmd")
    case (Some err)
    then show ?thesis using call inv Inr a by (simp add: semctl_down_def)
  next
    case None
    consider (rmid) "cmd = IPC_RMID" | (set) "cmd = IPC_SET" "cmd \<noteq> IPC_RMID" | (other) "cmd \<noteq> IPC_RMID" "cmd \<noteq> IPC_SET" by blast
    then show ?thesis
    proof cases
      case rmid
      then have f: "freeary (sma_lock p s) p = (s', wake)"
        using call Inr a None by (simp add: semctl_down_def split: prod.splits)
      have "sma_lock p s = upd_sma p (\<lambda>_. complexmode_enter a) s"
        using sma_lock_const(1) [OF a] by (simp add: sma_lock_const(2) [OF a])
      moreover have "perm_header (complexmode_enter a) = perm_header a" "list_id (complexmode_enter a) = list_id a"
        "waiters (complexmode_enter a) = waiters a" "sem_nsems (complexmode_enter a) = sem_nsems a"
        by (simp_all add: complexmode_enter_def perm_header_def waiters_def alter_waiters_def const_waiters_def)
      ultimately show ?thesis by (rule freeary_inv [OF inv a _ _ _ _ _ f])
    next
      case set
      show ?thesis
      proof (cases "ipc_update_perm (make_kuid (se_maps e)) (make_kgid (se_maps e)) perm (complexmode_enter a)")
        case (Inl err)
        then show ?thesis
          using call Inr a None set sma_lock_unlock_keeps [OF inv a] by (auto simp: semctl_down_def Let_def)
      next
        case up: (Inr b)
        then have s': "s' = sma_unlock p (-1) (upd_sma p (\<lambda>_. b\<lparr>sem_ctime := clock_seconds (se_task e)\<rparr>) (sma_lock p s))"
          using call Inr a None set by (auto simp: semctl_down_def Let_def)
        obtain u g m where b: "b = (complexmode_enter a)\<lparr>perm_uid := u, perm_gid := g, perm_mode := m\<rparr>"
          using up by (auto simp: ipc_update_perm_def split: option.splits)
        show ?thesis unfolding s' by (rule set_perm_keeps [OF inv a]) (use b in simp)
      qed
    next
      case other
      then show ?thesis using call Inr a None inv by (simp add: semctl_down_def)
    qed
  qed
qed

lemma semctl_main_inv:
  assumes inv: "sem_inv A s" and call: "semctl_main e s semid semnum cmd ok uvals = (s', wake, out, r)"
  shows "sem_inv A s'"
proof (cases "sem_obtain_object_check s semid")
  case (Inl err)
  then show ?thesis using call inv by (simp add: semctl_main_def)
next
  case (Inr p)
  obtain a where a: "objs (sem_ids s) p = Some a" by (rule inv_obtain [OF inv Inr])
  show ?thesis
    using call Inr a inv semctl_getall_inv [OF inv a] semctl_setall_inv [OF inv a] semctl_getone_inv [OF inv a]
    by (auto simp: semctl_main_def split: if_splits option.splits prod.splits)
qed

text \<open>The calls.\<close>

lemma ksys_semctl_inv:
  assumes inv: "sem_inv A s" and call: "ksys_semctl e s semid semnum cmd ok v64 old uvals arg version = (s', wake, out, r)"
  shows "sem_inv A s'"
  using call inv semctl_main_inv [OF inv] semctl_setval_inv [OF inv] semctl_down_inv [OF inv]
  by (auto simp: ksys_semctl_def split: if_splits prod.splits sum.splits option.splits)

lemma compat_ksys_semctl_inv:
  assumes inv: "sem_inv A s" and call: "compat_ksys_semctl e s semid semnum cmd ok p64 p uvals arg version = (s', wake, out, r)"
  shows "sem_inv A s'"
  using call inv semctl_main_inv [OF inv] semctl_setval_inv [OF inv] semctl_down_inv [OF inv]
  by (auto simp: compat_ksys_semctl_def Let_def split: if_splits prod.splits sum.splits option.splits)

lemma old_semctl_inv:
  assumes "sem_inv A s"
  shows "ksys_old_semctl e s semid semnum cmd ok v64 old uvals arg = (s', wake, out, r) \<Longrightarrow> sem_inv A s'"
    "compat_ksys_old_semctl e s semid semnum cmd ok p64 p uvals arg = (s', wake, out, r) \<Longrightarrow> sem_inv A s'"
  using ksys_semctl_inv [OF assms] compat_ksys_semctl_inv [OF assms]
  by (simp_all add: ksys_old_semctl_def compat_ksys_old_semctl_def split: prod.splits)

end
