(* ===== verification/SemUndo.thy ===== *)
theory SemUndo
  imports SemCtl
begin

text \<open>
  The undo structures of a namespace: the list of a task is allocated at its first use and
  shared with a clone (\<^verbatim>\<open>get_undo_list\<close>, \<^verbatim>\<open>copy_semundo\<close>), a structure is found or linked to its
  array and its list (\<^verbatim>\<open>find_alloc_undo\<close>). All of it keeps the invariant, and the structure a
  call ends up with belongs to the caller and to the array it is about to change.
\<close>

section \<open>What the invariant says of undo structures\<close>

lemma undo_dest:
  assumes "sem_inv A s" "sem_undos s un = Some u"
  obtains p a ul where "objs (sem_ids s) p = Some a" "perm_id a = un_semid u" "un \<in> set (list_id a)"
    "length (semadj u) = sem_nsems a" "sem_ulps s (un_ulp u) = Some ul" "un \<in> set (ul_list ul)"
  using inv_parts(2) [OF assms(1)] assms(2) unfolding undo_links_def by blast

lemma array_undos:
  assumes "sem_inv A s" "objs (sem_ids s) p = Some a"
  shows "distinct (list_id a)" "un \<in> set (list_id a) \<Longrightarrow> \<exists>u. sem_undos s un = Some u \<and> un_semid u = perm_id a"
  using inv_parts(2) [OF assms(1)] assms(2) unfolding undo_links_def by blast+

lemma owner_undos:
  assumes "sem_inv A s" "sem_ulps s l = Some ul"
  shows "distinct (ul_list ul)" "un \<in> set (ul_list ul) \<Longrightarrow> \<exists>u. sem_undos s un = Some u \<and> un_ulp u = l"
  using inv_parts(2) [OF assms(1)] assms(2) unfolding undo_links_def by blast+

lemma user_lists:
  assumes "sem_inv A s"
  shows "task_ulp s t = Some l \<Longrightarrow> \<exists>ul. sem_ulps s l = Some ul"
    "sem_ulps s l = Some ul \<Longrightarrow> finite {t. task_ulp s t = Some l} \<and> ul_refcnt ul = card {t. task_ulp s t = Some l}"
    "\<lbrakk>waits A s p t; sem_stacks s t = Some q; q_undo q = Some un\<rbrakk> \<Longrightarrow>
       \<exists>u a. sem_undos s un = Some u \<and> task_ulp s t = Some (un_ulp u) \<and> objs (sem_ids s) p = Some a \<and> un \<in> set (list_id a)"
  using inv_parts(3) [OF assms] unfolding undo_users_def by blast+

text \<open>The structure of a task for an array is on the array's list.\<close>

lemma undo_on_array:
  assumes inv: "sem_inv A s" and u: "sem_undos s un = Some u" and a: "objs (sem_ids s) p = Some a" "perm_id a = un_semid u"
  shows "un \<in> set (list_id a)" "length (semadj u) = sem_nsems a"
proof -
  obtain r b ul where b: "objs (sem_ids s) r = Some b" "perm_id b = un_semid u" "un \<in> set (list_id b)" "length (semadj u) = sem_nsems b"
    by (rule undo_dest [OF inv u])
  have "r = p" by (rule inv_perm_id_inj [OF inv b(1) a(1)]) (use a(2) b(2) in simp)
  then show "un \<in> set (list_id a)" "length (semadj u) = sem_nsems a" using a(1) b by simp_all
qed

section \<open>Changes that touch no array\<close>

lemma ul_update: "ul_list_update f ul = ul\<lparr>ul_list := f (ul_list ul)\<rparr>"
  by (cases ul) simp

lemma lists_inv:
  assumes inv: "sem_inv A s" and same: "sem_ids s' = sem_ids s" "sem_undos s' = sem_undos s" "sem_stacks s' = sem_stacks s" "used_sems s' = used_sems s"
    and new: "undo_links s'" "undo_users A s'"
  shows "sem_inv A s'"
proof -
  have v: "view s' a = view s a" for a by (simp add: view_def same)
  have w: "waits A s' p t \<longleftrightarrow> waits A s p t" for p t by (simp add: waits_def same)
  show ?thesis using inv new unfolding sem_inv_def v w same by blast
qed

lemma get_undo_list_inv:
  assumes inv: "sem_inv A s" and k: "kmalloc_ok (se_new e)" and call: "get_undo_list e s = (s', r)"
  shows "sem_inv A s'" "r = Inr l \<Longrightarrow> task_ulp s' (cur_task (se_task e)) = Some l"
    "sem_ids s' = sem_ids s" "sem_undos s' = sem_undos s" "sem_stacks s' = sem_stacks s" "sc_semopm s' = sc_semopm s"
    "t \<noteq> cur_task (se_task e) \<Longrightarrow> task_ulp s' t = task_ulp s t"
proof -
  let ?c = "cur_task (se_task e)"
  have both: "sem_inv A s' \<and> (r = Inr l \<longrightarrow> task_ulp s' ?c = Some l)
      \<and> sem_ids s' = sem_ids s \<and> sem_undos s' = sem_undos s \<and> sem_stacks s' = sem_stacks s \<and> sc_semopm s' = sc_semopm s
      \<and> (t \<noteq> ?c \<longrightarrow> task_ulp s' t = task_ulp s t)"
  proof (cases "task_ulp s ?c")
    case (Some l')
    then show ?thesis using call inv by (auto simp: get_undo_list_def)
  next
    case none: None
    show ?thesis
    proof (cases "se_new e (\<lambda>l. sem_ulps s l \<noteq> None)")
      case None
      then show ?thesis using call inv none by (auto simp: get_undo_list_def)
    next
      case (Some n)
      have fresh: "sem_ulps s n = None" by (rule kmalloc_fresh [OF k Some])
      have s': "s' = s\<lparr>sem_ulps := (sem_ulps s)(n \<mapsto> \<lparr>ul_refcnt = 1, ul_list = []\<rparr>), task_ulp := (task_ulp s)(?c \<mapsto> n)\<rparr>" "r = Inr n"
        using call none Some by (simp_all add: get_undo_list_def)
      have no: "task_ulp s t \<noteq> Some n" for t using user_lists(1) [OF inv, of t n] fresh by auto
      have "undo_links s'"
        unfolding undo_links_def
      proof (intro conjI allI impI)
        fix un u assume "sem_undos s' un = Some u"
        then have u: "sem_undos s un = Some u" by (simp add: s')
        obtain p a ul where "objs (sem_ids s) p = Some a" "perm_id a = un_semid u" "un \<in> set (list_id a)"
          "length (semadj u) = sem_nsems a" "sem_ulps s (un_ulp u) = Some ul" "un \<in> set (ul_list ul)" by (rule undo_dest [OF inv u])
        moreover from this have "un_ulp u \<noteq> n" using fresh by auto
        ultimately show "\<exists>p a ul. objs (sem_ids s') p = Some a \<and> perm_id a = un_semid u \<and> un \<in> set (list_id a)
            \<and> length (semadj u) = sem_nsems a \<and> sem_ulps s' (un_ulp u) = Some ul \<and> un \<in> set (ul_list ul)"
          by (intro exI [of _ p] exI [of _ a] exI [of _ ul]) (simp add: s')
      qed (use array_undos [OF inv] owner_undos [OF inv] in \<open>auto simp: s' split: if_splits\<close>)
      moreover have "undo_users A s'"
        unfolding undo_users_def
      proof (intro conjI allI impI)
        fix t l assume "task_ulp s' t = Some l"
        then show "sem_ulps s' l \<noteq> None" using user_lists(1) [OF inv, of t l] by (auto simp: s' split: if_splits)
      next
        fix l ul assume ul: "sem_ulps s' l = Some ul"
        show "finite {t. task_ulp s' t = Some l}" "ul_refcnt ul = card {t. task_ulp s' t = Some l}"
        proof (atomize (full), cases "l = n")
          case True
          then have "{t. task_ulp s' t = Some l} = {?c}" using no by (auto simp: s')
          then show "finite {t. task_ulp s' t = Some l} \<and> ul_refcnt ul = card {t. task_ulp s' t = Some l}"
            using ul True by (auto simp: s')
        next
          case False
          then have "{t. task_ulp s' t = Some l} = {t. task_ulp s t = Some l}" "sem_ulps s l = Some ul"
            using none ul by (auto simp: s')
          then show "finite {t. task_ulp s' t = Some l} \<and> ul_refcnt ul = card {t. task_ulp s' t = Some l}"
            using user_lists(2) [OF inv, of l ul] by simp
        qed
      next
        fix t p q un assume h: "waits A s' p t \<and> sem_stacks s' t = Some q \<and> q_undo q = Some un"
        then have "waits A s p t" "sem_stacks s t = Some q" by (simp_all add: s' waits_def)
        from user_lists(3) [OF inv this] h none show "\<exists>u a. sem_undos s' un = Some u \<and> task_ulp s' t = Some (un_ulp u)
            \<and> objs (sem_ids s') p = Some a \<and> un \<in> set (list_id a)" by (auto simp: s')
      qed
      ultimately have "sem_inv A s'" by (intro lists_inv [OF inv]) (simp_all add: s')
      then show ?thesis by (auto simp: s')
    qed
  qed
  show "sem_inv A s'" "sem_ids s' = sem_ids s" "sem_undos s' = sem_undos s" "sem_stacks s' = sem_stacks s" "sc_semopm s' = sc_semopm s"
    using both by blast+
  show "task_ulp s' ?c = Some l" if "r = Inr l" using both that by blast
  show "task_ulp s' t = task_ulp s t" if "t \<noteq> ?c" using both that by blast
qed

text \<open>A list in another order.\<close>

lemma relist_inv:
  assumes inv: "sem_inv A s" and ul: "sem_ulps s l = Some ul" and xs: "distinct xs" "set xs = set (ul_list ul)"
  shows "sem_inv A (s\<lparr>sem_ulps := (sem_ulps s)(l \<mapsto> ul\<lparr>ul_list := xs\<rparr>)\<rparr>)" (is "sem_inv A ?s")
proof (rule lists_inv [OF inv])
  show "undo_links ?s"
    unfolding undo_links_def
  proof (intro conjI allI impI)
    fix un u assume "sem_undos ?s un = Some u"
    then have u: "sem_undos s un = Some u" by simp
    obtain p a ul' where N: "objs (sem_ids s) p = Some a" "perm_id a = un_semid u" "un \<in> set (list_id a)"
      "length (semadj u) = sem_nsems a" "sem_ulps s (un_ulp u) = Some ul'" "un \<in> set (ul_list ul')" by (rule undo_dest [OF inv u])
    obtain x where x: "sem_ulps ?s (un_ulp u) = Some x" "un \<in> set (ul_list x)"
    proof (cases "un_ulp u = l")
      case True
      then have "un \<in> set xs" unfolding xs(2) using N(5,6) ul by simp
      then show ?thesis using that True by simp
    qed (use that N(5,6) in simp)
    show "\<exists>p a ul. objs (sem_ids ?s) p = Some a \<and> perm_id a = un_semid u \<and> un \<in> set (list_id a)
        \<and> length (semadj u) = sem_nsems a \<and> sem_ulps ?s (un_ulp u) = Some ul \<and> un \<in> set (ul_list ul)"
      by (rule exI [of _ p], rule exI [of _ a], rule exI [of _ x]) (use N(1-4) x in \<open>simp del: fun_upd_apply\<close>)
  next
    fix k x assume x: "sem_ulps ?s k = Some x"
    obtain x0 where x0: "sem_ulps s k = Some x0" "set (ul_list x) = set (ul_list x0)"
    proof (cases "k = l")
      case True
      then have "set (ul_list x) = set xs" using x by auto
      then show ?thesis using that [of ul] True ul unfolding xs(2) by simp
    qed (use that [of x] x in simp)
    show "distinct (ul_list x)" using x xs(1) owner_undos(1) [OF inv, of k x] by (cases "k = l") auto
    show "\<forall>un \<in> set (ul_list x). \<exists>u. sem_undos ?s un = Some u \<and> un_ulp u = k"
      unfolding x0(2) using owner_undos(2) [OF inv x0(1)] by simp
  qed (use array_undos [OF inv] in auto)
  show "undo_users A ?s"
    unfolding undo_users_def
  proof (intro conjI allI impI)
    fix t p q un assume h: "waits A ?s p t \<and> sem_stacks ?s t = Some q \<and> q_undo q = Some un"
    then have "waits A s p t" "sem_stacks s t = Some q" by (simp_all add: waits_def)
    from user_lists(3) [OF inv this] h show "\<exists>u a. sem_undos ?s un = Some u \<and> task_ulp ?s t = Some (un_ulp u)
        \<and> objs (sem_ids ?s) p = Some a \<and> un \<in> set (list_id a)" by simp
  qed (use user_lists(1,2) [OF inv] user_lists(2) [OF inv ul] in \<open>auto split: if_splits\<close>)
qed simp_all

lemma lookup_raw:
  assumes "sem_inv A s" "lookup_undo_raw s l semid = Some un"
  obtains u ul where "sem_ulps s l = Some ul" "un \<in> set (ul_list ul)" "sem_undos s un = Some u" "un_semid u = semid" "un_ulp u = l"
proof -
  obtain ul where ul: "sem_ulps s l = Some ul" "find (undo_for (sem_undos s) semid) (ul_list ul) = Some un"
    using assms(2) by (auto simp: lookup_undo_raw_def split: option.splits)
  then have "un \<in> set (ul_list ul)" "undo_for (sem_undos s) semid un" by (auto simp: find_Some_iff)
  then show thesis using that [OF ul(1)] owner_undos(2) [OF assms(1) ul(1), of un]
    by (auto simp: undo_for_def split: option.splits)
qed

lemma lookup_undo_inv:
  assumes inv: "sem_inv A s" and call: "lookup_undo s l semid = (s', r)"
  shows "sem_inv A s'" "sem_ids s' = sem_ids s" "sem_undos s' = sem_undos s" "sem_stacks s' = sem_stacks s"
    "task_ulp s' = task_ulp s" "sc_semopm s' = sc_semopm s"
    "r = Some un \<Longrightarrow> \<exists>u. sem_undos s un = Some u \<and> un_semid u = semid \<and> un_ulp u = l"
    "r = None \<Longrightarrow> s' = s \<and> lookup_undo_raw s l semid = None"
proof -
  show "sem_inv A s'"
  proof (cases "lookup_undo_raw s l semid")
    case None
    then show ?thesis using call inv by (simp add: lookup_undo_def)
  next
    case (Some un)
    obtain u ul where ul: "sem_ulps s l = Some ul" "un \<in> set (ul_list ul)" by (rule lookup_raw [OF inv Some])
    have d: "distinct (un # remove1 un (ul_list ul))" "set (un # remove1 un (ul_list ul)) = set (ul_list ul)"
      using owner_undos(1) [OF inv ul(1)] ul(2) by auto
    have "s' = s\<lparr>sem_ulps := (sem_ulps s)(l \<mapsto> ul\<lparr>ul_list := un # remove1 un (ul_list ul)\<rparr>)\<rparr>"
      using call Some ul(1) ul_update [of "\<lambda>xs. un # remove1 un xs" ul] by (simp add: lookup_undo_def)
    then show ?thesis using relist_inv [OF inv ul(1) d] by simp
  qed
  show "sem_ids s' = sem_ids s" "sem_undos s' = sem_undos s" "sem_stacks s' = sem_stacks s"
    "task_ulp s' = task_ulp s" "sc_semopm s' = sc_semopm s"
    using call by (auto simp: lookup_undo_def split: option.splits)
  show "\<exists>u. sem_undos s un = Some u \<and> un_semid u = semid \<and> un_ulp u = l" if "r = Some un"
  proof -
    have "lookup_undo_raw s l semid = Some un" using call that by (auto simp: lookup_undo_def split: option.splits)
    then show ?thesis using lookup_raw [OF inv] by blast
  qed
  show "s' = s \<and> lookup_undo_raw s l semid = None" if "r = None"
    using call that by (auto simp: lookup_undo_def split: option.splits)
qed

section \<open>A new structure\<close>

text \<open>A change of the list of one array and of undo structures that no waiter uses.\<close>

lemma relink_inv:
  assumes inv: "sem_inv A s" and a: "objs (sem_ids s) p = Some a"
    and ids: "sem_ids s' = upd_obj p (list_id_update g) (sem_ids s)"
    and st: "sem_stacks s' = sem_stacks s" "used_sems s' = used_sems s" and ok: "undos_ok (sem_undos s')"
    and us: "\<And>r t q un. \<lbrakk>waits A s r t; sem_stacks s t = Some q; q_undo q = Some un\<rbrakk> \<Longrightarrow> sem_undos s' un = sem_undos s un"
    and new: "undo_links s'" "undo_users A s'"
  shows "sem_inv A s'"
proof -
  note ip = inv_parts [OF inv]
  let ?a = "list_id_update g a"
  have o: "objs (sem_ids s') r = (if r = p then Some ?a else objs (sem_ids s) r)" for r
    using a by (simp add: ids)
  have w: "waits A s' r t \<longleftrightarrow> waits A s r t" for r t by (simp add: waits_def st)
  have arr: "arr_inv (view s' b)" if b: "objs (sem_ids s) r = Some b" for r b
    by (rule other_inv [OF inv_array(3) [OF inv b]]) (use ok us inv_array(4) [OF inv b] in \<open>simp_all add: st\<close>)
  have sv: "same_view (view s' a) (view s' ?a)" by (simp add: same_view_def)
  have arra: "arr_inv (view s' ?a)"
    using same_view_order [OF sv] arr [OF a] by (simp add: arr_inv_def mode_ok_def)
  have wa: "waiters ?a = waiters a" by (simp add: waiters_def alter_waiters_def const_waiters_def)
  have wf: "ids_wf (sem_ids s')" unfolding ids by (rule ids_wf_upd_obj [OF ip(1)]) (simp add: perm_core_def)
  obtain i where i: "map_of (ipcs_idr (sem_ids s)) i = Some p" by (rule linked_index [OF ip(1) inv_array(1) [OF inv a]])
  have sum: "table_sum (\<lambda>a. int (sem_nsems a)) (sem_ids s') = table_sum (\<lambda>a. int (sem_nsems a)) (sem_ids s)"
    using table_sum_split [OF ip(1) i a, of "sem_ids s'" ?a "\<lambda>a. int (sem_nsems a)"] a by (simp add: ids)
  show ?thesis
    unfolding sem_inv_def
  proof (intro conjI allI impI)
    fix r b assume b: "objs (sem_ids s') r = Some b"
    show "r \<in> snd ` set (ipcs_idr (sem_ids s'))" "perm_refcount b = 1"
      using b inv_array(1,2) [OF inv] a by (auto simp: o ids split: if_splits)
    show "arr_inv (view s' b)" using b [unfolded o] arr [of r b] arra by (cases "r = p") simp_all
    show "\<And>t. t \<in> set (waiters b) \<longleftrightarrow> waits A s' r t"
      using b inv_array(4) [OF inv] a wa w by (auto simp: o split: if_splits)
  next
    fix r t assume "waits A s' r t"
    then show "objs (sem_ids s') r \<noteq> None" using ip(6) [of r t] w by (simp add: o)
  next
    show "used_sems s' = table_sum (\<lambda>a. int (sem_nsems a)) (sem_ids s')" unfolding sum st(2) by (rule ip(4))
  qed (use wf ip(5) st(1) new in auto)
qed

lemma inv_undos_ok: "sem_inv A s \<Longrightarrow> objs (sem_ids s) p = Some a \<Longrightarrow> undos_ok (sem_undos s)"
  using inv_array(3) [of A s p a] by (simp add: arr_inv_def in_order_def work_ok_def)

lemma link_inv:
  assumes inv: "sem_inv A s" and a: "objs (sem_ids s) p = Some a" and new: "sem_undos s new = None" and ul: "sem_ulps s l = Some ul"
  shows "sem_inv A (link_undo s p l (perm_id a) new (sem_nsems a))" (is "sem_inv A ?s")
proof -
  let ?u = "\<lparr>un_ulp = l, un_semid = perm_id a, semadj = replicate (sem_nsems a) 0\<rparr>"
  let ?a = "a\<lparr>list_id := new # list_id a\<rparr>"
  define s' where "s' = ?s"
  have f: "sem_undos s' = (sem_undos s)(new \<mapsto> ?u)" "sem_ulps s' = (sem_ulps s)(l \<mapsto> ul\<lparr>ul_list := new # ul_list ul\<rparr>)"
    "task_ulp s' = task_ulp s" "sem_stacks s' = sem_stacks s" "used_sems s' = used_sems s"
    "sem_ids s' = upd_obj p (list_id_update (\<lambda>xs. new # xs)) (sem_ids s)"
  proof -
    show "sem_ulps s' = (sem_ulps s)(l \<mapsto> ul\<lparr>ul_list := new # ul_list ul\<rparr>)"
      using ul by (cases ul) (simp add: s'_def link_undo_def)
  qed (simp_all add: s'_def link_undo_def)
  have o: "objs (sem_ids s') r = (if r = p then Some ?a else objs (sem_ids s) r)" for r
    using a by (simp add: f)
  have nl: "new \<notin> set (list_id b)" if "objs (sem_ids s) r = Some b" for r b
    using array_undos(2) [OF inv that, of new] new by auto
  have no: "new \<notin> set (ul_list x)" if "sem_ulps s k = Some x" for k x
    using owner_undos(2) [OF inv that, of new] new by auto
  have "undo_links s'"
    unfolding undo_links_def
  proof (intro conjI allI impI)
    fix un u assume u: "sem_undos s' un = Some u"
    show "\<exists>p a ul. objs (sem_ids s') p = Some a \<and> perm_id a = un_semid u \<and> un \<in> set (list_id a)
        \<and> length (semadj u) = sem_nsems a \<and> sem_ulps s' (un_ulp u) = Some ul \<and> un \<in> set (ul_list ul)"
    proof (cases "un = new")
      case True
      then have "u = ?u" using u by (simp add: f)
      then show ?thesis using True by (intro exI [of _ p] exI [of _ ?a] exI [of _ "ul\<lparr>ul_list := new # ul_list ul\<rparr>"]) (simp add: o f(1,2))
    next
      case False
      then have u0: "sem_undos s un = Some u" using u by (simp add: f)
      obtain r b ul' where b: "objs (sem_ids s) r = Some b" "perm_id b = un_semid u" "un \<in> set (list_id b)"
        "length (semadj u) = sem_nsems b" "sem_ulps s (un_ulp u) = Some ul'" "un \<in> set (ul_list ul')" by (rule undo_dest [OF inv u0])
      have x: "\<exists>x. sem_ulps s' (un_ulp u) = Some x \<and> un \<in> set (ul_list x)" using b(5,6) ul by (auto simp: f)
      moreover have "\<exists>b'. objs (sem_ids s') r = Some b' \<and> perm_id b' = un_semid u \<and> un \<in> set (list_id b') \<and> length (semadj u) = sem_nsems b'"
        using b a by (auto simp: o)
      ultimately show ?thesis by blast
    qed
  next
    fix r b assume "objs (sem_ids s') r = Some b"
    then obtain b0 where b0: "objs (sem_ids s) r = Some b0" "list_id b = (if r = p then new # list_id b0 else list_id b0)" "perm_id b = perm_id b0"
      using a by (auto simp: o split: if_splits)
    show "distinct (list_id b)" using b0 array_undos(1) [OF inv b0(1)] nl [OF b0(1)] by simp
    show "\<forall>un \<in> set (list_id b). \<exists>u. sem_undos s' un = Some u \<and> un_semid u = perm_id b"
      using b0 array_undos(2) [OF inv b0(1)] a nl [OF b0(1)] by (auto simp: f split: if_splits)
  next
    fix k x assume x: "sem_ulps s' k = Some x"
    then obtain x0 where x0: "sem_ulps s k = Some x0" "ul_list x = (if k = l then new # ul_list x0 else ul_list x0)"
      using ul by (auto simp: f split: if_splits)
    show "distinct (ul_list x)" using x0 owner_undos(1) [OF inv x0(1)] no [OF x0(1)] by simp
    show "\<forall>un \<in> set (ul_list x). \<exists>u. sem_undos s' un = Some u \<and> un_ulp u = k"
      using x0 owner_undos(2) [OF inv x0(1)] no [OF x0(1)] by (auto simp: f split: if_splits)
  qed
  moreover have "undo_users A s'"
    unfolding undo_users_def
  proof (intro conjI allI impI)
    fix t r q un assume h: "waits A s' r t \<and> sem_stacks s' t = Some q \<and> q_undo q = Some un"
    then have "waits A s r t" "sem_stacks s t = Some q" by (simp_all add: waits_def f)
    from user_lists(3) [OF inv this] h new a show "\<exists>u a. sem_undos s' un = Some u \<and> task_ulp s' t = Some (un_ulp u)
        \<and> objs (sem_ids s') r = Some a \<and> un \<in> set (list_id a)" by (fastforce simp: f(1,3) o)
  qed (use user_lists(1,2) [OF inv] user_lists(2) [OF inv ul] in \<open>auto simp: f split: if_splits\<close>)
  moreover have "sem_undos s' un = sem_undos s un" if "waits A s r t" "sem_stacks s t = Some q" "q_undo q = Some un" for r t q un
    using user_lists(3) [OF inv that] new by (auto simp: f)
  moreover have "undos_ok (sem_undos s')"
    using inv_undos_ok [OF inv a] by (auto simp: f undos_ok_def short_range_def)
  ultimately have "sem_inv A s'" by (intro relink_inv [OF inv a f(6,4,5)])
  then show ?thesis by (simp add: s'_def)
qed

lemma link_lock: "link_undo (sma_lock p s) p l semid un n = sma_lock p (link_undo s p l semid un n)"
proof -
  have "list_id_update f (complexmode_enter a) = complexmode_enter (list_id_update f a)" for f and a :: sem_array
    by (cases a) (simp add: complexmode_enter_def)
  then show ?thesis by (simp add: link_undo_def sma_lock_def sem_lock_def upd_sma_def o_def)
qed

lemma link_fields:
  "sem_stacks (link_undo s p l semid un n) = sem_stacks s" "task_ulp (link_undo s p l semid un n) = task_ulp s"
  "sem_undos (link_undo s p l semid un n) = (sem_undos s)(un \<mapsto> \<lparr>un_ulp = l, un_semid = semid, semadj = replicate n 0\<rparr>)"
  "objs (sem_ids s) p = Some a \<Longrightarrow> objs (sem_ids (link_undo s p l semid un n)) p = Some (list_id_update (\<lambda>xs. un # xs) a)"
  by (simp_all add: link_undo_def)

lemma lock_fields:
  "sem_stacks (sma_lock p s) = sem_stacks s" "task_ulp (sma_lock p s) = task_ulp s" "sem_undos (sma_lock p s) = sem_undos s"
  "sem_ulps (sma_lock p s) = sem_ulps s"
  "sem_stacks (sma_unlock p k s) = sem_stacks s" "task_ulp (sma_unlock p k s) = task_ulp s" "sem_undos (sma_unlock p k s) = sem_undos s"
  by (simp_all add: sma_lock_def sma_unlock_def)

lemma lookup_lock: "lookup_undo_raw (sma_lock p s) l semid = lookup_undo_raw s l semid"
  by (cases "sem_ulps s l") (simp_all add: lookup_undo_raw_def lock_fields)

lemma find_alloc_undo_inv:
  assumes inv: "sem_inv A s" and k: "kmalloc_ok (se_new e)" and call: "find_alloc_undo e s semid = (s', r)"
  shows "sem_inv A s' \<and> sem_stacks s' = sem_stacks s
    \<and> (\<forall>un. r = Inr un \<longrightarrow> (\<exists>u. sem_undos s' un = Some u \<and> un_semid u = semid
          \<and> task_ulp s' (cur_task (se_task e)) = Some (un_ulp u)))"
proof -
  obtain s1 r1 where g: "get_undo_list e s = (s1, r1)" by fastforce
  note G = get_undo_list_inv [OF inv k g]
  show ?thesis
  proof (cases r1)
    case (Inl err)
    then show ?thesis using call g G(1,5) by (auto simp: find_alloc_undo_def)
  next
    case (Inr l)
    then have l: "task_ulp s1 (cur_task (se_task e)) = Some l" by (rule G(2))
    obtain ul where ul: "sem_ulps s1 l = Some ul" using user_lists(1) [OF G(1) l] by blast
    obtain s2 r2 where lk: "lookup_undo s1 l semid = (s2, r2)" by fastforce
    note L = lookup_undo_inv [OF G(1) lk]
    show ?thesis
    proof (cases r2)
      case (Some un)
      then have "s' = s2" "r = Inr un" using call g Inr lk by (simp_all add: find_alloc_undo_def)
      then show ?thesis using L(1,3,4,5) L(7) [OF Some] G(5) l by auto
    next
      case None
      then have s2: "s2 = s1" and raw: "lookup_undo_raw s1 l semid = None" using L(8) by blast+
      have lk1: "lookup_undo s1 l semid = (s1, None)" using lk s2 None by simp
      show ?thesis
      proof (cases "sem_obtain_object_check s1 semid")
        case (Inl err)
        then show ?thesis using call g Inr lk1 G(1,5) by (auto simp: find_alloc_undo_def)
      next
        case p: (Inr p)
        obtain a where a: "objs (sem_ids s1) p = Some a" "perm_id a = semid" by (rule inv_obtain [OF G(1) p])
        obtain ids ok where gr: "ipc_rcu_getref (sem_ids s1) p = (ids, ok)" by fastforce
        note R = getref_putref [OF a(1) inv_array(2) [OF G(1) a(1)] gr]
        show ?thesis
        proof (cases "se_new e (\<lambda>un. sem_undos s1 un \<noteq> None)")
          case None
          then have "s' = s1" "r = Inl ENOMEM"
            using call g Inr lk1 p a(1) gr R(1,2) by (simp_all add: find_alloc_undo_def Let_def)
          then show ?thesis using G(1,5) by simp
        next
          case (Some new)
          have fresh: "sem_undos s1 new = None" by (rule kmalloc_fresh [OF k Some])
          let ?k = "link_undo s1 p l semid new (sem_nsems a)"
          have "lookup_undo (sma_lock p s1) l semid = (sma_lock p s1, None)"
            using raw by (simp add: lookup_undo_def lookup_lock)
          then have s': "s' = sma_unlock p (-1) (sma_lock p ?k)" "r = Inr new"
            using call g Inr lk1 p a(1) gr R(1,3) Some inv_valid(2) [OF G(1) a(1)]
            by (simp_all add: find_alloc_undo_def Let_def link_lock)
          have "sem_inv A ?k" using link_inv [OF G(1) a(1) fresh ul] a(2) by simp
          then have "sem_inv A s'"
            unfolding s'(1) by (rule sma_lock_unlock_keeps) (rule link_fields(4) [OF a(1)])
          then show ?thesis using s' G(5) l by (simp add: lock_fields link_fields)
        qed
      qed
    qed
  qed
qed

section \<open>Clone and exit of the users of a list\<close>

lemma users_inv:
  assumes inv: "sem_inv A s" and t: "A t = None" and ul: "sem_ulps s l = Some ul"
    and users: "\<And>k. {x. tu x = Some k} = (if k = l then X else {x. task_ulp s x = Some k})"
    and X: "finite X" "n = card X" and same: "\<And>x. x \<noteq> t \<Longrightarrow> tu x = task_ulp s x"
  shows "sem_inv A (s\<lparr>sem_ulps := (sem_ulps s)(l \<mapsto> ul\<lparr>ul_refcnt := n\<rparr>), task_ulp := tu\<rparr>)" (is "sem_inv A ?s")
proof (rule lists_inv [OF inv])
  show "undo_links ?s"
    unfolding undo_links_def
  proof (intro conjI allI impI)
    fix un u assume "sem_undos ?s un = Some u"
    then have u: "sem_undos s un = Some u" by simp
    obtain p a ul' where N: "objs (sem_ids s) p = Some a" "perm_id a = un_semid u" "un \<in> set (list_id a)"
      "length (semadj u) = sem_nsems a" "sem_ulps s (un_ulp u) = Some ul'" "un \<in> set (ul_list ul')" by (rule undo_dest [OF inv u])
    obtain x where x: "sem_ulps ?s (un_ulp u) = Some x" "un \<in> set (ul_list x)"
      using N(5,6) ul by (cases "un_ulp u = l") auto
    show "\<exists>p a ul. objs (sem_ids ?s) p = Some a \<and> perm_id a = un_semid u \<and> un \<in> set (list_id a)
        \<and> length (semadj u) = sem_nsems a \<and> sem_ulps ?s (un_ulp u) = Some ul \<and> un \<in> set (ul_list ul)"
      by (rule exI [of _ p], rule exI [of _ a], rule exI [of _ x]) (use N(1-4) x in \<open>simp del: fun_upd_apply\<close>)
  next
    fix k x assume "sem_ulps ?s k = Some x"
    then obtain x0 where x0: "sem_ulps s k = Some x0" "ul_list x = ul_list x0" using ul by (cases "k = l") auto
    show "distinct (ul_list x)" "\<forall>un \<in> set (ul_list x). \<exists>u. sem_undos ?s un = Some u \<and> un_ulp u = k"
      unfolding x0(2) using owner_undos [OF inv x0(1)] by simp_all
  qed (use array_undos [OF inv] in auto)
  show "undo_users A ?s"
    unfolding undo_users_def
  proof (intro conjI allI impI)
    fix x k assume "task_ulp ?s x = Some k"
    then have "k = l \<or> task_ulp s x = Some k" using users [of k] by (auto split: if_splits)
    then show "sem_ulps ?s k \<noteq> None" using user_lists(1) [OF inv, of x k] by auto
  next
    fix k x assume "sem_ulps ?s k = Some x"
    then show "finite {t. task_ulp ?s t = Some k}" "ul_refcnt x = card {t. task_ulp ?s t = Some k}"
      using users [of k] X user_lists(2) [OF inv, of k x] by (auto split: if_splits)
  next
    fix x p q un assume h: "waits A ?s p x \<and> sem_stacks ?s x = Some q \<and> q_undo q = Some un"
    then have w: "waits A s p x" "sem_stacks s x = Some q" by (simp_all add: waits_def)
    then have "x \<noteq> t" using t by (auto simp: waits_def)
    then show "\<exists>u a. sem_undos ?s un = Some u \<and> task_ulp ?s x = Some (un_ulp u)
        \<and> objs (sem_ids ?s) p = Some a \<and> un \<in> set (list_id a)" using user_lists(3) [OF inv w, of un] h same [of x] by simp
  qed
qed simp_all

text \<open>\<open>tsk\<close> is the new task.\<close>

lemma copy_semundo_inv:
  assumes inv: "sem_inv A s" and k: "kmalloc_ok (se_new e)" and new: "A tsk = None" "task_ulp s tsk = None" "tsk \<noteq> cur_task (se_task e)"
    and call: "copy_semundo e flags tsk s = (s', r)"
  shows "sem_inv A s'"
proof (cases "flags AND CLONE_SYSVSEM \<noteq> 0")
  case False
  have "s\<lparr>task_ulp := (task_ulp s)(tsk := None)\<rparr> = s" using new(2) by (simp add: fun_upd_idem_iff)
  then show ?thesis using call inv False by (simp add: copy_semundo_def)
next
  case True
  obtain s1 r1 where g: "get_undo_list e s = (s1, r1)" by fastforce
  note G = get_undo_list_inv [OF inv k g]
  show ?thesis
  proof (cases r1)
    case (Inl err)
    then show ?thesis using call g G(1) True by (simp add: copy_semundo_def)
  next
    case (Inr l)
    then have l: "task_ulp s1 (cur_task (se_task e)) = Some l" by (rule G(2))
    obtain ul where ul: "sem_ulps s1 l = Some ul" using user_lists(1) [OF G(1) l] by blast
    have no: "task_ulp s1 tsk = None" using G(7) [of tsk] new(2,3) by simp
    have "s' = s1\<lparr>sem_ulps := (sem_ulps s1)(l \<mapsto> ul\<lparr>ul_refcnt := Suc (ul_refcnt ul)\<rparr>), task_ulp := (task_ulp s1)(tsk \<mapsto> l)\<rparr>"
      using call g Inr True ul by (cases ul) (simp add: copy_semundo_def)
    moreover have "sem_inv A (s1\<lparr>sem_ulps := (sem_ulps s1)(l \<mapsto> ul\<lparr>ul_refcnt := Suc (ul_refcnt ul)\<rparr>), task_ulp := (task_ulp s1)(tsk \<mapsto> l)\<rparr>)"
      by (rule users_inv [OF G(1) new(1) ul, where X = "insert tsk {x. task_ulp s1 x = Some l}"])
        (use no user_lists(2) [OF G(1) ul] in auto)
    ultimately show ?thesis by simp
  qed
qed

end
