(* ===== verification/SemExit.thy ===== *)
theory SemExit
  imports SemUndo
begin

text \<open>
  The exit of a task (\<^verbatim>\<open>exit_sem_impl\<close>): the last user of an undo list walks it, applies every
  adjustment to its array, wakes who can go on and frees the structure. In a namespace that
  keeps the invariant every structure of the list resolves, so the loop ends after as many
  rounds as the list has entries.
\<close>

section \<open>A structure leaves its lists\<close>

definition forget_undo :: "ptr \<Rightarrow> ptr \<Rightarrow> ptr \<Rightarrow> sem_ns \<Rightarrow> sem_ns" where
  "forget_undo p l un s =
     (upd_sma p (list_id_update (remove1 un)) s)
       \<lparr>sem_ulps := (sem_ulps s)(l := map_option (ul_list_update (remove1 un)) (sem_ulps s l)),
        sem_undos := (sem_undos s)(un := None)\<rparr>"

lemma forget_inv:
  assumes inv: "sem_inv A s" and u: "sem_undos s un = Some u" and a: "objs (sem_ids s) p = Some a" "perm_id a = un_semid u"
    and nobody: "\<And>r t q. \<lbrakk>waits A s r t; sem_stacks s t = Some q\<rbrakk> \<Longrightarrow> q_undo q \<noteq> Some un"
  shows "sem_inv A (forget_undo p (un_ulp u) un s)"
proof -
  define s' where "s' = forget_undo p (un_ulp u) un s"
  have f: "sem_undos s' = (sem_undos s)(un := None)"
    "sem_ulps s' k = (if k = un_ulp u then map_option (ul_list_update (remove1 un)) (sem_ulps s k) else sem_ulps s k)"
    "task_ulp s' = task_ulp s" "sem_stacks s' = sem_stacks s" "used_sems s' = used_sems s"
    "sem_ids s' = upd_obj p (list_id_update (remove1 un)) (sem_ids s)" for k
    by (simp_all add: s'_def forget_undo_def)
  have o: "objs (sem_ids s') r = (if r = p then Some (list_id_update (remove1 un) a) else objs (sem_ids s) r)" for r
    using a by (simp add: f)
  have up: "r = p" if "objs (sem_ids s) r = Some b" "un \<in> set (list_id b)" for r b
    by (rule inv_list_disjoint [OF inv that(1) a(1) that(2) undo_on_array(1) [OF inv u a]])
  have ul: "k = un_ulp u" if "sem_ulps s k = Some x" "un \<in> set (ul_list x)" for k x
    using owner_undos(2) [OF inv that] u by simp
  have "undo_links s'"
    unfolding undo_links_def
  proof (intro conjI allI impI)
    fix v w assume w: "sem_undos s' v = Some w"
    then have v: "v \<noteq> un" "sem_undos s v = Some w" by (simp_all add: f(1) split: if_splits)
    obtain r b x where b: "objs (sem_ids s) r = Some b" "perm_id b = un_semid w" "v \<in> set (list_id b)"
      "length (semadj w) = sem_nsems b" "sem_ulps s (un_ulp w) = Some x" "v \<in> set (ul_list x)" by (rule undo_dest [OF inv v(2)])
    have "\<exists>y. sem_ulps s' (un_ulp w) = Some y \<and> v \<in> set (ul_list y)" using b(5,6) v(1) by (cases "un_ulp w = un_ulp u") (auto simp: f(2))
    moreover have "\<exists>b'. objs (sem_ids s') r = Some b' \<and> perm_id b' = un_semid w \<and> v \<in> set (list_id b') \<and> length (semadj w) = sem_nsems b'"
      using b v(1) a(1) by (cases "r = p") (auto simp: o)
    ultimately show "\<exists>p a ul. objs (sem_ids s') p = Some a \<and> perm_id a = un_semid w \<and> v \<in> set (list_id a)
        \<and> length (semadj w) = sem_nsems a \<and> sem_ulps s' (un_ulp w) = Some ul \<and> v \<in> set (ul_list ul)" by blast
  next
    fix r b assume "objs (sem_ids s') r = Some b"
    then obtain b0 where b0: "objs (sem_ids s) r = Some b0" "perm_id b = perm_id b0"
      "list_id b = (if r = p then remove1 un (list_id b0) else list_id b0)"
      using a(1) by (auto simp: o split: if_splits)
    note d = array_undos [OF inv b0(1)]
    show "distinct (list_id b)" using d(1) b0(3) by simp
    have "set (list_id b) = set (list_id b0) - {un}" using b0(3) d(1) up [OF b0(1)] by auto
    then show "\<forall>v \<in> set (list_id b). \<exists>w. sem_undos s' v = Some w \<and> un_semid w = perm_id b"
      using d(2) b0(2) by (auto simp: f(1))
  next
    fix k x assume "sem_ulps s' k = Some x"
    then obtain x0 where x0: "sem_ulps s k = Some x0" "ul_list x = (if k = un_ulp u then remove1 un (ul_list x0) else ul_list x0)"
      by (auto simp: f(2) split: if_splits)
    note d = owner_undos [OF inv x0(1)]
    show "distinct (ul_list x)" using d(1) x0(2) by simp
    have "set (ul_list x) = set (ul_list x0) - {un}" using x0(2) d(1) ul [OF x0(1)] by auto
    then show "\<forall>v \<in> set (ul_list x). \<exists>w. sem_undos s' v = Some w \<and> un_ulp w = k"
      using d(2) by (auto simp: f(1))
  qed
  moreover have "undo_users A s'"
    unfolding undo_users_def
  proof (intro conjI allI impI)
    fix t k assume "task_ulp s' t = Some k"
    then show "sem_ulps s' k \<noteq> None" using user_lists(1) [OF inv, of t k] by (auto simp: f(2,3))
  next
    fix k x assume "sem_ulps s' k = Some x"
    then obtain x0 where "sem_ulps s k = Some x0" "ul_refcnt x = ul_refcnt x0" by (auto simp: f(2) split: if_splits)
    then show "finite {t. task_ulp s' t = Some k}" "ul_refcnt x = card {t. task_ulp s' t = Some k}"
      using user_lists(2) [OF inv] by (auto simp: f(3))
  next
    fix t r q v assume h: "waits A s' r t \<and> sem_stacks s' t = Some q \<and> q_undo q = Some v"
    then have w: "waits A s r t" "sem_stacks s t = Some q" by (simp_all add: waits_def f(4))
    then have "v \<noteq> un" using nobody h by blast
    then show "\<exists>u a. sem_undos s' v = Some u \<and> task_ulp s' t = Some (un_ulp u) \<and> objs (sem_ids s') r = Some a \<and> v \<in> set (list_id a)"
      using user_lists(3) [OF inv w, of v] h a(1) by (auto simp: f(1,3) o)
  qed
  moreover have "sem_undos s' v = sem_undos s v" if "waits A s r t" "sem_stacks s t = Some q" "q_undo q = Some v" for r t q v
    using nobody [OF that(1,2)] that(3) by (auto simp: f(1))
  moreover have "undos_ok (sem_undos s')"
    using inv_undos_ok [OF inv a(1)] by (auto simp: f(1) undos_ok_def)
  ultimately show ?thesis unfolding s'_def [symmetric] by (intro relink_inv [OF inv a(1) f(6,4,5)])
qed

section \<open>One round of the loop\<close>

lemma inv_id_nonneg:
  assumes "sem_inv A s" "objs (sem_ids s) p = Some a"
  shows "0 \<le> perm_id a"
proof -
  have wf: "ids_wf (sem_ids s)" by (rule inv_parts(1) [OF assms(1)])
  obtain i where i: "map_of (ipcs_idr (sem_ids s)) i = Some p" by (rule linked_index [OF wf inv_array(1) [OF assms]])
  obtain q where "objs (sem_ids s) p = Some q" "perm_id q = perm_seq q * 32768 + i" "0 \<le> perm_seq q" "0 \<le> i"
    by (rule ids_wf_entry [OF wf i])
  then show ?thesis using assms(2) by simp
qed

lemma sec_rel_forget:
  assumes "sec_rel {} U w v"
  shows "sec_rel {} U (w\<lparr>sw_undos := (sw_undos w)(un := None)\<rparr>) (v\<lparr>sw_undos := (sw_undos v)(un := None)\<rparr>)"
proof -
  have "undo_shape (f(un := None)) = (undo_shape f)(un := None)" for f by (auto simp: undo_shape_def)
  then show ?thesis using assms by (auto simp: sec_rel_def undo_same_def)
qed

text \<open>The task has left its list, and nobody waits with it; the head of the list goes.\<close>

lemma exit_round:
  assumes inv: "sem_inv A s" and gone: "\<And>t. task_ulp s t \<noteq> Some l"
    and ul: "sem_ulps s l = Some ul" "ul_list ul = un # uns"
  shows "\<exists>s' w. exit_sem_loop (Suc n) e l s wake = exit_sem_loop n e l s' (wake @ w) \<and> sem_inv A s'
      \<and> task_ulp s' = task_ulp s \<and> (\<exists>ul'. sem_ulps s' l = Some ul' \<and> ul_list ul' = uns)"
proof -
  obtain u where u: "sem_undos s un = Some u" "un_ulp u = l" using owner_undos(2) [OF inv ul(1)] ul(2) by auto
  obtain p a ul' where a: "objs (sem_ids s) p = Some a" "perm_id a = un_semid u" "un \<in> set (list_id a)" by (rule undo_dest [OF inv u(1)])
  have wf: "ids_wf (sem_ids s)" by (rule inv_parts(1) [OF inv])
  obtain i where i: "map_of (ipcs_idr (sem_ids s)) i = Some p" by (rule linked_index [OF wf inv_array(1) [OF inv a(1)]])
  have obt: "sem_obtain_object_check s (un_semid u) = Inr p"
    using obtain_check_entry [OF wf i a(1)] a(2) by (simp add: sem_obtain_object_check_def)
  have pos: "un_semid u \<noteq> -1"
    using inv_id_nonneg [OF inv a(1)] a(2) by simp
  have raw: "lookup_undo_raw (sma_lock p s) l (un_semid u) = Some un"
    unfolding lookup_lock using ul u(1) by (simp add: lookup_undo_raw_def undo_for_def)
  have nobody: "q_undo q \<noteq> Some un" if "waits A s r t" "sem_stacks s t = Some q" for r t q
    using user_lists(3) [OF inv that, of un] u gone [of t] by auto
  define s1 where "s1 = forget_undo p l un s"
  have inv1: "sem_inv A s1"
    unfolding s1_def u(2) [symmetric] by (rule forget_inv [OF inv u(1) a(1,2)]) (rule nobody)
  let ?a1 = "list_id_update (remove1 un) a"
  have a1: "objs (sem_ids s1) p = Some ?a1" using a(1) by (simp add: s1_def forget_undo_def)
  let ?f = "exit_section (clock_seconds (se_task e)) (cur_tgid (se_task e)) un"
  let ?x = "?f (fst (sw_lock None (view s a)))"
  let ?y = "?x\<lparr>sw_undos := (sw_undos ?x)(un := None)\<rparr>"
  let ?U = "set (list_id a) - {un}"
  have us: "undos_of (set (waiters (sw_sma (view s a)))) ?U (view s a)"
    using inv_undos_of [OF inv a(1)] nobody inv_array(4) [OF inv a(1)] by (fastforce simp: undos_of_def)
  note ai = inv_array(3) [OF inv a(1)]
  have sx: "sec_rel {} ?U (drop_undo un (view s a)) ?x" by (rule exit_sec [OF ai global_lock us])
  have U1: "set (list_id ?a1) = ?U" using array_undos(1) [OF inv a(1)] by simp
  have v1: "view s1 ?a1 = (drop_undo un (view s a))\<lparr>sw_undos := (sem_undos s)(un := None)\<rparr>"
    by (simp add: view_def s1_def forget_undo_def drop_undo_def)
  have sy: "sec_rel {} (set (list_id ?a1)) (view s1 ?a1) ?y"
    using sec_rel_forget [OF sx, of un] unfolding U1 v1 by (simp add: drop_undo_def)
  have ax: "arr_inv ?x" by (rule exit_inv [OF ai global_lock])
  have ay: "arr_inv ?y"
  proof (rule undo_inv [OF ax])
    show "undos_ok ((sw_undos ?x)(un := None))"
      using ax by (auto simp: arr_inv_def in_order_def work_ok_def undos_ok_def)
    fix t q v assume t: "t \<in> set (waiters (sw_sma ?x))" "sw_stacks ?x t = Some q" "q_undo q = Some v"
    have "set (waiters (sw_sma ?x)) \<subseteq> set (waiters a)"
      using sx by (auto simp: sec_rel_def drop_undo_def waiters_def alter_waiters_def const_waiters_def)
    then have ta: "t \<in> set (waiters a)" using t(1) by blast
    have "st_base (sw_stacks ?x) t = st_base (sem_stacks s) t" using sx by (simp add: sec_rel_def drop_undo_def)
    then obtain q0 where q0: "sem_stacks s t = Some q0" "q_base q0 = q_base q"
      using t(2) by (cases "sem_stacks s t") (simp_all add: st_base_def)
    have "v \<noteq> un"
      using nobody [of p t q0] ta inv_array(4) [OF inv a(1)] q0 q_base_eq [OF q0(2)] t(3) by auto
    then show "((sw_undos ?x)(un := None)) v = sw_undos ?x v" by simp
  qed
  define s' where "s' = put_work p ?y s1"
  have inv': "sem_inv A s'" unfolding s'_def by (rule section_keeps [OF inv1 a1 sy ay])
  have "exit_sem_loop (Suc n) e l s wake = exit_sem_loop n e l s' (wake @ sw_wake ?x)"
  proof -
    let ?r = "\<lambda>s. s\<lparr>sem_ulps := (sem_ulps s)(l := map_option (ul_list_update (remove1 un)) (sem_ulps s l))\<rparr>"
    have rl: "?r (sma_lock p s) = sma_lock p (?r s)" by (simp add: sma_lock_def upd_sma_def)
    have ar: "objs (sem_ids (?r s)) p = Some a" using a(1) by simp
    have vr: "view (?r s) a = view s a" by (simp add: view_def)
    have run: "run_work p ?f (sma_lock p (?r s)) = (put_work p ?x (?r s), sw_wake ?x)"
      using run_work_lock [OF ar, of ?f] unfolding vr .
    have fin: "(put_work p ?x (?r s))\<lparr>sem_undos := (sem_undos (put_work p ?x (?r s)))(un := None)\<rparr> = s'"
      by (simp add: s'_def s1_def forget_undo_def put_work_def upd_sma_def o_def)
    show ?thesis
      using ul u(1) pos obt inv_valid(2) [OF inv a(1)] raw rl run fin
      by (simp add: exit_sem_loop.simps(2) Let_def)
  qed
  moreover have "task_ulp s' = task_ulp s" "\<exists>ul'. sem_ulps s' l = Some ul' \<and> ul_list ul' = uns"
    using ul by (simp_all add: s'_def s1_def forget_undo_def)
  ultimately show ?thesis using inv' by blast
qed

section \<open>The loop and the call\<close>

lemma exit_loop:
  assumes "sem_inv A s" "\<And>t. task_ulp s t \<noteq> Some l" "sem_ulps s l = Some ul" "length (ul_list ul) < fuel"
  shows "\<exists>s' w. exit_sem_loop fuel e l s wake = Some (s', w) \<and> sem_inv A s' \<and> task_ulp s' = task_ulp s
    \<and> (\<exists>ul'. sem_ulps s' l = Some ul' \<and> ul_list ul' = [])"
  using assms
proof (induction "ul_list ul" arbitrary: s ul fuel wake)
  case Nil
  then obtain n where "fuel = Suc n" by (cases fuel) auto
  then show ?case using Nil by (simp add: exit_sem_loop.simps(2))
next
  case (Cons un uns)
  then obtain n where n: "fuel = Suc n" "length uns < n" by (cases fuel) (auto simp: Cons.hyps(2) [symmetric])
  obtain s' w ul' where r: "exit_sem_loop fuel e l s wake = exit_sem_loop n e l s' (wake @ w)" "sem_inv A s'"
    "task_ulp s' = task_ulp s" "sem_ulps s' l = Some ul'" "ul_list ul' = uns"
    using exit_round [OF Cons.prems(1,2,3) Cons.hyps(2) [symmetric], of n e wake] n(1) by metis
  have "\<And>t. task_ulp s' t \<noteq> Some l" using Cons.prems(2) r(3) by simp
  from Cons.hyps(1) [OF r(5) [symmetric] r(2) this r(4), of n "wake @ w"] n(2) show ?case
    unfolding r(1,3,5) by simp
qed

text \<open>An empty list without a user is freed.\<close>

lemma drop_list_inv:
  assumes inv: "sem_inv A s" and gone: "\<And>t. task_ulp s t \<noteq> Some l" and ul: "sem_ulps s l = Some ul" "ul_list ul = []"
  shows "sem_inv A (s\<lparr>sem_ulps := (sem_ulps s)(l := None)\<rparr>)" (is "sem_inv A ?s")
proof (rule lists_inv [OF inv])
  show "undo_links ?s"
    unfolding undo_links_def
  proof (intro conjI allI impI)
    fix un u assume "sem_undos ?s un = Some u"
    then have u: "sem_undos s un = Some u" by simp
    obtain p a x where N: "objs (sem_ids s) p = Some a" "perm_id a = un_semid u" "un \<in> set (list_id a)"
      "length (semadj u) = sem_nsems a" "sem_ulps s (un_ulp u) = Some x" "un \<in> set (ul_list x)" by (rule undo_dest [OF inv u])
    then have "un_ulp u \<noteq> l" using ul by auto
    then show "\<exists>p a ul. objs (sem_ids ?s) p = Some a \<and> perm_id a = un_semid u \<and> un \<in> set (list_id a)
        \<and> length (semadj u) = sem_nsems a \<and> sem_ulps ?s (un_ulp u) = Some ul \<and> un \<in> set (ul_list ul)"
      using N by (intro exI [of _ p] exI [of _ a] exI [of _ x]) simp
  qed (use array_undos [OF inv] owner_undos [OF inv] in \<open>auto split: if_splits\<close>)
  show "undo_users A ?s"
    unfolding undo_users_def
  proof (intro conjI allI impI)
    fix t k assume "task_ulp ?s t = Some k"
    then show "sem_ulps ?s k \<noteq> None" using user_lists(1) [OF inv, of t k] gone [of t] by auto
  next
    fix k x assume "sem_ulps ?s k = Some x"
    then show "finite {t. task_ulp ?s t = Some k}" "ul_refcnt x = card {t. task_ulp ?s t = Some k}"
      using user_lists(2) [OF inv, of k x] by (auto split: if_splits)
  next
    fix t r q v assume h: "waits A ?s r t \<and> sem_stacks ?s t = Some q \<and> q_undo q = Some v"
    then have "waits A s r t" "sem_stacks s t = Some q" by (simp_all add: waits_def)
    from user_lists(3) [OF inv this, of v] h show "\<exists>u a. sem_undos ?s v = Some u \<and> task_ulp ?s t = Some (un_ulp u)
        \<and> objs (sem_ids ?s) r = Some a \<and> v \<in> set (list_id a)" by simp
  qed
qed simp_all

text \<open>
  The exit of a task that does not sleep. The fuel covers the structures of its list; the list
  and its structures go with the last user.
\<close>

definition undo_count :: "sem_ns \<Rightarrow> nat \<Rightarrow> nat" where
  "undo_count s t = (case task_ulp s t of None \<Rightarrow> 0 | Some l \<Rightarrow>
     (case sem_ulps s l of None \<Rightarrow> 0 | Some ul \<Rightarrow> length (ul_list ul)))"

lemma exit_impl:
  assumes inv: "sem_inv A s" and t: "A tsk = None" and fuel: "undo_count s tsk < fuel"
  shows "\<exists>s' w. exit_sem_impl fuel e tsk s = Some (s', w) \<and> sem_inv A s' \<and> task_ulp s' = (task_ulp s)(tsk := None)
    \<and> (\<forall>l. task_ulp s tsk = Some l \<longrightarrow> {x. task_ulp s x = Some l} = {tsk} \<longrightarrow>
         sem_ulps s' l = None \<and> (\<forall>un u. sem_undos s' un = Some u \<longrightarrow> un_ulp u \<noteq> l))"
proof (cases "task_ulp s tsk")
  case None
  moreover from this have "(task_ulp s)(tsk := None) = task_ulp s" by (simp add: fun_upd_idem_iff)
  ultimately show ?thesis using inv by (simp add: exit_sem_impl_def)
next
  case (Some l)
  obtain ul where ul: "sem_ulps s l = Some ul" using user_lists(1) [OF inv Some] by blast
  note c = user_lists(2) [OF inv ul]
  let ?X = "{x. task_ulp s x = Some l} - {tsk}"
  have tin: "tsk \<in> {x. task_ulp s x = Some l}" using Some by simp
  have X: "finite ?X" "ul_refcnt ul - 1 = card ?X" using c tin by (simp_all add: card_Diff_singleton)
  have X3: "?X = {} \<longleftrightarrow> ul_refcnt ul = 1"
  proof -
    have "card {x. task_ulp s x = Some l} = Suc (card ?X)" using card_Suc_Diff1 [OF _ tin] c by presburger
    then show ?thesis using c X(1) by (simp add: card_eq_0_iff)
  qed
  let ?s = "s\<lparr>sem_ulps := (sem_ulps s)(l \<mapsto> ul\<lparr>ul_refcnt := ul_refcnt ul - 1\<rparr>), task_ulp := (task_ulp s)(tsk := None)\<rparr>"
  have inv1: "sem_inv A ?s"
    by (rule users_inv [OF inv t ul, where X = ?X]) (use Some X in auto)
  have swap: "s\<lparr>task_ulp := f, sem_ulps := g\<rparr> = s\<lparr>sem_ulps := g, task_ulp := f\<rparr>" for f g by simp
  show ?thesis
  proof (cases "ul_refcnt ul = 1")
    case False
    then have "{x. task_ulp s x = Some l} \<noteq> {tsk}" using X3 by auto
    moreover have "exit_sem_impl fuel e tsk s = Some (?s, [])"
      using Some ul False by (simp add: exit_sem_impl_def Let_def swap)
    ultimately show ?thesis using inv1 Some by auto
  next
    case True
    have gone: "task_ulp ?s x \<noteq> Some l" for x using X3 True by auto
    have "length (ul_list (ul\<lparr>ul_refcnt := ul_refcnt ul - 1\<rparr>)) < fuel" using fuel Some ul by (simp add: undo_count_def)
    then obtain s2 w ul' where l: "exit_sem_loop fuel e l ?s [] = Some (s2, w)" "sem_inv A s2" "task_ulp s2 = task_ulp ?s"
      "sem_ulps s2 l = Some ul'" "ul_list ul' = []"
      using exit_loop [OF inv1 gone, of "ul\<lparr>ul_refcnt := ul_refcnt ul - 1\<rparr>" fuel e "[]"] by auto
    let ?r = "s2\<lparr>sem_ulps := (sem_ulps s2)(l := None)\<rparr>"
    have gone2: "task_ulp s2 x \<noteq> Some l" for x using gone [of x] l(3) by simp
    have invr: "sem_inv A ?r" by (rule drop_list_inv [OF l(2) gone2 l(4,5)])
    have "un_ulp u \<noteq> l" if un: "sem_undos ?r un = Some u" for un u
    proof -
      obtain p a x where "sem_ulps ?r (un_ulp u) = Some x" by (rule undo_dest [OF invr un])
      then show ?thesis by auto
    qed
    moreover have "exit_sem_impl fuel e tsk s = Some (?r, w)"
      using Some ul True l(1) by (simp add: exit_sem_impl_def Let_def swap)
    ultimately show ?thesis using invr l(3) Some by auto
  qed
qed

end
