(* ===== verification/SemOps.thy ===== *)
theory SemOps
  imports SemExit
begin

text \<open>
  \<^verbatim>\<open>semtimedop\<close> and \<^verbatim>\<open>semget\<close> on a namespace. A call that blocks puts its task on the queues of
  the array it names, a call that returns leaves the task on none; a task that is resumed with
  a final status goes without touching the array, which may be gone. A new array is quiet.
\<close>

section \<open>Where a task is behind a call\<close>

definition settle :: "(nat \<rightharpoonup> ptr) \<Rightarrow> nat \<Rightarrow> sem_step \<Rightarrow> (nat \<rightharpoonup> ptr)" where
  "settle A t r = (case r of SemReturn _ \<Rightarrow> A(t := None) | SemBlocked p \<Rightarrow> A(t \<mapsto> p))"

lemma settle_simps [simp]:
  "settle A t (SemReturn x) = A(t := None)" "settle A t (SemBlocked p) = A(t \<mapsto> p)"
  by (simp_all add: settle_def)

section \<open>The operation\<close>

lemma semtimedop_perform_inv:
  assumes inv: "sem_inv A s" and a: "objs (sem_ids s) p = Some a" and free: "A cur = None"
    and l: "sem_lock (Some (q_sops q)) a = (b, locknum)" and c: "call_ok (sem_nsems a) q"
    and un: "\<And>v. q_undo q = Some v \<Longrightarrow> v \<in> set (list_id a) \<and> (\<exists>u. sem_undos s v = Some u \<and> task_ulp s cur = Some (un_ulp u))"
    and cur: "cur = cur_task (se_task e)"
    and call: "semtimedop_perform e (upd_sma p (\<lambda>_. b) s) p locknum q = (s', wake, r)"
  shows "sem_inv (settle A cur r) s'" "r = SemBlocked p' \<Longrightarrow> p' = p"
proof -
  note ai = inv_array(3) [OF inv a]
  have v: "sw_lock (Some (q_sops q)) (view s a) = (view s b, locknum)" using l by (simp add: sw_lock_def view_def)
  obtain w x where w: "semop_section (clock_seconds (se_task e)) cur q locknum (view s b) = (w, x)" by fastforce
  have ob: "objs (sem_ids (upd_sma p (\<lambda>_. b) s)) p = Some b" using a by simp
  have run: "run_section p SemSleep (semop_section (clock_seconds (se_task e)) cur q locknum) (upd_sma p (\<lambda>_. b) s)
      = (put_work p w s, sw_wake w, x)"
    using run_section_put [OF ob, of _ w x] w by (simp add: put_work_upd)
  have nw: "cur \<notin> set (waiters (sw_sma (view s a)))" using inv_array(4) [OF inv a] free by (simp add: waits_def)
  have cc: "call_ok (sem_nsems (sw_sma (view s a))) q" using c by simp
  have us: "undos_of (set (waiters (sw_sma (view s a)))) (set (list_id a)) (view s a)" using inv_undos_of [OF inv a] by simp
  have uq: "\<And>v. q_undo q = Some v \<Longrightarrow> v \<in> set (list_id a)" using un by blast
  have sec: "sec_rel {} (set (list_id a)) (view s a) w" if "x \<noteq> SemSleep"
    by (rule semop_sec(1) [OF ai v cc nw us _ w that]) (rule uq)
  have sl: "sec_rel {cur} (set (list_id a)) (view s a) w \<and> set (waiters (sw_sma w)) = insert cur (set (waiters (sw_sma (view s a))))
      \<and> (\<exists>p. sw_stacks w cur = Some p \<and> q_status p = Some EINTR \<and> q_undo p = q_undo q)
      \<and> (\<forall>t. t \<noteq> cur \<longrightarrow> sw_stacks w t = sw_stacks (view s a) t)" if "x = SemSleep"
    by (rule semop_sec(2) [OF ai v cc nw us _ w that]) (rule uq)
  have arr: "arr_inv w" using semop_inv [OF ai v cc nw, of "clock_seconds (se_task e)"] w by simp
  have A0: "A(cur := None) = A" using free by (simp add: fun_upd_idem_iff)
  have s': "s' = put_work p w s" "(case x of SemDone \<Rightarrow> SemReturn None | SemErr err \<Rightarrow> SemReturn (Some err) | SemSleep \<Rightarrow> SemBlocked p) = r"
    using call run unfolding semtimedop_perform_def cur [symmetric] by (auto split: sem_result.splits)
  show "r = SemBlocked p' \<Longrightarrow> p' = p" using s'(2) by (cases x) auto
  show "sem_inv (settle A cur r) s'"
  proof (cases "x = SemSleep")
    case False
    then have "settle A cur r = A" using s'(2) A0 by (cases x) auto
    then show ?thesis unfolding s'(1) using section_keeps [OF inv a sec [OF False] arr] by simp
  next
    case True
    then have r: "r = SemBlocked p" using s'(2) by simp
    note sl = sl [OF True]
    show ?thesis
      unfolding r s'(1) settle_simps
    proof (rule section_inv [OF inv a, where C = "{cur}"])
      show "sec_rel {cur} (set (list_id a)) (view s a) w" using sl by blast
    qed (use arr free sl un in \<open>auto simp: q_status_of_def\<close>)
  qed
qed

lemma semtimedop_start_inv:
  assumes inv: "sem_inv A s" and k: "kmalloc_ok (se_new e)" and free: "A (cur_task (se_task e)) = None"
    and call: "semtimedop_start e s semid sops time_ok = (s', wake, r)"
  shows "sem_inv (settle A (cur_task (se_task e)) r) s'"
proof -
  let ?c = "cur_task (se_task e)" and ?f = "scan_sops sops"
  have A0: "A(?c := None) = A" using free by (simp add: fun_upd_idem_iff)
  have ret: "sem_inv (settle A ?c (SemReturn x)) s0" if "sem_inv A s0" for x s0 using that by (simp add: A0)
  show ?thesis
  proof (cases "length sops < 1 \<or> semid < 0 \<or> int (length sops) > sc_semopm s \<or> \<not> time_ok")
    case True
    then show ?thesis using call ret [OF inv] by (auto simp: semtimedop_start_def split: if_splits)
  next
    case args: False
    define g where "g = (if sf_undos ?f then (case find_alloc_undo e s semid of
        (s, Inl err) \<Rightarrow> (s, Inl err) | (s, Inr un) \<Rightarrow> (s, Inr (Some un))) else (s, Inr None))"
    obtain s1 r1 where g1: "g = (s1, r1)" by fastforce
    have G: "sem_inv A s1" "\<And>un. r1 = Inr (Some un) \<Longrightarrow>
        \<exists>u. sem_undos s1 un = Some u \<and> un_semid u = semid \<and> task_ulp s1 ?c = Some (un_ulp u)"
      using find_alloc_undo_inv [OF inv k, of semid] inv g1
      by (auto simp: g_def split: if_splits prod.splits sum.splits)
    show ?thesis
    proof (cases r1)
      case (Inl err)
      then have "s' = s1 \<and> r = SemReturn (Some err)"
        using call args g1 by (simp add: semtimedop_start_def Let_def g_def [symmetric])
      then show ?thesis using ret [OF G(1)] by simp
    next
      case un: (Inr un)
      show ?thesis
      proof (cases "sem_obtain_object_check s1 semid")
        case (Inl err)
        then have "s' = s1 \<and> r = SemReturn (Some err)"
          using call args g1 un by (simp add: semtimedop_start_def Let_def g_def [symmetric])
        then show ?thesis using ret [OF G(1)] by simp
      next
        case p: (Inr p)
        obtain a where a: "objs (sem_ids s1) p = Some a" "perm_id a = semid" by (rule inv_obtain [OF G(1) p])
        obtain b locknum where l: "sem_lock (Some sops) a = (b, locknum)" by fastforce
        let ?chk = "sf_max ?f \<ge> sem_nsems a \<or> ipcperms (se_task e) (sl_ipc (se_lsm e)) a (if sf_alter ?f then S_IWUGO else S_IRUGO) \<noteq> None
            \<or> sl_semop (se_lsm e) (kern_ipc_perm.truncate a) sops (sf_alter ?f) \<noteq> None"
        show ?thesis
        proof (cases ?chk)
          case True
          then have "s' = s1 \<and> (\<exists>x. r = SemReturn x)"
            using call args g1 un p a(1) by (auto simp: semtimedop_start_def Let_def g_def [symmetric] split: if_splits option.splits)
          then show ?thesis using ret [OF G(1)] by blast
        next
          case ok: False
          let ?q = "\<lparr>q_sleeper = ?c, q_undo = un, q_pid = cur_tgid (se_task e), q_status = Some EINTR,
              q_sops = sops, q_blocking = None, q_alter = sf_alter ?f, q_dupsop = sf_dupsop ?f\<rparr>"
          have stale: "\<not> (case un of None \<Rightarrow> False | Some u \<Rightarrow> undo_for (sem_undos (upd_sma p (\<lambda>_. b) s1)) (-1) u)"
            using G(2) un inv_id_nonneg [OF G(1) a(1)] a(2) by (cases un) (force simp: undo_for_def)+
          have val: "ipc_valid_object (sem_ids (upd_sma p (\<lambda>_. b) s1)) p"
            using inv_valid(1) [OF G(1) a(1)] a(1) l
            by (auto simp: ipc_valid_object_def sem_lock_def complexmode_enter_def split: list.splits if_splits)
          have perf: "semtimedop_perform e (upd_sma p (\<lambda>_. b) s1) p locknum ?q = (s', wake, r)"
            using call args g1 un p a(1) ok l stale val
            by (simp add: semtimedop_start_def Let_def g_def [symmetric] del: upd_sma_fields(1))
          have nums: "nums_in (sem_nsems a) sops" using ok fold_scan_flags(3) [of sops no_flags "sem_nsems a"] by (simp add: scan_sops_def)
          have c: "call_ok (sem_nsems a) ?q" using args nums by (auto simp: call_ok_def)
          have lq: "sem_lock (Some (q_sops ?q)) a = (b, locknum)" using l by simp
          have uq: "v \<in> set (list_id a) \<and> (\<exists>u. sem_undos s1 v = Some u \<and> task_ulp s1 ?c = Some (un_ulp u))"
            if "q_undo ?q = Some v" for v
            using G(2) [of v] un that undo_on_array(1) [OF G(1) _ a(1)] a(2) by auto
          show ?thesis by (rule semtimedop_perform_inv(1) [OF G(1) a(1) free lq c uq refl perf])
        qed
      qed
    qed
  qed
qed

lemma semtimedop_inv:
  assumes inv: "sem_inv A s" and k: "kmalloc_ok (se_new e)" and free: "A (cur_task (se_task e)) = None"
  shows "do_semtimedop e s semid n tsops time_ok = (s', wake, r) \<Longrightarrow> sem_inv (settle A (cur_task (se_task e)) r) s'"
    "ksys_semtimedop e s semid n tsops timeout = (s', wake, r) \<Longrightarrow> sem_inv (settle A (cur_task (se_task e)) r) s'"
    "compat_ksys_semtimedop e s semid n tsops timeout = (s', wake, r) \<Longrightarrow> sem_inv (settle A (cur_task (se_task e)) r) s'"
proof -
  let ?c = "cur_task (se_task e)"
  have A0: "A(?c := None) = A" using free by (simp add: fun_upd_idem_iff)
  have d: "sem_inv (settle A ?c r) s'" if "do_semtimedop e s semid n tsops time_ok = (s', wake, r)" for time_ok
    using that semtimedop_start_inv [OF inv k free] inv A0
    by (auto simp: do_semtimedop_def split: if_splits option.splits)
  show "do_semtimedop e s semid n tsops time_ok = (s', wake, r) \<Longrightarrow> sem_inv (settle A ?c r) s'" by (rule d)
  show "ksys_semtimedop e s semid n tsops timeout = (s', wake, r) \<Longrightarrow> sem_inv (settle A ?c r) s'"
    "compat_ksys_semtimedop e s semid n tsops timeout = (s', wake, r) \<Longrightarrow> sem_inv (settle A ?c r) s'"
    using d inv A0 by (auto simp: ksys_semtimedop_def compat_ksys_semtimedop_def split: option.splits)
qed

section \<open>Behind the sleep\<close>

text \<open>A task that waits nowhere can go.\<close>

lemma leave_inv:
  assumes inv: "sem_inv A s" and nw: "\<And>p. \<not> waits A s p t"
  shows "sem_inv (A(t := None)) (sem_stacks_update (\<lambda>st. st(t := None)) s)" (is "sem_inv ?A ?s")
proof -
  have w: "waits ?A ?s p x \<longleftrightarrow> waits A s p x" for p x
    using nw [of p] by (cases "x = t") (simp_all add: waits_def q_status_of_def)
  have same: "sem_stacks ?s x = sem_stacks s x" if "waits A s p x" for p x
    using that nw [of p] by (cases "x = t") simp_all
  have arr: "arr_inv (view ?s a)" if a: "objs (sem_ids s) p = Some a" for p a
  proof (rule stacks_inv [OF inv_array(3) [OF inv a]])
    show "st_base (sw_stacks (view ?s a)) x = st_base (sw_stacks (view s a)) x" if "x \<in> set (waiters (sw_sma (view s a)))" for x
      using that inv_array(4) [OF inv a] nw [of p] by (cases "x = t") (simp_all add: st_base_def)
  qed simp_all
  have "undo_users ?A ?s"
    unfolding undo_users_def w
  proof (intro conjI allI impI)
    fix x p q un assume h: "waits A s p x \<and> sem_stacks ?s x = Some q \<and> q_undo q = Some un"
    then have "sem_stacks s x = Some q" using same by metis
    from user_lists(3) [OF inv _ this] h show "\<exists>u a. sem_undos ?s un = Some u \<and> task_ulp ?s x = Some (un_ulp u)
        \<and> objs (sem_ids ?s) p = Some a \<and> un \<in> set (list_id a)" by simp
  qed (use user_lists(1,2) [OF inv] in auto)
  moreover have "undo_links ?s" using inv_parts(2) [OF inv] by (simp add: undo_links_def)
  ultimately show ?thesis
    unfolding sem_inv_def w
    using inv_parts(1,4,5,6) [OF inv] inv_array(1,2,4) [OF inv] arr by simp
qed

lemma semtimedop_resume_inv:
  assumes inv: "sem_inv A s" and at: "A (cur_task (se_task e)) = Some p" and call: "semtimedop_resume e s p timed_out = (s', r)"
  shows "sem_inv (settle A (cur_task (se_task e)) r) s'"
proof -
  let ?c = "cur_task (se_task e)"
  let ?leave = "sem_stacks_update (\<lambda>st. st(?c := None))"
  obtain q where q: "sem_stacks s ?c = Some q" using inv_parts(5) [OF inv, of ?c] at by auto
  show ?thesis
  proof (cases "q_status q = Some EINTR")
    case False
    have "\<not> waits A s p' ?c" for p' using q False by (simp add: waits_def q_status_of_def)
    then show ?thesis using call q False leave_inv [OF inv] by (auto simp: semtimedop_resume_def)
  next
    case wait: True
    then have w: "waits A s p ?c" using at q by (simp add: waits_def q_status_of_def)
    then obtain a where a: "objs (sem_ids s) p = Some a" using inv_parts(6) [OF inv w] by blast
    obtain b locknum where l: "sem_lock (Some (q_sops q)) a = (b, locknum)" by fastforce
    note ai = inv_array(3) [OF inv a]
    have v: "sw_lock (Some (q_sops q)) (view s a) = (view s b, locknum)" using l by (simp add: sw_lock_def view_def)
    have m: "?c \<in> set (waiters (sw_sma (view s a)))" using inv_array(4) [OF inv a] w by simp
    define out where "out \<longleftrightarrow> timed_out \<or> cur_signal_pending (se_task e)"
    let ?w = "resume_section out ?c locknum (view s b)"
    note sec1 = resume_sec(1) [OF ai v, of out ?c "set (list_id a)"] and sec2 = resume_sec(2) [OF ai v, of out ?c]
      and sec4 = resume_sec(4) [OF ai v, of out ?c]
    have arr: "arr_inv ?w" by (rule resume_inv [OF ai v]) (rule m)
    have ob: "objs (sem_ids (upd_sma p (\<lambda>_. b) s)) p = Some b" using a by simp
    have run: "fst (run_work p (resume_section out ?c locknum) (upd_sma p (\<lambda>_. b) s)) = put_work p ?w s"
      using run_work_put [OF ob] by (simp add: put_work_upd)
    have val: "ipc_valid_object (sem_ids (upd_sma p (\<lambda>_. b) s)) p"
      using inv_valid(1) [OF inv a] a l
      by (auto simp: ipc_valid_object_def sem_lock_def complexmode_enter_def split: list.splits if_splits)
    show ?thesis
    proof (cases out)
      case False
      then have s': "s' = put_work p ?w s" "r = SemBlocked p"
        using call q wait a l val run out_def by (simp_all add: semtimedop_resume_def Let_def del: upd_sma_fields(1))
      have A0: "A(?c \<mapsto> p) = A" using at by (simp add: fun_upd_idem_iff)
      show ?thesis
        unfolding s' settle_simps A0
      proof (rule section_inv [OF inv a, where C = "{?c}"])
        show "sec_rel {?c} (set (list_id a)) (view s a) ?w" using sec1 m by blast
        show "x \<in> set (waiters (sw_sma ?w)) \<longleftrightarrow> A x = Some p \<and> q_status_of (sw_stacks ?w) x = Some EINTR" if "x \<in> {?c}" for x
          using that sec2 sec4 m False at q wait by (simp add: q_status_of_def)
        show "un \<in> set (list_id a) \<and> (\<exists>u. sem_undos s un = Some u \<and> task_ulp s x = Some (un_ulp u))"
          if "x \<in> {?c}" "A x = Some p" "sw_stacks ?w x = Some y" "q_undo y = Some un" for x y un
          using that sec2 m user_lists(3) [OF inv w, of y un] a by auto
      qed (use arr at sec2 m inv_parts(5) [OF inv] in auto)
    next
      case True
      let ?y = "?w\<lparr>sw_stacks := (sw_stacks ?w)(?c := None)\<rparr>"
      have ry: "s' = ?leave (put_work p ?w s)" "\<exists>x. r = SemReturn x"
        using call q wait a l val run out_def True by (auto simp: semtimedop_resume_def Let_def simp del: upd_sma_fields(1))
      have s': "s' = put_work p ?y s" unfolding ry(1) by (simp add: put_work_def upd_sma_def)
      have nw: "?c \<notin> set (waiters (sw_sma ?w))" using sec4 m True by simp
      have "arr_inv ?y" by (rule stacks_inv [OF arr]) (use nw in \<open>auto simp: st_base_def\<close>)
      moreover have "sec_rel {?c} (set (list_id a)) (view s a) ?y"
        using sec1 m unfolding sec_rel_def undo_same_def by (simp add: st_base_def q_status_of_def)
      ultimately have "sem_inv (A(?c := None)) (put_work p ?y s)"
        by (intro section_inv [OF inv a, where C = "{?c}"]) (use at nw in auto)
      then show ?thesis using ry(2) unfolding s' by auto
    qed
  qed
qed

end
