(* ===== verification/SemNew.thy ===== *)
theory SemNew
  imports SemOps
begin

text \<open>
  The creation of a semaphore array (\<^verbatim>\<open>newary\<close>) and \<^verbatim>\<open>semget\<close> through the \<open>ipc_getter\<close> interface:
  the id that is returned resolves to an array with the requested key, a refused creation
  leaves the sets as they were, and the count of semaphores grows by those of the array.
\<close>

unbundle bit_operations_syntax

text \<open>The kernel's containers behave as documented.\<close>

definition sem_kernel_ok :: "sem_env \<Rightarrow> bool" where
  "sem_kernel_ok e \<longleftrightarrow> idr_alloc_ok (se_alloc e) \<and> kmalloc_ok (se_new e)"

section \<open>A refused and a new array\<close>

lemma ids_same_inv:
  assumes inv: "sem_inv A s" and wf: "ids_wf ids" and same: "ipcs_idr ids = ipcs_idr (sem_ids s)" "objs ids = objs (sem_ids s)"
  shows "sem_inv A (s\<lparr>sem_ids := ids\<rparr>)"
proof -
  have w: "waits A (s\<lparr>sem_ids := ids\<rparr>) p t \<longleftrightarrow> waits A s p t" for p t by (simp add: waits_def)
  have t: "table_sum f ids = table_sum f (sem_ids s)" for f :: "sem_array \<Rightarrow> int" by (simp add: table_sum_def same)
  have "undo_links (s\<lparr>sem_ids := ids\<rparr>)" using inv_parts(2) [OF inv] by (simp add: undo_links_def same)
  moreover have "undo_users A (s\<lparr>sem_ids := ids\<rparr>)" using inv_parts(3) [OF inv] unfolding undo_users_def w by (simp add: same) blast
  ultimately show ?thesis
    unfolding sem_inv_def w
    using wf inv_parts(4,5,6) [OF inv] inv_array [OF inv] by (simp add: same t)
qed

lemma all_undos_ok:
  assumes "sem_inv A s"
  shows "undos_ok (sem_undos s)"
proof -
  have "short_range x" if u: "sem_undos s un = Some u" and x: "x \<in> set (semadj u)" for un u x
  proof -
    obtain p a where "objs (sem_ids s) p = Some a" by (rule undo_dest [OF assms u])
    then show ?thesis using inv_undos_ok [OF assms] u x unfolding undos_ok_def by blast
  qed
  then show ?thesis unfolding undos_ok_def by blast
qed

lemma added_inv:
  assumes inv: "sem_inv A s" and wf: "ids_wf ids'" and o: "objs ids' = (objs (sem_ids s))(p \<mapsto> q)"
    and t: "ipcs_idr ids' = ipcs_idr (sem_ids s) @ [(idx, p)]" and nl: "p \<notin> snd ` set (ipcs_idr (sem_ids s))"
    and fresh: "objs (sem_ids s) p = None" and q: "perm_refcount q = 1" "waiters q = []" "list_id q = []" "arr_inv (view s q)"
  shows "sem_inv A (s\<lparr>sem_ids := ids', used_sems := used_sems s + int (sem_nsems q)\<rparr>)" (is "sem_inv A ?s")
proof -
  have w: "waits A ?s r x \<longleftrightarrow> waits A s r x" for r x by (simp add: waits_def)
  have v: "view ?s b = view s b" for b by (simp add: view_def)
  have np: "\<not> waits A s p x" for x using inv_parts(6) [OF inv, of p x] fresh by blast
  have sum: "table_sum (\<lambda>a. int (sem_nsems a)) ids' = table_sum (\<lambda>a. int (sem_nsems a)) (sem_ids s) + int (sem_nsems q)"
    by (rule table_sum_added [OF nl t o])
  have "undo_links ?s"
    unfolding undo_links_def
  proof (intro conjI allI impI)
    fix un u assume "sem_undos ?s un = Some u"
    then have u: "sem_undos s un = Some u" by simp
    obtain r b x where N: "objs (sem_ids s) r = Some b" "perm_id b = un_semid u" "un \<in> set (list_id b)"
      "length (semadj u) = sem_nsems b" "sem_ulps s (un_ulp u) = Some x" "un \<in> set (ul_list x)" by (rule undo_dest [OF inv u])
    then show "\<exists>p a ul. objs (sem_ids ?s) p = Some a \<and> perm_id a = un_semid u \<and> un \<in> set (list_id a)
        \<and> length (semadj u) = sem_nsems a \<and> sem_ulps ?s (un_ulp u) = Some ul \<and> un \<in> set (ul_list ul)"
      using fresh by (intro exI [of _ r] exI [of _ b] exI [of _ x]) (auto simp: o)
  qed (use array_undos [OF inv] owner_undos [OF inv] q(3) in \<open>auto simp: o split: if_splits\<close>)
  moreover have "undo_users A ?s"
    unfolding undo_users_def w
  proof (intro conjI allI impI)
    fix x r y un assume h: "waits A s r x \<and> sem_stacks ?s x = Some y \<and> q_undo y = Some un"
    then have "waits A s r x" "sem_stacks s x = Some y" by simp_all
    from user_lists(3) [OF inv this, of un] h fresh show "\<exists>u a. sem_undos ?s un = Some u \<and> task_ulp ?s x = Some (un_ulp u)
        \<and> objs (sem_ids ?s) r = Some a \<and> un \<in> set (list_id a)" by (auto simp: o)
  qed (use user_lists(1,2) [OF inv] in auto)
  moreover have "r \<in> snd ` set (ipcs_idr ids') \<and> perm_refcount b = 1 \<and> arr_inv (view s b) \<and> (\<forall>x. x \<in> set (waiters b) \<longleftrightarrow> waits A s r x)"
    if "objs ids' r = Some b" for r b
  proof (cases "r = p")
    case True
    then show ?thesis using that q np by (simp add: o t)
  next
    case False
    then show ?thesis using that inv_array [OF inv, of r b] by (simp add: o t)
  qed
  moreover have "objs ids' r \<noteq> None" if "waits A s r x" for r x using inv_parts(6) [OF inv that] by (simp add: o)
  ultimately show ?thesis
    unfolding sem_inv_def w v using wf inv_parts(4,5) [OF inv] sum by simp
qed

section \<open>newary\<close>

lemma fresh_array_fields:
  assumes "q = added_perm env sq idx (fresh_array e params)"
  shows "perm_refcount q = 1" "waiters q = []" "list_id q = []" "sem_nsems q = nat (par_nsems params)"
    "perm_key q = par_key params" "perm_mode q = par_flg params AND S_IRWXUGO" "complexmode_enter q = q"
    "\<forall>x \<in> set (sems q). semval x = 0 \<and> sem_alter x = [] \<and> sem_const x = []"
    "pending_alter q = []" "pending_const q = []" "complex_count q = 0" "use_global_lock q = USE_GLOBAL_LOCK_HYSTERESIS"
proof -
  show "complexmode_enter q = q"
    by (cases q) (simp add: assms added_perm_def fresh_array_def complexmode_enter_def USE_GLOBAL_LOCK_HYSTERESIS_def)
  show "waiters q = []"
    by (auto simp: assms added_perm_def fresh_array_def waiters_def alter_waiters_def const_waiters_def)
qed (simp_all add: assms added_perm_def fresh_array_def)

lemma newary_inv:
  assumes inv: "sem_inv A s" and ok: "sem_kernel_ok e" and n: "0 \<le> par_nsems params"
    and key: "\<And>i. r = Inr i \<Longrightarrow> par_key params = IPC_PRIVATE \<or> key_ht (sem_ids s) (par_key params) = None"
    and call: "newary e params s = (s', r)"
  shows "sem_inv A s'"
    "\<And>i. r = Inr i \<Longrightarrow> \<exists>p q. ipc_obtain_object_check (sem_ids s') i = Inr p \<and> objs (sem_ids s') p = Some q
        \<and> perm_key q = par_key params \<and> perm_mode q = par_flg params AND S_IRWXUGO \<and> sem_nsems q = nat (par_nsems params)
        \<and> used_sems s' = used_sems s + par_nsems params"
    "\<And>err. r = Inl err \<Longrightarrow> ipcs_idr (sem_ids s') = ipcs_idr (sem_ids s) \<and> objs (sem_ids s') = objs (sem_ids s) \<and> used_sems s' = used_sems s"
proof -
  have al: "idr_alloc_ok (se_alloc e)" "kmalloc_ok (se_new e)" using ok by (simp_all add: sem_kernel_ok_def)
  have "sem_inv A s' \<and> (\<forall>i. r = Inr i \<longrightarrow> (\<exists>p q. ipc_obtain_object_check (sem_ids s') i = Inr p \<and> objs (sem_ids s') p = Some q
        \<and> perm_key q = par_key params \<and> perm_mode q = par_flg params AND S_IRWXUGO \<and> sem_nsems q = nat (par_nsems params)
        \<and> used_sems s' = used_sems s + par_nsems params))
    \<and> (\<forall>err. r = Inl err \<longrightarrow> ipcs_idr (sem_ids s') = ipcs_idr (sem_ids s) \<and> objs (sem_ids s') = objs (sem_ids s) \<and> used_sems s' = used_sems s)"
  proof (cases "par_nsems params = 0 \<or> c_int (used_sems s + par_nsems params) > sc_semmns s
      \<or> sem_alloc e s (par_nsems params) = None \<or> sl_alloc (se_lsm e) \<noteq> None")
    case True
    then have "s' = s \<and> (\<exists>err. r = Inl err)"
      using call by (auto simp: newary_def Let_def split: if_splits option.splits)
    then show ?thesis using inv by auto
  next
    case False
    then obtain p where p: "sem_alloc e s (par_nsems params) = Some p" by (cases "sem_alloc e s (par_nsems params)") simp_all
    have fresh: "objs (sem_ids s) p = None"
      using p kmalloc_fresh [OF al(2)] by (auto simp: sem_alloc_def split: if_splits)
    note wf = inv_parts(1) [OF inv]
    obtain ids' res where ad: "ipc_addid (se_task e) (se_alloc e) (se_kht e)
        (objs_update (\<lambda>h. h(p \<mapsto> fresh_array e params)) (sem_ids s)) p (sc_semmni s) = (ids', res)" by fastforce
    show ?thesis
    proof (cases res)
      case (Inl err)
      then have s': "s' = s\<lparr>sem_ids := ipc_rcu_putref ids' p\<rparr>" "r = Inl err"
        using call False p ad by (simp_all add: newary_def Let_def)
      note F = addid_fail [OF wf fresh al(1) ad [unfolded Inl]]
      have "sem_inv A s'" unfolding s' by (rule ids_same_inv [OF inv F])
      then show ?thesis using s' F(2,3) by (simp del: putref_frame)
    next
      case (Inr idx)
      have k0: "perm_key (fresh_array e params) = par_key params" by (simp add: fresh_array_def)
      have k: "par_key params = IPC_PRIVATE \<or> key_ht (sem_ids s) (par_key params) = None"
        using key call False p ad Inr by (auto simp: newary_def Let_def)
      obtain q sq where N: "q = added_perm (se_task e) sq idx (fresh_array e params)" "ids_wf ids'" "objs ids' = (objs (sem_ids s))(p \<mapsto> q)"
        "ipcs_idr ids' = ipcs_idr (sem_ids s) @ [(idx, p)]" "p \<notin> snd ` set (ipcs_idr (sem_ids s))"
        "ipc_obtain_object_check ids' (perm_id q) = Inr p"
        by (rule addid_new [OF wf fresh al(1) ad [unfolded Inr]]) (use k k0 in auto)
      note Q = fresh_array_fields [OF N(1)]
      let ?s1 = "s\<lparr>sem_ids := ids', used_sems := used_sems s + par_nsems params\<rparr>"
      have s': "s' = sma_unlock p (-1) ?s1" "r = Inr (perm_id q)"
        using call False p ad Inr N(3) by (simp_all add: newary_def Let_def)
      have "arr_start (view s q)" using Q(8-12) all_undos_ok [OF inv] by (simp add: arr_start_def)
      then have "arr_inv (view s q)" by (rule start_inv)
      from added_inv [OF inv N(2-5) fresh Q(1-3) this] have inv1: "sem_inv A ?s1" using Q(4) n by simp
      have o1: "objs (sem_ids ?s1) p = Some q" by (simp add: N(3))
      have "sma_lock p ?s1 = ?s1"
        unfolding sma_lock_const(1) [OF o1] sma_lock_const(2) [OF o1] fst_conv Q(7) by (rule upd_sma_id [OF o1])
      then have inv': "sem_inv A s'" using sma_lock_unlock_keeps [OF inv1 o1] by (simp add: s')
      let ?q = "sem_unlock (sem_stacks s) (-1) q"
      have h: "perm_header ?q = perm_header q" "perm_mode ?q = perm_mode q" "sem_nsems ?q = sem_nsems q"
        using Q(9) by (simp_all add: sem_unlock_def complexmode_tryleave_def unmerge_queues_def perm_header_def)
      have o': "objs (sem_ids s') p = Some ?q" by (simp add: s' sma_unlock_def N(3))
      have "ipc_obtain_object_check (sem_ids s') (perm_id ?q) = Inr p"
      proof -
        obtain i where "map_of (ipcs_idr (sem_ids s')) i = Some p" by (rule linked_index [OF inv_parts(1) [OF inv'] inv_array(1) [OF inv' o']])
        then show ?thesis by (rule obtain_check_entry [OF inv_parts(1) [OF inv'] _ o'])
      qed
      then show ?thesis using inv' s'(2) o' h header_fields(2) [OF h(1)] Q(4-6) n
        by (simp add: perm_header_def) (simp add: s' sma_unlock_def)
    qed
  qed
  then show "sem_inv A s'"
    "\<And>i. r = Inr i \<Longrightarrow> \<exists>p q. ipc_obtain_object_check (sem_ids s') i = Inr p \<and> objs (sem_ids s') p = Some q
        \<and> perm_key q = par_key params \<and> perm_mode q = par_flg params AND S_IRWXUGO \<and> sem_nsems q = nat (par_nsems params)
        \<and> used_sems s' = used_sems s + par_nsems params"
    "\<And>err. r = Inl err \<Longrightarrow> ipcs_idr (sem_ids s') = ipcs_idr (sem_ids s) \<and> objs (sem_ids s') = objs (sem_ids s) \<and> used_sems s' = used_sems s"
    by blast+
qed

section \<open>semget\<close>

text \<open>The create routine for the sizes \<^verbatim>\<open>semget\<close> lets through.\<close>

definition newary_sized :: "sem_env \<Rightarrow> ipc_params \<Rightarrow> sem_ns \<Rightarrow> sem_ns \<times> int result" where
  "newary_sized e params s = (if par_nsems params < 0 then (s, Inl EINVAL) else newary e params s)"

interpretation sem_getter: ipc_getter sem_ids "newary_sized e" "\<lambda>s. sem_inv A s \<and> sem_kernel_ok e" for e A
proof unfold_locales
  fix s assume "sem_inv A s \<and> sem_kernel_ok e" then show "ids_wf (sem_ids s)" using inv_parts(1) by blast
next
  fix s s' params i
  assume a: "sem_inv A s \<and> sem_kernel_ok e" "par_key params = IPC_PRIVATE \<or> key_ht (sem_ids s) (par_key params) = None"
    "newary_sized e params s = (s', Inr i)"
  then have n: "0 \<le> par_nsems params" "newary e params s = (s', Inr i)" by (auto simp: newary_sized_def split: if_splits)
  from newary_inv(1,2) [OF _ _ n(1) a(2) n(2)] a(1)
  show "(sem_inv A s' \<and> sem_kernel_ok e) \<and> (\<exists>p q. ipc_obtain_object_check (sem_ids s') i = Inr p \<and> objs (sem_ids s') p = Some q
             \<and> perm_key q = par_key params \<and> perm_mode q = par_flg params AND S_IRWXUGO)" by blast
next
  fix s s' params err
  assume a: "sem_inv A s \<and> sem_kernel_ok e" "newary_sized e params s = (s', Inl err)"
  show "sem_inv A s' \<and> sem_kernel_ok e"
  proof (cases "par_nsems params < 0")
    case False
    have "newary e params s = (s', Inl err)" using a(2) False by (simp add: newary_sized_def)
    from newary_inv(1) [OF _ _ _ _ this] a(1) False show ?thesis by simp
  qed (use a in \<open>simp add: newary_sized_def\<close>)
qed

lemma semget_getter:
  assumes "ksys_semget e k nsems semflg s = (s', r)" "0 \<le> nsems" "nsems \<le> sc_semmsl s"
  shows "ipcget (se_task e) (sl_ipc (se_lsm e)) sem_ids
      \<lparr>getnew = newary_sized e, associate = sl_associate (se_lsm e), more_checks = Some sem_more_checks\<rparr>
      \<lparr>par_key = k, par_flg = semflg, par_nsems = nsems\<rparr> s = (s', r)"
proof -
  let ?p = "\<lparr>par_key = k, par_flg = semflg, par_nsems = nsems\<rparr>"
  have "newary_sized e ?p s = newary e ?p s" using assms(2) by (simp add: newary_sized_def)
  moreover have "ipc_check_perms t lsm \<lparr>getnew = f, associate = as, more_checks = m\<rparr> pa q
      = ipc_check_perms t lsm \<lparr>getnew = g, associate = as, more_checks = m\<rparr> pa q" for t lsm f g as m pa and q :: sem_array
    by (simp add: ipc_check_perms_def)
  moreover have "ipcget (se_task e) (sl_ipc (se_lsm e)) sem_ids
      \<lparr>getnew = newary e, associate = sl_associate (se_lsm e), more_checks = Some sem_more_checks\<rparr> ?p s = (s', r)"
    using assms by (simp add: ksys_semget_def)
  ultimately show ?thesis
    unfolding ipcget_def ipcget_new_def ipcget_public_def by (auto split: option.splits if_splits)
qed

lemma semget_inv:
  assumes inv: "sem_inv A s" and ok: "sem_kernel_ok e" and call: "ksys_semget e k nsems semflg s = (s', r)"
  shows "sem_inv A s'"
proof (cases "nsems < 0 \<or> nsems > sc_semmsl s")
  case True
  then show ?thesis using call inv by (auto simp: ksys_semget_def)
next
  case False
  then have g: "0 \<le> nsems" "nsems \<le> sc_semmsl s" by simp_all
  from sem_getter.ipcget_inv [OF conjI [OF inv ok] _ semget_getter [OF call g]] show ?thesis by simp
qed

section \<open>The proc line\<close>

lemma proc_show_inv:
  assumes inv: "sem_inv A s" and call: "sysvipc_sem_proc_show um s p = (s', r)"
  shows "sem_inv A s'"
proof (cases "objs (sem_ids s) p")
  case None
  then show ?thesis using call inv by (simp add: sysvipc_sem_proc_show_def)
next
  case (Some a)
  note ai = inv_array(3) [OF inv Some]
  let ?b = "complexmode_tryleave (complexmode_enter a)"
  have s': "s' = put_work p (view s ?b) s"
    using call Some put_work_view [OF Some, of ?b] upd_sma_const [OF Some, of "complexmode_tryleave \<circ> complexmode_enter"]
    by (simp add: sysvipc_sem_proc_show_def upd_sma_upd_sma)
  have sv: "same_view (view s a) (view s ?b)"
    by (simp add: same_view_def complexmode_tryleave_def complexmode_enter_def)
  have g: "use_global_lock ?b \<noteq> 0 \<and> use_global_lock ?b \<le> 10"
    by (simp add: complexmode_tryleave_def complexmode_enter_def USE_GLOBAL_LOCK_HYSTERESIS_def)
  have io: "in_order (view s ?b)" using same_view_order [OF sv] ai by (simp add: arr_inv_def)
  then have "arr_inv (view s ?b)" using ai sv g by (simp add: arr_inv_def mode_ok_def same_view_def)
  moreover have "sec_rel {} (set (list_id a)) (view s a) (view s ?b)"
  proof (rule sec_rel_still)
    show "set (waiters (sw_sma (view s ?b))) = set (waiters (sw_sma (view s a)))" using same_view_waiters [OF sv] by simp
  qed (simp_all add: undo_same_def complexmode_tryleave_def complexmode_enter_def perm_header_def)
  ultimately show ?thesis unfolding s' by (intro section_keeps [OF inv Some])
qed

end
