(* ===== verification/SemSys.thy ===== *)
theory SemSys
  imports SemNew SemProps IpcTable
begin

text \<open>
  The semaphores of a namespace as a system: the calls of all tasks in any order, from a fresh
  namespace. The state is the namespace with, for every task inside \<^verbatim>\<open>semtimedop\<close>, the array it
  was put to sleep on. A step is a whole call, the part of \<^verbatim>\<open>semtimedop\<close> before the sleep or
  the part behind it.
\<close>

section \<open>Steps\<close>

definition sem_boot :: "sem_ns \<Rightarrow> sem_ns" where
  "sem_boot s = sem_init_ns (s\<lparr>sem_stacks := Map.empty, sem_undos := Map.empty, sem_ulps := Map.empty, task_ulp := Map.empty\<rparr>)"

type_synonym sem_sys = "sem_ns \<times> (nat \<rightharpoonup> ptr)"

text \<open>A task that makes a call is not asleep in another one.\<close>

definition caller_ok :: "sem_env \<Rightarrow> (nat \<rightharpoonup> ptr) \<Rightarrow> bool" where
  "caller_ok e A \<longleftrightarrow> sem_kernel_ok e \<and> A (cur_task (se_task e)) = None"

inductive sys_step :: "sem_sys \<Rightarrow> sem_sys \<Rightarrow> bool" where
  get: "\<lbrakk>caller_ok e A; ksys_semget e k n flg s = (s', r)\<rbrakk> \<Longrightarrow> sys_step (s, A) (s', A)"
| ctl: "\<lbrakk>caller_ok e A; ksys_semctl e s semid num cmd ok v64 old uvals arg version = (s', wake, out, r)\<rbrakk> \<Longrightarrow> sys_step (s, A) (s', A)"
| old_ctl: "\<lbrakk>caller_ok e A; ksys_old_semctl e s semid num cmd ok v64 old uvals arg = (s', wake, out, r)\<rbrakk> \<Longrightarrow> sys_step (s, A) (s', A)"
| compat_ctl: "\<lbrakk>caller_ok e A; compat_ksys_semctl e s semid num cmd ok p64 p32 uvals arg version = (s', wake, out, r)\<rbrakk>
    \<Longrightarrow> sys_step (s, A) (s', A)"
| compat_old_ctl: "\<lbrakk>caller_ok e A; compat_ksys_old_semctl e s semid num cmd ok p64 p32 uvals arg = (s', wake, out, r)\<rbrakk>
    \<Longrightarrow> sys_step (s, A) (s', A)"
| op: "\<lbrakk>caller_ok e A; ksys_semtimedop e s semid n tsops timeout = (s', wake, x)\<rbrakk>
    \<Longrightarrow> sys_step (s, A) (s', settle A (cur_task (se_task e)) x)"
| compat_op: "\<lbrakk>caller_ok e A; compat_ksys_semtimedop e s semid n tsops timeout = (s', wake, x)\<rbrakk>
    \<Longrightarrow> sys_step (s, A) (s', settle A (cur_task (se_task e)) x)"
| resume: "\<lbrakk>A (cur_task (se_task e)) = Some p; semtimedop_resume e s p timed_out = (s', x)\<rbrakk>
    \<Longrightarrow> sys_step (s, A) (s', settle A (cur_task (se_task e)) x)"
| clone: "\<lbrakk>caller_ok e A; A tsk = None; task_ulp s tsk = None; tsk \<noteq> cur_task (se_task e); copy_semundo e flags tsk s = (s', err)\<rbrakk>
    \<Longrightarrow> sys_step (s, A) (s', A)"
| exit: "\<lbrakk>A tsk = None; undo_count s tsk < fuel; exit_sem_impl fuel e tsk s = Some (s', wake)\<rbrakk> \<Longrightarrow> sys_step (s, A) (s', A)"
| proc: "sysvipc_sem_proc_show um s p = (s', line) \<Longrightarrow> sys_step (s, A) (s', A)"
| limits: "sys_step (s, A) (s\<lparr>sc_semmsl := a, sc_semmns := b, sc_semopm := c, sc_semmni := d\<rparr>, A)"

section \<open>The invariant\<close>

lemma boot_inv: "sem_inv Map.empty (sem_boot s)"
proof -
  have w: "\<not> waits Map.empty (sem_boot s) p t" for p t by (simp add: waits_def)
  have f: "sem_ids (sem_boot s) = ipc_init_ids" "sem_undos (sem_boot s) = Map.empty" "sem_stacks (sem_boot s) = Map.empty"
    "sem_ulps (sem_boot s) = Map.empty" "task_ulp (sem_boot s) = Map.empty" "used_sems (sem_boot s) = 0"
    by (simp_all add: sem_boot_def sem_init_ns_def)
  have "objs (ipc_init_ids :: sem_array ipc_ids) = Map.empty" "ipcs_idr (ipc_init_ids :: sem_array ipc_ids) = []"
    by (simp_all add: ipc_init_ids_def)
  then show ?thesis
    unfolding sem_inv_def undo_links_def undo_users_def using w ids_wf_init by (simp add: f table_sum_def)
qed

lemma sys_step_inv:
  assumes "sys_step x y" "sem_inv (snd x) (fst x)"
  shows "sem_inv (snd y) (fst y)"
  using assms
proof (induction rule: sys_step.induct)
  case (get e A k n flg s s' r)
  then show ?case using semget_inv [of A s e] by (simp add: caller_ok_def)
next
  case (ctl e A s semid num cmd ok v64 old uvals arg version s' wake out r)
  then show ?case using ksys_semctl_inv [of A s] by simp
next
  case (old_ctl e A s semid num cmd ok v64 old uvals arg s' wake out r)
  then show ?case using old_semctl_inv(1) [of A s] by simp
next
  case (compat_ctl e A s semid num cmd ok p64 p32 uvals arg version s' wake out r)
  then show ?case using compat_ksys_semctl_inv [of A s] by simp
next
  case (compat_old_ctl e A s semid num cmd ok p64 p32 uvals arg s' wake out r)
  then show ?case using old_semctl_inv(2) [of A s] by simp
next
  case (op e A s semid n tsops timeout s' wake x)
  then show ?case using semtimedop_inv(2) [of A s e] by (simp add: caller_ok_def sem_kernel_ok_def)
next
  case (compat_op e A s semid n tsops timeout s' wake x)
  then show ?case using semtimedop_inv(3) [of A s e] by (simp add: caller_ok_def sem_kernel_ok_def)
next
  case (resume A e p s timed_out s' x)
  then show ?case using semtimedop_resume_inv [of A s e p] by simp
next
  case (clone e A tsk s flags s' err)
  then show ?case using copy_semundo_inv [of A s e tsk] by (simp add: caller_ok_def sem_kernel_ok_def)
next
  case (exit A tsk s fuel e s' wake)
  then show ?case using exit_impl [of A s tsk fuel e] by auto
next
  case (proc um s p s' line A)
  then show ?case using proc_show_inv [of A s] by simp
next
  case (limits s A d c b a)
  let ?s = "s\<lparr>sc_semmsl := a, sc_semmns := b, sc_semopm := c, sc_semmni := d\<rparr>"
  have inv: "sem_inv A s" using limits by simp
  have "undo_links ?s" using inv_parts(2) [OF inv] by (simp add: undo_links_def)
  moreover have "undo_users A ?s" using inv_parts(3) [OF inv] unfolding undo_users_def waits_def by (simp) blast
  ultimately have "sem_inv A ?s" by (intro lists_inv [OF inv]) simp_all
  then show ?case by simp
qed

definition sem_reachable :: "sem_sys \<Rightarrow> bool" where
  "sem_reachable x \<longleftrightarrow> (\<exists>s. sys_step\<^sup>*\<^sup>* (sem_boot s, Map.empty) x)"

lemma reachable_inv:
  assumes "sem_reachable (s, A)"
  shows "sem_inv A s"
proof -
  have "sys_step\<^sup>*\<^sup>* x y \<Longrightarrow> sem_inv (snd x) (fst x) \<Longrightarrow> sem_inv (snd y) (fst y)" for x y
    by (induction rule: rtranclp_induct) (auto intro: sys_step_inv)
  then show ?thesis using assms boot_inv unfolding sem_reachable_def by fastforce
qed

lemma reachable_step: "sem_reachable x \<Longrightarrow> sys_step x y \<Longrightarrow> sem_reachable y"
  unfolding sem_reachable_def by (meson rtranclp.rtrancl_into_rtrancl)

lemma boot_reachable: "sem_reachable (sem_boot s, Map.empty)"
  unfolding sem_reachable_def by blast

section \<open>A sample system\<close>

definition demo_lsm :: sem_lsm where
  "demo_lsm = \<lparr>sl_alloc = None, sl_ipc = (\<lambda>_ _. None), sl_associate = (\<lambda>_ _. None), sl_semctl = (\<lambda>_ _. None), sl_semop = (\<lambda>_ _ _. None)\<rparr>"

definition demo_env :: "nat \<Rightarrow> sem_env" where
  "demo_env t = \<lparr>se_task = plain_env t 1000, se_lsm = demo_lsm,
     se_maps = \<lparr>from_kuid = int, from_kgid = int, make_kuid = (\<lambda>u. Some (nat u)), make_kgid = (\<lambda>g. Some (nat g)),
                set_uid = (\<lambda>x. x), set_gid = (\<lambda>x. x), pid_vnr = (\<lambda>_. 0)\<rparr>,
     se_alloc = first_free, se_kht = None, se_new = (\<lambda>used. if used 9 then None else Some 9), se_max = 1000, se_buf = True\<rparr>"

lemma demo_kernel: "sem_kernel_ok (demo_env t)"
  by (auto simp: sem_kernel_ok_def demo_env_def first_free_ok kmalloc_ok_def split: if_splits)

definition demo_ns :: sem_ns where
  "demo_ns = sem_boot \<lparr>sem_ids = ipc_init_ids, sc_semmsl = 0, sc_semmns = 0, sc_semopm = 0, sc_semmni = 0, used_sems = 0,
     sem_stacks = Map.empty, sem_undos = Map.empty, sem_ulps = Map.empty, task_ulp = Map.empty\<rparr>"

definition demo_array :: sem_array where
  "demo_array =
     \<lparr>perm_deleted = False, perm_id = 0, perm_key = 0, perm_uid = 1000, perm_gid = 1000,
      perm_cuid = 1000, perm_cgid = 1000, perm_mode = 384, perm_seq = 0, perm_refcount = 1,
      sem_ctime = 1000, pending_alter = [], pending_const = [], list_id = [],
      complex_count = 0, use_global_lock = 9,
      sems = [\<lparr>semval = 0, sempid = None, sem_alter = [], sem_const = [], sem_otime = 0\<rparr>]\<rparr>"

definition demo_got :: sem_ns where "demo_got = fst (ksys_semget (demo_env 1) 0 1 384 demo_ns)"

lemma demo_ns_eval: "demo_ns = \<lparr>sem_ids = ipc_init_ids, sc_semmsl = 32000, sc_semmns = 1024000000, sc_semopm = 500, sc_semmni = 32000, used_sems = 0,
     sem_stacks = Map.empty, sem_undos = Map.empty, sem_ulps = Map.empty, task_ulp = Map.empty\<rparr>"
  by (simp add: demo_ns_def sem_boot_def sem_init_ns_def SEMMNI_def SEMMSL_def SEMMNS_def SEMOPM_def)

lemma demo_get: "ksys_semget (demo_env 1) 0 1 384 demo_ns = (demo_got, Inr 0)"
  and demo_got_fields: "objs (sem_ids demo_got) = [9 \<mapsto> demo_array]" "sem_stacks demo_got = Map.empty" "sem_undos demo_got = Map.empty"
    "ipcs_idr (sem_ids demo_got) = [(0, 9)]" "sc_semopm demo_got = 500" "task_ulp demo_got = Map.empty"
proof -
  let ?par = "\<lparr>par_key = 0, par_flg = 384, par_nsems = 1\<rparr>"
  define ids0 where "ids0 = objs_update (\<lambda>h. h(9 \<mapsto> fresh_array (demo_env 1) ?par)) (ipc_init_ids :: sem_array ipc_ids)"
  have o: "objs ids0 9 = Some (fresh_array (demo_env 1) ?par)" by (simp add: ids0_def)
  have ff: "first_free (ipcs_idr ids0) 0 (min (max (in_use ids0 * 3 div 2) ipc_min_cycle) ipc_mni) = Inr 0"
    by (simp add: ids0_def ipc_init_ids_def ipc_min_cycle_def ipc_mni_def first_free_0)
  have lim: "in_use ids0 < (if 32000 > ipc_mni then ipc_mni else 32000)"
    by (simp add: ids0_def ipc_init_ids_def ipc_mni_def)
  have add: "ipc_addid (plain_env 1 1000) first_free None ids0 9 32000 = (added_ids (plain_env 1 1000) 0 9 0 ids0, Inr 0)"
    unfolding ipc_addid_cases [where alloc = first_free, OF o lim ff] by (simp add: fresh_array_def)
  have "ipcs_idr (added_ids (plain_env 1 1000) 0 9 0 ids0) = [(0, 9)] \<and> objs (added_ids (plain_env 1 1000) 0 9 0 ids0) =
     [9 \<mapsto> demo_array\<lparr>use_global_lock := 10\<rparr>]"
    by (simp add: added_ids_def added_perm_def next_seq_def ids0_def ipc_init_ids_def ipcid_make_def c_int_def
       fresh_array_def demo_env_def plain_env_def demo_array_def upd_obj_def USE_GLOBAL_LOCK_HYSTERESIS_def S_IRWXUGO_def idr_replace_def)
  note A = this
  have get: "ksys_semget (demo_env 1) 0 1 384 demo_ns = newary (demo_env 1) ?par demo_ns"
    by (simp add: ksys_semget_def demo_ns_eval ipcget_def IPC_PRIVATE_def ipcget_new_def)
  have al: "sem_alloc (demo_env 1) demo_ns 1 = Some 9"
    by (simp add: sem_alloc_def demo_env_def demo_ns_eval ipc_init_ids_def)
  have new: "newary (demo_env 1) ?par demo_ns =
      (sma_unlock 9 (-1) (demo_ns\<lparr>sem_ids := added_ids (plain_env 1 1000) 0 9 0 ids0, used_sems := 1\<rparr>), Inr 0)"
  proof -
    have "se_task (demo_env 1) = plain_env 1 1000" "se_alloc (demo_env 1) = first_free" "se_kht (demo_env 1) = None" "sl_alloc (se_lsm (demo_env 1)) = None"
      by (simp_all add: demo_env_def demo_lsm_def)
    moreover have "sem_ids demo_ns = ipc_init_ids" "used_sems demo_ns = 0" "sc_semmns demo_ns = 1024000000" "sc_semmni demo_ns = 32000"
      by (simp_all add: demo_ns_eval)
    ultimately show ?thesis
      using add A al unfolding ids0_def by (simp add: newary_def Let_def c_int_def demo_array_def)
  qed
  have got: "demo_got = sma_unlock 9 (-1) (demo_ns\<lparr>sem_ids := added_ids (plain_env 1 1000) 0 9 0 ids0, used_sems := 1\<rparr>)"
    unfolding demo_got_def get new by simp
  show "ksys_semget (demo_env 1) 0 1 384 demo_ns = (demo_got, Inr 0)" unfolding got get new ..
  show "objs (sem_ids demo_got) = [9 \<mapsto> demo_array]"
    using A by (auto simp: got sma_unlock_def sem_unlock_def SEM_GLOBAL_LOCK_def unmerge_queues_def complexmode_tryleave_def demo_array_def)
  show "sem_stacks demo_got = Map.empty" "sem_undos demo_got = Map.empty" "sc_semopm demo_got = 500" "ipcs_idr (sem_ids demo_got) = [(0, 9)]"
    "task_ulp demo_got = Map.empty"
    using A by (simp_all add: got sma_unlock_def demo_ns_eval)
qed

text \<open>Task 7 takes one from the empty semaphore.\<close>

definition demo_slept :: sem_ns where
  "demo_slept = fst (ksys_semtimedop (demo_env 7) demo_got 0 1 (Some [sample_sop (-1)]) None)"

lemma demo_sleep: "ksys_semtimedop (demo_env 7) demo_got 0 1 (Some [sample_sop (-1)]) None = (demo_slept, [], SemBlocked 9)"
  and demo_slept_fields: "objs (sem_ids demo_slept) 9 = Some (demo_array\<lparr>use_global_lock := 8, sems := [\<lparr>semval = 0, sempid = None, sem_alter = [7], sem_const = [], sem_otime = 0\<rparr>]\<rparr>)"
    "q_status_of (sem_stacks demo_slept) 7 = Some EINTR" "task_ulp demo_slept = Map.empty"
    "ipcs_idr (sem_ids demo_slept) = [(0, 9)]"
proof -
  have sc: "scan_sops [sample_sop (-1)] = \<lparr>sf_max = 0, sf_undos = False, sf_alter = True, sf_dupsop = False, sf_dup = 1\<rparr>"
    by (simp add: sample_sop_def scan_sops_def scan_sop_def no_flags_def wants_undo_def SEM_UNDO_def Let_def)
  have ob: "sem_obtain_object_check demo_got 0 = Inr 9"
    by (simp add: sem_obtain_object_check_def ipc_obtain_object_check_def demo_got_fields ipc_obtain_object_idr_def idr_find_def ipcid_to_idx_def ipc_checkid_def demo_array_def ipcid_defs)
  have perm: "ipcperms (plain_env 7 1000) (\<lambda>_ _. None) demo_array S_IWUGO = None"
    by (simp add: ipcperms_def plain_env_def demo_array_def S_IWUGO_def)
  let ?q = "\<lparr>q_sleeper = 7, q_undo = None, q_pid = 7, q_status = Some EINTR, q_sops = [sample_sop (-1)],
      q_blocking = None, q_alter = True, q_dupsop = False\<rparr>"
  have env: "se_task (demo_env 7) = plain_env 7 1000" "se_lsm (demo_env 7) = demo_lsm" by (simp_all add: demo_env_def)
  have lock: "sem_lock (Some [sample_sop (-1)]) demo_array = (demo_array, -1)"
    by (simp add: sem_lock_def demo_array_def SEM_GLOBAL_LOCK_def)
  have o: "objs (sem_ids demo_got) 9 = Some demo_array" by (simp add: demo_got_fields)
  have val: "ipc_valid_object (sem_ids demo_got) 9" by (simp add: ipc_valid_object_def o demo_array_def)
  have start: "ksys_semtimedop (demo_env 7) demo_got 0 1 (Some [sample_sop (-1)]) None = semtimedop_perform (demo_env 7) demo_got 9 (-1) ?q"
  proof -
    have n: "sem_nsems demo_array = 1" by (simp add: demo_array_def)
    have c: "cur_task (plain_env 7 1000) = 7" "cur_tgid (plain_env 7 1000) = 7" by (simp_all add: plain_env_def)
    show ?thesis
      using ob perm o lock val upd_sma_id [OF o] n
      by (simp add: ksys_semtimedop_def do_semtimedop_def semtimedop_start_def sc Let_def SEMOPM_FAST_def demo_got_fields(5) env demo_lsm_def c
        del: upd_sma_fields(1))
  qed
  have perf: "perform_atomic_semop demo_array Map.empty ?q = (demo_array, Map.empty, ?q\<lparr>q_blocking := Some (sample_sop (-1))\<rparr>, SemSleep)"
    by (simp add: perform_atomic_semop_def sample_sop_def semop_fast_scan.simps array_index_nospec_def block_result_def IPC_NOWAIT_def demo_array_def)
  let ?ss = "[\<lparr>semval = 0, sempid = None, sem_alter = [7], sem_const = [], sem_otime = 0\<rparr>]"
  have enq: "enqueue_sop 7 [sample_sop (-1)] True demo_array = demo_array\<lparr>sems := ?ss\<rparr>"
    by (simp add: enqueue_sop_def demo_array_def sample_sop_def upd_sem_def)
  have unl: "sem_unlock st (-1) (demo_array\<lparr>sems := ?ss\<rparr>) = demo_array\<lparr>use_global_lock := 8, sems := ?ss\<rparr>" for st
    by (simp add: sem_unlock_def SEM_GLOBAL_LOCK_def unmerge_queues_def complexmode_tryleave_def demo_array_def)
  have v: "sw_sma (view demo_got demo_array) = demo_array" "sw_undos (view demo_got demo_array) = Map.empty"
    by (simp_all add: demo_got_fields)
  have sec: "semop_section 1000 7 ?q (-1) (view demo_got demo_array) =
      (\<lparr>sw_sma = demo_array\<lparr>use_global_lock := 8, sems := ?ss\<rparr>, sw_undos = Map.empty,
        sw_stacks = [7 \<mapsto> ?q\<lparr>q_blocking := Some (sample_sop (-1))\<rparr>], sw_wake = []\<rparr>, SemSleep)"
    unfolding semop_section_def v perf by (simp add: sw_unlock_def view_def demo_got_fields enq unl)
  show "ksys_semtimedop (demo_env 7) demo_got 0 1 (Some [sample_sop (-1)]) None = (demo_slept, [], SemBlocked 9)"
    "objs (sem_ids demo_slept) 9 = Some (demo_array\<lparr>use_global_lock := 8, sems := [\<lparr>semval = 0, sempid = None, sem_alter = [7], sem_const = [], sem_otime = 0\<rparr>]\<rparr>)"
    "q_status_of (sem_stacks demo_slept) 7 = Some EINTR" "task_ulp demo_slept = Map.empty"
    "ipcs_idr (sem_ids demo_slept) = [(0, 9)]"
  using run_section_put [where f = "semop_section 1000 7 ?q (-1)", OF o sec]
  unfolding demo_slept_def start
  by (simp_all add: semtimedop_perform_def env plain_env_def q_status_of_def demo_got_fields)
qed

lemma demo_got_reachable: "sem_reachable (demo_got, Map.empty)"
proof -
  have "sem_reachable (demo_ns, Map.empty)" unfolding demo_ns_def by (rule boot_reachable)
  moreover have "sys_step (demo_ns, Map.empty) (demo_got, Map.empty)"
    by (rule sys_step.get [OF _ demo_get]) (simp add: caller_ok_def demo_kernel)
  ultimately show ?thesis by (rule reachable_step)
qed

lemma demo_slept_reachable: "sem_reachable (demo_slept, [7 \<mapsto> 9])"
proof -
  have c: "cur_task (se_task (demo_env 7)) = 7" by (simp add: demo_env_def plain_env_def)
  have "caller_ok (demo_env 7) Map.empty" by (simp add: caller_ok_def demo_kernel)
  from sys_step.op [OF this demo_sleep] have "sys_step (demo_got, Map.empty) (demo_slept, [7 \<mapsto> 9])" by (simp add: c)
  then show ?thesis by (rule reachable_step [OF demo_got_reachable])
qed

section \<open>Properties\<close>

text \<open>C3. In every reachable state of a namespace a task that sleeps in \<^verbatim>\<open>semtimedop\<close> without an
  answer sleeps on an array that is in the table, is queued there, and could not proceed: no
  wake-up is lost over any interleaving of the calls, the tunables and the exits of tasks.
\<close>

theorem sleepers_safe:
  assumes "sem_reachable (s, A)" "A t = Some p" "q_status_of (sem_stacks s) t = Some EINTR"
  shows "\<exists>a. objs (sem_ids s) p = Some a \<and> p \<in> snd ` set (ipcs_idr (sem_ids s)) \<and> t \<in> set (waiters a)
    \<and> snd (try_sleeper t (view s a)) \<noteq> SemDone
    \<and> (t \<in> set (alter_waiters a) \<longrightarrow> snd (try_sleeper t (view s a)) = SemSleep)"
proof -
  have inv: "sem_inv A s" by (rule reachable_inv [OF assms(1)])
  have w: "waits A s p t" using assms(2,3) by (simp add: waits_def)
  obtain a where a: "objs (sem_ids s) p = Some a" using inv_parts(6) [OF inv w] by blast
  note ia = inv_array [OF inv a]
  have t: "t \<in> set (waiters a)" using ia(4) w by simp
  have "in_order (view s a)" using ia(3) by (simp add: arr_inv_def)
  from settled_not_done [OF this, of t] t a ia(1) show ?thesis by auto
qed

theorem sleepers_safe_witness: "\<exists>a. objs (sem_ids demo_slept) 9 = Some a \<and> 7 \<in> set (waiters a) \<and> snd (try_sleeper 7 (view demo_slept a)) \<noteq> SemDone"
  using sleepers_safe [OF demo_slept_reachable, of 7 9] demo_slept_fields(2) by auto





text \<open>The release of a namespace ends and leaves nothing: within one round per possible index
  every array is freed, no semaphore is in use, no undo structure is left and every task that
  slept without an answer has got one.
\<close>

theorem exit_ns_empties:
  assumes "sem_reachable (s, A)"
  shows "\<exists>s'. ds_sem_exit_ns (nat ipc_mni) s = Some s' \<and> (\<forall>p. objs (sem_ids s') p = None) \<and> ipcs_idr (sem_ids s') = []
    \<and> used_sems s' = 0 \<and> sem_undos s' = Map.empty
    \<and> (\<forall>t p. A t = Some p \<longrightarrow> q_status_of (sem_stacks s') t \<noteq> Some EINTR)"
proof -
  obtain s' where s': "ds_free_ipcs (nat ipc_mni) sem_ids (\<lambda>s p. fst (freeary s p)) s = Some s'" "sem_inv A s'" "ipcs_idr (sem_ids s') = []"
    using sem_class.free_all [OF reachable_inv [OF assms]] by blast
  note E = empty_ns [OF s'(2,3)]
  have "sem_undos s' = Map.empty" using E(3) by (rule ext)
  moreover have "q_status_of (sem_stacks s') t \<noteq> Some EINTR" if "A t = Some p" for t p using E(4) [of p t] that by (simp add: waits_def)
  ultimately show ?thesis using s' E(1,2) unfolding ds_sem_exit_ns_def by blast
qed

theorem exit_ns_empties_witness: "\<exists>s'. ds_sem_exit_ns (nat ipc_mni) demo_slept = Some s' \<and> ipcs_idr (sem_ids s') = [] \<and> used_sems s' = 0"
  using exit_ns_empties [OF demo_slept_reachable] by blast

text \<open>A successful \<^verbatim>\<open>semget\<close> in a reachable state returns an id that resolves to an array with the
  requested key; with \<^verbatim>\<open>IPC_PRIVATE\<close> it is a new one with as many semaphores as requested, which
  count as used.
\<close>

theorem semget_resolves:
  assumes "sem_reachable (s, A)" "sem_kernel_ok e" "ksys_semget e k nsems semflg s = (s', Inr i)"
  shows "\<exists>p a. sem_obtain_object_check s' i = Inr p \<and> objs (sem_ids s') p = Some a \<and> perm_key a = k
    \<and> (k = IPC_PRIVATE \<longrightarrow> int (sem_nsems a) = nsems \<and> used_sems s' = used_sems s + nsems)"
proof -
  have inv: "sem_inv A s" by (rule reachable_inv [OF assms(1)])
  have n: "0 \<le> nsems" "nsems \<le> sc_semmsl s" using assms(3) by (auto simp: ksys_semget_def split: if_splits)
  obtain p a where a: "ipc_obtain_object_check (sem_ids s') i = Inr p" "objs (sem_ids s') p = Some a" "perm_key a = k"
    using sem_getter.ipcget_ok [OF conjI [OF inv assms(2)] _ semget_getter [OF assms(3) n]] by auto
  have "int (sem_nsems a) = nsems \<and> used_sems s' = used_sems s + nsems" if "k = IPC_PRIVATE"
  proof -
    have "newary e \<lparr>par_key = k, par_flg = semflg, par_nsems = nsems\<rparr> s = (s', Inr i)"
      using assms(3) n that by (simp add: ksys_semget_def ipcget_def ipcget_new_def)
    from newary_inv(2) [OF inv assms(2) _ _ this refl] n that a(1,2) show ?thesis by auto
  qed
  then show ?thesis using a unfolding sem_obtain_object_check_def by blast
qed

theorem semget_resolves_witness: "\<exists>p a. sem_obtain_object_check demo_got 0 = Inr p \<and> objs (sem_ids demo_got) p = Some a \<and> int (sem_nsems a) = 1"
proof -
  have "sem_reachable (demo_ns, Map.empty)" unfolding demo_ns_def by (rule boot_reachable)
  from semget_resolves [OF this demo_kernel demo_get] show ?thesis by (auto simp: IPC_PRIVATE_def)
qed

text \<open>C12. A successful \<^verbatim>\<open>IPC_RMID\<close> in a reachable state: the id no longer resolves, all tasks that
  waited on the array have the answer \<^verbatim>\<open>EIDRM\<close>, its undo structures are freed, its semaphores no
  longer count, and every other array is untouched.
\<close>

theorem semctl_rmid:
  assumes "sem_reachable (s, A)" "semctl_down e s semid IPC_RMID perm = (s', wake, Inr v)"
  shows "\<exists>p a. sem_obtain_object_check s semid = Inr p \<and> objs (sem_ids s) p = Some a
    \<and> sem_obtain_object_check s' semid = Inl EINVAL
    \<and> (\<forall>t \<in> set (waiters a). q_status_of (sem_stacks s') t = Some EIDRM)
    \<and> (\<forall>un u. sem_undos s' un = Some u \<longrightarrow> un_semid u \<noteq> semid)
    \<and> used_sems s' = used_sems s - int (sem_nsems a)
    \<and> (\<forall>p'. p' \<noteq> p \<longrightarrow> objs (sem_ids s') p' = objs (sem_ids s) p')"
proof -
  have inv: "sem_inv A s" by (rule reachable_inv [OF assms(1)])
  have inv': "sem_inv A s'" by (rule semctl_down_inv [OF inv assms(2)])
  obtain p where p: "ipcctl_obtain_check (se_task e) (sem_ids s) semid = Inr p"
    using assms(2) by (auto simp: semctl_down_def split: sum.splits)
  then have ob: "sem_obtain_object_check s semid = Inr p"
    by (auto simp: ipcctl_obtain_check_def sem_obtain_object_check_def split: sum.splits option.splits if_splits)
  then obtain a where a: "objs (sem_ids s) p = Some a" "perm_id a = semid" by (rule inv_obtain [OF inv])
  have f: "freeary (sma_lock p s) p = (s', wake)"
    using assms(2) p a(1) by (simp add: semctl_down_def split: option.splits prod.splits)
  obtain i where i: "map_of (ipcs_idr (sem_ids s)) i = Some p" by (rule linked_index [OF inv_parts(1) [OF inv] inv_array(1) [OF inv a(1)]])
  let ?l = "sma_lock p s" and ?b = "complexmode_enter a"
  have l: "?l = upd_sma p (\<lambda>_. ?b) s"
    using sma_lock_const(1) [OF a(1)] by (simp add: sma_lock_const(2) [OF a(1)])
  have b: "perm_header ?b = perm_header a" "waiters ?b = waiters a" "sem_nsems ?b = sem_nsems a"
    by (simp_all add: complexmode_enter_def perm_header_def waiters_def alter_waiters_def const_waiters_def)
  have ol: "objs (sem_ids ?l) p = Some ?b" using a(1) by (simp add: l)
  have wfl: "ids_wf (sem_ids ?l)"
    unfolding l upd_sma_fields by (rule ids_wf_upd_obj [OF inv_parts(1) [OF inv]]) (use a(1) header_fields(1) [OF b(1)] in simp)
  have il: "map_of (ipcs_idr (sem_ids ?l)) i = Some p" using i by (simp add: l)
  have rl: "perm_refcount ?b = 1" using inv_array(2) [OF inv a(1)] header_fields(3) [OF b(1)] by simp
  note F = freeary_fields [OF wfl il ol rl f]
  have same: "objs (sem_ids s') r = objs (sem_ids s) r" if "r \<noteq> p" for r using F(3) [OF that] that by (simp add: l)
  have st: "q_status_of (sem_stacks s') t = Some EIDRM" if "t \<in> set (waiters a)" for t
  proof -
    have "waits A s p t" using inv_array(4) [OF inv a(1)] that by simp
    then obtain q where "sem_stacks s t = Some q" by (cases "sem_stacks s t") (auto simp: waits_def q_status_of_def)
    then show ?thesis using F(9) [of t] that b(2) by (simp add: l q_status_of_def)
  qed
  have no: "perm_id b' \<noteq> semid" if b': "objs (sem_ids s') r = Some b'" for r b'
  proof -
    have r: "r \<noteq> p" using b' F(4) by auto
    then have "objs (sem_ids s) r = Some b'" using same b' by simp
    from inv_perm_id_inj [OF inv this a(1)] show ?thesis using r a(2) by auto
  qed
  have "sem_obtain_object_check s' semid = Inl EINVAL"
  proof (cases "sem_obtain_object_check s' semid")
    case (Inl err)
    then show ?thesis using obtain_check_Inl unfolding sem_obtain_object_check_def by auto
  next
    case (Inr r)
    then obtain b' where "objs (sem_ids s') r = Some b'" "perm_id b' = semid" by (rule inv_obtain [OF inv'])
    then show ?thesis using no by blast
  qed
  moreover have "un_semid u \<noteq> semid" if u: "sem_undos s' un = Some u" for un u
  proof -
    obtain r b' where "objs (sem_ids s') r = Some b'" "perm_id b' = un_semid u" by (rule undo_dest [OF inv' u])
    then show ?thesis using no by metis
  qed
  moreover have "used_sems s' = used_sems s - int (sem_nsems a)" using F(8) b(3) by (simp add: l)
  ultimately show ?thesis using ob a(1) st same by blast
qed

theorem semctl_rmid_witness:
  "\<exists>s' wake. semctl_down (demo_env 1) demo_slept 0 IPC_RMID zero_sem_perm = (s', wake, Inr 0)
    \<and> q_status_of (sem_stacks s') 7 = Some EIDRM \<and> sem_obtain_object_check s' 0 = Inl EINVAL"
proof -
  let ?a = "demo_array\<lparr>use_global_lock := 8, sems := [\<lparr>semval = 0, sempid = None, sem_alter = [7], sem_const = [], sem_otime = 0\<rparr>]\<rparr>"
  have h: "perm_id ?a = 0" "perm_cuid ?a = 1000" "7 \<in> set (waiters ?a)"
    by (simp_all add: demo_array_def waiters_def alter_waiters_def)
  have ob: "ipc_obtain_object_check (sem_ids demo_slept) 0 = Inr 9"
    by (simp add: ipc_obtain_object_check_def demo_slept_fields ipc_obtain_object_idr_def idr_find_def ipcid_to_idx_def ipc_checkid_def demo_array_def ipcid_defs)
  obtain s' w where f: "freeary (sma_lock 9 demo_slept) 9 = (s', w)" by fastforce
  have "cur_euid (se_task (demo_env 1)) = 1000" "sl_semctl (se_lsm (demo_env 1)) = (\<lambda>_ _. None)"
    by (simp_all add: demo_env_def plain_env_def demo_lsm_def)
  then have d: "semctl_down (demo_env 1) demo_slept 0 IPC_RMID zero_sem_perm = (s', w, Inr 0)"
    using f ob h demo_slept_fields(1) by (simp add: semctl_down_def ipcctl_obtain_check_def)
  from semctl_rmid [OF demo_slept_reachable d] obtain a where
    "objs (sem_ids demo_slept) 9 = Some a" "\<forall>t \<in> set (waiters a). q_status_of (sem_stacks s') t = Some EIDRM"
    "sem_obtain_object_check s' 0 = Inl EINVAL"
    using ob unfolding sem_obtain_object_check_def by auto
  moreover have "7 \<in> set (waiters a)" using calculation(1) h(3) demo_slept_fields(1) by simp
  ultimately show ?thesis using d by blast
qed

text \<open>C40. The loop of the exit ends only when its head structure resolves in the namespace it is
  given. If the id of the head is not one of that namespace, as for a list filled in another
  one, no number of rounds ends it.
\<close>

theorem exit_loop_spins:
  assumes "sem_ulps s l = Some ul" "ul_list ul = un # uns" "sem_undos s un = Some u" "sem_obtain_object_check s (un_semid u) = Inl err"
  shows "exit_sem_loop fuel e l s wake = None"
  using assms by (induction fuel) (simp_all add: exit_sem_loop.simps(2) Let_def)

theorem exit_loop_spins_witness:
  "exit_sem_loop 1000 (demo_env 3) 4
     (demo_ns\<lparr>sem_ulps := [4 \<mapsto> \<lparr>ul_refcnt = 0, ul_list = [5]\<rparr>], sem_undos := [5 \<mapsto> \<lparr>un_ulp = 4, un_semid = 0, semadj = [1]\<rparr>]\<rparr>) [] = None"
  by (rule exit_loop_spins [of _ _ "\<lparr>ul_refcnt = 0, ul_list = [5]\<rparr>" 5 "[]" "\<lparr>un_ulp = 4, un_semid = 0, semadj = [1]\<rparr>" EINVAL])
    (simp_all add: demo_ns_eval sem_obtain_object_check_def ipc_obtain_object_check_def ipc_obtain_object_idr_def idr_find_def ipc_init_ids_def)

end
