(* ===== verification/ShmSeg.thy ===== *)
theory ShmSeg
  imports Compat32
begin

text \<open>
  System V shared memory segments (\<^verbatim>\<open>src/src/main/ipcns/sysv/ipc_shm.c\<close>): the segments of a
  namespace, their backing files, \<^verbatim>\<open>shmget\<close>, \<^verbatim>\<open>shmctl\<close> with its 32 bit variant, the callbacks a
  mapping makes, the exit of a creator and the release of a namespace.

  Pages and mappings belong to the kernel. What the code relies on is here: the backing files
  with their reference counts, and the open files of the attaches with their private data. The
  lists of segments by creator are \<open>shm_lists\<close>, a task without an entry being \<open>None\<close>.
  \<open>shm_oops\<close> is set where the code follows a pointer that is null or an error code.
\<close>

unbundle bit_operations_syntax

section \<open>State\<close>

definition SHMMIN :: "64 word" where "SHMMIN = 1"
definition SHMMNI :: int where "SHMMNI = 4096"
definition SHMMAX :: "64 word" where "SHMMAX = - 1 - 2 ^ 24"
definition SHMALL :: "64 word" where "SHMALL = - 1 - 2 ^ 24"
definition PAGE_SHIFT :: nat where "PAGE_SHIFT = 12"
definition PAGE_SIZE :: "64 word" where "PAGE_SIZE = 4096"

definition SHM_DEST :: int where "SHM_DEST = 512"
definition SHM_LOCKED :: int where "SHM_LOCKED = 1024"
definition SHM_HUGETLB :: int where "SHM_HUGETLB = 2048"
definition SHM_NORESERVE :: int where "SHM_NORESERVE = 4096"
definition SHM_HUGE_SHIFT :: nat where "SHM_HUGE_SHIFT = 26"
definition SHM_HUGE_MASK :: int where "SHM_HUGE_MASK = 63"

definition SHM_LOCK :: int where "SHM_LOCK = 11"
definition SHM_UNLOCK :: int where "SHM_UNLOCK = 12"
definition SHM_STAT :: int where "SHM_STAT = 13"
definition SHM_INFO :: int where "SHM_INFO = 14"
definition SHM_STAT_ANY :: int where "SHM_STAT_ANY = 15"

lemmas shm_cmds = SHM_LOCK_def SHM_UNLOCK_def SHM_STAT_def SHM_INFO_def SHM_STAT_ANY_def

text \<open>\<open>shm_mlock\<close> is the object that locked pages are accounted to.\<close>

record shmid_kernel = kern_ipc_perm +
  shm_file :: "ptr option"
  shm_nattch :: int
  shm_segsz :: "64 word"
  shm_atim :: int
  shm_dtim :: int
  shm_ctim :: int
  shm_cprid :: "nat option"
  shm_lprid :: "nat option"
  shm_mlock :: "nat option"
  shm_creator :: nat

text \<open>A backing file, and the private data of the file of an attach.\<close>

record base_file =
  fl_count :: nat
  fl_size :: "64 word"
  fl_huge :: bool

record shm_file_data =
  sf_id :: int
  sf_file :: ptr

record shm_ns =
  shm_ids :: "shmid_kernel ipc_ids"
  shm_ctlmax :: "64 word"
  shm_ctlall :: "64 word"
  shm_ctlmni :: int
  shm_rmid_forced :: bool
  shm_tot :: "64 word"
  shm_lists :: "nat \<rightharpoonup> ptr list"
  shm_bases :: "ptr \<rightharpoonup> base_file"
  shm_outer :: "ptr \<rightharpoonup> shm_file_data"
  shm_oops :: bool

record shm_lsm =
  hl_alloc :: "errno option"
  hl_ipc :: lsm_hook
  hl_associate :: lsm_hook
  hl_shmctl :: "kern_ipc_perm option \<Rightarrow> int \<Rightarrow> errno option"
  hl_shmat :: "kern_ipc_perm \<Rightarrow> 64 word \<Rightarrow> int \<Rightarrow> errno option"

text \<open>
  What a call gets from the kernel: \<open>he_setup\<close> sets a backing file up (huge, size, no reserve),
  \<open>he_hstate\<close> is the size of the huge pages an encoding stands for, \<open>he_list\<close> the success of
  allocating the caller's entry, \<open>he_acct\<close> the object locked pages are accounted to, \<open>he_mlock\<close> the answer of \<^verbatim>\<open>shmem_lock\<close>, \<open>he_memlock\<close> whether
  the caller may lock memory at all, \<open>he_pages\<close>, \<open>he_swapped\<close> and \<open>he_per_huge\<close> the counters of
  a file's pages.
\<close>

record shm_env =
  he_task :: task_env
  he_lsm :: shm_lsm
  he_maps :: user_maps
  he_alloc :: idr_alloc
  he_kht :: "errno option"
  he_new :: kmalloc
  he_setup :: "bool \<Rightarrow> 64 word \<Rightarrow> bool \<Rightarrow> errno option"
  he_hstate :: "int \<Rightarrow> 64 word option"
  he_overcommit_never :: bool
  he_list :: bool
  he_acct :: nat
  he_mlock :: "errno option"
  he_memlock :: bool
  he_pages :: "ptr \<Rightarrow> 64 word"
  he_swapped :: "ptr \<Rightarrow> 64 word"
  he_per_huge :: "ptr \<Rightarrow> 64 word"

definition shm_init_ns :: "shm_ns \<Rightarrow> shm_ns" where
  "shm_init_ns s = s\<lparr>shm_ctlmax := SHMMAX, shm_ctlall := SHMALL, shm_ctlmni := SHMMNI, shm_rmid_forced := False,
     shm_tot := 0, shm_ids := ipc_init_ids\<rparr>"

definition shm_obtain_object :: "shm_ns \<Rightarrow> int \<Rightarrow> ptr result" where
  "shm_obtain_object s i = ipc_obtain_object_idr (shm_ids s) i"

definition shm_obtain_object_check :: "shm_ns \<Rightarrow> int \<Rightarrow> ptr result" where
  "shm_obtain_object_check s i = ipc_obtain_object_check (shm_ids s) i"

definition upd_shp :: "ptr \<Rightarrow> (shmid_kernel \<Rightarrow> shmid_kernel) \<Rightarrow> shm_ns \<Rightarrow> shm_ns" where
  "upd_shp p f = shm_ids_update (upd_obj p f)"

text \<open>The lookup under the object's lock; it goes by the index alone.\<close>

definition shm_lock :: "shm_ns \<Rightarrow> int \<Rightarrow> ptr result" where
  "shm_lock s i =
     (case ipc_obtain_object_idr (shm_ids s) i of
        Inl err \<Rightarrow> Inl err
      | Inr p \<Rightarrow> if ipc_valid_object (shm_ids s) p then Inr p else Inl EIDRM)"

section \<open>Backing files\<close>

definition get_file :: "ptr \<Rightarrow> shm_ns \<Rightarrow> shm_ns" where
  "get_file b s = s\<lparr>shm_bases := (shm_bases s)(b := map_option (fl_count_update Suc) (shm_bases s b))\<rparr>"

definition fput :: "ptr \<Rightarrow> shm_ns \<Rightarrow> shm_ns" where
  "fput b s =
     (case shm_bases s b of
        None \<Rightarrow> s\<lparr>shm_oops := True\<rparr>
      | Some f \<Rightarrow> s\<lparr>shm_bases := (shm_bases s)(b := if fl_count f = 1 then None else Some (f\<lparr>fl_count := fl_count f - 1\<rparr>))\<rparr>)"

section \<open>Destruction\<close>

definition num_pages :: "64 word \<Rightarrow> 64 word" where
  "num_pages sz = drop_bit PAGE_SHIFT (sz + PAGE_SIZE - 1)"

definition shm_clist_rm :: "shm_ns \<Rightarrow> ptr \<Rightarrow> shm_ns" where
  "shm_clist_rm s p =
     (case objs (shm_ids s) p of
        None \<Rightarrow> s
      | Some shp \<Rightarrow>
          s\<lparr>shm_lists := (shm_lists s)(shm_creator shp := map_option (remove1 p) (shm_lists s (shm_creator shp)))\<rparr>)"

definition shm_rmid :: "shm_ns \<Rightarrow> ptr \<Rightarrow> shm_ns" where
  "shm_rmid s p = shm_ids_update (\<lambda>ids. ipc_rmid ids p) (shm_clist_rm s p)"

definition shm_destroy :: "shm_ns \<Rightarrow> ptr \<Rightarrow> shm_ns" where
  "shm_destroy s p =
     (case objs (shm_ids s) p of
        None \<Rightarrow> s
      | Some shp \<Rightarrow>
          (let s = upd_shp p (\<lambda>shp. shp\<lparr>shm_file := None\<rparr>) s;
               s = s\<lparr>shm_tot := shm_tot s - num_pages (shm_segsz shp)\<rparr>;
               s = shm_rmid s p;
               s = (case shm_file shp of None \<Rightarrow> s\<lparr>shm_oops := True\<rparr> | Some b \<Rightarrow> fput b s);
               s = upd_shp p (\<lambda>shp. shp\<lparr>shm_cprid := None, shm_lprid := None\<rparr>) s
           in shm_ids_update (\<lambda>ids. ipc_rcu_putref ids p) s))"

definition do_shm_rmid :: "shm_ns \<Rightarrow> ptr \<Rightarrow> shm_ns" where
  "do_shm_rmid s p =
     (case objs (shm_ids s) p of
        None \<Rightarrow> s
      | Some shp \<Rightarrow>
          if shm_nattch shp \<noteq> 0 then
            shm_ids_update (\<lambda>ids. ipc_set_key_private ids p)
              (upd_shp p (\<lambda>shp. shp\<lparr>perm_mode := perm_mode shp OR SHM_DEST\<rparr>) s)
          else shm_destroy s p)"

definition shm_may_destroy :: "shm_ns \<Rightarrow> shmid_kernel \<Rightarrow> bool" where
  "shm_may_destroy s shp \<longleftrightarrow> shm_nattch shp = 0 \<and> (shm_rmid_forced s \<or> perm_mode shp AND SHM_DEST \<noteq> 0)"

text \<open>Destroying the segment at \<open>p\<close> if nothing holds it.\<close>

definition shm_check_destroy :: "shm_ns \<Rightarrow> ptr \<Rightarrow> shm_ns" where
  "shm_check_destroy s p =
     (case objs (shm_ids s) p of
        None \<Rightarrow> s
      | Some shp \<Rightarrow> if shm_may_destroy s shp then shm_destroy s p else s)"

section \<open>Callbacks of a mapping\<close>

definition shm_open_data :: "task_env \<Rightarrow> shm_file_data \<Rightarrow> shm_ns \<Rightarrow> shm_ns \<times> errno option" where
  "shm_open_data e sfd s =
     (case shm_lock s (sf_id sfd) of
        Inl err \<Rightarrow> (s, Some err)
      | Inr p \<Rightarrow>
          (case objs (shm_ids s) p of
             None \<Rightarrow> (s, Some EINVAL)
           | Some shp \<Rightarrow>
               if shm_file shp \<noteq> Some (sf_file sfd) then (s, Some EINVAL)
               else
                 (upd_shp p (\<lambda>shp. shp\<lparr>shm_atim := clock_seconds e, shm_lprid := Some (cur_tgid e),
                                       shm_nattch := shm_nattch shp + 1\<rparr>) s, None)))"

text \<open>The second value is false where the code warns.\<close>

definition shm_open :: "task_env \<Rightarrow> ptr \<Rightarrow> shm_ns \<Rightarrow> shm_ns \<times> bool" where
  "shm_open e f s =
     (case shm_outer s f of
        None \<Rightarrow> (s\<lparr>shm_oops := True\<rparr>, False)
      | Some sfd \<Rightarrow> (case shm_open_data e sfd s of (s, err) \<Rightarrow> (s, err = None)))"

definition shm_close_data :: "task_env \<Rightarrow> shm_file_data \<Rightarrow> shm_ns \<Rightarrow> shm_ns \<times> bool" where
  "shm_close_data e sfd s =
     (case shm_lock s (sf_id sfd) of
        Inl err \<Rightarrow> (s, False)
      | Inr p \<Rightarrow>
          (shm_check_destroy
             (upd_shp p (\<lambda>shp. shp\<lparr>shm_lprid := Some (cur_tgid e), shm_dtim := clock_seconds e,
                                   shm_nattch := shm_nattch shp - 1\<rparr>) s) p, True))"

definition shm_close :: "task_env \<Rightarrow> ptr \<Rightarrow> shm_ns \<Rightarrow> shm_ns \<times> bool" where
  "shm_close e f s =
     (case shm_outer s f of
        None \<Rightarrow> (s\<lparr>shm_oops := True\<rparr>, False)
      | Some sfd \<Rightarrow> shm_close_data e sfd s)"

text \<open>\<open>base_err\<close> is the answer of the \<^verbatim>\<open>mmap\<close> of the backing file.\<close>

definition shm_mmap :: "task_env \<Rightarrow> errno option \<Rightarrow> ptr \<Rightarrow> shm_ns \<Rightarrow> shm_ns \<times> errno option" where
  "shm_mmap e base_err f s =
     (case shm_outer s f of
        None \<Rightarrow> (s\<lparr>shm_oops := True\<rparr>, Some EINVAL)
      | Some sfd \<Rightarrow>
          (case shm_open_data e sfd s of
             (s, Some err) \<Rightarrow> (s, Some err)
           | (s, None) \<Rightarrow>
               (case base_err of
                  None \<Rightarrow> (s, None)
                | Some err \<Rightarrow> (fst (shm_close_data e sfd s), Some err))))"

text \<open>The last reference to the file of an attach is gone.\<close>

definition shm_release :: "ptr \<Rightarrow> shm_ns \<Rightarrow> shm_ns" where
  "shm_release f s =
     (case shm_outer s f of
        None \<Rightarrow> s\<lparr>shm_oops := True\<rparr>
      | Some sfd \<Rightarrow> (fput (sf_file sfd) s)\<lparr>shm_outer := (shm_outer s)(f := None)\<rparr>)"

section \<open>Orphans\<close>

definition list_linked :: "shm_ns \<Rightarrow> ptr \<Rightarrow> bool" where
  "list_linked s p =
     (case objs (shm_ids s) p of
        None \<Rightarrow> False
      | Some shp \<Rightarrow> (case shm_lists s (shm_creator shp) of None \<Rightarrow> False | Some l \<Rightarrow> p \<in> set l))"

definition shm_try_destroy_orphaned :: "ptr \<Rightarrow> shm_ns \<Rightarrow> shm_ns" where
  "shm_try_destroy_orphaned p s = (if list_linked s p then s else shm_check_destroy s p)"

definition shm_destroy_orphaned :: "shm_ns \<Rightarrow> shm_ns" where
  "shm_destroy_orphaned s =
     (if in_use (shm_ids s) \<noteq> 0 then fold shm_try_destroy_orphaned (map snd (sort_key fst (ipcs_idr (shm_ids s)))) s
      else s)"

text \<open>
  A write of \<^verbatim>\<open>kernel.shm_rmid_forced\<close> (\<^verbatim>\<open>src/src/main/ipcns/sysctl/ipc_sysctl.c\<close>): \<open>err\<close> is the
  error of the generic handler, \<open>value\<close> what it stored, \<open>None\<close> for a read.
\<close>

definition ipc_dointvec_minmax_orphans :: "errno option \<Rightarrow> bool option \<Rightarrow> shm_ns \<Rightarrow> shm_ns \<times> errno option" where
  "ipc_dointvec_minmax_orphans err value s =
     (let s = (case value of None \<Rightarrow> s | Some v \<Rightarrow> s\<lparr>shm_rmid_forced := v\<rparr>)
      in case err of
           Some x \<Rightarrow> (s, Some x)
         | None \<Rightarrow> (if shm_rmid_forced s then shm_destroy_orphaned s else s, None))"

text \<open>
  The list of a task, with the entry allocated at the first use; \<open>None\<close> when that fails.
\<close>

definition task_shm_clist :: "bool \<Rightarrow> nat \<Rightarrow> shm_ns \<Rightarrow> shm_ns \<times> ptr list option" where
  "task_shm_clist ok t s =
     (case shm_lists s t of
        Some l \<Rightarrow> (s, Some l)
      | None \<Rightarrow> if ok then (s\<lparr>shm_lists := (shm_lists s)(t \<mapsto> [])\<rparr>, Some []) else (s, None))"

text \<open>
  The exit of a task: it gives up the segments it created. \<open>alive\<close> says whether the
  namespace still has a reference. Running out of fuel is \<open>None\<close>.
\<close>

fun exit_shm_loop :: "nat \<Rightarrow> bool \<Rightarrow> bool \<Rightarrow> nat \<Rightarrow> shm_ns \<Rightarrow> shm_ns option" where
  "exit_shm_loop 0 ok alive t s = None"
| "exit_shm_loop (Suc n) ok alive t s =
     (case task_shm_clist ok t s of
        (s, None) \<Rightarrow> Some (s\<lparr>shm_oops := True\<rparr>)
      | (s, Some []) \<Rightarrow> Some s
      | (s, Some (p # l)) \<Rightarrow>
          if \<not> shm_rmid_forced s \<or> \<not> alive then exit_shm_loop n ok alive t (s\<lparr>shm_lists := (shm_lists s)(t \<mapsto> l)\<rparr>)
          else
            (let s = s\<lparr>shm_ids := fst (ipc_rcu_getref (shm_ids s) p)\<rparr>;
                 s = s\<lparr>shm_lists := (shm_lists s)(t \<mapsto> l)\<rparr>;
                 s = s\<lparr>shm_ids := ipc_rcu_putref (shm_ids s) p\<rparr>
             in exit_shm_loop n ok alive t (if ipc_valid_object (shm_ids s) p then shm_check_destroy s p else s)))"

declare exit_shm_loop.simps(2) [simp del]

section \<open>shmget\<close>

definition ALIGN :: "64 word \<Rightarrow> 64 word \<Rightarrow> 64 word" where
  "ALIGN x a = (x + (a - 1)) AND NOT (a - 1)"

text \<open>The backing file: whether it is huge, and its size.\<close>

definition newseg_file :: "shm_env \<Rightarrow> int \<Rightarrow> 64 word \<Rightarrow> (bool \<times> 64 word) result" where
  "newseg_file e flg sz =
     (if flg AND SHM_HUGETLB \<noteq> 0 then
        (case he_hstate e (drop_bit SHM_HUGE_SHIFT flg AND SHM_HUGE_MASK) of
           None \<Rightarrow> Inl EINVAL
         | Some huge \<Rightarrow>
             (let hugesize = ALIGN sz huge
              in case he_setup e True hugesize (flg AND SHM_NORESERVE \<noteq> 0) of
                   Some err \<Rightarrow> Inl err | None \<Rightarrow> Inr (True, hugesize)))
      else
        (case he_setup e False sz (flg AND SHM_NORESERVE \<noteq> 0 \<and> \<not> he_overcommit_never e) of
           Some err \<Rightarrow> Inl err | None \<Rightarrow> Inr (False, sz)))"

definition fresh_segment :: "shm_env \<Rightarrow> ipc_params \<Rightarrow> ptr \<Rightarrow> shmid_kernel" where
  "fresh_segment e params b =
     \<lparr>perm_deleted = False, perm_id = 0, perm_key = par_key params, perm_uid = 0, perm_gid = 0,
      perm_cuid = 0, perm_cgid = 0, perm_mode = par_flg params AND S_IRWXUGO, perm_seq = 0, perm_refcount = 0,
      shm_file = Some b, shm_nattch = 0, shm_segsz = of_int (par_nsems params), shm_atim = 0, shm_dtim = 0,
      shm_ctim = clock_seconds (he_task e), shm_cprid = Some (cur_tgid (he_task e)), shm_lprid = None,
      shm_mlock = None, shm_creator = cur_task (he_task e)\<rparr>"

definition newseg :: "shm_env \<Rightarrow> ipc_params \<Rightarrow> shm_ns \<Rightarrow> shm_ns \<times> int result" where
  "newseg e params s =
     (let sz = of_int (par_nsems params); numpages = num_pages sz; cur = cur_task (he_task e)
      in if sz < SHMMIN \<or> sz > shm_ctlmax s then (s, Inl EINVAL)
         else if push_bit PAGE_SHIFT numpages < sz then (s, Inl ENOSPC)
         else if shm_tot s + numpages < shm_tot s \<or> shm_tot s + numpages > shm_ctlall s then (s, Inl ENOSPC)
         else
           (case he_new e (\<lambda>p. objs (shm_ids s) p \<noteq> None) of
              None \<Rightarrow> (s, Inl ENOMEM)
            | Some p \<Rightarrow>
                (case hl_alloc (he_lsm e) of
                   Some err \<Rightarrow> (s, Inl err)
                 | None \<Rightarrow>
                     (case newseg_file e (par_flg params) sz of
                        Inl err \<Rightarrow> (s, Inl err)
                      | Inr (huge, fsize) \<Rightarrow>
                          (case he_new e (\<lambda>b. shm_bases s b \<noteq> None) of
                             None \<Rightarrow> (s, Inl ENOMEM)
                           | Some b \<Rightarrow>
                               (let s = s\<lparr>shm_bases := (shm_bases s)(b \<mapsto> \<lparr>fl_count = 1, fl_size = fsize, fl_huge = huge\<rparr>)\<rparr>;
                                    ids = objs_update (\<lambda>h. h(p \<mapsto> fresh_segment e params b)) (shm_ids s)
                                in case ipc_addid (he_task e) (he_alloc e) (he_kht e) ids p (shm_ctlmni s) of
                                     (ids, Inl err) \<Rightarrow>
                                       ((fput b s)\<lparr>shm_ids := ipc_rcu_putref ids p\<rparr>, Inl err)
                                   | (ids, Inr idx) \<Rightarrow>
                                       (let s = s\<lparr>shm_ids := ids\<rparr>;
                                            s = (case task_shm_clist (he_list e) cur s of
                                                   (s, None) \<Rightarrow> s\<lparr>shm_oops := True\<rparr>
                                                 | (s, Some l) \<Rightarrow> s\<lparr>shm_lists := (shm_lists s)(cur \<mapsto> p # l)\<rparr>)
                                        in (s\<lparr>shm_tot := shm_tot s + numpages\<rparr>,
                                            Inr (case objs ids p of Some shp \<Rightarrow> perm_id shp | None \<Rightarrow> 0)))))))))"

definition shm_more_checks :: "shm_ns \<Rightarrow> ptr \<Rightarrow> ipc_params \<Rightarrow> errno option" where
  "shm_more_checks s p params =
     (case objs (shm_ids s) p of
        None \<Rightarrow> None
      | Some shp \<Rightarrow> if shm_segsz shp < of_int (par_nsems params) then Some EINVAL else None)"

definition ksys_shmget :: "shm_env \<Rightarrow> int \<Rightarrow> 64 word \<Rightarrow> int \<Rightarrow> shm_ns \<Rightarrow> shm_ns \<times> int result" where
  "ksys_shmget e k sz shmflg s =
     ipcget (he_task e) (hl_ipc (he_lsm e)) shm_ids
       \<lparr>getnew = newseg e, associate = hl_associate (he_lsm e), more_checks = Some shm_more_checks\<rparr>
       \<lparr>par_key = k, par_flg = shmflg, par_nsems = uint sz\<rparr> s"

text \<open>The release of a namespace.\<close>

definition ds_shm_exit_ns :: "nat \<Rightarrow> shm_ns \<Rightarrow> shm_ns option" where
  "ds_shm_exit_ns fuel s = ds_free_ipcs fuel shm_ids do_shm_rmid s"

end
