(* ===== verification/ShmCtl.thy ===== *)
theory ShmCtl
  imports ShmSeg
begin

text \<open>
  \<^verbatim>\<open>shmctl\<close> and its 32 bit variant, the counters of \<^verbatim>\<open>SHM_INFO\<close> and the proc line
  (\<^verbatim>\<open>src/src/main/ipcns/sysv/ipc_shm.c\<close>). The loop that sums the pages of a namespace runs on
  fuel; running out of it, or following a null file, is \<open>None\<close>.
\<close>

unbundle bit_operations_syntax

section \<open>What user space sees\<close>

record shmid64_ds =
  hd_perm :: ipc64_perm
  hd_segsz :: "64 word"
  hd_atime :: int
  hd_dtime :: int
  hd_ctime :: int
  hd_cpid :: int
  hd_lpid :: int
  hd_nattch :: int

record shmid_ds =
  ho_perm :: ipc64_perm
  ho_segsz :: "32 word"
  ho_atime :: int
  ho_dtime :: int
  ho_ctime :: int
  ho_cpid :: int
  ho_lpid :: int
  ho_nattch :: "16 word"

record compat_shmid64_ds =
  hc_perm :: ipc64_perm
  hc_segsz :: "32 word"
  hc_atime :: "32 word"
  hc_atime_high :: "32 word"
  hc_dtime :: "32 word"
  hc_dtime_high :: "32 word"
  hc_ctime :: "32 word"
  hc_ctime_high :: "32 word"
  hc_cpid :: int
  hc_lpid :: int
  hc_nattch :: "32 word"

record compat_shmid_ds =
  hco_perm :: ipc64_perm
  hco_segsz :: "32 word"
  hco_atime :: "32 word"
  hco_dtime :: "32 word"
  hco_ctime :: "32 word"
  hco_cpid :: "16 word"
  hco_lpid :: "16 word"
  hco_nattch :: "16 word"

record shminfo64 =
  hi_max :: "64 word"
  hi_min :: "64 word"
  hi_mni :: "64 word"
  hi_seg :: "64 word"
  hi_all :: "64 word"

text \<open>The old structure has five ints, the compat one five unsigned longs of 32 bits.\<close>

record shminfo =
  io_max :: "32 word"
  io_min :: "32 word"
  io_mni :: "32 word"
  io_seg :: "32 word"
  io_all :: "32 word"

record shm_info =
  hu_ids :: int
  hu_tot :: "64 word"
  hu_rss :: "64 word"
  hu_swp :: "64 word"
  hu_attempts :: "64 word"
  hu_successes :: "64 word"

record compat_shm_info =
  cu_ids :: int
  cu_tot :: "32 word"
  cu_rss :: "32 word"
  cu_swp :: "32 word"
  cu_attempts :: "32 word"
  cu_successes :: "32 word"

datatype shm_out =
    NoShmOut | OutShminfo64 shminfo64 | OutShminfo shminfo | OutCompatShminfo64 shminfo
  | OutShmInfo shm_info | OutCompatShmInfo compat_shm_info
  | OutShm64 shmid64_ds | OutShmOld shmid_ds | OutShmCompat64 compat_shmid64_ds | OutShmCompat compat_shmid_ds

definition zero_shm_perm :: ipc64_perm where
  "zero_shm_perm = \<lparr>out_key = 0, out_uid = 0, out_gid = 0, out_cuid = 0, out_cgid = 0, out_mode = 0, out_seq = 0\<rparr>"

definition zero_shmid :: shmid64_ds where
  "zero_shmid = \<lparr>hd_perm = zero_shm_perm, hd_segsz = 0, hd_atime = 0, hd_dtime = 0, hd_ctime = 0, hd_cpid = 0,
     hd_lpid = 0, hd_nattch = 0\<rparr>"

section \<open>Copies from and to user space\<close>

definition copy_shmid_to_user :: "user_maps \<Rightarrow> bool \<Rightarrow> shmid64_ds \<Rightarrow> int \<Rightarrow> shm_out option" where
  "copy_shmid_to_user um ok i version =
     (if version = IPC_64 then (if ok then Some (OutShm64 i) else None)
      else if version = IPC_OLD then
        (let out = \<lparr>ho_perm = ipc64_perm_to_ipc_perm (set_uid um) (set_gid um) (hd_perm i),
                    ho_segsz = ucast (hd_segsz i), ho_atime = hd_atime i, ho_dtime = hd_dtime i,
                    ho_ctime = hd_ctime i, ho_cpid = hd_cpid i, ho_lpid = hd_lpid i,
                    ho_nattch = of_int (hd_nattch i)\<rparr>
         in if ok then Some (OutShmOld out) else None)
      else None)"

definition copy_shmid_from_user ::
    "bool \<Rightarrow> shmid64_ds \<Rightarrow> shmid_ds \<Rightarrow> shmid64_ds \<Rightarrow> int \<Rightarrow> shmid64_ds result" where
  "copy_shmid_from_user ok v64 old out version =
     (if version = IPC_64 then (if ok then Inr v64 else Inl EFAULT)
      else if version = IPC_OLD then
        (if \<not> ok then Inl EFAULT
         else Inr (out\<lparr>hd_perm := (hd_perm out)\<lparr>out_uid := out_uid (ho_perm old),
                                   out_gid := out_gid (ho_perm old), out_mode := out_mode (ho_perm old)\<rparr>\<rparr>))
      else Inl EINVAL)"

definition copy_shminfo_to_user :: "bool \<Rightarrow> shminfo64 \<Rightarrow> int \<Rightarrow> shm_out option" where
  "copy_shminfo_to_user ok i version =
     (if version = IPC_64 then (if ok then Some (OutShminfo64 i) else None)
      else if version = IPC_OLD then
        (let out = \<lparr>io_max = (if hi_max i > of_int INT_MAX then of_int INT_MAX else ucast (hi_max i)),
                    io_min = ucast (hi_min i), io_mni = ucast (hi_mni i), io_seg = ucast (hi_seg i),
                    io_all = ucast (hi_all i)\<rparr>
         in if ok then Some (OutShminfo out) else None)
      else None)"

definition copy_compat_shminfo_to_user :: "bool \<Rightarrow> shminfo64 \<Rightarrow> int \<Rightarrow> shm_out option" where
  "copy_compat_shminfo_to_user ok i version =
     (let i = (if hi_max i > of_int INT_MAX then i\<lparr>hi_max := of_int INT_MAX\<rparr> else i);
          info = \<lparr>io_max = ucast (hi_max i), io_min = ucast (hi_min i), io_mni = ucast (hi_mni i),
                  io_seg = ucast (hi_seg i), io_all = ucast (hi_all i)\<rparr>
      in if \<not> ok then None
         else if version = IPC_64 then Some (OutCompatShminfo64 info) else Some (OutShminfo info))"

definition put_compat_shm_info :: "bool \<Rightarrow> shm_info \<Rightarrow> shm_out option" where
  "put_compat_shm_info ok i =
     (let info = \<lparr>cu_ids = hu_ids i, cu_tot = ucast (hu_tot i), cu_rss = ucast (hu_rss i), cu_swp = ucast (hu_swp i),
                  cu_attempts = ucast (hu_attempts i), cu_successes = ucast (hu_successes i)\<rparr>
      in if ok then Some (OutCompatShmInfo info) else None)"

definition copy_compat_shmid_to_user :: "user_maps \<Rightarrow> bool \<Rightarrow> shmid64_ds \<Rightarrow> int \<Rightarrow> shm_out option" where
  "copy_compat_shmid_to_user um ok i version =
     (if version = IPC_64 then
        (let v = \<lparr>hc_perm = to_compat_ipc64_perm (hd_perm i), hc_segsz = ucast (hd_segsz i),
                  hc_atime = lower_32_bits (hd_atime i), hc_atime_high = upper_32_bits (hd_atime i),
                  hc_dtime = lower_32_bits (hd_dtime i), hc_dtime_high = upper_32_bits (hd_dtime i),
                  hc_ctime = lower_32_bits (hd_ctime i), hc_ctime_high = upper_32_bits (hd_ctime i),
                  hc_cpid = hd_cpid i, hc_lpid = hd_lpid i, hc_nattch = of_int (hd_nattch i)\<rparr>
         in if ok then Some (OutShmCompat64 v) else None)
      else
        (let v = \<lparr>hco_perm = to_compat_ipc_perm um (hd_perm i), hco_segsz = ucast (hd_segsz i),
                  hco_atime = of_int (hd_atime i), hco_dtime = of_int (hd_dtime i), hco_ctime = of_int (hd_ctime i),
                  hco_cpid = of_int (hd_cpid i), hco_lpid = of_int (hd_lpid i), hco_nattch = of_int (hd_nattch i)\<rparr>
         in if ok then Some (OutShmCompat v) else None))"

definition copy_compat_shmid_from_user ::
    "bool \<Rightarrow> compat_shmid64_ds \<Rightarrow> compat_shmid_ds \<Rightarrow> int \<Rightarrow> shmid64_ds result" where
  "copy_compat_shmid_from_user ok p64 p version =
     (case (if version = IPC_64 then get_compat_ipc64_perm ok (hd_perm zero_shmid) (hc_perm p64)
            else get_compat_ipc_perm ok (hd_perm zero_shmid) (hco_perm p)) of
        Inl err \<Rightarrow> Inl err
      | Inr pm \<Rightarrow> Inr (zero_shmid\<lparr>hd_perm := pm\<rparr>))"

section \<open>The commands\<close>

text \<open>The pages and the swapped pages of a segment, added to the counters.\<close>

definition shm_add_rss_swap ::
    "shm_env \<Rightarrow> shm_ns \<Rightarrow> shmid_kernel \<Rightarrow> 64 word \<times> 64 word \<Rightarrow> (64 word \<times> 64 word) option" where
  "shm_add_rss_swap e s shp acc =
     (case shm_file shp of
        None \<Rightarrow> None
      | Some b \<Rightarrow>
          (case shm_bases s b of
             None \<Rightarrow> None
           | Some f \<Rightarrow>
               if fl_huge f then Some (fst acc + he_per_huge e b * he_pages e b, snd acc)
               else Some (fst acc + he_pages e b, snd acc + he_swapped e b)))"

fun shm_stat_loop ::
    "nat \<Rightarrow> shm_env \<Rightarrow> shm_ns \<Rightarrow> int \<Rightarrow> int \<Rightarrow> 64 word \<times> 64 word \<Rightarrow> (64 word \<times> 64 word) option" where
  "shm_stat_loop fuel e s seen next_id acc =
     (if seen < in_use (shm_ids s) then
        (case fuel of
           0 \<Rightarrow> None
         | Suc n \<Rightarrow>
             (case idr_find (ipcs_idr (shm_ids s)) next_id of
                None \<Rightarrow> shm_stat_loop n e s seen (next_id + 1) acc
              | Some p \<Rightarrow>
                  (case objs (shm_ids s) p of
                     None \<Rightarrow> None
                   | Some shp \<Rightarrow>
                       (case shm_add_rss_swap e s shp acc of
                          None \<Rightarrow> None
                        | Some acc \<Rightarrow> shm_stat_loop n e s (seen + 1) (next_id + 1) acc))))
      else Some acc)"

declare shm_stat_loop.simps [simp del]

definition shm_get_stat :: "nat \<Rightarrow> shm_env \<Rightarrow> shm_ns \<Rightarrow> (64 word \<times> 64 word) option" where
  "shm_get_stat fuel e s = shm_stat_loop fuel e s 0 0 (0, 0)"

definition shmctl_down :: "shm_env \<Rightarrow> shm_ns \<Rightarrow> int \<Rightarrow> int \<Rightarrow> ipc64_perm \<Rightarrow> shm_ns \<times> int result" where
  "shmctl_down e s shmid cmd perm =
     (case ipcctl_obtain_check (he_task e) (shm_ids s) shmid of
        Inl err \<Rightarrow> (s, Inl err)
      | Inr p \<Rightarrow>
          (case objs (shm_ids s) p of
             None \<Rightarrow> (s, Inl EINVAL)
           | Some shp \<Rightarrow>
               (case hl_shmctl (he_lsm e) (Some (kern_ipc_perm.truncate shp)) cmd of
                  Some err \<Rightarrow> (s, Inl err)
                | None \<Rightarrow>
                    if cmd = IPC_RMID then (do_shm_rmid s p, Inr 0)
                    else if cmd = IPC_SET then
                      (case ipc_update_perm (make_kuid (he_maps e)) (make_kgid (he_maps e)) perm shp of
                         Inl err \<Rightarrow> (s, Inl err)
                       | Inr shp \<Rightarrow> (upd_shp p (\<lambda>_. shp\<lparr>shm_ctim := clock_seconds (he_task e)\<rparr>) s, Inr 0))
                    else (s, Inl EINVAL))))"

definition shmctl_ipc_info :: "shm_env \<Rightarrow> shm_ns \<Rightarrow> (shminfo64 \<times> int) result" where
  "shmctl_ipc_info e s =
     (case hl_shmctl (he_lsm e) None IPC_INFO of
        Some err \<Rightarrow> Inl err
      | None \<Rightarrow>
          (let mx = ipc_get_maxidx (shm_ids s)
           in Inr (\<lparr>hi_max = shm_ctlmax s, hi_min = SHMMIN, hi_mni = of_int (shm_ctlmni s),
                    hi_seg = of_int (shm_ctlmni s), hi_all = shm_ctlall s\<rparr>, if mx < 0 then 0 else mx)))"

definition shmctl_shm_info :: "nat \<Rightarrow> shm_env \<Rightarrow> shm_ns \<Rightarrow> (shm_info \<times> int) result option" where
  "shmctl_shm_info fuel e s =
     (case hl_shmctl (he_lsm e) None SHM_INFO of
        Some err \<Rightarrow> Some (Inl err)
      | None \<Rightarrow>
          (case shm_get_stat fuel e s of
             None \<Rightarrow> None
           | Some (rss, swp) \<Rightarrow>
               (let mx = ipc_get_maxidx (shm_ids s)
                in Some (Inr (\<lparr>hu_ids = in_use (shm_ids s), hu_tot = shm_tot s, hu_rss = rss, hu_swp = swp,
                               hu_attempts = 0, hu_successes = 0\<rparr>, if mx < 0 then 0 else mx)))))"

definition shmctl_stat :: "shm_env \<Rightarrow> shm_ns \<Rightarrow> int \<Rightarrow> int \<Rightarrow> shmid64_ds \<times> int result" where
  "shmctl_stat e s shmid cmd =
     (case (if cmd = SHM_STAT \<or> cmd = SHM_STAT_ANY then shm_obtain_object s shmid
            else shm_obtain_object_check s shmid) of
        Inl err \<Rightarrow> (zero_shmid, Inl err)
      | Inr p \<Rightarrow>
          (case objs (shm_ids s) p of
             None \<Rightarrow> (zero_shmid, Inl EINVAL)
           | Some shp \<Rightarrow>
               if cmd \<noteq> SHM_STAT_ANY \<and> ipcperms (he_task e) (hl_ipc (he_lsm e)) shp S_IRUGO \<noteq> None
               then (zero_shmid, Inl EACCES)
               else
                 (case hl_shmctl (he_lsm e) (Some (kern_ipc_perm.truncate shp)) cmd of
                    Some err \<Rightarrow> (zero_shmid, Inl err)
                  | None \<Rightarrow>
                      if \<not> ipc_valid_object (shm_ids s) p then (zero_shmid, Inl EIDRM)
                      else
                        (\<lparr>hd_perm = kernel_to_ipc64_perm (from_kuid (he_maps e)) (from_kgid (he_maps e)) shp,
                          hd_segsz = shm_segsz shp, hd_atime = shm_atim shp, hd_dtime = shm_dtim shp,
                          hd_ctime = shm_ctim shp, hd_cpid = pid_vnr (he_maps e) (shm_cprid shp),
                          hd_lpid = pid_vnr (he_maps e) (shm_lprid shp), hd_nattch = shm_nattch shp\<rparr>,
                         Inr (if cmd = IPC_STAT then 0 else perm_id shp)))))"

definition shmctl_do_lock :: "shm_env \<Rightarrow> shm_ns \<Rightarrow> int \<Rightarrow> int \<Rightarrow> shm_ns \<times> int result" where
  "shmctl_do_lock e s shmid cmd =
     (case shm_obtain_object_check s shmid of
        Inl err \<Rightarrow> (s, Inl err)
      | Inr p \<Rightarrow>
          (case objs (shm_ids s) p of
             None \<Rightarrow> (s, Inl EINVAL)
           | Some shp \<Rightarrow>
               (case hl_shmctl (he_lsm e) (Some (kern_ipc_perm.truncate shp)) cmd of
                  Some err \<Rightarrow> (s, Inl err)
                | None \<Rightarrow>
                    if \<not> ipc_valid_object (shm_ids s) p then (s, Inl EIDRM)
                    else if \<not> cur_ns_capable (he_task e) CAP_IPC_LOCK
                            \<and> (cur_euid (he_task e) \<noteq> perm_uid shp \<and> cur_euid (he_task e) \<noteq> perm_cuid shp
                               \<or> cmd = SHM_LOCK \<and> \<not> he_memlock e) then (s, Inl EPERM)
                    else
                      (case shm_file shp of
                         None \<Rightarrow> (s\<lparr>shm_oops := True\<rparr>, Inl EINVAL)
                       | Some b \<Rightarrow>
                           (case shm_bases s b of
                              None \<Rightarrow> (s\<lparr>shm_oops := True\<rparr>, Inl EINVAL)
                            | Some f \<Rightarrow>
                                if fl_huge f then (s, Inr 0)
                                else if cmd = SHM_LOCK then
                                  (case he_mlock e of
                                     Some err \<Rightarrow> (s, Inl err)
                                   | None \<Rightarrow>
                                       if perm_mode shp AND SHM_LOCKED = 0 then
                                         (upd_shp p (\<lambda>shp. shp\<lparr>perm_mode := perm_mode shp OR SHM_LOCKED,
                                                               shm_mlock := Some (he_acct e)\<rparr>) s, Inr 0)
                                       else (s, Inr 0))
                                else if perm_mode shp AND SHM_LOCKED = 0 then (s, Inr 0)
                                else
                                  (let s = upd_shp p (\<lambda>shp. shp\<lparr>perm_mode := perm_mode shp AND NOT SHM_LOCKED,
                                                                shm_mlock := None\<rparr>) s;
                                       s = get_file b s
                                   in (fput b s, Inr 0)))))))"

section \<open>The system calls\<close>

definition ksys_shmctl ::
    "nat \<Rightarrow> shm_env \<Rightarrow> shm_ns \<Rightarrow> int \<Rightarrow> int \<Rightarrow> bool \<Rightarrow> shmid64_ds \<Rightarrow> shmid_ds \<Rightarrow> int
       \<Rightarrow> (shm_ns \<times> shm_out \<times> int result) option" where
  "ksys_shmctl fuel e s shmid cmd ok v64 old version =
     (if cmd < 0 \<or> shmid < 0 then Some (s, NoShmOut, Inl EINVAL)
      else if cmd = IPC_INFO then
        (case shmctl_ipc_info e s of
           Inl err \<Rightarrow> Some (s, NoShmOut, Inl err)
         | Inr (i, v) \<Rightarrow>
             (case copy_shminfo_to_user ok i version of
                None \<Rightarrow> Some (s, NoShmOut, Inl EFAULT) | Some out \<Rightarrow> Some (s, out, Inr v)))
      else if cmd = SHM_INFO then
        (case shmctl_shm_info fuel e s of
           None \<Rightarrow> None
         | Some (Inl err) \<Rightarrow> Some (s, NoShmOut, Inl err)
         | Some (Inr (i, v)) \<Rightarrow> if ok then Some (s, OutShmInfo i, Inr v) else Some (s, NoShmOut, Inl EFAULT))
      else if cmd = SHM_STAT \<or> cmd = SHM_STAT_ANY \<or> cmd = IPC_STAT then
        (case shmctl_stat e s shmid cmd of
           (ds, Inl err) \<Rightarrow> Some (s, NoShmOut, Inl err)
         | (ds, Inr v) \<Rightarrow>
             (case copy_shmid_to_user (he_maps e) ok ds version of
                None \<Rightarrow> Some (s, NoShmOut, Inl EFAULT) | Some out \<Rightarrow> Some (s, out, Inr v)))
      else if cmd = IPC_SET then
        (case copy_shmid_from_user ok v64 old zero_shmid version of
           Inl err \<Rightarrow> Some (s, NoShmOut, Inl EFAULT)
         | Inr ds \<Rightarrow> (case shmctl_down e s shmid cmd (hd_perm ds) of (s, r) \<Rightarrow> Some (s, NoShmOut, r)))
      else if cmd = IPC_RMID then
        (case shmctl_down e s shmid cmd zero_shm_perm of (s, r) \<Rightarrow> Some (s, NoShmOut, r))
      else if cmd = SHM_LOCK \<or> cmd = SHM_UNLOCK then
        (case shmctl_do_lock e s shmid cmd of (s, r) \<Rightarrow> Some (s, NoShmOut, r))
      else Some (s, NoShmOut, Inl EINVAL))"

definition ksys_old_shmctl ::
    "nat \<Rightarrow> shm_env \<Rightarrow> shm_ns \<Rightarrow> int \<Rightarrow> int \<Rightarrow> bool \<Rightarrow> shmid64_ds \<Rightarrow> shmid_ds
       \<Rightarrow> (shm_ns \<times> shm_out \<times> int result) option" where
  "ksys_old_shmctl fuel e s shmid cmd ok v64 old =
     (case ipc_parse_version cmd of (cmd, version) \<Rightarrow> ksys_shmctl fuel e s shmid cmd ok v64 old version)"

definition compat_ksys_shmctl ::
    "nat \<Rightarrow> shm_env \<Rightarrow> shm_ns \<Rightarrow> int \<Rightarrow> int \<Rightarrow> bool \<Rightarrow> compat_shmid64_ds \<Rightarrow> compat_shmid_ds \<Rightarrow> int
       \<Rightarrow> (shm_ns \<times> shm_out \<times> int result) option" where
  "compat_ksys_shmctl fuel e s shmid cmd ok p64 p version =
     (if cmd < 0 \<or> shmid < 0 then Some (s, NoShmOut, Inl EINVAL)
      else if cmd = IPC_INFO then
        (case shmctl_ipc_info e s of
           Inl err \<Rightarrow> Some (s, NoShmOut, Inl err)
         | Inr (i, v) \<Rightarrow>
             (case copy_compat_shminfo_to_user ok i version of
                None \<Rightarrow> Some (s, NoShmOut, Inl EFAULT) | Some out \<Rightarrow> Some (s, out, Inr v)))
      else if cmd = SHM_INFO then
        (case shmctl_shm_info fuel e s of
           None \<Rightarrow> None
         | Some (Inl err) \<Rightarrow> Some (s, NoShmOut, Inl err)
         | Some (Inr (i, v)) \<Rightarrow>
             (case put_compat_shm_info ok i of
                None \<Rightarrow> Some (s, NoShmOut, Inl EFAULT) | Some out \<Rightarrow> Some (s, out, Inr v)))
      else if cmd = IPC_STAT \<or> cmd = SHM_STAT_ANY \<or> cmd = SHM_STAT then
        (case shmctl_stat e s shmid cmd of
           (ds, Inl err) \<Rightarrow> Some (s, NoShmOut, Inl err)
         | (ds, Inr v) \<Rightarrow>
             (case copy_compat_shmid_to_user (he_maps e) ok ds version of
                None \<Rightarrow> Some (s, NoShmOut, Inl EFAULT) | Some out \<Rightarrow> Some (s, out, Inr v)))
      else if cmd = IPC_SET then
        (case copy_compat_shmid_from_user ok p64 p version of
           Inl err \<Rightarrow> Some (s, NoShmOut, Inl EFAULT)
         | Inr ds \<Rightarrow> (case shmctl_down e s shmid cmd (hd_perm ds) of (s, r) \<Rightarrow> Some (s, NoShmOut, r)))
      else if cmd = IPC_RMID then
        (case shmctl_down e s shmid cmd zero_shm_perm of (s, r) \<Rightarrow> Some (s, NoShmOut, r))
      else if cmd = SHM_LOCK \<or> cmd = SHM_UNLOCK then
        (case shmctl_do_lock e s shmid cmd of (s, r) \<Rightarrow> Some (s, NoShmOut, r))
      else Some (s, NoShmOut, Inl EINVAL))"

definition compat_ksys_old_shmctl ::
    "nat \<Rightarrow> shm_env \<Rightarrow> shm_ns \<Rightarrow> int \<Rightarrow> int \<Rightarrow> bool \<Rightarrow> compat_shmid64_ds \<Rightarrow> compat_shmid_ds
       \<Rightarrow> (shm_ns \<times> shm_out \<times> int result) option" where
  "compat_ksys_old_shmctl fuel e s shmid cmd ok p64 p =
     (case compat_ipc_parse_version cmd of
        (cmd, version) \<Rightarrow> compat_ksys_shmctl fuel e s shmid cmd ok p64 p version)"

text \<open>The numbers of a line of the proc file, the ids as the reader's user namespace has them.\<close>

record shm_proc_line =
  hp_key :: int
  hp_id :: int
  hp_mode :: int
  hp_segsz :: "64 word"
  hp_cpid :: int
  hp_lpid :: int
  hp_nattch :: int
  hp_owner :: "int \<times> int \<times> int \<times> int"
  hp_times :: "int \<times> int \<times> int"
  hp_rss :: "64 word"
  hp_swp :: "64 word"

definition sysvipc_shm_proc_show :: "shm_env \<Rightarrow> user_maps \<Rightarrow> shm_ns \<Rightarrow> ptr \<Rightarrow> shm_proc_line option" where
  "sysvipc_shm_proc_show e um s p =
     (case objs (shm_ids s) p of
        None \<Rightarrow> None
      | Some shp \<Rightarrow>
          (case shm_add_rss_swap e s shp (0, 0) of
             None \<Rightarrow> None
           | Some (rss, swp) \<Rightarrow>
               Some \<lparr>hp_key = perm_key shp, hp_id = perm_id shp, hp_mode = perm_mode shp, hp_segsz = shm_segsz shp,
                     hp_cpid = pid_vnr um (shm_cprid shp), hp_lpid = pid_vnr um (shm_lprid shp),
                     hp_nattch = shm_nattch shp,
                     hp_owner = (from_kuid um (perm_uid shp), from_kgid um (perm_gid shp),
                                 from_kuid um (perm_cuid shp), from_kgid um (perm_cgid shp)),
                     hp_times = (shm_atim shp, shm_dtim shp, shm_ctim shp),
                     hp_rss = rss * PAGE_SIZE, hp_swp = swp * PAGE_SIZE\<rparr>))"

end
