(* ===== verification/ShmMap.thy ===== *)
theory ShmMap
  imports ShmCtl
begin

text \<open>
  Attaching and detaching (\<^verbatim>\<open>droid_lkm_do_shmat\<close> and \<^verbatim>\<open>ksys_shmdt\<close> of
  \<^verbatim>\<open>src/src/main/ipcns/sysv/ipc_shm.c\<close>).

  An attach runs in phases, other calls may come in between: \<open>shmat_begin\<close> up to the first
  unlock, \<open>shmat_file\<close> makes the file of the attach, \<open>shmat_map\<close> maps it and \<open>shmat_end\<close> drops
  the count the first phase took. The areas of an address space are the list of its areas by
  address. Mapping and unmapping are calls of the kernel: their answers are arguments, and
  what they do to the file (the callbacks \<open>shm_mmap\<close> and \<open>shm_close\<close>) is done here.
\<close>

unbundle bit_operations_syntax

section \<open>Areas of an address space\<close>

record vma =
  vm_start :: "64 word"
  vm_end :: "64 word"
  vm_pgoff :: "64 word"
  vm_file :: "ptr option"
  vm_shm :: bool

text \<open>The first area that ends behind an address, and the first that meets a range.\<close>

definition find_vma :: "vma list \<Rightarrow> 64 word \<Rightarrow> vma option" where
  "find_vma vs a = List.find (\<lambda>v. a < vm_end v) vs"

definition find_vma_intersection :: "vma list \<Rightarrow> 64 word \<Rightarrow> 64 word \<Rightarrow> vma option" where
  "find_vma_intersection vs a b =
     (case find_vma vs a of None \<Rightarrow> None | Some v \<Rightarrow> if vm_start v < b then Some v else None)"

section \<open>shmat\<close>

definition SHM_RDONLY :: int where "SHM_RDONLY = 4096"
definition SHM_RND :: int where "SHM_RND = 8192"
definition SHM_REMAP :: int where "SHM_REMAP = 16384"
definition SHM_EXEC :: int where "SHM_EXEC = 32768"
definition S_IXUGO :: int where "S_IXUGO = 73"
definition MAP_SHARED :: int where "MAP_SHARED = 1"
definition MAP_FIXED :: int where "MAP_FIXED = 16"
definition PROT_READ :: int where "PROT_READ = 1"
definition PROT_WRITE :: int where "PROT_WRITE = 2"
definition PROT_EXEC :: int where "PROT_EXEC = 4"

definition PAGE_MASK :: "64 word" where "PAGE_MASK = NOT (PAGE_SIZE - 1)"

text \<open>The address and the flags of the mapping, \<open>None\<close> for \<open>EINVAL\<close>.\<close>

definition shmat_addr :: "64 word \<Rightarrow> 64 word \<Rightarrow> int \<Rightarrow> (64 word \<times> int) option" where
  "shmat_addr shmaddr shmlba shmflg =
     (if shmaddr \<noteq> 0 then
        (if shmaddr AND (shmlba - 1) \<noteq> 0 then
           (if shmflg AND SHM_RND \<noteq> 0 then
              (let addr = shmaddr AND NOT (shmlba - 1)
               in if addr = 0 \<and> shmflg AND SHM_REMAP \<noteq> 0 then None else Some (addr, MAP_SHARED OR MAP_FIXED))
            else if shmaddr AND NOT PAGE_MASK \<noteq> 0 then None
            else Some (shmaddr, MAP_SHARED OR MAP_FIXED))
         else Some (shmaddr, MAP_SHARED OR MAP_FIXED))
      else if shmflg AND SHM_REMAP \<noteq> 0 then None
      else Some (0, MAP_SHARED))"

definition shmat_prot :: "int \<Rightarrow> int \<times> int" where
  "shmat_prot shmflg =
     (let (prot, acc_mode) = (if shmflg AND SHM_RDONLY \<noteq> 0 then (PROT_READ, S_IRUGO)
                              else (PROT_READ OR PROT_WRITE, S_IRUGO OR S_IWUGO))
      in if shmflg AND SHM_EXEC \<noteq> 0 then (prot OR PROT_EXEC, acc_mode OR S_IXUGO) else (prot, acc_mode))"

text \<open>The local variables of an attach.\<close>

record shmat_call =
  at_shmid :: int
  at_shp :: ptr
  at_base :: ptr
  at_addr :: "64 word"
  at_size :: "64 word"
  at_prot :: int
  at_flags :: int
  at_shmflg :: int

definition shmat_begin ::
    "shm_env \<Rightarrow> shm_ns \<Rightarrow> int \<Rightarrow> 64 word \<Rightarrow> int \<Rightarrow> 64 word \<Rightarrow> shm_ns \<times> shmat_call result" where
  "shmat_begin e s shmid shmaddr shmflg shmlba =
     (if shmid < 0 then (s, Inl EINVAL)
      else
        (case shmat_addr shmaddr shmlba shmflg of
           None \<Rightarrow> (s, Inl EINVAL)
         | Some (addr, flags) \<Rightarrow>
             (let (prot, acc_mode) = shmat_prot shmflg
              in case shm_obtain_object_check s shmid of
                   Inl err \<Rightarrow> (s, Inl err)
                 | Inr p \<Rightarrow>
                     (case objs (shm_ids s) p of
                        None \<Rightarrow> (s, Inl EINVAL)
                      | Some shp \<Rightarrow>
                          if ipcperms (he_task e) (hl_ipc (he_lsm e)) shp acc_mode \<noteq> None then (s, Inl EACCES)
                          else
                            (case hl_shmat (he_lsm e) (kern_ipc_perm.truncate shp) shmaddr shmflg of
                               Some err \<Rightarrow> (s, Inl err)
                             | None \<Rightarrow>
                                 if \<not> ipc_valid_object (shm_ids s) p then (s, Inl EIDRM)
                                 else
                                   (case shm_file shp of
                                      None \<Rightarrow> (s\<lparr>shm_oops := True\<rparr>, Inl EINVAL)
                                    | Some base \<Rightarrow>
                                        (case shm_bases s base of
                                           None \<Rightarrow> (s\<lparr>shm_oops := True\<rparr>, Inl EINVAL)
                                         | Some f \<Rightarrow>
                                             (upd_shp p (\<lambda>shp. shp\<lparr>shm_nattch := shm_nattch shp + 1\<rparr>) (get_file base s),
                                              Inr \<lparr>at_shmid = shmid, at_shp = p, at_base = base, at_addr = addr,
                                                   at_size = fl_size f, at_prot = prot, at_flags = flags,
                                                   at_shmflg = shmflg\<rparr>))))))))"

text \<open>
  The private data and the file of the attach; \<open>sfd_ok\<close> is the success of the allocation and
  \<open>clone\<close> the answer of \<^verbatim>\<open>alloc_file_clone\<close> for the files in use.
\<close>

type_synonym file_clone = "(ptr \<Rightarrow> bool) \<Rightarrow> ptr result"

definition file_clone_ok :: "file_clone \<Rightarrow> bool" where
  "file_clone_ok clone \<longleftrightarrow> (\<forall>used f. clone used = Inr f \<longrightarrow> \<not> used f)"

definition shmat_file :: "bool \<Rightarrow> file_clone \<Rightarrow> shmat_call \<Rightarrow> shm_ns \<Rightarrow> shm_ns \<times> ptr result" where
  "shmat_file sfd_ok clone c s =
     (if \<not> sfd_ok then (fput (at_base c) s, Inl ENOMEM)
      else
        (case clone (\<lambda>f. shm_outer s f \<noteq> None) of
           Inl err \<Rightarrow> (fput (at_base c) s, Inl err)
         | Inr f \<Rightarrow>
             (case objs (shm_ids s) (at_shp c) of
                None \<Rightarrow> (s\<lparr>shm_oops := True\<rparr>, Inl EINVAL)
              | Some shp \<Rightarrow>
                  (s\<lparr>shm_outer := (shm_outer s)(f \<mapsto> \<lparr>sf_id = perm_id shp, sf_file = at_base c\<rparr>)\<rparr>, Inr f))))"

text \<open>
  The mapping. \<open>do_mmap\<close> refuses before it calls the file, or calls it, where \<open>base_err\<close> is
  the answer of the backing file, and returns the address.
\<close>

datatype mmap_answer = MmapRefused errno | MmapCalled "errno option" "64 word"

definition shmat_checks :: "errno option \<Rightarrow> bool \<Rightarrow> vma list \<Rightarrow> shmat_call \<Rightarrow> errno option" where
  "shmat_checks sec_err killed vs c =
     (case sec_err of
        Some err \<Rightarrow> Some err
      | None \<Rightarrow>
          if killed then Some EINTR
          else if at_addr c \<noteq> 0 \<and> at_shmflg c AND SHM_REMAP = 0 \<and>
                  (at_addr c + at_size c < at_addr c
                   \<or> find_vma_intersection vs (at_addr c) (at_addr c + at_size c) \<noteq> None)
          then Some EINVAL
          else None)"

definition shmat_map ::
    "shm_env \<Rightarrow> errno option \<Rightarrow> bool \<Rightarrow> vma list \<Rightarrow> mmap_answer \<Rightarrow> shmat_call \<Rightarrow> ptr \<Rightarrow> shm_ns
       \<Rightarrow> shm_ns \<times> vma option \<times> (64 word) result" where
  "shmat_map e sec_err killed vs answer c f s =
     (case shmat_checks sec_err killed vs c of
        Some err \<Rightarrow> (s, None, Inl err)
      | None \<Rightarrow>
          (case answer of
             MmapRefused err \<Rightarrow> (s, None, Inl err)
           | MmapCalled base_err addr \<Rightarrow>
               (case shm_mmap (he_task e) base_err f s of
                  (s, Some err) \<Rightarrow> (s, None, Inl err)
                | (s, None) \<Rightarrow>
                    (s, Some \<lparr>vm_start = addr, vm_end = addr + ALIGN (at_size c) PAGE_SIZE, vm_pgoff = 0,
                              vm_file = Some f, vm_shm = True\<rparr>, Inr addr))))"

text \<open>The end of an attach. The code uses the answer of \<^verbatim>\<open>shm_lock\<close> without a check.\<close>

definition shmat_end :: "int \<Rightarrow> shm_ns \<Rightarrow> shm_ns" where
  "shmat_end shmid s =
     (case shm_lock s shmid of
        Inl err \<Rightarrow> s\<lparr>shm_oops := True\<rparr>
      | Inr p \<Rightarrow> shm_check_destroy (upd_shp p (\<lambda>shp. shp\<lparr>shm_nattch := shm_nattch shp - 1\<rparr>) s) p)"

text \<open>
  An attach that nothing interrupts. The reference to its file goes away with the call; a
  file that was not mapped is released on the way back to user space.
\<close>

definition do_shmat ::
    "shm_env \<Rightarrow> bool \<Rightarrow> file_clone \<Rightarrow> errno option \<Rightarrow> bool \<Rightarrow> vma list \<Rightarrow> mmap_answer \<Rightarrow> shm_ns
       \<Rightarrow> int \<Rightarrow> 64 word \<Rightarrow> int \<Rightarrow> 64 word \<Rightarrow> shm_ns \<times> vma option \<times> (64 word) result" where
  "do_shmat e sfd_ok clone sec_err killed vs answer s shmid shmaddr shmflg shmlba =
     (case shmat_begin e s shmid shmaddr shmflg shmlba of
        (s, Inl err) \<Rightarrow> (s, None, Inl err)
      | (s, Inr c) \<Rightarrow>
          (case shmat_file sfd_ok clone c s of
             (s, Inl err) \<Rightarrow> (shmat_end shmid s, None, Inl err)
           | (s, Inr f) \<Rightarrow>
               (case shmat_map e sec_err killed vs answer c f s of
                  (s, None, r) \<Rightarrow> (shm_release f (shmat_end shmid s), None, r)
                | (s, Some v, r) \<Rightarrow> (shmat_end shmid s, Some v, r))))"

section \<open>shmdt\<close>

definition shm_vma_at :: "64 word \<Rightarrow> vma \<Rightarrow> bool" where
  "shm_vma_at addr v \<longleftrightarrow> vm_shm v \<and> (vm_start v - addr) div PAGE_SIZE = vm_pgoff v"

text \<open>The search for the first area of the segment.\<close>

lemma find_vma_Some: "find_vma vs a = Some v \<Longrightarrow> v \<in> set vs \<and> a < vm_end v"
  unfolding find_vma_def by (auto simp: find_Some_iff)

lemma find_vma_progress:
  assumes "find_vma vs a = Some v"
  shows "length (filter (\<lambda>x. vm_end v < vm_end x) vs) < length (filter (\<lambda>x. a < vm_end x) vs)"
proof -
  let ?P = "\<lambda>x. a < vm_end x" and ?Q = "\<lambda>x. vm_end v < vm_end x"
  note v = find_vma_Some [OF assms]
  then have "filter ?Q vs = filter ?Q (filter ?P vs)" by (auto intro: filter_cong)
  moreover have "length (filter ?Q (filter ?P vs)) < length (filter ?P vs)"
    by (rule length_filter_less [where x = v]) (use v in auto)
  ultimately show ?thesis by simp
qed

function shmdt_first :: "vma list \<Rightarrow> 64 word \<Rightarrow> 64 word \<Rightarrow> vma option" where
  "shmdt_first vs addr a =
     (case find_vma vs a of
        None \<Rightarrow> None
      | Some v \<Rightarrow> if shm_vma_at addr v then Some v else shmdt_first vs addr (vm_end v))"
  by pat_completeness auto
termination
  by (relation "measure (\<lambda>(vs, addr, a). length (filter (\<lambda>x. a < vm_end x) vs))")
    (use find_vma_progress in auto)

declare shmdt_first.simps [simp del]

text \<open>
  Unmapping one area as a whole; \<open>stuck\<close> tells where the kernel refuses. An area of the kind
  is closed through its callback.
\<close>

definition unmap_vma :: "task_env \<Rightarrow> (vma \<Rightarrow> bool) \<Rightarrow> vma \<Rightarrow> vma list \<times> shm_ns \<Rightarrow> vma list \<times> shm_ns" where
  "unmap_vma e stuck v = (\<lambda>(vs, s).
     if stuck v then (vs, s)
     else (remove1 v vs, case vm_file v of None \<Rightarrow> s | Some f \<Rightarrow> if vm_shm v then fst (shm_close e f s) else s))"

lemma unmap_subset: "length (filter P (fst (unmap_vma e stuck v x))) \<le> length (filter P (fst x))"
  by (cases x) (auto simp: unmap_vma_def filter_remove1 length_remove1)

function shmdt_rest ::
    "task_env \<Rightarrow> (vma \<Rightarrow> bool) \<Rightarrow> 64 word \<Rightarrow> int \<Rightarrow> ptr option \<Rightarrow> 64 word \<Rightarrow> vma list \<times> shm_ns
       \<Rightarrow> vma list \<times> shm_ns" where
  "shmdt_rest e stuck addr sz vfile a x =
     (case find_vma (fst x) a of
        None \<Rightarrow> x
      | Some v \<Rightarrow>
          if sint (vm_end v - addr) \<le> sz then
            shmdt_rest e stuck addr sz vfile (vm_end v)
              (if shm_vma_at addr v \<and> vm_file v = vfile then unmap_vma e stuck v x else x)
          else x)"
  by pat_completeness auto

termination
proof (relation "measure (\<lambda>(e, stuck, addr, sz, file, a, x). length (filter (\<lambda>v. a < vm_end v) (fst x)))", goal_cases)
  case (2 e stuck addr sz vfile a x v)
  have "length (filter (\<lambda>w. vm_end v < vm_end w) (fst x)) < length (filter (\<lambda>w. a < vm_end w) (fst x))"
    by (rule find_vma_progress [OF 2(1)])
  then show ?case
    using unmap_subset [of "\<lambda>w. vm_end v < vm_end w" e stuck v x] by auto
qed simp

declare shmdt_rest.simps [simp del]

text \<open>The size of the segment behind a file, as a signed number rounded up to pages.\<close>

definition file_size :: "shm_ns \<Rightarrow> ptr option \<Rightarrow> 64 word" where
  "file_size s vfile =
     (case vfile of
        None \<Rightarrow> 0
      | Some f \<Rightarrow>
          (case shm_outer s f of
             None \<Rightarrow> 0
           | Some sfd \<Rightarrow> (case shm_bases s (sf_file sfd) of None \<Rightarrow> 0 | Some b \<Rightarrow> fl_size b)))"

text \<open>
  The end of the first area is read again after the area was unmapped: \<open>reread\<close> is what the
  freed memory holds then.
\<close>

definition ksys_shmdt ::
    "task_env \<Rightarrow> bool \<Rightarrow> (vma \<Rightarrow> bool) \<Rightarrow> 64 word \<Rightarrow> 64 word \<Rightarrow> vma list \<Rightarrow> shm_ns
       \<Rightarrow> (vma list \<times> shm_ns) \<times> int result" where
  "ksys_shmdt e killed stuck reread addr vs s =
     (if addr AND NOT PAGE_MASK \<noteq> 0 then ((vs, s), Inl EINVAL)
      else if killed then ((vs, s), Inl EINTR)
      else
        (case shmdt_first vs addr addr of
           None \<Rightarrow> ((vs, s), Inl EINVAL)
         | Some v \<Rightarrow>
             (let sz = file_size s (vm_file v);
                  x = unmap_vma e stuck v (vs, s)
              in (shmdt_rest e stuck addr (sint (ALIGN sz PAGE_SIZE)) (vm_file v)
                    (if stuck v then vm_end v else reread) x,
                  Inr 0))))"

end
