(* ===== verification/ShmInv.thy ===== *)
theory ShmInv
  imports ShmMap IpcClass
begin

text \<open>
  The invariant of a namespace's segments. Who holds a segment is counted from outside: \<open>A\<close> has
  an entry, the id and the backing file, for every area that maps a segment and every attach
  in progress, \<open>B\<close> the backing file of every attach that has not made its own file yet.
\<close>

unbundle bit_operations_syntax

section \<open>The invariant\<close>

definition base_count :: "shm_ns \<Rightarrow> ptr \<Rightarrow> nat" where
  "base_count s b = (case shm_bases s b of None \<Rightarrow> 0 | Some f \<Rightarrow> fl_count f)"

definition seg_file :: "shm_ns \<Rightarrow> ptr \<Rightarrow> bool" where
  "seg_file s b \<longleftrightarrow> (\<exists>p q. objs (shm_ids s) p = Some q \<and> shm_file q = Some b)"

definition outer_on :: "shm_ns \<Rightarrow> ptr \<Rightarrow> ptr set" where
  "outer_on s b = {f. \<exists>d. shm_outer s f = Some d \<and> sf_file d = b}"

definition segs_ok :: "(int \<times> ptr) multiset \<Rightarrow> shm_ns \<Rightarrow> bool" where
  "segs_ok A s \<longleftrightarrow> (\<forall>p q. objs (shm_ids s) p = Some q \<longrightarrow>
     p \<in> snd ` set (ipcs_idr (shm_ids s)) \<and> perm_refcount q = 1
     \<and> (\<exists>b. shm_file q = Some b \<and> shm_nattch q = int (count A (perm_id q, b))))"

definition held_ok :: "(int \<times> ptr) multiset \<Rightarrow> shm_ns \<Rightarrow> bool" where
  "held_ok A s \<longleftrightarrow> (\<forall>i b. (i, b) \<in># A \<longrightarrow> (\<exists>p q. objs (shm_ids s) p = Some q \<and> perm_id q = i \<and> shm_file q = Some b))"

definition files_ok :: "shm_ns \<Rightarrow> bool" where
  "files_ok s \<longleftrightarrow> (\<forall>p p' q q' b. objs (shm_ids s) p = Some q \<and> objs (shm_ids s) p' = Some q'
     \<and> shm_file q = Some b \<and> shm_file q' = Some b \<longrightarrow> p = p')"

definition bases_ok :: "ptr multiset \<Rightarrow> shm_ns \<Rightarrow> bool" where
  "bases_ok B s \<longleftrightarrow> finite (dom (shm_outer s)) \<and> (\<forall>b f. shm_bases s b = Some f \<longrightarrow> 0 < fl_count f)
     \<and> (\<forall>b. base_count s b = of_bool (seg_file s b) + card (outer_on s b) + count B b)"

text \<open>A file of an attach that is open on the file of a segment carries the id of that segment.\<close>

definition outer_ok :: "shm_ns \<Rightarrow> bool" where
  "outer_ok s \<longleftrightarrow> (\<forall>f d p q. shm_outer s f = Some d \<and> objs (shm_ids s) p = Some q \<and> shm_file q = Some (sf_file d)
     \<longrightarrow> perm_id q = sf_id d)"

definition lists_ok :: "shm_ns \<Rightarrow> bool" where
  "lists_ok s \<longleftrightarrow> (\<forall>t l. shm_lists s t = Some l \<longrightarrow>
     distinct l \<and> (\<forall>p \<in> set l. \<exists>q. objs (shm_ids s) p = Some q \<and> shm_creator q = t))"

definition shm_core :: "(int \<times> ptr) multiset \<Rightarrow> ptr multiset \<Rightarrow> shm_ns \<Rightarrow> bool" where
  "shm_core A B s \<longleftrightarrow> ids_wf (shm_ids s) \<and> \<not> shm_oops s \<and> segs_ok A s \<and> held_ok A s \<and> files_ok s \<and> bases_ok B s
     \<and> outer_ok s \<and> lists_ok s \<and> shm_tot s = table_sum (\<lambda>q. num_pages (shm_segsz q)) (shm_ids s)"

text \<open>A segment marked for destruction is still attached, but for those in \<open>X\<close>.\<close>

definition dest_ok :: "ptr set \<Rightarrow> shm_ns \<Rightarrow> bool" where
  "dest_ok X s \<longleftrightarrow> (\<forall>p q. objs (shm_ids s) p = Some q \<and> p \<notin> X \<and> perm_mode q AND SHM_DEST \<noteq> 0 \<longrightarrow> shm_nattch q \<noteq> 0)"

definition shm_inv :: "(int \<times> ptr) multiset \<Rightarrow> ptr multiset \<Rightarrow> shm_ns \<Rightarrow> bool" where
  "shm_inv A B s \<longleftrightarrow> shm_core A B s \<and> dest_ok {} s"

text \<open>What is held stays where it is.\<close>

definition keeps :: "(int \<times> ptr) multiset \<Rightarrow> shm_ns \<Rightarrow> shm_ns \<Rightarrow> bool" where
  "keeps A s s' \<longleftrightarrow> (\<forall>p q b. objs (shm_ids s) p = Some q \<and> shm_file q = Some b \<and> (perm_id q, b) \<in># A \<longrightarrow>
     (\<exists>q'. objs (shm_ids s') p = Some q' \<and> perm_id q' = perm_id q \<and> shm_file q' = Some b))"

text \<open>A step of the namespace that leaves the files of the attaches alone.\<close>

definition leads :: "(int \<times> ptr) multiset \<Rightarrow> ptr multiset \<Rightarrow> shm_ns \<Rightarrow> shm_ns \<Rightarrow> bool" where
  "leads A B s s' \<longleftrightarrow> shm_inv A B s' \<and> keeps A s s' \<and> shm_outer s' = shm_outer s"

lemma keeps_refl [simp]: "keeps A s s"
  unfolding keeps_def by blast

lemma keeps_trans: "keeps A s s' \<Longrightarrow> keeps A s' s'' \<Longrightarrow> keeps A s s''"
  unfolding keeps_def by metis

lemma leads_refl: "shm_inv A B s \<Longrightarrow> leads A B s s"
  by (simp add: leads_def)

lemma leads_trans: "leads A B s s' \<Longrightarrow> leads A B s' s'' \<Longrightarrow> leads A B s s''"
  unfolding leads_def by (metis keeps_trans)

lemma core_parts:
  assumes "shm_core A B s"
  shows "ids_wf (shm_ids s)" "\<not> shm_oops s" "segs_ok A s" "held_ok A s" "files_ok s" "bases_ok B s" "outer_ok s" "lists_ok s"
    "shm_tot s = table_sum (\<lambda>q. num_pages (shm_segsz q)) (shm_ids s)"
  using assms by (simp_all add: shm_core_def)

lemma inv_core: "shm_inv A B s \<Longrightarrow> shm_core A B s"
  by (simp add: shm_inv_def)

section \<open>Looking a segment up\<close>

lemma seg_dest:
  assumes "shm_core A B s" "objs (shm_ids s) p = Some q"
  obtains i b where "map_of (ipcs_idr (shm_ids s)) i = Some p" "ipcid_to_idx (perm_id q) = i" "perm_refcount q = 1"
    "shm_file q = Some b" "shm_nattch q = int (count A (perm_id q, b))" "\<not> perm_deleted q" "0 \<le> perm_id q"
proof -
  note wf = core_parts(1) [OF assms(1)]
  have "p \<in> snd ` set (ipcs_idr (shm_ids s))" and r: "perm_refcount q = 1"
    and "\<exists>b. shm_file q = Some b \<and> shm_nattch q = int (count A (perm_id q, b))"
    using core_parts(3) [OF assms(1)] assms(2) unfolding segs_ok_def by blast+
  then obtain i b where i: "map_of (ipcs_idr (shm_ids s)) i = Some p"
    and b: "shm_file q = Some b" "shm_nattch q = int (count A (perm_id q, b))"
    using linked_index [OF wf] by metis
  obtain q0 where "objs (shm_ids s) p = Some q0" "\<not> perm_deleted q0" by (rule ids_wf_entry [OF wf i])
  then have "\<not> perm_deleted q" using assms(2) by simp
  then show ?thesis using that i b r entry_idx [OF wf i assms(2)] by blast
qed

lemma seg_lock:
  assumes "shm_core A B s" "objs (shm_ids s) p = Some q"
  shows "shm_lock s (perm_id q) = Inr p"
proof -
  obtain i where "map_of (ipcs_idr (shm_ids s)) i = Some p" "ipcid_to_idx (perm_id q) = i" "\<not> perm_deleted q"
    by (rule seg_dest [OF assms])
  then show ?thesis
    using assms(2) by (simp add: shm_lock_def ipc_obtain_object_idr_def idr_find_def ipc_valid_object_def)
qed

lemma seg_check:
  assumes "shm_core A B s" "objs (shm_ids s) p = Some q"
  shows "shm_obtain_object_check s (perm_id q) = Inr p"
proof -
  obtain i where "map_of (ipcs_idr (shm_ids s)) i = Some p" by (rule seg_dest [OF assms])
  then show ?thesis
    unfolding shm_obtain_object_check_def by (rule obtain_check_entry [OF core_parts(1) [OF assms(1)] _ assms(2)])
qed

lemma lock_seg:
  assumes "shm_core A B s" "shm_lock s i = Inr p"
  obtains q where "objs (shm_ids s) p = Some q"
  using assms(2) by (auto simp: shm_lock_def ipc_valid_object_def split: sum.splits if_splits option.splits)

lemma seg_id_inj:
  assumes "shm_core A B s" "objs (shm_ids s) p = Some q" "objs (shm_ids s) p' = Some q'" "perm_id q = perm_id q'"
  shows "p = p'"
  using seg_lock [OF assms(1,2)] seg_lock [OF assms(1,3)] assms(4) by simp

lemma check_seg:
  assumes "shm_core A B s" "shm_obtain_object_check s i = Inr p"
  obtains q where "objs (shm_ids s) p = Some q" "perm_id q = i"
  using obtain_check_perm_id [OF core_parts(1) [OF assms(1)]] assms(2) unfolding shm_obtain_object_check_def by blast

lemma held_dest:
  assumes "shm_core A B s" "(i, b) \<in># A"
  obtains p q where "objs (shm_ids s) p = Some q" "perm_id q = i" "shm_file q = Some b" "shm_lock s i = Inr p"
proof -
  obtain p q where "objs (shm_ids s) p = Some q" "perm_id q = i" "shm_file q = Some b"
    using core_parts(4) [OF assms(1)] assms(2) unfolding held_ok_def by blast
  then show ?thesis using that seg_lock [OF assms(1)] by blast
qed

lemma base_live:
  assumes "shm_core A B s" "seg_file s b \<or> b \<in># B \<or> outer_on s b \<noteq> {}"
  obtains f where "shm_bases s b = Some f" "0 < fl_count f"
proof -
  have fin: "finite (outer_on s b)"
    by (rule finite_subset [of _ "dom (shm_outer s)"])
      (use core_parts(6) [OF assms(1)] in \<open>auto simp: outer_on_def bases_ok_def\<close>)
  have "base_count s b = of_bool (seg_file s b) + card (outer_on s b) + count B b"
    using core_parts(6) [OF assms(1)] by (simp add: bases_ok_def)
  then have "base_count s b \<noteq> 0" using assms(2) fin by (auto simp: card_eq_0_iff)
  then show ?thesis using that unfolding base_count_def by (cases "shm_bases s b") auto
qed

lemma seg_base:
  assumes "shm_core A B s" "objs (shm_ids s) p = Some q" "shm_file q = Some b"
  obtains f where "shm_bases s b = Some f" "0 < fl_count f"
  using base_live [OF assms(1)] assms(2,3) unfolding seg_file_def by blast

section \<open>Changing one segment\<close>

lemma core_change:
  assumes inv: "shm_core A B s" and q: "objs (shm_ids s) p = Some q" and b: "shm_file q = Some b"
    and wf: "ids_wf ids'" and t: "ipcs_idr ids' = ipcs_idr (shm_ids s)" and o': "objs ids' = (objs (shm_ids s))(p \<mapsto> q')"
    and same: "perm_refcount q' = 1" "perm_id q' = perm_id q" "shm_file q' = shm_file q"
      "shm_creator q' = shm_creator q" "shm_segsz q' = shm_segsz q"
    and n: "shm_nattch q' = int (count A' (perm_id q, b))" and A': "\<And>x. x \<noteq> (perm_id q, b) \<Longrightarrow> count A' x = count A x"
  shows "shm_core A' B (s\<lparr>shm_ids := ids'\<rparr>)" "keeps A' s (s\<lparr>shm_ids := ids'\<rparr>)"
proof -
  let ?s = "s\<lparr>shm_ids := ids'\<rparr>"
  note C = core_parts [OF inv]
  obtain i where i: "map_of (ipcs_idr (shm_ids s)) i = Some p" by (rule seg_dest [OF inv q])
  have other: "\<And>r qr b'. r \<noteq> p \<Longrightarrow> objs (shm_ids s) r = Some qr \<Longrightarrow> count A' (perm_id qr, b') = count A (perm_id qr, b')"
    using A' seg_id_inj [OF inv q] by (metis prod.inject)
  have fb: "shm_file q' = Some b" using same(3) b by simp
  have cs: "objs (shm_ids s) r = Some qr \<and> r \<noteq> p \<or> r = p \<and> qr = q'" if "objs ids' r = Some qr" for r qr
    using that unfolding o' by (cases "r = p") auto
  have sf: "seg_file ?s = seg_file s"
  proof (rule ext)
    fix c
    have "(\<exists>qr. objs ids' r = Some qr \<and> shm_file qr = Some c) \<longleftrightarrow> (\<exists>qr. objs (shm_ids s) r = Some qr \<and> shm_file qr = Some c)" for r
      using q b fb by (cases "r = p") (simp_all add: o')
    then show "seg_file ?s c = seg_file s c" unfolding seg_file_def by simp
  qed
  have "segs_ok A' ?s"
    unfolding segs_ok_def
  proof (intro allI impI)
    fix r qr assume "objs (shm_ids ?s) r = Some qr"
    then consider "r = p" "qr = q'" | "r \<noteq> p" "objs (shm_ids s) r = Some qr" using cs by auto
    then show "r \<in> snd ` set (ipcs_idr (shm_ids ?s)) \<and> perm_refcount qr = 1
        \<and> (\<exists>b. shm_file qr = Some b \<and> shm_nattch qr = int (count A' (perm_id qr, b)))"
    proof cases
      case 1
      have "p \<in> snd ` set (ipcs_idr (shm_ids s))" using C(3) q unfolding segs_ok_def by blast
      then show ?thesis using 1 same(1,2) fb n by (simp add: t)
    next
      case 2
      then show ?thesis using C(3) other [OF 2] by (auto simp: segs_ok_def t)
    qed
  qed
  moreover have "held_ok A' ?s"
    unfolding held_ok_def
  proof (intro allI impI)
    fix j c assume jc: "(j, c) \<in># A'"
    show "\<exists>r qr. objs (shm_ids ?s) r = Some qr \<and> perm_id qr = j \<and> shm_file qr = Some c"
    proof (cases "(j, c) = (perm_id q, b)")
      case True
      then show ?thesis using same(2) fb by (auto simp: o')
    next
      case False
      then have "(j, c) \<in># A" using jc A' by (metis count_greater_zero_iff)
      then obtain r qr where r: "objs (shm_ids s) r = Some qr" "perm_id qr = j" "shm_file qr = Some c"
        using C(4) unfolding held_ok_def by blast
      moreover have "r \<noteq> p" using r q b False by auto
      ultimately show ?thesis by (intro exI [of _ r] exI [of _ qr]) (simp add: o')
    qed
  qed
  moreover have "files_ok ?s"
    unfolding files_ok_def
  proof (intro allI impI, elim conjE)
    fix r r' qr qr' c assume *: "objs (shm_ids ?s) r = Some qr" "objs (shm_ids ?s) r' = Some qr'" "shm_file qr = Some c" "shm_file qr' = Some c"
    obtain x where "objs (shm_ids s) r = Some x" "shm_file x = Some c" using cs [of r qr] * q b fb by auto
    moreover obtain x' where "objs (shm_ids s) r' = Some x'" "shm_file x' = Some c" using cs [of r' qr'] * q b fb by auto
    ultimately show "r = r'" using C(5) unfolding files_ok_def by blast
  qed
  moreover have "bases_ok B ?s"
    using C(6) sf by (simp add: bases_ok_def base_count_def outer_on_def)
  moreover have "outer_ok ?s"
    unfolding outer_ok_def
  proof (intro allI impI, elim conjE)
    fix f d r qr assume *: "shm_outer ?s f = Some d" "objs (shm_ids ?s) r = Some qr" "shm_file qr = Some (sf_file d)"
    obtain x where "objs (shm_ids s) r = Some x" "shm_file x = Some (sf_file d)" "perm_id x = perm_id qr"
      using cs [of r qr] * q same by auto
    then show "perm_id qr = sf_id d" using C(7) * unfolding outer_ok_def by fastforce
  qed
  moreover have "lists_ok ?s"
    unfolding lists_ok_def
  proof (intro allI impI)
    fix t l assume "shm_lists ?s t = Some l"
    then have l: "distinct l" "\<forall>r \<in> set l. \<exists>x. objs (shm_ids s) r = Some x \<and> shm_creator x = t"
      using C(8) by (simp_all add: lists_ok_def)
    have "\<exists>x. objs ids' r = Some x \<and> shm_creator x = t" if "r \<in> set l" for r
      using l(2) that q same(4) by (cases "r = p") (auto simp: o')
    then show "distinct l \<and> (\<forall>r \<in> set l. \<exists>x. objs (shm_ids ?s) r = Some x \<and> shm_creator x = t)" using l(1) by simp
  qed
  moreover have "table_sum (\<lambda>q. num_pages (shm_segsz q)) ids' = table_sum (\<lambda>q. num_pages (shm_segsz q)) (shm_ids s)"
    using table_sum_split [OF C(1) i q t, of q' "\<lambda>q. num_pages (shm_segsz q)"] by (simp add: o' same(5))
  ultimately show "shm_core A' B ?s" using wf C(2,9) unfolding shm_core_def by simp
  show "keeps A' s ?s"
    unfolding keeps_def
  proof (intro allI impI, elim conjE)
    fix r qr c assume *: "objs (shm_ids s) r = Some qr" "shm_file qr = Some c"
    show "\<exists>q'. objs (shm_ids ?s) r = Some q' \<and> perm_id q' = perm_id qr \<and> shm_file q' = Some c"
      using * q same by (cases "r = p") (auto simp: o')
  qed
qed

text \<open>A change of fields the table does not depend on.\<close>

lemma upd_change:
  assumes inv: "shm_core A B s" and q: "objs (shm_ids s) p = Some q" and b: "shm_file q = Some b"
    and same: "perm_core (g q) = perm_core q" "perm_refcount (g q) = 1" "shm_file (g q) = shm_file q"
      "shm_creator (g q) = shm_creator q" "shm_segsz (g q) = shm_segsz q"
    and n: "shm_nattch (g q) = int (count A' (perm_id q, b))" and A': "\<And>x. x \<noteq> (perm_id q, b) \<Longrightarrow> count A' x = count A x"
  shows "shm_core A' B (upd_shp p g s)" "keeps A' s (upd_shp p g s)"
    "objs (shm_ids (upd_shp p g s)) = (objs (shm_ids s))(p \<mapsto> g q)"
    "shm_outer (upd_shp p g s) = shm_outer s"
proof -
  have u: "upd_shp p g s = s\<lparr>shm_ids := upd_obj p g (shm_ids s)\<rparr>" by (simp add: upd_shp_def)
  have wf: "ids_wf (upd_obj p g (shm_ids s))"
    by (rule ids_wf_upd_obj [OF core_parts(1) [OF inv]]) (use q same(1) in simp)
  have "perm_id (g q) = perm_id q" using same(1) by (simp add: perm_core_def)
  then have R: "shm_core A' B (s\<lparr>shm_ids := upd_obj p g (shm_ids s)\<rparr>)" "keeps A' s (s\<lparr>shm_ids := upd_obj p g (shm_ids s)\<rparr>)"
    using core_change [OF inv q b wf _ _ same(2) _ same(3-5) n A'] q by simp_all
  show "shm_core A' B (upd_shp p g s)" "keeps A' s (upd_shp p g s)"
    "objs (shm_ids (upd_shp p g s)) = (objs (shm_ids s))(p \<mapsto> g q)" "shm_outer (upd_shp p g s) = shm_outer s"
    unfolding u using R q by simp_all
qed

end
