(* ===== verification/ShmLife.thy ===== *)
theory ShmLife
  imports ShmInv
begin

text \<open>
  The life of a segment: references to backing files, the files of attaches, destruction,
  removal of the id, creation. Every operation leads from the invariant to the invariant.
\<close>

unbundle bit_operations_syntax

section \<open>References to files\<close>

lemma core_files:
  assumes "shm_core A B s" "shm_ids s' = shm_ids s" "shm_lists s' = shm_lists s" "shm_tot s' = shm_tot s" "\<not> shm_oops s'"
    and "bases_ok B' s'" "outer_ok s'"
  shows "shm_core A B' s'" "keeps A' s s'"
proof -
  show "shm_core A B' s'"
    using assms unfolding shm_core_def segs_ok_def held_ok_def files_ok_def lists_ok_def by simp
  show "keeps A' s s'" using assms(2) by (simp add: keeps_def)
qed

lemma get_file_fields [simp]:
  "shm_ids (get_file b s) = shm_ids s" "shm_lists (get_file b s) = shm_lists s" "shm_tot (get_file b s) = shm_tot s"
  "shm_oops (get_file b s) = shm_oops s" "shm_outer (get_file b s) = shm_outer s" "shm_rmid_forced (get_file b s) = shm_rmid_forced s"
  by (simp_all add: get_file_def)

lemma fput_fields [simp]:
  "shm_ids (fput b s) = shm_ids s" "shm_lists (fput b s) = shm_lists s" "shm_tot (fput b s) = shm_tot s"
  "shm_outer (fput b s) = shm_outer s" "shm_rmid_forced (fput b s) = shm_rmid_forced s"
  by (simp_all add: fput_def split: option.splits)

lemma upd_shp_fields [simp]:
  "shm_lists (upd_shp p f s) = shm_lists s" "shm_tot (upd_shp p f s) = shm_tot s" "shm_oops (upd_shp p f s) = shm_oops s"
  "shm_outer (upd_shp p f s) = shm_outer s" "shm_bases (upd_shp p f s) = shm_bases s" "shm_rmid_forced (upd_shp p f s) = shm_rmid_forced s"
  "shm_ids (upd_shp p f s) = upd_obj p f (shm_ids s)"
  by (simp_all add: upd_shp_def)

lemma core_get_file:
  assumes "shm_core A B s" "shm_bases s b = Some f"
  shows "shm_core A (add_mset b B) (get_file b s)" "keeps A (s) (get_file b s)"
proof -
  note K = core_parts [OF assms(1)]
  have "base_count (get_file b s) c = base_count s c + (if c = b then 1 else 0)" for c
    using assms(2) by (simp add: base_count_def get_file_def)
  moreover have "seg_file (get_file b s) = seg_file s" "outer_on (get_file b s) = outer_on s"
    by (simp_all add: seg_file_def outer_on_def fun_eq_iff)
  moreover have "shm_bases (get_file b s) c = Some g \<Longrightarrow> 0 < fl_count g" for c g
    using K(6) assms(2) by (auto simp: bases_ok_def get_file_def split: if_splits)
  ultimately have "bases_ok (add_mset b B) (get_file b s)" using K(6) by (simp add: bases_ok_def)
  moreover have "outer_ok (get_file b s)" using K(7) by (simp add: outer_ok_def)
  ultimately show "shm_core A (add_mset b B) (get_file b s)" "keeps A s (get_file b s)"
    using core_files [OF assms(1)] K(2) by simp_all
qed

lemma core_fput:
  assumes "shm_core A (add_mset b B) s"
  shows "shm_core A B (fput b s)" "keeps A' s (fput b s)"
proof -
  note K = core_parts [OF assms]
  obtain f where f: "shm_bases s b = Some f" "0 < fl_count f" using base_live [OF assms, of b] by auto
  have bs: "shm_bases (fput b s) = (shm_bases s)(b := if fl_count f = 1 then None else Some (f\<lparr>fl_count := fl_count f - 1\<rparr>))"
    and oo: "shm_oops (fput b s) = shm_oops s"
    using f by (simp_all add: fput_def)
  have cnt: "base_count (fput b s) c + (if c = b then 1 else 0) = base_count s c" for c
    using f by (simp add: base_count_def bs)
  have same: "seg_file (fput b s) = seg_file s" "outer_on (fput b s) = outer_on s"
    by (simp_all add: seg_file_def outer_on_def fun_eq_iff)
  have "base_count s c = of_bool (seg_file s c) + card (outer_on s c) + count (add_mset b B) c" for c
    using K(6) by (simp add: bases_ok_def)
  then have eq: "base_count (fput b s) c = of_bool (seg_file s c) + card (outer_on s c) + count B c" for c
    using cnt [of c] by (simp split: if_splits)
  have pos: "0 < fl_count g" if "shm_bases (fput b s) c = Some g" for c g
  proof (cases "c = b")
    case True
    then show ?thesis using that f(2) by (auto simp: bs split: if_splits)
  next
    case False
    then show ?thesis using that K(6) by (simp add: bs bases_ok_def)
  qed
  have "bases_ok B (fput b s)"
    unfolding bases_ok_def same using eq pos K(6) by (simp add: bases_ok_def)
  moreover have "outer_ok (fput b s)" using K(7) by (simp add: outer_ok_def)
  ultimately show "shm_core A B (fput b s)" "keeps A' s (fput b s)"
    using core_files [OF assms] K(2) oo by simp_all
qed

lemma dest_ok_ids: "shm_ids s' = shm_ids s \<Longrightarrow> dest_ok X s' = dest_ok X s"
  by (simp add: dest_ok_def)

section \<open>Files of attaches\<close>

lemma outer_finite: "shm_core A B s \<Longrightarrow> finite (outer_on s b)"
  by (rule finite_subset [of _ "dom (shm_outer s)"]) (auto simp: outer_on_def shm_core_def bases_ok_def)

lemma core_open:
  assumes "shm_core A (add_mset b B) s" "shm_outer s f = None" "objs (shm_ids s) p = Some q" "shm_file q = Some b"
  shows "shm_core A B (s\<lparr>shm_outer := (shm_outer s)(f \<mapsto> \<lparr>sf_id = perm_id q, sf_file = b\<rparr>)\<rparr>)"
proof -
  let ?s = "s\<lparr>shm_outer := (shm_outer s)(f \<mapsto> \<lparr>sf_id = perm_id q, sf_file = b\<rparr>)\<rparr>"
  note K = core_parts [OF assms(1)]
  have "outer_on ?s c = (if c = b then insert f (outer_on s c) else outer_on s c)" for c
    using assms(2) by (auto simp: outer_on_def)
  moreover have "f \<notin> outer_on s c" for c using assms(2) by (simp add: outer_on_def)
  ultimately have "card (outer_on ?s c) = card (outer_on s c) + (if c = b then 1 else 0)" for c
    using outer_finite [OF assms(1)] by simp
  moreover have "seg_file ?s = seg_file s" "base_count ?s = base_count s"
    by (simp_all add: seg_file_def base_count_def fun_eq_iff)
  ultimately have "bases_ok B ?s" using K(6) by (simp add: bases_ok_def)
  moreover have "outer_ok ?s"
    unfolding outer_ok_def
  proof (intro allI impI, elim conjE)
    fix g d r qr assume *: "shm_outer ?s g = Some d" "objs (shm_ids ?s) r = Some qr" "shm_file qr = Some (sf_file d)"
    show "perm_id qr = sf_id d"
    proof (cases "g = f")
      case True
      then have "d = \<lparr>sf_id = perm_id q, sf_file = b\<rparr>" "r = p"
        using * assms(3,4) K(5) unfolding files_ok_def by auto
      then show ?thesis using * assms(3) by simp
    next
      case False
      then show ?thesis using * K(7) unfolding outer_ok_def by simp
    qed
  qed
  ultimately show ?thesis using core_files(1) [OF assms(1)] K(2) by simp
qed

lemma core_release:
  assumes "shm_core A B s" "shm_outer s f = Some d"
  shows "shm_core A B (shm_release f s)" "keeps A s (shm_release f s)" "shm_ids (shm_release f s) = shm_ids s"
    "shm_outer (shm_release f s) = (shm_outer s)(f := None)" "shm_rmid_forced (shm_release f s) = shm_rmid_forced s"
proof -
  let ?s = "s\<lparr>shm_outer := (shm_outer s)(f := None)\<rparr>"
  note K = core_parts [OF assms(1)]
  have rel: "shm_release f s = fput (sf_file d) ?s"
    using assms(2) by (simp add: shm_release_def fput_def split: option.splits)
  have "outer_on ?s c = outer_on s c - (if c = sf_file d then {f} else {})" for c
    using assms(2) by (auto simp: outer_on_def)
  moreover have "f \<in> outer_on s (sf_file d)" using assms(2) by (simp add: outer_on_def)
  ultimately have "card (outer_on s c) = card (outer_on ?s c) + (if c = sf_file d then 1 else 0)" for c
    using outer_finite [OF assms(1), of c] card_Suc_Diff1 [of "outer_on s c" f] by auto
  moreover have "seg_file ?s = seg_file s" "base_count ?s = base_count s"
    by (simp_all add: seg_file_def base_count_def fun_eq_iff)
  ultimately have "bases_ok (add_mset (sf_file d) B) ?s" using K(6) by (simp add: bases_ok_def)
  moreover have "outer_ok ?s" using K(7) unfolding outer_ok_def by simp blast
  ultimately have "shm_core A (add_mset (sf_file d) B) ?s" using core_files(1) [OF assms(1)] K(2) by simp
  from core_fput [OF this] show "shm_core A B (shm_release f s)" "keeps A s (shm_release f s)" "shm_ids (shm_release f s) = shm_ids s"
    "shm_outer (shm_release f s) = (shm_outer s)(f := None)" "shm_rmid_forced (shm_release f s) = shm_rmid_forced s"
    unfolding rel by (simp_all add: keeps_def)
qed

section \<open>Destruction\<close>

text \<open>A segment nobody holds leaves the table and the memory; its file still has its reference.\<close>

lemma core_gone:
  assumes inv: "shm_core A B s" and q: "objs (shm_ids s) p = Some q" and b: "shm_file q = Some b" and n: "shm_nattch q = 0"
    and wf: "ids_wf (shm_ids s')" and i: "map_of (ipcs_idr (shm_ids s)) i = Some p"
    and t: "ipcs_idr (shm_ids s') = AList.delete i (ipcs_idr (shm_ids s))" and o': "objs (shm_ids s') = (objs (shm_ids s))(p := None)"
    and F: "shm_lists s' = (shm_lists s)(shm_creator q := map_option (remove1 p) (shm_lists s (shm_creator q)))"
      "shm_tot s' = shm_tot s - num_pages (shm_segsz q)" "shm_bases s' = shm_bases s" "shm_outer s' = shm_outer s" "shm_oops s' = shm_oops s"
  shows "shm_core A (add_mset b B) s'" "keeps A s s'"
proof -
  note K = core_parts [OF inv]
  have nA: "(perm_id q, b) \<notin># A"
  proof -
    obtain c where "shm_file q = Some c" "shm_nattch q = int (count A (perm_id q, c))" using K(3) q unfolding segs_ok_def by blast
    then show ?thesis using b n by (auto simp: not_in_iff)
  qed
  have o_iff: "objs (shm_ids s') r = Some x \<longleftrightarrow> r \<noteq> p \<and> objs (shm_ids s) r = Some x" for r x by (simp add: o')
  have del: "set (AList.delete i (ipcs_idr (shm_ids s))) = set (ipcs_idr (shm_ids s)) - {(i, p)}"
    using map_of_is_SomeI [OF ids_wf_distinct(1) [OF K(1)]] i by (auto simp: AList.delete_eq)
  have "p \<notin> snd ` set (AList.delete i (ipcs_idr (shm_ids s)))" by (rule not_in_delete [OF ids_wf_distinct(2) [OF K(1)] i])
  then have t_iff: "r \<in> snd ` set (ipcs_idr (shm_ids s')) \<longleftrightarrow> r \<noteq> p \<and> r \<in> snd ` set (ipcs_idr (shm_ids s))" for r
    unfolding t del by (force simp: image_iff)
  have uniq: "r = p" if "objs (shm_ids s) r = Some x" "shm_file x = Some b" for r x
    using K(5) that q b unfolding files_ok_def by blast
  have sb: "seg_file s b" "\<not> seg_file s' b"
    unfolding seg_file_def o_iff using q b uniq by blast+
  have sc: "seg_file s' c = seg_file s c" if "c \<noteq> b" for c
    unfolding seg_file_def o_iff using q b that by (metis option.inject)
  have "segs_ok A s'" using K(3) unfolding segs_ok_def o_iff t_iff by blast
  moreover have "held_ok A s'"
    unfolding held_ok_def o_iff
  proof (intro allI impI)
    fix j c assume jc: "(j, c) \<in># A"
    then obtain r x where "objs (shm_ids s) r = Some x" "perm_id x = j" "shm_file x = Some c" using K(4) unfolding held_ok_def by blast
    moreover have "r \<noteq> p" using calculation jc nA q b by auto
    ultimately show "\<exists>r x. (r \<noteq> p \<and> objs (shm_ids s) r = Some x) \<and> perm_id x = j \<and> shm_file x = Some c" by blast
  qed
  moreover have "files_ok s'" using K(5) unfolding files_ok_def o_iff by blast
  moreover have "bases_ok (add_mset b B) s'"
  proof -
    have "outer_on s' = outer_on s" "base_count s' = base_count s" by (simp_all add: outer_on_def base_count_def F fun_eq_iff)
    moreover have "of_bool (seg_file s c) = (of_bool (seg_file s' c) :: nat) + (if c = b then 1 else 0)" for c
      using sb sc by (cases "c = b") auto
    ultimately show ?thesis using K(6) by (simp add: bases_ok_def F)
  qed
  moreover have "outer_ok s'" using K(7) unfolding outer_ok_def o_iff F(4) by blast
  moreover have "lists_ok s'"
    unfolding lists_ok_def
  proof (intro allI impI)
    fix u l assume u: "shm_lists s' u = Some l"
    then obtain l0 where l0: "shm_lists s u = Some l0" "l = (if u = shm_creator q then remove1 p l0 else l0)"
      by (auto simp: F(1) split: if_splits)
    then have L: "distinct l0" "\<forall>r \<in> set l0. \<exists>x. objs (shm_ids s) r = Some x \<and> shm_creator x = u"
      using K(8) by (auto simp: lists_ok_def)
    have "p \<notin> set l" using L q unfolding l0(2) by (cases "u = shm_creator q") auto
    moreover have "set l \<subseteq> set l0" "distinct l" using L(1) set_remove1_subset [of p l0] by (simp_all add: l0(2))
    ultimately show "distinct l \<and> (\<forall>r \<in> set l. \<exists>x. objs (shm_ids s') r = Some x \<and> shm_creator x = u)"
      using L(2) unfolding o_iff by blast
  qed
  moreover have "table_sum (\<lambda>q. num_pages (shm_segsz q)) (shm_ids s')
      = table_sum (\<lambda>q. num_pages (shm_segsz q)) (shm_ids s) - num_pages (shm_segsz q)"
    by (rule table_sum_removed [OF K(1) i q t]) (simp add: o')
  ultimately show "shm_core A (add_mset b B) s'" using wf K(2,9) F(2,5) unfolding shm_core_def by simp
  show "keeps A s s'"
    unfolding keeps_def o_iff using uniq nA q b by (metis option.inject)
qed

text \<open>The table after a destruction.\<close>

lemma destroy_ids:
  assumes wf: "ids_wf ids" and i: "map_of (ipcs_idr ids) i = Some p" and q: "objs ids p = Some q" and r: "perm_refcount q = 1"
    and g: "perm_core (g q) = perm_core q" "perm_refcount (g q) = 1" and h: "\<And>x. perm_refcount (h x) = perm_refcount x"
  defines "ids' \<equiv> ipc_rcu_putref (upd_obj p h (ipc_rmid (upd_obj p g ids) p)) p"
  shows "ids_wf ids'" "ipcs_idr ids' = AList.delete i (ipcs_idr ids)" "objs ids' = (objs ids)(p := None)"
proof -
  have wf1: "ids_wf (upd_obj p g ids)" by (rule ids_wf_upd_obj [OF wf]) (use q g(1) in simp)
  have q1: "objs (upd_obj p g ids) p = Some (g q)" by (simp add: q)
  have i1: "map_of (ipcs_idr (upd_obj p g ids)) i = Some p" by (simp add: i)
  define ids2 where "ids2 = ipc_rmid (upd_obj p g ids) p"
  note R = ipc_rmid_fields [OF wf1 i1 q1, folded ids2_def]
  have wf2: "ids_wf ids2" unfolding ids2_def by (rule ids_wf_rmid [OF wf1 i1])
  have t2: "ipcs_idr ids2 = AList.delete i (ipcs_idr ids)" using R(1) by simp
  have p2: "p \<notin> snd ` set (ipcs_idr ids2)" unfolding t2 by (rule not_in_delete [OF ids_wf_distinct(2) [OF wf] i])
  have o2: "objs ids2 = (objs ids)(p \<mapsto> (g q)\<lparr>perm_deleted := True\<rparr>)" using R(4) by simp
  have "perm_refcount (h ((g q)\<lparr>perm_deleted := True\<rparr>)) = 1" using h g(2) by simp
  then have "objs ids' p = None"
    using putref_obj [of "upd_obj p h ids2" p "h ((g q)\<lparr>perm_deleted := True\<rparr>)"] o2 by (simp add: ids'_def flip: ids2_def)
  moreover have other: "objs ids' c = objs ids c" if "c \<noteq> p" for c using that o2 by (simp add: ids'_def flip: ids2_def)
  ultimately show "objs ids' = (objs ids)(p := None)" by (auto simp: fun_eq_iff)
  show "ipcs_idr ids' = AList.delete i (ipcs_idr ids)" using t2 by (simp add: ids'_def flip: ids2_def)
  show "ids_wf ids'"
    by (rule ids_wf_unlinked_cong [OF wf2 p2]) (use o2 other in \<open>simp_all add: ids'_def flip: ids2_def\<close>)
qed

lemma destroy_core:
  assumes inv: "shm_core A B s" and q: "objs (shm_ids s) p = Some q" and n: "shm_nattch q = 0"
  shows "shm_core A B (shm_destroy s p)" "keeps A s (shm_destroy s p)" "shm_outer (shm_destroy s p) = shm_outer s"
    "objs (shm_ids (shm_destroy s p)) = (objs (shm_ids s))(p := None)"
    "map_of (ipcs_idr (shm_ids s)) i = Some p \<Longrightarrow> ipcs_idr (shm_ids (shm_destroy s p)) = AList.delete i (ipcs_idr (shm_ids s))"
    "shm_rmid_forced (shm_destroy s p) = shm_rmid_forced s"
    "shm_lists (shm_destroy s p) = (shm_lists s)(shm_creator q := map_option (remove1 p) (shm_lists s (shm_creator q)))"
proof -
  let ?g = "\<lambda>x. x\<lparr>shm_file := None\<rparr>" and ?h = "\<lambda>x. x\<lparr>shm_cprid := None, shm_lprid := None\<rparr>"
  obtain j b where j: "map_of (ipcs_idr (shm_ids s)) j = Some p" and r: "perm_refcount q = 1" and b: "shm_file q = Some b"
    by (rule seg_dest [OF inv q])
  define ids' where "ids' = ipc_rcu_putref (upd_obj p ?h (ipc_rmid (upd_obj p ?g (shm_ids s)) p)) p"
  define s0 where "s0 = s\<lparr>shm_ids := ids', shm_tot := shm_tot s - num_pages (shm_segsz q),
      shm_lists := (shm_lists s)(shm_creator q := map_option (remove1 p) (shm_lists s (shm_creator q)))\<rparr>"
  have I: "ids_wf ids'" "ipcs_idr ids' = AList.delete j (ipcs_idr (shm_ids s))" "objs ids' = (objs (shm_ids s))(p := None)"
    unfolding ids'_def by (rule destroy_ids [OF core_parts(1) [OF inv] j q r]; simp add: perm_core_def r)+
  have d: "shm_destroy s p = fput b s0"
    using q b by (simp add: shm_destroy_def shm_rmid_def shm_clist_rm_def fput_def s0_def ids'_def Let_def upd_shp_def split: option.splits)
  have s0: "shm_core A (add_mset b B) s0" "keeps A s s0"
    by (rule core_gone [OF inv q b n _ j]; simp add: s0_def I)+
  show "shm_core A B (shm_destroy s p)" "keeps A s (shm_destroy s p)"
    unfolding d using core_fput [OF s0(1)] keeps_trans [OF s0(2)] by blast+
  show "shm_outer (shm_destroy s p) = shm_outer s" "objs (shm_ids (shm_destroy s p)) = (objs (shm_ids s))(p := None)"
    "shm_rmid_forced (shm_destroy s p) = shm_rmid_forced s"
    "shm_lists (shm_destroy s p) = (shm_lists s)(shm_creator q := map_option (remove1 p) (shm_lists s (shm_creator q)))"
    unfolding d by (simp_all add: s0_def I)
  assume "map_of (ipcs_idr (shm_ids s)) i = Some p"
  then have "i = j" using j ids_wf_distinct(2) [OF core_parts(1) [OF inv]] by (metis distinct_map inj_onD map_of_SomeD prod.inject snd_conv)
  then show "ipcs_idr (shm_ids (shm_destroy s p)) = AList.delete i (ipcs_idr (shm_ids s))" unfolding d by (simp add: s0_def I)
qed

text \<open>The check that follows the end of a hold restores the invariant.\<close>

lemma check_destroy_leads:
  assumes inv: "shm_core A B s" and d: "dest_ok {p} s"
  shows "leads A B s (shm_check_destroy s p)" "shm_rmid_forced (shm_check_destroy s p) = shm_rmid_forced s"
proof -
  have "leads A B s (shm_check_destroy s p) \<and> shm_rmid_forced (shm_check_destroy s p) = shm_rmid_forced s"
  proof (cases "objs (shm_ids s) p")
    case None
    then have "dest_ok {} s" using d unfolding dest_ok_def by (metis empty_iff insert_iff option.distinct(1))
    then show ?thesis using inv None by (simp add: shm_check_destroy_def leads_def shm_inv_def)
  next
    case (Some q)
    show ?thesis
    proof (cases "shm_may_destroy s q")
      case True
      then have "shm_nattch q = 0" by (simp add: shm_may_destroy_def)
      note D = destroy_core [OF inv Some this]
      have "dest_ok {} (shm_destroy s p)" using d unfolding dest_ok_def D(4) by simp blast
      then show ?thesis using D True Some by (simp add: shm_check_destroy_def leads_def shm_inv_def)
    next
      case False
      then have "dest_ok {} s" using d Some unfolding dest_ok_def shm_may_destroy_def by (metis option.inject singletonD)
      then show ?thesis using inv Some False by (simp add: shm_check_destroy_def leads_def shm_inv_def)
    qed
  qed
  then show "leads A B s (shm_check_destroy s p)" "shm_rmid_forced (shm_check_destroy s p) = shm_rmid_forced s" by simp_all
qed

end
