(* ===== verification/ShmOps.thy ===== *)
theory ShmOps
  imports ShmLife
begin

text \<open>
  The operations of a namespace on its invariant: removal and release, taking and giving up a
  hold of a segment, and the callbacks of areas.
\<close>

unbundle bit_operations_syntax

section \<open>Removal and release\<close>

lemma dest_okD: "shm_inv A B s \<Longrightarrow> objs (shm_ids s) p = Some q \<Longrightarrow> perm_mode q AND SHM_DEST \<noteq> 0 \<Longrightarrow> shm_nattch q \<noteq> 0"
  by (auto simp: shm_inv_def dest_ok_def)

lemma dest_change:
  assumes "shm_inv A B s" "objs (shm_ids s') = (objs (shm_ids s))(p \<mapsto> q')"
  shows "dest_ok {p} s'" "(perm_mode q' AND SHM_DEST \<noteq> 0 \<Longrightarrow> shm_nattch q' \<noteq> 0) \<Longrightarrow> dest_ok {} s'"
proof -
  have old: "perm_mode x AND SHM_DEST \<noteq> 0 \<Longrightarrow> shm_nattch x \<noteq> 0" if "objs (shm_ids s) r = Some x" for r x
    using assms(1) that unfolding shm_inv_def dest_ok_def by blast
  then show "dest_ok {p} s'" unfolding dest_ok_def assms(2) by (auto split: if_splits)
  assume "perm_mode q' AND SHM_DEST \<noteq> 0 \<Longrightarrow> shm_nattch q' \<noteq> 0"
  then show "dest_ok {} s'" using old unfolding dest_ok_def assms(2) by (auto split: if_splits)
qed

lemma set_key_fields:
  assumes "objs ids p = Some q"
  shows "ipcs_idr (ipc_set_key_private ids p) = ipcs_idr ids"
    "objs (ipc_set_key_private ids p) = (objs ids)(p \<mapsto> q\<lparr>perm_key := IPC_PRIVATE\<rparr>)"
  using assms by (simp_all add: ipc_set_key_private_def kht_remove_fields)

text \<open>Removing the id of a segment: it is destroyed, or marked and made private.\<close>

lemma do_shm_rmid_leads:
  assumes inv: "shm_inv A B s" and q: "objs (shm_ids s) p = Some q"
  shows "leads A B s (do_shm_rmid s p)"
    "shm_nattch q = 0 \<Longrightarrow> objs (shm_ids (do_shm_rmid s p)) = (objs (shm_ids s))(p := None)"
    "shm_nattch q \<noteq> 0 \<Longrightarrow> objs (shm_ids (do_shm_rmid s p)) =
       (objs (shm_ids s))(p \<mapsto> q\<lparr>perm_mode := perm_mode q OR SHM_DEST, perm_key := IPC_PRIVATE\<rparr>)"
    "shm_nattch q \<noteq> 0 \<Longrightarrow> ipcs_idr (shm_ids (do_shm_rmid s p)) = ipcs_idr (shm_ids s)"
proof -
  note core = inv_core [OF inv]
  have "leads A B s (do_shm_rmid s p) \<and> (shm_nattch q = 0 \<longrightarrow> objs (shm_ids (do_shm_rmid s p)) = (objs (shm_ids s))(p := None))
    \<and> (shm_nattch q \<noteq> 0 \<longrightarrow> objs (shm_ids (do_shm_rmid s p)) =
       (objs (shm_ids s))(p \<mapsto> q\<lparr>perm_mode := perm_mode q OR SHM_DEST, perm_key := IPC_PRIVATE\<rparr>)
       \<and> ipcs_idr (shm_ids (do_shm_rmid s p)) = ipcs_idr (shm_ids s))"
  proof (cases "shm_nattch q = 0")
    case True
    note D = destroy_core [OF core q True]
    have "dest_ok {} (shm_destroy s p)" using inv unfolding shm_inv_def dest_ok_def D(4) by simp blast
    then show ?thesis using D True q by (simp add: do_shm_rmid_def leads_def shm_inv_def)
  next
    case False
    obtain i b where i: "map_of (ipcs_idr (shm_ids s)) i = Some p" "perm_refcount q = 1" "shm_file q = Some b"
      "shm_nattch q = int (count A (perm_id q, b))" by (rule seg_dest [OF core q])
    let ?g = "\<lambda>x :: shmid_kernel. x\<lparr>perm_mode := perm_mode x OR SHM_DEST\<rparr>"
    define ids1 where "ids1 = upd_obj p ?g (shm_ids s)"
    have wf1: "ids_wf ids1" unfolding ids1_def by (rule ids_wf_upd_obj [OF core_parts(1) [OF core]]) (simp add: perm_core_def)
    have q1: "objs ids1 p = Some (?g q)" "ipcs_idr ids1 = ipcs_idr (shm_ids s)" by (simp_all add: ids1_def q)
    have wf2: "ids_wf (ipc_set_key_private ids1 p)" by (rule ids_wf_set_key_private [OF wf1]) (use i(1) q1(2) in simp)
    note S = set_key_fields [OF q1(1)]
    have r: "do_shm_rmid s p = s\<lparr>shm_ids := ipc_set_key_private ids1 p\<rparr>"
      using q False by (simp add: do_shm_rmid_def upd_shp_def ids1_def)
    have o: "objs (shm_ids (do_shm_rmid s p)) = (objs (shm_ids s))(p \<mapsto> (?g q)\<lparr>perm_key := IPC_PRIVATE\<rparr>)"
      unfolding r using S(2) by (simp add: ids1_def)
    have o2: "objs (ipc_set_key_private ids1 p) = (objs (shm_ids s))(p \<mapsto> (?g q)\<lparr>perm_key := IPC_PRIVATE\<rparr>)"
      using o r by simp
    have t2: "ipcs_idr (ipc_set_key_private ids1 p) = ipcs_idr (shm_ids s)" using S(1) q1(2) by simp
    have C: "shm_core A B (do_shm_rmid s p)" "keeps A s (do_shm_rmid s p)"
      unfolding r using core_change [OF core q i(3) wf2 t2 o2] i(2,4) by simp_all
    have "dest_ok {} (do_shm_rmid s p)" by (rule dest_change(2) [OF inv o]) (use False in simp)
    then show ?thesis using C False o S(1) q1(2) by (simp add: leads_def shm_inv_def r)
  qed
  then show "leads A B s (do_shm_rmid s p)"
    "shm_nattch q = 0 \<Longrightarrow> objs (shm_ids (do_shm_rmid s p)) = (objs (shm_ids s))(p := None)"
    "shm_nattch q \<noteq> 0 \<Longrightarrow> objs (shm_ids (do_shm_rmid s p)) =
       (objs (shm_ids s))(p \<mapsto> q\<lparr>perm_mode := perm_mode q OR SHM_DEST, perm_key := IPC_PRIVATE\<rparr>)"
    "shm_nattch q \<noteq> 0 \<Longrightarrow> ipcs_idr (shm_ids (do_shm_rmid s p)) = ipcs_idr (shm_ids s)"
    by simp_all
qed

text \<open>A namespace without mappings is released segment by segment.\<close>

definition shm_idle :: "ptr multiset \<Rightarrow> shm_ns \<Rightarrow> bool" where
  "shm_idle B s \<longleftrightarrow> shm_inv {#} B s"

interpretation shm_class: ipc_class shm_ids do_shm_rmid "shm_idle B" for B
proof unfold_locales
  fix s assume "shm_idle B s"
  then show "ids_wf (shm_ids s)" unfolding shm_idle_def by (rule core_parts(1) [OF inv_core])
next
  fix s i p assume inv: "shm_idle B s" and i: "map_of (ipcs_idr (shm_ids s)) i = Some p"
  note core = inv_core [OF inv [unfolded shm_idle_def]]
  obtain q where q: "objs (shm_ids s) p = Some q" by (rule ids_wf_entry [OF core_parts(1) [OF core] i])
  obtain b :: ptr where n: "shm_nattch q = int (count {#} (perm_id q, b))" 
    using core_parts(3) [OF core] q unfolding segs_ok_def by blast
  show "shm_idle B (do_shm_rmid s p)"
    using do_shm_rmid_leads(1) [OF inv [unfolded shm_idle_def] q] unfolding shm_idle_def leads_def by blast
  show "ipcs_idr (shm_ids (do_shm_rmid s p)) = AList.delete i (ipcs_idr (shm_ids s))"
    using destroy_core(5) [OF core q _ i] n q by (simp add: do_shm_rmid_def)
qed

section \<open>Holds\<close>

text \<open>A hold begins and ends.\<close>

lemma hold_more:
  assumes inv: "shm_inv A B s" and q: "objs (shm_ids s) p = Some q" and b: "shm_file q = Some b"
    and g: "perm_core (g q) = perm_core q" "perm_refcount (g q) = perm_refcount q" "shm_file (g q) = shm_file q"
      "shm_creator (g q) = shm_creator q" "shm_segsz (g q) = shm_segsz q" "shm_nattch (g q) = shm_nattch q + 1"
  shows "leads (add_mset (perm_id q, b) A) B s (upd_shp p g s)"
proof -
  note core = inv_core [OF inv]
  obtain c where r: "perm_refcount q = 1" "shm_file q = Some c" "shm_nattch q = int (count A (perm_id q, c))" by (rule seg_dest [OF core q])
  have n: "shm_nattch (g q) = int (count (add_mset (perm_id q, b) A) (perm_id q, b))" using r b g(6) by simp
  have "perm_refcount (g q) = 1" using g(2) r(1) by simp
  note U = upd_change [where g = g and q = q, OF core q b g(1) this g(3-5) n]
  have o: "objs (shm_ids (upd_shp p g s)) = (objs (shm_ids s))(p \<mapsto> g q)" using q by simp
  have "dest_ok {} (upd_shp p g s)" by (rule dest_change(2) [OF inv o]) (use n in simp)
  then show ?thesis using U(1,2) g(2) r(1) by (simp add: leads_def shm_inv_def)
qed

lemma hold_less:
  assumes inv: "shm_inv (add_mset (i, b) A) B s" and q: "objs (shm_ids s) p = Some q" "perm_id q = i" "shm_file q = Some b"
    and g: "perm_core (g q) = perm_core q" "perm_refcount (g q) = perm_refcount q" "shm_file (g q) = shm_file q"
      "shm_creator (g q) = shm_creator q" "shm_segsz (g q) = shm_segsz q" "shm_nattch (g q) = shm_nattch q - 1"
  shows "leads A B s (shm_check_destroy (upd_shp p g s) p)"
proof -
  note core = inv_core [OF inv]
  obtain c where r: "perm_refcount q = 1" "shm_file q = Some c" "shm_nattch q = int (count (add_mset (i, b) A) (perm_id q, c))"
    by (rule seg_dest [OF core q(1)])
  have n: "shm_nattch (g q) = int (count A (perm_id q, b))" using r q g(6) by simp
  have U: "shm_core A B (upd_shp p g s)" "keeps A s (upd_shp p g s)"
    using upd_change(1,2) [where g = g and q = q, OF core q(1,3) g(1) _ g(3-5) n] g(2) r(1) q(2) by simp_all
  have o: "objs (shm_ids (upd_shp p g s)) = (objs (shm_ids s))(p \<mapsto> g q)" using q(1) by simp
  have "leads A B (upd_shp p g s) (shm_check_destroy (upd_shp p g s) p)"
    by (rule check_destroy_leads(1) [OF U(1) dest_change(1) [OF inv o]])
  then show ?thesis using U(2) keeps_trans unfolding leads_def by auto
qed

section \<open>Callbacks of an area\<close>

text \<open>
  Opening on the data of an attach: the segment of the id is held once more if it has the
  same file, and then it is the segment that was attached. Otherwise nothing happens.
\<close>

lemma shm_open_data_leads:
  assumes inv: "shm_inv A B s" and d: "shm_outer s f = Some d"
  shows "snd (shm_open_data e d s) = None \<Longrightarrow> leads (add_mset (sf_id d, sf_file d) A) B s (fst (shm_open_data e d s))"
    "snd (shm_open_data e d s) \<noteq> None \<Longrightarrow> fst (shm_open_data e d s) = s"
proof -
  note core = inv_core [OF inv]
  have "(snd (shm_open_data e d s) = None \<longrightarrow> leads (add_mset (sf_id d, sf_file d) A) B s (fst (shm_open_data e d s)))
    \<and> (snd (shm_open_data e d s) \<noteq> None \<longrightarrow> fst (shm_open_data e d s) = s)"
  proof (cases "shm_lock s (sf_id d)")
    case (Inr p)
    then obtain q where q: "objs (shm_ids s) p = Some q" by (rule lock_seg [OF core])
    show ?thesis
    proof (cases "shm_file q = Some (sf_file d)")
      case True
      then have i: "perm_id q = sf_id d" using core_parts(7) [OF core] d q unfolding outer_ok_def by blast
      have "leads (add_mset (perm_id q, sf_file d) A) B s (fst (shm_open_data e d s))"
        using hold_more [OF inv q True] q True Inr by (simp add: shm_open_data_def perm_core_def)
      then show ?thesis using q True Inr i by (simp add: shm_open_data_def)
    qed (use q Inr in \<open>simp add: shm_open_data_def\<close>)
  qed (simp add: shm_open_data_def)
  then show "snd (shm_open_data e d s) = None \<Longrightarrow> leads (add_mset (sf_id d, sf_file d) A) B s (fst (shm_open_data e d s))"
    "snd (shm_open_data e d s) \<noteq> None \<Longrightarrow> fst (shm_open_data e d s) = s" by simp_all
qed

lemma shm_open_data_held:
  assumes "shm_inv A B s" "(sf_id d, sf_file d) \<in># A"
  shows "snd (shm_open_data e d s) = None"
proof -
  obtain p q where "objs (shm_ids s) p = Some q" "shm_file q = Some (sf_file d)" "shm_lock s (sf_id d) = Inr p"
    using held_dest [OF inv_core [OF assms(1)] assms(2)] by metis
  then show ?thesis by (simp add: shm_open_data_def)
qed

lemma shm_close_data_leads:
  assumes inv: "shm_inv (add_mset (sf_id d, sf_file d) A) B s"
  shows "leads A B s (fst (shm_close_data e d s))" "snd (shm_close_data e d s)"
proof -
  obtain p q where q: "objs (shm_ids s) p = Some q" "perm_id q = sf_id d" "shm_file q = Some (sf_file d)" "shm_lock s (sf_id d) = Inr p"
    using held_dest [OF inv_core [OF inv], of "sf_id d" "sf_file d"] by auto
  show "leads A B s (fst (shm_close_data e d s))" "snd (shm_close_data e d s)"
    using hold_less [OF inv q(1-3)] q(4) by (simp_all add: shm_close_data_def perm_core_def)
qed

text \<open>Mapping a file: one hold more, or an error and no change to what is held.\<close>

lemma shm_mmap_leads:
  assumes inv: "shm_inv A B s" and d: "shm_outer s f = Some d"
  shows "snd (shm_mmap e be f s) = None \<Longrightarrow> leads (add_mset (sf_id d, sf_file d) A) B s (fst (shm_mmap e be f s))"
    "snd (shm_mmap e be f s) \<noteq> None \<Longrightarrow> leads A B s (fst (shm_mmap e be f s))"
proof -
  obtain s1 r where r: "shm_open_data e d s = (s1, r)" by fastforce
  note O = shm_open_data_leads [OF inv d, of e, unfolded r, simplified]
  have "(snd (shm_mmap e be f s) = None \<longrightarrow> leads (add_mset (sf_id d, sf_file d) A) B s (fst (shm_mmap e be f s)))
    \<and> (snd (shm_mmap e be f s) \<noteq> None \<longrightarrow> leads A B s (fst (shm_mmap e be f s)))"
  proof (cases r)
    case None
    show ?thesis
    proof (cases be)
      case None
      then show ?thesis using O(1) d r \<open>r = None\<close> by (simp add: shm_mmap_def)
    next
      case (Some err)
      have l: "leads (add_mset (sf_id d, sf_file d) A) B s s1" using O(1) \<open>r = None\<close> by simp
      then have "leads A B s1 (fst (shm_close_data e d s1))" by (intro shm_close_data_leads) (simp add: leads_def)
      moreover have "keeps A s s1" using l unfolding leads_def keeps_def by auto
      ultimately have "leads A B s (fst (shm_close_data e d s1))" using l keeps_trans unfolding leads_def by auto
      then show ?thesis using d r \<open>r = None\<close> Some by (simp add: shm_mmap_def)
    qed
  next
    case (Some err)
    then show ?thesis using O(2) d r inv by (simp add: shm_mmap_def leads_def)
  qed
  then show "snd (shm_mmap e be f s) = None \<Longrightarrow> leads (add_mset (sf_id d, sf_file d) A) B s (fst (shm_mmap e be f s))"
    "snd (shm_mmap e be f s) \<noteq> None \<Longrightarrow> leads A B s (fst (shm_mmap e be f s))" by simp_all
qed

end
