(* ===== verification/ShmCalls.thy ===== *)
theory ShmCalls
  imports ShmOps
begin

text \<open>
  The calls on the invariant: orphans and the exit of a creator, \<^verbatim>\<open>shmctl\<close>, \<^verbatim>\<open>shmget\<close> and the
  phases of an attach.
\<close>

unbundle bit_operations_syntax

section \<open>Orphans and exit\<close>

lemma check_leads:
  assumes "shm_inv A B s"
  shows "leads A B s (shm_check_destroy s p)" "shm_rmid_forced (shm_check_destroy s p) = shm_rmid_forced s"
  using check_destroy_leads [of A B s p] assms by (auto simp: shm_inv_def dest_ok_def)

lemma destroy_orphaned_leads:
  assumes "shm_inv A B s"
  shows "leads A B s (shm_destroy_orphaned s)"
proof -
  have "leads A B s (fold shm_try_destroy_orphaned l s)" if "shm_inv A B s" for l
    using that
  proof (induction l arbitrary: s)
    case Nil
    then show ?case by (simp add: leads_refl)
  next
    case (Cons p l)
    have l: "leads A B s (shm_try_destroy_orphaned p s)"
      using check_leads(1) [OF Cons.prems] leads_refl [OF Cons.prems] by (simp add: shm_try_destroy_orphaned_def)
    then have "shm_inv A B (shm_try_destroy_orphaned p s)" by (simp add: leads_def)
    from leads_trans [OF l Cons.IH [OF this]] show ?case by simp
  qed
  then show ?thesis using assms leads_refl [OF assms] by (simp add: shm_destroy_orphaned_def)
qed

lemma inv_lists:
  assumes "shm_inv A B s" "lists_ok (s\<lparr>shm_lists := L\<rparr>)"
  shows "leads A B s (s\<lparr>shm_lists := L\<rparr>)"
  using assms unfolding leads_def shm_inv_def shm_core_def dest_ok_def segs_ok_def held_ok_def files_ok_def outer_ok_def bases_ok_def
    base_count_def seg_file_def outer_on_def keeps_def
  by (simp, blast)

lemma lists_dest:
  assumes "shm_inv A B s" "shm_lists s t = Some l"
  shows "distinct l" "\<forall>p \<in> set l. \<exists>q. objs (shm_ids s) p = Some q \<and> shm_creator q = t"
  using core_parts(8) [OF inv_core [OF assms(1)]] assms(2) unfolding lists_ok_def by blast+

lemma getref_putref_same:
  assumes "objs ids p = Some q" "perm_refcount q = 1"
  shows "ipc_rcu_putref (fst (ipc_rcu_getref ids p)) p = ids"
  using assms by (simp add: ipc_rcu_putref_def ipc_rcu_getref_def fun_upd_idem_iff upd_obj_def)

text \<open>One round: the head of the list goes, and the segment with it when it is forced and free.\<close>

lemma exit_shm_round:
  assumes inv: "shm_inv A B s" and l: "shm_lists s t = Some (p # l)"
  defines "s1 \<equiv> s\<lparr>shm_lists := (shm_lists s)(t \<mapsto> l)\<rparr>"
  obtains q where "objs (shm_ids s) p = Some q" "leads A B s s1" "leads A B s (shm_check_destroy s1 p)"
    "exit_shm_loop (Suc n) ok alive t s =
       exit_shm_loop n ok alive t (if shm_rmid_forced s \<and> alive then shm_check_destroy s1 p else s1)"
    "shm_lists (shm_check_destroy s1 p) = shm_lists s1" "shm_rmid_forced (shm_check_destroy s1 p) = shm_rmid_forced s"
    "shm_rmid_forced s \<Longrightarrow> objs (shm_ids (shm_check_destroy s1 p)) =
       (if shm_nattch q = 0 then (objs (shm_ids s))(p := None) else objs (shm_ids s))"
proof -
  note core = inv_core [OF inv]
  note L = lists_dest [OF inv l]
  then obtain q where q: "objs (shm_ids s) p = Some q" "shm_creator q = t" by auto
  have "lists_ok s1"
    using core_parts(8) [OF core] L unfolding lists_ok_def s1_def by simp
  then have s1: "leads A B s s1" unfolding s1_def by (rule inv_lists [OF inv])
  then have inv1: "shm_inv A B s1" by (simp add: leads_def)
  note C = check_leads [OF inv1, of p]
  have q1: "objs (shm_ids s1) p = Some q" by (simp add: s1_def q)
  have r: "perm_refcount q = 1" "\<not> perm_deleted q" using seg_dest [OF core q(1)] by blast+
  have gp: "ipc_rcu_putref (fst (ipc_rcu_getref (shm_ids s) p)) p = shm_ids s" by (rule getref_putref_same [OF q(1) r(1)])
  have st: "exit_shm_loop (Suc n) ok alive t s =
       exit_shm_loop n ok alive t (if shm_rmid_forced s \<and> alive then shm_check_destroy s1 p else s1)"
    using l gp q r by (simp add: exit_shm_loop.simps(2) task_shm_clist_def s1_def ipc_valid_object_def)
  have D: "shm_lists (shm_check_destroy s1 p) = shm_lists s1
    \<and> (shm_rmid_forced s \<longrightarrow> objs (shm_ids (shm_check_destroy s1 p)) =
       (if shm_nattch q = 0 then (objs (shm_ids s))(p := None) else objs (shm_ids s)))"
  proof (cases "shm_may_destroy s1 q")
    case True
    then have n: "shm_nattch q = 0" by (simp add: shm_may_destroy_def)
    note E = destroy_core [OF inv_core [OF inv1] q1 n]
    have "p \<notin> set l" using L(1) by simp
    then have "shm_lists (shm_destroy s1 p) = shm_lists s1"
      unfolding E(7) by (simp add: s1_def q(2) remove1_idem)
    then show ?thesis using True q1 n E(4) by (simp add: shm_check_destroy_def s1_def)
  next
    case False
    then have "shm_rmid_forced s \<Longrightarrow> shm_nattch q \<noteq> 0" by (simp add: shm_may_destroy_def s1_def)
    then show ?thesis using False q1 by (simp add: shm_check_destroy_def s1_def)
  qed
  have f: "shm_rmid_forced (shm_check_destroy s1 p) = shm_rmid_forced s" using C(2) by (simp add: s1_def)
  show thesis
    by (rule that [OF q(1) s1 leads_trans [OF s1 C(1)] st _ f]) (use D in simp_all)
qed

lemma exit_shm_all:
  assumes "shm_inv A B s" "shm_lists s t = Some l" "length l < fuel"
  shows "\<exists>s'. exit_shm_loop fuel ok alive t s = Some s' \<and> leads A B s s' \<and> shm_lists s' = (shm_lists s)(t \<mapsto> [])
    \<and> shm_rmid_forced s' = shm_rmid_forced s
    \<and> (\<forall>p. objs (shm_ids s') p = (if shm_rmid_forced s \<and> alive \<and> p \<in> set l \<and> (\<exists>q. objs (shm_ids s) p = Some q \<and> shm_nattch q = 0)
         then None else objs (shm_ids s) p))"
  using assms
proof (induction l arbitrary: s fuel)
  case Nil
  then obtain n where "fuel = Suc n" using less_imp_Suc_add by auto
  then show ?case using Nil leads_refl by (auto simp: exit_shm_loop.simps(2) task_shm_clist_def)
next
  case (Cons p l)
  then obtain n where n: "fuel = Suc n" "length l < n" by (cases fuel) auto
  define s1 where "s1 = s\<lparr>shm_lists := (shm_lists s)(t \<mapsto> l)\<rparr>"
  obtain q where R: "objs (shm_ids s) p = Some q" "leads A B s s1" "leads A B s (shm_check_destroy s1 p)"
    "exit_shm_loop (Suc n) ok alive t s =
       exit_shm_loop n ok alive t (if shm_rmid_forced s \<and> alive then shm_check_destroy s1 p else s1)"
    "shm_lists (shm_check_destroy s1 p) = shm_lists s1" "shm_rmid_forced (shm_check_destroy s1 p) = shm_rmid_forced s"
    "shm_rmid_forced s \<Longrightarrow> objs (shm_ids (shm_check_destroy s1 p)) =
       (if shm_nattch q = 0 then (objs (shm_ids s))(p := None) else objs (shm_ids s))"
    unfolding s1_def by (rule exit_shm_round [OF Cons.prems(1,2)]) blast
  define s2 where "s2 = (if shm_rmid_forced s \<and> alive then shm_check_destroy s1 p else s1)"
  have s2: "leads A B s s2" "shm_lists s2 = (shm_lists s)(t \<mapsto> l)" "shm_rmid_forced s2 = shm_rmid_forced s"
    using R(2,3,5,6) by (auto simp: s2_def s1_def)
  have o2: "objs (shm_ids s2) = (if shm_rmid_forced s \<and> alive \<and> shm_nattch q = 0 then (objs (shm_ids s))(p := None) else objs (shm_ids s))"
    using R(7) by (auto simp: s2_def s1_def)
  have pl: "p \<notin> set l" using lists_dest(1) [OF Cons.prems(1,2)] by simp
  have "shm_inv A B s2" using s2(1) by (simp add: leads_def)
  moreover have "shm_lists s2 t = Some l" using s2(2) by simp
  note IH = Cons.IH [OF calculation this n(2)]
  then obtain s' where s': "exit_shm_loop n ok alive t s2 = Some s'" "leads A B s2 s'"
    "shm_lists s' = (shm_lists s2)(t \<mapsto> [])" "shm_rmid_forced s' = shm_rmid_forced s2"
    "\<forall>p. objs (shm_ids s') p = (if shm_rmid_forced s2 \<and> alive \<and> p \<in> set l \<and> (\<exists>q. objs (shm_ids s2) p = Some q \<and> shm_nattch q = 0)
         then None else objs (shm_ids s2) p)" by blast
  have "objs (shm_ids s') r = (if shm_rmid_forced s \<and> alive \<and> r \<in> set (p # l) \<and> (\<exists>q. objs (shm_ids s) r = Some q \<and> shm_nattch q = 0)
         then None else objs (shm_ids s) r)" for r
  proof -
    note e = s'(5) [THEN spec, of r, unfolded s2(3)]
    show ?thesis
    proof (cases "r = p")
      case True
      then show ?thesis using pl R(1) e by (simp add: o2)
    next
      case False
      then have "objs (shm_ids s2) r = objs (shm_ids s) r" by (simp add: o2)
      then show ?thesis using False e by auto
    qed
  qed
  moreover have "exit_shm_loop fuel ok alive t s = Some s'" using R(4) s'(1) unfolding n(1) s2_def by simp
  moreover have "shm_lists s' = (shm_lists s)(t \<mapsto> [])" using s'(3) s2(2) by simp
  moreover have "shm_rmid_forced s' = shm_rmid_forced s" using s'(4) s2(3) by simp
  ultimately show ?case using leads_trans [OF s2(1) s'(2)] by blast
qed

section \<open>shmctl\<close>

lemma hold_same:
  assumes inv: "shm_inv A B s" and q: "objs (shm_ids s) p = Some q"
    and g: "perm_core (g q) = perm_core q" "perm_refcount (g q) = perm_refcount q" "shm_file (g q) = shm_file q"
      "shm_creator (g q) = shm_creator q" "shm_segsz (g q) = shm_segsz q" "shm_nattch (g q) = shm_nattch q"
      "perm_mode (g q) AND SHM_DEST = perm_mode q AND SHM_DEST"
  shows "leads A B s (upd_shp p g s)"
proof -
  note core = inv_core [OF inv]
  obtain c where r: "perm_refcount q = 1" "shm_file q = Some c" "shm_nattch q = int (count A (perm_id q, c))" by (rule seg_dest [OF core q])
  have n: "shm_nattch (g q) = int (count A (perm_id q, c))" using r g(6) by simp
  have "perm_refcount (g q) = 1" using g(2) r(1) by simp
  note U = upd_change [where g = g and q = q, OF core q r(2) g(1) this g(3-5) n refl]
  have o: "objs (shm_ids (upd_shp p g s)) = (objs (shm_ids s))(p \<mapsto> g q)" using q by simp
  have "dest_ok {} (upd_shp p g s)" by (rule dest_change(2) [OF inv o]) (use dest_okD [OF inv q] g(6,7) in simp)
  then show ?thesis using U(1,2) by (simp add: leads_def shm_inv_def)
qed

lemma bit_consts: "bit (512 :: int) n \<longleftrightarrow> n = 9" "bit (1024 :: int) n \<longleftrightarrow> n = 10" "bit (511 :: int) n \<longleftrightarrow> n < 9"
proof -
  have *: "(512 :: int) = push_bit 9 1" "(1024 :: int) = push_bit 10 1" "(511 :: int) = mask 9"
    by (simp_all add: push_bit_eq_mult mask_eq_exp_minus_1)
  show "bit (512 :: int) n \<longleftrightarrow> n = 9" "bit (1024 :: int) n \<longleftrightarrow> n = 10" "bit (511 :: int) n \<longleftrightarrow> n < 9"
    unfolding * bit_push_bit_iff bit_mask_iff bit_1_iff by auto
qed

lemma dest_bit:
  "(x AND NOT S_IRWXUGO OR y AND S_IRWXUGO) AND SHM_DEST = x AND SHM_DEST"
  "(x OR SHM_LOCKED) AND SHM_DEST = x AND SHM_DEST" "(x AND NOT SHM_LOCKED) AND SHM_DEST = x AND SHM_DEST"
  by (rule bit_eqI, auto simp: bit_and_iff bit_or_iff bit_not_iff bit_consts SHM_DEST_def SHM_LOCKED_def S_IRWXUGO_def)+

lemma shmctl_down_leads:
  assumes inv: "shm_inv A B s"
  shows "leads A B s (fst (shmctl_down e s shmid cmd perm))"
proof -
  obtain s' r where sr: "shmctl_down e s shmid cmd perm = (s', r)" by fastforce
  have "leads A B s s'"
  proof (cases "s' = s")
    case True
    then show ?thesis using leads_refl [OF inv] by simp
  next
    case False
    obtain p q where p: "objs (shm_ids s) p = Some q"
      "cmd = IPC_RMID \<and> s' = do_shm_rmid s p \<or>
       (\<exists>q'. ipc_update_perm (make_kuid (he_maps e)) (make_kgid (he_maps e)) perm q = Inr q'
          \<and> s' = upd_shp p (\<lambda>_. q'\<lparr>shm_ctim := clock_seconds (he_task e)\<rparr>) s)"
      using sr False unfolding shmctl_down_def by (auto split: sum.splits option.splits if_splits)
    from p(2) show ?thesis
    proof (elim disjE conjE exE)
      assume "s' = do_shm_rmid s p"
      then show ?thesis using do_shm_rmid_leads(1) [OF inv p(1)] by simp
    next
      fix q' assume u: "ipc_update_perm (make_kuid (he_maps e)) (make_kgid (he_maps e)) perm q = Inr q'"
        and s': "s' = upd_shp p (\<lambda>_. q'\<lparr>shm_ctim := clock_seconds (he_task e)\<rparr>) s"
      obtain uu gg where q': "q' = q\<lparr>perm_uid := uu, perm_gid := gg,
          perm_mode := perm_mode q AND NOT S_IRWXUGO OR out_mode perm AND S_IRWXUGO\<rparr>"
        using u by (auto simp: ipc_update_perm_def split: option.splits)
      show ?thesis unfolding s' by (rule hold_same [OF inv p(1)]) (simp_all add: q' perm_core_def dest_bit)
    qed
  qed
  then show ?thesis using sr by simp
qed

lemma shmctl_do_lock_leads:
  assumes inv: "shm_inv A B s"
  shows "leads A B s (fst (shmctl_do_lock e s shmid cmd))"
proof -
  note core = inv_core [OF inv]
  show ?thesis
  proof (cases "shm_obtain_object_check s shmid")
    case (Inr p)
    then obtain q where q: "objs (shm_ids s) p = Some q" by (rule check_seg [OF core])
    obtain b where b: "shm_file q = Some b" by (rule seg_dest [OF core q])
    obtain f where f: "shm_bases s b = Some f" by (rule seg_base [OF core q b])
    let ?lock = "upd_shp p (\<lambda>x. x\<lparr>perm_mode := perm_mode x OR SHM_LOCKED, shm_mlock := Some (he_acct e)\<rparr>) s"
    let ?un = "upd_shp p (\<lambda>x. x\<lparr>perm_mode := perm_mode x AND NOT SHM_LOCKED, shm_mlock := None\<rparr>) s"
    have lock: "leads A B s ?lock" and un: "leads A B s ?un"
      by (rule hold_same [OF inv q]; simp add: perm_core_def dest_bit)+
    have "leads A B s (fput b (get_file b ?un))"
    proof -
      have i: "shm_inv A B ?un" using un by (simp add: leads_def)
      have f': "shm_bases ?un b = Some f" using f by simp
      note G = core_get_file [OF inv_core [OF i] f']
      note F = core_fput [OF G(1)]
      have "dest_ok {} (fput b (get_file b ?un))" 
        using i by (simp add: shm_inv_def dest_ok_ids [of "fput b (get_file b (upd_shp p (\<lambda>x. x\<lparr>perm_mode := perm_mode x AND NOT SHM_LOCKED, shm_mlock := None\<rparr>) s))"
          "upd_shp p (\<lambda>x. x\<lparr>perm_mode := perm_mode x AND NOT SHM_LOCKED, shm_mlock := None\<rparr>) s"])
      then have "leads A B ?un (fput b (get_file b ?un))" using F(1) by (simp add: leads_def shm_inv_def keeps_def)
      then show ?thesis using un leads_trans by blast
    qed
    then show ?thesis
      using Inr q b f lock leads_refl [OF inv]
      by (auto simp: shmctl_do_lock_def Let_def split: option.splits)
  qed (simp add: shmctl_do_lock_def leads_refl [OF inv])
qed

lemma ksys_shmctl_leads:
  assumes inv: "shm_inv A B s"
  shows "ksys_shmctl fuel e s shmid cmd ok v64 old version = Some (s', out, r) \<Longrightarrow> leads A B s s'"
    "compat_ksys_shmctl fuel e s shmid cmd ok p64 p32 version = Some (s', out, r) \<Longrightarrow> leads A B s s'"
    "ksys_old_shmctl fuel e s shmid cmd ok v64 old = Some (s', out, r) \<Longrightarrow> leads A B s s'"
    "compat_ksys_old_shmctl fuel e s shmid cmd ok p64 p32 = Some (s', out, r) \<Longrightarrow> leads A B s s'"
proof -
  note D = shmctl_down_leads [OF inv] and L = shmctl_do_lock_leads [OF inv] and R = leads_refl [OF inv]
  have k: "leads A B s s'" if "ksys_shmctl fuel e s shmid cmd ok v64 old version = Some (s', out, r)" for cmd version
    using that D [of e shmid cmd] L [of e shmid cmd] R unfolding ksys_shmctl_def
    by (auto split: if_splits sum.splits option.splits prod.splits) (metis fst_conv)+
  have c: "leads A B s s'" if "compat_ksys_shmctl fuel e s shmid cmd ok p64 p32 version = Some (s', out, r)" for cmd version
    using that D [of e shmid cmd] L [of e shmid cmd] R unfolding compat_ksys_shmctl_def
    by (auto split: if_splits sum.splits option.splits prod.splits) (metis fst_conv)+
  show "ksys_shmctl fuel e s shmid cmd ok v64 old version = Some (s', out, r) \<Longrightarrow> leads A B s s'"
    "compat_ksys_shmctl fuel e s shmid cmd ok p64 p32 version = Some (s', out, r) \<Longrightarrow> leads A B s s'"
    by (rule k, assumption, rule c, assumption)
  show "ksys_old_shmctl fuel e s shmid cmd ok v64 old = Some (s', out, r) \<Longrightarrow> leads A B s s'"
    using k by (auto simp: ksys_old_shmctl_def split: prod.splits)
  show "compat_ksys_old_shmctl fuel e s shmid cmd ok p64 p32 = Some (s', out, r) \<Longrightarrow> leads A B s s'"
    using c by (auto simp: compat_ksys_old_shmctl_def split: prod.splits)
qed

end
