(* ===== verification/ShmNew.thy ===== *)
theory ShmNew
  imports ShmCalls
begin

text \<open>
  New segments and the phases of an attach on the invariant.
\<close>

unbundle bit_operations_syntax

section \<open>New segments\<close>

text \<open>
  The documented contracts of the kernel's allocators; the entry that holds the list of the
  caller is allocated.
\<close>

definition shm_kernel_ok :: "shm_env \<Rightarrow> bool" where
  "shm_kernel_ok e \<longleftrightarrow> idr_alloc_ok (he_alloc e) \<and> kmalloc_ok (he_new e) \<and> he_list e"

lemma fresh_base:
  assumes "shm_core A B s" "shm_bases s b = None"
  shows "\<not> seg_file s b" "outer_on s b = {}" "b \<notin># B" "(i, b) \<notin># A"
proof -
  have "base_count s b = of_bool (seg_file s b) + card (outer_on s b) + count B b"
    using core_parts(6) [OF assms(1)] by (simp add: bases_ok_def)
  then have "of_bool (seg_file s b) + card (outer_on s b) + count B b = 0" using assms(2) by (simp add: base_count_def)
  then show n: "\<not> seg_file s b" and "outer_on s b = {}" "b \<notin># B"
    using outer_finite [OF assms(1), of b] by (auto simp: not_in_iff)
  show "(i, b) \<notin># A"
    using n held_dest [OF assms(1), of i b] unfolding seg_file_def by metis
qed

lemma core_new:
  assumes inv: "shm_core A B s" and p: "objs (shm_ids s) p = None" and b: "shm_bases s b = None"
    and wf: "ids_wf (shm_ids s')" and t: "ipcs_idr (shm_ids s') = ipcs_idr (shm_ids s) @ [(idx, p)]"
    and o': "objs (shm_ids s') = (objs (shm_ids s))(p \<mapsto> q)"
    and q: "perm_refcount q = 1" "shm_file q = Some b" "shm_nattch q = 0" "shm_creator q = u"
    and F: "shm_bases s' = (shm_bases s)(b \<mapsto> f)" "fl_count f = 1" "shm_outer s' = shm_outer s" "shm_oops s' = shm_oops s"
      "shm_lists s' = (shm_lists s)(u \<mapsto> p # (case shm_lists s u of None \<Rightarrow> [] | Some l \<Rightarrow> l))"
      "shm_tot s' = shm_tot s + num_pages (shm_segsz q)"
  shows "shm_core A B s'" "keeps A s s'"
proof -
  note K = core_parts [OF inv]
  note fr = fresh_base [OF inv b]
  have cs: "objs (shm_ids s') r = Some x \<longleftrightarrow> r = p \<and> x = q \<or> r \<noteq> p \<and> objs (shm_ids s) r = Some x" for r x
    by (auto simp: o')
  have nb: "shm_file x \<noteq> Some b" if "objs (shm_ids s) r = Some x" for r x
    using fr(1) that unfolding seg_file_def by blast
  have "segs_ok A s'"
    unfolding segs_ok_def cs t
  proof (intro allI impI, elim disjE conjE)
    fix r x assume "r = p" "x = q"
    then show "r \<in> snd ` set (ipcs_idr (shm_ids s) @ [(idx, p)]) \<and> perm_refcount x = 1
        \<and> (\<exists>c. shm_file x = Some c \<and> shm_nattch x = int (count A (perm_id x, c)))"
      using q fr(4) by (simp add: not_in_iff)
  next
    fix r x assume "r \<noteq> p" "objs (shm_ids s) r = Some x"
    then show "r \<in> snd ` set (ipcs_idr (shm_ids s) @ [(idx, p)]) \<and> perm_refcount x = 1
        \<and> (\<exists>c. shm_file x = Some c \<and> shm_nattch x = int (count A (perm_id x, c)))"
      using K(3) by (simp add: segs_ok_def)
  qed
  moreover have "held_ok A s'" using K(4) p unfolding held_ok_def cs by (metis option.distinct(1))
  moreover have "files_ok s'"
    using K(5) nb q(2) unfolding files_ok_def cs by (metis option.inject)
  moreover have "bases_ok B s'"
  proof -
    have "seg_file s' c \<longleftrightarrow> seg_file s c \<or> c = b" for c
      unfolding seg_file_def cs using q(2) p by (metis option.distinct(1) option.inject)
    moreover have "base_count s' c = base_count s c + (if c = b then 1 else 0)" for c
      using b by (simp add: base_count_def F)
    moreover have "outer_on s' = outer_on s" by (simp add: outer_on_def F fun_eq_iff)
    ultimately show ?thesis
      using K(6) fr(1) F(1-3) by (auto simp: bases_ok_def)
  qed
  moreover have "outer_ok s'"
    unfolding outer_ok_def cs F(3)
  proof (intro allI impI, elim conjE disjE)
    fix g d r x assume "shm_outer s g = Some d" "r = p" "x = q" "shm_file x = Some (sf_file d)"
    then have "g \<in> outer_on s b" using q(2) by (simp add: outer_on_def)
    then show "perm_id x = sf_id d" using fr(2) by blast
  next
    fix g d r x assume "shm_outer s g = Some d" "objs (shm_ids s) r = Some x" "shm_file x = Some (sf_file d)"
    then show "perm_id x = sf_id d" using K(7) unfolding outer_ok_def by blast
  qed
  moreover have "lists_ok s'"
    unfolding lists_ok_def
  proof (intro allI impI)
    fix v l assume v: "shm_lists s' v = Some l"
    define l0 where "l0 = (case shm_lists s v of None \<Rightarrow> [] | Some l \<Rightarrow> l)"
    have l: "l = (if v = u then p # l0 else l0)" using v by (auto simp: F(5) l0_def split: if_splits)
    have L: "distinct l0 \<and> (\<forall>r \<in> set l0. \<exists>x. objs (shm_ids s) r = Some x \<and> shm_creator x = v)"
      using K(8) by (auto simp: l0_def lists_ok_def split: option.splits)
    then have pl: "p \<notin> set l0" using p by force
    have "\<exists>x. objs (shm_ids s') r = Some x \<and> shm_creator x = v" if "r \<in> set l0" for r
      using L that pl by (auto simp: o')
    then show "distinct l \<and> (\<forall>r \<in> set l. \<exists>x. objs (shm_ids s') r = Some x \<and> shm_creator x = v)"
      using L pl q(4) l by (auto simp: o')
  qed
  moreover have "table_sum (\<lambda>q. num_pages (shm_segsz q)) (shm_ids s') = table_sum (\<lambda>q. num_pages (shm_segsz q)) (shm_ids s) + num_pages (shm_segsz q)"
    by (rule table_sum_added [OF fresh_unlinked [OF K(1) p] t o'])
  ultimately show "shm_core A B s'" using wf K(2,9) F(4,6) unfolding shm_core_def by simp
  show "keeps A s s'" using p unfolding keeps_def cs by (metis option.distinct(1))
qed

lemma core_ids_same:
  assumes "shm_core A B s" "ids_wf ids'" "ipcs_idr ids' = ipcs_idr (shm_ids s)" "objs ids' = objs (shm_ids s)"
  shows "shm_core A B (s\<lparr>shm_ids := ids'\<rparr>)" "keeps A s (s\<lparr>shm_ids := ids'\<rparr>)"
proof -
  have "table_sum f ids' = table_sum f (shm_ids s)" for f :: "shmid_kernel \<Rightarrow> 64 word"
    by (rule table_sum_same) (use assms(3,4) in simp_all)
  then show "shm_core A B (s\<lparr>shm_ids := ids'\<rparr>)"
    using assms unfolding shm_core_def segs_ok_def held_ok_def files_ok_def outer_ok_def bases_ok_def base_count_def seg_file_def outer_on_def lists_ok_def
    by (simp, blast)
  show "keeps A s (s\<lparr>shm_ids := ids'\<rparr>)" using assms(4) by (simp add: keeps_def)
qed

lemma fresh_mode: "(x AND S_IRWXUGO) AND SHM_DEST = 0"
  by (rule bit_eqI) (simp add: bit_and_iff bit_consts SHM_DEST_def S_IRWXUGO_def)

text \<open>
  A new segment has the key, the mode and the size of the request; when the creation fails
  nothing is held, allocated or counted.
\<close>

lemma newseg_leads:
  assumes inv: "shm_inv A B s" and ok: "shm_kernel_ok e" and n: "newseg e params s = (s', r)"
    and key: "par_key params = IPC_PRIVATE \<or> key_ht (shm_ids s) (par_key params) = None \<or> (\<exists>err. r = Inl err)"
  shows "leads A B s s'"
    "r = Inr i \<Longrightarrow> \<exists>p q. ipc_obtain_object_check (shm_ids s') i = Inr p \<and> objs (shm_ids s') p = Some q
       \<and> objs (shm_ids s) p = None \<and> perm_key q = par_key params \<and> perm_mode q = par_flg params AND S_IRWXUGO
       \<and> shm_segsz q = of_int (par_nsems params) \<and> shm_nattch q = 0 \<and> shm_tot s' = shm_tot s + num_pages (shm_segsz q)"
proof -
  note core = inv_core [OF inv]
  let ?cur = "cur_task (he_task e)"
  let ?goal = "leads A B s s' \<and> (r = Inr i \<longrightarrow> (\<exists>p q. ipc_obtain_object_check (shm_ids s') i = Inr p \<and> objs (shm_ids s') p = Some q
       \<and> objs (shm_ids s) p = None \<and> perm_key q = par_key params \<and> perm_mode q = par_flg params AND S_IRWXUGO
       \<and> shm_segsz q = of_int (par_nsems params) \<and> shm_nattch q = 0 \<and> shm_tot s' = shm_tot s + num_pages (shm_segsz q)))"
  have "?goal"
  proof (cases "s' = s \<and> (\<exists>err. r = Inl err)")
    case True
    then show ?thesis using leads_refl [OF inv] by auto
  next
    case False
    obtain p b huge fsize where p: "he_new e (\<lambda>p. objs (shm_ids s) p \<noteq> None) = Some p"
      and b: "he_new e (\<lambda>b. shm_bases s b \<noteq> None) = Some b"
      and n': "(let s = s\<lparr>shm_bases := (shm_bases s)(b \<mapsto> \<lparr>fl_count = 1, fl_size = fsize, fl_huge = huge\<rparr>)\<rparr>;
             ids = objs_update (\<lambda>h. h(p \<mapsto> fresh_segment e params b)) (shm_ids s)
         in case ipc_addid (he_task e) (he_alloc e) (he_kht e) ids p (shm_ctlmni s) of
              (ids, Inl err) \<Rightarrow> ((fput b s)\<lparr>shm_ids := ipc_rcu_putref ids p\<rparr>, Inl err)
            | (ids, Inr idx) \<Rightarrow>
                (let s = s\<lparr>shm_ids := ids\<rparr>;
                     s = (case task_shm_clist (he_list e) ?cur s of
                            (s, None) \<Rightarrow> s\<lparr>shm_oops := True\<rparr>
                          | (s, Some l) \<Rightarrow> s\<lparr>shm_lists := (shm_lists s)(?cur \<mapsto> p # l)\<rparr>)
                 in (s\<lparr>shm_tot := shm_tot s + num_pages (of_int (par_nsems params))\<rparr>,
                     Inr (case objs ids p of Some shp \<Rightarrow> perm_id shp | None \<Rightarrow> 0)))) = (s', r)"
      using n False unfolding newseg_def by (auto simp: Let_def split: if_splits option.splits sum.splits)
    have km: "kmalloc_ok (he_new e)" "idr_alloc_ok (he_alloc e)" "he_list e" using ok by (simp_all add: shm_kernel_ok_def)
    note pf = kmalloc_fresh [OF km(1) p] and bf = kmalloc_fresh [OF km(1) b]
    define f where "f = \<lparr>fl_count = 1, fl_size = fsize, fl_huge = huge\<rparr>"
    define q0 where "q0 = fresh_segment e params b"
    obtain ids1 a where a: "ipc_addid (he_task e) (he_alloc e) (he_kht e) (objs_update (\<lambda>h. h(p \<mapsto> q0)) (shm_ids s)) p (shm_ctlmni s) = (ids1, a)"
      by fastforce
    show ?thesis
    proof (cases a)
      case (Inl err)
      note AF = addid_fail [OF core_parts(1) [OF core] pf km(2) a [unfolded Inl]]
      have fp: "fput b (s\<lparr>shm_bases := (shm_bases s)(b \<mapsto> f)\<rparr>) = s"
        using bf by (simp add: fput_def f_def fun_upd_idem)
      have s': "s' = s\<lparr>shm_ids := ipc_rcu_putref ids1 p\<rparr>" "r = Inl err"
        using n' a Inl fp by (simp_all add: q0_def f_def)
      note C = core_ids_same [OF core AF]
      have "dest_ok {} s'" using inv AF(3) by (simp add: s' shm_inv_def dest_ok_def, blast)
      then have "leads A B s s'" using C by (simp add: s' leads_def shm_inv_def)
      then show ?thesis using s'(2) by simp
    next
      case (Inr idx)
      have k: "perm_key q0 = IPC_PRIVATE \<or> key_ht (shm_ids s) (perm_key q0) = None"
        using key n' a Inr by (auto simp: q0_def fresh_segment_def Let_def split: prod.splits)
      obtain q1 sq where q1: "q1 = added_perm (he_task e) sq idx q0" and I: "ids_wf ids1" "objs ids1 = (objs (shm_ids s))(p \<mapsto> q1)"
        "ipcs_idr ids1 = ipcs_idr (shm_ids s) @ [(idx, p)]" "ipc_obtain_object_check ids1 (perm_id q1) = Inr p"
        using addid_new [OF core_parts(1) [OF core] pf km(2) a [unfolded Inr] k] by metis
      have Q: "perm_refcount q1 = 1" "shm_file q1 = Some b" "shm_nattch q1 = 0" "shm_creator q1 = ?cur" "perm_key q1 = par_key params"
        "perm_mode q1 = par_flg params AND S_IRWXUGO" "shm_segsz q1 = of_int (par_nsems params)"
        by (simp_all add: q1 added_perm_def q0_def fresh_segment_def)
      have ss: "r = Inr (perm_id q1) \<and> shm_ids s' = ids1 \<and> shm_bases s' = (shm_bases s)(b \<mapsto> f) \<and> shm_outer s' = shm_outer s
          \<and> shm_oops s' = shm_oops s \<and> shm_tot s' = shm_tot s + num_pages (of_int (par_nsems params))
          \<and> shm_lists s' = (shm_lists s)(?cur \<mapsto> p # (case shm_lists s ?cur of None \<Rightarrow> [] | Some l \<Rightarrow> l))"
        using n' a Inr km(3) I(2)
        by (auto simp: q0_def f_def task_shm_clist_def Let_def split: option.splits)
      have f1: "fl_count f = 1" by (simp add: f_def)
      have C: "shm_core A B s'" "keeps A s s'"
        using core_new [OF core pf bf _ _ _ Q(1-4) _ f1] I ss Q(7) by simp_all
      have "dest_ok {} s'"
        by (rule dest_change(2) [OF inv, of _ p q1]) (use ss I(2) Q(6) fresh_mode in simp_all)
      then have "leads A B s s'" using C ss by (simp add: leads_def shm_inv_def)
      then show ?thesis using ss I(2,4) Q pf by auto
    qed
  qed
  then show "leads A B s s'" "r = Inr i \<Longrightarrow> \<exists>p q. ipc_obtain_object_check (shm_ids s') i = Inr p \<and> objs (shm_ids s') p = Some q
       \<and> objs (shm_ids s) p = None \<and> perm_key q = par_key params \<and> perm_mode q = par_flg params AND S_IRWXUGO
       \<and> shm_segsz q = of_int (par_nsems params) \<and> shm_nattch q = 0 \<and> shm_tot s' = shm_tot s + num_pages (shm_segsz q)"
    by blast+
qed

lemma newseg_fail_inv:
  assumes "shm_inv A B s" "shm_kernel_ok e" "newseg e params s = (s', Inl err)"
  shows "shm_inv A B s'"
  using newseg_leads(1) [OF assms] by (simp add: leads_def)

interpretation shm_getter: ipc_getter shm_ids "newseg e" "\<lambda>s. shm_inv A B s \<and> shm_kernel_ok e" for e A B
proof unfold_locales
  fix s assume "shm_inv A B s \<and> shm_kernel_ok e"
  then show "ids_wf (shm_ids s)" using core_parts(1) [OF inv_core] by blast
next
  fix s s' params i
  assume "shm_inv A B s \<and> shm_kernel_ok e" "par_key params = IPC_PRIVATE \<or> key_ht (shm_ids s) (par_key params) = None"
    "newseg e params s = (s', Inr i)"
  then show "(shm_inv A B s' \<and> shm_kernel_ok e) \<and> (\<exists>p q. ipc_obtain_object_check (shm_ids s') i = Inr p \<and> objs (shm_ids s') p = Some q
             \<and> perm_key q = par_key params \<and> perm_mode q = par_flg params AND S_IRWXUGO)"
    using newseg_leads [where r = "Inr i"] unfolding leads_def by blast
next
  fix s s' params err
  assume a: "shm_inv A B s \<and> shm_kernel_ok e" "newseg e params s = (s', Inl err)"
  then show "shm_inv A B s' \<and> shm_kernel_ok e" using newseg_fail_inv by blast
qed

lemma shmget_leads:
  assumes inv: "shm_inv A B s" and ok: "shm_kernel_ok e" and call: "ksys_shmget e k sz shmflg s = (s', r)"
  shows "leads A B s s'"
proof -
  let ?p = "\<lparr>par_key = k, par_flg = shmflg, par_nsems = uint sz\<rparr>"
  consider "s' = s" | "newseg e ?p s = (s', r)" "par_key ?p = IPC_PRIVATE \<or> key_ht (shm_ids s) (par_key ?p) = None"
    using call unfolding ksys_shmget_def ipcget_def ipcget_new_def ipcget_public_def
    by (auto simp: ipc_findkey_def split: option.splits if_splits)
  then show ?thesis using leads_refl [OF inv] newseg_leads(1) [OF inv ok] by cases blast+
qed

section \<open>The phases of an attach\<close>

text \<open>
  What the caller of a started attach relies on: the segment it found is still there.
\<close>

definition at_ok :: "shm_ns \<Rightarrow> shmat_call \<Rightarrow> bool" where
  "at_ok s c \<longleftrightarrow> (\<exists>q. objs (shm_ids s) (at_shp c) = Some q \<and> perm_id q = at_shmid c \<and> shm_file q = Some (at_base c))"

lemma at_ok_keeps: "at_ok s c \<Longrightarrow> keeps A s s' \<Longrightarrow> (at_shmid c, at_base c) \<in># A \<Longrightarrow> at_ok s' c"
proof -
  assume a: "at_ok s c" "keeps A s s'" "(at_shmid c, at_base c) \<in># A"
  then obtain q where "objs (shm_ids s) (at_shp c) = Some q" "perm_id q = at_shmid c" "shm_file q = Some (at_base c)"
    by (auto simp: at_ok_def)
  note q = this
  have "\<exists>q'. objs (shm_ids s') (at_shp c) = Some q' \<and> perm_id q' = perm_id q \<and> shm_file q' = Some (at_base c)"
    using a(2) [unfolded keeps_def, THEN spec, THEN spec, THEN spec, of "at_shp c" q "at_base c"] a(3) q by simp
  then show "at_ok s' c" using q by (auto simp: at_ok_def)
qed

lemma shmat_begin_leads:
  assumes inv: "shm_inv A B s"
  shows "shmat_begin e s shmid shmaddr flg lba = (s', Inl err) \<Longrightarrow> s' = s"
    "shmat_begin e s shmid shmaddr flg lba = (s', Inr c) \<Longrightarrow>
       leads (add_mset (at_shmid c, at_base c) A) (add_mset (at_base c) B) s s' \<and> at_ok s' c \<and> at_shmid c = shmid"
proof -
  note core = inv_core [OF inv]
  have base: "\<exists>b f. shm_file q = Some b \<and> shm_bases s b = Some f" if "objs (shm_ids s) p = Some q" for p q
    using seg_dest [OF core that] seg_base [OF core that] by metis
  show "s' = s" if "shmat_begin e s shmid shmaddr flg lba = (s', Inl err)"
    using that unfolding shmat_begin_def
    by (auto simp: Let_def dest!: base split: if_splits option.splits sum.splits prod.splits)
  assume a: "shmat_begin e s shmid shmaddr flg lba = (s', Inr c)"
  then obtain p q b f where p: "shm_obtain_object_check s shmid = Inr p" and q: "objs (shm_ids s) p = Some q"
    and b: "shm_file q = Some b" and f: "shm_bases s b = Some f"
    and s': "s' = upd_shp p (\<lambda>shp. shp\<lparr>shm_nattch := shm_nattch shp + 1\<rparr>) (get_file b s)"
    and c: "at_shmid c = shmid" "at_shp c = p" "at_base c = b"
    unfolding shmat_begin_def by (auto simp: Let_def split: if_splits option.splits sum.splits prod.splits)
  have i: "perm_id q = shmid" using check_seg [OF core p] q by (metis option.inject)
  note G = core_get_file [OF core f]
  have "dest_ok {} (get_file b s)" using inv by (simp add: shm_inv_def dest_ok_ids [of "get_file b s" s])
  then have gi: "shm_inv A (add_mset b B) (get_file b s)" using G(1) by (simp add: shm_inv_def)
  have q': "objs (shm_ids (get_file b s)) p = Some q" using q by simp
  have l: "leads (add_mset (perm_id q, b) A) (add_mset b B) (get_file b s) s'"
    unfolding s' by (rule hold_more [OF gi q' b]) (simp_all add: perm_core_def)
  then have "leads (add_mset (perm_id q, b) A) (add_mset b B) s s'"
    unfolding leads_def keeps_def by simp
  moreover have "at_ok s' c" using q b i by (simp add: at_ok_def c s')
  ultimately show "leads (add_mset (at_shmid c, at_base c) A) (add_mset (at_base c) B) s s' \<and> at_ok s' c \<and> at_shmid c = shmid"
    using i c by simp
qed

lemma shmat_file_leads:
  assumes inv: "shm_inv A (add_mset (at_base c) B) s" and at: "at_ok s c" and ok: "file_clone_ok clone"
  shows "shmat_file sfd_ok clone c s = (s', Inl err) \<Longrightarrow> leads A B s s'"
    "shmat_file sfd_ok clone c s = (s', Inr f) \<Longrightarrow> shm_inv A B s' \<and> shm_ids s' = shm_ids s \<and> shm_outer s f = None
       \<and> shm_outer s' = (shm_outer s)(f \<mapsto> \<lparr>sf_id = at_shmid c, sf_file = at_base c\<rparr>)"
proof -
  note core = inv_core [OF inv]
  obtain q where q: "objs (shm_ids s) (at_shp c) = Some q" "perm_id q = at_shmid c" "shm_file q = Some (at_base c)"
    using at by (auto simp: at_ok_def)
  have fp: "leads A B s (fput (at_base c) s)"
    using core_fput [OF core] inv by (simp add: leads_def shm_inv_def dest_ok_ids [of "fput (at_base c) s" s])
  show "leads A B s s'" if "shmat_file sfd_ok clone c s = (s', Inl err)"
    using that fp q(1) by (auto simp: shmat_file_def split: if_splits sum.splits)
  assume a: "shmat_file sfd_ok clone c s = (s', Inr f)"
  then have cl: "clone (\<lambda>f. shm_outer s f \<noteq> None) = Inr f"
    and s': "s' = s\<lparr>shm_outer := (shm_outer s)(f \<mapsto> \<lparr>sf_id = perm_id q, sf_file = at_base c\<rparr>)\<rparr>"
    using q(1) by (auto simp: shmat_file_def split: if_splits sum.splits)
  then have fr: "shm_outer s f = None" using ok unfolding file_clone_ok_def by blast
  have "shm_core A B s'" unfolding s' by (rule core_open [OF core fr q(1,3)])
  moreover have "dest_ok {} s'" using inv by (simp add: s' shm_inv_def dest_ok_def, blast)
  ultimately show "shm_inv A B s' \<and> shm_ids s' = shm_ids s \<and> shm_outer s f = None
       \<and> shm_outer s' = (shm_outer s)(f \<mapsto> \<lparr>sf_id = at_shmid c, sf_file = at_base c\<rparr>)"
    using fr q(2) by (simp add: s' shm_inv_def)
qed

lemma shmat_map_leads:
  assumes inv: "shm_inv A B s" and d: "shm_outer s f = Some d" and m: "shmat_map e se killed vs answer c f s = (s', v, r)"
  shows "v = None \<Longrightarrow> leads A B s s' \<and> (\<exists>err. r = Inl err)"
    "v = Some w \<Longrightarrow> leads (add_mset (sf_id d, sf_file d) A) B s s' \<and> vm_file w = Some f \<and> vm_shm w \<and> r = Inr (vm_start w)"
proof -
  have R: "leads A B s s" by (rule leads_refl [OF inv])
  have "(v = None \<longrightarrow> leads A B s s' \<and> (\<exists>err. r = Inl err))
    \<and> (v = Some w \<longrightarrow> leads (add_mset (sf_id d, sf_file d) A) B s s' \<and> vm_file w = Some f \<and> vm_shm w \<and> r = Inr (vm_start w))"
  proof (cases "shmat_checks se killed vs c")
    case None
    show ?thesis
    proof (cases answer)
      case (MmapRefused err)
      then show ?thesis using m None R by (auto simp: shmat_map_def)
    next
      case (MmapCalled be addr)
      show ?thesis
        using shm_mmap_leads [OF inv d, of "he_task e" be] m None MmapCalled
        by (auto simp: shmat_map_def split: prod.splits option.splits)
    qed
  next
    case (Some err)
    then show ?thesis using m R by (auto simp: shmat_map_def)
  qed
  then show "v = None \<Longrightarrow> leads A B s s' \<and> (\<exists>err. r = Inl err)"
    "v = Some w \<Longrightarrow> leads (add_mset (sf_id d, sf_file d) A) B s s' \<and> vm_file w = Some f \<and> vm_shm w \<and> r = Inr (vm_start w)"
    by blast+
qed

lemma shmat_end_leads:
  assumes inv: "shm_inv (add_mset (i, b) A) B s"
  shows "leads A B s (shmat_end i s)"
proof -
  obtain p q where q: "objs (shm_ids s) p = Some q" "perm_id q = i" "shm_file q = Some b" "shm_lock s i = Inr p"
    using held_dest [OF inv_core [OF inv], of i b] by auto
  show ?thesis using hold_less [OF inv q(1-3)] q(4) by (simp add: shmat_end_def perm_core_def)
qed

section \<open>The sums of SHM_INFO\<close>

text \<open>The pages of a segment as the loop counts them.\<close>

definition seg_stat :: "shm_env \<Rightarrow> shm_ns \<Rightarrow> shmid_kernel \<Rightarrow> 64 word \<times> 64 word" where
  "seg_stat e s q = (case shm_add_rss_swap e s q (0, 0) of None \<Rightarrow> (0, 0) | Some x \<Rightarrow> x)"

lemma add_rss_swap:
  assumes "shm_core A B s" "objs (shm_ids s) p = Some q"
  shows "shm_add_rss_swap e s q acc = Some (fst acc + fst (seg_stat e s q), snd acc + snd (seg_stat e s q))"
proof -
  obtain b where b: "shm_file q = Some b" by (rule seg_dest [OF assms])
  obtain f where "shm_bases s b = Some f" by (rule seg_base [OF assms b])
  then show ?thesis using b by (simp add: seg_stat_def shm_add_rss_swap_def)
qed

lemma stat_loop_sum:
  assumes inv: "shm_core A B s"
  shows "\<lbrakk>distinct (map fst t); cnt + int (length t) = in_use (shm_ids s);
     \<forall>k p. k \<ge> next_id \<longrightarrow> (map_of (ipcs_idr (shm_ids s)) k = Some p \<longleftrightarrow> map_of t k = Some p);
     \<forall>k \<in> fst ` set t. next_id \<le> k \<and> k < ipc_mni; ipc_mni - next_id \<le> int fuel\<rbrakk>
   \<Longrightarrow> shm_stat_loop fuel e s cnt next_id acc =
     Some (fst acc + sum_list (map (\<lambda>x. case objs (shm_ids s) (snd x) of Some q \<Rightarrow> fst (seg_stat e s q) | None \<Rightarrow> 0) t),
           snd acc + sum_list (map (\<lambda>x. case objs (shm_ids s) (snd x) of Some q \<Rightarrow> snd (seg_stat e s q) | None \<Rightarrow> 0) t))"
proof (induction fuel arbitrary: t cnt next_id acc)
  case 0
  then have "t = []" by (cases t) fastforce+
  with "0.prems" show ?case by (simp add: shm_stat_loop.simps)
next
  case (Suc fuel)
  note step = shm_stat_loop.simps [of "Suc fuel"]
  show ?case
  proof (cases "t = []")
    case True
    then show ?thesis using Suc.prems by (simp add: step)
  next
    case False
    then have lt: "cnt < in_use (shm_ids s)" using Suc.prems(2) by (cases t) auto
    show ?thesis
    proof (cases "map_of t next_id")
      case None
      then have f: "idr_find (ipcs_idr (shm_ids s)) next_id = None"
        using Suc.prems(3) unfolding idr_find_def by (metis order_refl not_None_eq)
      have "\<forall>k \<in> fst ` set t. next_id + 1 \<le> k \<and> k < ipc_mni"
        using Suc.prems(4) None by (metis map_of_eq_None_iff order_le_imp_less_or_eq zless_imp_add1_zle)
      then show ?thesis
        using Suc.IH [of t cnt "next_id + 1" acc] Suc.prems lt f by (simp add: step)
    next
      case (Some p)
      then have f: "map_of (ipcs_idr (shm_ids s)) next_id = Some p" using Suc.prems(3) by blast
      obtain q where q: "objs (shm_ids s) p = Some q" by (rule ids_wf_entry [OF core_parts(1) [OF inv] f])
      let ?t = "AList.delete next_id t"
      have len: "Suc (length ?t) = length t" by (rule length_delete_key [OF Suc.prems(1) Some])
      have "\<forall>k p. k \<ge> next_id + 1 \<longrightarrow> (map_of (ipcs_idr (shm_ids s)) k = Some p \<longleftrightarrow> map_of ?t k = Some p)"
        using Suc.prems(3) by (simp add: delete_conv')
      moreover have "\<forall>k \<in> fst ` set ?t. next_id + 1 \<le> k \<and> k < ipc_mni"
        using Suc.prems(4) by (force simp: AList.delete_eq)
      moreover have "distinct (map fst ?t)" "cnt + 1 + int (length ?t) = in_use (shm_ids s)" "ipc_mni - (next_id + 1) \<le> int fuel"
        using Suc.prems(1,2,5) len by (simp_all add: distinct_delete)
      moreover have "shm_stat_loop (Suc fuel) e s cnt next_id acc =
          shm_stat_loop fuel e s (cnt + 1) (next_id + 1) (fst acc + fst (seg_stat e s q), snd acc + snd (seg_stat e s q))"
        using lt f q add_rss_swap [OF inv q, of e acc] by (simp add: step idr_find_def)
      ultimately show ?thesis
        using q by (simp add: Suc.IH sum_list_split_key [OF Suc.prems(1) Some] add.assoc)
    qed
  qed
qed

lemma get_stat_sum:
  assumes inv: "shm_inv A B s"
  shows "shm_get_stat (nat ipc_mni) e s =
    Some (table_sum (\<lambda>q. fst (seg_stat e s q)) (shm_ids s), table_sum (\<lambda>q. snd (seg_stat e s q)) (shm_ids s))"
proof -
  note core = inv_core [OF inv] and wf = core_parts(1) [OF inv_core [OF inv]]
  have "\<forall>k \<in> fst ` set (ipcs_idr (shm_ids s)). 0 \<le> k \<and> k < ipc_mni" using wf by (auto simp: ids_wf_def)
  then show ?thesis
    unfolding shm_get_stat_def
    by (subst stat_loop_sum [OF core ids_wf_distinct(1) [OF wf]]) (use wf in \<open>simp_all add: table_sum_def ids_wf_def ipc_mni_def\<close>)
qed

end
