(* ===== verification/ShmDetach.thy ===== *)
theory ShmDetach
  imports ShmNew
begin

text \<open>
  Detaching: what \<^verbatim>\<open>ksys_shmdt\<close> unmaps, and its effect on what is held.
\<close>

unbundle bit_operations_syntax

section \<open>Areas in order\<close>

text \<open>The areas of an address space are in the order of their addresses and do not overlap.\<close>

definition areas_ok :: "vma list \<Rightarrow> bool" where
  "areas_ok vs \<longleftrightarrow> sorted_wrt (\<lambda>v w. vm_end v \<le> vm_start w) vs \<and> (\<forall>v \<in> set vs. vm_start v < vm_end v)"

lemma areas_ends: "areas_ok vs \<Longrightarrow> sorted_wrt (\<lambda>v w. vm_end v < vm_end w) vs"
proof (induction vs)
  case (Cons v vs)
  then have "areas_ok vs" by (simp add: areas_ok_def)
  moreover have "vm_end v < vm_end w" if "w \<in> set vs" for w
    using Cons.prems that by (auto simp: areas_ok_def intro: order.strict_trans1)
  ultimately show ?case using Cons.IH by simp
qed simp

lemma find_vma_split:
  assumes "\<forall>v \<in> set xs. vm_end v \<le> a" "a < vm_end w"
  shows "find_vma (xs @ w # ys) a = Some w"
  using assms by (induction xs) (auto simp: find_vma_def)

lemma find_vma_none: "\<forall>v \<in> set xs. vm_end v \<le> a \<Longrightarrow> find_vma xs a = None"
  by (induction xs) (auto simp: find_vma_def)

lemma find_vma_iff_none: "find_vma xs a = None \<longleftrightarrow> (\<forall>v \<in> set xs. vm_end v \<le> a)"
  by (induction xs) (auto simp: find_vma_def)

text \<open>The search walks the areas behind the address in order.\<close>

lemma shmdt_first_walk:
  assumes "sorted_wrt (\<lambda>v w. vm_end v < vm_end w) (xs @ ys)" "\<forall>v \<in> set xs. vm_end v \<le> a" "\<forall>v \<in> set ys. a < vm_end v"
  shows "shmdt_first (xs @ ys) addr a = List.find (shm_vma_at addr) ys"
  using assms
proof (induction ys arbitrary: xs a)
  case Nil
  then show ?case by (simp add: shmdt_first.simps find_vma_none)
next
  case (Cons w ys)
  have f: "find_vma (xs @ w # ys) a = Some w" using Cons.prems by (intro find_vma_split) auto
  have "shmdt_first ((xs @ [w]) @ ys) addr (vm_end w) = List.find (shm_vma_at addr) ys"
    by (rule Cons.IH) (use Cons.prems in \<open>auto simp: sorted_wrt_append\<close>)
  then show ?case using f by (simp add: shmdt_first.simps [of "xs @ w # ys" addr a])
qed

lemma areas_split:
  assumes "sorted_wrt (\<lambda>v w. vm_end v < vm_end w) vs"
  shows "vs = filter (\<lambda>v. vm_end v \<le> a) vs @ filter (\<lambda>v. a < vm_end v) vs"
  using assms
proof (induction vs)
  case (Cons v vs)
  show ?case
  proof (cases "vm_end v \<le> a")
    case True
    then show ?thesis using Cons by (simp add: not_less)
  next
    case False
    then have all: "\<forall>w \<in> set vs. a < vm_end w" using Cons.prems by (force simp: not_le)
    then have "filter (\<lambda>v. vm_end v \<le> a) vs = []" "filter (\<lambda>v. a < vm_end v) vs = vs"
      by (auto simp: filter_empty_conv filter_id_conv not_le)
    then show ?thesis using False by (simp add: not_le)
  qed
qed simp

section \<open>What a detach removes\<close>

text \<open>The areas of one segment's file in the range, and the closing of a list of areas.\<close>

definition shm_piece :: "64 word \<Rightarrow> ptr option \<Rightarrow> vma \<Rightarrow> bool" where
  "shm_piece addr vfile w \<longleftrightarrow> shm_vma_at addr w \<and> vm_file w = vfile"

definition close_area :: "task_env \<Rightarrow> vma \<Rightarrow> shm_ns \<Rightarrow> shm_ns" where
  "close_area e w s = (case vm_file w of None \<Rightarrow> s | Some f \<Rightarrow> if vm_shm w then fst (shm_close e f s) else s)"

lemma unmap_vma_ok: "unmap_vma e (\<lambda>_. False) w (vs, s) = (remove1 w vs, close_area e w s)"
  by (simp add: unmap_vma_def close_area_def)

lemma shmdt_rest_walk:
  assumes "sorted_wrt (\<lambda>v w. vm_end v < vm_end w) (xs @ ys)" "\<forall>v \<in> set xs. vm_end v \<le> a" "\<forall>v \<in> set ys. a < vm_end v"
  shows "shmdt_rest e (\<lambda>_. False) addr sz vfile a (xs @ ys, s) =
    (let near = takeWhile (\<lambda>w. sint (vm_end w - addr) \<le> sz) ys; far = dropWhile (\<lambda>w. sint (vm_end w - addr) \<le> sz) ys
     in (xs @ filter (Not \<circ> shm_piece addr vfile) near @ far, fold (close_area e) (filter (shm_piece addr vfile) near) s))"
  using assms
proof (induction ys arbitrary: xs a s)
  case Nil
  then show ?case by (simp add: shmdt_rest.simps find_vma_none)
next
  case (Cons w ys)
  have f: "find_vma (xs @ w # ys) a = Some w" using Cons.prems by (intro find_vma_split) auto
  have w: "w \<notin> set xs" using Cons.prems by (auto simp: sorted_wrt_append)
  have "\<forall>v \<in> set xs. vm_end v \<le> vm_end w" using Cons.prems by (auto simp: sorted_wrt_append intro: less_imp_le)
  then have keep: "shmdt_rest e (\<lambda>_. False) addr sz vfile (vm_end w) ((xs @ [w]) @ ys, s) =
    (let near = takeWhile (\<lambda>w. sint (vm_end w - addr) \<le> sz) ys; far = dropWhile (\<lambda>w. sint (vm_end w - addr) \<le> sz) ys
     in ((xs @ [w]) @ filter (Not \<circ> shm_piece addr vfile) near @ far, fold (close_area e) (filter (shm_piece addr vfile) near) s))"
    and drop: "shmdt_rest e (\<lambda>_. False) addr sz vfile (vm_end w) (xs @ ys, close_area e w s) =
    (let near = takeWhile (\<lambda>w. sint (vm_end w - addr) \<le> sz) ys; far = dropWhile (\<lambda>w. sint (vm_end w - addr) \<le> sz) ys
     in (xs @ filter (Not \<circ> shm_piece addr vfile) near @ far, fold (close_area e) (filter (shm_piece addr vfile) near) (close_area e w s)))"
    using Cons.prems by (intro Cons.IH; simp add: sorted_wrt_append)+
  note st = shmdt_rest.simps [of e "\<lambda>_. False" addr sz vfile a "(xs @ w # ys, s)", simplified, unfolded f, simplified, folded shm_piece_def]
  show ?case
  proof (cases "sint (vm_end w - addr) \<le> sz")
    case near: True
    show ?thesis
    proof (cases "shm_piece addr vfile w")
      case True
      then show ?thesis using near w drop unfolding st by (simp add: unmap_vma_ok remove1_append Let_def o_def)
    next
      case False
      then show ?thesis using near keep unfolding st by (simp add: Let_def o_def)
    qed
  next
    case False
    then show ?thesis unfolding st by simp
  qed
qed

lemma takeWhile_filter:
  assumes "sorted_wrt R ys" "\<And>v w. v \<in> set ys \<Longrightarrow> w \<in> set ys \<Longrightarrow> R v w \<Longrightarrow> P w \<Longrightarrow> P v"
  shows "takeWhile P ys = filter P ys" "dropWhile P ys = filter (Not \<circ> P) ys"
proof -
  have "takeWhile P ys = filter P ys \<and> dropWhile P ys = filter (Not \<circ> P) ys"
    using assms
  proof (induction ys)
    case (Cons y ys)
    show ?case
    proof (cases "P y")
      case True
      have "takeWhile P ys = filter P ys \<and> dropWhile P ys = filter (Not \<circ> P) ys"
        by (rule Cons.IH) (use Cons.prems in auto)
      then show ?thesis using True by (simp add: o_def)
    next
      case False
      then have "\<forall>w \<in> set ys. \<not> P w" using Cons.prems by auto
      then have "filter P ys = []" "filter (Not \<circ> P) ys = ys" by (auto simp: filter_empty_conv filter_id_conv)
      then show ?thesis using False by (simp add: o_def)
    qed
  qed simp
  then show "takeWhile P ys = filter P ys" "dropWhile P ys = filter (Not \<circ> P) ys" by blast+
qed

text \<open>
  A detach in one statement: the first area behind the address whose offset fits, and the
  areas behind it that are pieces of the same file and end within its size.
\<close>

definition detached :: "shm_ns \<Rightarrow> 64 word \<Rightarrow> vma \<Rightarrow> vma \<Rightarrow> bool" where
  "detached s addr v w \<longleftrightarrow> w = v \<or> vm_end v < vm_end w \<and> shm_piece addr (vm_file v) w
     \<and> sint (vm_end w - addr) \<le> sint (ALIGN (file_size s (vm_file v)) PAGE_SIZE)"

lemma sint_small:
  assumes "uint (w :: 64 word) < 2 ^ 63"
  shows "sint w = uint w"
proof -
  have "- (2 ^ 63) \<le> uint w" by (rule order_trans [OF _ uint_ge_0]) simp
  then show ?thesis using assms signed_take_bit_int_eq_self [of 63 "uint w"] by (simp add: sint_uint)
qed

text \<open>Addresses of user space are below the sign bit.\<close>

lemma end_distance_mono:
  assumes "addr < x" "x < (y :: 64 word)" "uint y < 2 ^ 63"
  shows "sint (x - addr) < sint (y - addr)"
proof -
  have u: "uint addr < uint x" "uint x < uint y" using assms(1,2) by (simp_all add: word_less_def)
  then have d: "uint (x - addr) = uint x - uint addr" "uint (y - addr) = uint y - uint addr"
    by (simp_all add: uint_sub_lem [THEN iffD1])
  have "uint (x - addr) < 2 ^ 63" "uint (y - addr) < 2 ^ 63" using u assms(3) d uint_ge_0 [of addr] by linarith+
  then have "sint (x - addr) = uint (x - addr)" "sint (y - addr) = uint (y - addr)"
    by (simp_all only: sint_small)
  then show ?thesis using u d by simp
qed

lemma find_first:
  "List.find P xs = Some v \<Longrightarrow> \<exists>ys zs. xs = ys @ v # zs \<and> P v \<and> (\<forall>w \<in> set ys. \<not> P w)"
proof (induction xs)
  case (Cons x xs)
  show ?case
  proof (cases "P x")
    case True
    then show ?thesis using Cons.prems by (intro exI [of _ "[]"] exI [of _ xs]) simp
  next
    case False
    then obtain ys zs where "xs = ys @ v # zs \<and> P v \<and> (\<forall>w \<in> set ys. \<not> P w)" using Cons by auto
    then show ?thesis using False by (intro exI [of _ "x # ys"] exI [of _ zs]) simp
  qed
qed simp

lemma shmdt_split:
  assumes "areas_ok vs" "shmdt_first vs addr addr = Some v"
  obtains xs ys where "vs = xs @ v # ys" "shm_vma_at addr v" "addr < vm_end v" "\<forall>w \<in> set xs. vm_end w < vm_end v"
    "\<forall>w \<in> set ys. vm_end v < vm_end w" "sorted_wrt (\<lambda>v w. vm_end v < vm_end w) (xs @ ys)"
    "\<forall>w \<in> set xs. addr < vm_end w \<longrightarrow> \<not> shm_vma_at addr w"
proof -
  note srt = areas_ends [OF assms(1)]
  define lo hi where "lo = filter (\<lambda>v. vm_end v \<le> addr) vs" and "hi = filter (\<lambda>v. addr < vm_end v) vs"
  have vs: "vs = lo @ hi" unfolding lo_def hi_def by (rule areas_split [OF srt])
  have "sorted_wrt (\<lambda>v w. vm_end v < vm_end w) (lo @ hi)" using srt vs by simp
  then have "shmdt_first (lo @ hi) addr addr = List.find (shm_vma_at addr) hi"
    by (rule shmdt_first_walk) (simp_all add: lo_def hi_def)
  then have "List.find (shm_vma_at addr) hi = Some v" using assms(2) vs by simp
  then obtain xs ys where h: "hi = xs @ v # ys" "shm_vma_at addr v" "\<forall>w \<in> set xs. \<not> shm_vma_at addr w" using find_first by metis
  have "v \<in> set hi" using h(1) by simp
  then have a: "addr < vm_end v" by (simp add: hi_def)
  have "sorted_wrt (\<lambda>v w. vm_end v < vm_end w) ((lo @ xs) @ v # ys)" using srt vs h(1) by simp
  note sw = this [unfolded sorted_wrt_append [of _ "lo @ xs" "v # ys"]]
  have o: "\<forall>w \<in> set (lo @ xs). vm_end w < vm_end v" "\<forall>w \<in> set ys. vm_end v < vm_end w"
    using sw by simp_all
  have o3: "sorted_wrt (\<lambda>v w. vm_end v < vm_end w) ((lo @ xs) @ ys)"
    unfolding sorted_wrt_append [of _ "lo @ xs" ys] using sw by simp
  have n: "\<forall>w \<in> set (lo @ xs). addr < vm_end w \<longrightarrow> \<not> shm_vma_at addr w" using h(3) by (auto simp: lo_def)
  have "vs = (lo @ xs) @ v # ys" using vs h(1) by simp
  from that [OF this h(2) a o o3 n] show ?thesis .
qed

lemma shmdt_walk:
  assumes ok: "areas_ok vs" and user: "\<forall>w \<in> set vs. uint (vm_end w) < 2 ^ 63" and v: "shmdt_first vs addr addr = Some v"
    and addr: "addr AND NOT PAGE_MASK = 0"
  shows "ksys_shmdt e False (\<lambda>_. False) (vm_end v) addr vs s =
    ((filter (Not \<circ> detached s addr v) vs, fold (close_area e) (filter (detached s addr v) vs) s), Inr 0)"
proof -
  let ?sz = "sint (ALIGN (file_size s (vm_file v)) PAGE_SIZE)"
  let ?near = "\<lambda>w. sint (vm_end w - addr) \<le> ?sz"
  obtain xs ys where S: "vs = xs @ v # ys" "shm_vma_at addr v" "addr < vm_end v" "\<forall>w \<in> set xs. vm_end w < vm_end v"
    "\<forall>w \<in> set ys. vm_end v < vm_end w" "sorted_wrt (\<lambda>v w. vm_end v < vm_end w) (xs @ ys)"
    "\<forall>w \<in> set xs. addr < vm_end w \<longrightarrow> \<not> shm_vma_at addr w"
    by (rule shmdt_split [OF ok v])
  have nv: "v \<notin> set xs" "v \<notin> set ys" using S(4,5) by auto
  have srt: "sorted_wrt (\<lambda>v w. vm_end v < vm_end w) ys" using S(6) by (simp add: sorted_wrt_append)
  have mono: "?near w \<Longrightarrow> ?near u" if "u \<in> set ys" "w \<in> set ys" "vm_end u < vm_end w" for u w
  proof -
    have "addr < vm_end u" using S(3,5) that(1) by force
    moreover have "uint (vm_end w) < 2 ^ 63" using user S(1) that(2) by simp
    ultimately have "sint (vm_end u - addr) < sint (vm_end w - addr)" using end_distance_mono that(3) by blast
    then show "?near w \<Longrightarrow> ?near u" by linarith
  qed
  have tw: "takeWhile ?near ys = filter ?near ys" "dropWhile ?near ys = filter (Not \<circ> ?near) ys"
    by (rule takeWhile_filter [OF srt]; rule mono; assumption)+
  have det: "detached s addr v w \<longleftrightarrow> shm_piece addr (vm_file v) w \<and> ?near w" if "w \<in> set ys" for w
    using that S(5) nv(2) unfolding detached_def by auto
  have detx: "\<not> detached s addr v w" if "w \<in> set xs" for w
    using that S(4) nv(1) unfolding detached_def by (auto dest: less_not_sym)
  have fx: "filter (detached s addr v) xs = []" "filter (Not \<circ> detached s addr v) xs = xs"
    using detx by (auto simp: filter_empty_conv filter_id_conv)
  have fy: "filter (shm_piece addr (vm_file v)) (filter ?near ys) = filter (detached s addr v) ys"
    using det by (simp cong: filter_cong add: conj_commute)
  have split: "filter (Not \<circ> detached s addr v) ys =
      filter (Not \<circ> shm_piece addr (vm_file v)) (takeWhile ?near ys) @ dropWhile ?near ys"
  proof -
    have "filter (Not \<circ> detached s addr v) ys = filter (\<lambda>w. \<not> (shm_piece addr (vm_file v) w \<and> ?near w)) ys"
      by (rule filter_cong) (use det in auto)
    also have "\<dots> = filter (\<lambda>w. \<not> (shm_piece addr (vm_file v) w \<and> ?near w)) (takeWhile ?near ys @ dropWhile ?near ys)"
      by simp
    also have "\<dots> = filter (Not \<circ> shm_piece addr (vm_file v)) (takeWhile ?near ys) @ dropWhile ?near ys"
      unfolding filter_append by (intro arg_cong2 [where f = append] filter_cong filter_True)
        (auto dest: set_takeWhileD simp: tw(2))
    finally show ?thesis .
  qed
  have d: "detached s addr v v" by (simp add: detached_def)
  have "shmdt_rest e (\<lambda>_. False) addr ?sz (vm_file v) (vm_end v) (xs @ ys, close_area e v s) =
     (xs @ filter (Not \<circ> shm_piece addr (vm_file v)) (takeWhile ?near ys) @ dropWhile ?near ys,
      fold (close_area e) (filter (shm_piece addr (vm_file v)) (takeWhile ?near ys)) (close_area e v s))"
    using shmdt_rest_walk [OF S(6), of "vm_end v" e addr ?sz "vm_file v"] S(4,5) by (auto simp: Let_def less_imp_le)
  then show ?thesis
    using addr v nv(1) d fx fy split tw(1)
    by (simp add: ksys_shmdt_def unmap_vma_ok S(1) remove1_append)
qed

end
