(* ===== verification/ShmSys.thy ===== *)
theory ShmSys
  imports ShmDetach IpcTable
begin

text \<open>
  Shared memory as a system: the calls of all tasks and the callbacks of all address spaces in
  any order, from a fresh namespace. The state is the namespace, the areas of every address
  space and the attaches in progress. The kernel copies, splits, shrinks and drops areas on its
  own; the file of an attach is released when neither an area nor a call refers to it.
\<close>

unbundle bit_operations_syntax

section \<open>Steps\<close>

datatype at_phase = AtBegun shmat_call | AtFile shmat_call ptr | AtEnd shmat_call

fun at_call :: "at_phase \<Rightarrow> shmat_call" where
  "at_call (AtBegun c) = c"
| "at_call (AtFile c f) = c"
| "at_call (AtEnd c) = c"

type_synonym shm_sys = "shm_ns \<times> (nat \<times> vma) multiset \<times> at_phase multiset"

definition shm_boot :: "shm_ns \<Rightarrow> shm_ns" where
  "shm_boot s = shm_init_ns (s\<lparr>shm_lists := Map.empty, shm_bases := Map.empty, shm_outer := Map.empty, shm_oops := False\<rparr>)"

text \<open>A file is in use while an area maps it or an attach works on it.\<close>

definition file_used :: "(nat \<times> vma) multiset \<Rightarrow> at_phase multiset \<Rightarrow> ptr \<Rightarrow> bool" where
  "file_used M C f \<longleftrightarrow> (\<exists>x \<in># M. vm_shm (snd x) \<and> vm_file (snd x) = Some f) \<or> (\<exists>c. AtFile c f \<in># C)"

text \<open>The number of segments on the list of a task.\<close>

definition clist_count :: "shm_ns \<Rightarrow> nat \<Rightarrow> nat" where
  "clist_count s t = (case shm_lists s t of None \<Rightarrow> 0 | Some l \<Rightarrow> length l)"

inductive shm_step :: "shm_sys \<Rightarrow> shm_sys \<Rightarrow> bool" where
  get: "\<lbrakk>shm_kernel_ok e; ksys_shmget e k sz flg s = (s', r)\<rbrakk> \<Longrightarrow> shm_step (s, M, C) (s', M, C)"
| ctl: "ksys_shmctl fuel e s shmid cmd ok v64 old version = Some (s', out, r) \<Longrightarrow> shm_step (s, M, C) (s', M, C)"
| old_ctl: "ksys_old_shmctl fuel e s shmid cmd ok v64 old = Some (s', out, r) \<Longrightarrow> shm_step (s, M, C) (s', M, C)"
| compat_ctl: "compat_ksys_shmctl fuel e s shmid cmd ok p64 p32 version = Some (s', out, r) \<Longrightarrow> shm_step (s, M, C) (s', M, C)"
| compat_old_ctl: "compat_ksys_old_shmctl fuel e s shmid cmd ok p64 p32 = Some (s', out, r) \<Longrightarrow> shm_step (s, M, C) (s', M, C)"
| at_fail: "shmat_begin e s shmid shmaddr flg lba = (s', Inl err) \<Longrightarrow> shm_step (s, M, C) (s', M, C)"
| at_begin: "shmat_begin e s shmid shmaddr flg lba = (s', Inr c) \<Longrightarrow> shm_step (s, M, C) (s', M, add_mset (AtBegun c) C)"
| at_nofile: "\<lbrakk>file_clone_ok clone; shmat_file sfd_ok clone c s = (s', Inl err)\<rbrakk>
    \<Longrightarrow> shm_step (s, M, add_mset (AtBegun c) C) (s', M, add_mset (AtEnd c) C)"
| at_file: "\<lbrakk>file_clone_ok clone; shmat_file sfd_ok clone c s = (s', Inr f)\<rbrakk>
    \<Longrightarrow> shm_step (s, M, add_mset (AtBegun c) C) (s', M, add_mset (AtFile c f) C)"
| at_nomap: "shmat_map e sec_err killed vs answer c f s = (s', None, r)
    \<Longrightarrow> shm_step (s, M, add_mset (AtFile c f) C) (s', M, add_mset (AtEnd c) C)"
| at_map: "shmat_map e sec_err killed vs answer c f s = (s', Some v, r)
    \<Longrightarrow> shm_step (s, M, add_mset (AtFile c f) C) (s', add_mset (m, v) M, add_mset (AtEnd c) C)"
| at_end: "shm_step (s, M, add_mset (AtEnd c) C) (shmat_end (at_shmid c) s, M, C)"
| dt: "ksys_shmdt t killed stuck reread addr vs s = ((vs', s'), r)
    \<Longrightarrow> shm_step (s, mset (map (Pair m) vs) + M, C) (s', mset (map (Pair m) vs') + M, C)"
| area_open: "\<lbrakk>(m, v) \<in># M; vm_shm v; vm_file v = Some f; vm_shm w; vm_file w = Some f; shm_open t f s = (s', fine)\<rbrakk>
    \<Longrightarrow> shm_step (s, M, C) (s', add_mset (n, w) M, C)"
| area_close: "\<lbrakk>vm_shm v; vm_file v = Some f; shm_close t f s = (s', fine)\<rbrakk> \<Longrightarrow> shm_step (s, add_mset (m, v) M, C) (s', M, C)"
| bounds: "\<lbrakk>vm_shm w = vm_shm v; vm_file w = vm_file v\<rbrakk> \<Longrightarrow> shm_step (s, add_mset (m, v) M, C) (s, add_mset (m, w) M, C)"
| area: "\<not> vm_shm v \<Longrightarrow> shm_step (s, M, C) (s, add_mset (m, v) M, C)"
| no_area: "\<not> vm_shm v \<Longrightarrow> shm_step (s, add_mset (m, v) M, C) (s, M, C)"
| remap: "\<lbrakk>shm_outer s f \<noteq> None; shm_mmap t base_err f s = (s', None); vm_shm v; vm_file v = Some f\<rbrakk>
    \<Longrightarrow> shm_step (s, M, C) (s', add_mset (m, v) M, C)"
| no_remap: "\<lbrakk>shm_outer s f \<noteq> None; shm_mmap t base_err f s = (s', Some err)\<rbrakk> \<Longrightarrow> shm_step (s, M, C) (s', M, C)"
| release: "\<lbrakk>shm_outer s f \<noteq> None; \<not> file_used M C f\<rbrakk> \<Longrightarrow> shm_step (s, M, C) (shm_release f s, M, C)"
| exit: "\<lbrakk>clist_count s tsk < fuel; exit_shm_loop fuel True alive tsk s = Some s'\<rbrakk> \<Longrightarrow> shm_step (s, M, C) (s', M, C)"
| force: "ipc_dointvec_minmax_orphans err value s = (s', r) \<Longrightarrow> shm_step (s, M, C) (s', M, C)"
| limits: "shm_step (s, M, C) (s\<lparr>shm_ctlmax := a, shm_ctlall := b, shm_ctlmni := c\<rparr>, M, C)"

definition shm_reachable :: "shm_sys \<Rightarrow> bool" where
  "shm_reachable x \<longleftrightarrow> (\<exists>s. shm_step\<^sup>*\<^sup>* (shm_boot s, {#}, {#}) x)"

section \<open>The invariant\<close>

text \<open>What the areas and the attaches hold.\<close>

definition vma_hold :: "(ptr \<rightharpoonup> shm_file_data) \<Rightarrow> vma \<Rightarrow> int \<times> ptr" where
  "vma_hold F v = (case Option.bind (vm_file v) F of None \<Rightarrow> (0, 0) | Some d \<Rightarrow> (sf_id d, sf_file d))"

definition attached :: "(ptr \<rightharpoonup> shm_file_data) \<Rightarrow> (nat \<times> vma) multiset \<Rightarrow> at_phase multiset \<Rightarrow> (int \<times> ptr) multiset" where
  "attached F M C = image_mset (\<lambda>x. vma_hold F (snd x)) (filter_mset (\<lambda>x. vm_shm (snd x)) M)
     + image_mset (\<lambda>c. (at_shmid (at_call c), at_base (at_call c))) C"

definition begun :: "at_phase multiset \<Rightarrow> ptr multiset" where
  "begun C = image_mset (\<lambda>c. at_base (at_call c)) (filter_mset (\<lambda>c. \<exists>d. c = AtBegun d) C)"

definition phase_ok :: "shm_ns \<Rightarrow> at_phase \<Rightarrow> bool" where
  "phase_ok s c = (case c of AtBegun d \<Rightarrow> at_ok s d
     | AtFile d f \<Rightarrow> shm_outer s f = Some \<lparr>sf_id = at_shmid d, sf_file = at_base d\<rparr> | AtEnd d \<Rightarrow> True)"

definition area_ok :: "(ptr \<rightharpoonup> shm_file_data) \<Rightarrow> vma \<Rightarrow> bool" where
  "area_ok F v \<longleftrightarrow> (vm_shm v \<longrightarrow> (\<exists>f d. vm_file v = Some f \<and> F f = Some d))"

definition shm_sys_inv :: "shm_ns \<Rightarrow> (nat \<times> vma) multiset \<Rightarrow> at_phase multiset \<Rightarrow> bool" where
  "shm_sys_inv s M C \<longleftrightarrow> shm_inv (attached (shm_outer s) M C) (begun C) s
     \<and> (\<forall>x \<in># M. area_ok (shm_outer s) (snd x)) \<and> (\<forall>c \<in># C. phase_ok s c)"

lemma attached_simps [simp]:
  "attached F (add_mset (m, v) M) C = (if vm_shm v then add_mset (vma_hold F v) (attached F M C) else attached F M C)"
  "attached F M (add_mset c C) = add_mset (at_shmid (at_call c), at_base (at_call c)) (attached F M C)"
  "attached F {#} {#} = {#}"
  by (simp_all add: attached_def)

lemma begun_simps [simp]:
  "begun (add_mset (AtBegun c) C) = add_mset (at_base c) (begun C)" "begun (add_mset (AtFile c f) C) = begun C"
  "begun (add_mset (AtEnd c) C) = begun C" "begun {#} = {#}"
  by (simp_all add: begun_def)

lemma vma_hold_file: "vm_file v = Some f \<Longrightarrow> F f = Some d \<Longrightarrow> vma_hold F v = (sf_id d, sf_file d)"
  by (simp add: vma_hold_def)

lemma phase_keeps:
  assumes "phase_ok s c" "keeps A s s'" "(at_shmid (at_call c), at_base (at_call c)) \<in># A" "shm_outer s' = shm_outer s"
  shows "phase_ok s' c"
  using assms by (cases c) (auto simp: phase_ok_def intro: at_ok_keeps)

lemma phases_keep:
  assumes "\<forall>c \<in># C. phase_ok s c" "keeps (attached F M C) s s'" "shm_outer s' = shm_outer s"
  shows "\<forall>c \<in># C. phase_ok s' c"
proof
  fix c assume c: "c \<in># C"
  then have "(at_shmid (at_call c), at_base (at_call c)) \<in># attached F M C" by (auto simp: attached_def)
  then show "phase_ok s' c" using assms c phase_keeps by blast
qed

text \<open>A step that leads from one set of holds to another.\<close>

lemma sys_leads:
  assumes "leads (attached (shm_outer s) M C) (begun C) s s'" "\<forall>x \<in># M. area_ok (shm_outer s) (snd x)" "\<forall>c \<in># C. phase_ok s c"
  shows "shm_sys_inv s' M C"
  using assms phases_keep [of C s "shm_outer s" M s'] unfolding shm_sys_inv_def leads_def by simp

lemma shm_sys_parts:
  assumes "shm_sys_inv s M C"
  shows "shm_inv (attached (shm_outer s) M C) (begun C) s" "\<forall>x \<in># M. area_ok (shm_outer s) (snd x)" "\<forall>c \<in># C. phase_ok s c"
  using assms by (simp_all add: shm_sys_inv_def)

lemma sys_same:
  assumes "shm_sys_inv s M C" "leads (attached (shm_outer s) M C) (begun C) s s'"
  shows "shm_sys_inv s' M C"
  using sys_leads [OF assms(2)] shm_sys_parts [OF assms(1)] by blast

lemma sys_close:
  assumes inv: "shm_sys_inv s (add_mset (m, v) M) C" and v: "vm_shm v" "vm_file v = Some f"
  shows "shm_sys_inv (fst (shm_close e f s)) M C"
proof -
  note P = shm_sys_parts [OF inv]
  obtain d where d: "shm_outer s f = Some d" using P(2) v by (auto simp: area_ok_def)
  have "shm_inv (add_mset (sf_id d, sf_file d) (attached (shm_outer s) M C)) (begun C) s"
    using P(1) v(1) by (simp add: vma_hold_file [where F = "shm_outer s", OF v(2) d])
  from shm_close_data_leads(1) [OF this, of e] have "leads (attached (shm_outer s) M C) (begun C) s (fst (shm_close e f s))"
    by (simp add: shm_close_def d)
  then show ?thesis by (rule sys_leads) (use P(2,3) in simp_all)
qed

lemma sys_area:
  assumes inv: "shm_sys_inv s M C" and d: "shm_outer s f = Some d" and v: "vm_file v = Some f" "vm_shm v"
    and l: "leads (add_mset (sf_id d, sf_file d) (attached (shm_outer s) M C)) (begun C) s s'"
  shows "shm_sys_inv s' (add_mset (m, v) M) C"
proof -
  note P = shm_sys_parts [OF inv]
  have "leads (attached (shm_outer s) (add_mset (m, v) M) C) (begun C) s s'"
    using l v(2) by (simp add: vma_hold_file [where F = "shm_outer s", OF v(1) d])
  then show ?thesis by (rule sys_leads) (use P(2,3) d v in \<open>auto simp: area_ok_def\<close>)
qed

text \<open>Detaching, one area at a time.\<close>

lemma sys_unmap:
  assumes inv: "shm_sys_inv s (mset (map (Pair m) vs) + M) C" and v: "v \<in> set vs" and u: "unmap_vma e stuck v (vs, s) = (vs', s')"
  shows "shm_sys_inv s' (mset (map (Pair m) vs') + M) C"
proof (cases "stuck v")
  case True
  then show ?thesis using inv u by (simp add: unmap_vma_def)
next
  case False
  then have vs': "vs' = remove1 v vs" and s': "s' = close_area e v s" using u by (auto simp: unmap_vma_def close_area_def)
  have e: "mset vs = add_mset v (mset (remove1 v vs))" using v by simp
  have "image_mset (Pair m) (mset vs) = add_mset (m, v) (image_mset (Pair m) (mset (remove1 v vs)))"
    by (subst e) (rule image_mset_add_mset)
  then have M: "mset (map (Pair m) vs) + M = add_mset (m, v) (mset (map (Pair m) vs') + M)"
    unfolding vs' by (simp only: mset_map union_mset_add_mset_left)
  note inv' = inv [unfolded M]
  show ?thesis
  proof (cases "vm_shm v")
    case True
    then obtain f where f: "vm_file v = Some f" using shm_sys_parts(2) [OF inv'] by (auto simp: area_ok_def)
    then show ?thesis using sys_close [OF inv' True f, of e] True by (simp add: s' close_area_def)
  next
    case no: False
    then show ?thesis using inv' by (simp add: s' close_area_def shm_sys_inv_def split: option.splits)
  qed
qed

lemma sys_rest:
  assumes "shm_sys_inv (snd x) (mset (map (Pair m) (fst x)) + M) C" "shmdt_rest e stuck addr sz vfile a x = (vs', s')"
  shows "shm_sys_inv s' (mset (map (Pair m) vs') + M) C"
  using assms
proof (induction e stuck addr sz vfile a x rule: shmdt_rest.induct)
  case (1 e stuck addr sz vfile a x)
  show ?case
  proof (cases "find_vma (fst x) a")
    case None
    then show ?thesis using 1(2,3) by (simp add: shmdt_rest.simps [of e stuck addr sz vfile a x])
  next
    case (Some v)
    show ?thesis
    proof (cases "sint (vm_end v - addr) \<le> sz")
      case True
      define y where "y = (if shm_vma_at addr v \<and> vm_file v = vfile then unmap_vma e stuck v x else x)"
      have "shm_sys_inv (snd y) (mset (map (Pair m) (fst y)) + M) C"
        using sys_unmap [of "snd x" m "fst x" M C v e stuck "fst (unmap_vma e stuck v x)" "snd (unmap_vma e stuck v x)"] 1(2) find_vma_Some [OF Some]
        by (simp add: y_def)
      moreover have "shmdt_rest e stuck addr sz vfile (vm_end v) y = (vs', s')"
        using 1(3) Some True by (simp add: shmdt_rest.simps [of e stuck addr sz vfile a x] y_def)
      ultimately show ?thesis using 1(1) [OF Some True] by (simp add: y_def)
    next
      case False
      then show ?thesis using 1(2,3) Some by (simp add: shmdt_rest.simps [of e stuck addr sz vfile a x])
    qed
  qed
qed

lemma shmdt_first_mem: "shmdt_first vs addr a = Some v \<Longrightarrow> v \<in> set vs"
proof (induction vs addr a rule: shmdt_first.induct)
  case (1 vs addr a)
  then show ?case
    by (cases "find_vma vs a") (auto simp: shmdt_first.simps [of vs addr a] dest: find_vma_Some split: if_splits)
qed

lemma sys_shmdt:
  assumes inv: "shm_sys_inv s (mset (map (Pair m) vs) + M) C" and c: "ksys_shmdt e killed stuck reread addr vs s = ((vs', s'), r)"
  shows "shm_sys_inv s' (mset (map (Pair m) vs') + M) C"
proof (cases "shmdt_first vs addr addr")
  case None
  then show ?thesis using inv c by (auto simp: ksys_shmdt_def split: if_splits)
next
  case (Some v)
  obtain us t where u: "unmap_vma e stuck v (vs, s) = (us, t)" by fastforce
  have i: "shm_sys_inv t (mset (map (Pair m) us) + M) C" by (rule sys_unmap [OF inv shmdt_first_mem [OF Some] u])
  show ?thesis
    using c Some u sys_rest [of "(us, t)" m M C] i inv by (auto simp: ksys_shmdt_def Let_def split: if_splits)
qed

section \<open>Reachable states\<close>

lemma shm_boot_inv: "shm_sys_inv (shm_boot s) {#} {#}"
proof -
  have f: "shm_ids (shm_boot s) = ipc_init_ids" "shm_bases (shm_boot s) = Map.empty" "shm_outer (shm_boot s) = Map.empty"
    "shm_lists (shm_boot s) = Map.empty" "\<not> shm_oops (shm_boot s)" "shm_tot (shm_boot s) = 0"
    by (simp_all add: shm_boot_def shm_init_ns_def)
  have o: "objs (ipc_init_ids :: shmid_kernel ipc_ids) = Map.empty" "ipcs_idr (ipc_init_ids :: shmid_kernel ipc_ids) = []"
    by (simp_all add: ipc_init_ids_def)
  show ?thesis
    by (simp add: shm_sys_inv_def shm_inv_def shm_core_def segs_ok_def held_ok_def files_ok_def bases_ok_def outer_ok_def lists_ok_def
      dest_ok_def base_count_def seg_file_def outer_on_def table_sum_def f o ids_wf_init)
qed

lemma sys_files:
  assumes "shm_sys_inv s M (add_mset (AtFile c f) C)"
  shows "shm_outer s f = Some \<lparr>sf_id = at_shmid c, sf_file = at_base c\<rparr>"
  using shm_sys_parts(3) [OF assms] by (simp add: phase_ok_def)

lemma attached_cong:
  assumes "\<forall>x \<in># M. area_ok F (snd x)" "\<And>f d. F f = Some d \<Longrightarrow> F' f = Some d"
  shows "attached F' M C = attached F M C"
proof -
  have "vma_hold F' (snd x) = vma_hold F (snd x)" if "x \<in># filter_mset (\<lambda>x. vm_shm (snd x)) M" for x
    using assms that by (auto simp: area_ok_def vma_hold_def)
  then have "image_mset (\<lambda>x. vma_hold F' (snd x)) (filter_mset (\<lambda>x. vm_shm (snd x)) M)
      = image_mset (\<lambda>x. vma_hold F (snd x)) (filter_mset (\<lambda>x. vm_shm (snd x)) M)" by (rule image_mset_cong)
  then show ?thesis by (simp only: attached_def)
qed

lemma sys_file_opened:
  assumes inv: "shm_sys_inv s M (add_mset (AtBegun c) C)" and ok: "file_clone_ok clone"
    and a: "shmat_file sfd_ok clone c s = (s', Inr f)"
  shows "shm_sys_inv s' M (add_mset (AtFile c f) C)" "shm_outer s f = None"
proof -
  note P = shm_sys_parts [OF inv]
  have i: "shm_inv (attached (shm_outer s) M (add_mset (AtBegun c) C)) (add_mset (at_base c) (begun C)) s" and at: "at_ok s c"
    using P(1,3) by (simp_all add: phase_ok_def)
  have R: "shm_inv (attached (shm_outer s) M (add_mset (AtBegun c) C)) (begun C) s'" "shm_ids s' = shm_ids s" "shm_outer s f = None"
    "shm_outer s' = (shm_outer s)(f \<mapsto> \<lparr>sf_id = at_shmid c, sf_file = at_base c\<rparr>)"
    using shmat_file_leads(2) [OF i at ok a] by blast+
  have mono: "shm_outer s g = Some d \<Longrightarrow> shm_outer s' g = Some d" for g d using R(3,4) by (cases "g = f") simp_all
  have "attached (shm_outer s') M (add_mset (AtFile c f) C) = attached (shm_outer s) M (add_mset (AtBegun c) C)"
    using attached_cong [where C = C, OF P(2) mono] by simp
  moreover have "\<forall>x \<in># M. area_ok (shm_outer s') (snd x)" using P(2) mono unfolding area_ok_def by blast
  moreover have "phase_ok s' d" if "d \<in># C" for d
  proof -
    have "phase_ok s d" using P(3) that by simp
    then show ?thesis using R(2) mono by (cases d) (auto simp: phase_ok_def at_ok_def)
  qed
  ultimately show "shm_sys_inv s' M (add_mset (AtFile c f) C)" using R(1,4) by (simp add: shm_sys_inv_def phase_ok_def)
  show "shm_outer s f = None" by (rule R(3))
qed

lemma sys_released:
  assumes inv: "shm_sys_inv s M C" and d: "shm_outer s f = Some d" and u: "\<not> file_used M C f"
  shows "shm_sys_inv (shm_release f s) M C"
proof -
  note P = shm_sys_parts [OF inv]
  let ?s = "shm_release f s"
  note R = core_release [OF inv_core [OF P(1)] d]
  have na: "vm_shm (snd x) \<Longrightarrow> vm_file (snd x) \<noteq> Some f" if "x \<in># M" for x
    using u that unfolding file_used_def by blast
  have "vma_hold (shm_outer ?s) (snd x) = vma_hold (shm_outer s) (snd x)" if "x \<in># filter_mset (\<lambda>x. vm_shm (snd x)) M" for x
  proof -
    have "vm_file (snd x) \<noteq> Some f" using na that by simp
    then show ?thesis by (cases "vm_file (snd x)") (auto simp: vma_hold_def R(4))
  qed
  then have "attached (shm_outer ?s) M C = attached (shm_outer s) M C"
    unfolding attached_def by (metis (mono_tags, lifting) image_mset_cong)
  moreover have "dest_ok {} ?s" using P(1) by (simp add: shm_inv_def dest_ok_ids [OF R(3)])
  moreover have "area_ok (shm_outer ?s) (snd x)" if "x \<in># M" for x
    using P(2) [rule_format, OF that] na [OF that] by (auto simp: area_ok_def R(4))
  moreover have "phase_ok ?s c" if "c \<in># C" for c
  proof -
    have "phase_ok s c" using P(3) that by simp
    then show ?thesis using R(3,4) u that by (cases c) (auto simp: phase_ok_def at_ok_def file_used_def)
  qed
  ultimately show ?thesis using R(1) unfolding shm_sys_inv_def shm_inv_def by simp
qed

lemma same_leads:
  assumes "shm_inv A B s" "shm_ids s' = shm_ids s" "shm_lists s' = shm_lists s" "shm_bases s' = shm_bases s"
    "shm_outer s' = shm_outer s" "shm_oops s' = shm_oops s" "shm_tot s' = shm_tot s"
  shows "leads A B s s'"
proof -
  have "shm_inv A B s'"
    using assms(1) unfolding shm_inv_def shm_core_def dest_ok_def segs_ok_def held_ok_def files_ok_def outer_ok_def bases_ok_def
      base_count_def seg_file_def outer_on_def lists_ok_def assms(2-7) .
  then show ?thesis using assms(2,5) by (simp add: leads_def keeps_def)
qed

lemma orphans_leads:
  assumes inv: "shm_inv A B s" and c: "ipc_dointvec_minmax_orphans err value s = (s', r)"
  shows "leads A B s s'"
proof -
  have f: "leads A B s (s\<lparr>shm_rmid_forced := v\<rparr>)" for v by (rule same_leads [OF inv]) simp_all
  define t where "t = (case value of None \<Rightarrow> s | Some v \<Rightarrow> s\<lparr>shm_rmid_forced := v\<rparr>)"
  have t: "leads A B s t" using f leads_refl [OF inv] by (simp add: t_def split: option.splits)
  then have "leads A B t (shm_destroy_orphaned t)" by (intro destroy_orphaned_leads) (simp add: leads_def)
  then show ?thesis
    using c t leads_trans [OF t] by (auto simp: ipc_dointvec_minmax_orphans_def Let_def t_def [symmetric] split: option.splits if_splits)
qed

lemma exit_any:
  assumes inv: "shm_inv A B s" and n: "clist_count s t < fuel" and x: "exit_shm_loop fuel True alive t s = Some s'"
  shows "leads A B s s'"
proof (cases "shm_lists s t")
  case None
  obtain n where n: "fuel = Suc n" using x by (cases fuel) auto
  define s0 where "s0 = s\<lparr>shm_lists := (shm_lists s)(t \<mapsto> [])\<rparr>"
  have "s' = s0" using x None unfolding n by (simp add: exit_shm_loop.simps(2) task_shm_clist_def s0_def)
  moreover have "lists_ok s0" using core_parts(8) [OF inv_core [OF inv]] by (simp add: lists_ok_def s0_def)
  then have "leads A B s s0" unfolding s0_def by (rule inv_lists [OF inv])
  ultimately show ?thesis by simp
next
  case (Some l)
  then have "length l < fuel" using n by (simp add: clist_count_def)
  then show ?thesis using exit_shm_all [OF inv Some, of fuel True alive] x by auto
qed

lemma shm_step_inv:
  assumes "shm_step x y" "shm_sys_inv (fst x) (fst (snd x)) (snd (snd x))"
  shows "shm_sys_inv (fst y) (fst (snd y)) (snd (snd y))"
  using assms
proof (induction rule: shm_step.induct)
  case (get e k sz flg s s' r M C)
  then show ?case using sys_same shmget_leads [OF shm_sys_parts(1)] by (metis fst_conv snd_conv)
next
  case (ctl fuel e s shmid cmd ok v64 old version s' out r M C)
  then show ?case using sys_same ksys_shmctl_leads(1) [OF shm_sys_parts(1)] by (metis fst_conv snd_conv)
next
  case (old_ctl fuel e s shmid cmd ok v64 old s' out r M C)
  then show ?case using sys_same ksys_shmctl_leads(3) [OF shm_sys_parts(1)] by (metis fst_conv snd_conv)
next
  case (compat_ctl fuel e s shmid cmd ok p64 p32 version s' out r M C)
  then show ?case using sys_same ksys_shmctl_leads(2) [OF shm_sys_parts(1)] by (metis fst_conv snd_conv)
next
  case (compat_old_ctl fuel e s shmid cmd ok p64 p32 s' out r M C)
  then show ?case using sys_same ksys_shmctl_leads(4) [OF shm_sys_parts(1)] by (metis fst_conv snd_conv)
next
  case (at_fail e s shmid shmaddr flg lba s' err M C)
  then have inv: "shm_sys_inv s M C" by simp
  show ?case using shmat_begin_leads(1) [OF shm_sys_parts(1) [OF inv] at_fail(1)] inv by simp
next
  case (at_begin e s shmid shmaddr flg lba s' c M C)
  then have inv: "shm_sys_inv s M C" by simp
  note P = shm_sys_parts [OF inv]
  have L: "leads (add_mset (at_shmid c, at_base c) (attached (shm_outer s) M C)) (add_mset (at_base c) (begun C)) s s'" "at_ok s' c"
    using shmat_begin_leads(2) [OF P(1) at_begin(1)] by blast+
  have "\<forall>d \<in># C. phase_ok s' d"
  proof (rule phases_keep [OF P(3)])
    show "keeps (attached (shm_outer s) M C) s s'" using L(1) unfolding leads_def keeps_def by auto
    show "shm_outer s' = shm_outer s" using L(1) by (simp add: leads_def)
  qed
  then show ?case using L P(2) by (simp add: shm_sys_inv_def leads_def phase_ok_def)
next
  case (at_nofile clone sfd_ok c s s' err M C)
  then have inv: "shm_sys_inv s M (add_mset (AtBegun c) C)" by simp
  note P = shm_sys_parts [OF inv]
  have i: "shm_inv (attached (shm_outer s) M (add_mset (AtBegun c) C)) (add_mset (at_base c) (begun C)) s" and at: "at_ok s c"
    using P(1,3) by (simp_all add: phase_ok_def)
  have "leads (attached (shm_outer s) M (add_mset (AtEnd c) C)) (begun (add_mset (AtEnd c) C)) s s'"
    using shmat_file_leads(1) [OF i at at_nofile(1,2)] by simp
  moreover have "\<forall>d \<in># add_mset (AtEnd c) C. phase_ok s d" using P(3) by (simp add: phase_ok_def)
  ultimately show ?case using sys_leads P(2) by simp
next
  case (at_file clone sfd_ok c s s' f M C)
  then show ?case using sys_file_opened(1) by simp
next
  case (at_nomap e sec_err killed vs answer c f s s' r M C)
  then have inv: "shm_sys_inv s M (add_mset (AtFile c f) C)" by simp
  note P = shm_sys_parts [OF inv]
  have "leads (attached (shm_outer s) M (add_mset (AtEnd c) C)) (begun (add_mset (AtEnd c) C)) s s'"
    using shmat_map_leads(1) [OF P(1) sys_files [OF inv] at_nomap(1)] by simp
  moreover have "\<forall>d \<in># add_mset (AtEnd c) C. phase_ok s d" using P(3) by (simp add: phase_ok_def)
  ultimately show ?case using sys_leads P(2) by simp
next
  case (at_map e sec_err killed vs answer c f s s' v r M C m)
  then have inv: "shm_sys_inv s M (add_mset (AtFile c f) C)" by simp
  note P = shm_sys_parts [OF inv] and d = sys_files [OF inv]
  have L: "leads (add_mset (at_shmid c, at_base c) (attached (shm_outer s) M (add_mset (AtFile c f) C))) (begun C) s s'" "vm_file v = Some f" "vm_shm v"
    using shmat_map_leads(2) [OF P(1) d at_map(1) refl] by simp_all
  have "leads (attached (shm_outer s) (add_mset (m, v) M) (add_mset (AtEnd c) C)) (begun (add_mset (AtEnd c) C)) s s'"
    using L by (simp add: vma_hold_file [where F = "shm_outer s", OF L(2) d])
  moreover have "\<forall>d \<in># add_mset (AtEnd c) C. phase_ok s d" using P(3) by (simp add: phase_ok_def)
  moreover have "\<forall>x \<in># add_mset (m, v) M. area_ok (shm_outer s) (snd x)" using P(2) L(2) d by (simp add: area_ok_def)
  ultimately show ?case using sys_leads by simp
next
  case (at_end s M c C)
  then have inv: "shm_sys_inv s M (add_mset (AtEnd c) C)" by simp
  note P = shm_sys_parts [OF inv]
  have "shm_inv (add_mset (at_shmid c, at_base c) (attached (shm_outer s) M C)) (begun C) s" using P(1) by simp
  from shmat_end_leads [OF this] show ?case using sys_leads P(2,3) by simp
next
  case (dt t killed stuck reread addr vs s vs' s' r m M C)
  then show ?case using sys_shmdt by simp
next
  case (area_open m v M f w t s s' fine C n)
  then have inv: "shm_sys_inv s M C" by simp
  note P = shm_sys_parts [OF inv]
  obtain d where d: "shm_outer s f = Some d" using P(2) area_open(1-3) by (force simp: area_ok_def)
  have "(sf_id d, sf_file d) \<in># attached (shm_outer s) M C"
    using area_open(1,2) vma_hold_file [where F = "shm_outer s", OF area_open(3) d] by (force simp: attached_def)
  then have "snd (shm_open_data t d s) = None" by (rule shm_open_data_held [OF P(1)])
  from shm_open_data_leads(1) [OF P(1) d this]
  have "leads (add_mset (sf_id d, sf_file d) (attached (shm_outer s) M C)) (begun C) s s'"
    using area_open(6) d by (simp add: shm_open_def split: prod.splits)
  from sys_area [OF inv d area_open(5,4) this] show ?case by simp
next
  case (area_close v f t s s' fine m M C)
  then show ?case using sys_close [of s m v M C f t] by simp
next
  case (bounds w v s m M C)
  then have "vma_hold (shm_outer s) w = vma_hold (shm_outer s) v" "area_ok (shm_outer s) w = area_ok (shm_outer s) v"
    by (simp_all add: vma_hold_def area_ok_def)
  moreover have "attached (shm_outer s) (add_mset (m, w) M) C = attached (shm_outer s) (add_mset (m, v) M) C"
    using bounds(1) calculation(1) by simp
  ultimately show ?case using bounds(3) unfolding shm_sys_inv_def by simp
next
  case (area v s M C m)
  then show ?case by (simp add: shm_sys_inv_def area_ok_def)
next
  case (no_area v s m M C)
  then show ?case by (simp add: shm_sys_inv_def)
next
  case (remap s f t base_err s' v M C m)
  then have inv: "shm_sys_inv s M C" by simp
  obtain d where d: "shm_outer s f = Some d" using remap(1) by blast
  have "leads (add_mset (sf_id d, sf_file d) (attached (shm_outer s) M C)) (begun C) s s'"
    using shm_mmap_leads(1) [OF shm_sys_parts(1) [OF inv] d, of t base_err] remap(2) by simp
  from sys_area [OF inv d remap(4,3) this] show ?case by simp
next
  case (no_remap s f t base_err s' err M C)
  then have inv: "shm_sys_inv s M C" by simp
  obtain d where d: "shm_outer s f = Some d" using no_remap(1) by blast
  show ?case using sys_same [OF inv] shm_mmap_leads(2) [OF shm_sys_parts(1) [OF inv] d, of t base_err] no_remap(2) by simp
next
  case (release s f M C)
  then show ?case using sys_released by fastforce
next
  case (exit s tsk fuel alive s' M C)
  then have inv: "shm_sys_inv s M C" by simp
  show ?case using sys_same [OF inv] exit_any [OF shm_sys_parts(1) [OF inv] exit(1,2)] by simp
next
  case (force err val s s' r M C)
  then have inv: "shm_sys_inv s M C" by simp
  show ?case using sys_same [OF inv] orphans_leads [OF shm_sys_parts(1) [OF inv] force(1)] by simp
next
  case (limits s M C c b a)
  then have inv: "shm_sys_inv s M C" by simp
  show ?case using sys_same [OF inv same_leads [OF shm_sys_parts(1) [OF inv]]] by simp
qed

lemma shm_reachable_inv:
  assumes "shm_reachable (s, M, C)"
  shows "shm_sys_inv s M C"
proof -
  have "shm_step\<^sup>*\<^sup>* x y \<Longrightarrow> shm_sys_inv (fst x) (fst (snd x)) (snd (snd x)) \<Longrightarrow> shm_sys_inv (fst y) (fst (snd y)) (snd (snd y))" for x y
    by (induction rule: rtranclp_induct) (auto intro: shm_step_inv)
  then show ?thesis using assms shm_boot_inv unfolding shm_reachable_def by fastforce
qed

lemma shm_reachable_step: "shm_reachable x \<Longrightarrow> shm_step x y \<Longrightarrow> shm_reachable y"
  unfolding shm_reachable_def by (meson rtranclp.rtrancl_into_rtrancl)

lemma shm_boot_reachable: "shm_reachable (shm_boot s, {#}, {#})"
  unfolding shm_reachable_def by blast

end
