(* ===== verification/ShmProps.thy ===== *)
theory ShmProps
  imports ShmSys
begin

text \<open>
  An attach as a run of steps, and a sample system with one segment attached once.
\<close>

unbundle bit_operations_syntax

section \<open>Attaching as a run of steps\<close>

lemma shmat_begin_found:
  assumes "shmat_begin e s shmid shmaddr flg lba = (s', Inr c)"
  shows "\<exists>q. shm_obtain_object_check s shmid = Inr (at_shp c) \<and> objs (shm_ids s) (at_shp c) = Some q \<and> shm_file q = Some (at_base c)
    \<and> shm_outer s' = shm_outer s"
  using assms unfolding shmat_begin_def by (auto simp: Let_def get_file_def split: if_splits option.splits sum.splits prod.splits)

text \<open>
  What an attach leaves behind: an error and no file, or one new file on the backing file of
  the segment the id resolves to, mapped by the new area.
\<close>

definition shmat_outcome :: "shm_ns \<Rightarrow> int \<Rightarrow> shm_ns \<Rightarrow> vma option \<Rightarrow> (64 word) result \<Rightarrow> bool" where
  "shmat_outcome s shmid s' v res = (case v of
     None \<Rightarrow> shm_outer s' = shm_outer s \<and> (\<exists>err. res = Inl err)
   | Some w \<Rightarrow> \<exists>f p q b. shm_obtain_object_check s shmid = Inr p \<and> objs (shm_ids s) p = Some q \<and> shm_file q = Some b
       \<and> shm_outer s f = None \<and> shm_outer s' = (shm_outer s)(f \<mapsto> \<lparr>sf_id = shmid, sf_file = b\<rparr>)
       \<and> vm_file w = Some f \<and> vm_shm w \<and> res = Inr (vm_start w))"

lemma shmat_end_outer:
  assumes "shm_sys_inv s M (add_mset (AtEnd a) C)"
  shows "shm_outer (shmat_end (at_shmid a) s) = shm_outer s"
proof -
  have "shm_inv (add_mset (at_shmid a, at_base a) (attached (shm_outer s) M C)) (begun C) s" using shm_sys_parts(1) [OF assms] by simp
  from shmat_end_leads [OF this] show ?thesis by (simp add: leads_def)
qed

lemma do_shmat_reach:
  assumes r: "shm_reachable (s, M, C)" and ok: "file_clone_ok clone"
    and c: "do_shmat e sfd_ok clone sec_err killed vs answer s shmid shmaddr flg lba = (s', v, res)"
  shows "shm_reachable (s', case v of None \<Rightarrow> M | Some w \<Rightarrow> add_mset (m, w) M, C) \<and> shmat_outcome s shmid s' v res"
proof -
  note inv = shm_reachable_inv
  obtain s1 x where b: "shmat_begin e s shmid shmaddr flg lba = (s1, x)" by fastforce
  show ?thesis
  proof (cases x)
    case (Inl err)
    then have "s1 = s" using b shmat_begin_leads(1) [OF shm_sys_parts(1) [OF inv [OF r]]] by blast
    then show ?thesis using c b r Inl by (auto simp: do_shmat_def shmat_outcome_def)
  next
    case (Inr a)
    have r1: "shm_reachable (s1, M, add_mset (AtBegun a) C)"
      using shm_reachable_step [OF r shm_step.at_begin] b Inr by simp
    have i: "at_shmid a = shmid"
      using shmat_begin_leads(2) [OF shm_sys_parts(1) [OF inv [OF r]]] b Inr by blast
    obtain q where q: "shm_obtain_object_check s shmid = Inr (at_shp a)" "objs (shm_ids s) (at_shp a) = Some q"
      "shm_file q = Some (at_base a)" "shm_outer s1 = shm_outer s"
      using shmat_begin_found b Inr by blast
    obtain s2 y where f: "shmat_file sfd_ok clone a s1 = (s2, y)" by fastforce
    have B: "shm_inv (attached (shm_outer s1) M (add_mset (AtBegun a) C)) (add_mset (at_base a) (begun C)) s1" "at_ok s1 a"
      using shm_sys_parts(1,3) [OF inv [OF r1]] by (simp_all add: phase_ok_def)
    show ?thesis
    proof (cases y)
      case (Inl err)
      have r2: "shm_reachable (s2, M, add_mset (AtEnd a) C)"
        using shm_reachable_step [OF r1 shm_step.at_nofile [OF ok]] f Inl by simp
      from shm_reachable_step [OF this shm_step.at_end] have r3: "shm_reachable (shmat_end shmid s2, M, C)" by (simp add: i)
      have "shm_outer s2 = shm_outer s1" using shmat_file_leads(1) [OF B ok] f Inl unfolding leads_def by blast
      then have "shm_outer (shmat_end shmid s2) = shm_outer s" using shmat_end_outer [OF inv [OF r2]] i q(4) by simp
      then show ?thesis using c b f Inr Inl r3 by (auto simp: do_shmat_def shmat_outcome_def)
    next
      case ff: (Inr g)
      have r2: "shm_reachable (s2, M, add_mset (AtFile a g) C)"
        using shm_reachable_step [OF r1 shm_step.at_file [OF ok]] f ff by simp
      have F: "shm_outer s1 g = None" "shm_outer s2 = (shm_outer s1)(g \<mapsto> \<lparr>sf_id = at_shmid a, sf_file = at_base a\<rparr>)"
        using shmat_file_leads(2) [OF B ok] f ff by blast+
      obtain s3 w res' where mp: "shmat_map e sec_err killed vs answer a g s2 = (s3, w, res')" by (cases "shmat_map e sec_err killed vs answer a g s2") auto
      note L = shmat_map_leads [OF shm_sys_parts(1) [OF inv [OF r2]] sys_files [OF inv [OF r2]] mp]
      show ?thesis
      proof (cases w)
        case None
        have r3: "shm_reachable (s3, M, add_mset (AtEnd a) C)"
          using shm_reachable_step [OF r2 shm_step.at_nomap] mp None by simp
        from shm_reachable_step [OF this shm_step.at_end] have r4: "shm_reachable (shmat_end shmid s3, M, C)" by (simp add: i)
        have o: "shm_outer (shmat_end shmid s3) = shm_outer s2" "\<exists>err. res' = Inl err"
          using shmat_end_outer [OF inv [OF r3]] L(1) [OF None] i by (simp_all add: leads_def)
        note P1 = shm_sys_parts [OF inv [OF r1]]
        have "\<not> file_used M C g"
          using P1(2,3) F(1) unfolding file_used_def by (fastforce simp: area_ok_def phase_ok_def)
        moreover have "shm_outer (shmat_end shmid s3) g \<noteq> None" using o F(2) by simp
        ultimately have "shm_reachable (shm_release g (shmat_end shmid s3), M, C)"
          using shm_reachable_step [OF r4 shm_step.release] by simp
        moreover have "shm_outer (shm_release g (shmat_end shmid s3)) = shm_outer s"
          using o(1) F q(4) by (simp add: shm_release_def fun_upd_idem)
        ultimately show ?thesis using c b f mp Inr ff None o(2) by (auto simp: do_shmat_def shmat_outcome_def)
      next
        case (Some area)
        have r3: "shm_reachable (s3, add_mset (m, area) M, add_mset (AtEnd a) C)"
          using shm_reachable_step [OF r2 shm_step.at_map] mp Some by simp
        from shm_reachable_step [OF this shm_step.at_end] have r4: "shm_reachable (shmat_end shmid s3, add_mset (m, area) M, C)" by (simp add: i)
        have "shm_outer (shmat_end shmid s3) = (shm_outer s)(g \<mapsto> \<lparr>sf_id = shmid, sf_file = at_base a\<rparr>)"
          using shmat_end_outer [OF inv [OF r3]] L(2) [OF Some] F(2) q(4) i by (simp add: leads_def)
        moreover have "s' = shmat_end shmid s3" "v = Some area" "res = res'" using c b f mp Inr ff Some by (auto simp: do_shmat_def)
        ultimately show ?thesis using r4 q F(1) L(2) [OF Some] by (auto simp: shmat_outcome_def)
      qed
    qed
  qed
qed

section \<open>A sample system\<close>

definition seg_lsm :: shm_lsm where
  "seg_lsm = \<lparr>hl_alloc = None, hl_ipc = (\<lambda>_ _. None), hl_associate = (\<lambda>_ _. None), hl_shmctl = (\<lambda>_ _. None), hl_shmat = (\<lambda>_ _ _. None)\<rparr>"

definition seg_env :: "nat \<Rightarrow> shm_env" where
  "seg_env t = \<lparr>he_task = plain_env t 1000, he_lsm = seg_lsm, he_maps = plain_maps, he_alloc = first_free, he_kht = None,
     he_new = (\<lambda>used. if used 9 then None else Some 9), he_setup = (\<lambda>_ _ _. None), he_hstate = (\<lambda>_. None),
     he_overcommit_never = False, he_list = True, he_acct = 0, he_mlock = None, he_memlock = True,
     he_pages = (\<lambda>_. 2), he_swapped = (\<lambda>_. 1), he_per_huge = (\<lambda>_. 1)\<rparr>"

lemma seg_kernel: "shm_kernel_ok (seg_env t)"
  by (auto simp: shm_kernel_ok_def seg_env_def first_free_ok kmalloc_ok_def split: if_splits)

definition seg_ns :: shm_ns where
  "seg_ns = shm_boot \<lparr>shm_ids = ipc_init_ids, shm_ctlmax = 0, shm_ctlall = 0, shm_ctlmni = 0, shm_rmid_forced = False, shm_tot = 0,
     shm_lists = Map.empty, shm_bases = Map.empty, shm_outer = Map.empty, shm_oops = False\<rparr>"

text \<open>A private segment of 5000 bytes.\<close>

definition seg_shp :: shmid_kernel where
  "seg_shp = \<lparr>perm_deleted = False, perm_id = 0, perm_key = 0, perm_uid = 1000, perm_gid = 1000, perm_cuid = 1000, perm_cgid = 1000,
     perm_mode = 384, perm_seq = 0, perm_refcount = 1, shm_file = Some 9, shm_nattch = 0, shm_segsz = 5000, shm_atim = 0, shm_dtim = 0,
     shm_ctim = 1000, shm_cprid = Some 1, shm_lprid = None, shm_mlock = None, shm_creator = 1\<rparr>"

definition seg_got :: shm_ns where "seg_got = fst (ksys_shmget (seg_env 1) 0 5000 384 seg_ns)"

lemma seg_get: "ksys_shmget (seg_env 1) 0 5000 384 seg_ns = (seg_got, Inr 0)"
  and seg_got_fields: "objs (shm_ids seg_got) = [9 \<mapsto> seg_shp]" "ipcs_idr (shm_ids seg_got) = [(0, 9)]"
    "shm_bases seg_got = [9 \<mapsto> \<lparr>fl_count = 1, fl_size = 5000, fl_huge = False\<rparr>]" "shm_outer seg_got = Map.empty"
    "shm_lists seg_got = [1 \<mapsto> [9]]" "shm_tot seg_got = 2" "shm_rmid_forced seg_got = False" "shm_oops seg_got = False"
proof -
  let ?par = "\<lparr>par_key = 0, par_flg = 384, par_nsems = 5000\<rparr>"
  have u: "uint (5000 :: 64 word) = 5000" by simp
  define ids0 where "ids0 = objs_update (\<lambda>h. h(9 \<mapsto> fresh_segment (seg_env 1) ?par 9)) (ipc_init_ids :: shmid_kernel ipc_ids)"
  have o: "objs ids0 9 = Some (fresh_segment (seg_env 1) ?par 9)" by (simp add: ids0_def)
  have ff: "first_free (ipcs_idr ids0) 0 (min (max (in_use ids0 * 3 div 2) ipc_min_cycle) ipc_mni) = Inr 0"
    by (simp add: ids0_def ipc_init_ids_def ipc_min_cycle_def ipc_mni_def first_free_0)
  have lim: "in_use ids0 < (if 4096 > ipc_mni then ipc_mni else 4096)" by (simp add: ids0_def ipc_init_ids_def ipc_mni_def)
  have add: "ipc_addid (plain_env 1 1000) first_free None ids0 9 4096 = (added_ids (plain_env 1 1000) 0 9 0 ids0, Inr 0)"
    unfolding ipc_addid_cases [where alloc = first_free, OF o lim ff] by (simp add: fresh_segment_def)
  have A: "ipcs_idr (added_ids (plain_env 1 1000) 0 9 0 ids0) = [(0, 9)]" "objs (added_ids (plain_env 1 1000) 0 9 0 ids0) = [9 \<mapsto> seg_shp]"
    by (simp_all add: added_ids_def added_perm_def next_seq_def ids0_def ipc_init_ids_def ipcid_make_def c_int_def
       fresh_segment_def seg_env_def plain_env_def seg_shp_def upd_obj_def S_IRWXUGO_def idr_replace_def)
  have f: "shm_ids seg_ns = ipc_init_ids" "shm_ctlmax seg_ns = SHMMAX" "shm_ctlall seg_ns = SHMALL" "shm_ctlmni seg_ns = 4096" "shm_tot seg_ns = 0"
    "shm_lists seg_ns = Map.empty" "shm_bases seg_ns = Map.empty" "shm_outer seg_ns = Map.empty" "shm_oops seg_ns = False" "shm_rmid_forced seg_ns = False"
    by (simp_all add: seg_ns_def shm_boot_def shm_init_ns_def SHMMNI_def)
  have get: "ksys_shmget (seg_env 1) 0 5000 384 seg_ns = newseg (seg_env 1) ?par seg_ns"
    by (simp add: ksys_shmget_def ipcget_def IPC_PRIVATE_def ipcget_new_def)
  have env: "he_task (seg_env 1) = plain_env 1 1000" "he_alloc (seg_env 1) = first_free" "he_kht (seg_env 1) = None" "hl_alloc (he_lsm (seg_env 1)) = None"
    "he_new (seg_env 1) (\<lambda>p. objs (shm_ids seg_ns) p \<noteq> None) = Some 9" "he_new (seg_env 1) (\<lambda>p. shm_bases seg_ns p \<noteq> None) = Some 9"
    "he_list (seg_env 1) = True" "cur_task (plain_env 1 1000) = 1"
    by (simp_all add: seg_env_def seg_lsm_def f ipc_init_ids_def plain_env_def)
  have fil: "newseg_file (seg_env 1) 384 5000 = Inr (False, 5000)"
    by (simp add: newseg_file_def seg_env_def SHM_HUGETLB_def)
  have n: "num_pages 5000 = 2" by (simp add: num_pages_def PAGE_SIZE_def PAGE_SHIFT_def)
  have chk: "\<not> ((5000 :: 64 word) < SHMMIN \<or> 5000 > SHMMAX)" "\<not> push_bit PAGE_SHIFT (2 :: 64 word) < 5000" "\<not> (2 :: 64 word) > SHMALL"
    by (simp_all add: SHMMIN_def SHMMAX_def SHMALL_def PAGE_SHIFT_def)
  have new: "newseg (seg_env 1) ?par seg_ns = (seg_ns\<lparr>shm_bases := [9 \<mapsto> \<lparr>fl_count = 1, fl_size = 5000, fl_huge = False\<rparr>],
      shm_ids := added_ids (plain_env 1 1000) 0 9 0 ids0, shm_lists := [1 \<mapsto> [9]], shm_tot := 2\<rparr>, Inr 0)"
    using add [unfolded ids0_def] env fil n chk A(2) [unfolded ids0_def]
    by (simp add: newseg_def f task_shm_clist_def seg_shp_def ids0_def)
  show "ksys_shmget (seg_env 1) 0 5000 384 seg_ns = (seg_got, Inr 0)" unfolding seg_got_def get new by simp
  show "objs (shm_ids seg_got) = [9 \<mapsto> seg_shp]" "ipcs_idr (shm_ids seg_got) = [(0, 9)]"
    "shm_bases seg_got = [9 \<mapsto> \<lparr>fl_count = 1, fl_size = 5000, fl_huge = False\<rparr>]" "shm_outer seg_got = Map.empty"
    "shm_lists seg_got = [1 \<mapsto> [9]]" "shm_tot seg_got = 2" "shm_rmid_forced seg_got = False" "shm_oops seg_got = False"
    unfolding seg_got_def get new using A f by simp_all
qed

lemma seg_ns_reachable: "shm_reachable (seg_ns, {#}, {#})"
  unfolding seg_ns_def by (rule shm_boot_reachable)

lemma seg_shp_fields: "perm_deleted seg_shp = False" "perm_id seg_shp = 0" "perm_seq seg_shp = 0" "shm_file seg_shp = Some 9" "shm_nattch seg_shp = 0"
    "shm_segsz seg_shp = 5000" "perm_mode seg_shp = 384" "perm_uid seg_shp = 1000" "perm_cuid seg_shp = 1000" "shm_creator seg_shp = 1"
  by (simp_all add: seg_shp_def)

lemma seg_env_fields: "he_task (seg_env t) = plain_env t 1000" "hl_ipc (he_lsm (seg_env t)) = (\<lambda>_ _. None)" "hl_shmat (he_lsm (seg_env t)) = (\<lambda>_ _ _. None)"
    "hl_shmctl (he_lsm (seg_env t)) = (\<lambda>_ _. None)"
  by (simp_all add: seg_env_def seg_lsm_def)

lemma seg_got_reachable: "shm_reachable (seg_got, {#}, {#})"
  by (rule shm_reachable_step [OF seg_ns_reachable shm_step.get [OF seg_kernel seg_get]])

text \<open>Task 1 attaches it at 0x10000.\<close>

definition seg_clone :: file_clone where
  "seg_clone used = (if used 5 then Inl ENOMEM else Inr 5)"

definition seg_area :: vma where
  "seg_area = \<lparr>vm_start = 0x10000, vm_end = 0x12000, vm_pgoff = 0, vm_file = Some 5, vm_shm = True\<rparr>"

definition seg_att :: shm_ns where
  "seg_att = fst (do_shmat (seg_env 1) True seg_clone None False [] (MmapCalled None 0x10000) seg_got 0 0 0 4096)"

lemma seg_clone_ok: "file_clone_ok seg_clone"
  by (auto simp: file_clone_ok_def seg_clone_def)

lemma seg_attach: "do_shmat (seg_env 1) True seg_clone None False [] (MmapCalled None 0x10000) seg_got 0 0 0 4096 = (seg_att, Some seg_area, Inr 0x10000)"
  and seg_att_fields: "objs (shm_ids seg_att) = [9 \<mapsto> seg_shp\<lparr>shm_atim := 1000, shm_lprid := Some 1, shm_nattch := 1\<rparr>]"
    "shm_outer seg_att = [5 \<mapsto> \<lparr>sf_id = 0, sf_file = 9\<rparr>]" "shm_bases seg_att 9 = Some \<lparr>fl_count = 2, fl_size = 5000, fl_huge = False\<rparr>"
    "shm_lists seg_att = [1 \<mapsto> [9]]" "shm_rmid_forced seg_att = False" "ipcs_idr (shm_ids seg_att) = [(0, 9)]"
proof -
  note env = seg_env_fields
  have ob: "shm_obtain_object_check seg_got 0 = Inr 9"
    by (simp add: shm_obtain_object_check_def ipc_obtain_object_check_def seg_got_fields ipc_obtain_object_idr_def idr_find_def ipc_checkid_def seg_shp_def ipcid_defs)
  have pr: "shmat_prot 0 = (3, 438)" "shmat_addr 0 4096 0 = Some (0, 1)"
    by (simp_all add: shmat_prot_def shmat_addr_def SHM_RDONLY_def SHM_EXEC_def SHM_REMAP_def PROT_READ_def PROT_WRITE_def S_IRUGO_def S_IWUGO_def MAP_SHARED_def)
  have perm: "ipcperms (plain_env 1 1000) (\<lambda>_ _. None) seg_shp 438 = None"
    by (simp add: ipcperms_def plain_env_def seg_shp_def)
  let ?c = "\<lparr>at_shmid = 0, at_shp = 9, at_base = 9, at_addr = 0, at_size = 5000, at_prot = 3, at_flags = 1, at_shmflg = 0\<rparr>"
  define s1 where "s1 = upd_shp 9 (\<lambda>shp. shp\<lparr>shm_nattch := shm_nattch shp + 1\<rparr>) (get_file 9 seg_got)"
  have b: "shmat_begin (seg_env 1) seg_got 0 0 0 4096 = (s1, Inr ?c)"
    using ob pr perm by (simp add: shmat_begin_def env seg_got_fields ipc_valid_object_def seg_shp_fields s1_def)
  have F1: "objs (shm_ids s1) = [9 \<mapsto> seg_shp\<lparr>shm_nattch := 1\<rparr>]" "shm_outer s1 = Map.empty" "ipcs_idr (shm_ids s1) = [(0, 9)]"
    "shm_bases s1 9 = Some \<lparr>fl_count = 2, fl_size = 5000, fl_huge = False\<rparr>" "shm_lists s1 = [1 \<mapsto> [9]]" "shm_rmid_forced s1 = False"
    by (simp_all add: s1_def seg_got_fields seg_shp_fields get_file_def)
  define s2 where "s2 = s1\<lparr>shm_outer := [5 \<mapsto> \<lparr>sf_id = 0, sf_file = 9\<rparr>]\<rparr>"
  have f: "shmat_file True seg_clone ?c s1 = (s2, Inr 5)"
    by (simp add: shmat_file_def seg_clone_def F1 s2_def seg_shp_fields)
  define s3 where "s3 = upd_shp 9 (\<lambda>shp. shp\<lparr>shm_atim := 1000, shm_lprid := Some 1, shm_nattch := shm_nattch shp + 1\<rparr>) s2"
  have F2: "objs (shm_ids s2) = [9 \<mapsto> seg_shp\<lparr>shm_nattch := 1\<rparr>]" "ipcs_idr (shm_ids s2) = [(0, 9)]" "shm_outer s2 5 = Some \<lparr>sf_id = 0, sf_file = 9\<rparr>"
    by (simp_all add: s2_def F1)
  have lk: "shm_lock s2 0 = Inr 9"
    by (simp add: shm_lock_def ipc_obtain_object_idr_def idr_find_def F2 ipcid_defs ipc_valid_object_def seg_shp_fields)
  have al: "ALIGN 5000 PAGE_SIZE = 8192" by (simp add: ALIGN_def PAGE_SIZE_def)
  have mp: "shmat_map (seg_env 1) None False [] (MmapCalled None 0x10000) ?c 5 s2 = (s3, Some seg_area, Inr 0x10000)"
    by (simp add: shmat_map_def shmat_checks_def shm_mmap_def shm_open_data_def lk F2 env plain_env_def s3_def seg_area_def al seg_shp_fields)
  have F3: "objs (shm_ids s3) = [9 \<mapsto> seg_shp\<lparr>shm_atim := 1000, shm_lprid := Some 1, shm_nattch := 2\<rparr>]" "ipcs_idr (shm_ids s3) = [(0, 9)]"
    by (simp_all add: s3_def F2 seg_shp_fields)
  have lk3: "shm_lock s3 0 = Inr 9"
    by (simp add: shm_lock_def ipc_obtain_object_idr_def idr_find_def F3 ipcid_defs ipc_valid_object_def seg_shp_fields)
  define s4 where "s4 = upd_shp 9 (\<lambda>shp. shp\<lparr>shm_nattch := shm_nattch shp - 1\<rparr>) s3"
  have F4: "objs (shm_ids s4) = [9 \<mapsto> seg_shp\<lparr>shm_atim := 1000, shm_lprid := Some 1, shm_nattch := 1\<rparr>]"
    unfolding s4_def upd_shp_fields objs_upd_obj F3 by (simp add: seg_shp_fields)
  have en: "shmat_end 0 s3 = s4"
    using F4 by (simp add: shmat_end_def lk3 shm_check_destroy_def shm_may_destroy_def flip: s4_def)
  have d: "do_shmat (seg_env 1) True seg_clone None False [] (MmapCalled None 0x10000) seg_got 0 0 0 4096 = (s4, Some seg_area, Inr 0x10000)"
    unfolding do_shmat_def b by (simp add: f, unfold One_nat_def [symmetric] mp, simp add: en)
  show "do_shmat (seg_env 1) True seg_clone None False [] (MmapCalled None 0x10000) seg_got 0 0 0 4096 = (seg_att, Some seg_area, Inr 0x10000)"
    unfolding seg_att_def d by simp
  show "objs (shm_ids seg_att) = [9 \<mapsto> seg_shp\<lparr>shm_atim := 1000, shm_lprid := Some 1, shm_nattch := 1\<rparr>]"
    "shm_outer seg_att = [5 \<mapsto> \<lparr>sf_id = 0, sf_file = 9\<rparr>]" "shm_bases seg_att 9 = Some \<lparr>fl_count = 2, fl_size = 5000, fl_huge = False\<rparr>"
    "shm_lists seg_att = [1 \<mapsto> [9]]" "shm_rmid_forced seg_att = False" "ipcs_idr (shm_ids seg_att) = [(0, 9)]"
    unfolding seg_att_def d using F4 F1 F3 by (simp_all add: s4_def s3_def s2_def)
qed

lemma seg_att_reachable: "shm_reachable (seg_att, {#(1, seg_area)#}, {#})"
  using do_shmat_reach [OF seg_got_reachable seg_clone_ok seg_attach, of 1] by simp

end
