(* ===== verification/ShmMain.thy ===== *)
theory ShmMain
  imports ShmProps
begin

text \<open>
  What holds of shared memory in every reachable state, for every interleaving of the calls.
\<close>

unbundle bit_operations_syntax

section \<open>Reachable states\<close>

lemma reach_inv:
  assumes "shm_reachable (s, M, C)"
  shows "shm_inv (attached (shm_outer s) M C) (begun C) s" "\<forall>x \<in># M. area_ok (shm_outer s) (snd x)"
  using shm_reachable_inv [OF assms] by (simp_all add: shm_sys_inv_def)




text \<open>A file of an attach can be mapped again exactly while a segment with its id and its backing
  file is there: an id that was removed, or given to another segment at the same index, is refused and
  nothing is changed.
\<close>

theorem stale_file_refused:
  assumes r: "shm_reachable (s, M, C)" and f: "shm_outer s f = Some d"
  shows "if \<exists>p q. objs (shm_ids s) p = Some q \<and> perm_id q = sf_id d \<and> shm_file q = Some (sf_file d)
    then \<exists>s'. shm_mmap e None f s = (s', None) else \<exists>err. shm_mmap e base_err f s = (s, Some err)"
proof -
  note core = inv_core [OF reach_inv(1) [OF r]]
  show ?thesis
  proof (cases "\<exists>p q. objs (shm_ids s) p = Some q \<and> perm_id q = sf_id d \<and> shm_file q = Some (sf_file d)")
    case True
    then obtain p q where q: "objs (shm_ids s) p = Some q" "perm_id q = sf_id d" "shm_file q = Some (sf_file d)" by blast
    then show ?thesis using seg_lock [OF core q(1)] True f by (simp add: shm_mmap_def shm_open_data_def)
  next
    case False
    have "\<exists>err. shm_open_data e d s = (s, Some err)"
    proof (cases "shm_lock s (sf_id d)")
      case (Inr p)
      have "shm_file q \<noteq> Some (sf_file d)" if "objs (shm_ids s) p = Some q" for q
        using core_parts(7) [OF core] f that False unfolding outer_ok_def by blast
      then show ?thesis using Inr by (auto simp: shm_open_data_def split: option.splits)
    qed (simp add: shm_open_data_def)
    then show ?thesis using False f by (auto simp: shm_mmap_def)
  qed
qed

theorem stale_file_refused_witness: "\<exists>s'. shm_mmap (plain_env 1 1000) None 5 seg_att = (s', None)"
proof -
  have "\<exists>p q. objs (shm_ids seg_att) p = Some q \<and> perm_id q = 0 \<and> shm_file q = Some 9" by (simp add: seg_att_fields seg_shp_fields)
  then show ?thesis
    using stale_file_refused [where e = "plain_env 1 1000" and f = 5 and d = "\<lparr>sf_id = 0, sf_file = 9\<rparr>", OF seg_att_reachable]
    by (simp add: seg_att_fields(2))
qed




text \<open>Detaching unmaps exactly the first area whose offset fits the address and the pieces of the same
  file behind it that end within the size of the segment, in one call to the close callback each, and leaves
  every other area in place. It holds when the end of the first area can still be read after that
  area was unmapped.
\<close>

theorem shmdt_unmaps:
  assumes "areas_ok vs" "\<forall>w \<in> set vs. uint (vm_end w) < 2 ^ 63" "shmdt_first vs addr addr = Some v" "addr AND NOT PAGE_MASK = 0"
  shows "ksys_shmdt e False (\<lambda>_. False) (vm_end v) addr vs s =
    ((filter (Not \<circ> detached s addr v) vs, fold (close_area e) (filter (detached s addr v) vs) s), Inr 0)"
  by (rule shmdt_walk [OF assms])

text \<open>The area of the sample system, split in two by the kernel.\<close>

definition seg_lo :: vma where "seg_lo = seg_area\<lparr>vm_end := 0x11000\<rparr>"
definition seg_hi :: vma where "seg_hi = seg_area\<lparr>vm_start := 0x11000, vm_pgoff := 1\<rparr>"

lemma seg_pieces: "vm_start seg_lo = 0x10000" "vm_end seg_lo = 0x11000" "vm_pgoff seg_lo = 0" "vm_file seg_lo = Some 5" "vm_shm seg_lo"
  "vm_start seg_hi = 0x11000" "vm_end seg_hi = 0x12000" "vm_pgoff seg_hi = 1" "vm_file seg_hi = Some 5" "vm_shm seg_hi"
  by (simp_all add: seg_lo_def seg_hi_def seg_area_def)

lemma seg_first: "shmdt_first [seg_lo, seg_hi] 0x10000 0x10000 = Some seg_lo" "0x10000 AND NOT PAGE_MASK = 0"
  by (simp_all add: shmdt_first.simps find_vma_def shm_vma_at_def seg_pieces PAGE_SIZE_def PAGE_MASK_def)

lemma seg_both: "detached seg_att 0x10000 seg_lo seg_lo" "detached seg_att 0x10000 seg_lo seg_hi"
  by (simp_all add: detached_def shm_piece_def shm_vma_at_def seg_pieces file_size_def seg_att_fields ALIGN_def PAGE_SIZE_def)

theorem shmdt_unmaps_witness:
  "fst (fst (ksys_shmdt (plain_env 1 1000) False (\<lambda>_. False) 0x11000 0x10000 [seg_lo, seg_hi] seg_att)) = []"
  using shmdt_unmaps [of "[seg_lo, seg_hi]" "0x10000" seg_lo "plain_env 1 1000" seg_att] seg_first seg_both
  by (simp add: areas_ok_def seg_pieces)

text \<open>C36. When the memory of the unmapped first area holds a number above every area by the time its end
  is read again, \<^verbatim>\<open>ksys_shmdt\<close> stops there: it answers 0 with every later piece of the segment still mapped.
\<close>

theorem shmdt_leaves_pieces:
  assumes "shmdt_first vs addr addr = Some v" "addr AND NOT PAGE_MASK = 0" "\<forall>w \<in> set vs. vm_end w \<le> junk"
  shows "ksys_shmdt e False (\<lambda>_. False) junk addr vs s = ((remove1 v vs, close_area e v s), Inr 0)"
proof -
  have "find_vma (remove1 v vs) junk = None" using assms(3) set_remove1_subset [of v vs] by (auto simp: find_vma_iff_none)
  then show ?thesis using assms(1,2) by (simp add: ksys_shmdt_def unmap_vma_ok shmdt_rest.simps)
qed

theorem shmdt_leaves_pieces_witness:
  "ksys_shmdt (plain_env 1 1000) False (\<lambda>_. False) 0xffffffffffffffff 0x10000 [seg_lo, seg_hi] seg_att
     = (([seg_hi], close_area (plain_env 1 1000) seg_lo seg_att), Inr 0)
   \<and> detached seg_att 0x10000 seg_lo seg_hi"
  using shmdt_leaves_pieces [of "[seg_lo, seg_hi]" "0x10000" seg_lo "0xffffffffffffffff" "plain_env 1 1000" seg_att] seg_first seg_both
  by (simp add: seg_pieces)

text \<open>The exit of a task ends within one round per segment on its list, and leaves the list empty:
  with the forced removal on, exactly the segments of the list that nobody has attached are gone;
  every other segment is untouched.
\<close>

theorem exit_shm_ends:
  assumes "shm_reachable (s, M, C)" "shm_lists s t = Some l"
  shows "\<exists>s'. exit_shm_loop (clist_count s t + 1) ok alive t s = Some s' \<and> shm_lists s' = (shm_lists s)(t \<mapsto> [])
    \<and> (\<forall>p. objs (shm_ids s') p = (if shm_rmid_forced s \<and> alive \<and> p \<in> set l \<and> (\<exists>q. objs (shm_ids s) p = Some q \<and> shm_nattch q = 0)
         then None else objs (shm_ids s) p))"
proof -
  have "length l < clist_count s t + 1" using assms(2) by (simp add: clist_count_def)
  from exit_shm_all [OF reach_inv(1) [OF assms(1)] assms(2) this, of ok alive] show ?thesis by blast
qed

text \<open>The sample system, with the forced removal switched on by a write to the sysctl file.\<close>

definition seg_forced :: shm_ns where "seg_forced = fst (ipc_dointvec_minmax_orphans None (Some True) seg_got)"

lemma seg_forced_fields: "shm_lists seg_forced = [1 \<mapsto> [9]]" "objs (shm_ids seg_forced) = [9 \<mapsto> seg_shp]" "shm_rmid_forced seg_forced"
proof -
  have i: "sort_key fst (ipcs_idr (shm_ids seg_got)) = [(0, 9)]"
    by (simp add: seg_got_fields)
  have l: "list_linked (seg_got\<lparr>shm_rmid_forced := True\<rparr>) 9"
    by (simp add: list_linked_def seg_got_fields seg_shp_fields)
  have f: "seg_forced = seg_got\<lparr>shm_rmid_forced := True\<rparr>"
    using i l by (simp add: seg_forced_def ipc_dointvec_minmax_orphans_def shm_destroy_orphaned_def shm_try_destroy_orphaned_def Let_def)
  show "shm_lists seg_forced = [1 \<mapsto> [9]]" "objs (shm_ids seg_forced) = [9 \<mapsto> seg_shp]" "shm_rmid_forced seg_forced"
    by (simp_all add: f seg_got_fields)
qed

lemma seg_forced_reachable: "shm_reachable (seg_forced, {#}, {#})"
proof -
  obtain r where "ipc_dointvec_minmax_orphans None (Some True) seg_got = (seg_forced, r)" unfolding seg_forced_def by (metis prod.collapse)
  then show ?thesis using shm_reachable_step [OF seg_got_reachable shm_step.force] by blast
qed

theorem exit_shm_ends_witness:
  "\<exists>s'. exit_shm_loop 2 True True 1 seg_forced = Some s' \<and> objs (shm_ids s') 9 = None \<and> shm_lists s' = [1 \<mapsto> []]"
proof -
  have c: "clist_count seg_forced 1 + 1 = 2" and l: "shm_lists seg_forced 1 = Some [9]" by (simp_all add: clist_count_def seg_forced_fields)
  obtain s' where "exit_shm_loop 2 True True 1 seg_forced = Some s'" "shm_lists s' = (shm_lists seg_forced)(1 \<mapsto> [])"
    "objs (shm_ids s') 9 = None"
    using exit_shm_ends [OF seg_forced_reachable l, of True True] unfolding c by (auto simp: seg_forced_fields seg_shp_fields)
  then show ?thesis by (simp add: seg_forced_fields)
qed

text \<open>The release of a namespace no address space maps ends, within one round per possible index: no
  segment is left, no page is counted, and the only backing files still open are those of attach files
  that have not been released.
\<close>

theorem shm_exit_empties:
  assumes "shm_reachable (s, M, {#})" "\<forall>x \<in># M. \<not> vm_shm (snd x)"
  shows "\<exists>s'. ds_shm_exit_ns (nat ipc_mni) s = Some s' \<and> (\<forall>p. objs (shm_ids s') p = None) \<and> ipcs_idr (shm_ids s') = []
    \<and> shm_tot s' = 0 \<and> (\<forall>b. shm_bases s' b \<noteq> None \<longrightarrow> (\<exists>f d. shm_outer s' f = Some d \<and> sf_file d = b))"
proof -
  have m: "filter_mset (\<lambda>x. vm_shm (snd x)) M = {#}" using assms(2) by (induction M) auto
  have "shm_idle {#} s" using reach_inv(1) [OF assms(1)] m by (simp add: shm_idle_def attached_def begun_def)
  then obtain s' where s': "ds_free_ipcs (nat ipc_mni) shm_ids do_shm_rmid s = Some s'" "shm_idle {#} s'" "ipcs_idr (shm_ids s') = []"
    using shm_class.free_all by blast
  note core = inv_core [OF s'(2) [unfolded shm_idle_def]]
  have none: "objs (shm_ids s') p = None" for p
  proof (rule ccontr)
    assume "objs (shm_ids s') p \<noteq> None"
    then show False using core_parts(3) [OF core] s'(3) unfolding segs_ok_def by fastforce
  qed
  have "\<exists>f d. shm_outer s' f = Some d \<and> sf_file d = b" if ob: "shm_bases s' b \<noteq> None" for b
  proof -
    obtain f where f: "shm_bases s' b = Some f" using ob by blast
    have B: "\<forall>b f. shm_bases s' b = Some f \<longrightarrow> 0 < fl_count f"
      "\<forall>b. base_count s' b = of_bool (seg_file s' b) + card (outer_on s' b) + count {#} b"
      using core_parts(6) [OF core] unfolding bases_ok_def by blast+
    have "\<not> seg_file s' b" using none by (simp add: seg_file_def)
    moreover have "0 < fl_count f" using B(1) f by blast
    ultimately have "0 < card (outer_on s' b)" using f spec [OF B(2), of b] by (simp add: base_count_def)
    then have "outer_on s' b \<noteq> {}" by auto
    then show ?thesis by (auto simp: outer_on_def)
  qed
  then show ?thesis using s' none core_parts(9) [OF core] unfolding ds_shm_exit_ns_def by (auto simp: table_sum_def)
qed

theorem shm_exit_empties_witness:
  "\<exists>s'. ds_shm_exit_ns (nat ipc_mni) seg_got = Some s' \<and> ipcs_idr (shm_ids s') = [] \<and> shm_tot s' = 0"
  using shm_exit_empties [OF seg_got_reachable] by auto

text \<open>\<^verbatim>\<open>SHM_INFO\<close> ends and reports, over all segments of the namespace, their number, their pages and the
  sums of the resident and the swapped pages.
\<close>

theorem shm_info_sums:
  assumes "shm_reachable (s, M, C)" "hl_shmctl (he_lsm e) None SHM_INFO = None"
  shows "shmctl_shm_info (nat ipc_mni) e s = Some (Inr
    (\<lparr>hu_ids = int (length (ipcs_idr (shm_ids s))), hu_tot = table_sum (\<lambda>q. num_pages (shm_segsz q)) (shm_ids s),
      hu_rss = table_sum (\<lambda>q. fst (seg_stat e s q)) (shm_ids s), hu_swp = table_sum (\<lambda>q. snd (seg_stat e s q)) (shm_ids s),
      hu_attempts = 0, hu_successes = 0\<rparr>, max 0 (ipc_get_maxidx (shm_ids s))))"
proof -
  note inv = reach_inv(1) [OF assms(1)] and core = inv_core [OF reach_inv(1) [OF assms(1)]]
  have "in_use (shm_ids s) = int (length (ipcs_idr (shm_ids s)))" using core_parts(1) [OF core] by (simp add: ids_wf_def)
  then show ?thesis using assms(2) get_stat_sum [OF inv, of e] core_parts(9) [OF core] by (simp add: shmctl_shm_info_def Let_def max_def)
qed

theorem shm_info_sums_witness:
  "\<exists>info mx. shmctl_shm_info (nat ipc_mni) (seg_env 1) seg_att = Some (Inr (info, mx)) \<and> hu_ids info = 1 \<and> hu_tot info = num_pages 5000
     \<and> hu_rss info = 2"
proof -
  have h: "hl_shmctl (he_lsm (seg_env 1)) None SHM_INFO = None" by (simp add: seg_env_fields)
  have t: "table_sum g (shm_ids seg_att) = (case objs (shm_ids seg_att) 9 of Some q \<Rightarrow> g q | None \<Rightarrow> 0)"
    for g :: "shmid_kernel \<Rightarrow> 64 word" by (simp add: table_sum_def seg_att_fields(6))
  show ?thesis
    unfolding shm_info_sums [OF seg_att_reachable h] t
    by (simp add: seg_att_fields seg_shp_fields seg_stat_def shm_add_rss_swap_def) (simp add: seg_env_def)
qed



end
