(* ===== verification/MqQueue.thy ===== *)
theory MqQueue
  imports MsgUtil "HOL-Library.Tree"
begin

text \<open>
  POSIX message queues (\<^verbatim>\<open>src/src/main/ipcns/mqueue/ipc_mqueue.c\<close>), one queue under its lock: the
  tree of priorities, the two queues of sleeping tasks, sending and receiving up to the result or
  the sleep and from the wake-up on, and the notification of an empty queue's first message.

  A node of the tree is identified by its priority. The red-black tree of the kernel is an
  argument: rebalancing, erasing and the predecessor of a node as the kernel documents them; the
  descent and the pointer to the rightmost node are the code's own. \<open>mq_oops\<close> is set where the
  code follows a pointer that is null or dangling.
\<close>

section \<open>State\<close>

abbreviation EBADF :: errno where "EBADF \<equiv> EOTHER 9"
abbreviation EMFILE :: errno where "EMFILE \<equiv> EOTHER 24"
abbreviation EOVERFLOW :: errno where "EOVERFLOW \<equiv> EOTHER 75"
abbreviation EMSGSIZE :: errno where "EMSGSIZE \<equiv> EOTHER 90"
abbreviation ETIMEDOUT :: errno where "ETIMEDOUT \<equiv> EOTHER 110"
abbreviation ERESTARTSYS :: errno where "ERESTARTSYS \<equiv> EOTHER 512"

record posix_msg_tree_node =
  nd_priority :: int
  nd_msgs :: "msg_msg list"

type_synonym mq_tree = "posix_msg_tree_node tree"

text \<open>The tree library of the kernel, and what it documents.\<close>

record rb_ops =
  rb_insert_color :: "int \<Rightarrow> mq_tree \<Rightarrow> mq_tree"
  rb_erase :: "int \<Rightarrow> mq_tree \<Rightarrow> mq_tree"
  rb_prev :: "int \<Rightarrow> mq_tree \<Rightarrow> int option"

definition before :: "int \<Rightarrow> posix_msg_tree_node list \<Rightarrow> int option" where
  "before k ns = (case rev (takeWhile (\<lambda>n. nd_priority n \<noteq> k) ns) of [] \<Rightarrow> None | n # _ \<Rightarrow> Some (nd_priority n))"

definition rb_ok :: "rb_ops \<Rightarrow> bool" where
  "rb_ok rb \<longleftrightarrow> (\<forall>k t. inorder (rb_insert_color rb k t) = inorder t
     \<and> inorder (rb_erase rb k t) = filter (\<lambda>n. nd_priority n \<noteq> k) (inorder t)
     \<and> rb_prev rb k t = before k (inorder t))"

datatype wait_dir = SEND | RECV

record sigevent =
  sigev_notify :: int
  sigev_signo :: int
  sigev_value :: int

definition SIGEV_SIGNAL :: int where "SIGEV_SIGNAL = 0"
definition SIGEV_NONE :: int where "SIGEV_NONE = 1"
definition SIGEV_THREAD :: int where "SIGEV_THREAD = 2"

lemmas sigevs = SIGEV_SIGNAL_def SIGEV_NONE_def SIGEV_THREAD_def

record mqueue_inode_info =
  msg_tree :: mq_tree
  msg_tree_rightmost :: "int option"
  node_cache :: bool
  mq_maxmsg :: int
  mq_msgsize :: int
  mq_curmsgs :: int
  mq_notify :: sigevent
  notify_owner :: "nat option"
  notify_self_exec_id :: nat
  notify_cookie :: "nat option"
  mq_ucounts :: "nat option"
  e_wait_q :: "wait_dir \<Rightarrow> nat list"
  qsize :: "64 word"
  mq_oops :: bool

text \<open>What a sleeping task has on its stack, by task.\<close>

record ext_wait_queue =
  ew_msg :: "msg_msg option"
  ew_ready :: bool

type_synonym mq_stacks = "nat \<rightharpoonup> ext_wait_queue"

text \<open>
  The environment of a call: \<open>qe_prio\<close> the scheduling priorities of the tasks, \<open>qe_leaf\<close> and
  \<open>qe_atomic\<close> the success of the allocation of a node before and under the lock, \<open>qe_exec\<close> the
  execution id of the task a process id stands for.
\<close>

record mq_env =
  qe_task :: task_env
  qe_prio :: "nat \<Rightarrow> int"
  qe_rb :: rb_ops
  qe_leaf :: bool
  qe_atomic :: bool
  qe_exec :: "nat \<Rightarrow> nat option"

section \<open>The tree of messages\<close>

text \<open>The descent: whether the priority has a node, and whether only right turns were taken.\<close>

fun msg_descend :: "int \<Rightarrow> mq_tree \<Rightarrow> bool \<times> bool" where
  "msg_descend k Leaf = (False, True)"
| "msg_descend k (Node l n r) =
     (if nd_priority n = k then (True, True)
      else if k < nd_priority n then (fst (msg_descend k l), False)
      else msg_descend k r)"

text \<open>A message at the tail of the list of its node, and a new node where the descent ended.\<close>

fun msg_append :: "msg_msg \<Rightarrow> mq_tree \<Rightarrow> mq_tree" where
  "msg_append m Leaf = Leaf"
| "msg_append m (Node l n r) =
     (if nd_priority n = m_type m then Node l (n\<lparr>nd_msgs := nd_msgs n @ [m]\<rparr>) r
      else if m_type m < nd_priority n then Node (msg_append m l) n r
      else Node l n (msg_append m r))"

fun msg_link :: "posix_msg_tree_node \<Rightarrow> mq_tree \<Rightarrow> mq_tree" where
  "msg_link x Leaf = Node Leaf x Leaf"
| "msg_link x (Node l n r) =
     (if nd_priority x < nd_priority n then Node (msg_link x l) n r else Node l n (msg_link x r))"

definition msg_insert :: "mq_env \<Rightarrow> msg_msg \<Rightarrow> mqueue_inode_info \<Rightarrow> mqueue_inode_info \<times> errno option" where
  "msg_insert e m i =
     (let count = (\<lambda>i. i\<lparr>mq_curmsgs := mq_curmsgs i + 1, qsize := qsize i + of_nat (m_ts m)\<rparr>)
      in case msg_descend (m_type m) (msg_tree i) of
           (True, _) \<Rightarrow> (count (i\<lparr>msg_tree := msg_append m (msg_tree i)\<rparr>), None)
         | (False, rightmost) \<Rightarrow>
             if \<not> node_cache i \<and> \<not> qe_atomic e then (i, Some ENOMEM)
             else
               (let i = (if node_cache i then i\<lparr>node_cache := False\<rparr> else i);
                    i = (if rightmost then i\<lparr>msg_tree_rightmost := Some (m_type m)\<rparr> else i);
                    leaf = \<lparr>nd_priority = m_type m, nd_msgs = []\<rparr>;
                    i = i\<lparr>msg_tree := rb_insert_color (qe_rb e) (m_type m) (msg_link leaf (msg_tree i))\<rparr>
                in (count (i\<lparr>msg_tree := msg_append m (msg_tree i)\<rparr>), None)))"

definition msg_tree_erase :: "mq_env \<Rightarrow> int \<Rightarrow> mqueue_inode_info \<Rightarrow> mqueue_inode_info" where
  "msg_tree_erase e k i =
     (let i = (if msg_tree_rightmost i = Some k then i\<lparr>msg_tree_rightmost := rb_prev (qe_rb e) k (msg_tree i)\<rparr> else i)
      in i\<lparr>msg_tree := rb_erase (qe_rb e) k (msg_tree i), node_cache := True\<rparr>)"

fun msg_node :: "int \<Rightarrow> mq_tree \<Rightarrow> posix_msg_tree_node option" where
  "msg_node k Leaf = None"
| "msg_node k (Node l n r) =
     (if nd_priority n = k then Some n else if k < nd_priority n then msg_node k l else msg_node k r)"

text \<open>Taking the first message off the list of a node.\<close>

fun msg_chop :: "int \<Rightarrow> mq_tree \<Rightarrow> mq_tree" where
  "msg_chop k Leaf = Leaf"
| "msg_chop k (Node l n r) =
     (if nd_priority n = k then Node l (n\<lparr>nd_msgs := tl (nd_msgs n)\<rparr>) r
      else if k < nd_priority n then Node (msg_chop k l) n r
      else Node l n (msg_chop k r))"

text \<open>
  The retries of \<^verbatim>\<open>msg_get\<close> are for nodes without messages; running out of fuel is \<open>None\<close>.
\<close>

fun msg_get_loop :: "nat \<Rightarrow> mq_env \<Rightarrow> mqueue_inode_info \<Rightarrow> (mqueue_inode_info \<times> msg_msg option) option" where
  "msg_get_loop 0 e i = None"
| "msg_get_loop (Suc fuel) e i =
     (case msg_tree_rightmost i of
        None \<Rightarrow> Some (if mq_curmsgs i \<noteq> 0 then i\<lparr>mq_curmsgs := 0\<rparr> else i, None)
      | Some k \<Rightarrow>
          (case msg_node k (msg_tree i) of
             None \<Rightarrow> Some (i\<lparr>mq_oops := True\<rparr>, None)
           | Some leaf \<Rightarrow>
               (case nd_msgs leaf of
                  [] \<Rightarrow> msg_get_loop fuel e (msg_tree_erase e k i)
                | m # ms \<Rightarrow>
                    (let i = i\<lparr>msg_tree := msg_chop k (msg_tree i)\<rparr>;
                         i = (if ms = [] then msg_tree_erase e k i else i)
                     in Some (i\<lparr>mq_curmsgs := mq_curmsgs i - 1, qsize := qsize i - of_nat (m_ts m)\<rparr>, Some m)))))"

definition msg_get :: "mq_env \<Rightarrow> mqueue_inode_info \<Rightarrow> mqueue_inode_info \<times> msg_msg option" where
  "msg_get e i =
     (case msg_get_loop (length (inorder (msg_tree i)) + 1) e i of None \<Rightarrow> (i, None) | Some x \<Rightarrow> x)"

section \<open>Sleeping tasks\<close>

fun wq_insert :: "(nat \<Rightarrow> int) \<Rightarrow> nat \<Rightarrow> nat list \<Rightarrow> nat list" where
  "wq_insert prio t [] = [t]"
| "wq_insert prio t (w # ws) = (if prio w \<le> prio t then t # w # ws else w # wq_insert prio t ws)"

definition wq_add :: "mq_env \<Rightarrow> wait_dir \<Rightarrow> mqueue_inode_info \<Rightarrow> mqueue_inode_info" where
  "wq_add e sr i = i\<lparr>e_wait_q := (e_wait_q i)(sr := wq_insert (qe_prio e) (cur_task (qe_task e)) (e_wait_q i sr))\<rparr>"

definition wq_get_first_waiter :: "mqueue_inode_info \<Rightarrow> wait_dir \<Rightarrow> nat option" where
  "wq_get_first_waiter i sr = (case rev (e_wait_q i sr) of [] \<Rightarrow> None | t # _ \<Rightarrow> Some t)"

definition wq_del :: "wait_dir \<Rightarrow> nat \<Rightarrow> mqueue_inode_info \<Rightarrow> mqueue_inode_info" where
  "wq_del sr t i = i\<lparr>e_wait_q := (e_wait_q i)(sr := remove1 t (e_wait_q i sr))\<rparr>"

text \<open>The common part of a hand-over: the task leaves the queue and is told that it is done.\<close>

definition pipelined_op :: "wait_dir \<Rightarrow> nat \<Rightarrow> mqueue_inode_info \<Rightarrow> mq_stacks \<Rightarrow> mqueue_inode_info \<times> mq_stacks" where
  "pipelined_op sr t i st = (wq_del sr t i, st(t := map_option (ew_ready_update (\<lambda>_. True)) (st t)))"

definition mq_pipelined_send :: "msg_msg \<Rightarrow> nat \<Rightarrow> mqueue_inode_info \<Rightarrow> mq_stacks \<Rightarrow> mqueue_inode_info \<times> mq_stacks" where
  "mq_pipelined_send m t i st = pipelined_op RECV t i (st(t := map_option (ew_msg_update (\<lambda>_. Some m)) (st t)))"

definition pipelined_receive :: "mq_env \<Rightarrow> mqueue_inode_info \<Rightarrow> mq_stacks \<Rightarrow> (mqueue_inode_info \<times> mq_stacks) \<times> nat list" where
  "pipelined_receive e i st =
     (case wq_get_first_waiter i SEND of
        None \<Rightarrow> ((i, st), [])
      | Some t \<Rightarrow>
          (case Option.bind (st t) ew_msg of
             None \<Rightarrow> ((i\<lparr>mq_oops := True\<rparr>, st), [])
           | Some m \<Rightarrow>
               (case msg_insert e m i of
                  (i, Some err) \<Rightarrow> ((i, st), [])
                | (i, None) \<Rightarrow> (pipelined_op SEND t i st, [t]))))"

section \<open>Notification\<close>

text \<open>What a notification sends: a signal with its value, or the cookie with its last byte.\<close>

datatype mq_event = NotifySignal nat int int | NotifyCookie nat bool

definition do_notify :: "mq_env \<Rightarrow> mqueue_inode_info \<Rightarrow> mqueue_inode_info \<times> mq_event list" where
  "do_notify e i =
     (case notify_owner i of
        None \<Rightarrow> (i, [])
      | Some own \<Rightarrow>
          if mq_curmsgs i = 1 then
            (let kind = sigev_notify (mq_notify i);
                 out = (if kind = SIGEV_SIGNAL then
                          (if sigev_signo (mq_notify i) = 0 then []
                           else if qe_exec e own = Some (notify_self_exec_id i)
                           then [NotifySignal own (sigev_signo (mq_notify i)) (sigev_value (mq_notify i))]
                           else [])
                        else if kind = SIGEV_THREAD then
                          (case notify_cookie i of None \<Rightarrow> [] | Some c \<Rightarrow> [NotifyCookie c True])
                        else [])
             in (i\<lparr>notify_owner := None, mq_oops := mq_oops i \<or> kind = SIGEV_THREAD \<and> notify_cookie i = None\<rparr>, out))
          else (i, []))"

definition remove_notification :: "mqueue_inode_info \<Rightarrow> mqueue_inode_info \<times> mq_event list" where
  "remove_notification i =
     (i\<lparr>notify_owner := None, mq_oops := mq_oops i \<or>
         notify_owner i \<noteq> None \<and> sigev_notify (mq_notify i) = SIGEV_THREAD \<and> notify_cookie i = None\<rparr>,
      if notify_owner i \<noteq> None \<and> sigev_notify (mq_notify i) = SIGEV_THREAD
      then (case notify_cookie i of None \<Rightarrow> [] | Some c \<Rightarrow> [NotifyCookie c False]) else [])"

text \<open>
  Registration under the lock, \<open>cookie\<close> being the one that was made for the call; the last value
  of \<^verbatim>\<open>do_mq_notify\<close> is its result. \<^verbatim>\<open>mqueue_flush_file\<close> runs at every close.
\<close>

definition mq_notify_set :: "mq_env \<Rightarrow> sigevent option \<Rightarrow> nat \<Rightarrow> mqueue_inode_info \<Rightarrow> (mqueue_inode_info \<times> mq_event list) \<times> unit result" where
  "mq_notify_set e notification cookie i =
     (let tgid = cur_tgid (qe_task e)
      in case notification of
           None \<Rightarrow> (if notify_owner i = Some tgid then remove_notification i else (i, []), Inr ())
         | Some n \<Rightarrow>
             if notify_owner i \<noteq> None then ((i, []), Inl EBUSY)
             else
               (let i = (if sigev_notify n = SIGEV_NONE then i\<lparr>mq_notify := (mq_notify i)\<lparr>sigev_notify := SIGEV_NONE\<rparr>\<rparr>
                         else if sigev_notify n = SIGEV_THREAD
                         then i\<lparr>notify_cookie := Some cookie, mq_notify := (mq_notify i)\<lparr>sigev_notify := SIGEV_THREAD\<rparr>\<rparr>
                         else if sigev_notify n = SIGEV_SIGNAL
                         then i\<lparr>mq_notify := \<lparr>sigev_notify = SIGEV_SIGNAL, sigev_signo = sigev_signo n, sigev_value = sigev_value n\<rparr>,
                                notify_self_exec_id := (case qe_exec e tgid of Some x \<Rightarrow> x | None \<Rightarrow> 0)\<rparr>
                         else i)
                in ((i\<lparr>notify_owner := Some tgid\<rparr>, []), Inr ())))"

definition mqueue_flush_file :: "mq_env \<Rightarrow> mqueue_inode_info \<Rightarrow> mqueue_inode_info \<times> mq_event list" where
  "mqueue_flush_file e i = (if notify_owner i = Some (cur_tgid (qe_task e)) then remove_notification i else (i, []))"

text \<open>Whether a queue can be read and written without sleeping, as \<^verbatim>\<open>poll\<close> reports it.\<close>

definition mqueue_poll_file :: "mqueue_inode_info \<Rightarrow> bool \<times> bool" where
  "mqueue_poll_file i = (mq_curmsgs i \<noteq> 0, mq_curmsgs i < mq_maxmsg i)"

section \<open>Sending and receiving under the lock\<close>

datatype 'r mq_step = MqReturn 'r | MqSleep

text \<open>The node allocated before the lock was taken goes to the cache if that is empty.\<close>

definition spare_leaf :: "mq_env \<Rightarrow> mqueue_inode_info \<Rightarrow> mqueue_inode_info" where
  "spare_leaf e i = (if \<not> node_cache i \<and> qe_leaf e then i\<lparr>node_cache := True\<rparr> else i)"

record 'r mq_out =
  mo_info :: mqueue_inode_info
  mo_stacks :: mq_stacks
  mo_woken :: "nat list"
  mo_events :: "mq_event list"
  mo_step :: "'r mq_step"

definition mq_send :: "mq_env \<Rightarrow> bool \<Rightarrow> msg_msg \<Rightarrow> mqueue_inode_info \<Rightarrow> mq_stacks \<Rightarrow> (unit result) mq_out" where
  "mq_send e nonblock m i st =
     (let i = spare_leaf e i
      in if mq_curmsgs i = mq_maxmsg i then
           (if nonblock then \<lparr>mo_info = i, mo_stacks = st, mo_woken = [], mo_events = [], mo_step = MqReturn (Inl EAGAIN)\<rparr>
            else \<lparr>mo_info = wq_add e SEND i,
                  mo_stacks = st(cur_task (qe_task e) \<mapsto> \<lparr>ew_msg = Some m, ew_ready = False\<rparr>),
                  mo_woken = [], mo_events = [], mo_step = MqSleep\<rparr>)
         else
           (case wq_get_first_waiter i RECV of
              Some t \<Rightarrow>
                (case mq_pipelined_send m t i st of
                   (i, st) \<Rightarrow> \<lparr>mo_info = i, mo_stacks = st, mo_woken = [t], mo_events = [], mo_step = MqReturn (Inr ())\<rparr>)
            | None \<Rightarrow>
                (case msg_insert e m i of
                   (i, Some err) \<Rightarrow>
                     \<lparr>mo_info = i, mo_stacks = st, mo_woken = [], mo_events = [], mo_step = MqReturn (Inl err)\<rparr>
                 | (i, None) \<Rightarrow>
                     (case do_notify e i of
                        (i, ev) \<Rightarrow>
                          \<lparr>mo_info = i, mo_stacks = st, mo_woken = [], mo_events = ev, mo_step = MqReturn (Inr ())\<rparr>))))"

definition mq_receive :: "mq_env \<Rightarrow> bool \<Rightarrow> mqueue_inode_info \<Rightarrow> mq_stacks \<Rightarrow> (msg_msg result) mq_out" where
  "mq_receive e nonblock i st =
     (let i = spare_leaf e i
      in if mq_curmsgs i = 0 then
           (if nonblock then \<lparr>mo_info = i, mo_stacks = st, mo_woken = [], mo_events = [], mo_step = MqReturn (Inl EAGAIN)\<rparr>
            else \<lparr>mo_info = wq_add e RECV i,
                  mo_stacks = st(cur_task (qe_task e) \<mapsto> \<lparr>ew_msg = None, ew_ready = False\<rparr>),
                  mo_woken = [], mo_events = [], mo_step = MqSleep\<rparr>)
         else
           (case msg_get e i of
              (i, None) \<Rightarrow>
                \<lparr>mo_info = i\<lparr>mq_oops := True\<rparr>, mo_stacks = st, mo_woken = [], mo_events = [], mo_step = MqReturn (Inl EINVAL)\<rparr>
            | (i, Some m) \<Rightarrow>
                (case pipelined_receive e i st of
                   ((i, st), wake) \<Rightarrow>
                     \<lparr>mo_info = i, mo_stacks = st, mo_woken = wake, mo_events = [], mo_step = MqReturn (Inr m)\<rparr>)))"

text \<open>
  The way out of \<^verbatim>\<open>wq_sleep\<close>: done, interrupted, timed out, or back to sleep. On the way out the
  stack of the task is gone.
\<close>

definition wq_wake :: "mq_env \<Rightarrow> bool \<Rightarrow> wait_dir \<Rightarrow> mqueue_inode_info \<Rightarrow> mq_stacks \<Rightarrow> mqueue_inode_info \<times> (unit result) mq_step" where
  "wq_wake e timed_out sr i st =
     (let t = cur_task (qe_task e)
      in case st t of
           None \<Rightarrow> (i\<lparr>mq_oops := True\<rparr>, MqReturn (Inl EINVAL))
         | Some w \<Rightarrow>
             if ew_ready w then (i, MqReturn (Inr ()))
             else if cur_signal_pending (qe_task e) then (wq_del sr t i, MqReturn (Inl ERESTARTSYS))
             else if timed_out then (wq_del sr t i, MqReturn (Inl ETIMEDOUT))
             else (i, MqSleep))"

definition mq_send_resume :: "mq_env \<Rightarrow> bool \<Rightarrow> mqueue_inode_info \<Rightarrow> mq_stacks \<Rightarrow> (unit result) mq_out" where
  "mq_send_resume e timed_out i st =
     (case wq_wake e timed_out SEND i st of
        (i, MqSleep) \<Rightarrow> \<lparr>mo_info = i, mo_stacks = st, mo_woken = [], mo_events = [], mo_step = MqSleep\<rparr>
      | (i, MqReturn r) \<Rightarrow>
          \<lparr>mo_info = i, mo_stacks = st(cur_task (qe_task e) := None), mo_woken = [], mo_events = [], mo_step = MqReturn r\<rparr>)"

definition mq_receive_resume :: "mq_env \<Rightarrow> bool \<Rightarrow> mqueue_inode_info \<Rightarrow> mq_stacks \<Rightarrow> (msg_msg result) mq_out" where
  "mq_receive_resume e timed_out i st =
     (case wq_wake e timed_out RECV i st of
        (i, MqSleep) \<Rightarrow> \<lparr>mo_info = i, mo_stacks = st, mo_woken = [], mo_events = [], mo_step = MqSleep\<rparr>
      | (i, MqReturn (Inl err)) \<Rightarrow>
          \<lparr>mo_info = i, mo_stacks = st(cur_task (qe_task e) := None), mo_woken = [], mo_events = [], mo_step = MqReturn (Inl err)\<rparr>
      | (i, MqReturn (Inr _)) \<Rightarrow>
          (case Option.bind (st (cur_task (qe_task e))) ew_msg of
             None \<Rightarrow> \<lparr>mo_info = i\<lparr>mq_oops := True\<rparr>, mo_stacks = st(cur_task (qe_task e) := None), mo_woken = [],
                      mo_events = [], mo_step = MqReturn (Inl EINVAL)\<rparr>
           | Some m \<Rightarrow> \<lparr>mo_info = i, mo_stacks = st(cur_task (qe_task e) := None), mo_woken = [],
                        mo_events = [], mo_step = MqReturn (Inr m)\<rparr>))"

section \<open>The calls on a descriptor\<close>

text \<open>What a descriptor stands for; a file of another kind has other operations.\<close>

record mq_file =
  mf_read :: bool
  mf_write :: bool
  mf_nonblock :: bool

datatype mq_fd = NoFile | OtherFile | MqFile mq_file

definition MQ_PRIO_MAX :: int where "MQ_PRIO_MAX = 32768"

definition mq_refuse :: "errno \<Rightarrow> mqueue_inode_info \<Rightarrow> mq_stacks \<Rightarrow> ('r result) mq_out" where
  "mq_refuse err i st = \<lparr>mo_info = i, mo_stacks = st, mo_woken = [], mo_events = [], mo_step = MqReturn (Inl err)\<rparr>"

text \<open>The message of a send; \<open>loaded\<close> is the answer of \<open>load_msg\<close>.\<close>

definition sent_msg :: "msg_msg \<Rightarrow> nat \<Rightarrow> int \<Rightarrow> msg_msg" where
  "sent_msg m len prio = m\<lparr>m_ts := len, m_type := prio\<rparr>"

definition do_mq_timedsend ::
    "mq_env \<Rightarrow> mq_fd \<Rightarrow> nat \<Rightarrow> int \<Rightarrow> msg_msg result \<Rightarrow> mqueue_inode_info \<Rightarrow> mq_stacks \<Rightarrow> (unit result) mq_out" where
  "do_mq_timedsend e fd len prio loaded i st =
     (if prio \<ge> MQ_PRIO_MAX then mq_refuse EINVAL i st
      else
        (case fd of
           NoFile \<Rightarrow> mq_refuse EBADF i st
         | OtherFile \<Rightarrow> mq_refuse EBADF i st
         | MqFile f \<Rightarrow>
             if \<not> mf_write f then mq_refuse EBADF i st
             else if int len > mq_msgsize i then mq_refuse EMSGSIZE i st
             else
               (case loaded of
                  Inl err \<Rightarrow> mq_refuse err i st
                | Inr m \<Rightarrow> mq_send e (mf_nonblock f) (sent_msg m len prio) i st)))"

definition do_mq_timedreceive ::
    "mq_env \<Rightarrow> mq_fd \<Rightarrow> nat \<Rightarrow> mqueue_inode_info \<Rightarrow> mq_stacks \<Rightarrow> (msg_msg result) mq_out" where
  "do_mq_timedreceive e fd len i st =
     (case fd of
        NoFile \<Rightarrow> mq_refuse EBADF i st
      | OtherFile \<Rightarrow> mq_refuse EBADF i st
      | MqFile f \<Rightarrow>
          if \<not> mf_read f then mq_refuse EBADF i st
          else if int len < mq_msgsize i then mq_refuse EMSGSIZE i st
          else mq_receive e (mf_nonblock f) i st)"

text \<open>
  The end of a receive that has its message: the priority, if asked for, and the bytes go to the
  user; the message is freed in either case.
\<close>

definition mq_receive_finish :: "bool option \<Rightarrow> (nat \<Rightarrow> nat \<Rightarrow> bool) \<Rightarrow> msg_msg \<Rightarrow> (int option \<times> bytes \<times> nat) result" where
  "mq_receive_finish prio_ok uwrite m =
     (if prio_ok = Some False then Inl EFAULT
      else
        (case store_msg uwrite m (m_ts m) of
           None \<Rightarrow> Inl EFAULT
         | Some d \<Rightarrow> Inr (if prio_ok = None then None else Some (m_type m), d, m_ts m)))"

text \<open>
  \<^verbatim>\<open>do_mq_notify\<close>: the checks, the cookie of a thread notification (\<open>cookie\<close> is the outcome of making
  and attaching it), and the registration.
\<close>

definition do_mq_notify ::
    "mq_env \<Rightarrow> mq_fd \<Rightarrow> sigevent option \<Rightarrow> nat result \<Rightarrow> mqueue_inode_info \<Rightarrow> (mqueue_inode_info \<times> mq_event list) \<times> unit result" where
  "do_mq_notify e fd notification cookie i =
     (let bad = (case notification of
                   None \<Rightarrow> None
                 | Some n \<Rightarrow>
                     if sigev_notify n \<noteq> SIGEV_NONE \<and> sigev_notify n \<noteq> SIGEV_SIGNAL \<and> sigev_notify n \<noteq> SIGEV_THREAD
                     then Some EINVAL
                     else if sigev_notify n = SIGEV_SIGNAL \<and> (sigev_signo n < 0 \<or> 64 < sigev_signo n) then Some EINVAL
                     else if sigev_notify n = SIGEV_THREAD then (case cookie of Inl err \<Rightarrow> Some err | Inr _ \<Rightarrow> None)
                     else None)
      in case bad of
           Some err \<Rightarrow> ((i, []), Inl err)
         | None \<Rightarrow>
             (case fd of
                MqFile f \<Rightarrow> mq_notify_set e notification (case cookie of Inr c \<Rightarrow> c | Inl _ \<Rightarrow> 0) i
              | _ \<Rightarrow> ((i, []), Inl EBADF)))"

text \<open>The attributes of a queue as the calls exchange them.\<close>

record mq_attr =
  at_flags :: int
  at_maxmsg :: int
  at_msgsize :: int
  at_curmsgs :: int

definition O_NONBLOCK :: int where "O_NONBLOCK = 2048"

definition do_mq_getsetattr ::
    "mq_fd \<Rightarrow> mq_attr option \<Rightarrow> mqueue_inode_info \<Rightarrow> (mq_attr \<times> mq_file) result" where
  "do_mq_getsetattr fd new i =
     (if (case new of None \<Rightarrow> False | Some a \<Rightarrow> at_flags a \<noteq> 0 \<and> at_flags a \<noteq> O_NONBLOCK) then Inl EINVAL
      else
        (case fd of
           MqFile f \<Rightarrow>
             Inr (\<lparr>at_flags = (if mf_nonblock f then O_NONBLOCK else 0), at_maxmsg = mq_maxmsg i,
                   at_msgsize = mq_msgsize i, at_curmsgs = mq_curmsgs i\<rparr>,
                  case new of None \<Rightarrow> f | Some a \<Rightarrow> f\<lparr>mf_nonblock := at_flags a = O_NONBLOCK\<rparr>)
         | _ \<Rightarrow> Inl EBADF))"

end
