(* ===== verification/MqTree.thy ===== *)
theory MqTree
  imports MqQueue
begin

text \<open>
  The tree of a queue by the method of its inorder traversal: the sorted list of its nodes, cut
  at a priority, says what the descent, the insertion and the removal of a message do.
\<close>

section \<open>Sorted nodes\<close>

definition nodes_sorted :: "posix_msg_tree_node list \<Rightarrow> bool" where
  "nodes_sorted ns \<longleftrightarrow> sorted_wrt (\<lambda>a b. nd_priority a < nd_priority b) ns"

definition below :: "int \<Rightarrow> posix_msg_tree_node list \<Rightarrow> posix_msg_tree_node list" where
  "below k ns = filter (\<lambda>n. nd_priority n < k) ns"

definition above :: "int \<Rightarrow> posix_msg_tree_node list \<Rightarrow> posix_msg_tree_node list" where
  "above k ns = filter (\<lambda>n. k < nd_priority n) ns"

definition at_prio :: "int \<Rightarrow> posix_msg_tree_node list \<Rightarrow> posix_msg_tree_node list" where
  "at_prio k ns = filter (\<lambda>n. nd_priority n = k) ns"

lemmas cut_defs = below_def above_def at_prio_def

lemma cut_all [simp]:
  "\<forall>n \<in> set ns. nd_priority n < k \<Longrightarrow> below k ns = ns \<and> above k ns = [] \<and> at_prio k ns = []"
  "\<forall>n \<in> set ns. k < nd_priority n \<Longrightarrow> below k ns = [] \<and> above k ns = ns \<and> at_prio k ns = []"
  by (induction ns) (auto simp: cut_defs)

lemma cut_append [simp]:
  "below k (xs @ ys) = below k xs @ below k ys" "above k (xs @ ys) = above k xs @ above k ys"
  "at_prio k (xs @ ys) = at_prio k xs @ at_prio k ys"
  by (simp_all add: cut_defs)

lemma cut_Cons [simp]:
  "below k (n # ns) = (if nd_priority n < k then n # below k ns else below k ns)"
  "above k (n # ns) = (if k < nd_priority n then n # above k ns else above k ns)"
  "at_prio k (n # ns) = (if nd_priority n = k then n # at_prio k ns else at_prio k ns)"
  "below k [] = []" "above k [] = []" "at_prio k [] = []"
  by (simp_all add: cut_defs)

lemma nodes_sorted_simps [simp]:
  "nodes_sorted []"
  "nodes_sorted (n # ns) \<longleftrightarrow> (\<forall>x \<in> set ns. nd_priority n < nd_priority x) \<and> nodes_sorted ns"
  "nodes_sorted (xs @ ys) \<longleftrightarrow> nodes_sorted xs \<and> nodes_sorted ys \<and> (\<forall>x \<in> set xs. \<forall>y \<in> set ys. nd_priority x < nd_priority y)"
  by (auto simp: nodes_sorted_def sorted_wrt_append)

lemma cut_sorted: "nodes_sorted ns \<Longrightarrow> ns = below k ns @ at_prio k ns @ above k ns"
proof (induction ns)
  case (Cons n ns)
  then have IH: "ns = below k ns @ at_prio k ns @ above k ns" by simp
  show ?case
  proof (cases "nd_priority n < k")
    case False
    then have "\<forall>x \<in> set ns. k < nd_priority x" using Cons.prems by auto
    then show ?thesis using False by auto
  qed (use IH in simp)
qed simp

lemma cut_mem:
  "n \<in> set (below k ns) \<longleftrightarrow> n \<in> set ns \<and> nd_priority n < k" "n \<in> set (above k ns) \<longleftrightarrow> n \<in> set ns \<and> k < nd_priority n"
  "n \<in> set (at_prio k ns) \<longleftrightarrow> n \<in> set ns \<and> nd_priority n = k"
  by (auto simp: cut_defs)

lemma at_prio_one: "nodes_sorted ns \<Longrightarrow> at_prio k ns = [] \<or> (\<exists>n. at_prio k ns = [n] \<and> nd_priority n = k)"
proof (induction ns)
  case (Cons n ns)
  show ?case
  proof (cases "nd_priority n = k")
    case True
    then have "\<forall>x \<in> set ns. k < nd_priority x" using Cons.prems by auto
    then show ?thesis using True by auto
  next
    case False
    then show ?thesis using Cons by simp
  qed
qed simp

section \<open>The operations on the tree\<close>

lemma inorder_link:
  "\<lbrakk>nodes_sorted (inorder t); at_prio (nd_priority x) (inorder t) = []\<rbrakk>
   \<Longrightarrow> inorder (msg_link x t) = below (nd_priority x) (inorder t) @ x # above (nd_priority x) (inorder t)"
proof (induction t)
  case (Node l n r)
  show ?case
  proof (cases "nd_priority x < nd_priority n")
    case True
    then have "\<forall>y \<in> set (inorder r). nd_priority x < nd_priority y" using Node.prems by auto
    then show ?thesis using Node True by auto
  next
    case False
    then have lt: "nd_priority n < nd_priority x" using Node.prems by (auto split: if_splits)
    then have "\<forall>y \<in> set (inorder l). nd_priority y < nd_priority x" using Node.prems by fastforce
    then show ?thesis using Node False lt by auto
  qed
qed simp

lemma inorder_append:
  "nodes_sorted (inorder t) \<Longrightarrow> inorder (msg_append m t) =
     below (m_type m) (inorder t) @ map (\<lambda>n. n\<lparr>nd_msgs := nd_msgs n @ [m]\<rparr>) (at_prio (m_type m) (inorder t)) @ above (m_type m) (inorder t)"
proof (induction t)
  case (Node l n r)
  let ?k = "m_type m"
  consider "nd_priority n = ?k" | "?k < nd_priority n" | "nd_priority n < ?k" by linarith
  then show ?case
  proof cases
    case 1
    then have "\<forall>y \<in> set (inorder l). nd_priority y < ?k" "\<forall>y \<in> set (inorder r). ?k < nd_priority y" using Node.prems by auto
    then show ?thesis using 1 by auto
  next
    case 2
    then have "\<forall>y \<in> set (inorder r). ?k < nd_priority y" using Node.prems by auto
    then show ?thesis using Node 2 by auto
  next
    case 3
    then have "\<forall>y \<in> set (inorder l). nd_priority y < ?k" using Node.prems by fastforce
    then show ?thesis using Node 3 by auto
  qed
qed simp

lemma inorder_chop:
  "nodes_sorted (inorder t) \<Longrightarrow> inorder (msg_chop k t) =
     below k (inorder t) @ map (\<lambda>n. n\<lparr>nd_msgs := tl (nd_msgs n)\<rparr>) (at_prio k (inorder t)) @ above k (inorder t)"
proof (induction t)
  case (Node l n r)
  consider "nd_priority n = k" | "k < nd_priority n" | "nd_priority n < k" by linarith
  then show ?case
  proof cases
    case 1
    then have "\<forall>y \<in> set (inorder l). nd_priority y < k" "\<forall>y \<in> set (inorder r). k < nd_priority y" using Node.prems by auto
    then show ?thesis using 1 by auto
  next
    case 2
    then have "\<forall>y \<in> set (inorder r). k < nd_priority y" using Node.prems by auto
    then show ?thesis using Node 2 by auto
  next
    case 3
    then have "\<forall>y \<in> set (inorder l). nd_priority y < k" using Node.prems by fastforce
    then show ?thesis using Node 3 by auto
  qed
qed simp

lemma node_at:
  "nodes_sorted (inorder t) \<Longrightarrow> msg_node k t = (case at_prio k (inorder t) of [] \<Rightarrow> None | n # _ \<Rightarrow> Some n)"
proof (induction t)
  case (Node l n r)
  consider "nd_priority n = k" | "k < nd_priority n" | "nd_priority n < k" by linarith
  then show ?case
  proof cases
    case 1
    then have "\<forall>y \<in> set (inorder l). nd_priority y < k" using Node.prems by auto
    then show ?thesis using 1 by auto
  next
    case 2
    then have "\<forall>y \<in> set (inorder r). k < nd_priority y" using Node.prems by auto
    then show ?thesis using Node 2 by auto
  next
    case 3
    then have "\<forall>y \<in> set (inorder l). nd_priority y < k" using Node.prems by fastforce
    then show ?thesis using Node 3 by auto
  qed
qed simp

lemma descend_found: "nodes_sorted (inorder t) \<Longrightarrow> fst (msg_descend k t) \<longleftrightarrow> at_prio k (inorder t) \<noteq> []"
proof (induction t)
  case (Node l n r)
  consider "nd_priority n = k" | "k < nd_priority n" | "nd_priority n < k" by linarith
  then show ?case
  proof cases
    case 2
    then have "\<forall>y \<in> set (inorder r). k < nd_priority y" using Node.prems by auto
    then show ?thesis using Node 2 by auto
  next
    case 3
    then have "\<forall>y \<in> set (inorder l). nd_priority y < k" using Node.prems by fastforce
    then show ?thesis using Node 3 by auto
  qed simp
qed simp

lemma descend_rightmost:
  "nodes_sorted (inorder t) \<Longrightarrow> at_prio k (inorder t) = [] \<Longrightarrow> snd (msg_descend k t) \<longleftrightarrow> above k (inorder t) = []"
proof (induction t)
  case (Node l n r)
  consider "k < nd_priority n" | "nd_priority n < k" using Node.prems(2) by (fastforce split: if_splits)
  then show ?case
  proof cases
    case 2
    then have "\<forall>y \<in> set (inorder l). nd_priority y < k" using Node.prems by fastforce
    then show ?thesis using Node 2 by auto
  qed (use Node in simp)
qed simp

end
