(* ===== verification/MqContent.thy ===== *)
theory MqContent
  imports MqTree
begin

text \<open>
  The content of a queue: the list of its messages in the order of delivery. Inserting and
  taking a message are functions on that list, which the code's tree, pointer to the rightmost
  node, cache and counters implement.
\<close>

section \<open>The abstract queue\<close>

definition node_msgs :: "posix_msg_tree_node list \<Rightarrow> msg_msg list" where
  "node_msgs ns = concat (map nd_msgs (rev ns))"

definition mq_content :: "mqueue_inode_info \<Rightarrow> msg_msg list" where
  "mq_content i = node_msgs (inorder (msg_tree i))"

text \<open>A message goes behind those of its priority and of the higher ones.\<close>

definition mq_enqueue :: "msg_msg \<Rightarrow> msg_msg list \<Rightarrow> msg_msg list" where
  "mq_enqueue m ms = takeWhile (\<lambda>x. m_type m \<le> m_type x) ms @ m # dropWhile (\<lambda>x. m_type m \<le> m_type x) ms"

definition top :: "posix_msg_tree_node list \<Rightarrow> int option" where
  "top ns = (case rev ns of [] \<Rightarrow> None | n # _ \<Rightarrow> Some (nd_priority n))"

definition nodes_full :: "posix_msg_tree_node list \<Rightarrow> bool" where
  "nodes_full ns \<longleftrightarrow> (\<forall>n \<in> set ns. nd_msgs n \<noteq> [] \<and> (\<forall>m \<in> set (nd_msgs n). m_type m = nd_priority n))"

definition tree_ok :: "mqueue_inode_info \<Rightarrow> bool" where
  "tree_ok i \<longleftrightarrow> nodes_sorted (inorder (msg_tree i)) \<and> nodes_full (inorder (msg_tree i))
     \<and> msg_tree_rightmost i = top (inorder (msg_tree i))"

definition counts_ok :: "mqueue_inode_info \<Rightarrow> bool" where
  "counts_ok i \<longleftrightarrow> mq_curmsgs i = int (length (mq_content i)) \<and> qsize i = of_nat (sum_list (map m_ts (mq_content i)))"

definition mq_wf :: "mqueue_inode_info \<Rightarrow> bool" where
  "mq_wf i \<longleftrightarrow> tree_ok i \<and> counts_ok i"

text \<open>What the operations on the messages leave alone.\<close>

definition mq_rest :: "mqueue_inode_info \<Rightarrow> mqueue_inode_info" where
  "mq_rest i = i\<lparr>msg_tree := Leaf, msg_tree_rightmost := None, node_cache := False, mq_curmsgs := 0, qsize := 0\<rparr>"

lemma node_msgs_simps [simp]:
  "node_msgs [] = []" "node_msgs (n # ns) = node_msgs ns @ nd_msgs n" "node_msgs (xs @ ys) = node_msgs ys @ node_msgs xs"
  by (simp_all add: node_msgs_def)

lemma nodes_full_simps [simp]:
  "nodes_full []" "nodes_full (n # ns) \<longleftrightarrow> nd_msgs n \<noteq> [] \<and> (\<forall>m \<in> set (nd_msgs n). m_type m = nd_priority n) \<and> nodes_full ns"
  "nodes_full (xs @ ys) \<longleftrightarrow> nodes_full xs \<and> nodes_full ys"
  by (auto simp: nodes_full_def)

lemma top_simps [simp]: "top [] = None" "top (ns @ [n]) = Some (nd_priority n)"
  "ys \<noteq> [] \<Longrightarrow> top (xs @ ys) = top ys" "top [n] = Some (nd_priority n)"
  "ys \<noteq> [] \<Longrightarrow> top (n # ys) = top ys"
proof -
  show "top [] = None" "top (ns @ [n]) = Some (nd_priority n)" "top [n] = Some (nd_priority n)" by (simp_all add: top_def)
  assume "ys \<noteq> []"
  then show "top (xs @ ys) = top ys" "top (n # ys) = top ys" by (cases ys rule: rev_cases; simp add: top_def)+
qed

lemma node_msgs_type:
  assumes "nodes_full ns" "m \<in> set (node_msgs ns)"
  shows "\<exists>n \<in> set ns. m_type m = nd_priority n"
  using assms by (auto simp: node_msgs_def nodes_full_def)

lemma enqueue_split:
  assumes "\<forall>x \<in> set hi. m_type m \<le> m_type x" "\<forall>x \<in> set lo. m_type x < m_type m"
  shows "mq_enqueue m (hi @ lo) = hi @ m # lo"
proof -
  have "takeWhile (\<lambda>x. m_type m \<le> m_type x) (hi @ lo) = hi" "dropWhile (\<lambda>x. m_type m \<le> m_type x) (hi @ lo) = lo"
    using assms by (cases lo; simp add: not_le)+
  then show ?thesis by (simp add: mq_enqueue_def)
qed

text \<open>A message at the tail of its node is the message in its place.\<close>

lemma content_enqueue:
  assumes full: "nodes_full ns" and k: "k = m_type m" and c: "\<forall>x \<in> set c. m_type x = k"
    and ns: "node_msgs ns = node_msgs (above k ns) @ c @ node_msgs (below k ns)"
  shows "node_msgs (above k ns) @ c @ m # node_msgs (below k ns) = mq_enqueue m (node_msgs ns)"
proof -
  have fu: "nodes_full (above k ns)" "nodes_full (below k ns)" using full by (auto simp: nodes_full_def cut_mem)
  have "\<forall>x \<in> set (node_msgs (above k ns) @ c). m_type m \<le> m_type x"
    using node_msgs_type [OF fu(1)] c k by (fastforce simp: cut_mem)
  moreover have "\<forall>x \<in> set (node_msgs (below k ns)). m_type x < m_type m"
    using node_msgs_type [OF fu(2)] k by (fastforce simp: cut_mem)
  ultimately show ?thesis using enqueue_split [of "node_msgs (above k ns) @ c" m "node_msgs (below k ns)"] ns by simp
qed

lemma pair_fst_eq: "x = (a, b) \<Longrightarrow> x = (c, d) \<Longrightarrow> a = c"
  by simp

section \<open>Inserting a message\<close>

lemma insert_found:
  assumes s: "nodes_sorted ns" and f: "nodes_full ns" and n: "at_prio (m_type m) ns = [n]"
  defines "ns' \<equiv> below (m_type m) ns @ [n\<lparr>nd_msgs := nd_msgs n @ [m]\<rparr>] @ above (m_type m) ns"
  shows "nodes_sorted ns'" "nodes_full ns'" "top ns' = top ns" "node_msgs ns' = mq_enqueue m (node_msgs ns)"
proof -
  let ?k = "m_type m"
  note cut = cut_sorted [OF s, of ?k, unfolded n]
  have k: "nd_priority n = ?k" "\<forall>x \<in> set (nd_msgs n). m_type x = ?k"
    using n f cut_mem(3) [of n ?k ns] by (auto simp: nodes_full_def)
  show "nodes_sorted ns'" using s k(1) unfolding ns'_def by (subst (asm) cut) (auto simp: cut_mem)
  show "nodes_full ns'" using f k unfolding ns'_def by (auto simp: nodes_full_def cut_mem)
  show "top ns' = top ns"
    unfolding ns'_def by (subst (3) cut) (cases "above ?k ns = []"; simp)
  show "node_msgs ns' = mq_enqueue m (node_msgs ns)"
    using content_enqueue [OF f refl k(2)] arg_cong [OF cut, of node_msgs] by (simp add: ns'_def)
qed

lemma insert_fresh:
  assumes s: "nodes_sorted ns" and f: "nodes_full ns" and n: "at_prio (m_type m) ns = []"
  defines "ns' \<equiv> below (m_type m) ns @ [\<lparr>nd_priority = m_type m, nd_msgs = [m]\<rparr>] @ above (m_type m) ns"
  shows "nodes_sorted ns'" "nodes_full ns'" "top ns' = (if above (m_type m) ns = [] then Some (m_type m) else top ns)"
    "node_msgs ns' = mq_enqueue m (node_msgs ns)"
proof -
  let ?k = "m_type m"
  note cut = cut_sorted [OF s, of ?k, unfolded n]
  show "nodes_sorted ns'" using s unfolding ns'_def by (subst (asm) cut) (auto simp: cut_mem)
  show "nodes_full ns'" using f unfolding ns'_def by (auto simp: nodes_full_def cut_mem)
  show "top ns' = (if above (m_type m) ns = [] then Some (m_type m) else top ns)"
    unfolding ns'_def by (subst (4) cut) simp
  have "node_msgs ns = node_msgs (above ?k ns) @ [] @ node_msgs (below ?k ns)" using arg_cong [OF cut, of node_msgs] by simp
  from content_enqueue [OF f refl _ this] show "node_msgs ns' = mq_enqueue m (node_msgs ns)" by (simp add: ns'_def)
qed

lemma enqueue_counts: "length (mq_enqueue m ms) = Suc (length ms)" "sum_list (map m_ts (mq_enqueue m ms)) = m_ts m + sum_list (map m_ts ms)"
  "mset (mq_enqueue m ms) = add_mset m (mset ms)"
proof -
  let ?P = "\<lambda>x. m_type m \<le> m_type x"
  have ms: "ms = takeWhile ?P ms @ dropWhile ?P ms" by simp
  show "length (mq_enqueue m ms) = Suc (length ms)" unfolding mq_enqueue_def by (subst (3) ms) (simp only: length_append list.size)
  show "sum_list (map m_ts (mq_enqueue m ms)) = m_ts m + sum_list (map m_ts ms)"
    unfolding mq_enqueue_def by (subst (3) ms) (simp only: map_append sum_list_append list.map sum_list.Cons add.left_commute)
  show "mset (mq_enqueue m ms) = add_mset m (mset ms)"
    unfolding mq_enqueue_def by (subst (3) ms) (simp only: mset_append mset.simps union_mset_add_mset_right)
qed

lemma msg_insert_wf:
  assumes rb: "rb_ok (qe_rb e)" and wf: "mq_wf i" and call: "msg_insert e m i = (i', r)"
  shows "r = None \<Longrightarrow> mq_wf i' \<and> mq_content i' = mq_enqueue m (mq_content i) \<and> mq_curmsgs i' = mq_curmsgs i + 1 \<and> mq_rest i' = mq_rest i"
    "r = Some err \<Longrightarrow> i' = i \<and> err = ENOMEM \<and> \<not> node_cache i \<and> \<not> qe_atomic e"
proof -
  let ?ns = "inorder (msg_tree i)" and ?k = "m_type m"
  have s: "nodes_sorted ?ns" and f: "nodes_full ?ns" and t: "msg_tree_rightmost i = top ?ns" and c: "counts_ok i"
    using wf by (auto simp: mq_wf_def tree_ok_def)
  have d: "fst (msg_descend ?k (msg_tree i)) \<longleftrightarrow> at_prio ?k ?ns \<noteq> []" by (rule descend_found [OF s])
  have fin: "mq_wf j \<and> mq_content j = mq_enqueue m (mq_content i) \<and> mq_curmsgs j = mq_curmsgs i + 1"
    if "nodes_sorted (inorder (msg_tree j))" "nodes_full (inorder (msg_tree j))" "msg_tree_rightmost j = top (inorder (msg_tree j))"
      "node_msgs (inorder (msg_tree j)) = mq_enqueue m (node_msgs ?ns)" "mq_curmsgs j = mq_curmsgs i + 1" "qsize j = qsize i + of_nat (m_ts m)" for j
    using that c by (simp add: mq_wf_def tree_ok_def counts_ok_def mq_content_def enqueue_counts)
  show "i' = i \<and> err = ENOMEM \<and> \<not> node_cache i \<and> \<not> qe_atomic e" if "r = Some err"
    using call that by (auto simp: msg_insert_def Let_def split: prod.splits bool.splits if_splits)
  assume r: "r = None"
  show "mq_wf i' \<and> mq_content i' = mq_enqueue m (mq_content i) \<and> mq_curmsgs i' = mq_curmsgs i + 1 \<and> mq_rest i' = mq_rest i"
  proof (cases "at_prio ?k ?ns = []")
    case False
    then obtain n where n: "at_prio ?k ?ns = [n]" using at_prio_one [OF s] by blast
    have i': "i' = i\<lparr>msg_tree := msg_append m (msg_tree i), mq_curmsgs := mq_curmsgs i + 1, qsize := qsize i + of_nat (m_ts m)\<rparr>"
    proof -
      obtain b where "msg_descend ?k (msg_tree i) = (True, b)" using d False by (metis prod.collapse)
      then have "msg_insert e m i = (i\<lparr>msg_tree := msg_append m (msg_tree i), mq_curmsgs := mq_curmsgs i + 1, qsize := qsize i + of_nat (m_ts m)\<rparr>, None)"
        by (simp add: msg_insert_def)
      with call show ?thesis by (rule pair_fst_eq)
    qed
    have F: "inorder (msg_tree i') = below ?k ?ns @ [n\<lparr>nd_msgs := nd_msgs n @ [m]\<rparr>] @ above ?k ?ns"
      "msg_tree_rightmost i' = top ?ns" "mq_curmsgs i' = mq_curmsgs i + 1" "qsize i' = qsize i + of_nat (m_ts m)" "mq_rest i' = mq_rest i"
      using inorder_append [OF s, of m, unfolded n list.map] t by (simp_all add: i' mq_rest_def)
    note I = insert_found [OF s f n, folded F(1)]
    show ?thesis using fin [OF I(1,2) trans [OF F(2) I(3) [symmetric]] I(4) F(3,4)] F(5) by simp
  next
    case True
    let ?leaf = "\<lparr>nd_priority = ?k, nd_msgs = []\<rparr>"
    let ?t = "rb_insert_color (qe_rb e) ?k (msg_link ?leaf (msg_tree i))"
    have di: "msg_descend ?k (msg_tree i) = (False, above ?k ?ns = [])"
      by (rule prod_eqI) (use d descend_rightmost [OF s True] True in simp_all)
    have i': "i' = i\<lparr>node_cache := False, msg_tree_rightmost := (if above ?k ?ns = [] then Some ?k else msg_tree_rightmost i),
       msg_tree := msg_append m ?t, mq_curmsgs := mq_curmsgs i + 1, qsize := qsize i + of_nat (m_ts m)\<rparr>"
    proof (cases "\<not> node_cache i \<and> \<not> qe_atomic e")
      case True
      then have "msg_insert e m i = (i, Some ENOMEM)" by (simp add: msg_insert_def di)
      then show ?thesis using call r by simp
    next
      case False
      then have "msg_insert e m i = (i\<lparr>node_cache := False, msg_tree_rightmost := (if above ?k ?ns = [] then Some ?k else msg_tree_rightmost i),
          msg_tree := msg_append m ?t, mq_curmsgs := mq_curmsgs i + 1, qsize := qsize i + of_nat (m_ts m)\<rparr>, None)"
        unfolding msg_insert_def di by (simp add: Let_def)
      with call show ?thesis by (rule pair_fst_eq)
    qed
    have col: "inorder ?t = below ?k ?ns @ [?leaf] @ above ?k ?ns"
      using rb inorder_link [OF s, of ?leaf] True by (simp add: rb_ok_def)
    have "nodes_sorted (inorder ?t)" using s unfolding col by (subst (asm) cut_sorted [OF s, of ?k]) (auto simp: cut_mem True)
    from inorder_append [OF this, of m] have ino: "inorder (msg_append m ?t) = below ?k ?ns @ [\<lparr>nd_priority = ?k, nd_msgs = [m]\<rparr>] @ above ?k ?ns"
      unfolding col by (simp add: cut_defs True [unfolded at_prio_def])
    have F: "inorder (msg_tree i') = below ?k ?ns @ [\<lparr>nd_priority = ?k, nd_msgs = [m]\<rparr>] @ above ?k ?ns"
      "msg_tree_rightmost i' = (if above ?k ?ns = [] then Some ?k else top ?ns)" "mq_curmsgs i' = mq_curmsgs i + 1"
      "qsize i' = qsize i + of_nat (m_ts m)" "mq_rest i' = mq_rest i"
      using ino t by (simp_all add: i' mq_rest_def)
    note I = insert_fresh [OF s f True, folded F(1)]
    show ?thesis using fin [OF I(1,2) trans [OF F(2) I(3) [symmetric]] I(4) F(3,4)] F(5) by simp
  qed
qed

section \<open>Taking a message\<close>

lemma node_msgs_last: "nodes_full (ns @ [n]) \<Longrightarrow> node_msgs (ns @ [n]) = nd_msgs n @ node_msgs ns"
  by simp

lemma top_None: "top ns = None \<longleftrightarrow> ns = []"
  by (cases ns rule: rev_cases) simp_all

lemma before_last: "nodes_sorted (ns @ [n]) \<Longrightarrow> before (nd_priority n) (ns @ [n]) = top ns"
proof -
  assume "nodes_sorted (ns @ [n])"
  then have "\<forall>x \<in> set ns. nd_priority x \<noteq> nd_priority n" by fastforce
  then have "takeWhile (\<lambda>x. nd_priority x \<noteq> nd_priority n) (ns @ [n]) = ns" by simp
  then show ?thesis by (simp add: before_def top_def)
qed

lemma filter_last: "nodes_sorted (ns @ [n]) \<Longrightarrow> filter (\<lambda>x. nd_priority x \<noteq> nd_priority n) (ns @ [n]) = ns"
proof -
  assume "nodes_sorted (ns @ [n])"
  then have "\<forall>x \<in> set ns. nd_priority x \<noteq> nd_priority n" by fastforce
  then show ?thesis by simp
qed

lemma msg_get_wf:
  assumes rb: "rb_ok (qe_rb e)" and wf: "mq_wf i"
  shows "mq_content i = [] \<Longrightarrow> msg_get e i = (i, None)"
    "mq_content i = m # ms \<Longrightarrow> \<exists>i'. msg_get e i = (i', Some m) \<and> mq_wf i' \<and> mq_content i' = ms
       \<and> mq_curmsgs i' = mq_curmsgs i - 1 \<and> mq_rest i' = mq_rest i"
proof -
  let ?ns = "inorder (msg_tree i)"
  have s: "nodes_sorted ?ns" and f: "nodes_full ?ns" and t: "msg_tree_rightmost i = top ?ns" and c: "counts_ok i"
    using wf by (auto simp: mq_wf_def tree_ok_def)
  show "msg_get e i = (i, None)" if e: "mq_content i = []"
  proof -
    have "?ns = []" using e f by (cases "?ns" rule: rev_cases) (auto simp: mq_content_def)
    then show ?thesis using t c e by (simp add: msg_get_def counts_ok_def)
  qed
  assume e: "mq_content i = m # ms"
  then obtain ns n where ns: "?ns = ns @ [n]" by (cases "?ns" rule: rev_cases) (auto simp: mq_content_def)
  obtain rest where n: "nd_msgs n = m # rest" "ms = rest @ node_msgs ns" and ty: "\<forall>x \<in> set rest. m_type x = nd_priority n"
    using e f ns by (cases "nd_msgs n") (auto simp: mq_content_def)
  let ?k = "nd_priority n"
  have so: "nodes_sorted (ns @ [n])" "nodes_sorted ns" "\<forall>x \<in> set ns. nd_priority x < ?k" using s ns by auto
  have cut: "below ?k ?ns = ns" "at_prio ?k ?ns = [n]" "above ?k ?ns = []" using so(3) ns by auto
  have r: "msg_tree_rightmost i = Some ?k" using t ns by simp
  have nd: "msg_node ?k (msg_tree i) = Some n" using node_at [OF s, of ?k] cut by simp
  define i1 where "i1 = i\<lparr>msg_tree := msg_chop ?k (msg_tree i)\<rparr>"
  define i2 where "i2 = (if rest = [] then msg_tree_erase e ?k i1 else i1)"
  define i' where "i' = i2\<lparr>mq_curmsgs := mq_curmsgs i2 - 1, qsize := qsize i2 - of_nat (m_ts m)\<rparr>"
  have get: "msg_get e i = (i', Some m)"
    by (simp add: msg_get_def r nd n Let_def i'_def i2_def i1_def)
  have ino1: "inorder (msg_tree i1) = ns @ [n\<lparr>nd_msgs := rest\<rparr>]"
    using inorder_chop [OF s, of ?k] cut n by (simp add: i1_def)
  have so1: "nodes_sorted (ns @ [n\<lparr>nd_msgs := rest\<rparr>])" using so by simp
  have "inorder (msg_tree i2) = (if rest = [] then ns else ns @ [n\<lparr>nd_msgs := rest\<rparr>]) \<and> msg_tree_rightmost i2 = top (inorder (msg_tree i2))"
  proof (cases "rest = []")
    case True
    have rb1: "inorder (rb_erase (qe_rb e) ?k (msg_tree i1)) = ns" "rb_prev (qe_rb e) ?k (msg_tree i1) = top ns"
      using rb filter_last [OF so1] before_last [OF so1] by (simp_all add: rb_ok_def ino1)
    have "msg_tree i2 = rb_erase (qe_rb e) ?k (msg_tree i1)" "msg_tree_rightmost i2 = rb_prev (qe_rb e) ?k (msg_tree i1)"
      using True r by (simp_all add: i2_def msg_tree_erase_def Let_def i1_def)
    then show ?thesis using True rb1 by simp
  next
    case False
    then show ?thesis using ino1 r by (simp add: i2_def i1_def)
  qed
  then have ino: "inorder (msg_tree i') = (if rest = [] then ns else ns @ [n\<lparr>nd_msgs := rest\<rparr>])"
    and rm: "msg_tree_rightmost i' = top (inorder (msg_tree i'))" by (simp_all add: i'_def)
  have fields: "mq_curmsgs i' = mq_curmsgs i - 1" "qsize i' = qsize i - of_nat (m_ts m)" "mq_rest i' = mq_rest i"
    by (simp_all add: i'_def i2_def i1_def msg_tree_erase_def Let_def mq_rest_def)
  have co: "mq_content i' = ms" using n ino by (simp add: mq_content_def)
  have "nodes_sorted (inorder (msg_tree i'))" "nodes_full (inorder (msg_tree i'))" using so f ns ty n by (auto simp: ino)
  then have "mq_wf i'" using rm c e co fields by (simp add: mq_wf_def tree_ok_def counts_ok_def)
  then show "\<exists>i'. msg_get e i = (i', Some m) \<and> mq_wf i' \<and> mq_content i' = ms
       \<and> mq_curmsgs i' = mq_curmsgs i - 1 \<and> mq_rest i' = mq_rest i" using get co fields by blast
qed

end
