(* ===== verification/MqWait.thy ===== *)
theory MqWait
  imports MqContent
begin

text \<open>
  The sleeping tasks of a queue: which of them are on its two lists, what those that were told
  they are done carry, and how going to sleep, a hand-over and the way out change that.
\<close>

type_synonym mq_sleep = "nat \<rightharpoonup> wait_dir"

definition told :: "mq_stacks \<Rightarrow> nat \<Rightarrow> bool" where
  "told st t \<longleftrightarrow> (\<exists>w. st t = Some w \<and> ew_ready w)"

definition msg_of :: "mq_stacks \<Rightarrow> nat \<Rightarrow> msg_msg option" where
  "msg_of st t = Option.bind (st t) ew_msg"

definition done_tasks :: "wait_dir \<Rightarrow> mq_stacks \<Rightarrow> mq_sleep \<Rightarrow> nat set" where
  "done_tasks sr st W = {t. W t = Some sr \<and> told st t}"

text \<open>The messages of the tasks that are done but have not run yet.\<close>

definition done_msgs :: "wait_dir \<Rightarrow> mq_stacks \<Rightarrow> mq_sleep \<Rightarrow> msg_msg multiset" where
  "done_msgs sr st W = (\<Sum>t \<in> done_tasks sr st W. {#the (msg_of st t)#})"

definition waits_ok :: "(wait_dir \<Rightarrow> nat list) \<Rightarrow> mq_stacks \<Rightarrow> mq_sleep \<Rightarrow> bool" where
  "waits_ok q st W \<longleftrightarrow> finite (dom W) \<and> dom st = dom W
     \<and> (\<forall>sr. distinct (q sr) \<and> set (q sr) = {t. W t = Some sr \<and> \<not> told st t})
     \<and> (\<forall>t. W t = Some SEND \<longrightarrow> msg_of st t \<noteq> None) \<and> (\<forall>t. W t = Some RECV \<and> told st t \<longrightarrow> msg_of st t \<noteq> None)"

lemma waits_parts:
  assumes "waits_ok q st W"
  shows "finite (dom W)" "dom st = dom W" "distinct (q sr)" "t \<in> set (q sr) \<longleftrightarrow> W t = Some sr \<and> \<not> told st t"
    "W t = Some SEND \<Longrightarrow> msg_of st t \<noteq> None" "W t = Some RECV \<Longrightarrow> told st t \<Longrightarrow> msg_of st t \<noteq> None"
  using assms unfolding waits_ok_def by blast+

lemma told_upd: "told (st(t \<mapsto> w)) x \<longleftrightarrow> (if x = t then ew_ready w else told st x)" "told (st(t := None)) x \<longleftrightarrow> x \<noteq> t \<and> told st x"
  by (simp_all add: told_def)

lemma msg_of_upd: "msg_of (st(t \<mapsto> w)) x = (if x = t then ew_msg w else msg_of st x)"
  "msg_of (st(t := None)) x = (if x = t then None else msg_of st x)"
  by (simp_all add: msg_of_def)

lemma wq_insert_set: "set (wq_insert p t ws) = insert t (set ws)" "t \<notin> set ws \<Longrightarrow> distinct (wq_insert p t ws) \<longleftrightarrow> distinct ws"
proof -
  show *: "set (wq_insert p t ws) = insert t (set ws)" for ws by (induction ws) auto
  show "t \<notin> set ws \<Longrightarrow> distinct (wq_insert p t ws) \<longleftrightarrow> distinct ws" by (induction ws) (auto simp: *)
qed

lemma done_finite: "waits_ok q st W \<Longrightarrow> finite (done_tasks sr st W)"
  by (rule finite_subset [of _ "dom W"]) (auto simp: done_tasks_def waits_ok_def)

lemma done_msgs_cong:
  assumes "done_tasks sr st' W' = done_tasks sr st W" "\<And>t. t \<in> done_tasks sr st W \<Longrightarrow> msg_of st' t = msg_of st t"
  shows "done_msgs sr st' W' = done_msgs sr st W"
  using assms unfolding done_msgs_def by (metis (no_types, lifting) sum.cong)

text \<open>Going to sleep.\<close>

lemma waits_enter:
  assumes w: "waits_ok q st W" and t: "W t = None" and m: "sr = SEND \<Longrightarrow> m \<noteq> None"
  defines "st' \<equiv> st(t \<mapsto> \<lparr>ew_msg = m, ew_ready = False\<rparr>)" and "W' \<equiv> W(t \<mapsto> sr)"
  shows "waits_ok (q(sr := wq_insert p t (q sr))) st' W'" "done_msgs d st' W' = done_msgs d st W"
proof -
  note P = waits_parts [OF w]
  have n: "t \<notin> set (q d)" for d using P(4) [of t d] t by simp
  have "dom st' = dom W'" using P(2) by (simp add: st'_def W'_def)
  moreover have "distinct ((q(sr := wq_insert p t (q sr))) d)" for d using P(3) n wq_insert_set(2) by simp
  moreover have "set ((q(sr := wq_insert p t (q sr))) d) = {x. W' x = Some d \<and> \<not> told st' x}" for d
    using P(4) t by (auto simp: wq_insert_set(1) st'_def W'_def told_upd)
  ultimately show "waits_ok (q(sr := wq_insert p t (q sr))) st' W'"
    using P(1,5,6) m unfolding waits_ok_def by (auto simp: st'_def W'_def told_upd msg_of_upd)
  show "done_msgs d st' W' = done_msgs d st W"
    by (rule done_msgs_cong) (use t in \<open>auto simp: done_tasks_def st'_def W'_def told_upd msg_of_upd\<close>)
qed

text \<open>A hand-over to a task on the list.\<close>

lemma waits_told:
  assumes w: "waits_ok q st W" and t: "t \<in> set (q sr)" and s: "st' = st(t \<mapsto> \<lparr>ew_msg = Some m, ew_ready = True\<rparr>)"
  shows "waits_ok (q(sr := remove1 t (q sr))) st' W" "done_msgs d st' W = (if d = sr then add_mset m (done_msgs d st W) else done_msgs d st W)"
proof -
  note P = waits_parts [OF w]
  have W: "W t = Some sr" "\<not> told st t" using P(4) t by blast+
  have "dom st' = dom W" using P(2) W(1) by (auto simp: s)
  moreover have "distinct ((q(sr := remove1 t (q sr))) d)" for d using P(3) by simp
  moreover have "set ((q(sr := remove1 t (q sr))) d) = {x. W x = Some d \<and> \<not> told st' x}" for d
    using P(3,4) W by (auto simp: s told_upd)
  ultimately show "waits_ok (q(sr := remove1 t (q sr))) st' W"
    using P(1,5,6) unfolding waits_ok_def by (auto simp: s told_upd msg_of_upd)
  show "done_msgs d st' W = (if d = sr then add_mset m (done_msgs d st W) else done_msgs d st W)"
  proof (cases "d = sr")
    case True
    have i: "done_tasks sr st' W = insert t (done_tasks sr st W)" using W by (auto simp: done_tasks_def s told_upd)
    have n: "t \<notin> done_tasks sr st W" using W by (simp add: done_tasks_def)
    have "done_msgs sr st' W = {#the (msg_of st' t)#} + (\<Sum>x \<in> done_tasks sr st W. {#the (msg_of st' x)#})"
      unfolding done_msgs_def i using n done_finite [OF w] by simp
    also have "(\<Sum>x \<in> done_tasks sr st W. {#the (msg_of st' x)#}) = done_msgs sr st W"
      unfolding done_msgs_def by (rule sum.cong) (use n in \<open>auto simp: s msg_of_upd\<close>)
    finally have "done_msgs sr st' W = add_mset (the (msg_of st' t)) (done_msgs sr st W)" by simp
    moreover have "msg_of st' t = Some m" by (simp add: s msg_of_upd)
    ultimately show ?thesis using True by simp
  next
    case False
    have "done_msgs d st' W = done_msgs d st W"
      by (rule done_msgs_cong) (use W False in \<open>auto simp: done_tasks_def s told_upd msg_of_upd\<close>)
    then show ?thesis using False by simp
  qed
qed

text \<open>Leaving, done or given up.\<close>

lemma waits_leave_done:
  assumes w: "waits_ok q st W" and t: "W t = Some sr" "told st t"
  shows "waits_ok q (st(t := None)) (W(t := None))"
    "\<exists>m. msg_of st t = Some m \<and> done_msgs sr st W = add_mset m (done_msgs sr (st(t := None)) (W(t := None)))"
    "d \<noteq> sr \<Longrightarrow> done_msgs d (st(t := None)) (W(t := None)) = done_msgs d st W"
proof -
  note P = waits_parts [OF w]
  have "set (q d) = {x. (W(t := None)) x = Some d \<and> \<not> told (st(t := None)) x}" for d using P(4) t by (auto simp: told_upd)
  then show "waits_ok q (st(t := None)) (W(t := None))"
    using P(1,2,3,5,6) unfolding waits_ok_def by (auto simp: told_upd msg_of_upd)
  obtain m where m: "msg_of st t = Some m" using P(5,6) [of t] t by (cases sr) auto
  have i: "done_tasks sr st W = insert t (done_tasks sr (st(t := None)) (W(t := None)))" using t by (auto simp: done_tasks_def told_upd)
  have n: "t \<notin> done_tasks sr (st(t := None)) (W(t := None))" by (simp add: done_tasks_def told_upd)
  have "finite (done_tasks sr (st(t := None)) (W(t := None)))" using i done_finite [OF w, of sr] by simp
  then have "done_msgs sr st W = {#m#} + (\<Sum>x \<in> done_tasks sr (st(t := None)) (W(t := None)). {#the (msg_of st x)#})"
    unfolding done_msgs_def i using n m by simp
  also have "(\<Sum>x \<in> done_tasks sr (st(t := None)) (W(t := None)). {#the (msg_of st x)#}) = done_msgs sr (st(t := None)) (W(t := None))"
    unfolding done_msgs_def by (rule sum.cong) (use n in \<open>auto simp: msg_of_upd\<close>)
  finally show "\<exists>m. msg_of st t = Some m \<and> done_msgs sr st W = add_mset m (done_msgs sr (st(t := None)) (W(t := None)))"
    using m by simp
  show "done_msgs d (st(t := None)) (W(t := None)) = done_msgs d st W" if "d \<noteq> sr"
    by (rule done_msgs_cong) (use t that in \<open>auto simp: done_tasks_def told_upd msg_of_upd\<close>)
qed

lemma waits_give_up:
  assumes w: "waits_ok q st W" and t: "W t = Some sr" "\<not> told st t"
  shows "waits_ok (q(sr := remove1 t (q sr))) (st(t := None)) (W(t := None))" "done_msgs d (st(t := None)) (W(t := None)) = done_msgs d st W"
proof -
  note P = waits_parts [OF w]
  have "set ((q(sr := remove1 t (q sr))) d) = {x. (W(t := None)) x = Some d \<and> \<not> told (st(t := None)) x}" for d
    using P(3,4) t by (auto simp: told_upd)
  moreover have "distinct ((q(sr := remove1 t (q sr))) d)" for d using P(3) by simp
  ultimately show "waits_ok (q(sr := remove1 t (q sr))) (st(t := None)) (W(t := None))"
    using P(1,2,5,6) unfolding waits_ok_def by (auto simp: told_upd msg_of_upd)
  show "done_msgs d (st(t := None)) (W(t := None)) = done_msgs d st W"
    by (rule done_msgs_cong) (use t in \<open>auto simp: done_tasks_def told_upd msg_of_upd\<close>)
qed

end
