(* ===== verification/MqSys.thy ===== *)
theory MqSys
  imports MqWait
begin

text \<open>
  One POSIX queue with all its users: the sections of the calls of all tasks in any order, from a
  fresh queue. The state is the queue, the stacks of the sleeping tasks, who sleeps in which
  call, and as a record of the past the messages whose send was answered with success and the
  messages that receives returned. \<open>ok\<close> says that nodes can always be allocated.
\<close>

section \<open>Steps\<close>

type_synonym mq_sys = "mqueue_inode_info \<times> mq_stacks \<times> mq_sleep \<times> msg_msg multiset \<times> msg_msg multiset"

abbreviation mq_cur :: "mq_env \<Rightarrow> nat" where "mq_cur e \<equiv> cur_task (qe_task e)"

definition mq_env_ok :: "bool \<Rightarrow> mq_env \<Rightarrow> bool" where
  "mq_env_ok ok e \<longleftrightarrow> rb_ok (qe_rb e) \<and> (ok \<longrightarrow> qe_atomic e)"

definition mq_fresh :: "mqueue_inode_info \<Rightarrow> bool" where
  "mq_fresh i \<longleftrightarrow> msg_tree i = Leaf \<and> msg_tree_rightmost i = None \<and> mq_curmsgs i = 0 \<and> qsize i = 0 \<and> 0 < mq_maxmsg i
     \<and> notify_owner i = None \<and> e_wait_q i = (\<lambda>_. []) \<and> \<not> mq_oops i"

text \<open>The message of a send that was answered with success, and that of a receive.\<close>

definition accepted :: "msg_msg result \<Rightarrow> nat \<Rightarrow> int \<Rightarrow> unit result \<Rightarrow> msg_msg multiset" where
  "accepted loaded len prio r = (case (loaded, r) of (Inr m, Inr _) \<Rightarrow> {#sent_msg m len prio#} | _ \<Rightarrow> {#})"

definition delivered :: "msg_msg result \<Rightarrow> msg_msg multiset" where
  "delivered r = (case r of Inr m \<Rightarrow> {#m#} | Inl err \<Rightarrow> {#})"

lemma delivered_simps [simp]: "delivered (Inl err) = {#}" "delivered (Inr m) = {#m#}"
  by (simp_all add: delivered_def)

inductive mq_step :: "bool \<Rightarrow> mq_sys \<Rightarrow> mq_sys \<Rightarrow> bool" for ok where
  send: "\<lbrakk>mq_env_ok ok e; W (mq_cur e) = None; do_mq_timedsend e fd len prio loaded i st = out; mo_step out = MqReturn r\<rbrakk>
    \<Longrightarrow> mq_step ok (i, st, W, A, D) (mo_info out, mo_stacks out, W, A + accepted loaded len prio r, D)"
| send_sleep: "\<lbrakk>mq_env_ok ok e; W (mq_cur e) = None; do_mq_timedsend e fd len prio loaded i st = out; mo_step out = MqSleep\<rbrakk>
    \<Longrightarrow> mq_step ok (i, st, W, A, D) (mo_info out, mo_stacks out, W(mq_cur e \<mapsto> SEND), A, D)"
| send_resume: "\<lbrakk>W (mq_cur e) = Some SEND; msg_of st (mq_cur e) = Some m; mq_send_resume e timed_out i st = out; mo_step out = MqReturn r\<rbrakk>
    \<Longrightarrow> mq_step ok (i, st, W, A, D) (mo_info out, mo_stacks out, W(mq_cur e := None), if r = Inr () then add_mset m A else A, D)"
| send_again: "\<lbrakk>W (mq_cur e) = Some SEND; mq_send_resume e timed_out i st = out; mo_step out = MqSleep\<rbrakk>
    \<Longrightarrow> mq_step ok (i, st, W, A, D) (mo_info out, mo_stacks out, W, A, D)"
| receive: "\<lbrakk>mq_env_ok ok e; W (mq_cur e) = None; do_mq_timedreceive e fd len i st = out; mo_step out = MqReturn r\<rbrakk>
    \<Longrightarrow> mq_step ok (i, st, W, A, D) (mo_info out, mo_stacks out, W, A, D + delivered r)"
| receive_sleep: "\<lbrakk>mq_env_ok ok e; W (mq_cur e) = None; do_mq_timedreceive e fd len i st = out; mo_step out = MqSleep\<rbrakk>
    \<Longrightarrow> mq_step ok (i, st, W, A, D) (mo_info out, mo_stacks out, W(mq_cur e \<mapsto> RECV), A, D)"
| receive_resume: "\<lbrakk>W (mq_cur e) = Some RECV; mq_receive_resume e timed_out i st = out; mo_step out = MqReturn r\<rbrakk>
    \<Longrightarrow> mq_step ok (i, st, W, A, D) (mo_info out, mo_stacks out, W(mq_cur e := None), A, D + delivered r)"
| receive_again: "\<lbrakk>W (mq_cur e) = Some RECV; mq_receive_resume e timed_out i st = out; mo_step out = MqSleep\<rbrakk>
    \<Longrightarrow> mq_step ok (i, st, W, A, D) (mo_info out, mo_stacks out, W, A, D)"
| notify: "do_mq_notify e fd n cookie i = ((i', ev), r) \<Longrightarrow> mq_step ok (i, st, W, A, D) (i', st, W, A, D)"
| flush: "mqueue_flush_file e i = (i', ev) \<Longrightarrow> mq_step ok (i, st, W, A, D) (i', st, W, A, D)"

definition mq_reachable :: "bool \<Rightarrow> mq_sys \<Rightarrow> bool" where
  "mq_reachable ok x \<longleftrightarrow> (\<exists>i. mq_fresh i \<and> (mq_step ok)\<^sup>*\<^sup>* (i, Map.empty, Map.empty, {#}, {#}) x)"

section \<open>The invariant\<close>

definition cookie_ok :: "mqueue_inode_info \<Rightarrow> bool" where
  "cookie_ok i \<longleftrightarrow> (notify_owner i \<noteq> None \<and> sigev_notify (mq_notify i) = SIGEV_THREAD \<longrightarrow> notify_cookie i \<noteq> None)"

definition mq_base :: "bool \<Rightarrow> mqueue_inode_info \<Rightarrow> bool" where
  "mq_base ok i \<longleftrightarrow> mq_wf i \<and> \<not> mq_oops i \<and> 0 < mq_maxmsg i \<and> mq_curmsgs i \<le> mq_maxmsg i \<and> cookie_ok i
     \<and> (e_wait_q i RECV \<noteq> [] \<longrightarrow> mq_content i = []) \<and> (ok \<and> e_wait_q i SEND \<noteq> [] \<longrightarrow> mq_curmsgs i = mq_maxmsg i)"

text \<open>Every message that was accepted is in the queue, or was handed over.\<close>

definition mq_conserved :: "mqueue_inode_info \<Rightarrow> mq_stacks \<Rightarrow> mq_sleep \<Rightarrow> msg_msg multiset \<Rightarrow> msg_msg multiset \<Rightarrow> bool" where
  "mq_conserved i st W A D \<longleftrightarrow> A + done_msgs SEND st W = D + done_msgs RECV st W + mset (mq_content i)"

definition mq_sys_inv :: "bool \<Rightarrow> mq_sys \<Rightarrow> bool" where
  "mq_sys_inv ok x = (case x of (i, st, W, A, D) \<Rightarrow> mq_base ok i \<and> waits_ok (e_wait_q i) st W \<and> mq_conserved i st W A D)"

lemma rest_fields:
  assumes "mq_rest i' = mq_rest i"
  shows "mq_maxmsg i' = mq_maxmsg i" "e_wait_q i' = e_wait_q i" "mq_oops i' = mq_oops i" "cookie_ok i' = cookie_ok i"
    "notify_owner i' = notify_owner i" "mq_notify i' = mq_notify i" "notify_cookie i' = notify_cookie i"
proof -
  show *: "mq_maxmsg i' = mq_maxmsg i" "e_wait_q i' = e_wait_q i" "mq_oops i' = mq_oops i"
    "notify_owner i' = notify_owner i" "mq_notify i' = mq_notify i" "notify_cookie i' = notify_cookie i"
    using arg_cong [OF assms, of mq_maxmsg] arg_cong [OF assms, of e_wait_q] arg_cong [OF assms, of mq_oops]
      arg_cong [OF assms, of notify_owner] arg_cong [OF assms, of mq_notify] arg_cong [OF assms, of notify_cookie]
    by (simp_all add: mq_rest_def)
  show "cookie_ok i' = cookie_ok i" using * by (simp add: cookie_ok_def)
qed

lemma base_parts:
  assumes "mq_base ok i"
  shows "mq_wf i" "\<not> mq_oops i" "0 < mq_maxmsg i" "mq_curmsgs i \<le> mq_maxmsg i" "cookie_ok i"
    "e_wait_q i RECV \<noteq> [] \<Longrightarrow> mq_content i = []" "ok \<Longrightarrow> e_wait_q i SEND \<noteq> [] \<Longrightarrow> mq_curmsgs i = mq_maxmsg i"
    "mq_curmsgs i = int (length (mq_content i))"
  using assms by (auto simp: mq_base_def mq_wf_def counts_ok_def)

text \<open>Changes that leave the messages and the lists alone.\<close>

lemma same_content:
  assumes "msg_tree i' = msg_tree i" "msg_tree_rightmost i' = msg_tree_rightmost i" "mq_curmsgs i' = mq_curmsgs i" "qsize i' = qsize i"
  shows "mq_content i' = mq_content i" "mq_wf i' = mq_wf i"
  using assms by (simp_all add: mq_content_def mq_wf_def tree_ok_def counts_ok_def)

lemma spare_same: "mq_content (spare_leaf e i) = mq_content i" "mq_wf (spare_leaf e i) = mq_wf i" "mq_rest (spare_leaf e i) = mq_rest i"
  "mq_curmsgs (spare_leaf e i) = mq_curmsgs i"
proof -
  show "mq_content (spare_leaf e i) = mq_content i" "mq_wf (spare_leaf e i) = mq_wf i"
    by (rule same_content; simp add: spare_leaf_def)+
  show "mq_rest (spare_leaf e i) = mq_rest i" "mq_curmsgs (spare_leaf e i) = mq_curmsgs i"
    by (simp_all add: spare_leaf_def mq_rest_def)
qed

lemma spare_base: "mq_base ok (spare_leaf e i) = mq_base ok i"
  using rest_fields [OF spare_same(3), of e i] spare_same [of e i] by (simp add: mq_base_def)

text \<open>Changes of the lists.\<close>

lemma wq_add_same: "mq_content (wq_add e sr i) = mq_content i" "mq_wf (wq_add e sr i) = mq_wf i"
  "e_wait_q (wq_add e sr i) = (e_wait_q i)(sr := wq_insert (qe_prio e) (mq_cur e) (e_wait_q i sr))"
  by (rule same_content, simp_all add: wq_add_def)+

lemma wq_del_same: "mq_content (wq_del sr t i) = mq_content i" "mq_wf (wq_del sr t i) = mq_wf i"
  "e_wait_q (wq_del sr t i) = (e_wait_q i)(sr := remove1 t (e_wait_q i sr))"
  by (rule same_content, simp_all add: wq_del_def)+

lemma wq_del_base: "mq_base ok i \<Longrightarrow> mq_base ok (wq_del sr t i)"
proof -
  assume b: "mq_base ok i"
  have l: "remove1 t xs \<noteq> [] \<Longrightarrow> xs \<noteq> []" for xs :: "nat list" by auto
  note P = base_parts [OF b]
  have "cookie_ok (wq_del sr t i) = cookie_ok i" by (simp add: cookie_ok_def wq_del_def)
  then show ?thesis
    using P(1-5) P(6,7) l unfolding mq_base_def wq_del_same
    by (cases sr) (auto simp: wq_del_def)
qed

section \<open>The sections keep the invariant\<close>

lemma mq_inv_parts:
  assumes "mq_sys_inv ok (i, st, W, A, D)"
  shows "mq_base ok i" "waits_ok (e_wait_q i) st W" "mq_conserved i st W A D"
  using assms by (simp_all add: mq_sys_inv_def)

lemma inv_spare: "mq_sys_inv ok (spare_leaf e i, st, W, A, D) = mq_sys_inv ok (i, st, W, A, D)"
  using rest_fields [OF spare_same(3), of e i] spare_same(1) [of e i]
  by (simp add: mq_sys_inv_def spare_base mq_conserved_def)

text \<open>Going to sleep: senders find the queue full, receivers empty.\<close>

lemma inv_sleep:
  assumes inv: "mq_sys_inv ok (i, st, W, A, D)" and t: "W (mq_cur e) = None" and m: "sr = SEND \<Longrightarrow> m \<noteq> None"
    and full: "sr = SEND \<Longrightarrow> mq_curmsgs i = mq_maxmsg i" and empty: "sr = RECV \<Longrightarrow> mq_curmsgs i = 0"
  shows "mq_sys_inv ok (wq_add e sr i, st(mq_cur e \<mapsto> \<lparr>ew_msg = m, ew_ready = False\<rparr>), W(mq_cur e \<mapsto> sr), A, D)"
proof -
  note P = mq_inv_parts [OF inv] and B = base_parts [OF mq_inv_parts(1) [OF inv]]
  note E = waits_enter [OF P(2) t m]
  have "mq_content i = []" if "sr = RECV" using empty [OF that] B(8) by simp
  then have "mq_base ok (wq_add e sr i)"
    using B(1-7) full unfolding mq_base_def wq_add_same by (cases sr) (auto simp: wq_add_def cookie_ok_def)
  then show ?thesis using E P(3) unfolding mq_sys_inv_def mq_conserved_def by (simp add: wq_add_same)
qed

text \<open>A message put into the queue.\<close>

lemma inv_insert:
  assumes rb: "rb_ok (qe_rb e)" and b: "mq_wf i" and call: "msg_insert e m i = (i', None)"
  shows "mq_wf i'" "mset (mq_content i') = add_mset m (mset (mq_content i))" "mq_curmsgs i' = mq_curmsgs i + 1" "mq_rest i' = mq_rest i"
  using msg_insert_wf(1) [OF rb b call refl] by (simp_all add: enqueue_counts)

lemma do_notify_same:
  assumes "do_notify e i = (i', ev)"
  shows "mq_content i' = mq_content i" "mq_wf i' = mq_wf i" "e_wait_q i' = e_wait_q i" "mq_curmsgs i' = mq_curmsgs i" "mq_maxmsg i' = mq_maxmsg i"
    "cookie_ok i \<Longrightarrow> cookie_ok i' \<and> mq_oops i' = mq_oops i"
proof -
  have "msg_tree i' = msg_tree i \<and> msg_tree_rightmost i' = msg_tree_rightmost i \<and> mq_curmsgs i' = mq_curmsgs i \<and> qsize i' = qsize i
      \<and> e_wait_q i' = e_wait_q i \<and> mq_maxmsg i' = mq_maxmsg i \<and> (cookie_ok i \<longrightarrow> cookie_ok i' \<and> mq_oops i' = mq_oops i)"
    using assms by (auto simp: do_notify_def Let_def cookie_ok_def split: option.splits if_splits)
  then show "mq_content i' = mq_content i" "mq_wf i' = mq_wf i" "e_wait_q i' = e_wait_q i" "mq_curmsgs i' = mq_curmsgs i" "mq_maxmsg i' = mq_maxmsg i"
    "cookie_ok i \<Longrightarrow> cookie_ok i' \<and> mq_oops i' = mq_oops i"
    using same_content [of i' i] by simp_all
qed

lemma base_notified:
  assumes "do_notify e i = (i', ev)" "mq_base ok i"
  shows "mq_base ok i'"
  using do_notify_same [OF assms(1)] base_parts [OF assms(2)] unfolding mq_base_def by auto

lemma first_waiter:
  assumes "wq_get_first_waiter i sr = Some t"
  shows "t \<in> set (e_wait_q i sr)"
  using assms by (cases "e_wait_q i sr" rule: rev_cases) (auto simp: wq_get_first_waiter_def)

lemma no_waiter: "wq_get_first_waiter i sr = None \<longleftrightarrow> e_wait_q i sr = []"
  by (cases "e_wait_q i sr" rule: rev_cases) (auto simp: wq_get_first_waiter_def)

lemma op_told: "\<exists>w. st t = Some w \<Longrightarrow> msg_of st t = Some m \<Longrightarrow> pipelined_op sr t i st = (wq_del sr t i, st(t \<mapsto> \<lparr>ew_msg = Some m, ew_ready = True\<rparr>))"
  by (auto simp: pipelined_op_def msg_of_def)

lemma send_told:
  "\<exists>w. st t = Some w \<Longrightarrow> mq_pipelined_send m t i st = (wq_del RECV t i, st(t \<mapsto> \<lparr>ew_msg = Some m, ew_ready = True\<rparr>))"
  by (auto simp: mq_pipelined_send_def pipelined_op_def)

lemma send_inv:
  assumes inv: "mq_sys_inv ok (i, st, W, A, D)" and e: "mq_env_ok ok e" and t: "W (mq_cur e) = None"
  shows "case mo_step (mq_send e nonblock m i st) of
      MqReturn r \<Rightarrow> mq_sys_inv ok (mo_info (mq_send e nonblock m i st), mo_stacks (mq_send e nonblock m i st), W,
        if r = Inr () then add_mset m A else A, D)
    | MqSleep \<Rightarrow> mq_sys_inv ok (mo_info (mq_send e nonblock m i st), mo_stacks (mq_send e nonblock m i st), W(mq_cur e \<mapsto> SEND), A, D)"
proof -
  define j where "j = spare_leaf e i"
  have inv': "mq_sys_inv ok (j, st, W, A, D)" using inv by (simp add: j_def inv_spare)
  note P = mq_inv_parts [OF inv'] and B = base_parts [OF mq_inv_parts(1) [OF inv']]
  have rb: "rb_ok (qe_rb e)" using e by (simp add: mq_env_ok_def)
  note send = mq_send_def [of e nonblock m i st, unfolded Let_def, folded j_def]
  show ?thesis
  proof (cases "mq_curmsgs j = mq_maxmsg j")
    case full: True
    show ?thesis
    proof (cases nonblock)
      case True
      then show ?thesis unfolding send using full inv' by simp
    next
      case False
      then show ?thesis unfolding send using full inv_sleep [OF inv' t, of SEND "Some m"] by simp
    qed
  next
    case room: False
    show ?thesis
    proof (cases "wq_get_first_waiter j RECV")
      case (Some r)
      have r: "r \<in> set (e_wait_q j RECV)" by (rule first_waiter [OF Some])
      then have "\<exists>w. st r = Some w" using waits_parts(2,4) [OF P(2)] by blast
      note told = send_told [where st = st and t = r and m = m and i = j, OF this]
      note T = waits_told [OF P(2) r refl]
      show ?thesis
        unfolding send using room Some told wq_del_base [OF P(1)] T P(3)
        by (simp add: mq_sys_inv_def wq_del_same mq_conserved_def)
    next
      case None
      then have no: "e_wait_q j RECV = []" by (simp add: no_waiter)
      obtain i' x where ins: "msg_insert e m j = (i', x)" by fastforce
      show ?thesis
      proof (cases x)
        case (Some err)
        then have "i' = j" using msg_insert_wf(2) [OF rb B(1) ins] by blast
        then show ?thesis unfolding send using room None ins Some inv' by simp
      next
        case x: None
        note I = inv_insert [OF rb B(1) ins [unfolded x]] and R = rest_fields [OF inv_insert(4) [OF rb B(1) ins [unfolded x]]]
        obtain i'' ev where n: "do_notify e i' = (i'', ev)" by fastforce
        have "ok \<Longrightarrow> e_wait_q j SEND = []" using B(7) room by blast
        then have "mq_base ok i'" using I R B(2-5) room no unfolding mq_base_def by auto
        then have b: "mq_base ok i''" by (rule base_notified [OF n])
        note N = do_notify_same [OF n]
        have "mq_sys_inv ok (i'', st, W, add_mset m A, D)"
          using b P(2,3) I(2) N(1,3) R(2) by (simp add: mq_sys_inv_def mq_conserved_def)
        then show ?thesis unfolding send using room None ins x n by simp
      qed
    qed
  qed
qed

lemma pipelined_receive_inv:
  assumes e: "mq_env_ok ok e" and w: "waits_ok (e_wait_q i) st W" and c: "mq_conserved i st W A D"
    and wf: "mq_wf i" "\<not> mq_oops i" "0 < mq_maxmsg i" "mq_curmsgs i < mq_maxmsg i" "cookie_ok i" "e_wait_q i RECV = []"
    and full: "ok \<Longrightarrow> e_wait_q i SEND \<noteq> [] \<Longrightarrow> mq_curmsgs i + 1 = mq_maxmsg i"
    and call: "pipelined_receive e i st = ((i', st'), wake)"
  shows "mq_sys_inv ok (i', st', W, A, D)"
proof (cases "wq_get_first_waiter i SEND")
  case None
  then have "e_wait_q i SEND = []" by (simp add: no_waiter)
  moreover have "i' = i \<and> st' = st" using call None by (simp add: pipelined_receive_def)
  ultimately show ?thesis using w c wf by (simp add: mq_sys_inv_def mq_base_def)
next
  case (Some t)
  have t: "t \<in> set (e_wait_q i SEND)" by (rule first_waiter [OF Some])
  then have "W t = Some SEND" using waits_parts(4) [OF w] by blast
  then obtain m where m: "msg_of st t = Some m" using waits_parts(5) [OF w] by blast
  then have st: "\<exists>w. st t = Some w" unfolding msg_of_def by (cases "st t") auto
  obtain j x where ins: "msg_insert e m i = (j, x)" by fastforce
  have rb: "rb_ok (qe_rb e)" using e by (simp add: mq_env_ok_def)
  show ?thesis
  proof (cases x)
    case err: (Some err)
    then have F: "j = i" "\<not> qe_atomic e" using msg_insert_wf(2) [OF rb wf(1) ins] by blast+
    then have "\<not> ok" using e by (auto simp: mq_env_ok_def)
    moreover have "i' = i \<and> st' = st" using call Some m ins err F(1) by (simp add: pipelined_receive_def msg_of_def [symmetric])
    ultimately show ?thesis using w c wf by (simp add: mq_sys_inv_def mq_base_def)
  next
    case None
    note I = inv_insert [OF rb wf(1) ins [unfolded None]] and R = rest_fields [OF inv_insert(4) [OF rb wf(1) ins [unfolded None]]]
    have out: "i' = wq_del SEND t j \<and> st' = st(t \<mapsto> \<lparr>ew_msg = Some m, ew_ready = True\<rparr>)"
      using call Some m ins None op_told [where st = st and t = t and m = m and sr = SEND and i = j, OF st m]
      by (simp add: pipelined_receive_def msg_of_def [symmetric])
    have b: "mq_base ok j" using I R wf full by (auto simp: mq_base_def)
    have "t \<in> set (e_wait_q j SEND)" using t R(2) by simp
    have w': "waits_ok (e_wait_q j) st W" using w R(2) by simp
    note T = waits_told [where m = m, OF w' \<open>t \<in> set (e_wait_q j SEND)\<close> refl]
    have "mq_conserved (wq_del SEND t j) (st(t \<mapsto> \<lparr>ew_msg = Some m, ew_ready = True\<rparr>)) W A D"
      using c I(2) T(2) by (simp add: mq_conserved_def wq_del_same)
    then show ?thesis
      using out wq_del_base [OF b] T(1) by (simp add: mq_sys_inv_def wq_del_same)
  qed
qed

lemma receive_inv:
  assumes inv: "mq_sys_inv ok (i, st, W, A, D)" and e: "mq_env_ok ok e" and t: "W (mq_cur e) = None"
  shows "case mo_step (mq_receive e nonblock i st) of
      MqReturn r \<Rightarrow> mq_sys_inv ok (mo_info (mq_receive e nonblock i st), mo_stacks (mq_receive e nonblock i st), W, A,
        D + delivered r)
    | MqSleep \<Rightarrow> mq_sys_inv ok (mo_info (mq_receive e nonblock i st), mo_stacks (mq_receive e nonblock i st), W(mq_cur e \<mapsto> RECV), A, D)"
proof -
  define j where "j = spare_leaf e i"
  have inv': "mq_sys_inv ok (j, st, W, A, D)" using inv by (simp add: j_def inv_spare)
  note P = mq_inv_parts [OF inv'] and B = base_parts [OF mq_inv_parts(1) [OF inv']]
  have rb: "rb_ok (qe_rb e)" using e by (simp add: mq_env_ok_def)
  note recv = mq_receive_def [of e nonblock i st, unfolded Let_def, folded j_def]
  show ?thesis
  proof (cases "mq_curmsgs j = 0")
    case empty: True
    show ?thesis
    proof (cases nonblock)
      case True
      then show ?thesis unfolding recv using empty inv' by simp
    next
      case False
      then show ?thesis unfolding recv using empty inv_sleep [OF inv' t, of RECV None] by simp
    qed
  next
    case False
    then obtain m ms where c: "mq_content j = m # ms" using B(8) by (cases "mq_content j") auto
    obtain k where G: "msg_get e j = (k, Some m)" "mq_wf k" "mq_content k = ms" "mq_curmsgs k = mq_curmsgs j - 1" "mq_rest k = mq_rest j"
      using msg_get_wf(2) [OF rb B(1) c] by blast
    note R = rest_fields [OF G(5)]
    obtain i' st' wake where pr: "pipelined_receive e k st = ((i', st'), wake)" by (metis prod.collapse)
    have no: "e_wait_q j RECV = []" using B(6) c by auto
    have "mq_conserved k st W A (add_mset m D)" using P(3) G(3) c by (simp add: mq_conserved_def)
    moreover have "mq_curmsgs k < mq_maxmsg k" "ok \<Longrightarrow> e_wait_q k SEND \<noteq> [] \<Longrightarrow> mq_curmsgs k + 1 = mq_maxmsg k"
      using B(4,7) R G(4) by auto
    ultimately have "mq_sys_inv ok (i', st', W, A, add_mset m D)"
      using pipelined_receive_inv [OF e _ _ G(2) _ _ _ _ _ _ pr] P(2) B(2,3,5) R no by simp
    then show ?thesis unfolding recv using False G(1) pr by simp
  qed
qed

lemma wake_cases:
  assumes inv: "mq_sys_inv ok (i, st, W, A, D)" and t: "W (mq_cur e) = Some sr"
  obtains "told st (mq_cur e)" "wq_wake e timed_out sr i st = (i, MqReturn (Inr ()))"
  | err where "\<not> told st (mq_cur e)" "wq_wake e timed_out sr i st = (wq_del sr (mq_cur e) i, MqReturn (Inl err))"
  | "\<not> told st (mq_cur e)" "wq_wake e timed_out sr i st = (i, MqSleep)"
proof -
  have "mq_cur e \<in> dom st" using waits_parts(2) [OF mq_inv_parts(2) [OF inv]] t by auto
  then obtain w where w: "st (mq_cur e) = Some w" by blast
  show thesis
  proof (cases "ew_ready w")
    case True
    then show thesis by (intro that(1)) (simp_all add: w wq_wake_def told_def)
  next
    case False
    then have n: "\<not> told st (mq_cur e)" by (simp add: w told_def)
    consider "cur_signal_pending (qe_task e)" | "\<not> cur_signal_pending (qe_task e)" "timed_out" | "\<not> cur_signal_pending (qe_task e)" "\<not> timed_out" by blast
    then show thesis
    proof cases
      case 1
      then show thesis using False by (intro that(2) [OF n, of ERESTARTSYS]) (simp add: w wq_wake_def)
    next
      case 2
      then show thesis using False by (intro that(2) [OF n, of ETIMEDOUT]) (simp add: w wq_wake_def)
    next
      case 3
      then show thesis using False by (intro that(3) [OF n]) (simp add: w wq_wake_def)
    qed
  qed
qed

lemma give_up_inv:
  assumes inv: "mq_sys_inv ok (i, st, W, A, D)" and t: "W t = Some sr" "\<not> told st t"
  shows "mq_sys_inv ok (wq_del sr t i, st(t := None), W(t := None), A, D)"
  using wq_del_base [OF mq_inv_parts(1) [OF inv]] waits_give_up [OF mq_inv_parts(2) [OF inv] t] mq_inv_parts(3) [OF inv]
  by (simp add: mq_sys_inv_def wq_del_same mq_conserved_def)

lemma send_resume_inv:
  assumes inv: "mq_sys_inv ok (i, st, W, A, D)" and t: "W (mq_cur e) = Some SEND" and m: "msg_of st (mq_cur e) = Some m"
  shows "case mo_step (mq_send_resume e timed_out i st) of
      MqReturn r \<Rightarrow> mq_sys_inv ok (mo_info (mq_send_resume e timed_out i st), mo_stacks (mq_send_resume e timed_out i st), W(mq_cur e := None),
        if r = Inr () then add_mset m A else A, D)
    | MqSleep \<Rightarrow> mq_sys_inv ok (mo_info (mq_send_resume e timed_out i st), mo_stacks (mq_send_resume e timed_out i st), W, A, D)"
proof (cases rule: wake_cases [OF inv t, of timed_out])
  case 1
  note L = waits_leave_done [OF mq_inv_parts(2) [OF inv] t 1(1)]
  have "done_msgs SEND st W = add_mset m (done_msgs SEND (st(mq_cur e := None)) (W(mq_cur e := None)))" using L(2) m by auto
  then have "mq_sys_inv ok (i, st(mq_cur e := None), W(mq_cur e := None), add_mset m A, D)"
    using mq_inv_parts [OF inv] L(1) L(3) [of RECV] by (simp add: mq_sys_inv_def mq_conserved_def)
  then show ?thesis by (simp add: mq_send_resume_def 1(2))
next
  case (2 err)
  then show ?thesis using give_up_inv [OF inv t 2(1)] by (simp add: mq_send_resume_def)
next
  case 3
  then show ?thesis using inv by (simp add: mq_send_resume_def)
qed

lemma receive_resume_inv:
  assumes inv: "mq_sys_inv ok (i, st, W, A, D)" and t: "W (mq_cur e) = Some RECV"
  shows "case mo_step (mq_receive_resume e timed_out i st) of
      MqReturn r \<Rightarrow> mq_sys_inv ok (mo_info (mq_receive_resume e timed_out i st), mo_stacks (mq_receive_resume e timed_out i st), W(mq_cur e := None),
        A, D + delivered r)
    | MqSleep \<Rightarrow> mq_sys_inv ok (mo_info (mq_receive_resume e timed_out i st), mo_stacks (mq_receive_resume e timed_out i st), W, A, D)"
proof (cases rule: wake_cases [OF inv t, of timed_out])
  case 1
  note L = waits_leave_done [OF mq_inv_parts(2) [OF inv] t 1(1)]
  obtain m where m: "msg_of st (mq_cur e) = Some m" "done_msgs RECV st W = add_mset m (done_msgs RECV (st(mq_cur e := None)) (W(mq_cur e := None)))"
    using L(2) by blast
  then have "mq_sys_inv ok (i, st(mq_cur e := None), W(mq_cur e := None), A, add_mset m D)"
    using mq_inv_parts [OF inv] L(1) L(3) [of SEND] by (simp add: mq_sys_inv_def mq_conserved_def)
  then show ?thesis using m(1) by (simp add: mq_receive_resume_def 1(2) msg_of_def)
next
  case (2 err)
  then show ?thesis using give_up_inv [OF inv t 2(1)] by (simp add: mq_receive_resume_def)
next
  case 3
  then show ?thesis using inv by (simp add: mq_receive_resume_def)
qed

section \<open>Reachable states\<close>

lemma changed_notice:
  assumes inv: "mq_sys_inv ok (i, st, W, A, D)"
    and same: "msg_tree i' = msg_tree i" "msg_tree_rightmost i' = msg_tree_rightmost i" "mq_curmsgs i' = mq_curmsgs i" "qsize i' = qsize i"
      "e_wait_q i' = e_wait_q i" "mq_maxmsg i' = mq_maxmsg i" and c: "cookie_ok i'" "mq_oops i' = mq_oops i"
  shows "mq_sys_inv ok (i', st, W, A, D)"
  using inv same_content [OF same(1-4)] same(3,5,6) c by (simp add: mq_sys_inv_def mq_base_def mq_conserved_def)

lemma remove_same:
  assumes "remove_notification i = (i', ev)" "cookie_ok i"
  shows "msg_tree i' = msg_tree i" "msg_tree_rightmost i' = msg_tree_rightmost i" "mq_curmsgs i' = mq_curmsgs i" "qsize i' = qsize i"
      "e_wait_q i' = e_wait_q i" "mq_maxmsg i' = mq_maxmsg i" "cookie_ok i'" "mq_oops i' = mq_oops i"
  using assms by (auto simp: remove_notification_def cookie_ok_def)

lemma notify_set_same:
  assumes "mq_notify_set e n cookie i = ((i', ev), r)" "cookie_ok i"
    and k: "\<And>a. n = Some a \<Longrightarrow> sigev_notify a = SIGEV_NONE \<or> sigev_notify a = SIGEV_SIGNAL \<or> sigev_notify a = SIGEV_THREAD"
  shows "msg_tree i' = msg_tree i" "msg_tree_rightmost i' = msg_tree_rightmost i" "mq_curmsgs i' = mq_curmsgs i" "qsize i' = qsize i"
      "e_wait_q i' = e_wait_q i" "mq_maxmsg i' = mq_maxmsg i" "cookie_ok i'" "mq_oops i' = mq_oops i"
proof -
  let ?same = "msg_tree i' = msg_tree i \<and> msg_tree_rightmost i' = msg_tree_rightmost i \<and> mq_curmsgs i' = mq_curmsgs i \<and> qsize i' = qsize i
      \<and> e_wait_q i' = e_wait_q i \<and> mq_maxmsg i' = mq_maxmsg i \<and> cookie_ok i' \<and> mq_oops i' = mq_oops i"
  have ?same
  proof (cases n)
    case None
    show ?thesis
    proof (cases "notify_owner i = Some (cur_tgid (qe_task e))")
      case True
      then have "remove_notification i = (i', ev)" using assms(1) None by (simp add: mq_notify_set_def)
      from remove_same [OF this assms(2)] show ?thesis by blast
    next
      case False
      then show ?thesis using assms None by (simp add: mq_notify_set_def)
    qed
  next
    case (Some a)
    show ?thesis using assms(1,2) k [OF Some] unfolding Some mq_notify_set_def Let_def
      by (cases "notify_owner i"; simp; cases "sigev_notify a = SIGEV_THREAD"; cases "sigev_notify a = SIGEV_NONE"; cases "sigev_notify a = SIGEV_SIGNAL";
          clarsimp simp: cookie_ok_def sigevs)
  qed
  then show "msg_tree i' = msg_tree i" "msg_tree_rightmost i' = msg_tree_rightmost i" "mq_curmsgs i' = mq_curmsgs i" "qsize i' = qsize i"
      "e_wait_q i' = e_wait_q i" "mq_maxmsg i' = mq_maxmsg i" "cookie_ok i'" "mq_oops i' = mq_oops i" by blast+
qed

lemma notify_inv:
  assumes inv: "mq_sys_inv ok (i, st, W, A, D)" and c: "do_mq_notify e fd n cookie i = ((i', ev), r)"
  shows "mq_sys_inv ok (i', st, W, A, D)"
proof (cases "i' = i")
  case False
  then obtain ck where call: "mq_notify_set e n ck i = ((i', ev), r)"
    and k: "\<And>a. n = Some a \<Longrightarrow> sigev_notify a = SIGEV_NONE \<or> sigev_notify a = SIGEV_SIGNAL \<or> sigev_notify a = SIGEV_THREAD"
    using c unfolding do_mq_notify_def Let_def by (auto split: option.splits mq_fd.splits if_splits)
  from notify_set_same [OF call base_parts(5) [OF mq_inv_parts(1) [OF inv]] k] show ?thesis by (rule changed_notice [OF inv])
qed (use inv in simp)

lemma refuse_fields [simp]: "mo_info (mq_refuse err i st) = i" "mo_stacks (mq_refuse err i st) = st" "mo_step (mq_refuse err i st) = MqReturn (Inl err)"
  by (simp_all add: mq_refuse_def)

lemma timedsend_cases:
  obtains err where "do_mq_timedsend e fd len prio loaded i st = mq_refuse err i st"
  | nb m where "loaded = Inr m" "do_mq_timedsend e fd len prio loaded i st = mq_send e nb (sent_msg m len prio) i st"
proof -
  have "(\<exists>err. do_mq_timedsend e fd len prio loaded i st = mq_refuse err i st)
    \<or> (\<exists>nb m. loaded = Inr m \<and> do_mq_timedsend e fd len prio loaded i st = mq_send e nb (sent_msg m len prio) i st)"
    by (cases fd; cases loaded) (auto simp: do_mq_timedsend_def)
  then show thesis using that by blast
qed

lemma timedreceive_cases:
  obtains err where "do_mq_timedreceive e fd len i st = mq_refuse err i st"
  | nb where "do_mq_timedreceive e fd len i st = mq_receive e nb i st"
proof -
  have "(\<exists>err. do_mq_timedreceive e fd len i st = mq_refuse err i st) \<or> (\<exists>nb. do_mq_timedreceive e fd len i st = mq_receive e nb i st)"
    by (cases fd) (auto simp: do_mq_timedreceive_def)
  then show thesis using that by blast
qed

lemma mq_step_inv: "mq_step ok x y \<Longrightarrow> mq_sys_inv ok x \<Longrightarrow> mq_sys_inv ok y"
proof (induction rule: mq_step.induct)
  case (send e W fd len prio loaded i st out r A D)
  show ?case
  proof (cases rule: timedsend_cases [of e fd len prio loaded i st])
    case (1 err)
    then have "out = mq_refuse err i st" using send.hyps(3) by simp
    moreover from this have "r = Inl err" using send.hyps(4) by simp
    ultimately show ?thesis using send.prems by (simp add: accepted_def split: sum.splits)
  next
    case (2 nb m)
    then have "mq_send e nb (sent_msg m len prio) i st = out" using send.hyps(3) by simp
    then show ?thesis
      using send_inv [OF send.prems send.hyps(1,2), of nb "sent_msg m len prio"] send.hyps(4) 2(1)
      by (auto simp: accepted_def split: sum.splits if_splits)
  qed
next
  case (send_sleep e W fd len prio loaded i st out A D)
  show ?case
  proof (cases rule: timedsend_cases [of e fd len prio loaded i st])
    case (1 err)
    then show ?thesis using send_sleep.hyps(3,4) by auto
  next
    case (2 nb m)
    then have "mq_send e nb (sent_msg m len prio) i st = out" using send_sleep.hyps(3) by simp
    then show ?thesis
      using send_inv [OF send_sleep.prems send_sleep.hyps(1,2), of nb "sent_msg m len prio"] send_sleep.hyps(4) by simp
  qed
next
  case (send_resume W e st m timed_out i out r A D)
  then show ?case using send_resume_inv [OF send_resume.prems send_resume.hyps(1,2), of timed_out] by simp
next
  case (send_again W e timed_out i st out A D)
  obtain m where "msg_of st (mq_cur e) = Some m"
    using waits_parts(5) [OF mq_inv_parts(2) [OF send_again.prems]] send_again.hyps(1) by blast
  from send_resume_inv [OF send_again.prems send_again.hyps(1) this, of timed_out] show ?case using send_again.hyps(2,3) by simp
next
  case (receive e W fd len i st out r A D)
  show ?case
  proof (cases rule: timedreceive_cases [of e fd len i st])
    case (1 err)
    then have "out = mq_refuse err i st" using receive.hyps(3) by simp
    moreover from this have "r = Inl err" using receive.hyps(4) by simp
    ultimately show ?thesis using receive.prems by (simp add: delivered_def)
  next
    case (2 nb)
    then have "mq_receive e nb i st = out" using receive.hyps(3) by simp
    then show ?thesis using receive_inv [OF receive.prems receive.hyps(1,2), of nb] receive.hyps(4) by simp
  qed
next
  case (receive_sleep e W fd len i st out A D)
  show ?case
  proof (cases rule: timedreceive_cases [of e fd len i st])
    case (1 err)
    then show ?thesis using receive_sleep.hyps(3,4) by auto
  next
    case (2 nb)
    then have "mq_receive e nb i st = out" using receive_sleep.hyps(3) by simp
    then show ?thesis using receive_inv [OF receive_sleep.prems receive_sleep.hyps(1,2), of nb] receive_sleep.hyps(4) by simp
  qed
next
  case (receive_resume W e timed_out i st out r A D)
  then show ?case using receive_resume_inv [OF receive_resume.prems receive_resume.hyps(1), of timed_out] by simp
next
  case (receive_again W e timed_out i st out A D)
  then show ?case using receive_resume_inv [OF receive_again.prems receive_again.hyps(1), of timed_out] by simp
next
  case (notify e fd n cookie i i' ev r st W A D)
  then show ?case using notify_inv by blast
next
  case (flush e i i' ev st W A D)
  have c: "cookie_ok i" by (rule base_parts(5) [OF mq_inv_parts(1) [OF flush.prems]])
  show ?case
  proof (cases "notify_owner i = Some (cur_tgid (qe_task e))")
    case True
    then have "remove_notification i = (i', ev)" using flush.hyps by (simp add: mqueue_flush_file_def)
    from remove_same [OF this c] show ?thesis by (rule changed_notice [OF flush.prems])
  next
    case False
    then show ?thesis using flush by (simp add: mqueue_flush_file_def)
  qed
qed

lemma fresh_inv: "mq_fresh i \<Longrightarrow> mq_sys_inv ok (i, Map.empty, Map.empty, {#}, {#})"
  by (simp add: mq_fresh_def mq_sys_inv_def mq_base_def mq_wf_def tree_ok_def counts_ok_def mq_content_def cookie_ok_def waits_ok_def
    mq_conserved_def done_msgs_def done_tasks_def)

lemma mq_reachable_inv: "mq_reachable ok x \<Longrightarrow> mq_sys_inv ok x"
proof -
  assume "mq_reachable ok x"
  then obtain i where "mq_fresh i" "(mq_step ok)\<^sup>*\<^sup>* (i, Map.empty, Map.empty, {#}, {#}) x" unfolding mq_reachable_def by blast
  note f = fresh_inv [OF this(1)]
  from \<open>(mq_step ok)\<^sup>*\<^sup>* (i, Map.empty, Map.empty, {#}, {#}) x\<close> show ?thesis
    by (induction rule: rtranclp_induct) (rule f, rule mq_step_inv)
qed

lemma mq_reachable_step: "mq_reachable ok x \<Longrightarrow> mq_step ok x y \<Longrightarrow> mq_reachable ok y"
  unfolding mq_reachable_def by (meson rtranclp.rtrancl_into_rtrancl)

lemma mq_fresh_reachable: "mq_fresh i \<Longrightarrow> mq_reachable ok (i, Map.empty, Map.empty, {#}, {#})"
  unfolding mq_reachable_def by blast

end
