(* ===== verification/MqNs.thy ===== *)
theory MqNs
  imports MqSys
begin

text \<open>
  The POSIX message queues of a namespace: creation with its limits and the charge against the
  creator, names, open files, and the end of a queue (\<^verbatim>\<open>mqueue_get_inode\<close>, \<^verbatim>\<open>mqueue_create_attr\<close>,
  \<^verbatim>\<open>do_mq_open\<close>, \<^verbatim>\<open>mq_unlink\<close>, \<^verbatim>\<open>mqueue_evict_inode\<close>, and the accounting of
  \<^verbatim>\<open>ipc_mqueue_shim.c\<close>).

  Directory entries, inodes and files belong to the kernel's file system layer; what the code
  relies on is here: an inode is evicted when it has neither a name nor an open file. \<open>mq_fs\<close> is
  false once the superblock has lost its namespace. The capability answers of the caller stand for
  \<^verbatim>\<open>capable\<close> here.
\<close>

section \<open>State\<close>

record mq_ns =
  mq_inodes :: "ptr \<rightharpoonup> mqueue_inode_info"
  mq_names :: "string \<rightharpoonup> ptr"
  mq_files :: "ptr \<rightharpoonup> ptr \<times> mq_file"
  mq_fs :: bool
  mq_mnt :: bool
  mq_queues_count :: int
  mq_queues_max :: int
  mq_msg_max :: int
  mq_msgsize_max :: int
  mq_msg_default :: int
  mq_msgsize_default :: int
  mq_charged :: "nat \<Rightarrow> 64 word"

text \<open>
  The environment of a call: \<open>qn_ucounts\<close> the accounting object of the caller, if the kernel has
  one, \<open>qn_rlimit_ops\<close> whether it can be charged, \<open>qn_over\<close> whether a limit above the caller is
  exceeded, \<open>qn_rlimit\<close> the caller's own limit, \<open>qn_mode\<close> the mode of a file opened with some flags, then the
  answers of the file system layer.
\<close>

record mq_ns_env =
  qn_env :: mq_env
  qn_new :: kmalloc
  qn_file :: kmalloc
  qn_mode :: "int \<Rightarrow> mq_file"
  qn_ucounts :: "nat option"
  qn_rlimit_ops :: bool
  qn_over :: bool
  qn_rlimit :: "64 word"
  qn_name :: "string result"
  qn_fd :: "errno option"
  qn_ro :: "errno option"
  qn_has_alloc :: bool
  qn_alloc :: "errno option"
  qn_mkobj :: "errno option"
  qn_perm :: "errno option"
  qn_dopen :: "errno option"
  qn_unlink :: "errno option"

definition DFLT_QUEUESMAX :: int where "DFLT_QUEUESMAX = 256"
definition DFLT_MSG :: int where "DFLT_MSG = 10"
definition DFLT_MSGMAX :: int where "DFLT_MSGMAX = 10"
definition HARD_MSGMAX :: int where "HARD_MSGMAX = 65536"
definition DFLT_MSGSIZE :: int where "DFLT_MSGSIZE = 8192"
definition DFLT_MSGSIZEMAX :: int where "DFLT_MSGSIZEMAX = 8192"
definition HARD_MSGSIZEMAX :: int where "HARD_MSGSIZEMAX = 16 * 1024 * 1024"

lemmas mq_limits = DFLT_QUEUESMAX_def DFLT_MSG_def DFLT_MSGMAX_def HARD_MSGMAX_def DFLT_MSGSIZE_def DFLT_MSGSIZEMAX_def HARD_MSGSIZEMAX_def

text \<open>\<open>mounted\<close> is the answer of \<^verbatim>\<open>mq_create_mount\<close>.\<close>

definition mq_init_ns :: "errno option \<Rightarrow> mq_ns \<Rightarrow> mq_ns \<times> errno option" where
  "mq_init_ns mounted s =
     (let s = s\<lparr>mq_queues_count := 0, mq_queues_max := DFLT_QUEUESMAX, mq_msg_max := DFLT_MSGMAX,
                mq_msgsize_max := DFLT_MSGSIZEMAX, mq_msg_default := DFLT_MSG, mq_msgsize_default := DFLT_MSGSIZE\<rparr>
      in case mounted of
           Some err \<Rightarrow> (s, Some err)
         | None \<Rightarrow> (s\<lparr>mq_mnt := True, mq_fs := True\<rparr>, None))"

definition mq_clear_sbinfo :: "mq_ns \<Rightarrow> mq_ns" where
  "mq_clear_sbinfo s = s\<lparr>mq_fs := False\<rparr>"

section \<open>Accounting\<close>

text \<open>The sizes of a message header and of a node are 48 bytes each.\<close>

definition mq_treesize :: "int \<Rightarrow> 64 word" where
  "mq_treesize maxmsg = of_int maxmsg * 48 + of_int (min (maxmsg mod 2 ^ 32) MQ_PRIO_MAX) * 48"

definition mq_bytes :: "mqueue_inode_info \<Rightarrow> 64 word" where
  "mq_bytes i = mq_treesize (mq_maxmsg i) + of_int (mq_maxmsg i) * of_int (mq_msgsize i)"

definition LONG_MAX_WORD :: "64 word" where "LONG_MAX_WORD = 2 ^ 63 - 1"

definition mq_ucounts_charge :: "mq_ns_env \<Rightarrow> nat \<Rightarrow> 64 word \<Rightarrow> mq_ns \<Rightarrow> mq_ns \<times> 64 word" where
  "mq_ucounts_charge e u bytes s =
     (if qn_rlimit_ops e then
        (let new = mq_charged s u + bytes
         in (s\<lparr>mq_charged := (mq_charged s)(u := new)\<rparr>, if qn_over e then LONG_MAX_WORD else new))
      else (s, 0))"

definition mq_ucounts_uncharge :: "bool \<Rightarrow> nat \<Rightarrow> 64 word \<Rightarrow> mq_ns \<Rightarrow> mq_ns" where
  "mq_ucounts_uncharge ops u bytes s =
     (if ops then s\<lparr>mq_charged := (mq_charged s)(u := mq_charged s u - bytes)\<rparr> else s)"

section \<open>A new queue\<close>

definition mq_new_info :: "mq_ns \<Rightarrow> mq_attr option \<Rightarrow> mqueue_inode_info" where
  "mq_new_info s attr =
     \<lparr>msg_tree = Leaf, msg_tree_rightmost = None, node_cache = False,
      mq_maxmsg = (case attr of None \<Rightarrow> min (mq_msg_max s) (mq_msg_default s) | Some a \<Rightarrow> at_maxmsg a),
      mq_msgsize = (case attr of None \<Rightarrow> min (mq_msgsize_max s) (mq_msgsize_default s) | Some a \<Rightarrow> at_msgsize a),
      mq_curmsgs = 0, mq_notify = \<lparr>sigev_notify = 0, sigev_signo = 0, sigev_value = 0\<rparr>, notify_owner = None,
      notify_self_exec_id = 0, notify_cookie = None, mq_ucounts = None, e_wait_q = (\<lambda>_. []), qsize = 0, mq_oops = False\<rparr>"

definition mq_limits_check :: "mq_ns_env \<Rightarrow> mq_ns \<Rightarrow> mqueue_inode_info \<Rightarrow> errno option" where
  "mq_limits_check e s i =
     (if mq_maxmsg i \<le> 0 \<or> mq_msgsize i \<le> 0 then Some EINVAL
      else if (if cur_ns_capable (qe_task (qn_env e)) CAP_SYS_RESOURCE
               then mq_maxmsg i > HARD_MSGMAX \<or> mq_msgsize i > HARD_MSGSIZEMAX
               else mq_maxmsg i > mq_msg_max s \<or> mq_msgsize i > mq_msgsize_max s) then Some EINVAL
      else if mq_msgsize i > (2 ^ 64 - 1) div mq_maxmsg i then Some EOVERFLOW
      else
        (let bytes = of_int (mq_maxmsg i) * of_int (mq_msgsize i) :: 64 word
         in if bytes + mq_treesize (mq_maxmsg i) < bytes then Some EOVERFLOW else None))"

text \<open>A failed inode is evicted with no accounting object, which changes nothing.\<close>

definition mqueue_get_inode :: "mq_ns_env \<Rightarrow> mq_attr option \<Rightarrow> mq_ns \<Rightarrow> mq_ns \<times> ptr result" where
  "mqueue_get_inode e attr s =
     (case qn_new e (\<lambda>p. mq_inodes s p \<noteq> None) of
        None \<Rightarrow> (s, Inl ENOMEM)
      | Some p \<Rightarrow>
          (let i = mq_new_info s attr
           in case mq_limits_check e s i of
                Some err \<Rightarrow> (s, Inl err)
              | None \<Rightarrow>
                  (case qn_ucounts e of
                     None \<Rightarrow> (s\<lparr>mq_inodes := (mq_inodes s)(p \<mapsto> i)\<rparr>, Inr p)
                   | Some u \<Rightarrow>
                       (case mq_ucounts_charge e u (mq_bytes i) s of
                          (s, msgqueue) \<Rightarrow>
                            if msgqueue = LONG_MAX_WORD \<or> msgqueue > qn_rlimit e
                            then (mq_ucounts_uncharge (qn_rlimit_ops e) u (mq_bytes i) s, Inl EMFILE)
                            else (s\<lparr>mq_inodes := (mq_inodes s)(p \<mapsto> i\<lparr>mq_ucounts := Some u\<rparr>)\<rparr>, Inr p)))))"

definition mqueue_create_attr :: "mq_ns_env \<Rightarrow> string \<Rightarrow> mq_attr option \<Rightarrow> mq_ns \<Rightarrow> mq_ns \<times> ptr result" where
  "mqueue_create_attr e name attr s =
     (if \<not> mq_fs s then (s, Inl EACCES)
      else if mq_queues_count s \<ge> mq_queues_max s \<and> \<not> cur_ns_capable (qe_task (qn_env e)) CAP_SYS_RESOURCE then (s, Inl ENOSPC)
      else
        (case mqueue_get_inode e attr (s\<lparr>mq_queues_count := mq_queues_count s + 1\<rparr>) of
           (s, Inl err) \<Rightarrow> (s\<lparr>mq_queues_count := mq_queues_count s - 1\<rparr>, Inl err)
         | (s, Inr p) \<Rightarrow> (s\<lparr>mq_names := (mq_names s)(name \<mapsto> p)\<rparr>, Inr p)))"

section \<open>The end of a queue\<close>

text \<open>The loop that takes every message; it runs out of fuel as \<open>None\<close>.\<close>

fun mq_drain :: "nat \<Rightarrow> mq_env \<Rightarrow> mqueue_inode_info \<Rightarrow> msg_msg list option" where
  "mq_drain 0 e i = None"
| "mq_drain (Suc fuel) e i =
     (case msg_get e i of
        (i, None) \<Rightarrow> Some []
      | (i, Some m) \<Rightarrow> map_option (Cons m) (mq_drain fuel e i))"

definition mqueue_evict_inode :: "bool \<Rightarrow> ptr \<Rightarrow> mq_ns \<Rightarrow> mq_ns" where
  "mqueue_evict_inode ops p s =
     (case mq_inodes s p of
        None \<Rightarrow> s
      | Some i \<Rightarrow>
          (let s = s\<lparr>mq_inodes := (mq_inodes s)(p := None)\<rparr>
           in case mq_ucounts i of
                None \<Rightarrow> s
              | Some u \<Rightarrow>
                  (let s = mq_ucounts_uncharge ops u (mq_bytes i) s
                   in if mq_fs s then s\<lparr>mq_queues_count := mq_queues_count s - 1\<rparr> else s)))"

text \<open>The last reference to an inode goes away with its last name or file.\<close>

definition mq_iput :: "bool \<Rightarrow> ptr \<Rightarrow> mq_ns \<Rightarrow> mq_ns" where
  "mq_iput ops p s =
     (if p \<in> ran (mq_names s) \<or> p \<in> fst ` ran (mq_files s) then s else mqueue_evict_inode ops p s)"

text \<open>
  The lookup of a name. The routine that makes a new entry has to be found even for a name that
  exists; every kernel has the one that finds it.
\<close>

definition mq_lookup :: "mq_ns_env \<Rightarrow> string \<Rightarrow> mq_ns \<Rightarrow> ptr option result" where
  "mq_lookup e name s =
     (if CHR ''/'' \<in> set name then Inl EACCES
      else if \<not> qn_has_alloc e then Inl ENOSYS
      else
        (case mq_names s name of
           Some p \<Rightarrow> Inr (Some p)
         | None \<Rightarrow> (case qn_alloc e of Some err \<Rightarrow> Inl err | None \<Rightarrow> Inr None)))"

definition mq_unlink :: "mq_ns_env \<Rightarrow> mq_ns \<Rightarrow> mq_ns \<times> unit result" where
  "mq_unlink e s =
     (if \<not> mq_mnt s then (s, Inl ENODEV)
      else
        (case qn_name e of
           Inl err \<Rightarrow> (s, Inl err)
         | Inr name \<Rightarrow>
             (case qn_ro e of
                Some err \<Rightarrow> (s, Inl err)
              | None \<Rightarrow>
                  (case mq_lookup e name s of
                     Inl err \<Rightarrow> (s, Inl err)
                   | Inr None \<Rightarrow> (s, Inl ENOENT)
                   | Inr (Some p) \<Rightarrow>
                       (case qn_unlink e of
                          Some err \<Rightarrow> (s, Inl err)
                        | None \<Rightarrow> (mq_iput (qn_rlimit_ops e) p (s\<lparr>mq_names := (mq_names s)(name := None)\<rparr>), Inr ()))))))"

text \<open>Closing a file: \<^verbatim>\<open>mqueue_flush_file\<close>, then the reference to the inode.\<close>

definition mq_close :: "mq_ns_env \<Rightarrow> ptr \<Rightarrow> mq_ns \<Rightarrow> mq_ns" where
  "mq_close e f s =
     (case mq_files s f of
        None \<Rightarrow> s
      | Some (p, _) \<Rightarrow>
          (case mq_inodes s p of
             None \<Rightarrow> s
           | Some i \<Rightarrow>
               mq_iput (qn_rlimit_ops e) p
                 (s\<lparr>mq_inodes := (mq_inodes s)(p \<mapsto> fst (mqueue_flush_file (qn_env e) i)), mq_files := (mq_files s)(f := None)\<rparr>)))"

section \<open>Opening\<close>

definition O_ACCMODE :: int where "O_ACCMODE = 3"
definition O_CREAT :: int where "O_CREAT = 64"
definition O_EXCL :: int where "O_EXCL = 128"

lemmas mq_oflags = O_ACCMODE_def O_CREAT_def O_EXCL_def O_NONBLOCK_def

definition prepare_open :: "mq_ns_env \<Rightarrow> string \<Rightarrow> int \<Rightarrow> mq_attr option \<Rightarrow> mq_ns \<Rightarrow> mq_ns \<times> ptr result" where
  "prepare_open e name oflag attr s =
     (case mq_names s name of
        None \<Rightarrow>
          if oflag AND O_CREAT = 0 then (s, Inl ENOENT)
          else
            (case qn_ro e of
               Some err \<Rightarrow> (s, Inl err)
             | None \<Rightarrow> (case qn_mkobj e of Some err \<Rightarrow> (s, Inl err) | None \<Rightarrow> mqueue_create_attr e name attr s))
      | Some p \<Rightarrow>
          if oflag AND (O_CREAT OR O_EXCL) = O_CREAT OR O_EXCL then (s, Inl EEXIST)
          else if oflag AND O_ACCMODE = 3 then (s, Inl EINVAL)
          else (case qn_perm e of Some err \<Rightarrow> (s, Inl err) | None \<Rightarrow> (s, Inr p)))"

definition do_mq_open :: "mq_ns_env \<Rightarrow> int \<Rightarrow> mq_attr option \<Rightarrow> mq_ns \<Rightarrow> mq_ns \<times> ptr result" where
  "do_mq_open e oflag attr s =
     (if \<not> mq_mnt s then (s, Inl ENODEV)
      else
        (case qn_name e of
           Inl err \<Rightarrow> (s, Inl err)
         | Inr name \<Rightarrow>
             (case qn_fd e of
                Some err \<Rightarrow> (s, Inl err)
              | None \<Rightarrow>
                    (case mq_lookup e name s of
                       Inl err \<Rightarrow> (s, Inl err)
                     | Inr _ \<Rightarrow>
                         (case prepare_open e name oflag attr s of
                            (s, Inl err) \<Rightarrow> (s, Inl err)
                          | (s, Inr p) \<Rightarrow>
                              (case qn_dopen e of
                                 Some err \<Rightarrow> (s, Inl err)
                               | None \<Rightarrow>
                                   (case qn_file e (\<lambda>f. mq_files s f \<noteq> None) of
                                      None \<Rightarrow> (s, Inl (EOTHER 23))
                                    | Some f \<Rightarrow> (s\<lparr>mq_files := (mq_files s)(f \<mapsto> (p, qn_mode e oflag))\<rparr>, Inr f))))))))"

end
