(* ===== verification/MqAcct.thy ===== *)
theory MqAcct
  imports MqNs
begin

text \<open>
  The queues of a namespace over time: every inode has a name or an open file, and where the
  kernel can account for queues the count and the charges are those of the queues that exist.
\<close>

section \<open>Steps\<close>

text \<open>\<open>acct\<close>: every caller has an accounting object; \<open>ops\<close>: the kernel can charge it.\<close>

definition ns_env_ok :: "bool \<Rightarrow> bool \<Rightarrow> mq_ns_env \<Rightarrow> bool" where
  "ns_env_ok acct ops e \<longleftrightarrow> kmalloc_ok (qn_new e) \<and> kmalloc_ok (qn_file e) \<and> qn_rlimit_ops e = ops \<and> (acct \<longrightarrow> qn_ucounts e \<noteq> None)"

definition mq_boot :: "mq_ns \<Rightarrow> mq_ns" where
  "mq_boot s = fst (mq_init_ns None (s\<lparr>mq_inodes := Map.empty, mq_names := Map.empty, mq_files := Map.empty, mq_charged := (\<lambda>_. 0)\<rparr>))"

inductive mq_ns_step :: "bool \<Rightarrow> bool \<Rightarrow> mq_ns \<Rightarrow> mq_ns \<Rightarrow> bool" for acct ops where
  create: "\<lbrakk>ns_env_ok acct ops e; mq_names s name = None; mqueue_create_attr e name attr s = (s', r)\<rbrakk> \<Longrightarrow> mq_ns_step acct ops s s'"
| mq_open: "\<lbrakk>ns_env_ok acct ops e; do_mq_open e oflag attr s = (s', r)\<rbrakk> \<Longrightarrow> mq_ns_step acct ops s s'"
| mq_rm: "\<lbrakk>ns_env_ok acct ops e; mq_unlink e s = (s', r)\<rbrakk> \<Longrightarrow> mq_ns_step acct ops s s'"
| mq_shut: "ns_env_ok acct ops e \<Longrightarrow> mq_ns_step acct ops s (mq_close e f s)"
| use: "\<lbrakk>mq_inodes s p = Some i; mq_step ok (i, st, W, A, D) (i', st', W', A', D')\<rbrakk>
    \<Longrightarrow> mq_ns_step acct ops s (s\<lparr>mq_inodes := (mq_inodes s)(p \<mapsto> i')\<rparr>)"
| mq_sysctl: "mq_ns_step acct ops s (s\<lparr>mq_queues_max := a, mq_msg_max := b, mq_msgsize_max := c, mq_msg_default := d, mq_msgsize_default := f\<rparr>)"

definition mq_ns_reachable :: "bool \<Rightarrow> bool \<Rightarrow> mq_ns \<Rightarrow> bool" where
  "mq_ns_reachable acct ops s \<longleftrightarrow> (\<exists>s0. (mq_ns_step acct ops)\<^sup>*\<^sup>* (mq_boot s0) s)"

section \<open>The invariant\<close>

definition queue_charge :: "nat \<Rightarrow> mqueue_inode_info option \<Rightarrow> 64 word" where
  "queue_charge u x = (case x of None \<Rightarrow> 0 | Some i \<Rightarrow> if mq_ucounts i = Some u then mq_bytes i else 0)"

definition charge_sum :: "mq_ns \<Rightarrow> nat \<Rightarrow> 64 word" where
  "charge_sum s u = (\<Sum>p \<in> dom (mq_inodes s). queue_charge u (mq_inodes s p))"

definition held :: "mq_ns \<Rightarrow> ptr set" where
  "held s = ran (mq_names s) \<union> fst ` ran (mq_files s)"



definition mq_ns_inv :: "bool \<Rightarrow> bool \<Rightarrow> mq_ns \<Rightarrow> bool" where
  "mq_ns_inv acct ops s \<longleftrightarrow> finite (dom (mq_inodes s)) \<and> dom (mq_inodes s) = held s \<and> mq_fs s
     \<and> (acct \<longrightarrow> mq_queues_count s = int (card (dom (mq_inodes s))) \<and> (\<forall>i \<in> ran (mq_inodes s). mq_ucounts i \<noteq> None))
     \<and> (\<forall>u. mq_charged s u = (if ops then charge_sum s u else 0))"

lemma ns_parts:
  assumes "mq_ns_inv acct ops s"
  shows "finite (dom (mq_inodes s))" "dom (mq_inodes s) = held s" "mq_fs s" "acct \<Longrightarrow> mq_queues_count s = int (card (dom (mq_inodes s)))"
    "acct \<Longrightarrow> i \<in> ran (mq_inodes s) \<Longrightarrow> mq_ucounts i \<noteq> None" "mq_charged s u = (if ops then charge_sum s u else 0)"
  using assms unfolding mq_ns_inv_def by blast+

lemma held_upd [simp]: "held (s\<lparr>mq_inodes := F\<rparr>) = held s" "held (s\<lparr>mq_queues_count := n\<rparr>) = held s" "held (s\<lparr>mq_charged := c\<rparr>) = held s"
  by (simp_all add: held_def)

lemma charge_sum_upd [simp]: "charge_sum (s\<lparr>mq_queues_count := n\<rparr>) u = charge_sum s u" "charge_sum (s\<lparr>mq_charged := c\<rparr>) u = charge_sum s u"
  "charge_sum (s\<lparr>mq_names := N\<rparr>) u = charge_sum s u" "charge_sum (s\<lparr>mq_files := G\<rparr>) u = charge_sum s u"
  by (simp_all add: charge_sum_def)

lemma kmalloc_new: "kmalloc_ok f \<Longrightarrow> f used = Some p \<Longrightarrow> \<not> used p"
  unfolding kmalloc_ok_def by blast

lemma ran_remove: "F x = Some y \<Longrightarrow> ran F = insert y (ran (F(x := None)))"
proof -
  assume "F x = Some y"
  then have "(F(x := None))(x \<mapsto> y) = F" by auto
  then show ?thesis using ran_map_upd [of "F(x := None)" x y] by simp
qed

lemma charge_new:
  assumes "finite (dom F)" "F p = None"
  shows "(\<Sum>q \<in> dom (F(p \<mapsto> i)). queue_charge u ((F(p \<mapsto> i)) q)) = (\<Sum>q \<in> dom F. queue_charge u (F q)) + queue_charge u (Some i)"
proof -
  have d: "dom (F(p \<mapsto> i)) = insert p (dom F)" "p \<notin> dom F" using assms(2) by auto
  have "(\<Sum>q \<in> dom F. queue_charge u ((F(p \<mapsto> i)) q)) = (\<Sum>q \<in> dom F. queue_charge u (F q))"
    by (rule sum.cong) (use d(2) in auto)
  then show ?thesis using assms(1) d by simp
qed

lemma charge_gone:
  assumes "finite (dom F)" "F p = Some i"
  shows "(\<Sum>q \<in> dom F. queue_charge u (F q)) = (\<Sum>q \<in> dom (F(p := None)). queue_charge u ((F(p := None)) q)) + queue_charge u (Some i)"
proof -
  have "(F(p := None))(p \<mapsto> i) = F" using assms(2) by auto
  then show ?thesis using charge_new [of "F(p := None)" p u i] assms(1) by simp
qed

lemma charge_same:
  assumes "F p = Some i" "queue_charge u (Some i') = queue_charge u (Some i)"
  shows "(\<Sum>q \<in> dom (F(p \<mapsto> i')). queue_charge u ((F(p \<mapsto> i')) q)) = (\<Sum>q \<in> dom F. queue_charge u (F q))"
proof -
  have "dom (F(p \<mapsto> i')) = dom F" using assms(1) by auto
  then show ?thesis using assms by (intro sum.cong) auto
qed

text \<open>A change of a queue that keeps its limits and its accounting object.\<close>

lemma inv_same:
  assumes inv: "mq_ns_inv acct ops s" and p: "mq_inodes s p = Some i"
    and i: "mq_ucounts i' = mq_ucounts i" "mq_maxmsg i' = mq_maxmsg i" "mq_msgsize i' = mq_msgsize i"
  shows "mq_ns_inv acct ops (s\<lparr>mq_inodes := (mq_inodes s)(p \<mapsto> i')\<rparr>)"
proof -
  have c: "queue_charge u (Some i') = queue_charge u (Some i)" for u using i by (simp add: queue_charge_def mq_bytes_def)
  have "charge_sum (s\<lparr>mq_inodes := (mq_inodes s)(p \<mapsto> i')\<rparr>) u = charge_sum s u" for u
    using charge_same [where F = "mq_inodes s" and p = p and u = u and i' = i', OF p c] by (simp add: charge_sum_def)
  moreover have "dom ((mq_inodes s)(p \<mapsto> i')) = dom (mq_inodes s)" using p by auto
  moreover have "\<forall>j \<in> ran ((mq_inodes s)(p \<mapsto> i')). mq_ucounts j \<noteq> None" if acct
  proof -
    have "ran ((mq_inodes s)(p \<mapsto> i')) \<subseteq> insert i' (ran (mq_inodes s))" by (auto simp: ran_def)
    moreover have "mq_ucounts i' \<noteq> None" using ns_parts(5) [OF inv that ranI [of "mq_inodes s", OF p]] i(1) by simp
    ultimately show ?thesis using ns_parts(5) [OF inv that] by blast
  qed
  ultimately show ?thesis using inv ns_parts(1,2) [OF inv] unfolding mq_ns_inv_def by simp
qed

text \<open>An inode without a name or file is evicted.\<close>

lemma iput_inv:
  assumes fin: "finite (dom (mq_inodes s))" and d: "dom (mq_inodes s) = insert p (held s)" and fs: "mq_fs s"
    and c: "acct \<Longrightarrow> mq_queues_count s = int (card (dom (mq_inodes s)))" "acct \<Longrightarrow> \<forall>i \<in> ran (mq_inodes s). mq_ucounts i \<noteq> None"
    and u: "\<And>u. mq_charged s u = (if ops then charge_sum s u else 0)"
  shows "mq_ns_inv acct ops (mq_iput ops p s)"
proof (cases "p \<in> held s")
  case True
  then have "dom (mq_inodes s) = held s" "mq_iput ops p s = s" using d by (auto simp: mq_iput_def held_def)
  then show ?thesis using fin fs c u by (simp add: mq_ns_inv_def)
next
  case False
  then have e: "mq_iput ops p s = mqueue_evict_inode ops p s" by (simp add: mq_iput_def held_def)
  obtain i where i: "mq_inodes s p = Some i" using d by blast
  let ?F = "(mq_inodes s)(p := None)"
  have dom: "dom ?F = held s" using d False by auto
  have card: "int (card (dom ?F)) = int (card (dom (mq_inodes s))) - 1" 
  proof -
    have "p \<in> dom (mq_inodes s)" using i by blast
    from card_Suc_Diff1 [OF fin this] show ?thesis by simp
  qed
  have sum: "charge_sum s u = (\<Sum>q \<in> dom ?F. queue_charge u (?F q)) + queue_charge u (Some i)" for u
    using charge_gone [OF fin i] by (simp add: charge_sum_def)
  have fh: "finite (held s)" unfolding dom [symmetric] using fin by simp
  have ran: "ran ?F \<subseteq> ran (mq_inodes s)" by (auto simp: ran_def split: if_splits)
  show ?thesis
  proof (cases "mq_ucounts i")
    case None
    then have "\<not> acct" using c(2) ranI [of "mq_inodes s", OF i] by blast
    moreover have "queue_charge u (Some i) = 0" for u using None by (simp add: queue_charge_def)
    moreover have "charge_sum (s\<lparr>mq_inodes := ?F\<rparr>) u = charge_sum s u" for u using sum [of u] calculation(2) by (simp add: charge_sum_def)
    moreover have t: "mq_iput ops p s = s\<lparr>mq_inodes := ?F\<rparr>" using None i by (simp add: e mqueue_evict_inode_def)
    ultimately show ?thesis using dom fs u fh unfolding t mq_ns_inv_def by simp
  next
    case (Some v)
    have q: "queue_charge u (Some i) = (if u = v then mq_bytes i else 0)" for u using Some by (auto simp: queue_charge_def)
    have r: "\<forall>i \<in> ran ?F. mq_ucounts i \<noteq> None" if acct using c(2) [OF that] ran by blast
    obtain t where t: "mq_iput ops p s = t" by blast
    have F: "mq_inodes t = ?F" "held t = held s" "mq_fs t" "mq_queues_count t = mq_queues_count s - 1"
        "mq_charged t = (if ops then (mq_charged s)(v := mq_charged s v - mq_bytes i) else mq_charged s)"
      using Some i fs by (simp_all add: t [symmetric] e mqueue_evict_inode_def mq_ucounts_uncharge_def Let_def held_def)
    have "charge_sum t u = charge_sum s u - queue_charge u (Some i)" for u using sum [of u] F(1) by (simp add: charge_sum_def)
    then show ?thesis using dom u q c(1) card fh r F unfolding t mq_ns_inv_def by simp
  qed
qed

section \<open>What a call on a queue leaves alone\<close>

definition mq_fixed :: "mqueue_inode_info \<Rightarrow> nat option \<times> int \<times> int" where
  "mq_fixed i = (mq_ucounts i, mq_maxmsg i, mq_msgsize i)"

lemma insert_fixed: "msg_insert e m i = (i', r) \<Longrightarrow> mq_fixed i' = mq_fixed i"
  by (auto simp: msg_insert_def mq_fixed_def Let_def split: prod.splits bool.splits if_splits)

lemma get_loop_fixed: "msg_get_loop fuel e i = Some (i', r) \<Longrightarrow> mq_fixed i' = mq_fixed i"
proof (induction fuel arbitrary: i)
  case (Suc fuel)
  have er: "mq_fixed (msg_tree_erase e k j) = mq_fixed j" for k j by (simp add: msg_tree_erase_def mq_fixed_def Let_def)
  show ?case using Suc.prems Suc.IH er
    by (auto simp: Let_def split: option.splits list.splits if_splits) (simp_all add: mq_fixed_def msg_tree_erase_def Let_def)
qed simp

lemma get_fixed: "msg_get e i = (i', r) \<Longrightarrow> mq_fixed i' = mq_fixed i"
  using get_loop_fixed by (auto simp: msg_get_def simp del: msg_get_loop.simps split: option.splits)

lemma lists_fixed: "mq_fixed (wq_add e sr i) = mq_fixed i" "mq_fixed (wq_del sr t i) = mq_fixed i" "mq_fixed (spare_leaf e i) = mq_fixed i"
  "mq_fixed (i\<lparr>mq_oops := b\<rparr>) = mq_fixed i"
  by (simp_all add: wq_add_def wq_del_def spare_leaf_def mq_fixed_def)

lemma notice_fixed: "do_notify e i = (i', ev) \<Longrightarrow> mq_fixed i' = mq_fixed i" "remove_notification i = (i', ev) \<Longrightarrow> mq_fixed i' = mq_fixed i"
  "mqueue_flush_file e i = (i', ev) \<Longrightarrow> mq_fixed i' = mq_fixed i"
  by (auto simp: do_notify_def remove_notification_def mqueue_flush_file_def mq_fixed_def Let_def split: option.splits if_splits)

lemma notify_fixed: "do_mq_notify e fd n cookie i = ((i', ev), r) \<Longrightarrow> mq_fixed i' = mq_fixed i"
  unfolding do_mq_notify_def mq_notify_set_def remove_notification_def
  by (auto simp: Let_def mq_fixed_def split: option.splits mq_fd.splits if_splits)

lemma pipelined_fixed: "pipelined_receive e i st = ((i', st'), wake) \<Longrightarrow> mq_fixed i' = mq_fixed i"
proof -
  assume c: "pipelined_receive e i st = ((i', st'), wake)"
  show ?thesis
  proof (cases "wq_get_first_waiter i SEND")
    case None
    then show ?thesis using c by (simp add: pipelined_receive_def)
  next
    case (Some t)
    show ?thesis
    proof (cases "Option.bind (st t) ew_msg")
      case None
      then have "i' = i\<lparr>mq_oops := True\<rparr>" using c Some by (simp add: pipelined_receive_def)
      then show ?thesis by (simp add: lists_fixed)
    next
      case m: (Some m)
      obtain j x where j: "msg_insert e m i = (j, x)" by fastforce
      have "mq_fixed i' = mq_fixed j" using c Some m j lists_fixed(2)
        by (cases x) (auto simp: pipelined_receive_def pipelined_op_def)
      then show ?thesis using insert_fixed [OF j] by simp
    qed
  qed
qed

lemma send_fixed: "mq_fixed (mo_info (mq_send e nb m i st)) = mq_fixed i"
proof -
  obtain j x where j: "msg_insert e m (spare_leaf e i) = (j, x)" by fastforce
  obtain k ev where k: "do_notify e j = (k, ev)" by fastforce
  show ?thesis using insert_fixed [OF j] notice_fixed(1) [OF k] j k
    by (cases "wq_get_first_waiter (spare_leaf e i) RECV"; cases x)
      (simp_all add: mq_send_def Let_def lists_fixed mq_pipelined_send_def pipelined_op_def)
qed

lemma receive_fixed: "mq_fixed (mo_info (mq_receive e nb i st)) = mq_fixed i"
proof -
  obtain j x where j: "msg_get e (spare_leaf e i) = (j, x)" by fastforce
  obtain k st' w where k: "pipelined_receive e j st = ((k, st'), w)" by (metis prod.collapse)
  show ?thesis using get_fixed [OF j] pipelined_fixed [OF k] j k
    by (cases x) (simp_all add: mq_receive_def Let_def lists_fixed)
qed

lemma wake_fixed: "wq_wake e timed_out sr i st = (i', r) \<Longrightarrow> mq_fixed i' = mq_fixed i"
  by (auto simp: wq_wake_def Let_def lists_fixed split: option.splits if_splits)

lemma resume_fixed: "mq_fixed (mo_info (mq_send_resume e timed_out i st)) = mq_fixed i"
  "mq_fixed (mo_info (mq_receive_resume e timed_out i st)) = mq_fixed i"
proof -
  obtain j r where j: "wq_wake e timed_out SEND i st = (j, r)" by fastforce
  show "mq_fixed (mo_info (mq_send_resume e timed_out i st)) = mq_fixed i"
    using wake_fixed [OF j] by (cases r) (simp_all add: mq_send_resume_def j)
  obtain k x where k: "wq_wake e timed_out RECV i st = (k, x)" by fastforce
  show "mq_fixed (mo_info (mq_receive_resume e timed_out i st)) = mq_fixed i"
    using wake_fixed [OF k] by (auto simp: mq_receive_resume_def k lists_fixed split: mq_step.splits sum.splits option.splits)
qed

lemma step_fixed: "mq_step ok (i, st, W, A, D) (i', st', W', A', D') \<Longrightarrow> mq_fixed i' = mq_fixed i"
proof (induction "(i, st, W, A, D)" "(i', st', W', A', D')" rule: mq_step.induct)
  case (send e fd len prio loaded out r)
  then show ?case by (cases rule: timedsend_cases [of e fd len prio loaded i st]) (auto simp: send_fixed)
next
  case (send_sleep e fd len prio loaded out)
  then show ?case by (cases rule: timedsend_cases [of e fd len prio loaded i st]) (auto simp: send_fixed)
next
  case (receive e fd len out r)
  then show ?case by (cases rule: timedreceive_cases [of e fd len i st]) (auto simp: receive_fixed)
next
  case (receive_sleep e fd len out)
  then show ?case by (cases rule: timedreceive_cases [of e fd len i st]) (auto simp: receive_fixed)
next
  case (notify e fd n cookie ev r)
  then show ?case using notify_fixed by blast
next
  case (flush e ev)
  then show ?case using notice_fixed(3) by blast
qed (use resume_fixed in auto)

section \<open>The calls keep the invariant\<close>

lemma new_bytes: "mq_bytes (i\<lparr>mq_ucounts := u\<rparr>) = mq_bytes i"
  by (simp add: mq_bytes_def)

lemma get_inode_cases:
  assumes "mqueue_get_inode e attr s = (s', r)" "ns_env_ok acct ops e"
  obtains err where "r = Inl err" "s' = s"
  | p i where "r = Inr p" "mq_inodes s p = None" "mq_ucounts i = qn_ucounts e" "mq_fresh i" "mq_limits_check e s (mq_new_info s attr) = None"
      "mq_inodes s' = (mq_inodes s)(p \<mapsto> i)" "held s' = held s" "mq_fs s' = mq_fs s" "mq_queues_count s' = mq_queues_count s" "mq_names s' = mq_names s"
      "mq_files s' = mq_files s" "mq_charged s' = (\<lambda>u. mq_charged s u + (if ops then queue_charge u (Some i) else 0))"
proof (cases "qn_new e (\<lambda>p. mq_inodes s p \<noteq> None)")
  case None
  then have "s' = s" "r = Inl ENOMEM" using assms(1) by (simp_all add: mqueue_get_inode_def)
  then show thesis by (intro that(1))
next
  case (Some p)
  let ?i = "mq_new_info s attr"
  have p: "mq_inodes s p = None" using kmalloc_new [where f = "qn_new e" and p = p and used = "\<lambda>p. mq_inodes s p \<noteq> None"] Some assms(2) by (simp add: ns_env_ok_def)
  have o: "qn_rlimit_ops e = ops" using assms(2) by (simp add: ns_env_ok_def)
  show thesis
  proof (cases "mq_limits_check e s ?i")
    case err: (Some err)
    then have "s' = s" "r = Inl err" using assms(1) Some by (simp_all add: mqueue_get_inode_def)
    then show thesis by (intro that(1))
  next
    case ok: None
    have pos: "0 < mq_maxmsg ?i" using ok by (auto simp: mq_limits_check_def split: if_splits)
    then have fr: "mq_fresh (?i\<lparr>mq_ucounts := u\<rparr>)" for u by (simp add: mq_fresh_def mq_new_info_def)
    show thesis
    proof (cases "qn_ucounts e")
      case None
      have u: "mq_ucounts ?i = None" by (simp add: mq_new_info_def)
      then have "?i\<lparr>mq_ucounts := None\<rparr> = ?i" by simp
      then have "mq_fresh ?i" using fr [of None] by simp
      moreover have R: "s' = s\<lparr>mq_inodes := (mq_inodes s)(p \<mapsto> ?i)\<rparr>" "r = Inr p"
        using assms(1) Some ok None by (simp_all add: mqueue_get_inode_def)
      moreover have "queue_charge v (Some ?i) = 0" for v using u by (simp add: queue_charge_def)
      then have "mq_charged s' = (\<lambda>v. mq_charged s v + (if ops then queue_charge v (Some ?i) else 0))"
        unfolding R(1) by (simp only: if_cancel add_0_right) simp
      ultimately show thesis using p ok u None by (intro that(2) [of p ?i]) (simp_all add: held_def)
    next
      case u: (Some u)
      obtain s1 n where c: "mq_ucounts_charge e u (mq_bytes ?i) s = (s1, n)" by fastforce
      have s1: "s1 = s\<lparr>mq_charged := (if ops then (mq_charged s)(u := mq_charged s u + mq_bytes ?i) else mq_charged s)\<rparr>"
        using c o by (auto simp: mq_ucounts_charge_def Let_def split: if_splits)
      show thesis
      proof (cases "n = LONG_MAX_WORD \<or> n > qn_rlimit e")
        case True
        have same: "mq_ucounts_uncharge ops u (mq_bytes ?i) s1 = s" unfolding s1 by (cases ops) (simp_all add: mq_ucounts_uncharge_def)
        have "mqueue_get_inode e attr s = (s, Inl EMFILE)" unfolding mqueue_get_inode_def Some option.case Let_def ok u c prod.case o same using True by (simp only: if_True)
        then show thesis using assms(1) by (intro that(1) [of EMFILE]) simp_all
      next
        case False
        have "mqueue_get_inode e attr s = (s1\<lparr>mq_inodes := (mq_inodes s1)(p \<mapsto> ?i\<lparr>mq_ucounts := Some u\<rparr>)\<rparr>, Inr p)"
          unfolding mqueue_get_inode_def Some option.case Let_def ok u c prod.case using False by (simp only: if_False)
        then have R: "r = Inr p" "s' = s1\<lparr>mq_inodes := (mq_inodes s1)(p \<mapsto> ?i\<lparr>mq_ucounts := Some u\<rparr>)\<rparr>" using assms(1) by simp_all
        have q: "queue_charge v (Some (?i\<lparr>mq_ucounts := Some u\<rparr>)) = (if v = u then mq_bytes ?i else 0)" for v
          by (simp add: queue_charge_def new_bytes)
        have "mq_charged s' = (\<lambda>v. mq_charged s v + (if ops then queue_charge v (Some (?i\<lparr>mq_ucounts := Some u\<rparr>)) else 0))"
          unfolding R(2) s1 q by auto
        then show thesis
          using that(2) [of p "?i\<lparr>mq_ucounts := Some u\<rparr>"] R p ok u fr [of "Some u"] by (simp add: s1 held_def)
      qed
    qed
  qed
qed

lemma create_inv:
  assumes inv: "mq_ns_inv acct ops s" and e: "ns_env_ok acct ops e" and n: "mq_names s name = None"
    and call: "mqueue_create_attr e name attr s = (s', r)"
  shows "mq_ns_inv acct ops s'" "r = Inr p \<Longrightarrow> p \<in> held s'" "mq_files s' = mq_files s"
proof -
  have "mq_ns_inv acct ops s' \<and> (r = Inr p \<longrightarrow> p \<in> held s') \<and> mq_files s' = mq_files s"
  proof (cases "mq_queues_count s \<ge> mq_queues_max s \<and> \<not> cur_ns_capable (qe_task (qn_env e)) CAP_SYS_RESOURCE")
    case True
    then have "s' = s" "r = Inl ENOSPC" using call ns_parts(3) [OF inv] by (simp_all add: mqueue_create_attr_def)
    then show ?thesis using inv by simp
  next
    case False
    let ?s = "s\<lparr>mq_queues_count := mq_queues_count s + 1\<rparr>"
    obtain t x where g: "mqueue_get_inode e attr ?s = (t, x)" by fastforce
    note create = mqueue_create_attr_def [of e name attr s, unfolded g]
    show ?thesis
    proof (cases rule: get_inode_cases [OF g e])
      case (1 err)
      then have "s' = s" using call False ns_parts(3) [OF inv] create by auto
      moreover have "r = Inl err" using call False ns_parts(3) [OF inv] create 1 by simp
      ultimately show ?thesis using inv by simp
    next
      case (2 q i)
      have R: "r = Inr q" "s' = t\<lparr>mq_names := (mq_names t)(name \<mapsto> q)\<rparr>" using call False ns_parts(3) [OF inv] create 2(1) by simp_all
      have hd: "held s' = insert q (held s)" using n 2(10,11) by (simp add: R(2) held_def)
      have dm: "dom (mq_inodes s') = insert q (dom (mq_inodes s))" using 2(6) by (simp add: R(2))
      have fresh: "mq_inodes s q = None" using 2(2) by simp
      have cs: "charge_sum s' u = charge_sum s u + queue_charge u (Some i)" for u
        using charge_new [OF ns_parts(1) [OF inv] fresh, of u i] 2(6) by (simp add: R(2) charge_sum_def)
      have "int (card (dom (mq_inodes s'))) = int (card (dom (mq_inodes s))) + 1"
        using fresh ns_parts(1) [OF inv] by (simp add: dm domIff)
      moreover have "\<forall>j \<in> ran (mq_inodes s'). mq_ucounts j \<noteq> None" if acct
      proof -
        have "mq_ucounts i \<noteq> None" using 2(3) e that by (simp add: ns_env_ok_def)
        moreover have "ran (mq_inodes s') = insert i (ran (mq_inodes s))" using fresh 2(6) by (simp add: R(2))
        moreover have "\<forall>j \<in> ran (mq_inodes s). mq_ucounts j \<noteq> None" using ns_parts(5) [OF inv that] by blast
        ultimately show ?thesis by simp
      qed
      moreover have "mq_charged s' u = (if ops then charge_sum s' u else 0)" for u
        using ns_parts(6) [OF inv, of u] cs [of u] 2(12) by (simp add: R(2))
      moreover have "mq_fs s'" "mq_queues_count s' = mq_queues_count s + 1" "mq_files s' = mq_files s" using 2(8,9,11) ns_parts(3) [OF inv] by (simp_all add: R(2))
      ultimately show ?thesis
        using ns_parts(1,2,4) [OF inv] hd dm R(1) unfolding mq_ns_inv_def by simp
    qed
  qed
  then show "mq_ns_inv acct ops s'" "r = Inr p \<Longrightarrow> p \<in> held s'" "mq_files s' = mq_files s" by blast+
qed

lemma inv_held:
  assumes "mq_ns_inv acct ops s" "mq_inodes s' = mq_inodes s" "held s' = held s" "mq_fs s' = mq_fs s"
    "mq_queues_count s' = mq_queues_count s" "mq_charged s' = mq_charged s"
  shows "mq_ns_inv acct ops s'"
proof -
  have "charge_sum s' u = charge_sum s u" for u using assms(2) by (simp add: charge_sum_def)
  then show ?thesis using ns_parts [OF assms(1)] unfolding mq_ns_inv_def assms(2-6) by simp
qed

lemma open_inv:
  assumes inv: "mq_ns_inv acct ops s" and e: "ns_env_ok acct ops e" and call: "do_mq_open e oflag attr s = (s', r)"
  shows "mq_ns_inv acct ops s'"
proof -
  have prep: "mq_ns_inv acct ops t \<and> (x = Inr p \<longrightarrow> p \<in> held t)"
    if "prepare_open e name oflag attr s = (t, x)" for name t x p
  proof (cases "mq_names s name")
    case None
    have "t = s \<and> (\<exists>err. x = Inl err) \<or> mqueue_create_attr e name attr s = (t, x)"
      using that None by (auto simp: prepare_open_def split: if_splits option.splits)
    then consider "t = s" "\<exists>err. x = Inl err" | "mqueue_create_attr e name attr s = (t, x)" by blast
    then show ?thesis using create_inv(1,2) [OF inv e None] inv by cases auto
  next
    case (Some q)
    then have "t = s" "x = Inr q \<or> (\<exists>err. x = Inl err)" using that by (auto simp: prepare_open_def split: if_splits option.splits)
    then show ?thesis using inv Some ranI [of "mq_names s", OF Some] by (auto simp: held_def)
  qed
  have "s' = s \<or> (\<exists>name t x. prepare_open e name oflag attr s = (t, x) \<and> (s' = t
      \<or> (\<exists>p f. x = Inr p \<and> qn_file e (\<lambda>f. mq_files t f \<noteq> None) = Some f \<and> s' = t\<lparr>mq_files := (mq_files t)(f \<mapsto> (p, qn_mode e oflag))\<rparr>)))"
  proof (cases "mq_mnt s \<and> qn_fd e = None \<and> (\<exists>name y. qn_name e = Inr name \<and> mq_lookup e name s = Inr y)")
    case True
    then obtain name y where N: "qn_name e = Inr name" "mq_lookup e name s = Inr y" "mq_mnt s" "qn_fd e = None" by blast
    obtain t x where P: "prepare_open e name oflag attr s = (t, x)" by fastforce
    have "s' = t \<or> (\<exists>p f. x = Inr p \<and> qn_file e (\<lambda>f. mq_files t f \<noteq> None) = Some f \<and> s' = t\<lparr>mq_files := (mq_files t)(f \<mapsto> (p, qn_mode e oflag))\<rparr>)"
    proof (cases x)
      case (Inl err)
      then show ?thesis using call N P by (simp add: do_mq_open_def)
    next
      case (Inr p)
      then show ?thesis using call N P
        by (cases "qn_dopen e"; cases "qn_file e (\<lambda>f. mq_files t f \<noteq> None)") (simp_all add: do_mq_open_def)
    qed
    then show ?thesis using P by blast
  next
    case False
    then have "s' = s" using call by (cases "qn_name e") (auto simp: do_mq_open_def split: if_splits option.splits sum.splits)
    then show ?thesis by simp
  qed
  then consider "s' = s" | name t x where "prepare_open e name oflag attr s = (t, x)" "s' = t"
    | name t p f where "prepare_open e name oflag attr s = (t, Inr p)" "qn_file e (\<lambda>f. mq_files t f \<noteq> None) = Some f"
        "s' = t\<lparr>mq_files := (mq_files t)(f \<mapsto> (p, qn_mode e oflag))\<rparr>" by blast
  then show ?thesis
  proof cases
    case 1
    then show ?thesis using inv by simp
  next
    case (2 name t x)
    then show ?thesis using prep by blast
  next
    case (3 name t p f)
    have P: "mq_ns_inv acct ops t" "p \<in> held t" using prep [OF 3(1)] by blast+
    have "kmalloc_ok (qn_file e)" using e by (simp add: ns_env_ok_def)
    then have "\<not> (mq_files t f \<noteq> None)" using 3(2) by (rule kmalloc_new [where f = "qn_file e" and p = f and used = "\<lambda>f. mq_files t f \<noteq> None"])
    then have "mq_files t f = None" by blast
    then have "held s' = held t" using P(2) by (auto simp: 3(3) held_def)
    from inv_held [OF P(1) _ this] show ?thesis by (simp add: 3(3))
  qed
qed

lemma unlink_inv:
  assumes inv: "mq_ns_inv acct ops s" and e: "ns_env_ok acct ops e" and call: "mq_unlink e s = (s', r)"
  shows "mq_ns_inv acct ops s'"
proof -
  have "s' = s \<or> (\<exists>name p. mq_names s name = Some p \<and> s' = mq_iput ops p (s\<lparr>mq_names := (mq_names s)(name := None)\<rparr>))"
    using call e unfolding mq_unlink_def mq_lookup_def ns_env_ok_def by (auto split: if_splits sum.splits option.splits)
  then consider "s' = s" | name p where "mq_names s name = Some p" "s' = mq_iput ops p (s\<lparr>mq_names := (mq_names s)(name := None)\<rparr>)" by blast
  then show ?thesis
  proof cases
    case 1
    then show ?thesis using inv by simp
  next
    case (2 name p)
    let ?s = "s\<lparr>mq_names := (mq_names s)(name := None)\<rparr>"
    have "ran (mq_names s) = insert p (ran ((mq_names s)(name := None)))"
      by (rule ran_remove [of "mq_names s", OF 2(1)])
    then have "dom (mq_inodes ?s) = insert p (held ?s)" using ns_parts(2) [OF inv] by (auto simp: held_def)
    then show ?thesis unfolding 2(2) using ns_parts [OF inv] by (intro iput_inv) simp_all
  qed
qed

lemma close_inv:
  assumes inv: "mq_ns_inv acct ops s" and e: "ns_env_ok acct ops e"
  shows "mq_ns_inv acct ops (mq_close e f s)"
proof (cases "mq_files s f")
  case None
  then show ?thesis using inv by (simp add: mq_close_def)
next
  case (Some a)
  obtain p g where a: "a = (p, g)" by fastforce
  show ?thesis
  proof (cases "mq_inodes s p")
    case None
    then show ?thesis using inv Some a by (simp add: mq_close_def)
  next
    case i: (Some i)
    obtain i' ev where fl: "mqueue_flush_file (qn_env e) i = (i', ev)" by fastforce
    let ?s = "s\<lparr>mq_inodes := (mq_inodes s)(p \<mapsto> i')\<rparr>" and ?t = "s\<lparr>mq_inodes := (mq_inodes s)(p \<mapsto> i'), mq_files := (mq_files s)(f := None)\<rparr>"
    have "mq_fixed i' = mq_fixed i" by (rule notice_fixed(3) [OF fl])
    then have inv': "mq_ns_inv acct ops ?s" by (intro inv_same [OF inv i]) (simp_all add: mq_fixed_def)
    have "fst ` ran (mq_files s) = insert p (fst ` ran ((mq_files s)(f := None)))"
    proof -
      have "ran (mq_files s) = insert (p, g) (ran ((mq_files s)(f := None)))" using Some a by (intro ran_remove) simp
      then show ?thesis by simp
    qed
    then have "held ?s = insert p (held ?t)" by (auto simp: held_def)
    then have d: "dom (mq_inodes ?t) = insert p (held ?t)" using ns_parts(2) [OF inv'] by simp
    obtain t where t: "?t = t" by blast
    have F: "mq_inodes t = mq_inodes ?s" "mq_fs t = mq_fs ?s" "mq_queues_count t = mq_queues_count ?s" "mq_charged t = mq_charged ?s"
      by (simp_all add: t [symmetric])
    have cs: "charge_sum t u = charge_sum ?s u" for u using F(1) by (simp add: charge_sum_def)
    have "mq_ns_inv acct ops (mq_iput ops p t)"
      using d ns_parts(1,3-5) [OF inv'] ns_parts(6) [OF inv'] unfolding t by (intro iput_inv) (simp_all only: F cs, blast+)
    then show ?thesis using Some a i fl e by (simp add: mq_close_def ns_env_ok_def t)
  qed
qed

lemma mq_ns_step_inv: "mq_ns_step acct ops s t \<Longrightarrow> mq_ns_inv acct ops s \<Longrightarrow> mq_ns_inv acct ops t"
proof (induction rule: mq_ns_step.induct)
  case (create e s name attr s' r)
  then show ?case using create_inv(1) by blast
next
  case (mq_open e oflag attr s s' r)
  then show ?case using open_inv by blast
next
  case (mq_rm e s s' r)
  then show ?case using unlink_inv by blast
next
  case (mq_shut e s f)
  then show ?case using close_inv by blast
next
  case (use s p i ok st W A D i' st' W' A' D')
  then show ?case using inv_same step_fixed unfolding mq_fixed_def by (metis prod.inject)
next
  case (mq_sysctl s a b c d f)
  show ?case by (rule inv_held [OF mq_sysctl]) (simp_all add: held_def)
qed

lemma mq_boot_inv: "mq_ns_inv acct ops (mq_boot s)"
  by (simp add: mq_ns_inv_def mq_boot_def mq_init_ns_def held_def charge_sum_def Let_def)

lemma mq_ns_reachable_inv: "mq_ns_reachable acct ops s \<Longrightarrow> mq_ns_inv acct ops s"
proof -
  assume "mq_ns_reachable acct ops s"
  then obtain s0 where "(mq_ns_step acct ops)\<^sup>*\<^sup>* (mq_boot s0) s" unfolding mq_ns_reachable_def by blast
  then show ?thesis by (induction rule: rtranclp_induct) (rule mq_boot_inv, rule mq_ns_step_inv)
qed

lemma mq_ns_reachable_step: "mq_ns_reachable acct ops s \<Longrightarrow> mq_ns_step acct ops s t \<Longrightarrow> mq_ns_reachable acct ops t"
  unfolding mq_ns_reachable_def by (meson rtranclp.rtrancl_into_rtrancl)

lemma mq_boot_reachable: "mq_ns_reachable acct ops (mq_boot s)"
  unfolding mq_ns_reachable_def by blast

end
