(* ===== verification/MqMain.thy ===== *)
theory MqMain
  imports MqAcct
begin

text \<open>
  What holds of POSIX message queues: messages, waiters and counters of one queue under any
  interleaving, the tree as a priority queue, and the queues of a namespace with their
  accounting; with a small queue on which the properties are evaluated.
\<close>

section \<open>A sample queue\<close>

fun list_tree :: "posix_msg_tree_node list \<Rightarrow> mq_tree" where
  "list_tree [] = Leaf"
| "list_tree (n # ns) = Node Leaf n (list_tree ns)"

definition pq_rb :: rb_ops where
  "pq_rb = \<lparr>rb_insert_color = (\<lambda>k t. t), rb_erase = (\<lambda>k t. list_tree (filter (\<lambda>n. nd_priority n \<noteq> k) (inorder t))),
            rb_prev = (\<lambda>k t. before k (inorder t))\<rparr>"

definition pq_env :: mq_env where
  "pq_env = \<lparr>qe_task = plain_env 1 1000, qe_prio = (\<lambda>_. 0), qe_rb = pq_rb, qe_leaf = True, qe_atomic = True, qe_exec = (\<lambda>_. None)\<rparr>"

definition pq_new :: kmalloc where "pq_new = (\<lambda>used. if used 7 then None else Some 7)"

definition pq_call :: "bool \<Rightarrow> nat option \<Rightarrow> mq_ns_env" where
  "pq_call ops u = \<lparr>qn_env = pq_env, qn_new = pq_new, qn_file = pq_new,
     qn_mode = (\<lambda>fl. \<lparr>mf_read = True, mf_write = True, mf_nonblock = False\<rparr>), qn_ucounts = u, qn_rlimit_ops = ops, qn_over = False,
     qn_rlimit = 819200, qn_name = Inr ''q'', qn_fd = None, qn_ro = None, qn_has_alloc = True, qn_alloc = None,
     qn_mkobj = None, qn_perm = None, qn_dopen = None, qn_unlink = None\<rparr>"

definition pq_ns :: mq_ns where
  "pq_ns = mq_boot \<lparr>mq_inodes = Map.empty, mq_names = Map.empty, mq_files = Map.empty, mq_fs = False, mq_mnt = False,
     mq_queues_count = 0, mq_queues_max = 0, mq_msg_max = 0, mq_msgsize_max = 0, mq_msg_default = 0,
     mq_msgsize_default = 0, mq_charged = (\<lambda>_. 0)\<rparr>"

definition pq_info :: mqueue_inode_info where "pq_info = mq_new_info pq_ns None"

definition pq_msg :: msg_msg where "pq_msg = \<lparr>m_type = 0, m_ts = 3, m_head = [1, 2, 3], m_next = []\<rparr>"

definition pq_sent :: "(unit result) mq_out" where
  "pq_sent = do_mq_timedsend pq_env (MqFile \<lparr>mf_read = True, mf_write = True, mf_nonblock = False\<rparr>) 3 5 (Inr pq_msg) pq_info Map.empty"

lemmas pq_defs = pq_env_def pq_call_def pq_new_def plain_env_def

lemma list_tree_inorder [simp]: "inorder (list_tree ns) = ns"
  by (induction ns) simp_all

lemma pq_rb_ok: "rb_ok pq_rb"
  by (simp add: rb_ok_def pq_rb_def)

lemma pq_info_eq: "pq_info = \<lparr>msg_tree = Leaf, msg_tree_rightmost = None, node_cache = False, mq_maxmsg = 10, mq_msgsize = 8192,
      mq_curmsgs = 0, mq_notify = \<lparr>sigev_notify = 0, sigev_signo = 0, sigev_value = 0\<rparr>, notify_owner = None,
      notify_self_exec_id = 0, notify_cookie = None, mq_ucounts = None, e_wait_q = (\<lambda>_. []), qsize = 0, mq_oops = False\<rparr>"
  by (simp add: pq_info_def mq_new_info_def pq_ns_def mq_boot_def mq_init_ns_def Let_def mq_limits)

lemma pq_fresh: "mq_fresh pq_info"
  by (simp add: mq_fresh_def pq_info_eq)

lemma pq_wf: "mq_wf pq_info" "mq_content pq_info = []"
  by (simp_all add: pq_info_eq mq_wf_def tree_ok_def counts_ok_def mq_content_def)

section \<open>The tree as a priority queue\<close>

lemma content_sorted:
  assumes "mq_wf i"
  shows "sorted_wrt (\<lambda>x y. m_type y \<le> m_type x) (mq_content i)"
proof -
  have "nodes_sorted ns \<Longrightarrow> nodes_full ns \<Longrightarrow> sorted_wrt (\<lambda>x y. m_type y \<le> m_type x) (node_msgs ns)" for ns
  proof (induction ns)
    case (Cons n ns)
    have n: "sorted_wrt (\<lambda>x y. m_type y \<le> m_type x) (nd_msgs n)"
      using Cons.prems by (auto simp: sorted_wrt_iff_nth_less)
    have "\<forall>x \<in> set (node_msgs ns). nd_priority n \<le> m_type x"
      using node_msgs_type [of ns] Cons.prems by fastforce
    then show ?case using Cons n by (auto simp: sorted_wrt_append)
  qed simp
  then show ?thesis using assms by (simp add: mq_wf_def tree_ok_def mq_content_def)
qed

lemma drain_all:
  assumes "rb_ok (qe_rb e)"
  shows "mq_wf i \<Longrightarrow> mq_content i = ms \<Longrightarrow> mq_drain (length ms + 1) e i = Some ms"
proof (induction ms arbitrary: i)
  case Nil
  then show ?case using msg_get_wf(1) [OF assms Nil.prems] by simp
next
  case (Cons m ms)
  obtain i' where "msg_get e i = (i', Some m)" "mq_wf i'" "mq_content i' = ms" using msg_get_wf(2) [OF assms Cons.prems] by blast
  then show ?case using Cons.IH by simp
qed

text \<open>C15. Messages: on a well-formed queue inserting a message puts it behind those of its priority and of
  the higher ones, or changes nothing when there is no memory for a node; taking one takes the
  oldest of the highest priority, or finds the queue empty and changes nothing; both keep the
  queue well formed (tree, rightmost node, counters) and everything else of it. The messages are
  in order of priority, and the loop at the end of a queue takes all of them.\<close>

theorem msg_ops_refine:
  assumes "rb_ok (qe_rb e)" "mq_wf i"
  shows "(case msg_insert e m i of
            (i', None) \<Rightarrow> mq_wf i' \<and> mq_content i' = mq_enqueue m (mq_content i) \<and> mq_rest i' = mq_rest i
          | (i', Some err) \<Rightarrow> i' = i \<and> err = ENOMEM \<and> \<not> node_cache i \<and> \<not> qe_atomic e)
    \<and> (case msg_get e i of
            (i', None) \<Rightarrow> i' = i \<and> mq_content i = []
          | (i', Some x) \<Rightarrow> mq_wf i' \<and> mq_content i = x # mq_content i' \<and> mq_rest i' = mq_rest i)
    \<and> sorted_wrt (\<lambda>x y. m_type y \<le> m_type x) (mq_content i)
    \<and> mq_drain (length (mq_content i) + 1) e i = Some (mq_content i)"
proof (intro conjI)
  show "case msg_insert e m i of
            (i', None) \<Rightarrow> mq_wf i' \<and> mq_content i' = mq_enqueue m (mq_content i) \<and> mq_rest i' = mq_rest i
          | (i', Some err) \<Rightarrow> i' = i \<and> err = ENOMEM \<and> \<not> node_cache i \<and> \<not> qe_atomic e"
    using msg_insert_wf [OF assms, of m] by (cases "msg_insert e m i"; cases "snd (msg_insert e m i)") simp_all
  show "case msg_get e i of
            (i', None) \<Rightarrow> i' = i \<and> mq_content i = []
          | (i', Some x) \<Rightarrow> mq_wf i' \<and> mq_content i = x # mq_content i' \<and> mq_rest i' = mq_rest i"
    using msg_get_wf [OF assms] by (cases "mq_content i") fastforce+
qed (rule content_sorted [OF assms(2)], rule drain_all [OF assms refl])

theorem msg_ops_refine_witness: "mq_drain 1 pq_env pq_info = Some []"
  using msg_ops_refine [of pq_env pq_info pq_msg] pq_wf pq_rb_ok by (simp add: pq_env_def)

section \<open>One queue and all its users\<close>

text \<open>C8. After any interleaving of sends, receives, wake-ups, time-outs, signals, notifications and closes the
  queue never follows a bad pointer, its counters are exact and within the limit, and no message
  is lost or made up: those of the sends that succeeded are those that were received or are in the
  queue, counting the hand-overs under way. The two lists hold exactly the tasks that sleep and
  have not been told; none waits to receive while there is a message, and (with memory for
  nodes) none waits to send while there is room.\<close>

theorem mq_reachable_sound:
  assumes "mq_reachable ok (i, st, W, A, D)"
  shows "\<not> mq_oops i \<and> mq_curmsgs i = int (length (mq_content i)) \<and> mq_curmsgs i \<le> mq_maxmsg i
    \<and> qsize i = of_nat (sum_list (map m_ts (mq_content i)))
    \<and> A + done_msgs SEND st W = D + done_msgs RECV st W + mset (mq_content i)
    \<and> (\<forall>sr. distinct (e_wait_q i sr) \<and> set (e_wait_q i sr) = {t. W t = Some sr \<and> \<not> told st t})
    \<and> (e_wait_q i RECV = [] \<or> mq_content i = [])
    \<and> (e_wait_q i SEND = [] \<or> \<not> ok \<or> mq_curmsgs i = mq_maxmsg i)"
proof -
  have inv: "mq_sys_inv ok (i, st, W, A, D)" by (rule mq_reachable_inv [OF assms])
  note B = base_parts [OF mq_inv_parts(1) [OF inv]]
  show ?thesis
    using B mq_inv_parts(2,3) [OF inv] unfolding mq_wf_def counts_ok_def waits_ok_def mq_conserved_def by blast
qed

lemma pq_sent_step: "mq_reachable True (mo_info pq_sent, Map.empty, Map.empty, {#sent_msg pq_msg 3 5#}, {#})"
proof -
  have "mo_step pq_sent = MqReturn (Inr ()) \<and> mo_stacks pq_sent = Map.empty"
    by (simp add: pq_sent_def do_mq_timedsend_def mq_send_def MQ_PRIO_MAX_def pq_info_eq spare_leaf_def wq_get_first_waiter_def msg_insert_def
      sent_msg_def pq_env_def pq_rb_def do_notify_def Let_def)
  then have s: "mo_step pq_sent = MqReturn (Inr ())" "mo_stacks pq_sent = Map.empty" by simp_all
  have e: "mq_env_ok True pq_env" using pq_rb_ok by (simp add: mq_env_ok_def pq_env_def)
  have W: "(Map.empty :: mq_sleep) (mq_cur pq_env) = None" by simp
  from mq_step.send [where ok = True and A = "{#}" and D = "{#}", OF e W pq_sent_def [symmetric] s(1)]
  have "mq_step True (pq_info, Map.empty, Map.empty, {#}, {#}) (mo_info pq_sent, Map.empty, Map.empty, {#sent_msg pq_msg 3 5#}, {#})"
    by (simp add: s(2) accepted_def)
  then show ?thesis by (rule mq_reachable_step [OF mq_fresh_reachable [OF pq_fresh]])
qed

theorem mq_reachable_sound_witness: "mset (mq_content (mo_info pq_sent)) = {#sent_msg pq_msg 3 5#} \<and> qsize (mo_info pq_sent) = 3"
  using mq_reachable_sound [OF pq_sent_step] by (auto simp: done_msgs_def done_tasks_def sent_msg_def)

section \<open>The queues of a namespace\<close>

text \<open>C16. In every reachable state of a namespace every queue has a name or an open file and every name and open
  file has its queue; what is charged to a user is the sum of the charges of the queues charged to
  that user, nothing if the kernel cannot charge; and if every creator had an accounting object the
  count of the queues is exact.\<close>

theorem mq_ns_accounting:
  assumes "mq_ns_reachable acct ops s"
  shows "finite (dom (mq_inodes s)) \<and> dom (mq_inodes s) = ran (mq_names s) \<union> fst ` ran (mq_files s)
    \<and> mq_charged s u = (if ops then \<Sum>p \<in> dom (mq_inodes s). queue_charge u (mq_inodes s p) else 0)
    \<and> (\<not> acct \<or> mq_queues_count s = int (card (dom (mq_inodes s))))"
  using ns_parts [OF mq_ns_reachable_inv [OF assms]] by (auto simp: held_def charge_sum_def)

definition pq_made :: mq_ns where
  "pq_made = fst (mqueue_create_attr (pq_call True (Some 4)) ''q'' None pq_ns)"

lemma pq_ns_eq: "pq_ns = \<lparr>mq_inodes = Map.empty, mq_names = Map.empty, mq_files = Map.empty, mq_fs = True, mq_mnt = True,
     mq_queues_count = 0, mq_queues_max = 256, mq_msg_max = 10, mq_msgsize_max = 8192, mq_msg_default = 10,
     mq_msgsize_default = 8192, mq_charged = (\<lambda>_. 0)\<rparr>"
  by (simp add: pq_ns_def mq_boot_def mq_init_ns_def Let_def mq_limits)

lemma pq_call_ok: "ns_env_ok acct ops (pq_call ops u)" if "acct \<Longrightarrow> u \<noteq> None"
  using that by (auto simp: ns_env_ok_def pq_call_def pq_new_def kmalloc_ok_def split: if_splits)

lemma pq_made_reachable: "mq_ns_reachable True True pq_made"
proof -
  have "mq_ns_reachable True True pq_ns" unfolding mq_ns_reachable_def pq_ns_def by blast
  moreover have "mq_ns_step True True pq_ns pq_made"
    using mq_ns_step.create [OF pq_call_ok [of True "Some 4" True], of pq_ns "''q''" None pq_made "snd (mqueue_create_attr (pq_call True (Some 4)) ''q'' None pq_ns)"]
    by (simp add: pq_made_def pq_ns_eq)
  ultimately show ?thesis by (rule mq_ns_reachable_step)
qed

theorem mq_ns_accounting_witness: "mq_queues_count pq_made = int (card (dom (mq_inodes pq_made)))"
  using mq_ns_accounting [OF pq_made_reachable] by simp

section \<open>Queues made without accounting\<close>

text \<open>Making a queue without an accounting object and removing its name gives back everything but the count.\<close>

definition mq_cycled :: "int \<Rightarrow> mq_ns" where
  "mq_cycled n = pq_ns\<lparr>mq_queues_count := n\<rparr>"

lemma cycle_create:
  assumes "n < 256"
  shows "mqueue_create_attr (pq_call ops None) ''q'' None (mq_cycled n)
    = ((mq_cycled (n + 1))\<lparr>mq_inodes := [7 \<mapsto> pq_info], mq_names := [''q'' \<mapsto> 7]\<rparr>, Inr 7)"
  using assms
  by (simp add: mqueue_create_attr_def mq_cycled_def pq_ns_eq mqueue_get_inode_def pq_call_def pq_new_def mq_new_info_def pq_info_eq
    mq_limits_check_def pq_env_def plain_env_def mq_treesize_def MQ_PRIO_MAX_def Let_def)

lemma cycle_unlink:
  "mq_unlink (pq_call ops None) ((mq_cycled n)\<lparr>mq_inodes := [7 \<mapsto> pq_info], mq_names := [''q'' \<mapsto> 7]\<rparr>) = (mq_cycled n, Inr ())"
  by (simp add: mq_unlink_def mq_cycled_def pq_ns_eq pq_call_def mq_lookup_def mq_iput_def mqueue_evict_inode_def pq_info_eq)

lemma cycled_reachable: "n \<le> 256 \<Longrightarrow> mq_ns_reachable False ops (mq_cycled (int n))"
proof (induction n)
  case 0
  have "mq_cycled (int 0) = pq_ns" by (simp add: mq_cycled_def pq_ns_eq)
  then show ?case unfolding mq_ns_reachable_def pq_ns_def by auto
next
  case (Suc n)
  let ?e = "pq_call ops None"
  have e: "ns_env_ok False ops ?e" by (rule pq_call_ok) simp
  have n: "int n < 256" using Suc.prems by simp
  have f: "mq_names (mq_cycled (int n)) ''q'' = None" by (simp add: mq_cycled_def pq_ns_eq)
  note r = mq_ns_reachable_step [OF _ mq_ns_step.create [OF e f cycle_create [OF n, of ops]]]
  have "mq_ns_reachable False ops (mq_cycled (int n))" using Suc by simp
  from mq_ns_reachable_step [OF r [OF this] mq_ns_step.mq_rm [OF e cycle_unlink]]
  show ?case by (simp add: add.commute)
qed

text \<open>C20. A queue whose creator has no accounting object is never taken off the count when it goes away. So a
  namespace in which no queue, no name and no open file is left can have its count at the limit, and
  then refuses every new queue of a caller without the capability.\<close>

theorem mq_queue_leak:
  assumes "\<not> cur_ns_capable (qe_task (qn_env e)) CAP_SYS_RESOURCE"
  shows "\<exists>s. mq_ns_reachable False ops s \<and> mq_inodes s = Map.empty \<and> mq_names s = Map.empty \<and> mq_files s = Map.empty
    \<and> mq_queues_count s = mq_queues_max s \<and> mqueue_create_attr e name attr s = (s, Inl ENOSPC)"
proof -
  have "mqueue_create_attr e name attr (mq_cycled 256) = (mq_cycled 256, Inl ENOSPC)"
    using assms by (simp add: mqueue_create_attr_def mq_cycled_def pq_ns_eq)
  moreover have "mq_ns_reachable False ops (mq_cycled 256)" using cycled_reachable [of 256] by simp
  ultimately show ?thesis by (intro exI [of _ "mq_cycled 256"]) (simp add: mq_cycled_def pq_ns_eq)
qed

theorem mq_queue_leak_witness: "\<exists>s. mq_inodes s = Map.empty \<and> mqueue_create_attr (pq_call False None) ''r'' None s = (s, Inl ENOSPC)"
  using mq_queue_leak [of "pq_call False None" False "''r''" None] by (auto simp: pq_defs)

end
