(* ===== verification/SlotTable.thy ===== *)
theory SlotTable
  imports Prelude "HOL-Library.Sublist"
begin

text \<open>
  The system call slots (\<^verbatim>\<open>src/src/main/slot/ds_slot.c\<close>): which calls the module serves and for whom,
  how their entries in the two tables of the kernel are replaced, and how the tables are put back.

  The tables are the memory \<open>sl_mem\<close>, by table and number. Writing to them, probing them and looking
  their addresses up are answers of the patch library of the project, which is not part of the
  repository; an address of a handler or of a thunk is an argument.
\<close>

section \<open>The calls and their rows\<close>

text \<open>Numbers of the 64 bit table that the kernel's headers give; those of the 32 bit table are in the code.\<close>

definition NR_unshare :: int where "NR_unshare = 97"
definition NR_reboot :: int where "NR_reboot = 142"
definition NR_clone :: int where "NR_clone = 220"
definition NR_clone3 :: int where "NR_clone3 = 435"

lemmas slot_nrs = NR_unshare_def NR_reboot_def NR_clone_def NR_clone3_def

record ipc_slot =
  is_nr :: int
  is_nr32 :: int
  is_name :: string
  is_needs_mqueue :: bool

text \<open>
  The list of rows; \<open>X32\<close> marks the calls that take a 32 bit timespec. A row without an entry
  in the 32 bit table has 0 there.
\<close>

definition ipc_slots :: "bool \<Rightarrow> bool \<Rightarrow> ipc_slot list" where
  "ipc_slots has_compat time32 =
     (let X = (\<lambda>name nr nr32 mq. \<lparr>is_nr = nr, is_nr32 = (if has_compat then nr32 else 0), is_name = name, is_needs_mqueue = mq\<rparr>);
          X32 = (\<lambda>name nr nr32 mq. \<lparr>is_nr = nr, is_nr32 = (if has_compat \<and> time32 then nr32 else 0), is_name = name, is_needs_mqueue = mq\<rparr>)
      in [X ''mq_open'' 180 274 True, X ''mq_unlink'' 181 275 True, X32 ''mq_timedsend'' 182 276 True,
          X32 ''mq_timedreceive'' 183 277 True, X ''mq_notify'' 184 278 True, X ''mq_getsetattr'' 185 279 True,
          X ''msgget'' 186 303 False, X ''msgctl'' 187 304 False, X ''msgrcv'' 188 302 False, X ''msgsnd'' 189 301 False,
          X ''semget'' 190 299 False, X ''semctl'' 191 300 False, X32 ''semtimedop'' 192 312 False, X ''semop'' 193 298 False,
          X ''shmget'' 194 307 False, X ''shmctl'' 195 308 False, X ''shmat'' 196 305 False, X ''shmdt'' 197 306 False])"

section \<open>State\<close>

type_synonym table_mem = "ptr \<Rightarrow> int \<Rightarrow> 64 word"

record slot_save =
  sv_tab :: ptr
  sv_nr :: int
  sv_orig :: "64 word"

text \<open>The variables that keep the former entries, by the name of the call; 0 is the null pointer.\<close>

datatype orig_var = Orig string | Orig32 string

record slot_state =
  sl_mem :: table_mem
  sl_sys :: "ptr option"
  sl_compat :: "ptr option"
  sl_saves :: "slot_save list"
  sl_orig :: "orig_var \<Rightarrow> 64 word"
  sl_patched :: "nat \<Rightarrow> bool"
  sl_patched32 :: "nat \<Rightarrow> bool"

datatype ds_owner = OwnKernel | OwnModule | OwnNone

record slot_env =
  xe_write :: "ptr \<Rightarrow> int \<Rightarrow> 64 word \<Rightarrow> errno option"
  xe_read :: "ptr \<Rightarrow> int \<Rightarrow> bool"
  xe_handler :: "string \<Rightarrow> 64 word"
  xe_thunk :: "string \<Rightarrow> 64 word"
  xe_thunk32 :: "string \<Rightarrow> 64 word"
  xe_config_compat :: bool
  xe_config_time32 :: bool
  xe_sys_tab :: "ptr option"
  xe_compat_tab :: "ptr option"
  xe_sc_init :: "errno option"
  xe_skip_sysvipc :: bool
  xe_sysv_owner :: ds_owner
  xe_ipcns_owner :: ds_owner
  xe_mqueue_ready :: bool

section \<open>One entry\<close>

definition SLOT_SAVE_MAX :: nat where "SLOT_SAVE_MAX = 64"

definition mem_upd :: "ptr \<Rightarrow> int \<Rightarrow> 64 word \<Rightarrow> slot_state \<Rightarrow> slot_state" where
  "mem_upd t nr v s = s\<lparr>sl_mem := (sl_mem s)(t := (sl_mem s t)(nr := v))\<rparr>"

text \<open>The former entry is answered as soon as it has been saved, whether the write works or not.\<close>

definition slot_patch :: "slot_env \<Rightarrow> ptr option \<Rightarrow> int \<Rightarrow> 64 word \<Rightarrow> slot_state \<Rightarrow> slot_state \<times> 64 word option \<times> errno option" where
  "slot_patch e tab nr fn s =
     (case tab of
        None \<Rightarrow> (s, None, Some EINVAL)
      | Some t \<Rightarrow>
          if nr < 0 then (s, None, Some EINVAL)
          else if length (sl_saves s) \<ge> SLOT_SAVE_MAX then (s, None, Some ENOSPC)
          else if \<exists>v \<in> set (sl_saves s). sv_tab v = t \<and> sv_nr v = nr then (s, None, Some EEXIST)
          else
            (let was = sl_mem s t nr;
                 s = s\<lparr>sl_saves := sl_saves s @ [\<lparr>sv_tab = t, sv_nr = nr, sv_orig = was\<rparr>]\<rparr>
             in case xe_write e t nr fn of
                  Some err \<Rightarrow> (s, Some was, Some err)
                | None \<Rightarrow> (mem_upd t nr fn s, Some was, None)))"

fun find_save :: "ptr \<Rightarrow> int \<Rightarrow> slot_save list \<Rightarrow> nat option" where
  "find_save t nr [] = None"
| "find_save t nr (v # vs) = (if sv_tab v = t \<and> sv_nr v = nr then Some 0 else map_option Suc (find_save t nr vs))"

text \<open>The last entry of the list of saves moves to the place of the one that goes.\<close>

definition drop_save :: "nat \<Rightarrow> slot_save list \<Rightarrow> slot_save list" where
  "drop_save i vs = take (length vs - 1) (vs[i := last vs])"

definition slot_unpatch :: "slot_env \<Rightarrow> ptr option \<Rightarrow> int \<Rightarrow> slot_state \<Rightarrow> slot_state" where
  "slot_unpatch e tab nr s =
     (case tab of
        None \<Rightarrow> s
      | Some t \<Rightarrow>
          (case find_save t nr (sl_saves s) of
             None \<Rightarrow> s
           | Some i \<Rightarrow>
               (let was = sv_orig (sl_saves s ! i);
                    s = (if xe_write e t nr was = None then mem_upd t nr was s else s)
                in s\<lparr>sl_saves := drop_save i (sl_saves s)\<rparr>)))"

section \<open>The rows\<close>

definition ipc_attach :: "slot_env \<Rightarrow> ptr option \<Rightarrow> int \<Rightarrow> 64 word \<Rightarrow> orig_var \<Rightarrow> slot_state \<Rightarrow> slot_state \<times> errno option" where
  "ipc_attach e tab nr fn var s =
     (case tab of
        None \<Rightarrow> (s, Some EIO)
      | Some t \<Rightarrow>
          if \<not> xe_read e t nr then (s, Some EIO)
          else
            (case slot_patch e tab nr fn s of
               (s, was, Some err) \<Rightarrow> (s, Some EIO)
             | (s, was, None) \<Rightarrow> (s\<lparr>sl_orig := (sl_orig s)(var := (case was of Some w \<Rightarrow> w | None \<Rightarrow> 0))\<rparr>, None)))"

definition ipc_row_skipped :: "slot_env \<Rightarrow> ipc_slot \<Rightarrow> bool" where
  "ipc_row_skipped e r =
     (if is_needs_mqueue r then \<not> xe_mqueue_ready e
      else xe_sysv_owner e = OwnKernel \<and> xe_ipcns_owner e = OwnKernel)"

text \<open>The loops over the rows, \<open>i\<close> being the number of the first of those that are left.\<close>

fun patch_compat_rows :: "slot_env \<Rightarrow> nat \<Rightarrow> ipc_slot list \<Rightarrow> slot_state \<Rightarrow> slot_state" where
  "patch_compat_rows e i [] s = s"
| "patch_compat_rows e i (r # rs) s =
     (if is_nr32 r = 0 \<or> ipc_row_skipped e r then patch_compat_rows e (Suc i) rs s
      else
        (case ipc_attach e (sl_compat s) (is_nr32 r) (xe_thunk32 e (is_name r)) (Orig32 (is_name r)) s of
           (s, Some err) \<Rightarrow> patch_compat_rows e (Suc i) rs s
         | (s, None) \<Rightarrow> patch_compat_rows e (Suc i) rs (s\<lparr>sl_patched32 := (sl_patched32 s)(i := True)\<rparr>)))"

definition slot_patch_ipc_compat :: "slot_env \<Rightarrow> slot_state \<Rightarrow> slot_state" where
  "slot_patch_ipc_compat e s =
     (if sl_compat s = None then s else patch_compat_rows e 0 (ipc_slots (xe_config_compat e) (xe_config_time32 e)) s)"

fun patch_rows :: "slot_env \<Rightarrow> nat \<Rightarrow> ipc_slot list \<Rightarrow> slot_state \<Rightarrow> slot_state \<times> nat \<times> nat" where
  "patch_rows e i [] s = (s, 0, 0)"
| "patch_rows e i (r # rs) s =
     (if ipc_row_skipped e r
      then (case patch_rows e (Suc i) rs s of (s, patched, skipped) \<Rightarrow> (s, patched, Suc skipped))
      else
        (case ipc_attach e (sl_sys s) (is_nr r) (xe_thunk e (is_name r)) (Orig (is_name r)) s of
           (s, Some err) \<Rightarrow> patch_rows e (Suc i) rs s
         | (s, None) \<Rightarrow>
             (case patch_rows e (Suc i) rs (s\<lparr>sl_patched := (sl_patched s)(i := True)\<rparr>) of
                (s, patched, skipped) \<Rightarrow> (s, Suc patched, skipped))))"

definition slot_patch_ipc :: "slot_env \<Rightarrow> slot_state \<Rightarrow> slot_state \<times> errno option" where
  "slot_patch_ipc e s =
     (if xe_skip_sysvipc e then (s, None)
      else
        (case patch_rows e 0 (ipc_slots (xe_config_compat e) (xe_config_time32 e)) s of
           (s, patched, skipped) \<Rightarrow>
             (slot_patch_ipc_compat e s, if patched = 0 \<and> skipped = 0 then Some ENODATA else None)))"

section \<open>Start and end\<close>

text \<open>A slot whose former entry goes straight to its variable.\<close>

definition patch_call :: "slot_env \<Rightarrow> string \<Rightarrow> int \<Rightarrow> slot_state \<Rightarrow> slot_state \<times> errno option" where
  "patch_call e name nr s =
     (case slot_patch e (sl_sys s) nr (xe_handler e name) s of
        (s, None, r) \<Rightarrow> (s, r)
      | (s, Some was, r) \<Rightarrow> (s\<lparr>sl_orig := (sl_orig s)(Orig name := was)\<rparr>, r))"

definition clone_slot_install :: "slot_env \<Rightarrow> slot_state \<Rightarrow> slot_state \<times> errno option" where
  "clone_slot_install e s =
     (case patch_call e ''clone'' NR_clone s of
        (s, Some err) \<Rightarrow> (s, Some err)
      | (s, None) \<Rightarrow>
          (case patch_call e ''clone3'' NR_clone3 s of
             (s, Some err) \<Rightarrow> (slot_unpatch e (sl_sys s) NR_clone s, Some err)
           | (s, None) \<Rightarrow> (s, None)))"

text \<open>The function hooks \<^verbatim>\<open>droid_lkm_slot_init\<close> installs between the rows and the clone slots leave the tables alone.\<close>

definition slot_init :: "slot_env \<Rightarrow> slot_state \<Rightarrow> slot_state \<times> errno option" where
  "slot_init e s =
     (let s = s\<lparr>sl_sys := xe_sys_tab e, sl_compat := (if xe_config_compat e then xe_compat_tab e else None)\<rparr>
      in case xe_sc_init e of
           Some err \<Rightarrow> (s, Some err)
         | None \<Rightarrow>
             (case patch_call e ''unshare'' NR_unshare s of
                (s, Some err) \<Rightarrow> (s, Some err)
              | (s, None) \<Rightarrow>
                  (case patch_call e ''reboot'' NR_reboot s of
                     (s, Some err) \<Rightarrow> (slot_unpatch e (sl_sys s) NR_unshare s, Some err)
                   | (s, None) \<Rightarrow> (fst (clone_slot_install e (fst (slot_patch_ipc e s))), None))))"

fun unpatch_rows :: "slot_env \<Rightarrow> nat \<Rightarrow> ipc_slot list \<Rightarrow> slot_state \<Rightarrow> slot_state" where
  "unpatch_rows e i [] s = s"
| "unpatch_rows e i (r # rs) s =
     (let s = (if sl_patched s i then (slot_unpatch e (sl_sys s) (is_nr r) s)\<lparr>sl_patched := (sl_patched s)(i := False)\<rparr> else s);
          s = (if sl_patched32 s i then (slot_unpatch e (sl_compat s) (is_nr32 r) s)\<lparr>sl_patched32 := (sl_patched32 s)(i := False)\<rparr> else s)
      in unpatch_rows e (Suc i) rs s)"

definition unpatch_call :: "slot_env \<Rightarrow> string \<Rightarrow> int \<Rightarrow> slot_state \<Rightarrow> slot_state" where
  "unpatch_call e name nr s = (if sl_orig s (Orig name) \<noteq> 0 then slot_unpatch e (sl_sys s) nr s else s)"

definition slot_exit :: "slot_env \<Rightarrow> slot_state \<Rightarrow> slot_state" where
  "slot_exit e s =
     unpatch_call e ''unshare'' NR_unshare
       (unpatch_call e ''reboot'' NR_reboot
         (unpatch_call e ''clone'' NR_clone
           (unpatch_call e ''clone3'' NR_clone3
             (unpatch_rows e 0 (ipc_slots (xe_config_compat e) (xe_config_time32 e)) s))))"

section \<open>Who is served\<close>

text \<open>
  What the gate looks at in the calling task: for each of its namespaces whether the module made
  it, and the name of the program.
\<close>

record slot_task =
  tk_pid_ours :: bool
  tk_nsproxy :: bool
  tk_children_ours :: bool
  tk_ipc_ours :: bool
  tk_ipc_host :: bool
  tk_kthread :: bool
  tk_mm :: bool
  tk_comm :: string
  tk_exe :: "string option"

definition world_task :: "slot_task \<Rightarrow> bool" where
  "world_task t =
     (if tk_pid_ours t then True
      else if \<not> tk_nsproxy t then False
      else if tk_children_ours t then True
      else tk_ipc_ours t \<and> \<not> tk_ipc_host t)"

definition is_droidspaces :: "slot_task \<Rightarrow> bool" where
  "is_droidspaces t =
     (if tk_kthread t \<or> \<not> tk_mm t then False
      else if take 11 (tk_comm t) \<noteq> ''droidspaces'' \<and> tk_comm t \<noteq> ''[ds-monitor]'' then False
      else (case tk_exe t of None \<Rightarrow> False | Some exe \<Rightarrow> sublist ''droidspaces'' exe))"

definition gate_allow :: "bool \<Rightarrow> slot_task \<Rightarrow> bool" where
  "gate_allow enabled t = (if \<not> enabled then True else world_task t \<or> is_droidspaces t)"

text \<open>Where a call ends up: in the module, at an address of the kernel, or nowhere.\<close>

datatype call_target = Served string | Served32 string | Kernel "64 word" | NoCall

definition ipc_orig_call :: "64 word \<Rightarrow> call_target" where
  "ipc_orig_call orig = (if orig = 0 then NoCall else Kernel orig)"

definition ipc_thunk :: "bool \<Rightarrow> slot_task \<Rightarrow> slot_state \<Rightarrow> string \<Rightarrow> call_target" where
  "ipc_thunk enabled t s name = (if gate_allow enabled t then Served name else ipc_orig_call (sl_orig s (Orig name)))"

definition ipc_thunk32 :: "bool \<Rightarrow> slot_task \<Rightarrow> slot_state \<Rightarrow> string \<Rightarrow> call_target" where
  "ipc_thunk32 enabled t s name = (if gate_allow enabled t then Served32 name else ipc_orig_call (sl_orig s (Orig32 name)))"

end
