(* ===== verification/SlotLaws.thy ===== *)
theory SlotLaws
  imports SlotTable
begin

text \<open>
  The tables under patching: what the list of saves knows, what an entry that differs from the
  kernel's is accounted for by, and that taking back every entry gives the kernel's tables.
\<close>

section \<open>Saves and tables\<close>

definition saved :: "slot_state \<Rightarrow> ptr \<Rightarrow> int \<Rightarrow> bool" where
  "saved s t nr \<longleftrightarrow> (\<exists>v \<in> set (sl_saves s). sv_tab v = t \<and> sv_nr v = nr)"

definition tab_inv :: "table_mem \<Rightarrow> slot_state \<Rightarrow> bool" where
  "tab_inv m0 s \<longleftrightarrow> distinct (map (\<lambda>v. (sv_tab v, sv_nr v)) (sl_saves s))
     \<and> (\<forall>v \<in> set (sl_saves s). sv_orig v = m0 (sv_tab v) (sv_nr v))
     \<and> (\<forall>t nr. saved s t nr \<or> sl_mem s t nr = m0 t nr)"

text \<open>The fields the tables and the saves are not part of.\<close>

definition slot_rest :: "slot_state \<Rightarrow> slot_state" where
  "slot_rest s = s\<lparr>sl_mem := (\<lambda>_ _. 0), sl_saves := []\<rparr>"

lemma slot_rest_fields:
  assumes "slot_rest s' = slot_rest s"
  shows "sl_sys s' = sl_sys s" "sl_compat s' = sl_compat s" "sl_orig s' = sl_orig s" "sl_patched s' = sl_patched s" "sl_patched32 s' = sl_patched32 s"
  using arg_cong [OF assms, of sl_sys] arg_cong [OF assms, of sl_compat] arg_cong [OF assms, of sl_orig]
    arg_cong [OF assms, of sl_patched] arg_cong [OF assms, of sl_patched32]
  by (simp_all add: slot_rest_def)

lemma slot_rest_simps [simp]: "slot_rest (mem_upd t nr v s) = slot_rest s" "slot_rest (s\<lparr>sl_saves := vs\<rparr>) = slot_rest s"
  by (simp_all add: slot_rest_def mem_upd_def)

lemma mem_upd_simps [simp]: "sl_saves (mem_upd t nr v s) = sl_saves s" "sl_mem (mem_upd t nr v s) t' nr' = (if t' = t \<and> nr' = nr then v else sl_mem s t' nr')"
  by (simp_all add: mem_upd_def)

lemma patch_cases:
  assumes "slot_patch e tab nr fn s = (s', was, r)"
  obtains (refused) err where "s' = s" "was = None" "r = Some err"
  | (unwritten) t err where "tab = Some t" "\<not> saved s t nr" "was = Some (sl_mem s t nr)" "r = Some err"
      "s' = s\<lparr>sl_saves := sl_saves s @ [\<lparr>sv_tab = t, sv_nr = nr, sv_orig = sl_mem s t nr\<rparr>]\<rparr>"
  | (written) t where "tab = Some t" "\<not> saved s t nr" "was = Some (sl_mem s t nr)" "r = None"
      "s' = mem_upd t nr fn (s\<lparr>sl_saves := sl_saves s @ [\<lparr>sv_tab = t, sv_nr = nr, sv_orig = sl_mem s t nr\<rparr>]\<rparr>)"
proof (cases tab)
  case None
  then have "slot_patch e tab nr fn s = (s, None, Some EINVAL)" by (simp add: slot_patch_def)
  then show thesis using assms by (intro refused) simp_all
next
  case (Some t)
  let ?s = "s\<lparr>sl_saves := sl_saves s @ [\<lparr>sv_tab = t, sv_nr = nr, sv_orig = sl_mem s t nr\<rparr>]\<rparr>"
  show thesis
  proof (cases "nr < 0 \<or> length (sl_saves s) \<ge> SLOT_SAVE_MAX \<or> saved s t nr")
    case True
    then have "\<exists>err. slot_patch e tab nr fn s = (s, None, Some err)" using Some by (auto simp: slot_patch_def saved_def)
    then show thesis using assms by (auto intro: refused)
  next
    case False
    then have n: "\<not> saved s t nr" by blast
    have eq: "slot_patch e tab nr fn s = (case xe_write e t nr fn of Some err \<Rightarrow> (?s, Some (sl_mem s t nr), Some err)
        | None \<Rightarrow> (mem_upd t nr fn ?s, Some (sl_mem s t nr), None))"
      unfolding slot_patch_def Let_def saved_def [symmetric] using Some False by simp
    show thesis
    proof (cases "xe_write e t nr fn")
      case None
      then show thesis using eq assms by (intro written [OF Some n]) simp_all
    next
      case (Some err)
      then show thesis using eq assms by (intro unwritten [OF \<open>tab = Some t\<close> n]) simp_all
    qed
  qed
qed

lemma saved_append: "saved (s\<lparr>sl_saves := sl_saves s @ [v]\<rparr>) t nr \<longleftrightarrow> saved s t nr \<or> (sv_tab v = t \<and> sv_nr v = nr)"
  by (auto simp: saved_def)

lemma saved_mem [simp]: "saved (mem_upd a b c s) t nr = saved s t nr"
  by (simp add: saved_def)

lemma tab_inv_save:
  assumes "tab_inv m0 s" "\<not> saved s t nr"
  shows "tab_inv m0 (s\<lparr>sl_saves := sl_saves s @ [\<lparr>sv_tab = t, sv_nr = nr, sv_orig = sl_mem s t nr\<rparr>]\<rparr>)" "sl_mem s t nr = m0 t nr"
proof -
  show m: "sl_mem s t nr = m0 t nr" using assms unfolding tab_inv_def by blast
  show "tab_inv m0 (s\<lparr>sl_saves := sl_saves s @ [\<lparr>sv_tab = t, sv_nr = nr, sv_orig = sl_mem s t nr\<rparr>]\<rparr>)"
    using assms m unfolding tab_inv_def saved_append by (auto simp: saved_def)
qed

lemma patch_tab:
  assumes inv: "tab_inv m0 s" and call: "slot_patch e tab nr fn s = (s', was, r)"
  shows "tab_inv m0 s'" "slot_rest s' = slot_rest s" "saved s t n \<Longrightarrow> saved s' t n" "saved s t n \<Longrightarrow> sl_mem s' t n = sl_mem s t n"
    "sl_mem s' t n = sl_mem s t n \<or> (tab = Some t \<and> n = nr \<and> r = None)"
    "was = Some w \<Longrightarrow> \<exists>t. tab = Some t \<and> w = m0 t nr"
    "r = None \<Longrightarrow> \<exists>t. tab = Some t \<and> sl_mem s' t nr = fn \<and> saved s' t nr \<and> was = Some (m0 t nr)"
proof -
  have "tab_inv m0 s' \<and> slot_rest s' = slot_rest s \<and> (saved s t n \<longrightarrow> saved s' t n) \<and> (saved s t n \<longrightarrow> sl_mem s' t n = sl_mem s t n)
    \<and> (sl_mem s' t n = sl_mem s t n \<or> (tab = Some t \<and> n = nr \<and> r = None))
    \<and> (was = Some w \<longrightarrow> (\<exists>t. tab = Some t \<and> w = m0 t nr))
    \<and> (r = None \<longrightarrow> (\<exists>t. tab = Some t \<and> sl_mem s' t nr = fn \<and> saved s' t nr \<and> was = Some (m0 t nr)))"
    using call
  proof (cases rule: patch_cases)
    case (refused err)
    then show ?thesis using inv by simp
  next
    case (unwritten t err)
    then show ?thesis using tab_inv_save [OF inv unwritten(2)] by (simp add: saved_append)
  next
    case (written u)
    note I = tab_inv_save [OF inv written(2)]
    have "tab_inv m0 s'" unfolding written(5) using I by (auto simp: tab_inv_def saved_append)
    moreover have "sl_mem s' t n = (if t = u \<and> n = nr then fn else sl_mem s t n)" for t n by (simp add: written(5))
    moreover have "saved s' t n \<longleftrightarrow> saved s t n \<or> (t = u \<and> n = nr)" for t n by (auto simp: written(5) saved_append)
    moreover have "slot_rest s' = slot_rest s" by (simp add: written(5))
    ultimately show ?thesis using written(1-4) I(2) by auto
  qed
  then show "tab_inv m0 s'" "slot_rest s' = slot_rest s" "saved s t n \<Longrightarrow> saved s' t n" "saved s t n \<Longrightarrow> sl_mem s' t n = sl_mem s t n"
    "sl_mem s' t n = sl_mem s t n \<or> (tab = Some t \<and> n = nr \<and> r = None)"
    "was = Some w \<Longrightarrow> \<exists>t. tab = Some t \<and> w = m0 t nr"
    "r = None \<Longrightarrow> \<exists>t. tab = Some t \<and> sl_mem s' t nr = fn \<and> saved s' t nr \<and> was = Some (m0 t nr)" by blast+
qed

section \<open>Taking an entry back\<close>

lemma find_save_Some: "find_save t nr vs = Some i \<Longrightarrow> i < length vs \<and> sv_tab (vs ! i) = t \<and> sv_nr (vs ! i) = nr"
  by (induction t nr vs arbitrary: i rule: find_save.induct) (auto split: if_splits)

lemma find_save_None: "find_save t nr vs = None \<Longrightarrow> v \<in> set vs \<Longrightarrow> \<not> (sv_tab v = t \<and> sv_nr v = nr)"
  by (induction t nr vs rule: find_save.induct) (auto split: if_splits)

lemma drop_save_mset: "i < length vs \<Longrightarrow> add_mset (vs ! i) (mset (drop_save i vs)) = mset vs"
proof -
  assume i: "i < length vs"
  then obtain us u where vs: "vs = us @ [u]" by (cases vs rule: rev_cases) auto
  show ?thesis
  proof (cases "i = length us")
    case True
    then show ?thesis by (simp add: drop_save_def vs)
  next
    case False
    then have "i < length us" using i vs by simp
    then show ?thesis by (simp add: drop_save_def vs nth_append list_update_append mset_update)
  qed
qed

lemma drop_save_keys:
  assumes "i < length vs" "distinct (map f vs)"
  shows "distinct (map f (drop_save i vs))" "set (drop_save i vs) = {v \<in> set vs. f v \<noteq> f (vs ! i)}"
proof -
  have m: "add_mset (vs ! i) (mset (drop_save i vs)) = mset vs" by (rule drop_save_mset [OF assms(1)])
  then have "mset (map f vs) = add_mset (f (vs ! i)) (mset (map f (drop_save i vs)))" by (simp flip: m)
  then have d: "distinct (f (vs ! i) # map f (drop_save i vs))" using assms(2) by (metis mset.simps(2) mset_eq_imp_distinct_iff)
  then show "distinct (map f (drop_save i vs))" by simp
  have "set vs = insert (vs ! i) (set (drop_save i vs))" using arg_cong [OF m, of set_mset] by simp
  moreover have "f x \<noteq> f (vs ! i)" if "x \<in> set (drop_save i vs)" for x using d that by (metis distinct.simps(2) image_eqI set_map)
  ultimately show "set (drop_save i vs) = {v \<in> set vs. f v \<noteq> f (vs ! i)}" by auto
qed

definition writes_back :: "slot_env \<Rightarrow> table_mem \<Rightarrow> bool" where
  "writes_back e m0 \<longleftrightarrow> (\<forall>t nr. xe_write e t nr (m0 t nr) = None)"

lemma unpatch_tab:
  assumes inv: "tab_inv m0 s" and wb: "writes_back e m0"
  shows "tab_inv m0 (slot_unpatch e tab nr s)" "slot_rest (slot_unpatch e tab nr s) = slot_rest s"
    "sl_mem (slot_unpatch e tab nr s) t n = (if tab = Some t \<and> n = nr then m0 t n else sl_mem s t n)"
proof -
  let ?s = "slot_unpatch e tab nr s"
  have "tab_inv m0 ?s \<and> slot_rest ?s = slot_rest s \<and> (\<forall>t n. sl_mem ?s t n = (if tab = Some t \<and> n = nr then m0 t n else sl_mem s t n))"
  proof (cases tab)
    case None
    then show ?thesis using inv by (simp add: slot_unpatch_def)
  next
    case (Some u)
    show ?thesis
    proof (cases "find_save u nr (sl_saves s)")
      case None
      then have "\<not> saved s u nr" using find_save_None unfolding saved_def by blast
      then show ?thesis using inv None Some by (auto simp: slot_unpatch_def tab_inv_def)
    next
      case i: (Some i)
      note I = find_save_Some [OF i]
      let ?key = "\<lambda>v. (sv_tab v, sv_nr v)" and ?vs = "sl_saves s"
      have d: "distinct (map ?key ?vs)" using inv by (simp add: tab_inv_def)
      have w: "sv_orig (?vs ! i) = m0 u nr" using inv I nth_mem unfolding tab_inv_def by blast
      have s: "?s = (mem_upd u nr (m0 u nr) s)\<lparr>sl_saves := drop_save i ?vs\<rparr>"
        using wb by (simp add: slot_unpatch_def Some i Let_def w writes_back_def)
      have K: "set (drop_save i ?vs) = {v \<in> set ?vs. ?key v \<noteq> (u, nr)}" "distinct (map ?key (drop_save i ?vs))"
        using drop_save_keys [OF _ d, of i] I by auto
      have sv: "saved ?s t n \<longleftrightarrow> saved s t n \<and> (t, n) \<noteq> (u, nr)" for t n unfolding s saved_def by (auto simp: K)
      have m: "sl_mem ?s t n = (if t = u \<and> n = nr then m0 t n else sl_mem s t n)" for t n by (simp add: s)
      have "tab_inv m0 ?s"
        unfolding tab_inv_def sv m using inv K by (auto simp: s tab_inv_def)
      moreover have "slot_rest ?s = slot_rest s" by (simp add: s)
      ultimately show ?thesis using m Some by auto
    qed
  qed
  then show "tab_inv m0 ?s" "slot_rest ?s = slot_rest s" "sl_mem ?s t n = (if tab = Some t \<and> n = nr then m0 t n else sl_mem s t n)" by blast+
qed

section \<open>Who accounts for a changed entry\<close>

definition slot_calls :: "(string \<times> int) list" where
  "slot_calls = [(''unshare'', NR_unshare), (''reboot'', NR_reboot), (''clone'', NR_clone), (''clone3'', NR_clone3)]"

definition row_marked :: "ipc_slot list \<Rightarrow> slot_state \<Rightarrow> ptr \<Rightarrow> int \<Rightarrow> bool" where
  "row_marked rows s t nr \<longleftrightarrow>
     (\<exists>i < length rows. sl_patched s i \<and> sl_sys s = Some t \<and> nr = is_nr (rows ! i)
        \<or> sl_patched32 s i \<and> sl_compat s = Some t \<and> nr = is_nr32 (rows ! i))"

definition call_marked :: "slot_state \<Rightarrow> ptr \<Rightarrow> int \<Rightarrow> bool" where
  "call_marked s t nr \<longleftrightarrow> sl_sys s = Some t \<and> (\<exists>name. (name, nr) \<in> set slot_calls \<and> sl_orig s (Orig name) \<noteq> 0)"

definition marked_inv :: "ipc_slot list \<Rightarrow> table_mem \<Rightarrow> slot_state \<Rightarrow> bool" where
  "marked_inv rows m0 s \<longleftrightarrow> tab_inv m0 s
     \<and> (\<forall>t nr. sl_mem s t nr = m0 t nr \<or> row_marked rows s t nr \<or> call_marked s t nr)"

text \<open>A row's own variable is none of those of the four calls.\<close>

definition rows_ok :: "ipc_slot list \<Rightarrow> bool" where
  "rows_ok rows \<longleftrightarrow> distinct (map is_name rows) \<and> set (map is_name rows) \<inter> fst ` set slot_calls = {}"

lemma attach_cases:
  assumes "ipc_attach e tab nr fn var s = (s', r)"
  obtains (refused) err where "s' = s" "r = Some err"
  | (failed) s1 was err err' where "slot_patch e tab nr fn s = (s1, was, Some err')" "s' = s1" "r = Some err"
  | (attached) t s1 was where "tab = Some t" "slot_patch e tab nr fn s = (s1, was, None)" "r = None"
      "s' = s1\<lparr>sl_orig := (sl_orig s1)(var := (case was of Some w \<Rightarrow> w | None \<Rightarrow> 0))\<rparr>"
proof (cases "\<exists>t. tab = Some t \<and> xe_read e t nr")
  case False
  then have "\<exists>err. ipc_attach e tab nr fn var s = (s, Some err)" by (cases tab) (auto simp: ipc_attach_def)
  then show thesis using assms refused by auto
next
  case True
  then obtain t where t: "tab = Some t" "xe_read e t nr" by blast
  obtain s1 was q where p: "slot_patch e tab nr fn s = (s1, was, q)" by (metis prod_cases3)
  show thesis
  proof (cases q)
    case (Some err)
    then have "ipc_attach e tab nr fn var s = (s1, Some EIO)" using t p by (simp add: ipc_attach_def)
    then show thesis using assms p Some failed by simp
  next
    case None
    then have "ipc_attach e tab nr fn var s = (s1\<lparr>sl_orig := (sl_orig s1)(var := (case was of Some w \<Rightarrow> w | None \<Rightarrow> 0))\<rparr>, None)"
      using t p by (simp add: ipc_attach_def)
    then show thesis using assms attached [OF t(1)] p None by simp
  qed
qed

text \<open>What one attempt leaves of the rest, and what it says when it worked.\<close>

definition slot_keeps :: "table_mem \<Rightarrow> orig_var set \<Rightarrow> slot_state \<Rightarrow> slot_state \<Rightarrow> bool" where
  "slot_keeps m0 V s s' \<longleftrightarrow> tab_inv m0 s' \<and> sl_sys s' = sl_sys s \<and> sl_compat s' = sl_compat s
     \<and> (\<forall>t n. saved s t n \<longrightarrow> saved s' t n \<and> sl_mem s' t n = sl_mem s t n)
     \<and> (\<forall>v. v \<notin> V \<longrightarrow> sl_orig s' v = sl_orig s v)"

lemma slot_keeps_parts:
  assumes "slot_keeps m0 V s s'"
  shows "tab_inv m0 s'" "sl_sys s' = sl_sys s" "sl_compat s' = sl_compat s" "saved s t n \<Longrightarrow> saved s' t n" "saved s t n \<Longrightarrow> sl_mem s' t n = sl_mem s t n"
    "v \<notin> V \<Longrightarrow> sl_orig s' v = sl_orig s v"
  using assms unfolding slot_keeps_def by blast+

lemma slot_keeps_refl: "tab_inv m0 s \<Longrightarrow> slot_keeps m0 V s s"
  by (simp add: slot_keeps_def)

lemma slot_keeps_trans: "slot_keeps m0 V s t \<Longrightarrow> slot_keeps m0 W t u \<Longrightarrow> V \<subseteq> X \<Longrightarrow> W \<subseteq> X \<Longrightarrow> slot_keeps m0 X s u"
  unfolding slot_keeps_def by (metis subsetD)

lemma tab_inv_upd [simp]: "tab_inv m0 (s\<lparr>sl_orig := oo\<rparr>) = tab_inv m0 s" "tab_inv m0 (s\<lparr>sl_patched := p\<rparr>) = tab_inv m0 s"
  "tab_inv m0 (s\<lparr>sl_patched32 := p\<rparr>) = tab_inv m0 s" "saved (s\<lparr>sl_orig := oo\<rparr>) t n = saved s t n"
  "saved (s\<lparr>sl_patched := p\<rparr>) t n = saved s t n" "saved (s\<lparr>sl_patched32 := p\<rparr>) t n = saved s t n"
  by (simp_all add: tab_inv_def saved_def)

lemma attach_keeps:
  assumes inv: "tab_inv m0 s" and call: "ipc_attach e tab nr fn var s = (s', r)"
  shows "slot_keeps m0 {var} s s'" "sl_patched s' = sl_patched s" "sl_patched32 s' = sl_patched32 s"
    "r = Some err \<Longrightarrow> sl_mem s' = sl_mem s \<and> sl_orig s' = sl_orig s"
    "r = None \<Longrightarrow> \<exists>t. tab = Some t \<and> saved s' t nr \<and> sl_mem s' t nr = fn \<and> sl_orig s' var = m0 t nr
       \<and> (\<forall>u n. (u, n) \<noteq> (t, nr) \<longrightarrow> sl_mem s' u n = sl_mem s u n)"
proof -
  have "slot_keeps m0 {var} s s' \<and> sl_patched s' = sl_patched s \<and> sl_patched32 s' = sl_patched32 s
    \<and> (r = Some err \<longrightarrow> sl_mem s' = sl_mem s \<and> sl_orig s' = sl_orig s)
    \<and> (r = None \<longrightarrow> (\<exists>t. tab = Some t \<and> saved s' t nr \<and> sl_mem s' t nr = fn \<and> sl_orig s' var = m0 t nr
       \<and> (\<forall>u n. (u, n) \<noteq> (t, nr) \<longrightarrow> sl_mem s' u n = sl_mem s u n)))"
    using call
  proof (cases rule: attach_cases)
    case (refused err)
    then show ?thesis using inv slot_keeps_refl by simp
  next
    case (failed s1 was err err')
    note P = patch_tab [OF inv failed(1)]
    have "sl_mem s1 = sl_mem s" using P(5) by (intro ext) blast
    then show ?thesis using P(1,3,4) slot_rest_fields [OF P(2)] failed(2,3) by (simp add: slot_keeps_def)
  next
    case (attached t s1 was)
    note P = patch_tab [OF inv attached(2)]
    have "\<forall>u n. (u, n) \<noteq> (t, nr) \<longrightarrow> sl_mem s1 u n = sl_mem s u n" using P(5) attached(1) by blast
    moreover have "sl_mem s1 t nr = fn" "saved s1 t nr" "was = Some (m0 t nr)" using P(7) attached(1) by auto
    ultimately show ?thesis using P(1,3,4) slot_rest_fields [OF P(2)] attached(1,3,4) by (simp add: slot_keeps_def)
  qed
  then show "slot_keeps m0 {var} s s'" "sl_patched s' = sl_patched s" "sl_patched32 s' = sl_patched32 s"
    "r = Some err \<Longrightarrow> sl_mem s' = sl_mem s \<and> sl_orig s' = sl_orig s"
    "r = None \<Longrightarrow> \<exists>t. tab = Some t \<and> saved s' t nr \<and> sl_mem s' t nr = fn \<and> sl_orig s' var = m0 t nr
       \<and> (\<forall>u n. (u, n) \<noteq> (t, nr) \<longrightarrow> sl_mem s' u n = sl_mem s u n)" by blast+
qed

end
