(* ===== verification/SlotInit.thy ===== *)
theory SlotInit
  imports SlotLaws
begin

text \<open>
  The whole of start and end: every loop over the rows, the slots of the four calls, and what the
  tables and the variables hold after each.
\<close>

section \<open>Entries that lead to the module\<close>

definition wired :: "table_mem \<Rightarrow> ptr option \<Rightarrow> int \<Rightarrow> 64 word \<Rightarrow> orig_var \<Rightarrow> slot_state \<Rightarrow> bool" where
  "wired m0 tab nr fn var s \<longleftrightarrow> (\<exists>t. tab = Some t \<and> saved s t nr \<and> sl_mem s t nr = fn \<and> sl_orig s var = m0 t nr)"

lemma wired_keeps: "wired m0 tab nr fn var s \<Longrightarrow> slot_keeps m0 V s s' \<Longrightarrow> var \<notin> V \<Longrightarrow> wired m0 tab nr fn var s'"
  unfolding wired_def slot_keeps_def by (metis (no_types, lifting))

lemma wired_upd [simp]: "wired m0 tab nr fn var (s\<lparr>sl_patched := p\<rparr>) = wired m0 tab nr fn var s"
  "wired m0 tab nr fn var (s\<lparr>sl_patched32 := p\<rparr>) = wired m0 tab nr fn var s"
  by (simp_all add: wired_def)

lemma slot_keeps_upd [simp]: "slot_keeps m0 V s (s'\<lparr>sl_patched := p\<rparr>) = slot_keeps m0 V s s'" "slot_keeps m0 V s (s'\<lparr>sl_patched32 := p\<rparr>) = slot_keeps m0 V s s'"
  "slot_keeps m0 V (s\<lparr>sl_patched := p\<rparr>) s' = slot_keeps m0 V s s'" "slot_keeps m0 V (s\<lparr>sl_patched32 := p\<rparr>) s' = slot_keeps m0 V s s'"
  by (simp_all add: slot_keeps_def)

text \<open>
  The result of a loop over the rows from \<open>i\<close> on, with \<open>P\<close> the marks it sets: what a marked row
  says, and that nothing else of the tables changed.
\<close>

definition loop_ok :: "table_mem \<Rightarrow> ipc_slot list \<Rightarrow> (ipc_slot \<Rightarrow> int) \<Rightarrow> (string \<Rightarrow> 64 word) \<Rightarrow> (string \<Rightarrow> orig_var) \<Rightarrow> ptr option
    \<Rightarrow> nat \<Rightarrow> (nat \<Rightarrow> bool) \<Rightarrow> slot_state \<Rightarrow> (nat \<Rightarrow> bool) \<Rightarrow> slot_state \<Rightarrow> bool" where
  "loop_ok m0 rows nr fn var tab i P s P' s' \<longleftrightarrow>
     slot_keeps m0 ((\<lambda>r. var (is_name r)) ` set (drop i rows)) s s'
     \<and> (\<forall>j. j < i \<or> length rows \<le> j \<longrightarrow> P' j = P j)
     \<and> (\<forall>j. i \<le> j \<and> j < length rows \<and> P' j \<longrightarrow> wired m0 tab (nr (rows ! j)) (fn (is_name (rows ! j))) (var (is_name (rows ! j))) s')
     \<and> (\<forall>t n. sl_mem s' t n = sl_mem s t n \<or> tab = Some t \<and> (\<exists>j. i \<le> j \<and> j < length rows \<and> P' j \<and> n = nr (rows ! j)))"

lemma loop_end: "tab_inv m0 s \<Longrightarrow> length rows \<le> i \<Longrightarrow> loop_ok m0 rows nr fn var tab i P s P s"
  by (auto simp: loop_ok_def slot_keeps_refl)

text \<open>A row that is left out, or whose attempt failed without touching a table.\<close>

lemma loop_pass:
  assumes r: "drop i rows = r # rs" and P: "\<not> P i"
    and k: "slot_keeps m0 {var (is_name r)} s s1" "sl_mem s1 = sl_mem s" and l: "loop_ok m0 rows nr fn var tab (Suc i) P s1 P' s'"
  shows "loop_ok m0 rows nr fn var tab i P s P' s'"
proof -
  have d: "drop (Suc i) rows = rs" using r by (metis drop_Suc tl_drop list.sel(3))
  have i: "\<not> P' i" using l P by (simp add: loop_ok_def)
  have "slot_keeps m0 ((\<lambda>r. var (is_name r)) ` set (drop i rows)) s s'"
    by (rule slot_keeps_trans [OF k(1)]) (use l in \<open>auto simp: loop_ok_def r d\<close>)
  moreover have "\<forall>j. i \<le> j \<longrightarrow> P' j \<longrightarrow> Suc i \<le> j" using i by (metis le_eq_less_or_eq Suc_leI)
  ultimately show ?thesis using l k(2) unfolding loop_ok_def by (metis (no_types, lifting) Suc_leD less_Suc_eq)
qed

text \<open>A row that was attached.\<close>

lemma loop_hit:
  assumes r: "drop i rows = r # rs" and n: "distinct (map var (map is_name (drop i rows)))"
    and k: "slot_keeps m0 {var (is_name r)} s sa"
    and t: "tab = Some t" "saved sa t (nr r)" "sl_mem sa t (nr r) = fn (is_name r)" "sl_orig sa (var (is_name r)) = m0 t (nr r)"
      "\<forall>u m. (u, m) \<noteq> (t, nr r) \<longrightarrow> sl_mem sa u m = sl_mem s u m"
    and l: "loop_ok m0 rows nr fn var tab (Suc i) (P(i := True)) sa P' s'"
  shows "loop_ok m0 rows nr fn var tab i P s P' s'"
proof -
  have i: "i < length rows" "rows ! i = r" "drop (Suc i) rows = rs"
    using r by (metis drop_eq_Nil linorder_not_le list.distinct(1), metis nth_via_drop, metis drop_Suc tl_drop list.sel(3))
  have P: "P' i" using l by (simp add: loop_ok_def)
  have "slot_keeps m0 ((\<lambda>r. var (is_name r)) ` set (drop i rows)) s s'"
    by (rule slot_keeps_trans [OF k]) (use l in \<open>auto simp: loop_ok_def r i(3)\<close>)
  moreover have "wired m0 tab (nr r) (fn (is_name r)) (var (is_name r)) s'"
  proof (rule wired_keeps)
    show "wired m0 tab (nr r) (fn (is_name r)) (var (is_name r)) sa" using t by (simp add: wired_def)
    show "slot_keeps m0 ((\<lambda>r. var (is_name r)) ` set rs) sa s'" using l by (simp add: loop_ok_def i(3))
    show "var (is_name r) \<notin> (\<lambda>r. var (is_name r)) ` set rs" using n by (auto simp: r)
  qed
  moreover have "sl_mem s' u m = sl_mem s u m \<or> tab = Some u \<and> (\<exists>j. i \<le> j \<and> j < length rows \<and> P' j \<and> m = nr (rows ! j))" for u m
  proof (cases "(u, m) = (t, nr r)")
    case True
    then show ?thesis using P i t(1) by auto
  next
    case False
    then have "sl_mem sa u m = sl_mem s u m" using t(5) by blast
    then show ?thesis using l unfolding loop_ok_def by (metis Suc_leD)
  qed
  moreover have "P' j = P j" if "j < i \<or> length rows \<le> j" for j using l that i(1) by (auto simp: loop_ok_def)
  moreover have "wired m0 tab (nr (rows ! j)) (fn (is_name (rows ! j))) (var (is_name (rows ! j))) s'"
    if "Suc i \<le> j" "j < length rows" "P' j" for j using l that unfolding loop_ok_def by blast
  ultimately show ?thesis unfolding loop_ok_def by (metis i(2) le_eq_less_or_eq Suc_leI)
qed

lemma patch_rows_loop:
  assumes "patch_rows e i rs s = (s', p, k)" "rs = drop i rows" "tab_inv m0 s" "distinct (map is_name rows)" "\<forall>j \<ge> i. \<not> sl_patched s j"
  shows "loop_ok m0 rows is_nr (xe_thunk e) Orig (sl_sys s) i (sl_patched s) s (sl_patched s') s' \<and> sl_patched32 s' = sl_patched32 s"
  using assms
proof (induction rs arbitrary: i s p k)
  case Nil
  then have "length rows \<le> i" by (metis drop_eq_Nil)
  then show ?case using Nil loop_end by fastforce
next
  case (Cons r rs)
  have d: "drop i rows = r # rs" "rs = drop (Suc i) rows" using Cons.prems(2) by (metis, metis drop_Suc tl_drop list.sel(3))
  have n: "distinct (map Orig (map is_name (drop i rows)))"
    using Cons.prems(4) by (simp add: distinct_map drop_map [symmetric] distinct_drop inj_on_def)
  have P: "\<not> sl_patched s i" "\<forall>j \<ge> Suc i. \<not> sl_patched s j" using Cons.prems(5) by auto
  show ?case
  proof (cases "ipc_row_skipped e r")
    case True
    obtain k' where "patch_rows e (Suc i) rs s = (s', p, k')" using True Cons.prems(1) by (auto split: prod.splits)
    from Cons.IH [OF this d(2) Cons.prems(3,4) P(2)] show ?thesis
      using loop_pass [OF d(1), of "sl_patched s"] P(1) slot_keeps_refl [OF Cons.prems(3)] by blast
  next
    case False
    obtain s1 q where a: "ipc_attach e (sl_sys s) (is_nr r) (xe_thunk e (is_name r)) (Orig (is_name r)) s = (s1, q)" by fastforce
    note A = attach_keeps [OF Cons.prems(3) a]
    note K = slot_keeps_parts [OF A(1)]
    show ?thesis
    proof (cases q)
      case (Some err)
      then have "patch_rows e (Suc i) rs s1 = (s', p, k)" using False Cons.prems(1) a by simp
      from Cons.IH [OF this d(2) K(1) Cons.prems(4)] show ?thesis
        using loop_pass [OF d(1), of "sl_patched s"] P A(1-3) A(4) [OF Some] K(2) by simp
    next
      case None
      let ?s = "s1\<lparr>sl_patched := (sl_patched s1)(i := True)\<rparr>"
      obtain p' where "patch_rows e (Suc i) rs ?s = (s', p', k)" using False Cons.prems(1) a None by (auto split: prod.splits)
      from Cons.IH [OF this d(2) _ Cons.prems(4)]
      have l: "loop_ok m0 rows is_nr (xe_thunk e) Orig (sl_sys s) (Suc i) ((sl_patched s)(i := True)) ?s (sl_patched s') s'" "sl_patched32 s' = sl_patched32 s"
        using P(2) A(2,3) K(1,2) by (simp_all add: fun_upd_def)
      obtain t where t: "sl_sys s = Some t" "saved s1 t (is_nr r)" "sl_mem s1 t (is_nr r) = xe_thunk e (is_name r)"
          "sl_orig s1 (Orig (is_name r)) = m0 t (is_nr r)" "\<forall>u n. (u, n) \<noteq> (t, is_nr r) \<longrightarrow> sl_mem s1 u n = sl_mem s u n"
        using A(5) [OF None] by blast
      have "loop_ok m0 rows is_nr (xe_thunk e) Orig (sl_sys s) i (sl_patched s) s (sl_patched s') s'"
        by (rule loop_hit [where sa = ?s and t = t, OF d(1) n]) (use A(1) t l(1) in simp_all)
      then show ?thesis using l(2) by simp
    qed
  qed
qed

lemma patch_compat_loop:
  assumes "patch_compat_rows e i rs s = s'" "rs = drop i rows" "tab_inv m0 s" "distinct (map is_name rows)" "\<forall>j \<ge> i. \<not> sl_patched32 s j"
  shows "loop_ok m0 rows is_nr32 (xe_thunk32 e) Orig32 (sl_compat s) i (sl_patched32 s) s (sl_patched32 s') s' \<and> sl_patched s' = sl_patched s"
  using assms
proof (induction rs arbitrary: i s)
  case Nil
  then have "length rows \<le> i" by (metis drop_eq_Nil)
  then show ?case using Nil loop_end by fastforce
next
  case (Cons r rs)
  have d: "drop i rows = r # rs" "rs = drop (Suc i) rows" using Cons.prems(2) by (metis, metis drop_Suc tl_drop list.sel(3))
  have n: "distinct (map Orig32 (map is_name (drop i rows)))"
    using Cons.prems(4) by (simp add: distinct_map drop_map [symmetric] distinct_drop inj_on_def)
  have P: "\<not> sl_patched32 s i" "\<forall>j \<ge> Suc i. \<not> sl_patched32 s j" using Cons.prems(5) by auto
  show ?case
  proof (cases "is_nr32 r = 0 \<or> ipc_row_skipped e r")
    case True
    then have "patch_compat_rows e (Suc i) rs s = s'" using Cons.prems(1) by simp
    from Cons.IH [OF this d(2) Cons.prems(3,4) P(2)] show ?thesis
      using loop_pass [OF d(1), of "sl_patched32 s"] P(1) slot_keeps_refl [OF Cons.prems(3)] by blast
  next
    case False
    obtain s1 q where a: "ipc_attach e (sl_compat s) (is_nr32 r) (xe_thunk32 e (is_name r)) (Orig32 (is_name r)) s = (s1, q)" by fastforce
    note A = attach_keeps [OF Cons.prems(3) a]
    note K = slot_keeps_parts [OF A(1)]
    show ?thesis
    proof (cases q)
      case (Some err)
      then have "patch_compat_rows e (Suc i) rs s1 = s'" using False Cons.prems(1) a by simp
      from Cons.IH [OF this d(2) K(1) Cons.prems(4)] show ?thesis
        using loop_pass [OF d(1), of "sl_patched32 s"] P A(1-3) A(4) [OF Some] K(3) by simp
    next
      case None
      let ?s = "s1\<lparr>sl_patched32 := (sl_patched32 s1)(i := True)\<rparr>"
      have "patch_compat_rows e (Suc i) rs ?s = s'" using False Cons.prems(1) a None by simp
      from Cons.IH [OF this d(2) _ Cons.prems(4)]
      have l: "loop_ok m0 rows is_nr32 (xe_thunk32 e) Orig32 (sl_compat s) (Suc i) ((sl_patched32 s)(i := True)) ?s (sl_patched32 s') s'" "sl_patched s' = sl_patched s"
        using P(2) A(2,3) K(1,3) by (simp_all add: fun_upd_def)
      obtain t where t: "sl_compat s = Some t" "saved s1 t (is_nr32 r)" "sl_mem s1 t (is_nr32 r) = xe_thunk32 e (is_name r)"
          "sl_orig s1 (Orig32 (is_name r)) = m0 t (is_nr32 r)" "\<forall>u n. (u, n) \<noteq> (t, is_nr32 r) \<longrightarrow> sl_mem s1 u n = sl_mem s u n"
        using A(5) [OF None] by blast
      have "loop_ok m0 rows is_nr32 (xe_thunk32 e) Orig32 (sl_compat s) i (sl_patched32 s) s (sl_patched32 s') s'"
        by (rule loop_hit [where sa = ?s and t = t, OF d(1) n]) (use A(1) t l(1) in simp_all)
      then show ?thesis using l(2) by simp
    qed
  qed
qed

section \<open>The four calls\<close>

lemma patch_call_keeps:
  assumes inv: "tab_inv m0 s" and call: "patch_call e name nr s = (s', r)"
  shows "slot_keeps m0 {Orig name} s s'" "sl_patched s' = sl_patched s" "sl_patched32 s' = sl_patched32 s"
    "sl_mem s' t n = sl_mem s t n \<or> sl_sys s = Some t \<and> n = nr \<and> r = None"
    "r = None \<Longrightarrow> \<exists>t. sl_sys s = Some t \<and> sl_orig s' (Orig name) = m0 t nr \<and> sl_mem s' t nr = xe_handler e name"
    "sl_orig s' (Orig name) = sl_orig s (Orig name) \<or> (\<exists>t. sl_sys s = Some t \<and> sl_orig s' (Orig name) = m0 t nr)"
proof -
  obtain s1 was q where p: "slot_patch e (sl_sys s) nr (xe_handler e name) s = (s1, was, q)" by (metis prod_cases3)
  note P = patch_tab [OF inv p]
  note F = slot_rest_fields [OF P(2)]
  have s': "s' = (case was of None \<Rightarrow> s1 | Some w \<Rightarrow> s1\<lparr>sl_orig := (sl_orig s1)(Orig name := w)\<rparr>)" "r = q"
    using call p by (cases was; simp add: patch_call_def)+
  show "slot_keeps m0 {Orig name} s s'" "sl_patched s' = sl_patched s" "sl_patched32 s' = sl_patched32 s"
    using P(1,3,4) F by (auto simp: slot_keeps_def s' split: option.splits)
  show "sl_mem s' t n = sl_mem s t n \<or> sl_sys s = Some t \<and> n = nr \<and> r = None"
    using P(5) by (auto simp: s' split: option.splits)
  show "\<exists>t. sl_sys s = Some t \<and> sl_orig s' (Orig name) = m0 t nr \<and> sl_mem s' t nr = xe_handler e name" if "r = None"
    using P(7) that by (auto simp: s')
  show "sl_orig s' (Orig name) = sl_orig s (Orig name) \<or> (\<exists>t. sl_sys s = Some t \<and> sl_orig s' (Orig name) = m0 t nr)"
  proof (cases was)
    case None
    then show ?thesis using F(3) by (simp add: s')
  next
    case (Some w)
    then show ?thesis using P(6) [OF Some] by (simp add: s')
  qed
qed

end
