(* ===== verification/SlotMain.thy ===== *)
theory SlotMain
  imports SlotInit
begin

text \<open>
  What holds of the system call slots: after the start every entry is the kernel's or the
  module's, callers the gate refuses get the kernel's former entry, and the end puts every table
  back; with a small pair of tables on which that is evaluated.
\<close>

section \<open>The rows\<close>

abbreviation the_rows :: "slot_env \<Rightarrow> ipc_slot list" where
  "the_rows e \<equiv> ipc_slots (xe_config_compat e) (xe_config_time32 e)"

lemma rows_length: "length (ipc_slots c d) = 18"
  by (simp add: ipc_slots_def)

lemma calls_sets: "set slot_calls = {(''unshare'', 97), (''reboot'', 142), (''clone'', 220), (''clone3'', 435)}"
  by (simp add: slot_calls_def slot_nrs)

lemma rows_names: "distinct (map is_name (ipc_slots c d))" "r \<in> set (ipc_slots c d) \<Longrightarrow> (is_name r, nr) \<notin> set slot_calls"
proof -
  show "distinct (map is_name (ipc_slots c d))" by (simp add: ipc_slots_def)
  have "list_all (\<lambda>r. is_name r \<notin> {''unshare'', ''reboot'', ''clone'', ''clone3''}) (ipc_slots c d)" by (simp add: ipc_slots_def)
  then show "r \<in> set (ipc_slots c d) \<Longrightarrow> (is_name r, nr) \<notin> set slot_calls" by (auto simp: list_all_iff calls_sets)
qed

lemma rows_numbers: "distinct (map is_nr (ipc_slots c d))"
  "r \<in> set (ipc_slots c d) \<Longrightarrow> (name, is_nr r) \<notin> set slot_calls" "r \<in> set (ipc_slots c d) \<Longrightarrow> (name, is_nr32 r) \<notin> set slot_calls"
proof -
  show "distinct (map is_nr (ipc_slots c d))" by (simp add: ipc_slots_def)
  have "list_all (\<lambda>r. is_nr r \<notin> {97, 142, 220, 435}) (ipc_slots c d)" by (simp add: ipc_slots_def)
  then show "r \<in> set (ipc_slots c d) \<Longrightarrow> (name, is_nr r) \<notin> set slot_calls" by (auto simp: list_all_iff calls_sets)
  have "list_all (\<lambda>r. is_nr32 r \<notin> {97, 142, 220, 435}) (ipc_slots c d)" by (simp add: ipc_slots_def)
  then show "r \<in> set (ipc_slots c d) \<Longrightarrow> (name, is_nr32 r) \<notin> set slot_calls" by (auto simp: list_all_iff calls_sets)
qed

lemma rows_numbers32: "i < 18 \<Longrightarrow> j < 18 \<Longrightarrow> is_nr32 (ipc_slots c d ! i) = is_nr32 (ipc_slots c d ! j) \<Longrightarrow> is_nr32 (ipc_slots c d ! i) \<noteq> 0 \<Longrightarrow> i = j"
proof -
  assume a: "i < 18" "j < 18" "is_nr32 (ipc_slots c d ! i) = is_nr32 (ipc_slots c d ! j)" "is_nr32 (ipc_slots c d ! i) \<noteq> 0"
  have d: "distinct (map is_nr32 (ipc_slots True True))" by (simp add: ipc_slots_def)
  have n: "is_nr32 (ipc_slots c d ! k) = 0 \<or> is_nr32 (ipc_slots c d ! k) = is_nr32 (ipc_slots True True ! k)" if "k < 18" for k
  proof -
    have "\<forall>k \<in> set [0..<18]. is_nr32 (ipc_slots c d ! k) = 0 \<or> is_nr32 (ipc_slots c d ! k) = is_nr32 (ipc_slots True True ! k)"
      by (simp add: ipc_slots_def upt_rec)
    then show ?thesis using that by simp
  qed
  have "is_nr32 (ipc_slots True True ! i) = is_nr32 (ipc_slots True True ! j)" using n a by metis
  then show "i = j" using nth_eq_iff_index_eq [OF d, of i j] a(1,2) by (simp add: rows_length)
qed

section \<open>Through the start\<close>

definition slot_leads :: "table_mem \<Rightarrow> ptr option \<Rightarrow> int \<Rightarrow> 64 word \<Rightarrow> orig_var \<Rightarrow> slot_state \<Rightarrow> bool" where
  "slot_leads m0 tab nr fn var s \<longleftrightarrow> (\<exists>t. tab = Some t \<and> sl_mem s t nr = fn \<and> sl_orig s var = m0 t nr)"

definition rows_lead :: "(table_mem \<Rightarrow> ptr option \<Rightarrow> int \<Rightarrow> 64 word \<Rightarrow> orig_var \<Rightarrow> slot_state \<Rightarrow> bool) \<Rightarrow> slot_env \<Rightarrow> table_mem \<Rightarrow> slot_state \<Rightarrow> bool" where
  "rows_lead L e m0 s \<longleftrightarrow>
     (\<forall>i < length (the_rows e).
        (sl_patched s i \<longrightarrow> L m0 (sl_sys s) (is_nr (the_rows e ! i)) (xe_thunk e (is_name (the_rows e ! i))) (Orig (is_name (the_rows e ! i))) s)
        \<and> (sl_patched32 s i \<longrightarrow> L m0 (sl_compat s) (is_nr32 (the_rows e ! i)) (xe_thunk32 e (is_name (the_rows e ! i))) (Orig32 (is_name (the_rows e ! i))) s))"

definition stage :: "slot_env \<Rightarrow> table_mem \<Rightarrow> slot_state \<Rightarrow> bool" where
  "stage e m0 s \<longleftrightarrow> marked_inv (the_rows e) m0 s \<and> rows_lead wired e m0 s
     \<and> sl_sys s = xe_sys_tab e \<and> sl_compat s = (if xe_config_compat e then xe_compat_tab e else None)"

lemma loop_parts:
  assumes "loop_ok m0 rows nr fn var tab 0 P s P' s'"
  shows "slot_keeps m0 ((\<lambda>r. var (is_name r)) ` set rows) s s'"
    "j < length rows \<Longrightarrow> P' j \<Longrightarrow> wired m0 tab (nr (rows ! j)) (fn (is_name (rows ! j))) (var (is_name (rows ! j))) s'"
    "sl_mem s' t n \<noteq> sl_mem s t n \<Longrightarrow> tab = Some t \<and> (\<exists>j < length rows. P' j \<and> n = nr (rows ! j))"
  using assms by (simp_all add: loop_ok_def) blast

text \<open>The kernel has an entry for each of the four calls.\<close>

definition calls_present :: "slot_env \<Rightarrow> table_mem \<Rightarrow> bool" where
  "calls_present e m0 \<longleftrightarrow> (\<forall>t name nr. xe_sys_tab e = Some t \<and> (name, nr) \<in> set slot_calls \<longrightarrow> m0 t nr \<noteq> 0)"

lemma stage_parts:
  assumes "stage e m0 s"
  shows "tab_inv m0 s" "sl_mem s t n = m0 t n \<or> row_marked (the_rows e) s t n \<or> call_marked s t n" "rows_lead wired e m0 s"
    "sl_sys s = xe_sys_tab e" "sl_compat s = (if xe_config_compat e then xe_compat_tab e else None)"
  using assms unfolding stage_def marked_inv_def by blast+

lemma rows_lead_keeps:
  assumes "rows_lead wired e m0 s" "slot_keeps m0 V s s'" "sl_patched s' = sl_patched s" "sl_patched32 s' = sl_patched32 s"
    "\<And>r. r \<in> set (the_rows e) \<Longrightarrow> Orig (is_name r) \<notin> V \<and> Orig32 (is_name r) \<notin> V"
  shows "rows_lead wired e m0 s'"
  using assms(1) wired_keeps [OF _ assms(2)] assms(5) [OF nth_mem] slot_keeps_parts(2,3) [OF assms(2)] unfolding rows_lead_def assms(3,4) by metis

lemma stage_call:
  assumes st: "stage e m0 s" and cp: "calls_present e m0" and c: "(name, nr) \<in> set slot_calls" and call: "patch_call e name nr s = (s', r)"
  shows "stage e m0 s'"
proof -
  note S = stage_parts [OF st]
  note P = patch_call_keeps [OF S(1) call]
  note K = slot_keeps_parts [OF P(1)]
  have new: "sl_orig s' (Orig x) \<noteq> 0" if "sl_orig s (Orig x) \<noteq> 0" for x
  proof (cases "x = name")
    case True
    then show ?thesis using P(6) that cp c S(4) unfolding calls_present_def by metis
  next
    case False
    then show ?thesis using K(6) [of "Orig x"] that by simp
  qed
  have cm: "call_marked s t n \<Longrightarrow> call_marked s' t n" for t n using new K(2) by (auto simp: call_marked_def)
  have rm: "row_marked (the_rows e) s' t n = row_marked (the_rows e) s t n" for t n by (simp add: row_marked_def P(2,3) K(2,3))
  have hit: "call_marked s' t n" if "sl_sys s = Some t" "n = nr" "r = None" for t n
    using P(5) [OF that(3)] that cp c S(4) K(2) unfolding call_marked_def calls_present_def by force
  have "sl_mem s' t n = m0 t n \<or> row_marked (the_rows e) s' t n \<or> call_marked s' t n" for t n
  proof (cases "sl_mem s' t n = sl_mem s t n")
    case True
    then show ?thesis using S(2) [of t n] cm rm by auto
  next
    case False
    then show ?thesis using P(4) [of t n] hit by blast
  qed
  moreover have "rows_lead wired e m0 s'"
    by (rule rows_lead_keeps [OF S(3) P(1-3)]) (use rows_names(2) [of _ "xe_config_compat e" "xe_config_time32 e" nr] c in auto)
  ultimately show ?thesis using K(1-3) S(4,5) by (simp add: stage_def marked_inv_def)
qed

lemma call_marked_keeps:
  assumes "slot_keeps m0 V s s'" "\<And>name nr. (name, nr) \<in> set slot_calls \<Longrightarrow> Orig name \<notin> V"
  shows "call_marked s' t n = call_marked s t n"
  using slot_keeps_parts(2,6) [OF assms(1)] assms(2) unfolding call_marked_def by metis

lemma stage_rows:
  assumes st: "stage e m0 s" and fr: "\<forall>i. \<not> sl_patched s i \<and> \<not> sl_patched32 s i" and call: "patch_rows e 0 (the_rows e) s = (s', p, k)"
  shows "stage e m0 s'" "\<forall>i. \<not> sl_patched32 s' i"
proof -
  let ?R = "the_rows e"
  note S = stage_parts [OF st]
  have l: "loop_ok m0 ?R is_nr (xe_thunk e) Orig (sl_sys s) 0 (sl_patched s) s (sl_patched s') s' \<and> sl_patched32 s' = sl_patched32 s"
    by (rule patch_rows_loop [OF call _ S(1) rows_names(1)]) (use fr in auto)
  note p32 = conjunct2 [OF l] and L = loop_parts [OF conjunct1 [OF l]]
  note K = slot_keeps_parts [OF L(1)]
  have cm: "call_marked s' t n = call_marked s t n" for t n
    by (rule call_marked_keeps [OF L(1)]) (use rows_names(2) [of _ "xe_config_compat e" "xe_config_time32 e"] in auto)
  have rm: "\<not> row_marked ?R s t n" for t n using fr by (simp add: row_marked_def)
  have "sl_mem s' t n = m0 t n \<or> row_marked ?R s' t n \<or> call_marked s' t n" for t n
  proof (cases "sl_mem s' t n = sl_mem s t n")
    case True
    then show ?thesis using S(2) [of t n] rm cm by auto
  next
    case False
    then show ?thesis using L(3) [of t n] K(2) unfolding row_marked_def by auto
  qed
  moreover have "rows_lead wired e m0 s'" unfolding rows_lead_def using L(2) p32 fr K(2) by simp
  ultimately show "stage e m0 s'" using K(1-3) S(4,5) by (simp add: stage_def marked_inv_def)
  show "\<forall>i. \<not> sl_patched32 s' i" using p32 fr by simp
qed

lemma stage_compat:
  assumes st: "stage e m0 s" and fr: "\<forall>i. \<not> sl_patched32 s i"
  shows "stage e m0 (slot_patch_ipc_compat e s)"
proof (cases "sl_compat s = None")
  case True
  then show ?thesis using st by (simp add: slot_patch_ipc_compat_def)
next
  case False
  let ?R = "the_rows e"
  obtain s' where call: "patch_compat_rows e 0 ?R s = s'" by blast
  note S = stage_parts [OF st]
  have l: "loop_ok m0 ?R is_nr32 (xe_thunk32 e) Orig32 (sl_compat s) 0 (sl_patched32 s) s (sl_patched32 s') s' \<and> sl_patched s' = sl_patched s"
    by (rule patch_compat_loop [OF call _ S(1) rows_names(1)]) (use fr in auto)
  note p = conjunct2 [OF l] and L = loop_parts [OF conjunct1 [OF l]]
  note K = slot_keeps_parts [OF L(1)]
  have cm: "call_marked s' t n = call_marked s t n" for t n by (rule call_marked_keeps [OF L(1)]) auto
  have rm: "row_marked ?R s t n \<Longrightarrow> row_marked ?R s' t n" for t n using fr p K(2) by (auto simp: row_marked_def)
  have "sl_mem s' t n = m0 t n \<or> row_marked ?R s' t n \<or> call_marked s' t n" for t n
  proof (cases "sl_mem s' t n = sl_mem s t n")
    case True
    then show ?thesis using S(2) [of t n] rm cm by auto
  next
    case False
    then show ?thesis using L(3) [of t n] K(3) unfolding row_marked_def by auto
  qed
  moreover have "rows_lead wired e m0 s'"
    unfolding rows_lead_def
  proof (intro allI impI conjI)
    fix i
    assume i: "i < length ?R"
    show "wired m0 (sl_compat s') (is_nr32 (?R ! i)) (xe_thunk32 e (is_name (?R ! i))) (Orig32 (is_name (?R ! i))) s'" if "sl_patched32 s' i"
      using L(2) [OF i that] K(3) by simp
    assume "sl_patched s' i"
    then have "wired m0 (sl_sys s) (is_nr (?R ! i)) (xe_thunk e (is_name (?R ! i))) (Orig (is_name (?R ! i))) s"
      using S(3) i p unfolding rows_lead_def by simp
    from wired_keeps [OF this L(1)] show "wired m0 (sl_sys s') (is_nr (?R ! i)) (xe_thunk e (is_name (?R ! i))) (Orig (is_name (?R ! i))) s'"
      using K(2) by auto
  qed
  ultimately have "stage e m0 s'" using K(1-3) S(4,5) by (simp add: stage_def marked_inv_def)
  moreover have "slot_patch_ipc_compat e s = s'" using False call by (simp only: slot_patch_ipc_compat_def if_False)
  ultimately show ?thesis by simp
qed

section \<open>The start as a whole\<close>

definition slot_fresh :: "slot_state \<Rightarrow> bool" where
  "slot_fresh s \<longleftrightarrow> sl_saves s = [] \<and> sl_orig s = (\<lambda>_. 0) \<and> sl_patched s = (\<lambda>_. False) \<and> sl_patched32 s = (\<lambda>_. False)"

definition slot_settled :: "slot_env \<Rightarrow> table_mem \<Rightarrow> slot_state \<Rightarrow> bool" where
  "slot_settled e m0 s \<longleftrightarrow> marked_inv (the_rows e) m0 s \<and> rows_lead slot_leads e m0 s
     \<and> sl_sys s = xe_sys_tab e \<and> sl_compat s = (if xe_config_compat e then xe_compat_tab e else None)"

lemma stage_start:
  assumes "slot_fresh s"
  shows "stage e (sl_mem s) (s\<lparr>sl_sys := xe_sys_tab e, sl_compat := (if xe_config_compat e then xe_compat_tab e else None)\<rparr>)"
  using assms by (simp add: slot_fresh_def stage_def marked_inv_def tab_inv_def saved_def rows_lead_def)

lemma stage_settled: "stage e m0 s \<Longrightarrow> slot_settled e m0 s"
  unfolding stage_def slot_settled_def rows_lead_def wired_def slot_leads_def by blast

lemma unpatch_rest:
  assumes "tab_inv m0 s" "writes_back e m0"
  shows "sl_sys (slot_unpatch e tab nr s) = sl_sys s" "sl_compat (slot_unpatch e tab nr s) = sl_compat s"
    "sl_orig (slot_unpatch e tab nr s) = sl_orig s" "sl_patched (slot_unpatch e tab nr s) = sl_patched s"
    "sl_patched32 (slot_unpatch e tab nr s) = sl_patched32 s"
  by (rule slot_rest_fields [OF unpatch_tab(2) [OF assms]])+

lemma settled_unpatch:
  assumes st: "slot_settled e m0 s" and wb: "writes_back e' m0" and c: "(name, nr) \<in> set slot_calls"
  shows "slot_settled e m0 (slot_unpatch e' tab nr s)"
proof -
  have inv: "tab_inv m0 s" using st by (simp add: slot_settled_def marked_inv_def)
  let ?s = "slot_unpatch e' tab nr s"
  note U = unpatch_tab [OF inv wb, of tab nr]
  note F = unpatch_rest [OF inv wb, of tab nr]
  have L: "slot_leads m0 u n fn var ?s" if "slot_leads m0 u n fn var s" "n \<noteq> nr" for u n fn var
    using that U(3) F(3) by (simp add: slot_leads_def)
  have N: "is_nr r \<noteq> nr \<and> is_nr32 r \<noteq> nr" if "r \<in> set (the_rows e)" for r
    using rows_numbers(2,3) [OF that, of name] c by auto
  have "rows_lead slot_leads e m0 s" using st by (simp add: slot_settled_def)
  then have "rows_lead slot_leads e m0 ?s" unfolding rows_lead_def F using L N [OF nth_mem] by blast
  moreover have "sl_mem ?s t n = m0 t n \<or> row_marked (the_rows e) ?s t n \<or> call_marked ?s t n" for t n
  proof -
    have "sl_mem s t n = m0 t n \<or> row_marked (the_rows e) s t n \<or> call_marked s t n"
      using st unfolding slot_settled_def marked_inv_def by blast
    moreover have "row_marked (the_rows e) ?s t n = row_marked (the_rows e) s t n" "call_marked ?s t n = call_marked s t n"
      by (simp_all only: row_marked_def call_marked_def F)
    ultimately show ?thesis using U(3) [of t n] by auto
  qed
  ultimately show ?thesis using st U(1) unfolding slot_settled_def marked_inv_def F by blast
qed

lemma clone_settled:
  assumes st: "stage e m0 s" and cp: "calls_present e m0" and wb: "writes_back e m0"
  shows "slot_settled e m0 (fst (clone_slot_install e s))"
proof -
  have c: "(''clone'', NR_clone) \<in> set slot_calls" "(''clone3'', NR_clone3) \<in> set slot_calls" by (simp_all add: slot_calls_def)
  obtain s1 r1 where a: "patch_call e ''clone'' NR_clone s = (s1, r1)" by fastforce
  note s1 = stage_call [OF st cp c(1) a]
  show ?thesis
  proof (cases r1)
    case (Some err)
    then show ?thesis using a stage_settled [OF s1] by (simp add: clone_slot_install_def)
  next
    case None
    obtain s2 r2 where b: "patch_call e ''clone3'' NR_clone3 s1 = (s2, r2)" by fastforce
    note s2 = stage_settled [OF stage_call [OF s1 cp c(2) b]]
    show ?thesis using a None b s2 settled_unpatch [OF s2 wb c(1)] by (cases r2) (simp_all add: clone_slot_install_def)
  qed
qed

lemma init_settled:
  assumes fr: "slot_fresh s0" and call: "slot_init e s0 = (s1, r)" and wb: "writes_back e (sl_mem s0)" and cp: "calls_present e (sl_mem s0)"
  shows "r = None \<Longrightarrow> slot_settled e (sl_mem s0) s1" "r = Some err \<Longrightarrow> sl_mem s1 = sl_mem s0"
proof -
  let ?m = "sl_mem s0"
  have c: "(''unshare'', NR_unshare) \<in> set slot_calls" "(''reboot'', NR_reboot) \<in> set slot_calls" by (simp_all add: slot_calls_def)
  obtain s where s: "s0\<lparr>sl_sys := xe_sys_tab e, sl_compat := (if xe_config_compat e then xe_compat_tab e else None)\<rparr> = s" by blast
  note st = stage_start [OF fr, of e, unfolded s]
  have f: "sl_mem s = ?m" "sl_patched s = sl_patched s0" "sl_patched32 s = sl_patched32 s0" by (simp_all add: s [symmetric])
  obtain a ra where a: "patch_call e ''unshare'' NR_unshare s = (a, ra)" by fastforce
  note A = patch_call_keeps [OF stage_parts(1) [OF st] a]
  note sa = stage_call [OF st cp c(1) a]
  obtain b rb where b: "patch_call e ''reboot'' NR_reboot a = (b, rb)" by fastforce
  note B = patch_call_keeps [OF stage_parts(1) [OF sa] b]
  note sb = stage_call [OF sa cp c(2) b]
  have run: "slot_init e s0 = (case xe_sc_init e of Some err \<Rightarrow> (s, Some err)
     | None \<Rightarrow> (case ra of Some err \<Rightarrow> (a, Some err)
        | None \<Rightarrow> (case rb of Some err \<Rightarrow> (slot_unpatch e (sl_sys b) NR_unshare b, Some err)
           | None \<Rightarrow> (fst (clone_slot_install e (fst (slot_patch_ipc e b))), None))))"
    unfolding slot_init_def Let_def s a b prod.case by (cases ra; cases rb) (simp_all only: option.case b prod.case)
  have un: "\<forall>i. \<not> sl_patched b i \<and> \<not> sl_patched32 b i" using fr A(2,3) B(2,3) f by (simp add: slot_fresh_def)
  have sp: "stage e ?m (fst (slot_patch_ipc e b))"
  proof (cases "xe_skip_sysvipc e")
    case True
    then show ?thesis using sb by (simp add: slot_patch_ipc_def)
  next
    case False
    obtain d p k where d: "patch_rows e 0 (the_rows e) b = (d, p, k)" by (metis prod_cases3)
    show ?thesis using False stage_compat [OF stage_rows [OF sb un d]] by (simp add: slot_patch_ipc_def d)
  qed
  show "slot_settled e ?m s1" if "r = None"
    using call that clone_settled [OF sp cp wb] unfolding run by (auto split: option.splits)
  show "sl_mem s1 = ?m" if r: "r = Some err"
  proof (intro ext)
    fix t n
    have U: "sl_mem (slot_unpatch e (sl_sys b) NR_unshare b) t n = (if sl_sys b = Some t \<and> n = NR_unshare then ?m t n else sl_mem b t n)"
      by (rule unpatch_tab(3) [OF stage_parts(1) [OF sb] wb])
    have sys: "sl_sys b = sl_sys s" using slot_keeps_parts(2) [OF A(1)] slot_keeps_parts(2) [OF B(1)] by simp
    have m: "ra = Some x \<Longrightarrow> sl_mem a t n = ?m t n" for x using A(4) [of t n] f by auto
    have m2: "rb = Some x \<Longrightarrow> sl_mem b t n = ?m t n \<or> sl_sys s = Some t \<and> n = NR_unshare" for x
      using A(4) [of t n] B(4) [of t n] f by auto
    consider "s1 = s" | x where "ra = Some x" "s1 = a" | x where "rb = Some x" "s1 = slot_unpatch e (sl_sys b) NR_unshare b"
      using call r unfolding run by (auto split: option.splits)
    then show "sl_mem s1 t n = ?m t n" using f(1) m m2 U sys by cases auto
  qed
qed

section \<open>The end as a whole\<close>

definition away :: "ipc_slot list \<Rightarrow> nat \<Rightarrow> slot_state \<Rightarrow> ptr \<Rightarrow> int \<Rightarrow> bool" where
  "away rows i s t n \<longleftrightarrow> (\<exists>j \<ge> i. j < length rows \<and> (sl_patched s j \<and> sl_sys s = Some t \<and> n = is_nr (rows ! j)
     \<or> sl_patched32 s j \<and> sl_compat s = Some t \<and> n = is_nr32 (rows ! j)))"

lemma unpatch_row:
  assumes inv: "tab_inv m0 s" and wb: "writes_back e m0"
    and a_def: "a = (if sl_patched s i then (slot_unpatch e (sl_sys s) (is_nr r) s)\<lparr>sl_patched := (sl_patched s)(i := False)\<rparr> else s)"
    and b_def: "b = (if sl_patched32 a i then (slot_unpatch e (sl_compat a) (is_nr32 r) a)\<lparr>sl_patched32 := (sl_patched32 a)(i := False)\<rparr> else a)"
  shows "tab_inv m0 b" "sl_sys b = sl_sys s" "sl_compat b = sl_compat s" "sl_orig b = sl_orig s"
    "j \<noteq> i \<Longrightarrow> sl_patched b j = sl_patched s j" "j \<noteq> i \<Longrightarrow> sl_patched32 b j = sl_patched32 s j"
    "sl_mem s t n = m0 t n \<Longrightarrow> sl_mem b t n = m0 t n"
    "sl_patched s i \<Longrightarrow> sl_sys s = Some t \<Longrightarrow> n = is_nr r \<Longrightarrow> sl_mem b t n = m0 t n"
    "sl_patched32 s i \<Longrightarrow> sl_compat s = Some t \<Longrightarrow> n = is_nr32 r \<Longrightarrow> sl_mem b t n = m0 t n"
proof -
  note U = unpatch_tab [OF inv wb] unpatch_rest [OF inv wb]
  have A: "tab_inv m0 a" "sl_sys a = sl_sys s" "sl_compat a = sl_compat s" "sl_orig a = sl_orig s" "sl_patched32 a = sl_patched32 s"
      "\<And>j. j \<noteq> i \<Longrightarrow> sl_patched a j = sl_patched s j"
    using inv U by (simp_all add: a_def)
  have Am: "sl_mem a t n = (if sl_patched s i \<and> sl_sys s = Some t \<and> n = is_nr r then m0 t n else sl_mem s t n)" for t n
    using U(3) by (simp add: a_def)
  note V = unpatch_tab [OF A(1) wb] unpatch_rest [OF A(1) wb]
  have Bm: "sl_mem b t n = (if sl_patched32 s i \<and> sl_compat s = Some t \<and> n = is_nr32 r then m0 t n else sl_mem a t n)"
    using V(3) A(3,5) by (simp add: b_def)
  show "tab_inv m0 b" "sl_sys b = sl_sys s" "sl_compat b = sl_compat s" "sl_orig b = sl_orig s"
    "j \<noteq> i \<Longrightarrow> sl_patched b j = sl_patched s j" "j \<noteq> i \<Longrightarrow> sl_patched32 b j = sl_patched32 s j"
    using V A by (simp_all add: b_def)
  show "sl_mem s t n = m0 t n \<Longrightarrow> sl_mem b t n = m0 t n"
    "sl_patched s i \<Longrightarrow> sl_sys s = Some t \<Longrightarrow> n = is_nr r \<Longrightarrow> sl_mem b t n = m0 t n"
    "sl_patched32 s i \<Longrightarrow> sl_compat s = Some t \<Longrightarrow> n = is_nr32 r \<Longrightarrow> sl_mem b t n = m0 t n"
    using Bm Am by simp_all
qed

lemma unpatch_rows_mem:
  assumes "rs = drop i rows" "tab_inv m0 s" "writes_back e m0"
  shows "tab_inv m0 (unpatch_rows e i rs s) \<and> sl_sys (unpatch_rows e i rs s) = sl_sys s \<and> sl_orig (unpatch_rows e i rs s) = sl_orig s
    \<and> (sl_mem s t n = m0 t n \<or> away rows i s t n \<longrightarrow> sl_mem (unpatch_rows e i rs s) t n = m0 t n)"
  using assms(1,2)
proof (induction rs arbitrary: i s)
  case Nil
  then have "length rows \<le> i" by (metis drop_eq_Nil)
  then show ?case using Nil by (auto simp: away_def)
next
  case (Cons r rs)
  have d: "rs = drop (Suc i) rows" "i < length rows" "rows ! i = r"
    using Cons.prems(1) by (metis drop_Suc tl_drop list.sel(3), metis drop_eq_Nil linorder_not_le list.distinct(1), metis nth_via_drop)
  define a where "a = (if sl_patched s i then (slot_unpatch e (sl_sys s) (is_nr r) s)\<lparr>sl_patched := (sl_patched s)(i := False)\<rparr> else s)"
  define b where "b = (if sl_patched32 a i then (slot_unpatch e (sl_compat a) (is_nr32 r) a)\<lparr>sl_patched32 := (sl_patched32 a)(i := False)\<rparr> else a)"
  note B = unpatch_row [OF Cons.prems(2) assms(3) a_def b_def]
  have run: "unpatch_rows e i (r # rs) s = unpatch_rows e (Suc i) rs b" by (simp add: Let_def a_def b_def)
  have "sl_mem b t n = m0 t n \<or> away rows (Suc i) b t n" if h: "sl_mem s t n = m0 t n \<or> away rows i s t n"
  proof (cases "sl_mem b t n = m0 t n")
    case False
    then have "away rows i s t n" using B(7) h by blast
    then obtain j where j: "i \<le> j" "j < length rows" "sl_patched s j \<and> sl_sys s = Some t \<and> n = is_nr (rows ! j)
        \<or> sl_patched32 s j \<and> sl_compat s = Some t \<and> n = is_nr32 (rows ! j)" unfolding away_def by blast
    then have "j \<noteq> i" using B(8,9) False d(3) by blast
    then show ?thesis using j B(2,3,5,6) by (auto simp: away_def intro!: exI [of _ j])
  qed blast
  then show ?case using Cons.IH [OF d(1) B(1)] B(2,4) unfolding run by metis
qed

lemma unpatch_call_mem:
  assumes "tab_inv m0 s" "writes_back e m0"
  shows "tab_inv m0 (unpatch_call e name nr s)" "sl_sys (unpatch_call e name nr s) = sl_sys s" "sl_orig (unpatch_call e name nr s) = sl_orig s"
    "sl_mem (unpatch_call e name nr s) t n = (if sl_orig s (Orig name) \<noteq> 0 \<and> sl_sys s = Some t \<and> n = nr then m0 t n else sl_mem s t n)"
  using unpatch_tab [OF assms] unpatch_rest [OF assms] assms(1) by (auto simp: unpatch_call_def)

lemma exit_mem:
  assumes st: "slot_settled e m0 s" and wb: "writes_back e m0"
  shows "sl_mem (slot_exit e s) = m0"
proof (intro ext)
  fix t n
  have inv: "tab_inv m0 s" and m: "sl_mem s t n = m0 t n \<or> row_marked (the_rows e) s t n \<or> call_marked s t n"
    using st by (auto simp: slot_settled_def marked_inv_def)
  define a where "a = unpatch_rows e 0 (the_rows e) s"
  define b where "b = unpatch_call e ''clone3'' NR_clone3 a"
  define c where "c = unpatch_call e ''clone'' NR_clone b"
  define d where "d = unpatch_call e ''reboot'' NR_reboot c"
  have A: "tab_inv m0 a" "sl_sys a = sl_sys s" "sl_orig a = sl_orig s" "sl_mem s t n = m0 t n \<or> away (the_rows e) 0 s t n \<Longrightarrow> sl_mem a t n = m0 t n"
    using unpatch_rows_mem [of "the_rows e" 0 "the_rows e" m0 s e t n] inv wb by (simp_all add: a_def)
  have r: "row_marked (the_rows e) s t n = away (the_rows e) 0 s t n" by (auto simp: row_marked_def away_def)
  note B = unpatch_call_mem [OF A(1) wb, of "''clone3''" NR_clone3, folded b_def]
  note C = unpatch_call_mem [OF B(1) wb, of "''clone''" NR_clone, folded c_def]
  note D = unpatch_call_mem [OF C(1) wb, of "''reboot''" NR_reboot, folded d_def]
  note E = unpatch_call_mem [OF D(1) wb, of "''unshare''" NR_unshare]
  have x: "slot_exit e s = unpatch_call e ''unshare'' NR_unshare d" by (simp add: slot_exit_def a_def b_def c_def d_def)
  have "sl_mem a t n = m0 t n \<or> call_marked s t n" using A(4) m r by blast
  then show "sl_mem (slot_exit e s) t n = m0 t n"
    unfolding x E(4) D(4) C(4) B(4) E(2,3) D(2,3) C(2,3) B(2,3) A(2,3) call_marked_def slot_calls_def by auto
qed

section \<open>A sample pair of tables\<close>

text \<open>Table 10 is the 64 bit one, 20 the 32 bit one; only the row of \<^verbatim>\<open>msgget\<close> can be probed.\<close>

definition slot_demo :: slot_env where
  "slot_demo = \<lparr>xe_write = (\<lambda>_ _ _. None), xe_read = (\<lambda>_ nr. nr = 186), xe_handler = (\<lambda>_. 1), xe_thunk = (\<lambda>_. 2), xe_thunk32 = (\<lambda>_. 3),
     xe_config_compat = True, xe_config_time32 = True, xe_sys_tab = Some 10, xe_compat_tab = Some 20, xe_sc_init = None,
     xe_skip_sysvipc = False, xe_sysv_owner = OwnModule, xe_ipcns_owner = OwnModule, xe_mqueue_ready = True\<rparr>"

definition demo_slots :: slot_state where
  "demo_slots = \<lparr>sl_mem = (\<lambda>_ _. 99), sl_sys = None, sl_compat = None, sl_saves = [], sl_orig = (\<lambda>_. 0),
     sl_patched = (\<lambda>_. False), sl_patched32 = (\<lambda>_. False)\<rparr>"

definition demo_host :: slot_task where
  "demo_host = \<lparr>tk_pid_ours = False, tk_nsproxy = True, tk_children_ours = False, tk_ipc_ours = True, tk_ipc_host = True,
     tk_kthread = False, tk_mm = True, tk_comm = ''sh'', tk_exe = Some ''toybox''\<rparr>"

lemma demo_ok: "slot_fresh demo_slots" "writes_back slot_demo (sl_mem demo_slots)" "calls_present slot_demo (sl_mem demo_slots)"
  by (simp_all add: slot_fresh_def demo_slots_def writes_back_def slot_demo_def calls_present_def)

lemma demo_init: "snd (slot_init slot_demo demo_slots) = None"
  by (simp add: slot_init_def Let_def patch_call_def slot_patch_def slot_demo_def demo_slots_def mem_upd_def NR_unshare_def NR_reboot_def SLOT_SAVE_MAX_def)

section \<open>Properties\<close>

text \<open>C21. Whatever the start managed to attach, the end gives every entry of both tables back the kernel's value;
  and a start that fails leaves the tables as they were. (The kernel accepts its own values, and
  has an entry for each of the four calls.)\<close>

theorem slot_exit_restores:
  assumes "slot_fresh s0" "slot_init e s0 = (s1, r)" "writes_back e (sl_mem s0)" "calls_present e (sl_mem s0)"
  shows "sl_mem (if r = None then slot_exit e s1 else s1) = sl_mem s0"
proof (cases r)
  case None
  then show ?thesis using exit_mem [OF init_settled(1) [OF assms None] assms(3)] by simp
next
  case (Some err)
  then show ?thesis using init_settled(2) [OF assms Some] by simp
qed

theorem slot_exit_restores_witness: "sl_mem (slot_exit slot_demo (fst (slot_init slot_demo demo_slots))) 10 186 = 99"
  using slot_exit_restores [OF demo_ok(1), of slot_demo "fst (slot_init slot_demo demo_slots)" "snd (slot_init slot_demo demo_slots)"] demo_ok(2,3) demo_init
  by (simp add: demo_slots_def)

text \<open>C22. After a start, the entry of a row that was attached leads to the module's thunk, which serves exactly the
  callers the gate lets through and sends every other one to the entry the kernel had there; the
  entry of a row that was not attached is the kernel's. The same of the 32 bit table.\<close>

theorem slot_dispatch:
  assumes "slot_fresh s0" "slot_init e s0 = (s1, None)" "writes_back e (sl_mem s0)" "calls_present e (sl_mem s0)"
    "xe_sys_tab e = Some t" "xe_config_compat e" "xe_compat_tab e = Some c" "c \<noteq> t"
    "i < length (the_rows e)" "r = the_rows e ! i"
  shows "(if sl_patched s1 i
          then sl_mem s1 t (is_nr r) = xe_thunk e (is_name r)
            \<and> ipc_thunk gate tk s1 (is_name r) = (if gate_allow gate tk then Served (is_name r) else ipc_orig_call (sl_mem s0 t (is_nr r)))
          else sl_mem s1 t (is_nr r) = sl_mem s0 t (is_nr r))
    \<and> (if sl_patched32 s1 i
          then sl_mem s1 c (is_nr32 r) = xe_thunk32 e (is_name r)
            \<and> ipc_thunk32 gate tk s1 (is_name r) = (if gate_allow gate tk then Served32 (is_name r) else ipc_orig_call (sl_mem s0 c (is_nr32 r)))
          else is_nr32 r = 0 \<or> sl_mem s1 c (is_nr32 r) = sl_mem s0 c (is_nr32 r))"
proof -
  let ?R = "the_rows e"
  have st: "slot_settled e (sl_mem s0) s1" by (rule init_settled(1) [OF assms(1-4) refl])
  then have T: "sl_sys s1 = Some t" "sl_compat s1 = Some c" and L: "rows_lead slot_leads e (sl_mem s0) s1"
      and M: "sl_mem s1 u n \<noteq> sl_mem s0 u n \<Longrightarrow> row_marked ?R s1 u n \<or> call_marked s1 u n" for u n
    using assms(5-7) by (auto simp: slot_settled_def marked_inv_def)
  have r: "r \<in> set ?R" using assms(9,10) by simp
  have one: "j = i" if "j < length ?R" "is_nr (?R ! j) = is_nr r" for j
    using nth_eq_iff_index_eq [OF rows_numbers(1), of j "xe_config_compat e" "xe_config_time32 e" i] that assms(9,10) by simp
  have one32: "j = i" if "j < length ?R" "is_nr32 (?R ! j) = is_nr32 r" "is_nr32 r \<noteq> 0" for j
    using rows_numbers32 [of j i] that assms(9,10) by (simp add: rows_length)
  have free: "\<not> call_marked s1 u (is_nr r)" "\<not> call_marked s1 u (is_nr32 r)" for u
    using rows_numbers(2,3) [OF r] by (auto simp: call_marked_def)
  have no: "sl_mem s1 t (is_nr r) = sl_mem s0 t (is_nr r)" if "\<not> sl_patched s1 i"
    using M [of t "is_nr r"] free(1) one that T assms(8) unfolding row_marked_def by (metis option.inject)
  have no32: "sl_mem s1 c (is_nr32 r) = sl_mem s0 c (is_nr32 r)" if "\<not> sl_patched32 s1 i" "is_nr32 r \<noteq> 0"
    using M [of c "is_nr32 r"] free(2) one32 that T assms(8) unfolding row_marked_def by (metis option.inject)
  have "sl_patched s1 i \<Longrightarrow> slot_leads (sl_mem s0) (Some t) (is_nr r) (xe_thunk e (is_name r)) (Orig (is_name r)) s1"
    "sl_patched32 s1 i \<Longrightarrow> slot_leads (sl_mem s0) (Some c) (is_nr32 r) (xe_thunk32 e (is_name r)) (Orig32 (is_name r)) s1"
    using L T assms(9,10) by (simp_all add: rows_lead_def)
  then show ?thesis using no no32 by (auto simp: slot_leads_def ipc_thunk_def ipc_thunk32_def)
qed

lemma demo_refused: "nr \<noteq> 186 \<Longrightarrow> ipc_attach slot_demo tab nr fn v s = (s, Some EIO)"
  by (cases tab) (simp_all add: ipc_attach_def slot_demo_def)

lemma demo_fields: "\<not> xe_skip_sysvipc slot_demo" "xe_config_compat slot_demo" "xe_config_time32 slot_demo" "\<not> ipc_row_skipped slot_demo r"
  "xe_thunk slot_demo x = 2" "xe_sys_tab slot_demo = Some 10" "xe_compat_tab slot_demo = Some 20" "xe_sc_init slot_demo = None"
  "xe_read slot_demo t nr \<longleftrightarrow> nr = 186" "xe_write slot_demo t nr v = None"
  by (simp_all add: slot_demo_def ipc_row_skipped_def)

lemma demo_row: "is_nr32 r \<noteq> 186 \<Longrightarrow> patch_compat_rows slot_demo i (r # rs) s = patch_compat_rows slot_demo (Suc i) rs s"
  "is_nr r \<noteq> 186 \<Longrightarrow> patch_rows slot_demo i (r # rs) s = patch_rows slot_demo (Suc i) rs s"
  by (simp_all add: demo_refused demo_fields)

lemma demo_rows: "slot_patch_ipc slot_demo s =
    (case ipc_attach slot_demo (sl_sys s) 186 2 (Orig ''msgget'') s of
       (s, None) \<Rightarrow> (s\<lparr>sl_patched := (sl_patched s)(6 := True)\<rparr>, None) | (s, Some err) \<Rightarrow> (s, Some ENODATA))"
proof -
  have c: "slot_patch_ipc_compat slot_demo s = s" for s
    by (simp add: slot_patch_ipc_compat_def demo_fields ipc_slots_def demo_row del: patch_compat_rows.simps(2))
  let ?r = "\<lparr>is_nr = 186, is_nr32 = 303, is_name = ''msgget'', is_needs_mqueue = False\<rparr>"
  have l: "patch_rows slot_demo 0 (ipc_slots True True) s = patch_rows slot_demo 6 (drop 6 (ipc_slots True True)) s"
    by (simp add: ipc_slots_def demo_row eval_nat_numeral del: patch_rows.simps(2))
  have "drop 6 (ipc_slots True True) = ?r # drop 7 (ipc_slots True True)" by (simp add: ipc_slots_def)
  moreover have "patch_rows slot_demo (Suc 6) (drop 7 (ipc_slots True True)) s = (s, 0, 0)" for s
    by (simp add: ipc_slots_def demo_row del: patch_rows.simps(2))
  moreover obtain s1 q where "ipc_attach slot_demo (sl_sys s) 186 2 (Orig ''msgget'') s = (s1, q)" by fastforce
  ultimately have "patch_rows slot_demo 0 (ipc_slots True True) s =
      (case ipc_attach slot_demo (sl_sys s) 186 2 (Orig ''msgget'') s of
         (s, None) \<Rightarrow> (s\<lparr>sl_patched := (sl_patched s)(6 := True)\<rparr>, 1, 0) | (s, Some err) \<Rightarrow> (s, 0, 0))"
    unfolding l by (cases q) (simp_all add: demo_fields)
  then show ?thesis unfolding slot_patch_ipc_def by (simp add: demo_fields c split: prod.splits option.splits)
qed

lemma clone_patched: "sl_patched (fst (clone_slot_install e s)) = sl_patched s"
proof -
  have p: "sl_patched (fst (slot_patch e tab nr fn s)) = sl_patched s" for tab nr fn s
  proof -
    obtain s' was r where c: "slot_patch e tab nr fn s = (s', was, r)" by (metis prod_cases3)
    then have "sl_patched s' = sl_patched s" by (cases rule: patch_cases) (simp_all add: mem_upd_def)
    then show ?thesis by (simp add: c)
  qed
  have q: "sl_patched (fst (patch_call e name nr s)) = sl_patched s" for name nr s
    using p [of "sl_sys s" nr "xe_handler e name" s] by (auto simp: patch_call_def split: prod.splits option.splits)
  have u: "sl_patched (slot_unpatch e tab nr s) = sl_patched s" for tab nr s
    by (auto simp: slot_unpatch_def mem_upd_def Let_def split: option.splits)
  show ?thesis using q [of "''clone''" NR_clone s] q [of "''clone3''" NR_clone3 "fst (patch_call e ''clone'' NR_clone s)"]
    by (auto simp: clone_slot_install_def u split: prod.splits option.splits)
qed

lemma demo_attached: "sl_patched (fst (slot_init slot_demo demo_slots)) 6"
proof -
  let ?s = "demo_slots\<lparr>sl_sys := Some 10, sl_compat := Some 20\<rparr>"
  let ?v = "\<lambda>nr. \<lparr>sv_tab = 10, sv_nr = nr, sv_orig = 99\<rparr>"
  obtain b where b: "patch_call slot_demo ''reboot'' NR_reboot (fst (patch_call slot_demo ''unshare'' NR_unshare ?s)) = (b, None)"
      "sl_sys b = Some 10" "sl_saves b = [?v 97, ?v 142]"
    by (simp add: patch_call_def slot_patch_def slot_demo_def demo_slots_def mem_upd_def slot_nrs SLOT_SAVE_MAX_def)
  have a: "snd (patch_call slot_demo ''unshare'' NR_unshare ?s) = None"
    by (simp add: patch_call_def slot_patch_def slot_demo_def demo_slots_def slot_nrs SLOT_SAVE_MAX_def)
  obtain a where a: "patch_call slot_demo ''unshare'' NR_unshare ?s = (a, None)" using a by (metis prod.collapse)
  have i: "fst (slot_init slot_demo demo_slots) = fst (clone_slot_install slot_demo (fst (slot_patch_ipc slot_demo b)))"
    using a b(1) by (simp add: slot_init_def demo_fields)
  have "sl_patched (fst (slot_patch_ipc slot_demo b)) 6"
    by (simp add: demo_rows b(2) ipc_attach_def demo_fields slot_patch_def b(3) SLOT_SAVE_MAX_def Let_def)
  then show ?thesis unfolding i clone_patched .
qed

theorem slot_dispatch_witness:
  "sl_mem (fst (slot_init slot_demo demo_slots)) 10 186 = 2 \<and> ipc_thunk True demo_host (fst (slot_init slot_demo demo_slots)) ''msgget'' = Kernel 99"
proof -
  have i: "slot_init slot_demo demo_slots = (fst (slot_init slot_demo demo_slots), None)" using demo_init by (metis prod.collapse)
  have t: "xe_sys_tab slot_demo = Some 10" "xe_config_compat slot_demo" "xe_compat_tab slot_demo = Some 20" "(20 :: nat) \<noteq> 10"
    "xe_thunk slot_demo x = 2" for x by (simp_all add: slot_demo_def)
  have r: "the_rows slot_demo ! 6 = \<lparr>is_nr = 186, is_nr32 = 303, is_name = ''msgget'', is_needs_mqueue = False\<rparr>" "6 < length (the_rows slot_demo)"
    by (simp_all add: ipc_slots_def slot_demo_def)
  have g: "\<not> gate_allow True demo_host" by (simp add: gate_allow_def world_task_def is_droidspaces_def demo_host_def)
  show ?thesis
    using slot_dispatch [OF demo_ok(1) i demo_ok(2,3) t(1-4) r(2) r(1) [symmetric], of True demo_host] demo_attached g t(5)
    by (simp add: ipc_orig_call_def demo_slots_def)
qed

end
