(* ===== verification/PidNs.thy ===== *)
theory PidNs
  imports Prelude
begin

text \<open>
  Pid namespaces (\<^verbatim>\<open>src/src/main/pidns/pidns.c\<close>) and the reboot call on them (\<^verbatim>\<open>ds_slot.c\<close>): creation,
  references, \<^verbatim>\<open>setns\<close>, the parent, reboot, the end of a namespace's first process, and unload.

  The host's namespace \<open>init_pid_ns\<close> is object 0. A namespace's pids are those of the kernel, from
  the number to the process; which numbers there are and when a process starts is the kernel's. The table of
  numbers is an \<open>idr\<close> with the task in place of the pointer.
  \<open>pd_oops\<close> is set where the code follows a pointer to nothing.
\<close>

section \<open>State\<close>

definition MAX_PID_NS_LEVEL :: nat where "MAX_PID_NS_LEVEL = 32"
definition init_pid_ns :: ptr where "init_pid_ns = 0"

record pid_namespace =
  pn_level :: nat
  pn_parent :: "ptr option"
  pn_count :: int
  pn_user_ns :: nat
  pn_inum :: nat
  pn_reaper :: "nat option"
  pn_reboot :: int
  pn_adding :: bool
  pn_idr :: idr
  pn_idr_next :: int
  pn_stashed :: bool
  pn_neutral :: bool

record pidns_entry =
  pe_ns :: ptr
  pe_zap_queued :: bool

text \<open>What the module changes of the namespace proxy of a task.\<close>

record pid_nsproxy =
  np_children :: "ptr option"

record pidns_state =
  pd_heap :: "ptr \<rightharpoonup> pid_namespace"
  pd_list :: "pidns_entry list"
  pd_zap :: "ptr list"
  pd_caches :: "nat \<Rightarrow> bool"
  pd_cachep :: bool
  pd_inums :: "nat set"
  pd_nsproxy :: "ptr \<rightharpoonup> pid_nsproxy"
  pd_task_nsproxy :: "nat \<rightharpoonup> ptr"
  pd_leaders :: "nat list"
  pd_reaper_task :: "nat option"
  pd_retire_reaper :: "nat option"
  pd_keepalive :: bool
  pd_modrefs :: nat
  pd_oops :: bool

text \<open>
  \<open>pd_modrefs\<close> counts the references that keep the module loaded, \<open>pd_keepalive\<close> says that one is the
  module's own. \<open>pd_leaders\<close> are the tasks of the kernel's task list, the first thread of every process.
  The environment of a call: allocations, the calling task, its active namespace, its user
  namespace and its capabilities over a user namespace.
\<close>

record pidns_env =
  pk_cache :: bool
  pk_zalloc :: kmalloc
  pk_entry :: bool
  pk_inum :: "nat result"
  pk_task :: nat
  pk_active :: ptr
  pk_cred_ns :: nat
  pk_capable :: "nat \<Rightarrow> bool"
  pk_checkpoint :: "nat \<Rightarrow> bool"

definition pn_upd :: "ptr \<Rightarrow> (pid_namespace \<Rightarrow> pid_namespace) \<Rightarrow> pidns_state \<Rightarrow> pidns_state" where
  "pn_upd p f s =
     (case pd_heap s p of
        None \<Rightarrow> s\<lparr>pd_oops := True\<rparr>
      | Some n \<Rightarrow> s\<lparr>pd_heap := (pd_heap s)(p \<mapsto> f n)\<rparr>)"

section \<open>The list of namespaces and references\<close>

definition pidns_is_ours :: "pidns_state \<Rightarrow> ptr option \<Rightarrow> bool" where
  "pidns_is_ours s ns =
     (case ns of
        None \<Rightarrow> False
      | Some p \<Rightarrow> if p = init_pid_ns then False else p \<in> pe_ns ` set (pd_list s))"

definition create_pid_cachep :: "pidns_env \<Rightarrow> nat \<Rightarrow> pidns_state \<Rightarrow> pidns_state \<times> bool" where
  "create_pid_cachep e level s =
     (if level = 0 \<or> level > MAX_PID_NS_LEVEL then (s, False)
      else if pd_caches s (level - 1) then (s, True)
      else (s\<lparr>pd_caches := (pd_caches s)(level - 1 := pk_cache e)\<rparr>, pk_cache e))"

definition new_pid_ns :: "pidns_env \<Rightarrow> nat \<Rightarrow> ptr \<Rightarrow> nat \<Rightarrow> pid_namespace" where
  "new_pid_ns e level parent inum =
     \<lparr>pn_level = level, pn_parent = Some parent, pn_count = 1, pn_user_ns = pk_cred_ns e, pn_inum = inum, pn_reaper = None,
      pn_reboot = 0, pn_adding = True, pn_idr = [], pn_idr_next = 0, pn_stashed = False, pn_neutral = False\<rparr>"

definition pidns_create :: "pidns_env \<Rightarrow> ptr option \<Rightarrow> pidns_state \<Rightarrow> pidns_state \<times> ptr result" where
  "pidns_create e parent s =
     (let parent = (case parent of None \<Rightarrow> init_pid_ns | Some p \<Rightarrow> p)
      in case pd_heap s parent of
           None \<Rightarrow> (s\<lparr>pd_oops := True\<rparr>, Inl EINVAL)
         | Some pn \<Rightarrow>
             (let level = pn_level pn + 1
              in if level > MAX_PID_NS_LEVEL then (s, Inl ENOSPC)
                 else
                   (case pk_zalloc e (\<lambda>p. pd_heap s p \<noteq> None) of
                      None \<Rightarrow> (s, Inl ENOMEM)
                    | Some ns \<Rightarrow>
                        (case create_pid_cachep e level s of
                           (s, False) \<Rightarrow> (s, Inl ENOMEM)
                         | (s, True) \<Rightarrow>
                             (case pk_inum e of
                                Inl err \<Rightarrow> (s, Inl err)
                              | Inr inum \<Rightarrow>
                                  if \<not> pk_entry e then (s, Inl ENOMEM)
                                  else
                                    (s\<lparr>pd_heap := (pd_heap s)(ns \<mapsto> new_pid_ns e level parent inum),
                                       pd_inums := insert inum (pd_inums s),
                                       pd_list := pd_list s @ [\<lparr>pe_ns = ns, pe_zap_queued = False\<rparr>]\<rparr>, Inr ns))))))"

definition task_children_ns :: "pidns_state \<Rightarrow> nat \<Rightarrow> ptr option" where
  "task_children_ns s t =
     (case pd_task_nsproxy s t of None \<Rightarrow> None | Some np \<Rightarrow> Option.bind (pd_nsproxy s np) np_children)"

definition pidns_create_for_current :: "pidns_env \<Rightarrow> pidns_state \<Rightarrow> pidns_state \<times> ptr result" where
  "pidns_create_for_current e s =
     (let parent = task_children_ns s (pk_task e)
      in pidns_create e (if pidns_is_ours s parent then parent else Some init_pid_ns) s)"

definition pidns_get :: "ptr option \<Rightarrow> pidns_state \<Rightarrow> pidns_state \<times> ptr option" where
  "pidns_get ns s =
     (case ns of
        None \<Rightarrow> (s, None)
      | Some p \<Rightarrow> (if p = init_pid_ns then s else pn_upd p (pn_count_update (\<lambda>c. c + 1)) s, Some p))"

definition pidns_get_active :: "pidns_env \<Rightarrow> pidns_state \<Rightarrow> pidns_state \<times> ptr option" where
  "pidns_get_active e s = pidns_get (Some (pk_active e)) s"

text \<open>\<^verbatim>\<open>refcount_dec_not_one\<close>: the last reference stays.\<close>

definition pidns_put :: "ptr option \<Rightarrow> pidns_state \<Rightarrow> pidns_state" where
  "pidns_put ns s =
     (case ns of
        None \<Rightarrow> s
      | Some p \<Rightarrow>
          if p = init_pid_ns then s
          else pn_upd p (pn_count_update (\<lambda>c. if c = 1 then 1 else c - 1)) s)"

section \<open>The files of a namespace\<close>

text \<open>The loops over the parents; \<open>None\<close> when a pointer to nothing is followed or the fuel is out.\<close>

fun climb_to_level :: "nat \<Rightarrow> pidns_state \<Rightarrow> nat \<Rightarrow> ptr \<Rightarrow> ptr option" where
  "climb_to_level 0 s level ns = None"
| "climb_to_level (Suc fuel) s level ns =
     (case pd_heap s ns of
        None \<Rightarrow> None
      | Some n \<Rightarrow>
          if pn_level n > level
          then (case pn_parent n of None \<Rightarrow> None | Some p \<Rightarrow> climb_to_level fuel s level p)
          else Some ns)"

text \<open>The outer answer is \<open>None\<close> as above, the inner one whether \<open>active\<close> was met.\<close>

fun climb_to_active :: "nat \<Rightarrow> pidns_state \<Rightarrow> ptr \<Rightarrow> ptr option \<Rightarrow> bool option" where
  "climb_to_active 0 s active p = None"
| "climb_to_active (Suc fuel) s active p =
     (case p of
        None \<Rightarrow> Some False
      | Some q \<Rightarrow>
          if q = active then Some True
          else (case pd_heap s q of None \<Rightarrow> None | Some n \<Rightarrow> climb_to_active fuel s active (pn_parent n)))"

definition pidns_install :: "pidns_env \<Rightarrow> ptr \<Rightarrow> nat \<Rightarrow> ptr \<Rightarrow> pidns_state \<Rightarrow> pidns_state \<times> unit result" where
  "pidns_install e nsproxy cred_ns new s =
     (case (pd_heap s new, pd_heap s (pk_active e), pd_nsproxy s nsproxy) of
        (Some n, Some a, Some np) \<Rightarrow>
          if \<not> pk_capable e (pn_user_ns n) \<or> \<not> pk_capable e cred_ns then (s, Inl EPERM)
          else if pn_level n < pn_level a then (s, Inl EINVAL)
          else
            (case climb_to_level (pn_level n + 1) s (pn_level a) new of
               None \<Rightarrow> (s\<lparr>pd_oops := True\<rparr>, Inl EINVAL)
             | Some ancestor \<Rightarrow>
                 if ancestor \<noteq> pk_active e then (s, Inl EINVAL)
                 else (s\<lparr>pd_nsproxy := (pd_nsproxy s)(nsproxy \<mapsto> np\<lparr>np_children := Some new\<rparr>)\<rparr>, Inr ()))
      | _ \<Rightarrow> (s\<lparr>pd_oops := True\<rparr>, Inl EINVAL))"

definition pidns_get_parent :: "pidns_env \<Rightarrow> ptr \<Rightarrow> pidns_state \<Rightarrow> pidns_state \<times> ptr result" where
  "pidns_get_parent e ns s =
     (case pd_heap s ns of
        None \<Rightarrow> (s\<lparr>pd_oops := True\<rparr>, Inl EINVAL)
      | Some n \<Rightarrow>
          (case climb_to_active (pn_level n + 1) s (pk_active e) (pn_parent n) of
             None \<Rightarrow> (s\<lparr>pd_oops := True\<rparr>, Inl EINVAL)
           | Some False \<Rightarrow> (s, Inl EPERM)
           | Some True \<Rightarrow>
               (case pidns_get (pn_parent n) s of
                  (s, None) \<Rightarrow> (s, Inl ENOMEM)
                | (s, Some p) \<Rightarrow> (s, Inr p))))"

definition pidns_get_for_children :: "nat \<Rightarrow> pidns_state \<Rightarrow> pidns_state \<times> ptr option" where
  "pidns_get_for_children t s =
     (case pidns_get (task_children_ns s t) s of
        (s, None) \<Rightarrow> (s, None)
      | (s, Some p) \<Rightarrow>
          (case pd_heap s p of
             None \<Rightarrow> (s\<lparr>pd_oops := True\<rparr>, None)
           | Some n \<Rightarrow> if pn_reaper n = None then (pidns_put (Some p) s, None) else (s, Some p)))"

text \<open>The number of the next pid less one, as \<^verbatim>\<open>ns_last_pid\<close> reads and writes it; \<open>value\<close> is what the parser of the kernel made of the input.\<close>

definition pidns_ns_last_pid :: "pidns_env \<Rightarrow> int result option \<Rightarrow> pidns_state \<Rightarrow> pidns_state \<times> int result" where
  "pidns_ns_last_pid e write s =
     (case pd_heap s (pk_active e) of
        None \<Rightarrow> (s, Inl ENOENT)
      | Some n \<Rightarrow>
          (case write of
             None \<Rightarrow> (s, Inr (pn_idr_next n - 1))
           | Some value \<Rightarrow>
               if \<not> pk_checkpoint e (pn_user_ns n) then (s, Inl EPERM)
               else
                 (case value of
                    Inl err \<Rightarrow> (s, Inl err)
                  | Inr next \<Rightarrow> (pn_upd (pk_active e) (pn_idr_next_update (\<lambda>_. next + 1)) s, Inr next))))"

section \<open>Reboot\<close>

definition SIGHUP :: int where "SIGHUP = 1"
definition SIGINT :: int where "SIGINT = 2"
definition SIGKILL :: int where "SIGKILL = 9"

definition REBOOT_MAGIC1 :: "32 word" where "REBOOT_MAGIC1 = 0xfee1dead"
definition REBOOT_MAGIC2 :: "32 word set" where "REBOOT_MAGIC2 = {672274793, 85072278, 369367448, 537993216}"
definition REBOOT_RESTART :: "32 word set" where "REBOOT_RESTART = {0x01234567, 0xA1B2C3D4}"
definition REBOOT_HALT :: "32 word set" where "REBOOT_HALT = {0x4321FEDC, 0xCDEF0123}"

lemmas reboots = REBOOT_MAGIC1_def REBOOT_MAGIC2_def REBOOT_RESTART_def REBOOT_HALT_def

text \<open>The second result lists the tasks that are sent \<^verbatim>\<open>SIGKILL\<close>.\<close>

definition pidns_reboot :: "ptr \<Rightarrow> 32 word \<Rightarrow> pidns_state \<Rightarrow> pidns_state \<times> nat list \<times> unit result" where
  "pidns_reboot ns cmd s =
     (let value = (if cmd \<in> REBOOT_RESTART then Some SIGHUP else if cmd \<in> REBOOT_HALT then Some SIGINT else None)
      in case value of
           None \<Rightarrow> (s, [], Inl EINVAL)
         | Some v \<Rightarrow>
             (let s = pn_upd ns (pn_reboot_update (\<lambda>_. v)) s
              in (s, case Option.bind (pd_heap s ns) pn_reaper of None \<Rightarrow> [] | Some r \<Rightarrow> [r], Inr ())))"

datatype reboot_result = RebootKernel | RebootHere "unit result"

definition sys_reboot :: "pidns_env \<Rightarrow> 32 word \<Rightarrow> 32 word \<Rightarrow> 32 word \<Rightarrow> pidns_state \<Rightarrow> pidns_state \<times> nat list \<times> reboot_result" where
  "sys_reboot e magic1 magic2 cmd s =
     (if \<not> pidns_is_ours s (Some (pk_active e)) then (s, [], RebootKernel)
      else if magic1 \<noteq> REBOOT_MAGIC1 \<or> magic2 \<notin> REBOOT_MAGIC2 then (s, [], RebootKernel)
      else
        (case pidns_reboot (pk_active e) cmd s of
           (s, killed, Inl err) \<Rightarrow> (s, killed, RebootHere (Inl err))
         | (s, killed, Inr u) \<Rightarrow> (s, killed @ [pk_task e], RebootHere (Inr u))))"

end
