(* ===== verification/PidLife.thy ===== *)
theory PidLife
  imports PidNs
begin

text \<open>
  The rest of \<^verbatim>\<open>pidns.c\<close>: a new namespace for a task that asked for one, the exit of a first
  process, the thread that kills what is left of a namespace, and unload.
\<close>

section \<open>A namespace for the caller\<close>

definition set_children_ns :: "ptr \<Rightarrow> ptr \<Rightarrow> pidns_state \<Rightarrow> pidns_state" where
  "set_children_ns np ns s =
     (case pd_nsproxy s np of
        None \<Rightarrow> s\<lparr>pd_oops := True\<rparr>
      | Some x \<Rightarrow> s\<lparr>pd_nsproxy := (pd_nsproxy s)(np \<mapsto> x\<lparr>np_children := Some ns\<rparr>)\<rparr>)"

definition slot_install_pidns :: "pidns_env \<Rightarrow> pidns_state \<Rightarrow> pidns_state \<times> unit result" where
  "slot_install_pidns e s =
     (case pidns_create_for_current e s of
        (s, Inl err) \<Rightarrow> (s, Inl err)
      | (s, Inr ns) \<Rightarrow>
          (case pd_task_nsproxy s (pk_task e) of
             None \<Rightarrow> (pidns_put (Some ns) s, Inl EINVAL)
           | Some np \<Rightarrow> (set_children_ns np ns s, Inr ())))"

section \<open>The end of a first process\<close>

fun mark_queued :: "ptr \<Rightarrow> pidns_entry list \<Rightarrow> pidns_entry list" where
  "mark_queued p [] = []"
| "mark_queued p (x # xs) = (if pe_ns x = p then x\<lparr>pe_zap_queued := True\<rparr> # xs else x # mark_queued p xs)"

definition pidns_queue_zap :: "ptr \<Rightarrow> pidns_state \<Rightarrow> pidns_state" where
  "pidns_queue_zap ns s =
     (if ns = init_pid_ns then s
      else
        (case find (\<lambda>x. pe_ns x = ns) (pd_list s) of
           None \<Rightarrow> s
         | Some x \<Rightarrow>
             if pe_zap_queued x then s
             else s\<lparr>pd_list := mark_queued ns (pd_list s), pd_zap := pd_zap s @ [ns]\<rparr>))"

text \<open>
  The probe at the exit of a task; the second result is the exit code it sets. The queueing of the
  task's own objects is that of \<^verbatim>\<open>ipc_shim.c\<close>.
\<close>

definition do_exit_pre :: "pidns_env \<Rightarrow> pidns_state \<Rightarrow> pidns_state \<times> int option" where
  "do_exit_pre e s =
     (let ns = pk_active e
      in if \<not> pidns_is_ours s (Some ns) then (s, None)
         else
           (case pd_heap s ns of
              None \<Rightarrow> (s\<lparr>pd_oops := True\<rparr>, None)
            | Some n \<Rightarrow>
                if pn_reaper n \<noteq> Some (pk_task e) then (s, None)
                else
                  (let s = pn_upd ns (pn_adding_update (\<lambda>_. False)) s;
                       s = (if pd_reaper_task s \<noteq> None then pn_upd ns (pn_reaper_update (\<lambda>_. pd_reaper_task s)) s else s)
                   in (pidns_queue_zap ns s, if pn_reboot n \<noteq> 0 then Some (pn_reboot n) else None))))"

text \<open>
  The processes a namespace still has are killed, all but the first and those that are dying
  already (\<open>dying\<close>); then their end is waited for, for at most 500 rounds, \<open>allocated\<close> being the
  number of pids in use in each round.
\<close>

definition zap_victims :: "(nat \<Rightarrow> bool) \<Rightarrow> pid_namespace \<Rightarrow> nat list" where
  "zap_victims dying n = map snd (filter (\<lambda>(nr, t). 2 \<le> nr \<and> \<not> dying t) (sort_key fst (pn_idr n)))"

fun zap_rounds :: "nat \<Rightarrow> (nat \<Rightarrow> nat) \<Rightarrow> nat \<Rightarrow> nat" where
  "zap_rounds 0 allocated rounds = rounds"
| "zap_rounds (Suc left) allocated rounds = (if allocated rounds = 0 then rounds else zap_rounds left allocated (Suc rounds))"

definition pidns_do_zap :: "(nat \<Rightarrow> bool) \<Rightarrow> (nat \<Rightarrow> nat) \<Rightarrow> ptr \<Rightarrow> pidns_state \<Rightarrow> pidns_state \<times> nat list \<times> nat" where
  "pidns_do_zap dying allocated ns s =
     (case pd_heap s ns of
        None \<Rightarrow> (s\<lparr>pd_oops := True\<rparr>, [], 0)
      | Some n \<Rightarrow> (pn_upd ns (pn_adding_update (\<lambda>_. False)) s, zap_victims dying n, zap_rounds 500 allocated 0))"

text \<open>The inner loop of the thread: the list is emptied from its head.\<close>

fun zap_loop :: "(nat \<Rightarrow> bool) \<Rightarrow> (nat \<Rightarrow> nat) \<Rightarrow> ptr list \<Rightarrow> pidns_state \<Rightarrow> pidns_state \<times> nat list" where
  "zap_loop dying allocated [] s = (s\<lparr>pd_zap := []\<rparr>, [])"
| "zap_loop dying allocated (p # ps) s =
     (case pidns_do_zap dying allocated p (s\<lparr>pd_zap := ps\<rparr>) of
        (s, killed, _) \<Rightarrow> (case zap_loop dying allocated ps s of (s, rest) \<Rightarrow> (s, killed @ rest)))"

definition zap_fn_pass :: "(nat \<Rightarrow> bool) \<Rightarrow> (nat \<Rightarrow> nat) \<Rightarrow> pidns_state \<Rightarrow> pidns_state \<times> nat list" where
  "zap_fn_pass dying allocated s = zap_loop dying allocated (pd_zap s) s"

definition pidns_busy :: "pidns_state \<Rightarrow> bool" where
  "pidns_busy s = list_ex (\<lambda>x. case pd_heap s (pe_ns x) of None \<Rightarrow> False | Some n \<Rightarrow> pn_idr n \<noteq> []) (pd_list s)"

text \<open>The module is pinned while a namespace has pids; \<open>ipc_busy\<close> is the answer of the ipc side, \<open>live\<close> whether the module can still be pinned.\<close>

definition keepalive_pin :: "bool \<Rightarrow> pidns_state \<Rightarrow> pidns_state" where
  "keepalive_pin live s =
     (if pd_keepalive s then s else if live then s\<lparr>pd_modrefs := pd_modrefs s + 1, pd_keepalive := True\<rparr> else s)"

definition keepalive_release :: "pidns_state \<Rightarrow> pidns_state" where
  "keepalive_release s = (if pd_keepalive s then s\<lparr>pd_keepalive := False, pd_modrefs := pd_modrefs s - 1\<rparr> else s)"

definition keepalive_sync :: "bool \<Rightarrow> bool \<Rightarrow> pidns_state \<Rightarrow> pidns_state" where
  "keepalive_sync ipc_busy live s =
     (if pidns_busy s \<or> ipc_busy then keepalive_pin live s
      else if pd_keepalive s then s\<lparr>pd_keepalive := False, pd_modrefs := pd_modrefs s - 1\<rparr>
      else s)"

text \<open>Whether a task still refers to a namespace of the module; \<open>ipc\<close> is the answer of the ipc side about the task.\<close>

definition any_task_ns_refs :: "bool \<Rightarrow> (nat \<Rightarrow> bool) \<Rightarrow> pidns_state \<Rightarrow> bool" where
  "any_task_ns_refs trusted ipc s = (trusted \<and> list_ex (\<lambda>t. pidns_is_ours s (task_children_ns s t) \<or> ipc t) (pd_leaders s))"

section \<open>Unload\<close>

text \<open>The walk over the tasks, here the part about pid namespaces.\<close>

definition reset_task_ref :: "nat \<Rightarrow> pidns_state \<Rightarrow> pidns_state" where
  "reset_task_ref t s =
     (if pidns_is_ours s (task_children_ns s t)
      then
        (case pd_task_nsproxy s t of
           None \<Rightarrow> s
         | Some np \<Rightarrow> set_children_ns np init_pid_ns (pidns_put (task_children_ns s t) s))
      else s)"

definition reset_task_ns_refs :: "bool \<Rightarrow> pidns_state \<Rightarrow> pidns_state" where
  "reset_task_ns_refs trusted s = (if \<not> trusted then s else fold reset_task_ref (pd_leaders s) s)"

definition NS_LEAK_REFCOUNT :: int where "NS_LEAK_REFCOUNT = 0x40000000"

definition ns_neutralize :: "bool \<Rightarrow> pid_namespace \<Rightarrow> pid_namespace" where
  "ns_neutralize pin n = (if pin then n\<lparr>pn_count := NS_LEAK_REFCOUNT\<rparr> else n)\<lparr>pn_neutral := True\<rparr>"

text \<open>The namespace may go when no file, no reference and no pid of it is left.\<close>

definition pidns_held :: "pid_namespace \<Rightarrow> bool" where
  "pidns_held n \<longleftrightarrow> pn_stashed n \<or> pn_count n > 1 \<or> pn_idr n \<noteq> []"

definition retire_reapers :: "pidns_state \<Rightarrow> pidns_state" where
  "retire_reapers s =
     (if pd_retire_reaper s = None then s
      else fold (\<lambda>x. pn_upd (pe_ns x) (pn_reaper_update (\<lambda>_. pd_retire_reaper s))) (pd_list s) s)"

fun pidns_exit_loop :: "bool \<Rightarrow> pidns_entry list \<Rightarrow> pidns_state \<Rightarrow> pidns_state \<times> nat" where
  "pidns_exit_loop pin [] s = (s, 0)"
| "pidns_exit_loop pin (x # xs) s =
     (let s = s\<lparr>pd_list := xs\<rparr>
      in case pd_heap s (pe_ns x) of
           None \<Rightarrow> (s\<lparr>pd_oops := True\<rparr>, 0)
         | Some n \<Rightarrow>
             if pidns_held n
             then
               (case pidns_exit_loop pin xs (pn_upd (pe_ns x) (\<lambda>n. ns_neutralize pin (n\<lparr>pn_reaper := pd_retire_reaper s\<rparr>)) s) of
                  (s, leaked) \<Rightarrow> (s, Suc leaked))
             else
               pidns_exit_loop pin xs
                 (s\<lparr>pd_heap := (pd_heap s)(pe_ns x := None), pd_inums := pd_inums s - (if pn_inum n = 0 then {} else {pn_inum n})\<rparr>))"

definition pidns_exit :: "bool \<Rightarrow> bool \<Rightarrow> pidns_state \<Rightarrow> pidns_state" where
  "pidns_exit trusted pin s =
     (if \<not> pd_cachep s then s
      else
        (let s = retire_reapers s;
             s = s\<lparr>pd_reaper_task := None, pd_zap := []\<rparr>;
             s = reset_task_ns_refs trusted s
         in case pidns_exit_loop pin (pd_list s) s of
              (s, leaked) \<Rightarrow> if leaked > 0 then s else s\<lparr>pd_caches := (\<lambda>_. False), pd_cachep := False\<rparr>))"

text \<open>Set-up: the cache, the aliases, the thread and the probe, each of which may fail.\<close>

definition pidns_init :: "bool \<Rightarrow> bool \<Rightarrow> nat option \<Rightarrow> nat result \<Rightarrow> bool \<Rightarrow> bool \<Rightarrow> pidns_state \<Rightarrow> pidns_state \<times> errno option" where
  "pidns_init cache alias init_task thread skip_do_exit probe s =
     (if \<not> cache then (s\<lparr>pd_cachep := False\<rparr>, Some ENOMEM)
      else if \<not> alias then (s\<lparr>pd_cachep := False\<rparr>, Some ENOMEM)
      else
        (let s = s\<lparr>pd_retire_reaper := init_task\<rparr>
         in case thread of
              Inl err \<Rightarrow> (s\<lparr>pd_cachep := False, pd_reaper_task := None\<rparr>, Some err)
            | Inr t \<Rightarrow>
                if skip_do_exit \<or> probe then (s\<lparr>pd_cachep := True, pd_reaper_task := Some t\<rparr>, None)
                else (s\<lparr>pd_cachep := False, pd_reaper_task := None\<rparr>, Some ENODATA)))"

end
