(* ===== verification/PidInv.thy ===== *)
theory PidInv
  imports PidLife
begin

text \<open>
  Pid namespaces over time: the steps of the module and of the kernel, the tree the namespaces
  form, and that every step keeps it.
\<close>

section \<open>The tree\<close>

definition parent_of :: "pidns_state \<Rightarrow> ptr \<Rightarrow> ptr option" where
  "parent_of s p = Option.bind (pd_heap s p) pn_parent"

fun nth_parent :: "pidns_state \<Rightarrow> nat \<Rightarrow> ptr \<Rightarrow> ptr option" where
  "nth_parent s 0 p = Some p"
| "nth_parent s (Suc k) p = Option.bind (parent_of s p) (nth_parent s k)"

definition level_of :: "pidns_state \<Rightarrow> ptr \<Rightarrow> nat" where
  "level_of s p = (case pd_heap s p of None \<Rightarrow> 0 | Some n \<Rightarrow> pn_level n)"

text \<open>\<open>a\<close> is \<open>p\<close> or above it.\<close>

definition descends :: "pidns_state \<Rightarrow> ptr \<Rightarrow> ptr \<Rightarrow> bool" where
  "descends s a p \<longleftrightarrow> (\<exists>k \<le> level_of s p. nth_parent s k p = Some a)"

definition node_ok :: "pidns_state \<Rightarrow> pid_namespace \<Rightarrow> bool" where
  "node_ok s n \<longleftrightarrow> (\<exists>q m. pn_parent n = Some q \<and> pd_heap s q = Some m \<and> pn_level n = pn_level m + 1) \<and> pn_level n \<le> MAX_PID_NS_LEVEL
     \<and> 1 \<le> pn_count n \<and> pn_inum n \<in> pd_inums s"

definition pid_inv :: "pidns_state \<Rightarrow> bool" where
  "pid_inv s \<longleftrightarrow> \<not> pd_oops s
     \<and> (\<exists>n. pd_heap s init_pid_ns = Some n \<and> pn_level n = 0 \<and> pn_parent n = None)
     \<and> distinct (map pe_ns (pd_list s)) \<and> init_pid_ns \<notin> pe_ns ` set (pd_list s)
     \<and> dom (pd_heap s) = insert init_pid_ns (pe_ns ` set (pd_list s))
     \<and> (\<forall>p n. pd_heap s p = Some n \<longrightarrow> p = init_pid_ns \<or> node_ok s n)
     \<and> distinct (pd_zap s) \<and> set (pd_zap s) \<subseteq> pe_ns ` {x \<in> set (pd_list s). pe_zap_queued x}
     \<and> (\<forall>x \<in> ran (pd_nsproxy s). \<forall>q. np_children x = Some q \<longrightarrow> pd_heap s q \<noteq> None)
     \<and> ran (pd_task_nsproxy s) \<subseteq> dom (pd_nsproxy s) \<and> (pd_keepalive s \<longrightarrow> 1 \<le> pd_modrefs s)"

lemma pid_parts:
  assumes "pid_inv s"
  shows "\<not> pd_oops s" "\<exists>n. pd_heap s init_pid_ns = Some n \<and> pn_level n = 0 \<and> pn_parent n = None"
    "distinct (map pe_ns (pd_list s))" "init_pid_ns \<notin> pe_ns ` set (pd_list s)" "dom (pd_heap s) = insert init_pid_ns (pe_ns ` set (pd_list s))"
    "pd_heap s p = Some n \<Longrightarrow> p \<noteq> init_pid_ns \<Longrightarrow> node_ok s n" "distinct (pd_zap s)"
    "set (pd_zap s) \<subseteq> pe_ns ` {x \<in> set (pd_list s). pe_zap_queued x}"
    "pd_nsproxy s np = Some x \<Longrightarrow> np_children x = Some q \<Longrightarrow> pd_heap s q \<noteq> None"
    "pd_task_nsproxy s t = Some np \<Longrightarrow> pd_nsproxy s np \<noteq> None"
    "ran (pd_task_nsproxy s) \<subseteq> dom (pd_nsproxy s)" "pd_keepalive s \<longrightarrow> 1 \<le> pd_modrefs s"
  using assms unfolding pid_inv_def by (blast, blast, blast, blast, blast, blast, blast, blast, metis ranI, (metis domIff ranI subsetD), blast, blast)

section \<open>Steps\<close>

text \<open>What the kernel changes of a namespace: its pids, its first process, the open file on it.\<close>

definition kernel_pids :: "idr \<Rightarrow> int \<Rightarrow> nat option \<Rightarrow> bool \<Rightarrow> bool \<Rightarrow> pid_namespace \<Rightarrow> pid_namespace" where
  "kernel_pids ids next reaper adding stashed n =
     n\<lparr>pn_idr := ids, pn_idr_next := next, pn_reaper := reaper, pn_adding := adding, pn_stashed := stashed\<rparr>"

text \<open>Tasks come, go and share or copy their proxies; a copy points where the original did.\<close>

definition proxies_from :: "pidns_state \<Rightarrow> (ptr \<rightharpoonup> pid_nsproxy) \<Rightarrow> (nat \<rightharpoonup> ptr) \<Rightarrow> bool" where
  "proxies_from s N T \<longleftrightarrow> ran T \<subseteq> dom N \<and> (\<forall>x \<in> ran N. np_children x \<in> {None, Some init_pid_ns} \<union> np_children ` ran (pd_nsproxy s))"

inductive pid_step :: "pidns_state \<Rightarrow> pidns_state \<Rightarrow> bool" where
  create: "\<lbrakk>kmalloc_ok (pk_zalloc e); pd_heap s parent \<noteq> None; pidns_create e (Some parent) s = (s', r)\<rbrakk> \<Longrightarrow> pid_step s s'"
| install_new: "\<lbrakk>kmalloc_ok (pk_zalloc e); slot_install_pidns e s = (s', r)\<rbrakk> \<Longrightarrow> pid_step s s'"
| ns_get: "\<lbrakk>pd_heap s p \<noteq> None; pidns_get (Some p) s = (s', r)\<rbrakk> \<Longrightarrow> pid_step s s'"
| ns_put: "pd_heap s p \<noteq> None \<Longrightarrow> pid_step s (pidns_put (Some p) s)"
| setns: "\<lbrakk>pd_heap s new \<noteq> None; pd_heap s (pk_active e) \<noteq> None; pd_nsproxy s np \<noteq> None; pidns_install e np cred new s = (s', r)\<rbrakk> \<Longrightarrow> pid_step s s'"
| get_up: "\<lbrakk>pd_heap s ns \<noteq> None; pidns_get_parent e ns s = (s', r)\<rbrakk> \<Longrightarrow> pid_step s s'"
| get_children: "pidns_get_for_children t s = (s', r) \<Longrightarrow> pid_step s s'"
| last_pid: "\<lbrakk>pd_heap s (pk_active e) \<noteq> None; pidns_ns_last_pid e write s = (s', r)\<rbrakk> \<Longrightarrow> pid_step s s'"
| reboot: "\<lbrakk>pd_heap s (pk_active e) \<noteq> None; sys_reboot e m1 m2 cmd s = (s', k, r)\<rbrakk> \<Longrightarrow> pid_step s s'"
| task_exit: "\<lbrakk>pd_heap s (pk_active e) \<noteq> None; do_exit_pre e s = (s', r)\<rbrakk> \<Longrightarrow> pid_step s s'"
| zap: "zap_fn_pass dying allocated s = (s', k) \<Longrightarrow> pid_step s s'"
| kernel: "pd_heap s p \<noteq> None \<Longrightarrow> pid_step s (pn_upd p (kernel_pids ids next reaper adding stashed) s)"
| proxies: "proxies_from s N T \<Longrightarrow> pid_step s (s\<lparr>pd_nsproxy := N, pd_task_nsproxy := T, pd_leaders := ts\<rparr>)"
| keepalive: "pid_step s (keepalive_sync ipc_busy live s)"
| pin: "pid_step s (keepalive_pin live s)"
| release: "pid_step s (keepalive_release s)"
| module_users: "(if pd_keepalive s then 1 else 0) \<le> n \<Longrightarrow> pid_step s (s\<lparr>pd_modrefs := n\<rparr>)"

definition pid_boot :: "pidns_state \<Rightarrow> bool" where
  "pid_boot s \<longleftrightarrow> \<not> pd_oops s \<and> (\<exists>n. pd_heap s = [init_pid_ns \<mapsto> n] \<and> pn_level n = 0 \<and> pn_parent n = None) \<and> pd_list s = [] \<and> pd_zap s = []
     \<and> (\<forall>x \<in> ran (pd_nsproxy s). np_children x \<in> {None, Some init_pid_ns}) \<and> ran (pd_task_nsproxy s) \<subseteq> dom (pd_nsproxy s) \<and> \<not> pd_keepalive s"

definition pid_reachable :: "pidns_state \<Rightarrow> bool" where
  "pid_reachable s \<longleftrightarrow> (\<exists>s0. pid_boot s0 \<and> pid_step\<^sup>*\<^sup>* s0 s)"

section \<open>One namespace changes\<close>

definition pn_core :: "pid_namespace \<Rightarrow> nat \<times> ptr option \<times> nat" where
  "pn_core n = (pn_level n, pn_parent n, pn_inum n)"

definition keeps_core :: "(pid_namespace \<Rightarrow> pid_namespace) \<Rightarrow> bool" where
  "keeps_core f \<longleftrightarrow> (\<forall>n. pn_core (f n) = pn_core n \<and> (1 \<le> pn_count n \<longrightarrow> 1 \<le> pn_count (f n)))"

lemma keeps_core_simps [simp]:
  "keeps_core (pn_count_update (\<lambda>c. c + 1))" "keeps_core (pn_count_update (\<lambda>c. if c = 1 then 1 else c - 1))"
  "keeps_core (pn_reaper_update g)" "keeps_core (pn_reboot_update h)" "keeps_core (pn_adding_update b)" "keeps_core (pn_idr_next_update i)"
  "keeps_core (kernel_pids ids next reaper adding stashed)"
  by (auto simp: keeps_core_def pn_core_def kernel_pids_def)

lemma pn_upd_fields [simp]: "pd_list (pn_upd p f s) = pd_list s" "pd_zap (pn_upd p f s) = pd_zap s" "pd_nsproxy (pn_upd p f s) = pd_nsproxy s"
  "pd_task_nsproxy (pn_upd p f s) = pd_task_nsproxy s" "pd_inums (pn_upd p f s) = pd_inums s" "pd_leaders (pn_upd p f s) = pd_leaders s"
  "pd_reaper_task (pn_upd p f s) = pd_reaper_task s" "pd_retire_reaper (pn_upd p f s) = pd_retire_reaper s" "pd_cachep (pn_upd p f s) = pd_cachep s"
  "pd_keepalive (pn_upd p f s) = pd_keepalive s" "pd_modrefs (pn_upd p f s) = pd_modrefs s" "pd_caches (pn_upd p f s) = pd_caches s"
  "pd_heap (pn_upd p f s) q = (if q = p then map_option f (pd_heap s p) else pd_heap s q)"
  by (auto simp: pn_upd_def split: option.splits)

lemma pn_upd_oops: "pd_heap s p \<noteq> None \<Longrightarrow> pd_oops (pn_upd p f s) = pd_oops s"
  by (auto simp: pn_upd_def)

lemma pn_upd_inv:
  assumes inv: "pid_inv s" and p: "pd_heap s p \<noteq> None" and f: "keeps_core f"
  shows "pid_inv (pn_upd p f s)"
proof -
  let ?t = "pn_upd p f s"
  obtain n where n: "pd_heap s p = Some n" using p by blast
  have c: "pn_level (f m) = pn_level m" "pn_parent (f m) = pn_parent m" "pn_inum (f m) = pn_inum m" "1 \<le> pn_count m \<Longrightarrow> 1 \<le> pn_count (f m)" for m
    using f unfolding keeps_core_def pn_core_def by (metis prod.inject)+
  have lev: "\<exists>m'. pd_heap ?t q = Some m' \<and> pn_level m' = pn_level m" if "pd_heap s q = Some m" for q m
    using that c by (intro exI [of _ "if q = p then f m else m"]) auto
  have ok: "node_ok ?t m'" if "pd_heap ?t q = Some m'" "q \<noteq> init_pid_ns" for q m'
  proof -
    have "\<exists>m. pd_heap s q = Some m \<and> pn_core m' = pn_core m \<and> (1 \<le> pn_count m \<longrightarrow> 1 \<le> pn_count m')"
      using that(1) f n unfolding keeps_core_def by (cases "q = p") auto
    then obtain m where m: "pd_heap s q = Some m" "pn_core m' = pn_core m" "1 \<le> pn_count m \<longrightarrow> 1 \<le> pn_count m'" by blast
    have k: "node_ok s m" by (rule pid_parts(6) [OF inv m(1) that(2)])
    then obtain u v where "pn_parent m = Some u" "pd_heap s u = Some v" "pn_level m = pn_level v + 1" unfolding node_ok_def by blast
    moreover from lev [OF this(2)] obtain v' where "pd_heap ?t u = Some v'" "pn_level v' = pn_level v" by blast
    ultimately show ?thesis using k m(2,3) unfolding node_ok_def pn_core_def by auto
  qed
  have d: "dom (pd_heap ?t) = dom (pd_heap s)" using n by (auto simp: dom_def)
  note P = pid_parts [OF inv]
  obtain i where i: "pd_heap s init_pid_ns = Some i" "pn_level i = 0" "pn_parent i = None" using P(2) by blast
  have "\<exists>n. pd_heap ?t init_pid_ns = Some n \<and> pn_level n = 0 \<and> pn_parent n = None" using i c n by simp
  moreover have "pd_heap ?t q \<noteq> None" if "x \<in> ran (pd_nsproxy s)" "np_children x = Some q" for x q
  proof -
    obtain np where "pd_nsproxy s np = Some x" using \<open>x \<in> ran (pd_nsproxy s)\<close> by (auto simp: ran_def)
    then have "q \<in> dom (pd_heap s)" using P(9) that(2) by blast
    then show ?thesis using d by blast
  qed
  moreover have "\<forall>q m. pd_heap ?t q = Some m \<longrightarrow> q = init_pid_ns \<or> node_ok ?t m" using ok by blast
  moreover have "dom (pd_heap ?t) = insert init_pid_ns (pe_ns ` set (pd_list s))" using d P(5) by (rule trans)
  ultimately show ?thesis using P(1,3,4,7,8,11,12) unfolding pid_inv_def pn_upd_oops [OF p] pn_upd_fields(1-4,10,11) by blast
qed

lemma get_inv: "pid_inv s \<Longrightarrow> pd_heap s p \<noteq> None \<Longrightarrow> pid_inv (fst (pidns_get (Some p) s))"
  by (simp add: pidns_get_def pn_upd_inv)

lemma put_inv: "pid_inv s \<Longrightarrow> pd_heap s p \<noteq> None \<Longrightarrow> pid_inv (pidns_put (Some p) s)"
  by (simp add: pidns_put_def pn_upd_inv)

section \<open>Climbing\<close>

lemma level_parent: "pid_inv s \<Longrightarrow> pd_heap s p = Some n \<Longrightarrow> pn_level n = Suc k \<Longrightarrow>
    \<exists>q m. pn_parent n = Some q \<and> pd_heap s q = Some m \<and> pn_level m = k"
  using pid_parts(2) [of s] pid_parts(6) [of s p n] unfolding node_ok_def by (cases "p = init_pid_ns") auto

lemma level_zero: "pid_inv s \<Longrightarrow> pd_heap s p = Some n \<Longrightarrow> pn_level n = 0 \<Longrightarrow> p = init_pid_ns \<and> pn_parent n = None"
  using pid_parts(2) [of s] pid_parts(6) [of s p n] unfolding node_ok_def by (cases "p = init_pid_ns") auto

text \<open>The \<open>k\<close>-th parent is there and \<open>k\<close> levels up, as long as there are levels.\<close>

lemma nth_parent_level:
  assumes inv: "pid_inv s"
  shows "pd_heap s p = Some n \<Longrightarrow> k \<le> pn_level n \<Longrightarrow> \<exists>q m. nth_parent s k p = Some q \<and> pd_heap s q = Some m \<and> pn_level m = pn_level n - k"
proof (induction k arbitrary: p n)
  case (Suc k)
  obtain l where l: "pn_level n = Suc l" using Suc.prems(2) by (cases "pn_level n") auto
  obtain q m where q: "pn_parent n = Some q" "pd_heap s q = Some m" "pn_level m = l" using level_parent [OF inv Suc.prems(1) l] by blast
  show ?case using Suc.IH [OF q(2)] Suc.prems q l by (simp add: parent_of_def)
qed simp

lemma climb_level:
  assumes inv: "pid_inv s"
  shows "pd_heap s p = Some n \<Longrightarrow> level \<le> pn_level n \<Longrightarrow> pn_level n < fuel \<Longrightarrow>
    climb_to_level fuel s level p = nth_parent s (pn_level n - level) p"
proof (induction fuel arbitrary: p n)
  case (Suc fuel)
  show ?case
  proof (cases "pn_level n > level")
    case False
    then show ?thesis using Suc.prems by simp
  next
    case True
    then obtain l where l: "pn_level n = Suc l" by (cases "pn_level n") auto
    obtain q m where q: "pn_parent n = Some q" "pd_heap s q = Some m" "pn_level m = l" using level_parent [OF inv Suc.prems(1) l] by blast
    have "pn_level n - level = Suc (l - level)" using True l by simp
    then show ?thesis using Suc.IH [OF q(2)] Suc.prems True q l by (simp add: parent_of_def)
  qed
qed simp

lemma descends_level:
  assumes inv: "pid_inv s" and p: "pd_heap s p = Some n" and a: "pd_heap s a = Some m"
  shows "descends s a p \<longleftrightarrow> pn_level m \<le> pn_level n \<and> nth_parent s (pn_level n - pn_level m) p = Some a"
proof
  assume "descends s a p"
  then obtain k where k: "k \<le> pn_level n" "nth_parent s k p = Some a" using p by (auto simp: descends_def level_of_def)
  then have "pn_level m = pn_level n - k" using nth_parent_level [OF inv p k(1)] a by auto
  then show "pn_level m \<le> pn_level n \<and> nth_parent s (pn_level n - pn_level m) p = Some a" using k by simp
next
  assume "pn_level m \<le> pn_level n \<and> nth_parent s (pn_level n - pn_level m) p = Some a"
  then show "descends s a p" using p by (auto simp: descends_def level_of_def intro!: exI [of _ "pn_level n - pn_level m"])
qed

lemma ex_le_Suc: "(\<exists>k \<le> Suc l. P k) \<longleftrightarrow> P 0 \<or> (\<exists>k \<le> l. P (Suc k))"
proof
  assume "\<exists>k \<le> Suc l. P k"
  then obtain k where k: "k \<le> Suc l" "P k" by auto
  then show "P 0 \<or> (\<exists>k \<le> l. P (Suc k))" by (cases k) auto
qed auto

lemma climb_active:
  assumes inv: "pid_inv s"
  shows "pd_heap s p = Some n \<Longrightarrow> pn_level n + 1 < fuel \<Longrightarrow> climb_to_active fuel s a (Some p) = Some (descends s a p)"
proof (induction "pn_level n" arbitrary: p n fuel)
  case 0
  have "2 \<le> fuel" using 0(1,3) by simp
  then have f: "fuel = Suc (Suc (fuel - 2))" by simp
  have z: "pn_parent n = None" using level_zero [OF inv 0(2)] 0(1) by simp
  have "descends s a p \<longleftrightarrow> p = a" using 0(1,2) by (auto simp: descends_def level_of_def)
  then show ?case using 0(2) z by (subst f) simp
next
  case (Suc l)
  obtain f where f: "fuel = Suc f" "l + 1 < f" using Suc.prems(2) Suc.hyps(2) by (cases fuel) auto
  obtain q m where q: "pn_parent n = Some q" "pd_heap s q = Some m" "pn_level m = l" using level_parent [OF inv Suc.prems(1) Suc.hyps(2) [symmetric]] by blast
  have ih: "climb_to_active f s a (Some q) = Some (descends s a q)" using Suc.hyps(1) [OF q(3) [symmetric] q(2)] f(2) q(3) by simp
  have "descends s a p \<longleftrightarrow> p = a \<or> descends s a q"
  proof -
    have L: "level_of s p = Suc l" "level_of s q = l" using Suc.hyps(2) Suc.prems(1) q by (simp_all add: level_of_def)
    have N: "nth_parent s (Suc k) p = nth_parent s k q" for k using Suc.prems(1) q(1) by (simp add: parent_of_def)
    have "(\<exists>k \<le> Suc l. nth_parent s k p = Some a) \<longleftrightarrow> nth_parent s 0 p = Some a \<or> (\<exists>k \<le> l. nth_parent s (Suc k) p = Some a)"
      by (rule ex_le_Suc)
    then show ?thesis unfolding descends_def L N nth_parent.simps(1) option.inject .
  qed
  then show ?case using Suc.prems(1) q(1) ih by (simp add: f(1))
qed

end
