(* ===== verification/PidKeep.thy ===== *)
theory PidKeep
  imports PidInv
begin

text \<open>Every step of the module and of the kernel keeps the tree.\<close>

section \<open>A new namespace\<close>

lemma inv_caches [simp]: "pid_inv (s\<lparr>pd_caches := c\<rparr>) = pid_inv s"
  by (simp add: pid_inv_def node_ok_def)

lemma pidns_add_inv:
  assumes inv: "pid_inv s" and ns: "pd_heap s ns = None" and par: "pd_heap s parent = Some m"
    and lv: "pn_level m + 1 \<le> MAX_PID_NS_LEVEL"
  shows "pid_inv (s\<lparr>pd_heap := (pd_heap s)(ns \<mapsto> new_pid_ns e (pn_level m + 1) parent inum), pd_inums := insert inum (pd_inums s),
    pd_list := pd_list s @ [\<lparr>pe_ns = ns, pe_zap_queued = False\<rparr>]\<rparr>)" (is "pid_inv ?t")
proof -
  note P = pid_parts [OF inv]
  obtain i where i: "pd_heap s init_pid_ns = Some i" "pn_level i = 0" "pn_parent i = None" using P(2) by blast
  have ni: "ns \<noteq> init_pid_ns" using i(1) ns by auto
  have nl: "ns \<notin> pe_ns ` set (pd_list s)" using ns P(5) by (metis domIff insertCI)
  have k: "\<exists>n. pd_heap ?t init_pid_ns = Some n \<and> pn_level n = 0 \<and> pn_parent n = None" using i ni by simp
  have d: "dom (pd_heap ?t) = insert init_pid_ns (pe_ns ` set (pd_list ?t))" using P(5) by auto
  have l: "distinct (map pe_ns (pd_list ?t))" "init_pid_ns \<notin> pe_ns ` set (pd_list ?t)" using P(3,4) nl ni by auto
  have ok: "\<forall>p n. pd_heap ?t p = Some n \<longrightarrow> p = init_pid_ns \<or> node_ok ?t n"
  proof (intro allI impI)
    fix p n assume a: "pd_heap ?t p = Some n"
    show "p = init_pid_ns \<or> node_ok ?t n"
    proof (cases "p = ns")
      case True
      then have "n = new_pid_ns e (pn_level m + 1) parent inum" using a by simp
      moreover have "parent \<noteq> ns" using par ns by auto
      ultimately show ?thesis using par lv by (simp add: node_ok_def new_pid_ns_def)
    next
      case False
      then have "pd_heap s p = Some n" using a by simp
      then have "p = init_pid_ns \<or> node_ok s n" using P(6) by blast
      moreover have "node_ok ?t n" if no: "node_ok s n"
      proof -
        obtain q v where q: "pn_parent n = Some q" "pd_heap s q = Some v" "pn_level n = pn_level v + 1" using no unfolding node_ok_def by blast
        then have "q \<noteq> ns" using ns by auto
        then show ?thesis using no q unfolding node_ok_def by simp
      qed
      ultimately show ?thesis by blast
    qed
  qed
  have z: "set (pd_zap ?t) \<subseteq> pe_ns ` {x \<in> set (pd_list ?t). pe_zap_queued x}" using P(8) by auto
  have np: "\<forall>x \<in> ran (pd_nsproxy ?t). \<forall>q. np_children x = Some q \<longrightarrow> pd_heap ?t q \<noteq> None"
    using P(9) by (auto simp: ran_def)
  have f: "\<not> pd_oops ?t" "distinct (pd_zap ?t)" "ran (pd_task_nsproxy ?t) \<subseteq> dom (pd_nsproxy ?t)" "pd_keepalive ?t \<longrightarrow> 1 \<le> pd_modrefs ?t"
    using P(1,7,11,12) by simp_all
  show ?thesis unfolding pid_inv_def by (intro conjI f k l d ok z np)
qed

text \<open>What a creation leaves as it was.\<close>

definition grows :: "pidns_state \<Rightarrow> pidns_state \<Rightarrow> bool" where
  "grows s t \<longleftrightarrow> (\<forall>q n. pd_heap s q = Some n \<longrightarrow> pd_heap t q = Some n) \<and> pd_nsproxy t = pd_nsproxy s \<and> pd_task_nsproxy t = pd_task_nsproxy s"

lemma pidns_create_inv:
  assumes inv: "pid_inv s" and k: "kmalloc_ok (pk_zalloc e)" and par: "pd_heap s parent \<noteq> None"
    and c: "pidns_create e (Some parent) s = (t, r)"
  shows "pid_inv t \<and> grows s t \<and> (\<forall>p. r = Inr p \<longrightarrow> p \<noteq> init_pid_ns \<and> pd_heap s p = None \<and>
      (\<exists>n m. pd_heap t p = Some n \<and> pn_parent n = Some parent \<and> pd_heap s parent = Some m \<and> pn_level n = pn_level m + 1 \<and> pn_count n = 1)
      \<and> p \<in> pe_ns ` set (pd_list t))"
proof -
  obtain m where m: "pd_heap s parent = Some m" using par by blast
  note D = pidns_create_def Let_def m option.case
  show ?thesis
  proof (cases "pn_level m + 1 > MAX_PID_NS_LEVEL")
    case True
    then show ?thesis using c inv by (auto simp: D grows_def)
  next
    case lv: False
    show ?thesis
    proof (cases "pk_zalloc e (\<lambda>p. pd_heap s p \<noteq> None)")
      case None
      then show ?thesis using c inv lv by (auto simp: D grows_def)
    next
      case (Some ns)
      have fresh: "pd_heap s ns = None" using k Some unfolding kmalloc_ok_def by blast
      obtain i where i: "pd_heap s init_pid_ns = Some i" using pid_parts(2) [OF inv] by blast
      have ni: "ns \<noteq> init_pid_ns" using fresh i by auto
      obtain u b where u: "create_pid_cachep e (pn_level m + 1) s = (u, b)" by (metis surj_pair)
      obtain cc where cc: "u = s\<lparr>pd_caches := cc\<rparr>"
      proof (cases "u = s")
        case True
        then show thesis using that [of "pd_caches s"] by simp
      next
        case False
        then show thesis using that u by (auto simp: create_pid_cachep_def split: if_splits)
      qed
      have ui: "pid_inv u" using inv cc by simp
      have uh: "pd_heap u = pd_heap s" "grows s u" using cc by (simp_all add: grows_def)
      show ?thesis
      proof (cases "b \<and> (\<exists>i. pk_inum e = Inr i) \<and> pk_entry e")
        case False
        then have "t = u" "\<forall>p. r \<noteq> Inr p" using c lv Some u by (cases b; auto simp: D split: sum.splits if_splits)+
        then show ?thesis using ui uh by simp
      next
        case True
        then obtain inum where num: "pk_inum e = Inr inum" by blast
        have t: "t = u\<lparr>pd_heap := (pd_heap u)(ns \<mapsto> new_pid_ns e (pn_level m + 1) parent inum), pd_inums := insert inum (pd_inums u),
            pd_list := pd_list u @ [\<lparr>pe_ns = ns, pe_zap_queued = False\<rparr>]\<rparr>" and r: "r = Inr ns"
          using c lv Some u num True by (simp_all add: D)
        have "pid_inv t" unfolding t by (rule pidns_add_inv [OF ui]) (use fresh uh m lv in simp_all)
        moreover have "grows s t" using uh fresh unfolding t grows_def by auto
        ultimately show ?thesis using r fresh ni m t uh by (simp add: new_pid_ns_def)
      qed
    qed
  qed
qed

section \<open>Tasks and proxies\<close>

lemma proxy_inv:
  assumes inv: "pid_inv s" and T: "ran T \<subseteq> dom N" and N: "\<And>np x q. N np = Some x \<Longrightarrow> np_children x = Some q \<Longrightarrow> pd_heap s q \<noteq> None"
  shows "pid_inv (s\<lparr>pd_nsproxy := N, pd_task_nsproxy := T, pd_leaders := ts\<rparr>)" (is "pid_inv ?t")
proof -
  note P = pid_parts [OF inv]
  have f: "\<not> pd_oops ?t" "distinct (map pe_ns (pd_list ?t))" "init_pid_ns \<notin> pe_ns ` set (pd_list ?t)"
    "dom (pd_heap ?t) = insert init_pid_ns (pe_ns ` set (pd_list ?t))" "distinct (pd_zap ?t)"
    "set (pd_zap ?t) \<subseteq> pe_ns ` {x \<in> set (pd_list ?t). pe_zap_queued x}" "pd_keepalive ?t \<longrightarrow> 1 \<le> pd_modrefs ?t"
    "\<exists>n. pd_heap ?t init_pid_ns = Some n \<and> pn_level n = 0 \<and> pn_parent n = None" "ran (pd_task_nsproxy ?t) \<subseteq> dom (pd_nsproxy ?t)"
    using P(1-5,7,8,12) T by simp_all
  have "\<forall>p n. pd_heap ?t p = Some n \<longrightarrow> p = init_pid_ns \<or> node_ok ?t n" using P(6) by (auto simp: node_ok_def)
  moreover have "\<forall>x \<in> ran (pd_nsproxy ?t). \<forall>q. np_children x = Some q \<longrightarrow> pd_heap ?t q \<noteq> None" using N by (auto simp: ran_def)
  ultimately show ?thesis unfolding pid_inv_def by (intro conjI f)
qed

lemma children_inv:
  assumes inv: "pid_inv s" and np: "pd_nsproxy s np = Some x" and q: "pd_heap s q \<noteq> None"
  shows "pid_inv (s\<lparr>pd_nsproxy := (pd_nsproxy s)(np \<mapsto> x\<lparr>np_children := Some q\<rparr>)\<rparr>)"
proof -
  let ?N = "(pd_nsproxy s)(np \<mapsto> x\<lparr>np_children := Some q\<rparr>)"
  have "ran (pd_task_nsproxy s) \<subseteq> dom ?N" using pid_parts(11) [OF inv] by auto
  then have "pid_inv (s\<lparr>pd_nsproxy := ?N, pd_task_nsproxy := pd_task_nsproxy s, pd_leaders := pd_leaders s\<rparr>)"
    by (rule proxy_inv [OF inv]) (use q pid_parts(9) [OF inv] in \<open>auto split: if_splits\<close>)
  then show ?thesis by simp
qed

lemma set_children_inv:
  assumes inv: "pid_inv s" and np: "pd_nsproxy s np \<noteq> None" and q: "pd_heap s q \<noteq> None"
  shows "pid_inv (set_children_ns np q s)"
proof -
  obtain x where "pd_nsproxy s np = Some x" using np by blast
  then show ?thesis using children_inv [OF inv _ q] by (simp add: set_children_ns_def)
qed

lemma task_children_there:
  assumes inv: "pid_inv s" and p: "task_children_ns s t = Some p"
  shows "pd_heap s p \<noteq> None"
proof -
  obtain np where np: "pd_task_nsproxy s t = Some np" using p by (auto simp: task_children_ns_def split: option.splits)
  obtain x where x: "pd_nsproxy s np = Some x" using pid_parts(10) [OF inv np] by blast
  show ?thesis using pid_parts(9) [OF inv x] p np x by (simp add: task_children_ns_def)
qed

lemma ours_iff: "pid_inv s \<Longrightarrow> pidns_is_ours s (Some p) \<longleftrightarrow> p \<noteq> init_pid_ns \<and> pd_heap s p \<noteq> None"
  using pid_parts(4,5) [of s] by (auto simp: pidns_is_ours_def dom_def set_eq_iff)

lemma ours_none [simp]: "\<not> pidns_is_ours s None"
  by (simp add: pidns_is_ours_def)

definition creation_parent :: "pidns_env \<Rightarrow> pidns_state \<Rightarrow> ptr" where
  "creation_parent e s =
     (if pidns_is_ours s (task_children_ns s (pk_task e)) then the (task_children_ns s (pk_task e)) else init_pid_ns)"

lemma create_current_parent:
  assumes inv: "pid_inv s"
  shows "pidns_create_for_current e s = pidns_create e (Some (creation_parent e s)) s \<and> pd_heap s (creation_parent e s) \<noteq> None"
proof (cases "pidns_is_ours s (task_children_ns s (pk_task e))")
  case True
  then obtain p where p: "task_children_ns s (pk_task e) = Some p" by (cases "task_children_ns s (pk_task e)") auto
  then show ?thesis using True task_children_there [OF inv p] by (simp add: pidns_create_for_current_def creation_parent_def)
next
  case False
  then show ?thesis using pid_parts(2) [OF inv] by (auto simp: pidns_create_for_current_def creation_parent_def)
qed

lemma install_new_inv:
  assumes inv: "pid_inv s" and k: "kmalloc_ok (pk_zalloc e)" and c: "slot_install_pidns e s = (t, r)"
  shows "pid_inv t"
proof -
  obtain par where par: "pidns_create_for_current e s = pidns_create e (Some par) s" "pd_heap s par \<noteq> None"
    using create_current_parent [OF inv] by blast
  obtain u q where u: "pidns_create e (Some par) s = (u, q)" by (metis surj_pair)
  have g: "pid_inv u" "grows s u" "\<And>p. q = Inr p \<Longrightarrow> pd_heap u p \<noteq> None" using pidns_create_inv [OF inv k par(2) u] by blast+
  show ?thesis
  proof (cases q)
    case (Inl err)
    then show ?thesis using c par(1) u g(1) by (simp add: slot_install_pidns_def)
  next
    case (Inr p)
    have p: "pd_heap u p \<noteq> None" using g(3) Inr by blast
    show ?thesis
    proof (cases "pd_task_nsproxy u (pk_task e)")
      case None
      then show ?thesis using c par(1) u Inr put_inv [OF g(1) p] by (simp add: slot_install_pidns_def)
    next
      case (Some np)
      then show ?thesis using c par(1) u Inr set_children_inv [OF g(1) pid_parts(10) [OF g(1) Some] p] by (simp add: slot_install_pidns_def)
    qed
  qed
qed

section \<open>The zap list\<close>

lemma mark_queued_keeps [simp]: "map pe_ns (mark_queued p l) = map pe_ns l"
  by (induction l) auto

lemma mark_queued_set: "distinct (map pe_ns l) \<Longrightarrow>
    pe_ns ` {x \<in> set (mark_queued p l). pe_zap_queued x} = pe_ns ` {x \<in> set l. pe_zap_queued x} \<union> ({p} \<inter> pe_ns ` set l)"
  by (induction l) (auto 0 3 simp: image_iff)

lemma zap_inv:
  assumes inv: "pid_inv s" and l: "map pe_ns l = map pe_ns (pd_list s)" and z: "distinct z" "set z \<subseteq> pe_ns ` {x \<in> set l. pe_zap_queued x}"
  shows "pid_inv (s\<lparr>pd_list := l, pd_zap := z\<rparr>)" (is "pid_inv ?t")
proof -
  note P = pid_parts [OF inv]
  have s: "pe_ns ` set l = pe_ns ` set (pd_list s)" using arg_cong [OF l, of set] by simp
  have f: "\<not> pd_oops ?t" "distinct (map pe_ns (pd_list ?t))" "init_pid_ns \<notin> pe_ns ` set (pd_list ?t)"
    "dom (pd_heap ?t) = insert init_pid_ns (pe_ns ` set (pd_list ?t))" "distinct (pd_zap ?t)"
    "set (pd_zap ?t) \<subseteq> pe_ns ` {x \<in> set (pd_list ?t). pe_zap_queued x}" "pd_keepalive ?t \<longrightarrow> 1 \<le> pd_modrefs ?t"
    "\<exists>n. pd_heap ?t init_pid_ns = Some n \<and> pn_level n = 0 \<and> pn_parent n = None" "ran (pd_task_nsproxy ?t) \<subseteq> dom (pd_nsproxy ?t)"
    using P(1-5,11,12) z by (simp_all add: l s)
  have "\<forall>p n. pd_heap ?t p = Some n \<longrightarrow> p = init_pid_ns \<or> node_ok ?t n" using P(6) by (auto simp: node_ok_def)
  moreover have "\<forall>x \<in> ran (pd_nsproxy ?t). \<forall>q. np_children x = Some q \<longrightarrow> pd_heap ?t q \<noteq> None" using P(9) by (auto simp: ran_def)
  ultimately show ?thesis unfolding pid_inv_def by (intro conjI f)
qed

lemma pidns_queue_inv:
  assumes inv: "pid_inv s"
  shows "pid_inv (pidns_queue_zap ns s)"
proof -
  note P = pid_parts [OF inv]
  consider "pidns_queue_zap ns s = s"
    | x where "find (\<lambda>x. pe_ns x = ns) (pd_list s) = Some x" "\<not> pe_zap_queued x"
        "pidns_queue_zap ns s = s\<lparr>pd_list := mark_queued ns (pd_list s), pd_zap := pd_zap s @ [ns]\<rparr>"
  proof (cases "ns = init_pid_ns")
    case True
    then show thesis using that(1) by (simp add: pidns_queue_zap_def)
  next
    case ni: False
    show thesis
    proof (cases "find (\<lambda>x. pe_ns x = ns) (pd_list s)")
      case None
      then show thesis using that(1) by (simp add: pidns_queue_zap_def)
    next
      case (Some x)
      then show thesis using that(1) that(2) [OF Some] ni by (cases "pe_zap_queued x") (simp_all add: pidns_queue_zap_def)
    qed
  qed
  then show ?thesis
  proof cases
    case 1
    then show ?thesis using inv by simp
  next
    case 2
    have x: "x \<in> set (pd_list s)" "pe_ns x = ns" using 2(1) by (auto simp: find_Some_iff)
    have "ns \<notin> pe_ns ` {y \<in> set (pd_list s). pe_zap_queued y}"
    proof
      assume "ns \<in> pe_ns ` {y \<in> set (pd_list s). pe_zap_queued y}"
      then obtain y where y: "y \<in> set (pd_list s)" "pe_zap_queued y" "pe_ns y = ns" by auto
      then have "y = x" using x P(3) unfolding distinct_map inj_on_def by auto
      then show False using y 2(2) by blast
    qed
    then have d: "distinct (pd_zap s @ [ns])" using P(7,8) by auto
    have "set (pd_zap s @ [ns]) \<subseteq> pe_ns ` {x \<in> set (mark_queued ns (pd_list s)). pe_zap_queued x}"
      unfolding mark_queued_set [OF P(3)] using P(8) x by auto
    then show ?thesis unfolding 2(3) by (rule zap_inv [OF inv mark_queued_keeps d])
  qed
qed

lemma zap_pop_inv:
  assumes inv: "pid_inv s" and z: "pd_zap s = p # ps"
  shows "pid_inv (s\<lparr>pd_zap := ps\<rparr>)" "pd_heap s p \<noteq> None"
proof -
  note P = pid_parts [OF inv]
  have "pid_inv (s\<lparr>pd_list := pd_list s, pd_zap := ps\<rparr>)" by (rule zap_inv [OF inv]) (use P(7,8) z in auto)
  then show "pid_inv (s\<lparr>pd_zap := ps\<rparr>)" by simp
  have "p \<in> pe_ns ` set (pd_list s)" using P(8) z by auto
  then show "pd_heap s p \<noteq> None" using P(5) by blast
qed

lemma zap_loop_inv: "pid_inv s \<Longrightarrow> pd_zap s = ps \<Longrightarrow> zap_loop dying allocated ps s = (t, k) \<Longrightarrow> pid_inv t"
proof (induction ps arbitrary: s t k)
  case Nil
  then have "t = s\<lparr>pd_zap := []\<rparr>" "s\<lparr>pd_zap := []\<rparr> = s\<lparr>pd_zap := pd_zap s\<rparr>" by simp_all
  then show ?case using Nil.prems(1) by simp
next
  case (Cons p ps)
  note z = zap_pop_inv [OF Cons.prems(1,2)]
  obtain n where n: "pd_heap s p = Some n" using z(2) by blast
  let ?u = "pn_upd p (pn_adding_update (\<lambda>_. False)) (s\<lparr>pd_zap := ps\<rparr>)"
  have u: "pid_inv ?u" "pd_zap ?u = ps" using pn_upd_inv [OF z(1), of p] n by simp_all
  obtain t2 rest where r: "zap_loop dying allocated ps ?u = (t2, rest)" by (metis surj_pair)
  have "t = t2" using Cons.prems(3) n r by (simp add: pidns_do_zap_def)
  then show ?case using Cons.IH [OF u r] by blast
qed

section \<open>The other steps\<close>

lemma upd_inv_some: "pid_inv s \<Longrightarrow> pd_heap s p = Some n \<Longrightarrow> keeps_core f \<Longrightarrow> pid_inv (pn_upd p f s)"
  by (simp add: pn_upd_inv)

lemma setns_inv:
  assumes inv: "pid_inv s" and n: "pd_heap s new \<noteq> None" and a: "pd_heap s (pk_active e) \<noteq> None" and np: "pd_nsproxy s np \<noteq> None"
    and c: "pidns_install e np cred new s = (t, r)"
  shows "pid_inv t"
proof -
  obtain n where n: "pd_heap s new = Some n" using n by blast
  obtain m where m: "pd_heap s (pk_active e) = Some m" using a by blast
  obtain x where x: "pd_nsproxy s np = Some x" using np by blast
  have climb: "pn_level m \<le> pn_level n \<Longrightarrow> climb_to_level (pn_level n + 1) s (pn_level m) new = nth_parent s (pn_level n - pn_level m) new"
    by (rule climb_level [OF inv n]) simp_all
  have top: "\<exists>q. nth_parent s (pn_level n - pn_level m) new = Some q" using nth_parent_level [OF inv n, of "pn_level n - pn_level m"] by auto
  have "t = s \<or> t = s\<lparr>pd_nsproxy := (pd_nsproxy s)(np \<mapsto> x\<lparr>np_children := Some new\<rparr>)\<rparr>"
    using c top climb n m x by (auto simp: pidns_install_def split: if_splits)
  then show ?thesis using inv children_inv [OF inv x, of new] n by auto
qed

lemma get_parent_inv:
  assumes inv: "pid_inv s" and n: "pd_heap s ns \<noteq> None" and c: "pidns_get_parent e ns s = (t, r)"
  shows "pid_inv t"
proof -
  obtain n where n: "pd_heap s ns = Some n" using n by blast
  show ?thesis
  proof (cases "pn_parent n")
    case None
    then have "t = s" using c n by (simp add: pidns_get_parent_def)
    then show ?thesis using inv by simp
  next
    case (Some q)
    have "ns \<noteq> init_pid_ns" using Some n pid_parts(2) [OF inv] by auto
    then obtain m where m: "pd_heap s q = Some m" "pn_level n = pn_level m + 1"
      using pid_parts(6) [OF inv n] Some unfolding node_ok_def by auto
    have cl: "climb_to_active (pn_level n + 1) s (pk_active e) (Some q) = Some (descends s (pk_active e) q)"
      by (rule climb_active [OF inv m(1)]) (simp add: m(2))
    have g: "pid_inv (fst (pidns_get (Some q) s))" using get_inv [OF inv] m(1) by blast
    have "t = s \<or> t = fst (pidns_get (Some q) s)"
      using c cl by (cases "descends s (pk_active e) q") (simp_all add: pidns_get_parent_def n Some pidns_get_def)
    then show ?thesis using inv g by auto
  qed
qed

lemma get_children_inv:
  assumes inv: "pid_inv s" and c: "pidns_get_for_children tk s = (t, r)"
  shows "pid_inv t"
proof (cases "task_children_ns s tk")
  case None
  then have "t = s" using c by (simp add: pidns_get_for_children_def pidns_get_def)
  then show ?thesis using inv by simp
next
  case (Some p)
  have p: "pd_heap s p \<noteq> None" by (rule task_children_there [OF inv Some])
  obtain u where u: "pidns_get (Some p) s = (u, Some p)" "pid_inv u" "pd_heap u p \<noteq> None"
    using get_inv [OF inv p] p by (cases "p = init_pid_ns") (auto simp: pidns_get_def)
  have "t = u \<or> t = pidns_put (Some p) u"
    using c u(3) by (auto simp: pidns_get_for_children_def Some u(1) split: if_splits)
  then show ?thesis using u put_inv [OF u(2,3)] by auto
qed

lemma last_pid_inv: "pid_inv s \<Longrightarrow> pidns_ns_last_pid e w s = (t, r) \<Longrightarrow> pid_inv t"
  using upd_inv_some [of s "pk_active e"] by (auto simp: pidns_ns_last_pid_def split: option.splits sum.splits if_splits)

lemma reboot_inv: "pid_inv s \<Longrightarrow> pd_heap s ns \<noteq> None \<Longrightarrow> pidns_reboot ns cmd s = (t, k, r) \<Longrightarrow> pid_inv t"
  using pn_upd_inv [of s ns] by (auto simp: pidns_reboot_def Let_def split: if_splits)

lemma sys_reboot_state: "sys_reboot e magic other cmd s = (t, k, r) \<Longrightarrow> t = s \<or> t = fst (pidns_reboot (pk_active e) cmd s)"
  by (auto simp: sys_reboot_def split: prod.splits sum.splits if_splits)

lemma sys_reboot_inv:
  assumes inv: "pid_inv s" and a: "pd_heap s (pk_active e) \<noteq> None" and c: "sys_reboot e magic other cmd s = (t, k, r)"
  shows "pid_inv t"
proof -
  obtain u l q where u: "pidns_reboot (pk_active e) cmd s = (u, l, q)" by (metis surj_pair)
  show ?thesis using sys_reboot_state [OF c] reboot_inv [OF inv a u] u inv by auto
qed

lemma exit_pre_inv:
  assumes inv: "pid_inv s" and c: "do_exit_pre e s = (t, r)"
  shows "pid_inv t"
proof (cases "pidns_is_ours s (Some (pk_active e))")
  case False
  then show ?thesis using c inv by (simp add: do_exit_pre_def)
next
  case True
  then obtain n where n: "pd_heap s (pk_active e) = Some n" using ours_iff [OF inv] by blast
  let ?u = "pn_upd (pk_active e) (pn_adding_update (\<lambda>_. False)) s"
  let ?v = "if pd_reaper_task ?u \<noteq> None then pn_upd (pk_active e) (pn_reaper_update (\<lambda>_. pd_reaper_task ?u)) ?u else ?u"
  have u: "pid_inv ?u" by (rule upd_inv_some [OF inv n]) simp
  have "pd_heap ?u (pk_active e) \<noteq> None" using n by simp
  then have v: "pid_inv ?v" using pn_upd_inv [OF u] u by simp
  show ?thesis
  proof (cases "pn_reaper n = Some (pk_task e)")
    case False
    then show ?thesis using c inv True n by (simp add: do_exit_pre_def)
  next
    case t: True
    have "t = pidns_queue_zap (pk_active e) ?v" using c True n t by (simp add: do_exit_pre_def Let_def)
    then show ?thesis using pidns_queue_inv [OF v] by simp
  qed
qed

lemma modrefs_inv: "pid_inv s \<Longrightarrow> (b \<longrightarrow> 1 \<le> n) \<Longrightarrow> pid_inv (s\<lparr>pd_modrefs := n, pd_keepalive := b\<rparr>)"
  by (simp add: pid_inv_def node_ok_def)

lemma modrefs_inv': "pid_inv s \<Longrightarrow> (b \<longrightarrow> 1 \<le> n) \<Longrightarrow> pid_inv (s\<lparr>pd_keepalive := b, pd_modrefs := n\<rparr>)"
  by (simp add: pid_inv_def node_ok_def)

lemma keepalive_inv: "pid_inv s \<Longrightarrow> pid_inv (keepalive_pin live s)" "pid_inv s \<Longrightarrow> pid_inv (keepalive_release s)"
    "pid_inv s \<Longrightarrow> pid_inv (keepalive_sync b live s)"
  by (simp_all add: keepalive_pin_def keepalive_release_def keepalive_sync_def modrefs_inv modrefs_inv')

lemma module_users_inv: "pid_inv s \<Longrightarrow> (if pd_keepalive s then 1 else 0) \<le> n \<Longrightarrow> pid_inv (s\<lparr>pd_modrefs := n\<rparr>)"
  by (auto simp: pid_inv_def node_ok_def)

lemma proxies_inv:
  assumes inv: "pid_inv s" and f: "proxies_from s N T"
  shows "pid_inv (s\<lparr>pd_nsproxy := N, pd_task_nsproxy := T, pd_leaders := ts\<rparr>)"
proof (rule proxy_inv [OF inv])
  show "ran T \<subseteq> dom N" using f by (simp add: proxies_from_def)
  fix np x q assume a: "N np = Some x" "np_children x = Some q"
  have x: "x \<in> ran N" using a(1) by (rule ranI)
  have "Some q \<in> {None, Some init_pid_ns} \<union> np_children ` ran (pd_nsproxy s)" using f x a(2) unfolding proxies_from_def by metis
  then consider "q = init_pid_ns" | y where "y \<in> ran (pd_nsproxy s)" "np_children y = Some q" by force
  then show "pd_heap s q \<noteq> None"
  proof cases
    case 1
    then show ?thesis using pid_parts(2) [OF inv] by auto
  next
    case 2
    then show ?thesis using pid_parts(9) [OF inv] by (auto simp: ran_def)
  qed
qed

lemma pid_step_inv: "pid_step s t \<Longrightarrow> pid_inv s \<Longrightarrow> pid_inv t"
proof (induction rule: pid_step.induct)
  case (create e s parent s' r)
  then show ?case using pidns_create_inv by blast
next
  case (install_new e s s' r)
  then show ?case using install_new_inv by blast
next
  case (ns_get s p s' r)
  then show ?case using get_inv [of s p] by simp
next
  case (ns_put s p)
  then show ?case using put_inv by blast
next
  case (setns s new e np cred s' r)
  then show ?case using setns_inv by blast
next
  case (get_up s ns e s' r)
  then show ?case using get_parent_inv by blast
next
  case (get_children t s s' r)
  then show ?case using get_children_inv by blast
next
  case (last_pid s e w s' r)
  then show ?case using last_pid_inv by blast
next
  case (reboot s e a b cmd s' k r)
  then show ?case using sys_reboot_inv by blast
next
  case (task_exit s e s' r)
  then show ?case using exit_pre_inv by blast
next
  case (zap dying allocated s s' k)
  then show ?case using zap_loop_inv [of s "pd_zap s"] by (simp add: zap_fn_pass_def)
next
  case (kernel s p ids nx reaper adding stashed)
  then show ?case using pn_upd_inv by simp
next
  case (proxies s N T ts)
  then show ?case using proxies_inv by blast
next
  case (module_users s n)
  then show ?case using module_users_inv by blast
qed (rule keepalive_inv, assumption)+

lemma pid_boot_inv: "pid_boot s \<Longrightarrow> pid_inv s"
  by (auto simp: pid_boot_def pid_inv_def dom_def split: if_splits)

lemma pid_reachable_inv:
  assumes "pid_reachable s"
  shows "pid_inv s"
proof -
  obtain b where b: "pid_boot b" "pid_step\<^sup>*\<^sup>* b s" using assms unfolding pid_reachable_def by blast
  from b(2) show ?thesis by (induction rule: rtranclp_induct) (use b(1) pid_boot_inv pid_step_inv in blast)+
qed

end
