(* ===== verification/PidSpec.thy ===== *)
theory PidSpec
  imports PidKeep
begin

text \<open>The parts of unload: the reapers, the walk over the tasks, the list of namespaces.\<close>

section \<open>Unload\<close>

text \<open>The reapers are replaced first.\<close>

lemma fold_upd_fields: "pd_list (fold (\<lambda>x. pn_upd (g x) f) l s) = pd_list s" "pd_zap (fold (\<lambda>x. pn_upd (g x) f) l s) = pd_zap s"
  "pd_nsproxy (fold (\<lambda>x. pn_upd (g x) f) l s) = pd_nsproxy s" "pd_task_nsproxy (fold (\<lambda>x. pn_upd (g x) f) l s) = pd_task_nsproxy s"
  "pd_leaders (fold (\<lambda>x. pn_upd (g x) f) l s) = pd_leaders s" "pd_retire_reaper (fold (\<lambda>x. pn_upd (g x) f) l s) = pd_retire_reaper s"
  "pd_cachep (fold (\<lambda>x. pn_upd (g x) f) l s) = pd_cachep s"
  by (induction l arbitrary: s) simp_all

lemma fold_upd_inv: "pid_inv s \<Longrightarrow> \<forall>x \<in> set l. pd_heap s (g x) \<noteq> None \<Longrightarrow> keeps_core f \<Longrightarrow> pid_inv (fold (\<lambda>x. pn_upd (g x) f) l s)"
  by (induction l arbitrary: s) (auto simp: pn_upd_inv)

lemma retire_fields [simp]: "pd_list (retire_reapers s) = pd_list s" "pd_nsproxy (retire_reapers s) = pd_nsproxy s"
  "pd_task_nsproxy (retire_reapers s) = pd_task_nsproxy s" "pd_leaders (retire_reapers s) = pd_leaders s"
  "pd_retire_reaper (retire_reapers s) = pd_retire_reaper s" "pd_cachep (retire_reapers s) = pd_cachep s"
  by (simp_all add: retire_reapers_def fold_upd_fields)

lemma retire_inv: "pid_inv s \<Longrightarrow> pid_inv (retire_reapers s)"
  using pid_parts(5) [of s] by (auto simp: retire_reapers_def intro!: fold_upd_inv)

text \<open>Then the walk over the tasks.\<close>

lemma reset_one_cases:
  assumes inv: "pid_inv s"
  obtains "reset_task_ref t s = s" "\<And>q. task_children_ns s t = Some q \<Longrightarrow> q = init_pid_ns"
    | np p x where "pd_task_nsproxy s t = Some np" "pd_nsproxy s np = Some x" "np_children x = Some p" "pidns_is_ours s (Some p)"
        "reset_task_ref t s = set_children_ns np init_pid_ns (pidns_put (Some p) s)"
proof (cases "pidns_is_ours s (task_children_ns s t)")
  case False
  have "q = init_pid_ns" if "task_children_ns s t = Some q" for q
    using False that ours_iff [OF inv] task_children_there [OF inv that] by auto
  then show thesis using that(1) False by (simp add: reset_task_ref_def)
next
  case True
  then obtain p where p: "task_children_ns s t = Some p" by (cases "task_children_ns s t") auto
  obtain np where np: "pd_task_nsproxy s t = Some np" using p by (auto simp: task_children_ns_def split: option.splits)
  obtain x where x: "pd_nsproxy s np = Some x" using pid_parts(10) [OF inv np] by blast
  show thesis by (rule that(2) [OF np x]) (use p np x True in \<open>simp_all add: task_children_ns_def reset_task_ref_def\<close>)
qed

lemma put_fields [simp]: "pd_list (pidns_put r s) = pd_list s" "pd_nsproxy (pidns_put r s) = pd_nsproxy s"
  "pd_task_nsproxy (pidns_put r s) = pd_task_nsproxy s" "pd_leaders (pidns_put r s) = pd_leaders s"
  "pd_retire_reaper (pidns_put r s) = pd_retire_reaper s" "pd_cachep (pidns_put r s) = pd_cachep s" "pd_zap (pidns_put r s) = pd_zap s"
  by (cases r; simp add: pidns_put_def)+

lemma set_children_fields [simp]: "pd_list (set_children_ns np p s) = pd_list s" "pd_heap (set_children_ns np p s) = pd_heap s"
  "pd_task_nsproxy (set_children_ns np p s) = pd_task_nsproxy s" "pd_leaders (set_children_ns np p s) = pd_leaders s"
  "pd_retire_reaper (set_children_ns np p s) = pd_retire_reaper s" "pd_cachep (set_children_ns np p s) = pd_cachep s" "pd_zap (set_children_ns np p s) = pd_zap s"
  by (auto simp: set_children_ns_def split: option.splits)

lemma reset_one_fields: "pd_list (reset_task_ref t s) = pd_list s" "pd_task_nsproxy (reset_task_ref t s) = pd_task_nsproxy s"
  "pd_leaders (reset_task_ref t s) = pd_leaders s" "pd_retire_reaper (reset_task_ref t s) = pd_retire_reaper s"
  "pd_cachep (reset_task_ref t s) = pd_cachep s" "pd_zap (reset_task_ref t s) = pd_zap s"
  by (auto simp: reset_task_ref_def split: option.splits)

text \<open>The proxy of a task that has been met no longer refers to a namespace of the module, and stays so.\<close>

lemma reset_one_inv:
  assumes inv: "pid_inv s"
  shows "pid_inv (reset_task_ref t s)"
proof (rule reset_one_cases [OF inv, of t])
  assume "reset_task_ref t s = s"
  then show ?thesis using inv by simp
next
  fix np p x
  assume a: "pd_task_nsproxy s t = Some np" "pd_nsproxy s np = Some x" "np_children x = Some p" "pidns_is_ours s (Some p)"
    "reset_task_ref t s = set_children_ns np init_pid_ns (pidns_put (Some p) s)"
  have p: "pd_heap s p \<noteq> None" using a(4) ours_iff [OF inv] by blast
  have u: "pid_inv (pidns_put (Some p) s)" by (rule put_inv [OF inv p])
  have "pd_heap (pidns_put (Some p) s) init_pid_ns \<noteq> None" using pid_parts(2) [OF u] by auto
  then show ?thesis unfolding a(5) by (intro set_children_inv [OF u]) (use a(2) in simp_all)
qed

lemma reset_one_children:
  assumes inv: "pid_inv s"
  shows "task_children_ns (reset_task_ref t s) u = task_children_ns s u \<or> task_children_ns (reset_task_ref t s) u = Some init_pid_ns"
    "task_children_ns (reset_task_ref t s) t = Some q \<Longrightarrow> q = init_pid_ns"
proof -
  have "(task_children_ns (reset_task_ref t s) u = task_children_ns s u \<or> task_children_ns (reset_task_ref t s) u = Some init_pid_ns)
    \<and> (task_children_ns (reset_task_ref t s) t = Some q \<longrightarrow> q = init_pid_ns)"
  proof (rule reset_one_cases [OF inv, of t])
    assume "reset_task_ref t s = s" "\<And>q. task_children_ns s t = Some q \<Longrightarrow> q = init_pid_ns"
    then show ?thesis by simp
  next
    fix np p x
    assume a: "pd_task_nsproxy s t = Some np" "pd_nsproxy s np = Some x" "np_children x = Some p" "pidns_is_ours s (Some p)"
      "reset_task_ref t s = set_children_ns np init_pid_ns (pidns_put (Some p) s)"
    have "pd_nsproxy (reset_task_ref t s) = (pd_nsproxy s)(np \<mapsto> x\<lparr>np_children := Some init_pid_ns\<rparr>)"
      unfolding a(5) using a(2) by (simp add: set_children_ns_def)
    then show ?thesis using a(1) by (auto simp: task_children_ns_def reset_one_fields split: option.splits)
  qed
  then show "task_children_ns (reset_task_ref t s) u = task_children_ns s u \<or> task_children_ns (reset_task_ref t s) u = Some init_pid_ns"
    "task_children_ns (reset_task_ref t s) t = Some q \<Longrightarrow> q = init_pid_ns" by blast+
qed

lemma reset_all:
  assumes "pid_inv s"
  shows "pid_inv (fold reset_task_ref ts s) \<and> pd_list (fold reset_task_ref ts s) = pd_list s \<and> pd_zap (fold reset_task_ref ts s) = pd_zap s
    \<and> pd_retire_reaper (fold reset_task_ref ts s) = pd_retire_reaper s \<and> pd_cachep (fold reset_task_ref ts s) = pd_cachep s
    \<and> (\<forall>t q. task_children_ns (fold reset_task_ref ts s) t = Some q \<longrightarrow> q = init_pid_ns \<or> (task_children_ns s t = Some q \<and> t \<notin> set ts))"
  using assms
proof (induction ts arbitrary: s)
  case (Cons t ts)
  let ?u = "reset_task_ref t s"
  note ih = Cons.IH [OF reset_one_inv [OF Cons.prems, of t]]
  have "q = init_pid_ns \<or> (task_children_ns s u = Some q \<and> u \<notin> set (t # ts))"
    if c: "task_children_ns (fold reset_task_ref ts ?u) u = Some q" for u q
  proof (cases "q = init_pid_ns")
    case False
    then have d: "task_children_ns ?u u = Some q" "u \<notin> set ts" using ih c by blast+
    then have "u \<noteq> t" using reset_one_children(2) [OF Cons.prems] False by blast
    then show ?thesis using d False reset_one_children(1) [OF Cons.prems, of t u] by auto
  qed simp
  then show ?case using ih by (simp add: reset_one_fields)
qed simp

text \<open>Last the list is emptied; a namespace in use is left behind.\<close>

definition unload_node :: "bool \<Rightarrow> nat option \<Rightarrow> pid_namespace \<Rightarrow> pid_namespace option" where
  "unload_node pin reaper n = (if pidns_held n then Some (ns_neutralize pin (n\<lparr>pn_reaper := reaper\<rparr>)) else None)"

lemma exit_loop_spec:
  assumes "distinct (map pe_ns l)" "\<forall>x \<in> set l. pd_heap s (pe_ns x) \<noteq> None" "pidns_exit_loop pin l s = (t, k)"
  shows "(\<forall>p. pd_heap t p = (if p \<in> pe_ns ` set l then Option.bind (pd_heap s p) (unload_node pin (pd_retire_reaper s)) else pd_heap s p))
    \<and> k = length (filter (\<lambda>x. pidns_held (the (pd_heap s (pe_ns x)))) l) \<and> (l \<noteq> [] \<longrightarrow> pd_list t = []) \<and> pd_oops t = pd_oops s
    \<and> pd_nsproxy t = pd_nsproxy s \<and> pd_task_nsproxy t = pd_task_nsproxy s \<and> pd_cachep t = pd_cachep s \<and> pd_zap t = pd_zap s"
  using assms
proof (induction l arbitrary: s t k)
  case (Cons x l)
  let ?p = "pe_ns x"
  obtain n where n: "pd_heap s ?p = Some n" using Cons.prems(2) by auto
  define u where "u = (if pidns_held n then pn_upd ?p (\<lambda>n. ns_neutralize pin (n\<lparr>pn_reaper := pd_retire_reaper s\<rparr>)) (s\<lparr>pd_list := l\<rparr>)
    else s\<lparr>pd_list := l, pd_heap := (pd_heap s)(?p := None), pd_inums := pd_inums s - (if pn_inum n = 0 then {} else {pn_inum n})\<rparr>)"
  have uh: "pd_heap u q = (if q = ?p then unload_node pin (pd_retire_reaper s) n else pd_heap s q)" for q
    by (simp add: u_def unload_node_def n)
  have uf: "pd_list u = l" "pd_retire_reaper u = pd_retire_reaper s" "pd_oops u = pd_oops s" "pd_nsproxy u = pd_nsproxy s"
    "pd_task_nsproxy u = pd_task_nsproxy s" "pd_cachep u = pd_cachep s" "pd_zap u = pd_zap s"
    by (auto simp: u_def pn_upd_def n)
  obtain t2 k2 where r: "pidns_exit_loop pin l u = (t2, k2)" by (metis surj_pair)
  have t: "t = t2" "k = (if pidns_held n then Suc k2 else k2)"
    using Cons.prems(3) r unfolding u_def by (cases "pidns_held n"; simp add: n)+
  have d: "?p \<notin> pe_ns ` set l" "distinct (map pe_ns l)" using Cons.prems(1) by auto
  have there: "\<forall>y \<in> set l. pd_heap u (pe_ns y) \<noteq> None" using Cons.prems(2) d(1) uh by (metis image_eqI list.set_intros(2))
  note ih = Cons.IH [OF d(2) there r]
  have c: "filter (\<lambda>y. pidns_held (the (pd_heap u (pe_ns y)))) l = filter (\<lambda>y. pidns_held (the (pd_heap s (pe_ns y)))) l"
    by (rule filter_cong) (use d(1) uh in \<open>auto simp: image_iff\<close>)
  have h: "\<forall>p. pd_heap t p = (if p \<in> pe_ns ` set (x # l) then Option.bind (pd_heap s p) (unload_node pin (pd_retire_reaper s)) else pd_heap s p)"
    using ih d(1) uh uf(2) n t(1) by auto
  have l: "pd_list t = []" using ih uf(1) t(1) r by (cases l) auto
  show ?case using h l ih uf t c n by simp
qed simp

end
