(* ===== verification/PidExit.thy ===== *)
theory PidExit
  imports PidSpec
begin

text \<open>Unload as a whole, and the end of the first process of a namespace.\<close>

text \<open>The state in which \<^verbatim>\<open>droid_lkm_pidns_exit\<close> starts to empty its list.\<close>

definition unload_start :: "bool \<Rightarrow> pidns_state \<Rightarrow> pidns_state" where
  "unload_start trusted s = reset_task_ns_refs trusted ((retire_reapers s)\<lparr>pd_reaper_task := None, pd_zap := []\<rparr>)"

lemma quiet_inv: "pid_inv s \<Longrightarrow> pid_inv (s\<lparr>pd_reaper_task := None, pd_zap := []\<rparr>)"
  by (simp add: pid_inv_def node_ok_def)

lemma unload_start_props:
  assumes inv: "pid_inv s"
  shows "pid_inv (unload_start trusted s)" "pd_list (unload_start trusted s) = pd_list s" "pd_zap (unload_start trusted s) = []"
    "pd_retire_reaper (unload_start trusted s) = pd_retire_reaper s" "pd_cachep (unload_start trusted s) = pd_cachep s"
    "trusted \<Longrightarrow> task_children_ns (unload_start trusted s) t = Some q \<Longrightarrow> q = init_pid_ns \<or> (task_children_ns s t = Some q \<and> t \<notin> set (pd_leaders s))"
proof -
  let ?v = "(retire_reapers s)\<lparr>pd_reaper_task := None, pd_zap := []\<rparr>"
  have v: "pid_inv ?v" by (rule quiet_inv [OF retire_inv [OF inv]])
  have c: "task_children_ns ?v t = task_children_ns s t" for t by (simp add: task_children_ns_def split: option.split)
  have "unload_start trusted s = (if trusted then fold reset_task_ref (pd_leaders s) ?v else ?v)" by (simp add: unload_start_def reset_task_ns_refs_def)
  then show "pid_inv (unload_start trusted s)" "pd_list (unload_start trusted s) = pd_list s" "pd_zap (unload_start trusted s) = []"
    "pd_retire_reaper (unload_start trusted s) = pd_retire_reaper s" "pd_cachep (unload_start trusted s) = pd_cachep s"
    "trusted \<Longrightarrow> task_children_ns (unload_start trusted s) t = Some q \<Longrightarrow> q = init_pid_ns \<or> (task_children_ns s t = Some q \<and> t \<notin> set (pd_leaders s))"
    using reset_all [OF v, of "pd_leaders s"] v c by auto
qed

text \<open>The kernel's own namespace survives; each of the module's goes, or stays behind if it is held.\<close>

lemma exit_spec:
  assumes inv: "pid_inv s" and c: "pd_cachep s" and u: "u = unload_start trusted s" and t: "t = pidns_exit trusted pin s"
  shows "pd_heap t init_pid_ns = pd_heap u init_pid_ns \<and> (\<forall>p. p \<noteq> init_pid_ns \<longrightarrow> pd_heap t p = Option.bind (pd_heap u p) (unload_node pin (pd_retire_reaper s)))"
    "pd_list t = []" "pd_zap t = []" "\<not> pd_oops t" "pd_nsproxy t = pd_nsproxy u" "pd_task_nsproxy t = pd_task_nsproxy u"
    "pd_cachep t \<longleftrightarrow> (\<exists>p n. p \<noteq> init_pid_ns \<and> pd_heap u p = Some n \<and> pidns_held n)"
proof -
  note U = unload_start_props [OF inv, of trusted, folded u]
  obtain v k where v: "pidns_exit_loop pin (pd_list u) u = (v, k)" by (metis surj_pair)
  have tv: "t = (if k > 0 then v else v\<lparr>pd_caches := (\<lambda>_. False), pd_cachep := False\<rparr>)"
    using t c v u by (simp add: pidns_exit_def unload_start_def Let_def)
  note P = pid_parts [OF U(1)]
  have there: "\<forall>x \<in> set (pd_list u). pd_heap u (pe_ns x) \<noteq> None" using P(5) by blast
  note L = exit_loop_spec [OF P(3) there v]
  have names: "p \<in> pe_ns ` set (pd_list u) \<longleftrightarrow> p \<noteq> init_pid_ns \<and> pd_heap u p \<noteq> None" for p using P(4,5) by (metis domIff insert_iff)
  show "pd_heap t init_pid_ns = pd_heap u init_pid_ns \<and> (\<forall>p. p \<noteq> init_pid_ns \<longrightarrow> pd_heap t p = Option.bind (pd_heap u p) (unload_node pin (pd_retire_reaper s)))"
    using L names tv U(4) by auto
  have "pd_list v = []" using L v by (cases "pd_list u") auto
  then show "pd_list t = []" using tv by simp
  show "pd_zap t = []" "\<not> pd_oops t" "pd_nsproxy t = pd_nsproxy u" "pd_task_nsproxy t = pd_task_nsproxy u" using L tv U(3) P(1) by auto
  have "k > 0 \<longleftrightarrow> (\<exists>x \<in> set (pd_list u). pidns_held (the (pd_heap u (pe_ns x))))" using L by (auto simp: filter_empty_conv)
  also have "\<dots> \<longleftrightarrow> (\<exists>p n. p \<noteq> init_pid_ns \<and> pd_heap u p = Some n \<and> pidns_held n)"
  proof
    assume "\<exists>x \<in> set (pd_list u). pidns_held (the (pd_heap u (pe_ns x)))"
    then obtain x where x: "x \<in> set (pd_list u)" "pidns_held (the (pd_heap u (pe_ns x)))" by blast
    then have "pe_ns x \<noteq> init_pid_ns \<and> pd_heap u (pe_ns x) \<noteq> None" using names by blast
    then show "\<exists>p n. p \<noteq> init_pid_ns \<and> pd_heap u p = Some n \<and> pidns_held n" using x(2) by force
  next
    assume "\<exists>p n. p \<noteq> init_pid_ns \<and> pd_heap u p = Some n \<and> pidns_held n"
    then obtain p n where p: "p \<noteq> init_pid_ns" "pd_heap u p = Some n" "pidns_held n" by blast
    then have "p \<in> pe_ns ` set (pd_list u)" using names by simp
    then obtain x where "x \<in> set (pd_list u)" "pe_ns x = p" by blast
    then show "\<exists>x \<in> set (pd_list u). pidns_held (the (pd_heap u (pe_ns x)))" using p by (intro bexI [of _ x]) simp_all
  qed
  finally show "pd_cachep t \<longleftrightarrow> (\<exists>p n. p \<noteq> init_pid_ns \<and> pd_heap u p = Some n \<and> pidns_held n)" using tv L U(5) c by auto
qed

section \<open>The end of a first process\<close>

lemma zap_one: "pd_zap s = [p] \<Longrightarrow> pd_heap s p = Some n \<Longrightarrow>
    zap_fn_pass dying allocated s = ((pn_upd p (pn_adding_update (\<lambda>_. False)) (s\<lparr>pd_zap := []\<rparr>))\<lparr>pd_zap := []\<rparr>, zap_victims dying n)"
  by (simp add: zap_fn_pass_def pidns_do_zap_def)

lemma victims_set: "set (zap_victims dying n) = {t. \<exists>nr. (nr, t) \<in> set (pn_idr n) \<and> 2 \<le> nr \<and> \<not> dying t}"
  by (auto simp: zap_victims_def image_iff)

lemma first_exit:
  assumes inv: "pid_inv s" and o: "pidns_is_ours s (Some (pk_active e))" and n: "pd_heap s (pk_active e) = Some n"
    and r: "pn_reaper n = Some (pk_task e)" and rt: "pd_reaper_task s = Some z" and fresh: "pk_active e \<notin> pe_ns ` {x \<in> set (pd_list s). pe_zap_queued x}"
    and c: "do_exit_pre e s = (t, code)"
  shows "pd_zap t = pd_zap s @ [pk_active e]" "pd_heap t (pk_active e) = Some (n\<lparr>pn_adding := False, pn_reaper := Some z\<rparr>)"
    "code = (if pn_reboot n \<noteq> 0 then Some (pn_reboot n) else None)"
proof -
  let ?p = "pk_active e"
  let ?v = "pn_upd ?p (pn_reaper_update (\<lambda>_. Some z)) (pn_upd ?p (pn_adding_update (\<lambda>_. False)) s)"
  have ni: "?p \<noteq> init_pid_ns" using o ours_iff [OF inv] by blast
  have "?p \<in> pe_ns ` set (pd_list s)" using o ni by (simp add: pidns_is_ours_def)
  then obtain x where x: "find (\<lambda>x. pe_ns x = ?p) (pd_list s) = Some x"
    by (cases "find (\<lambda>x. pe_ns x = ?p) (pd_list s)") (auto simp: find_None_iff)
  have "x \<in> set (pd_list s)" "pe_ns x = ?p" using x by (auto simp: find_Some_iff)
  then have q: "\<not> pe_zap_queued x" using fresh by force
  have "(t, code) = (pidns_queue_zap ?p ?v, if pn_reboot n \<noteq> 0 then Some (pn_reboot n) else None)"
    using c o n r rt by (simp add: do_exit_pre_def Let_def)
  then show "pd_zap t = pd_zap s @ [?p]" "pd_heap t ?p = Some (n\<lparr>pn_adding := False, pn_reaper := Some z\<rparr>)"
    "code = (if pn_reboot n \<noteq> 0 then Some (pn_reboot n) else None)"
    using x q ni n by (simp_all add: pidns_queue_zap_def)
qed

end
