(* ===== verification/PidMain.thy ===== *)
theory PidMain
  imports PidExit
begin

text \<open>The properties of pid namespaces, and the small runs that show their hypotheses hold.\<close>

section \<open>A small run\<close>

definition host_pidns :: pid_namespace where
  "host_pidns = \<lparr>pn_level = 0, pn_parent = None, pn_count = 1, pn_user_ns = 0, pn_inum = 0xEFFFFFFC, pn_reaper = Some 1, pn_reboot = 0,
     pn_adding = True, pn_idr = [], pn_idr_next = 0, pn_stashed = False, pn_neutral = False\<rparr>"

text \<open>Process 7 and its second thread 8, which has a proxy of its own.\<close>

definition pid_demo :: pidns_state where
  "pid_demo = \<lparr>pd_heap = [init_pid_ns \<mapsto> host_pidns], pd_list = [], pd_zap = [], pd_caches = (\<lambda>_. False), pd_cachep = True, pd_inums = {},
     pd_nsproxy = [100 \<mapsto> \<lparr>np_children = Some init_pid_ns\<rparr>, 101 \<mapsto> \<lparr>np_children = Some init_pid_ns\<rparr>],
     pd_task_nsproxy = [7 \<mapsto> 100, 8 \<mapsto> 101], pd_leaders = [7], pd_reaper_task = Some 50, pd_retire_reaper = Some 0,
     pd_keepalive = False, pd_modrefs = 0, pd_oops = False\<rparr>"

definition pid_caller :: "nat \<Rightarrow> ptr \<Rightarrow> pidns_env" where
  "pid_caller t active = \<lparr>pk_cache = True, pk_zalloc = (\<lambda>used. if used 1 then None else Some 1), pk_entry = True, pk_inum = Inr 0xF0000000,
     pk_task = t, pk_active = active, pk_cred_ns = 0, pk_capable = (\<lambda>_. True), pk_checkpoint = (\<lambda>_. True)\<rparr>"

text \<open>One of the two asks for a namespace; then it has a first process and others.\<close>

definition pid_made :: "nat \<Rightarrow> pidns_state" where
  "pid_made t = fst (slot_install_pidns (pid_caller t init_pid_ns) pid_demo)"

definition pid_used :: pidns_state where
  "pid_used = pn_upd 1 (kernel_pids [(1, 9), (2, 10), (3, 11)] 4 (Some 9) True False) (pid_made 7)"

lemma pid_caller_ok [simp]: "kmalloc_ok (pk_zalloc (pid_caller t a))"
  by (auto simp: pid_caller_def kmalloc_ok_def)

lemma pid_demo_boot: "pid_boot pid_demo"
  by (auto simp: pid_boot_def pid_demo_def host_pidns_def ran_def split: if_splits)

lemma pid_demo_reachable: "pid_reachable pid_demo"
  unfolding pid_reachable_def using pid_demo_boot by blast

lemma pid_reachable_step: "pid_reachable s \<Longrightarrow> pid_step s t \<Longrightarrow> pid_reachable t"
  unfolding pid_reachable_def by (meson rtranclp.rtrancl_into_rtrancl)

lemma pid_made_reachable: "pid_reachable (pid_made t)"
  by (rule pid_reachable_step [OF pid_demo_reachable], unfold pid_made_def, rule pid_step.install_new [of _ _ _ "snd (slot_install_pidns (pid_caller t init_pid_ns) pid_demo)"]) simp_all

lemmas pid_eval = slot_install_pidns_def pidns_create_for_current_def task_children_ns_def pidns_is_ours_def pidns_create_def create_pid_cachep_def
  new_pid_ns_def set_children_ns_def MAX_PID_NS_LEVEL_def init_pid_ns_def host_pidns_def

lemma pid_made_eq: "t \<in> {7, 8} \<Longrightarrow> pid_made t = pid_demo\<lparr>pd_heap := [0 \<mapsto> host_pidns, 1 \<mapsto> new_pid_ns (pid_caller t 0) 1 0 0xF0000000],
    pd_list := [\<lparr>pe_ns = 1, pe_zap_queued = False\<rparr>], pd_caches := (\<lambda>_. False)(0 := True), pd_inums := {0xF0000000},
    pd_nsproxy := (pd_nsproxy pid_demo)((if t = 7 then 100 else 101) \<mapsto> \<lparr>np_children = Some 1\<rparr>)\<rparr>"
  by (auto simp: pid_made_def pid_demo_def pid_caller_def pid_eval Let_def)

lemma pid_made_heap: "t \<in> {7, 8} \<Longrightarrow> pd_heap (pid_made t) = [0 \<mapsto> host_pidns, 1 \<mapsto> new_pid_ns (pid_caller t 0) 1 0 0xF0000000]"
  by (simp add: pid_made_eq)

lemma pid_used_reachable: "pid_reachable pid_used"
  unfolding pid_used_def by (rule pid_reachable_step [OF pid_made_reachable [of 7]], rule pid_step.kernel) (simp add: pid_made_eq)

section \<open>Properties\<close>

text \<open>C24. The pid namespaces of a reachable state form a tree: every namespace is at most 32 levels below the host's, to which its
  parents lead in as many steps as its level; each of the module's keeps a reference and is on the list; the
  proxy of a task never points to a namespace that is gone; and what is queued to be killed is listed, once.\<close>

theorem pid_tree:
  assumes "pid_reachable s"
  shows "\<not> pd_oops s
    \<and> (\<forall>p n. pd_heap s p = Some n \<longrightarrow> pn_level n \<le> MAX_PID_NS_LEVEL \<and> nth_parent s (pn_level n) p = Some init_pid_ns
         \<and> (p = init_pid_ns \<or> 1 \<le> pn_count n \<and> pidns_is_ours s (Some p)))
    \<and> (\<forall>t q. task_children_ns s t = Some q \<longrightarrow> pd_heap s q \<noteq> None)
    \<and> distinct (pd_zap s) \<and> (\<forall>p \<in> set (pd_zap s). pidns_is_ours s (Some p))"
proof -
  have inv: "pid_inv s" using assms by (rule pid_reachable_inv)
  note P = pid_parts [OF inv]
  have "pn_level n \<le> MAX_PID_NS_LEVEL \<and> nth_parent s (pn_level n) p = Some init_pid_ns \<and> (p = init_pid_ns \<or> 1 \<le> pn_count n \<and> pidns_is_ours s (Some p))"
    if n: "pd_heap s p = Some n" for p n
  proof -
    obtain q m where q: "nth_parent s (pn_level n) p = Some q" "pd_heap s q = Some m" "pn_level m = 0" using nth_parent_level [OF inv n le_refl] by auto
    have "q = init_pid_ns" using level_zero [OF inv q(2,3)] by blast
    moreover have "pn_level n \<le> MAX_PID_NS_LEVEL \<and> (p = init_pid_ns \<or> 1 \<le> pn_count n \<and> pidns_is_ours s (Some p))"
    proof (cases "p = init_pid_ns")
      case True
      then show ?thesis using P(2) n by auto
    next
      case False
      then show ?thesis using P(6) [OF n] n ours_iff [OF inv] unfolding node_ok_def by blast
    qed
    ultimately show ?thesis using q(1) by blast
  qed
  moreover have "pidns_is_ours s (Some p)" if "p \<in> set (pd_zap s)" for p
  proof -
    have "p \<in> pe_ns ` set (pd_list s)" using that P(8) by auto
    then show ?thesis using P(4) by (cases "p = init_pid_ns") (simp_all add: pidns_is_ours_def)
  qed
  ultimately show ?thesis using P(1,7) task_children_there [OF inv] by blast
qed

lemma pid_tree_witness: "pid_reachable pid_used \<and> nth_parent pid_used 1 1 = Some init_pid_ns"
proof -
  obtain n where "pd_heap pid_used 1 = Some n" "pn_level n = 1"
    by (simp add: pid_used_def pid_made_eq kernel_pids_def new_pid_ns_def)
  then show ?thesis using pid_tree [OF pid_used_reachable] pid_used_reachable by metis
qed

text \<open>C25. Entering a pid namespace through its file needs the capability over the namespace and in the caller's
  user namespace, and works exactly for the caller's active namespace and those below it; then the children of
  the caller go there. In every other case the state stays and the error says which check failed.\<close>

theorem pid_setns:
  assumes "pid_reachable s" and "pd_heap s new = Some n" and "pd_heap s (pk_active e) = Some m" and "pd_nsproxy s np = Some x"
  shows "pidns_install e np cred new s =
    (if \<not> pk_capable e (pn_user_ns n) \<or> \<not> pk_capable e cred then (s, Inl EPERM)
     else if descends s (pk_active e) new then (s\<lparr>pd_nsproxy := (pd_nsproxy s)(np \<mapsto> x\<lparr>np_children := Some new\<rparr>)\<rparr>, Inr ())
     else (s, Inl EINVAL))"
proof -
  have inv: "pid_inv s" by (rule pid_reachable_inv [OF assms(1)])
  note n = assms(2) and a = assms(3) and np = assms(4)
  show ?thesis
  proof (cases "pn_level m \<le> pn_level n")
    case True
    have cl: "climb_to_level (pn_level n + 1) s (pn_level m) new = nth_parent s (pn_level n - pn_level m) new"
      by (rule climb_level [OF inv n True]) simp
    obtain q where q: "nth_parent s (pn_level n - pn_level m) new = Some q" using nth_parent_level [OF inv n, of "pn_level n - pn_level m"] by auto
    show ?thesis using cl True by (simp del: climb_to_level.simps add: pidns_install_def n a np q descends_level [OF inv n a])
  next
    case False
    then show ?thesis unfolding pidns_install_def n a np descends_level [OF inv n a] by simp
  qed
qed

lemma pid_setns_witness: "snd (pidns_install (pid_caller 7 1) 100 0 init_pid_ns (pid_made 7)) = Inl EINVAL"
proof -
  have d: "\<not> descends (pid_made 7) 1 0" by (simp add: descends_def level_of_def pid_made_eq host_pidns_def)
  show ?thesis
    using pid_setns [where s = "pid_made 7" and e = "pid_caller 7 1" and new = init_pid_ns and np = 100 and cred = 0, OF pid_made_reachable] d
    by (simp add: pid_made_eq init_pid_ns_def pid_caller_def)
qed

text \<open>The parent of a namespace is handed out, with a reference to it, exactly to callers whose active namespace is
  that parent or above it; others, and the host's namespace, get EPERM and the walk to the top always ends.\<close>

theorem pid_parent_file:
  assumes "pid_reachable s" and "pd_heap s ns = Some n"
  shows "pidns_get_parent e ns s =
    (case pn_parent n of
       None \<Rightarrow> (s, Inl EPERM)
     | Some q \<Rightarrow> if descends s (pk_active e) q then (fst (pidns_get (Some q) s), Inr q) else (s, Inl EPERM))"
proof -
  have inv: "pid_inv s" by (rule pid_reachable_inv [OF assms(1)])
  note n = assms(2)
  show ?thesis
  proof (cases "pn_parent n")
    case None
    then show ?thesis by (simp add: pidns_get_parent_def n)
  next
    case (Some q)
    have "ns \<noteq> init_pid_ns" using Some n pid_parts(2) [OF inv] by auto
    then obtain m where m: "pd_heap s q = Some m" "pn_level n = pn_level m + 1"
      using pid_parts(6) [OF inv n] Some unfolding node_ok_def by auto
    have cl: "climb_to_active (pn_level n + 1) s (pk_active e) (Some q) = Some (descends s (pk_active e) q)"
      by (rule climb_active [OF inv m(1)]) (simp add: m(2))
    show ?thesis using cl by (cases "descends s (pk_active e) q") (simp_all add: pidns_get_parent_def n Some pidns_get_def)
  qed
qed

lemma pid_parent_file_witness: "pidns_get_parent (pid_caller 7 init_pid_ns) 1 (pid_made 7) = (pid_made 7, Inr init_pid_ns)"
proof -
  have d: "descends (pid_made 7) init_pid_ns init_pid_ns" by (auto simp: descends_def intro!: exI [of _ 0])
  show ?thesis
    using pid_parent_file [where s = "pid_made 7" and e = "pid_caller 7 init_pid_ns" and ns = 1, OF pid_made_reachable] d
    by (simp add: pid_made_heap new_pid_ns_def pid_caller_def init_pid_ns_def pidns_get_def)
qed

text \<open>A new pid namespace becomes a child of the one the caller's children went to, one level lower and with one reference,
  and the caller's children go there from now on; 32 levels down there is no further one. After an error every task and
  every namespace is as before.\<close>

theorem pid_new_ns:
  assumes "pid_reachable s" and "kmalloc_ok (pk_zalloc e)" and "slot_install_pidns e s = (t, r)"
    and "par = (case task_children_ns s (pk_task e) of None \<Rightarrow> init_pid_ns | Some q \<Rightarrow> q)" and "pd_heap s par = Some m"
  shows "(pn_level m = MAX_PID_NS_LEVEL \<longrightarrow> r = Inl ENOSPC)
    \<and> (case r of
         Inl err \<Rightarrow> (\<forall>u. task_children_ns t u = task_children_ns s u) \<and> (\<forall>q n. pd_heap s q = Some n \<longrightarrow> pd_heap t q = Some n)
       | Inr _ \<Rightarrow> (\<exists>p n. pd_heap s p = None \<and> pd_heap t p = Some n \<and> task_children_ns t (pk_task e) = Some p
             \<and> pn_parent n = Some par \<and> pn_level n = pn_level m + 1 \<and> pn_count n = 1 \<and> descends t par p))"
proof -
  have inv: "pid_inv s" by (rule pid_reachable_inv [OF assms(1)])
  have pe: "creation_parent e s = par"
    using assms(4) ours_iff [OF inv] task_children_there [OF inv] by (auto simp: creation_parent_def split: option.splits)
  have cc: "pidns_create_for_current e s = pidns_create e (Some par) s" using create_current_parent [OF inv, of e] pe by simp
  obtain u q where u: "pidns_create e (Some par) s = (u, q)" by (metis surj_pair)
  have par: "pd_heap s par \<noteq> None" using assms(5) by simp
  note C = pidns_create_inv [OF inv assms(2) par u]
  have same: "task_children_ns u = task_children_ns s" using C by (simp add: task_children_ns_def grows_def fun_eq_iff split: option.split)
  have full: "q = Inl ENOSPC" if "pn_level m = MAX_PID_NS_LEVEL" using u assms(5) that by (simp add: pidns_create_def)
  show ?thesis
  proof (cases q)
    case (Inl err)
    then show ?thesis using assms(3) cc u full same C by (auto simp: slot_install_pidns_def grows_def)
  next
    case (Inr p)
    obtain n where n: "pd_heap u p = Some n" "pn_parent n = Some par" "pn_level n = pn_level m + 1" "pn_count n = 1" "pd_heap s p = None" "p \<noteq> init_pid_ns"
      using C Inr assms(5) by auto
    show ?thesis
    proof (cases "pd_task_nsproxy u (pk_task e)")
      case None
      have "t = pidns_put (Some p) u" "r = Inl EINVAL" using assms(3) cc u Inr None by (simp_all add: slot_install_pidns_def)
      moreover have "task_children_ns t = task_children_ns u" by (simp add: calculation(1) task_children_ns_def fun_eq_iff split: option.split)
      moreover have "pd_heap t a = Some b" if "pd_heap s a = Some b" for a b
        using that C n(5) by (auto simp: calculation(1) pidns_put_def grows_def)
      ultimately show ?thesis using same full Inr by auto
    next
      case (Some np)
      obtain x where x: "pd_nsproxy u np = Some x" using pid_parts(10) [of u "pk_task e" np] C Some by blast
      have t: "t = set_children_ns np p u" "r = Inr ()" using assms(3) cc u Inr Some by (simp_all add: slot_install_pidns_def)
      have "task_children_ns t (pk_task e) = Some p" using Some x by (simp add: t(1) task_children_ns_def set_children_ns_def)
      moreover have "descends t par p" unfolding descends_def by (rule exI [of _ 1]) (simp add: t(1) n level_of_def parent_of_def)
      ultimately show ?thesis using n t full Inr by auto
    qed
  qed
qed

lemma pid_new_ns_witness: "snd (slot_install_pidns (pid_caller 7 init_pid_ns) pid_demo) = Inr () \<and> descends (pid_made 7) init_pid_ns 1"
proof -
  have a: "slot_install_pidns (pid_caller 7 init_pid_ns) pid_demo = (pid_made 7, Inr ())"
    by (simp add: pid_made_def pid_demo_def pid_caller_def pid_eval Let_def)
  have b: "task_children_ns (pid_made 7) 7 = Some 1" by (simp add: task_children_ns_def pid_made_eq pid_demo_def)
  show ?thesis
    using pid_new_ns [OF pid_demo_reachable pid_caller_ok a refl, of host_pidns] a b by (auto simp: pid_demo_def task_children_ns_def pid_caller_def)
qed

text \<open>C28. A restart or halt asked for inside a namespace of the module kills the namespace's first process and the caller and
  records the signal for the exit code of the first process, whatever the caller's capabilities; the kernel's own
  \<^verbatim>\<open>reboot\<close> wants \<^verbatim>\<open>CAP_SYS_BOOT\<close> over the namespace first.\<close>

theorem pid_reboot_unchecked:
  assumes "pid_reachable s" and "pidns_is_ours s (Some (pk_active e))" and "cmd \<in> REBOOT_RESTART \<union> REBOOT_HALT"
    and "m2 \<in> REBOOT_MAGIC2" and "pd_heap s (pk_active e) = Some n" and "pn_reaper n = Some first"
  shows "sys_reboot (e\<lparr>pk_capable := \<lambda>_. False\<rparr>) REBOOT_MAGIC1 m2 cmd s
    = (s\<lparr>pd_heap := (pd_heap s)(pk_active e \<mapsto> n\<lparr>pn_reboot := (if cmd \<in> REBOOT_RESTART then SIGHUP else SIGINT)\<rparr>)\<rparr>,
       [first, pk_task e], RebootHere (Inr ()))"
  using assms(2-6) by (auto simp: sys_reboot_def pidns_reboot_def pn_upd_def)

definition pid_inside :: pidns_env where "pid_inside = pid_caller 10 1"

definition pid_used_node :: pid_namespace where
  "pid_used_node = kernel_pids [(1, 9), (2, 10), (3, 11)] 4 (Some 9) True False (new_pid_ns (pid_caller 7 0) 1 0 0xF0000000)"

lemma pid_used_heap: "pd_heap pid_used 1 = Some pid_used_node" "pn_reaper pid_used_node = Some 9" "pn_idr pid_used_node = [(1, 9), (2, 10), (3, 11)]"
  by (simp_all add: pid_used_def pid_made_heap pid_used_node_def kernel_pids_def)

lemma pid_used_ours: "pidns_is_ours pid_used (Some 1)"
  by (simp add: pid_used_def pid_made_eq pidns_is_ours_def init_pid_ns_def)

lemma pid_used_fields [simp]: "pd_list pid_used = [\<lparr>pe_ns = 1, pe_zap_queued = False\<rparr>]" "pd_zap pid_used = []" "pd_reaper_task pid_used = Some 50"
  by (simp_all add: pid_used_def pid_made_eq) (simp_all add: pid_demo_def)

lemma pid_reboot_unchecked_witness:
  "fst (snd (sys_reboot (pid_inside\<lparr>pk_capable := \<lambda>_. False\<rparr>) REBOOT_MAGIC1 672274793 0x01234567 pid_used)) = [9, 10]"
proof -
  have a: "pk_active pid_inside = 1" "pk_task pid_inside = 10" by (simp_all add: pid_inside_def pid_caller_def)
  have "sys_reboot (pid_inside\<lparr>pk_capable := \<lambda>_. False\<rparr>) REBOOT_MAGIC1 672274793 0x01234567 pid_used
    = (pid_used\<lparr>pd_heap := (pd_heap pid_used)(pk_active pid_inside \<mapsto> pid_used_node\<lparr>pn_reboot := (if (0x01234567 :: 32 word) \<in> REBOOT_RESTART then SIGHUP else SIGINT)\<rparr>)\<rparr>,
       [9, pk_task pid_inside], RebootHere (Inr ()))"
    by (rule pid_reboot_unchecked [OF pid_used_reachable])
      (simp_all only: a pid_used_ours pid_used_heap, simp_all add: REBOOT_MAGIC2_def REBOOT_RESTART_def)
  then show ?thesis by (simp add: a)
qed

text \<open>C26. When the first process of a namespace exits, the namespace takes no new processes, its orphans go to the module's thread,
  the exit code is the signal a reboot left, and the next pass of the thread kills exactly the processes with
  numbers from 2 on that are not dying already.\<close>

theorem pid_first_exit:
  assumes "pid_reachable s" and "pidns_is_ours s (Some (pk_active e))" and "pd_heap s (pk_active e) = Some n" and "pn_reaper n = Some (pk_task e)"
    and "pd_reaper_task s = Some z" and "pk_active e \<notin> pe_ns ` {x \<in> set (pd_list s). pe_zap_queued x}" and "pd_zap s = []"
    and "do_exit_pre e s = (t, code)" and "zap_fn_pass dying allocated t = (u, killed)"
  shows "code = (if pn_reboot n \<noteq> 0 then Some (pn_reboot n) else None)
    \<and> set killed = {q. \<exists>nr. (nr, q) \<in> set (pn_idr n) \<and> 2 \<le> nr \<and> \<not> dying q}
    \<and> pd_heap u (pk_active e) = Some (n\<lparr>pn_adding := False, pn_reaper := Some z\<rparr>) \<and> pd_zap u = []"
proof -
  note F = first_exit [OF pid_reachable_inv [OF assms(1)] assms(2-6,8)]
  have z: "pd_zap t = [pk_active e]" using F(1) assms(7) by simp
  have "(u, killed) = ((pn_upd (pk_active e) (pn_adding_update (\<lambda>_. False)) (t\<lparr>pd_zap := []\<rparr>))\<lparr>pd_zap := []\<rparr>,
      zap_victims dying (n\<lparr>pn_adding := False, pn_reaper := Some z\<rparr>))"
    using zap_one [OF z F(2), of dying allocated] assms(9) by simp
  then show ?thesis using F(2,3) by (simp add: victims_set)
qed

lemma pid_first_exit_witness: "set (snd (zap_fn_pass (\<lambda>t. t = 11) (\<lambda>_. 0) (fst (do_exit_pre (pid_caller 9 1) pid_used)))) = {10}"
proof -
  obtain t code where t: "do_exit_pre (pid_caller 9 1) pid_used = (t, code)" by (metis surj_pair)
  obtain u killed where u: "zap_fn_pass (\<lambda>t. t = 11) (\<lambda>_. 0) t = (u, killed)" by (metis surj_pair)
  have a: "pk_active (pid_caller 9 1) = 1" "pk_task (pid_caller 9 1) = 9" by (simp_all add: pid_caller_def)
  have fresh: "1 \<notin> pe_ns ` {x \<in> set (pd_list pid_used). pe_zap_queued x}" by auto
  have "set killed = {q. \<exists>nr. (nr, q) \<in> set (pn_idr pid_used_node) \<and> 2 \<le> nr \<and> q \<noteq> 11}"
    using pid_first_exit [OF pid_used_reachable _ _ _ pid_used_fields(3) _ pid_used_fields(2) t u, unfolded a, OF pid_used_ours pid_used_heap(1,2) fresh]
    by simp
  then have k: "set killed = {q. \<exists>nr :: int. (nr = 1 \<and> q = 9 \<or> nr = 2 \<and> q = 10 \<or> nr = 3 \<and> q = 11) \<and> 2 \<le> nr \<and> q \<noteq> 11}"
    by (simp add: pid_used_heap(3))
  have "set killed = {10}" unfolding k by force
  then show ?thesis unfolding t fst_conv u snd_conv .
qed

text \<open>C27. Unload frees exactly the namespaces nothing holds any more, leaves the others with operations and a reaper that outlast the
  module, keeps its caches exactly when one was left, and no first thread of a process refers to a
  namespace of the module afterwards.\<close>

theorem pid_unload:
  assumes "pid_reachable s" and "pd_cachep s" and "t = pidns_exit True pin s" and "u = unload_start True s"
  shows "(\<forall>p n. p \<noteq> init_pid_ns \<longrightarrow> pd_heap u p = Some n \<longrightarrow>
        pd_heap t p = (if pn_stashed n \<or> pn_count n > 1 \<or> pn_idr n \<noteq> [] then Some (ns_neutralize pin (n\<lparr>pn_reaper := pd_retire_reaper s\<rparr>)) else None))
    \<and> pd_list t = [] \<and> pd_zap t = [] \<and> \<not> pd_oops t
    \<and> (pd_cachep t \<longleftrightarrow> (\<exists>p n. p \<noteq> init_pid_ns \<and> pd_heap u p = Some n \<and> pidns_held n))
    \<and> (\<forall>l \<in> set (pd_leaders s). \<forall>q. task_children_ns t l = Some q \<longrightarrow> q = init_pid_ns)"
proof -
  have inv: "pid_inv s" by (rule pid_reachable_inv [OF assms(1)])
  note E = exit_spec [OF inv assms(2,4,3)]
  have "task_children_ns t = task_children_ns u" using E(5,6) by (simp add: task_children_ns_def fun_eq_iff split: option.split)
  then have "\<forall>l \<in> set (pd_leaders s). \<forall>q. task_children_ns t l = Some q \<longrightarrow> q = init_pid_ns"
    using unload_start_props(6) [OF inv, of True] assms(4) by auto
  then show ?thesis using E(1-4,7) by (simp add: unload_node_def pidns_held_def)
qed

lemma pid_unload_witness: "pd_list (pidns_exit True True pid_used) = [] \<and> \<not> pd_oops (pidns_exit True True pid_used)"
proof -
  have "pd_cachep pid_used" by (simp add: pid_used_def pid_made_eq) (simp add: pid_demo_def)
  then show ?thesis using pid_unload [OF pid_used_reachable _ refl refl] by blast
qed

text \<open>The walk before unload meets the first thread of every process only. A second thread that asked for a namespace of its
  own and has not forked yet keeps pointing to it after unload has freed it, though nothing kept the module loaded.\<close>

theorem pid_unload_threads:
  "pid_reachable (pid_made 8) \<and> \<not> pidns_busy (pid_made 8) \<and> 8 \<notin> set (pd_leaders (pid_made 8))
    \<and> task_children_ns (pidns_exit True True (pid_made 8)) 8 = Some 1 \<and> pd_heap (pidns_exit True True (pid_made 8)) 1 = None"
proof (intro conjI)
  show "pid_reachable (pid_made 8)" by (rule pid_made_reachable)
  have eqs: "pid_made 8 = pid_demo\<lparr>pd_heap := [0 \<mapsto> host_pidns, 1 \<mapsto> new_pid_ns (pid_caller 8 0) 1 0 0xF0000000],
    pd_list := [\<lparr>pe_ns = 1, pe_zap_queued = False\<rparr>], pd_caches := (\<lambda>_. False)(0 := True), pd_inums := {0xF0000000},
    pd_nsproxy := (pd_nsproxy pid_demo)(101 \<mapsto> \<lparr>np_children = Some 1\<rparr>)\<rparr>" by (simp add: pid_made_eq)
  show "\<not> pidns_busy (pid_made 8)" "8 \<notin> set (pd_leaders (pid_made 8))" by (simp_all add: eqs pidns_busy_def new_pid_ns_def) (simp add: pid_demo_def)
  have inv: "pid_inv (pid_made 8)" by (rule pid_reachable_inv [OF pid_made_reachable])
  have f: "pd_list (pid_made 8) = [\<lparr>pe_ns = 1, pe_zap_queued = False\<rparr>]" "pd_leaders (pid_made 8) = [7]" "pd_retire_reaper (pid_made 8) = Some 0" "pd_cachep (pid_made 8)"
    by (simp_all add: eqs) (simp_all add: pid_demo_def)
  have c: "task_children_ns (pid_made 8) 7 = Some init_pid_ns" "task_children_ns (pid_made 8) 8 = Some 1"
    by (simp_all add: eqs task_children_ns_def) (simp_all add: pid_demo_def)
  have r: "retire_reapers (pid_made 8) = pn_upd 1 (pn_reaper_update (\<lambda>_. Some 0)) (pid_made 8)" by (simp add: retire_reapers_def f)
  have k: "task_children_ns (retire_reapers (pid_made 8)\<lparr>pd_reaper_task := None, pd_zap := []\<rparr>) q = task_children_ns (pid_made 8) q" for q
    by (simp add: task_children_ns_def split: option.split)
  have u: "unload_start True (pid_made 8) = retire_reapers (pid_made 8)\<lparr>pd_reaper_task := None, pd_zap := []\<rparr>"
    by (simp add: unload_start_def reset_task_ns_refs_def f reset_task_ref_def k c) (simp add: pidns_is_ours_def)
  note E = exit_spec [OF inv f(4) refl refl, of True True]
  have "pd_heap (unload_start True (pid_made 8)) 1 = Some ((new_pid_ns (pid_caller 8 0) 1 0 0xF0000000)\<lparr>pn_reaper := Some 0\<rparr>)"
    by (simp add: u r pid_made_heap)
  then have h: "pd_heap (pidns_exit True True (pid_made 8)) 1 = None"
    using E(1) by (simp add: init_pid_ns_def unload_node_def pidns_held_def new_pid_ns_def)
  have "task_children_ns (pidns_exit True True (pid_made 8)) 8 = task_children_ns (unload_start True (pid_made 8)) 8"
    by (simp only: task_children_ns_def E(5,6))
  then have "task_children_ns (pidns_exit True True (pid_made 8)) 8 = Some 1 \<and> pd_heap (pidns_exit True True (pid_made 8)) 1 = None"
    using h by (simp add: u k c)
  then show "task_children_ns (pidns_exit True True (pid_made 8)) 8 = Some 1" "pd_heap (pidns_exit True True (pid_made 8)) 1 = None" by blast+
qed

end
