(* ===== verification/UnsMap.thy ===== *)
theory UnsMap
  imports Prelude
begin

text \<open>
  The id maps of a user namespace (\<^verbatim>\<open>src/src/misc/userns/userns_map.c\<close>) and the text of the map files
  (\<^verbatim>\<open>userns_proc.c\<close>, \<^verbatim>\<open>misc_proc.c\<close>).

  An array of extents is a list; the first \<open>ug_nr\<close> are in use (the module never makes a map with more than fit in the array). Ids are 32 bit words. A C string is the list of its
  characters before the terminating zero.
\<close>

section \<open>Mapping ids\<close>

record uid_gid_extent =
  ue_first :: "32 word"
  ue_lower :: "32 word"
  ue_count :: "32 word"

record uid_gid_map =
  ug_extent :: "uid_gid_extent list"
  ug_nr :: nat

definition UID_UNMAPPED :: "32 word" where "UID_UNMAPPED = - 1"
definition MAX_BASE_EXTENTS :: nat where "MAX_BASE_EXTENTS = 5"

text \<open>The search of \<^verbatim>\<open>map_id_range_down\<close>: both ends of the range have to lie in the extent.\<close>

definition in_extent :: "32 word \<Rightarrow> 32 word \<Rightarrow> 32 word \<Rightarrow> bool" where
  "in_extent lo n i \<longleftrightarrow> lo \<le> i \<and> i \<le> lo + n - 1"

fun map_id_range_down_base :: "uid_gid_extent list \<Rightarrow> 32 word \<Rightarrow> 32 word \<Rightarrow> 32 word" where
  "map_id_range_down_base [] i cnt = UID_UNMAPPED"
| "map_id_range_down_base (e # es) i cnt =
     (if in_extent (ue_first e) (ue_count e) i \<and> in_extent (ue_first e) (ue_count e) (i + cnt - 1)
      then i - ue_first e + ue_lower e
      else map_id_range_down_base es i cnt)"

definition map_id_range_down :: "uid_gid_map \<Rightarrow> 32 word \<Rightarrow> 32 word \<Rightarrow> 32 word" where
  "map_id_range_down m i cnt =
     (if ug_nr m > MAX_BASE_EXTENTS then UID_UNMAPPED else map_id_range_down_base (take (ug_nr m) (ug_extent m)) i cnt)"

fun map_id_up_base :: "uid_gid_extent list \<Rightarrow> 32 word \<Rightarrow> 32 word" where
  "map_id_up_base [] i = UID_UNMAPPED"
| "map_id_up_base (e # es) i =
     (if in_extent (ue_lower e) (ue_count e) i then i - ue_lower e + ue_first e else map_id_up_base es i)"

definition map_id_up :: "uid_gid_map \<Rightarrow> 32 word \<Rightarrow> 32 word" where
  "map_id_up m i = (if ug_nr m > MAX_BASE_EXTENTS then UID_UNMAPPED else map_id_up_base (take (ug_nr m) (ug_extent m)) i)"

definition userns_map_down :: "uid_gid_map \<Rightarrow> 32 word \<Rightarrow> 32 word" where
  "userns_map_down m i = map_id_range_down m i 1"

definition userns_map_up :: "uid_gid_map \<Rightarrow> 32 word \<Rightarrow> 32 word" where
  "userns_map_up m i = map_id_up m i"

definition userns_map_ok :: "uid_gid_map \<Rightarrow> 32 word \<Rightarrow> bool" where
  "userns_map_ok m i \<longleftrightarrow> userns_map_down m i \<noteq> UID_UNMAPPED"

definition empty_map :: uid_gid_map where
  "empty_map = \<lparr>ug_extent = replicate MAX_BASE_EXTENTS \<lparr>ue_first = 0, ue_lower = 0, ue_count = 0\<rparr>, ug_nr = 0\<rparr>"

definition map_identity :: "uid_gid_map \<Rightarrow> uid_gid_map" where
  "map_identity m = \<lparr>ug_extent = (ug_extent m)[0 := \<lparr>ue_first = 0, ue_lower = 0, ue_count = 4294967295\<rparr>], ug_nr = 1\<rparr>"

section \<open>The text of a map\<close>

definition digit :: "nat \<Rightarrow> char" where
  "digit d = char_of (48 + d)"

fun dec :: "nat \<Rightarrow> string" where
  "dec n = (if n < 10 then [digit n] else dec (n div 10) @ [digit (n mod 10)])"

declare dec.simps [simp del]

text \<open>\<^verbatim>\<open>%10u\<close> and \<^verbatim>\<open>scnprintf\<close>, which leaves room for the zero.\<close>

definition pad10 :: "string \<Rightarrow> string" where
  "pad10 s = replicate (10 - length s) CHR '' '' @ s"

definition scnprintf :: "nat \<Rightarrow> string \<Rightarrow> string" where
  "scnprintf room s = take (room - 1) s"

definition extent_line :: "uid_gid_extent \<Rightarrow> string" where
  "extent_line e = pad10 (dec (unat (ue_first e))) @ '' '' @ pad10 (dec (unat (ue_lower e))) @ '' '' @ pad10 (dec (unat (ue_count e))) @ [CHR 0x0A]"

fun map_text_loop :: "nat \<Rightarrow> uid_gid_extent list \<Rightarrow> string \<Rightarrow> string" where
  "map_text_loop room [] buf = buf"
| "map_text_loop room (e # es) buf =
     (if ue_count e = 0 then map_text_loop room es buf
      else map_text_loop room es (buf @ scnprintf (room - length buf) (extent_line e)))"

definition map_text :: "nat \<Rightarrow> uid_gid_map \<Rightarrow> string" where
  "map_text room m = map_text_loop room (take (ug_nr m) (ug_extent m)) []"

definition USERNS_MAP_TEXT :: nat where "USERNS_MAP_TEXT = 64"

section \<open>The text of a write\<close>

definition is_blank :: "char \<Rightarrow> bool" where
  "is_blank c \<longleftrightarrow> c = CHR '' '' \<or> c = CHR 0x09"

definition is_digit :: "char \<Rightarrow> bool" where
  "is_digit c \<longleftrightarrow> 48 \<le> (of_char c :: nat) \<and> (of_char c :: nat) \<le> 57"

text \<open>The digits of one number, read into 64 bits; \<open>None\<close> where the number leaves 32 bits.\<close>

fun read_digits :: "64 word \<Rightarrow> nat \<Rightarrow> string \<Rightarrow> (64 word \<times> nat \<times> string) option" where
  "read_digits v n [] = Some (v, n, [])"
| "read_digits v n (c # cs) =
     (if is_digit c
      then (let v = v * 10 + (of_nat (of_char c) - 48) in if v > 4294967295 then None else read_digits v (Suc n) cs)
      else Some (v, n, c # cs))"

definition read_number :: "string \<Rightarrow> (64 word \<times> string) option" where
  "read_number s = (case read_digits 0 0 (dropWhile is_blank s) of None \<Rightarrow> None | Some (v, n, s) \<Rightarrow> if n = 0 then None else Some (v, s))"

definition map_is_identity :: "string \<Rightarrow> bool" where
  "map_is_identity text =
     (case read_number text of
        None \<Rightarrow> False
      | Some (v0, s) \<Rightarrow>
          (case read_number s of
             None \<Rightarrow> False
           | Some (v1, s) \<Rightarrow>
               (case read_number s of
                  None \<Rightarrow> False
                | Some (v2, s) \<Rightarrow> dropWhile (\<lambda>c. is_blank c \<or> c = CHR 0x0A) s = [] \<and> v0 = 0 \<and> v1 = 0 \<and> v2 = 4294967295)))"

section \<open>The files\<close>

text \<open>
  A file of a task's directory has the namespace of the task when it was opened (\<open>None\<close> when there is none).
  Memory of the caller is a function; \<open>ok\<close> says whether a copy succeeds. The third component is the
  number of bytes or the error.
\<close>

definition copy_to :: "nat \<Rightarrow> string \<Rightarrow> (nat \<Rightarrow> char) \<Rightarrow> nat \<Rightarrow> char" where
  "copy_to a s mem = (\<lambda>x. if a \<le> x \<and> x < a + length s then s ! (x - a) else mem x)"

definition proc_read_text :: "bool \<Rightarrow> nat \<Rightarrow> nat \<Rightarrow> int \<Rightarrow> string \<Rightarrow> (nat \<Rightarrow> char) \<Rightarrow> (nat \<Rightarrow> char) \<times> int \<times> int result" where
  "proc_read_text ok ubuf cnt pos text mem =
     (if pos < 0 then (mem, pos, Inl EINVAL)
      else if pos \<ge> int (length text) then (mem, pos, Inr 0)
      else
        (let p = nat pos; n = (if cnt > length text - p then length text - p else cnt)
         in if \<not> ok then (mem, pos, Inl EFAULT)
            else (copy_to (ubuf + p) (take n (drop p text)) mem, pos + int n, Inr (int n))))"

datatype whence = SEEK_SET | SEEK_CUR | SEEK_END | SEEK_OTHER

definition proc_llseek :: "int \<Rightarrow> int \<Rightarrow> whence \<Rightarrow> int \<times> int result" where
  "proc_llseek f_pos offset w =
     (case (case w of SEEK_SET \<Rightarrow> Some offset | SEEK_CUR \<Rightarrow> Some (f_pos + offset) | SEEK_END \<Rightarrow> Some offset | SEEK_OTHER \<Rightarrow> None) of
        None \<Rightarrow> (f_pos, Inl EINVAL)
      | Some pos \<Rightarrow> if pos < 0 then (f_pos, Inl EINVAL) else (pos, Inr pos))"

definition map_read :: "bool \<Rightarrow> nat \<Rightarrow> nat \<Rightarrow> int \<Rightarrow> uid_gid_map option \<Rightarrow> (nat \<Rightarrow> char) \<Rightarrow> (nat \<Rightarrow> char) \<times> int \<times> int result" where
  "map_read ok ubuf cnt pos m mem =
     (case m of None \<Rightarrow> (mem, pos, Inl EIO) | Some m \<Rightarrow> proc_read_text ok ubuf cnt pos (map_text USERNS_MAP_TEXT m) mem)"

text \<open>\<open>ns\<close>: the namespace of the file, \<open>init\<close> the host's; \<open>bytes\<close>: what the caller's buffer holds, when it can be read.\<close>

definition map_write :: "nat option \<Rightarrow> nat \<Rightarrow> string option \<Rightarrow> nat \<Rightarrow> int \<Rightarrow> int \<times> int result" where
  "map_write ns init bytes cnt pos =
     (if pos \<noteq> 0 \<or> cnt \<ge> USERNS_MAP_TEXT then (pos, Inl EINVAL)
      else if ns = None \<or> ns = Some init then (pos, Inl EPERM)
      else if cnt = 0 then (pos, Inl EINVAL)
      else
        (case bytes of
           None \<Rightarrow> (pos, Inl EFAULT)
         | Some b \<Rightarrow>
             if \<not> map_is_identity (takeWhile (\<lambda>c. c \<noteq> CHR 0x00) (take cnt b)) then (pos, Inl EPERM)
             else (pos + int cnt, Inr (int cnt))))"

definition setgroups_read :: "bool \<Rightarrow> nat \<Rightarrow> nat \<Rightarrow> int \<Rightarrow> bool option \<Rightarrow> (nat \<Rightarrow> char) \<Rightarrow> (nat \<Rightarrow> char) \<times> int \<times> int result" where
  "setgroups_read ok ubuf cnt pos allowed mem =
     (let text = (if allowed = Some False then ''deny'' @ [CHR 0x0A] else ''allow'' @ [CHR 0x0A])
      in proc_read_text ok ubuf cnt pos text mem)"

definition setgroups_write :: "int result" where "setgroups_write = Inl EPERM"

end
