(* ===== verification/UnsText.thy ===== *)
theory UnsText
  imports UnsMap
begin

text \<open>The id maps as partial inverses, the numbers of a map file, and what a read of a file copies where.\<close>

section \<open>Maps\<close>

definition extent_ok :: "uid_gid_extent \<Rightarrow> bool" where
  "extent_ok e \<longleftrightarrow> ue_count e \<noteq> 0 \<and> unat (ue_first e) + unat (ue_count e) \<le> 2 ^ 32 \<and> unat (ue_lower e) + unat (ue_count e) \<le> 2 ^ 32"

text \<open>Extents that overlap neither above nor below.\<close>

definition map_wf :: "uid_gid_map \<Rightarrow> bool" where
  "map_wf m \<longleftrightarrow> ug_nr m \<le> MAX_BASE_EXTENTS
     \<and> (\<forall>e \<in> set (take (ug_nr m) (ug_extent m)). extent_ok e)
     \<and> (\<forall>a \<in> set (take (ug_nr m) (ug_extent m)). \<forall>b \<in> set (take (ug_nr m) (ug_extent m)). a \<noteq> b \<longrightarrow>
          (\<forall>i. \<not> (in_extent (ue_first a) (ue_count a) i \<and> in_extent (ue_first b) (ue_count b) i)
             \<and> \<not> (in_extent (ue_lower a) (ue_count a) i \<and> in_extent (ue_lower b) (ue_count b) i)))"

lemma in_extent_nat:
  assumes "n \<noteq> 0" "unat lo + unat n \<le> 2 ^ 32"
  shows "in_extent lo n i \<longleftrightarrow> unat lo \<le> unat i \<and> unat i < unat lo + unat n"
proof -
  have n: "0 < unat n" using assms(1) by (simp add: unat_gt_0)
  have "unat (lo + (n - 1)) = unat lo + (unat n - 1)"
    using assms n by (subst unat_add_lem [THEN iffD1]) (auto simp: unat_minus_one)
  then have "unat (lo + n - 1) = unat lo + unat n - 1" using n by (simp add: algebra_simps)
  then show ?thesis using n by (auto simp: in_extent_def word_le_nat_alt)
qed

text \<open>An id of an extent goes to the same place of the other side.\<close>

lemma shift_extent:
  assumes "n \<noteq> 0" "unat a + unat n \<le> 2 ^ 32" "unat b + unat n \<le> 2 ^ 32" "in_extent a n i"
  shows "in_extent b n (i - a + b)"
proof -
  have i: "unat a \<le> unat i" "unat i < unat a + unat n" using assms in_extent_nat by blast+
  have s: "unat (i - a) = unat i - unat a" using i(1) by (simp add: unat_sub word_le_nat_alt)
  have "unat (i - a + b) = unat i - unat a + unat b"
    using s i assms(3) by (subst unat_add_lem [THEN iffD1]) auto
  then show ?thesis unfolding in_extent_nat [OF assms(1,3)] using i by linarith
qed

lemma down_base: "map_id_range_down_base es i 1 = k \<Longrightarrow> k \<noteq> UID_UNMAPPED \<Longrightarrow>
    \<exists>e \<in> set es. in_extent (ue_first e) (ue_count e) i \<and> k = i - ue_first e + ue_lower e"
  by (induction es) (auto split: if_splits)

lemma up_base: "map_id_up_base es i = k \<Longrightarrow> k \<noteq> UID_UNMAPPED \<Longrightarrow>
    \<exists>e \<in> set es. in_extent (ue_lower e) (ue_count e) i \<and> k = i - ue_lower e + ue_first e"
  by (induction es) (auto split: if_splits)

lemma down_base_unique:
  assumes "e \<in> set es" "in_extent (ue_first e) (ue_count e) i" "\<forall>d \<in> set es. in_extent (ue_first d) (ue_count d) i \<longrightarrow> d = e"
  shows "map_id_range_down_base es i 1 = i - ue_first e + ue_lower e"
  using assms
proof (induction es)
  case (Cons a es)
  show ?case
  proof (cases "in_extent (ue_first a) (ue_count a) i")
    case True
    then have "a = e" using Cons.prems(3) by (meson list.set_intros(1))
    then show ?thesis using True by simp
  next
    case False
    then have e: "e \<in> set es" using Cons.prems(1,2) by auto
    have "\<forall>d \<in> set es. in_extent (ue_first d) (ue_count d) i \<longrightarrow> d = e" using Cons.prems(3) by (meson list.set_intros(2))
    from Cons.IH [OF e Cons.prems(2) this] show ?thesis using False by simp
  qed
qed simp

lemma up_base_unique:
  assumes "e \<in> set es" "in_extent (ue_lower e) (ue_count e) i" "\<forall>d \<in> set es. in_extent (ue_lower d) (ue_count d) i \<longrightarrow> d = e"
  shows "map_id_up_base es i = i - ue_lower e + ue_first e"
  using assms
proof (induction es)
  case (Cons a es)
  show ?case
  proof (cases "in_extent (ue_lower a) (ue_count a) i")
    case True
    then have "a = e" using Cons.prems(3) by (meson list.set_intros(1))
    then show ?thesis using True by simp
  next
    case False
    then have e: "e \<in> set es" using Cons.prems(1,2) by auto
    have "\<forall>d \<in> set es. in_extent (ue_lower d) (ue_count d) i \<longrightarrow> d = e" using Cons.prems(3) by (meson list.set_intros(2))
    from Cons.IH [OF e Cons.prems(2) this] show ?thesis using False by simp
  qed
qed simp

lemma up_down:
  assumes wf: "map_wf m" and d: "userns_map_down m i \<noteq> UID_UNMAPPED"
  shows "userns_map_up m (userns_map_down m i) = i"
proof -
  let ?es = "take (ug_nr m) (ug_extent m)"
  have nr: "\<not> ug_nr m > MAX_BASE_EXTENTS" using wf by (simp add: map_wf_def)
  have db: "userns_map_down m i = map_id_range_down_base ?es i 1" using nr by (simp add: userns_map_down_def map_id_range_down_def)
  obtain e where e: "e \<in> set ?es" "in_extent (ue_first e) (ue_count e) i" "userns_map_down m i = i - ue_first e + ue_lower e"
    using down_base [of ?es i] d db by auto
  have ok: "extent_ok e" using wf e(1) by (simp add: map_wf_def)
  let ?k = "i - ue_first e + ue_lower e"
  have k: "in_extent (ue_lower e) (ue_count e) ?k" using shift_extent e(2) ok by (simp add: extent_ok_def)
  have "map_id_up_base ?es ?k = ?k - ue_lower e + ue_first e"
    by (rule up_base_unique [OF e(1) k]) (use wf e(1) k in \<open>auto simp: map_wf_def\<close>)
  then show ?thesis using nr e(3) by (simp add: userns_map_up_def map_id_up_def)
qed

lemma down_up:
  assumes wf: "map_wf m" and u: "userns_map_up m k \<noteq> UID_UNMAPPED"
  shows "userns_map_down m (userns_map_up m k) = k"
proof -
  let ?es = "take (ug_nr m) (ug_extent m)"
  have nr: "\<not> ug_nr m > MAX_BASE_EXTENTS" using wf by (simp add: map_wf_def)
  have ub: "userns_map_up m k = map_id_up_base ?es k" using nr by (simp add: userns_map_up_def map_id_up_def)
  obtain e where e: "e \<in> set ?es" "in_extent (ue_lower e) (ue_count e) k" "userns_map_up m k = k - ue_lower e + ue_first e"
    using up_base [of ?es k] u ub by auto
  have ok: "extent_ok e" using wf e(1) by (simp add: map_wf_def)
  let ?i = "k - ue_lower e + ue_first e"
  have i: "in_extent (ue_first e) (ue_count e) ?i" using shift_extent e(2) ok by (simp add: extent_ok_def)
  have "map_id_range_down_base ?es ?i 1 = ?i - ue_first e + ue_lower e"
    by (rule down_base_unique [OF e(1) i]) (use wf e(1) i in \<open>auto simp: map_wf_def\<close>)
  then show ?thesis using nr e(3) by (simp add: userns_map_down_def map_id_range_down_def)
qed

lemma identity_extents: "take (ug_nr (map_identity empty_map)) (ug_extent (map_identity empty_map)) = [\<lparr>ue_first = 0, ue_lower = 0, ue_count = 4294967295\<rparr>]"
  by (simp add: map_identity_def empty_map_def MAX_BASE_EXTENTS_def numeral_eq_Suc)

lemma identity_map: "userns_map_down (map_identity empty_map) i = i" "userns_map_up (map_identity empty_map) i = i" "map_wf (map_identity empty_map)"
proof -
  note e = identity_extents
  have n: "ug_nr (map_identity empty_map) = 1" by (simp add: map_identity_def)
  have x: "in_extent 0 4294967295 i \<or> i = UID_UNMAPPED" for i :: "32 word"
  proof (cases "i = UID_UNMAPPED")
    case False
    then have "i < - 1" using word_n1_ge [of i] by (simp add: UID_UNMAPPED_def order_less_le)
    then have "unat i < unat (- 1 :: 32 word)" by (simp only: word_less_nat_alt)
    then show ?thesis by (simp add: in_extent_nat unsigned_minus_1_eq_mask mask_eq_exp_minus_1)
  qed simp
  show "userns_map_down (map_identity empty_map) i = i" "userns_map_up (map_identity empty_map) i = i"
    using x [of i] n unfolding userns_map_down_def userns_map_up_def map_id_range_down_def map_id_up_def e by (auto simp: MAX_BASE_EXTENTS_def)
  show "map_wf (map_identity empty_map)" unfolding map_wf_def e unfolding n by (simp add: MAX_BASE_EXTENTS_def extent_ok_def)
qed

section \<open>Numbers\<close>

definition char_val :: "char \<Rightarrow> nat" where "char_val c = of_char c - 48"

text \<open>The number a string of digits stands for, after a value already read.\<close>

definition number_after :: "nat \<Rightarrow> string \<Rightarrow> nat" where
  "number_after a s = foldl (\<lambda>v c. v * 10 + char_val c) a s"

lemma number_after_simps [simp]: "number_after a [] = a" "number_after a (c # cs) = number_after (a * 10 + char_val c) cs"
  by (simp_all add: number_after_def)

lemma number_after_mono: "a \<le> number_after a s"
proof (induction s arbitrary: a)
  case (Cons c cs)
  have "a \<le> a * 10 + char_val c" by simp
  also have "\<dots> \<le> number_after (a * 10 + char_val c) cs" by (rule Cons.IH)
  finally show ?case by simp
qed simp

lemma read_digits_spec:
  assumes "a \<le> 4294967295"
  shows "read_digits (of_nat a) n s =
    (let d = takeWhile is_digit s; v = number_after a d in if v > 4294967295 then None else Some (of_nat v, n + length d, dropWhile is_digit s))"
  using assms
proof (induction s arbitrary: a n)
  case Nil
  then show ?case by simp
next
  case (Cons c cs)
  show ?case
  proof (cases "is_digit c")
    case False
    then show ?thesis using Cons.prems by simp
  next
    case True
    let ?b = "a * 10 + char_val c"
    have v: "48 \<le> (of_char c :: nat)" "char_val c \<le> 9" using True by (auto simp: is_digit_def char_val_def)
    have w: "of_nat a * 10 + (of_nat (of_char c) - 48) = (of_nat ?b :: 64 word)" using v(1) by (simp add: char_val_def of_nat_diff)
    have b: "?b < 2 ^ 64" using Cons.prems v(2) by simp
    then have u: "unat (of_nat ?b :: 64 word) = ?b" by (simp only: unsigned_of_nat take_bit_nat_eq_self len_of_numeral_defs) (simp add: take_bit_nat_eq_self)
    have g: "(of_nat ?b :: 64 word) > 4294967295 \<longleftrightarrow> ?b > 4294967295" unfolding word_less_nat_alt u by simp
    show ?thesis
    proof (cases "?b > 4294967295")
      case big: True
      then have "number_after ?b (takeWhile is_digit cs) > 4294967295" using number_after_mono [of ?b] by (meson less_le_trans)
      then show ?thesis using True big g unfolding read_digits.simps w by (simp add: Let_def)
    next
      case False
      then have "read_digits (of_nat ?b) (Suc n) cs =
          (let d = takeWhile is_digit cs; v = number_after ?b d in if v > 4294967295 then None else Some (of_nat v, Suc n + length d, dropWhile is_digit cs))"
        by (intro Cons.IH) simp
      then show ?thesis using True False g unfolding read_digits.simps w by (simp add: Let_def)
    qed
  qed
qed

lemma read_number_spec: "read_number s =
    (let r = dropWhile is_blank s; d = takeWhile is_digit r; v = number_after 0 d
     in if v > 4294967295 \<or> d = [] then None else Some (of_nat v, dropWhile is_digit r))"
  using read_digits_spec [of 0 0 "dropWhile is_blank s"] by (simp add: read_number_def Let_def)

lemma blank_not_digit: "is_blank c \<Longrightarrow> \<not> is_digit c" "c = CHR 0x0A \<Longrightarrow> \<not> is_digit c"
  by (auto simp: is_blank_def is_digit_def)

definition all_blank :: "string \<Rightarrow> bool" where "all_blank w \<longleftrightarrow> (\<forall>c \<in> set w. is_blank c)"

definition all_digits :: "string \<Rightarrow> bool" where "all_digits d \<longleftrightarrow> d \<noteq> [] \<and> (\<forall>c \<in> set d. is_digit c)"

definition no_digit_next :: "string \<Rightarrow> bool" where "no_digit_next t \<longleftrightarrow> t = [] \<or> \<not> is_digit (hd t)"

lemma dropWhile_blank: "all_blank w \<Longrightarrow> all_digits d \<Longrightarrow> dropWhile is_blank (w @ d @ t) = d @ t"
  by (cases d) (auto simp: all_blank_def all_digits_def dropWhile_append dest: blank_not_digit)

lemma takeWhile_digits: "all_digits d \<Longrightarrow> no_digit_next t \<Longrightarrow> takeWhile is_digit (d @ t) = d \<and> dropWhile is_digit (d @ t) = t"
  by (cases t) (auto simp: all_digits_def no_digit_next_def takeWhile_append dropWhile_append)

lemma read_number_iff: "read_number s = Some (v, t) \<longleftrightarrow>
    (\<exists>w d. s = w @ d @ t \<and> all_blank w \<and> all_digits d \<and> no_digit_next t \<and> number_after 0 d \<le> 4294967295 \<and> v = of_nat (number_after 0 d))"
  (is "?l \<longleftrightarrow> ?r")
proof
  assume l: ?l
  let ?w = "takeWhile is_blank s" and ?x = "dropWhile is_blank s"
  have r: "\<not> number_after 0 (takeWhile is_digit ?x) > 4294967295" "takeWhile is_digit ?x \<noteq> []" "t = dropWhile is_digit ?x"
    "v = of_nat (number_after 0 (takeWhile is_digit ?x))"
    using l by (auto simp: read_number_spec Let_def split: if_splits)
  have "s = ?w @ takeWhile is_digit ?x @ t" using r(3) by (metis takeWhile_dropWhile_id)
  moreover have "all_blank ?w" "all_digits (takeWhile is_digit ?x)" using r(2) by (auto simp: all_blank_def all_digits_def dest: set_takeWhileD)
  moreover have "no_digit_next t" using r(3) hd_dropWhile [of is_digit ?x] by (auto simp: no_digit_next_def)
  ultimately show ?r using r(1,4) by (intro exI [of _ ?w] exI [of _ "takeWhile is_digit ?x"]) simp
next
  assume ?r
  then obtain w d where d: "s = w @ d @ t" "all_blank w" "all_digits d" "no_digit_next t" "number_after 0 d \<le> 4294967295" "v = of_nat (number_after 0 d)" by blast
  show ?l using d(5,6) dropWhile_blank [OF d(2,3), of t] takeWhile_digits [OF d(3,4)] d(3) by (simp add: read_number_spec d(1) Let_def all_digits_def)
qed

text \<open>What a write may hold: three numbers, 0, 0 and 4294967295, between blanks, with blanks and line ends behind.\<close>

definition identity_text :: "string \<Rightarrow> bool" where
  "identity_text s \<longleftrightarrow> (\<exists>w1 d1 w2 d2 w3 d3 w4. s = w1 @ d1 @ w2 @ d2 @ w3 @ d3 @ w4 \<and> all_blank w1 \<and> all_blank w2 \<and> all_blank w3 \<and> w2 \<noteq> [] \<and> w3 \<noteq> []
     \<and> all_digits d1 \<and> all_digits d2 \<and> all_digits d3 \<and> number_after 0 d1 = 0 \<and> number_after 0 d2 = 0 \<and> number_after 0 d3 = 4294967295
     \<and> (\<forall>c \<in> set w4. is_blank c \<or> c = CHR 0x0A))"

lemma of_nat_64: "a \<le> 4294967295 \<Longrightarrow> (of_nat a :: 64 word) = of_nat b \<Longrightarrow> b \<le> 4294967295 \<Longrightarrow> a = b"
  by (simp add: word_of_nat_eq_iff take_bit_nat_eq_self)

lemma of_nat_64_zero: "a \<le> 4294967295 \<Longrightarrow> (of_nat a :: 64 word) = 0 \<longleftrightarrow> a = 0"
  using of_nat_64 [of a 0] by auto

lemma of_nat_64_max: "a \<le> 4294967295 \<Longrightarrow> (of_nat a :: 64 word) = 4294967295 \<longleftrightarrow> a = 4294967295"
  using of_nat_64 [of a 4294967295] by auto

lemma tail_no_digit: "(\<forall>c \<in> set w. is_blank c \<or> c = CHR 0x0A) \<Longrightarrow> no_digit_next w"
  by (cases w) (auto simp: no_digit_next_def is_digit_def dest: blank_not_digit)

lemma blank_no_digit: "all_blank w \<Longrightarrow> w \<noteq> [] \<Longrightarrow> no_digit_next (w @ t)"
  by (cases w) (auto simp: no_digit_next_def all_blank_def dest: blank_not_digit)

lemma digits_next: "no_digit_next (w @ d @ t) \<Longrightarrow> all_digits d \<Longrightarrow> w \<noteq> []"
  by (cases d) (auto simp: no_digit_next_def all_digits_def)

lemma map_is_identity_iff: "map_is_identity s \<longleftrightarrow> identity_text s"
proof
  assume m: "map_is_identity s"
  obtain v0 s0 where r0: "read_number s = Some (v0, s0)" using m by (cases "read_number s") (auto simp: map_is_identity_def)
  obtain v1 s1 where r1: "read_number s0 = Some (v1, s1)" using m r0 by (cases "read_number s0") (auto simp: map_is_identity_def)
  obtain v2 s2 where r2: "read_number s1 = Some (v2, s2)" using m r0 r1 by (cases "read_number s1") (auto simp: map_is_identity_def)
  note r = r0 r1 r2
  have e: "dropWhile (\<lambda>c. is_blank c \<or> c = CHR 0x0A) s2 = []" "v0 = 0" "v1 = 0" "v2 = 4294967295"
    using m unfolding map_is_identity_def r option.case prod.case by blast+
  obtain w1 d1 where a: "s = w1 @ d1 @ s0" "all_blank w1" "all_digits d1" "no_digit_next s0" "number_after 0 d1 \<le> 4294967295" "v0 = of_nat (number_after 0 d1)"
    using r(1) unfolding read_number_iff by blast
  obtain w2 d2 where b: "s0 = w2 @ d2 @ s1" "all_blank w2" "all_digits d2" "no_digit_next s1" "number_after 0 d2 \<le> 4294967295" "v1 = of_nat (number_after 0 d2)"
    using r(2) unfolding read_number_iff by blast
  obtain w3 d3 where c: "s1 = w3 @ d3 @ s2" "all_blank w3" "all_digits d3" "no_digit_next s2" "number_after 0 d3 \<le> 4294967295" "v2 = of_nat (number_after 0 d3)"
    using r(3) unfolding read_number_iff by blast
  have w: "w2 \<noteq> []" "w3 \<noteq> []" using digits_next a(4) b(1,3,4) c(1,3) by blast+
  have n: "number_after 0 d1 = 0" "number_after 0 d2 = 0" "number_after 0 d3 = 4294967295"
    using e(2-4) a(5,6) b(5,6) c(5,6) by (simp_all add: of_nat_64_zero of_nat_64_max)
  have t: "\<forall>c \<in> set s2. is_blank c \<or> c = CHR 0x0A" using e(1) by (simp add: dropWhile_eq_Nil_conv)
  have "s = w1 @ d1 @ w2 @ d2 @ w3 @ d3 @ s2" using a(1) b(1) c(1) by simp
  then show "identity_text s" unfolding identity_text_def using a(2,3) b(2,3) c(2,3) w n t by blast
next
  assume "identity_text s"
  then obtain w1 d1 w2 d2 w3 d3 w4 where s: "s = w1 @ d1 @ w2 @ d2 @ w3 @ d3 @ w4" and w: "all_blank w1" "all_blank w2" "all_blank w3" "w2 \<noteq> []" "w3 \<noteq> []"
    and d: "all_digits d1" "all_digits d2" "all_digits d3" and n: "number_after 0 d1 = 0" "number_after 0 d2 = 0" "number_after 0 d3 = 4294967295"
    and t: "\<forall>c \<in> set w4. is_blank c \<or> c = CHR 0x0A"
    unfolding identity_text_def by blast
  have "read_number s = Some (0, w2 @ d2 @ w3 @ d3 @ w4)"
    unfolding read_number_iff using s w(1) d(1) n(1) blank_no_digit [OF w(2,4)] by (intro exI [of _ w1] exI [of _ d1]) simp
  moreover have "read_number (w2 @ d2 @ w3 @ d3 @ w4) = Some (0, w3 @ d3 @ w4)"
    unfolding read_number_iff using w(2) d(2) n(2) blank_no_digit [OF w(3,5)] by (intro exI [of _ w2] exI [of _ d2]) simp
  moreover have "read_number (w3 @ d3 @ w4) = Some (4294967295, w4)"
    unfolding read_number_iff using w(3) d(3) n(3) tail_no_digit [OF t] by (intro exI [of _ w3] exI [of _ d3]) simp
  moreover have "dropWhile (\<lambda>c. is_blank c \<or> c = CHR 0x0A) w4 = []" using t by (simp add: dropWhile_eq_Nil_conv)
  ultimately show "map_is_identity s" by (simp add: map_is_identity_def)
qed

text \<open>What a read of the identity map gives is what a write may hold.\<close>

lemma identity_prints: "map_text USERNS_MAP_TEXT (map_identity empty_map) = ''         0          0 4294967295'' @ [CHR 0x0A]"
proof -
  have d: "dec 0 = ''0''" "dec 4294967295 = ''4294967295''" by (simp_all add: dec.simps digit_def char_of_def bit_Suc_0_iff)
  have p: "pad10 ''0'' = ''         0''" "pad10 ''4294967295'' = ''4294967295''" by (simp_all add: pad10_def numeral_eq_Suc)
  have l: "extent_line \<lparr>ue_first = 0, ue_lower = 0, ue_count = 4294967295\<rparr> = ''         0          0 4294967295'' @ [CHR 0x0A]"
    by (simp add: extent_line_def d p)
  show ?thesis unfolding map_text_def identity_extents map_text_loop.simps l by (simp add: scnprintf_def USERNS_MAP_TEXT_def)
qed

end
