(* ===== verification/IpcNs.thy ===== *)
theory IpcNs
  imports PidLife MsgQueue SemSet ShmSeg MqNs
begin

text \<open>
  IPC namespaces (\<^verbatim>\<open>src/src/main/ipcns/ipcns.c\<close>): creation, references, \<^verbatim>\<open>setns\<close>, release, set-up
  and unload.

  A namespace holds the tables of the four classes as their own theories have them. Its tables
  are set up empty; what tasks do to them is the matter of those theories. \<open>ns_oops\<close> is set where
  the code follows a pointer to nothing or a release loop does not end. A proxy of
  the kernel is in two parts, \<open>pd_nsproxy\<close> for the pid side and \<open>ns_proxies\<close> for the ipc side and its
  count; which task has which proxy is \<open>pd_task_nsproxy\<close>.

  The accounting of messages is one list for the whole module (\<^verbatim>\<open>droid_lkm_msg_acct_list\<close>), \<open>ns_acct\<close>, with
  an entry per namespace address. The field \<open>msg_acct_list\<close> of a namespace's own record is that list as the
  message queues see it while one of their operations runs, and empty in between.
\<close>

section \<open>State\<close>

record ipc_namespace =
  ins_count :: int
  ins_user :: "nat option"
  ins_inum :: nat
  ins_msg :: msg_ns
  ins_sem :: sem_ns
  ins_shm :: shm_ns
  ins_mq :: mq_ns
  ins_ids :: bool
  ins_sysctl :: bool
  ins_mq_sysctl :: bool
  ins_stashed :: bool
  ins_neutral :: bool

text \<open>\<open>ie_init\<close> marks the static entry of the host's namespace.\<close>

record ipcns_entry =
  ie_ns :: ptr
  ie_kernel_owned :: bool
  ie_init :: bool

record ipc_nsproxy =
  nx_count :: nat
  nx_ipc :: "ptr option"

record ns_state =
  ns_pid :: pidns_state
  ns_heap :: "ptr \<rightharpoonup> ipc_namespace"
  ns_list :: "ipcns_entry list"
  ns_host :: "ptr option"
  ns_orig :: "ptr option"
  ns_kernel_owned :: bool
  ns_inums :: "nat set"
  ns_users :: "nat \<Rightarrow> int"
  ns_acct :: "msg_acct list"
  ns_proxies :: "ptr \<rightharpoonup> ipc_nsproxy"
  ns_oops :: bool

text \<open>
  The environment of a call: the pid side, allocations, whether the module serves System V
  objects and POSIX queues, the sysctl tables (\<open>None\<close> when there is no support for them), the
  kernel's \<^verbatim>\<open>copy_ipcs\<close> and \<^verbatim>\<open>put_ipc_ns\<close> when it has them.
\<close>

record ipcns_env =
  ni_pid :: pidns_env
  ni_zalloc :: kmalloc
  ni_inum :: "nat result"
  ni_acct :: bool
  ni_entry :: bool
  ni_sysv :: bool
  ni_mqueue :: bool
  ni_mq_mount :: "errno option"
  ni_mq_sysctl :: bool
  ni_sysctl :: "bool option"
  ni_copy_ipcs :: "(ns_state \<Rightarrow> ns_state \<times> ptr result) option"
  ni_put_ipc :: "(ptr \<Rightarrow> ns_state \<Rightarrow> ns_state) option"
  ni_gate :: bool

definition ns_upd :: "ptr \<Rightarrow> (ipc_namespace \<Rightarrow> ipc_namespace) \<Rightarrow> ns_state \<Rightarrow> ns_state" where
  "ns_upd p f s =
     (case ns_heap s p of
        None \<Rightarrow> s\<lparr>ns_oops := True\<rparr>
      | Some n \<Rightarrow> s\<lparr>ns_heap := (ns_heap s)(p \<mapsto> f n)\<rparr>)"

definition proxy_of :: "ns_state \<Rightarrow> nat \<Rightarrow> ptr option" where
  "proxy_of s t = pd_task_nsproxy (ns_pid s) t"

definition proxy_ipc :: "ns_state \<Rightarrow> ptr \<Rightarrow> ptr option" where
  "proxy_ipc s np = Option.bind (ns_proxies s np) nx_ipc"

definition set_proxy_ipc :: "ptr \<Rightarrow> ptr option \<Rightarrow> ns_state \<Rightarrow> ns_state" where
  "set_proxy_ipc np ipc s =
     (case ns_proxies s np of
        None \<Rightarrow> s\<lparr>ns_oops := True\<rparr>
      | Some x \<Rightarrow> s\<lparr>ns_proxies := (ns_proxies s)(np \<mapsto> x\<lparr>nx_ipc := ipc\<rparr>)\<rparr>)"

section \<open>Release\<close>

text \<open>The memory of a new namespace is zero.\<close>

definition zero_ipc_ns :: "ptr \<Rightarrow> ipc_namespace" where
  "zero_ipc_ns p =
     \<lparr>ins_count = 0, ins_user = None, ins_inum = 0,
      ins_msg = \<lparr>ns_addr = p, msg_ids = ipc_init_ids, msg_ctlmax = 0, msg_ctlmnb = 0, msg_ctlmni = 0, msg_acct_list = [], msg_stacks = Map.empty\<rparr>,
      ins_sem = \<lparr>sem_ids = ipc_init_ids, sc_semmsl = 0, sc_semmns = 0, sc_semopm = 0, sc_semmni = 0, used_sems = 0, sem_stacks = Map.empty,
        sem_undos = Map.empty, sem_ulps = Map.empty, task_ulp = Map.empty\<rparr>,
      ins_shm = \<lparr>shm_ids = ipc_init_ids, shm_ctlmax = 0, shm_ctlall = 0, shm_ctlmni = 0, shm_rmid_forced = False, shm_tot = 0, shm_lists = Map.empty,
        shm_bases = Map.empty, shm_outer = Map.empty, shm_oops = False\<rparr>,
      ins_mq = \<lparr>mq_inodes = Map.empty, mq_names = Map.empty, mq_files = Map.empty, mq_fs = False, mq_mnt = False, mq_queues_count = 0, mq_queues_max = 0,
        mq_msg_max = 0, mq_msgsize_max = 0, mq_msg_default = 0, mq_msgsize_default = 0, mq_charged = (\<lambda>_. 0)\<rparr>,
      ins_ids = False, ins_sysctl = False, ins_mq_sysctl = False, ins_stashed = False, ins_neutral = False\<rparr>"

definition ipcns_destroy_ids :: "ipc_namespace \<Rightarrow> ipc_namespace" where
  "ipcns_destroy_ids n =
     (if mq_mnt (ins_mq n)
      then n\<lparr>ins_mq_sysctl := False, ins_mq := (mq_clear_sbinfo (ins_mq n))\<lparr>mq_mnt := False\<rparr>\<rparr>
      else n)\<lparr>ins_ids := False\<rparr>"

text \<open>The objects of the classes the module serves, with the accounting list; \<open>None\<close> when a loop does not end.\<close>

definition classes_exit :: "msg_acct list \<Rightarrow> ipc_namespace \<Rightarrow> (ipc_namespace \<times> msg_acct list) option" where
  "classes_exit a n =
     (case ds_sem_exit_ns (nat ipc_mni) (ins_sem n) of
        None \<Rightarrow> None
      | Some se \<Rightarrow>
          (case ds_msg_exit_ns (nat ipc_mni) ((ins_msg n)\<lparr>msg_acct_list := a\<rparr>) of
             None \<Rightarrow> None
           | Some ms \<Rightarrow>
               (case ds_shm_exit_ns (nat ipc_mni) (ins_shm n) of
                  None \<Rightarrow> None
                | Some sh \<Rightarrow> Some (n\<lparr>ins_sem := se, ins_msg := ms\<lparr>msg_acct_list := []\<rparr>, ins_shm := sh\<rparr>, msg_acct_list ms))))"

definition put_user_ns :: "nat option \<Rightarrow> ns_state \<Rightarrow> ns_state" where
  "put_user_ns u s = (case u of None \<Rightarrow> s | Some u \<Rightarrow> s\<lparr>ns_users := (ns_users s)(u := ns_users s u - 1)\<rparr>)"

definition ds_free_ipc_ns :: "ipcns_env \<Rightarrow> ptr \<Rightarrow> ns_state \<Rightarrow> ns_state" where
  "ds_free_ipc_ns e p s =
     (case ns_heap s p of
        None \<Rightarrow> s\<lparr>ns_oops := True\<rparr>
      | Some n \<Rightarrow>
          (case (if ni_sysv e then classes_exit (ns_acct s) n else Some (n, ns_acct s)) of
             None \<Rightarrow> s\<lparr>ns_oops := True\<rparr>
           | Some (n, acct) \<Rightarrow>
               (let n = ipcns_destroy_ids (n\<lparr>ins_sysctl := False\<rparr>);
                    s = put_user_ns (ins_user n) s;
                    s = (if ins_inum n = 0 then s else s\<lparr>ns_inums := ns_inums s - {ins_inum n}\<rparr>)
                in s\<lparr>ns_heap := (ns_heap s)(p := None), ns_acct := acct\<rparr>)))"

section \<open>Creation\<close>

text \<open>The System V half of a namespace, with the accounting list before and after.\<close>

definition classes_init :: "ipcns_env \<Rightarrow> msg_acct list \<Rightarrow> ipc_namespace \<Rightarrow> ipc_namespace \<times> msg_acct list \<times> errno option" where
  "classes_init e a n =
     (case msg_init_ns (ni_acct e) ((ins_msg n)\<lparr>msg_acct_list := a\<rparr>) of
        (m, Some err) \<Rightarrow> (n\<lparr>ins_msg := m\<lparr>msg_acct_list := []\<rparr>\<rparr>, msg_acct_list m, Some err)
      | (m, None) \<Rightarrow> (n\<lparr>ins_msg := m\<lparr>msg_acct_list := []\<rparr>, ins_sem := sem_init_ns (ins_sem n), ins_shm := shm_init_ns (ins_shm n), ins_ids := True\<rparr>, msg_acct_list m, None))"

definition ipcns_create_kernel :: "ipcns_env \<Rightarrow> ns_state \<Rightarrow> ns_state \<times> ptr result" where
  "ipcns_create_kernel e s =
     (case (ni_copy_ipcs e, ni_put_ipc e) of
        (Some copy, Some put) \<Rightarrow>
          (case copy s of
             (s, Inl err) \<Rightarrow> (s, Inl err)
           | (s, Inr p) \<Rightarrow>
               (case ns_heap s p of
                  None \<Rightarrow> (s\<lparr>ns_oops := True\<rparr>, Inl EINVAL)
                | Some n \<Rightarrow>
                    (case (if ni_sysv e then classes_init e (ns_acct s) n else (n, ns_acct s, None)) of
                       (n, acct, Some err) \<Rightarrow> (put p (s\<lparr>ns_heap := (ns_heap s)(p \<mapsto> n), ns_acct := acct\<rparr>), Inl err)
                     | (n, acct, None) \<Rightarrow>
                         (let s = s\<lparr>ns_acct := acct, ns_heap := (ns_heap s)(p \<mapsto> n\<lparr>ins_sysctl := (ni_sysctl e = Some True)\<rparr>)\<rparr>
                          in if ni_sysctl e = Some False \<or> \<not> ni_entry e
                             then (put p (ns_upd p (ins_sysctl_update (\<lambda>_. False)) s), Inl ENOMEM)
                             else (s\<lparr>ns_list := ns_list s @ [\<lparr>ie_ns = p, ie_kernel_owned = True, ie_init = False\<rparr>]\<rparr>, Inr p)))))
      | _ \<Rightarrow> (s, Inl EOPNOTSUPP))"

definition mq_setup :: "ipcns_env \<Rightarrow> ipc_namespace \<Rightarrow> ipc_namespace \<times> errno option" where
  "mq_setup e n =
     (if \<not> ni_mqueue e then (n, None)
      else
        (case mq_init_ns (ni_mq_mount e) (ins_mq n) of
           (q, Some err) \<Rightarrow> (n\<lparr>ins_mq := q\<rparr>, Some err)
         | (q, None) \<Rightarrow> if ni_mq_sysctl e then (n\<lparr>ins_mq := q, ins_mq_sysctl := True\<rparr>, None) else (n\<lparr>ins_mq := q\<rparr>, Some ENOMEM)))"

definition ipcns_create :: "ipcns_env \<Rightarrow> ns_state \<Rightarrow> ns_state \<times> ptr result" where
  "ipcns_create e s =
     (if ns_kernel_owned s then ipcns_create_kernel e s
      else
        (case ni_zalloc e (\<lambda>p. ns_heap s p \<noteq> None) of
           None \<Rightarrow> (s, Inl ENOMEM)
         | Some p \<Rightarrow>
             (case ni_inum e of
                Inl err \<Rightarrow> (s, Inl err)
              | Inr inum \<Rightarrow>
                  (let u = pk_cred_ns (ni_pid e);
                       n = (zero_ipc_ns p)\<lparr>ins_inum := inum, ins_count := 1, ins_user := Some u\<rparr>;
                       s = s\<lparr>ns_inums := insert inum (ns_inums s), ns_users := (ns_users s)(u := ns_users s u + 1)\<rparr>
                   in case classes_init e (ns_acct s) n of
                        (n, acct, Some err) \<Rightarrow> (put_user_ns (ins_user n) (s\<lparr>ns_inums := ns_inums s - {inum}, ns_acct := acct\<rparr>), Inl err)
                      | (n, acct, None) \<Rightarrow>
                          (case mq_setup e n of
                             (n, Some err) \<Rightarrow> (ds_free_ipc_ns e p (s\<lparr>ns_acct := acct, ns_heap := (ns_heap s)(p \<mapsto> n)\<rparr>), Inl err)
                           | (n, None) \<Rightarrow>
                               (let s = s\<lparr>ns_acct := acct, ns_heap := (ns_heap s)(p \<mapsto> n\<lparr>ins_sysctl := (ni_sysctl e = Some True)\<rparr>)\<rparr>
                                in if ni_sysctl e = Some False \<or> \<not> ni_entry e then (ds_free_ipc_ns e p s, Inl ENOMEM)
                                   else (s\<lparr>ns_list := ns_list s @ [\<lparr>ie_ns = p, ie_kernel_owned = False, ie_init = False\<rparr>]\<rparr>, Inr p)))))))"

section \<open>References\<close>

definition ipcns_is_ours :: "ns_state \<Rightarrow> ptr option \<Rightarrow> bool" where
  "ipcns_is_ours s ns = (case ns of None \<Rightarrow> False | Some p \<Rightarrow> p \<in> ie_ns ` set (ns_list s))"

definition ipcns_is_host :: "ns_state \<Rightarrow> ptr option \<Rightarrow> bool" where
  "ipcns_is_host s ns = (ns \<noteq> None \<and> ns = ns_host s)"

definition ipcns_task_ns :: "ns_state \<Rightarrow> nat \<Rightarrow> ptr option" where
  "ipcns_task_ns s t = (case Option.bind (proxy_of s t) (proxy_ipc s) of None \<Rightarrow> ns_host s | Some p \<Rightarrow> Some p)"

definition ipcns_get :: "ptr option \<Rightarrow> ns_state \<Rightarrow> ns_state" where
  "ipcns_get ns s = (case ns of None \<Rightarrow> s | Some p \<Rightarrow> ns_upd p (ins_count_update (\<lambda>c. c + 1)) s)"

definition ipcns_put :: "ipcns_env \<Rightarrow> ptr option \<Rightarrow> ns_state \<Rightarrow> ns_state" where
  "ipcns_put e ns s =
     (case ns of
        None \<Rightarrow> s
      | Some p \<Rightarrow>
          (let x = find (\<lambda>x. ie_ns x = p) (ns_list s)
           in if (case x of None \<Rightarrow> False | Some x \<Rightarrow> ie_kernel_owned x)
              then (case ni_put_ipc e of None \<Rightarrow> s | Some put \<Rightarrow> put p s)
              else
                (case ns_heap s p of
                   None \<Rightarrow> s\<lparr>ns_oops := True\<rparr>
                 | Some n \<Rightarrow>
                     (let s = ns_upd p (ins_count_update (\<lambda>c. c - 1)) s
                      in if ins_count n \<noteq> 1 then s
                         else if ns_host s = Some p \<or> (case x of None \<Rightarrow> False | Some x \<Rightarrow> ie_init x) then ns_upd p (ins_count_update (\<lambda>_. 1)) s
                         else ds_free_ipc_ns e p (case x of None \<Rightarrow> s | Some x \<Rightarrow> s\<lparr>ns_list := remove1 x (ns_list s)\<rparr>)))))"

definition ipcns_get_task :: "nat \<Rightarrow> ns_state \<Rightarrow> ns_state \<times> ptr option" where
  "ipcns_get_task t s = (ipcns_get (ipcns_task_ns s t) s, ipcns_task_ns s t)"

definition ipcns_install :: "ipcns_env \<Rightarrow> ptr \<Rightarrow> nat \<Rightarrow> ptr \<Rightarrow> ns_state \<Rightarrow> ns_state \<times> unit result" where
  "ipcns_install e np cred p s =
     (case ns_heap s p of
        None \<Rightarrow> (s\<lparr>ns_oops := True\<rparr>, Inl EINVAL)
      | Some n \<Rightarrow>
          if \<not> (case ins_user n of None \<Rightarrow> False | Some u \<Rightarrow> pk_capable (ni_pid e) u) \<or> \<not> pk_capable (ni_pid e) cred then (s, Inl EPERM)
          else (set_proxy_ipc np (Some p) s, Inr ()))"

definition ipcns_in_use :: "ipc_namespace \<Rightarrow> bool" where
  "ipcns_in_use n \<longleftrightarrow> in_use (sem_ids (ins_sem n)) > 0 \<or> in_use (msg_ids (ins_msg n)) > 0 \<or> in_use (shm_ids (ins_shm n)) > 0"

text \<open>A namespace in use keeps the module loaded: the host's always, another one while a task refers to one.\<close>

definition any_ns_refs :: "bool \<Rightarrow> ns_state \<Rightarrow> bool" where
  "any_ns_refs trusted s =
     any_task_ns_refs trusted
       (\<lambda>t. let i = Option.bind (proxy_of s t) (proxy_ipc s) in ipcns_is_ours s i \<and> \<not> ipcns_is_host s i) (ns_pid s)"

definition ipcns_busy :: "bool \<Rightarrow> ns_state \<Rightarrow> bool" where
  "ipcns_busy trusted s =
     (let used = filter (\<lambda>x. case ns_heap s (ie_ns x) of None \<Rightarrow> False | Some n \<Rightarrow> ipcns_in_use n) (ns_list s)
      in if list_ex (\<lambda>x. ns_host s = Some (ie_ns x)) used then True else used \<noteq> [] \<and> any_ns_refs trusted s)"

section \<open>Set-up and unload\<close>

text \<open>
  What set-up finds: the helpers' answers, the neutral operations, the static namespace, the proxy
  of the first task, whether the kernel has ipc namespaces and System V objects of its own, and POSIX queues.
\<close>

record ipcns_boot =
  nb_msgutil :: "errno option"
  nb_util :: "errno option"
  nb_alias :: bool
  nb_static :: ptr
  nb_init_user :: nat
  nb_init_nsproxy :: "ptr option"
  nb_kernel_ipc :: bool
  nb_kernel_sysv :: bool
  nb_acct :: bool
  nb_mqueue :: bool
  nb_mq_mount :: "errno option"

definition ipcns_reset_ref :: "nat \<Rightarrow> ns_state \<Rightarrow> ns_state" where
  "ipcns_reset_ref t s =
     (let s = s\<lparr>ns_pid := reset_task_ref t (ns_pid s)\<rparr>
      in case proxy_of s t of
           None \<Rightarrow> s
         | Some np \<Rightarrow> if ipcns_is_ours s (proxy_ipc s np) then set_proxy_ipc np None s else s)"

definition reset_ns_refs :: "bool \<Rightarrow> ns_state \<Rightarrow> ns_state" where
  "reset_ns_refs trusted s = (if \<not> trusted then s else fold ipcns_reset_ref (pd_leaders (ns_pid s)) s)"

text \<open>\<open>pin\<close>: the counter of the common part is set, as the kernel versions that have it want.\<close>

definition ipcns_neutralize :: "bool \<Rightarrow> ipc_namespace \<Rightarrow> ipc_namespace" where
  "ipcns_neutralize pin n = (if pin then n\<lparr>ins_count := NS_LEAK_REFCOUNT\<rparr> else n)\<lparr>ins_neutral := True\<rparr>"

definition ipcns_held :: "ipc_namespace \<Rightarrow> bool" where
  "ipcns_held n \<longleftrightarrow> ins_stashed n \<or> ins_count n > 0 \<or> ipcns_in_use n"

text \<open>One entry; the second result says that its namespace is left behind.\<close>

definition ipcns_exit_entry :: "ipcns_env \<Rightarrow> bool \<Rightarrow> ipcns_entry \<Rightarrow> ns_state \<Rightarrow> ns_state \<times> bool" where
  "ipcns_exit_entry e pin x s =
     (let p = ie_ns x; s = ns_upd p (ins_sysctl_update (\<lambda>_. False)) s
      in if ie_kernel_owned x then ((case ni_put_ipc e of None \<Rightarrow> s\<lparr>ns_oops := True\<rparr> | Some put \<Rightarrow> put p s), False)
         else
           (case ns_heap s p of
              None \<Rightarrow> (s, False)
            | Some n \<Rightarrow>
                if ie_init x \<or> ns_host s = Some p
                then ((if ipcns_in_use n then s else ns_upd p ipcns_destroy_ids s), False)
                else if ipcns_held n then (ns_upd p (ipcns_neutralize pin) s, True)
                else (ds_free_ipc_ns e p s, False)))"

fun ipcns_exit_loop :: "ipcns_env \<Rightarrow> bool \<Rightarrow> ipcns_entry list \<Rightarrow> ns_state \<Rightarrow> ns_state \<times> nat" where
  "ipcns_exit_loop e pin [] s = (s, 0)"
| "ipcns_exit_loop e pin (x # xs) s =
     (case ipcns_exit_entry e pin x (s\<lparr>ns_list := xs\<rparr>) of
        (s, behind) \<Rightarrow> (case ipcns_exit_loop e pin xs s of (s, k) \<Rightarrow> (s, (if behind then 1 else 0) + k)))"

definition ipcns_exit :: "ipcns_env \<Rightarrow> bool \<Rightarrow> bool \<Rightarrow> bool \<Rightarrow> ptr option \<Rightarrow> ns_state \<Rightarrow> ns_state \<times> nat" where
  "ipcns_exit e trusted pin kernel_ipc init_nsproxy s =
     (if \<not> trusted then (s, 0)
      else
        (let s = (case init_nsproxy of
                    None \<Rightarrow> s
                  | Some np \<Rightarrow> if kernel_ipc \<and> ipcns_is_ours s (proxy_ipc s np) then set_proxy_ipc np (ns_orig s) s else s);
             s = reset_ns_refs trusted s
         in ipcns_exit_loop e pin (ns_list s) s))"

definition ipcns_init :: "ipcns_env \<Rightarrow> ipcns_boot \<Rightarrow> bool \<Rightarrow> ns_state \<Rightarrow> ns_state \<times> errno option" where
  "ipcns_init e b trusted s =
     (case nb_msgutil b of
        Some err \<Rightarrow> (s, Some err)
      | None \<Rightarrow>
          (case nb_util b of
             Some err \<Rightarrow> (s, Some err)
           | None \<Rightarrow>
               if \<not> nb_alias b then (s, Some ENOMEM)
               else
                 (let p = nb_static b;
                      s = ns_upd p (\<lambda>n. n\<lparr>ins_shm := shm_init_ns (ins_shm n), ins_inum := 0xEFFFFFFF, ins_count := 1, ins_user := Some (nb_init_user b)\<rparr>) s;
                      s = s\<lparr>ns_host := Some p, ns_list := ns_list s @ [\<lparr>ie_ns = p, ie_kernel_owned = False, ie_init = True\<rparr>]\<rparr>
                  in case nb_init_nsproxy b of
                       None \<Rightarrow> (fst (ipcns_exit e trusted False (nb_kernel_ipc b) None s), Some ENODATA)
                     | Some np \<Rightarrow>
                         (case (nb_kernel_ipc b, proxy_ipc s np) of
                            (True, Some k) \<Rightarrow>
                              (let s = s\<lparr>ns_kernel_owned := True, ns_orig := Some k, ns_host := Some k,
                                         ns_list := map (\<lambda>x. if ie_init x then x\<lparr>ie_ns := k\<rparr> else x) (ns_list s)\<rparr>;
                                   s = (if nb_kernel_sysv b then s
                                        else
                                          (case ns_heap s k of
                                             None \<Rightarrow> s\<lparr>ns_oops := True\<rparr>
                                           | Some n \<Rightarrow>
                                               (let m = fst (msg_init_ns (nb_acct b) ((ins_msg n)\<lparr>msg_acct_list := ns_acct s\<rparr>))
                                                in s\<lparr>ns_acct := msg_acct_list m,
                                                     ns_heap := (ns_heap s)(k \<mapsto> n\<lparr>ins_msg := m\<lparr>msg_acct_list := []\<rparr>, ins_sem := sem_init_ns (ins_sem n),
                                                       ins_shm := shm_init_ns (ins_shm n)\<rparr>)\<rparr>)));
                                   s = (if nb_mqueue b then ns_upd k (\<lambda>n. n\<lparr>ins_mq := fst (mq_init_ns (nb_mq_mount b) (ins_mq n))\<rparr>) s else s)
                               in (s, None))
                          | _ \<Rightarrow> (s, None)))))"

end
