(* ===== verification/NsProxy.thy ===== *)
theory NsProxy
  imports IpcNs
begin

text \<open>
  How tasks get their namespaces (\<^verbatim>\<open>src/src/main/slot/ds_slot.c\<close>): the wrappers around the functions of
  the kernel that copy, switch and drop the namespace proxy of a task, and the system calls
  \<^verbatim>\<open>unshare\<close>, \<^verbatim>\<open>clone\<close> and \<^verbatim>\<open>clone3\<close>.

  The kernel's own functions are arguments (\<open>ns_kernel\<close>). Where one of them calls another that the
  module has hooked, the hooked function is an argument of it.
\<close>

unbundle bit_operations_syntax

section \<open>Flags\<close>

definition CLONE_NEWTIME :: "64 word" where "CLONE_NEWTIME = 0x80"
definition CLONE_VM :: "64 word" where "CLONE_VM = 0x100"
definition CLONE_FS :: "64 word" where "CLONE_FS = 0x200"
definition CLONE_SIGHAND :: "64 word" where "CLONE_SIGHAND = 0x800"
definition CLONE_THREAD :: "64 word" where "CLONE_THREAD = 0x10000"
definition CLONE_NEWNS :: "64 word" where "CLONE_NEWNS = 0x20000"
definition CLONE_SYSVSEM_F :: "64 word" where "CLONE_SYSVSEM_F = 0x40000"
definition CLONE_NEWCGROUP :: "64 word" where "CLONE_NEWCGROUP = 0x2000000"
definition CLONE_NEWUTS :: "64 word" where "CLONE_NEWUTS = 0x4000000"
definition CLONE_NEWIPC :: "64 word" where "CLONE_NEWIPC = 0x8000000"
definition CLONE_NEWUSER :: "64 word" where "CLONE_NEWUSER = 0x10000000"
definition CLONE_NEWPID :: "64 word" where "CLONE_NEWPID = 0x20000000"
definition CLONE_NEWNET :: "64 word" where "CLONE_NEWNET = 0x40000000"

definition NS_FLAGS :: "64 word" where
  "NS_FLAGS = CLONE_NEWNS OR CLONE_NEWUTS OR CLONE_NEWIPC OR CLONE_NEWNET OR CLONE_NEWCGROUP OR CLONE_NEWTIME"

definition NS_ALL :: "64 word" where
  "NS_ALL = CLONE_NEWNS OR CLONE_NEWUTS OR CLONE_NEWIPC OR CLONE_NEWNET OR CLONE_NEWCGROUP OR CLONE_NEWTIME OR CLONE_NEWPID OR CLONE_NEWUSER"

lemmas clone_flags = CLONE_NEWTIME_def CLONE_VM_def CLONE_FS_def CLONE_SIGHAND_def CLONE_THREAD_def CLONE_NEWNS_def CLONE_SYSVSEM_F_def
  CLONE_NEWCGROUP_def CLONE_NEWUTS_def CLONE_NEWIPC_def CLONE_NEWUSER_def CLONE_NEWPID_def CLONE_NEWNET_def

text \<open>\<open>CLONE_SYSVSEM_F\<close> is \<^verbatim>\<open>CLONE_SYSVSEM\<close>; what the module serves itself is taken out before the kernel sees the flags.\<close>

definition inner_flags :: "64 word \<Rightarrow> 64 word" where
  "inner_flags flags = flags AND NOT (CLONE_NEWPID OR CLONE_NEWIPC)"

definition has_flag :: "64 word \<Rightarrow> 64 word \<Rightarrow> bool" where
  "has_flag flags f \<longleftrightarrow> flags AND f \<noteq> 0"

section \<open>The kernel\<close>

type_synonym ns_create = "64 word \<Rightarrow> nat \<Rightarrow> ns_state \<Rightarrow> ns_state \<times> ptr result"
type_synonym ns_copy = "64 word \<Rightarrow> nat \<Rightarrow> ns_state \<Rightarrow> ns_state \<times> errno option"
type_synonym ns_switch = "nat \<Rightarrow> ptr option \<Rightarrow> ns_state \<Rightarrow> ns_state"

text \<open>
  \<^verbatim>\<open>create_new_namespaces\<close>, \<^verbatim>\<open>copy_namespaces\<close>, \<^verbatim>\<open>switch_task_namespaces\<close> (when its address is known),
  \<^verbatim>\<open>exit_task_namespaces\<close>, and the former entries of \<^verbatim>\<open>unshare\<close> and \<^verbatim>\<open>clone\<close>. \<open>nk_check\<close> is
  \<^verbatim>\<open>check_unshare_flags\<close>. \<^verbatim>\<open>exit_task_namespaces\<close> is a call of \<^verbatim>\<open>switch_task_namespaces\<close> with no proxy; \<open>nk_inlined\<close> says
  that the compiler has put the callee into it, so that the hook on \<^verbatim>\<open>switch_task_namespaces\<close> is not passed.
\<close>

record ns_kernel =
  nk_create :: ns_create
  nk_copy :: "ns_create \<Rightarrow> ns_copy"
  nk_switch :: ns_switch
  nk_has_switch :: bool
  nk_inlined :: bool
  nk_exit :: "ns_switch \<Rightarrow> nat \<Rightarrow> ns_state \<Rightarrow> ns_state"
  nk_unshare :: "ns_create \<Rightarrow> ns_switch \<Rightarrow> ns_copy"
  nk_clone :: "ns_copy \<Rightarrow> 64 word \<Rightarrow> nat \<Rightarrow> ns_state \<Rightarrow> ns_state \<times> int"
  nk_check :: "(64 word \<Rightarrow> bool) option"

section \<open>One reference for each proxy\<close>

definition nsproxy_hold :: "ptr option \<Rightarrow> ns_state \<Rightarrow> ns_state" where
  "nsproxy_hold nsp s =
     (case Option.bind nsp (proxy_ipc s) of
        None \<Rightarrow> s
      | Some p \<Rightarrow> if ipcns_is_ours s (Some p) then ipcns_get (Some p) s else s)"

definition nsproxy_drop :: "ipcns_env \<Rightarrow> ptr option \<Rightarrow> ns_state \<Rightarrow> ns_state" where
  "nsproxy_drop e ipc s = (if ipcns_is_ours s ipc then ipcns_put e ipc s else s)"

definition nsproxy_last :: "ptr option \<Rightarrow> ns_state \<Rightarrow> bool" where
  "nsproxy_last nsp s = (case Option.bind nsp (ns_proxies s) of None \<Rightarrow> False | Some x \<Rightarrow> nx_count x = 1)"

text \<open>The shape the two release wrappers share: \<open>run\<close> is the kernel's function.\<close>

definition nsproxy_release :: "ipcns_env \<Rightarrow> nat \<Rightarrow> (ns_state \<Rightarrow> ns_state) \<Rightarrow> ns_state \<Rightarrow> ns_state" where
  "nsproxy_release e t run s =
     (let old = proxy_of s t; last = nsproxy_last old s; ipc = (if last then Option.bind old (proxy_ipc s) else None);
          s = run s
      in if last then nsproxy_drop e ipc s else s)"

definition nsproxy_switch_run :: "ipcns_env \<Rightarrow> ns_switch \<Rightarrow> ns_switch" where
  "nsproxy_switch_run e fn t new s = nsproxy_release e t (fn t new) s"

definition switch_wrap :: "ipcns_env \<Rightarrow> ns_kernel \<Rightarrow> ns_switch" where
  "switch_wrap e K t new s = nsproxy_switch_run e (nk_switch K) t new s"

definition exit_ns_wrap :: "ipcns_env \<Rightarrow> ns_kernel \<Rightarrow> nat \<Rightarrow> ns_state \<Rightarrow> ns_state" where
  "exit_ns_wrap e K t s = nsproxy_release e t (nk_exit K (switch_wrap e K) t) s"

text \<open>The module's own switch; the hook gives the kernel's function when it is installed.\<close>

definition nsproxy_switch :: "ipcns_env \<Rightarrow> ns_kernel \<Rightarrow> ns_switch" where
  "nsproxy_switch e K t new s = (if \<not> nk_has_switch K then s else nsproxy_switch_run e (nk_switch K) t new s)"

section \<open>New namespaces\<close>

definition proxy_pid :: "ns_state \<Rightarrow> ptr \<Rightarrow> ptr option" where
  "proxy_pid s np = Option.bind (pd_nsproxy (ns_pid s) np) np_children"

definition set_proxy_pid :: "ptr \<Rightarrow> ptr option \<Rightarrow> ns_state \<Rightarrow> ns_state" where
  "set_proxy_pid np ns s =
     (case pd_nsproxy (ns_pid s) np of
        None \<Rightarrow> s\<lparr>ns_oops := True\<rparr>
      | Some x \<Rightarrow> s\<lparr>ns_pid := (ns_pid s)\<lparr>pd_nsproxy := (pd_nsproxy (ns_pid s))(np \<mapsto> x\<lparr>np_children := ns\<rparr>)\<rparr>\<rparr>)"

definition on_pid :: "(pidns_state \<Rightarrow> pidns_state) \<Rightarrow> ns_state \<Rightarrow> ns_state" where
  "on_pid f s = s\<lparr>ns_pid := f (ns_pid s)\<rparr>"

text \<open>The namespaces a caller asked for, made before the kernel is called.\<close>

definition new_pid_for :: "ipcns_env \<Rightarrow> nat \<Rightarrow> ns_state \<Rightarrow> ns_state \<times> ptr result" where
  "new_pid_for e t s =
     (case proxy_of s t of
        None \<Rightarrow> (s, Inl EINVAL)
      | Some np \<Rightarrow>
          if Some (pk_active (ni_pid e)) \<noteq> proxy_pid s np then (s, Inl EINVAL)
          else (case pidns_create (ni_pid e) (proxy_pid s np) (ns_pid s) of (d, r) \<Rightarrow> (s\<lparr>ns_pid := d\<rparr>, r)))"

definition new_ns_pair :: "ipcns_env \<Rightarrow> bool \<Rightarrow> bool \<Rightarrow> nat \<Rightarrow> ns_state \<Rightarrow> ns_state \<times> (ptr option \<times> ptr option) result" where
  "new_ns_pair e want_pid want_ipc t s =
     (case (if want_pid then (case new_pid_for e t s of (s, Inl err) \<Rightarrow> (s, Inl err) | (s, Inr p) \<Rightarrow> (s, Inr (Some p))) else (s, Inr None)) of
        (s, Inl err) \<Rightarrow> (s, Inl err)
      | (s, Inr pid) \<Rightarrow>
          if \<not> want_ipc then (s, Inr (pid, None))
          else
            (case ipcns_create e s of
               (s, Inl err) \<Rightarrow> (on_pid (pidns_put pid) s, Inl err)
             | (s, Inr i) \<Rightarrow> (s, Inr (pid, Some i))))"

definition put_pair :: "ipcns_env \<Rightarrow> ptr option \<Rightarrow> ptr option \<Rightarrow> ns_state \<Rightarrow> ns_state" where
  "put_pair e pid ipc s = ipcns_put e ipc (on_pid (pidns_put pid) s)"

text \<open>The new namespaces go into a proxy; one that keeps the old ipc namespace gets a reference.\<close>

definition fill_proxy :: "ptr \<Rightarrow> ptr option \<Rightarrow> ptr option \<Rightarrow> ns_state \<Rightarrow> ns_state" where
  "fill_proxy np pid ipc s =
     (let s = (if pid = None then s else set_proxy_pid np pid s)
      in if ipc = None then nsproxy_hold (Some np) s else set_proxy_ipc np ipc s)"

definition cnn_hold :: "ns_kernel \<Rightarrow> ns_create" where
  "cnn_hold K flags t s =
     (case nk_create K flags t s of (s, Inl err) \<Rightarrow> (s, Inl err) | (s, Inr np) \<Rightarrow> (nsproxy_hold (Some np) s, Inr np))"

definition cnn_wrap :: "ipcns_env \<Rightarrow> ns_kernel \<Rightarrow> ns_create" where
  "cnn_wrap e K flags t s =
     (let want_pid = has_flag flags CLONE_NEWPID; want_ipc = has_flag flags CLONE_NEWIPC
      in if \<not> want_pid \<and> \<not> want_ipc \<or> \<not> ni_gate e then cnn_hold K flags t s
         else
           (case new_ns_pair e want_pid want_ipc t s of
              (s, Inl err) \<Rightarrow> (s, Inl err)
            | (s, Inr (pid, ipc)) \<Rightarrow>
                (case nk_create K (inner_flags flags) t s of
                   (s, Inl err) \<Rightarrow> (put_pair e pid ipc s, Inl err)
                 | (s, Inr np) \<Rightarrow> (fill_proxy np pid ipc s, Inr np))))"

definition cn_wrap :: "ipcns_env \<Rightarrow> ns_kernel \<Rightarrow> ns_copy" where
  "cn_wrap e K flags t s =
     (let want_pid = has_flag flags CLONE_NEWPID; want_ipc = has_flag flags CLONE_NEWIPC; inner = inner_flags flags;
          call = nk_copy K (cnn_wrap e K);
          held = (\<lambda>r. case r of (s, None) \<Rightarrow> (nsproxy_hold (proxy_of s t) s, None) | (s, Some err) \<Rightarrow> (s, Some err))
      in if \<not> want_pid \<and> \<not> want_ipc then held (call flags t s)
         else if \<not> nk_has_switch K then call flags t s
         else if \<not> ni_gate e then held (call flags t s)
         else if flags AND (CLONE_NEWIPC OR CLONE_SYSVSEM_F) = CLONE_NEWIPC OR CLONE_SYSVSEM_F then call flags t s
         else
           (case new_ns_pair e want_pid want_ipc t s of
              (s, Inl err) \<Rightarrow> (s, Some err)
            | (s, Inr (pid, ipc)) \<Rightarrow>
                (case call inner t s of
                   (s, Some err) \<Rightarrow> (put_pair e pid ipc s, Some err)
                 | (s, None) \<Rightarrow>
                     (case (if has_flag inner NS_FLAGS then (s, Inr ())
                            else (case nk_create K 0 t s of
                                    (s, Inl err) \<Rightarrow> (put_pair e pid ipc s, Inl err)
                                  | (s, Inr priv) \<Rightarrow> (switch_wrap e K t (Some priv) s, Inr ()))) of
                        (s, Inl err) \<Rightarrow> (s, Some err)
                      | (s, Inr _) \<Rightarrow>
                          (case proxy_of s t of
                             None \<Rightarrow> (s\<lparr>ns_oops := True\<rparr>, None)
                           | Some np \<Rightarrow> (fill_proxy np pid ipc s, None))))))"

definition slot_install_ipcns :: "ipcns_env \<Rightarrow> ns_state \<Rightarrow> ns_state \<times> errno option" where
  "slot_install_ipcns e s =
     (case ipcns_create e s of
        (s, Inl err) \<Rightarrow> (s, Some err)
      | (s, Inr p) \<Rightarrow>
          (case proxy_of s (pk_task (ni_pid e)) of
             None \<Rightarrow> (ipcns_put e (Some p) s, Some EINVAL)
           | Some np \<Rightarrow> (set_proxy_ipc np (Some p) s, None)))"

section \<open>unshare\<close>

definition unshare_precheck :: "ipcns_env \<Rightarrow> ns_kernel \<Rightarrow> 64 word \<Rightarrow> ns_state \<Rightarrow> bool" where
  "unshare_precheck e K flags s =
     (let f = flags;
          f = (if has_flag f CLONE_NEWUSER then f OR CLONE_THREAD OR CLONE_FS else f);
          f = (if has_flag f CLONE_VM then f OR CLONE_SIGHAND else f);
          f = (if has_flag f CLONE_SIGHAND then f OR CLONE_THREAD else f);
          f = (if has_flag f CLONE_NEWNS then f OR CLONE_FS else f)
      in if (case nk_check K of None \<Rightarrow> False | Some check \<Rightarrow> check f) then False
         else if has_flag flags NS_ALL \<and> \<not> pk_capable (ni_pid e) (pk_cred_ns (ni_pid e)) then False
         else if has_flag flags CLONE_NEWPID \<and> (case proxy_of s (pk_task (ni_pid e)) of None \<Rightarrow> False | Some np \<Rightarrow> Some (pk_active (ni_pid e)) \<noteq> proxy_pid s np)
         then False
         else True)"

text \<open>The release of a task's own semaphore adjustments and segments, done by \<^verbatim>\<open>ipc_sem.c\<close> and \<^verbatim>\<open>ipc_shm.c\<close>; here, that it is called.\<close>

datatype exit_call = ExitSem | ExitShm

definition exit_calls :: "64 word \<Rightarrow> exit_call list" where
  "exit_calls flags =
     (if has_flag flags (CLONE_NEWIPC OR CLONE_SYSVSEM_F) then [ExitSem] else []) @ (if has_flag flags CLONE_NEWIPC then [ExitShm] else [])"

definition unshare_legacy :: "ipcns_env \<Rightarrow> ns_kernel \<Rightarrow> 64 word \<Rightarrow> ns_state \<Rightarrow> ns_state \<times> exit_call list \<times> errno option" where
  "unshare_legacy e K flags s =
     (let inner = inner_flags flags;
          inner = (if has_flag inner NS_FLAGS then inner else inner OR CLONE_NEWUTS)
      in case nk_unshare K (nk_create K) (switch_wrap e K) inner (pk_task (ni_pid e)) s of
           (s, Some err) \<Rightarrow> (s, [], Some err)
         | (s, None) \<Rightarrow>
             (case (if has_flag flags CLONE_NEWIPC then slot_install_ipcns e s else (s, None)) of
                (s, Some err) \<Rightarrow> (s, exit_calls flags, Some err)
              | (s, None) \<Rightarrow>
                  (case (if has_flag flags CLONE_NEWPID then slot_install_pidns (ni_pid e) (ns_pid s) else (ns_pid s, Inr ())) of
                     (d, r) \<Rightarrow>
                       (s\<lparr>ns_pid := keepalive_pin True d\<rparr>, exit_calls flags, case r of Inl err \<Rightarrow> Some err | Inr _ \<Rightarrow> None))))"

definition sys_unshare :: "ipcns_env \<Rightarrow> ns_kernel \<Rightarrow> bool \<Rightarrow> bool \<Rightarrow> 64 word \<Rightarrow> ns_state \<Rightarrow> ns_state \<times> exit_call list \<times> errno option" where
  "sys_unshare e K hooked no_fake_ns flags s =
     (let t = pk_task (ni_pid e);
          orig = (\<lambda>s. nk_unshare K (if hooked then cnn_wrap e K else nk_create K) (switch_wrap e K) flags t s)
      in if \<not> has_flag flags (CLONE_NEWPID OR CLONE_NEWIPC OR CLONE_SYSVSEM_F) then (case orig s of (s, r) \<Rightarrow> (s, [], r))
         else if \<not> ni_gate e then (case orig s of (s, r) \<Rightarrow> (s, [], r))
         else if no_fake_ns then (s, [], None)
         else if \<not> hooked then unshare_legacy e K flags s
         else if \<not> unshare_precheck e K flags s then (case orig s of (s, r) \<Rightarrow> (s, [], r))
         else
           (case orig s of
              (s, None) \<Rightarrow> (on_pid (keepalive_pin True) s, exit_calls flags, None)
            | (s, Some err) \<Rightarrow> (s, exit_calls flags, Some err)))"

section \<open>clone and clone3\<close>

text \<open>What \<^verbatim>\<open>droid_lkm_clone_ctx\<close> keeps: the caller's own namespaces.\<close>

record clone_ctx =
  cx_pid :: "ptr option"
  cx_ipc :: "ptr option"

definition clone_ctx_enter :: "ipcns_env \<Rightarrow> ns_kernel \<Rightarrow> 64 word \<Rightarrow> ns_state \<Rightarrow> ns_state \<times> clone_ctx result" where
  "clone_ctx_enter e K flags s =
     (let t = pk_task (ni_pid e)
      in case new_ns_pair e (has_flag flags CLONE_NEWPID) (has_flag flags CLONE_NEWIPC) t s of
           (s, Inl err) \<Rightarrow> (s, Inl err)
         | (s, Inr (pid, ipc)) \<Rightarrow>
             (case nk_create K 0 t s of
                (s, Inl err) \<Rightarrow> (put_pair e pid ipc s, Inl err)
              | (s, Inr priv) \<Rightarrow>
                  (let s = switch_wrap e K t (Some priv) s;
                       ctx = \<lparr>cx_pid = proxy_pid s priv, cx_ipc = proxy_ipc s priv\<rparr>;
                       s = (if pid = None then s else set_proxy_pid priv pid s)
                   in (if ipc = None then s else set_proxy_ipc priv ipc s, Inr ctx))))"

definition clone_ctx_leave :: "ipcns_env \<Rightarrow> ns_kernel \<Rightarrow> clone_ctx \<Rightarrow> ns_state \<Rightarrow> ns_state" where
  "clone_ctx_leave e K ctx s =
     (let t = pk_task (ni_pid e);
          back = (\<lambda>np s. set_proxy_ipc np (cx_ipc ctx) (set_proxy_pid np (cx_pid ctx) s))
      in case nk_create K 0 t s of
           (s, Inl _) \<Rightarrow> (case proxy_of s t of None \<Rightarrow> s\<lparr>ns_oops := True\<rparr> | Some np \<Rightarrow> back np s)
         | (s, Inr np) \<Rightarrow> nsproxy_switch e K t (Some np) (back np s))"

definition clone_ns_check :: "64 word \<Rightarrow> errno option" where
  "clone_ns_check flags =
     (if has_flag flags CLONE_THREAD \<and> has_flag flags (CLONE_NEWUSER OR CLONE_NEWPID) then Some EINVAL
      else if flags AND (CLONE_NEWIPC OR CLONE_SYSVSEM_F) = CLONE_NEWIPC OR CLONE_SYSVSEM_F then Some EINVAL
      else None)"

definition clone_ns_ready :: "ipcns_env \<Rightarrow> ns_kernel \<Rightarrow> bool \<Rightarrow> 64 word \<Rightarrow> bool" where
  "clone_ns_ready e K hooked flags \<longleftrightarrow> has_flag flags (CLONE_NEWPID OR CLONE_NEWIPC) \<and> hooked \<and> nk_has_switch K \<and> ni_gate e"

datatype clone_answer = Answer int | Refused errno

definition sys_clone :: "ipcns_env \<Rightarrow> ns_kernel \<Rightarrow> bool \<Rightarrow> 64 word \<Rightarrow> ns_state \<Rightarrow> ns_state \<times> clone_answer" where
  "sys_clone e K hooked flags s =
     (let t = pk_task (ni_pid e); orig = nk_clone K (cn_wrap e K)
      in if \<not> clone_ns_ready e K hooked flags then (case orig flags t s of (s, r) \<Rightarrow> (s, Answer r))
         else
           (case clone_ns_check flags of
              Some err \<Rightarrow> (s, Refused err)
            | None \<Rightarrow>
                (case clone_ctx_enter e K flags s of
                   (s, Inl err) \<Rightarrow> (s, Refused err)
                 | (s, Inr ctx) \<Rightarrow>
                     (case orig (inner_flags flags) t s of
                        (s, r) \<Rightarrow> (clone_ctx_leave e K ctx s, Answer r)))))"

text \<open>\<open>args\<close>: the flags the caller's structure holds, if it can be read; \<open>writable\<close>: whether it can be written.\<close>

definition sys_clone3 :: "ipcns_env \<Rightarrow> ns_kernel \<Rightarrow> bool \<Rightarrow> 64 word option \<Rightarrow> bool \<Rightarrow> 64 word \<Rightarrow> ns_state \<Rightarrow> ns_state \<times> clone_answer" where
  "sys_clone3 e K hooked args writable seen s =
     (let t = pk_task (ni_pid e); orig = nk_clone K (cn_wrap e K)
      in case args of
           None \<Rightarrow> (case orig seen t s of (s, r) \<Rightarrow> (s, Answer r))
         | Some flags \<Rightarrow>
             if \<not> clone_ns_ready e K hooked flags then (case orig flags t s of (s, r) \<Rightarrow> (s, Answer r))
             else
               (case clone_ns_check flags of
                  Some err \<Rightarrow> (s, Refused err)
                | None \<Rightarrow>
                    (case clone_ctx_enter e K flags s of
                       (s, Inl err) \<Rightarrow> (s, Refused err)
                     | (s, Inr ctx) \<Rightarrow>
                         if \<not> writable then (clone_ctx_leave e K ctx s, Refused EFAULT)
                         else
                           (case orig (inner_flags flags) t s of
                              (s, r) \<Rightarrow> (clone_ctx_leave e K ctx s, Answer r)))))"

end
