(* ===== verification/UnsLife.thy ===== *)
theory UnsLife
  imports UnsText NsProxy
begin

text \<open>
  The user namespaces of the module (\<^verbatim>\<open>src/src/misc/userns\<close>: \<^verbatim>\<open>userns_core.c\<close>, \<^verbatim>\<open>userns_cred.c\<close>,
  \<^verbatim>\<open>userns_hooks.c\<close>, \<^verbatim>\<open>userns_owner.c\<close>, \<^verbatim>\<open>userns_nsops.c\<close> and the lookup of \<^verbatim>\<open>userns_proc.c\<close>).

  The kernel has no user namespaces, so it neither counts references to one nor releases it. \<open>us_oops\<close> is set where the
  code follows a pointer to nothing.
\<close>

section \<open>State\<close>

definition init_user_ns :: ptr where "init_user_ns = 0"

definition CAP_SYS_ADMIN :: nat where "CAP_SYS_ADMIN = 21"
definition CAP_SETFCAP :: nat where "CAP_SETFCAP = 31"
definition CAP_FULL_SET :: "nat set" where "CAP_FULL_SET = {0..40}"
definition USERNS_INIT_FLAGS :: nat where "USERNS_INIT_FLAGS = 1"

record user_namespace =
  un_parent :: ptr
  un_level :: nat
  un_owner :: nat
  un_group :: nat
  un_flags :: nat
  un_setfcap :: bool
  un_inum :: nat
  un_uid_map :: uid_gid_map
  un_gid_map :: uid_gid_map
  un_map_written :: bool

record user_cred =
  uc_ns :: ptr
  uc_euid :: nat
  uc_egid :: nat
  uc_securebits :: nat
  uc_inheritable :: "nat set"
  uc_permitted :: "nat set"
  uc_effective :: "nat set"
  uc_ambient :: "nat set"
  uc_bset :: "nat set"
  uc_key :: "nat option"

record uns_state =
  us_heap :: "ptr \<rightharpoonup> user_namespace"
  us_list :: "ptr list"
  us_inums :: "nat set"
  us_cred :: "nat \<Rightarrow> user_cred"
  us_keys :: "nat \<Rightarrow> int"
  us_oops :: bool

text \<open>The caller, the allocations, whether \<^verbatim>\<open>prepare_creds\<close> succeeds, and the answer of the hooked function of the kernel.\<close>

record uns_env =
  ut_task :: nat
  ut_alloc :: kmalloc
  ut_inum :: "nat result"
  ut_creds :: bool
  ut_kernel :: "64 word \<Rightarrow> errno option"

section \<open>Namespaces\<close>

definition userns_is_ours :: "uns_state \<Rightarrow> ptr \<Rightarrow> bool" where
  "userns_is_ours s p \<longleftrightarrow> p \<in> set (us_list s)"

definition userns_of :: "uns_state \<Rightarrow> nat \<Rightarrow> ptr option" where
  "userns_of s t = (let p = uc_ns (us_cred s t) in if userns_is_ours s p then Some p else None)"

definition new_userns :: "user_cred \<Rightarrow> ptr \<Rightarrow> nat \<Rightarrow> nat \<Rightarrow> nat \<Rightarrow> user_namespace" where
  "new_userns c parent level flags inum =
     \<lparr>un_parent = parent, un_level = level, un_owner = uc_euid c, un_group = uc_egid c, un_flags = flags, un_setfcap = CAP_SETFCAP \<in> uc_effective c,
      un_inum = inum, un_uid_map = map_identity empty_map, un_gid_map = map_identity empty_map, un_map_written = True\<rparr>"

definition userns_create :: "uns_env \<Rightarrow> ptr option \<Rightarrow> uns_state \<Rightarrow> uns_state \<times> ptr option" where
  "userns_create e parent s =
     (case (case parent of None \<Rightarrow> Some None | Some q \<Rightarrow> map_option (\<lambda>n. Some (q, n)) (us_heap s q)) of
        None \<Rightarrow> (s\<lparr>us_oops := True\<rparr>, None)
      | Some par \<Rightarrow>
          if (case par of None \<Rightarrow> False | Some (q, n) \<Rightarrow> un_level n > 32) then (s, None)
          else
            (case ut_alloc e (\<lambda>p. p = init_user_ns \<or> us_heap s p \<noteq> None) of
               None \<Rightarrow> (s, None)
             | Some p \<Rightarrow>
                 (case ut_inum e of
                    Inl _ \<Rightarrow> (s, None)
                  | Inr inum \<Rightarrow>
                      (let n = (case par of
                                  None \<Rightarrow> new_userns (us_cred s (ut_task e)) init_user_ns 1 USERNS_INIT_FLAGS inum
                                | Some (q, m) \<Rightarrow> new_userns (us_cred s (ut_task e)) q (un_level m + 1) (un_flags m) inum)
                       in (s\<lparr>us_heap := (us_heap s)(p \<mapsto> n), us_list := us_list s @ [p], us_inums := insert inum (us_inums s)\<rparr>, Some p)))))"

definition userns_destroy :: "ptr \<Rightarrow> uns_state \<Rightarrow> uns_state" where
  "userns_destroy p s =
     (case us_heap s p of
        None \<Rightarrow> s\<lparr>us_oops := True\<rparr>
      | Some n \<Rightarrow> s\<lparr>us_list := remove1 p (us_list s), us_inums := us_inums s - {un_inum n}, us_heap := (us_heap s)(p := None)\<rparr>)"

definition userns_live :: "uns_state \<Rightarrow> nat" where
  "userns_live s = length (us_list s)"

text \<open>Unload: the list from its head.\<close>

fun userns_exit_loop :: "ptr list \<Rightarrow> uns_state \<Rightarrow> uns_state" where
  "userns_exit_loop [] s = s"
| "userns_exit_loop (p # ps) s = userns_exit_loop ps (userns_destroy p s)"

definition userns_exit :: "uns_state \<Rightarrow> uns_state" where
  "userns_exit s = userns_exit_loop (us_list s) s"

section \<open>Credentials\<close>

definition install_cred :: "ptr \<Rightarrow> user_cred \<Rightarrow> user_cred" where
  "install_cred p c =
     c\<lparr>uc_securebits := 0, uc_inheritable := {}, uc_permitted := CAP_FULL_SET, uc_effective := CAP_FULL_SET, uc_ambient := {}, uc_bset := CAP_FULL_SET,
       uc_key := None, uc_ns := p\<rparr>"

definition put_key :: "nat option \<Rightarrow> uns_state \<Rightarrow> uns_state" where
  "put_key k s = (case k of None \<Rightarrow> s | Some k \<Rightarrow> s\<lparr>us_keys := (us_keys s)(k := us_keys s k - 1)\<rparr>)"

definition userns_install_cred :: "nat \<Rightarrow> ptr \<Rightarrow> uns_state \<Rightarrow> uns_state" where
  "userns_install_cred t p s =
     (let c = us_cred s t; s = put_key (uc_key c) s in s\<lparr>us_cred := (us_cred s)(t := install_cred p c)\<rparr>)"

definition userns_install_current :: "uns_env \<Rightarrow> ptr \<Rightarrow> uns_state \<Rightarrow> uns_state \<times> errno option" where
  "userns_install_current e p s = (if \<not> ut_creds e then (s, Some ENOMEM) else (userns_install_cred (ut_task e) p s, None))"

section \<open>The hooked functions\<close>

definition userns_unshare_wrap :: "uns_env \<Rightarrow> 64 word \<Rightarrow> uns_state \<Rightarrow> uns_state \<times> errno option" where
  "userns_unshare_wrap e flags s =
     (if \<not> has_flag flags CLONE_NEWUSER then (s, ut_kernel e flags)
      else if has_flag flags CLONE_FS then (s, Some EINVAL)
      else
        (case userns_create e (userns_of s (ut_task e)) s of
           (s, None) \<Rightarrow> (s, Some ENOMEM)
         | (s, Some p) \<Rightarrow>
             (case ut_kernel e (flags AND NOT CLONE_NEWUSER) of
                Some err \<Rightarrow> (userns_destroy p s, Some err)
              | None \<Rightarrow> userns_install_current e p s)))"

text \<open>\<^verbatim>\<open>copy_creds\<close> gives the child a copy of the caller's credentials (a thread shares them).\<close>

definition copy_creds :: "uns_env \<Rightarrow> nat \<Rightarrow> 64 word \<Rightarrow> uns_state \<Rightarrow> uns_state \<times> errno option" where
  "copy_creds e child flags s =
     (case ut_kernel e flags of
        Some err \<Rightarrow> (s, Some err)
      | None \<Rightarrow> (s\<lparr>us_cred := (us_cred s)(child := us_cred s (ut_task e))\<rparr>, None))"

definition userns_creds_wrap :: "uns_env \<Rightarrow> nat \<Rightarrow> 64 word \<Rightarrow> uns_state \<Rightarrow> uns_state \<times> errno option" where
  "userns_creds_wrap e child flags s =
     (if \<not> has_flag flags CLONE_NEWUSER \<or> has_flag flags CLONE_THREAD then copy_creds e child flags s
      else
        (case userns_create e (userns_of s (ut_task e)) s of
           (s, None) \<Rightarrow> (s, Some ENOMEM)
         | (s, Some p) \<Rightarrow>
             (case copy_creds e child (flags AND NOT CLONE_NEWUSER) s of
                (s, Some err) \<Rightarrow> (userns_destroy p s, Some err)
              | (s, None) \<Rightarrow> (userns_install_cred child p s, None))))"

text \<open>The owners a new set of namespaces records; \<open>create\<close> is \<^verbatim>\<open>create_new_namespaces\<close>, \<open>orig\<close> the hooked function.\<close>

record ns_owners =
  no_uts :: ptr
  no_net :: ptr
  no_cgroup :: ptr
  no_time :: "ptr option"

definition userns_nsproxy_wrap ::
  "uns_env \<Rightarrow> 64 word \<Rightarrow> bool \<Rightarrow> (64 word \<Rightarrow> ns_owners result) \<Rightarrow> (64 word \<Rightarrow> ns_owners result) \<Rightarrow> uns_state \<Rightarrow> ns_owners result" where
  "userns_nsproxy_wrap e flags new_cred create orig s =
     (case userns_of s (ut_task e) of
        None \<Rightarrow> orig flags
      | Some p \<Rightarrow>
          if new_cred \<or> CAP_SYS_ADMIN \<notin> uc_effective (us_cred s (ut_task e)) then orig flags
          else
            (case create flags of
               Inl err \<Rightarrow> Inl err
             | Inr w \<Rightarrow>
                 (let w = (if has_flag flags CLONE_NEWUTS then w\<lparr>no_uts := p\<rparr> else w);
                      w = (if has_flag flags CLONE_NEWNET then w\<lparr>no_net := p\<rparr> else w);
                      w = (if has_flag flags CLONE_NEWCGROUP then w\<lparr>no_cgroup := p\<rparr> else w)
                  in Inr (if has_flag flags CLONE_NEWTIME \<and> no_time w \<noteq> None then w\<lparr>no_time := Some p\<rparr> else w))))"

text \<open>\<open>idmapped\<close>: the mount has a map of its own, when the kernel tells.\<close>

definition userns_inodecap_wrap :: "uns_env \<Rightarrow> bool \<Rightarrow> bool \<Rightarrow> 32 word \<Rightarrow> 32 word \<Rightarrow> nat \<Rightarrow> uns_state \<Rightarrow> bool" where
  "userns_inodecap_wrap e orig idmapped uid gid cap s =
     (if orig then True
      else if idmapped then False
      else
        (case userns_of s (ut_task e) of
           None \<Rightarrow> False
         | Some p \<Rightarrow>
             if cap \<notin> uc_effective (us_cred s (ut_task e)) then False
             else (case us_heap s p of None \<Rightarrow> False | Some n \<Rightarrow> userns_map_ok (un_uid_map n) uid \<and> userns_map_ok (un_uid_map n) gid)))"

section \<open>The owner of a mount namespace\<close>

text \<open>
  The mount namespace is private to the kernel: words of memory by their offset, \<open>None\<close> where a
  read faults, and the kernel's \<^verbatim>\<open>mntns_owner\<close> as \<open>owner\<close>. The field is searched for once.
\<close>

type_synonym ns_memory = "nat \<Rightarrow> ptr option"

definition MNT_SCAN :: nat where "MNT_SCAN = 128"

definition mnt_try :: "(ns_memory \<Rightarrow> ptr) \<Rightarrow> nat \<Rightarrow> ptr \<Rightarrow> ns_memory \<Rightarrow> ns_memory \<times> errno option" where
  "mnt_try owner off want m =
     (case m off of
        None \<Rightarrow> (m, Some EFAULT)
      | Some old \<Rightarrow>
          if old \<noteq> init_user_ns then (m, Some ENOENT)
          else if owner (m(off \<mapsto> want)) = want then (m(off \<mapsto> want), None)
          else ((m(off \<mapsto> want))(off \<mapsto> old), Some EINVAL))"

fun mnt_scan :: "(ns_memory \<Rightarrow> ptr) \<Rightarrow> nat list \<Rightarrow> ptr \<Rightarrow> ns_memory \<Rightarrow> ns_memory \<times> nat option" where
  "mnt_scan owner [] want m = (m, None)"
| "mnt_scan owner (off # offs) want m =
     (case mnt_try owner off want m of
        (m, None) \<Rightarrow> (m, Some off)
      | (m, Some _) \<Rightarrow> mnt_scan owner offs want m)"

text \<open>\<open>base\<close>: the size of the common part; \<open>known\<close>: the offset found before, 0 for none; \<open>ops\<close>: it is a mount namespace.\<close>

definition scan_offsets :: "nat \<Rightarrow> nat list" where
  "scan_offsets base = (if base > MNT_SCAN then [] else map (\<lambda>i. base + 8 * i) [0..<(MNT_SCAN - base) div 8 + 1])"

definition mnt_own :: "(ns_memory \<Rightarrow> ptr) \<Rightarrow> nat \<Rightarrow> bool \<Rightarrow> ptr \<Rightarrow> nat \<times> ns_memory \<Rightarrow> (nat \<times> ns_memory) \<times> errno option" where
  "mnt_own owner base ops want km =
     (case km of (known, m) \<Rightarrow>
        if \<not> ops then ((known, m), Some EINVAL)
        else if owner m = want then ((known, m), None)
        else if known \<noteq> 0 then (case mnt_try owner known want m of (m, r) \<Rightarrow> ((known, m), r))
        else
          (case mnt_scan owner (scan_offsets base) want m of
             (m, Some off) \<Rightarrow> ((off, m), None)
           | (m, None) \<Rightarrow> ((known, m), Some (EOTHER 524))))"

text \<open>The result of the hooked function, \<open>None\<close> before its address is known.\<close>

definition copymntns_wrap ::
  "(ns_memory \<Rightarrow> ptr) \<Rightarrow> nat \<Rightarrow> 64 word \<Rightarrow> ptr \<Rightarrow> (bool \<times> ns_memory) result option \<Rightarrow> uns_state \<Rightarrow> nat \<Rightarrow> nat \<times> (bool \<times> ns_memory) result" where
  "copymntns_wrap owner base flags user_ns r s known =
     (case r of
        None \<Rightarrow> (known, Inl EAGAIN)
      | Some (Inl err) \<Rightarrow> (known, Inl err)
      | Some (Inr (ops, m)) \<Rightarrow>
          if \<not> has_flag flags CLONE_NEWNS \<or> \<not> userns_is_ours s user_ns then (known, Inr (ops, m))
          else (case mnt_own owner base ops user_ns (known, m) of ((known, m), _) \<Rightarrow> (known, Inr (ops, m))))"

definition fsctx_wrap :: "uns_env \<Rightarrow> ptr result option \<Rightarrow> uns_state \<Rightarrow> ptr result" where
  "fsctx_wrap e fc s =
     (case fc of
        None \<Rightarrow> Inl EAGAIN
      | Some (Inl err) \<Rightarrow> Inl err
      | Some (Inr owner) \<Rightarrow> (case userns_of s (ut_task e) of None \<Rightarrow> Inr owner | Some p \<Rightarrow> Inr p))"

section \<open>The namespace files\<close>

text \<open>\<open>None\<close> is the placeholder of the tasks in the initial namespace.\<close>

definition userns_get :: "uns_state \<Rightarrow> nat \<Rightarrow> ptr option" where
  "userns_get s t = userns_of s t"

definition userns_install :: "errno option" where "userns_install = Some EINVAL"

definition userns_owner :: "uns_state \<Rightarrow> ptr option \<Rightarrow> ptr option" where
  "userns_owner s ns = Option.bind ns (\<lambda>p. map_option un_parent (us_heap s p))"

definition userns_get_parent :: "uns_state \<Rightarrow> ptr option \<Rightarrow> ptr result" where
  "userns_get_parent s ns = (case ns of None \<Rightarrow> Inl EPERM | Some p \<Rightarrow> (case us_heap s p of None \<Rightarrow> Inl EPERM | Some n \<Rightarrow> Inr (un_parent n)))"

section \<open>The files of a process directory\<close>

datatype id_file = UidMap | GidMap | SetGroups

definition id_file_of :: "string \<Rightarrow> id_file option" where
  "id_file_of name = map_of [(''uid_map'', UidMap), (''gid_map'', GidMap), (''setgroups'', SetGroups)] name"

text \<open>
  \<open>orig\<close>: what the kernel's own lookup said; \<open>nr\<close>: the number the directory's name stands for; \<open>find\<close>: the task with
  it. A file made here has the namespace of the task's credentials.
\<close>

datatype proc_entry = KernelEntry "nat option" | ProcError errno | IdFile id_file ptr

definition userns_proc_lookup :: "nat option result \<Rightarrow> string \<Rightarrow> nat option \<Rightarrow> (nat \<Rightarrow> nat option) \<Rightarrow> bool \<Rightarrow> uns_state \<Rightarrow> proc_entry" where
  "userns_proc_lookup orig name nr find_task inode s =
     (case orig of
        Inr d \<Rightarrow> KernelEntry d
      | Inl err \<Rightarrow>
          if err \<noteq> ENOENT then ProcError err
          else
            (case id_file_of name of
               None \<Rightarrow> ProcError err
             | Some f \<Rightarrow>
                 (case Option.bind nr find_task of
                    None \<Rightarrow> ProcError err
                  | Some t \<Rightarrow> if inode then IdFile f (uc_ns (us_cred s t)) else ProcError ENOENT)))"

definition userns_proc_tgid_lookup ::
  "nat option result option \<Rightarrow> string \<Rightarrow> nat option \<Rightarrow> (nat \<Rightarrow> nat option) \<Rightarrow> bool \<Rightarrow> uns_state \<Rightarrow> proc_entry" where
  "userns_proc_tgid_lookup orig name nr find_task inode s =
     (case orig of None \<Rightarrow> ProcError ENOENT | Some d \<Rightarrow> userns_proc_lookup d name nr find_task inode s)"

end
