(* ===== verification/UnsKeep.thy ===== *)
theory UnsKeep
  imports UnsLife
begin

text \<open>The user namespaces over time: what the hooked functions and the kernel do as steps, the invariant, and unload.\<close>

section \<open>Steps\<close>

definition inum_free :: "uns_env \<Rightarrow> uns_state \<Rightarrow> bool" where
  "inum_free e s \<longleftrightarrow> (\<forall>i. ut_inum e = Inr i \<longrightarrow> i \<notin> us_inums s)"

text \<open>The kernel changes credentials in other ways too (\<^verbatim>\<open>setuid\<close>, \<^verbatim>\<open>execve\<close>), never their namespace, and tasks end.\<close>

inductive uns_step :: "uns_state \<Rightarrow> uns_state \<Rightarrow> bool" where
  unshare: "\<lbrakk>kmalloc_ok (ut_alloc e); inum_free e s; userns_unshare_wrap e f s = (s', r)\<rbrakk> \<Longrightarrow> uns_step s s'"
| fork: "\<lbrakk>kmalloc_ok (ut_alloc e); inum_free e s; userns_creds_wrap e c f s = (s', r)\<rbrakk> \<Longrightarrow> uns_step s s'"
| cred_change: "uc_ns c = uc_ns (us_cred s t) \<Longrightarrow> uns_step s (s\<lparr>us_cred := (us_cred s)(t := c)\<rparr>)"
| task_end: "uc_ns c = init_user_ns \<Longrightarrow> uns_step s (s\<lparr>us_cred := (us_cred s)(t := c)\<rparr>)"
| keys: "uns_step s (s\<lparr>us_keys := k\<rparr>)"

definition uns_boot :: "uns_state \<Rightarrow> bool" where
  "uns_boot s \<longleftrightarrow> us_heap s = Map.empty \<and> us_list s = [] \<and> \<not> us_oops s \<and> (\<forall>t. uc_ns (us_cred s t) = init_user_ns)"

definition uns_reachable :: "uns_state \<Rightarrow> bool" where
  "uns_reachable s \<longleftrightarrow> (\<exists>b. uns_boot b \<and> uns_step\<^sup>*\<^sup>* b s)"

section \<open>The invariant\<close>

definition uns_node_ok :: "uns_state \<Rightarrow> user_namespace \<Rightarrow> bool" where
  "uns_node_ok s n \<longleftrightarrow> un_inum n \<in> us_inums s \<and> un_level n \<le> 33 \<and> un_uid_map n = map_identity empty_map \<and> un_gid_map n = map_identity empty_map
     \<and> (un_parent n = init_user_ns \<and> un_level n = 1 \<or> (\<exists>m. us_heap s (un_parent n) = Some m \<and> un_level n = un_level m + 1))"

definition uns_inv :: "uns_state \<Rightarrow> bool" where
  "uns_inv s \<longleftrightarrow> \<not> us_oops s \<and> distinct (us_list s) \<and> set (us_list s) = dom (us_heap s) \<and> us_heap s init_user_ns = None
     \<and> (\<forall>t. uc_ns (us_cred s t) = init_user_ns \<or> us_heap s (uc_ns (us_cred s t)) \<noteq> None)
     \<and> (\<forall>p n. us_heap s p = Some n \<longrightarrow> uns_node_ok s n)"

lemma uns_parts:
  assumes "uns_inv s"
  shows "\<not> us_oops s" "distinct (us_list s)" "set (us_list s) = dom (us_heap s)" "us_heap s init_user_ns = None"
    "uc_ns (us_cred s t) = init_user_ns \<or> us_heap s (uc_ns (us_cred s t)) \<noteq> None" "us_heap s p = Some n \<Longrightarrow> uns_node_ok s n"
  using assms unfolding uns_inv_def by (blast, blast, blast, blast, blast, blast)

lemma uns_creds_inv:
  assumes inv: "uns_inv s" and t: "us_heap t = us_heap s" "us_list t = us_list s" "us_inums t = us_inums s" "us_oops t = us_oops s"
    and c: "\<And>u. uc_ns (us_cred t u) = init_user_ns \<or> us_heap s (uc_ns (us_cred t u)) \<noteq> None"
  shows "uns_inv t"
  using uns_parts(1-4,6) [OF inv] c unfolding uns_inv_def uns_node_ok_def t by blast

text \<open>A creation adds one namespace below the caller's.\<close>

lemma userns_of_there: "uns_inv s \<Longrightarrow> userns_of s t = Some q \<Longrightarrow> us_heap s q \<noteq> None \<and> uc_ns (us_cred s t) = q"
  using uns_parts(3) [of s] by (auto simp: userns_of_def userns_is_ours_def Let_def split: if_splits)

definition made_userns :: "uns_env \<Rightarrow> ptr option \<Rightarrow> uns_state \<Rightarrow> nat \<Rightarrow> user_namespace" where
  "made_userns e parent s i =
     (case Option.bind parent (us_heap s) of
        None \<Rightarrow> new_userns (us_cred s (ut_task e)) init_user_ns 1 USERNS_INIT_FLAGS i
      | Some m \<Rightarrow> new_userns (us_cred s (ut_task e)) (the parent) (un_level m + 1) (un_flags m) i)"

definition with_userns :: "ptr \<Rightarrow> user_namespace \<Rightarrow> uns_state \<Rightarrow> uns_state" where
  "with_userns p n s = s\<lparr>us_heap := (us_heap s)(p \<mapsto> n), us_list := us_list s @ [p], us_inums := insert (un_inum n) (us_inums s)\<rparr>"

lemma create_userns:
  assumes inv: "uns_inv s" and k: "kmalloc_ok (ut_alloc e)" and i: "inum_free e s" and par: "\<And>q. parent = Some q \<Longrightarrow> us_heap s q \<noteq> None"
    and c: "userns_create e parent s = (t, r)"
  shows "case r of
      None \<Rightarrow> t = s
    | Some p \<Rightarrow> (\<exists>i. p \<noteq> init_user_ns \<and> us_heap s p = None \<and> i \<notin> us_inums s \<and> t = with_userns p (made_userns e parent s i) s
        \<and> (\<forall>q m. parent = Some q \<longrightarrow> us_heap s q = Some m \<longrightarrow> un_level m \<le> 32))"
proof -
  obtain par where p: "(case parent of None \<Rightarrow> Some None | Some q \<Rightarrow> map_option (\<lambda>n. Some (q, n)) (us_heap s q)) = Some par"
    and pc: "par = None \<and> parent = None \<or> (\<exists>q m. par = Some (q, m) \<and> parent = Some q \<and> us_heap s q = Some m)"
    using par by (cases parent) auto
  note c' = c [unfolded userns_create_def p option.case]
  consider (deep) "case par of None \<Rightarrow> False | Some (q, n) \<Rightarrow> un_level n > 32"
    | (mem) "\<not> (case par of None \<Rightarrow> False | Some (q, n) \<Rightarrow> un_level n > 32)" "ut_alloc e (\<lambda>p. p = init_user_ns \<or> us_heap s p \<noteq> None) = None"
    | (inum) p' err where "\<not> (case par of None \<Rightarrow> False | Some (q, n) \<Rightarrow> un_level n > 32)" "ut_alloc e (\<lambda>p. p = init_user_ns \<or> us_heap s p \<noteq> None) = Some p'" "ut_inum e = Inl err"
    | (made) p' i where "\<not> (case par of None \<Rightarrow> False | Some (q, n) \<Rightarrow> un_level n > 32)" "ut_alloc e (\<lambda>p. p = init_user_ns \<or> us_heap s p \<noteq> None) = Some p'" "ut_inum e = Inr i"
    by (metis not_Some_eq sum.exhaust)
  then show ?thesis
  proof cases
    case made
    have f: "p' \<noteq> init_user_ns" "us_heap s p' = None" using k made(2) unfolding kmalloc_ok_def by blast+
    have n: "i \<notin> us_inums s" using i made(3) by (simp add: inum_free_def)
    have "t = with_userns p' (made_userns e parent s i) s \<and> r = Some p'"
      using c' pc made by (auto simp: with_userns_def made_userns_def new_userns_def split: if_splits)
    moreover have "\<forall>q m. parent = Some q \<longrightarrow> us_heap s q = Some m \<longrightarrow> un_level m \<le> 32" using pc made(1) by auto
    ultimately show ?thesis using f n by auto
  qed (use c' in auto)
qed

lemma made_fields: "un_inum (made_userns e parent s i) = i"
  by (simp add: made_userns_def new_userns_def split: option.split)

lemma with_destroy:
  assumes "uns_inv s" "us_heap s p = None" "un_inum n \<notin> us_inums s"
  shows "userns_destroy p (with_userns p n s) = s"
proof -
  have "p \<notin> set (us_list s)" using uns_parts(3) [OF assms(1)] assms(2) by auto
  moreover have "(us_heap s)(p := None) = us_heap s" using assms(2) by (simp add: fun_upd_idem)
  ultimately show ?thesis using assms(3) by (simp add: userns_destroy_def with_userns_def remove1_append)
qed

lemma with_inv:
  assumes inv: "uns_inv s" and p: "p \<noteq> init_user_ns" "us_heap s p = None" and par: "\<And>q. parent = Some q \<Longrightarrow> us_heap s q \<noteq> None"
    and l: "\<forall>q m. parent = Some q \<longrightarrow> us_heap s q = Some m \<longrightarrow> un_level m \<le> 32"
  shows "uns_inv (with_userns p (made_userns e parent s i) s)"
proof -
  let ?n = "made_userns e parent s i"
  let ?t = "with_userns p ?n s"
  note P = uns_parts [OF inv]
  have np: "p \<notin> set (us_list s)" using P(3) p(2) by auto
  have h: "us_heap ?t = (us_heap s)(p \<mapsto> ?n)" "us_inums ?t = insert (un_inum ?n) (us_inums s)" "us_list ?t = us_list s @ [p]"
    "us_cred ?t = us_cred s" "us_oops ?t = us_oops s" by (simp_all add: with_userns_def)
  have old: "uns_node_ok ?t n" if "us_heap s q = Some n" for q n
    using P(6) [OF that] p(2) unfolding uns_node_ok_def h by (auto split: if_splits)
  have new: "uns_node_ok ?t ?n"
  proof (cases parent)
    case None
    then show ?thesis unfolding uns_node_ok_def h by (simp add: made_userns_def new_userns_def)
  next
    case (Some q)
    then obtain m where m: "us_heap s q = Some m" using par by blast
    then have "q \<noteq> p" using p(2) by auto
    then show ?thesis using Some m l unfolding uns_node_ok_def h by (simp add: made_userns_def new_userns_def)
  qed
  have c: "uc_ns (us_cred s t) = init_user_ns \<or> ((us_heap s)(p \<mapsto> ?n)) (uc_ns (us_cred s t)) \<noteq> None" for t using P(5) [of t] by auto
  show ?thesis
    unfolding uns_inv_def h(1,3-5) using P(1-4) np p(1) c old new by (auto split: if_splits)
qed

lemma install_inv:
  assumes inv: "uns_inv s" and p: "us_heap s p \<noteq> None"
  shows "uns_inv (userns_install_cred t p s)"
  by (rule uns_creds_inv [OF inv]) (use uns_parts(5) [OF inv] p in \<open>auto simp: userns_install_cred_def put_key_def install_cred_def Let_def split: option.split\<close>)

section \<open>The calls\<close>

text \<open>What \<^verbatim>\<open>unshare\<close> does on its branches.\<close>

lemma unshare_cases:
  assumes inv: "uns_inv s" and k: "kmalloc_ok (ut_alloc e)" and i: "inum_free e s" and u: "userns_unshare_wrap e f s = (t, r)"
  obtains (kernel) "\<not> has_flag f CLONE_NEWUSER" "t = s" "r = ut_kernel e f"
    | (refused) err where "has_flag f CLONE_NEWUSER" "t = s" "r = Some err" "err \<in> {EINVAL, ENOMEM} \<or> ut_kernel e (f AND NOT CLONE_NEWUSER) = Some err"
    | (made) p j where "has_flag f CLONE_NEWUSER" "\<not> has_flag f CLONE_FS" "ut_kernel e (f AND NOT CLONE_NEWUSER) = None" "p \<noteq> init_user_ns" "us_heap s p = None"
      "j \<notin> us_inums s" "uns_inv (with_userns p (made_userns e (userns_of s (ut_task e)) s j) s)"
      "userns_install_current e p (with_userns p (made_userns e (userns_of s (ut_task e)) s j) s) = (t, r)"
proof (cases "has_flag f CLONE_NEWUSER \<and> \<not> has_flag f CLONE_FS")
  case False
  then show ?thesis using u that(1) that(2) [of EINVAL] by (auto simp: userns_unshare_wrap_def split: if_splits)
next
  case True
  let ?par = "userns_of s (ut_task e)"
  obtain v q where v: "userns_create e ?par s = (v, q)" by (rule prod.exhaust)
  have par: "\<And>q. ?par = Some q \<Longrightarrow> us_heap s q \<noteq> None" using userns_of_there [OF inv] by blast
  note C = create_userns [OF inv k i par v]
  show ?thesis
  proof (cases q)
    case None
    then show ?thesis using C v u True that(2) [of ENOMEM] by (simp add: userns_unshare_wrap_def)
  next
    case (Some p)
    then obtain j where j: "p \<noteq> init_user_ns" "us_heap s p = None" "j \<notin> us_inums s" "v = with_userns p (made_userns e ?par s j) s"
      "\<forall>q m. ?par = Some q \<longrightarrow> us_heap s q = Some m \<longrightarrow> un_level m \<le> 32" using C by auto
    have vi: "uns_inv (with_userns p (made_userns e ?par s j) s)" by (rule with_inv [OF inv j(1,2) par j(5)])
    show ?thesis
    proof (cases "ut_kernel e (f AND NOT CLONE_NEWUSER)")
      case err: (Some err)
      have "userns_destroy p v = s" unfolding j(4) by (rule with_destroy [OF inv j(2)]) (simp add: made_fields j(3))
      then have "t = s" "r = Some err" using u v Some err True by (simp_all add: userns_unshare_wrap_def)
      then show ?thesis using True err that(2) [of err] by simp
    next
      case None
      then have "userns_install_current e p v = (t, r)" using u v Some True by (simp add: userns_unshare_wrap_def)
      then show ?thesis using True None j vi that(3) by simp
    qed
  qed
qed

lemma install_current_inv: "uns_inv s \<Longrightarrow> us_heap s p \<noteq> None \<Longrightarrow> userns_install_current e p s = (t, r) \<Longrightarrow> uns_inv t"
  using install_inv by (auto simp: userns_install_current_def split: if_splits)

lemma with_there: "us_heap (with_userns p n s) p = Some n"
  by (simp add: with_userns_def)

lemma copy_creds_inv:
  assumes "uns_inv s" "copy_creds e c f s = (t, r)"
  shows "uns_inv t \<and> us_heap t = us_heap s \<and> us_list t = us_list s \<and> us_inums t = us_inums s \<and> (r \<noteq> None \<longrightarrow> t = s)"
proof -
  have "t = s \<or> t = s\<lparr>us_cred := (us_cred s)(c := us_cred s (ut_task e))\<rparr> \<and> r = None" using assms(2) by (auto simp: copy_creds_def split: option.splits)
  moreover have "uns_inv (s\<lparr>us_cred := (us_cred s)(c := us_cred s (ut_task e))\<rparr>)"
    by (rule uns_creds_inv [OF assms(1)]) (use uns_parts(5) [OF assms(1)] in auto)
  ultimately show ?thesis using assms(1) by auto
qed

lemma creds_wrap_inv:
  assumes inv: "uns_inv s" and k: "kmalloc_ok (ut_alloc e)" and i: "inum_free e s" and u: "userns_creds_wrap e c f s = (t, r)"
  shows "uns_inv t"
proof (cases "has_flag f CLONE_NEWUSER \<and> \<not> has_flag f CLONE_THREAD")
  case False
  then have "copy_creds e c f s = (t, r)" using u by (auto simp: userns_creds_wrap_def)
  then show ?thesis using copy_creds_inv [OF inv] by blast
next
  case True
  let ?par = "userns_of s (ut_task e)"
  obtain v q where v: "userns_create e ?par s = (v, q)" by (rule prod.exhaust)
  have par: "\<And>q. ?par = Some q \<Longrightarrow> us_heap s q \<noteq> None" using userns_of_there [OF inv] by blast
  note C = create_userns [OF inv k i par v]
  show ?thesis
  proof (cases q)
    case None
    then show ?thesis using C v u True inv by (simp add: userns_creds_wrap_def)
  next
    case (Some p)
    then obtain j where j: "p \<noteq> init_user_ns" "us_heap s p = None" "j \<notin> us_inums s" "v = with_userns p (made_userns e ?par s j) s"
      "\<forall>q m. ?par = Some q \<longrightarrow> us_heap s q = Some m \<longrightarrow> un_level m \<le> 32" using C by auto
    have vi: "uns_inv v" unfolding j(4) by (rule with_inv [OF inv j(1,2) par j(5)])
    obtain w x where w: "copy_creds e c (f AND NOT CLONE_NEWUSER) v = (w, x)" by (rule prod.exhaust)
    note W = copy_creds_inv [OF vi w]
    show ?thesis
    proof (cases x)
      case err: (Some err)
      have "userns_destroy p v = s" unfolding j(4) by (rule with_destroy [OF inv j(2)]) (simp add: made_fields j(3))
      then have "t = s" using u v Some w err True W by (simp add: userns_creds_wrap_def)
      then show ?thesis using inv by simp
    next
      case None
      then have t: "t = userns_install_cred c p w" using u v Some w True by (simp add: userns_creds_wrap_def)
      show ?thesis unfolding t by (rule install_inv) (use W j(4) with_there in auto)
    qed
  qed
qed

lemma uns_step_inv: "uns_step s t \<Longrightarrow> uns_inv s \<Longrightarrow> uns_inv t"
proof (induction rule: uns_step.induct)
  case (unshare e s f s' r)
  show ?case
  proof (cases rule: unshare_cases [OF unshare.prems unshare.hyps])
    case (3 p j)
    note made = 3
    show ?thesis by (rule install_current_inv [OF made(7) _ made(8)]) (simp add: with_there)
  qed (use unshare.prems in simp_all)
next
  case (fork e s c f s' r)
  then show ?case using creds_wrap_inv by blast
next
  case (cred_change c s t)
  then show ?case using uns_parts(5) [OF cred_change.prems] by (intro uns_creds_inv [OF cred_change.prems]) auto
next
  case (task_end c s t)
  then show ?case using uns_parts(5) [OF task_end.prems] by (intro uns_creds_inv [OF task_end.prems]) auto
next
  case (keys s k)
  then show ?case using uns_parts(5) [OF keys.prems] by (intro uns_creds_inv [OF keys.prems]) auto
qed

lemma uns_reachable_inv:
  assumes "uns_reachable s"
  shows "uns_inv s"
proof -
  obtain b where b: "uns_boot b" "uns_step\<^sup>*\<^sup>* b s" using assms unfolding uns_reachable_def by blast
  have "uns_inv b" using b(1) by (simp add: uns_boot_def uns_inv_def)
  with b(2) show ?thesis by (induction rule: rtranclp_induct) (use uns_step_inv in blast)+
qed

lemma uns_reachable_step: "uns_reachable s \<Longrightarrow> uns_step s t \<Longrightarrow> uns_reachable t"
  unfolding uns_reachable_def by (meson rtranclp.rtrancl_into_rtrancl)

section \<open>Unload\<close>

lemma exit_loop_frees: "distinct l \<Longrightarrow> set l \<subseteq> dom (us_heap s) \<Longrightarrow>
    us_heap (userns_exit_loop l s) = us_heap s |` (- set l) \<and> us_cred (userns_exit_loop l s) = us_cred s \<and> us_oops (userns_exit_loop l s) = us_oops s"
proof (induction l arbitrary: s)
  case (Cons p ps)
  obtain n where n: "us_heap s p = Some n" using Cons.prems(2) by auto
  obtain u where u: "userns_destroy p s = u" by blast
  have U: "us_heap u = (us_heap s)(p := None)" "us_cred u = us_cred s" "us_oops u = us_oops s" by (simp_all add: u [symmetric] userns_destroy_def n)
  have "set ps \<subseteq> dom (us_heap u)" using Cons.prems by (auto simp: U(1))
  then have "us_heap (userns_exit_loop ps u) = us_heap u |` (- set ps)" "us_cred (userns_exit_loop ps u) = us_cred u" "us_oops (userns_exit_loop ps u) = us_oops u"
    using Cons.IH [of u] Cons.prems(1) by auto
  then show ?case using U u by (auto simp: restrict_map_def fun_eq_iff)
qed (simp add: restrict_map_def)

lemma exit_frees_all:
  assumes "uns_inv s"
  shows "us_heap (userns_exit s) = Map.empty" "us_cred (userns_exit s) = us_cred s"
  using exit_loop_frees [OF uns_parts(2) [OF assms], of s] uns_parts(3) [OF assms] by (auto simp: userns_exit_def restrict_map_def dom_def fun_eq_iff)

section \<open>The owner of a mount namespace\<close>

text \<open>The accessor reads the word at \<open>k\<close>.\<close>

lemma scan_sets:
  assumes o: "\<And>m. owner m = the (m k)" and k: "k \<in> set offs" and m: "m k = Some init_user_ns" and w: "want \<noteq> init_user_ns"
  shows "mnt_scan owner offs want m = (m(k \<mapsto> want), Some k)"
  using k m
proof (induction offs)
  case (Cons off offs)
  show ?case
  proof (cases "off = k")
    case True
    then show ?thesis using Cons.prems(2) by (auto simp: mnt_try_def o fun_eq_iff)
  next
    case False
    then have "owner (m(off \<mapsto> want)) \<noteq> want" using Cons.prems(2) w by (simp add: o)
    moreover have "(m(off \<mapsto> want))(off \<mapsto> init_user_ns) = m" if "m off = Some init_user_ns" using that by auto
    ultimately have "\<exists>err. mnt_try owner off want m = (m, Some err)" by (auto simp: mnt_try_def split: option.split)
    then show ?thesis using Cons False by auto
  qed
qed simp

end
