(* ===== verification/UnsMain.thy ===== *)
theory UnsMain
  imports UnsKeep
begin

text \<open>The properties of user namespaces, their id maps and the files of the module.\<close>

section \<open>A small system\<close>

definition host_cred :: user_cred where
  "host_cred = \<lparr>uc_ns = init_user_ns, uc_euid = 1000, uc_egid = 1000, uc_securebits = 0, uc_inheritable = {}, uc_permitted = {}, uc_effective = {},
     uc_ambient = {}, uc_bset = CAP_FULL_SET, uc_key = Some 3\<rparr>"

definition uns_demo :: uns_state where
  "uns_demo = \<lparr>us_heap = Map.empty, us_list = [], us_inums = {}, us_cred = (\<lambda>_. host_cred), us_keys = (\<lambda>_. 1), us_oops = False\<rparr>"

definition uns_caller :: "nat \<Rightarrow> ptr \<Rightarrow> uns_env" where
  "uns_caller t p = \<lparr>ut_task = t, ut_alloc = (\<lambda>used. if used p then None else Some p), ut_inum = Inr (0xF0000000 + p), ut_creds = True, ut_kernel = (\<lambda>_. None)\<rparr>"

definition uns_one :: uns_state where
  "uns_one = fst (userns_unshare_wrap (uns_caller 7 1) CLONE_NEWUSER uns_demo)"

lemma uns_demo_reachable: "uns_reachable uns_demo"
  unfolding uns_reachable_def by (rule exI [of _ uns_demo]) (simp add: uns_boot_def uns_demo_def host_cred_def)

lemma uns_caller_ok: "kmalloc_ok (ut_alloc (uns_caller t p))" "inum_free (uns_caller t 1) uns_demo"
  by (simp_all add: kmalloc_ok_def uns_caller_def inum_free_def uns_demo_def)

lemma uns_caller_task: "ut_task (uns_caller t p) = t"
  by (simp add: uns_caller_def)

lemma newuser_flags: "has_flag CLONE_NEWUSER CLONE_NEWUSER" "\<not> has_flag CLONE_NEWUSER CLONE_FS"
  by (simp_all add: has_flag_def clone_flags)

lemma uns_one_eq: "userns_unshare_wrap (uns_caller 7 1) CLONE_NEWUSER uns_demo
    = (userns_install_cred 7 1 (with_userns 1 (new_userns host_cred init_user_ns 1 USERNS_INIT_FLAGS (0xF0000000 + 1)) uns_demo), None)"
  by (simp add: userns_unshare_wrap_def newuser_flags userns_of_def userns_is_ours_def uns_demo_def userns_create_def uns_caller_def init_user_ns_def
      userns_install_current_def with_userns_def new_userns_def Let_def)

lemma uns_one_reachable: "uns_reachable uns_one"
  by (rule uns_reachable_step [OF uns_demo_reachable], unfold uns_one_def uns_one_eq fst_conv, rule uns_step.unshare [OF uns_caller_ok(1) [of 7 1] uns_caller_ok(2) [of 7] uns_one_eq])

lemma uns_one_task: "userns_of uns_one 7 = Some 1"
  unfolding uns_one_def uns_one_eq fst_conv
  by (simp add: userns_of_def userns_is_ours_def userns_install_cred_def put_key_def install_cred_def with_userns_def uns_demo_def host_cred_def Let_def)

section \<open>Properties\<close>

text \<open>C29. While the module is loaded every task's user namespace is the host's or one in memory, whose parent is the host's or again one in memory one level
  up, at most 33 deep, and whose maps are the identity. Unload frees them all and changes no credential: a task that
  was in one of them goes on with a pointer to freed memory.\<close>

theorem userns_lifetime:
  assumes "uns_reachable s"
  shows "\<not> us_oops s
    \<and> (\<forall>t. uc_ns (us_cred s t) = init_user_ns \<or> userns_of s t = Some (uc_ns (us_cred s t)) \<and> us_heap s (uc_ns (us_cred s t)) \<noteq> None)
    \<and> (\<forall>p n. us_heap s p = Some n \<longrightarrow> un_level n \<le> 33 \<and> un_uid_map n = map_identity empty_map
         \<and> (un_parent n = init_user_ns \<and> un_level n = 1 \<or> (\<exists>m. us_heap s (un_parent n) = Some m \<and> un_level n = un_level m + 1)))
    \<and> (\<forall>t p. userns_of s t = Some p \<longrightarrow> uc_ns (us_cred (userns_exit s) t) = p \<and> us_heap (userns_exit s) p = None)"
proof -
  have inv: "uns_inv s" by (rule uns_reachable_inv [OF assms])
  note P = uns_parts [OF inv]
  have "userns_of s t = Some (uc_ns (us_cred s t))" if "us_heap s (uc_ns (us_cred s t)) \<noteq> None" for t
    using that P(3) by (auto simp: userns_of_def userns_is_ours_def Let_def)
  moreover have "uc_ns (us_cred (userns_exit s) t) = p \<and> us_heap (userns_exit s) p = None" if "userns_of s t = Some p" for t p
    using exit_frees_all [OF inv] userns_of_there [OF inv that] by simp
  ultimately show ?thesis using P(1,5,6) unfolding uns_node_ok_def by blast
qed

lemma userns_lifetime_witness: "uc_ns (us_cred (userns_exit uns_one) 7) = 1 \<and> us_heap (userns_exit uns_one) 1 = None"
  using userns_lifetime [OF uns_one_reachable] uns_one_task by blast

text \<open>C30. \<^verbatim>\<open>unshare(CLONE_NEWUSER)\<close> either leaves everything as it was with an error, or puts the caller, and nobody else, with full capabilities
  into a new namespace below its own that it owns and whose map is the identity; only where the credentials cannot be made after
  the kernel has unshared the rest is there an error with a namespace nobody uses left behind.\<close>

theorem userns_unshare_outcome:
  assumes "uns_reachable s" and "kmalloc_ok (ut_alloc e)" and "inum_free e s" and "has_flag f CLONE_NEWUSER" and "userns_unshare_wrap e f s = (t, r)"
  shows "case r of
      Some err \<Rightarrow> t = s \<or> (err = ENOMEM \<and> \<not> ut_creds e \<and> ut_kernel e (f AND NOT CLONE_NEWUSER) = None \<and> us_cred t = us_cred s \<and> userns_live t = userns_live s + 1)
    | None \<Rightarrow> \<not> has_flag f CLONE_FS \<and> (\<exists>p n. us_heap s p = None \<and> userns_of t (ut_task e) = Some p \<and> us_heap t p = Some n
        \<and> un_parent n = (case userns_of s (ut_task e) of None \<Rightarrow> init_user_ns | Some q \<Rightarrow> q)
        \<and> un_owner n = uc_euid (us_cred s (ut_task e)) \<and> (\<forall>i. userns_map_down (un_uid_map n) i = i)
        \<and> uc_effective (us_cred t (ut_task e)) = CAP_FULL_SET \<and> (\<forall>u. u \<noteq> ut_task e \<longrightarrow> us_cred t u = us_cred s u))"
proof -
  have inv: "uns_inv s" by (rule uns_reachable_inv [OF assms(1)])
  show ?thesis
  proof (cases rule: unshare_cases [OF inv assms(2,3,5)])
    case 1
    then show ?thesis using assms(4) by simp
  next
    case (2 err)
    then show ?thesis by simp
  next
    case (3 p j)
    let ?n = "made_userns e (userns_of s (ut_task e)) s j"
    let ?v = "with_userns p ?n s"
    have par: "un_parent ?n = (case userns_of s (ut_task e) of None \<Rightarrow> init_user_ns | Some q \<Rightarrow> q)" "un_owner ?n = uc_euid (us_cred s (ut_task e))"
      "un_uid_map ?n = map_identity empty_map"
      using userns_of_there [OF inv, of "ut_task e"] by (auto simp: made_userns_def new_userns_def split: option.splits)
    show ?thesis
    proof (cases "ut_creds e")
      case False
      then have "t = ?v" "r = Some ENOMEM" using 3(8) by (simp_all add: userns_install_current_def)
      then show ?thesis using False 3(3) by (simp add: with_userns_def userns_live_def)
    next
      case True
      then have t: "t = userns_install_cred (ut_task e) p ?v" "r = None" using 3(8) by (simp_all add: userns_install_current_def)
      have h: "us_heap t = (us_heap s)(p \<mapsto> ?n)" "us_list t = us_list s @ [p]" "us_cred t = (us_cred s)(ut_task e := install_cred p (us_cred s (ut_task e)))"
        by (simp_all add: t(1) userns_install_cred_def put_key_def with_userns_def Let_def split: option.split)
      have "userns_of t (ut_task e) = Some p" by (simp add: userns_of_def userns_is_ours_def h install_cred_def)
      moreover have "uc_effective (us_cred t (ut_task e)) = CAP_FULL_SET" by (simp add: h install_cred_def)
      ultimately show ?thesis using t(2) 3(2,5) par h(1) identity_map(1)
        by (auto intro!: exI [of _ p] exI [of _ ?n] simp: h(3))
    qed
  qed
qed

lemma userns_unshare_outcome_witness: "\<exists>p. us_heap uns_demo p = None \<and> userns_of uns_one 7 = Some p"
proof -
  have "userns_unshare_wrap (uns_caller 7 1) CLONE_NEWUSER uns_demo = (uns_one, None)" unfolding uns_one_def uns_one_eq by simp
  note userns_unshare_outcome [OF uns_demo_reachable uns_caller_ok(1) [of 7 1] uns_caller_ok(2) [of 7] newuser_flags(1) this]
  then show ?thesis unfolding option.case uns_caller_task by blast
qed

text \<open>The search for the owner of a mount namespace, which knows no layout, ends with exactly the owner's field changed: every word it tried before is put
  back, the offset it found is the one the kernel's accessor reads, and a namespace that already has
  the owner stays as it is.\<close>

theorem mnt_owner_found:
  assumes "\<forall>m. owner m = the (m k)" and "k \<in> set (scan_offsets base)" and "m k = Some init_user_ns" and "want \<noteq> init_user_ns"
  shows "mnt_own owner base True want (0, m) = ((k, m(k \<mapsto> want)), None)
    \<and> mnt_own owner base True want (known, m(k \<mapsto> want)) = ((known, m(k \<mapsto> want)), None)"
proof -
  have o: "owner n = the (n k)" for n using assms(1) by blast
  have nw: "owner m \<noteq> want" using assms(3,4) by (simp add: o)
  have sc: "mnt_scan owner (scan_offsets base) want m = (m(k \<mapsto> want), Some k)" by (rule scan_sets) (use assms(2-4) o in auto)
  show ?thesis using nw sc by (simp add: mnt_own_def o)
qed

lemma mnt_owner_found_witness:
  "mnt_own (\<lambda>m. the (m 40)) 24 True 9 (0, [24 \<mapsto> 0, 32 \<mapsto> 77, 40 \<mapsto> 0]) = ((40, [24 \<mapsto> 0, 32 \<mapsto> 77, 40 \<mapsto> 9]), None)"
proof -
  have "\<forall>m. (\<lambda>m. the (m 40)) m = the (m (40::nat))" "[24 \<mapsto> 0, 32 \<mapsto> 77, 40 \<mapsto> 0] (40::nat) = Some init_user_ns" "9 \<noteq> init_user_ns"
    by (simp_all add: init_user_ns_def)
  moreover have "40 \<in> set (scan_offsets 24)" by (simp add: scan_offsets_def MNT_SCAN_def image_iff)
  ultimately show ?thesis using mnt_owner_found [of "\<lambda>m. the (m 40)" 40 24 "[24 \<mapsto> 0, 32 \<mapsto> 77, 40 \<mapsto> 0]" 9] by simp
qed

text \<open>C32. In a map without overlaps the two directions are inverse to each other, on 32 bit words with their wrap-around: an id that is mapped
  comes back from where it was sent, and the other way round; the identity map sends every id to itself.\<close>

theorem id_maps_inverse:
  assumes "map_wf m"
  shows "(userns_map_ok m i \<longrightarrow> userns_map_up m (userns_map_down m i) = i)
    \<and> (userns_map_up m j \<noteq> UID_UNMAPPED \<longrightarrow> userns_map_down m (userns_map_up m j) = j)
    \<and> userns_map_down (map_identity empty_map) i = i \<and> userns_map_up (map_identity empty_map) i = i"
  using up_down [OF assms, of i] down_up [OF assms, of j] identity_map(1,2) by (simp add: userns_map_ok_def)

definition two_extents :: uid_gid_map where
  "two_extents = \<lparr>ug_extent = [\<lparr>ue_first = 0, ue_lower = 100000, ue_count = 10\<rparr>, \<lparr>ue_first = 4294967290, ue_lower = 5, ue_count = 5\<rparr>], ug_nr = 2\<rparr>"

lemma two_extents_wf: "map_wf two_extents"
  by (auto simp: map_wf_def two_extents_def MAX_BASE_EXTENTS_def extent_ok_def in_extent_nat)

lemma id_maps_inverse_witness: "userns_map_ok two_extents 4294967293 \<and> userns_map_up two_extents (userns_map_down two_extents 4294967293) = 4294967293"
proof -
  have "userns_map_ok two_extents 4294967293"
    by (simp add: userns_map_ok_def userns_map_down_def map_id_range_down_def two_extents_def MAX_BASE_EXTENTS_def in_extent_def UID_UNMAPPED_def)
  then show ?thesis using id_maps_inverse [OF two_extents_wf] by blast
qed

lemma identity_textI: "\<lbrakk>all_blank w1; all_blank w2; all_blank w3; w2 \<noteq> []; w3 \<noteq> []; all_digits d1; all_digits d2; all_digits d3; number_after 0 d1 = 0;
    number_after 0 d2 = 0; number_after 0 d3 = 4294967295; \<forall>c \<in> set w4. is_blank c \<or> c = CHR 0x0A\<rbrakk>
  \<Longrightarrow> identity_text (w1 @ d1 @ w2 @ d2 @ w3 @ d3 @ w4)"
  unfolding identity_text_def by blast

text \<open>C31. A write to a map file is accepted, and counts as a whole, exactly when it is the first, shorter than 64 bytes, on a
  namespace other than the host's, and holds three numbers 0, 0 and 4294967295 (in any number of digits) between blanks, with
  blanks and line ends behind, up to the first zero byte; what a read of the map gives is accepted.\<close>

theorem map_write_accepts:
  "(snd (map_write ns init bytes n pos) = Inr k \<longleftrightarrow>
     pos = 0 \<and> 0 < n \<and> n < 64 \<and> k = int n \<and> ns \<noteq> None \<and> ns \<noteq> Some init
     \<and> (\<exists>b. bytes = Some b \<and> identity_text (takeWhile (\<lambda>c. c \<noteq> CHR 0x00) (take n b))))
   \<and> identity_text (map_text USERNS_MAP_TEXT (map_identity empty_map))"
proof (rule conjI)
  show "snd (map_write ns init bytes n pos) = Inr k \<longleftrightarrow>
     pos = 0 \<and> 0 < n \<and> n < 64 \<and> k = int n \<and> ns \<noteq> None \<and> ns \<noteq> Some init
     \<and> (\<exists>b. bytes = Some b \<and> identity_text (takeWhile (\<lambda>c. c \<noteq> CHR 0x00) (take n b)))"
    by (auto simp: map_write_def USERNS_MAP_TEXT_def map_is_identity_iff split: option.split)
  have "number_after 0 ''4294967295'' = 4294967295" "number_after 0 ''0'' = 0" by (simp_all add: char_val_def)
  moreover have "all_blank ''         ''" "all_blank ''          ''" "all_blank '' ''" "all_digits ''0''" "all_digits ''4294967295''"
    by (simp_all add: all_blank_def all_digits_def is_blank_def is_digit_def)
  ultimately have "identity_text (''         '' @ ''0'' @ ''          '' @ ''0'' @ '' '' @ ''4294967295'' @ [CHR 0x0A])"
    by (intro identity_textI) simp_all
  then show "identity_text (map_text USERNS_MAP_TEXT (map_identity empty_map))" unfolding identity_prints by simp
qed



end
