(* ===== verification/NsInv.thy ===== *)
theory NsInv
  imports NsProxy
begin

text \<open>
  The references of ipc namespaces: what is documented of the kernel's functions, the invariant
  that every reference is counted, and that the parts of the calls keep it.
\<close>

unbundle bit_operations_syntax

section \<open>The kernel's functions\<close>

definition task_ipc :: "ns_state \<Rightarrow> nat \<Rightarrow> ptr option" where
  "task_ipc s t = Option.bind (proxy_of s t) (proxy_ipc s)"

definition new_proxy :: "ptr \<Rightarrow> nat \<Rightarrow> ns_state \<Rightarrow> ns_state" where
  "new_proxy np t s =
     s\<lparr>ns_proxies := (ns_proxies s)(np \<mapsto> \<lparr>nx_count = 1, nx_ipc = task_ipc s t\<rparr>),
       ns_pid := (ns_pid s)\<lparr>pd_nsproxy := (pd_nsproxy (ns_pid s))(np \<mapsto> \<lparr>np_children = Option.bind (proxy_of s t) (proxy_pid s)\<rparr>)\<rparr>\<rparr>"

definition put_proxy :: "ptr option \<Rightarrow> ns_state \<Rightarrow> ns_state" where
  "put_proxy old s =
     (case Option.bind old (ns_proxies s) of
        None \<Rightarrow> s
      | Some x \<Rightarrow>
          if nx_count x = 1
          then s\<lparr>ns_proxies := (ns_proxies s)(the old := None), ns_pid := (ns_pid s)\<lparr>pd_nsproxy := (pd_nsproxy (ns_pid s))(the old := None)\<rparr>\<rparr>
          else s\<lparr>ns_proxies := (ns_proxies s)(the old \<mapsto> x\<lparr>nx_count := nx_count x - 1\<rparr>)\<rparr>)"

definition share_proxy :: "nat \<Rightarrow> ns_state \<Rightarrow> ns_state" where
  "share_proxy t s =
     (case Option.bind (proxy_of s t) (ns_proxies s) of
        None \<Rightarrow> s
      | Some x \<Rightarrow> s\<lparr>ns_proxies := (ns_proxies s)(the (proxy_of s t) \<mapsto> x\<lparr>nx_count := nx_count x + 1\<rparr>)\<rparr>)"

definition set_task :: "nat \<Rightarrow> ptr option \<Rightarrow> ns_state \<Rightarrow> ns_state" where
  "set_task t np s = s\<lparr>ns_pid := (ns_pid s)\<lparr>pd_task_nsproxy := (pd_task_nsproxy (ns_pid s))(t := np)\<rparr>\<rparr>"

text \<open>
  A kernel without ipc namespaces. \<^verbatim>\<open>create_new_namespaces\<close> copies the proxy of the task into new
  memory, the ipc pointer without a reference, or fails; \<^verbatim>\<open>switch_task_namespaces\<close> and \<^verbatim>\<open>exit_task_namespaces\<close> give
  the task another proxy and drop the old one; \<^verbatim>\<open>copy_namespaces\<close> fails, shares the proxy, which has a
  user, when no namespace is asked for, or has a new one created; \<^verbatim>\<open>unshare\<close> fails, has nothing to do, or
  creates and switches. (A task with a time namespace pending for its children is left out.)
\<close>

definition NS_NEW :: "64 word" where "NS_NEW = NS_FLAGS OR CLONE_NEWPID"

definition copy_ok :: "ns_kernel \<Rightarrow> ns_create \<Rightarrow> 64 word \<Rightarrow> nat \<Rightarrow> ns_state \<Rightarrow> bool" where
  "copy_ok K c f t s \<longleftrightarrow> (\<exists>err. nk_copy K c f t s = (s, Some err))
     \<or> (\<not> has_flag f NS_NEW \<and> (\<forall>x. Option.bind (proxy_of s t) (ns_proxies s) = Some x \<longrightarrow> 1 \<le> nx_count x) \<and> nk_copy K c f t s = (share_proxy t s, None))
     \<or> (has_flag f NS_NEW \<and> (case c f t s of (u, Inl err) \<Rightarrow> nk_copy K c f t s = (u, Some err)
           | (u, Inr np) \<Rightarrow> nk_copy K c f t s = (set_task t (Some np) u, None)))"

definition unshare_ok :: "ns_kernel \<Rightarrow> ns_create \<Rightarrow> ns_switch \<Rightarrow> 64 word \<Rightarrow> nat \<Rightarrow> ns_state \<Rightarrow> bool" where
  "unshare_ok K c w f t s \<longleftrightarrow> (\<exists>err. nk_unshare K c w f t s = (s, Some err)) \<or> nk_unshare K c w f t s = (s, None)
     \<or> (case c f t s of (u, Inl err) \<Rightarrow> nk_unshare K c w f t s = (u, Some err) | (u, Inr np) \<Rightarrow> nk_unshare K c w f t s = (w t (Some np) u, None))"

definition ns_kernel_ok :: "ns_kernel \<Rightarrow> bool" where
  "ns_kernel_ok K \<longleftrightarrow>
     (\<forall>f t s. (\<exists>err. nk_create K f t s = (s, Inl err))
        \<or> (\<exists>np. ns_proxies s np = None \<and> proxy_of s t \<noteq> Some np \<and> nk_create K f t s = (new_proxy np t s, Inr np)))
   \<and> (\<forall>t new s. nk_switch K t new s = set_task t new (put_proxy (proxy_of s t) s))
   \<and> (\<forall>w t s. nk_exit K w t s = (if nk_inlined K then nk_switch K t None s else w t None s))
   \<and> (\<forall>c f t s. copy_ok K c f t s) \<and> (\<forall>c w f t s. unshare_ok K c w f t s)"

section \<open>The invariant\<close>

text \<open>
  \<open>F p\<close> is the number of references to \<open>p\<close> that are neither the host's nor a proxy's: open files, and
  a namespace just made. The proxies in \<open>E\<close> have no reference of their own yet. The count of the host's
  namespace is not relied on.
\<close>

definition ipc_users :: "ns_state \<Rightarrow> ptr \<Rightarrow> ptr set" where
  "ipc_users s p = {np. proxy_ipc s np = Some p}"

definition ns_inv :: "ptr set \<Rightarrow> (ptr \<Rightarrow> nat) \<Rightarrow> ns_state \<Rightarrow> bool" where
  "ns_inv E F s \<longleftrightarrow> \<not> ns_oops s \<and> \<not> ns_kernel_owned s
     \<and> distinct (map ie_ns (ns_list s)) \<and> dom (ns_heap s) = ie_ns ` set (ns_list s)
     \<and> (\<exists>h. ns_host s = Some h \<and> ns_heap s h \<noteq> None)
     \<and> (\<forall>x \<in> set (ns_list s). \<not> ie_kernel_owned x \<and> (ie_init x \<longrightarrow> ns_host s = Some (ie_ns x)))
     \<and> finite (dom (ns_proxies s)) \<and> (\<forall>np p. proxy_ipc s np = Some p \<longrightarrow> ns_heap s p \<noteq> None)
     \<and> (\<forall>p. ns_heap s p = None \<longrightarrow> F p = 0)
     \<and> (\<forall>p n. ns_heap s p = Some n \<longrightarrow> 1 \<le> ins_count n \<and> classes_exit [] n \<noteq> None
          \<and> (ns_host s = Some p \<or> int (card (ipc_users s p - E)) + int (F p) \<le> ins_count n))"

lemma ipcns_parts:
  assumes "ns_inv E F s"
  shows "\<not> ns_oops s" "\<not> ns_kernel_owned s" "distinct (map ie_ns (ns_list s))" "dom (ns_heap s) = ie_ns ` set (ns_list s)"
    "\<exists>h. ns_host s = Some h \<and> ns_heap s h \<noteq> None" "x \<in> set (ns_list s) \<Longrightarrow> \<not> ie_kernel_owned x"
    "x \<in> set (ns_list s) \<Longrightarrow> ie_init x \<Longrightarrow> ns_host s = Some (ie_ns x)" "finite (dom (ns_proxies s))"
    "proxy_ipc s np = Some p \<Longrightarrow> ns_heap s p \<noteq> None" "ns_heap s p = None \<Longrightarrow> F p = 0"
    "ns_heap s p = Some n \<Longrightarrow> 1 \<le> ins_count n" "ns_heap s p = Some n \<Longrightarrow> classes_exit [] n \<noteq> None"
    "ns_heap s p = Some n \<Longrightarrow> ns_host s \<noteq> Some p \<Longrightarrow> int (card (ipc_users s p - E)) + int (F p) \<le> ins_count n"
  using assms unfolding ns_inv_def by (blast, blast, blast, blast, blast, blast, blast, blast, blast, blast, blast, blast, blast)

lemma ns_invI:
  assumes "\<not> ns_oops s" "\<not> ns_kernel_owned s" "distinct (map ie_ns (ns_list s))" "dom (ns_heap s) = ie_ns ` set (ns_list s)"
    "\<exists>h. ns_host s = Some h \<and> ns_heap s h \<noteq> None" "\<And>x. x \<in> set (ns_list s) \<Longrightarrow> \<not> ie_kernel_owned x"
    "\<And>x. x \<in> set (ns_list s) \<Longrightarrow> ie_init x \<Longrightarrow> ns_host s = Some (ie_ns x)" "finite (dom (ns_proxies s))"
    "\<And>np p. proxy_ipc s np = Some p \<Longrightarrow> ns_heap s p \<noteq> None" "\<And>p. ns_heap s p = None \<Longrightarrow> F p = 0"
    "\<And>p n. ns_heap s p = Some n \<Longrightarrow> 1 \<le> ins_count n \<and> classes_exit [] n \<noteq> None
       \<and> (ns_host s = Some p \<or> int (card (ipc_users s p - E)) + int (F p) \<le> ins_count n)"
  shows "ns_inv E F s"
  using assms unfolding ns_inv_def by blast

lemma users_finite: "ns_inv E F s \<Longrightarrow> finite (ipc_users s p)"
  by (rule finite_subset [OF _ ipcns_parts(8)]) (auto simp: ipc_users_def proxy_ipc_def bind_eq_Some_conv)

text \<open>What only changes the pid side, the users or the numbers keeps everything.\<close>

definition same_ipc :: "ns_state \<Rightarrow> ns_state \<Rightarrow> bool" where
  "same_ipc s t \<longleftrightarrow> ns_heap t = ns_heap s \<and> ns_list t = ns_list s \<and> ns_host t = ns_host s \<and> ns_kernel_owned t = ns_kernel_owned s
     \<and> ns_oops t = ns_oops s"

lemma same_inv:
  assumes "ns_inv E F s" "same_ipc s t" "finite (dom (ns_proxies t))" "\<And>p. ipc_users t p - E' \<subseteq> ipc_users s p - E"
    "\<And>np p. proxy_ipc t np = Some p \<Longrightarrow> ns_heap s p \<noteq> None"
  shows "ns_inv E' F t"
proof -
  note P = ipcns_parts [OF assms(1)]
  have c: "card (ipc_users t p - E') \<le> card (ipc_users s p - E)" for p
    by (rule card_mono [OF _ assms(4)]) (simp add: users_finite [OF assms(1)])
  have w: "1 \<le> ins_count n \<and> classes_exit [] n \<noteq> None \<and> (ns_host s = Some p \<or> int (card (ipc_users t p - E')) + int (F p) \<le> ins_count n)"
    if n: "ns_heap s p = Some n" for p n
    using P(11,12) [OF n] P(13) [OF n] c [of p] by linarith
  have e: "ns_heap t = ns_heap s" "ns_list t = ns_list s" "ns_host t = ns_host s" "ns_kernel_owned t = ns_kernel_owned s" "ns_oops t = ns_oops s"
    using assms(2) by (simp_all add: same_ipc_def)
  show ?thesis
    by (rule ns_invI, unfold e)
      (rule P(1), rule P(2), rule P(3), rule P(4), rule P(5), erule P(6), erule (1) P(7), rule assms(3), erule assms(5), erule P(10), erule w)
qed

lemma same_refl [simp]: "same_ipc s s"
  by (simp add: same_ipc_def)

lemma on_pid_same [simp]: "same_ipc s (on_pid f s)" "ns_proxies (on_pid f s) = ns_proxies s"
  by (simp_all add: same_ipc_def on_pid_def)

lemma users_cong: "ns_proxies t = ns_proxies s \<Longrightarrow> ipc_users t p = ipc_users s p"
  by (simp add: ipc_users_def proxy_ipc_def)

lemma ipcns_proxies_inv:
  assumes inv: "ns_inv E F s" and same: "same_ipc s t" and p: "ns_proxies t = ns_proxies s"
  shows "ns_inv E F t"
proof (rule same_inv [OF inv same])
  show "finite (dom (ns_proxies t))" using ipcns_parts(8) [OF inv] p by simp
  show "ipc_users t q - E \<subseteq> ipc_users s q - E" for q by (simp add: users_cong [OF p])
  show "ns_heap s q \<noteq> None" if "proxy_ipc t np = Some q" for np q
    by (rule ipcns_parts(9) [OF inv]) (use that p in \<open>simp add: proxy_ipc_def\<close>)
qed

section \<open>One namespace changes\<close>

lemma ns_upd_fields [simp]: "ns_list (ns_upd p f s) = ns_list s" "ns_host (ns_upd p f s) = ns_host s" "ns_kernel_owned (ns_upd p f s) = ns_kernel_owned s"
  "ns_proxies (ns_upd p f s) = ns_proxies s" "ns_pid (ns_upd p f s) = ns_pid s"
  "ns_heap (ns_upd p f s) q = (if q = p then map_option f (ns_heap s p) else ns_heap s q)"
  by (auto simp: ns_upd_def split: option.splits)

lemma ns_upd_oops: "ns_heap s p = Some n \<Longrightarrow> ns_oops (ns_upd p f s) = ns_oops s"
  by (simp add: ns_upd_def)

text \<open>What the accounting list holds decides nothing in the release of the message queues.\<close>

lemma freeque_acct: "\<exists>b. fst (freeque (s\<lparr>msg_acct_list := a\<rparr>) p) = (fst (freeque s p))\<lparr>msg_acct_list := b\<rparr>"
proof (cases "objs (msg_ids s) p")
  case (Some q)
  obtain st w1 where e: "expunge_all q EIDRM (msg_stacks s) = (st, w1)" by (rule prod.exhaust)
  obtain q' w2 where w: "ss_wakeup q True = (q', w2)" by (rule prod.exhaust)
  show ?thesis
    by (rule exI [of _ "msg_acct_bytes (ns_addr s) (- q_cbytes q) (acct_drop_msgs (ns_addr s) (q_messages q) a)"], rule msg_ns.equality)
      (simp_all add: freeque_def Some e w upd_msq_def msg_rmid_def ns_acct_bytes_def Let_def)
qed (auto simp: freeque_def)

lemma free_loop_acct:
  "ds_free_loop fuel msg_ids (\<lambda>s p. fst (freeque s p)) (s\<lparr>msg_acct_list := a\<rparr>) cnt used next_id = None
    \<longleftrightarrow> ds_free_loop fuel msg_ids (\<lambda>s p. fst (freeque s p)) s cnt used next_id = None"
proof (induction fuel arbitrary: s a cnt next_id)
  case 0
  show ?case by (simp add: ds_free_loop.simps)
next
  case (Suc n)
  have "ds_free_loop n msg_ids (\<lambda>s p. fst (freeque s p)) (fst (freeque (s\<lparr>msg_acct_list := a\<rparr>) p)) (cnt + 1) used (next_id + 1) = None
      \<longleftrightarrow> ds_free_loop n msg_ids (\<lambda>s p. fst (freeque s p)) (fst (freeque s p)) (cnt + 1) used (next_id + 1) = None" for p
    using freeque_acct [where s = s and a = a and p = p] Suc.IH by metis
  then show ?case using Suc.IH [where s = s and a = a and cnt = cnt and next_id = "next_id + 1"] by (simp add: ds_free_loop.simps [of "Suc n"] split: option.split)
qed

lemma classes_exit_acct: "classes_exit a n = None \<longleftrightarrow> classes_exit [] n = None"
proof -
  have m: "ds_msg_exit_ns (nat ipc_mni) ((ins_msg n)\<lparr>msg_acct_list := a\<rparr>) = None \<longleftrightarrow> ds_msg_exit_ns (nat ipc_mni) (ins_msg n) = None" for a
    using free_loop_acct [where fuel = "nat ipc_mni" and s = "ins_msg n" and a = a and cnt = 0 and used = "in_use (msg_ids (ins_msg n))" and next_id = 0] by (simp add: ds_msg_exit_ns_def ds_free_ipcs_def)
  show ?thesis using m [of a] m [of "[]"] by (auto simp: classes_exit_def split: option.split)
qed

lemma classes_exit_iff: "(\<exists>m b. classes_exit [] n = Some (m, b)) \<longleftrightarrow> ds_sem_exit_ns (nat ipc_mni) (ins_sem n) \<noteq> None
    \<and> ds_msg_exit_ns (nat ipc_mni) ((ins_msg n)\<lparr>msg_acct_list := []\<rparr>) \<noteq> None \<and> ds_shm_exit_ns (nat ipc_mni) (ins_shm n) \<noteq> None"
  by (auto simp: classes_exit_def split: option.splits)

lemma classes_exit_count [simp]: "classes_exit a (ins_count_update f n) = map_option (\<lambda>(n, b). (ins_count_update f n, b)) (classes_exit a n)"
  by (auto simp: classes_exit_def split: option.splits)

lemma upd_inv:
  assumes inv: "ns_inv E F s" and n: "ns_heap s p = Some n" and f: "1 \<le> ins_count (f n)" "classes_exit [] (f n) \<noteq> None"
    and G: "\<And>q. q \<noteq> p \<Longrightarrow> G q = F q" and c: "ns_host s \<noteq> Some p \<Longrightarrow> int (card (ipc_users s p - E)) + int (G p) \<le> ins_count (f n)"
  shows "ns_inv E G (ns_upd p f s)"
proof -
  let ?t = "ns_upd p f s"
  note P = ipcns_parts [OF inv]
  have u: "ipc_users ?t q = ipc_users s q" "proxy_ipc ?t q = proxy_ipc s q" for q by (simp_all add: ipc_users_def proxy_ipc_def)
  have d: "dom (ns_heap ?t) = dom (ns_heap s)" using n by (auto simp: dom_def)
  have z: "G q = 0" if "ns_heap ?t q = None" for q
  proof -
    have "q \<noteq> p" "ns_heap s q = None" using that n by (auto split: if_splits)
    then show ?thesis using P(10) G by simp
  qed
  have w: "1 \<le> ins_count m \<and> classes_exit [] m \<noteq> None \<and> (ns_host s = Some q \<or> int (card (ipc_users s q - E)) + int (G q) \<le> ins_count m)"
    if "ns_heap ?t q = Some m" for q m
  proof (cases "q = p")
    case True
    then show ?thesis using that n f c by auto
  next
    case False
    have m: "ns_heap s q = Some m" using that False by simp
    show ?thesis using P(11-13) [OF m] G [OF False] by auto
  qed
  have h: "\<exists>h. ns_host s = Some h \<and> ns_heap ?t h \<noteq> None" using P(5) n by auto
  have v: "ns_heap ?t q \<noteq> None" if "proxy_ipc s np = Some q" for np q using P(9) [OF that] d by blast
  show ?thesis
    by (rule ns_invI, unfold u ns_upd_fields(1-4) ns_upd_oops [OF n] d)
      (rule P(1), rule P(2), rule P(3), rule P(4), rule h, erule P(6), erule (1) P(7), rule P(8), erule v, erule z, erule w)
qed

text \<open>A reference more.\<close>

lemma get_ns_inv:
  assumes inv: "ns_inv E F s" and p: "ns_heap s p \<noteq> None"
  shows "ns_inv E (F(p := F p + 1)) (ipcns_get (Some p) s)"
proof -
  obtain n where n: "ns_heap s p = Some n" using p by blast
  show ?thesis unfolding ipcns_get_def option.case
    by (rule upd_inv [OF inv n]) (use ipcns_parts(11-13) [OF inv n] in auto)
qed

lemma hold_inv:
  assumes inv: "ns_inv (insert np E) F s" and np: "np \<notin> E"
  shows "ns_inv E F (nsproxy_hold (Some np) s)"
proof (cases "proxy_ipc s np")
  case None
  then have "nsproxy_hold (Some np) s = s" by (simp add: nsproxy_hold_def)
  moreover have "ipc_users s p - E = ipc_users s p - insert np E" for p using None by (auto simp: ipc_users_def)
  ultimately show ?thesis using same_inv [OF inv same_refl ipcns_parts(8) [OF inv], of E] ipcns_parts(9) [OF inv] by simp
next
  case (Some p)
  obtain n where n: "ns_heap s p = Some n" using ipcns_parts(9) [OF inv Some] by blast
  have "p \<in> ie_ns ` set (ns_list s)" using ipcns_parts(4) [OF inv] n by blast
  then have h: "nsproxy_hold (Some np) s = ns_upd p (ins_count_update (\<lambda>c. c + 1)) s"
    using Some by (simp add: nsproxy_hold_def ipcns_is_ours_def ipcns_get_def)
  have u: "ipc_users s p - E = insert np (ipc_users s p - insert np E)" using Some np by (auto simp: ipc_users_def)
  have "card (ipc_users s p - E) = card (ipc_users s p - insert np E) + 1" unfolding u by (simp add: users_finite [OF inv])
  then have "ns_inv (insert np E) F s \<Longrightarrow> ns_host s \<noteq> Some p \<Longrightarrow> int (card (ipc_users s p - E)) + int (F p) \<le> ins_count n + 1"
    using ipcns_parts(13) [OF inv n] by linarith
  note c = this [OF inv]
  let ?t = "ns_upd p (ins_count_update (\<lambda>c. c + 1)) s"
  have t: "ns_inv (insert np E) F ?t" by (rule upd_inv [OF inv n]) (use ipcns_parts(11-13) [OF inv n] in auto)
  have ut: "ipc_users ?t q = ipc_users s q" for q by (rule users_cong) simp
  have other: "ipc_users s q - E = ipc_users s q - insert np E" if "q \<noteq> p" for q using Some that by (auto simp: ipc_users_def)
  have "1 \<le> ins_count m \<and> classes_exit [] m \<noteq> None \<and> (ns_host ?t = Some q \<or> int (card (ipc_users ?t q - E)) + int (F q) \<le> ins_count m)"
    if m: "ns_heap ?t q = Some m" for q m
  proof (cases "q = p")
    case True
    have "ns_host s = Some p \<or> int (card (ipc_users s p - E)) + int (F p) \<le> ins_count m" using m n c True by (cases "ns_host s = Some p") auto
    then show ?thesis using ipcns_parts(11,12) [OF t m] True unfolding ut by simp
  next
    case False
    then show ?thesis using ipcns_parts(11-13) [OF t m] unfolding ut other [OF False] by blast
  qed
  then show ?thesis using ipcns_parts(1-10) [OF t] unfolding h ns_inv_def by blast
qed

end
