(* ===== verification/NsOps.thy ===== *)
theory NsOps
  imports NsInv
begin

text \<open>Creation, the last reference, and proxies: every part of the wrappers keeps the references counted.\<close>

section \<open>Proxies\<close>

lemma set_task_same [simp]: "same_ipc s (set_task t np s)" "ns_proxies (set_task t np s) = ns_proxies s"
  "proxy_of (set_task t np s) u = (if u = t then np else proxy_of s u)" "proxy_ipc (set_task t np s) q = proxy_ipc s q"
  by (auto simp: same_ipc_def set_task_def proxy_of_def proxy_ipc_def)

lemma set_task_inv: "ns_inv E F s \<Longrightarrow> ns_inv E F (set_task t np s)"
  by (rule ipcns_proxies_inv) simp_all

lemma mono_inv:
  assumes inv: "ns_inv E F s" and "E \<subseteq> E'"
  shows "ns_inv E' F s"
  by (rule same_inv [OF inv same_refl ipcns_parts(8) [OF inv]]) (use assms(2) ipcns_parts(9) [OF inv] in auto)

lemma new_proxy_fields [simp]: "same_ipc s (new_proxy np t s)" "ns_proxies (new_proxy np t s) = (ns_proxies s)(np \<mapsto> \<lparr>nx_count = 1, nx_ipc = task_ipc s t\<rparr>)"
  "pd_nsproxy (ns_pid (new_proxy np t s)) np \<noteq> None" "proxy_of (new_proxy np t s) = proxy_of s"
  by (auto simp: same_ipc_def new_proxy_def proxy_of_def fun_eq_iff)

lemma new_proxy_ipc: "proxy_ipc (new_proxy np t s) q = (if q = np then task_ipc s t else proxy_ipc s q)"
  by (simp add: proxy_ipc_def)

lemma new_proxy_inv:
  assumes inv: "ns_inv E F s"
  shows "ns_inv (insert np E) F (new_proxy np t s)"
proof (rule same_inv [OF inv new_proxy_fields(1)])
  show "finite (dom (ns_proxies (new_proxy np t s)))" using ipcns_parts(8) [OF inv] by simp
  show "ipc_users (new_proxy np t s) p - insert np E \<subseteq> ipc_users s p - E" for p by (auto simp: ipc_users_def new_proxy_ipc)
  show "ns_heap s p \<noteq> None" if "proxy_ipc (new_proxy np t s) q = Some p" for p q
    using that ipcns_parts(9) [OF inv] by (auto simp: new_proxy_ipc task_ipc_def bind_eq_Some_conv split: if_splits)
qed

lemma share_inv:
  assumes inv: "ns_inv E F s"
  shows "ns_inv E F (share_proxy t s)" "proxy_of (share_proxy t s) = proxy_of s" "proxy_ipc (share_proxy t s) = proxy_ipc s"
proof -
  have i: "proxy_ipc (share_proxy t s) = proxy_ipc s" by (auto simp: share_proxy_def proxy_ipc_def fun_eq_iff bind_eq_Some_conv split: option.splits)
  have u: "ipc_users (share_proxy t s) p = ipc_users s p" for p by (simp add: ipc_users_def i)
  have s: "same_ipc s (share_proxy t s)" by (simp add: share_proxy_def same_ipc_def split: option.splits)
  have f: "finite (dom (ns_proxies (share_proxy t s)))" using ipcns_parts(8) [OF inv] by (simp add: share_proxy_def split: option.splits)
  show "ns_inv E F (share_proxy t s)" by (rule same_inv [OF inv s f]) (simp_all add: u i ipcns_parts(9) [OF inv])
  show "proxy_of (share_proxy t s) = proxy_of s" by (auto simp: share_proxy_def proxy_of_def fun_eq_iff split: option.splits)
  show "proxy_ipc (share_proxy t s) = proxy_ipc s" by (rule i)
qed

text \<open>A proxy is pointed at a namespace the caller has a reference to; the reference is the proxy's from now on.\<close>

lemma set_ipc_fields: "ns_proxies s np \<noteq> None \<Longrightarrow> same_ipc s (set_proxy_ipc np i s) \<and> proxy_of (set_proxy_ipc np i s) = proxy_of s
    \<and> proxy_ipc (set_proxy_ipc np i s) q = (if q = np then i else proxy_ipc s q)"
  by (auto simp: set_proxy_ipc_def same_ipc_def proxy_of_def proxy_ipc_def fun_eq_iff)

lemma set_ipc_inv:
  assumes inv: "ns_inv (insert np E) (F(p := F p + 1)) s" and np: "ns_proxies s np \<noteq> None"
  shows "ns_inv E F (set_proxy_ipc np (Some p) s)"
proof -
  let ?t = "set_proxy_ipc np (Some p) s"
  note P = ipcns_parts [OF inv]
  note f = set_ipc_fields [OF np, of "Some p"]
  have e: "ns_heap ?t = ns_heap s" "ns_list ?t = ns_list s" "ns_host ?t = ns_host s" "ns_kernel_owned ?t = ns_kernel_owned s" "ns_oops ?t = ns_oops s"
    using f by (simp_all add: same_ipc_def)
  have hp: "ns_heap s p \<noteq> None" using P(10) by (metis fun_upd_same add_eq_0_iff_both_eq_0 zero_neq_one)
  have fin: "finite (dom (ns_proxies ?t))" using P(8) np by (auto simp: set_proxy_ipc_def)
  have v: "ns_heap s q \<noteq> None" if "proxy_ipc ?t x = Some q" for x q using that f P(9) hp by (metis option.inject)
  have z: "F q = 0" if "ns_heap s q = None" for q using P(10) [OF that] by (auto split: if_splits)
  have up: "ipc_users ?t q - E \<subseteq> (if q = p then insert np (ipc_users s q - insert np E) else ipc_users s q - insert np E)" for q
    using f by (auto simp: ipc_users_def split: if_splits)
  have fu: "finite (ipc_users s q - insert np E)" for q by (simp add: users_finite [OF inv])
  have w: "1 \<le> ins_count n \<and> classes_exit [] n \<noteq> None \<and> (ns_host s = Some q \<or> int (card (ipc_users ?t q - E)) + int (F q) \<le> ins_count n)"
    if n: "ns_heap s q = Some n" for q n
  proof -
    have "card (ipc_users ?t q - E) \<le> (if q = p then Suc (card (ipc_users s q - insert np E)) else card (ipc_users s q - insert np E))"
      using card_mono [OF _ up [of q]] fu [of q] card_insert_le_m1 by (auto simp: card_insert_if split: if_splits)
    then show ?thesis using P(11,12) [OF n] P(13) [OF n] by (cases "ns_host s = Some q") (auto split: if_splits)
  qed
  show ?thesis
    by (rule ns_invI, unfold e)
      (rule P(1), rule P(2), rule P(3), rule P(4), rule P(5), erule P(6), erule (1) P(7), rule fin, erule v, erule z, erule w)
qed

lemma set_pid_fields: "pd_nsproxy (ns_pid s) np \<noteq> None \<Longrightarrow> same_ipc s (set_proxy_pid np ns s) \<and> ns_proxies (set_proxy_pid np ns s) = ns_proxies s
    \<and> proxy_of (set_proxy_pid np ns s) = proxy_of s"
  by (auto simp: set_proxy_pid_def same_ipc_def proxy_of_def fun_eq_iff)

lemma set_pid_inv: "ns_inv E F s \<Longrightarrow> pd_nsproxy (ns_pid s) np \<noteq> None \<Longrightarrow> ns_inv E F (set_proxy_pid np ns s)"
  using ipcns_proxies_inv [of E F s "set_proxy_pid np ns s"] set_pid_fields [of s np ns] by blast

text \<open>The last user of a proxy: its reference is now the caller's.\<close>

lemma put_proxy_fields: "same_ipc s (put_proxy old s)" "proxy_of (put_proxy old s) = proxy_of s"
    "proxy_ipc (put_proxy old s) q \<in> {None, proxy_ipc s q}"
  by (auto simp: put_proxy_def same_ipc_def proxy_of_def proxy_ipc_def fun_eq_iff bind_eq_Some_conv split: option.splits)

lemma put_kept_inv:
  assumes inv: "ns_inv E F s"
  shows "ns_inv E F (put_proxy old s)"
proof (rule same_inv [OF inv put_proxy_fields(1)])
  show "finite (dom (ns_proxies (put_proxy old s)))" using ipcns_parts(8) [OF inv] by (simp add: put_proxy_def split: option.splits)
  have "proxy_ipc s q = Some p" if "proxy_ipc (put_proxy old s) q = Some p" for q p using put_proxy_fields(3) [of old s q] that by auto
  then show "ipc_users (put_proxy old s) p - E \<subseteq> ipc_users s p - E" for p by (auto simp: ipc_users_def)
  show "ns_heap s p \<noteq> None" if "proxy_ipc (put_proxy old s) q = Some p" for p q
    using that put_proxy_fields(3) [of old s q] ipcns_parts(9) [OF inv] by auto
qed

lemma put_last_inv:
  assumes inv: "ns_inv E F s" and x: "ns_proxies s np = Some x" "nx_count x = 1" "nx_ipc x = Some p" and np: "np \<notin> E"
  shows "ns_inv E (F(p := F p + 1)) (put_proxy (Some np) s)"
proof -
  let ?t = "put_proxy (Some np) s"
  note P = ipcns_parts [OF inv]
  have t: "ns_proxies ?t = (ns_proxies s)(np := None)" using x by (simp add: put_proxy_def)
  have e: "ns_heap ?t = ns_heap s" "ns_list ?t = ns_list s" "ns_host ?t = ns_host s" "ns_kernel_owned ?t = ns_kernel_owned s" "ns_oops ?t = ns_oops s"
    using put_proxy_fields(1) [of s "Some np"] by (simp_all add: same_ipc_def)
  have i: "proxy_ipc ?t q = (if q = np then None else proxy_ipc s q)" for q by (simp add: proxy_ipc_def t)
  have ip: "proxy_ipc s np = Some p" using x by (simp add: proxy_ipc_def)
  have hp: "ns_heap s p \<noteq> None" by (rule P(9) [OF ip])
  have u: "ipc_users s q - E = (if q = p then insert np (ipc_users ?t q - E) else ipc_users ?t q - E)" for q
    using ip np by (auto simp: ipc_users_def i split: if_splits)
  have fin: "finite (dom (ns_proxies ?t))" using P(8) t by simp
  have fu: "finite (ipc_users ?t q)" for q
    by (rule finite_subset [OF _ fin]) (auto simp: ipc_users_def proxy_ipc_def bind_eq_Some_conv)
  have nm: "np \<notin> ipc_users ?t q" for q by (simp add: ipc_users_def i)
  have w: "1 \<le> ins_count n \<and> classes_exit [] n \<noteq> None \<and> (ns_host s = Some q \<or> int (card (ipc_users ?t q - E)) + int ((F(p := F p + 1)) q) \<le> ins_count n)"
    if n: "ns_heap s q = Some n" for q n
    using P(11,12) [OF n] P(13) [OF n] fu [of q] nm [of q] unfolding u [of q] by (cases "ns_host s = Some q") (auto split: if_splits)
  show ?thesis
    by (rule ns_invI, unfold e)
      (rule P(1), rule P(2), rule P(3), rule P(4), rule P(5), erule P(6), erule (1) P(7), rule fin, use i P(9) in \<open>force split: if_splits\<close>,
        use P(10) hp in force, erule w)
qed

section \<open>The last reference\<close>

definition freed :: "ptr \<Rightarrow> ns_state \<Rightarrow> ns_state \<Rightarrow> bool" where
  "freed p s t \<longleftrightarrow> ns_heap t = (ns_heap s)(p := None) \<and> ns_list t = ns_list s \<and> ns_host t = ns_host s \<and> ns_kernel_owned t = ns_kernel_owned s
     \<and> ns_oops t = ns_oops s \<and> ns_proxies t = ns_proxies s \<and> ns_pid t = ns_pid s"

lemma free_ns: "ns_heap s p = Some n \<Longrightarrow> classes_exit [] n \<noteq> None \<Longrightarrow> freed p s (ds_free_ipc_ns e p s)"
  using classes_exit_acct [of "ns_acct s" n] by (auto simp: ds_free_ipc_ns_def freed_def put_user_ns_def Let_def split: option.splits)

lemma find_entry:
  assumes inv: "ns_inv E F s" and p: "ns_heap s p \<noteq> None"
  obtains x where "find (\<lambda>x. ie_ns x = p) (ns_list s) = Some x" "x \<in> set (ns_list s)" "ie_ns x = p" "\<not> ie_kernel_owned x" "ie_init x \<longrightarrow> ns_host s = Some p"
proof -
  have "p \<in> ie_ns ` set (ns_list s)" using ipcns_parts(4) [OF inv] p by blast
  then obtain x where x: "find (\<lambda>x. ie_ns x = p) (ns_list s) = Some x" by (cases "find (\<lambda>x. ie_ns x = p) (ns_list s)") (auto simp: find_None_iff)
  then have m: "x \<in> set (ns_list s)" "ie_ns x = p" by (auto simp: find_Some_iff)
  show thesis by (rule that [OF x m]) (use ipcns_parts(6,7) [OF inv m(1)] m(2) in auto)
qed

lemma remove_entry: "distinct (map ie_ns l) \<Longrightarrow> x \<in> set l \<Longrightarrow>
    ie_ns ` set (remove1 x l) = ie_ns ` set l - {ie_ns x} \<and> distinct (map ie_ns (remove1 x l)) \<and> set (remove1 x l) \<subseteq> set l"
  by (induction l) (auto simp: image_iff)

lemma removed_inv:
  assumes inv: "ns_inv E F s" and p: "ns_heap s p \<noteq> None" and h: "ns_host s \<noteq> Some p" and u: "ipc_users s p = {}" and F: "F p = 0"
    and x: "x \<in> set (ns_list s)" "ie_ns x = p" and t: "freed p (s\<lparr>ns_list := remove1 x (ns_list s)\<rparr>) t"
  shows "ns_inv E F t"
proof -
  note P = ipcns_parts [OF inv]
  note R = remove_entry [OF P(3) x(1)]
  have e: "ns_heap t = (ns_heap s)(p := None)" "ns_list t = remove1 x (ns_list s)" "ns_host t = ns_host s" "ns_kernel_owned t = ns_kernel_owned s"
    "ns_oops t = ns_oops s" "ns_proxies t = ns_proxies s" using t by (simp_all add: freed_def)
  have i: "proxy_ipc t q = proxy_ipc s q" "ipc_users t r = ipc_users s r" for q r by (simp_all add: proxy_ipc_def ipc_users_def e(6))
  have d: "dom ((ns_heap s)(p := None)) = ie_ns ` set (remove1 x (ns_list s))" using P(4) R x(2) by auto
  have hh: "\<exists>k. ns_host s = Some k \<and> ((ns_heap s)(p := None)) k \<noteq> None" using P(5) h by auto
  have v: "((ns_heap s)(p := None)) q \<noteq> None" if "proxy_ipc s np = Some q" for np q using P(9) [OF that] u that by (auto simp: ipc_users_def)
  have z: "F q = 0" if "((ns_heap s)(p := None)) q = None" for q using P(10) F that by (auto split: if_splits)
  have w: "1 \<le> ins_count n \<and> classes_exit [] n \<noteq> None \<and> (ns_host s = Some q \<or> int (card (ipc_users s q - E)) + int (F q) \<le> ins_count n)"
    if "((ns_heap s)(p := None)) q = Some n" for q n
  proof -
    have n: "ns_heap s q = Some n" using that by (auto split: if_splits)
    show ?thesis using P(11,12) [OF n] P(13) [OF n] by blast
  qed
  have k: "\<not> ie_kernel_owned y" "ie_init y \<Longrightarrow> ns_host s = Some (ie_ns y)" if "y \<in> set (remove1 x (ns_list s))" for y using P(6,7) R that by blast+
  have dn: "distinct (map ie_ns (remove1 x (ns_list s)))" using R by blast
  show ?thesis
    by (rule ns_invI, unfold e(1-5) i)
      (rule P(1), rule P(2), rule dn, rule d, rule hh, erule k(1), erule (1) k(2), use P(8) e(6) in simp, erule v, erule z, erule w)
qed

text \<open>Giving a reference up keeps the invariant, unless a proxy without a reference of its own still points there.\<close>

lemma put_ns_inv:
  assumes inv: "ns_inv E F s" and F: "F p = Suc k" and E: "\<forall>np \<in> E. proxy_ipc s np \<noteq> Some p"
  shows "ns_inv E (F(p := k)) (ipcns_put e (Some p) s)"
proof -
  note P = ipcns_parts [OF inv]
  have hp: "ns_heap s p \<noteq> None" using P(10) F by force
  obtain x where x: "find (\<lambda>x. ie_ns x = p) (ns_list s) = Some x" "x \<in> set (ns_list s)" "ie_ns x = p" "\<not> ie_kernel_owned x"
    "ie_init x \<longrightarrow> ns_host s = Some p" by (rule find_entry [OF inv hp])
  obtain n where n: "ns_heap s p = Some n" using hp by blast
  let ?s1 = "ns_upd p (ins_count_update (\<lambda>c. c - 1)) s"
  have put: "ipcns_put e (Some p) s = (if ins_count n \<noteq> 1 then ?s1
      else if ns_host s = Some p \<or> ie_init x then ns_upd p (ins_count_update (\<lambda>_. 1)) ?s1
      else ds_free_ipc_ns e p (?s1\<lparr>ns_list := remove1 x (ns_list s)\<rparr>))"
    by (simp add: ipcns_put_def x(1,4) n Let_def)
  have c: "ns_host s = Some p \<or> int (card (ipc_users s p - E)) + int k + 1 \<le> ins_count n" using P(13) [OF n] F by (cases "ns_host s = Some p") auto
  consider "ins_count n \<noteq> 1" | "ins_count n = 1" "ns_host s = Some p" | "ins_count n = 1" "ns_host s \<noteq> Some p" by blast
  then show ?thesis
  proof cases
    case 1
    have "ns_inv E (F(p := k)) ?s1" by (rule upd_inv [OF inv n]) (use 1 P(11,12) [OF n] c in auto)
    then show ?thesis using put 1 by simp
  next
    case 2
    have e: "ns_upd p (ins_count_update (\<lambda>_. 1)) ?s1 = ns_upd p (ins_count_update (\<lambda>_. 1)) s" by (simp add: ns_upd_def n)
    have "ns_inv E (F(p := k)) (ns_upd p (ins_count_update (\<lambda>_. 1)) s)" by (rule upd_inv [OF inv n]) (use 2 P(11,12) [OF n] in auto)
    then show ?thesis using put 2 e by simp
  next
    case 3
    have z: "card (ipc_users s p - E) = 0" "k = 0" using c 3 by auto
    then have "ipc_users s p \<subseteq> E" using users_finite [OF inv] by simp
    then have u: "ipc_users s p = {}" using E by (auto simp: ipc_users_def)
    have inv0: "ns_inv E (F(p := 0)) s"
    proof (rule ns_invI)
      show "(F(p := 0)) q = 0" if "ns_heap s q = None" for q using P(10) [OF that] by simp
      show "1 \<le> ins_count m \<and> classes_exit [] m \<noteq> None \<and> (ns_host s = Some q \<or> int (card (ipc_users s q - E)) + int ((F(p := 0)) q) \<le> ins_count m)"
        if "ns_heap s q = Some m" for q m
        using P(11-13) [OF that] by (cases "ns_host s = Some q") auto
    qed (rule P(1), rule P(2), rule P(3), rule P(4), rule P(5), erule P(6), erule (1) P(7), rule P(8), erule P(9))
    let ?u = "?s1\<lparr>ns_list := remove1 x (ns_list s)\<rparr>"
    have "freed p ?u (ds_free_ipc_ns e p ?u)" by (rule free_ns [where n = "ins_count_update (\<lambda>c. c - 1) n"]) (use n P(12) [OF n] in auto)
    moreover have "ns_heap ?u = (ns_heap s)(p \<mapsto> ins_count_update (\<lambda>c. c - 1) n)" using n by (auto simp: fun_eq_iff)
    ultimately have f: "freed p (s\<lparr>ns_list := remove1 x (ns_list s)\<rparr>) (ds_free_ipc_ns e p ?u)" using n by (simp add: freed_def ns_upd_oops [OF n])
    have "ns_inv E (F(p := 0)) (ds_free_ipc_ns e p ?u)" by (rule removed_inv [OF inv0 hp 3(2) u _ x(2,3) f]) simp
    then show ?thesis using put 3 x(5) z by simp
  qed
qed

end
