(* ===== verification/NsWrap.thy ===== *)
theory NsWrap
  imports NsOps
begin

text \<open>The wrappers and calls as a whole.\<close>

section \<open>Creation\<close>

definition more :: "(ptr \<Rightarrow> nat) \<Rightarrow> ptr option \<Rightarrow> ptr \<Rightarrow> nat" where
  "more F i = (case i of None \<Rightarrow> F | Some p \<Rightarrow> F(p := F p + 1))"

lemma zero_exit: "classes_init e a ((zero_ipc_ns p)\<lparr>ins_inum := i, ins_count := 1, ins_user := Some u\<rparr>) = (n, a', None) \<Longrightarrow>
    ins_count n = 1 \<and> ins_user n = Some u \<and> ins_inum n = i \<and> classes_exit [] n \<noteq> None"
  by (auto simp: classes_init_def zero_ipc_ns_def classes_exit_iff msg_init_ns_def sem_init_ns_def shm_init_ns_def ipc_init_ids_def Let_def
      ds_sem_exit_ns_def ds_msg_exit_ns_def ds_shm_exit_ns_def ds_free_ipcs_def ds_free_loop.simps split: prod.splits option.splits)

lemma mq_setup_keeps: "mq_setup e n = (m, r) \<Longrightarrow> ins_count m = ins_count n \<and> (classes_exit [] n \<noteq> None \<longrightarrow> classes_exit [] m \<noteq> None)"
  by (auto simp: mq_setup_def classes_exit_iff split: if_splits prod.splits option.splits)

definition apart :: "ns_state \<Rightarrow> ns_state \<Rightarrow> bool" where
  "apart s t \<longleftrightarrow> same_ipc s t \<and> ns_proxies t = ns_proxies s \<and> ns_pid t = ns_pid s"

lemma free_new:
  assumes "ns_heap s p = None" "classes_exit [] n \<noteq> None" "apart s t"
  shows "apart s (ds_free_ipc_ns e p (t\<lparr>ns_heap := (ns_heap t)(p \<mapsto> n)\<rparr>))"
proof -
  let ?u = "t\<lparr>ns_heap := (ns_heap t)(p \<mapsto> n)\<rparr>"
  have "freed p ?u (ds_free_ipc_ns e p ?u)" by (rule free_ns [where n = n]) (use assms(2) in simp_all)
  moreover have "(ns_heap t)(p := None) = ns_heap t" using assms(1,3) by (auto simp: apart_def same_ipc_def fun_eq_iff)
  ultimately show ?thesis using assms(3) by (simp add: apart_def same_ipc_def freed_def)
qed

lemma apart_inv: "ns_inv E F s \<Longrightarrow> apart s t \<Longrightarrow> ns_inv E F t"
  using ipcns_proxies_inv [of E F s t] by (simp add: apart_def)

text \<open>A new namespace, with the caller's reference to it.\<close>

lemma listed_inv:
  assumes inv: "ns_inv E F s" and p: "ns_heap s p = None" and n: "ins_count n = 1" "classes_exit [] n \<noteq> None" and a: "apart s t"
  shows "ns_inv E (F(p := F p + 1)) (t\<lparr>ns_heap := (ns_heap t)(p \<mapsto> n), ns_list := ns_list t @ [\<lparr>ie_ns = p, ie_kernel_owned = False, ie_init = False\<rparr>]\<rparr>)"
    (is "ns_inv E ?G ?u")
proof -
  note P = ipcns_parts [OF inv]
  have e: "ns_heap ?u = (ns_heap s)(p \<mapsto> n)" "ns_list ?u = ns_list s @ [\<lparr>ie_ns = p, ie_kernel_owned = False, ie_init = False\<rparr>]" "ns_host ?u = ns_host s"
    "ns_kernel_owned ?u = ns_kernel_owned s" "ns_oops ?u = ns_oops s" "ns_proxies ?u = ns_proxies s"
    using a by (simp_all add: apart_def same_ipc_def)
  have i: "proxy_ipc ?u q = proxy_ipc s q" "ipc_users ?u r = ipc_users s r" for q r using e(6) by (simp_all add: proxy_ipc_def ipc_users_def)
  have u: "ipc_users s p = {}" using p by (auto simp: ipc_users_def dest: P(9))
  have np: "p \<notin> ie_ns ` set (ns_list s)" using P(4) p by (metis domIff)
  have hh: "\<exists>h. ns_host s = Some h \<and> ((ns_heap s)(p \<mapsto> n)) h \<noteq> None" using P(5) by auto
  have w: "1 \<le> ins_count m \<and> classes_exit [] m \<noteq> None \<and> (ns_host s = Some q \<or> int (card (ipc_users s q - E)) + int (?G q) \<le> ins_count m)"
    if m: "((ns_heap s)(p \<mapsto> n)) q = Some m" for q m
  proof (cases "q = p")
    case True
    then show ?thesis using m n u P(10) [OF p] by simp
  next
    case False
    then have "ns_heap s q = Some m" using m by simp
    then show ?thesis using P(11-13) [of q m] False by auto
  qed
  have d: "dom ((ns_heap s)(p \<mapsto> n)) = ie_ns ` set (ns_list s @ [\<lparr>ie_ns = p, ie_kernel_owned = False, ie_init = False\<rparr>])" using P(4) by auto
  have dn: "distinct (map ie_ns (ns_list s @ [\<lparr>ie_ns = p, ie_kernel_owned = False, ie_init = False\<rparr>]))" using P(3) np by auto
  have k: "\<not> ie_kernel_owned x" "ie_init x \<Longrightarrow> ns_host s = Some (ie_ns x)"
    if "x \<in> set (ns_list s @ [\<lparr>ie_ns = p, ie_kernel_owned = False, ie_init = False\<rparr>])" for x using that P(6,7) [of x] by auto
  have fin: "finite (dom (ns_proxies ?u))" unfolding e(6) by (rule P(8))
  have v: "((ns_heap s)(p \<mapsto> n)) q \<noteq> None" if "proxy_ipc s x = Some q" for x q using P(9) [OF that] by simp
  have z: "?G q = 0" if "((ns_heap s)(p \<mapsto> n)) q = None" for q using P(10) [of q] that by (auto split: if_splits)
  show ?thesis
    by (rule ns_invI, unfold e(1-5) i)
      (rule P(1), rule P(2), rule dn, rule d, rule hh, erule k(1), erule (1) k(2), rule fin, erule v, erule z, erule w)
qed

lemma create_ns:
  assumes inv: "ns_inv E F s" and k: "kmalloc_ok (ni_zalloc e)" and c: "ipcns_create e s = (t, r)"
  shows "ns_inv E (case r of Inl _ \<Rightarrow> F | Inr p \<Rightarrow> F(p := F p + 1)) t \<and> ns_proxies t = ns_proxies s \<and> ns_pid t = ns_pid s
    \<and> (\<forall>p. r = Inr p \<longrightarrow> ns_heap s p = None \<and> ns_heap t p \<noteq> None)"
proof -
  note P = ipcns_parts [OF inv]
  have done0: "?thesis" if "r = Inl err" "apart s t" for err
    using that apart_inv [OF inv that(2)] by (simp add: apart_def)
  show ?thesis
  proof (cases "ni_zalloc e (\<lambda>p. ns_heap s p \<noteq> None)")
    case None
    then show ?thesis using c P(2) by (intro done0 [of ENOMEM]) (auto simp: ipcns_create_def apart_def)
  next
    case (Some p)
    have p: "ns_heap s p = None" using k Some unfolding kmalloc_ok_def by blast
    show ?thesis
    proof (cases "ni_inum e")
      case (Inl err)
      then show ?thesis using c P(2) Some by (intro done0 [of err]) (auto simp: ipcns_create_def apart_def)
    next
      case (Inr i)
      let ?u = "pk_cred_ns (ni_pid e)"
      obtain s1 where s1: "s\<lparr>ns_inums := insert i (ns_inums s), ns_users := (ns_users s)(?u := ns_users s ?u + 1)\<rparr> = s1" by blast
      have a1: "apart s s1" unfolding s1 [symmetric] by (simp add: apart_def same_ipc_def)
      obtain n a x where x: "classes_init e (ns_acct s1) ((zero_ipc_ns p)\<lparr>ins_inum := i, ins_count := 1, ins_user := Some ?u\<rparr>) = (n, a, x)" by (metis surj_pair)
      have sa: "ns_acct s1 = ns_acct s" unfolding s1 [symmetric] by simp
      let ?s2 = "s1\<lparr>ns_acct := a\<rparr>"
      have a2: "apart s ?s2" using a1 by (simp add: apart_def same_ipc_def)
      show ?thesis
      proof (cases x)
        case (Some err)
        have "t = put_user_ns (ins_user n) (s1\<lparr>ns_inums := ns_inums s1 - {i}, ns_acct := a\<rparr>)" "r = Inl err"
          using c P(2) \<open>ni_zalloc e _ = Some p\<close> Inr x Some by (simp_all add: ipcns_create_def Let_def s1 [symmetric])
        then show ?thesis using a1 by (intro done0 [of err]) (auto simp: apart_def same_ipc_def put_user_ns_def split: option.splits)
      next
        case None
        have n: "ins_count n = 1" "classes_exit [] n \<noteq> None" using zero_exit x None by blast+
        obtain m y where y: "mq_setup e n = (m, y)" by (metis surj_pair)
        have m: "ins_count m = 1" "classes_exit [] m \<noteq> None" using mq_setup_keeps [OF y] n by auto
        show ?thesis
        proof (cases y)
          case (Some err)
          have "t = ds_free_ipc_ns e p (?s2\<lparr>ns_heap := (ns_heap ?s2)(p \<mapsto> m)\<rparr>)" "r = Inl err"
            using c P(2) \<open>ni_zalloc e _ = Some p\<close> Inr x None y Some by (simp_all add: ipcns_create_def Let_def s1 [symmetric])
          then show ?thesis using free_new [OF p m(2) a2] by (intro done0 [of err]) auto
        next
          case y0: None
          let ?m = "m\<lparr>ins_sysctl := (ni_sysctl e = Some True)\<rparr>"
          have m2: "ins_count ?m = 1" "classes_exit [] ?m \<noteq> None" using m by (simp_all add: classes_exit_iff)
          show ?thesis
          proof (cases "ni_sysctl e = Some False \<or> \<not> ni_entry e")
            case True
            then have "t = ds_free_ipc_ns e p (?s2\<lparr>ns_heap := (ns_heap ?s2)(p \<mapsto> ?m)\<rparr>)" "r = Inl ENOMEM"
              using c P(2) \<open>ni_zalloc e _ = Some p\<close> Inr x None y y0 by (auto simp: ipcns_create_def Let_def s1 [symmetric])
            then show ?thesis using free_new [OF p m2(2) a2] by (intro done0 [of ENOMEM]) auto
          next
            case False
            then have t: "t = ?s2\<lparr>ns_heap := (ns_heap ?s2)(p \<mapsto> ?m), ns_list := ns_list ?s2 @ [\<lparr>ie_ns = p, ie_kernel_owned = False, ie_init = False\<rparr>]\<rparr>" "r = Inr p"
              using c P(2) \<open>ni_zalloc e _ = Some p\<close> Inr x None y y0 by (auto simp: ipcns_create_def Let_def s1 [symmetric])
            have "ns_inv E (F(p := F p + 1)) t" unfolding t(1) by (rule listed_inv [OF inv p m2 a2])
            moreover have "ns_proxies t = ns_proxies s" "ns_pid t = ns_pid s" "ns_heap t p \<noteq> None" using a1 t(1) by (simp_all add: apart_def)
            ultimately show ?thesis using t(2) p by simp
          qed
        qed
      qed
    qed
  qed
qed

section \<open>New namespaces for a caller\<close>

lemma create_pid_keeps: "pidns_create e parent s = (t, r) \<Longrightarrow> pd_nsproxy t = pd_nsproxy s \<and> pd_task_nsproxy t = pd_task_nsproxy s"
  by (auto simp: pidns_create_def create_pid_cachep_def Let_def split: option.splits if_splits prod.splits sum.splits bool.splits)

text \<open>What the calls in between leave alone: the proxies and which task has which.\<close>

definition proxies_kept :: "ns_state \<Rightarrow> ns_state \<Rightarrow> bool" where
  "proxies_kept s t \<longleftrightarrow> ns_proxies t = ns_proxies s \<and> proxy_of t = proxy_of s"

lemma new_pid_keeps:
  assumes "ns_inv E F s" "new_pid_for e t s = (u, r)"
  shows "ns_inv E F u \<and> proxies_kept s u"
proof -
  have "same_ipc s u \<and> proxies_kept s u"
    using assms(2) create_pid_keeps
    by (auto simp: new_pid_for_def same_ipc_def proxies_kept_def proxy_of_def fun_eq_iff split: option.splits if_splits prod.splits)
  then show ?thesis using ipcns_proxies_inv [OF assms(1)] by (auto simp: proxies_kept_def)
qed

lemma on_pid_put: "ns_inv E F s \<Longrightarrow> ns_inv E F (on_pid f s)"
  by (rule ipcns_proxies_inv) simp_all

lemma pidns_put_tasks: "proxy_of (on_pid (pidns_put p) s) = proxy_of s"
  by (cases p) (auto simp: proxy_of_def on_pid_def pidns_put_def pn_upd_def fun_eq_iff split: option.splits)

lemma new_pair_inv:
  assumes inv: "ns_inv E F s" and k: "kmalloc_ok (ni_zalloc e)" and c: "new_ns_pair e wp wi t s = (u, r)"
  shows "proxies_kept s u \<and> (case r of Inl _ \<Rightarrow> ns_inv E F u | Inr (pid, ipc) \<Rightarrow> ns_inv E (more F ipc) u \<and> (ipc = None \<longleftrightarrow> \<not> wi)
      \<and> (\<forall>p. ipc = Some p \<longrightarrow> ns_heap s p = None))"
proof -
  obtain v q where v: "(if wp then (case new_pid_for e t s of (s, Inl err) \<Rightarrow> (s, Inl err) | (s, Inr p) \<Rightarrow> (s, Inr (Some p))) else (s, Inr None)) = (v, q)"
    by (rule prod.exhaust)
  have vi: "ns_inv E F v \<and> proxies_kept s v \<and> same_ipc s v"
  proof (cases wp)
    case True
    obtain v2 q2 where n: "new_pid_for e t s = (v2, q2)" by (metis surj_pair)
    have "v = v2" using v n True by (auto split: sum.splits)
    moreover have "same_ipc s v2" using n by (auto simp: new_pid_for_def same_ipc_def split: option.splits if_splits prod.splits)
    ultimately show ?thesis using new_pid_keeps [OF inv n] by simp
  next
    case False
    then show ?thesis using v inv by (auto simp: proxies_kept_def)
  qed
  show ?thesis
  proof (cases q)
    case (Inl err)
    then have "u = v" "r = Inl err" using c v by (simp_all add: new_ns_pair_def)
    then show ?thesis using vi by simp
  next
    case (Inr pid)
    show ?thesis
    proof (cases wi)
      case False
      then have "u = v" "r = Inr (pid, None)" using c v Inr by (simp_all add: new_ns_pair_def)
      then show ?thesis using vi False by (simp add: more_def)
    next
      case True
      obtain w i where w: "ipcns_create e v = (w, i)" by (metis surj_pair)
      note C = create_ns [OF conjunct1 [OF vi] k w]
      have kept: "proxies_kept s w" using C vi by (auto simp: proxies_kept_def proxy_of_def fun_eq_iff)
      have hv: "ns_heap v = ns_heap s" using vi by (simp add: same_ipc_def)
      show ?thesis
      proof (cases i)
        case (Inl err)
        then have "u = on_pid (pidns_put pid) w" "r = Inl err" using c v Inr True w by (simp_all add: new_ns_pair_def)
        then show ?thesis using C Inl on_pid_put [of E F w] kept by (simp add: proxies_kept_def pidns_put_tasks)
      next
        case (Inr p)
        then have "u = w" "r = Inr (pid, Some p)" using c v \<open>q = Inr pid\<close> True w by (simp_all add: new_ns_pair_def)
        then show ?thesis using C Inr kept True hv by (simp add: more_def)
      qed
    qed
  qed
qed

lemma put_pair_inv:
  assumes inv: "ns_inv E (more F ipc) s" and E: "\<forall>p. ipc = Some p \<longrightarrow> (\<forall>np \<in> E. proxy_ipc s np \<noteq> Some p)"
  shows "ns_inv E F (put_pair e pid ipc s)"
proof (cases ipc)
  case None
  then show ?thesis using on_pid_put [OF inv] by (simp add: put_pair_def ipcns_put_def more_def)
next
  case (Some p)
  let ?t = "on_pid (pidns_put pid) s"
  have t: "ns_inv E (F(p := F p + 1)) ?t" using on_pid_put [OF inv] Some by (simp add: more_def)
  have "\<forall>np \<in> E. proxy_ipc ?t np \<noteq> Some p" using E Some by (simp add: proxy_ipc_def)
  then have "ns_inv E ((F(p := F p + 1))(p := F p)) (ipcns_put e (Some p) ?t)" by (intro put_ns_inv [OF t]) simp_all
  then show ?thesis using Some by (simp add: put_pair_def)
qed

lemma fill_inv:
  assumes inv: "ns_inv (insert np E) (more F ipc) s" and np: "ns_proxies s np \<noteq> None" "pd_nsproxy (ns_pid s) np \<noteq> None" "np \<notin> E"
  shows "ns_inv E F (fill_proxy np pid ipc s)"
proof -
  let ?t = "if pid = None then s else set_proxy_pid np pid s"
  have t: "ns_inv (insert np E) (more F ipc) ?t" using set_pid_inv [OF inv np(2)] inv by simp
  have p: "ns_proxies ?t np \<noteq> None" using np(1) set_pid_fields [OF np(2), of pid] by simp
  show ?thesis
  proof (cases ipc)
    case None
    then show ?thesis using hold_inv [of np E F ?t] t np(3) by (simp add: fill_proxy_def more_def Let_def)
  next
    case (Some q)
    then show ?thesis using set_ipc_inv [of np E F q ?t] t p by (simp add: fill_proxy_def more_def Let_def)
  qed
qed

end
