(* ===== verification/NsSys.thy ===== *)
theory NsSys
  imports NsWrap
begin

text \<open>All tasks together: the hooked functions and calls as steps, and the invariant over time.\<close>

unbundle bit_operations_syntax

section \<open>The kernel's contract\<close>

lemma kernel_create: "ns_kernel_ok K \<Longrightarrow> (\<exists>err. nk_create K f t s = (s, Inl err))
    \<or> (\<exists>np. ns_proxies s np = None \<and> proxy_of s t \<noteq> Some np \<and> nk_create K f t s = (new_proxy np t s, Inr np))"
  unfolding ns_kernel_ok_def by blast

lemma kernel_switch: "ns_kernel_ok K \<Longrightarrow> nk_switch K t new s = set_task t new (put_proxy (proxy_of s t) s)"
  unfolding ns_kernel_ok_def by blast

lemma kernel_exit: "ns_kernel_ok K \<Longrightarrow> nk_exit K w t s = (if nk_inlined K then set_task t None (put_proxy (proxy_of s t) s) else w t None s)"
  using kernel_switch [of K t None s] unfolding ns_kernel_ok_def by simp

lemma kernel_copy:
  assumes "ns_kernel_ok K"
  obtains (fail) err where "nk_copy K c f t s = (s, Some err)"
    | (share) "\<not> has_flag f NS_NEW" "\<forall>x. Option.bind (proxy_of s t) (ns_proxies s) = Some x \<longrightarrow> 1 \<le> nx_count x" "nk_copy K c f t s = (share_proxy t s, None)"
    | (create_fail) u err where "has_flag f NS_NEW" "c f t s = (u, Inl err)" "nk_copy K c f t s = (u, Some err)"
    | (create) u np where "has_flag f NS_NEW" "c f t s = (u, Inr np)" "nk_copy K c f t s = (set_task t (Some np) u, None)"
proof -
  obtain u r where u: "c f t s = (u, r)" by (rule prod.exhaust)
  have "copy_ok K c f t s" using assms by (simp add: ns_kernel_ok_def)
  then show thesis unfolding copy_ok_def using that u by (cases r) auto
qed

lemma kernel_unshare:
  assumes "ns_kernel_ok K"
  obtains (fail) err where "nk_unshare K c w f t s = (s, Some err)" | (nothing) "nk_unshare K c w f t s = (s, None)"
    | (create_fail) u err where "c f t s = (u, Inl err)" "nk_unshare K c w f t s = (u, Some err)"
    | (create) u np where "c f t s = (u, Inr np)" "nk_unshare K c w f t s = (w t (Some np) u, None)"
proof -
  obtain u r where u: "c f t s = (u, r)" by (rule prod.exhaust)
  have "unshare_ok K c w f t s" using assms by (simp add: ns_kernel_ok_def)
  then show thesis unfolding unshare_ok_def using that u by (cases r) auto
qed

section \<open>The wrappers\<close>

lemma hold_any_inv:
  assumes inv: "ns_inv E F s"
  shows "ns_inv E F (nsproxy_hold nsp s)"
proof (cases "Option.bind nsp (proxy_ipc s)")
  case None
  then show ?thesis using inv by (simp add: nsproxy_hold_def)
next
  case (Some p)
  then obtain np where "proxy_ipc s np = Some p" by (cases nsp) auto
  then obtain n where n: "ns_heap s p = Some n" using ipcns_parts(9) [OF inv] by blast
  have "ns_inv E F (ipcns_get (Some p) s)" unfolding ipcns_get_def option.case
    by (rule upd_inv [OF inv n]) (use ipcns_parts(11-13) [OF inv n] in auto)
  then show ?thesis using inv Some by (simp add: nsproxy_hold_def)
qed

lemma cnn_hold_inv:
  assumes K: "ns_kernel_ok K" and inv: "ns_inv {} F s" and c: "cnn_hold K f t s = (u, r)"
  shows "ns_inv {} F u \<and> (\<forall>np. r = Inr np \<longrightarrow> ns_proxies u np \<noteq> None \<and> pd_nsproxy (ns_pid u) np \<noteq> None)"
  using kernel_create [OF K, of f t s]
proof (elim disjE exE conjE)
  fix err assume "nk_create K f t s = (s, Inl err)"
  then show ?thesis using c inv by (auto simp: cnn_hold_def)
next
  fix np assume a: "ns_proxies s np = None" "nk_create K f t s = (new_proxy np t s, Inr np)"
  then have u: "u = nsproxy_hold (Some np) (new_proxy np t s)" "r = Inr np" using c by (simp_all add: cnn_hold_def)
  have "ns_inv {} F u" unfolding u by (rule hold_inv [OF new_proxy_inv [OF inv]]) simp
  moreover have "ns_proxies u = ns_proxies (new_proxy np t s)" "ns_pid u = ns_pid (new_proxy np t s)"
    unfolding u by (simp_all add: nsproxy_hold_def ipcns_get_def split: option.split)
  ultimately show ?thesis using u(2) by simp
qed

lemma fill_fields: "ns_proxies s np \<noteq> None \<Longrightarrow> pd_nsproxy (ns_pid s) np \<noteq> None \<Longrightarrow>
    ns_proxies (fill_proxy np pid ipc s) np \<noteq> None \<and> pd_nsproxy (ns_pid (fill_proxy np pid ipc s)) np \<noteq> None"
  by (auto simp: fill_proxy_def Let_def nsproxy_hold_def ipcns_get_def set_proxy_pid_def set_proxy_ipc_def split: option.split)

lemma cnn_wrap_inv:
  assumes K: "ns_kernel_ok K" and k: "kmalloc_ok (ni_zalloc e)" and inv: "ns_inv {} F s" and c: "cnn_wrap e K f t s = (u, r)"
  shows "ns_inv {} F u \<and> (\<forall>np. r = Inr np \<longrightarrow> ns_proxies u np \<noteq> None \<and> pd_nsproxy (ns_pid u) np \<noteq> None)"
proof (cases "\<not> has_flag f CLONE_NEWPID \<and> \<not> has_flag f CLONE_NEWIPC \<or> \<not> ni_gate e")
  case True
  then have "cnn_hold K f t s = (u, r)" using c by (simp add: cnn_wrap_def)
  then show ?thesis by (rule cnn_hold_inv [OF K inv])
next
  case False
  obtain v q where v: "new_ns_pair e (has_flag f CLONE_NEWPID) (has_flag f CLONE_NEWIPC) t s = (v, q)" by (rule prod.exhaust)
  note N = new_pair_inv [OF inv k v]
  have g: "\<not> (\<not> has_flag f CLONE_NEWPID \<and> \<not> has_flag f CLONE_NEWIPC \<or> \<not> ni_gate e)" using False .
  show ?thesis
  proof (cases q)
    case (Inl err)
    then have "u = v" "r = Inl err" using c g v by (simp_all only: cnn_wrap_def Let_def if_False) auto
    then show ?thesis using N Inl by simp
  next
    case (Inr b)
    obtain pid ipc where q: "q = Inr (pid, ipc)" using Inr by (cases b) simp
    have vi: "ns_inv {} (more F ipc) v" using N q by simp
    let ?f = "inner_flags f"
    have c2: "(case nk_create K ?f t v of (s, Inl err) \<Rightarrow> (put_pair e pid ipc s, Inl err) | (s, Inr np) \<Rightarrow> (fill_proxy np pid ipc s, Inr np)) = (u, r)"
      using c g v q by (simp only: cnn_wrap_def Let_def if_False) simp
    show ?thesis
      using kernel_create [OF K, of ?f t v]
    proof (elim disjE exE conjE)
      fix err assume "nk_create K ?f t v = (v, Inl err)"
      then show ?thesis using c2 put_pair_inv [OF vi] by auto
    next
      fix np assume a: "ns_proxies v np = None" "nk_create K ?f t v = (new_proxy np t v, Inr np)"
      then have u: "u = fill_proxy np pid ipc (new_proxy np t v)" "r = Inr np" using c2 by simp_all
      have "ns_inv {} F u" unfolding u by (rule fill_inv [OF new_proxy_inv [OF vi]]) simp_all
      then show ?thesis using u fill_fields [of "new_proxy np t v" np pid ipc] by simp
    qed
  qed
qed

text \<open>The release of a proxy: if it was the last user, its reference goes too.\<close>

lemma release_inv:
  assumes inv: "ns_inv E F s" and E: "nsproxy_last (proxy_of s t) s \<Longrightarrow> E = {}"
  shows "ns_inv E F (nsproxy_release e t (\<lambda>s. set_task t new (put_proxy (proxy_of s t) s)) s)"
proof (cases "nsproxy_last (proxy_of s t) s")
  case False
  then show ?thesis using set_task_inv [OF put_kept_inv [OF inv]] by (simp add: nsproxy_release_def)
next
  case True
  then obtain np x where np: "proxy_of s t = Some np" "ns_proxies s np = Some x" "nx_count x = 1"
    by (auto simp: nsproxy_last_def bind_eq_Some_conv split: option.splits)
  have i: "Option.bind (proxy_of s t) (proxy_ipc s) = nx_ipc x" using np by (simp add: proxy_ipc_def)
  let ?u = "set_task t new (put_proxy (Some np) s)"
  have r: "nsproxy_release e t (\<lambda>s. set_task t new (put_proxy (proxy_of s t) s)) s = nsproxy_drop e (nx_ipc x) ?u"
    using True i np(1) by (simp add: nsproxy_release_def Let_def)
  show ?thesis
  proof (cases "nx_ipc x")
    case None
    then show ?thesis using r set_task_inv [OF put_kept_inv [OF inv]] by (simp add: nsproxy_drop_def ipcns_is_ours_def)
  next
    case (Some p)
    have e: "E = {}" using E True by simp
    have u: "ns_inv {} (F(p := F p + 1)) ?u"
      by (rule set_task_inv, rule put_last_inv [OF _ np(2,3) Some]) (use inv e in simp_all)
    have hp: "ns_heap ?u p \<noteq> None" using ipcns_parts(10) [OF u, of p] by auto
    then have "ipcns_is_ours ?u (Some p)" using ipcns_parts(4) [OF u] by (auto simp: ipcns_is_ours_def)
    moreover have "ns_inv {} ((F(p := F p + 1))(p := F p)) (ipcns_put e (Some p) ?u)" by (rule put_ns_inv [OF u]) simp_all
    ultimately show ?thesis using r e Some by (simp add: nsproxy_drop_def)
  qed
qed

lemma switch_wrap_inv: "ns_kernel_ok K \<Longrightarrow> ns_inv {} F s \<Longrightarrow> ns_inv {} F (switch_wrap e K t np s)"
  using release_inv [of "{}" F s t e np] by (simp add: switch_wrap_def nsproxy_switch_run_def kernel_switch nsproxy_release_def)

text \<open>An exit: where the inner switch is the hooked one, it has done the release before the hook of the exit does.\<close>

definition exit_once :: "ns_kernel \<Rightarrow> nat \<Rightarrow> ns_state \<Rightarrow> bool" where
  "exit_once K t s \<longleftrightarrow> nk_inlined K \<or> \<not> nsproxy_last (proxy_of s t) s \<or> task_ipc s t = None"

lemma exit_wrap_cases:
  assumes "ns_kernel_ok K"
  shows "exit_ns_wrap e K t s =
    (if exit_once K t s then switch_wrap e K t None s else nsproxy_drop e (task_ipc s t) (switch_wrap e K t None s))"
  using assms
  by (auto simp: exit_ns_wrap_def exit_once_def switch_wrap_def nsproxy_switch_run_def kernel_exit kernel_switch nsproxy_release_def task_ipc_def
      nsproxy_drop_def ipcns_is_ours_def Let_def)

lemma exit_wrap_inv: "ns_kernel_ok K \<Longrightarrow> ns_inv {} F s \<Longrightarrow> exit_once K t s \<Longrightarrow> ns_inv {} F (exit_ns_wrap e K t s)"
  by (simp add: exit_wrap_cases switch_wrap_inv)

lemma copy_inv:
  assumes K: "ns_kernel_ok K" and k: "kmalloc_ok (ni_zalloc e)" and inv: "ns_inv {} F s" and c: "nk_copy K (cnn_wrap e K) f t s = (u, r)"
  shows "ns_inv {} F u"
  using K
proof (cases rule: kernel_copy [where c = "cnn_wrap e K" and f = f and t = t and s = s])
  case (fail err)
  then show ?thesis using c inv by simp
next
  case share
  then show ?thesis using c share_inv(1) [OF inv] by simp
next
  case (create_fail v err)
  then show ?thesis using c cnn_wrap_inv [OF K k inv create_fail(2)] by simp
next
  case (create v np)
  then show ?thesis using c set_task_inv cnn_wrap_inv [OF K k inv create(2)] by auto
qed

text \<open>A plain \<^verbatim>\<open>copy_namespaces\<close> shares the proxy, which then has another user.\<close>

lemma copy_shared:
  assumes K: "ns_kernel_ok K" and f: "\<not> has_flag f NS_NEW" and c: "nk_copy K (cnn_wrap e K) f t s = (u, None)"
  shows "u = share_proxy t s \<and> \<not> nsproxy_last (proxy_of u t) u"
  using K
proof (cases rule: kernel_copy [where c = "cnn_wrap e K" and f = f and t = t and s = s])
  case share
  then show ?thesis using c by (auto simp: nsproxy_last_def share_proxy_def proxy_of_def bind_eq_Some_conv split: option.splits)
qed (use c f in auto)

lemma has_flag_or: "has_flag f (a OR b) \<longleftrightarrow> has_flag f a \<or> has_flag f b"
  by (simp add: has_flag_def bit.conj_disj_distrib or_eq_0_iff)

lemma inner_pid: "\<not> has_flag (inner_flags f) CLONE_NEWPID"
proof -
  have "inner_flags f AND CLONE_NEWPID = 0" unfolding inner_flags_def by (rule bit_eqI) (auto simp: bit_simps)
  then show ?thesis by (simp add: has_flag_def)
qed

lemma inner_new: "has_flag (inner_flags f) NS_NEW \<longleftrightarrow> has_flag (inner_flags f) NS_FLAGS"
  using inner_pid by (simp add: NS_NEW_def has_flag_or)

text \<open>With namespaces asked for, a success leaves the task with a proxy in memory.\<close>

lemma copy_created:
  assumes K: "ns_kernel_ok K" and k: "kmalloc_ok (ni_zalloc e)" and inv: "ns_inv {} F s" and f: "has_flag f NS_NEW"
    and c: "nk_copy K (cnn_wrap e K) f t s = (u, None)"
  shows "\<exists>np. proxy_of u t = Some np \<and> ns_proxies u np \<noteq> None \<and> pd_nsproxy (ns_pid u) np \<noteq> None"
  using K
proof (cases rule: kernel_copy [where c = "cnn_wrap e K" and f = f and t = t and s = s])
  case (create v np)
  then have u: "u = set_task t (Some np) v" using c by simp
  then show ?thesis using cnn_wrap_inv [OF K k inv create(2)] by (simp add: set_task_def proxy_of_def)
qed (use c f in auto)

lemma put_proxy_other: "old \<noteq> Some np \<Longrightarrow> ns_proxies (put_proxy old s) np = ns_proxies s np \<and> pd_nsproxy (ns_pid (put_proxy old s)) np = pd_nsproxy (ns_pid s) np"
  by (cases old) (auto simp: put_proxy_def split: option.split)

lemma new_proxy_there: "ns_proxies (new_proxy np t s) np \<noteq> None" "pd_nsproxy (ns_pid (new_proxy np t s)) np \<noteq> None"
  by (simp_all add: new_proxy_def)

lemma set_task_fields: "proxy_of (set_task t np s) t = np" "ns_proxies (set_task t np s) = ns_proxies s" "pd_nsproxy (ns_pid (set_task t np s)) = pd_nsproxy (ns_pid s)"
  by (simp_all add: set_task_def proxy_of_def)

lemma cn_wrap_inv:
  assumes K: "ns_kernel_ok K" and k: "kmalloc_ok (ni_zalloc e)" and inv: "ns_inv {} F s" and c: "cn_wrap e K f t s = (u, r)"
  shows "ns_inv {} F u"
proof -
  let ?call = "nk_copy K (cnn_wrap e K)" and ?inner = "inner_flags f"
  let ?plain = "\<not> has_flag f CLONE_NEWPID \<and> \<not> has_flag f CLONE_NEWIPC \<or> nk_has_switch K \<and> \<not> ni_gate e"
  let ?kernel = "\<not> nk_has_switch K \<or> f AND (CLONE_NEWIPC OR CLONE_SYSVSEM_F) = CLONE_NEWIPC OR CLONE_SYSVSEM_F"
  obtain v q where v: "?call f t s = (v, q)" by (rule prod.exhaust)
  note vi = copy_inv [OF K k inv v]
  consider (plain) ?plain | (kernel) "\<not> ?plain" ?kernel | (new) "\<not> ?plain" "\<not> ?kernel" by blast
  then show ?thesis
  proof cases
    case plain
    then have "u = v \<or> u = nsproxy_hold (proxy_of v t) v" using c v by (cases q) (auto simp: cn_wrap_def Let_def split: if_splits)
    then show ?thesis using vi hold_any_inv [OF vi] by auto
  next
    case kernel
    then have "u = v" using c v by (auto simp: cn_wrap_def Let_def split: if_splits)
    then show ?thesis using vi by simp
  next
    case new
    have g1: "(\<not> has_flag f CLONE_NEWPID \<and> \<not> has_flag f CLONE_NEWIPC) = False" using new by blast
    have g2: "nk_has_switch K = True" using new by blast
    have g3: "ni_gate e = True" using new by blast
    have g4: "(f AND (CLONE_NEWIPC OR CLONE_SYSVSEM_F) = CLONE_NEWIPC OR CLONE_SYSVSEM_F) = False" using new by blast
    note c' = c [unfolded cn_wrap_def Let_def g1 g2 g3 g4 if_False not_True_eq_False]
    obtain w x where w: "new_ns_pair e (has_flag f CLONE_NEWPID) (has_flag f CLONE_NEWIPC) t s = (w, x)" by (rule prod.exhaust)
    note N = new_pair_inv [OF inv k w]
    show ?thesis
    proof (cases x)
      case (Inl err)
      then have "u = w" using c' w by simp
      then show ?thesis using N Inl by simp
    next
      case (Inr b)
      obtain pid ipc where x: "x = Inr (pid, ipc)" using Inr by (cases b) simp
      have wi: "ns_inv {} (more F ipc) w" using N x by simp
      obtain y z where y: "?call ?inner t w = (y, z)" by (rule prod.exhaust)
      note yi = copy_inv [OF K k wi y]
      show ?thesis
      proof (cases z)
        case (Some err)
        then have "u = put_pair e pid ipc y" using c' w x y by simp
        then show ?thesis using put_pair_inv [OF yi] by simp
      next
        case None
        have cr: "(case (if has_flag ?inner NS_FLAGS then (y, Inr ())
                            else (case nk_create K 0 t y of
                                    (s, Inl err) \<Rightarrow> (put_pair e pid ipc s, Inl err)
                                  | (s, Inr priv) \<Rightarrow> (switch_wrap e K t (Some priv) s, Inr ()))) of
                        (s, Inl err) \<Rightarrow> (s, Some err)
                      | (s, Inr _) \<Rightarrow>
                          (case proxy_of s t of
                             None \<Rightarrow> (s\<lparr>ns_oops := True\<rparr>, None)
                           | Some np \<Rightarrow> (fill_proxy np pid ipc s, None))) = (u, r)"
          using c' w x y None by simp
        show ?thesis
        proof (cases "has_flag ?inner NS_FLAGS")
          case True
          obtain np where np: "proxy_of y t = Some np" "ns_proxies y np \<noteq> None" "pd_nsproxy (ns_pid y) np \<noteq> None"
            using copy_created [OF K k wi, of ?inner t y] True y None inner_new by auto
          have "u = fill_proxy np pid ipc y" using cr True np(1) by simp
          then show ?thesis using fill_inv [OF mono_inv [OF yi] np(2,3), of "{}"] by simp
        next
          case False
          have sh: "y = share_proxy t w" "\<not> nsproxy_last (proxy_of y t) y" using copy_shared [OF K, of ?inner] False y None inner_new by auto
          show ?thesis
            using kernel_create [OF K, of 0 t y]
          proof (elim disjE exE conjE)
            fix err assume "nk_create K 0 t y = (y, Inl err)"
            then have "u = put_pair e pid ipc y" using cr False by simp
            then show ?thesis using put_pair_inv [OF yi] by simp
          next
            fix np assume a: "ns_proxies y np = None" "proxy_of y t \<noteq> Some np" "nk_create K 0 t y = (new_proxy np t y, Inr np)"
            let ?n = "new_proxy np t y" and ?m = "switch_wrap e K t (Some np) (new_proxy np t y)"
            have ni: "ns_inv {np} (more F ipc) ?n" using new_proxy_inv [OF yi] by simp
            have nl: "\<not> nsproxy_last (proxy_of ?n t) ?n" using sh(2) a(2) by (cases "proxy_of y t") (auto simp: nsproxy_last_def)
            have m: "?m = set_task t (Some np) (put_proxy (proxy_of ?n t) ?n)"
              using nl by (simp add: switch_wrap_def nsproxy_switch_run_def nsproxy_release_def kernel_switch [OF K] Let_def)
            have mi: "ns_inv {np} (more F ipc) ?m" unfolding m by (rule set_task_inv [OF put_kept_inv [OF ni]])
            have neq: "proxy_of y t \<noteq> Some np" using a(2) by blast
            have mp: "proxy_of ?m t = Some np" "ns_proxies ?m np \<noteq> None" "pd_nsproxy (ns_pid ?m) np \<noteq> None"
              using put_proxy_other [of "proxy_of ?n t" np ?n] neq new_proxy_there [of np t y] by (simp_all add: m set_task_fields del: new_proxy_fields(2))
            have "u = fill_proxy np pid ipc ?m" using cr False a(3) mp(1) by simp
            then show ?thesis using fill_inv [OF mi mp(2,3)] by simp
          qed
        qed
      qed
    qed
  qed
qed

end
