(* ===== verification/NsStep.thy ===== *)
theory NsStep
  imports NsSys
begin

text \<open>All tasks together: the hooked functions and system calls as steps, and what holds in every reachable state.\<close>

section \<open>unshare\<close>

lemma on_pid_inv [simp]: "ns_inv E F s \<Longrightarrow> ns_inv E F (on_pid f s)"
  by (rule ipcns_proxies_inv) simp_all

lemma kernel_unshare_inv:
  assumes K: "ns_kernel_ok K" and k: "kmalloc_ok (ni_zalloc e)" and inv: "ns_inv {} F s"
    and c: "nk_unshare K (cnn_wrap e K) (switch_wrap e K) f t s = (u, r)"
  shows "ns_inv {} F u"
  using K
proof (cases rule: kernel_unshare [where c = "cnn_wrap e K" and w = "switch_wrap e K" and f = f and t = t and s = s])
  case (create_fail v err)
  then show ?thesis using c cnn_wrap_inv [OF K k inv create_fail(1)] by simp
next
  case (create v np)
  then show ?thesis using c switch_wrap_inv [OF K, of F v e t "Some np"] cnn_wrap_inv [OF K k inv create(1)] by simp
qed (use c inv in simp_all)

lemma sys_unshare_inv:
  assumes K: "ns_kernel_ok K" and k: "kmalloc_ok (ni_zalloc e)" and inv: "ns_inv {} F s" and c: "sys_unshare e K True nf f s = (u, calls, r)"
  shows "ns_inv {} F u"
proof -
  obtain v q where v: "nk_unshare K (cnn_wrap e K) (switch_wrap e K) f (pk_task (ni_pid e)) s = (v, q)" by (rule prod.exhaust)
  have "ns_inv {} F v" by (rule kernel_unshare_inv [OF K k inv v])
  then show ?thesis using c v inv by (auto simp: sys_unshare_def Let_def split: if_splits option.splits)
qed

section \<open>Steps\<close>

text \<open>
  A configuration is \<open>(F, s)\<close>, \<open>F p\<close> being the number of open files of \<open>p\<close>. The steps are \<^verbatim>\<open>unshare\<close>, a fork
  (the child starts with the proxy of its parent, and is gone when the copy fails), the three hooked functions, the
  opening and closing of a namespace file, and what happens elsewhere: the tables of a namespace change in a way
  that their release still ends, the pid side changes, the kernel takes and drops users of a proxy and of user namespaces.
  \<^verbatim>\<open>setns\<close> on an ipc file and the path of \<^verbatim>\<open>clone\<close> that makes namespaces are not steps: they break the invariant. So does, where
  \<^verbatim>\<open>exit_task_namespaces\<close> calls the hooked \<^verbatim>\<open>switch_task_namespaces\<close>, the exit of the last user of a proxy with an ipc namespace.
\<close>

type_synonym ns_conf = "(ptr \<Rightarrow> nat) \<times> ns_state"

inductive ns_step :: "ns_kernel \<Rightarrow> ns_conf \<Rightarrow> ns_conf \<Rightarrow> bool" for K where
  unshare: "\<lbrakk>kmalloc_ok (ni_zalloc e); sys_unshare e K True nf f s = (s', calls, r)\<rbrakk> \<Longrightarrow> ns_step K (F, s) (F, s')"
| fork: "\<lbrakk>kmalloc_ok (ni_zalloc e); proxy_of s c = None; cn_wrap e K f c (set_task c (proxy_of s t) s) = (s', None)\<rbrakk> \<Longrightarrow> ns_step K (F, s) (F, s')"
| fork_fails: "\<lbrakk>kmalloc_ok (ni_zalloc e); proxy_of s c = None; cn_wrap e K f c (set_task c (proxy_of s t) s) = (s', Some err)\<rbrakk>
    \<Longrightarrow> ns_step K (F, s) (F, set_task c None s')"
| create: "\<lbrakk>kmalloc_ok (ni_zalloc e); cnn_wrap e K f t s = (s', r)\<rbrakk> \<Longrightarrow> ns_step K (F, s) (F, s')"
| switch: "ns_step K (F, s) (F, switch_wrap e K t new s)"
| task_exit: "exit_once K t s \<Longrightarrow> ns_step K (F, s) (F, exit_ns_wrap e K t s)"
| file_open: "ipcns_get_task t s = (s', Some p) \<Longrightarrow> ns_step K (F, s) (F(p := F p + 1), s')"
| file_close: "F p > 0 \<Longrightarrow> ns_step K (F, s) (F(p := F p - 1), ipcns_put e (Some p) s)"
| tables: "\<lbrakk>ns_heap s p = Some n; ins_count m = ins_count n; classes_exit [] m \<noteq> None\<rbrakk> \<Longrightarrow> ns_step K (F, s) (F, (ns_upd p (\<lambda>_. m) s)\<lparr>ns_acct := a\<rparr>)"
| pid_side: "ns_step K (F, s) (F, s\<lparr>ns_pid := d\<rparr>)"
| proxy_users: "ns_proxies s np = Some x \<Longrightarrow> ns_step K (F, s) (F, s\<lparr>ns_proxies := (ns_proxies s)(np \<mapsto> x\<lparr>nx_count := k\<rparr>)\<rparr>)"
| kernel_counts: "ns_step K (F, s) (F, s\<lparr>ns_users := U, ns_inums := I\<rparr>)"

text \<open>Where it starts: the module has been set up, on a kernel without ipc namespaces.\<close>

definition ns_boot :: "ns_state \<Rightarrow> bool" where
  "ns_boot s \<longleftrightarrow> (\<exists>e b trusted s0 n0. ipcns_init e b trusted s0 = (s, None) \<and> \<not> nb_kernel_ipc b
     \<and> \<not> ns_oops s0 \<and> \<not> ns_kernel_owned s0 \<and> ns_list s0 = [] \<and> ns_heap s0 = [nb_static b \<mapsto> n0]
     \<and> classes_exit [] (n0\<lparr>ins_shm := shm_init_ns (ins_shm n0)\<rparr>) \<noteq> None
     \<and> finite (dom (ns_proxies s0)) \<and> (\<forall>np. proxy_ipc s0 np = None))"

definition ns_reachable :: "ns_kernel \<Rightarrow> (ptr \<Rightarrow> nat) \<Rightarrow> ns_state \<Rightarrow> bool" where
  "ns_reachable K F s \<longleftrightarrow> (\<exists>s0. ns_boot s0 \<and> (ns_step K)\<^sup>*\<^sup>* (\<lambda>_. 0, s0) (F, s))"

section \<open>The invariant over time\<close>

lemma get_task_inv:
  assumes inv: "ns_inv {} F s" and g: "ipcns_get_task t s = (u, Some p)"
  shows "ns_inv {} (F(p := F p + 1)) u"
proof -
  have p: "ipcns_task_ns s t = Some p" and u: "u = ipcns_get (Some p) s" using g by (auto simp: ipcns_get_task_def)
  have "ns_heap s p \<noteq> None"
  proof (cases "Option.bind (proxy_of s t) (proxy_ipc s)")
    case None
    then have "ns_host s = Some p" using p by (simp add: ipcns_task_ns_def)
    then show ?thesis using ipcns_parts(5) [OF inv] by auto
  next
    case (Some q)
    then have "q = p" using p by (simp add: ipcns_task_ns_def)
    then obtain np where "proxy_ipc s np = Some p" using Some by (cases "proxy_of s t") auto
    then show ?thesis by (rule ipcns_parts(9) [OF inv])
  qed
  then show ?thesis unfolding u by (rule get_ns_inv [OF inv])
qed

lemma file_close_inv: "ns_inv {} F s \<Longrightarrow> F p > 0 \<Longrightarrow> ns_inv {} (F(p := F p - 1)) (ipcns_put e (Some p) s)"
  by (rule put_ns_inv) simp_all

lemma tables_inv:
  assumes inv: "ns_inv E F s" and n: "ns_heap s p = Some n" and m: "ins_count m = ins_count n" "classes_exit [] m \<noteq> None"
  shows "ns_inv E F (ns_upd p (\<lambda>_. m) s)"
  by (rule upd_inv [OF inv n]) (use ipcns_parts(11,13) [OF inv n] m in auto)

lemma acct_inv: "ns_inv E F s \<Longrightarrow> ns_inv E F (s\<lparr>ns_acct := a\<rparr>)"
  using ipcns_proxies_inv [of E F s "s\<lparr>ns_acct := a\<rparr>"] by (simp add: same_ipc_def)

lemma proxy_users_inv:
  assumes inv: "ns_inv E F s" and x: "ns_proxies s np = Some x"
  shows "ns_inv E F (s\<lparr>ns_proxies := (ns_proxies s)(np \<mapsto> x\<lparr>nx_count := k\<rparr>)\<rparr>)"
proof -
  let ?t = "s\<lparr>ns_proxies := (ns_proxies s)(np \<mapsto> x\<lparr>nx_count := k\<rparr>)\<rparr>"
  have i: "proxy_ipc ?t q = proxy_ipc s q" for q using x by (simp add: proxy_ipc_def)
  show ?thesis
    by (rule same_inv [OF inv]) (use ipcns_parts(8,9) [OF inv] i in \<open>auto simp: same_ipc_def ipc_users_def\<close>)
qed

lemma ns_step_inv: "ns_step K a b \<Longrightarrow> ns_kernel_ok K \<Longrightarrow> ns_inv {} (fst a) (snd a) \<Longrightarrow> ns_inv {} (fst b) (snd b)"
proof (induction rule: ns_step.induct)
  case (unshare e nf f s s' calls r F)
  then show ?case using sys_unshare_inv [of K e F s nf f s' calls r] by simp
next
  case (fork e s c f t s' F)
  then show ?case using cn_wrap_inv [of K e F "set_task c (proxy_of s t) s" f c s' None] set_task_inv [of "{}" F s c] by simp
next
  case (fork_fails e s c f t s' err F)
  then show ?case
    using cn_wrap_inv [of K e F "set_task c (proxy_of s t) s" f c s' "Some err"] set_task_inv [of "{}" F s c] set_task_inv [of "{}" F s' c None] by simp
next
  case (create e f t s s' r F)
  then show ?case using cnn_wrap_inv [of K e F s f t s' r] by simp
next
  case (switch F s e t new)
  then show ?case using switch_wrap_inv [of K F s e t new] by simp
next
  case (task_exit t s F e)
  then show ?case using exit_wrap_inv [of K F s t e] by simp
next
  case (file_open t s s' p F)
  then show ?case using get_task_inv [of F s t s' p] by (simp only: fst_conv snd_conv)
next
  case (file_close F p s e)
  then show ?case using file_close_inv [of F s p e] by (simp only: fst_conv snd_conv)
next
  case (tables s p n m F a)
  show ?case unfolding fst_conv snd_conv by (rule acct_inv [OF tables_inv]) (use tables in auto)
next
  case (pid_side F s d)
  then show ?case using ipcns_proxies_inv [of "{}" F s "s\<lparr>ns_pid := d\<rparr>"] by (simp add: same_ipc_def)
next
  case (proxy_users s np x F k)
  then show ?case using proxy_users_inv [of "{}" F s np x k] by simp
next
  case (kernel_counts F s I U)
  then show ?case using ipcns_proxies_inv [of "{}" F s "s\<lparr>ns_users := U, ns_inums := I\<rparr>"] by (simp add: same_ipc_def)
qed

lemma ns_boot_inv:
  assumes "ns_boot s"
  shows "ns_inv {} (\<lambda>_. 0) s"
proof -
  obtain e b trusted s0 n0 where i: "ipcns_init e b trusted s0 = (s, None)" and b: "\<not> nb_kernel_ipc b"
    and s0: "\<not> ns_oops s0" "\<not> ns_kernel_owned s0" "ns_list s0 = []" "ns_heap s0 = [nb_static b \<mapsto> n0]"
    and c: "classes_exit [] (n0\<lparr>ins_shm := shm_init_ns (ins_shm n0)\<rparr>) \<noteq> None"
    and p: "finite (dom (ns_proxies s0))" "\<forall>np. proxy_ipc s0 np = None"
    using assms unfolding ns_boot_def by blast
  let ?p = "nb_static b"
  let ?n = "n0\<lparr>ins_shm := shm_init_ns (ins_shm n0), ins_inum := 0xEFFFFFFF, ins_count := 1, ins_user := Some (nb_init_user b)\<rparr>"
  let ?s = "s0\<lparr>ns_heap := [?p \<mapsto> ?n], ns_host := Some ?p, ns_list := [\<lparr>ie_ns = ?p, ie_kernel_owned = False, ie_init = True\<rparr>]\<rparr>"
  have r: "nb_msgutil b = None" "nb_util b = None" using i by (auto simp: ipcns_init_def split: option.splits)
  have a: "nb_alias b" using i r by (auto simp: ipcns_init_def split: if_splits)
  obtain np where np: "nb_init_nsproxy b = Some np" using i r a by (cases "nb_init_nsproxy b") (auto simp: ipcns_init_def Let_def)
  have s: "s = ?s" using i b s0(3,4) r a np by (simp add: ipcns_init_def ns_upd_def Let_def)
  have "classes_exit [] ?n \<noteq> None" using c classes_exit_iff [of ?n] classes_exit_iff [of "n0\<lparr>ins_shm := shm_init_ns (ins_shm n0)\<rparr>"] by auto
  moreover have "proxy_ipc ?s np = None" for np using p(2) by (simp add: proxy_ipc_def)
  ultimately show ?thesis unfolding s by (intro ns_invI) (use s0 p in \<open>auto split: if_splits\<close>)
qed

lemma ns_reachable_inv:
  assumes "ns_kernel_ok K" and "ns_reachable K F s"
  shows "ns_inv {} F s"
proof -
  obtain s0 where b: "ns_boot s0" and r: "(ns_step K)\<^sup>*\<^sup>* (\<lambda>_. 0, s0) (F, s)" using assms(2) unfolding ns_reachable_def by blast
  have "ns_inv {} (fst c) (snd c)" if "(ns_step K)\<^sup>*\<^sup>* (\<lambda>_. 0, s0) c" for c
    using that
  proof (induction rule: rtranclp_induct)
    case base
    then show ?case using ns_boot_inv [OF b] by simp
  next
    case (step c d)
    then show ?case using ns_step_inv [OF step(2) assms(1) step(3)] by blast
  qed
  from this [OF r] show ?thesis by simp
qed

lemma ns_reachable_step: "ns_reachable K F s \<Longrightarrow> ns_step K (F, s) (G, t) \<Longrightarrow> ns_reachable K G t"
  unfolding ns_reachable_def by (meson rtranclp.rtrancl_into_rtrancl)

end
