(* ===== verification/NsFacts.thy ===== *)
theory NsFacts
  imports NsStep
begin

text \<open>What the calls do to the proxies and to the namespaces they are not about; the outcome of a creation.\<close>

section \<open>Dropping a reference\<close>

definition all_ours :: "ns_state \<Rightarrow> bool" where
  "all_ours s \<longleftrightarrow> (\<forall>x \<in> set (ns_list s). \<not> ie_kernel_owned x)"

lemma inv_ours: "ns_inv E F s \<Longrightarrow> all_ours s"
  using ipcns_parts(6) by (auto simp: all_ours_def)

lemma free_fields [simp]: "ns_proxies (ds_free_ipc_ns e p s) = ns_proxies s" "ns_pid (ds_free_ipc_ns e p s) = ns_pid s"
  "ns_list (ds_free_ipc_ns e p s) = ns_list s" "ns_host (ds_free_ipc_ns e p s) = ns_host s"
  by (auto simp: ds_free_ipc_ns_def put_user_ns_def Let_def split: option.splits)

lemma free_others: "q \<noteq> p \<Longrightarrow> ns_heap (ds_free_ipc_ns e q s) p = ns_heap s p" "ns_heap s p = None \<Longrightarrow> ns_heap (ds_free_ipc_ns e q s) p = None"
  by (auto simp: ds_free_ipc_ns_def put_user_ns_def Let_def split: option.splits)

lemma find_ours: "all_ours s \<Longrightarrow> find f (ns_list s) = Some x \<Longrightarrow> \<not> ie_kernel_owned x"
  unfolding find_Some_iff all_ours_def by (metis nth_mem)

lemma ipc_put_fields:
  assumes "all_ours s"
  shows "ns_proxies (ipcns_put e i s) = ns_proxies s" "ns_pid (ipcns_put e i s) = ns_pid s" "all_ours (ipcns_put e i s)"
    "i \<noteq> Some p \<Longrightarrow> ns_heap (ipcns_put e i s) p = ns_heap s p" "ns_heap s p = None \<Longrightarrow> ns_heap (ipcns_put e i s) p = None"
  using assms find_ours [OF assms]
  by (auto simp: ipcns_put_def Let_def free_others ns_upd_def all_ours_def dest: notin_set_remove1 split: option.splits)

text \<open>An entry other than the host's: its namespace goes with the last reference.\<close>

definition listed :: "ns_state \<Rightarrow> ptr \<Rightarrow> bool" where
  "listed s p \<longleftrightarrow> all_ours s \<and> ns_host s \<noteq> Some p \<and> p \<in> ie_ns ` set (ns_list s) \<and> (\<forall>x \<in> set (ns_list s). ie_ns x = p \<longrightarrow> \<not> ie_init x)"

lemma inv_listed: "ns_inv E F s \<Longrightarrow> ns_heap s p \<noteq> None \<Longrightarrow> ns_host s \<noteq> Some p \<Longrightarrow> listed s p"
  using ipcns_parts(4,7) [of E F s] inv_ours [of E F s] unfolding listed_def by blast

lemma listed_cong: "listed s p \<Longrightarrow> ns_list t = ns_list s \<Longrightarrow> ns_host t = ns_host s \<Longrightarrow> listed t p"
  by (simp add: listed_def all_ours_def)

lemma listed_ours: "listed s p \<Longrightarrow> ipcns_is_ours s (Some p)"
  by (simp add: listed_def ipcns_is_ours_def)

lemma listed_find:
  assumes "listed s p"
  obtains x where "find (\<lambda>x. ie_ns x = p) (ns_list s) = Some x" "ie_ns x = p" "\<not> ie_kernel_owned x" "\<not> ie_init x"
proof -
  have "find (\<lambda>x. ie_ns x = p) (ns_list s) \<noteq> None" using assms by (auto simp: listed_def find_None_iff)
  then obtain x where x: "find (\<lambda>x. ie_ns x = p) (ns_list s) = Some x" by blast
  then have "x \<in> set (ns_list s)" "ie_ns x = p" by (auto simp: find_Some_iff)
  then show thesis using that x assms by (auto simp: listed_def all_ours_def)
qed

lemma put_counts:
  assumes l: "listed s p" and n: "ns_heap s p = Some n" "ins_count n \<noteq> 1"
  shows "ipcns_put e (Some p) s = ns_upd p (ins_count_update (\<lambda>c. c - 1)) s"
  using l by (rule listed_find) (simp add: ipcns_put_def n Let_def)

lemma put_frees:
  assumes l: "listed s p" and n: "ns_heap s p = Some n" "ins_count n = 1" "classes_exit [] n \<noteq> None"
  shows "ns_heap (ipcns_put e (Some p) s) p = None"
  using l
proof (rule listed_find)
  fix x assume x: "find (\<lambda>x. ie_ns x = p) (ns_list s) = Some x" "\<not> ie_kernel_owned x" "\<not> ie_init x"
  let ?u = "ns_upd p (ins_count_update (\<lambda>c. c - 1)) s\<lparr>ns_list := remove1 x (ns_list s)\<rparr>"
  have u: "ns_heap ?u p = Some (ins_count_update (\<lambda>c. c - 1) n)" using n(1) by simp
  have h: "ns_host s \<noteq> Some p" using l by (simp add: listed_def)
  have "ipcns_put e (Some p) s = ds_free_ipc_ns e p (ns_upd p (ins_count_update (\<lambda>c. c - 1)) s\<lparr>ns_list := remove1 x (ns_list s)\<rparr>)"
    using x h by (simp add: ipcns_put_def n Let_def)
  moreover have "freed p ?u (ds_free_ipc_ns e p ?u)" by (rule free_ns [OF u]) (use n(3) in simp)
  ultimately show ?thesis by (simp add: freed_def)
qed

section \<open>The proxy of a task the call is not about\<close>

definition own_proxy :: "nat \<Rightarrow> ptr \<Rightarrow> ipc_nsproxy \<Rightarrow> ns_state \<Rightarrow> bool" where
  "own_proxy a q x s \<longleftrightarrow> proxy_of s a = Some q \<and> ns_proxies s q = Some x"

lemma own_ipc: "own_proxy a q x s \<Longrightarrow> task_ipc s a = nx_ipc x"
  by (simp add: own_proxy_def task_ipc_def proxy_ipc_def)

lemma own_new: "own_proxy a q x s \<Longrightarrow> q \<noteq> np \<Longrightarrow> own_proxy a q x (new_proxy np t s)"
  by (simp add: own_proxy_def new_proxy_def proxy_of_def)

lemma own_task: "own_proxy a q x s \<Longrightarrow> a \<noteq> t \<Longrightarrow> own_proxy a q x (set_task t np s)"
  by (simp add: own_proxy_def set_task_def proxy_of_def)

lemma own_put_proxy: "own_proxy a q x s \<Longrightarrow> old \<noteq> Some q \<Longrightarrow> own_proxy a q x (put_proxy old s)"
  using put_proxy_other [of old q s] put_proxy_fields(2) [of old s] by (simp add: own_proxy_def)

lemma own_set_ipc: "own_proxy a q x s \<Longrightarrow> q \<noteq> np \<Longrightarrow> own_proxy a q x (set_proxy_ipc np i s)"
  by (auto simp: own_proxy_def set_proxy_ipc_def proxy_of_def split: option.split)

lemma own_put: "all_ours s \<Longrightarrow> own_proxy a q x (ipcns_put e i s) = own_proxy a q x s"
  by (simp add: own_proxy_def ipc_put_fields proxy_of_def)

lemma own_upd: "own_proxy a q x (ns_upd p f s) = own_proxy a q x s"
  by (simp add: own_proxy_def proxy_of_def)

lemma own_hold: "own_proxy a q x (nsproxy_hold nsp s) = own_proxy a q x s"
  by (auto simp: nsproxy_hold_def ipcns_get_def own_upd split: option.split)

section \<open>A task leaves its proxy\<close>

text \<open>\<open>new\<close> is the proxy it goes to. The first is about a proxy others use too, the second about the last user.\<close>

definition leave_proxy :: "ipcns_env \<Rightarrow> nat \<Rightarrow> ptr option \<Rightarrow> ns_state \<Rightarrow> ns_state" where
  "leave_proxy e t new s = nsproxy_release e t (\<lambda>s. set_task t new (put_proxy (proxy_of s t) s)) s"

lemma switch_leave: "ns_kernel_ok K \<Longrightarrow> switch_wrap e K t new s = leave_proxy e t new s"
  by (simp add: switch_wrap_def nsproxy_switch_run_def kernel_switch leave_proxy_def nsproxy_release_def)

lemma exit_leave: "ns_kernel_ok K \<Longrightarrow> exit_ns_wrap e K t s =
    (if exit_once K t s then leave_proxy e t None s else nsproxy_drop e (task_ipc s t) (leave_proxy e t None s))"
  by (simp add: exit_wrap_cases switch_leave)

lemma drop_put: "all_ours s \<Longrightarrow> nsproxy_drop e i s \<in> {s, ipcns_put e i s}"
  by (simp add: nsproxy_drop_def)

lemma drop_ours: "all_ours s \<Longrightarrow> all_ours (nsproxy_drop e i s)"
  by (simp add: nsproxy_drop_def ipc_put_fields(3))

lemma leave_ours: "all_ours s \<Longrightarrow> all_ours (leave_proxy e t new s)"
proof -
  assume o: "all_ours s"
  have u: "all_ours (set_task t new (put_proxy (proxy_of s t) s))" using o by (auto simp: all_ours_def set_task_def put_proxy_def split: option.split)
  show ?thesis using u drop_ours [OF u] by (simp add: leave_proxy_def nsproxy_release_def Let_def)
qed

lemma leave_shared: "own_proxy t q x s \<Longrightarrow> nx_count x \<noteq> 1 \<Longrightarrow> leave_proxy e t new s = set_task t new (put_proxy (Some q) s)"
  by (simp add: leave_proxy_def nsproxy_release_def nsproxy_last_def own_proxy_def)

lemma leave_last: "own_proxy t q x s \<Longrightarrow> nx_count x = 1 \<Longrightarrow>
    leave_proxy e t new s = nsproxy_drop e (nx_ipc x) (set_task t new (put_proxy (Some q) s))"
  by (simp add: leave_proxy_def nsproxy_release_def nsproxy_last_def own_proxy_def proxy_ipc_def Let_def)

lemma leave_fields: "ns_list (set_task t new (put_proxy old s)) = ns_list s" "ns_host (set_task t new (put_proxy old s)) = ns_host s"
    "ns_heap (set_task t new (put_proxy old s)) = ns_heap s"
  by (auto simp: set_task_def put_proxy_def split: option.split)

end
