(* ===== verification/NsBugs.thy ===== *)
theory NsBugs
  imports NsFacts
begin

text \<open>The three ways the count of an ipc namespace goes wrong.\<close>

lemma put_listed:
  assumes "listed s p" "i \<noteq> Some p"
  shows "listed (ipcns_put e i s) p"
proof -
  have o: "all_ours s" using assms(1) by (simp add: listed_def)
  have h: "ns_host (ipcns_put e i s) = ns_host s" using find_ours [OF o] by (auto simp: ipcns_put_def Let_def ns_upd_def split: option.split)
  have l: "ns_list (ipcns_put e i s) = ns_list s \<or> (\<exists>x. ie_ns x \<noteq> p \<and> ns_list (ipcns_put e i s) = remove1 x (ns_list s))"
    using find_ours [OF o] assms(2) by (auto simp: ipcns_put_def Let_def find_Some_iff split: option.splits)
  have "p \<in> ie_ns ` set (ns_list (ipcns_put e i s))" 
  proof -
    obtain y where y: "y \<in> set (ns_list s)" "ie_ns y = p" using assms(1) by (auto simp: listed_def)
    then have "y \<in> set (ns_list (ipcns_put e i s))" using l by (auto intro: in_set_remove1 [THEN iffD2])
    then show ?thesis using y(2) by blast
  qed
  moreover have "set (ns_list (ipcns_put e i s)) \<subseteq> set (ns_list s)" using l set_remove1_subset by (metis order_refl)
  ultimately show ?thesis using h assms(1) unfolding listed_def all_ours_def by auto
qed

text \<open>Another task leaves its proxy.\<close>

lemma leave_other:
  assumes o: "all_ours s" and a: "own_proxy a q x s" "a \<noteq> t" "proxy_of s t \<noteq> Some q"
  shows "own_proxy a q x (leave_proxy e t new s)" "all_ours (leave_proxy e t new s)"
    "task_ipc s t \<noteq> Some p \<Longrightarrow> ns_heap (leave_proxy e t new s) p = ns_heap s p"
    "task_ipc s t \<noteq> Some p \<Longrightarrow> listed s p \<Longrightarrow> listed (leave_proxy e t new s) p"
proof -
  let ?u = "set_task t new (put_proxy (proxy_of s t) s)"
  have u: "own_proxy a q x ?u" "all_ours ?u" by (rule own_task [OF own_put_proxy [OF a(1) a(3)] a(2)]) (use o in \<open>simp add: all_ours_def leave_fields\<close>)
  have l: "leave_proxy e t new s = ?u \<or> leave_proxy e t new s = ipcns_put e (task_ipc s t) ?u"
    using drop_put [OF u(2)] by (simp add: leave_proxy_def nsproxy_release_def task_ipc_def Let_def)
  show "own_proxy a q x (leave_proxy e t new s)" using l u own_put [OF u(2)] by auto
  show "all_ours (leave_proxy e t new s)" using l u ipc_put_fields(3) [OF u(2)] by auto
  show "ns_heap (leave_proxy e t new s) p = ns_heap s p" if "task_ipc s t \<noteq> Some p" using l ipc_put_fields(4) [OF u(2) that] by (auto simp: leave_fields)
  show "listed (leave_proxy e t new s) p" if "task_ipc s t \<noteq> Some p" "listed s p"
  proof -
    have "listed ?u p" using that(2) by (rule listed_cong) (simp_all add: leave_fields)
    then show ?thesis using l put_listed [OF _ that(1)] by auto
  qed
qed

text \<open>The last user of a proxy leaves.\<close>

lemma leave_frees:
  assumes t: "own_proxy t q x s" "nx_count x = 1" "nx_ipc x = Some p"
    and l: "listed s p" and n: "ns_heap s p = Some n" "ins_count n = 1" "classes_exit [] n \<noteq> None"
  shows "ns_heap (leave_proxy e t new s) p = None"
proof -
  let ?u = "set_task t new (put_proxy (Some q) s)"
  have u: "listed ?u p" using l by (rule listed_cong) (simp_all add: leave_fields)
  have "ns_heap ?u p = Some n" using n(1) by (simp add: leave_fields)
  then show ?thesis using put_frees [OF u _ n(2,3)] listed_ours [OF u] by (simp add: leave_last [OF t(1,2)] t(3) nsproxy_drop_def)
qed

section \<open>setns takes no reference\<close>

text \<open>\<open>t\<close> enters the namespace \<open>p\<close> of a file it has open, closes the file, and exits.\<close>

lemma setns_frees:
  assumes K: "ns_kernel_ok K" and inv: "ns_inv {} F s"
    and a: "task_ipc s a = Some p" and t: "t \<noteq> a" "task_ipc s t \<noteq> Some p" "ns_host s \<noteq> Some p"
    and n: "ns_heap s p = Some n" "ins_count n = 2"
    and u: "cnn_wrap e K 0 t s = (u, Inr np)" and v: "ipcns_install e np cred p u = (v, Inr ())"
  shows "task_ipc (exit_ns_wrap e K t (ipcns_put e (Some p) (switch_wrap e K t (Some np) v))) a = Some p"
    "ns_heap (exit_ns_wrap e K t (ipcns_put e (Some p) (switch_wrap e K t (Some np) v))) p = None"
proof -
  have w0: "\<not> has_flag 0 f" for f by (simp add: has_flag_def)
  have h: "cnn_hold K 0 t s = (u, Inr np)" using u w0 by (simp add: cnn_wrap_def)
  have np: "ns_proxies s np = None" "proxy_of s t \<noteq> Some np" "u = nsproxy_hold (Some np) (new_proxy np t s)"
    using kernel_create [OF K, of 0 t s] h by (auto simp: cnn_hold_def)
  obtain q x where a0: "own_proxy a q x s" "nx_ipc x = Some p"
    using a by (auto simp: task_ipc_def own_proxy_def proxy_ipc_def bind_eq_Some_conv)
  have qn: "q \<noteq> np" using a0 np(1) by (auto simp: own_proxy_def)
  have qt: "proxy_of s t \<noteq> Some q" using a0 t(2) by (auto simp: own_proxy_def task_ipc_def proxy_ipc_def)
  let ?s1 = "new_proxy np t s"
  have l1: "listed ?s1 p" by (rule listed_cong [OF inv_listed [OF inv _ t(3)]]) (use n new_proxy_fields(1) [of s np t] in \<open>simp_all add: same_ipc_def\<close>)
  have a1: "own_proxy a q x ?s1" by (rule own_new [OF a0(1) qn])
  have p1: "proxy_ipc ?s1 np \<noteq> Some p" using t(2) by (simp add: new_proxy_ipc)
  have n1: "ns_heap ?s1 p = Some n" using n(1) new_proxy_fields(1) [of s np t] by (simp add: same_ipc_def)
  have pt: "proxy_of ?s1 = proxy_of s" by (simp add: new_proxy_def proxy_of_def fun_eq_iff)
  have x1: "ns_proxies ?s1 np = Some \<lparr>nx_count = 1, nx_ipc = task_ipc s t\<rparr>" by simp
  have sp: "r \<noteq> np \<Longrightarrow> ns_proxies ?s1 r = ns_proxies s r" for r by simp
  obtain s1 where s1: "?s1 = s1" by blast
  note F1 = l1 [unfolded s1] a1 [unfolded s1] p1 [unfolded s1] n1 [unfolded s1] pt [unfolded s1] x1 [unfolded s1]
  note sp = sp [unfolded s1]
  have u': "u = nsproxy_hold (Some np) s1" using np(3) s1 by simp
  have hold: "ns_list u = ns_list s1" "ns_host u = ns_host s1" "ns_proxies u = ns_proxies s1" "proxy_of u = proxy_of s1" "ns_heap u p = ns_heap s1 p"
    using F1(3) by (auto simp: u' nsproxy_hold_def ipcns_get_def proxy_of_def fun_eq_iff split: option.split)
  have F2: "listed u p" "own_proxy a q x u" "ns_heap u p = Some n" "proxy_of u = proxy_of s" "ns_proxies u np = Some \<lparr>nx_count = 1, nx_ipc = task_ipc s t\<rparr>"
    using F1 hold listed_cong [OF F1(1) hold(1,2)] by (simp_all add: own_proxy_def)
  have v': "v = set_proxy_ipc np (Some p) u" using v F2(3) by (simp add: ipcns_install_def split: if_splits)
  have ve: "ns_list v = ns_list u" "ns_host v = ns_host u" "ns_heap v = ns_heap u" "proxy_of v = proxy_of u"
    "ns_proxies v np = Some \<lparr>nx_count = 1, nx_ipc = Some p\<rparr>" "\<And>r. r \<noteq> np \<Longrightarrow> ns_proxies v r = ns_proxies u r"
    by (simp_all add: v' set_proxy_ipc_def F2(5) proxy_of_def fun_eq_iff)
  have F3: "listed v p" "own_proxy a q x v" "ns_heap v p = Some n" "proxy_of v = proxy_of s"
    using listed_cong [OF F2(1) ve(1,2)] F2 ve qn by (simp_all add: own_proxy_def)
  have o3: "all_ours v" using F3(1) by (simp add: listed_def)
  have tv: "task_ipc v t \<noteq> Some p"
  proof (cases "proxy_of s t")
    case (Some r)
    then have "r \<noteq> np" using np(2) by blast
    then have "proxy_ipc v r = proxy_ipc u r" using ve(6) by (simp add: proxy_ipc_def)
    also have "\<dots> = proxy_ipc s r" using hold(3) \<open>r \<noteq> np\<close> sp [of r] by (simp add: proxy_ipc_def)
    finally show ?thesis using t(2) Some F3(4) by (simp add: task_ipc_def)
  qed (simp add: task_ipc_def F3(4))
  have qv: "proxy_of v t \<noteq> Some q" using qt F3(4) by simp
  obtain w where w: "switch_wrap e K t (Some np) v = w" by blast
  note L = leave_other [OF o3 F3(2) _ qv, where e = e and new = "Some np", folded switch_leave [OF K], unfolded w, OF t(1) [symmetric]]
  have wn: "own_proxy t np \<lparr>nx_count = 1, nx_ipc = Some p\<rparr> w"
  proof -
    let ?u = "set_task t (Some np) (put_proxy (proxy_of v t) v)"
    have "proxy_of v t \<noteq> Some np" using np(2) F3(4) by simp
    then have k: "own_proxy t np \<lparr>nx_count = 1, nx_ipc = Some p\<rparr> ?u"
      using put_proxy_other [of "proxy_of v t" np v] ve(5) by (simp add: own_proxy_def set_task_fields)
    have o: "all_ours ?u" using o3 by (simp add: all_ours_def leave_fields)
    have "w = ?u \<or> w = ipcns_put e (task_ipc v t) ?u"
      using drop_put [OF o] by (simp add: w [symmetric] switch_leave [OF K] leave_proxy_def nsproxy_release_def task_ipc_def Let_def)
    then show ?thesis using k own_put [OF o] by auto
  qed
  have W: "listed w p" "own_proxy a q x w" "ns_heap w p = Some n" "all_ours w" using L tv F3(1,3) by auto
  let ?y = "ns_upd p (ins_count_update (\<lambda>c. c - 1)) w"
  have y: "ipcns_put e (Some p) w = ?y" by (rule put_counts [OF W(1,3)]) (use n(2) in simp)
  have Y: "listed ?y p" "own_proxy a q x ?y" "own_proxy t np \<lparr>nx_count = 1, nx_ipc = Some p\<rparr> ?y" "ns_heap ?y p = Some (ins_count_update (\<lambda>c. c - 1) n)"
    using listed_cong [OF W(1), of ?y] W(2,3) wn by (simp_all add: own_upd)
  have ce: "classes_exit [] (ins_count_update (\<lambda>c. c - 1) n) \<noteq> None" using ipcns_parts(12) [OF inv n(1)] by simp
  have "ns_heap (leave_proxy e t None ?y) p = None" by (rule leave_frees [OF Y(3) _ _ Y(1,4) _ ce]) (use n(2) in simp_all)
  then have gone: "ns_heap (leave_proxy e t None ?y) p = None" .
  have yt: "proxy_of ?y t = Some np" using Y(3) by (simp add: own_proxy_def)
  have oy: "all_ours ?y" using Y(1) by (simp add: listed_def)
  have own: "own_proxy a q x (leave_proxy e t None ?y)" by (rule leave_other(1) [OF oy Y(2) t(1) [symmetric]]) (use yt qn in simp)
  have oe: "all_ours (leave_proxy e t None ?y)" by (rule leave_ours [OF oy])
  have e: "exit_ns_wrap e K t ?y \<in> {leave_proxy e t None ?y, ipcns_put e (task_ipc ?y t) (leave_proxy e t None ?y)}"
    using drop_put [OF oe] by (simp add: exit_leave [OF K])
  show "ns_heap (exit_ns_wrap e K t (ipcns_put e (Some p) (switch_wrap e K t (Some np) v))) p = None"
    using e gone ipc_put_fields(5) [OF oe gone] by (auto simp: w y)
  have "own_proxy a q x (exit_ns_wrap e K t ?y)" using e own own_put [OF oe] by auto
  then show "task_ipc (exit_ns_wrap e K t (ipcns_put e (Some p) (switch_wrap e K t (Some np) v))) a = Some p"
    using a0(2) own_ipc by (simp add: w y)
qed

end
