(* ===== verification/NsCreate.thy ===== *)
theory NsCreate
  imports NsBugs
begin

text \<open>A creation as a whole: all or nothing.\<close>

definition fresh_ns :: "ipcns_env \<Rightarrow> nat \<Rightarrow> ipc_namespace \<Rightarrow> bool" where
  "fresh_ns e i n \<longleftrightarrow> ins_count n = 1 \<and> ins_user n = Some (pk_cred_ns (ni_pid e)) \<and> ins_inum n = i \<and> ins_ids n \<and> \<not> ins_stashed n \<and> \<not> ins_neutral n
     \<and> in_use (msg_ids (ins_msg n)) = 0 \<and> in_use (sem_ids (ins_sem n)) = 0 \<and> in_use (shm_ids (ins_shm n)) = 0 \<and> mq_queues_count (ins_mq n) = 0"

text \<open>The list of the accounting entries with one for the address of a new namespace: an entry that is there already stays as it is.\<close>

definition acct_with :: "ptr \<Rightarrow> msg_acct list \<Rightarrow> msg_acct list" where
  "acct_with p l = (if msg_acct_get l p \<noteq> None then l else \<lparr>acct_ns = p, acct_bytes = 0, acct_hdrs = 0\<rparr> # l)"

lemma acct_with_get: "msg_acct_get (acct_with p l) q =
    (if q = p \<and> msg_acct_get l p = None then Some \<lparr>acct_ns = p, acct_bytes = 0, acct_hdrs = 0\<rparr> else msg_acct_get l q)"
  by (auto simp: acct_with_def msg_acct_get_def)

lemma init_fresh:
  assumes c: "classes_init e a ((zero_ipc_ns p)\<lparr>ins_inum := i, ins_count := 1, ins_user := Some (pk_cred_ns (ni_pid e))\<rparr>) = (n, a', r)"
  shows "ins_user n = Some (pk_cred_ns (ni_pid e)) \<and> a' = (if r = None then acct_with p a else a)
    \<and> (r = None \<longrightarrow> fresh_ns e i n \<and> classes_exit [] n \<noteq> None)"
proof -
  let ?z = "(zero_ipc_ns p)\<lparr>ins_inum := i, ins_count := 1, ins_user := Some (pk_cred_ns (ni_pid e))\<rparr>"
  obtain m x where m: "msg_init_ns (ni_acct e) ((ins_msg ?z)\<lparr>msg_acct_list := a\<rparr>) = (m, x)" by (rule prod.exhaust)
  have w: "x = None \<Longrightarrow> in_use (msg_ids m) = 0" "msg_acct_list m = (if x = None then acct_with p a else a)"
    using m by (auto simp: msg_init_ns_def msg_acct_init_def acct_with_def zero_ipc_ns_def ipc_init_ids_def Let_def split: if_splits)
  show ?thesis
  proof (cases x)
    case (Some err)
    then have "n = ?z\<lparr>ins_msg := m\<lparr>msg_acct_list := []\<rparr>\<rparr>" "r \<noteq> None" "a' = msg_acct_list m" using c m by (auto simp: classes_init_def)
    then show ?thesis using w(2) Some by auto
  next
    case None
    then have n: "n = ?z\<lparr>ins_msg := m\<lparr>msg_acct_list := []\<rparr>, ins_sem := sem_init_ns (ins_sem ?z), ins_shm := shm_init_ns (ins_shm ?z), ins_ids := True\<rparr>"
        "r = None" "a' = msg_acct_list m"
      using c m by (auto simp: classes_init_def)
    have "classes_exit [] n \<noteq> None" using zero_exit [OF c [unfolded n(2)]] by blast
    moreover have "fresh_ns e i n" using w(1) [OF None] by (simp add: n(1) fresh_ns_def zero_ipc_ns_def sem_init_ns_def shm_init_ns_def ipc_init_ids_def)
    ultimately show ?thesis using w(2) None n(2,3) by (simp add: n(1))
  qed
qed

lemma fresh_exit: "fresh_ns e i n \<Longrightarrow> classes_exit a n = Some (n', b) \<Longrightarrow> b = a \<and> ins_user n' = ins_user n \<and> ins_inum n' = ins_inum n"
  by (auto simp: classes_exit_def fresh_ns_def ds_msg_exit_ns_def ds_free_ipcs_def ds_free_loop.simps split: option.splits)

lemma mq_setup_fresh: "mq_setup e n = (m, r) \<Longrightarrow> fresh_ns e i n \<Longrightarrow> classes_exit [] n \<noteq> None \<Longrightarrow> fresh_ns e i m \<and> classes_exit [] m \<noteq> None"
  using mq_setup_keeps [of e n m r]
  by (auto simp: mq_setup_def fresh_ns_def mq_init_ns_def Let_def split: if_splits prod.splits option.splits)

text \<open>What has been taken for a namespace is given back.\<close>

lemma free_back:
  assumes p: "ns_heap s p = None" and n: "fresh_ns e i n" "classes_exit [] n \<noteq> None" and i: "i \<noteq> 0" "i \<notin> ns_inums s" and u: "u = pk_cred_ns (ni_pid e)"
  shows "ds_free_ipc_ns e' p (s\<lparr>ns_inums := insert i (ns_inums s), ns_users := (ns_users s)(u := ns_users s u + 1), ns_acct := a, ns_heap := (ns_heap s)(p \<mapsto> n)\<rparr>)
    = s\<lparr>ns_acct := a\<rparr>"
proof -
  have "classes_exit a n \<noteq> None" using n(2) classes_exit_acct [of a n] by simp
  then obtain m b where m: "(if ni_sysv e' then classes_exit a n else Some (n, a)) = Some (m, b)" by (cases "ni_sysv e'") auto
  have k: "ins_user m = Some u" "ins_inum m = i" "b = a" using m n(1) u fresh_exit [OF n(1), of a m b] by (auto simp: fresh_ns_def split: if_splits)
  have k2: "ins_user (ipcns_destroy_ids (m\<lparr>ins_sysctl := False\<rparr>)) = Some u" "ins_inum (ipcns_destroy_ids (m\<lparr>ins_sysctl := False\<rparr>)) = i"
    using k by (simp_all add: ipcns_destroy_ids_def)
  have z: "(ns_heap s)(p := None) = ns_heap s" using p by (simp add: fun_upd_idem)
  show ?thesis using i m by (cases "ni_sysv e'") (simp_all add: ds_free_ipc_ns_def k2 k(3) put_user_ns_def z Let_def)
qed

lemma create_all:
  assumes o: "\<not> ns_kernel_owned s" and k: "kmalloc_ok (ni_zalloc e)" and i: "\<And>i. ni_inum e = Inr i \<Longrightarrow> i \<noteq> 0 \<and> i \<notin> ns_inums s"
    and c: "ipcns_create e s = (t, r)"
  shows "case r of
      Inl _ \<Rightarrow> t = s \<or> (\<exists>p. ns_heap s p = None \<and> t = s\<lparr>ns_acct := acct_with p (ns_acct s)\<rparr>)
    | Inr p \<Rightarrow> (\<exists>n. ns_heap s p = None \<and> ni_inum e = Inr (ins_inum n) \<and> fresh_ns e (ins_inum n) n
        \<and> t = s\<lparr>ns_inums := insert (ins_inum n) (ns_inums s), ns_users := (ns_users s)(pk_cred_ns (ni_pid e) := ns_users s (pk_cred_ns (ni_pid e)) + 1),
                 ns_acct := acct_with p (ns_acct s),
                 ns_heap := (ns_heap s)(p \<mapsto> n), ns_list := ns_list s @ [\<lparr>ie_ns = p, ie_kernel_owned = False, ie_init = False\<rparr>]\<rparr>)"
proof (cases "ni_zalloc e (\<lambda>p. ns_heap s p \<noteq> None)")
  case None
  then show ?thesis using c o by (auto simp: ipcns_create_def)
next
  case (Some p)
  have p: "ns_heap s p = None" using k Some unfolding kmalloc_ok_def by blast
  show ?thesis
  proof (cases "ni_inum e")
    case (Inl err)
    then have "t = s" "r = Inl err" using c o Some by (simp_all add: ipcns_create_def)
    then show ?thesis by simp
  next
    case (Inr j)
    let ?u = "pk_cred_ns (ni_pid e)"
    let ?s1 = "s\<lparr>ns_inums := insert j (ns_inums s), ns_users := (ns_users s)(?u := ns_users s ?u + 1)\<rparr>"
    have j: "j \<noteq> 0" "j \<notin> ns_inums s" using i [OF Inr] by simp_all
    obtain n a x where x: "classes_init e (ns_acct s) ((zero_ipc_ns p)\<lparr>ins_inum := j, ins_count := 1, ins_user := Some ?u\<rparr>) = (n, a, x)"
      by (metis surj_pair)
    note I = init_fresh [OF x]
    show ?thesis
    proof (cases x)
      case (Some err)
      have "t = put_user_ns (Some ?u) (?s1\<lparr>ns_inums := ns_inums ?s1 - {j}, ns_acct := ns_acct s\<rparr>)" "r = Inl err"
        using c o \<open>ni_zalloc e _ = Some p\<close> Inr x Some I by (simp_all add: ipcns_create_def Let_def)
      then show ?thesis using j by (simp add: put_user_ns_def)
    next
      case None
      have a: "a = acct_with p (ns_acct s)" using I None by simp
      obtain m y where y: "mq_setup e n = (m, y)" by (rule prod.exhaust)
      have m: "fresh_ns e j m" "classes_exit [] m \<noteq> None" using mq_setup_fresh [OF y] I None by blast+
      show ?thesis
      proof (cases y)
        case (Some err)
        have "t = ds_free_ipc_ns e p (?s1\<lparr>ns_acct := a, ns_heap := (ns_heap ?s1)(p \<mapsto> m)\<rparr>)" "r = Inl err"
          using c o \<open>ni_zalloc e _ = Some p\<close> Inr x None y Some by (simp_all add: ipcns_create_def Let_def)
        then show ?thesis using free_back [OF p m j refl, of e a] p by (auto simp: a)
      next
        case y0: None
        let ?m = "m\<lparr>ins_sysctl := (ni_sysctl e = Some True)\<rparr>"
        have m2: "fresh_ns e j ?m" "classes_exit [] ?m \<noteq> None" using m by (simp_all add: classes_exit_iff fresh_ns_def)
        show ?thesis
        proof (cases "ni_sysctl e = Some False \<or> \<not> ni_entry e")
          case True
          then have "t = ds_free_ipc_ns e p (?s1\<lparr>ns_acct := a, ns_heap := (ns_heap ?s1)(p \<mapsto> ?m)\<rparr>)" "r = Inl ENOMEM"
            using c o \<open>ni_zalloc e _ = Some p\<close> Inr x None y y0 by (auto simp: ipcns_create_def Let_def)
          then show ?thesis using free_back [OF p m2 j refl, of e a] p by (auto simp: a)
        next
          case False
          then have "t = ?s1\<lparr>ns_acct := a, ns_heap := (ns_heap s)(p \<mapsto> ?m), ns_list := ns_list s @ [\<lparr>ie_ns = p, ie_kernel_owned = False, ie_init = False\<rparr>]\<rparr>" "r = Inr p"
            using c o \<open>ni_zalloc e _ = Some p\<close> Inr x None y y0 by (auto simp: ipcns_create_def Let_def)
          moreover have "ins_inum ?m = j" using m2(1) by (simp add: fresh_ns_def)
          ultimately show ?thesis using p m2(1) Inr by (auto intro!: exI [of _ ?m] simp: a)
        qed
      qed
    qed
  qed
qed

lemma set_task_other: "t \<noteq> c \<Longrightarrow> proxy_of (set_task c np s) t = proxy_of s t"
  by (simp add: set_task_def proxy_of_def)

lemma set_ipc_of: "ns_proxies s np \<noteq> None \<Longrightarrow> proxy_ipc (set_proxy_ipc np i s) np = i"
  by (auto simp: set_proxy_ipc_def proxy_ipc_def)

lemma create_others:
  assumes "\<not> ns_kernel_owned s" "kmalloc_ok (ni_zalloc e)" "\<And>i. ni_inum e = Inr i \<Longrightarrow> i \<noteq> 0 \<and> i \<notin> ns_inums s" "ipcns_create e s = (t, r)"
    "ns_heap s p \<noteq> None"
  shows "ns_heap t p = ns_heap s p \<and> ns_host t = ns_host s"
  using create_all [OF assms(1-4)] assms(5) by (auto split: sum.splits)

section \<open>A fork counts once too often\<close>

lemma fork_counts:
  assumes K: "ns_kernel_ok K" and inv: "ns_inv {} F s"
    and t: "own_proxy t q x s" "nx_count x = 1" "nx_ipc x = Some p" "c \<noteq> t" and n: "ns_heap s p = Some n" "ns_host s \<noteq> Some p"
    and f: "\<not> has_flag f NS_NEW" "\<not> has_flag f CLONE_NEWIPC" and u: "cn_wrap e K f c (set_task c (proxy_of s t) s) = (u, None)"
  shows "nk_inlined K \<Longrightarrow> ns_heap (exit_ns_wrap e K t (exit_ns_wrap e K c u)) p = Some n"
    "\<not> nk_inlined K \<Longrightarrow> ins_count n = 1 \<Longrightarrow> ns_heap (exit_ns_wrap e K t (exit_ns_wrap e K c u)) p = None"
    "ns_proxies (exit_ns_wrap e K t (exit_ns_wrap e K c u)) = (ns_proxies s)(q := None)"
proof -
  have fp: "\<not> has_flag f CLONE_NEWPID" using f(1) by (simp add: NS_NEW_def has_flag_or)
  let ?s1 = "set_task c (proxy_of s t) s"
  obtain v r where v: "nk_copy K (cnn_wrap e K) f c ?s1 = (v, r)" by (rule prod.exhaust)
  have r: "r = None" "u = nsproxy_hold (proxy_of v c) v" using u v fp f(2) by (auto simp: cn_wrap_def Let_def split: option.splits)
  have vs: "v = share_proxy c ?s1" using copy_shared [OF K f(1) v [unfolded r(1)]] by blast
  have q: "proxy_of s t = Some q" "ns_proxies s q = Some x" using t(1) by (simp_all add: own_proxy_def)
  let ?y = "x\<lparr>nx_count := Suc (Suc 0)\<rparr>"
  have pc: "proxy_of ?s1 c = Some q" using q by (simp add: set_task_fields)
  have V: "ns_proxies v = (ns_proxies s)(q \<mapsto> ?y)" "proxy_of v c = Some q" "proxy_of v t = Some q" "ns_heap v = ns_heap s"
    "ns_list v = ns_list s" "ns_host v = ns_host s"
    using q t(2,4) by (simp_all add: vs share_proxy_def pc) (simp_all add: set_task_def proxy_of_def)
  have lv: "listed v p" by (rule listed_cong [OF inv_listed [OF inv _ n(2)]]) (use n(1) V in simp_all)
  obtain v0 where v0: "v = v0" by blast
  note V = V [unfolded v0] and lv = lv [unfolded v0]
  let ?u = "ns_upd p (ins_count_update (\<lambda>c. c + 1)) v0"
  have uu: "u = ?u" using r(2) V(1,2) t(3) listed_ours [OF lv] by (simp add: v0 nsproxy_hold_def proxy_ipc_def ipcns_get_def)
  have oc: "own_proxy c q ?y u" "own_proxy t q ?y u" using V by (simp_all add: uu own_upd) (simp_all add: own_proxy_def)
  let ?w = "set_task c None (put_proxy (Some q) u)"
  have "exit_once K c u" using oc(1) by (simp add: exit_once_def own_proxy_def nsproxy_last_def)
  then have w: "exit_ns_wrap e K c u = ?w" by (simp add: exit_leave [OF K] leave_shared [OF oc(1)])
  have pu: "ns_proxies u = (ns_proxies s)(q \<mapsto> ?y)" by (simp add: uu V(1))
  have W: "own_proxy t q x ?w" "ns_proxies ?w = ns_proxies s"
  proof -
    have e: "(ns_proxies s)(q \<mapsto> x) = ns_proxies s" using q(2) by auto
    have x: "x\<lparr>nx_count := Suc 0\<rparr> = x" using t(2) by simp
    show "ns_proxies ?w = ns_proxies s" using e x by (simp add: set_task_fields put_proxy_def pu)
    then show "own_proxy t q x ?w" using oc(2) t(4) q(2) put_proxy_fields(2) [of "Some q" u] by (simp add: own_proxy_def set_task_other)
  qed
  have lw: "listed ?w p" by (rule listed_cong [OF lv]) (simp_all add: leave_fields uu)
  have hw: "ns_heap ?w p = Some (ins_count_update (\<lambda>c. c + 1) n)" by (simp add: leave_fields uu V(4) n(1))
  obtain w where w0: "?w = w" by blast
  note W = W [unfolded w0] and lw = lw [unfolded w0] and hw = hw [unfolded w0]
  let ?z = "set_task t None (put_proxy (Some q) w)"
  have lz: "listed ?z p" by (rule listed_cong [OF lw]) (simp_all add: leave_fields)
  have hz: "ns_heap ?z p = Some (ins_count_update (\<lambda>c. c + 1) n)" by (simp add: leave_fields hw)
  have n1: "ins_count (ins_count_update (\<lambda>c. c + 1) n) \<noteq> 1" using ipcns_parts(11) [OF inv n(1)] by simp
  let ?d = "ns_upd p (ins_count_update (\<lambda>c. c - 1)) ?z"
  have z: "leave_proxy e t None w = ?d"
    using listed_ours [OF lz] put_counts [OF lz hz n1] by (simp add: leave_last [OF W(1) t(2)] t(3) nsproxy_drop_def)
  have tw: "task_ipc w t = Some p" using own_ipc [OF W(1)] t(3) by simp
  have last: "nsproxy_last (proxy_of w t) w" using W(1) t(2) by (simp add: own_proxy_def nsproxy_last_def)
  have x: "exit_ns_wrap e K t w = (if nk_inlined K then ?d else nsproxy_drop e (Some p) ?d)"
    using last by (simp add: exit_leave [OF K] z exit_once_def tw)
  have ld: "listed ?d p" by (rule listed_cong [OF lz]) simp_all
  have hd: "ns_heap ?d p = Some n" by (simp add: hz)
  show "ns_heap (exit_ns_wrap e K t (exit_ns_wrap e K c u)) p = Some n" if "nk_inlined K" unfolding w w0 x using hd that by simp
  show "ns_heap (exit_ns_wrap e K t (exit_ns_wrap e K c u)) p = None" if "\<not> nk_inlined K" "ins_count n = 1"
    unfolding w w0 x using that put_frees [OF ld hd that(2) ipcns_parts(12) [OF inv n(1)]] listed_ours [OF ld] by (simp add: nsproxy_drop_def)
  have od: "all_ours ?d" using ld by (simp add: listed_def)
  have "ns_proxies (exit_ns_wrap e K t w) = ns_proxies ?d"
    using drop_put [OF od, of e "Some p"] ipc_put_fields(1) [OF od, of e "Some p"] by (auto simp: x)
  then show "ns_proxies (exit_ns_wrap e K t (exit_ns_wrap e K c u)) = (ns_proxies s)(q := None)"
    unfolding w w0 using q(2) t(2) W(2) by (simp add: set_task_fields put_proxy_def)
qed

section \<open>An exit drops twice\<close>

lemma exit_twice:
  assumes K: "ns_kernel_ok K" "\<not> nk_inlined K" and inv: "ns_inv {} F s"
    and t: "own_proxy t q x s" "nx_count x = 1" "nx_ipc x = Some p" and a: "task_ipc s a = Some p" "proxy_of s a \<noteq> Some q"
    and n: "ns_heap s p = Some n" "ins_count n = 2" "ns_host s \<noteq> Some p"
  shows "task_ipc (exit_ns_wrap e K t s) a = Some p \<and> ns_heap (exit_ns_wrap e K t s) p = None"
proof -
  let ?z = "set_task t None (put_proxy (Some q) s)"
  have ls: "listed s p" by (rule inv_listed [OF inv _ n(3)]) (use n(1) in simp)
  have lz: "listed ?z p" by (rule listed_cong [OF ls]) (simp_all add: leave_fields)
  have hz: "ns_heap ?z p = Some n" by (simp add: leave_fields n(1))
  let ?d = "ns_upd p (ins_count_update (\<lambda>c. c - 1)) ?z"
  have z: "leave_proxy e t None s = ?d"
    using listed_ours [OF lz] put_counts [OF lz hz] n(2) by (simp add: leave_last [OF t(1,2)] t(3) nsproxy_drop_def)
  have last: "nsproxy_last (proxy_of s t) s" using t(1,2) by (simp add: own_proxy_def nsproxy_last_def)
  have ts: "task_ipc s t = Some p" using own_ipc [OF t(1)] t(3) by simp
  have ld: "listed ?d p" by (rule listed_cong [OF lz]) simp_all
  have x: "exit_ns_wrap e K t s = ipcns_put e (Some p) ?d"
    using last K(2) listed_ours [OF ld] by (simp add: exit_leave [OF K(1)] z exit_once_def ts nsproxy_drop_def)
  have hd: "ns_heap ?d p = Some (ins_count_update (\<lambda>c. c - 1) n)" by (simp add: hz)
  have "ns_heap (exit_ns_wrap e K t s) p = None"
    unfolding x by (rule put_frees [OF ld hd]) (use n(2) ipcns_parts(12) [OF inv n(1)] in auto)
  moreover obtain r y where a0: "own_proxy a r y s" "nx_ipc y = Some p"
    using a(1) by (auto simp: task_ipc_def own_proxy_def proxy_ipc_def bind_eq_Some_conv)
  have ra: "r \<noteq> q" "a \<noteq> t" using a0(1) a(2) t(1) by (auto simp: own_proxy_def)
  have "own_proxy a r y (ipcns_put e (Some p) ?d)"
    using own_task [OF own_put_proxy [OF a0(1), of "Some q"] ra(2)] ra(1) own_put [of ?d] ld by (simp add: own_upd listed_def)
  then have "task_ipc (exit_ns_wrap e K t s) a = Some p" unfolding x using own_ipc a0(2) by simp
  ultimately show ?thesis by blast
qed

section \<open>clone drops the caller's reference\<close>

lemma pair_others:
  assumes o: "\<not> ns_kernel_owned s" and k: "kmalloc_ok (ni_zalloc e)" and i: "\<And>i. ni_inum e = Inr i \<Longrightarrow> i \<noteq> 0 \<and> i \<notin> ns_inums s"
    and c: "new_ns_pair e wp wi t s = (u, r)" and p: "ns_heap s p \<noteq> None"
  shows "ns_heap u p = ns_heap s p \<and> ns_host u = ns_host s"
proof -
  obtain v q where v: "(if wp then (case new_pid_for e t s of (s, Inl err) \<Rightarrow> (s, Inl err) | (s, Inr p) \<Rightarrow> (s, Inr (Some p))) else (s, Inr None)) = (v, q)"
    by (rule prod.exhaust)
  have w: "ns_heap v = ns_heap s \<and> ns_host v = ns_host s \<and> ns_kernel_owned v = ns_kernel_owned s \<and> ns_inums v = ns_inums s"
    using v by (auto simp: new_pid_for_def split: if_splits option.splits prod.splits sum.splits)
  show ?thesis
  proof (cases "q = Inr (projr q) \<and> wi")
    case False
    then have "u = v" using c v by (cases q) (auto simp: new_ns_pair_def split: if_splits)
    then show ?thesis using w by simp
  next
    case True
    obtain pid where q: "q = Inr pid" using True by blast
    obtain x y where x: "ipcns_create e v = (x, y)" by (rule prod.exhaust)
    have "ns_heap x p = ns_heap v p \<and> ns_host x = ns_host v" by (rule create_others [OF _ k _ x]) (use w o i p in simp_all)
    moreover have "ns_heap u = ns_heap x \<and> ns_host u = ns_host x" using c v q True x by (cases y) (auto simp: new_ns_pair_def on_pid_def)
    ultimately show ?thesis using w by simp
  qed
qed

lemma clone_enter_frees:
  assumes K: "ns_kernel_ok K" and k: "kmalloc_ok (ni_zalloc e)" and inv: "ns_inv {} F s" and i: "\<And>i. ni_inum e = Inr i \<Longrightarrow> i \<noteq> 0 \<and> i \<notin> ns_inums s"
    and t: "own_proxy (pk_task (ni_pid e)) q x s" "nx_count x = 1" "nx_ipc x = Some p"
    and n: "ns_heap s p = Some n" "ins_count n = 1" "ns_host s \<noteq> Some p" and f: "has_flag f CLONE_NEWIPC" and c: "clone_ctx_enter e K f s = (u, Inr ctx)"
  shows "cx_ipc ctx = Some p \<and> ns_heap u p = None"
proof -
  let ?t = "pk_task (ni_pid e)"
  obtain v r where v: "new_ns_pair e (has_flag f CLONE_NEWPID) (has_flag f CLONE_NEWIPC) ?t s = (v, r)" by (rule prod.exhaust)
  obtain pid ipc where r: "r = Inr (pid, ipc)" using c v by (cases r) (auto simp: clone_ctx_enter_def Let_def)
  note N = new_pair_inv [OF inv k v, unfolded r sum.case prod.case]
  have vi: "ns_inv {} (more F ipc) v" using N by blast
  have hv: "ns_heap v p = Some n" "ns_host v = ns_host s" using pair_others [OF ipcns_parts(2) [OF inv] k i v, of p] n(1) by simp_all
  have ov: "own_proxy ?t q x v" using t(1) N by (simp add: own_proxy_def proxies_kept_def)
  obtain np where np: "ns_proxies v np = None" "proxy_of v ?t \<noteq> Some np" "nk_create K 0 ?t v = (new_proxy np ?t v, Inr np)"
    using kernel_create [OF K, of 0 ?t v] c v r by (auto simp: clone_ctx_enter_def Let_def)
  have qn: "q \<noteq> np" using np(2) ov by (auto simp: own_proxy_def)
  obtain w where w: "new_proxy np ?t v = w" by blast
  have wl: "listed w p" by (rule listed_cong [OF inv_listed [OF vi _ ]]) (use hv n(3) new_proxy_fields(1) [of v np ?t] w in \<open>auto simp: same_ipc_def\<close>)
  have ow: "own_proxy ?t q x w" using own_new [OF ov qn, of ?t] unfolding w .
  have hw: "ns_heap w p = Some n" using new_proxy_fields(1) [of v np ?t] w hv by (simp add: same_ipc_def)
  have iw: "proxy_ipc w np = Some p" using new_proxy_ipc [of np ?t v np] own_ipc [OF ov] t(3) w by simp
  have ce: "classes_exit [] n \<noteq> None" by (rule ipcns_parts(12) [OF inv n(1)])
  let ?m = "leave_proxy e ?t (Some np) w"
  have gone: "ns_heap ?m p = None" by (rule leave_frees [OF ow t(2,3) wl hw n(2) ce])
  have mi: "proxy_ipc ?m np = Some p"
  proof -
    let ?u = "set_task ?t (Some np) (put_proxy (Some q) w)"
    have "ns_proxies ?u np = ns_proxies w np" using put_proxy_other [of "Some q" np w] qn by (simp add: set_task_fields)
    then have ku: "proxy_ipc ?u np = Some p" using iw by (simp add: proxy_ipc_def)
    have o: "all_ours ?u" using wl by (simp add: listed_def all_ours_def leave_fields)
    have "ns_proxies ?m = ns_proxies ?u" using drop_put [OF o, of e "nx_ipc x"] ipc_put_fields(1) [OF o] by (auto simp: leave_last [OF ow t(2)])
    then show ?thesis using ku by (simp add: proxy_ipc_def)
  qed
  have e: "clone_ctx_enter e K f s =
      (let s = ?m; ctx = \<lparr>cx_pid = proxy_pid s np, cx_ipc = proxy_ipc s np\<rparr>; s = (if pid = None then s else set_proxy_pid np pid s)
       in (if ipc = None then s else set_proxy_ipc np ipc s, Inr ctx))"
    by (simp add: clone_ctx_enter_def v r np(3) w switch_leave [OF K] Let_def)
  obtain m where m: "?m = m" by blast
  have "cx_ipc ctx = Some p" using c mi by (auto simp: e m Let_def)
  moreover have "ns_heap u = ns_heap m" using c by (auto simp: e m Let_def set_proxy_ipc_def set_proxy_pid_def split: option.splits)
  ultimately show ?thesis using gone m by simp
qed

lemma clone_leave_restores:
  assumes K: "ns_kernel_ok K" and h: "nk_has_switch K" and o: "all_ours w"
    and np: "proxy_of w (pk_task (ni_pid e)) = Some q" "ns_proxies w q \<noteq> None" "pd_nsproxy (ns_pid w) q \<noteq> None"
  shows "task_ipc (clone_ctx_leave e K ctx w) (pk_task (ni_pid e)) = cx_ipc ctx"
proof -
  let ?t = "pk_task (ni_pid e)"
  show ?thesis
    using kernel_create [OF K, of 0 ?t w]
  proof (elim disjE exE conjE)
    fix err assume a: "nk_create K 0 ?t w = (w, Inl err)"
    let ?b = "set_proxy_pid q (cx_pid ctx) w"
    have "ns_proxies ?b = ns_proxies w" "proxy_of ?b = proxy_of w" using set_pid_fields [OF np(3), of "cx_pid ctx"] by auto
    moreover have "clone_ctx_leave e K ctx w = set_proxy_ipc q (cx_ipc ctx) ?b" by (simp add: clone_ctx_leave_def a np(1) Let_def)
    ultimately show ?thesis using np(1,2) set_ipc_fields [of ?b q "cx_ipc ctx"] set_ipc_of [of ?b q "cx_ipc ctx"] by (simp add: task_ipc_def)
  next
    fix r assume a: "ns_proxies w r = None" "proxy_of w ?t \<noteq> Some r" "nk_create K 0 ?t w = (new_proxy r ?t w, Inr r)"
    obtain b where b: "set_proxy_ipc r (cx_ipc ctx) (set_proxy_pid r (cx_pid ctx) (new_proxy r ?t w)) = b" by blast
    obtain w1 where w1: "new_proxy r ?t w = w1" by blast
    have W: "ns_proxies w1 r \<noteq> None" "pd_nsproxy (ns_pid w1) r \<noteq> None" "ns_list w1 = ns_list w" "proxy_of w1 = proxy_of w"
      using new_proxy_there [of r ?t w] new_proxy_fields(1) [of w r ?t] unfolding w1 [symmetric] by (simp_all add: same_ipc_def new_proxy_def proxy_of_def fun_eq_iff)
    note S = set_pid_fields [OF W(2), of "cx_pid ctx"]
    have B: "proxy_ipc b r = cx_ipc ctx" "proxy_of b = proxy_of w" "ns_list b = ns_list w"
      using W S set_ipc_fields [of "set_proxy_pid r (cx_pid ctx) w1" r "cx_ipc ctx"] set_ipc_of [of "set_proxy_pid r (cx_pid ctx) w1" r "cx_ipc ctx"]
      unfolding b [unfolded w1] by (simp_all add: same_ipc_def)
    have ob: "all_ours b" using o B(3) by (simp add: all_ours_def)
    let ?u = "set_task ?t (Some r) (put_proxy (proxy_of b ?t) b)"
    have "ns_proxies ?u r = ns_proxies b r" using put_proxy_other [of "proxy_of b ?t" r b] a(2) B(2) by (simp add: set_task_fields)
    then have u: "proxy_ipc ?u r = cx_ipc ctx" "proxy_of ?u ?t = Some r" using B(1) by (simp_all add: proxy_ipc_def set_task_fields)
    have ou: "all_ours ?u" using ob by (simp add: all_ours_def leave_fields)
    have "clone_ctx_leave e K ctx w = leave_proxy e ?t (Some r) b"
      by (simp add: clone_ctx_leave_def a(3) b nsproxy_switch_def h leave_proxy_def nsproxy_switch_run_def nsproxy_release_def kernel_switch [OF K] Let_def)
    moreover have "leave_proxy e ?t (Some r) b \<in> {?u, ipcns_put e (task_ipc b ?t) ?u}"
      using drop_put [OF ou] by (auto simp: leave_proxy_def nsproxy_release_def task_ipc_def Let_def)
    ultimately show ?thesis using u ipc_put_fields(1,2) [OF ou] by (auto simp: task_ipc_def proxy_ipc_def proxy_of_def)
  qed
qed

end
