(* ===== verification/NsDemo.thy ===== *)
theory NsDemo
  imports NsCreate PidMain
begin

text \<open>A kernel as the contract has it, and a small system with one ipc namespace of its own.\<close>

section \<open>The kernel\<close>

definition linux_create :: ns_create where
  "linux_create f t s =
     (case find (\<lambda>np. ns_proxies s np = None \<and> proxy_of s t \<noteq> Some np) [200, 201, 202, 203] of
        None \<Rightarrow> (s, Inl ENOMEM)
      | Some np \<Rightarrow> (new_proxy np t s, Inr np))"

definition linux_copy :: "ns_create \<Rightarrow> ns_copy" where
  "linux_copy c f t s =
     (if has_flag f NS_NEW then (case c f t s of (u, Inl err) \<Rightarrow> (u, Some err) | (u, Inr np) \<Rightarrow> (set_task t (Some np) u, None))
      else
        (case Option.bind (proxy_of s t) (ns_proxies s) of
           None \<Rightarrow> (s, Some EINVAL)
         | Some x \<Rightarrow> if nx_count x = 0 then (s, Some EINVAL) else (share_proxy t s, None)))"

definition linux_unshare :: "ns_create \<Rightarrow> ns_switch \<Rightarrow> ns_copy" where
  "linux_unshare c w f t s =
     (if \<not> has_flag f (NS_NEW OR CLONE_NEWUSER) then (s, None)
      else (case c f t s of (u, Inl err) \<Rightarrow> (u, Some err) | (u, Inr np) \<Rightarrow> (w t (Some np) u, None)))"

definition linux_clone :: "ns_copy \<Rightarrow> 64 word \<Rightarrow> nat \<Rightarrow> ns_state \<Rightarrow> ns_state \<times> int" where
  "linux_clone copy f t s =
     (case copy f 99 (set_task 99 (proxy_of s t) s) of (s, None) \<Rightarrow> (s, 99) | (s, Some _) \<Rightarrow> (set_task 99 None s, -1))"

definition linux_kernel :: "bool \<Rightarrow> ns_kernel" where
  "linux_kernel b = \<lparr>nk_create = linux_create, nk_copy = linux_copy,
     nk_switch = (\<lambda>t new s. set_task t new (put_proxy (proxy_of s t) s)), nk_has_switch = True, nk_inlined = b,
     nk_exit = (\<lambda>w t s. if b then set_task t None (put_proxy (proxy_of s t) s) else w t None s), nk_unshare = linux_unshare, nk_clone = linux_clone, nk_check = None\<rparr>"

abbreviation linux_ns :: ns_kernel where "linux_ns \<equiv> linux_kernel True"

lemma linux_ns_ok: "ns_kernel_ok (linux_kernel b)"
proof -
  have c: "(\<exists>err. linux_create f t s = (s, Inl err)) \<or> (\<exists>np. ns_proxies s np = None \<and> proxy_of s t \<noteq> Some np \<and> linux_create f t s = (new_proxy np t s, Inr np))" for f t s
    by (auto simp: linux_create_def find_Some_iff split: option.split)
  have d: "copy_ok (linux_kernel b) c f t s" for c f t s
    by (auto simp: copy_ok_def linux_kernel_def linux_copy_def split: option.split prod.split sum.split)
  have w: "unshare_ok (linux_kernel b) c w f t s" for c w f t s
    by (auto simp: unshare_ok_def linux_kernel_def linux_unshare_def split: prod.split sum.split)
  show ?thesis using c d w by (simp add: ns_kernel_ok_def) (simp add: linux_kernel_def)
qed

section \<open>The states\<close>

definition ns_env :: "nat \<Rightarrow> ptr \<Rightarrow> ipcns_env" where
  "ns_env t p = \<lparr>ni_pid = pid_caller t init_pid_ns, ni_zalloc = (\<lambda>used. if used p then None else Some p), ni_inum = Inr (0xF0000000 + p), ni_acct = True,
     ni_entry = True, ni_sysv = True, ni_mqueue = False, ni_mq_mount = None, ni_mq_sysctl = False, ni_sysctl = None, ni_copy_ipcs = None, ni_put_ipc = None,
     ni_gate = True\<rparr>"

lemma ipcns_env_ok: "kmalloc_ok (ni_zalloc (ns_env t p))"
  by (simp add: kmalloc_ok_def ns_env_def)

definition ns_before :: ns_state where
  "ns_before = \<lparr>ns_pid = pid_demo, ns_heap = [500 \<mapsto> zero_ipc_ns 500], ns_list = [], ns_host = None, ns_orig = None, ns_kernel_owned = False,
     ns_inums = {}, ns_users = (\<lambda>_. 0), ns_acct = [], ns_proxies = [100 \<mapsto> \<lparr>nx_count = 1, nx_ipc = None\<rparr>, 101 \<mapsto> \<lparr>nx_count = 1, nx_ipc = None\<rparr>], ns_oops = False\<rparr>"

definition ns_boot_demo :: ipcns_boot where
  "ns_boot_demo = \<lparr>nb_msgutil = None, nb_util = None, nb_alias = True, nb_static = 500, nb_init_user = 0, nb_init_nsproxy = Some 100,
     nb_kernel_ipc = False, nb_kernel_sysv = False, nb_acct = True, nb_mqueue = False, nb_mq_mount = None\<rparr>"

definition ns_demo :: ns_state where
  "ns_demo = fst (ipcns_init (ns_env 7 501) ns_boot_demo True ns_before)"

definition host_ipcns :: ipc_namespace where
  "host_ipcns = (zero_ipc_ns 500)\<lparr>ins_shm := shm_init_ns (ins_shm (zero_ipc_ns 500)), ins_inum := 0xEFFFFFFF, ins_count := 1, ins_user := Some 0\<rparr>"

lemma ns_demo_eq: "ipcns_init (ns_env 7 501) ns_boot_demo True ns_before = (ns_demo, None)"
  "ns_demo = ns_before\<lparr>ns_heap := [500 \<mapsto> host_ipcns], ns_host := Some 500, ns_list := [\<lparr>ie_ns = 500, ie_kernel_owned = False, ie_init = True\<rparr>]\<rparr>"
  by (simp_all add: ns_demo_def ipcns_init_def ns_boot_demo_def ns_before_def ns_upd_def host_ipcns_def Let_def)

lemma ns_demo_boot: "ns_boot ns_demo"
proof -
  have "classes_exit [] ((zero_ipc_ns 500)\<lparr>ins_shm := shm_init_ns (ins_shm (zero_ipc_ns 500))\<rparr>) \<noteq> None"
    by (auto simp: zero_ipc_ns_def classes_exit_iff shm_init_ns_def ipc_init_ids_def ds_sem_exit_ns_def ds_msg_exit_ns_def ds_shm_exit_ns_def ds_free_ipcs_def
        ds_free_loop.simps)
  moreover have "finite (dom (ns_proxies ns_before))" "\<forall>np. proxy_ipc ns_before np = None" by (auto simp: ns_before_def proxy_ipc_def)
  ultimately show ?thesis
    unfolding ns_boot_def using ns_demo_eq(1) by (intro exI [of _ "ns_env 7 501"] exI [of _ ns_boot_demo] exI [of _ True] exI [of _ ns_before] exI [of _ "zero_ipc_ns 500"])
      (simp add: ns_boot_demo_def, simp add: ns_before_def)
qed

lemma ns_demo_reachable: "ns_reachable (linux_kernel b) (\<lambda>_. 0) ns_demo"
  unfolding ns_reachable_def using ns_demo_boot by blast

text \<open>Process 7 calls \<^verbatim>\<open>unshare(CLONE_NEWIPC)\<close>.\<close>

definition ns_one :: ns_state where
  "ns_one = fst (sys_unshare (ns_env 7 501) linux_ns True False CLONE_NEWIPC ns_demo)"

definition new_ipc_ns :: "nat \<Rightarrow> ptr \<Rightarrow> ipc_namespace" where
  "new_ipc_ns t p = fst (classes_init (ns_env t p) [] ((zero_ipc_ns p)\<lparr>ins_inum := 0xF0000000 + p, ins_count := 1, ins_user := Some 0\<rparr>))"

lemma new_ipc_init:
  assumes "0 < p"
  shows "classes_init (ns_env t p) a ((zero_ipc_ns p)\<lparr>ins_inum := 0xF0000000 + p, ins_count := 1, ins_user := Some 0\<rparr>)
    = (new_ipc_ns t p, acct_with p a, None)"
proof -
  have e: "ni_acct (ns_env t p) = True" by (simp add: ns_env_def)
  have i: "msg_acct_init True p l = (acct_with p l, None)" for l using assms by (simp add: msg_acct_init_def acct_with_def)
  show ?thesis by (simp add: new_ipc_ns_def classes_init_def msg_init_ns_def e i zero_ipc_ns_def Let_def)
qed

lemma new_ipc_fields: "0 < p \<Longrightarrow> ins_count (new_ipc_ns t p) = 1" "0 < p \<Longrightarrow> ins_user (new_ipc_ns t p) = Some 0"
  using zero_exit [OF new_ipc_init] by blast+

definition made_ns :: ipc_namespace where "made_ns = (new_ipc_ns 7 501)\<lparr>ins_sysctl := False\<rparr>"

lemma has_flag_evals [simp]: "has_flag CLONE_NEWIPC CLONE_NEWIPC" "\<not> has_flag CLONE_NEWIPC CLONE_NEWPID" "has_flag CLONE_NEWIPC NS_NEW"
  "has_flag CLONE_NEWIPC (CLONE_NEWPID OR CLONE_NEWIPC OR CLONE_SYSVSEM_F)" "has_flag CLONE_NEWIPC (NS_NEW OR CLONE_NEWUSER)" "has_flag CLONE_NEWIPC NS_ALL"
  "\<not> has_flag CLONE_NEWIPC CLONE_THREAD" "CLONE_NEWIPC AND (CLONE_NEWIPC OR CLONE_SYSVSEM_F) \<noteq> CLONE_NEWIPC OR CLONE_SYSVSEM_F"
  "\<not> has_flag CLONE_NEWIPC CLONE_NEWUSER" "\<not> has_flag CLONE_NEWIPC CLONE_VM" "\<not> has_flag CLONE_NEWIPC CLONE_SIGHAND" "\<not> has_flag CLONE_NEWIPC CLONE_NEWNS" "\<not> has_flag 0 f"
  by (simp_all add: has_flag_def NS_NEW_def NS_ALL_def NS_FLAGS_def clone_flags)

text \<open>In this environment a creation succeeds.\<close>

lemma env_create:
  assumes "\<not> ns_kernel_owned s" "ns_heap s p = None" "0 < p"
  shows "ipcns_create (ns_env t p) s = (s\<lparr>ns_inums := insert (0xF0000000 + p) (ns_inums s), ns_users := (ns_users s)(0 := ns_users s 0 + 1),
    ns_acct := acct_with p (ns_acct s),
    ns_heap := (ns_heap s)(p \<mapsto> (new_ipc_ns t p)\<lparr>ins_sysctl := False\<rparr>),
    ns_list := ns_list s @ [\<lparr>ie_ns = p, ie_kernel_owned = False, ie_init = False\<rparr>]\<rparr>, Inr p)"
proof -
  have e: "ni_zalloc (ns_env t p) (\<lambda>p. ns_heap s p \<noteq> None) = Some p" "ni_inum (ns_env t p) = Inr (0xF0000000 + p)"
    "pk_cred_ns (ni_pid (ns_env t p)) = 0" "ni_mqueue (ns_env t p) = False" "ni_sysctl (ns_env t p) = None" "ni_entry (ns_env t p) = True"
    using assms(2) by (simp_all add: ns_env_def pid_caller_def)
  note i = new_ipc_init [of p t, OF assms(3)]
  have k: "ns_kernel_owned s = False" using assms(1) by simp
  show ?thesis
    unfolding ipcns_create_def k if_False e(1,2,3) option.case sum.case Let_def i prod.case mq_setup_def e(4-6) by simp
qed

lemma demo_free: "\<not> ns_kernel_owned ns_demo" "ns_heap ns_demo 501 = None"
  by (simp_all add: ns_demo_eq(2) ns_before_def)

definition ns_made_demo :: ns_state where "ns_made_demo = fst (ipcns_create (ns_env 7 501) ns_demo)"

lemma made_demo: "ipcns_create (ns_env 7 501) ns_demo = (ns_made_demo, Inr 501)" "ns_heap ns_made_demo = [500 \<mapsto> host_ipcns, 501 \<mapsto> made_ns]"
  "ns_list ns_made_demo = [\<lparr>ie_ns = 500, ie_kernel_owned = False, ie_init = True\<rparr>, \<lparr>ie_ns = 501, ie_kernel_owned = False, ie_init = False\<rparr>]"
  "ns_host ns_made_demo = Some 500" "ns_pid ns_made_demo = pid_demo" "ns_inums ns_made_demo = {0xF0000000 + 501}"
  "ns_proxies ns_made_demo = [100 \<mapsto> \<lparr>nx_count = 1, nx_ipc = None\<rparr>, 101 \<mapsto> \<lparr>nx_count = 1, nx_ipc = None\<rparr>]"
  unfolding ns_made_demo_def env_create [of ns_demo 501 7, OF demo_free zero_less_numeral] by (simp_all add: ns_demo_eq(2) ns_before_def made_ns_def)

lemma linux_fields [simp]: "nk_create (linux_kernel b) = linux_create" "nk_unshare (linux_kernel b) = linux_unshare" "nk_copy (linux_kernel b) = linux_copy" "nk_has_switch (linux_kernel b)"
  "nk_inlined (linux_kernel b) = b"
  "nk_clone (linux_kernel b) = linux_clone" "nk_check (linux_kernel b) = None"
  by (simp_all add: linux_kernel_def)

definition ns_filled :: ns_state where "ns_filled = fill_proxy 200 None (Some 501) (new_proxy 200 7 ns_made_demo)"

lemma ns_one_wrap: "cnn_wrap (ns_env 7 501) (linux_kernel b) CLONE_NEWIPC 7 ns_demo = (ns_filled, Inr 200)"
proof -
  have p: "new_ns_pair (ns_env 7 501) False True 7 ns_demo = (ns_made_demo, Inr (None, Some 501))" by (simp add: new_ns_pair_def made_demo(1))
  have g: "ni_gate (ns_env 7 501)" by (simp add: ns_env_def)
  have c: "linux_create f 7 ns_made_demo = (new_proxy 200 7 ns_made_demo, Inr 200)" for f
    by (simp add: linux_create_def made_demo proxy_of_def pid_demo_def)
  show ?thesis by (simp add: cnn_wrap_def p g c ns_filled_def Let_def)
qed

lemma filled_facts: "ns_heap ns_filled = [500 \<mapsto> host_ipcns, 501 \<mapsto> made_ns]" "ns_list ns_filled = ns_list ns_made_demo" "ns_host ns_filled = Some 500"
  "ns_proxies ns_filled = [100 \<mapsto> \<lparr>nx_count = 1, nx_ipc = None\<rparr>, 101 \<mapsto> \<lparr>nx_count = 1, nx_ipc = None\<rparr>, 200 \<mapsto> \<lparr>nx_count = 1, nx_ipc = Some 501\<rparr>]"
  "proxy_of ns_filled = [7 \<mapsto> 100, 8 \<mapsto> 101]" "ns_inums ns_filled = {0xF0000000 + 501}"
  by (simp_all add: ns_filled_def fill_proxy_def new_proxy_def set_proxy_ipc_def made_demo proxy_of_def [abs_def] pid_demo_def Let_def)

lemma ns_one_eq: "sys_unshare (ns_env 7 501) (linux_kernel b) True False CLONE_NEWIPC ns_demo
    = (on_pid (keepalive_pin True) (set_task 7 (Some 200) (put_proxy (Some 100) ns_filled)), [ExitSem, ExitShm], None)"
proof -
  have e: "pk_task (ni_pid (ns_env 7 501)) = 7" "ni_gate (ns_env 7 501)" "pk_capable (ni_pid (ns_env 7 501)) x" for x by (simp_all add: ns_env_def pid_caller_def)
  have p: "unshare_precheck (ns_env 7 501) (linux_kernel b) CLONE_NEWIPC ns_demo" by (simp add: unshare_precheck_def e Let_def)
  have x: "exit_calls CLONE_NEWIPC = [ExitSem, ExitShm]" by (simp add: exit_calls_def has_flag_or)
  have o: "own_proxy 7 100 \<lparr>nx_count = 1, nx_ipc = None\<rparr> ns_filled" by (simp add: own_proxy_def filled_facts)
  have w: "switch_wrap (ns_env 7 501) (linux_kernel b) 7 (Some 200) ns_filled = set_task 7 (Some 200) (put_proxy (Some 100) ns_filled)"
    by (simp add: switch_leave [OF linux_ns_ok] leave_last [OF o] nsproxy_drop_def ipcns_is_ours_def)
  have u: "linux_unshare (cnn_wrap (ns_env 7 501) (linux_kernel b)) (switch_wrap (ns_env 7 501) (linux_kernel b)) CLONE_NEWIPC 7 ns_demo
    = (set_task 7 (Some 200) (put_proxy (Some 100) ns_filled), None)"
    by (simp add: linux_unshare_def ns_one_wrap w)
  show ?thesis by (simp add: sys_unshare_def Let_def e p x u)
qed

lemma one_facts: "ns_heap ns_one = [500 \<mapsto> host_ipcns, 501 \<mapsto> made_ns]" "ns_list ns_one = ns_list ns_made_demo" "ns_host ns_one = Some 500"
  "ns_proxies ns_one = [101 \<mapsto> \<lparr>nx_count = 1, nx_ipc = None\<rparr>, 200 \<mapsto> \<lparr>nx_count = 1, nx_ipc = Some 501\<rparr>]"
  "proxy_of ns_one = [7 \<mapsto> 200, 8 \<mapsto> 101]" "ns_inums ns_one = {0xF0000000 + 501}"
proof -
  obtain f where f: "ns_filled = f" by blast
  note F = filled_facts [unfolded f]
  have o: "ns_one = on_pid (keepalive_pin True) (set_task 7 (Some 200) (put_proxy (Some 100) f))" unfolding ns_one_def ns_one_eq f by simp
  show "ns_heap ns_one = [500 \<mapsto> host_ipcns, 501 \<mapsto> made_ns]" "ns_list ns_one = ns_list ns_made_demo" "ns_host ns_one = Some 500" "ns_inums ns_one = {0xF0000000 + 501}"
    "ns_proxies ns_one = [101 \<mapsto> \<lparr>nx_count = 1, nx_ipc = None\<rparr>, 200 \<mapsto> \<lparr>nx_count = 1, nx_ipc = Some 501\<rparr>]"
    using F unfolding o by (simp_all add: on_pid_def set_task_def put_proxy_def fun_eq_iff)
  show "proxy_of ns_one = [7 \<mapsto> 200, 8 \<mapsto> 101]"
    using F(4,5) unfolding o by (auto simp: on_pid_def set_task_def put_proxy_def keepalive_pin_def proxy_of_def fun_eq_iff)
qed

lemma ns_one_reachable: "ns_reachable (linux_kernel b) (\<lambda>_. 0) ns_one"
  by (rule ns_reachable_step [OF ns_demo_reachable], unfold ns_one_def ns_one_eq fst_conv, rule ns_step.unshare [OF ipcns_env_ok ns_one_eq])

text \<open>Process 8 opens the namespace file of process 7.\<close>

definition ns_two :: ns_state where "ns_two = fst (ipcns_get_task 7 ns_one)"

lemma ns_two_open: "ipcns_get_task 7 ns_one = (ns_two, Some 501)"
  by (simp add: ns_two_def ipcns_get_task_def ipcns_task_ns_def one_facts proxy_ipc_def)

lemma ns_two_reachable: "ns_reachable (linux_kernel b) ((\<lambda>_. 0)(501 := 0 + 1)) ns_two"
  by (rule ns_reachable_step [OF ns_one_reachable ns_step.file_open [OF ns_two_open]])

text \<open>Process 7 gets a second proxy, which process 8 switches to: two proxies on one namespace.\<close>

definition ns_both :: ns_state where
  "ns_both = switch_wrap (ns_env 7 502) linux_ns 8 (Some 201) (nsproxy_hold (Some 201) (new_proxy 201 7 ns_one))"

lemma both_create: "cnn_wrap (ns_env 7 502) (linux_kernel b) 0 7 ns_one = (nsproxy_hold (Some 201) (new_proxy 201 7 ns_one), Inr 201)"
  by (simp add: cnn_wrap_def cnn_hold_def linux_create_def one_facts)

lemma ns_both_reachable: "ns_reachable (linux_kernel b) (\<lambda>_. 0) ns_both"
proof -
  have s: "switch_wrap e linux_ns = switch_wrap e (linux_kernel b)" for e
    by (simp add: switch_wrap_def nsproxy_switch_run_def linux_kernel_def fun_eq_iff)
  show ?thesis unfolding ns_both_def s
    by (rule ns_reachable_step [OF ns_reachable_step [OF ns_one_reachable ns_step.create [OF ipcns_env_ok both_create]] ns_step.switch])
qed

lemma both_facts: "ns_heap ns_both 501 = Some (ins_count_update (\<lambda>c. c + 1) made_ns)" "ns_host ns_both = Some 500"
  "ns_proxies ns_both = [200 \<mapsto> \<lparr>nx_count = 1, nx_ipc = Some 501\<rparr>, 201 \<mapsto> \<lparr>nx_count = 1, nx_ipc = Some 501\<rparr>]" "proxy_of ns_both = [7 \<mapsto> 200, 8 \<mapsto> 201]"
proof -
  obtain w where w: "nsproxy_hold (Some 201) (new_proxy 201 7 ns_one) = w" by blast
  have i: "proxy_ipc (new_proxy 201 7 ns_one) 201 = Some 501" by (simp add: new_proxy_ipc task_ipc_def one_facts proxy_ipc_def)
  have l: "ipcns_is_ours (new_proxy 201 7 ns_one) (Some 501)" by (simp add: ipcns_is_ours_def new_proxy_def one_facts made_demo(3))
  have h: "w = ns_upd 501 (ins_count_update (\<lambda>c. c + 1)) (new_proxy 201 7 ns_one)" using w i l by (simp add: nsproxy_hold_def ipcns_get_def)
  have p: "task_ipc ns_one 7 = Some 501" by (simp add: task_ipc_def one_facts proxy_ipc_def)
  have W: "ns_heap w 501 = Some (ins_count_update (\<lambda>c. c + 1) made_ns)" "ns_host w = Some 500" "proxy_of w = [7 \<mapsto> 200, 8 \<mapsto> 101]"
    "ns_proxies w = [101 \<mapsto> \<lparr>nx_count = 1, nx_ipc = None\<rparr>, 200 \<mapsto> \<lparr>nx_count = 1, nx_ipc = Some 501\<rparr>, 201 \<mapsto> \<lparr>nx_count = 1, nx_ipc = Some 501\<rparr>]"
  proof -
    have "proxy_of w = proxy_of ns_one" by (simp add: h new_proxy_def proxy_of_def fun_eq_iff)
    then show "proxy_of w = [7 \<mapsto> 200, 8 \<mapsto> 101]" by (simp add: one_facts)
  qed (simp_all add: h one_facts new_proxy_def p)
  have o: "own_proxy 8 101 \<lparr>nx_count = 1, nx_ipc = None\<rparr> w" using W by (simp add: own_proxy_def)
  have b: "ns_both = set_task 8 (Some 201) (put_proxy (Some 101) w)"
    by (simp add: ns_both_def w switch_leave [OF linux_ns_ok] leave_last [OF o] nsproxy_drop_def ipcns_is_ours_def)
  show "ns_heap ns_both 501 = Some (ins_count_update (\<lambda>c. c + 1) made_ns)" "ns_host ns_both = Some 500" unfolding b by (simp_all add: leave_fields W)
  show "ns_proxies ns_both = [200 \<mapsto> \<lparr>nx_count = 1, nx_ipc = Some 501\<rparr>, 201 \<mapsto> \<lparr>nx_count = 1, nx_ipc = Some 501\<rparr>]"
    unfolding b by (simp add: set_task_fields put_proxy_def W fun_eq_iff)
  show "proxy_of ns_both = [7 \<mapsto> 200, 8 \<mapsto> 201]"
    using W(3) unfolding b by (auto simp: set_task_def put_proxy_def W(4) proxy_of_def fun_eq_iff)
qed

lemma two_facts: "ns_heap ns_two 501 = Some (ins_count_update (\<lambda>c. c + 1) made_ns)" "ns_list ns_two = ns_list ns_made_demo" "ns_host ns_two = Some 500"
  "ns_proxies ns_two = [101 \<mapsto> \<lparr>nx_count = 1, nx_ipc = None\<rparr>, 200 \<mapsto> \<lparr>nx_count = 1, nx_ipc = Some 501\<rparr>]" "proxy_of ns_two = [7 \<mapsto> 200, 8 \<mapsto> 101]"
proof -
  have t: "ns_two = ns_upd 501 (ins_count_update (\<lambda>c. c + 1)) ns_one"
    by (simp add: ns_two_def ipcns_get_task_def ipcns_task_ns_def one_facts proxy_ipc_def ipcns_get_def)
  show "ns_heap ns_two 501 = Some (ins_count_update (\<lambda>c. c + 1) made_ns)" "ns_list ns_two = ns_list ns_made_demo" "ns_host ns_two = Some 500"
    "ns_proxies ns_two = [101 \<mapsto> \<lparr>nx_count = 1, nx_ipc = None\<rparr>, 200 \<mapsto> \<lparr>nx_count = 1, nx_ipc = Some 501\<rparr>]" unfolding t by (simp_all add: one_facts)
  show "proxy_of ns_two = [7 \<mapsto> 200, 8 \<mapsto> 101]" unfolding t using one_facts(5) by (simp add: proxy_of_def fun_eq_iff)
qed

end
