(* ===== verification/NsMain.thy ===== *)
theory NsMain
  imports NsDemo
begin

text \<open>
  The properties of the ipc namespaces: that references are counted over any run of the hooked
  functions, what a creation does, and the four places where the count goes wrong.
\<close>





text \<open>C17. \<^verbatim>\<open>setns\<close> on an ipc namespace takes no reference for the proxy it fills, though the end of that proxy drops one: a task that
  enters a namespace through an open file, closes the file and exits frees the namespace while the
  task it belongs to is still in it.\<close>

theorem setns_frees_used:
  assumes "ns_kernel_ok K" and "ns_reachable K F s" and "task_ipc s a = Some p" and "t \<noteq> a" and "task_ipc s t \<noteq> Some p"
    and "ns_host s \<noteq> Some p" and "ns_heap s p = Some n" and "ins_count n = 2"
    and "cnn_wrap e K 0 t s = (u, Inr np)" and "ipcns_install e np cred p u = (v, Inr ())"
    and "w = exit_ns_wrap e K t (ipcns_put e (Some p) (switch_wrap e K t (Some np) v))"
  shows "task_ipc w a = Some p \<and> ns_heap w p = None"
  unfolding assms(11) using setns_frees [OF assms(1) ns_reachable_inv [OF assms(1,2)] assms(3-10)] by blast

lemma two_create: "linux_create 0 8 ns_two = (new_proxy 201 8 ns_two, Inr 201)"
  by (simp add: linux_create_def two_facts)

lemma setns_frees_used_witness: "\<exists>w. task_ipc w 7 = Some 501 \<and> ns_heap w 501 = None"
proof -
  let ?e = "ns_env 8 502" and ?u = "nsproxy_hold (Some 201) (new_proxy 201 8 ns_two)"
  have c: "cnn_wrap ?e linux_ns 0 8 ns_two = (?u, Inr 201)" by (simp add: cnn_wrap_def cnn_hold_def two_create)
  have i: "proxy_ipc (new_proxy 201 8 ns_two) 201 = None" by (simp add: new_proxy_ipc task_ipc_def two_facts proxy_ipc_def)
  have "ns_heap (new_proxy 201 8 ns_two) 501 = Some (ins_count_update (\<lambda>c. c + 1) made_ns)"
    using new_proxy_fields(1) [of ns_two 201 8] by (simp add: same_ipc_def two_facts(1))
  then have h: "ns_heap ?u 501 = Some (ins_count_update (\<lambda>c. c + 1) made_ns)" by (simp add: nsproxy_hold_def i)
  have m: "ins_count made_ns = 1" "ins_user made_ns = Some 0" by (simp_all add: made_ns_def new_ipc_fields)
  have v: "ipcns_install ?e 201 0 501 ?u = (set_proxy_ipc 201 (Some 501) ?u, Inr ())"
    by (simp add: ipcns_install_def h m ns_env_def pid_caller_def)
  have t: "task_ipc ns_two 7 = Some 501" "task_ipc ns_two 8 \<noteq> Some 501" by (simp_all add: task_ipc_def two_facts proxy_ipc_def)
  show ?thesis
    using setns_frees_used [OF linux_ns_ok ns_two_reachable t(1) _ t(2) _ two_facts(1) _ c v refl] m(1) by (auto simp: two_facts(3))
qed



text \<open>Where \<^verbatim>\<open>exit_task_namespaces\<close> calls the hooked \<^verbatim>\<open>switch_task_namespaces\<close>, both hooks drop the reference of the proxy: when the last user
  of a proxy exits and one other proxy refers to the namespace, the namespace is freed under the task that has that proxy.\<close>

theorem exit_drops_twice:
  assumes "ns_kernel_ok K" and "\<not> nk_inlined K" and "ns_reachable K F s"
    and "proxy_of s t = Some q" and "ns_proxies s q = Some x" and "nx_count x = 1" and "nx_ipc x = Some p"
    and "task_ipc s a = Some p" and "proxy_of s a \<noteq> Some q" and "ns_heap s p = Some n" and "ins_count n = 2" and "ns_host s \<noteq> Some p"
  shows "task_ipc (exit_ns_wrap e K t s) a = Some p \<and> ns_heap (exit_ns_wrap e K t s) p = None"
proof -
  have "own_proxy t q x s" using assms(4,5) by (simp add: own_proxy_def)
  from exit_twice [OF assms(1,2) ns_reachable_inv [OF assms(1,3)] this assms(6-12)] show ?thesis .
qed

lemma exit_drops_twice_witness:
  "task_ipc (exit_ns_wrap (ns_env 7 502) (linux_kernel False) 7 ns_both) 8 = Some 501 \<and> ns_heap (exit_ns_wrap (ns_env 7 502) (linux_kernel False) 7 ns_both) 501 = None"
proof -
  have "task_ipc ns_both 8 = Some 501" by (simp add: task_ipc_def both_facts proxy_ipc_def)
  moreover have "ins_count made_ns = 1" by (simp add: made_ns_def new_ipc_fields)
  ultimately show ?thesis
    using exit_drops_twice [OF linux_ns_ok _ ns_both_reachable, of False 7 200 "\<lparr>nx_count = 1, nx_ipc = Some 501\<rparr>" 501 8] by (simp add: both_facts)
qed

text \<open>C18. \<^verbatim>\<open>clone(CLONE_NEWIPC)\<close> copies the caller's proxy past the hook that counts it and switches to the copy through the hook that
  drops the old one: a caller alone in its proxy and its namespace loses the namespace to
  \<^verbatim>\<open>kfree\<close> before the kernel's clone runs, and the way back puts the saved pointer to the freed memory into the proxy the caller goes on with.\<close>

theorem clone_frees_own:
  assumes "ns_kernel_ok K" and "ns_reachable K F s" and "kmalloc_ok (ni_zalloc e)" and "\<forall>i. ni_inum e = Inr i \<longrightarrow> i \<noteq> 0 \<and> i \<notin> ns_inums s"
    and "proxy_of s (pk_task (ni_pid e)) = Some q" and "ns_proxies s q = Some x" and "nx_count x = 1" and "nx_ipc x = Some p"
    and "ns_heap s p = Some n" and "ins_count n = 1" and "ns_host s \<noteq> Some p"
    and "has_flag flags CLONE_NEWIPC" and "clone_ns_ready e K True flags" and "clone_ns_check flags = None"
    and "clone_ctx_enter e K flags s = (u, Inr ctx)" and "nk_clone K (cn_wrap e K) (inner_flags flags) (pk_task (ni_pid e)) u = (w, r)"
    and "\<forall>y \<in> set (ns_list w). \<not> ie_kernel_owned y" and "proxy_of w (pk_task (ni_pid e)) = Some np"
    and "ns_proxies w np \<noteq> None" and "pd_nsproxy (ns_pid w) np \<noteq> None"
  shows "ns_heap u p = None \<and> (\<exists>z. sys_clone e K True flags s = (z, Answer r) \<and> task_ipc z (pk_task (ni_pid e)) = Some p)"
proof -
  have inv: "ns_inv {} F s" by (rule ns_reachable_inv [OF assms(1,2)])
  have o: "own_proxy (pk_task (ni_pid e)) q x s" using assms(5,6) by (simp add: own_proxy_def)
  have ctx: "cx_ipc ctx = Some p \<and> ns_heap u p = None"
    by (rule clone_enter_frees [OF assms(1,3) inv assms(4) [rule_format] o assms(7-11,12,15)])
  have h: "nk_has_switch K" using assms(13) by (simp add: clone_ns_ready_def)
  have w: "all_ours w" using assms(17) by (simp add: all_ours_def)
  have "sys_clone e K True flags s = (clone_ctx_leave e K ctx w, Answer r)" using assms(13-16) by (simp add: sys_clone_def Let_def)
  then show ?thesis using ctx clone_leave_restores [OF assms(1) h w assms(18-20), of ctx] by simp
qed

definition ns_cloning :: "ns_state \<times> clone_ctx result" where
  "ns_cloning = clone_ctx_enter (ns_env 7 502) linux_ns CLONE_NEWIPC ns_one"

lemma inner_ipc: "inner_flags CLONE_NEWIPC = 0"
  by (simp add: inner_flags_def clone_flags)

lemma ns_cloning_facts: "\<exists>u ctx. ns_cloning = (u, Inr ctx) \<and> all_ours u \<and> proxy_of u 7 = Some 201 \<and> ns_proxies u 201 = Some \<lparr>nx_count = 1, nx_ipc = Some 502\<rparr>
    \<and> pd_nsproxy (ns_pid u) 201 \<noteq> None"
proof -
  let ?e = "ns_env 7 502"
  have k: "\<not> ns_kernel_owned ns_one" "ns_heap ns_one 502 = None" using ipcns_parts(2) [OF ns_reachable_inv [OF linux_ns_ok ns_one_reachable]] by (simp_all add: one_facts)
  obtain v where v: "ipcns_create ?e ns_one = (v, Inr 502)" "ns_proxies v = ns_proxies ns_one" "ns_pid v = ns_pid ns_one"
      "ns_list v = ns_list ns_one @ [\<lparr>ie_ns = 502, ie_kernel_owned = False, ie_init = False\<rparr>]"
    using env_create [OF k zero_less_numeral, of 7] by auto
  have vp: "proxy_of v 7 = Some 200" using v(3) one_facts(5) by (simp add: proxy_of_def fun_eq_iff)
  have vo: "all_ours v" by (simp add: all_ours_def v(4) one_facts(2) made_demo(3))
  have c: "linux_create 0 7 v = (new_proxy 201 7 v, Inr 201)" by (simp add: linux_create_def vp v(2) one_facts(4))
  obtain w where w: "new_proxy 201 7 v = w" by blast
  have W: "proxy_of w 7 = Some 200" "ns_proxies w 200 = Some \<lparr>nx_count = 1, nx_ipc = Some 501\<rparr>" "ns_proxies w 201 = Some \<lparr>nx_count = 1, nx_ipc = Some 501\<rparr>"
    "pd_nsproxy (ns_pid w) 201 \<noteq> None" "all_ours w"
    using new_proxy_there(2) [of 201 7 v] vp vo unfolding w [symmetric]
    by (simp_all add: v(2) one_facts(4) task_ipc_def proxy_ipc_def) (simp_all add: new_proxy_def proxy_of_def all_ours_def)
  have o: "own_proxy 7 200 \<lparr>nx_count = 1, nx_ipc = Some 501\<rparr> w" using W(1,2) by (simp add: own_proxy_def)
  let ?u = "set_task 7 (Some 201) (put_proxy (Some 200) w)"
  have uo: "all_ours ?u" using W(5) by (simp add: all_ours_def leave_fields)
  have U: "proxy_of ?u 7 = Some 201" "ns_proxies ?u 201 = Some \<lparr>nx_count = 1, nx_ipc = Some 501\<rparr>" "pd_nsproxy (ns_pid ?u) 201 \<noteq> None"
    using put_proxy_other [of "Some 200" 201 w] W(3,4) by (simp_all add: set_task_fields)
  obtain m where m: "switch_wrap ?e linux_ns 7 (Some 201) w = m" by blast
  have "m = ?u \<or> m = ipcns_put ?e (Some 501) ?u" using drop_put [OF uo, of ?e "Some 501"] m by (simp add: switch_leave [OF linux_ns_ok] leave_last [OF o])
  then have M: "proxy_of m 7 = Some 201" "ns_proxies m 201 = Some \<lparr>nx_count = 1, nx_ipc = Some 501\<rparr>" "pd_nsproxy (ns_pid m) 201 \<noteq> None" "all_ours m"
    using U uo ipc_put_fields(1-3) [OF uo, of ?e "Some 501"] by (auto simp: proxy_of_def)
  have t: "pk_task (ni_pid ?e) = 7" by (simp add: ns_env_def pid_caller_def)
  have "ns_cloning = (set_proxy_ipc 201 (Some 502) m, Inr \<lparr>cx_pid = proxy_pid m 201, cx_ipc = proxy_ipc m 201\<rparr>)"
    by (simp add: ns_cloning_def clone_ctx_enter_def t new_ns_pair_def v(1) c w m Let_def)
  moreover have "all_ours (set_proxy_ipc 201 (Some 502) m)" "proxy_of (set_proxy_ipc 201 (Some 502) m) 7 = Some 201"
    "ns_proxies (set_proxy_ipc 201 (Some 502) m) 201 = Some \<lparr>nx_count = 1, nx_ipc = Some 502\<rparr>" "pd_nsproxy (ns_pid (set_proxy_ipc 201 (Some 502) m)) 201 \<noteq> None"
    using M by (simp_all add: set_proxy_ipc_def all_ours_def) (simp_all add: proxy_of_def)
  ultimately show ?thesis by blast
qed

lemma clone_frees_own_witness: "\<exists>z. sys_clone (ns_env 7 502) linux_ns True CLONE_NEWIPC ns_one = (z, Answer 99) \<and> task_ipc z 7 = Some 501"
proof -
  let ?e = "ns_env 7 502"
  have t: "pk_task (ni_pid ?e) = 7" by (simp add: ns_env_def pid_caller_def)
  have i: "\<forall>i. ni_inum ?e = Inr i \<longrightarrow> i \<noteq> 0 \<and> i \<notin> ns_inums ns_one" by (simp add: ns_env_def one_facts(6))
  have rd: "clone_ns_ready ?e linux_ns True CLONE_NEWIPC" by (simp add: clone_ns_ready_def has_flag_or) (simp add: ns_env_def)
  have ck: "clone_ns_check CLONE_NEWIPC = None" by (simp add: clone_ns_check_def has_flag_or) (simp add: clone_flags)
  obtain u ctx where u: "clone_ctx_enter ?e linux_ns CLONE_NEWIPC ns_one = (u, Inr ctx)" and uo: "all_ours u" and up: "proxy_of u 7 = Some 201"
      "ns_proxies u 201 = Some \<lparr>nx_count = 1, nx_ipc = Some 502\<rparr>" "pd_nsproxy (ns_pid u) 201 \<noteq> None"
    using ns_cloning_facts unfolding ns_cloning_def by blast
  let ?c = "set_task 99 (Some 201) u"
  let ?w = "nsproxy_hold (Some 201) (share_proxy 99 ?c)"
  have cp: "proxy_of ?c 99 = Some 201" "ns_proxies ?c 201 = Some \<lparr>nx_count = 1, nx_ipc = Some 502\<rparr>" using up(2) by (simp_all add: set_task_fields)
  have sp: "proxy_of (share_proxy 99 ?c) 99 = Some 201" "proxy_of (share_proxy 99 ?c) 7 = Some 201" using up(1) cp by (simp_all add: share_proxy_def) (simp_all add: set_task_def proxy_of_def)
  have "linux_copy (cnn_wrap ?e linux_ns) 0 99 ?c = (share_proxy 99 ?c, None)" by (simp add: linux_copy_def cp up)
  then have cw: "cn_wrap ?e linux_ns 0 99 ?c = (?w, None)" by (simp add: cn_wrap_def sp)
  then have w: "nk_clone linux_ns (cn_wrap ?e linux_ns) (inner_flags CLONE_NEWIPC) 7 u = (?w, 99)" by (simp add: linux_clone_def inner_ipc up(1))
  have hf: "ns_list (nsproxy_hold a s) = ns_list s" "proxy_of (nsproxy_hold a s) = proxy_of s" "ns_proxies (nsproxy_hold a s) = ns_proxies s"
    "ns_pid (nsproxy_hold a s) = ns_pid s" for a s
    by (auto simp: nsproxy_hold_def ipcns_get_def proxy_of_def fun_eq_iff split: option.split)
  have W: "\<forall>y \<in> set (ns_list ?w). \<not> ie_kernel_owned y" "proxy_of ?w 7 = Some 201" "ns_proxies ?w 201 \<noteq> None" "pd_nsproxy (ns_pid ?w) 201 \<noteq> None"
    using uo up cp sp by (simp_all add: hf share_proxy_def all_ours_def) (simp_all add: set_task_def)
  have m: "ins_count made_ns = 1" by (simp add: made_ns_def new_ipc_fields)
  have "ns_heap u 501 = None \<and> (\<exists>z. sys_clone ?e linux_ns True CLONE_NEWIPC ns_one = (z, Answer 99) \<and> task_ipc z (pk_task (ni_pid ?e)) = Some 501)"
    by (rule clone_frees_own [OF linux_ns_ok ns_one_reachable ipcns_env_ok i, where q = 200 and x = "\<lparr>nx_count = 1, nx_ipc = Some 501\<rparr>" and n = made_ns and w = ?w and np = 201])
      (use rd ck u w W m t in \<open>simp_all add: one_facts\<close>)
  then show ?thesis by (simp add: t)
qed

end
