(* ===== verification/Spec2Isabelle.thy ===== *)
theory Spec2Isabelle
  imports Prelude IpcUtil IpcTable Compat32 MsgUtil MsgQueue MsgQueueLaws MsgInvariant MsgProps MsgSystem MsgReach
    SemArray SemArrayLaws SemWake SemQuiet SemSettle SemOrder SemCall SemReach SemProps SemSet
    IpcClass SemFrame SemInv SemRemove SemCtl SemUndo SemExit SemOps SemNew SemSys
    ShmSeg ShmCtl ShmMap ShmInv ShmLife ShmOps ShmCalls ShmNew ShmDetach ShmSys ShmProps ShmMain
    MqQueue MqTree MqContent MqWait MqSys MqNs MqAcct MqMain SlotTable SlotLaws SlotInit SlotMain
    PidNs PidLife PidInv PidKeep PidSpec PidExit PidMain
    UnsMap UnsText UnsLife UnsKeep UnsMain
    IpcNs NsProxy NsInv NsOps NsWrap NsSys NsStep NsFacts NsBugs NsCreate NsDemo NsMain
begin

text \<open>
  A model of the IPC part of the \<^verbatim>\<open>_patchHarmony\<close> kernel module, with its correctness theorems.

  \<^bold>\<open>The program.\<close> The module loads into a phone kernel that was built without IPC namespaces
  and brings the missing subsystems along: System V message queues, semaphores and shared
  memory (\<^verbatim>\<open>src/src/main/ipcns/sysv\<close>) over a table of ids (\<^verbatim>\<open>ipc_util.c\<close>), POSIX message queues,
  the namespaces that hold them, and the hooks that direct the system calls of the kernel to
  them. The model is about the System V subsystems, all their state and every operation that
  changes it, about POSIX message queues below the file system layer, about the pid and IPC
  namespaces and how tasks get them, and about the system call tables the module takes over.

  \<^bold>\<open>Components and theories.\<close>

  \<^item> \<^verbatim>\<open>Prelude\<close>: error codes, results (\<open>Inl\<close> the error), C integer conversions, the id-to-pointer
    tables of the kernel as association lists, the view of the calling task, generic lemmas.
  \<^item> Id tables, \<^verbatim>\<open>ipc_util.c\<close> and \<^verbatim>\<open>ipc_util.h\<close>: \<^verbatim>\<open>IpcUtil\<close> has the permission record every object
    starts with, the table of a class (\<open>ipc_ids\<close>: the index table, the key table, the sequence
    number, the counts and the heap of objects), insertion, removal, lookup, permission checks,
    get-or-create, the proc iteration and the release loop. \<^verbatim>\<open>IpcTable\<close> proves round trips,
    stale ids and the iteration; \<^verbatim>\<open>IpcClass\<close> sums and references over the objects of a table.
  \<^item> 32 bit permission structures, \<^verbatim>\<open>ipc_compat32.c\<close>: \<^verbatim>\<open>Compat32\<close>.
  \<^item> Message bodies, \<^verbatim>\<open>ipc_msgutil.c\<close>: \<^verbatim>\<open>MsgUtil\<close>, the chain of pages of a message and its copies.
  \<^item> Message queues, \<^verbatim>\<open>ipc_msg.c\<close>: \<^verbatim>\<open>MsgQueue\<close> is the code; \<open>do_msgsnd\<close> and \<open>do_msgrcv\<close> run up to the
    result or the sleep, \<open>msgsnd_resume\<close> and \<open>msgrcv_resume\<close> from the wake-up on. \<^verbatim>\<open>MsgQueueLaws\<close>,
    \<^verbatim>\<open>MsgInvariant\<close> and \<^verbatim>\<open>MsgProps\<close> have the laws and the invariant of a namespace, \<^verbatim>\<open>MsgSystem\<close> and
    \<^verbatim>\<open>MsgReach\<close> the system of all tasks, sleeping ones included.
  \<^item> Semaphores, \<^verbatim>\<open>ipc_sem.c\<close>: \<^verbatim>\<open>SemArray\<close> is the engine of one array (the two paths of
    \<^verbatim>\<open>perform_atomic_semop\<close>, the queues, the wake-up passes, the switch of the lock mode),
    \<^verbatim>\<open>SemCall\<close> the critical sections of the calls, \<^verbatim>\<open>SemSet\<close> the calls on a namespace, undo
    lists, exit and release. \<^verbatim>\<open>SemArrayLaws\<close>, \<^verbatim>\<open>SemWake\<close>, \<^verbatim>\<open>SemQuiet\<close>, \<^verbatim>\<open>SemSettle\<close> and \<^verbatim>\<open>SemOrder\<close>
    are the laws of the engine, \<^verbatim>\<open>SemReach\<close> and \<^verbatim>\<open>SemProps\<close> one array over time; \<^verbatim>\<open>SemFrame\<close> says
    what a section leaves alone, \<^verbatim>\<open>SemInv\<close>, \<^verbatim>\<open>SemRemove\<close>, \<^verbatim>\<open>SemCtl\<close>, \<^verbatim>\<open>SemUndo\<close>, \<^verbatim>\<open>SemExit\<close>, \<^verbatim>\<open>SemOps\<close>
    and \<^verbatim>\<open>SemNew\<close> the invariant of a namespace and every call on it, \<^verbatim>\<open>SemSys\<close> all tasks.
  \<^item> Shared memory, \<^verbatim>\<open>ipc_shm.c\<close>, with the list of a task (\<^verbatim>\<open>ipc_shim.c\<close>) and the handler of
    \<^verbatim>\<open>shm_rmid_forced\<close> (\<^verbatim>\<open>ipc_sysctl.c\<close>): \<^verbatim>\<open>ShmSeg\<close> has segments, backing files, \<^verbatim>\<open>shmget\<close>, the
    callbacks of a mapping, orphans, the exit of a creator and the release of a namespace,
    \<^verbatim>\<open>ShmCtl\<close> \<^verbatim>\<open>shmctl\<close> and the counters, \<^verbatim>\<open>ShmMap\<close> \<^verbatim>\<open>shmat\<close> in its phases and \<^verbatim>\<open>shmdt\<close>. \<^verbatim>\<open>ShmInv\<close>,
    \<^verbatim>\<open>ShmLife\<close>, \<^verbatim>\<open>ShmOps\<close>, \<^verbatim>\<open>ShmCalls\<close>, \<^verbatim>\<open>ShmNew\<close> and \<^verbatim>\<open>ShmDetach\<close> prove that every operation leads
    from the invariant to the invariant, \<^verbatim>\<open>ShmSys\<close> puts all tasks and address spaces together,
    \<^verbatim>\<open>ShmProps\<close> and \<^verbatim>\<open>ShmMain\<close> state what follows.
  \<^item> POSIX message queues, \<^verbatim>\<open>ipc_mqueue.c\<close> and the accounting of \<^verbatim>\<open>ipc_mqueue_shim.c\<close>: \<^verbatim>\<open>MqQueue\<close> is
    one queue under its lock (the tree of priorities, the waiters, send and receive up to the
    result or the sleep and from the wake-up on, notification), \<^verbatim>\<open>MqTree\<close> and \<^verbatim>\<open>MqContent\<close> the list
    of messages the tree stands for, \<^verbatim>\<open>MqWait\<close> the sleeping tasks, \<^verbatim>\<open>MqSys\<close> one queue with all its
    users; \<^verbatim>\<open>MqNs\<close> is creation, names, open files and the end of queues, \<^verbatim>\<open>MqAcct\<close> the queues of a
    namespace over time; \<^verbatim>\<open>MqMain\<close> states what follows.
  \<^item> System call slots, \<^verbatim>\<open>ds_slot.c\<close>: \<^verbatim>\<open>SlotTable\<close> has the rows, the patching of an entry, start and end,
    and the gate; \<^verbatim>\<open>SlotLaws\<close> the list of saves and what a changed entry is accounted for by, \<^verbatim>\<open>SlotInit\<close>
    the loops, \<^verbatim>\<open>SlotMain\<close> start and end as a whole.
  \<^item> Pid namespaces, \<^verbatim>\<open>pidns.c\<close> with the reboot call and the creation for a caller of \<^verbatim>\<open>ds_slot.c\<close>:
    \<^verbatim>\<open>PidNs\<close> has the namespaces, references, the operations of their files and reboot, \<^verbatim>\<open>PidLife\<close> the exit
    of a first process, the thread that kills the rest, the pinning of the module and unload. \<^verbatim>\<open>PidInv\<close> and
    \<^verbatim>\<open>PidKeep\<close> have the tree of namespaces and that every step of the module and the kernel keeps it,
    \<^verbatim>\<open>PidSpec\<close>, \<^verbatim>\<open>PidExit\<close> and \<^verbatim>\<open>PidMain\<close> unload and what the operations do.
  \<^item> IPC namespaces, \<^verbatim>\<open>ipcns.c\<close> with the hooked functions and the calls \<^verbatim>\<open>unshare\<close>, \<^verbatim>\<open>clone\<close>, \<^verbatim>\<open>clone3\<close> of
    \<^verbatim>\<open>ds_slot.c\<close>: \<^verbatim>\<open>IpcNs\<close> has the namespaces (each with the tables of the four classes), creation,
    references, release, set-up and unload, \<^verbatim>\<open>NsProxy\<close> the way tasks get and leave them. \<^verbatim>\<open>NsInv\<close> states what is documented
    of the kernel's functions (\<open>ns_kernel_ok\<close>) and that references are counted; \<^verbatim>\<open>NsOps\<close>, \<^verbatim>\<open>NsWrap\<close>, \<^verbatim>\<open>NsSys\<close> and
    \<^verbatim>\<open>NsStep\<close> take that through the parts, the wrappers, the calls and time. \<^verbatim>\<open>NsFacts\<close>, \<^verbatim>\<open>NsBugs\<close> and \<^verbatim>\<open>NsCreate\<close>
    have what is wrong with \<^verbatim>\<open>setns\<close>, forks and \<^verbatim>\<open>clone\<close> and the outcome of a creation, \<^verbatim>\<open>NsDemo\<close> a
    kernel as the contract has it, \<^verbatim>\<open>NsMain\<close> what follows.

  \<^bold>\<open>State and effects.\<close> A namespace of a class is a record; an operation takes it and returns it
  changed. Objects live in a heap \<open>objs\<close> from pointers to records, so a reference that outlives
  the removal of an object is visible. Every \<^verbatim>\<open>kmalloc\<close>, copy from or to the user, security hook
  and clock is a field of an environment record, an argument of the operations. A critical
  section under a lock is one step; a call that sleeps is split where it gives the lock up, and
  the step relations (\<open>msg_step\<close>, \<open>arr_step\<close>, \<open>sys_step\<close>, \<open>shm_step\<close>,
  \<open>mq_step\<close>, \<open>mq_ns_step\<close>, \<open>pid_step\<close>, \<open>ns_step\<close>) interleave the pieces of all tasks.

  \<^bold>\<open>Interfaces.\<close> \<open>ipc_class\<close> is what the release of a namespace relies on (freeing an object takes
  exactly its index out of the table and keeps the invariant), \<open>ipc_getter\<close> what \<^verbatim>\<open>ipcget\<close> relies
  on (a created object resolves under the id that is returned). Both are interpreted on the three
  classes: \<open>mq_class\<close>, \<open>sem_class\<close>, \<open>shm_class\<close> with \<^verbatim>\<open>freeque\<close>, \<^verbatim>\<open>freeary\<close>, \<^verbatim>\<open>do_shm_rmid\<close>, and
  \<open>mq_getter\<close>, \<open>sem_getter\<close>, \<open>shm_getter\<close> with \<^verbatim>\<open>newque\<close>, \<^verbatim>\<open>newary\<close>, \<^verbatim>\<open>newseg\<close>.

  \<^bold>\<open>What is shown.\<close> In every reachable state of each class the counters, references and the
  accounting of the namespace are exact and no task is left waiting on something that is gone.
  A waiting semaphore operation that could proceed is never left asleep; a wake-up pass wakes
  exactly whom it dequeues; the fast path of an operation list agrees with the slow one and
  both with a specification by a single fold. Ids do not come back within 65535 creations, a
  removed id no longer resolves. Calls on messages, semaphores and segments are characterised on
 their branches, errors included, and every loop is shown to end. A POSIX queue loses and makes up no
  message, delivers by priority and age, and leaves nobody asleep who could go on; its tree is a
  correct implementation of a list. The end of the module gives the system call tables back as they
  were, and while it runs a caller it does not serve gets the kernel's own call. The pid namespaces
  of a reachable state form a tree of at most 32 levels, entering one or asking for its parent follows the
  tree, and unload frees exactly what nothing holds. An IPC namespace that a proxy or a file refers to is in memory,
  as long as nobody uses \<^verbatim>\<open>setns\<close> on one or \<^verbatim>\<open>clone\<close> to make one, and its creation does everything or nothing. Some
  properties show what the code does wrong: the spinning exit loop, the pieces \<^verbatim>\<open>shmdt\<close> leaves mapped, the count of
  POSIX queues that only grows, the reboot without a check, the threads unload forgets, the namespaces \<^verbatim>\<open>setns\<close> and
  \<^verbatim>\<open>clone\<close> free while they are used and the ones a fork keeps for ever.

  \<^bold>\<open>Loops and fuel.\<close> \<open>update_loop\<close> gets one scan for every queued operation and one more, as each
  restart dequeues one; \<open>ss_walk\<close> and the searches are structural; \<open>ds_free_loop\<close> and the loops of
  \<^verbatim>\<open>SHM_INFO\<close> get \<open>nat ipc_mni\<close>, one round per possible index; \<open>exit_sem_loop\<close> gets the number of
  undo structures and one more, \<open>exit_shm_loop\<close> the length of the task's list and one more. In each
  case a theorem says that the result is not \<open>None\<close>. The walks of \<^verbatim>\<open>shmdt\<close> have termination proofs.
  \<open>msg_get_loop\<close> gets the number of nodes of the tree and one more, each retry erasing one, and the
  drain of a POSIX queue the number of its messages and one more. The climbs to a parent namespace get the
  level and one more, and the wait of the killing thread is the code's own 500 rounds.

  \<^bold>\<open>Not modelled.\<close> Memory barriers, RCU grace periods and the individual locks: the model steps
  from one critical section to the next. The page tables behind a mapping, the faults and the
  page operations shared memory passes on to its backing file. The formatting of proc files
  apart from the values they print. Of POSIX message queues the mount, the
  registration of the file system, the compat layouts and the sysctl tables; the red-black tree,
  directory entries and inodes are the kernel's, and enter as arguments (\<open>rb_ok\<close> is what the
  kernel documents of its tree). Of pid namespaces the kernel's
  own part (pids, tasks and their proxies, capabilities) enters as steps and arguments, and the sysctl table is left
  out. The kernel's functions that copy, switch and drop the proxy of a task are arguments, with \<open>ns_kernel_ok\<close> as the
  contract for a kernel without IPC namespaces; the tables inside a namespace change in \<open>ns_step\<close> in any way that keeps
  their release ending, which the theories of the classes are about. The function hooks, the symbol lookup, user
  namespaces, \<^verbatim>\<open>devtmpfs\<close> and the proc files of the module are parts of the program without a model; patching kernel
  text and probing symbols and struct layouts act on memory no definition here has.
\<close>

end
